(* ===== verification/Prelude.thy ===== *)
theory Prelude
  imports Main "HOL-Library.Word" "HOL-Library.Char_ord" "HOL-Library.Code_Target_Nat"
begin

text \<open>
  Shared vocabulary of the development: bytes and byte buffers, the result type of fallible
  routines, Rust's checked slice and integer operations, and the big- and little-endian
  codecs of fixed-width integers with their round trips.

  A Rust u64/usize length or offset is a natural number; the operations whose
  overflow behaviour the code relies on (checked and saturating) carry the bound
  explicitly. Rust strings are lists of their UTF-8 bytes, written as Isabelle strings.
\<close>

named_theorems len_simps "lengths of generated byte strings"
named_theorems codec_simps "decoding what an encoder produced"

type_synonym byte = "8 word"
type_synonym bytes = "8 word list"

subsection \<open>Fallible results\<close>

abbreviation Err :: "'e \<Rightarrow> 'e + 'a" where "Err \<equiv> Inl"
abbreviation Ok :: "'a \<Rightarrow> 'e + 'a" where "Ok \<equiv> Inr"

fun rbind :: "'e + 'a \<Rightarrow> ('a \<Rightarrow> 'e + 'b) \<Rightarrow> 'e + 'b" where
  "rbind (Inl e) f = Inl e"
| "rbind (Inr x) f = f x"

fun ok_or :: "'a option \<Rightarrow> 'e \<Rightarrow> 'e + 'a" where
  "ok_or None e = Inl e"
| "ok_or (Some x) e = Inr x"

definition require :: "bool \<Rightarrow> 'e \<Rightarrow> 'e + unit" where
  "require c e = (if c then Inr () else Inl e)"

fun res_ok :: "'e + 'a \<Rightarrow> 'a option" where
  "res_ok (Inl e) = None"
| "res_ok (Inr x) = Some x"

fun map_err :: "('e \<Rightarrow> 'f) \<Rightarrow> 'e + 'a \<Rightarrow> 'f + 'a" where
  "map_err f (Inl e) = Inl (f e)"
| "map_err f (Inr x) = Inr x"

lemma rbind_cong [fundef_cong]:
  "\<lbrakk>r = r'; \<And>x. r' = Inr x \<Longrightarrow> f x = g x\<rbrakk> \<Longrightarrow> rbind r f = rbind r' g"
  by (cases r') auto

lemma rbind_eq_Inr: "rbind r f = Inr y \<longleftrightarrow> (\<exists>x. r = Inr x \<and> f x = Inr y)"
  by (cases r) auto

lemma rbind_eq_Inl: "rbind r f = Inl e \<longleftrightarrow> r = Inl e \<or> (\<exists>x. r = Inr x \<and> f x = Inl e)"
  by (cases r) auto

lemma rbindE: "rbind r f = Inr y \<Longrightarrow> (\<And>x. r = Inr x \<Longrightarrow> f x = Inr y \<Longrightarrow> P) \<Longrightarrow> P"
  by (cases r) auto

lemma ok_or_eq_Inr [simp]: "ok_or v e = Inr x \<longleftrightarrow> v = Some x"
  by (cases v) auto

lemma ok_or_eq_Inl [simp]: "ok_or v e = Inl e' \<longleftrightarrow> v = None \<and> e' = e"
  by (cases v) auto

lemma require_simps [simp]:
  "require True e = Inr ()" "require False e = Inl e"
  "require c e = Inr u \<longleftrightarrow> c" "require c e = Inl e' \<longleftrightarrow> \<not> c \<and> e' = e"
  by (auto simp: require_def)

text \<open>A routine that may panic returns an option: None is the panic.\<close>

definition pbind :: "('e + 'a) option \<Rightarrow> ('a \<Rightarrow> ('e + 'b) option) \<Rightarrow> ('e + 'b) option" where
  "pbind r f = (case r of None \<Rightarrow> None | Some (Inl e) \<Rightarrow> Some (Inl e) | Some (Inr x) \<Rightarrow> f x)"

lemma pbind_eq_Ok: "pbind r f = Some (Inr y) \<longleftrightarrow> (\<exists>x. r = Some (Inr x) \<and> f x = Some (Inr y))"
  by (auto simp: pbind_def split: option.splits sum.splits)

lemma pbind_simps [simp]: "pbind (Some (Inr x)) f = f x" "pbind (Some (Inl e)) f = Some (Inl e)" "pbind None f = None"
  by (simp_all add: pbind_def)

lemma pbind_cong [fundef_cong]:
  "\<lbrakk>r = r'; \<And>x. r' = Some (Inr x) \<Longrightarrow> f x = g x\<rbrakk> \<Longrightarrow> pbind r f = pbind r' g"
  by (auto simp: pbind_def split: option.splits sum.splits)

subsection \<open>Checked slices\<close>

definition get_slice :: "'a list \<Rightarrow> nat \<Rightarrow> nat \<Rightarrow> 'a list option" where
  "get_slice b lo hi = (if lo \<le> hi \<and> hi \<le> length b then Some (take (hi - lo) (drop lo b)) else None)"

definition get_at :: "'a list \<Rightarrow> nat \<Rightarrow> 'a option" where
  "get_at b i = (if i < length b then Some (b ! i) else None)"

definition slice :: "'a list \<Rightarrow> nat \<Rightarrow> nat \<Rightarrow> 'a list" where
  "slice b off n = take n (drop off b)"

definition patch_at :: "'a list \<Rightarrow> nat \<Rightarrow> 'a list \<Rightarrow> 'a list" where
  "patch_at b off v = take off b @ v @ drop (off + length v) b"

fun starts_with :: "'a list \<Rightarrow> 'a list \<Rightarrow> bool" where
  "starts_with b [] = True"
| "starts_with [] (p # ps) = False"
| "starts_with (x # xs) (p # ps) = (x = p \<and> starts_with xs ps)"

lemma get_slice_SomeD:
  "get_slice b lo hi = Some s \<Longrightarrow> lo \<le> hi \<and> hi \<le> length b \<and> s = slice b lo (hi - lo) \<and> length s = hi - lo"
  by (auto simp: get_slice_def slice_def split: if_splits)

lemma get_slice_eq_Some:
  "get_slice b lo hi = Some s \<longleftrightarrow> lo \<le> hi \<and> hi \<le> length b \<and> s = slice b lo (hi - lo)"
  by (auto simp: get_slice_def slice_def split: if_splits)

lemma get_at_eq_Some [simp]: "get_at b i = Some x \<longleftrightarrow> i < length b \<and> x = b ! i"
  by (auto simp: get_at_def)

lemma get_at_eq_None [simp]: "get_at b i = None \<longleftrightarrow> length b \<le> i"
  by (auto simp: get_at_def)

lemma slice_0 [simp]: "slice b off 0 = []"
  by (simp add: slice_def)

lemma slice_length [simp]: "length (slice b off n) = min n (length b - off)"
  by (simp add: slice_def)

lemma slice_full: "n = length b \<Longrightarrow> slice b 0 n = b"
  by (simp add: slice_def)

lemma slice_append1: "off + n \<le> length a \<Longrightarrow> slice (a @ b) off n = slice a off n"
  by (simp add: slice_def)

lemma slice_append2: "length a \<le> off \<Longrightarrow> slice (a @ b) off n = slice b (off - length a) n"
  by (simp add: slice_def)

lemma slice_append_split:
  "off \<le> length a \<Longrightarrow> length a \<le> off + n \<Longrightarrow>
   slice (a @ b) off n = drop off a @ slice b 0 (off + n - length a)"
  by (simp add: slice_def) (metis add.commute diff_add_assoc2 diff_diff_cancel diff_diff_right le_add_diff_inverse)

lemma slice_slice:
  "i + k \<le> n \<Longrightarrow> slice (slice b off n) i k = slice b (off + i) k"
  by (simp add: slice_def take_drop add.commute min_def)

lemma slice_plus: "slice b off (n + k) = slice b off n @ slice b (off + n) k"
  by (simp add: slice_def take_add add.commute[of off])

lemma slice_nth: "i < n \<Longrightarrow> off + i < length b \<Longrightarrow> slice b off n ! i = b ! (off + i)"
  by (simp add: slice_def)

lemma slice_Cons: "0 < off \<Longrightarrow> slice (x # xs) off n = slice xs (off - 1) n"
  by (cases off) (simp_all add: slice_def)

lemma slice_prefix: "length a = n \<Longrightarrow> slice (a @ b) 0 n = a"
  by (simp add: slice_def)

lemma slice_one: "i < length b \<Longrightarrow> slice b i 1 = [b ! i]"
  by (simp add: slice_def take_Suc_conv_app_nth hd_drop_conv_nth[symmetric] take_Suc)

lemma slice_map: "slice (map f b) off n = map f (slice b off n)"
  by (simp add: slice_def take_map drop_map)

lemma patch_at_length [simp]: "off + length v \<le> length b \<Longrightarrow> length (patch_at b off v) = length b"
  by (simp add: patch_at_def)

lemma starts_with_iff: "starts_with b p \<longleftrightarrow> take (length p) b = p"
  by (induction b p rule: starts_with.induct) auto

lemma starts_with_append [simp]: "starts_with (p @ b) p"
  by (simp add: starts_with_iff)

subsection \<open>Checked u64 arithmetic\<close>

definition u64_max :: nat where "u64_max = 2 ^ 64 - 1"
definition u32_max :: nat where "u32_max = 2 ^ 32 - 1"

definition checked_add64 :: "nat \<Rightarrow> nat \<Rightarrow> nat option" where
  "checked_add64 a b = (if a + b \<le> u64_max then Some (a + b) else None)"

definition checked_sub64 :: "nat \<Rightarrow> nat \<Rightarrow> nat option" where
  "checked_sub64 a b = (if b \<le> a then Some (a - b) else None)"

definition checked_mul64 :: "nat \<Rightarrow> nat \<Rightarrow> nat option" where
  "checked_mul64 a b = (if a * b \<le> u64_max then Some (a * b) else None)"

definition sat_add64 :: "nat \<Rightarrow> nat \<Rightarrow> nat" where
  "sat_add64 a b = min (a + b) u64_max"

definition u32_try_from :: "nat \<Rightarrow> nat option" where
  "u32_try_from n = (if n \<le> u32_max then Some n else None)"

lemma checked_add64_Some [simp]: "checked_add64 a b = Some c \<longleftrightarrow> c = a + b \<and> a + b \<le> u64_max"
  by (auto simp: checked_add64_def)

lemma checked_add64_None [simp]: "checked_add64 a b = None \<longleftrightarrow> u64_max < a + b"
  by (auto simp: checked_add64_def)

lemma checked_sub64_Some [simp]: "checked_sub64 a b = Some c \<longleftrightarrow> c = a - b \<and> b \<le> a"
  by (auto simp: checked_sub64_def)

lemma checked_mul64_Some [simp]: "checked_mul64 a b = Some c \<longleftrightarrow> c = a * b \<and> a * b \<le> u64_max"
  by (auto simp: checked_mul64_def)

lemma u32_try_from_Some [simp]: "u32_try_from n = Some m \<longleftrightarrow> m = n \<and> n \<le> u32_max"
  by (auto simp: u32_try_from_def)

lemma sat_add64_exact: "a + b \<le> u64_max \<Longrightarrow> sat_add64 a b = a + b"
  by (simp add: sat_add64_def)

subsection \<open>Byte-order codecs\<close>

definition le_val :: "bytes \<Rightarrow> nat" where
  "le_val bs = foldr (\<lambda>b a. unat b + 256 * a) bs 0"

definition be_val :: "bytes \<Rightarrow> nat" where
  "be_val bs = le_val (rev bs)"

fun le_bytes :: "nat \<Rightarrow> nat \<Rightarrow> bytes" where
  "le_bytes 0 x = []"
| "le_bytes (Suc n) x = word_of_nat x # le_bytes n (x div 256)"

definition be_bytes :: "nat \<Rightarrow> nat \<Rightarrow> bytes" where
  "be_bytes n x = rev (le_bytes n x)"

lemma le_val_simps [simp]: "le_val [] = 0" "le_val (b # bs) = unat b + 256 * le_val bs"
  by (simp_all add: le_val_def)

lemma le_bytes_length [simp, len_simps]: "length (le_bytes n x) = n"
  by (induction n x rule: le_bytes.induct) auto

lemma be_bytes_length [simp, len_simps]: "length (be_bytes n x) = n"
  by (simp add: be_bytes_def)

lemma unat_byte_lt [simp]: "unat (b :: byte) < 256"
  using unsigned_less[of b] by simp

lemma le_val_bound: "le_val bs < 256 ^ length bs"
proof (induction bs)
  case (Cons b bs)
  have "unat b + 256 * le_val bs < 256 * (le_val bs + 1)" using unat_byte_lt[of b] by simp
  also have "\<dots> \<le> 256 * 256 ^ length bs" using Cons by (simp add: Suc_leI)
  finally show ?case by simp
qed simp

lemma be_val_bound: "be_val bs < 256 ^ length bs"
  using le_val_bound[of "rev bs"] by (simp add: be_val_def)

lemma le_val_le_bytes [codec_simps]: "x < 256 ^ n \<Longrightarrow> le_val (le_bytes n x) = x"
proof (induction n x rule: le_bytes.induct)
  case (2 n x)
  have "x div 256 < 256 ^ n" using "2.prems" by (simp add: less_mult_imp_div_less mult.commute)
  with "2.IH" have "le_val (le_bytes n (x div 256)) = x div 256" .
  then show ?case by (simp add: unat_of_nat)
qed simp

lemma be_val_be_bytes [codec_simps]: "x < 256 ^ n \<Longrightarrow> be_val (be_bytes n x) = x"
  by (simp add: be_val_def be_bytes_def le_val_le_bytes)

lemma le_bytes_le_val [codec_simps]: "le_bytes (length bs) (le_val bs) = bs"
proof (induction bs)
  case (Cons b bs)
  have z: "(256 :: byte) = 0" by code_simp
  have "word_of_nat (unat b + 256 * le_val bs) = b + (256 :: byte) * of_nat (le_val bs)"
    by simp
  then have "word_of_nat (unat b + 256 * le_val bs) = b" by (simp only: z) simp
  moreover have "(unat b + 256 * le_val bs) div 256 = le_val bs"
    using unat_byte_lt[of b] by simp
  ultimately show ?case using Cons by (simp only: list.size le_val_simps add_0_right add_Suc_right le_bytes.simps)
qed simp

lemma be_bytes_be_val [codec_simps]: "be_bytes (length bs) (be_val bs) = bs"
  using le_bytes_le_val[of "rev bs"] by (simp add: be_bytes_def be_val_def)

end
