(* ===== verification/Format_Base.thy ===== *)
theory Format_Base
  imports Prelude
begin

text \<open>
  The vocabulary of musefs-format: its error type (error.rs), the bounds-checked integer
  readers (bytes.rs), checked size sums (size.rs), the synthesis inputs (input.rs) and the
  outcome of bounded probes (probe.rs).
\<close>

subsection \<open>Errors\<close>

datatype layout_error =
    EmptySegment
  | TotalOverflow
  | BackingRangeOverflow
  | OggArtSliceRangeOverflow
  | OggArtSliceOutOfBounds

datatype format_error =
    NotFlac
  | NotMp3
  | Malformed
  | TooLarge
  | NotMp4
  | Mp4Tracks string
  | NotWav
  | InvalidLayout layout_error
  | ProducerBug string
  | ArtRead int
  | EmbeddedNul string

type_synonym 'a fresult = "format_error + 'a"

subsection \<open>Bounds-checked readers\<close>

definition read_u32_be :: "bytes \<Rightarrow> nat \<Rightarrow> nat fresult" where
  "read_u32_be data pos =
     rbind (ok_or (get_slice data pos (pos + 4)) Malformed) (\<lambda>s. Inr (be_val s))"

definition read_u64_be :: "bytes \<Rightarrow> nat \<Rightarrow> nat fresult" where
  "read_u64_be data pos =
     rbind (ok_or (get_slice data pos (pos + 8)) Malformed) (\<lambda>s. Inr (be_val s))"

definition read_u32_le :: "bytes \<Rightarrow> nat \<Rightarrow> nat fresult" where
  "read_u32_le data pos =
     rbind (ok_or (get_slice data pos (pos + 4)) Malformed) (\<lambda>s. Inr (le_val s))"

lemma read_u32_be_eq:
  "read_u32_be data pos = (if pos + 4 \<le> length data then Inr (be_val (slice data pos 4)) else Inl Malformed)"
  by (simp add: read_u32_be_def get_slice_def slice_def)

lemma read_u64_be_eq:
  "read_u64_be data pos = (if pos + 8 \<le> length data then Inr (be_val (slice data pos 8)) else Inl Malformed)"
  by (simp add: read_u64_be_def get_slice_def slice_def)

lemma read_u32_le_eq:
  "read_u32_le data pos = (if pos + 4 \<le> length data then Inr (le_val (slice data pos 4)) else Inl Malformed)"
  by (simp add: read_u32_le_def get_slice_def slice_def)

lemma read_u32_le_at:
  "length pre = pos \<Longrightarrow> v < 2 ^ 32 \<Longrightarrow> read_u32_le (pre @ le_bytes 4 v @ rest) pos = Inr v"
  by (simp add: read_u32_le_eq slice_append2 slice_append1 slice_full le_val_le_bytes)

lemma read_u32_be_at:
  "length pre = pos \<Longrightarrow> v < 2 ^ 32 \<Longrightarrow> read_u32_be (pre @ be_bytes 4 v @ rest) pos = Inr v"
  by (simp add: read_u32_be_eq slice_append2 slice_append1 slice_full be_val_be_bytes)

lemma read_u32_be_bound: "read_u32_be data pos = Inr v \<Longrightarrow> v < 2 ^ 32 \<and> pos + 4 \<le> length data"
  using be_val_bound[of "slice data pos 4"] by (auto simp: read_u32_be_eq split: if_splits)

lemma read_u64_be_bound: "read_u64_be data pos = Inr v \<Longrightarrow> v < 2 ^ 64 \<and> pos + 8 \<le> length data"
  using be_val_bound[of "slice data pos 8"] by (auto simp: read_u64_be_eq split: if_splits)

lemma read_u32_le_bound: "read_u32_le data pos = Inr v \<Longrightarrow> v < 2 ^ 32 \<and> pos + 4 \<le> length data"
  using le_val_bound[of "slice data pos 4"] by (auto simp: read_u32_le_eq split: if_splits)

subsection \<open>Checked sizes\<close>

definition checked_add :: "nat \<Rightarrow> nat \<Rightarrow> nat fresult" where
  "checked_add a b = ok_or (checked_add64 a b) TooLarge"

lemma checked_add_if: "checked_add a b = (if a + b \<le> u64_max then Inr (a + b) else Inl TooLarge)"
  by (simp add: checked_add_def checked_add64_def)

fun sum_from :: "nat \<Rightarrow> nat list \<Rightarrow> nat fresult" where
  "sum_from a [] = Inr a"
| "sum_from a (x # xs) = rbind (checked_add a x) (\<lambda>s. sum_from s xs)"

definition checked_sum :: "nat list \<Rightarrow> nat fresult" where
  "checked_sum xs = sum_from 0 xs"

lemma checked_add_eq [simp]:
  "checked_add a b = Inr c \<longleftrightarrow> c = a + b \<and> a + b \<le> u64_max"
  "checked_add a b = Inl e \<longleftrightarrow> e = TooLarge \<and> u64_max < a + b"
  by (auto simp: checked_add_def)

lemma sum_from_eq:
  "a \<le> u64_max \<Longrightarrow>
   sum_from a xs = (if a + sum_list xs \<le> u64_max then Inr (a + sum_list xs) else Inl TooLarge)"
  by (induction xs arbitrary: a) (auto simp: checked_add_if)

lemma checked_sum_eq:
  "checked_sum xs = (if sum_list xs \<le> u64_max then Inr (sum_list xs) else Inl TooLarge)"
  by (simp add: checked_sum_def sum_from_eq)

definition u32_or_too_large :: "nat \<Rightarrow> nat fresult" where
  "u32_or_too_large n = ok_or (u32_try_from n) TooLarge"

lemma u32_or_too_large_eq [simp]:
  "u32_or_too_large n = Inr m \<longleftrightarrow> m = n \<and> n \<le> u32_max"
  by (auto simp: u32_or_too_large_def)

subsection \<open>Synthesis inputs\<close>

text \<open>PictureType is a byte in 0..=20; BlobLen a non-zero u64.\<close>

definition picture_type_new :: "nat \<Rightarrow> nat option" where
  "picture_type_new v = (if v < 256 then (if v > 20 then None else Some v) else None)"

definition blob_len_new :: "nat \<Rightarrow> nat option" where
  "blob_len_new v = (if v = 0 then None else Some v)"

record tag_input =
  ti_key :: string
  ti_value :: string

record art_input =
  ai_art_id :: int
  ai_mime :: string
  ai_description :: string
  ai_picture_type :: nat
  ai_width :: nat
  ai_height :: nat
  ai_data_len :: nat

record embedded_picture =
  pic_mime :: string
  pic_type :: nat
  pic_description :: string
  pic_width :: nat
  pic_height :: nat
  pic_data :: bytes

record binary_tag_input =
  bt_key :: string
  bt_payload_id :: int
  bt_len :: nat

record embedded_binary_tag =
  ebt_key :: string
  ebt_payload :: bytes

subsection \<open>Bounded probe outcome\<close>

datatype 'a extent = Complete 'a | NeedMore nat

subsection \<open>Rust strings\<close>

definition as_bytes :: "string \<Rightarrow> bytes" where
  "as_bytes s = map (\<lambda>c. word_of_nat (of_char c)) s"

definition chars_of :: "bytes \<Rightarrow> string" where
  "chars_of b = map (\<lambda>x. char_of (unat x)) b"

definition cont_byte :: "byte \<Rightarrow> bool" where
  "cont_byte b = (0x80 \<le> b \<and> b \<le> 0xBF)"

text \<open>
  The sequence at the front of a byte string: whether it is a well-formed encoding of one
  character, and how many bytes it takes (for an ill-formed one, its maximal well-formed prefix,
  at least one byte).
\<close>

definition second_ok :: "byte \<Rightarrow> byte \<Rightarrow> bool" where
  "second_ok a b =
    (if a = 0xE0 then 0xA0 \<le> b \<and> b \<le> 0xBF
     else if a = 0xED then 0x80 \<le> b \<and> b \<le> 0x9F
     else if a = 0xF0 then 0x90 \<le> b \<and> b \<le> 0xBF
     else if a = 0xF4 then 0x80 \<le> b \<and> b \<le> 0x8F
     else cont_byte b)"

definition utf8_head :: "byte \<Rightarrow> bytes \<Rightarrow> bool \<times> nat" where
  "utf8_head a bs =
    (if a < 0x80 then (True, 1)
     else if 0xC2 \<le> a \<and> a \<le> 0xDF then
       (case bs of b # _ \<Rightarrow> if cont_byte b then (True, 2) else (False, 1) | [] \<Rightarrow> (False, 1))
     else if 0xE0 \<le> a \<and> a \<le> 0xEF then
       (case bs of b # cs \<Rightarrow>
          if second_ok a b then
            (case cs of c # _ \<Rightarrow> if cont_byte c then (True, 3) else (False, 2) | [] \<Rightarrow> (False, 2))
          else (False, 1)
        | [] \<Rightarrow> (False, 1))
     else if 0xF0 \<le> a \<and> a \<le> 0xF4 then
       (case bs of b # cs \<Rightarrow>
          if second_ok a b then
            (case cs of c # ds \<Rightarrow>
               if cont_byte c then
                 (case ds of d # _ \<Rightarrow> if cont_byte d then (True, 4) else (False, 3) | [] \<Rightarrow> (False, 3))
               else (False, 2)
             | [] \<Rightarrow> (False, 2))
          else (False, 1)
        | [] \<Rightarrow> (False, 1))
     else (False, 1))"

function utf8_valid :: "bytes \<Rightarrow> bool" where
  "utf8_valid [] = True"
| "utf8_valid (a # bs) = (fst (utf8_head a bs) \<and> utf8_valid (drop (snd (utf8_head a bs) - 1) bs))"
  by pat_completeness auto
termination by (relation "measure length") auto

function utf8_lossy :: "bytes \<Rightarrow> bytes" where
  "utf8_lossy [] = []"
| "utf8_lossy (a # bs) =
     (if fst (utf8_head a bs) then a # take (snd (utf8_head a bs) - 1) bs else [0xEF, 0xBF, 0xBD]) @
     utf8_lossy (drop (snd (utf8_head a bs) - 1) bs)"
  by pat_completeness auto
termination by (relation "measure length") auto

lemma utf8_lossy_valid: "utf8_valid b \<Longrightarrow> utf8_lossy b = b"
  by (induction b rule: utf8_valid.induct) simp_all

definition from_utf8 :: "bytes \<Rightarrow> string option" where
  "from_utf8 b = (if utf8_valid b then Some (chars_of b) else None)"

definition from_utf8_lossy :: "bytes \<Rightarrow> string" where
  "from_utf8_lossy b = chars_of (utf8_lossy b)"

lemma from_utf8_lossy_as_bytes:
  "utf8_valid (as_bytes s) \<Longrightarrow> from_utf8_lossy (as_bytes s) = chars_of (as_bytes s)"
  by (simp add: from_utf8_lossy_def utf8_lossy_valid)

lemma as_bytes_length [simp]: "length (as_bytes s) = length s"
  by (simp add: as_bytes_def)

lemma as_bytes_append [simp]: "as_bytes (s @ t) = as_bytes s @ as_bytes t"
  by (simp add: as_bytes_def)

lemma chars_of_as_bytes [simp]: "chars_of (as_bytes s) = s"
  by (induction s) (simp_all add: chars_of_def as_bytes_def unat_of_nat of_char_mod_256)

lemma as_bytes_chars_of [simp]: "as_bytes (chars_of b) = b"
  by (induction b) (simp_all add: chars_of_def as_bytes_def of_char_of)

lemma utf8_valid_ascii_append:
  "\<forall>b\<in>set a. b < 0x80 \<Longrightarrow> utf8_valid (a @ bs) = utf8_valid bs"
  by (induction a) (auto simp: utf8_head_def)

lemma utf8_head_append:
  "fst (utf8_head a bs) \<Longrightarrow> utf8_head a (bs @ cs) = utf8_head a bs \<and> snd (utf8_head a bs) - 1 \<le> length bs"
  by (cases bs rule: list.exhaust[case_product list.exhaust[of "tl bs"]];
      cases "tl (tl bs)") (auto simp: utf8_head_def split: if_splits list.splits)

lemma utf8_valid_append: "utf8_valid a \<Longrightarrow> utf8_valid (a @ b) = utf8_valid b"
proof (induction a rule: utf8_valid.induct)
  case (2 x bs)
  have h: "fst (utf8_head x bs)" using "2.prems" by simp
  have "utf8_valid (drop (snd (utf8_head x bs) - 1) bs @ b) = utf8_valid b" using 2 by simp
  moreover note hb = utf8_head_append[OF h, of b]
  moreover have "snd (utf8_head x bs) - Suc (length bs) = 0" using hb by linarith
  ultimately show ?case using h by simp
qed simp

lemma from_utf8_as_bytes: "utf8_valid (as_bytes s) \<Longrightarrow> from_utf8 (as_bytes s) = Some s"
  by (simp add: from_utf8_def)

subsection \<open>ASCII case folding\<close>

definition ascii_lower_char :: "char \<Rightarrow> char" where
  "ascii_lower_char c = (let n = of_char c :: nat in if 65 \<le> n \<and> n \<le> 90 then char_of (n + 32) else c)"

definition ascii_upper_char :: "char \<Rightarrow> char" where
  "ascii_upper_char c = (let n = of_char c :: nat in if 97 \<le> n \<and> n \<le> 122 then char_of (n - 32) else c)"

definition to_ascii_lowercase :: "string \<Rightarrow> string" where
  "to_ascii_lowercase s = map ascii_lower_char s"

definition to_ascii_uppercase :: "string \<Rightarrow> string" where
  "to_ascii_uppercase s = map ascii_upper_char s"

definition eq_ignore_ascii_case :: "string \<Rightarrow> string \<Rightarrow> bool" where
  "eq_ignore_ascii_case a b = (to_ascii_lowercase a = to_ascii_lowercase b)"

lemma to_ascii_case_length [simp]:
  "length (to_ascii_lowercase s) = length s" "length (to_ascii_uppercase s) = length s"
  by (simp_all add: to_ascii_lowercase_def to_ascii_uppercase_def)

lemma lower_code:
  "65 \<le> (of_char c :: nat) \<and> (of_char c :: nat) \<le> 90 \<Longrightarrow>
   of_char (ascii_lower_char c) = (of_char c :: nat) + 32"
proof -
  assume a: "65 \<le> (of_char c :: nat) \<and> (of_char c :: nat) \<le> 90"
  then have "((of_char c :: nat) + 32) mod 256 = of_char c + 32" by (intro mod_less) simp
  then show ?thesis using a by (simp add: ascii_lower_char_def Let_def)
qed

lemma lower_lower: "to_ascii_lowercase (to_ascii_lowercase s) = to_ascii_lowercase s"
proof -
  have "ascii_lower_char (ascii_lower_char c) = ascii_lower_char c" for c
  proof (cases "65 \<le> (of_char c :: nat) \<and> (of_char c :: nat) \<le> 90")
    case True
    then have "of_char (ascii_lower_char c) = (of_char c :: nat) + 32" by (rule lower_code)
    then show ?thesis using True by (simp add: ascii_lower_char_def[of "ascii_lower_char c"] Let_def)
  next
    case False
    then have "ascii_lower_char c = c" by (auto simp: ascii_lower_char_def Let_def)
    then show ?thesis by simp
  qed
  then show ?thesis by (simp add: to_ascii_lowercase_def)
qed

end
