(* ===== verification/Id3v2.thy ===== *)
theory Id3v2
  imports Format_Base
begin

text \<open>
  ID3v2 tag boundaries, musefs-format/src/id3v2.rs: the synchsafe size, the length of one tag
  with its footer, and the bounded walk over the run of tags in front of a stream.
\<close>

unbundle bit_operations_syntax

definition id3_magic :: bytes where "id3_magic = [0x49, 0x44, 0x33]"

definition synchsafe_decode :: "bytes \<Rightarrow> nat" where
  "synchsafe_decode b =
     push_bit 21 (unat (b ! 0 AND 0x7F)) OR push_bit 14 (unat (b ! 1 AND 0x7F)) OR
     push_bit 7 (unat (b ! 2 AND 0x7F)) OR unat (b ! 3 AND 0x7F)"

definition id3_header_len :: nat where "id3_header_len = 10"
definition id3_footer_len :: nat where "id3_footer_len = 10"
definition max_leading_tags :: nat where "max_leading_tags = 64"

definition starts_with_tag :: "bytes \<Rightarrow> bool" where
  "starts_with_tag data = (3 \<le> length data \<and> slice data 0 3 = id3_magic)"

definition body_end :: "bytes \<Rightarrow> nat option fresult" where
  "body_end data =
     (if length data < id3_header_len \<or> slice data 0 3 \<noteq> id3_magic then Inr None
      else if data ! 3 = 0xFF \<or> data ! 4 = 0xFF then Inl Malformed
      else if list_ex (\<lambda>b. b AND 0x80 \<noteq> 0) (slice data 6 4) then Inl Malformed
      else Inr (Some (id3_header_len + synchsafe_decode (slice data 6 4))))"

definition frames_are_parseable :: "bytes \<Rightarrow> bool" where
  "frames_are_parseable data = (id3_header_len \<le> length data \<and> 2 \<le> data ! 3 \<and> data ! 3 \<le> 4)"

definition id3_total_len :: "bytes \<Rightarrow> nat option fresult" where
  "id3_total_len data =
     rbind (body_end data) (\<lambda>r. case r of
       None \<Rightarrow> Inr None
     | Some e \<Rightarrow>
         let has_footer = (data ! 3 = 4 \<and> data ! 5 AND 0x10 \<noteq> 0)
         in Inr (Some (if has_footer then e + id3_footer_len else e)))"

fun leading_tags_walk :: "nat \<Rightarrow> bytes \<Rightarrow> nat \<Rightarrow> nat extent fresult" where
  "leading_tags_walk 0 data off = Inl Malformed"
| "leading_tags_walk (Suc n) data off =
     (let rest = drop off data
      in if \<not> starts_with_tag rest then Inr (Complete off)
         else if length rest < id3_header_len then Inr (NeedMore (off + id3_header_len))
         else rbind (id3_total_len rest) (\<lambda>r. case r of
                None \<Rightarrow> Inr (Complete off)
              | Some n' \<Rightarrow>
                  if off + n' > length data then Inr (NeedMore (off + n'))
                  else leading_tags_walk n data (off + n')))"

definition leading_tags_len :: "bytes \<Rightarrow> nat extent fresult" where
  "leading_tags_len data = leading_tags_walk max_leading_tags data 0"

subsection \<open>Where the walk stops\<close>

lemma body_end_bound: "body_end data = Inr (Some e) \<Longrightarrow> id3_header_len \<le> e \<and> id3_header_len \<le> length data"
  by (auto simp: body_end_def split: if_splits)

lemma id3_total_len_bound: "id3_total_len data = Inr (Some e) \<Longrightarrow> id3_header_len \<le> e"
  using body_end_bound by (fastforce simp: id3_total_len_def rbind_eq_Inr Let_def split: option.splits if_splits)

lemma total_len_Some_if_tag:
  "starts_with_tag rest \<Longrightarrow> id3_header_len \<le> length rest \<Longrightarrow> id3_total_len rest \<noteq> Inr None"
  by (auto simp: id3_total_len_def rbind_eq_Inr body_end_def starts_with_tag_def Let_def
      split: option.splits if_splits)

lemma walk_step:
  assumes w: "leading_tags_walk (Suc n) data off = Inr r"
    and t: "starts_with_tag (drop off data)" "id3_header_len \<le> length (drop off data)"
  obtains k where "id3_total_len (drop off data) = Inr (Some k)"
    "off + k > length data \<Longrightarrow> r = NeedMore (off + k)"
    "off + k \<le> length data \<Longrightarrow> leading_tags_walk n data (off + k) = Inr r"
proof -
  have e: "leading_tags_walk (Suc n) data off = rbind (id3_total_len (drop off data)) (\<lambda>r. case r of
      None \<Rightarrow> Inr (Complete off)
    | Some n' \<Rightarrow> if off + n' > length data then Inr (NeedMore (off + n')) else leading_tags_walk n data (off + n'))"
    using t by (simp add: Let_def)
  obtain v where v: "id3_total_len (drop off data) = Inr v" using w unfolding e by (auto simp: rbind_eq_Inr)
  then obtain k where k: "v = Some k" using total_len_Some_if_tag[OF t] by (cases v) auto
  have "(if off + k > length data then Inr (NeedMore (off + k)) else leading_tags_walk n data (off + k)) = Inr r"
    using w unfolding e v k by simp
  then show ?thesis using v k by (intro that[of k]) (auto split: if_splits)
qed

lemma walk_complete:
  "leading_tags_walk n data off = Inr (Complete base) \<Longrightarrow> off \<le> length data \<Longrightarrow>
   off \<le> base \<and> base \<le> length data \<and> \<not> starts_with_tag (drop base data)"
proof (induction n arbitrary: off)
  case (Suc n)
  show ?case
  proof (cases "starts_with_tag (drop off data) \<and> id3_header_len \<le> length (drop off data)")
    case True
    then obtain k where k: "off + k > length data \<Longrightarrow> Complete base = NeedMore (off + k)"
        "off + k \<le> length data \<Longrightarrow> leading_tags_walk n data (off + k) = Inr (Complete base)"
      using walk_step[OF Suc.prems(1)] by blast
    then have le: "off + k \<le> length data" by (cases "off + k \<le> length data") auto
    from Suc.IH[OF k(2)[OF le] le] show ?thesis by simp
  qed (use Suc.prems in \<open>auto simp: Let_def split: if_splits\<close>)
qed simp

lemma walk_need_more:
  "leading_tags_walk n data off = Inr (NeedMore up_to) \<Longrightarrow> off \<le> length data \<Longrightarrow> length data < up_to"
proof (induction n arbitrary: off)
  case (Suc n)
  show ?case
  proof (cases "starts_with_tag (drop off data) \<and> id3_header_len \<le> length (drop off data)")
    case True
    then obtain k where k: "off + k > length data \<Longrightarrow> NeedMore up_to = NeedMore (off + k)"
        "off + k \<le> length data \<Longrightarrow> leading_tags_walk n data (off + k) = Inr (NeedMore up_to)"
      using walk_step[OF Suc.prems(1)] by blast
    then show ?thesis using Suc.IH[of "off + k"] by (cases "off + k \<le> length data") auto
  qed (use Suc.prems in \<open>auto simp: Let_def split: if_splits\<close>)
qed simp

text \<open>The answer does not depend on what follows the bytes it was computed from.\<close>

lemma slice_take: "off + n \<le> m \<Longrightarrow> slice (take m b) off n = slice b off n"
  by (simp add: slice_def drop_take min_def)

lemma starts_with_tag_prefix:
  "3 \<le> length a \<Longrightarrow> starts_with_tag (a @ b) = starts_with_tag a"
  by (simp add: starts_with_tag_def slice_append1)

lemma id3_total_len_prefix:
  "id3_header_len \<le> length a \<Longrightarrow> id3_total_len (a @ b) = id3_total_len a"
  by (simp add: id3_total_len_def body_end_def id3_header_len_def slice_append1 nth_append Let_def
      cong: option.case_cong)

lemma walk_prefix:
  assumes "leading_tags_walk n a off = Inr (Complete base)" "off \<le> length a" "base + 3 \<le> length a"
  shows "leading_tags_walk n (a @ b) off = Inr (Complete base)"
  using assms(1,2)
proof (induction n arbitrary: off)
  case (Suc n)
  have ob: "off \<le> base" using walk_complete[OF Suc.prems] by simp
  have st: "starts_with_tag (drop off (a @ b)) = starts_with_tag (drop off a)"
    using starts_with_tag_prefix[of "drop off a" b] ob assms(3) by simp
  show ?case
  proof (cases "starts_with_tag (drop off a) \<and> id3_header_len \<le> length (drop off a)")
    case True
    then obtain k where k: "id3_total_len (drop off a) = Inr (Some k)"
        "off + k > length a \<Longrightarrow> Complete base = NeedMore (off + k)"
        "off + k \<le> length a \<Longrightarrow> leading_tags_walk n a (off + k) = Inr (Complete base)"
      using walk_step[OF Suc.prems(1)] by blast
    then have le: "off + k \<le> length a" by (cases "off + k \<le> length a") auto
    note ih = Suc.IH[OF k(3)[OF le] le]
    have "id3_total_len (drop off (a @ b)) = Inr (Some k)"
      using id3_total_len_prefix[of "drop off a" b] True k(1) Suc.prems(2) by simp
    moreover have "\<not> length (drop off (a @ b)) < id3_header_len" using True by simp
    ultimately show ?thesis using True st le ih by (simp add: Let_def del: drop_append length_drop)
  qed (use Suc.prems st in \<open>auto simp: Let_def split: if_splits\<close>)
qed simp

lemma leading_tags_len_prefix:
  "leading_tags_len a = Inr (Complete base) \<Longrightarrow> base + 3 \<le> length a \<Longrightarrow>
   leading_tags_len (a @ b) = Inr (Complete base)"
  unfolding leading_tags_len_def by (rule walk_prefix) simp_all

lemma leading_tags_len_none: "\<not> starts_with_tag data \<Longrightarrow> leading_tags_len data = Inr (Complete 0)"
proof -
  assume t: "\<not> starts_with_tag data"
  have m: "max_leading_tags = Suc 63" by (simp add: max_leading_tags_def)
  show ?thesis unfolding leading_tags_len_def m leading_tags_walk.simps(2) Let_def drop_0 using t by simp
qed

end
