(* ===== verification/Tagmap.thy ===== *)
theory Tagmap
  imports Format_Base
begin

text \<open>
  The canonical tag vocabulary, musefs-format/src/tagmap.rs: each canonical key with its slot in
  ID3v2, MP4 and Vorbis comments, and the lookups between them (case-insensitive in ASCII
  where the code folds case).
\<close>

datatype id3_slot = Id3Text string | Id3Txxx string | Id3Comment | Id3Lyrics

datatype mp4_slot =
    Mp4Text bytes
  | Mp4Number bytes nat
  | Mp4Integer bytes nat
  | Mp4Freeform string string

record entry =
  e_key :: string
  e_id3 :: id3_slot
  e_mp4 :: mp4_slot
  e_vorbis :: string

definition vocab :: "entry list" where
  "vocab = [
    \<lparr> e_key = ''title'', e_id3 = Id3Text ''TIT2'',
      e_mp4 = Mp4Text (0xA9 # as_bytes ''nam''), e_vorbis = ''TITLE'' \<rparr>,
    \<lparr> e_key = ''artist'', e_id3 = Id3Text ''TPE1'',
      e_mp4 = Mp4Text (0xA9 # as_bytes ''ART''), e_vorbis = ''ARTIST'' \<rparr>,
    \<lparr> e_key = ''album'', e_id3 = Id3Text ''TALB'',
      e_mp4 = Mp4Text (0xA9 # as_bytes ''alb''), e_vorbis = ''ALBUM'' \<rparr>,
    \<lparr> e_key = ''albumartist'', e_id3 = Id3Text ''TPE2'',
      e_mp4 = Mp4Text (as_bytes ''aART''), e_vorbis = ''ALBUMARTIST'' \<rparr>,
    \<lparr> e_key = ''genre'', e_id3 = Id3Text ''TCON'',
      e_mp4 = Mp4Text (0xA9 # as_bytes ''gen''), e_vorbis = ''GENRE'' \<rparr>,
    \<lparr> e_key = ''date'', e_id3 = Id3Text ''TDRC'',
      e_mp4 = Mp4Text (0xA9 # as_bytes ''day''), e_vorbis = ''DATE'' \<rparr>,
    \<lparr> e_key = ''composer'', e_id3 = Id3Text ''TCOM'',
      e_mp4 = Mp4Text (0xA9 # as_bytes ''wrt''), e_vorbis = ''COMPOSER'' \<rparr>,
    \<lparr> e_key = ''grouping'', e_id3 = Id3Text ''TIT1'',
      e_mp4 = Mp4Text (0xA9 # as_bytes ''grp''), e_vorbis = ''GROUPING'' \<rparr>,
    \<lparr> e_key = ''tracknumber'', e_id3 = Id3Text ''TRCK'',
      e_mp4 = Mp4Number (as_bytes ''trkn'') 8, e_vorbis = ''TRACKNUMBER'' \<rparr>,
    \<lparr> e_key = ''discnumber'', e_id3 = Id3Text ''TPOS'',
      e_mp4 = Mp4Number (as_bytes ''disk'') 6, e_vorbis = ''DISCNUMBER'' \<rparr>,
    \<lparr> e_key = ''comment'', e_id3 = Id3Comment,
      e_mp4 = Mp4Text (0xA9 # as_bytes ''cmt''), e_vorbis = ''COMMENT'' \<rparr>,
    \<lparr> e_key = ''lyrics'', e_id3 = Id3Lyrics,
      e_mp4 = Mp4Text (0xA9 # as_bytes ''lyr''), e_vorbis = ''LYRICS'' \<rparr>,
    \<lparr> e_key = ''copyright'', e_id3 = Id3Text ''TCOP'',
      e_mp4 = Mp4Freeform ''com.apple.iTunes'' ''COPYRIGHT'', e_vorbis = ''COPYRIGHT'' \<rparr>,
    \<lparr> e_key = ''isrc'', e_id3 = Id3Text ''TSRC'',
      e_mp4 = Mp4Freeform ''com.apple.iTunes'' ''ISRC'', e_vorbis = ''ISRC'' \<rparr>,
    \<lparr> e_key = ''lyricist'', e_id3 = Id3Text ''TEXT'',
      e_mp4 = Mp4Freeform ''com.apple.iTunes'' ''LYRICIST'', e_vorbis = ''LYRICIST'' \<rparr>,
    \<lparr> e_key = ''conductor'', e_id3 = Id3Text ''TPE3'',
      e_mp4 = Mp4Freeform ''com.apple.iTunes'' ''CONDUCTOR'', e_vorbis = ''CONDUCTOR'' \<rparr>,
    \<lparr> e_key = ''replaygain_track_gain'', e_id3 = Id3Txxx ''REPLAYGAIN_TRACK_GAIN'',
      e_mp4 = Mp4Freeform ''com.apple.iTunes'' ''replaygain_track_gain'', e_vorbis = ''REPLAYGAIN_TRACK_GAIN'' \<rparr>,
    \<lparr> e_key = ''replaygain_album_gain'', e_id3 = Id3Txxx ''REPLAYGAIN_ALBUM_GAIN'',
      e_mp4 = Mp4Freeform ''com.apple.iTunes'' ''replaygain_album_gain'', e_vorbis = ''REPLAYGAIN_ALBUM_GAIN'' \<rparr>,
    \<lparr> e_key = ''replaygain_track_peak'', e_id3 = Id3Txxx ''REPLAYGAIN_TRACK_PEAK'',
      e_mp4 = Mp4Freeform ''com.apple.iTunes'' ''replaygain_track_peak'', e_vorbis = ''REPLAYGAIN_TRACK_PEAK'' \<rparr>,
    \<lparr> e_key = ''replaygain_album_peak'', e_id3 = Id3Txxx ''REPLAYGAIN_ALBUM_PEAK'',
      e_mp4 = Mp4Freeform ''com.apple.iTunes'' ''replaygain_album_peak'', e_vorbis = ''REPLAYGAIN_ALBUM_PEAK'' \<rparr>,
    \<lparr> e_key = ''musicbrainz_albumid'', e_id3 = Id3Txxx ''MusicBrainz Album Id'',
      e_mp4 = Mp4Freeform ''com.apple.iTunes'' ''MusicBrainz Album Id'', e_vorbis = ''MUSICBRAINZ_ALBUMID'' \<rparr>,
    \<lparr> e_key = ''musicbrainz_artistid'', e_id3 = Id3Txxx ''MusicBrainz Artist Id'',
      e_mp4 = Mp4Freeform ''com.apple.iTunes'' ''MusicBrainz Artist Id'', e_vorbis = ''MUSICBRAINZ_ARTISTID'' \<rparr>,
    \<lparr> e_key = ''bpm'', e_id3 = Id3Text ''TBPM'',
      e_mp4 = Mp4Integer (as_bytes ''tmpo'') 2, e_vorbis = ''BPM'' \<rparr>,
    \<lparr> e_key = ''compilation'', e_id3 = Id3Text ''TCMP'',
      e_mp4 = Mp4Integer (as_bytes ''cpil'') 1, e_vorbis = ''COMPILATION'' \<rparr>,
    \<lparr> e_key = ''gapless'', e_id3 = Id3Txxx ''GAPLESS'',
      e_mp4 = Mp4Integer (as_bytes ''pgap'') 1, e_vorbis = ''GAPLESS'' \<rparr>]"

fun find_map :: "('a \<Rightarrow> 'b option) \<Rightarrow> 'a list \<Rightarrow> 'b option" where
  "find_map f [] = None"
| "find_map f (x # xs) = (case f x of Some y \<Rightarrow> Some y | None \<Rightarrow> find_map f xs)"

definition id3_text_to_key :: "string \<Rightarrow> string option" where
  "id3_text_to_key frame_id =
     find_map (\<lambda>e. case e_id3 e of Id3Text i \<Rightarrow> if i = frame_id then Some (e_key e) else None | _ \<Rightarrow> None) vocab"

definition id3_txxx_to_key :: "string \<Rightarrow> string option" where
  "id3_txxx_to_key description =
     find_map (\<lambda>e. case e_id3 e of
       Id3Txxx d \<Rightarrow> if eq_ignore_ascii_case d description then Some (e_key e) else None | _ \<Rightarrow> None) vocab"

definition key_to_id3 :: "string \<Rightarrow> id3_slot option" where
  "key_to_id3 key =
     (let k = to_ascii_lowercase key in map_option e_id3 (find (\<lambda>e. e_key e = k) vocab))"

definition mp4_atom_to_key :: "bytes \<Rightarrow> string option" where
  "mp4_atom_to_key atom =
     find_map (\<lambda>e. case e_mp4 e of Mp4Text a \<Rightarrow> if a = atom then Some (e_key e) else None | _ \<Rightarrow> None) vocab"

definition mp4_integer_atom_to_key :: "bytes \<Rightarrow> string option" where
  "mp4_integer_atom_to_key atom =
     find_map (\<lambda>e. case e_mp4 e of Mp4Integer a w \<Rightarrow> if a = atom then Some (e_key e) else None | _ \<Rightarrow> None) vocab"

definition mp4_freeform_to_key :: "string \<Rightarrow> string \<Rightarrow> string option" where
  "mp4_freeform_to_key mean name =
     find_map (\<lambda>e. case e_mp4 e of
       Mp4Freeform m n \<Rightarrow>
         if eq_ignore_ascii_case m mean \<and> eq_ignore_ascii_case n name then Some (e_key e) else None
     | _ \<Rightarrow> None) vocab"

definition key_to_mp4 :: "string \<Rightarrow> mp4_slot option" where
  "key_to_mp4 key =
     (let k = to_ascii_lowercase key in map_option e_mp4 (find (\<lambda>e. e_key e = k) vocab))"

definition vorbis_to_key :: "string \<Rightarrow> string option" where
  "vorbis_to_key field =
     find_map (\<lambda>e. if eq_ignore_ascii_case (e_vorbis e) field then Some (e_key e) else None) vocab"

definition key_to_vorbis :: "string \<Rightarrow> string option" where
  "key_to_vorbis key =
     (let k = to_ascii_lowercase key in map_option e_vorbis (find (\<lambda>e. e_key e = k) vocab))"

subsection \<open>The vocabulary is invertible\<close>

lemma vocab_keys_distinct: "distinct (map e_key vocab)"
  by code_simp

lemma vocab_vorbis_lower_all: "list_all (\<lambda>e. to_ascii_lowercase (e_vorbis e) = e_key e) vocab"
  by code_simp

lemma vocab_vorbis_upper_all: "list_all (\<lambda>e. e_vorbis e = to_ascii_uppercase (e_key e)) vocab"
  by code_simp

lemma vocab_vorbis_lower: "e \<in> set vocab \<Longrightarrow> to_ascii_lowercase (e_vorbis e) = e_key e"
  using vocab_vorbis_lower_all by (simp add: list_all_iff)

lemma find_map_if_find:
  "find_map (\<lambda>e. if P e then Some (f e) else None) xs = map_option f (find P xs)"
  by (induction xs) auto

lemma map_find_key:
  "map_option f (find (\<lambda>e. f e = k) xs) = (if \<exists>e\<in>set xs. f e = k then Some k else None)"
proof (induction xs)
  case (Cons x xs)
  then show ?case by (cases "f x = k") simp_all
qed simp

lemma vorbis_to_key_eq:
  "vorbis_to_key field =
   (if \<exists>e\<in>set vocab. e_key e = to_ascii_lowercase field then Some (to_ascii_lowercase field) else None)"
proof -
  have "vorbis_to_key field = map_option e_key (find (\<lambda>e. e_key e = to_ascii_lowercase field) vocab)"
    unfolding vorbis_to_key_def find_map_if_find eq_ignore_ascii_case_def
    by (rule arg_cong[where f = "map_option e_key"], rule find_cong) (simp_all add: vocab_vorbis_lower)
  then show ?thesis by (simp only: map_find_key)
qed

end
