(* ===== verification/Vorbis.thy ===== *)
theory Vorbis
  imports Tagmap
begin

text \<open>
  VorbisComment bodies, musefs-format/src/vorbiscomment.rs: the field-name grammar, the builder
  shared by FLAC and the Ogg codecs, and the parser. The round trip fixes what a re-scan of a
  synthesized file reads back.
\<close>

definition vendor :: string where "vendor = ''musefs''"

definition is_valid_key :: "string \<Rightarrow> bool" where
  "is_valid_key key = (key \<noteq> [] \<and> list_all (\<lambda>b. 0x20 \<le> b \<and> b \<le> 0x7D \<and> b \<noteq> 0x3D) (as_bytes key))"

definition vorbis_field :: "string \<Rightarrow> string" where
  "vorbis_field key = (case key_to_vorbis key of Some v \<Rightarrow> v | None \<Rightarrow> to_ascii_uppercase key)"

fun build_comments :: "bytes \<Rightarrow> tag_input list \<Rightarrow> bytes fresult" where
  "build_comments out [] = Inr out"
| "build_comments out (t # ts) =
     (let comment = vorbis_field (ti_key t) @ ''='' @ ti_value t
      in rbind (u32_or_too_large (length comment)) (\<lambda>n.
         build_comments (out @ le_bytes 4 n @ as_bytes comment) ts))"

definition vorbis_build :: "tag_input list \<Rightarrow> bytes fresult" where
  "vorbis_build tags =
     rbind (u32_or_too_large (length vendor)) (\<lambda>vn.
     (let valid = filter (\<lambda>t. is_valid_key (ti_key t)) tags
      in rbind (u32_or_too_large (length valid)) (\<lambda>n.
         build_comments (le_bytes 4 vn @ as_bytes vendor @ le_bytes 4 n) valid)))"

definition split_once :: "char \<Rightarrow> string \<Rightarrow> (string \<times> string) option" where
  "split_once c s =
     (if c \<in> set s then Some (takeWhile (\<lambda>x. x \<noteq> c) s, tl (dropWhile (\<lambda>x. x \<noteq> c) s)) else None)"

definition push_comment :: "string \<Rightarrow> (string \<times> string) list \<Rightarrow> (string \<times> string) list" where
  "push_comment comment out =
     (case split_once (CHR ''='') comment of
        None \<Rightarrow> out
      | Some (field, value) \<Rightarrow>
          if field = [] then out
          else out @ [(case vorbis_to_key field of Some k \<Rightarrow> k | None \<Rightarrow> field, value)])"

fun parse_comments :: "bytes \<Rightarrow> nat \<Rightarrow> nat \<Rightarrow> (string \<times> string) list \<Rightarrow> (string \<times> string) list fresult" where
  "parse_comments body 0 pos out = Inr out"
| "parse_comments body (Suc n) pos out =
     rbind (read_u32_le body pos) (\<lambda>clen.
     (let pos = pos + 4; e = pos + clen
      in if e > length body then Inl Malformed
         else rbind (ok_or (from_utf8 (slice body pos clen)) Malformed) (\<lambda>comment.
              parse_comments body n e (push_comment comment out))))"

definition vorbis_parse :: "bytes \<Rightarrow> (string \<times> string) list fresult" where
  "vorbis_parse body =
     rbind (read_u32_le body 0) (\<lambda>vendor_len.
     (let pos = 4 + vendor_len
      in rbind (read_u32_le body pos) (\<lambda>count. parse_comments body count (pos + 4) [])))"

subsection \<open>Round trip\<close>

definition canonical_key :: "string \<Rightarrow> string" where
  "canonical_key key =
     (let k = to_ascii_lowercase key
      in if list_ex (\<lambda>e. e_key e = k) vocab then k else to_ascii_uppercase key)"

definition comment_block :: "tag_input \<Rightarrow> bytes" where
  "comment_block t =
     (let comment = vorbis_field (ti_key t) @ ''='' @ ti_value t
      in le_bytes 4 (length comment) @ as_bytes comment)"

definition comment_fits :: "tag_input \<Rightarrow> bool" where
  "comment_fits t \<longleftrightarrow> length (vorbis_field (ti_key t) @ ''='' @ ti_value t) \<le> u32_max"

lemma u32_or_too_large_if: "u32_or_too_large n = (if n \<le> u32_max then Inr n else Inl TooLarge)"
  by (simp add: u32_or_too_large_def u32_try_from_def)

lemma build_comments_eq:
  "build_comments out ts =
     (if list_all comment_fits ts then Inr (out @ concat (map comment_block ts)) else Inl TooLarge)"
  by (induction out ts rule: build_comments.induct)
    (simp_all add: Let_def u32_or_too_large_if comment_fits_def comment_block_def[abs_def])

lemma vorbis_build_eq:
  "vorbis_build tags =
     (let valid = filter (\<lambda>t. is_valid_key (ti_key t)) tags
      in if length valid \<le> u32_max \<and> list_all comment_fits valid
         then Inr (le_bytes 4 6 @ as_bytes vendor @ le_bytes 4 (length valid) @ concat (map comment_block valid))
         else Inl TooLarge)"
proof -
  have "length vendor = 6" by (simp add: vendor_def)
  then show ?thesis
    by (auto simp: vorbis_build_def Let_def u32_or_too_large_if build_comments_eq u32_max_def
        simp del: le_bytes.simps)
qed

lemma upper_code:
  "97 \<le> (of_char c :: nat) \<and> (of_char c :: nat) \<le> 122 \<Longrightarrow>
   of_char (ascii_upper_char c) = (of_char c :: nat) - 32"
proof -
  assume a: "97 \<le> (of_char c :: nat) \<and> (of_char c :: nat) \<le> 122"
  then have "((of_char c :: nat) - 32) mod 256 = of_char c - 32"
    by (intro mod_less) (elim conjE, arith)
  then show ?thesis using a by (simp add: ascii_upper_char_def Let_def)
qed

lemma upper_lower: "to_ascii_lowercase (to_ascii_uppercase s) = to_ascii_lowercase s"
proof -
  have "ascii_lower_char (ascii_upper_char c) = ascii_lower_char c" for c
  proof (cases "97 \<le> (of_char c :: nat) \<and> (of_char c :: nat) \<le> 122")
    case True
    have "char_of (of_char c :: nat) = c" by simp
    with True upper_code[OF True] show ?thesis by (auto simp: ascii_lower_char_def Let_def)
  next
    case False
    then show ?thesis by (auto simp: ascii_upper_char_def Let_def)
  qed
  then show ?thesis by (simp add: to_ascii_lowercase_def to_ascii_uppercase_def)
qed

lemma key_to_vorbis_eq:
  "key_to_vorbis key =
     (if list_ex (\<lambda>e. e_key e = to_ascii_lowercase key) vocab
      then Some (to_ascii_uppercase (to_ascii_lowercase key)) else None)"
proof -
  have "map_option e_vorbis (find (\<lambda>e. e_key e = k) xs) = map_option to_ascii_uppercase (map_option e_key (find (\<lambda>e. e_key e = k) xs))"
    if "list_all (\<lambda>e. e_vorbis e = to_ascii_uppercase (e_key e)) xs" for xs :: "entry list" and k
    using that by (induction xs) auto
  from this[OF vocab_vorbis_upper_all]
  show ?thesis by (simp add: key_to_vorbis_def Let_def map_find_key list_ex_iff)
qed

lemma field_to_key:
  "(case vorbis_to_key (vorbis_field key) of Some k \<Rightarrow> k | None \<Rightarrow> vorbis_field key) = canonical_key key"
  by (auto simp: vorbis_field_def key_to_vorbis_eq vorbis_to_key_eq canonical_key_def Let_def
      upper_lower lower_lower list_ex_iff)

definition key_char :: "char \<Rightarrow> bool" where
  "key_char c \<longleftrightarrow> 0x20 \<le> (of_char c :: nat) \<and> (of_char c :: nat) \<le> 0x7D \<and> c \<noteq> CHR ''=''"

lemma byte_of_char: "unat (word_of_nat (of_char c) :: byte) = of_char c"
  by (simp add: unat_of_nat of_char_mod_256)

lemma is_valid_key_iff: "is_valid_key key \<longleftrightarrow> key \<noteq> [] \<and> (\<forall>c\<in>set key. key_char c)"
proof -
  have e: "(word_of_nat (of_char c) :: byte) = 0x3D \<longleftrightarrow> c = CHR ''=''" for c
  proof -
    have "(word_of_nat (of_char c) :: byte) = 0x3D \<longleftrightarrow> (of_char c :: nat) = 61"
      by (simp add: word_unat_eq_iff byte_of_char)
    also have "\<dots> \<longleftrightarrow> (of_char c :: nat) = of_char (CHR ''='')" by simp
    finally show ?thesis by (simp only: of_char_eq_iff)
  qed
  show ?thesis
    by (auto simp: is_valid_key_def list_all_iff as_bytes_def key_char_def e word_le_nat_alt byte_of_char)
qed

lemma key_char_lower: "key_char c \<Longrightarrow> key_char (ascii_lower_char c)"
proof (cases "65 \<le> (of_char c :: nat) \<and> (of_char c :: nat) \<le> 90")
  case True
  then have e: "of_char (ascii_lower_char c) = (of_char c :: nat) + 32" by (rule lower_code)
  have "(of_char (ascii_lower_char c) :: nat) \<noteq> 61" unfolding e using True by arith
  then have "ascii_lower_char c \<noteq> CHR ''=''" by auto
  then show ?thesis unfolding key_char_def e using True by arith
qed (auto simp: key_char_def ascii_lower_char_def Let_def)

lemma key_char_upper: "key_char c \<Longrightarrow> key_char (ascii_upper_char c)"
proof (cases "97 \<le> (of_char c :: nat) \<and> (of_char c :: nat) \<le> 122")
  case True
  then have e: "of_char (ascii_upper_char c) = (of_char c :: nat) - 32" by (rule upper_code)
  have "(of_char (ascii_upper_char c) :: nat) \<noteq> 61" unfolding e using True by arith
  then have "ascii_upper_char c \<noteq> CHR ''=''" by auto
  then show ?thesis unfolding key_char_def e using True by arith
qed (auto simp: key_char_def ascii_upper_char_def Let_def)

lemma field_chars: "\<forall>c\<in>set key. key_char c \<Longrightarrow> \<forall>c\<in>set (vorbis_field key). key_char c"
  by (auto simp: vorbis_field_def key_to_vorbis_eq to_ascii_uppercase_def to_ascii_lowercase_def
      intro: key_char_upper key_char_lower)

lemma field_length: "length (vorbis_field key) = length key"
  by (simp add: vorbis_field_def key_to_vorbis_eq)

lemma field_no_eq: "is_valid_key key \<Longrightarrow> CHR ''='' \<notin> set (vorbis_field key)"
  using field_chars[of key] by (auto simp: is_valid_key_iff key_char_def)

lemma split_once_field:
  "c \<notin> set f \<Longrightarrow> split_once c (f @ [c] @ v) = Some (f, v)"
  by (auto simp: split_once_def takeWhile_tail dropWhile_append)

lemma push_comment_field:
  "is_valid_key key \<Longrightarrow>
   push_comment (vorbis_field key @ ''='' @ v) out = out @ [(canonical_key key, v)]"
  using split_once_field[OF field_no_eq, of key v] field_length[of key] field_to_key[of key]
  by (auto simp: push_comment_def is_valid_key_iff)

lemma comment_utf8:
  assumes "is_valid_key key" "utf8_valid (as_bytes v)"
  shows "from_utf8 (as_bytes (vorbis_field key @ ''='' @ v)) = Some (vorbis_field key @ ''='' @ v)"
proof -
  have c: "(of_char c :: nat) < 128" if "c \<in> set (vorbis_field key @ ''='')" for c
  proof (cases "c = CHR ''=''")
    case False
    then have "key_char c" using that field_chars[of key] assms(1) by (simp add: is_valid_key_iff)
    then have "(of_char c :: nat) \<le> 125" by (simp add: key_char_def)
    then show ?thesis by arith
  qed simp
  have "\<forall>b\<in>set (as_bytes (vorbis_field key @ ''='')). b < 0x80"
    using c by (simp only: as_bytes_def word_less_nat_alt byte_of_char set_map ball_simps) simp
  from utf8_valid_ascii_append[OF this, of "as_bytes v"] assms(2)
  have "utf8_valid (as_bytes ((vorbis_field key @ ''='') @ v))"
    unfolding as_bytes_append[of "vorbis_field key @ ''=''"] by simp
  then show ?thesis by (intro from_utf8_as_bytes) (simp only: append_assoc)
qed

definition tag_ok :: "tag_input \<Rightarrow> bool" where
  "tag_ok t \<longleftrightarrow> is_valid_key (ti_key t) \<and> comment_fits t \<and> utf8_valid (as_bytes (ti_value t))"

lemma parse_comments_built:
  "list_all tag_ok ts \<Longrightarrow>
   parse_comments (pre @ concat (map comment_block ts) @ rest) (length ts) (length pre) out
   = Inr (out @ map (\<lambda>t. (canonical_key (ti_key t), ti_value t)) ts)"
proof (induction ts arbitrary: pre out)
  case (Cons t ts)
  define c where "c = vorbis_field (ti_key t) @ ''='' @ ti_value t"
  define tail where "tail = concat (map comment_block ts) @ rest"
  have t: "is_valid_key (ti_key t)" "length c \<le> u32_max" "utf8_valid (as_bytes (ti_value t))"
    using Cons.prems by (auto simp: tag_ok_def comment_fits_def c_def)
  have body: "pre @ concat (map comment_block (t # ts)) @ rest = pre @ le_bytes 4 (length c) @ as_bytes c @ tail"
    by (simp only: comment_block_def tail_def Let_def c_def list.map concat.simps append_assoc)
  have rd: "read_u32_le (pre @ le_bytes 4 (length c) @ as_bytes c @ tail) (length pre) = Inr (length c)"
    using t(2) by (intro read_u32_le_at) (simp_all add: u32_max_def)
  have sl: "slice (pre @ le_bytes 4 (length c) @ as_bytes c @ tail) (length pre + 4) (length c) = as_bytes c"
    by (simp add: slice_append2 slice_append1 slice_full)
  have u: "from_utf8 (as_bytes c) = Some c" unfolding c_def by (rule comment_utf8[OF t(1,3)])
  have p: "push_comment c out = out @ [(canonical_key (ti_key t), ti_value t)]"
    unfolding c_def by (rule push_comment_field[OF t(1)])
  have ih: "parse_comments ((pre @ le_bytes 4 (length c) @ as_bytes c) @ tail) (length ts)
       (length (pre @ le_bytes 4 (length c) @ as_bytes c)) (push_comment c out)
     = Inr (push_comment c out @ map (\<lambda>t. (canonical_key (ti_key t), ti_value t)) ts)"
    unfolding tail_def using Cons.prems by (intro Cons.IH) simp
  show ?case unfolding body
    using rd sl u ih by (simp add: Let_def p add.assoc del: le_bytes.simps)
qed simp

lemma parse_built:
  assumes b: "vorbis_build tags = Inr body"
    and u: "\<forall>t\<in>set tags. utf8_valid (as_bytes (ti_value t))"
  shows "vorbis_parse (body @ rest) =
    Inr (map (\<lambda>t. (canonical_key (ti_key t), ti_value t)) (filter (\<lambda>t. is_valid_key (ti_key t)) tags))"
proof -
  define vs where "vs = filter (\<lambda>t. is_valid_key (ti_key t)) tags"
  define hd4 where "hd4 = le_bytes 4 6 @ as_bytes vendor"
  have n: "length vs \<le> u32_max" "list_all comment_fits vs"
    and body: "body = hd4 @ le_bytes 4 (length vs) @ concat (map comment_block vs)"
    using b by (auto simp: vorbis_build_eq Let_def hd4_def simp flip: vs_def split: if_splits)
  have ok: "list_all tag_ok vs" using n(2) u by (auto simp: tag_ok_def list_all_iff vs_def)
  have l: "length hd4 = 10" by (simp add: hd4_def vendor_def)
  have r0: "read_u32_le (body @ rest) 0 = Inr 6"
    using read_u32_le_at[of "[]" 0 6] by (simp add: body hd4_def del: le_bytes.simps)
  have r1: "read_u32_le (body @ rest) 10 = Inr (length vs)"
    using read_u32_le_at[OF l, of "length vs"] n(1) by (simp add: body u32_max_def)
  have "parse_comments ((hd4 @ le_bytes 4 (length vs)) @ concat (map comment_block vs) @ rest) (length vs)
      (length (hd4 @ le_bytes 4 (length vs))) [] = Inr ([] @ map (\<lambda>t. (canonical_key (ti_key t), ti_value t)) vs)"
    by (rule parse_comments_built[OF ok])
  then show ?thesis using r0 r1 by (simp add: vorbis_parse_def body l Let_def flip: vs_def)
qed

text \<open>C11: parsing a VorbisComment body built from tags, with any trailing bytes, gives the tags whose
  key is a legal field name, in order, each under its canonical key with its value unchanged.\<close>

theorem vorbis_roundtrip:
  assumes "vorbis_build tags = Inr body" "\<forall>t\<in>set tags. utf8_valid (as_bytes (ti_value t))"
  shows "vorbis_parse (body @ rest) =
    Inr (map (\<lambda>t. (canonical_key (ti_key t), ti_value t)) (filter (\<lambda>t. is_valid_key (ti_key t)) tags))"
  by (rule parse_built[OF assms])

lemma vorbis_roundtrip_witness:
  "vorbis_parse (projr (vorbis_build [\<lparr> ti_key = ''Title'', ti_value = ''x=y'' \<rparr>, \<lparr> ti_key = ''MOOD'', ti_value = ''q'' \<rparr>]) @ [1]) =
    Inr [(''title'', ''x=y''), (''MOOD'', ''q'')]"
proof -
  let ?t = "[\<lparr> ti_key = ''Title'', ti_value = ''x=y'' \<rparr>, \<lparr> ti_key = ''MOOD'', ti_value = ''q'' \<rparr>]"
  have b: "vorbis_build ?t = Inr (projr (vorbis_build ?t))" by code_simp
  have u: "\<forall>t\<in>set ?t. utf8_valid (as_bytes (ti_value t))" by code_simp
  have c: "map (\<lambda>t. (canonical_key (ti_key t), ti_value t)) (filter (\<lambda>t. is_valid_key (ti_key t)) ?t) =
      [(''title'', ''x=y''), (''MOOD'', ''q'')]" by code_simp
  show ?thesis using vorbis_roundtrip[OF b u, of "[1]"] unfolding c .
qed

end
