(* ===== verification/Base64.thy ===== *)
theory Base64
  imports Format_Base
begin

text \<open>
  Incremental base64 serving, musefs-format/src/ogg/b64.rs. The encoder itself is the
  third-party base64 crate: a parameter enc of the definitions, with the documented
  laws of the padded standard encoding stated by the locale base64_engine. The
  interpretation checks the laws on the RFC 4648 encoding.
\<close>

record b64_window =
  w_in_start :: nat
  w_in_len :: nat
  w_skip :: nat

definition b64_window :: "nat \<Rightarrow> nat \<Rightarrow> nat \<Rightarrow> b64_window" where
  "b64_window out_offset take_n img_total =
     (let g0 = out_offset div 4;
          g1 = (out_offset + take_n - 1) div 4;
          in_start = g0 * 3;
          in_end = min ((g1 + 1) * 3) img_total
      in \<lparr> w_in_start = in_start, w_in_len = in_end - in_start, w_skip = out_offset - g0 * 4 \<rparr>)"

definition encode_b64_slice :: "(bytes \<Rightarrow> bytes) \<Rightarrow> bytes \<Rightarrow> nat \<Rightarrow> nat \<Rightarrow> bytes option" where
  "encode_b64_slice enc raw skip take_n =
     Option.bind (checked_add64 skip take_n) (\<lambda>e. get_slice (enc raw) skip e)"

definition div_ceil :: "nat \<Rightarrow> nat \<Rightarrow> nat" where
  "div_ceil a b = (if a mod b = 0 then a div b else a div b + 1)"

definition b64_len_checked :: "nat \<Rightarrow> nat option" where
  "b64_len_checked img_total = checked_mul64 (div_ceil img_total 3) 4"

text \<open>The panic of expect on overflow is the value None.\<close>

definition b64_len :: "nat \<Rightarrow> nat option" where
  "b64_len img_total = b64_len_checked img_total"

lemma div_ceil_3: "div_ceil a 3 = (a + 2) div 3"
  by (simp add: div_ceil_def) presburger

lemma b64_len_checked_eq:
  "b64_len_checked n = Some m \<longleftrightarrow> m = 4 * ((n + 2) div 3) \<and> m \<le> u64_max"
  by (auto simp: b64_len_checked_def div_ceil_3 mult.commute)

lemma b64_len_checked_if:
  "b64_len_checked n = (if 4 * ((n + 2) div 3) \<le> u64_max then Some (4 * ((n + 2) div 3)) else None)"
  by (simp add: b64_len_checked_def checked_mul64_def div_ceil_3 mult.commute)

subsection \<open>The laws of the encoder\<close>

locale base64_engine =
  fixes enc :: "bytes \<Rightarrow> bytes"
  assumes enc_length: "length (enc x) = 4 * ((length x + 2) div 3)"
    and enc_groups: "length a mod 3 = 0 \<Longrightarrow> enc (a @ b) = enc a @ enc b"
begin

lemma enc_groups_length: "length a mod 3 = 0 \<Longrightarrow> length (enc a) = 4 * (length a div 3)"
  by (simp add: enc_length) presburger

lemma enc_drop_groups:
  assumes "3 * g \<le> length img"
  shows "enc (drop (3 * g) img) = drop (4 * g) (enc img)"
proof -
  let ?a = "take (3 * g) img"
  have m: "length ?a mod 3 = 0" using assms by simp
  have "enc img = enc ?a @ enc (drop (3 * g) img)"
    using enc_groups[OF m, of "drop (3 * g) img"] by simp
  moreover have "length (enc ?a) = 4 * g"
    using assms by (simp add: enc_length)
  ultimately show ?thesis by simp
qed

lemma enc_take_groups:
  assumes "3 * g \<le> length img"
  shows "enc (take (3 * g) img) = take (4 * g) (enc img)"
proof -
  let ?a = "take (3 * g) img"
  have m: "length ?a mod 3 = 0" using assms by simp
  have "enc img = enc ?a @ enc (drop (3 * g) img)"
    using enc_groups[OF m, of "drop (3 * g) img"] by simp
  moreover have "length (enc ?a) = 4 * g" using assms by (simp add: enc_length)
  ultimately show ?thesis by simp
qed

lemma window_encodes:
  assumes pos: "0 < n"
    and inb: "off + n \<le> length (enc img)"
    and small: "length (enc img) \<le> u64_max"
    and w: "w = b64_window off n (length img)"
  shows "encode_b64_slice enc (slice img (w_in_start w) (w_in_len w)) (w_skip w) n =
         Some (slice (enc img) off n)"
proof -
  define T where "T = length img"
  define g0 where "g0 = off div 4"
  define g1 where "g1 = (off + n - 1) div 4"
  have le: "off + n \<le> 4 * ((T + 2) div 3)" using inb by (simp add: enc_length T_def)
  have g01: "g0 \<le> g1" unfolding g0_def g1_def using pos by (intro div_le_mono) simp
  have g1T: "3 * g1 < T" and offg: "off + n \<le> 4 * (g1 + 1)" and g0off: "4 * g0 \<le> off"
  proof -
    have "off + n - 1 < (T + 2) div 3 * 4" using le pos by simp
    then have "g1 < (T + 2) div 3" unfolding g1_def by (rule less_mult_imp_div_less)
    then have "(g1 + 1) * 3 \<le> T + 2" by (simp add: less_eq_div_iff_mult_less_eq Suc_le_eq)
    then show "3 * g1 < T" by simp
    have "off + n - 1 < 4 + (off + n - 1) div 4 * 4" by (rule dividend_less_div_times) simp
    then show "off + n \<le> 4 * (g1 + 1)" unfolding g1_def using pos by simp
    show "4 * g0 \<le> off" unfolding g0_def by simp
  qed
  define raw where "raw = slice img (w_in_start w) (w_in_len w)"
  define e where "e = min ((g1 + 1) * 3) T"
  have raw: "raw = take (e - 3 * g0) (drop (3 * g0) img)"
    by (simp add: raw_def slice_def w b64_window_def Let_def g0_def g1_def e_def T_def mult.commute)
  have "enc raw = take (4 * (g1 + 1 - g0)) (drop (4 * g0) (enc img))"
  proof (cases "(g1 + 1) * 3 \<le> T")
    case True
    have "3 * (g1 + 1 - g0) \<le> length (drop (3 * g0) img)" using True g01 by (simp add: T_def)
    moreover have "enc (drop (3 * g0) img) = drop (4 * g0) (enc img)"
      using True g01 by (intro enc_drop_groups) (simp add: T_def)
    moreover have "raw = take (3 * (g1 + 1 - g0)) (drop (3 * g0) img)"
      using True by (simp only: raw e_def diff_mult_distrib2 mult.commute[of _ 3] min_absorb1)
    ultimately show ?thesis by (simp only: enc_take_groups)
  next
    case False
    have "raw = drop (3 * g0) img" using False by (simp add: raw e_def T_def)
    moreover have "length (enc img) \<le> 4 * (g1 + 1)" using False g1T
      by (simp add: enc_length flip: T_def) presburger
    ultimately show ?thesis using g01 g1T by (simp add: enc_drop_groups T_def)
  qed
  then have er: "enc raw = slice (enc img) (4 * g0) (4 * (g1 + 1 - g0))" by (simp add: slice_def)
  have sk: "w_skip w = off - 4 * g0" by (simp add: w b64_window_def Let_def g0_def mult.commute)
  have bnd: "w_skip w + n \<le> 4 * (g1 + 1 - g0)" using sk offg g0off g01 by simp
  have len: "w_skip w + n \<le> length (enc raw)" using bnd sk g0off inb by (simp add: er)
  have u: "w_skip w + n \<le> u64_max" using sk inb small by simp
  have "slice (enc raw) (w_skip w) n = slice (enc img) off n"
    unfolding er using bnd sk g0off by (simp add: slice_slice)
  then have "encode_b64_slice enc raw (w_skip w) n = Some (slice (enc img) off n)" using len u
    by (simp add: encode_b64_slice_def checked_add64_def get_slice_eq_Some)
  then show ?thesis by (simp add: raw_def)
qed

end

subsection \<open>The standard encoding\<close>

definition b64_alphabet :: bytes where
  "b64_alphabet = as_bytes ''ABCDEFGHIJKLMNOPQRSTUVWXYZabcdefghijklmnopqrstuvwxyz0123456789+/''"

definition b64_char :: "nat \<Rightarrow> byte" where
  "b64_char n = b64_alphabet ! (n mod 64)"

fun b64_std :: "bytes \<Rightarrow> bytes" where
  "b64_std [] = []"
| "b64_std [a] =
     (let v = unat a * 65536 in [b64_char (v div 262144), b64_char (v div 4096), 61, 61])"
| "b64_std [a, b] =
     (let v = unat a * 65536 + unat b * 256
      in [b64_char (v div 262144), b64_char (v div 4096), b64_char (v div 64), 61])"
| "b64_std (a # b # c # rest) =
     (let v = unat a * 65536 + unat b * 256 + unat c
      in b64_char (v div 262144) # b64_char (v div 4096) # b64_char (v div 64) # b64_char v # b64_std rest)"

lemma b64_std_length: "length (b64_std x) = 4 * ((length x + 2) div 3)"
proof (induction x rule: b64_std.induct)
  case (4 a b c rest)
  have "(5 + length rest) div 3 = 1 + (2 + length rest) div 3" by linarith
  then show ?case using 4 by (simp add: Let_def)
qed (simp_all add: Let_def)

lemma b64_std_groups: "length a mod 3 = 0 \<Longrightarrow> b64_std (a @ b) = b64_std a @ b64_std b"
  by (induction a rule: b64_std.induct) (simp_all add: Let_def mod_Suc split: if_splits)

interpretation std: base64_engine b64_std
  by unfold_locales (rule b64_std_length, rule b64_std_groups)

text \<open>C13: for any window of the base64 text of an image, reading only the raw bytes the window plan
  names, encoding them and trimming gives exactly that window of the encoding of the whole image.\<close>

theorem b64_window_serves:
  assumes "base64_engine enc" "0 < n" "off + n \<le> length (enc img)" "length (enc img) \<le> u64_max"
  shows "encode_b64_slice enc
      (slice img (w_in_start (b64_window off n (length img))) (w_in_len (b64_window off n (length img))))
      (w_skip (b64_window off n (length img))) n = Some (slice (enc img) off n)"
  by (rule base64_engine.window_encodes[OF assms refl])

lemma b64_window_serves_witness:
  "encode_b64_slice b64_std
      (slice [77, 97, 110, 77, 97] (w_in_start (b64_window 2 5 5)) (w_in_len (b64_window 2 5 5)))
      (w_skip (b64_window 2 5 5)) 5 = Some (as_bytes ''FuTWE'')"
proof -
  have l: "length (b64_std [77, 97, 110, 77, 97]) = 8" by (simp add: b64_std_length)
  have five: "length [77, 97, 110, 77, 97 :: byte] = 5" by simp
  have b: "length (b64_std [77, 97, 110, 77, 97]) \<le> u64_max" unfolding l by (simp add: u64_max_def)
  have s: "slice (b64_std [77, 97, 110, 77, 97]) 2 5 = as_bytes ''FuTWE''" by code_simp
  have w: "0 < (5 :: nat)" "2 + 5 \<le> length (b64_std [77, 97, 110, 77, 97])" unfolding l by simp_all
  show ?thesis by (rule b64_window_serves[OF std.base64_engine_axioms w b, unfolded five s])
qed

end
