(* ===== verification/Layout.thy ===== *)
theory Layout
  imports Base64
begin

text \<open>
  Region layouts, musefs-format/src/layout.rs: the ordered description of a synthesized file,
  its stored totals and the producer invariants checked by validate. The relation of a
  segment to the bytes it stands for (seg_bytes) is the abstract specification
  the synthesizers and the reader are checked against.
\<close>

datatype segment =
    Inline bytes
  | ArtImage int nat
  | BackingAudio nat nat
  | OggAudio nat nat int
  | OggArtSlice int nat nat bool nat
  | BinaryTag int nat

fun seg_len :: "segment \<Rightarrow> nat" where
  "seg_len (Inline b) = length b"
| "seg_len (ArtImage i n) = n"
| "seg_len (BackingAudio off n) = n"
| "seg_len (OggAudio off n d) = n"
| "seg_len (OggArtSlice i off n b64 tot) = n"
| "seg_len (BinaryTag i n) = n"

definition seg_is_empty :: "segment \<Rightarrow> bool" where
  "seg_is_empty s = (seg_len s = 0)"

fun is_audio :: "segment \<Rightarrow> bool" where
  "is_audio (BackingAudio off n) = True"
| "is_audio (OggAudio off n d) = True"
| "is_audio s = False"

record region_layout =
  rl_segments :: "segment list"
  rl_total_len :: nat
  rl_header_len :: nat

definition from_segments :: "segment list \<Rightarrow> region_layout" where
  "from_segments segs =
     \<lparr> rl_segments = segs,
       rl_total_len = foldl sat_add64 0 (map seg_len segs),
       rl_header_len = foldl sat_add64 0 (map seg_len (filter (\<lambda>s. \<not> is_audio s) segs)) \<rparr>"

definition has_binary_tag :: "region_layout \<Rightarrow> bool" where
  "has_binary_tag l = list_ex (\<lambda>s. case s of BinaryTag i n \<Rightarrow> True | _ \<Rightarrow> False) (rl_segments l)"

definition streams_db_rowid :: "region_layout \<Rightarrow> bool" where
  "streams_db_rowid l =
     list_ex (\<lambda>s. case s of BinaryTag i n \<Rightarrow> True | ArtImage i n \<Rightarrow> True
                       | OggArtSlice i off n b t \<Rightarrow> True | _ \<Rightarrow> False) (rl_segments l)"

definition check_empty :: "segment \<Rightarrow> layout_error + unit" where
  "check_empty seg = require (\<not> (seg_len seg = 0 \<and> \<not> is_audio seg)) EmptySegment"

fun check_range :: "segment \<Rightarrow> layout_error + unit" where
  "check_range (BackingAudio off n) = require (checked_add64 off n \<noteq> None) BackingRangeOverflow"
| "check_range (OggAudio off n d) = require (checked_add64 off n \<noteq> None) BackingRangeOverflow"
| "check_range (OggArtSlice i off n b64 tot) =
     rbind (if b64 then ok_or (b64_len_checked tot) OggArtSliceRangeOverflow else Inr tot) (\<lambda>permitted.
     rbind (ok_or (checked_add64 off n) OggArtSliceRangeOverflow) (\<lambda>e.
     if e > permitted then Inl OggArtSliceOutOfBounds else Inr ()))"
| "check_range s = Inr ()"

fun validate_from :: "nat \<Rightarrow> segment list \<Rightarrow> layout_error + unit" where
  "validate_from tot [] = Inr ()"
| "validate_from tot (seg # segs) =
     rbind (check_empty seg) (\<lambda>_.
     rbind (check_range seg) (\<lambda>_.
     rbind (ok_or (checked_add64 tot (seg_len seg)) TotalOverflow) (\<lambda>tot'.
     validate_from tot' segs)))"

definition validate :: "region_layout \<Rightarrow> layout_error + unit" where
  "validate l = validate_from 0 (rl_segments l)"

definition validated :: "segment list \<Rightarrow> layout_error + region_layout" where
  "validated segs = rbind (validate (from_segments segs)) (\<lambda>_. Inr (from_segments segs))"

subsection \<open>What a validated layout guarantees\<close>

fun seg_ok :: "segment \<Rightarrow> bool" where
  "seg_ok (Inline b) = (b \<noteq> [])"
| "seg_ok (ArtImage i n) = (0 < n)"
| "seg_ok (BackingAudio off n) = (off + n \<le> u64_max)"
| "seg_ok (OggAudio off n d) = (off + n \<le> u64_max)"
| "seg_ok (OggArtSlice i off n b64 tot) =
     (0 < n \<and> off + n \<le> u64_max \<and>
      (if b64 then 4 * ((tot + 2) div 3) \<le> u64_max \<and> off + n \<le> 4 * ((tot + 2) div 3)
       else off + n \<le> tot))"
| "seg_ok (BinaryTag i n) = (0 < n)"

lemma segment_checks_iff:
  "rbind (check_empty s) (\<lambda>_. check_range s) = Inr () \<longleftrightarrow> seg_ok s"
  by (cases s) (auto simp: check_empty_def rbind_eq_Inr b64_len_checked_eq not_less
      simp del: checked_add64_None)

lemma validate_from_iff:
  "validate_from t segs = Inr () \<longleftrightarrow>
   (\<forall>s\<in>set segs. seg_ok s) \<and> (segs \<noteq> [] \<longrightarrow> t + sum_list (map seg_len segs) \<le> u64_max)"
proof (induction segs arbitrary: t)
  case (Cons s segs)
  have "validate_from t (s # segs) = Inr () \<longleftrightarrow>
        rbind (check_empty s) (\<lambda>_. check_range s) = Inr () \<and> t + seg_len s \<le> u64_max \<and>
        validate_from (t + seg_len s) segs = Inr ()"
    by (auto simp: rbind_eq_Inr)
  then show ?case unfolding segment_checks_iff Cons.IH
    by (cases "segs = []") (auto simp: add.assoc)
qed simp

lemma validate_from_total: "validate_from t segs = Inr u \<Longrightarrow> validate_from t segs = Inr ()"
  by simp

lemma foldl_sat_exact:
  "a + sum_list ns \<le> u64_max \<Longrightarrow> foldl sat_add64 a ns = a + sum_list ns"
  by (induction ns arbitrary: a) (simp_all add: sat_add64_exact)

lemma foldl_sat:
  "a \<le> u64_max \<Longrightarrow> foldl sat_add64 a ns = min (a + sum_list ns) u64_max"
  by (induction ns arbitrary: a) (auto simp: sat_add64_def min_def)

lemma validated_iff:
  "validated segs = Inr l \<longleftrightarrow>
   l = from_segments segs \<and> (\<forall>s\<in>set segs. seg_ok s) \<and> sum_list (map seg_len segs) \<le> u64_max"
  using validate_from_iff[of 0 segs]
  by (auto simp: validated_def validate_def rbind_eq_Inr from_segments_def)

lemma sum_split_audio:
  "sum_list (map seg_len segs) =
   sum_list (map seg_len (filter (\<lambda>s. \<not> is_audio s) segs)) + sum_list (map seg_len (filter is_audio segs))"
  by (induction segs) auto

lemma from_segments_exact:
  assumes "sum_list (map seg_len segs) \<le> u64_max"
  shows "from_segments segs =
    \<lparr> rl_segments = segs, rl_total_len = sum_list (map seg_len segs),
      rl_header_len = sum_list (map seg_len (filter (\<lambda>s. \<not> is_audio s) segs)) \<rparr>"
proof -
  have "sum_list (map seg_len (filter (\<lambda>s. \<not> is_audio s) segs)) \<le> u64_max"
    using assms sum_split_audio[of segs] by simp
  then show ?thesis using assms by (simp add: from_segments_def foldl_sat_exact)
qed

lemma validated_totals:
  "validated segs = Inr l \<Longrightarrow>
   rl_segments l = segs \<and> rl_total_len l = sum_list (map seg_len segs) \<and>
   rl_header_len l = sum_list (map seg_len (filter (\<lambda>s. \<not> is_audio s) segs))"
  by (auto simp: validated_iff from_segments_exact)

subsection \<open>The bytes a segment stands for\<close>

record byte_env =
  env_art :: "int \<Rightarrow> bytes"
  env_tag :: "int \<Rightarrow> bytes"
  env_backing :: bytes
  env_ogg :: "nat \<Rightarrow> nat \<Rightarrow> int \<Rightarrow> bytes"

fun seg_bytes :: "(bytes \<Rightarrow> bytes) \<Rightarrow> byte_env \<Rightarrow> segment \<Rightarrow> bytes" where
  "seg_bytes enc v (Inline b) = b"
| "seg_bytes enc v (ArtImage i n) = slice (env_art v i) 0 n"
| "seg_bytes enc v (BackingAudio off n) = slice (env_backing v) off n"
| "seg_bytes enc v (OggAudio off n d) = env_ogg v off n d"
| "seg_bytes enc v (OggArtSlice i off n b64 tot) =
     slice (if b64 then enc (env_art v i) else env_art v i) off n"
| "seg_bytes enc v (BinaryTag i n) = slice (env_tag v i) 0 n"

definition layout_bytes :: "(bytes \<Rightarrow> bytes) \<Rightarrow> byte_env \<Rightarrow> segment list \<Rightarrow> bytes" where
  "layout_bytes enc v segs = concat (map (seg_bytes enc v) segs)"

text \<open>The stored blobs and the backing file still have the sizes the layout was resolved for.\<close>

fun seg_present :: "byte_env \<Rightarrow> segment \<Rightarrow> bool" where
  "seg_present v (Inline b) = True"
| "seg_present v (ArtImage i n) = (length (env_art v i) = n)"
| "seg_present v (BackingAudio off n) = (off + n \<le> length (env_backing v))"
| "seg_present v (OggAudio off n d) = (length (env_ogg v off n d) = n)"
| "seg_present v (OggArtSlice i off n b64 tot) = (length (env_art v i) = tot)"
| "seg_present v (BinaryTag i n) = (length (env_tag v i) = n)"

lemma seg_bytes_length:
  assumes "base64_engine enc" "seg_ok s" "seg_present v s"
  shows "length (seg_bytes enc v s) = seg_len s"
  using assms by (cases s) (auto simp: base64_engine.enc_length split: if_splits)

lemma layout_bytes_simps [simp]:
  "layout_bytes enc v [] = []"
  "layout_bytes enc v (s # segs) = seg_bytes enc v s @ layout_bytes enc v segs"
  "layout_bytes enc v (a @ b) = layout_bytes enc v a @ layout_bytes enc v b"
  by (simp_all add: layout_bytes_def)

lemma layout_bytes_length:
  assumes "base64_engine enc" "\<forall>s\<in>set segs. seg_ok s \<and> seg_present v s"
  shows "length (layout_bytes enc v segs) = sum_list (map seg_len segs)"
  using assms(2) by (induction segs) (simp_all add: seg_bytes_length[OF assms(1)])

text \<open>The streamed payloads of a synthesis still have the sizes they were listed with.\<close>

definition blobs_present :: "byte_env \<Rightarrow> binary_tag_input list \<Rightarrow> art_input list \<Rightarrow> bool" where
  "blobs_present v bts arts \<longleftrightarrow>
     list_all (\<lambda>bt. length (env_tag v (bt_payload_id bt)) = bt_len bt) bts \<and>
     list_all (\<lambda>a. length (env_art v (ai_art_id a)) = ai_data_len a) arts"

text \<open>Metadata segments outside Ogg, whose blobs have the length the segment states.\<close>

fun meta_seg :: "byte_env \<Rightarrow> segment \<Rightarrow> bool" where
  "meta_seg v (Inline b) = True"
| "meta_seg v (ArtImage i n) = (length (env_art v i) = n)"
| "meta_seg v (BinaryTag i n) = (length (env_tag v i) = n)"
| "meta_seg v s = False"

definition flush_inline :: "bytes \<Rightarrow> segment list \<Rightarrow> segment list" where
  "flush_inline buf segments = (if buf \<noteq> [] then segments @ [Inline buf] else segments)"

lemma flush_inline_bytes: "layout_bytes enc v (flush_inline buf segs) = layout_bytes enc v segs @ buf"
  by (simp add: flush_inline_def)

lemma flush_inline_meta: "(\<forall>s\<in>set (flush_inline buf segs). meta_seg v s) \<longleftrightarrow> (\<forall>s\<in>set segs. meta_seg v s)"
  by (simp add: flush_inline_def ball_Un)

lemma meta_seg_not_audio: "meta_seg v s \<Longrightarrow> \<not> is_audio s"
  by (cases s) simp_all

lemma meta_bytes_length:
  "\<forall>s\<in>set segs. meta_seg v s \<Longrightarrow> length (layout_bytes enc v segs) = sum_list (map seg_len segs)"
proof (induction segs)
  case (Cons s segs)
  then show ?case by (cases s) simp_all
qed simp

lemma validated_meta_backing:
  assumes "map_err InvalidLayout (validated (segs @ [BackingAudio off n])) = Inr l"
    and m: "\<forall>s\<in>set segs. meta_seg v s"
  shows "rl_segments l = segs @ [BackingAudio off n]"
    "rl_header_len l = length (layout_bytes enc v segs)"
    "rl_total_len l = length (layout_bytes enc v segs) + n"
    "layout_bytes enc v (rl_segments l) = layout_bytes enc v segs @ slice (env_backing v) off n"
proof -
  obtain l' where l: "validated (segs @ [BackingAudio off n]) = Inr l'" "l' = l"
    using assms(1) by (cases "validated (segs @ [BackingAudio off n])") auto
  note t = validated_totals[OF l(1), unfolded l(2)]
  have f: "filter (\<lambda>s. \<not> is_audio s) segs = segs" using m meta_seg_not_audio[of v] by (auto simp: filter_id_conv)
  show "rl_segments l = segs @ [BackingAudio off n]" using t by simp
  show "rl_header_len l = length (layout_bytes enc v segs)"
    "rl_total_len l = length (layout_bytes enc v segs) + n"
    using t by (simp_all add: f meta_bytes_length[OF m])
  show "layout_bytes enc v (rl_segments l) = layout_bytes enc v segs @ slice (env_backing v) off n"
    using t by simp
qed

text \<open>C15: a layout that passes validation has non-empty metadata segments whose ranges lie in
  u64 and inside their source blobs, and its stored lengths are the exact (never saturated)
  sums, the backing audio accounting for the difference; and exactly those segment lists pass.\<close>

theorem validated_sound_complete:
  "validated segs = Inr l \<longleftrightarrow>
     list_all seg_ok segs \<and> sum_list (map seg_len segs) \<le> u64_max \<and>
     l = \<lparr> rl_segments = segs, rl_total_len = sum_list (map seg_len segs),
           rl_header_len = sum_list (map seg_len segs) - sum_list (map seg_len (filter is_audio segs)) \<rparr>"
  unfolding validated_iff using sum_split_audio[of segs]
  by (auto simp: from_segments_exact list_all_iff)

end
