(* ===== verification/Flac.thy ===== *)
theory Flac
  imports Id3v2 Vorbis Layout
begin

text \<open>
  FLAC metadata, musefs-format/src/flac.rs: the block walker and the readers built on it, their
  bounded twins, the block and picture encoders, and the synthesis of a FLAC region layout.
\<close>

definition flac_marker :: bytes where "flac_marker = [0x66, 0x4C, 0x61, 0x43]"

definition block_streaminfo :: byte where "block_streaminfo = 0"
definition block_application :: byte where "block_application = 2"
definition block_seektable :: byte where "block_seektable = 3"
definition block_vorbis_comment :: byte where "block_vorbis_comment = 4"
definition block_cuesheet :: byte where "block_cuesheet = 5"
definition block_picture :: byte where "block_picture = 6"

lemmas block_types = block_streaminfo_def block_application_def block_seektable_def
  block_vorbis_comment_def block_cuesheet_def block_picture_def

record metadata_block =
  mb_type :: byte
  mb_body :: bytes

record flac_scan =
  fs_audio_offset :: nat
  fs_audio_length :: nat
  fs_preserved :: "metadata_block list"

record flac_meta =
  fm_audio_offset :: nat
  fm_preserved :: "metadata_block list"

record block_head =
  bh_index :: nat
  bh_type :: byte
  bh_len :: nat

datatype block_step =
    Ready block_head bytes
  | Truncated block_head nat
  | NeedHeader nat

record block_walker =
  bw_data :: bytes
  bw_pos :: nat
  bw_index :: nat
  bw_done :: bool

definition u24_be :: "byte \<Rightarrow> byte \<Rightarrow> byte \<Rightarrow> nat" where
  "u24_be b0 b1 b2 = be_val [0, b0, b1, b2]"

definition walker_new_bounded :: "bytes \<Rightarrow> block_walker extent fresult" where
  "walker_new_bounded data =
     rbind (leading_tags_len data) (\<lambda>x. case x of
       NeedMore up_to \<Rightarrow> Inr (NeedMore up_to)
     | Complete base \<Rightarrow>
         if length data < base + 4 then
           (if base = 0 then Inl NotFlac else Inr (NeedMore (base + 4)))
         else if slice data base 4 \<noteq> flac_marker then Inl NotFlac
         else Inr (Complete \<lparr> bw_data = data, bw_pos = base + 4, bw_index = 0, bw_done = False \<rparr>))"

definition walker_new :: "bytes \<Rightarrow> block_walker fresult" where
  "walker_new data =
     rbind (walker_new_bounded data) (\<lambda>x. case x of Complete w \<Rightarrow> Inr w | NeedMore u \<Rightarrow> Inl NotFlac)"

definition next_block :: "block_walker \<Rightarrow> block_step option \<times> block_walker" where
  "next_block w =
     (if bw_done w then (None, w)
      else if bw_pos w + 4 > length (bw_data w) then
        (Some (NeedHeader (bw_pos w + 4)), w\<lparr> bw_done := True \<rparr>)
      else
        let header = bw_data w ! bw_pos w;
            is_last = (header AND 0x80 \<noteq> 0);
            block_type = header AND 0x7F;
            len = u24_be (bw_data w ! (bw_pos w + 1)) (bw_data w ! (bw_pos w + 2)) (bw_data w ! (bw_pos w + 3));
            head = \<lparr> bh_index = bw_index w, bh_type = block_type, bh_len = len \<rparr>;
            body_start = bw_pos w + 4;
            body_end = body_start + len
        in if body_end > length (bw_data w) then
             (Some (Truncated head body_end), w\<lparr> bw_done := True \<rparr>)
           else
             (Some (Ready head (slice (bw_data w) body_start len)),
              w\<lparr> bw_pos := body_end, bw_index := bw_index w + 1,
                 bw_done := (if is_last then True else bw_done w) \<rparr>))"

definition walker_left :: "block_walker \<Rightarrow> nat" where
  "walker_left w = (if bw_done w then 0 else Suc (length (bw_data w) - bw_pos w))"

lemma next_block_left: "next_block w = (Some (Ready h b), w') \<Longrightarrow> walker_left w' < walker_left w"
  by (auto simp: next_block_def walker_left_def Let_def split: if_splits)

definition streaminfo_body_len :: nat where "streaminfo_body_len = 34"
definition max_block_body :: nat where "max_block_body = 0x00FFFFFF"

definition check_streaminfo_position :: "nat \<Rightarrow> byte \<Rightarrow> nat \<Rightarrow> unit fresult" where
  "check_streaminfo_position index block_type body_len =
     (let is_streaminfo = (block_type = block_streaminfo)
      in if index = 0 then
           (if \<not> is_streaminfo \<or> body_len \<noteq> streaminfo_body_len then Inl Malformed else Inr ())
         else if is_streaminfo then Inl Malformed
         else Inr ())"

definition preserve :: "block_head \<Rightarrow> bytes \<Rightarrow> metadata_block list \<Rightarrow> metadata_block list" where
  "preserve head body preserved =
     (if bh_type head \<in> {block_streaminfo, block_application, block_seektable, block_cuesheet}
      then preserved @ [\<lparr> mb_type = bh_type head, mb_body = body \<rparr>] else preserved)"

function parse_blocks_loop :: "block_walker \<Rightarrow> metadata_block list \<Rightarrow> flac_meta fresult" where
  "parse_blocks_loop w preserved =
     (case next_block w of
        (None, w) \<Rightarrow> Inr \<lparr> fm_audio_offset = bw_pos w, fm_preserved = preserved \<rparr>
      | (Some (Ready head body), w') \<Rightarrow>
          rbind (check_streaminfo_position (bh_index head) (bh_type head) (bh_len head)) (\<lambda>_.
          parse_blocks_loop w' (preserve head body preserved))
      | (Some (Truncated head up_to), w) \<Rightarrow> Inl Malformed
      | (Some (NeedHeader up_to), w) \<Rightarrow> Inl Malformed)"
  by auto
termination by (relation "measure (\<lambda>(w, _). walker_left w)") (auto dest: next_block_left[OF sym])

declare parse_blocks_loop.simps [simp del]

definition parse_blocks :: "bytes \<Rightarrow> flac_meta fresult" where
  "parse_blocks data = rbind (walker_new data) (\<lambda>w. parse_blocks_loop w [])"

definition flac_read_metadata :: "bytes \<Rightarrow> flac_meta fresult" where
  "flac_read_metadata data = parse_blocks data"

function bounded_blocks_loop :: "block_walker \<Rightarrow> metadata_block list \<Rightarrow> flac_meta extent fresult" where
  "bounded_blocks_loop w preserved =
     (case next_block w of
        (None, w) \<Rightarrow> Inr (Complete \<lparr> fm_audio_offset = bw_pos w, fm_preserved = preserved \<rparr>)
      | (Some (Ready head body), w') \<Rightarrow>
          rbind (check_streaminfo_position (bh_index head) (bh_type head) (bh_len head)) (\<lambda>_.
          bounded_blocks_loop w' (preserve head body preserved))
      | (Some (Truncated head up_to), w) \<Rightarrow>
          rbind (check_streaminfo_position (bh_index head) (bh_type head) (bh_len head)) (\<lambda>_.
          Inr (NeedMore up_to))
      | (Some (NeedHeader up_to), w) \<Rightarrow> Inr (NeedMore up_to))"
  by auto
termination by (relation "measure (\<lambda>(w, _). walker_left w)") (auto dest: next_block_left[OF sym])

declare bounded_blocks_loop.simps [simp del]

definition flac_read_metadata_bounded :: "bytes \<Rightarrow> flac_meta extent fresult" where
  "flac_read_metadata_bounded prefix =
     rbind (walker_new_bounded prefix) (\<lambda>x. case x of
       NeedMore up_to \<Rightarrow> Inr (NeedMore up_to)
     | Complete w \<Rightarrow> bounded_blocks_loop w [])"

definition has_leading_id3 :: "bytes \<Rightarrow> bool" where
  "has_leading_id3 data = starts_with_tag data"

definition id3v1_magic :: bytes where "id3v1_magic = [0x54, 0x41, 0x47]"

definition audio_end :: "nat \<Rightarrow> nat \<Rightarrow> bool \<Rightarrow> bytes option \<Rightarrow> nat" where
  "audio_end file_len audio_offset has_id3 tail =
     (case tail of
        Some t \<Rightarrow>
          if has_id3 \<and> file_len \<ge> audio_offset + 128 \<and> slice t 0 3 = id3v1_magic
          then file_len - 128 else file_len
      | None \<Rightarrow> file_len)"

definition last_chunk :: "nat \<Rightarrow> bytes \<Rightarrow> bytes option" where
  "last_chunk n b = (if n \<le> length b then Some (drop (length b - n) b) else None)"

definition flac_locate_audio :: "bytes \<Rightarrow> flac_scan fresult" where
  "flac_locate_audio data =
     rbind (parse_blocks data) (\<lambda>meta.
       let e = audio_end (length data) (fm_audio_offset meta) (has_leading_id3 data) (last_chunk 128 data)
       in Inr \<lparr> fs_audio_offset = fm_audio_offset meta, fs_audio_length = e - fm_audio_offset meta,
                fs_preserved = fm_preserved meta \<rparr>)"

definition flac_locate_audio_bounded :: "bytes \<Rightarrow> nat \<Rightarrow> bytes option \<Rightarrow> flac_scan extent fresult" where
  "flac_locate_audio_bounded prefix file_len tail =
     rbind (flac_read_metadata_bounded prefix) (\<lambda>x. case x of
       NeedMore up_to \<Rightarrow> Inr (NeedMore up_to)
     | Complete meta \<Rightarrow>
         if fm_audio_offset meta > file_len then Inl Malformed
         else let e = audio_end file_len (fm_audio_offset meta) (has_leading_id3 prefix) tail
              in Inr (Complete \<lparr> fs_audio_offset = fm_audio_offset meta,
                                 fs_audio_length = e - fm_audio_offset meta,
                                 fs_preserved = fm_preserved meta \<rparr>))"

subsection \<open>Encoders\<close>

definition push_block_header :: "bytes \<Rightarrow> byte \<Rightarrow> nat \<Rightarrow> bool \<Rightarrow> bytes fresult" where
  "push_block_header out block_type body_len is_last =
     rbind (ok_or (Option.bind (u32_try_from body_len) (\<lambda>v. if v \<le> max_block_body then Some v else None)) TooLarge) (\<lambda>len.
     let first = (if is_last then 0x80 else 0) OR (block_type AND 0x7F)
     in Inr (out @ [first] @ tl (be_bytes 4 len)))"

definition structural_block_type :: "string \<Rightarrow> byte option" where
  "structural_block_type kind =
     (if kind = ''STREAMINFO'' then Some block_streaminfo
      else if kind = ''SEEKTABLE'' then Some block_seektable
      else None)"

fun split_preserved_from ::
  "(string \<times> bytes) list \<Rightarrow> embedded_binary_tag list \<Rightarrow> metadata_block list \<Rightarrow>
   (string \<times> bytes) list \<times> embedded_binary_tag list" where
  "split_preserved_from structural binary [] = (structural, binary)"
| "split_preserved_from structural binary (blk # blks) =
     (if mb_type blk = block_streaminfo then
        split_preserved_from (structural @ [(''STREAMINFO'', mb_body blk)]) binary blks
      else if mb_type blk = block_seektable then
        split_preserved_from (structural @ [(''SEEKTABLE'', mb_body blk)]) binary blks
      else if mb_type blk = block_application then
        split_preserved_from structural (binary @ [\<lparr> ebt_key = ''APPLICATION'', ebt_payload = mb_body blk \<rparr>]) blks
      else if mb_type blk = block_cuesheet then
        split_preserved_from structural (binary @ [\<lparr> ebt_key = ''CUESHEET'', ebt_payload = mb_body blk \<rparr>]) blks
      else split_preserved_from structural binary blks)"

definition split_preserved :: "metadata_block list \<Rightarrow> (string \<times> bytes) list \<times> embedded_binary_tag list" where
  "split_preserved blocks = split_preserved_from [] [] blocks"

definition picture_body_framing :: "art_input \<Rightarrow> string \<Rightarrow> bytes fresult" where
  "picture_body_framing art description =
     rbind (u32_or_too_large (length (ai_mime art))) (\<lambda>ml.
     rbind (u32_or_too_large (length description)) (\<lambda>dl.
     rbind (u32_or_too_large (ai_data_len art)) (\<lambda>n.
     Inr (be_bytes 4 (ai_picture_type art) @ be_bytes 4 ml @ as_bytes (ai_mime art) @
          be_bytes 4 dl @ as_bytes description @ be_bytes 4 (ai_width art) @ be_bytes 4 (ai_height art) @
          be_bytes 4 0 @ be_bytes 4 0 @ be_bytes 4 n))))"

subsection \<open>Readers of comments and pictures\<close>

definition parse_picture_block :: "bytes \<Rightarrow> embedded_picture fresult" where
  "parse_picture_block body =
     rbind (read_u32_be body 0) (\<lambda>picture_type.
     rbind (read_u32_be body 4) (\<lambda>mime_len.
     let pos = 8; mime_end = pos + mime_len
     in if mime_end > length body then Inl Malformed
        else let mime = from_utf8_lossy (slice body pos mime_len); pos = mime_end
     in rbind (read_u32_be body pos) (\<lambda>desc_len.
     let pos = pos + 4; desc_end = pos + desc_len
     in if desc_end > length body then Inl Malformed
        else let description = from_utf8_lossy (slice body pos desc_len); pos = desc_end
     in rbind (read_u32_be body pos) (\<lambda>width.
     rbind (read_u32_be body (pos + 4)) (\<lambda>height.
     rbind (read_u32_be body (pos + 8)) (\<lambda>depth.
     rbind (read_u32_be body (pos + 12)) (\<lambda>colors.
     rbind (read_u32_be body (pos + 16)) (\<lambda>data_len.
     let pos = pos + 20; data_end = pos + data_len
     in if data_end > length body then Inl Malformed
        else Inr \<lparr> pic_mime = mime,
                   pic_type = (case picture_type_new picture_type of Some t \<Rightarrow> t | None \<Rightarrow> 0),
                   pic_description = description, pic_width = width, pic_height = height,
                   pic_data = slice body pos data_len \<rparr>))))))))"

function read_vorbis_loop :: "block_walker \<Rightarrow> (string \<times> string) list fresult" where
  "read_vorbis_loop w =
     (case next_block w of
        (None, w) \<Rightarrow> Inr []
      | (Some (Ready head body), w') \<Rightarrow>
          if bh_type head = block_vorbis_comment then vorbis_parse body else read_vorbis_loop w'
      | (Some (Truncated head up_to), w) \<Rightarrow> Inl Malformed
      | (Some (NeedHeader up_to), w) \<Rightarrow> Inl Malformed)"
  by auto
termination by (relation "measure walker_left") (auto dest: next_block_left[OF sym])

declare read_vorbis_loop.simps [simp del]

definition read_vorbis_comments :: "bytes \<Rightarrow> (string \<times> string) list fresult" where
  "read_vorbis_comments data = rbind (walker_new data) read_vorbis_loop"

function read_pictures_loop :: "block_walker \<Rightarrow> embedded_picture list \<Rightarrow> embedded_picture list fresult" where
  "read_pictures_loop w out =
     (case next_block w of
        (None, w) \<Rightarrow> Inr out
      | (Some (Ready head body), w') \<Rightarrow>
          if bh_type head = block_picture
          then rbind (parse_picture_block body) (\<lambda>p. read_pictures_loop w' (out @ [p]))
          else read_pictures_loop w' out
      | (Some (Truncated head up_to), w) \<Rightarrow> Inl Malformed
      | (Some (NeedHeader up_to), w) \<Rightarrow> Inl Malformed)"
  by auto
termination by (relation "measure (\<lambda>(w, _). walker_left w)") (auto dest: next_block_left[OF sym])

declare read_pictures_loop.simps [simp del]

definition flac_read_pictures :: "bytes \<Rightarrow> embedded_picture list fresult" where
  "flac_read_pictures data = rbind (walker_new data) (\<lambda>w. read_pictures_loop w [])"

subsection \<open>One block at a time\<close>

definition block_bytes :: "bool \<Rightarrow> byte \<Rightarrow> bytes \<Rightarrow> bytes" where
  "block_bytes is_last t body =
     [(if is_last then 0x80 else 0) OR (t AND 0x7F)] @ tl (be_bytes 4 (length body)) @ body"

lemma push_block_header_eq:
  "push_block_header out t n l =
     (if n \<le> max_block_body
      then Inr (out @ [(if l then 0x80 else 0) OR (t AND 0x7F)] @ tl (be_bytes 4 n)) else Inl TooLarge)"
proof -
  have "n \<le> max_block_body \<Longrightarrow> n \<le> u32_max" by (simp add: max_block_body_def u32_max_def)
  then show ?thesis
    by (auto simp: push_block_header_def u32_try_from_def Let_def)
qed

lemma flag_byte:
  fixes t :: byte
  shows "((if l then 0x80 else 0) OR (t AND 0x7F)) AND 0x80 \<noteq> 0 \<longleftrightarrow> l"
    and "((if l then 0x80 else 0) OR (t AND 0x7F)) AND 0x7F = t AND 0x7F"
proof -
  have m: "(0x7F :: byte) = mask 7" by (simp add: mask_eq_exp_minus_1)
  have e: "(0x80 :: byte) = 2 ^ 7" by simp
  have z: "(0x80 :: byte) AND 0x7F = 0" "(0x7F :: byte) AND 0x80 = 0" by simp_all
  have "((if l then 0x80 else 0) OR (t AND 0x7F)) AND 0x80 = (if l then 0x80 else (0 :: byte))"
    by (simp add: bit.conj_disj_distrib2 and.assoc z)
  then show "((if l then 0x80 else 0) OR (t AND 0x7F)) AND 0x80 \<noteq> 0 \<longleftrightarrow> l" by simp
  show "((if l then 0x80 else 0) OR (t AND 0x7F)) AND 0x7F = t AND 0x7F"
    by (simp add: bit.conj_disj_distrib2 and.assoc z)
qed

lemma u24_tl:
  assumes "n \<le> max_block_body"
  shows "\<exists>a b c. tl (be_bytes 4 n) = [a, b, c] \<and> u24_be a b c = n"
proof -
  have "length (be_bytes 4 n) = Suc (Suc (Suc (Suc 0)))" by simp
  then obtain z a b c where f: "be_bytes 4 n = [z, a, b, c]"
    unfolding length_Suc_conv length_0_conv by blast
  have v: "be_val [z, a, b, c] = n"
    using assms be_val_be_bytes[of n 4] unfolding f by (simp add: max_block_body_def)
  then have "unat z * 16777216 \<le> n" by (simp add: be_val_def)
  then have "unat z * 16777216 < 16777216" using assms by (simp add: max_block_body_def)
  then have "unat z = 0" by (cases "unat z") simp_all
  then have "z = 0" by (simp add: unsigned_eq_0_iff)
  then show ?thesis using f v by (simp add: u24_be_def)
qed

lemma tl_be4_length [simp]: "length (tl (be_bytes 4 n)) = 3"
  by simp

lemma block_bytes_length: "length (block_bytes l t body) = 4 + length body"
  by (simp add: block_bytes_def)

lemma next_block_at:
  assumes d: "bw_data w = pre @ block_bytes l t body @ rest" and p: "bw_pos w = length pre" and dn: "\<not> bw_done w"
    and n: "length body \<le> max_block_body" and t: "t AND 0x7F = t"
  shows "next_block w =
    (Some (Ready \<lparr> bh_index = bw_index w, bh_type = t, bh_len = length body \<rparr> body),
     w\<lparr> bw_pos := length pre + (4 + length body), bw_index := bw_index w + 1, bw_done := l \<rparr>)"
proof -
  obtain a b c where abc: "tl (be_bytes 4 (length body)) = [a, b, c]" "u24_be a b c = length body"
    using u24_tl[OF n] by blast
  define h where "h = (if l then 0x80 else 0) OR (t AND 0x7F)"
  have data: "bw_data w = pre @ h # a # b # c # (body @ rest)"
    by (simp add: d block_bytes_def abc h_def)
  have at: "bw_data w ! length pre = h" "bw_data w ! (length pre + 1) = a"
      "bw_data w ! (length pre + 2) = b" "bw_data w ! (length pre + 3) = c"
    by (simp_all add: data nth_append)
  have sl: "slice (bw_data w) (length pre + 4) (length body) = body"
    by (simp add: data slice_append2 slice_Cons slice_prefix)
  have len: "length pre + 4 + length body \<le> length (bw_data w)" by (simp add: data)
  have f: "h AND 0x80 \<noteq> 0 \<longleftrightarrow> l" "h AND 0x7F = t" unfolding h_def flag_byte using t by simp_all
  have i: "(if h AND 0x80 \<noteq> 0 then True else bw_done w) = l" using f(1) dn by simp
  show ?thesis
    unfolding next_block_def Let_def p at abc(2) f(2) i sl
    using dn len by (simp add: add.assoc)
qed

subsection \<open>Pictures survive the round trip\<close>

definition art_ok :: "art_input \<Rightarrow> bool" where
  "art_ok a \<longleftrightarrow> ai_picture_type a \<le> 20 \<and> ai_width a < 2 ^ 32 \<and> ai_height a < 2 ^ 32 \<and>
     utf8_valid (as_bytes (ai_mime a)) \<and> utf8_valid (as_bytes (ai_description a))"

lemma parse_framing:
  assumes f: "picture_body_framing a desc = Inr f"
    and n: "length img = ai_data_len a" and a: "art_ok a" and d: "utf8_valid (as_bytes desc)"
  shows "parse_picture_block (f @ img) =
    Inr \<lparr> pic_mime = ai_mime a, pic_type = ai_picture_type a, pic_description = desc,
          pic_width = ai_width a, pic_height = ai_height a, pic_data = img \<rparr>"
proof -
  let ?p0 = "be_bytes 4 (ai_picture_type a)" and ?p1 = "be_bytes 4 (length (ai_mime a))"
    and ?m = "as_bytes (ai_mime a)" and ?p2 = "be_bytes 4 (length desc)" and ?d = "as_bytes desc"
    and ?w = "be_bytes 4 (ai_width a)" and ?h = "be_bytes 4 (ai_height a)" and ?z = "be_bytes 4 0"
    and ?n = "be_bytes 4 (length img)"
  have b: "length (ai_mime a) < 2 ^ 32" "length desc < 2 ^ 32" "length img < 2 ^ 32"
    and body: "f @ img = ?p0 @ ?p1 @ ?m @ ?p2 @ ?d @ ?w @ ?h @ ?z @ ?z @ ?n @ img"
    using f n by (auto simp: picture_body_framing_def rbind_eq_Inr u32_max_def)
  define q where "q = 12 + length (ai_mime a) + length desc"
  have ab: "ai_picture_type a < 2 ^ 32" "ai_width a < 2 ^ 32" "ai_height a < 2 ^ 32" using a by (simp_all add: art_ok_def)
  have r: "read_u32_be (f @ img) 0 = Inr (ai_picture_type a)"
    "read_u32_be (f @ img) 4 = Inr (length (ai_mime a))"
    "read_u32_be (f @ img) (8 + length (ai_mime a)) = Inr (length desc)"
    "read_u32_be (f @ img) q = Inr (ai_width a)"
    "read_u32_be (f @ img) (q + 4) = Inr (ai_height a)"
    "read_u32_be (f @ img) (q + 8) = Inr 0"
    "read_u32_be (f @ img) (q + 12) = Inr 0"
    "read_u32_be (f @ img) (q + 16) = Inr (length img)"
    unfolding body q_def
    using read_u32_be_at[of "[]" 0 "ai_picture_type a"] read_u32_be_at[of ?p0 4 "length (ai_mime a)"]
      read_u32_be_at[of "?p0 @ ?p1 @ ?m" "8 + length (ai_mime a)" "length desc"]
      read_u32_be_at[of "?p0 @ ?p1 @ ?m @ ?p2 @ ?d" "12 + length (ai_mime a) + length desc" "ai_width a"]
      read_u32_be_at[of "?p0 @ ?p1 @ ?m @ ?p2 @ ?d @ ?w" "12 + length (ai_mime a) + length desc + 4" "ai_height a"]
      read_u32_be_at[of "?p0 @ ?p1 @ ?m @ ?p2 @ ?d @ ?w @ ?h" "12 + length (ai_mime a) + length desc + 8" 0]
      read_u32_be_at[of "?p0 @ ?p1 @ ?m @ ?p2 @ ?d @ ?w @ ?h @ ?z" "12 + length (ai_mime a) + length desc + 12" 0]
      read_u32_be_at[of "?p0 @ ?p1 @ ?m @ ?p2 @ ?d @ ?w @ ?h @ ?z @ ?z" "12 + length (ai_mime a) + length desc + 16" "length img"]
      b ab by simp_all
  have s: "slice (f @ img) 8 (length (ai_mime a)) = ?m"
    "slice (f @ img) (12 + length (ai_mime a)) (length desc) = ?d"
    "slice (f @ img) (q + 20) (length img) = img"
    unfolding body q_def by (simp_all add: slice_append2 slice_prefix slice_full)
  have l: "length (f @ img) = q + 20 + length img" by (simp add: body q_def)
  have u: "from_utf8_lossy ?m = ai_mime a" "from_utf8_lossy ?d = desc"
    using a d from_utf8_lossy_as_bytes by (simp_all add: art_ok_def)
  have pt: "picture_type_new (ai_picture_type a) = Some (ai_picture_type a)"
    using a by (simp add: art_ok_def picture_type_new_def)
  have q: "8 + length (ai_mime a) + 4 = 12 + length (ai_mime a)" "12 + length (ai_mime a) + length desc = q"
    by (simp_all add: q_def)
  have e: "\<not> length (f @ img) < 8 + length (ai_mime a)" "\<not> length (f @ img) < q" "\<not> length (f @ img) < q + 20 + length img"
    unfolding l by (simp_all add: q_def)
  show ?thesis unfolding parse_picture_block_def
    by (simp only: r s rbind.simps Let_def q u pt e if_False option.case)
qed

subsection \<open>The bounded twins\<close>

lemma case_extent_eq:
  "(case x of Complete a \<Rightarrow> f a | NeedMore u \<Rightarrow> g u) = r \<longleftrightarrow>
   (\<exists>a. x = Complete a \<and> f a = r) \<or> (\<exists>u. x = NeedMore u \<and> g u = r)"
  by (cases x) auto

lemma walker_new_bounded_prefix:
  assumes "walker_new_bounded a = Inr (Complete w)"
  shows "walker_new (a @ b) = Inr (w\<lparr> bw_data := a @ b \<rparr>) \<and> bw_data w = a \<and> bw_pos w \<le> length a"
proof -
  obtain base where t: "leading_tags_len a = Inr (Complete base)" "base + 4 \<le> length a" "slice a base 4 = flac_marker"
    "w = \<lparr> bw_data = a, bw_pos = base + 4, bw_index = 0, bw_done = False \<rparr>"
    using assms by (auto simp: walker_new_bounded_def rbind_eq_Inr case_extent_eq split: if_splits)
  have "leading_tags_len (a @ b) = Inr (Complete base)"
    using t(1,2) by (intro leading_tags_len_prefix) simp_all
  then show ?thesis using t by (simp add: walker_new_def walker_new_bounded_def slice_append1)
qed

lemma next_block_Ready:
  "next_block w = (Some (Ready h body), w') \<longleftrightarrow>
   \<not> bw_done w \<and> bw_pos w + 4 \<le> length (bw_data w) \<and>
   bw_pos w + 4 + bh_len h \<le> length (bw_data w) \<and>
   h = \<lparr> bh_index = bw_index w, bh_type = bw_data w ! bw_pos w AND 0x7F,
         bh_len = u24_be (bw_data w ! (bw_pos w + 1)) (bw_data w ! (bw_pos w + 2)) (bw_data w ! (bw_pos w + 3)) \<rparr> \<and>
   body = slice (bw_data w) (bw_pos w + 4) (bh_len h) \<and>
   w' = w\<lparr> bw_pos := bw_pos w + 4 + bh_len h, bw_index := bw_index w + 1,
            bw_done := (if bw_data w ! bw_pos w AND 0x80 \<noteq> 0 then True else bw_done w) \<rparr>"
  unfolding next_block_def Let_def
  by (cases "bw_done w"; cases "length (bw_data w) < bw_pos w + 4") auto

lemma next_block_prefix:
  assumes "next_block w = (Some (Ready h body), w')"
  shows "next_block (w\<lparr> bw_data := bw_data w @ b \<rparr>) = (Some (Ready h body), w'\<lparr> bw_data := bw_data w @ b \<rparr>) \<and>
    bw_data w' = bw_data w"
proof -
  note a = assms[unfolded next_block_Ready]
  define n where "n = bh_len h"
  have e: "bw_pos w + 4 + n \<le> length (bw_data w)" unfolding n_def using a by (elim conjE)
  have at: "(bw_data w @ b) ! (bw_pos w + i) = bw_data w ! (bw_pos w + i)" if "i < 4" for i
    using a that by (simp add: nth_append)
  have u: "u24_be (bw_data w ! (bw_pos w + 1)) (bw_data w ! (bw_pos w + 2)) (bw_data w ! (bw_pos w + 3)) = n"
    using a unfolding n_def by (metis block_head.select_convs(3))
  have "slice (bw_data w @ b) (bw_pos w + 4) n = slice (bw_data w) (bw_pos w + 4) n"
    using e by (simp add: slice_append1)
  then show ?thesis unfolding next_block_Ready
    using a e at[of 0] at[of 1] at[of 2] at[of 3] u by simp
qed

lemma bounded_loop_prefix:
  "bounded_blocks_loop w acc = Inr (Complete m) \<Longrightarrow> d = bw_data w @ b \<Longrightarrow>
   parse_blocks_loop (w\<lparr> bw_data := d \<rparr>) acc = Inr m"
proof (induction w acc rule: bounded_blocks_loop.induct)
  case (1 w acc)
  obtain s w' where n: "next_block w = (s, w')" by (cases "next_block w")
  show ?case
  proof (cases s)
    case None
    then have "w' = w" "bw_done w" using n by (auto simp: next_block_def Let_def split: if_splits)
    then have "next_block (w\<lparr> bw_data := d \<rparr>) = (None, w\<lparr> bw_data := d \<rparr>)" by (simp add: next_block_def)
    moreover have "m = \<lparr> fm_audio_offset = bw_pos w, fm_preserved = acc \<rparr>"
      using "1.prems"(1) n None \<open>w' = w\<close> by (subst (asm) bounded_blocks_loop.simps) simp
    ultimately show ?thesis by (subst parse_blocks_loop.simps) simp
  next
    case (Some st)
    show ?thesis
    proof (cases st)
      case (Ready h body)
      note nb = n[unfolded Some Ready]
      have c: "check_streaminfo_position (bh_index h) (bh_type h) (bh_len h) = Inr ()"
        and r: "bounded_blocks_loop w' (preserve h body acc) = Inr (Complete m)"
        using "1.prems"(1) by (subst (asm) bounded_blocks_loop.simps, simp add: nb rbind_eq_Inr)+
      note p = next_block_prefix[OF nb, of b]
      have "parse_blocks_loop (w'\<lparr> bw_data := d \<rparr>) (preserve h body acc) = Inr m"
        using "1.IH"[OF nb[symmetric] refl refl c r] p "1.prems"(2) by simp
      then show ?thesis using p c "1.prems"(2) by (subst parse_blocks_loop.simps) simp
    qed (use "1.prems"(1) n Some in \<open>subst (asm) bounded_blocks_loop.simps, simp add: rbind_eq_Inr\<close>)+
  qed
qed

lemma read_metadata_bounded_sound:
  "flac_read_metadata_bounded a = Inr (Complete m) \<Longrightarrow> flac_read_metadata (a @ b) = Inr m"
proof -
  assume "flac_read_metadata_bounded a = Inr (Complete m)"
  then obtain w where w: "walker_new_bounded a = Inr (Complete w)" "bounded_blocks_loop w [] = Inr (Complete m)"
    by (auto simp: flac_read_metadata_bounded_def rbind_eq_Inr case_extent_eq)
  note p = walker_new_bounded_prefix[OF w(1), of b]
  show ?thesis using p bounded_loop_prefix[OF w(2), of "a @ b" b]
    by (simp add: flac_read_metadata_def parse_blocks_def)
qed

end
