(* ===== verification/Flac_Synth.thy ===== *)
theory Flac_Synth
  imports Flac
begin

text \<open>
  Synthesis of the FLAC region layout, musefs-format/src/flac.rs, and what the readers of
  Flac recover from the rendered file: the same structural blocks, tags and pictures,
  with the audio exactly behind the synthesized header.
\<close>

fun push_structural :: "nat \<Rightarrow> bytes \<Rightarrow> nat \<Rightarrow> metadata_block list \<Rightarrow> (bytes \<times> nat) fresult" where
  "push_structural last_index buf idx [] = Inr (buf, idx)"
| "push_structural last_index buf idx (blk # blks) =
     rbind (push_block_header buf (mb_type blk) (length (mb_body blk)) (idx = last_index)) (\<lambda>buf.
     push_structural last_index (buf @ mb_body blk) (idx + 1) blks)"

definition binary_block_type :: "string \<Rightarrow> byte option" where
  "binary_block_type key =
     (if key = ''APPLICATION'' then Some block_application
      else if key = ''CUESHEET'' then Some block_cuesheet
      else None)"

fun push_binary ::
  "nat \<Rightarrow> segment list \<Rightarrow> bytes \<Rightarrow> nat \<Rightarrow> binary_tag_input list \<Rightarrow> (segment list \<times> bytes \<times> nat) fresult" where
  "push_binary last_index segments buf idx [] = Inr (segments, buf, idx)"
| "push_binary last_index segments buf idx (bt # bts) =
     (case binary_block_type (bt_key bt) of
        None \<Rightarrow> push_binary last_index segments buf idx bts
      | Some block_type \<Rightarrow>
          if bt_len bt > max_block_body then Inl TooLarge
          else rbind (push_block_header buf block_type (bt_len bt) (idx = last_index)) (\<lambda>buf.
               push_binary last_index (segments @ [Inline buf] @ [BinaryTag (bt_payload_id bt) (bt_len bt)]) []
                 (idx + 1) bts))"

fun push_art ::
  "nat \<Rightarrow> segment list \<Rightarrow> bytes \<Rightarrow> nat \<Rightarrow> art_input list \<Rightarrow> (segment list \<times> bytes \<times> nat) fresult" where
  "push_art last_index segments buf idx [] = Inr (segments, buf, idx)"
| "push_art last_index segments buf idx (art # arts) =
     rbind (picture_body_framing art (ai_description art)) (\<lambda>framing.
     rbind (checked_add (length framing) (ai_data_len art)) (\<lambda>body_len.
     if body_len > max_block_body then Inl TooLarge
     else rbind (push_block_header buf block_picture body_len (idx = last_index)) (\<lambda>buf.
          push_art last_index (segments @ [Inline (buf @ framing)] @ [ArtImage (ai_art_id art) (ai_data_len art)]) []
            (idx + 1) arts)))"

definition flac_synthesize_layout ::
  "metadata_block list \<Rightarrow> nat \<Rightarrow> nat \<Rightarrow> tag_input list \<Rightarrow> binary_tag_input list \<Rightarrow> art_input list \<Rightarrow>
   region_layout fresult" where
  "flac_synthesize_layout structural audio_offset audio_length tags binary_tags arts =
     (let streaminfo = filter (\<lambda>b. mb_type b = block_streaminfo) structural
      in if length streaminfo \<noteq> 1 \<or> length (mb_body (hd streaminfo)) \<noteq> streaminfo_body_len then Inl Malformed
      else
        let ordered = sort_key mb_type structural;
            valid_binary = filter (\<lambda>bt. bt_key bt \<in> {''APPLICATION'', ''CUESHEET''}) binary_tags;
            num_blocks = length ordered + 1 + length valid_binary + length arts;
            last_index = num_blocks - 1
        in rbind (push_structural last_index flac_marker 0 ordered) (\<lambda>(buf, idx).
           rbind (vorbis_build tags) (\<lambda>vc.
           if length vc > max_block_body then Inl TooLarge
           else rbind (push_block_header buf block_vorbis_comment (length vc) (idx = last_index)) (\<lambda>buf.
           let buf = buf @ vc; idx = idx + 1
           in rbind (push_binary last_index [] buf idx valid_binary) (\<lambda>(segments, buf, idx).
              rbind (push_art last_index segments buf idx arts) (\<lambda>(segments, buf, idx).
              let segments = flush_inline buf segments @ [BackingAudio audio_offset audio_length]
              in map_err InvalidLayout (validated segments)))))))"

subsection \<open>The blocks of the rendered header\<close>

fun flac_blocks_at :: "nat \<Rightarrow> nat \<Rightarrow> (byte \<times> bytes) list \<Rightarrow> bytes" where
  "flac_blocks_at i li [] = []"
| "flac_blocks_at i li ((t, b) # bs) = block_bytes (i = li) t b @ flac_blocks_at (i + 1) li bs"

lemma flac_blocks_at_append:
  "flac_blocks_at i li (a @ b) = flac_blocks_at i li a @ flac_blocks_at (i + length a) li b"
  by (induction i li a rule: flac_blocks_at.induct) simp_all

definition block_ok :: "byte \<times> bytes \<Rightarrow> bool" where
  "block_ok tb \<longleftrightarrow> length (snd tb) \<le> max_block_body"

lemma push_structural_eq:
  "push_structural li buf idx blks = Inr (buf', idx') \<Longrightarrow>
   (let bs = map (\<lambda>b. (mb_type b, mb_body b)) blks
    in buf' = buf @ flac_blocks_at idx li bs \<and> idx' = idx + length bs \<and> list_all block_ok bs)"
  by (induction li buf idx blks rule: push_structural.induct)
    (auto simp: rbind_eq_Inr push_block_header_eq block_bytes_def block_ok_def Let_def split: if_splits)

definition binary_block :: "byte_env \<Rightarrow> binary_tag_input \<Rightarrow> byte \<times> bytes" where
  "binary_block v bt = (the (binary_block_type (bt_key bt)), env_tag v (bt_payload_id bt))"

definition art_block :: "byte_env \<Rightarrow> art_input \<Rightarrow> byte \<times> bytes" where
  "art_block v art = (block_picture,
     (case picture_body_framing art (ai_description art) of Inr f \<Rightarrow> f | Inl _ \<Rightarrow> []) @ env_art v (ai_art_id art))"

lemma push_binary_eq:
  assumes "push_binary li segs buf idx bts = Inr (segs', buf', idx')"
    "\<forall>bt\<in>set bts. binary_block_type (bt_key bt) \<noteq> None \<and> length (env_tag v (bt_payload_id bt)) = bt_len bt"
  shows "layout_bytes enc v segs' @ buf' =
      layout_bytes enc v segs @ buf @ flac_blocks_at idx li (map (binary_block v) bts) \<and>
    idx' = idx + length bts \<and> list_all block_ok (map (binary_block v) bts)"
  using assms
proof (induction li segs buf idx bts rule: push_binary.induct)
  case (2 li segs buf idx bt bts)
  obtain t where t: "binary_block_type (bt_key bt) = Some t" using "2.prems"(2) by auto
  define hb where "hb = buf @ [(if idx = li then 0x80 else 0) OR (t AND 0x7F)] @ tl (be_bytes 4 (bt_len bt))"
  have n: "bt_len bt \<le> max_block_body"
    and r: "push_binary li (segs @ [Inline hb] @ [BinaryTag (bt_payload_id bt) (bt_len bt)]) [] (idx + 1) bts = Inr (segs', buf', idx')"
    using "2.prems"(1) t by (auto simp: push_block_header_eq hb_def rbind_eq_Inr split: if_splits)
  have l: "length (env_tag v (bt_payload_id bt)) = bt_len bt" using "2.prems"(2) by simp
  have ph: "push_block_header buf t (bt_len bt) (idx = li) = Inr hb"
    using n by (simp add: push_block_header_eq hb_def)
  have "layout_bytes enc v segs' @ buf' =
      layout_bytes enc v (segs @ [Inline hb] @ [BinaryTag (bt_payload_id bt) (bt_len bt)]) @ [] @
      flac_blocks_at (idx + 1) li (map (binary_block v) bts) \<and>
      idx' = idx + 1 + length bts \<and> list_all block_ok (map (binary_block v) bts)"
    using "2.IH"(2)[OF t _ ph] n r "2.prems"(2) by simp
  moreover have "binary_block v bt = (t, env_tag v (bt_payload_id bt))" by (simp add: binary_block_def t)
  moreover have "block_ok (t, env_tag v (bt_payload_id bt))" using n l by (simp add: block_ok_def)
  ultimately show ?case using l by (simp add: block_bytes_def hb_def slice_full)
qed simp

lemma push_art_eq:
  assumes "push_art li segs buf idx arts = Inr (segs', buf', idx')"
    "\<forall>a\<in>set arts. length (env_art v (ai_art_id a)) = ai_data_len a"
  shows "layout_bytes enc v segs' @ buf' =
      layout_bytes enc v segs @ buf @ flac_blocks_at idx li (map (art_block v) arts) \<and>
    idx' = idx + length arts \<and> list_all block_ok (map (art_block v) arts)"
  using assms
proof (induction li segs buf idx arts rule: push_art.induct)
  case (2 li segs buf idx art arts)
  obtain f where f: "picture_body_framing art (ai_description art) = Inr f"
    using "2.prems"(1) by (auto simp: rbind_eq_Inr)
  define n where "n = length f + ai_data_len art"
  define hb where "hb = buf @ [(if idx = li then 0x80 else 0) OR (block_picture AND 0x7F)] @ tl (be_bytes 4 n)"
  have c: "checked_add (length f) (ai_data_len art) = Inr n" and nm: "n \<le> max_block_body"
    and r: "push_art li (segs @ [Inline (hb @ f)] @ [ArtImage (ai_art_id art) (ai_data_len art)]) [] (idx + 1) arts = Inr (segs', buf', idx')"
    using "2.prems"(1) f by (auto simp: checked_add_if push_block_header_eq hb_def n_def rbind_eq_Inr split: if_splits)
  have l: "length (env_art v (ai_art_id art)) = ai_data_len art" using "2.prems"(2) by simp
  have ph: "push_block_header buf block_picture n (idx = li) = Inr hb"
    using nm by (simp add: push_block_header_eq hb_def)
  have "layout_bytes enc v segs' @ buf' =
      layout_bytes enc v (segs @ [Inline (hb @ f)] @ [ArtImage (ai_art_id art) (ai_data_len art)]) @ [] @
      flac_blocks_at (idx + 1) li (map (art_block v) arts) \<and>
      idx' = idx + 1 + length arts \<and> list_all block_ok (map (art_block v) arts)"
    using "2.IH"[OF f c _ ph] nm r "2.prems"(2) by simp
  moreover have "art_block v art = (block_picture, f @ env_art v (ai_art_id art))" by (simp add: art_block_def f)
  moreover have "block_ok (block_picture, f @ env_art v (ai_art_id art))" using nm l by (simp add: block_ok_def n_def)
  ultimately show ?case using l by (simp add: block_bytes_def hb_def slice_full n_def)
qed simp

lemma push_binary_meta:
  "push_binary li segs buf idx bts = Inr (segs', buf', idx') \<Longrightarrow>
   \<forall>bt\<in>set bts. length (env_tag v (bt_payload_id bt)) = bt_len bt \<Longrightarrow>
   \<forall>s\<in>set segs. meta_seg v s \<Longrightarrow> \<forall>s\<in>set segs'. meta_seg v s"
proof (induction li segs buf idx bts rule: push_binary.induct)
  case (2 li segs buf idx bt bts)
  show ?case
  proof (cases "binary_block_type (bt_key bt)")
    case None
    then show ?thesis using "2.IH"(1)[OF None] "2.prems" by simp
  next
    case (Some t)
    then obtain b where b: "\<not> bt_len bt > max_block_body" "push_block_header buf t (bt_len bt) (idx = li) = Inr b"
      "push_binary li (segs @ [Inline b] @ [BinaryTag (bt_payload_id bt) (bt_len bt)]) [] (idx + 1) bts = Inr (segs', buf', idx')"
      using "2.prems"(1) by (auto simp: rbind_eq_Inr split: if_splits)
    show ?thesis using "2.IH"(2)[OF Some b(1,2,3)] "2.prems"(2,3) by simp
  qed
qed simp

lemma push_art_meta:
  "push_art li segs buf idx arts = Inr (segs', buf', idx') \<Longrightarrow>
   \<forall>a\<in>set arts. length (env_art v (ai_art_id a)) = ai_data_len a \<Longrightarrow>
   \<forall>s\<in>set segs. meta_seg v s \<Longrightarrow> \<forall>s\<in>set segs'. meta_seg v s"
proof (induction li segs buf idx arts rule: push_art.induct)
  case (2 li segs buf idx art arts)
  then obtain f n b where b: "picture_body_framing art (ai_description art) = Inr f"
      "checked_add (length f) (ai_data_len art) = Inr n" "\<not> n > max_block_body"
      "push_block_header buf block_picture n (idx = li) = Inr b"
      "push_art li (segs @ [Inline (b @ f)] @ [ArtImage (ai_art_id art) (ai_data_len art)]) [] (idx + 1) arts = Inr (segs', buf', idx')"
    by (auto simp: rbind_eq_Inr simp del: checked_add_eq split: if_splits)
  show ?case using "2.IH"[OF b] "2.prems"(2,3) by simp
qed simp

definition synth_blocks ::
  "byte_env \<Rightarrow> metadata_block list \<Rightarrow> bytes \<Rightarrow> binary_tag_input list \<Rightarrow> art_input list \<Rightarrow> (byte \<times> bytes) list" where
  "synth_blocks v structural vc bts arts =
     map (\<lambda>b. (mb_type b, mb_body b)) (sort_key mb_type structural) @ [(block_vorbis_comment, vc)] @
     map (binary_block v) (filter (\<lambda>bt. bt_key bt \<in> {''APPLICATION'', ''CUESHEET''}) bts) @ map (art_block v) arts"

lemma synth_render:
  assumes s: "flac_synthesize_layout structural ao al tags bts arts = Inr l"
    and p: "blobs_present v bts arts"
  obtains vc bs where "vorbis_build tags = Inr vc" "bs = synth_blocks v structural vc bts arts"
    "list_all block_ok bs"
    "layout_bytes enc v (rl_segments l) =
       flac_marker @ flac_blocks_at 0 (length bs - 1) bs @ slice (env_backing v) ao al"
    "rl_header_len l = length (flac_marker @ flac_blocks_at 0 (length bs - 1) bs)"
    "rl_total_len l = rl_header_len l + al"
    "length (filter (\<lambda>b. mb_type b = block_streaminfo) structural) = 1"
    "length (mb_body (hd (filter (\<lambda>b. mb_type b = block_streaminfo) structural))) = streaminfo_body_len"
proof -
  define vb where "vb = filter (\<lambda>bt. bt_key bt \<in> {''APPLICATION'', ''CUESHEET''}) bts"
  define ord where "ord = sort_key mb_type structural"
  define li where "li = length ord + 1 + length vb + length arts - 1"
  obtain buf1 idx1 vc buf2 segs3 buf3 idx3 segs4 buf4 idx4 where
    st: "push_structural li flac_marker 0 ord = Inr (buf1, idx1)"
    and vc: "vorbis_build tags = Inr vc" "length vc \<le> max_block_body"
    and h: "push_block_header buf1 block_vorbis_comment (length vc) (idx1 = li) = Inr buf2"
    and pb: "push_binary li [] (buf2 @ vc) (idx1 + 1) vb = Inr (segs3, buf3, idx3)"
    and pa: "push_art li segs3 buf3 idx3 arts = Inr (segs4, buf4, idx4)"
    and vd: "map_err InvalidLayout (validated (flush_inline buf4 segs4 @ [BackingAudio ao al])) = Inr l"
    and si: "length (filter (\<lambda>b. mb_type b = block_streaminfo) structural) = 1"
      "length (mb_body (hd (filter (\<lambda>b. mb_type b = block_streaminfo) structural))) = streaminfo_body_len"
    using s unfolding flac_synthesize_layout_def Let_def vb_def ord_def li_def
    by (auto elim!: rbindE split: if_splits prod.splits)
  define bs where "bs = synth_blocks v structural vc bts arts"
  have bsl: "li = length bs - 1" by (simp add: li_def bs_def synth_blocks_def ord_def vb_def)
  have tg: "\<forall>bt\<in>set vb. binary_block_type (bt_key bt) \<noteq> None \<and> length (env_tag v (bt_payload_id bt)) = bt_len bt"
    using p by (auto simp: vb_def blobs_present_def list_all_iff binary_block_type_def)
  have ar: "\<forall>a\<in>set arts. length (env_art v (ai_art_id a)) = ai_data_len a"
    using p by (auto simp: blobs_present_def list_all_iff)
  note e1 = push_structural_eq[OF st, unfolded Let_def]
  have e2: "buf2 @ vc = buf1 @ block_bytes (idx1 = li) block_vorbis_comment vc"
    using h vc(2) by (simp add: push_block_header_eq block_bytes_def)
  note e3 = push_binary_eq[OF pb tg, of enc]
  note e4 = push_art_eq[OF pa ar, of enc]
  have m: "\<forall>s\<in>set (flush_inline buf4 segs4). meta_seg v s"
    unfolding flush_inline_meta using push_art_meta[OF pa ar push_binary_meta[OF pb]] tg by simp
  have all: "layout_bytes enc v segs4 @ buf4 = flac_marker @ flac_blocks_at 0 li bs"
    using e1 e2 e3 e4 by (simp add: bs_def synth_blocks_def flac_blocks_at_append ord_def vb_def)
  have ok: "list_all block_ok bs"
    using e1 e3 e4 vc(2) by (simp add: bs_def synth_blocks_def ord_def vb_def block_ok_def[of "(block_vorbis_comment, vc)"])
  note v = validated_meta_backing(2-4)[OF vd m, of enc, unfolded flush_inline_bytes all]
  show ?thesis
    by (rule that[OF vc(1) bs_def ok]) (use v si bsl in simp_all)
qed

subsection \<open>Re-reading the blocks\<close>

definition type_ok :: "byte \<times> bytes \<Rightarrow> bool" where
  "type_ok tb \<longleftrightarrow> fst tb AND 0x7F = fst tb"

definition walk_at :: "block_walker \<Rightarrow> bytes \<Rightarrow> nat \<Rightarrow> nat \<Rightarrow> (byte \<times> bytes) list \<Rightarrow> bytes \<Rightarrow> bool" where
  "walk_at w pre i li bs rest \<longleftrightarrow>
     bw_data w = pre @ flac_blocks_at i li bs @ rest \<and> bw_pos w = length pre \<and> bw_index w = i \<and>
     bw_done w = (bs = []) \<and> (bs \<noteq> [] \<longrightarrow> li + 1 = i + length bs) \<and>
     list_all block_ok bs \<and> list_all type_ok bs"

lemma walk_at_Nil: "walk_at w pre i li [] rest \<Longrightarrow> next_block w = (None, w) \<and> bw_pos w = length pre"
  by (simp add: walk_at_def next_block_def)

lemma walk_at_Cons:
  assumes "walk_at w pre i li ((t, b) # bs) rest"
  obtains w' where "next_block w = (Some (Ready \<lparr> bh_index = i, bh_type = t, bh_len = length b \<rparr> b), w')"
    "walk_at w' (pre @ block_bytes (i = li) t b) (i + 1) li bs rest"
proof -
  have a: "bw_data w = pre @ block_bytes (i = li) t b @ (flac_blocks_at (i + 1) li bs @ rest)"
    "bw_pos w = length pre" "\<not> bw_done w" "length b \<le> max_block_body" "t AND 0x7F = t" "bw_index w = i"
    "li = i + length bs" "list_all block_ok bs" "list_all type_ok bs"
    using assms by (simp_all add: walk_at_def block_ok_def type_ok_def)
  show ?thesis
    by (rule that[OF next_block_at[OF a(1-5), unfolded a(6)]])
      (use a in \<open>auto simp: walk_at_def block_bytes_length\<close>)
qed

fun streaminfo_ok :: "nat \<Rightarrow> (byte \<times> bytes) list \<Rightarrow> bool" where
  "streaminfo_ok i [] = True"
| "streaminfo_ok i ((t, b) # bs) = (check_streaminfo_position i t (length b) = Inr () \<and> streaminfo_ok (i + 1) bs)"

definition kept_blocks :: "(byte \<times> bytes) list \<Rightarrow> metadata_block list" where
  "kept_blocks bs = map (\<lambda>(t, b). \<lparr> mb_type = t, mb_body = b \<rparr>)
     (filter (\<lambda>(t, b). t \<in> {block_streaminfo, block_application, block_seektable, block_cuesheet}) bs)"

lemma preserve_kept:
  "preserve \<lparr> bh_index = i, bh_type = t, bh_len = n \<rparr> b acc @ kept_blocks bs = acc @ kept_blocks ((t, b) # bs)"
  by (simp add: preserve_def kept_blocks_def)

lemma parse_blocks_at:
  "walk_at w pre i li bs rest \<Longrightarrow> streaminfo_ok i bs \<Longrightarrow>
   parse_blocks_loop w acc =
     Inr \<lparr> fm_audio_offset = length pre + length (flac_blocks_at i li bs), fm_preserved = acc @ kept_blocks bs \<rparr>"
proof (induction bs arbitrary: w pre i acc)
  case Nil
  then show ?case
    by (subst parse_blocks_loop.simps) (simp add: walk_at_Nil kept_blocks_def)
next
  case (Cons tb bs)
  obtain t b where tb: "tb = (t, b)" by (cases tb)
  from walk_at_Cons[OF Cons.prems(1)[unfolded tb]] obtain w' where
    w: "next_block w = (Some (Ready \<lparr> bh_index = i, bh_type = t, bh_len = length b \<rparr> b), w')"
      "walk_at w' (pre @ block_bytes (i = li) t b) (i + 1) li bs rest" by blast
  have c: "check_streaminfo_position i t (length b) = Inr ()" "streaminfo_ok (i + 1) bs"
    using Cons.prems(2) tb by simp_all
  show ?case
    by (subst parse_blocks_loop.simps)
      (simp add: w(1) c(1) Cons.IH[OF w(2) c(2)] preserve_kept tb block_bytes_length)
qed

lemma read_vorbis_at:
  "walk_at w pre i li (as @ (block_vorbis_comment, vc) # bs) rest \<Longrightarrow>
   \<forall>tb\<in>set as. fst tb \<noteq> block_vorbis_comment \<Longrightarrow> read_vorbis_loop w = vorbis_parse vc"
proof (induction as arbitrary: w pre i)
  case Nil
  then obtain w' where
    w: "next_block w = (Some (Ready \<lparr> bh_index = i, bh_type = block_vorbis_comment, bh_len = length vc \<rparr> vc), w')"
    by (auto elim: walk_at_Cons)
  show ?case by (subst read_vorbis_loop.simps) (simp add: w)
next
  case (Cons tb as)
  obtain t b where tb: "tb = (t, b)" by (cases tb)
  from walk_at_Cons[of w pre i li t b "as @ (block_vorbis_comment, vc) # bs" rest] Cons.prems(1) obtain w' where
    w: "next_block w = (Some (Ready \<lparr> bh_index = i, bh_type = t, bh_len = length b \<rparr> b), w')"
      "walk_at w' (pre @ block_bytes (i = li) t b) (i + 1) li (as @ (block_vorbis_comment, vc) # bs) rest"
    unfolding tb by auto
  show ?case using Cons.IH[OF w(2)] Cons.prems(2)
    by (subst read_vorbis_loop.simps) (simp add: w(1) tb)
qed

fun picture_bodies :: "(byte \<times> bytes) list \<Rightarrow> embedded_picture list option" where
  "picture_bodies [] = Some []"
| "picture_bodies ((t, b) # bs) =
     (if t = block_picture
      then (case parse_picture_block b of Inr p \<Rightarrow> map_option (Cons p) (picture_bodies bs) | Inl e \<Rightarrow> None)
      else picture_bodies bs)"

lemma read_pictures_at:
  "walk_at w pre i li bs rest \<Longrightarrow> picture_bodies bs = Some ps \<Longrightarrow> read_pictures_loop w out = Inr (out @ ps)"
proof (induction bs arbitrary: w pre i out ps)
  case Nil
  then show ?case by (subst read_pictures_loop.simps) (simp add: walk_at_Nil)
next
  case (Cons tb bs)
  obtain t b where tb: "tb = (t, b)" by (cases tb)
  from walk_at_Cons[OF Cons.prems(1)[unfolded tb]] obtain w' where
    w: "next_block w = (Some (Ready \<lparr> bh_index = i, bh_type = t, bh_len = length b \<rparr> b), w')"
      "walk_at w' (pre @ block_bytes (i = li) t b) (i + 1) li bs rest" by blast
  show ?case
  proof (cases "t = block_picture")
    case True
    then obtain p qs where p: "parse_picture_block b = Inr p" "picture_bodies bs = Some qs" "ps = p # qs"
      using Cons.prems(2) tb by (auto split: sum.splits)
    show ?thesis by (subst read_pictures_loop.simps) (simp add: w(1) True p(1,3) Cons.IH[OF w(2) p(2)])
  next
    case False
    then show ?thesis using Cons.IH[OF w(2)] Cons.prems(2) tb
      by (subst read_pictures_loop.simps) (simp add: w(1))
  qed
qed

lemma walker_new_marker:
  assumes "bs \<noteq> []" "list_all block_ok bs" "list_all type_ok bs"
    and d: "data = flac_marker @ flac_blocks_at 0 (length bs - 1) bs @ rest"
  shows "\<exists>w. walker_new data = Inr w \<and> walk_at w flac_marker 0 (length bs - 1) bs rest"
proof -
  have lm: "length flac_marker = 4" by (simp add: flac_marker_def)
  have "\<not> starts_with_tag data"
    by (simp add: starts_with_tag_def d slice_append1 lm) (simp add: flac_marker_def slice_def id3_magic_def)
  then have "leading_tags_len data = Inr (Complete 0)" by (rule leading_tags_len_none)
  moreover have "slice data 0 4 = flac_marker" "4 \<le> length data" by (simp_all add: d slice_prefix lm)
  ultimately show ?thesis using assms
    by (simp add: walker_new_def walker_new_bounded_def walk_at_def lm)
qed

lemma streaminfo_first:
  assumes "length (filter (\<lambda>b. mb_type b = block_streaminfo) xs) = 1"
    "length (mb_body (hd (filter (\<lambda>b. mb_type b = block_streaminfo) xs))) = streaminfo_body_len"
  obtains x ys where "sort_key mb_type xs = x # ys" "mb_type x = block_streaminfo"
    "length (mb_body x) = streaminfo_body_len" "\<forall>y\<in>set ys. mb_type y \<noteq> block_streaminfo"
proof -
  let ?f = "filter (\<lambda>b. mb_type b = block_streaminfo)"
  obtain si where si: "?f xs = [si]" using assms(1) by (auto simp: length_Suc_conv)
  have st: "?f (sort_key mb_type xs) = [si]" using si by (simp add: sort_key_stable)
  have mem: "si \<in> set (sort_key mb_type xs)" "mb_type si = block_streaminfo"
  proof -
    have "si \<in> set (?f (sort_key mb_type xs))" using st by simp
    then show "si \<in> set (sort_key mb_type xs)" "mb_type si = block_streaminfo" by auto
  qed
  then obtain x ys where o: "sort_key mb_type xs = x # ys" by (cases "sort_key mb_type xs") auto
  have "sorted (map mb_type (x # ys))" unfolding o[symmetric] by (rule sorted_sort_key)
  then have "mb_type x \<le> mb_type si" using mem(1) o by auto
  then have x0: "mb_type x = block_streaminfo" using mem(2) by (simp add: block_streaminfo_def)
  then have f: "x = si" "?f ys = []" using st o by simp_all
  have "\<forall>y\<in>set ys. mb_type y \<noteq> block_streaminfo" using f(2) by (simp add: filter_empty_conv)
  moreover have "length (mb_body x) = streaminfo_body_len" using assms(2) si f(1) by simp
  ultimately show ?thesis using that o x0 by blast
qed

lemma streaminfo_ok_rest:
  "0 < i \<Longrightarrow> \<forall>tb\<in>set bs. fst tb \<noteq> block_streaminfo \<Longrightarrow> streaminfo_ok i bs"
  by (induction i bs rule: streaminfo_ok.induct) (auto simp: check_streaminfo_position_def)

lemma binary_block_types:
  "bt_key bt \<in> {''APPLICATION'', ''CUESHEET''} \<Longrightarrow>
   fst (binary_block v bt) \<in> {block_application, block_cuesheet}"
  by (auto simp: binary_block_def binary_block_type_def)

definition structural_types_ok :: "metadata_block list \<Rightarrow> bool" where
  "structural_types_ok structural \<longleftrightarrow> list_all (\<lambda>b. mb_type b \<in> {block_streaminfo, block_seektable}) structural"

lemma synth_blocks_types:
  assumes "structural_types_ok structural"
  shows "list_all type_ok (synth_blocks v structural vc bts arts)"
proof -
  have t: "type_ok (t, b)" if "t \<in> {block_streaminfo, block_application, block_seektable, block_vorbis_comment, block_cuesheet, block_picture}" for t b
    using that by (auto simp: type_ok_def block_types)
  have b: "type_ok (binary_block v bt)" if "bt_key bt \<in> {''APPLICATION'', ''CUESHEET''}" for bt
    using binary_block_types[OF that, of v] t[of "fst (binary_block v bt)" "snd (binary_block v bt)"] by auto
  have s: "type_ok (mb_type x, mb_body x)" if "x \<in> set structural" for x
    using assms that t[of "mb_type x"] by (auto simp: structural_types_ok_def list_all_iff)
  show ?thesis using b s t[of block_vorbis_comment] t[of block_picture]
    by (auto simp: synth_blocks_def list_all_iff art_block_def)
qed

lemma synth_blocks_streaminfo:
  assumes "length (filter (\<lambda>b. mb_type b = block_streaminfo) structural) = 1"
    "length (mb_body (hd (filter (\<lambda>b. mb_type b = block_streaminfo) structural))) = streaminfo_body_len"
  shows "streaminfo_ok 0 (synth_blocks v structural vc bts arts)"
proof -
  obtain x ys where o: "sort_key mb_type structural = x # ys" "mb_type x = block_streaminfo"
    "length (mb_body x) = streaminfo_body_len" "\<forall>y\<in>set ys. mb_type y \<noteq> block_streaminfo"
    by (rule streaminfo_first[OF assms])
  have "\<forall>tb\<in>set (map (\<lambda>b. (mb_type b, mb_body b)) ys @ [(block_vorbis_comment, vc)] @
      map (binary_block v) (filter (\<lambda>bt. bt_key bt \<in> {''APPLICATION'', ''CUESHEET''}) bts) @
      map (art_block v) arts). fst tb \<noteq> block_streaminfo"
  proof -
    have b: "fst (binary_block v bt) \<noteq> block_streaminfo" if "bt_key bt \<in> {''APPLICATION'', ''CUESHEET''}" for bt
      using binary_block_types[OF that, of v] by (auto simp: block_types)
    have c: "block_vorbis_comment \<noteq> block_streaminfo" "block_picture \<noteq> block_streaminfo" by (simp_all add: block_types)
    show ?thesis using o(4) b c by (auto simp: art_block_def)
  qed
  from streaminfo_ok_rest[OF _ this, of 1] show ?thesis
    using o by (simp add: synth_blocks_def check_streaminfo_position_def)
qed

lemma kept_blocks_append: "kept_blocks (a @ b) = kept_blocks a @ kept_blocks b"
  by (simp add: kept_blocks_def)

lemma kept_structural:
  "structural_types_ok structural \<Longrightarrow> kept_blocks (map (\<lambda>b. (mb_type b, mb_body b)) (sort_key mb_type structural)) =
   sort_key mb_type structural"
proof -
  assume "structural_types_ok structural"
  then have "\<forall>b\<in>set (sort_key mb_type structural). mb_type b \<in> {block_streaminfo, block_seektable}"
    by (simp add: structural_types_ok_def list_all_iff)
  then have "kept_blocks (map (\<lambda>b. (mb_type b, mb_body b)) ys) = ys" if "set ys \<subseteq> set (sort_key mb_type structural)" for ys
    using that by (induction ys) (auto simp: kept_blocks_def)
  then show ?thesis by simp
qed

lemma kept_none: "\<forall>tb\<in>set bs. fst tb = block_picture \<Longrightarrow> kept_blocks bs = []"
  by (induction bs) (auto simp: kept_blocks_def block_types)

definition binary_metadata :: "byte_env \<Rightarrow> binary_tag_input list \<Rightarrow> metadata_block list" where
  "binary_metadata v bts =
     map (\<lambda>bt. \<lparr> mb_type = (if bt_key bt = ''APPLICATION'' then block_application else block_cuesheet),
                  mb_body = env_tag v (bt_payload_id bt) \<rparr>)
       (filter (\<lambda>bt. bt_key bt \<in> {''APPLICATION'', ''CUESHEET''}) bts)"

lemma kept_binary:
  "kept_blocks (map (binary_block v) (filter (\<lambda>bt. bt_key bt \<in> {''APPLICATION'', ''CUESHEET''}) bts)) = binary_metadata v bts"
  by (induction bts) (auto simp: kept_blocks_def binary_metadata_def binary_block_def binary_block_type_def)

lemma synth_blocks_kept:
  "structural_types_ok structural \<Longrightarrow>
   kept_blocks (synth_blocks v structural vc bts arts) = sort_key mb_type structural @ binary_metadata v bts"
proof -
  assume s: "structural_types_ok structural"
  have "kept_blocks [(block_vorbis_comment, vc)] = []" by (simp add: kept_blocks_def block_types)
  moreover have "kept_blocks (map (art_block v) arts) = []" by (rule kept_none) (auto simp: art_block_def)
  ultimately show ?thesis unfolding synth_blocks_def kept_blocks_append kept_structural[OF s] kept_binary by simp
qed

text \<open>C6: re-parsing a synthesized FLAC file finds the preserved structural blocks in FLAC order
  followed by the APPLICATION and CUESHEET payloads, and locates the audio exactly at the layout's
  header length, where the untouched backing audio follows.\<close>

theorem flac_synth_reparses:
  assumes "flac_synthesize_layout structural ao al tags bts arts = Inr l"
    "blobs_present v bts arts" "structural_types_ok structural"
  shows "flac_read_metadata (layout_bytes enc v (rl_segments l)) =
      Inr \<lparr> fm_audio_offset = rl_header_len l,
            fm_preserved = sort_key mb_type structural @ binary_metadata v bts \<rparr> \<and>
    drop (rl_header_len l) (layout_bytes enc v (rl_segments l)) = slice (env_backing v) ao al \<and>
    rl_total_len l = rl_header_len l + al"
proof -
  from synth_render[OF assms(1,2), of enc] obtain vc bs where
    r: "bs = synth_blocks v structural vc bts arts" "list_all block_ok bs"
      "layout_bytes enc v (rl_segments l) = flac_marker @ flac_blocks_at 0 (length bs - 1) bs @ slice (env_backing v) ao al"
      "rl_header_len l = length (flac_marker @ flac_blocks_at 0 (length bs - 1) bs)" "rl_total_len l = rl_header_len l + al"
    and si: "length (filter (\<lambda>b. mb_type b = block_streaminfo) structural) = 1"
      "length (mb_body (hd (filter (\<lambda>b. mb_type b = block_streaminfo) structural))) = streaminfo_body_len" by metis
  have ne: "bs \<noteq> []" and ty: "list_all type_ok bs"
    unfolding r(1) using synth_blocks_types[OF assms(3)] by (simp_all add: synth_blocks_def)
  obtain w where w: "walker_new (layout_bytes enc v (rl_segments l)) = Inr w"
      "walk_at w flac_marker 0 (length bs - 1) bs (slice (env_backing v) ao al)"
    using walker_new_marker[OF ne r(2) ty r(3)] by blast
  have "flac_read_metadata (layout_bytes enc v (rl_segments l)) = parse_blocks_loop w []"
    by (simp only: flac_read_metadata_def parse_blocks_def w(1) rbind.simps)
  also have "\<dots> = Inr \<lparr> fm_audio_offset = rl_header_len l, fm_preserved = kept_blocks bs \<rparr>"
    using parse_blocks_at[OF w(2) synth_blocks_streaminfo[OF si, of v vc bts arts, folded r(1)], of "[]"]
    unfolding r(4) length_append append_Nil .
  also have "kept_blocks bs = sort_key mb_type structural @ binary_metadata v bts"
    unfolding r(1) by (rule synth_blocks_kept[OF assms(3)])
  finally show ?thesis using r(5) unfolding r(3,4) by simp
qed

text \<open>C7: reading the comments of a synthesized FLAC file gives back the stored tags, in order and
  under their canonical keys, less those whose key is not a legal field name.\<close>

theorem flac_synth_tags_roundtrip:
  assumes "flac_synthesize_layout structural ao al tags bts arts = Inr l"
    "blobs_present v bts arts" "structural_types_ok structural"
    "\<forall>t\<in>set tags. utf8_valid (as_bytes (ti_value t))"
  shows "read_vorbis_comments (layout_bytes enc v (rl_segments l)) =
    Inr (map (\<lambda>t. (canonical_key (ti_key t), ti_value t)) (filter (\<lambda>t. is_valid_key (ti_key t)) tags))"
proof -
  from synth_render[OF assms(1,2), of enc] obtain vc bs where
    r: "bs = synth_blocks v structural vc bts arts" "list_all block_ok bs"
      "layout_bytes enc v (rl_segments l) = flac_marker @ flac_blocks_at 0 (length bs - 1) bs @ slice (env_backing v) ao al"
    and vc: "vorbis_build tags = Inr vc" by metis
  have ne: "bs \<noteq> []" and ty: "list_all type_ok bs"
    unfolding r(1) using synth_blocks_types[OF assms(3)] by (simp_all add: synth_blocks_def)
  obtain w where w: "walker_new (layout_bytes enc v (rl_segments l)) = Inr w"
      "walk_at w flac_marker 0 (length bs - 1) bs (slice (env_backing v) ao al)"
    using walker_new_marker[OF ne r(2) ty r(3)] by blast
  have "\<forall>tb\<in>set (map (\<lambda>b. (mb_type b, mb_body b)) (sort_key mb_type structural)). fst tb \<noteq> block_vorbis_comment"
    using assms(3) by (auto simp: structural_types_ok_def list_all_iff block_types)
  from read_vorbis_at[OF _ this] w(2) have "read_vorbis_loop w = vorbis_parse vc"
    unfolding r(1) synth_blocks_def by fastforce
  then show ?thesis using parse_built[OF vc assms(4), of "[]"] by (simp add: read_vorbis_comments_def w(1))
qed

lemma picture_bodies_append_none:
  "\<forall>tb\<in>set as. fst tb \<noteq> block_picture \<Longrightarrow> picture_bodies (as @ bs) = picture_bodies bs"
  by (induction as) auto

definition synth_pictures :: "byte_env \<Rightarrow> art_input list \<Rightarrow> embedded_picture list" where
  "synth_pictures v arts = map (\<lambda>a. \<lparr> pic_mime = ai_mime a, pic_type = ai_picture_type a,
     pic_description = ai_description a, pic_width = ai_width a, pic_height = ai_height a,
     pic_data = env_art v (ai_art_id a) \<rparr>) arts"

lemma push_art_framing:
  "push_art li segs buf idx arts = Inr r \<Longrightarrow> \<forall>a\<in>set arts. \<exists>f. picture_body_framing a (ai_description a) = Inr f"
  by (induction li segs buf idx arts rule: push_art.induct) (auto elim!: rbindE split: if_splits)

lemma picture_bodies_arts:
  "\<forall>a\<in>set arts. art_ok a \<and> length (env_art v (ai_art_id a)) = ai_data_len a \<and>
     (\<exists>f. picture_body_framing a (ai_description a) = Inr f) \<Longrightarrow>
   picture_bodies (map (art_block v) arts) = Some (synth_pictures v arts)"
proof (induction arts)
  case (Cons a arts)
  then obtain f where f: "picture_body_framing a (ai_description a) = Inr f" by auto
  have "parse_picture_block (f @ env_art v (ai_art_id a)) = Inr \<lparr> pic_mime = ai_mime a, pic_type = ai_picture_type a,
     pic_description = ai_description a, pic_width = ai_width a, pic_height = ai_height a,
     pic_data = env_art v (ai_art_id a) \<rparr>"
    using Cons.prems by (intro parse_framing[OF f]) (auto simp: art_ok_def)
  then show ?case using Cons f by (simp add: art_block_def synth_pictures_def)
qed (simp add: synth_pictures_def)

lemma synth_framing:
  "flac_synthesize_layout structural ao al tags bts arts = Inr l \<Longrightarrow>
   \<forall>a\<in>set arts. \<exists>f. picture_body_framing a (ai_description a) = Inr f"
  unfolding flac_synthesize_layout_def Let_def
  by (elim rbindE | split if_split_asm | split prod.split_asm | erule push_art_framing | simp only: sum.distinct)+

text \<open>C8: reading the pictures of a synthesized FLAC file gives back every stored picture in order:
  its MIME type, description, type and dimensions, and exactly the stored image bytes.\<close>

theorem flac_synth_pictures_roundtrip:
  assumes "flac_synthesize_layout structural ao al tags bts arts = Inr l"
    "blobs_present v bts arts" "structural_types_ok structural" "list_all art_ok arts"
  shows "flac_read_pictures (layout_bytes enc v (rl_segments l)) = Inr (synth_pictures v arts)"
proof -
  from synth_render[OF assms(1,2), of enc] obtain vc bs where
    r: "bs = synth_blocks v structural vc bts arts" "list_all block_ok bs"
      "layout_bytes enc v (rl_segments l) = flac_marker @ flac_blocks_at 0 (length bs - 1) bs @ slice (env_backing v) ao al" by metis
  have ne: "bs \<noteq> []" and ty: "list_all type_ok bs"
    unfolding r(1) using synth_blocks_types[OF assms(3)] by (simp_all add: synth_blocks_def)
  obtain w where w: "walker_new (layout_bytes enc v (rl_segments l)) = Inr w"
      "walk_at w flac_marker 0 (length bs - 1) bs (slice (env_backing v) ao al)"
    using walker_new_marker[OF ne r(2) ty r(3)] by blast
  have "picture_bodies bs = picture_bodies (map (art_block v) arts)"
  proof -
    let ?as = "map (\<lambda>b. (mb_type b, mb_body b)) (sort_key mb_type structural) @ [(block_vorbis_comment, vc)] @
      map (binary_block v) (filter (\<lambda>bt. bt_key bt \<in> {''APPLICATION'', ''CUESHEET''}) bts)"
    have b: "fst (binary_block v bt) \<noteq> block_picture" if "bt_key bt \<in> {''APPLICATION'', ''CUESHEET''}" for bt
      using binary_block_types[OF that, of v] by (auto simp: block_types)
    have "\<forall>tb\<in>set ?as. fst tb \<noteq> block_picture"
      using assms(3) b by (auto simp: structural_types_ok_def list_all_iff block_types)
    from picture_bodies_append_none[OF this] show ?thesis by (simp add: r(1) synth_blocks_def)
  qed
  also have "\<dots> = Some (synth_pictures v arts)"
    using assms(2,4) synth_framing[OF assms(1)]
    by (intro picture_bodies_arts) (auto simp: list_all_iff blobs_present_def)
  finally show ?thesis using read_pictures_at[OF w(2), of _ "[]"] by (simp add: flac_read_pictures_def w(1))
qed

definition demo_env :: byte_env where
  "demo_env = \<lparr> env_art = (\<lambda>i. [1, 2, 3, 4, 5]), env_tag = (\<lambda>i. [9, 9, 9, 9]),
                env_backing = [0xFF, 0xF8, 1, 2, 3, 4, 5, 6], env_ogg = (\<lambda>off n d. []) \<rparr>"

definition demo_structural :: "metadata_block list" where
  "demo_structural = [\<lparr> mb_type = 3, mb_body = [7, 7] \<rparr>, \<lparr> mb_type = 0, mb_body = replicate 34 1 \<rparr>]"

definition demo_tags :: "tag_input list" where
  "demo_tags = [\<lparr> ti_key = ''title'', ti_value = ''Abc'' \<rparr>, \<lparr> ti_key = ''a=b'', ti_value = ''x'' \<rparr>]"

definition demo_binary :: "binary_tag_input list" where
  "demo_binary = [\<lparr> bt_key = ''APPLICATION'', bt_payload_id = 5, bt_len = 4 \<rparr>,
                  \<lparr> bt_key = ''PRIV'', bt_payload_id = 6, bt_len = 4 \<rparr>]"

definition demo_arts :: "art_input list" where
  "demo_arts = [\<lparr> ai_art_id = 1, ai_mime = ''image/png'', ai_description = ''front'', ai_picture_type = 3,
                  ai_width = 10, ai_height = 20, ai_data_len = 5 \<rparr>]"

definition demo_layout :: region_layout where
  "demo_layout = projr (flac_synthesize_layout demo_structural 2 6 demo_tags demo_binary demo_arts)"

lemma demo_layout_ok:
  "flac_synthesize_layout demo_structural 2 6 demo_tags demo_binary demo_arts = Inr demo_layout"
  unfolding demo_layout_def by code_simp

lemma demo_ok: "blobs_present demo_env demo_binary demo_arts" "structural_types_ok demo_structural"
    "list_all art_ok demo_arts" "\<forall>t\<in>set demo_tags. utf8_valid (as_bytes (ti_value t))"
  by code_simp+

lemma flac_synth_reparses_witness:
  "flac_read_metadata (layout_bytes b64_std demo_env (rl_segments demo_layout)) =
     Inr \<lparr> fm_audio_offset = rl_header_len demo_layout,
           fm_preserved = sort_key mb_type demo_structural @ binary_metadata demo_env demo_binary \<rparr>"
  using flac_synth_reparses[OF demo_layout_ok demo_ok(1,2)] by blast

lemma flac_synth_tags_roundtrip_witness:
  "read_vorbis_comments (layout_bytes b64_std demo_env (rl_segments demo_layout)) = Inr [(''title'', ''Abc'')]"
  unfolding flac_synth_tags_roundtrip[OF demo_layout_ok demo_ok(1,2,4)] by code_simp

lemma flac_synth_pictures_roundtrip_witness:
  "flac_read_pictures (layout_bytes b64_std demo_env (rl_segments demo_layout)) = Inr (synth_pictures demo_env demo_arts)"
  by (rule flac_synth_pictures_roundtrip[OF demo_layout_ok demo_ok(1-3)])

text \<open>C12: a complete answer of the bounded metadata probe on a prefix of a file is the answer of the
  unbounded reader on the whole file, whatever follows the prefix.\<close>

theorem flac_bounded_probe_sound:
  assumes "flac_read_metadata_bounded prefix = Inr (Complete m)"
  shows "flac_read_metadata (prefix @ rest) = Inr m"
  using assms by (rule read_metadata_bounded_sound)

lemma flac_bounded_probe_sound_witness:
  "flac_read_metadata ([0x66, 0x4C, 0x61, 0x43, 0x80, 0, 0, 34] @ replicate 34 1 @ [0xFF, 0xF8]) =
     Inr \<lparr> fm_audio_offset = 42, fm_preserved = [\<lparr> mb_type = 0, mb_body = replicate 34 1 \<rparr>] \<rparr>"
proof -
  have "flac_read_metadata_bounded ([0x66, 0x4C, 0x61, 0x43, 0x80, 0, 0, 34] @ replicate 34 1) =
      Inr (Complete \<lparr> fm_audio_offset = 42, fm_preserved = [\<lparr> mb_type = 0, mb_body = replicate 34 1 \<rparr>] \<rparr>)"
    by code_simp
  from flac_bounded_probe_sound[OF this, of "[0xFF, 0xF8]"] show ?thesis by simp
qed

end
