(* ===== verification/Crc.thy ===== *)
theory Crc
  imports Prelude
begin

text \<open>
  The Ogg page checksum, musefs-format/src/ogg/crc.rs: the table-driven CRC-32, and the
  logarithmic-time shift across zero bytes by powers of a GF(2) transition matrix.
  The lemmas show that the table loop is the bit-serial division by the polynomial, that it
  is linear over XOR, and that the matrix shift appends zero bytes.
\<close>

unbundle bit_operations_syntax

type_synonym crc = "32 word"

definition crc_poly :: crc where "crc_poly = 0x04c11db7"

definition crc_bit_step :: "crc \<Rightarrow> crc" where
  "crc_bit_step c = (if c AND 0x80000000 \<noteq> 0 then push_bit 1 c XOR crc_poly else push_bit 1 c)"

definition crc_entry :: "nat \<Rightarrow> crc" where
  "crc_entry i = (crc_bit_step ^^ 8) (push_bit 24 (word_of_nat i))"

definition build_table :: "crc list" where
  "build_table = map crc_entry [0..<256]"

definition crc_byte :: "crc \<Rightarrow> byte \<Rightarrow> crc" where
  "crc_byte state b = push_bit 8 state XOR build_table ! unat (ucast (drop_bit 24 state) XOR b)"

fun crc32_update :: "crc \<Rightarrow> bytes \<Rightarrow> crc" where
  "crc32_update state [] = state"
| "crc32_update state (b # bs) = crc32_update (crc_byte state b) bs"

definition crc32 :: "bytes \<Rightarrow> crc" where
  "crc32 buf = crc32_update 0 buf"

type_synonym crc_matrix = "crc list"

definition mat_apply :: "crc_matrix \<Rightarrow> crc \<Rightarrow> crc" where
  "mat_apply mat state =
     fold (\<lambda>i out. out XOR (mat ! i AND (- (drop_bit (31 - i) state AND 1)))) [0..<32] 0"

definition mat_mul :: "crc_matrix \<Rightarrow> crc_matrix \<Rightarrow> crc_matrix" where
  "mat_mul first next =
     map (\<lambda>i. fold (\<lambda>j acc. if drop_bit (31 - j) (first ! i) AND 1 = 1 then acc XOR next ! j else acc)
                [0..<32] 0) [0..<32]"

definition poly_step :: "crc \<Rightarrow> crc" where
  "poly_step p = push_bit 8 p XOR build_table ! unat (drop_bit 24 p)"

fun crc_power :: "nat \<Rightarrow> crc_matrix" where
  "crc_power 0 = map (\<lambda>i. poly_step (push_bit (31 - i) 1)) [0..<32]"
| "crc_power (Suc k) = mat_mul (crc_power k) (crc_power k)"

definition build_powers :: "crc_matrix list" where
  "build_powers = map crc_power [0..<64]"

definition crc_shift_zeros :: "crc \<Rightarrow> nat \<Rightarrow> crc" where
  "crc_shift_zeros crc n =
     (if crc = 0 then 0
      else fold (\<lambda>k state. if (n div 2 ^ k) mod 2 = 1 then mat_apply (build_powers ! k) state else state)
             [0..<64] crc)"

subsection \<open>Linear maps on the state\<close>

definition xor_linear :: "(crc \<Rightarrow> crc) \<Rightarrow> bool" where
  "xor_linear f \<longleftrightarrow> (\<forall>x y. f (x XOR y) = f x XOR f y)"

lemma xor_linearD: "xor_linear f \<Longrightarrow> f (x XOR y) = f x XOR f y"
  by (simp add: xor_linear_def)

lemma xor_linear_0: "xor_linear f \<Longrightarrow> f 0 = 0"
  using xor_linearD[of f 0 0] by simp

lemma xor_linear_comp: "xor_linear f \<Longrightarrow> xor_linear g \<Longrightarrow> xor_linear (\<lambda>x. f (g x))"
  by (simp add: xor_linear_def)

lemma xor_linear_funpow: "xor_linear f \<Longrightarrow> xor_linear (f ^^ n)"
  by (induction n) (simp_all add: xor_linear_def)

lemma top_bit: "(c :: crc) AND 0x80000000 \<noteq> 0 \<longleftrightarrow> bit c 31"
  using and_exp_eq_0_iff_not_bit[of c 31] by simp

lemma low_bit: "drop_bit k (c :: crc) AND 1 = (if bit c k then 1 else 0)"
  by (simp add: and_one_eq bit_iff_odd_drop_bit mod_2_eq_odd)

lemma crc_bit_step_linear: "xor_linear crc_bit_step"
proof -
  have "crc_bit_step (x XOR y) = crc_bit_step x XOR crc_bit_step y" for x y
    unfolding crc_bit_step_def top_bit
    by (rule bit_word_eqI) (auto simp: bit_xor_iff bit_push_bit_iff)
  then show ?thesis by (simp add: xor_linear_def)
qed

lemma crc_steps_linear: "xor_linear (crc_bit_step ^^ n)"
  by (rule xor_linear_funpow[OF crc_bit_step_linear])

lemma crc_steps_small:
  "n \<le> 32 \<Longrightarrow> take_bit (32 - n) x = (x :: crc) \<Longrightarrow> (crc_bit_step ^^ n) x = push_bit n x"
proof (induction n)
  case (Suc n)
  have hi: "\<not> bit x i" if "32 - Suc n \<le> i" for i
  proof -
    have "bit (take_bit (32 - Suc n) x) i = bit x i" using Suc.prems(2) by simp
    then show ?thesis using that by (simp add: bit_take_bit_iff)
  qed
  have "take_bit (32 - n) x = x"
  proof (rule bit_word_eqI)
    fix i
    show "bit (take_bit (32 - n) x) i = bit x i"
      using hi[of i] by (cases "31 - n \<le> i") (auto simp: bit_take_bit_iff)
  qed
  then have "(crc_bit_step ^^ n) x = push_bit n x" using Suc by simp
  moreover have "\<not> bit (push_bit n x) 31" using hi[of "31 - n"] Suc.prems(1)
    by (simp add: bit_push_bit_iff)
  ultimately have "crc_bit_step ((crc_bit_step ^^ n) x) = push_bit 1 (push_bit n x)"
    by (simp only: crc_bit_step_def top_bit if_False)
  then show ?case by (simp only: funpow.simps comp_apply push_bit_push_bit) simp
qed simp

subsection \<open>The table step is the bit-serial step\<close>

lemma build_table_nth: "i < 256 \<Longrightarrow> build_table ! i = crc_entry i"
  by (simp add: build_table_def)

lemma split_high: "(s :: crc) = push_bit 24 (drop_bit 24 s) XOR take_bit 24 s"
  by (rule bit_word_eqI) (auto simp: bit_xor_iff bit_push_bit_iff bit_drop_bit_eq bit_take_bit_iff)

lemma crc_byte_eq: "crc_byte s b = (crc_bit_step ^^ 8) (s XOR push_bit 24 (ucast b))"
proof -
  let ?h = "ucast (drop_bit 24 s) XOR b :: byte"
  let ?f = "crc_bit_step ^^ 8"
  have h: "push_bit 24 (word_of_nat (unat ?h)) = push_bit 24 (drop_bit 24 s) XOR push_bit 24 (ucast b :: crc)"
    by (rule bit_word_eqI)
      (auto simp: bit_xor_iff bit_push_bit_iff bit_drop_bit_eq bit_unsigned_iff
        dest: bit_imp_le_length)
  have l: "?f (take_bit 24 s) = push_bit 8 (take_bit 24 s)"
    by (rule crc_steps_small) simp_all
  have p: "push_bit 8 s = push_bit 8 (take_bit 24 s)"
    by (rule bit_word_eqI) (auto simp: bit_push_bit_iff bit_take_bit_iff)
  have "crc_byte s b = push_bit 8 s XOR ?f (push_bit 24 (word_of_nat (unat ?h)))"
    unfolding crc_byte_def using unat_byte_lt[of ?h]
    by (simp only: build_table_nth crc_entry_def)
  also have "\<dots> = ?f (take_bit 24 s) XOR ?f (push_bit 24 (drop_bit 24 s) XOR push_bit 24 (ucast b))"
    unfolding h p l by simp
  also have "\<dots> = ?f ((push_bit 24 (drop_bit 24 s) XOR take_bit 24 s) XOR push_bit 24 (ucast b))"
    by (simp add: xor_linearD[OF crc_steps_linear] ac_simps)
  finally show ?thesis using split_high[of s] by simp
qed

lemma crc32_update_append: "crc32_update s (a @ b) = crc32_update (crc32_update s a) b"
  by (induction a arbitrary: s) simp_all

lemma crc_byte_linear: "crc_byte (s XOR t) (a XOR b) = crc_byte s a XOR crc_byte t b"
proof -
  have "push_bit 24 (ucast (a XOR b) :: crc) = push_bit 24 (ucast a) XOR push_bit 24 (ucast b)"
    by (rule bit_word_eqI) (auto simp: bit_xor_iff bit_push_bit_iff bit_unsigned_iff)
  then show ?thesis
    unfolding crc_byte_eq xor_linearD[OF crc_steps_linear, symmetric]
    by (simp add: ac_simps)
qed

definition xor_bytes :: "bytes \<Rightarrow> bytes \<Rightarrow> bytes" where
  "xor_bytes a b = map2 (XOR) a b"

lemma xor_bytes_simps [simp]:
  "xor_bytes [] b = []" "xor_bytes a [] = []"
  "xor_bytes (x # a) (y # b) = (x XOR y) # xor_bytes a b"
  by (simp_all add: xor_bytes_def)

lemma xor_bytes_length [simp]: "length (xor_bytes a b) = min (length a) (length b)"
  by (simp add: xor_bytes_def)

lemma xor_bytes_append:
  "length a = length c \<Longrightarrow> xor_bytes (a @ b) (c @ d) = xor_bytes a c @ xor_bytes b d"
  by (simp add: xor_bytes_def)

lemma xor_bytes_zeros: "xor_bytes a (replicate (length a) 0) = a"
  by (induction a) simp_all

lemma xor_bytes_self: "xor_bytes a a = replicate (length a) 0"
  by (induction a) simp_all

lemma xor_bytes_cancel: "length a = length b \<Longrightarrow> xor_bytes a (xor_bytes a b) = b"
  by (induction a b rule: list_induct2) (simp_all add: xor.assoc[symmetric])

lemma crc32_update_linear:
  "length a = length b \<Longrightarrow>
   crc32_update (s XOR t) (xor_bytes a b) = crc32_update s a XOR crc32_update t b"
  by (induction a b arbitrary: s t rule: list_induct2) (simp_all add: crc_byte_linear)

lemma crc32_zeros: "crc32_update 0 (replicate n 0) = 0"
proof (induction n)
  case (Suc n)
  have "crc_byte 0 0 = 0" using crc_byte_linear[of 0 0 0 0] by simp
  then show ?case using Suc by simp
qed simp

subsection \<open>Matrices represent linear maps\<close>

definition represents :: "crc_matrix \<Rightarrow> (crc \<Rightarrow> crc) \<Rightarrow> bool" where
  "represents m f \<longleftrightarrow> xor_linear f \<and> (\<forall>i<32. m ! i = f (push_bit (31 - i) 1))"

definition top_part :: "nat \<Rightarrow> crc \<Rightarrow> crc" where
  "top_part n s = fold (\<lambda>i out. out XOR (if bit s (31 - i) then push_bit (31 - i) 1 else 0)) [0..<n] 0"

lemma top_part_Suc:
  "top_part (Suc n) s = top_part n s XOR (if bit s (31 - n) then push_bit (31 - n) 1 else 0)"
  by (simp add: top_part_def)

lemma bit_top_part: "n \<le> 32 \<Longrightarrow> bit (top_part n s) j \<longleftrightarrow> 31 < j + n \<and> j < 32 \<and> bit s j"
proof (induction n)
  case 0
  show ?case by (simp add: top_part_def)
next
  case (Suc n)
  show ?case
    unfolding top_part_Suc bit_xor_iff Suc.IH[OF Suc_leD[OF Suc.prems]]
    using Suc.prems
    by (cases "j = 31 - n") (auto simp: bit_push_bit_iff bit_1_iff split: if_splits simp del: push_bit_of_1)
qed

lemma top_part_all: "top_part 32 s = s"
  by (rule bit_word_eqI) (auto simp: bit_top_part)

lemma linear_top_part:
  assumes "xor_linear f"
  shows "f (top_part n s) =
         fold (\<lambda>i out. out XOR (if bit s (31 - i) then f (push_bit (31 - i) 1) else 0)) [0..<n] 0"
proof (induction n)
  case 0
  show ?case using xor_linear_0[OF assms] by (simp add: top_part_def)
next
  case (Suc n)
  show ?case
    unfolding top_part_Suc xor_linearD[OF assms] Suc.IH
    using xor_linear_0[OF assms] by simp
qed

lemma fold_cong_upt:
  "(\<And>i acc. i < n \<Longrightarrow> f i acc = g i acc) \<Longrightarrow> fold f [0..<n] a = fold g [0..<n] a"
  by (rule fold_cong) auto

lemma mat_apply_represents: "represents m f \<Longrightarrow> mat_apply m s = f s"
proof -
  assume r: "represents m f"
  then have l: "xor_linear f" by (simp add: represents_def)
  have "mat_apply m s = fold (\<lambda>i out. out XOR (if bit s (31 - i) then f (push_bit (31 - i) 1) else 0)) [0..<32] 0"
    unfolding mat_apply_def low_bit using r
    by (intro fold_cong_upt) (simp add: represents_def)
  also have "\<dots> = f (top_part 32 s)" by (rule linear_top_part[OF l, symmetric])
  finally show ?thesis by (simp add: top_part_all)
qed

lemma mat_mul_nth:
  "i < 32 \<Longrightarrow> represents b g \<Longrightarrow> mat_mul a b ! i = g (a ! i)"
proof -
  assume i: "i < 32" and r: "represents b g"
  have "mat_mul a b ! i =
      fold (\<lambda>j acc. if drop_bit (31 - j) (a ! i) AND 1 = 1 then acc XOR b ! j else acc) [0..<32] 0"
    using i by (simp add: mat_mul_def del: upt_rec_numeral)
  also have "\<dots> = mat_apply b (a ! i)"
    unfolding mat_apply_def low_bit by (intro fold_cong_upt) simp
  finally show ?thesis using mat_apply_represents[OF r] by simp
qed

lemma represents_mul:
  "represents a f \<Longrightarrow> represents b g \<Longrightarrow> represents (mat_mul a b) (\<lambda>x. g (f x))"
  using mat_mul_nth[of _ b g a]
  by (auto simp: represents_def xor_linear_comp)

lemma unat_lt2p_crc: "unat (p :: crc) < 2 ^ 32"
  using unsigned_less[of p] by simp

lemma poly_step_eq: "poly_step p = crc_byte p 0"
proof -
  have "unat (drop_bit 24 p) = unat p div 2 ^ 24"
    unfolding unat_drop_bit_eq by (rule drop_bit_eq_div)
  also have "\<dots> < 256" using unat_lt2p_crc[of p] by simp
  finally have lt: "unat (drop_bit 24 p) < 2 ^ 8" by simp
  have "unat (ucast (drop_bit 24 p) :: byte) = take_bit 8 (unat (drop_bit 24 p))"
    by (simp add: unsigned_ucast_eq)
  also have "\<dots> = unat (drop_bit 24 p)" using lt by (simp add: take_bit_nat_eq_self)
  finally show ?thesis by (simp add: poly_step_def crc_byte_def)
qed

definition zero_run :: "nat \<Rightarrow> crc \<Rightarrow> crc" where
  "zero_run n s = crc32_update s (replicate n 0)"

lemma zero_run_simps: "zero_run 0 s = s" "zero_run (Suc n) s = zero_run n (crc_byte s 0)"
  by (simp_all add: zero_run_def)

lemma zero_run_add: "zero_run (m + n) s = zero_run n (zero_run m s)"
  by (simp add: zero_run_def replicate_add crc32_update_append)

lemma zero_run_linear: "xor_linear (zero_run n)"
proof -
  have "zero_run n (x XOR y) = zero_run n x XOR zero_run n y" for x y
    using crc32_update_linear[of "replicate n 0" "replicate n 0" x y]
    by (simp add: zero_run_def xor_bytes_self)
  then show ?thesis by (simp add: xor_linear_def)
qed

lemma crc_power_represents: "represents (crc_power k) (zero_run (2 ^ k))"
proof (induction k)
  case 0
  have "crc_byte s 0 = zero_run (2 ^ 0) s" for s by (simp add: zero_run_simps)
  then show ?case using zero_run_linear[of "2 ^ 0"]
    by (simp add: represents_def poly_step_eq del: upt_rec_numeral)
next
  case (Suc k)
  have "zero_run (2 ^ Suc k) = (\<lambda>x. zero_run (2 ^ k) (zero_run (2 ^ k) x))"
    by (rule ext) (simp add: mult_2 zero_run_add)
  then show ?case using represents_mul[OF Suc Suc] by simp
qed

lemma shift_fold:
  "j \<le> 64 \<Longrightarrow>
   fold (\<lambda>k state. if (n div 2 ^ k) mod 2 = 1 then mat_apply (build_powers ! k) state else state) [0..<j] s
   = zero_run (n mod 2 ^ j) s"
proof (induction j)
  case 0
  show ?case by (simp add: zero_run_simps)
next
  case (Suc j)
  have p: "build_powers ! j = crc_power j" using Suc.prems by (simp add: build_powers_def)
  have n: "n mod 2 ^ Suc j = n mod 2 ^ j + (n div 2 ^ j mod 2) * 2 ^ j"
    by (metis mod_mult2_eq mult.commute add.commute power_Suc)
  show ?case
  proof (cases "n div 2 ^ j mod 2 = 1")
    case True
    then have "zero_run (n mod 2 ^ Suc j) s = zero_run (2 ^ j) (zero_run (n mod 2 ^ j) s)"
      by (simp only: n zero_run_add mult_1)
    then show ?thesis using Suc True
      by (simp add: p mat_apply_represents[OF crc_power_represents])
  next
    case False
    then have "n div 2 ^ j mod 2 = 0" by simp
    then show ?thesis using Suc n by simp
  qed
qed

lemma crc_shift_zeros_eq:
  assumes "n < 2 ^ 64"
  shows "crc_shift_zeros c n = crc32_update c (replicate n 0)"
  using assms shift_fold[of 64 n c] crc32_zeros[of n]
  by (simp add: crc_shift_zeros_def zero_run_def del: upt_rec_numeral)

subsection \<open>The two properties of the checksum\<close>

fun crc_bitserial :: "crc \<Rightarrow> bytes \<Rightarrow> crc" where
  "crc_bitserial s [] = s"
| "crc_bitserial s (b # bs) = crc_bitserial ((crc_bit_step ^^ 8) (s XOR push_bit 24 (ucast b))) bs"

text \<open>The table-driven checksum is the bit-serial division by the polynomial 0x04c11db7, byte by
  byte, and folds over concatenation, so a page may be checksummed in bounded windows.\<close>

theorem crc32_is_bitserial:
  "crc32_update s (a @ b) = crc_bitserial (crc_bitserial s a) b"
proof -
  have e: "crc_bitserial t x = crc32_update t x" for t x
    by (induction t x rule: crc_bitserial.induct) (simp_all add: crc_byte_eq)
  show ?thesis by (simp add: e crc32_update_append)
qed

text \<open>C14: shifting a checksum across n zero bytes with the precomputed GF(2) matrix powers gives
  the same state as feeding the n zero bytes through the table loop, for every n a usize holds.\<close>

theorem crc_shift_zeros_correct:
  assumes "n < 2 ^ 64"
  shows "crc_shift_zeros (crc32 m) n = crc32 (m @ replicate n 0)"
  by (simp add: crc_shift_zeros_eq[OF assms] crc32_def crc32_update_append)

lemma crc_shift_zeros_correct_witness:
  "crc_shift_zeros (crc32 [0x4F, 0x67]) 6 = crc32 ([0x4F, 0x67] @ replicate 6 0)"
  by (rule crc_shift_zeros_correct) simp

end
