(* ===== verification/Page.thy ===== *)
theory Page
  imports Crc Layout
begin

text \<open>
  Ogg pages, musefs-format/src/ogg/page.rs: parsing one page header, lacing packets onto
  pages, reassembling packets, patching the sequence number of a page (with the payload, and
  algebraically from the header alone), and chunk-aware lacing, which leaves art bytes out of
  the layout and only streams them through the page checksum.
\<close>

definition capture :: bytes where "capture = [79, 103, 103, 83]"

definition flag_continued :: byte where "flag_continued = 0x01"
definition flag_bos :: byte where "flag_bos = 0x02"

definition u32_le :: "bytes \<Rightarrow> crc" where "u32_le bs = word_of_nat (le_val bs)"
definition le32 :: "crc \<Rightarrow> bytes" where "le32 w = le_bytes 4 (unat w)"

definition sum_bytes :: "bytes \<Rightarrow> nat" where "sum_bytes bs = sum_list (map unat bs)"

record page_header =
  ph_header_type :: byte
  ph_granule :: nat
  ph_serial :: crc
  ph_seq :: crc
  ph_crc :: crc
  ph_seg_count :: nat
  ph_header_len :: nat
  ph_payload_len :: nat

definition page_total_len :: "page_header \<Rightarrow> nat" where
  "page_total_len h = ph_header_len h + ph_payload_len h"

definition parse_page :: "bytes \<Rightarrow> nat \<Rightarrow> page_header fresult" where
  "parse_page buf pos =
     (if pos + 27 > length buf \<or> slice buf pos 4 \<noteq> capture then Inl Malformed
      else if buf ! (pos + 4) \<noteq> 0 then Inl Malformed
      else let seg_count = unat (buf ! (pos + 26));
               table_start = pos + 27;
               table_end = table_start + seg_count
           in if table_end > length buf then Inl Malformed
              else Inr \<lparr> ph_header_type = buf ! (pos + 5),
                         ph_granule = le_val (slice buf (pos + 6) 8),
                         ph_serial = u32_le (slice buf (pos + 14) 4),
                         ph_seq = u32_le (slice buf (pos + 18) 4),
                         ph_crc = u32_le (slice buf (pos + 22) 4),
                         ph_seg_count = seg_count,
                         ph_header_len = 27 + seg_count,
                         ph_payload_len = sum_bytes (slice buf table_start seg_count) \<rparr>)"

definition lacing_values :: "nat \<Rightarrow> bytes" where
  "lacing_values payload_len = replicate (payload_len div 255) 255 @ [word_of_nat (payload_len mod 255)]"

definition page_header_bytes :: "byte \<Rightarrow> nat \<Rightarrow> crc \<Rightarrow> crc \<Rightarrow> bytes \<Rightarrow> bytes" where
  "page_header_bytes header_type granule serial seq table =
     capture @ [0] @ [header_type] @ le_bytes 8 granule @ le32 serial @ le32 seq @ le32 0 @
     [word_of_nat (length table)] @ table"

definition page_flags :: "bool \<Rightarrow> bool \<Rightarrow> byte" where
  "page_flags bos first =
     (let h = (if bos \<and> first then 0 OR flag_bos else 0)
      in if \<not> first then h OR flag_continued else h)"

function lace_loop ::
  "crc \<Rightarrow> bool \<Rightarrow> nat \<Rightarrow> bytes \<Rightarrow> bytes \<Rightarrow> bytes \<Rightarrow> crc \<Rightarrow> nat \<Rightarrow> nat \<Rightarrow> bool \<Rightarrow> bytes \<times> crc" where
  "lace_loop serial bos granule packet laces out seq lace_pos payload_pos first =
     (if first \<or> lace_pos < length laces then
        let chunk = min (length laces - lace_pos) 255;
            table = slice laces lace_pos chunk;
            page_payload = sum_bytes table;
            page = page_header_bytes (page_flags bos first) granule serial seq table @
                   slice packet payload_pos page_payload;
            sealed = patch_at page 22 (le32 (crc32 page))
        in lace_loop serial bos granule packet laces (out @ sealed) (seq + 1)
             (lace_pos + chunk) (payload_pos + page_payload) False
      else (out, seq))"
  by auto
termination
  by (relation "measure (\<lambda>(_, _, _, _, laces, _, _, lace_pos, _, first).
        (if first then 1 else 0) + (length laces - lace_pos))") auto

declare lace_loop.simps [simp del]

definition lace_packet :: "crc \<Rightarrow> crc \<Rightarrow> bool \<Rightarrow> nat \<Rightarrow> bytes \<Rightarrow> bytes \<times> crc" where
  "lace_packet serial seq_start bos granule packet =
     (case lace_loop serial bos granule packet (lacing_values (length packet)) [] seq_start 0 0 True of
        (out, seq) \<Rightarrow> (out, seq - seq_start))"

fun build_header_from :: "crc \<Rightarrow> bool \<Rightarrow> bytes \<Rightarrow> crc \<Rightarrow> bytes list \<Rightarrow> bytes \<times> crc" where
  "build_header_from serial first out seq [] = (out, seq)"
| "build_header_from serial first out seq (pkt # pkts) =
     (case lace_packet serial seq first 0 pkt of
        (bs, used) \<Rightarrow> build_header_from serial False (out @ bs) (seq + used) pkts)"

definition build_header :: "crc \<Rightarrow> bytes list \<Rightarrow> bytes \<times> crc" where
  "build_header serial packets = build_header_from serial True [] 0 packets"

record read_packet =
  rp_data :: bytes
  rp_end_offset :: nat
  rp_pages_through_end :: nat

fun read_laces ::
  "bytes \<Rightarrow> nat \<Rightarrow> nat \<Rightarrow> nat \<Rightarrow> bytes \<Rightarrow> nat \<Rightarrow> bytes \<Rightarrow> read_packet list \<Rightarrow> (bytes \<times> read_packet list) fresult" where
  "read_laces data want page_end pages [] seg_start cur out = Inr (cur, out)"
| "read_laces data want page_end pages (l # ls) seg_start cur out =
     (let lace = unat l; seg_end = seg_start + lace
      in if seg_end > length data then Inl Malformed
         else let cur = cur @ slice data seg_start lace
              in if lace < 255 then
                   let out = out @ [\<lparr> rp_data = cur, rp_end_offset = page_end, rp_pages_through_end = pages \<rparr>]
                   in if length out = want then Inr ([], out)
                      else read_laces data want page_end pages ls seg_end [] out
                 else read_laces data want page_end pages ls seg_end cur out)"

lemma parse_page_bounds:
  "parse_page buf pos = Inr h \<Longrightarrow>
   ph_header_len h = 27 + ph_seg_count h \<and> pos + ph_header_len h \<le> length buf \<and> ph_seg_count h < 256"
  by (auto simp: parse_page_def Let_def split: if_splits)

function read_packets_from ::
  "bytes \<Rightarrow> nat \<Rightarrow> nat \<Rightarrow> nat \<Rightarrow> bytes \<Rightarrow> read_packet list \<Rightarrow> read_packet list fresult" where
  "read_packets_from data want pos pages cur out =
     (if length out < want then
        rbind (parse_page data pos) (\<lambda>h.
        rbind (read_laces data want (pos + page_total_len h) (pages + 1)
                 (slice data (pos + 27) (ph_seg_count h)) (pos + ph_header_len h) cur out) (\<lambda>(cur, out).
        read_packets_from data want (pos + page_total_len h) (pages + 1) cur out))
      else Inr out)"
  by auto
termination
  by (relation "measure (\<lambda>(data, _, pos, _). length data - pos)")
    (auto simp: page_total_len_def dest!: parse_page_bounds)

declare read_packets_from.simps [simp del]

definition read_packets :: "bytes \<Rightarrow> nat \<Rightarrow> read_packet list fresult" where
  "read_packets data want = read_packets_from data want 0 0 [] []"

definition patch_page_header :: "bytes \<Rightarrow> crc \<Rightarrow> bytes fresult" where
  "patch_page_header page new_seq =
     rbind (parse_page page 0) (\<lambda>h.
       if length page < page_total_len h then Inl Malformed
       else let full = take (page_total_len h) page;
                full = patch_at full 18 (le32 new_seq);
                full = patch_at full 22 (le32 0);
                crc = crc32 full;
                full = patch_at full 22 (le32 crc)
            in Inr (take (ph_header_len h) full))"

definition patch_page_header_algebraic :: "bytes \<Rightarrow> crc \<Rightarrow> bytes fresult" where
  "patch_page_header_algebraic header new_seq =
     (if length header < 27 then Inl Malformed
      else let seg_count = unat (header ! 26);
               header_len = 27 + seg_count
           in if length header < header_len then Inl Malformed
              else let payload_len = sum_bytes (slice header 27 seg_count);
                       old_seq = u32_le (slice header 18 4);
                       old_crc = u32_le (slice header 22 4);
                       delta_bytes = le32 (old_seq XOR new_seq);
                       trailing = 5 + seg_count + payload_len;
                       delta_crc = crc_shift_zeros (crc32 delta_bytes) trailing;
                       new_crc = old_crc XOR delta_crc;
                       out = take header_len header;
                       out = patch_at out 18 (le32 new_seq);
                       out = patch_at out 22 (le32 new_crc)
                   in Inr out)"

definition verify_page_crc :: "bytes \<Rightarrow> bool fresult" where
  "verify_page_crc page =
     rbind (parse_page page 0) (\<lambda>h.
       if length page < page_total_len h then Inl Malformed
       else let buf = patch_at (take (page_total_len h) page) 22 (le32 0)
            in Inr (crc32 buf = ph_crc h))"

subsection \<open>The layout of one page\<close>

lemma capture_length [simp]: "length capture = 4"
  by (simp add: capture_def)

lemma le32_length [simp, len_simps]: "length (le32 w) = 4"
  by (simp add: le32_def)

lemma u32_le_le32 [simp]: "u32_le (le32 w) = w"
  using unat_lt2p_crc[of w] by (simp add: u32_le_def le32_def le_val_le_bytes)

definition mk_page :: "byte \<Rightarrow> nat \<Rightarrow> crc \<Rightarrow> crc \<Rightarrow> crc \<Rightarrow> bytes \<Rightarrow> bytes \<Rightarrow> bytes" where
  "mk_page ht g serial seq c table payload =
     capture @ [0] @ [ht] @ le_bytes 8 g @ le32 serial @ le32 seq @ le32 c @
     [word_of_nat (length table)] @ table @ payload"

lemma mk_page_length [len_simps]: "length (mk_page ht g serial seq c table payload) = 27 + length table + length payload"
  by (simp add: mk_page_def)

lemma parse_mk_page:
  assumes "length table < 256" "g < 2 ^ 64"
  shows "parse_page (pre @ mk_page ht g serial seq c table payload @ rest) (length pre) =
    Inr \<lparr> ph_header_type = ht, ph_granule = g, ph_serial = serial, ph_seq = seq, ph_crc = c,
          ph_seg_count = length table, ph_header_len = 27 + length table,
          ph_payload_len = sum_bytes table \<rparr>"
proof -
  let ?p = "mk_page ht g serial seq c table payload @ rest"
  let ?b = "pre @ ?p"
  have sl: "slice ?b (length pre + k) n = slice ?p k n" for k n
    by (simp add: slice_append2)
  have nth: "?b ! (length pre + k) = ?p ! k" for k by (simp add: nth_append)
  have n: "unat (word_of_nat (length table) :: byte) = length table"
    using assms(1) by (simp add: unat_of_nat)
  have f: "slice ?p 0 4 = capture" "slice ?p 6 8 = le_bytes 8 g" "slice ?p 14 4 = le32 serial"
    "slice ?p 18 4 = le32 seq" "slice ?p 22 4 = le32 c" "slice ?p 27 (length table) = table"
    by (simp_all add: mk_page_def slice_append2 slice_Cons slice_prefix del: le_bytes.simps)
  have g: "?p ! 4 = 0" "?p ! 5 = ht" "?p ! 26 = word_of_nat (length table)"
    by (simp_all add: mk_page_def nth_append capture_def)
  show ?thesis
    using assms f g sl[of 0 4, simplified] sl nth nth[of 4] 
    by (simp add: parse_page_def n mk_page_length le_val_le_bytes Let_def)
qed


lemma parse_mk_page0:
  assumes "length table < 256" "g < 2 ^ 64"
  shows "parse_page (mk_page ht g serial seq c table payload @ rest) 0 =
    Inr \<lparr> ph_header_type = ht, ph_granule = g, ph_serial = serial, ph_seq = seq, ph_crc = c,
          ph_seg_count = length table, ph_header_len = 27 + length table,
          ph_payload_len = sum_bytes table \<rparr>"
  using parse_mk_page[OF assms, of "[]"] by simp

lemma page_header_bytes_eq: "page_header_bytes ht g serial seq table @ payload = mk_page ht g serial seq 0 table payload"
  by (simp add: page_header_bytes_def mk_page_def)

lemma patch_at_mid:
  "length a = off \<Longrightarrow> length v = length b \<Longrightarrow> patch_at (a @ b @ c) off v = a @ v @ c"
  by (simp add: patch_at_def)

lemma patch_crc_mk_page:
  "patch_at (mk_page ht g serial seq c table payload) 22 (le32 c') = mk_page ht g serial seq c' table payload"
  using patch_at_mid[of "capture @ [0] @ [ht] @ le_bytes 8 g @ le32 serial @ le32 seq" 22 "le32 c'" "le32 c"
      "[word_of_nat (length table)] @ table @ payload"]
  by (simp add: mk_page_def)

lemma patch_seq_mk_page:
  "patch_at (mk_page ht g serial seq c table payload) 18 (le32 s') = mk_page ht g serial s' c table payload"
  using patch_at_mid[of "capture @ [0] @ [ht] @ le_bytes 8 g @ le32 serial" 18 "le32 s'" "le32 seq"
      "le32 c @ [word_of_nat (length table)] @ table @ payload"]
  by (simp add: mk_page_def)

definition page_crc :: "byte \<Rightarrow> nat \<Rightarrow> crc \<Rightarrow> crc \<Rightarrow> bytes \<Rightarrow> bytes \<Rightarrow> crc" where
  "page_crc ht g serial seq table payload = crc32 (mk_page ht g serial seq 0 table payload)"

definition sealed_page :: "byte \<Rightarrow> nat \<Rightarrow> crc \<Rightarrow> crc \<Rightarrow> bytes \<Rightarrow> bytes \<Rightarrow> bytes" where
  "sealed_page ht g serial seq table payload =
     mk_page ht g serial seq (page_crc ht g serial seq table payload) table payload"

lemma take_mk_page_header:
  "take (27 + length table) (mk_page ht g serial seq c table payload @ rest) = mk_page ht g serial seq c table []"
proof -
  have "mk_page ht g serial seq c table payload @ rest = mk_page ht g serial seq c table [] @ payload @ rest"
    by (simp add: mk_page_def)
  then show ?thesis by (simp add: mk_page_length)
qed

lemma take_mk_page:
  "sum_bytes table = length payload \<Longrightarrow>
   take (27 + length table + sum_bytes table) (mk_page ht g serial seq c table payload @ rest) =
   mk_page ht g serial seq c table payload"
  by (simp add: mk_page_length)

lemma verify_mk_page:
  assumes "length table < 256" "g < 2 ^ 64" "sum_bytes table = length payload"
  shows "verify_page_crc (mk_page ht g serial seq c table payload @ rest) =
    Inr (page_crc ht g serial seq table payload = c)"
  using assms take_mk_page[OF assms(3)]
  by (simp add: verify_page_crc_def parse_mk_page0 page_total_len_def mk_page_length
      patch_crc_mk_page page_crc_def del: take_append)

lemma patch_mk_page:
  assumes "length table < 256" "g < 2 ^ 64" "sum_bytes table = length payload"
  shows "patch_page_header (mk_page ht g serial seq c table payload @ rest) new_seq =
    Inr (mk_page ht g serial new_seq (page_crc ht g serial new_seq table payload) table [])"
proof -
  have h: "take (27 + length table) (mk_page ht g serial s c table payload) = mk_page ht g serial s c table []"
    for s c using take_mk_page_header[of table ht g serial s c payload "[]"] by simp
  show ?thesis using assms take_mk_page[OF assms(3)]
    by (simp add: patch_page_header_def parse_mk_page0 page_total_len_def mk_page_length
        patch_seq_mk_page patch_crc_mk_page page_crc_def h Let_def del: take_append)
qed

lemma mk_page_fields:
  assumes "length table < 256"
  shows "unat (mk_page ht g serial seq c table payload ! 26) = length table"
    "slice (mk_page ht g serial seq c table payload) 27 (length table) = table"
    "slice (mk_page ht g serial seq c table payload) 18 4 = le32 seq"
    "slice (mk_page ht g serial seq c table payload) 22 4 = le32 c"
  using assms
  by (simp_all add: mk_page_def nth_append slice_append2 slice_Cons slice_prefix unat_of_nat)

lemma algebraic_mk_page:
  assumes "length table < 256"
  shows "patch_page_header_algebraic (mk_page ht g serial seq c table rest) new_seq =
    Inr (mk_page ht g serial new_seq
      (c XOR crc_shift_zeros (crc32 (le32 (seq XOR new_seq))) (5 + length table + sum_bytes table)) table [])"
  using assms take_mk_page_header[of table ht g serial seq c rest "[]"]
  by (simp add: patch_page_header_algebraic_def mk_page_fields mk_page_length Let_def
      patch_seq_mk_page patch_crc_mk_page)

lemma le_bytes_xor: "le_bytes n (x XOR y) = xor_bytes (le_bytes n x) (le_bytes n y)"
proof (induction n x arbitrary: y rule: le_bytes.induct)
  case (2 n x)
  have "(x XOR y) div 256 = (x div 256) XOR (y div 256)"
    using drop_bit_xor[of 8 x y] by (simp add: drop_bit_eq_div)
  moreover have "(word_of_nat (x XOR y) :: byte) = word_of_nat x XOR word_of_nat y"
    by (simp add: of_nat_xor_eq)
  ultimately show ?case using 2 by simp
qed simp

lemma le32_xor: "le32 (a XOR b) = xor_bytes (le32 a) (le32 b)"
  by (simp add: le32_def unsigned_xor_eq le_bytes_xor)

lemma page_crc_seq_delta:
  assumes t: "5 + length table + length payload < 2 ^ 64"
  shows "page_crc ht g serial new_seq table payload =
    page_crc ht g serial seq table payload XOR
    crc_shift_zeros (crc32 (le32 (seq XOR new_seq))) (5 + length table + length payload)"
proof -
  let ?pre = "capture @ [0] @ [ht] @ le_bytes 8 g @ le32 serial"
  let ?post = "le32 0 @ [word_of_nat (length table)] @ table @ payload"
  let ?d = "replicate 18 0 @ le32 (seq XOR new_seq) @ replicate (5 + length table + length payload) 0"
  have m: "mk_page ht g serial s 0 table payload = ?pre @ le32 s @ ?post" for s by (simp add: mk_page_def)
  have lp: "length ?pre = 18" "length ?post = 5 + length table + length payload" by simp_all
  have x: "xor_bytes (?pre @ le32 seq @ ?post) ?d = ?pre @ le32 new_seq @ ?post"
  proof -
    have "xor_bytes (le32 seq) (le32 (seq XOR new_seq)) = le32 new_seq"
      by (simp add: le32_xor xor_bytes_cancel)
    moreover have "xor_bytes ?pre (replicate 18 0) = ?pre"
      using xor_bytes_zeros[of ?pre] unfolding lp .
    moreover have "xor_bytes ?post (replicate (5 + length table + length payload) 0) = ?post"
      using xor_bytes_zeros[of ?post] unfolding lp .
    ultimately show ?thesis by (simp only: xor_bytes_append lp length_replicate le32_length)
  qed
  have "crc32 (?pre @ le32 new_seq @ ?post) = crc32 (?pre @ le32 seq @ ?post) XOR crc32 ?d"
    unfolding crc32_def x[symmetric]
    by (subst crc32_update_linear[of _ _ 0 0, simplified]) simp_all
  moreover have "crc32 ?d = crc_shift_zeros (crc32 (le32 (seq XOR new_seq))) (5 + length table + length payload)"
    unfolding crc_shift_zeros_eq[OF t] by (simp add: crc32_def crc32_update_append crc32_zeros)
  ultimately show ?thesis by (simp only: page_crc_def m)
qed

subsection \<open>Every parsed page has that layout\<close>

lemma le32_u32_le: "length bs = 4 \<Longrightarrow> le32 (u32_le bs) = bs"
proof -
  assume l: "length bs = 4"
  then have "le_val bs < 2 ^ 32" using le_val_bound[of bs] by simp
  then have "unat (u32_le bs) = le_val bs" by (simp add: u32_le_def unat_of_nat)
  then show ?thesis using le_bytes_le_val[of bs] l by (simp add: le32_def)
qed

lemma parse_page_shape:
  assumes "parse_page page 0 = Inr h" "page_total_len h \<le> length page"
  obtains table payload rest where
    "page = mk_page (ph_header_type h) (ph_granule h) (ph_serial h) (ph_seq h) (ph_crc h) table payload @ rest"
    "length table = ph_seg_count h" "ph_seg_count h < 256" "sum_bytes table = length payload"
    "ph_granule h < 2 ^ 64" "page_total_len h = 27 + length table + length payload"
    "ph_header_len h = 27 + length table"
proof -
  define n where "n = ph_seg_count h"
  define p where "p = ph_payload_len h"
  have h: "27 \<le> length page" "slice page 0 4 = capture" "page ! 4 = 0" "27 + n \<le> length page"
    "n = unat (page ! 26)" "ph_header_type h = page ! 5" "ph_granule h = le_val (slice page 6 8)"
    "ph_serial h = u32_le (slice page 14 4)" "ph_seq h = u32_le (slice page 18 4)"
    "ph_crc h = u32_le (slice page 22 4)" "ph_header_len h = 27 + n" "p = sum_bytes (slice page 27 n)"
    using assms(1) by (auto simp: parse_page_def Let_def n_def p_def split: if_splits)
  have tot: "27 + n + p \<le> length page" using assms(2) h(11) by (simp add: page_total_len_def p_def)
  define table where "table = slice page 27 n"
  define payload where "payload = slice page (27 + n) p"
  have split: "page = slice page 0 (4 + (1 + (1 + (8 + (4 + (4 + (4 + (1 + (n + p))))))))) @ drop (27 + n + p) page"
  proof -
    have e: "4 + (1 + (1 + (8 + (4 + (4 + (4 + (1 + (n + p)))))))) = 27 + n + p" by simp
    show ?thesis unfolding e by (simp only: slice_def drop_0 append_take_drop_id)
  qed
  also have "slice page 0 (4 + (1 + (1 + (8 + (4 + (4 + (4 + (1 + (n + p))))))))) =
      slice page 0 4 @ slice page 4 1 @ slice page 5 1 @ slice page 6 8 @ slice page 14 4 @ slice page 18 4 @
      slice page 22 4 @ slice page 26 1 @ table @ payload"
    unfolding slice_plus table_def payload_def by (simp add: add.commute)
  also have "\<dots> = mk_page (ph_header_type h) (ph_granule h) (ph_serial h) (ph_seq h) (ph_crc h) table payload"
  proof -
    have g: "le_bytes 8 (le_val (slice page 6 8)) = slice page 6 8"
      using le_bytes_le_val[of "slice page 6 8"] h(1) by simp
    have w: "word_of_nat (length table) = page ! 26" using h(5) tot by (simp add: table_def)
    have s: "slice page 4 1 = [0]" "slice page 5 1 = [page ! 5]" "slice page 26 1 = [page ! 26]"
      using h(1,3) by (simp_all only: slice_one less_le_trans[of _ 27])
    show ?thesis unfolding mk_page_def h(6-10) g w s h(2)
      using h(1) by (simp add: le32_u32_le)
  qed
  finally have page: "page = mk_page (ph_header_type h) (ph_granule h) (ph_serial h) (ph_seq h) (ph_crc h) table payload @
      drop (27 + n + p) page" .
  have "n < 256" using h(5) unat_byte_lt[of "page ! 26"] by simp
  moreover have "ph_granule h < 2 ^ 64" using le_val_bound[of "slice page 6 8"] h(1,7) by simp
  moreover have "length table = n" "length payload = p" using tot by (simp_all add: table_def payload_def)
  ultimately show ?thesis using that[OF page] h(11,12)
    by (simp add: page_total_len_def table_def n_def p_def)
qed

lemma algebraic_eq_full:
  assumes v: "verify_page_crc page = Inr True"
    and h: "parse_page page 0 = Inr h"
  shows "patch_page_header_algebraic (take (ph_header_len h) page) new_seq = patch_page_header page new_seq"
proof -
  have "page_total_len h \<le> length page" using v h by (auto simp: verify_page_crc_def split: if_splits)
  from parse_page_shape[OF h this] obtain table payload rest where
    s: "page = mk_page (ph_header_type h) (ph_granule h) (ph_serial h) (ph_seq h) (ph_crc h) table payload @ rest"
    "length table < 256" "sum_bytes table = length payload" "ph_granule h < 2 ^ 64" "ph_header_len h = 27 + length table"
    by metis
  have pl: "sum_bytes table \<le> 255 * length table" for table
  proof (induction table)
    case (Cons a t)
    have "unat a \<le> 255" using unat_byte_lt[of a] by linarith
    then have "unat a + sum_bytes t \<le> 255 + 255 * length t" using Cons by (rule add_mono)
    then show ?case by (simp add: sum_bytes_def)
  qed (simp add: sum_bytes_def)
  have c: "page_crc (ph_header_type h) (ph_granule h) (ph_serial h) (ph_seq h) table payload = ph_crc h"
    using v unfolding s(1) verify_mk_page[OF s(2,4,3)] by simp
  have b: "5 + length table + length payload < 2 ^ 64" using pl[of table] s(2,3) by simp
  show ?thesis
    by (subst (1 2) s(1))
      (simp add: s(5) take_mk_page_header algebraic_mk_page[OF s(2)] patch_mk_page[OF s(2,4,3)]
        page_crc_seq_delta[OF b, of _ _ _ new_seq "ph_seq h"] c s(3)
        del: take_append)
qed

subsection \<open>Renumbering a page\<close>

text \<open>For a page whose stored checksum is valid, patching the sequence number from the header
  bytes alone gives exactly the header that patching with the whole payload gives.\<close>

theorem patch_algebraic_equals_full:
  assumes "verify_page_crc page = Inr True" "parse_page page 0 = Inr h"
  shows "patch_page_header_algebraic (take (ph_header_len h) page) new_seq = patch_page_header page new_seq"
  by (rule algebraic_eq_full[OF assms])

definition demo_page :: bytes where
  "demo_page = sealed_page 2 7 0x11223344 5 [3] [10, 20, 30]"

lemma demo_page_parse: "parse_page demo_page 0 = Inr \<lparr> ph_header_type = 2, ph_granule = 7, ph_serial = 0x11223344,
    ph_seq = 5, ph_crc = page_crc 2 7 0x11223344 5 [3] [10, 20, 30], ph_seg_count = 1, ph_header_len = 28,
    ph_payload_len = 3 \<rparr>"
  using parse_mk_page0[of "[3]" 7 2 "0x11223344" 5 _ "[10, 20, 30]" "[]"]
  by (simp add: demo_page_def sealed_page_def sum_bytes_def)

lemma demo_page_verifies: "verify_page_crc demo_page = Inr True"
  using verify_mk_page[of "[3]" 7 "[10, 20, 30]" 2 "0x11223344" 5 _ "[]"]
  by (simp add: demo_page_def sealed_page_def sum_bytes_def)

lemma patch_algebraic_equals_full_witness:
  "patch_page_header_algebraic (take 28 demo_page) 9 = patch_page_header demo_page 9"
  using patch_algebraic_equals_full[OF demo_page_verifies demo_page_parse, of 9] by simp

text \<open>C10: a renumbered page is a valid page: the patched header followed by the untouched payload
  parses with the new sequence number and every other field unchanged, and its checksum verifies.\<close>

theorem patched_page_is_valid:
  assumes "parse_page page 0 = Inr h" "page_total_len h \<le> length page"
    and "patch_page_header page new_seq = Inr header"
  shows "length header = ph_header_len h \<and>
    (let served = header @ slice page (ph_header_len h) (ph_payload_len h)
     in verify_page_crc served = Inr True \<and>
        (\<exists>c. parse_page served 0 = Inr (h\<lparr> ph_seq := new_seq, ph_crc := c \<rparr>)))"
proof -
  from parse_page_shape[OF assms(1,2)] obtain table payload rest where
    s: "page = mk_page (ph_header_type h) (ph_granule h) (ph_serial h) (ph_seq h) (ph_crc h) table payload @ rest"
      "length table = ph_seg_count h" "ph_seg_count h < 256" "sum_bytes table = length payload"
      "ph_granule h < 2 ^ 64" "page_total_len h = 27 + length table + length payload"
      "ph_header_len h = 27 + length table" by metis
  have tl: "length table < 256" using s(2,3) by simp
  let ?c = "page_crc (ph_header_type h) (ph_granule h) (ph_serial h) new_seq table payload"
  have hd: "header = mk_page (ph_header_type h) (ph_granule h) (ph_serial h) new_seq ?c table []"
    using assms(3) unfolding s(1) patch_mk_page[OF tl s(5,4)] by simp
  have pl: "ph_payload_len h = length payload" using s(6,7) by (simp add: page_total_len_def)
  have "slice page (ph_header_len h) (ph_payload_len h) = payload"
    unfolding s(1,7) pl by (simp add: mk_page_def slice_append2 slice_Cons slice_prefix)
  then have sv: "header @ slice page (ph_header_len h) (ph_payload_len h) =
      mk_page (ph_header_type h) (ph_granule h) (ph_serial h) new_seq ?c table payload @ []"
    by (simp add: hd mk_page_def)
  have "parse_page (header @ slice page (ph_header_len h) (ph_payload_len h)) 0 = Inr (h\<lparr> ph_seq := new_seq, ph_crc := ?c \<rparr>)"
    unfolding sv parse_mk_page0[OF tl s(5)] using s(2,4,7) pl by simp
  moreover have "verify_page_crc (header @ slice page (ph_header_len h) (ph_payload_len h)) = Inr True"
    unfolding sv verify_mk_page[OF tl s(5,4)] by simp
  moreover have "length header = ph_header_len h" by (simp add: hd mk_page_length s(7))
  ultimately show ?thesis by (auto simp: Let_def)
qed

lemma patched_page_is_valid_witness:
  "verify_page_crc (projr (patch_page_header demo_page 9) @ slice demo_page 28 3) = Inr True"
proof -
  have p: "patch_page_header demo_page 9 = Inr (projr (patch_page_header demo_page 9))"
    using patch_mk_page[of "[3]" 7 "[10, 20, 30]" 2 "0x11223344" 5 _ "[]"]
    by (simp add: demo_page_def sealed_page_def sum_bytes_def)
  have l: "page_total_len \<lparr> ph_header_type = 2, ph_granule = 7, ph_serial = 0x11223344,
    ph_seq = 5, ph_crc = page_crc 2 7 0x11223344 5 [3] [10, 20, 30], ph_seg_count = 1, ph_header_len = 28,
    ph_payload_len = 3 \<rparr> \<le> length demo_page"
    by (simp add: page_total_len_def demo_page_def sealed_page_def mk_page_length)
  from patched_page_is_valid[OF demo_page_parse l p] show ?thesis by (simp add: Let_def)
qed

end
