(* ===== verification/Lacing.thy ===== *)
theory Lacing
  imports Page
begin

text \<open>
  Lacing a packet onto pages and reassembling packets, musefs-format/src/ogg/page.rs: the loop
  of lace_packet against the list of pages it stands for, the checksum and sequence
  number of each page, and the round trip through read_packets.
\<close>

subsection \<open>The pages of a packet\<close>

function packet_pages :: "crc \<Rightarrow> bool \<Rightarrow> nat \<Rightarrow> crc \<Rightarrow> bool \<Rightarrow> bytes \<Rightarrow> bytes list" where
  "packet_pages serial bos granule seq first payload =
     (if length payload < 65025
      then [sealed_page (page_flags bos first) granule serial seq (lacing_values (length payload)) payload]
      else sealed_page (page_flags bos first) granule serial seq (replicate 255 255) (take 65025 payload) #
           packet_pages serial bos granule (seq + 1) False (drop 65025 payload))"
  by auto
termination by (relation "measure (\<lambda>(_, _, _, _, _, payload). length payload)") auto

declare packet_pages.simps [simp del]

lemma sum_bytes_simps [simp]:
  "sum_bytes [] = 0" "sum_bytes (x # xs) = unat x + sum_bytes xs" "sum_bytes (a @ b) = sum_bytes a + sum_bytes b"
  "sum_bytes (replicate n x) = n * unat x"
  by (simp_all add: sum_bytes_def sum_list_replicate)

lemma lacing_length: "length (lacing_values n) = n div 255 + 1"
  by (simp add: lacing_values_def)

lemma lacing_sum: "sum_bytes (lacing_values n) = n"
proof -
  have "n mod 255 < 255" by simp
  then have "unat (word_of_nat (n mod 255) :: byte) = n mod 255" by (simp add: unat_of_nat)
  then show ?thesis by (simp add: lacing_values_def div_mult_mod_eq)
qed

lemma lacing_step:
  assumes "65025 \<le> n"
  shows "lacing_values n = replicate 255 255 @ lacing_values (n - 65025)"
proof -
  obtain k where n: "n = 65025 + k" using assms le_Suc_ex by blast
  have "(65025 + k) div 255 = 255 + k div 255" "(65025 + k) mod 255 = k mod 255"
    using div_mult_self1[of 255 k 255] mod_mult_self1[of k 255 255] by (simp_all add: add.commute)
  then show ?thesis unfolding n by (simp add: lacing_values_def replicate_add)
qed

lemma lace_loop_end: "lace_loop serial bos g packet laces out seq (length laces) pp False = (out, seq)"
  by (subst lace_loop.simps) simp

lemma sealed_patch:
  "patch_at (page_header_bytes ht g serial seq table @ payload) 22
     (le32 (crc32 (page_header_bytes ht g serial seq table @ payload))) = sealed_page ht g serial seq table payload"
  by (simp add: page_header_bytes_eq patch_crc_mk_page sealed_page_def page_crc_def)

lemma lace_loop_pages:
  assumes "drop lace_pos laces = lacing_values (length (drop pp packet))"
  shows "lace_loop serial bos g packet laces out seq lace_pos pp first =
    (let ps = packet_pages serial bos g seq first (drop pp packet)
     in (out @ concat ps, seq + word_of_nat (length ps)))"
  using assms
proof (induction "length (drop pp packet)" arbitrary: pp lace_pos out seq first rule: less_induct)
  case less
  define rem where "rem = drop pp packet"
  define n where "n = length rem"
  have dl: "drop lace_pos laces = lacing_values n" using less.prems by (simp add: n_def rem_def)
  have len: "length laces - lace_pos = n div 255 + 1" using arg_cong[OF dl, of length] by (simp add: lacing_length)
  then have lt: "lace_pos < length laces" by simp
  show ?case
  proof (cases "n < 65025")
    case True
    then have "n div 255 < 255" by (simp add: less_mult_imp_div_less)
    then have ch: "min (length laces - lace_pos) 255 = n div 255 + 1" using len by simp
    have tab: "slice laces lace_pos (n div 255 + 1) = lacing_values n"
      unfolding slice_def dl by (simp add: lacing_length)
    have pay: "slice packet pp n = rem" by (simp add: slice_def n_def rem_def)
    have e: "lace_pos + (n div 255 + 1) = length laces" using len lt by simp
    have ps: "packet_pages serial bos g seq first rem =
        [sealed_page (page_flags bos first) g serial seq (lacing_values n) rem]"
      using True by (subst packet_pages.simps) (simp add: n_def)
    show ?thesis unfolding rem_def[symmetric] ps
      by (subst lace_loop.simps)
        (use True lt in \<open>simp add: Let_def ch[simplified] tab[simplified] lacing_sum pay sealed_patch
           e[simplified] lace_loop_end\<close>)
  next
    case False
    have ch: "min (length laces - lace_pos) 255 = 255"
      using len False div_le_mono[of 65025 n 255] by simp
    have dl2: "drop lace_pos laces = replicate 255 255 @ lacing_values (n - 65025)"
      using dl lacing_step[of n] False by simp
    have tab: "slice laces lace_pos 255 = replicate 255 255" unfolding slice_def dl2 by simp
    have sm: "sum_bytes (replicate 255 (255 :: byte)) = 65025" by simp
    have pay: "slice packet pp 65025 = take 65025 rem" by (simp add: slice_def rem_def)
    have d: "drop (lace_pos + 255) laces = lacing_values (length (drop (pp + 65025) packet))"
      using arg_cong[OF dl2, of "drop 255"] by (simp add: n_def rem_def add.commute)
    have l: "length (drop (pp + 65025) packet) < length (drop pp packet)"
      using False by (simp add: n_def rem_def)
    have dr: "drop (pp + 65025) packet = drop 65025 rem" by (simp add: rem_def add.commute)
    have ps: "packet_pages serial bos g seq first rem =
        sealed_page (page_flags bos first) g serial seq (replicate 255 255) (take 65025 rem) #
        packet_pages serial bos g (seq + 1) False (drop 65025 rem)"
      using False by (subst packet_pages.simps) (simp add: n_def)
    have ih: "lace_loop serial bos g packet laces out' (seq + 1) (lace_pos + 255) (pp + 65025) False =
        (let ps = packet_pages serial bos g (seq + 1) False (drop 65025 rem)
         in (out' @ concat ps, seq + 1 + word_of_nat (length ps)))" for out'
      using less.hyps[OF l d] unfolding dr .
    show ?thesis unfolding rem_def[symmetric] ps
      by (subst lace_loop.simps)
        (use False lt ih in \<open>simp add: Let_def ch tab sm pay sealed_patch del: sum_bytes_simps\<close>)
  qed
qed

lemma lace_packet_pages:
  "lace_packet serial seq bos g packet =
    (let ps = packet_pages serial bos g seq True packet in (concat ps, word_of_nat (length ps)))"
  using lace_loop_pages[of 0 "lacing_values (length packet)" 0 packet serial bos g "[]" seq True]
  by (simp add: lace_packet_def Let_def)

subsection \<open>Reassembly\<close>

lemma read_laces_full:
  assumes "seg_start + 255 * n \<le> length data"
  shows "read_laces data want pe pages (replicate n 255 @ ls) seg_start cur out =
         read_laces data want pe pages ls (seg_start + 255 * n) (cur @ slice data seg_start (255 * n)) out"
  using assms
proof (induction n arbitrary: seg_start cur)
  case (Suc n)
  have "slice data seg_start (255 * Suc n) = slice data seg_start 255 @ slice data (seg_start + 255) (255 * n)"
    using slice_plus[of data seg_start 255 "255 * n"] by simp
  then show ?case using Suc.prems Suc.IH[of "seg_start + 255" "cur @ slice data seg_start 255"]
    by (simp add: Let_def add.assoc)
qed simp

lemma read_laces_packet:
  assumes "seg_start + n \<le> length data"
  shows "read_laces data want pe pages (lacing_values n) seg_start cur out =
         Inr ([], out @ [\<lparr> rp_data = cur @ slice data seg_start n, rp_end_offset = pe, rp_pages_through_end = pages \<rparr>])"
proof -
  have m: "n mod 255 < 255" by simp
  then have u: "unat (word_of_nat (n mod 255) :: byte) = n mod 255" by (simp add: unat_of_nat)
  have n: "255 * (n div 255) + n mod 255 = n" by (simp add: mult_div_mod_eq)
  have le: "seg_start + 255 * (n div 255) \<le> length data" using assms n by linarith
  have "slice data seg_start n = slice data seg_start (255 * (n div 255)) @ slice data (seg_start + 255 * (n div 255)) (n mod 255)"
    using slice_plus[of data seg_start "255 * (n div 255)" "n mod 255"] n by simp
  then show ?thesis
    unfolding lacing_values_def read_laces_full[OF le]
    using u m assms n by (simp add: Let_def)
qed

lemma sealed_page_at:
  assumes "length table < 256" "g < 2 ^ 64" "sum_bytes table = length payload"
    and d: "data = pre @ sealed_page ht g serial seq table payload @ rest"
  obtains h where "parse_page data (length pre) = Inr h"
    "page_total_len h = length (sealed_page ht g serial seq table payload)"
    "slice data (length pre + 27) (ph_seg_count h) = table"
    "length pre + ph_header_len h + length payload \<le> length data"
    "slice data (length pre + ph_header_len h) (length payload) = payload"
proof -
  let ?c = "page_crc ht g serial seq table payload"
  have e: "data = pre @ mk_page ht g serial seq ?c table payload @ rest" by (simp add: d sealed_page_def)
  have h: "parse_page data (length pre) = Inr \<lparr> ph_header_type = ht, ph_granule = g, ph_serial = serial, ph_seq = seq,
      ph_crc = ?c, ph_seg_count = length table, ph_header_len = 27 + length table, ph_payload_len = sum_bytes table \<rparr>"
    unfolding e by (rule parse_mk_page[OF assms(1,2)])
  have f: "slice (mk_page ht g serial seq ?c table payload @ rest) 27 (length table) = table"
    "slice (mk_page ht g serial seq ?c table payload @ rest) (27 + length table) (length payload) = payload"
    by (simp_all add: mk_page_def slice_append2 slice_Cons slice_prefix)
  show ?thesis
    using that[OF h] f assms(3)
    by (simp add: page_total_len_def sealed_page_def mk_page_length e slice_append2 add.assoc)
qed

lemma read_pages:
  assumes "g < 2 ^ 64" "length out < want"
    and "data = pre @ concat (packet_pages serial bos g seq first payload) @ rest"
  shows "read_packets_from data want (length pre) pages cur out =
    read_packets_from data want (length pre + length (concat (packet_pages serial bos g seq first payload)))
      (pages + length (packet_pages serial bos g seq first payload)) []
      (out @ [\<lparr> rp_data = cur @ payload,
                rp_end_offset = length pre + length (concat (packet_pages serial bos g seq first payload)),
                rp_pages_through_end = pages + length (packet_pages serial bos g seq first payload) \<rparr>])"
  using assms(1,3)
proof (induction serial bos g seq first payload arbitrary: pre pages cur rule: packet_pages.induct)
  case (1 serial bos g seq first payload)
  let ?n = "length payload"
  show ?case
  proof (cases "?n < 65025")
    case True
    then have "?n div 255 < 255" by (simp add: less_mult_imp_div_less)
    then have tl: "length (lacing_values ?n) < 256" by (simp add: lacing_length)
    define pg where "pg = sealed_page (page_flags bos first) g serial seq (lacing_values ?n) payload"
    have ps: "packet_pages serial bos g seq first payload = [pg]"
      using True by (subst packet_pages.simps) (simp add: pg_def)
    have d: "data = pre @ pg @ rest" using 1(3) by (simp add: ps)
    from sealed_page_at[OF tl 1(2) lacing_sum[of ?n] d[unfolded pg_def]] obtain h where
      h: "parse_page data (length pre) = Inr h" "page_total_len h = length pg"
        "slice data (length pre + 27) (ph_seg_count h) = lacing_values ?n"
        "length pre + ph_header_len h + ?n \<le> length data"
        "slice data (length pre + ph_header_len h) ?n = payload"
      unfolding pg_def by metis
    show ?thesis unfolding ps
      by (subst read_packets_from.simps)
        (use assms(2) h in \<open>simp add: read_laces_packet[OF h(4)]\<close>)
  next
    case False
    let ?t = "replicate 255 (255 :: byte)"
    let ?a = "take 65025 payload"
    define pg where "pg = sealed_page (page_flags bos first) g serial seq ?t ?a"
    define ps where "ps = packet_pages serial bos g (seq + 1) False (drop 65025 payload)"
    have pps: "packet_pages serial bos g seq first payload = pg # ps"
      using False by (subst packet_pages.simps) (simp add: pg_def ps_def)
    have d: "data = pre @ pg @ (concat ps @ rest)" using 1(3) by (simp add: pps)
    have tl: "length ?t < 256" by simp
    have sm: "sum_bytes ?t = length ?a" using False by simp
    have la: "length ?a = 255 * 255" using False by simp
    from sealed_page_at[OF tl 1(2) sm d[unfolded pg_def]] obtain h where
      h: "parse_page data (length pre) = Inr h" "page_total_len h = length pg"
        "slice data (length pre + 27) (ph_seg_count h) = ?t"
        "length pre + ph_header_len h + 255 * 255 \<le> length data"
        "slice data (length pre + ph_header_len h) (255 * 255) = ?a"
      unfolding pg_def la by metis
    have rl: "read_laces data want pe (pages + 1) ?t (length pre + ph_header_len h) cur out = Inr (cur @ ?a, out)" for pe
      using read_laces_full[OF h(4), of want pe "pages + 1" "[]" cur out] h(5) by simp
    have d2: "data = (pre @ pg) @ concat (packet_pages serial bos g (seq + 1) False (drop 65025 payload)) @ rest"
      using d by (simp add: ps_def)
    note ih = 1(1)[OF False 1(2) d2, of "pages + 1" "cur @ ?a", folded ps_def]
    have ap: "(cur @ ?a) @ drop 65025 payload = cur @ payload" by simp
    show ?thesis unfolding pps
      by (subst read_packets_from.simps)
        (use assms(2) h rl ih[unfolded ap] in \<open>simp add: add.assoc\<close>)
  qed
qed

lemma packet_pages_nonempty: "packet_pages serial bos g seq first payload \<noteq> []"
  by (subst packet_pages.simps) simp

lemma packet_pages_nth:
  assumes "g < 2 ^ 64" "i < length (packet_pages serial bos g seq first payload)"
  shows "\<exists>table pl ht. packet_pages serial bos g seq first payload ! i =
      sealed_page ht g serial (seq + word_of_nat i) table pl \<and>
      length table < 256 \<and> sum_bytes table = length pl"
  using assms
proof (induction serial bos g seq first payload arbitrary: i rule: packet_pages.induct)
  case (1 serial bos g seq first payload)
  show ?case
  proof (cases "length payload < 65025")
    case True
    then have "length payload div 255 < 255" by (simp add: less_mult_imp_div_less)
    then have "length (lacing_values (length payload)) < 256" by (simp add: lacing_length)
    moreover have ps: "packet_pages serial bos g seq first payload =
        [sealed_page (page_flags bos first) g serial seq (lacing_values (length payload)) payload]"
      using True by (subst packet_pages.simps) simp
    moreover have "i = 0" using "1.prems"(2) ps by simp
    ultimately show ?thesis using lacing_sum[of "length payload"]
      by (intro exI[of _ "lacing_values (length payload)"] exI[of _ payload] exI[of _ "page_flags bos first"]) simp
  next
    case False
    have ps: "packet_pages serial bos g seq first payload =
        sealed_page (page_flags bos first) g serial seq (replicate 255 255) (take 65025 payload) #
        packet_pages serial bos g (seq + 1) False (drop 65025 payload)"
      using False by (subst packet_pages.simps) simp
    show ?thesis
    proof (cases i)
      case 0
      have "length (replicate 255 (255 :: byte)) < 256" "sum_bytes (replicate 255 (255 :: byte)) = length (take 65025 payload)"
        using False by simp_all
      then show ?thesis using ps 0
        by (intro exI[of _ "replicate 255 255"] exI[of _ "take 65025 payload"] exI[of _ "page_flags bos first"]) simp
    next
      case (Suc j)
      then have "j < length (packet_pages serial bos g (seq + 1) False (drop 65025 payload))"
        using "1.prems"(2) ps by simp
      from "1.IH"[OF False "1.prems"(1) this] show ?thesis using Suc
        by (simp add: ps add.assoc)
    qed
  qed
qed

lemma sealed_page_verifies:
  assumes "length table < 256" "g < 2 ^ 64" "sum_bytes table = length payload"
  shows "verify_page_crc (sealed_page ht g serial seq table payload @ rest) = Inr True"
  using verify_mk_page[OF assms] by (simp add: sealed_page_def)

fun header_pages :: "crc \<Rightarrow> bool \<Rightarrow> crc \<Rightarrow> bytes list \<Rightarrow> bytes list" where
  "header_pages serial first seq [] = []"
| "header_pages serial first seq (p # ps) =
     (let pg = packet_pages serial first 0 seq True p
      in pg @ header_pages serial False (seq + word_of_nat (length pg)) ps)"

lemma build_header_from_pages:
  "build_header_from serial first out seq pkts =
   (out @ concat (header_pages serial first seq pkts), seq + word_of_nat (length (header_pages serial first seq pkts)))"
  by (induction serial first out seq pkts rule: build_header_from.induct)
    (simp_all add: lace_packet_pages Let_def add.assoc)

lemma read_header_pages:
  assumes "data = pre @ concat (header_pages serial first seq pkts) @ rest" "length out + length pkts = want"
  shows "\<exists>rps. read_packets_from data want (length pre) pages [] out = Inr (out @ rps) \<and> map rp_data rps = pkts \<and>
    (pkts \<noteq> [] \<longrightarrow>
       rp_end_offset (last rps) = length pre + length (concat (header_pages serial first seq pkts)) \<and>
       rp_pages_through_end (last rps) = pages + length (header_pages serial first seq pkts))"
  using assms
proof (induction pkts arbitrary: pre first seq out pages)
  case Nil
  then show ?case by (subst read_packets_from.simps) simp
next
  case (Cons p pkts)
  define pg where "pg = packet_pages serial first 0 seq True p"
  define seq' where "seq' = seq + word_of_nat (length pg)"
  define hp where "hp = header_pages serial False seq' pkts"
  have hps: "header_pages serial first seq (p # pkts) = pg @ hp" by (simp add: pg_def hp_def seq'_def Let_def)
  have d: "data = pre @ concat (packet_pages serial first 0 seq True p) @ (concat hp @ rest)"
    using Cons.prems(1) by (simp only: hps pg_def concat_append append_assoc)
  have d2: "data = (pre @ concat pg) @ concat (header_pages serial False seq' pkts) @ rest"
    using d by (simp add: pg_def hp_def)
  let ?rp = "\<lparr> rp_data = p, rp_end_offset = length pre + length (concat pg), rp_pages_through_end = pages + length pg \<rparr>"
  have lt: "length out < want" using Cons.prems(2) by simp
  have r: "read_packets_from data want (length pre) pages [] out =
      read_packets_from data want (length (pre @ concat pg)) (pages + length pg) [] (out @ [?rp])"
    using read_pages[OF _ lt d, of pages "[]"] by (simp flip: pg_def)
  obtain rps where i: "read_packets_from data want (length (pre @ concat pg)) (pages + length pg) [] (out @ [?rp]) = Inr ((out @ [?rp]) @ rps)"
    "map rp_data rps = pkts"
    "pkts \<noteq> [] \<longrightarrow> rp_end_offset (last rps) = length (pre @ concat pg) + length (concat hp) \<and>
       rp_pages_through_end (last rps) = (pages + length pg) + length hp"
    using Cons.IH[OF d2, of "out @ [?rp]" "pages + length pg"] Cons.prems(2) unfolding hp_def by auto
  have hp0: "pkts = [] \<Longrightarrow> hp = []" by (simp add: hp_def)
  have l: "rp_end_offset (last (?rp # rps)) = length pre + length (concat (pg @ hp)) \<and>
      rp_pages_through_end (last (?rp # rps)) = pages + length (pg @ hp)"
  proof (cases "pkts = []")
    case True
    then show ?thesis using hp0 i(2) by simp
  next
    case False
    then have "rps \<noteq> []" using i(2) by auto
    then show ?thesis using i(3) False by simp
  qed
  have e: "read_packets_from data want (length pre) pages [] out = Inr (out @ (?rp # rps))" using r i(1) by simp
  have m: "map rp_data (?rp # rps) = p # pkts" using i(2) by simp
  show ?case unfolding hps
    by (rule exI[of _ "?rp # rps"]) (intro conjI impI e m conjunct1[OF l] conjunct2[OF l])
qed

subsection \<open>Header packets round trip, and every page is sealed\<close>

text \<open>Header packets laced onto fresh pages are reassembled byte for byte by the packet reader,
  whatever follows them, and the reader reports the end of the last header page.\<close>

theorem build_header_roundtrip:
  "\<exists>rps. read_packets (fst (build_header serial packets) @ rest) (length packets) = Inr rps \<and>
     map rp_data rps = packets \<and>
     (packets \<noteq> [] \<longrightarrow> rp_end_offset (last rps) = length (fst (build_header serial packets)) \<and>
        word_of_nat (rp_pages_through_end (last rps)) = snd (build_header serial packets))"
  using read_header_pages[of "fst (build_header serial packets) @ rest" "[]" serial True 0 packets rest "[]" "length packets" 0]
  by (auto simp: build_header_def build_header_from_pages read_packets_def)

lemma build_header_roundtrip_witness:
  "\<exists>rps. read_packets (fst (build_header 1 [[1, 2], []]) @ [0]) 2 = Inr rps \<and> map rp_data rps = [[1, 2], []] \<and>
    rp_end_offset (last rps) = length (fst (build_header 1 [[1, 2], []]))"
proof -
  have two: "length [[1, 2 :: byte], []] = 2" by simp
  show ?thesis
    by (rule exE[OF build_header_roundtrip[of 1 "[[1, 2], []]" "[0]", unfolded two]])
      (elim conjE, intro exI conjI, assumption, assumption, erule impE, rule list.distinct(2), elim conjE, assumption)
qed

text \<open>Lacing a packet emits only whole pages that each verify, with sequence numbers counting up
  from the start number and the requested serial and granule, and returns the number of pages.\<close>

theorem lace_packet_pages_sealed:
  assumes "g < 2 ^ 64" "lace_packet serial seq bos g packet = (out, used)"
  shows "\<exists>ps. out = concat ps \<and> used = word_of_nat (length ps) \<and> ps \<noteq> [] \<and>
    (\<forall>i<length ps. verify_page_crc (ps ! i) = Inr True \<and>
       (\<exists>h. parse_page (ps ! i) 0 = Inr h \<and> page_total_len h = length (ps ! i) \<and>
            ph_seq h = seq + word_of_nat i \<and> ph_serial h = serial \<and> ph_granule h = g))"
proof -
  let ?ps = "packet_pages serial bos g seq True packet"
  have "verify_page_crc (?ps ! i) = Inr True \<and>
       (\<exists>h. parse_page (?ps ! i) 0 = Inr h \<and> page_total_len h = length (?ps ! i) \<and>
            ph_seq h = seq + word_of_nat i \<and> ph_serial h = serial \<and> ph_granule h = g)" if i: "i < length ?ps" for i
  proof -
    obtain table pl ht where t: "?ps ! i = sealed_page ht g serial (seq + word_of_nat i) table pl"
        "length table < 256" "sum_bytes table = length pl"
      using packet_pages_nth[OF assms(1) i] by blast
    show ?thesis using sealed_page_verifies[OF t(2) assms(1) t(3), of ht serial "seq + word_of_nat i" "[]"]
        parse_mk_page0[OF t(2) assms(1), of ht serial "seq + word_of_nat i" _ pl "[]"] t
      by (simp add: sealed_page_def mk_page_length page_total_len_def)
  qed
  moreover have "out = concat ?ps" "used = word_of_nat (length ?ps)"
    using assms(2) by (simp_all add: lace_packet_pages Let_def)
  ultimately show ?thesis using packet_pages_nonempty by blast
qed

lemma lace_packet_pages_sealed_witness:
  "\<exists>ps. fst (lace_packet 1 4 True 0 [1, 2, 3]) = concat ps \<and> ps \<noteq> [] \<and> verify_page_crc (ps ! 0) = Inr True"
proof -
  have e: "lace_packet 1 4 True 0 [1, 2, 3] = (fst (lace_packet 1 4 True 0 [1, 2, 3]), snd (lace_packet 1 4 True 0 [1, 2, 3]))"
    by simp
  show ?thesis using lace_packet_pages_sealed[OF _ e] by fastforce
qed

end
