(* ===== verification/Page_Chunks.thy ===== *)
theory Page_Chunks
  imports Lacing
begin

text \<open>
  Chunk-aware lacing, musefs-format/src/ogg/page.rs: a packet given as literal bytes and art
  runs is laced into layout segments; art bytes are read from an art source to seal the page
  checksums and never stored. The locale art_store is the contract of the ArtSource
  trait; under it the segments render to the pages of the assembled packet.
\<close>

subsection \<open>Chunk-aware lacing\<close>

type_synonym art_source = "int \<Rightarrow> nat \<Rightarrow> nat \<Rightarrow> bytes fresult"

datatype payload_chunk = Bytes bytes | Art int bool nat

fun chunk_out_len :: "payload_chunk \<Rightarrow> nat option" where
  "chunk_out_len (Bytes b) = Some (length b)"
| "chunk_out_len (Art art_id base64 art_total) = (if base64 then b64_len art_total else Some art_total)"

definition out_len :: "payload_chunk \<Rightarrow> nat" where
  "out_len c = the (chunk_out_len c)"

definition crc_feed_art ::
  "(bytes \<Rightarrow> bytes) \<Rightarrow> art_source \<Rightarrow> crc \<Rightarrow> int \<Rightarrow> bool \<Rightarrow> nat \<Rightarrow> nat \<Rightarrow> nat \<Rightarrow> crc fresult" where
  "crc_feed_art enc src crc art_id base64 art_total out_off n =
     (if base64 then
        let w = b64_window out_off n art_total
        in rbind (src art_id (w_in_start w) (w_in_len w)) (\<lambda>raw.
           rbind (ok_or (encode_b64_slice enc raw (w_skip w) n) (ArtRead art_id)) (\<lambda>e.
           Inr (crc32_update crc e)))
      else rbind (src art_id out_off n) (\<lambda>raw. Inr (crc32_update crc raw)))"

fun crc_feed_from ::
  "(bytes \<Rightarrow> bytes) \<Rightarrow> art_source \<Rightarrow> nat \<Rightarrow> nat \<Rightarrow> crc \<Rightarrow> nat \<Rightarrow> payload_chunk list \<Rightarrow> crc fresult" where
  "crc_feed_from enc src p0 e crc cs [] = Inr crc"
| "crc_feed_from enc src p0 e crc cs (c # chunks) =
     (let ce = cs + out_len c; os = max p0 cs; oe = min e ce
      in rbind (if os < oe then
                  (case c of
                     Bytes b \<Rightarrow> Inr (crc32_update crc (slice b (os - cs) (oe - os)))
                   | Art art_id base64 art_total \<Rightarrow> crc_feed_art enc src crc art_id base64 art_total (os - cs) (oe - os))
                else Inr crc) (\<lambda>crc. crc_feed_from enc src p0 e crc ce chunks))"

definition crc_feed_payload ::
  "(bytes \<Rightarrow> bytes) \<Rightarrow> art_source \<Rightarrow> crc \<Rightarrow> payload_chunk list \<Rightarrow> nat \<Rightarrow> nat \<Rightarrow> crc fresult" where
  "crc_feed_payload enc src crc chunks p0 plen = crc_feed_from enc src p0 (p0 + plen) crc 0 chunks"

fun emit_from :: "nat \<Rightarrow> nat \<Rightarrow> segment list \<Rightarrow> bytes \<Rightarrow> nat \<Rightarrow> payload_chunk list \<Rightarrow> segment list" where
  "emit_from p0 e segments buf cs [] = flush_inline buf segments"
| "emit_from p0 e segments buf cs (c # chunks) =
     (let ce = cs + out_len c; os = max p0 cs; oe = min e ce
      in if os < oe then
           (case c of
              Bytes b \<Rightarrow> emit_from p0 e segments (buf @ slice b (os - cs) (oe - os)) ce chunks
            | Art art_id base64 art_total \<Rightarrow>
                emit_from p0 e
                  (flush_inline buf segments @ [OggArtSlice art_id (os - cs) (oe - os) base64 art_total]) [] ce chunks)
         else emit_from p0 e segments buf ce chunks)"

definition emit_segments :: "segment list \<Rightarrow> bytes \<Rightarrow> payload_chunk list \<Rightarrow> nat \<Rightarrow> nat \<Rightarrow> segment list" where
  "emit_segments segments header chunks p0 plen = emit_from p0 (p0 + plen) segments header 0 chunks"

function lace_chunk_loop ::
  "(bytes \<Rightarrow> bytes) \<Rightarrow> art_source \<Rightarrow> crc \<Rightarrow> bool \<Rightarrow> payload_chunk list \<Rightarrow> bytes \<Rightarrow> segment list \<Rightarrow> crc \<Rightarrow>
   nat \<Rightarrow> nat \<Rightarrow> bool \<Rightarrow> (segment list \<times> crc) fresult" where
  "lace_chunk_loop enc src serial bos chunks laces segments seq lace_pos payload_pos first =
     (if first \<or> lace_pos < length laces then
        let seg_count = min (length laces - lace_pos) 255;
            table = slice laces lace_pos seg_count;
            page_payload = sum_bytes table;
            header = page_header_bytes (page_flags bos first) 0 serial seq table
        in rbind (crc_feed_payload enc src (crc32_update 0 header) chunks payload_pos page_payload) (\<lambda>crc.
           lace_chunk_loop enc src serial bos chunks laces
             (emit_segments segments (patch_at header 22 (le32 crc)) chunks payload_pos page_payload)
             (seq + 1) (lace_pos + seg_count) (payload_pos + page_payload) False)
      else Inr (segments, seq))"
  by auto
termination
  by (relation "measure (\<lambda>(_, _, _, _, _, laces, _, _, lace_pos, _, first).
        (if first then 1 else 0) + (length laces - lace_pos))") auto

declare lace_chunk_loop.simps [simp del]

text \<open>None is the panic of sizing the chunks: a base64 length, or their sum, overflows u64.\<close>

definition chunk_sizes_fit :: "payload_chunk list \<Rightarrow> bool" where
  "chunk_sizes_fit chunks \<longleftrightarrow>
     list_all (\<lambda>c. chunk_out_len c \<noteq> None) chunks \<and> sum_list (map out_len chunks) \<le> u64_max"

definition lace_chunks_to_segments ::
  "(bytes \<Rightarrow> bytes) \<Rightarrow> art_source \<Rightarrow> crc \<Rightarrow> crc \<Rightarrow> bool \<Rightarrow> payload_chunk list \<Rightarrow> (segment list \<times> crc) fresult option" where
  "lace_chunks_to_segments enc src serial seq_start bos chunks =
     (if \<not> chunk_sizes_fit chunks then None
      else let laces = lacing_values (sum_list (map out_len chunks))
           in Some (rbind (lace_chunk_loop enc src serial bos chunks laces [] seq_start 0 0 True) (\<lambda>(segments, seq).
              Inr (segments, seq - seq_start))))"


subsection \<open>Chunk-aware lacing agrees with lacing the assembled packet\<close>

definition window :: "nat \<Rightarrow> nat \<Rightarrow> nat \<Rightarrow> 'a list \<Rightarrow> 'a list" where
  "window p0 e cs b = take ((e - cs) - (p0 - cs)) (drop (p0 - cs) b)"

lemma window_append:
  "p0 \<le> e \<Longrightarrow> window p0 e cs (a @ b) = window p0 e cs a @ window p0 e (cs + length a) b"
  unfolding window_def drop_append take_append append_assoc
  by (rule arg_cong2[where f = append]) (auto intro!: arg_cong2[where f = take] arg_cong2[where f = drop])

lemma window_slice:
  assumes "max p0 cs < min e (cs + length b)"
  shows "window p0 e cs b = slice b (max p0 cs - cs) (min e (cs + length b) - max p0 cs)"
proof (cases "e \<le> cs + length b")
  case True
  then have "min e (cs + length b) - max p0 cs = (e - cs) - (p0 - cs)" using assms by auto
  then show ?thesis by (simp add: window_def slice_def max_def)
next
  case False
  then have "drop (p0 - cs) b = take (min e (cs + length b) - max p0 cs) (drop (p0 - cs) b)"
    by auto
  moreover have "window p0 e cs b = drop (p0 - cs) b" using False by (simp add: window_def)
  moreover have "max p0 cs - cs = p0 - cs" by simp
  ultimately show ?thesis by (simp only: slice_def)
qed

lemma window_empty: "\<not> max p0 cs < min e (cs + length b) \<Longrightarrow> window p0 e cs b = []"
  by (auto simp: window_def)

lemma window_0: "window p0 (p0 + n) 0 b = slice b p0 n"
  by (simp add: window_def slice_def)

locale art_store =
  fixes src :: art_source and art :: "int \<Rightarrow> bytes option"
  assumes read_window: "art i = Some b \<Longrightarrow> off + n \<le> length b \<Longrightarrow> src i off n = Inr (slice b off n)"

locale art_serving = base64_engine enc + art_store src art
  for enc :: "bytes \<Rightarrow> bytes" and src :: art_source and art :: "int \<Rightarrow> bytes option"

fun chunk_bytes :: "(bytes \<Rightarrow> bytes) \<Rightarrow> (int \<Rightarrow> bytes option) \<Rightarrow> payload_chunk \<Rightarrow> bytes" where
  "chunk_bytes enc art (Bytes b) = b"
| "chunk_bytes enc art (Art i base64 n) = (if base64 then enc (the (art i)) else the (art i))"

fun chunk_present :: "(int \<Rightarrow> bytes option) \<Rightarrow> payload_chunk \<Rightarrow> bool" where
  "chunk_present art (Bytes b) = True"
| "chunk_present art (Art i base64 n) = (\<exists>b. art i = Some b \<and> length b = n)"

definition good_seg :: "byte_env \<Rightarrow> segment \<Rightarrow> bool" where
  "good_seg v s \<longleftrightarrow> seg_ok s \<and> seg_present v s \<and> \<not> is_audio s"

context art_serving begin

lemma chunk_length:
  "chunk_present art c \<Longrightarrow> chunk_out_len c \<noteq> None \<Longrightarrow> out_len c = length (chunk_bytes enc art c)"
  by (cases c) (auto simp: out_len_def enc_length b64_len_def b64_len_checked_if split: if_splits)

lemma feed_art:
  assumes "chunk_present art (Art i base64 tot)" "chunk_out_len (Art i base64 tot) \<noteq> None" "0 < n"
    "off + n \<le> out_len (Art i base64 tot)"
  shows "crc_feed_art enc src crc i base64 tot off n =
    Inr (crc32_update crc (slice (chunk_bytes enc art (Art i base64 tot)) off n))"
proof -
  obtain b where b: "art i = Some b" "length b = tot" using assms(1) by auto
  have le: "off + n \<le> length (chunk_bytes enc art (Art i base64 tot))"
    using assms chunk_length[OF assms(1,2)] by simp
  show ?thesis
  proof (cases base64)
    case False
    then show ?thesis using le b by (simp add: crc_feed_art_def read_window)
  next
    case True
    define w where "w = b64_window off n tot"
    have le': "off + n \<le> length (enc b)" using le True b by simp
    have small: "length (enc b) \<le> u64_max"
      using assms(2) True b by (auto simp: enc_length b64_len_def b64_len_checked_eq)
    have e: "encode_b64_slice enc (slice b (w_in_start w) (w_in_len w)) (w_skip w) n = Some (slice (enc b) off n)"
      using window_encodes[OF assms(3) le' small, of w] b(2) by (simp add: w_def)
    have i: "w_in_start w + w_in_len w \<le> tot"
    proof -
      have "off < 4 * ((tot + 2) div 3)" using le' assms(3) b(2) by (simp add: enc_length)
      then have "off div 4 < (tot + 2) div 3" by (simp add: less_mult_imp_div_less mult.commute)
      then have "off div 4 * 3 \<le> tot" by linarith
      then show ?thesis by (simp add: w_def b64_window_def Let_def)
    qed
    show ?thesis using True b i e
      by (simp add: crc_feed_art_def read_window Let_def flip: w_def)
  qed
qed

lemma feed_from:
  assumes "p0 \<le> e" "\<forall>c\<in>set chunks. chunk_present art c \<and> chunk_out_len c \<noteq> None"
  shows "crc_feed_from enc src p0 e crc cs chunks =
    Inr (crc32_update crc (window p0 e cs (concat (map (chunk_bytes enc art) chunks))))"
  using assms(2)
proof (induction chunks arbitrary: crc cs)
  case Nil
  then show ?case by (simp add: window_def)
next
  case (Cons c chunks)
  have l: "out_len c = length (chunk_bytes enc art c)" using Cons.prems by (intro chunk_length) simp_all
  let ?os = "max p0 cs" and ?oe = "min e (cs + out_len c)"
  have head: "(if ?os < ?oe then
        (case c of Bytes b \<Rightarrow> Inr (crc32_update crc (slice b (?os - cs) (?oe - ?os)))
         | Art i b t \<Rightarrow> crc_feed_art enc src crc i b t (?os - cs) (?oe - ?os))
       else Inr crc) = Inr (crc32_update crc (window p0 e cs (chunk_bytes enc art c)))"
  proof (cases "?os < ?oe")
    case True
    then have w: "window p0 e cs (chunk_bytes enc art c) = slice (chunk_bytes enc art c) (?os - cs) (?oe - ?os)"
      unfolding l by (rule window_slice)
    show ?thesis
    proof (cases c)
      case (Art i b t)
      then show ?thesis using True w Cons.prems feed_art[of i b t "?oe - ?os" "?os - cs" crc] by simp
    qed (use True w in simp)
  next
    case False
    then have w: "window p0 e cs (chunk_bytes enc art c) = []" unfolding l by (rule window_empty)
    show ?thesis using False by (simp only: w if_False crc32_update.simps)
  qed
  have ih: "crc_feed_from enc src p0 e crc' (cs + out_len c) chunks =
      Inr (crc32_update crc' (window p0 e (cs + out_len c) (concat (map (chunk_bytes enc art) chunks))))" for crc'
    using Cons.IH Cons.prems by simp
  show ?case
    unfolding crc_feed_from.simps Let_def head rbind.simps ih
    by (simp only: list.map concat.simps window_append[OF assms(1)] crc32_update_append l)
qed


lemma emit_from_bytes:
  assumes "p0 \<le> e" "\<And>i b. art i = Some b \<Longrightarrow> env_art v i = b"
    "\<forall>c\<in>set chunks. chunk_present art c \<and> chunk_out_len c \<noteq> None"
  shows "layout_bytes enc v (emit_from p0 e segs buf cs chunks) =
    layout_bytes enc v segs @ buf @ window p0 e cs (concat (map (chunk_bytes enc art) chunks))"
  using assms(3)
proof (induction chunks arbitrary: segs buf cs)
  case Nil
  then show ?case by (simp add: window_def flush_inline_def)
next
  case (Cons c chunks)
  have l: "out_len c = length (chunk_bytes enc art c)" using Cons.prems by (intro chunk_length) simp_all
  let ?os = "max p0 cs" and ?oe = "min e (cs + out_len c)"
  note ih = Cons.IH[OF ballI]
  have eq: "window p0 e cs (concat (map (chunk_bytes enc art) (c # chunks))) =
      window p0 e cs (chunk_bytes enc art c) @ window p0 e (cs + out_len c) (concat (map (chunk_bytes enc art) chunks))"
    by (simp add: window_append[OF assms(1)] l)
  have pre: "\<And>x. x \<in> set chunks \<Longrightarrow> chunk_present art x \<and> chunk_out_len x \<noteq> None" using Cons.prems by simp
  show ?case
  proof (cases "?os < ?oe")
    case True
    then have w: "window p0 e cs (chunk_bytes enc art c) = slice (chunk_bytes enc art c) (?os - cs) (?oe - ?os)"
      unfolding l by (rule window_slice)
    show ?thesis
    proof (cases c)
      case (Bytes b)
      show ?thesis unfolding eq w using True Bytes ih[OF pre] by (simp add: Let_def)
    next
      case (Art i b64 t)
      obtain b where b: "art i = Some b" using Cons.prems Art by auto
      have "seg_bytes enc v (OggArtSlice i (?os - cs) (?oe - ?os) b64 t) =
          slice (chunk_bytes enc art c) (?os - cs) (?oe - ?os)"
        using b assms(2)[OF b] by (simp add: Art)
      note sb = this[folded w]
      show ?thesis unfolding eq sb[symmetric]
        using True Art ih[OF pre] by (simp add: Let_def flush_inline_def)
    qed
  next
    case False
    then have w: "window p0 e cs (chunk_bytes enc art c) = []" unfolding l by (rule window_empty)
    show ?thesis unfolding eq w using False ih[OF pre]
      by (simp only: emit_from.simps Let_def if_False append_Nil)
  qed
qed

lemma emit_from_good:
  assumes "\<And>i b. art i = Some b \<Longrightarrow> env_art v i = b"
    "\<forall>c\<in>set chunks. chunk_present art c \<and> chunk_out_len c \<noteq> None \<and> out_len c \<le> u64_max"
    "\<forall>s\<in>set segs. good_seg v s"
  shows "\<forall>s\<in>set (emit_from p0 e segs buf cs chunks). good_seg v s"
  using assms(2,3)
proof (induction chunks arbitrary: segs buf cs)
  case Nil
  then show ?case by (auto simp: flush_inline_def good_seg_def)
next
  case (Cons c chunks)
  let ?os = "max p0 cs" and ?oe = "min e (cs + out_len c)"
  have pre: "\<forall>x\<in>set chunks. chunk_present art x \<and> chunk_out_len x \<noteq> None \<and> out_len x \<le> u64_max"
    using Cons.prems(1) by simp
  have fl: "\<forall>s\<in>set (flush_inline buf segs). good_seg v s"
    using Cons.prems(2) by (auto simp: flush_inline_def good_seg_def)
  show ?case
  proof (cases "?os < ?oe")
    case True
    show ?thesis
    proof (cases c)
      case (Bytes b)
      then show ?thesis using True Cons.IH[OF pre Cons.prems(2)] by (simp add: Let_def)
    next
      case (Art i b64 t)
      obtain b where b: "art i = Some b" "length b = t" using Cons.prems Art by auto
      have "good_seg v (OggArtSlice i (?os - cs) (?oe - ?os) b64 t)"
        using Cons.prems(1) Art True b assms(1)[OF b(1)]
        by (auto simp: good_seg_def out_len_def b64_len_def b64_len_checked_if split: if_splits)
      then have "\<forall>s\<in>set (flush_inline buf segs @ [OggArtSlice i (?os - cs) (?oe - ?os) b64 t]). good_seg v s"
        using fl by simp
      from Cons.IH[OF pre this] show ?thesis using True Art by (simp add: Let_def)
    qed
  next
    case False
    then show ?thesis using Cons.IH[OF pre Cons.prems(2)]
      by (simp only: emit_from.simps Let_def if_False)
  qed
qed

lemma chunk_loop_simulates:
  assumes "\<And>i b. art i = Some b \<Longrightarrow> env_art v i = b"
    "\<forall>c\<in>set chunks. chunk_present art c \<and> chunk_out_len c \<noteq> None \<and> out_len c \<le> u64_max"
    "packet = concat (map (chunk_bytes enc art) chunks)"
    "\<forall>s\<in>set segs. good_seg v s"
  shows "\<exists>segs' seq'. lace_chunk_loop enc src serial bos chunks laces segs seq lace_pos pp first = Inr (segs', seq') \<and>
    (\<forall>s\<in>set segs'. good_seg v s) \<and>
    lace_loop serial bos 0 packet laces (layout_bytes enc v segs) seq lace_pos pp first = (layout_bytes enc v segs', seq')"
  using assms(4)
proof (induction "(if first then 1 else 0) + (length laces - lace_pos)" arbitrary: segs seq lace_pos pp first rule: less_induct)
  case less
  show ?case
  proof (cases "first \<or> lace_pos < length laces")
    case False
    then show ?thesis using less.prems by (subst lace_chunk_loop.simps, subst lace_loop.simps) simp
  next
    case True
    define n where "n = min (length laces - lace_pos) 255"
    define table where "table = slice laces lace_pos n"
    define plen where "plen = sum_bytes table"
    define hd where "hd = page_header_bytes (page_flags bos first) 0 serial seq table"
    define pay where "pay = slice packet pp plen"
    have pres: "\<forall>c\<in>set chunks. chunk_present art c \<and> chunk_out_len c \<noteq> None" using assms(2) by simp
    have w: "window pp (pp + plen) 0 packet = pay" by (simp add: window_0 pay_def)
    have feed: "crc_feed_payload enc src (crc32_update 0 hd) chunks pp plen = Inr (crc32 (hd @ pay))"
      using feed_from[OF _ pres, of pp "pp + plen" "crc32_update 0 hd" 0] w
      by (simp add: crc_feed_payload_def crc32_def crc32_update_append assms(3))
    define hd' where "hd' = patch_at hd 22 (le32 (crc32 (hd @ pay)))"
    define segs2 where "segs2 = emit_segments segs hd' chunks pp plen"
    have lh: "26 \<le> length hd" by (simp add: hd_def page_header_bytes_def)
    have sealed: "patch_at (hd @ pay) 22 (le32 (crc32 (hd @ pay))) = hd' @ pay"
      using lh by (simp add: hd'_def patch_at_def)
    have em: "layout_bytes enc v segs2 = layout_bytes enc v segs @ hd' @ pay"
      using emit_from_bytes[OF _ assms(1) pres, of pp "pp + plen" segs hd' 0] w
      by (simp add: segs2_def emit_segments_def assms(3))
    have gd: "\<forall>s\<in>set segs2. good_seg v s"
      unfolding segs2_def emit_segments_def by (rule emit_from_good[OF assms(1,2) less.prems])
    have dec: "(if False then 1 else 0) + (length laces - (lace_pos + n)) < (if first then 1 else 0) + (length laces - lace_pos)"
      using True by (auto simp: n_def)
    from less.hyps[OF dec gd, of "seq + 1" "pp + plen"] obtain segs' seq' where
      r: "lace_chunk_loop enc src serial bos chunks laces segs2 (seq + 1) (lace_pos + n) (pp + plen) False = Inr (segs', seq')"
        "\<forall>s\<in>set segs'. good_seg v s"
        "lace_loop serial bos 0 packet laces (layout_bytes enc v segs2) (seq + 1) (lace_pos + n) (pp + plen) False
         = (layout_bytes enc v segs', seq')" by blast
    have "lace_chunk_loop enc src serial bos chunks laces segs seq lace_pos pp first = Inr (segs', seq')"
      by (subst lace_chunk_loop.simps)
        (use True r(1) feed in \<open>simp add: Let_def hd'_def segs2_def flip: n_def table_def plen_def hd_def\<close>)
    moreover have "lace_loop serial bos 0 packet laces (layout_bytes enc v segs) seq lace_pos pp first = (layout_bytes enc v segs', seq')"
      by (subst lace_loop.simps)
        (use True r(3) in \<open>simp add: Let_def sealed em flip: n_def table_def plen_def hd_def pay_def\<close>)
    ultimately show ?thesis using r(2) by blast
  qed
qed

lemma sum_list_member_le: "x \<in> set xs \<Longrightarrow> f x \<le> sum_list (map f xs)" for f :: "'b \<Rightarrow> nat"
  by (induction xs) auto

lemma out_len_total:
  "\<forall>c\<in>set chunks. chunk_present art c \<and> chunk_out_len c \<noteq> None \<Longrightarrow>
   sum_list (map out_len chunks) = length (concat (map (chunk_bytes enc art) chunks))"
  by (induction chunks) (simp_all add: chunk_length)

lemma lace_chunks_render:
  assumes "\<And>i b. art i = Some b \<Longrightarrow> env_art v i = b"
    and fit: "chunk_sizes_fit chunks" and pr: "\<forall>c\<in>set chunks. chunk_present art c"
  shows "\<exists>segs used. lace_chunks_to_segments enc src serial seq bos chunks = Some (Inr (segs, used)) \<and>
    (\<forall>s\<in>set segs. good_seg v s) \<and>
    lace_packet serial seq bos 0 (concat (map (chunk_bytes enc art) chunks)) = (layout_bytes enc v segs, used)"
proof -
  have p: "\<forall>c\<in>set chunks. chunk_present art c \<and> chunk_out_len c \<noteq> None"
    using fit pr by (auto simp: chunk_sizes_fit_def list_all_iff)
  have p': "\<forall>c\<in>set chunks. chunk_present art c \<and> chunk_out_len c \<noteq> None \<and> out_len c \<le> u64_max"
  proof
    fix c assume c: "c \<in> set chunks"
    then have "out_len c \<le> sum_list (map out_len chunks)" by (rule sum_list_member_le)
    then show "chunk_present art c \<and> chunk_out_len c \<noteq> None \<and> out_len c \<le> u64_max"
      using p c fit by (auto simp: chunk_sizes_fit_def)
  qed
  from chunk_loop_simulates[OF assms(1) p' refl, where segs = "[]" and laces = "lacing_values (sum_list (map out_len chunks))"
      and seq = seq and lace_pos = 0 and pp = 0 and first = True and serial = serial and bos = bos]
  show ?thesis using fit out_len_total[OF p]
    by (auto simp: lace_chunks_to_segments_def lace_packet_def)
qed

end

subsection \<open>The in-memory art source\<close>

definition map_art_read :: "(int \<Rightarrow> bytes option) \<Rightarrow> art_source" where
  "map_art_read images art_id offset n =
     (case images art_id of
        None \<Rightarrow> Inl (ArtRead art_id)
      | Some img \<Rightarrow>
          rbind (ok_or (if offset \<le> length img then Some offset else None) (ArtRead art_id)) (\<lambda>start.
          rbind (ok_or (Option.bind (checked_add64 start n) (\<lambda>e. if e \<le> length img then Some e else None)) (ArtRead art_id)) (\<lambda>e.
          Inr (slice img start (e - start)))))"

definition stored_art :: "(int \<Rightarrow> bytes option) \<Rightarrow> int \<Rightarrow> bytes option" where
  "stored_art images i = (case images i of Some b \<Rightarrow> if length b \<le> u64_max then Some b else None | None \<Rightarrow> None)"

lemma map_art_read_window:
  "stored_art m i = Some b \<Longrightarrow> off + n \<le> length b \<Longrightarrow> map_art_read m i off n = Inr (slice b off n)"
  by (auto simp: stored_art_def map_art_read_def checked_add64_def split: option.splits if_splits)

interpretation map_art: art_store "map_art_read m" "stored_art m" for m
  by unfold_locales (rule map_art_read_window)

interpretation map_serving: art_serving b64_std "map_art_read m" "stored_art m" for m
  by unfold_locales

text \<open>C9: lacing a packet given as chunks, with art bytes streamed from an art source that honours the
  trait's contract, returns valid metadata segments that render to exactly the pages of the packet
  assembled in memory, checksums included, and the same number of pages.\<close>

theorem lace_chunks_equals_lace_packet:
  assumes "art_serving enc src art" "\<And>i b. art i = Some b \<Longrightarrow> env_art v i = b"
    "chunk_sizes_fit chunks" "\<forall>c\<in>set chunks. chunk_present art c"
  shows "\<exists>segs used. lace_chunks_to_segments enc src serial seq bos chunks = Some (Inr (segs, used)) \<and>
    (\<forall>s\<in>set segs. good_seg v s) \<and>
    lace_packet serial seq bos 0 (concat (map (chunk_bytes enc art) chunks)) = (layout_bytes enc v segs, used)"
  by (rule art_serving.lace_chunks_render[OF assms(1)]) (fact assms)+


definition demo_chunks :: "payload_chunk list" where
  "demo_chunks = [Bytes [1, 2], Art 4 True 5, Bytes [3], Art 4 False 5]"

definition demo_images :: "int \<Rightarrow> bytes option" where
  "demo_images i = Some [10, 20, 30, 40, 50]"

lemma lace_chunks_equals_lace_packet_witness:
  "\<exists>segs used. lace_chunks_to_segments b64_std (map_art_read demo_images) 7 1 False demo_chunks = Some (Inr (segs, used)) \<and>
    lace_packet 7 1 False 0 (concat (map (chunk_bytes b64_std (stored_art demo_images)) demo_chunks)) =
      (layout_bytes b64_std \<lparr> env_art = (\<lambda>i. [10, 20, 30, 40, 50]), env_tag = (\<lambda>i. []), env_backing = [],
                            env_ogg = (\<lambda>o1 n d. []) \<rparr> segs, used)"
proof -
  let ?v = "\<lparr> env_art = (\<lambda>i. [10, 20, 30, 40, 50]), env_tag = (\<lambda>i. []), env_backing = [],
             env_ogg = (\<lambda>o1 n d. []) \<rparr>"
  have a: "\<And>i b. stored_art demo_images i = Some b \<Longrightarrow> env_art ?v i = b"
    by (simp add: stored_art_def demo_images_def split: if_splits)
  have f: "chunk_sizes_fit demo_chunks"
    by (simp add: chunk_sizes_fit_def demo_chunks_def out_len_def b64_len_def b64_len_checked_if u64_max_def)
  have p: "\<forall>c\<in>set demo_chunks. chunk_present (stored_art demo_images) c"
    by (simp add: demo_chunks_def stored_art_def demo_images_def u64_max_def)
  show ?thesis
    using lace_chunks_equals_lace_packet[OF map_serving.art_serving_axioms a f p, of 7 1 False] by blast
qed

end
