(* ===== verification/Ogg.thy ===== *)
theory Ogg
  imports Page_Chunks Flac
begin

text \<open>
  Ogg logical bitstreams, musefs-format/src/ogg/mod.rs: the header region of Opus, Vorbis and
  OggFLAC streams, the tag and picture readers, and the regeneration of the header packets with
  embedded art. The base64 crate's encoder and decoder are the parameters enc and
  dec.
\<close>

datatype codec = Opus | OggVorbis | OggFlac

definition picture_key :: bytes where
  "picture_key = as_bytes ''METADATA_BLOCK_PICTURE=''"

definition detect_codec :: "bytes \<Rightarrow> codec fresult" where
  "detect_codec p =
     (if 8 \<le> length p \<and> slice p 0 8 = as_bytes ''OpusHead'' then Inr Opus
      else if 7 \<le> length p \<and> slice p 0 7 = 1 # as_bytes ''vorbis'' then Inr OggVorbis
      else if 5 \<le> length p \<and> slice p 0 5 = 0x7F # as_bytes ''FLAC'' then Inr OggFlac
      else Inl Malformed)"

definition oggflac_following_packets :: "bytes \<Rightarrow> nat fresult" where
  "oggflac_following_packets p =
     (if length p < 9 then Inl Malformed else Inr (be_val [p ! 7, p ! 8]))"

record ogg_header =
  oh_codec :: codec
  oh_serial :: crc
  oh_packets :: "bytes list"
  oh_header_pages :: nat
  oh_audio_offset :: nat

function validate_pages :: "bytes \<Rightarrow> nat \<Rightarrow> crc \<Rightarrow> nat \<Rightarrow> bool \<Rightarrow> unit fresult" where
  "validate_pages data audio_offset serial pos first =
     (if pos < audio_offset then
        rbind (parse_page data pos) (\<lambda>h.
          if ph_serial h \<noteq> serial then Inl Malformed
          else if \<not> first \<and> ph_header_type h AND flag_bos \<noteq> 0 then Inl Malformed
          else validate_pages data audio_offset serial (pos + page_total_len h) False)
      else Inr ())"
  by auto
termination
  by (relation "measure (\<lambda>(data, ao, _, pos, _). ao - pos)")
    (auto simp: page_total_len_def dest!: parse_page_bounds)

declare validate_pages.simps [simp del]

definition validate_single_bitstream :: "bytes \<Rightarrow> nat \<Rightarrow> crc \<Rightarrow> unit fresult" where
  "validate_single_bitstream data audio_offset serial = validate_pages data audio_offset serial 0 True"

definition wanted_packets :: "codec \<Rightarrow> bytes \<Rightarrow> nat fresult" where
  "wanted_packets codec first_pkt =
     (case codec of
        Opus \<Rightarrow> Inr 2
      | OggVorbis \<Rightarrow> Inr 3
      | OggFlac \<Rightarrow> rbind (oggflac_following_packets first_pkt) (\<lambda>n. Inr (1 + n)))"

definition read_header :: "bytes \<Rightarrow> ogg_header fresult" where
  "read_header data =
     rbind (parse_page data 0) (\<lambda>first_page.
     rbind (read_packets data 1) (\<lambda>first.
     rbind (ok_or (get_at first 0) Malformed) (\<lambda>first_pkt.
     rbind (detect_codec (rp_data first_pkt)) (\<lambda>codec.
     rbind (wanted_packets codec (rp_data first_pkt)) (\<lambda>want.
     rbind (read_packets data want) (\<lambda>pkts.
     if length pkts \<noteq> want then Inl Malformed
     else let lst = List.last pkts;
              audio_offset = rp_end_offset lst
          in rbind (validate_single_bitstream data audio_offset (ph_serial first_page)) (\<lambda>_.
             Inr \<lparr> oh_codec = codec, oh_serial = ph_serial first_page, oh_packets = map rp_data pkts,
                   oh_header_pages = rp_pages_through_end lst, oh_audio_offset = audio_offset \<rparr>)))))))"

definition comment_prefix_len :: "codec \<Rightarrow> nat" where
  "comment_prefix_len codec = (case codec of Opus \<Rightarrow> 8 | OggVorbis \<Rightarrow> 7 | OggFlac \<Rightarrow> 4)"

definition comment_body :: "codec \<Rightarrow> bytes \<Rightarrow> bytes fresult" where
  "comment_body codec packet =
     (let prefix = comment_prefix_len codec
      in if length packet < prefix then Inl Malformed else Inr (drop prefix packet))"

fun find_index_from :: "('a \<Rightarrow> bool) \<Rightarrow> nat \<Rightarrow> 'a list \<Rightarrow> nat option" where
  "find_index_from P i [] = None"
| "find_index_from P i (x # xs) = (if P x then Some i else find_index_from P (i + 1) xs)"

definition is_block_packet :: "byte \<Rightarrow> bytes \<Rightarrow> bool" where
  "is_block_packet t p = (p \<noteq> [] \<and> p ! 0 AND 0x7F = t)"

definition comment_packet_index :: "ogg_header \<Rightarrow> nat" where
  "comment_packet_index header =
     (case oh_codec header of
        OggFlac \<Rightarrow> (case find_index_from (is_block_packet 4) 1 (drop 1 (oh_packets header)) of Some i \<Rightarrow> i | None \<Rightarrow> 0)
      | _ \<Rightarrow> 1)"

definition picture_field :: "string \<Rightarrow> bool" where
  "picture_field field = eq_ignore_ascii_case field ''METADATA_BLOCK_PICTURE''"

definition ogg_read_tags :: "bytes \<Rightarrow> (string \<times> string) list fresult" where
  "ogg_read_tags data =
     rbind (read_header data) (\<lambda>header.
     let idx = comment_packet_index header
     in if idx = 0 then Inr []
        else rbind (comment_body (oh_codec header) (oh_packets header ! idx)) (\<lambda>body.
             rbind (vorbis_parse body) (\<lambda>tags.
             Inr (filter (\<lambda>(field, _). \<not> picture_field field) tags))))"

record picture_drop =
  pd_reason :: string
  pd_bytes :: nat

definition is_ascii_whitespace :: "byte \<Rightarrow> bool" where
  "is_ascii_whitespace b = (b \<in> {0x20, 0x09, 0x0A, 0x0C, 0x0D})"

definition decode_picture_base64 :: "(bytes \<Rightarrow> bytes option) \<Rightarrow> string \<Rightarrow> bytes option" where
  "decode_picture_base64 dec value =
     (if list_ex is_ascii_whitespace (as_bytes value)
      then dec (filter (\<lambda>b. \<not> is_ascii_whitespace b) (as_bytes value))
      else dec (as_bytes value))"

fun comment_pictures ::
  "(bytes \<Rightarrow> bytes option) \<Rightarrow> (string \<times> string) list \<Rightarrow> embedded_picture list \<Rightarrow> picture_drop list \<Rightarrow>
   embedded_picture list \<times> picture_drop list" where
  "comment_pictures dec [] out dropped = (out, dropped)"
| "comment_pictures dec ((field, value) # cs) out dropped =
     (if \<not> picture_field field then comment_pictures dec cs out dropped
      else case decode_picture_base64 dec value of
        None \<Rightarrow> comment_pictures dec cs out
                  (dropped @ [\<lparr> pd_reason = ''undecodable base64'', pd_bytes = length value \<rparr>])
      | Some raw \<Rightarrow>
          (case parse_picture_block raw of
             Inr pic \<Rightarrow> comment_pictures dec cs (out @ [pic]) dropped
           | Inl e \<Rightarrow> comment_pictures dec cs out
                        (dropped @ [\<lparr> pd_reason = ''malformed PICTURE block'', pd_bytes = length raw \<rparr>])))"

fun packet_pictures ::
  "bytes list \<Rightarrow> embedded_picture list \<Rightarrow> picture_drop list \<Rightarrow> embedded_picture list \<times> picture_drop list" where
  "packet_pictures [] out dropped = (out, dropped)"
| "packet_pictures (pkt # pkts) out dropped =
     (if pkt = [] \<or> pkt ! 0 AND 0x7F \<noteq> 6 then packet_pictures pkts out dropped
      else case get_slice pkt 4 (length pkt) of
        None \<Rightarrow> packet_pictures pkts out
                  (dropped @ [\<lparr> pd_reason = ''truncated PICTURE block header'', pd_bytes = length pkt \<rparr>])
      | Some body \<Rightarrow>
          (case parse_picture_block body of
             Inr pic \<Rightarrow> packet_pictures pkts (out @ [pic]) dropped
           | Inl e \<Rightarrow> packet_pictures pkts out
                        (dropped @ [\<lparr> pd_reason = ''malformed PICTURE block'', pd_bytes = length body \<rparr>])))"

definition ogg_read_pictures_reporting ::
  "(bytes \<Rightarrow> bytes option) \<Rightarrow> bytes \<Rightarrow> (embedded_picture list \<times> picture_drop list) fresult" where
  "ogg_read_pictures_reporting dec data =
     rbind (read_header data) (\<lambda>header.
       if oh_codec header = OggFlac then Inr (packet_pictures (drop 1 (oh_packets header)) [] [])
       else let idx = comment_packet_index header
            in if idx = 0 then Inr ([], [])
               else rbind (comment_body (oh_codec header) (oh_packets header ! idx)) (\<lambda>body.
                    rbind (vorbis_parse body) (\<lambda>cs. Inr (comment_pictures dec cs [] []))))"

definition ogg_read_pictures :: "(bytes \<Rightarrow> bytes option) \<Rightarrow> bytes \<Rightarrow> embedded_picture list fresult" where
  "ogg_read_pictures dec data = rbind (ogg_read_pictures_reporting dec data) (\<lambda>r. Inr (fst r))"

record ogg_scan =
  os_codec :: codec
  os_audio_offset :: nat
  os_audio_length :: nat

definition ogg_locate_audio :: "bytes \<Rightarrow> ogg_scan fresult" where
  "ogg_locate_audio data =
     rbind (read_header data) (\<lambda>header.
       if oh_audio_offset header > length data then Inl Malformed
       else Inr \<lparr> os_codec = oh_codec header, os_audio_offset = oh_audio_offset header,
                  os_audio_length = length data - oh_audio_offset header \<rparr>)"

definition ogg_read_metadata_bounded :: "bytes \<Rightarrow> nat \<Rightarrow> ogg_header extent fresult" where
  "ogg_read_metadata_bounded prefix file_len =
     (case read_header prefix of
        Inr header \<Rightarrow> Inr (Complete header)
      | Inl e \<Rightarrow>
          if length prefix < file_len then
            let grown = max (min (length prefix * 2) u64_max) (64 * 1024)
            in Inr (NeedMore (min grown file_len))
          else Inl e)"

end
