(* ===== verification/Ogg_Synth.thy ===== *)
theory Ogg_Synth
  imports Ogg
begin

text \<open>
  Regeneration of the Ogg header packets, musefs-format/src/ogg/mod.rs: the picture prefix padded
  to whole base64 groups, the comment packet and the OggFLAC block packets as chunk lists, and
  the region layout. The outer option is a panic of the code (an index out of range, or a size
  that does not fit); its absence is part of what the lemmas show.
\<close>

definition picture_prefix :: "art_input \<Rightarrow> bytes fresult" where
  "picture_prefix art =
     (let base = 32 + length (ai_mime art) + length (ai_description art);
          pad = (3 - base mod 3) mod 3;
          description = ai_description art @ replicate pad (CHR '' '')
      in picture_body_framing art description)"

fun check_art_sizes :: "art_input list \<Rightarrow> unit fresult" where
  "check_art_sizes [] = Inr ()"
| "check_art_sizes (a # arts) =
     rbind (picture_prefix a) (\<lambda>prefix.
     rbind (ok_or (b64_len_checked (length prefix)) TooLarge) (\<lambda>b64_prefix_len.
     rbind (ok_or (b64_len_checked (ai_data_len a)) TooLarge) (\<lambda>b64_image_len.
     rbind (checked_sum [length picture_key, b64_prefix_len, b64_image_len]) (\<lambda>value_len.
     if value_len > u32_max then Inl TooLarge else check_art_sizes arts))))"

fun push_art_comments ::
  "(bytes \<Rightarrow> bytes) \<Rightarrow> bytes \<Rightarrow> payload_chunk list \<Rightarrow> art_input list \<Rightarrow> (bytes \<times> payload_chunk list) fresult" where
  "push_art_comments enc head chunks [] = Inr (head, chunks)"
| "push_art_comments enc head chunks (a # arts) =
     rbind (picture_prefix a) (\<lambda>prefix.
     let b64_prefix = enc prefix
     in rbind (ok_or (b64_len_checked (ai_data_len a)) TooLarge) (\<lambda>b64_image_len.
        rbind (checked_sum [length picture_key, length b64_prefix, b64_image_len]) (\<lambda>value_len.
        rbind (u32_or_too_large value_len) (\<lambda>n.
        push_art_comments enc []
          (chunks @ [Bytes (head @ le_bytes 4 n @ picture_key @ b64_prefix)] @
             [Art (ai_art_id a) True (ai_data_len a)]) arts))))"

definition comment_packet_chunks ::
  "(bytes \<Rightarrow> bytes) \<Rightarrow> bytes \<Rightarrow> tag_input list \<Rightarrow> art_input list \<Rightarrow> bool \<Rightarrow> payload_chunk list fresult" where
  "comment_packet_chunks enc magic tags arts framing_bit =
     rbind (vorbis_build tags) (\<lambda>text_body.
     let vendor_len = le_val (slice text_body 0 4);
         count_pos = 4 + vendor_len;
         text_count = le_val (slice text_body count_pos 4)
     in rbind (u32_or_too_large (length arts)) (\<lambda>n.
        let new_count = (text_count + n) mod 2 ^ 32;
            leading = patch_at text_body count_pos (le_bytes 4 new_count)
        in rbind (push_art_comments enc (magic @ leading) [] arts) (\<lambda>(head, chunks).
           let head = (if framing_bit then head @ [0x01] else head)
           in Inr (if head \<noteq> [] then chunks @ [Bytes head] else chunks))))"

definition is_structural_packet :: "bytes \<Rightarrow> bool" where
  "is_structural_packet pkt = (pkt \<noteq> [] \<and> pkt ! 0 AND 0x7F \<in> {2, 3, 5})"

fun push_picture_packets ::
  "payload_chunk list list \<Rightarrow> art_input list \<Rightarrow> payload_chunk list list fresult" where
  "push_picture_packets packets [] = Inr packets"
| "push_picture_packets packets (a # arts) =
     rbind (picture_prefix a) (\<lambda>prefix.
     rbind (checked_add (length prefix) (ai_data_len a)) (\<lambda>body_len.
     if body_len > max_block_body then Inl TooLarge
     else rbind (push_block_header [] 6 body_len False) (\<lambda>blk.
          push_picture_packets
            (packets @ [[Bytes (blk @ prefix), Art (ai_art_id a) False (ai_data_len a)]]) arts)))"

fun set_last_flags :: "nat \<Rightarrow> nat \<Rightarrow> payload_chunk list list \<Rightarrow> payload_chunk list list" where
  "set_last_flags i n [] = []"
| "set_last_flags i n (bp # bps) =
     (case bp of
        Bytes (b # bs) # r \<Rightarrow> (Bytes ((if i + 1 = n then b OR 0x80 else b AND 0x7F) # bs)) # r
      | _ \<Rightarrow> bp) # set_last_flags (i + 1) n bps"

definition oggflac_packets_with_art ::
  "ogg_header \<Rightarrow> tag_input list \<Rightarrow> art_input list \<Rightarrow> payload_chunk list list fresult" where
  "oggflac_packets_with_art header tags arts =
     (if oh_packets header = [] then Inl Malformed
      else
        let structural = filter is_structural_packet (drop 1 (oh_packets header))
        in rbind (vorbis_build tags) (\<lambda>vc.
           if length vc > max_block_body then Inl TooLarge
           else rbind (push_block_header [] 4 (length vc) False) (\<lambda>hdr.
           let comment = hdr @ vc;
               following_count = length structural + 1 + length arts
           in rbind (if following_count < 2 ^ 16 then Inr following_count else Inl TooLarge) (\<lambda>count.
              rbind (push_picture_packets (map (\<lambda>s. [Bytes s]) structural @ [[Bytes comment]]) arts) (\<lambda>block_packets.
              let block_packets = set_last_flags 0 (length block_packets) block_packets;
                  mapping = oh_packets header ! 0
              in if length mapping < 9 then Inl Malformed
                 else let mapping = patch_at mapping 7 (be_bytes 2 count)
                      in Inr ([Bytes mapping] # block_packets))))))"

definition packet_bytes :: "ogg_header \<Rightarrow> nat \<Rightarrow> payload_chunk list option" where
  "packet_bytes header i = map_option (\<lambda>p. [Bytes p]) (get_at (oh_packets header) i)"

definition build_packets_with_art ::
  "(bytes \<Rightarrow> bytes) \<Rightarrow> ogg_header \<Rightarrow> tag_input list \<Rightarrow> art_input list \<Rightarrow> payload_chunk list list fresult option" where
  "build_packets_with_art enc header tags arts =
     (case oh_codec header of
        OggFlac \<Rightarrow> Some (oggflac_packets_with_art header tags arts)
      | Opus \<Rightarrow>
          pbind (Some (check_art_sizes arts)) (\<lambda>_.
          case packet_bytes header 0 of None \<Rightarrow> None
          | Some p0 \<Rightarrow> Some (rbind (comment_packet_chunks enc (as_bytes ''OpusTags'') tags arts False) (\<lambda>c. Inr [p0, c])))
      | OggVorbis \<Rightarrow>
          pbind (Some (check_art_sizes arts)) (\<lambda>_.
          case packet_bytes header 0 of None \<Rightarrow> None
          | Some p0 \<Rightarrow>
              pbind (Some (comment_packet_chunks enc (3 # as_bytes ''vorbis'') tags arts True)) (\<lambda>c.
              case packet_bytes header 2 of None \<Rightarrow> None | Some p2 \<Rightarrow> Some (Inr [p0, c, p2]))))"

fun lace_all ::
  "(bytes \<Rightarrow> bytes) \<Rightarrow> art_source \<Rightarrow> crc \<Rightarrow> bool \<Rightarrow> segment list \<Rightarrow> crc \<Rightarrow> payload_chunk list list \<Rightarrow>
   (segment list \<times> crc) fresult option" where
  "lace_all enc src serial first segments seq [] = Some (Inr (segments, seq))"
| "lace_all enc src serial first segments seq (chunks # rest) =
     pbind (lace_chunks_to_segments enc src serial seq first chunks) (\<lambda>(segs, used).
     lace_all enc src serial False (segments @ segs) (seq + used) rest)"

definition ogg_synthesize_layout ::
  "(bytes \<Rightarrow> bytes) \<Rightarrow> art_source \<Rightarrow> ogg_header \<Rightarrow> nat \<Rightarrow> nat \<Rightarrow> tag_input list \<Rightarrow> art_input list \<Rightarrow>
   region_layout fresult option" where
  "ogg_synthesize_layout enc src header audio_offset audio_length tags arts =
     pbind (build_packets_with_art enc header tags arts) (\<lambda>packet_chunks.
     pbind (lace_all enc src (oh_serial header) True [] 0 packet_chunks) (\<lambda>(segments, seq).
     let seq_delta = uint seq - int (oh_header_pages header)
     in Some (map_err InvalidLayout (validated (segments @ [OggAudio audio_offset audio_length seq_delta])))))"

subsection \<open>The header region of the rendered file\<close>

definition rendered_packets ::
  "(bytes \<Rightarrow> bytes) \<Rightarrow> (int \<Rightarrow> bytes option) \<Rightarrow> payload_chunk list list \<Rightarrow> bytes list" where
  "rendered_packets enc art pcs = map (\<lambda>cs. concat (map (chunk_bytes enc art) cs)) pcs"

lemma page_flags_bos: "page_flags bos first AND flag_bos \<noteq> 0 \<longleftrightarrow> bos \<and> first"
  by (cases bos; cases first) (simp_all add: page_flags_def flag_bos_def flag_continued_def)

lemma sealed_page_parse:
  assumes "length table < 256" "g < 2 ^ 64" "sum_bytes table = length payload"
    and d: "data = pre @ sealed_page ht g serial seq table payload @ rest"
  shows "\<exists>h. parse_page data (length pre) = Inr h \<and> ph_serial h = serial \<and> ph_header_type h = ht \<and>
    page_total_len h = length (sealed_page ht g serial seq table payload)"
  unfolding d sealed_page_def parse_mk_page[OF assms(1,2)]
  using assms(3) by (simp add: page_total_len_def mk_page_length)

lemma validate_packet_pages:
  assumes "g < 2 ^ 64" "data = pre @ concat (packet_pages serial bos g seq f payload) @ rest"
    "length pre + length (concat (packet_pages serial bos g seq f payload)) \<le> ao"
    "bos \<and> f \<Longrightarrow> first"
  shows "validate_pages data ao serial (length pre) first =
    validate_pages data ao serial (length pre + length (concat (packet_pages serial bos g seq f payload))) False"
  using assms
proof (induction serial bos g seq f payload arbitrary: pre first rule: packet_pages.induct)
  case (1 serial bos g seq f payload)
  obtain table pl ps where p: "packet_pages serial bos g seq f payload = sealed_page (page_flags bos f) g serial seq table pl # ps"
    "length table < 256" "sum_bytes table = length pl"
    "ps = [] \<or> \<not> length payload < 65025 \<and> ps = packet_pages serial bos g (seq + 1) False (drop 65025 payload)"
  proof (cases "length payload < 65025")
    case True
    then have "length payload div 255 < 255" by (simp add: less_mult_imp_div_less)
    then have "length (lacing_values (length payload)) < 256" by (simp add: lacing_length)
    then show ?thesis using True
      by (intro that[of "lacing_values (length payload)" payload "[]"]) (simp_all add: lacing_sum packet_pages.simps)
  next
    case False
    then show ?thesis
      by (intro that[of "replicate 255 255" "take 65025 payload"
            "packet_pages serial bos g (seq + 1) False (drop 65025 payload)"])
        (simp_all add: packet_pages.simps[of serial bos g seq f payload])
  qed
  define pg where "pg = sealed_page (page_flags bos f) g serial seq table pl"
  have d: "data = pre @ pg @ (concat ps @ rest)" using "1.prems"(2) by (simp add: p(1) pg_def)
  obtain h where h: "parse_page data (length pre) = Inr h" "ph_serial h = serial"
      "ph_header_type h = page_flags bos f" "page_total_len h = length pg"
    using sealed_page_parse[OF p(2) "1.prems"(1) p(3) d[unfolded pg_def]] unfolding pg_def by blast
  have pos: "0 < length pg" by (simp add: pg_def sealed_page_def mk_page_length)
  have lt: "length pre < ao" using "1.prems"(3) pos unfolding p(1) pg_def[symmetric] concat.simps length_append by linarith
  have step: "validate_pages data ao serial (length pre) first = validate_pages data ao serial (length (pre @ pg)) False"
    using h lt "1.prems"(4) page_flags_bos[of bos f] by (subst validate_pages.simps) auto
  show ?case
  proof (cases "ps = []")
    case True
    then show ?thesis using step by (simp add: p(1) flip: pg_def)
  next
    case False
    then have nl: "\<not> length payload < 65025" and ps: "ps = packet_pages serial bos g (seq + 1) False (drop 65025 payload)"
      using p(4) by auto
    have "validate_pages data ao serial (length (pre @ pg)) False =
        validate_pages data ao serial (length (pre @ pg) + length (concat ps)) False"
      unfolding ps using "1.prems"(1,2,3) d
      by (intro "1.IH"[OF nl]) (simp_all add: p(1) flip: pg_def ps)
    then show ?thesis using step by (simp add: p(1) add.assoc flip: pg_def)
  qed
qed

lemma validate_header_pages:
  assumes "data = pre @ concat (header_pages serial first seq pkts) @ rest"
    "length pre + length (concat (header_pages serial first seq pkts)) = ao" "first \<longrightarrow> ff"
  shows "validate_pages data ao serial (length pre) ff = Inr ()"
  using assms
proof (induction pkts arbitrary: pre first seq ff)
  case Nil
  then show ?case by (subst validate_pages.simps) simp
next
  case (Cons p pkts)
  define pg where "pg = packet_pages serial first 0 seq True p"
  define hp where "hp = header_pages serial False (seq + word_of_nat (length pg)) pkts"
  have hps: "header_pages serial first seq (p # pkts) = pg @ hp" by (simp add: pg_def hp_def Let_def)
  have d: "data = pre @ concat (packet_pages serial first 0 seq True p) @ (concat hp @ rest)"
    using Cons.prems(1) by (simp only: hps pg_def concat_append append_assoc)
  have "validate_pages data ao serial (length pre) ff =
      validate_pages data ao serial (length pre + length (concat pg)) False"
    using Cons.prems(2,3) unfolding pg_def by (intro validate_packet_pages[OF _ d]) (simp_all add: hps flip: pg_def)
  also have "\<dots> = Inr ()"
    using Cons.IH[of "pre @ concat pg" False "seq + word_of_nat (length pg)" False] d Cons.prems(2)
    by (simp add: hps flip: pg_def hp_def)
  finally show ?case .
qed

lemma read_first_packet:
  assumes "data = concat (header_pages serial first seq (p # pkts)) @ rest"
  shows "\<exists>rp. read_packets data 1 = Inr [rp] \<and> rp_data rp = p"
proof -
  have d: "data = [] @ concat (packet_pages serial first 0 seq True p) @
      (concat (header_pages serial False (seq + word_of_nat (length (packet_pages serial first 0 seq True p))) pkts) @ rest)"
    using assms by (simp add: Let_def)
  have lt: "length ([] :: read_packet list) < 1" by simp
  have z: "(0 :: nat) < 2 ^ 64" by simp
  show ?thesis unfolding read_packets_def
    using read_pages[OF z lt d, of 0 "[]"] by (subst (asm) (2) read_packets_from.simps) simp
qed

lemma read_header_rendered:
  assumes d: "data = concat (header_pages serial True 0 pkts) @ rest"
    and c: "pkts = p # ps" "detect_codec p = Inr codec" "wanted_packets codec p = Inr (length pkts)"
  shows "read_header data = Inr \<lparr> oh_codec = codec, oh_serial = serial, oh_packets = pkts,
    oh_header_pages = length (header_pages serial True 0 pkts),
    oh_audio_offset = length (concat (header_pages serial True 0 pkts)) \<rparr>"
proof -
  have "\<exists>h. parse_page data 0 = Inr h \<and> ph_serial h = serial"
  proof -
    have ne: "0 < length (packet_pages serial True 0 0 True p)" using packet_pages_nonempty by simp
    obtain table pl ht where t: "packet_pages serial True 0 0 True p ! 0 = sealed_page ht 0 serial 0 table pl"
        "length table < 256" "sum_bytes table = length pl"
      using packet_pages_nth[of 0, OF _ ne] by auto
    obtain qs where "packet_pages serial True 0 0 True p = sealed_page ht 0 serial 0 table pl # qs"
      using t(1) ne by (cases "packet_pages serial True 0 0 True p") auto
    then have "\<exists>r. data = [] @ sealed_page ht 0 serial 0 table pl @ r" by (simp add: d c(1) Let_def)
    then obtain r where "data = [] @ sealed_page ht 0 serial 0 table pl @ r" by blast
    from sealed_page_parse[OF t(2) _ t(3) this] show ?thesis by auto
  qed
  then obtain h where h: "parse_page data 0 = Inr h" "ph_serial h = serial" by blast
  obtain rp where rp: "read_packets data 1 = Inr [rp]" "rp_data rp = p"
    using read_first_packet[of data serial True 0 p ps rest] d c(1) by auto
  have d': "data = [] @ concat (header_pages serial True 0 pkts) @ rest" using d by simp
  obtain rps where r: "read_packets data (length pkts) = Inr rps" "map rp_data rps = pkts"
      "rp_end_offset (last rps) = length (concat (header_pages serial True 0 pkts))"
      "rp_pages_through_end (last rps) = length (header_pages serial True 0 pkts)"
    using read_header_pages[OF d', of "[]" "length pkts" 0] c(1) by (auto simp: read_packets_def)
  have v: "validate_single_bitstream data (length (concat (header_pages serial True 0 pkts))) serial = Inr ()"
    unfolding validate_single_bitstream_def using validate_header_pages[OF d', of _ True] by simp
  have lr: "length rps = length pkts" using arg_cong[OF r(2), of length] by simp
  show ?thesis
    using h rp r v lr c(2,3) by (simp add: read_header_def Let_def get_at_def)
qed


subsection \<open>The synthesized header re-parses\<close>

lemma rendered_Cons [simp]:
  "rendered_packets enc art [] = []"
  "rendered_packets enc art (cs # pcs) = concat (map (chunk_bytes enc art) cs) # rendered_packets enc art pcs"
  by (simp_all add: rendered_packets_def)

lemma rendered_append: "rendered_packets enc art (a @ b) = rendered_packets enc art a @ rendered_packets enc art b"
  by (simp add: rendered_packets_def)

lemma rendered_length [simp]: "length (rendered_packets enc art pcs) = length pcs"
  by (simp add: rendered_packets_def)

context art_serving begin

lemma lace_all_render:
  assumes "\<And>i b. art i = Some b \<Longrightarrow> env_art v i = b"
    "lace_all enc src serial first segs seq pcs = Some (Inr (segs', seq'))"
    "\<forall>cs\<in>set pcs. \<forall>c\<in>set cs. chunk_present art c" "\<forall>s\<in>set segs. good_seg v s"
  shows "layout_bytes enc v segs' = layout_bytes enc v segs @
      concat (header_pages serial first seq (rendered_packets enc art pcs)) \<and>
    seq' = seq + word_of_nat (length (header_pages serial first seq (rendered_packets enc art pcs))) \<and>
    (\<forall>s\<in>set segs'. good_seg v s)"
  using assms(2-4)
proof (induction pcs arbitrary: first segs seq)
  case (Cons cs pcs)
  obtain S used where l: "lace_chunks_to_segments enc src serial seq first cs = Some (Inr (S, used))"
    "lace_all enc src serial False (segs @ S) (seq + used) pcs = Some (Inr (segs', seq'))"
    using Cons.prems(1) by (auto simp: pbind_eq_Ok)
  have fit: "chunk_sizes_fit cs" using l(1) by (auto simp: lace_chunks_to_segments_def split: if_splits)
  have pr: "\<forall>c\<in>set cs. chunk_present art c" using Cons.prems(2) by simp
  define p where "p = concat (map (chunk_bytes enc art) cs)"
  have r: "\<forall>s\<in>set S. good_seg v s" "lace_packet serial seq first 0 p = (layout_bytes enc v S, used)"
    using lace_chunks_render[OF assms(1) fit pr, of serial seq first] l(1) by (auto simp: p_def)
  have pg: "layout_bytes enc v S = concat (packet_pages serial first 0 seq True p)"
      "used = word_of_nat (length (packet_pages serial first 0 seq True p))"
    using r(2) by (simp_all add: lace_packet_pages Let_def)
  have g: "\<forall>s\<in>set (segs @ S). good_seg v s" using r(1) Cons.prems(3) by auto
  have pr2: "\<forall>cs\<in>set pcs. \<forall>c\<in>set cs. chunk_present art c" using Cons.prems(2) by simp
  show ?case using Cons.IH[OF l(2) pr2 g] pg
    by (simp add: Let_def add.assoc flip: p_def)
qed simp

lemma good_segs_length:
  "\<forall>s\<in>set segs. good_seg v s \<Longrightarrow> length (layout_bytes enc v segs) = sum_list (map seg_len segs)"
  using layout_bytes_length[OF base64_engine_axioms, of segs v] by (simp add: good_seg_def)

lemma ogg_layout_render:
  assumes "\<And>i b. art i = Some b \<Longrightarrow> env_art v i = b"
    "ogg_synthesize_layout enc src header ao al tags arts = Some (Inr l)"
    "build_packets_with_art enc header tags arts = Some (Inr pcs)"
    "\<forall>cs\<in>set pcs. \<forall>c\<in>set cs. chunk_present art c"
  shows "\<exists>segs hp seq. hp = header_pages (oh_serial header) True 0 (rendered_packets enc art pcs) \<and>
    seq = word_of_nat (length hp) \<and>
    rl_segments l = segs @ [OggAudio ao al (uint (seq :: crc) - int (oh_header_pages header))] \<and>
    layout_bytes enc v segs = concat hp \<and> rl_header_len l = length (concat hp) \<and>
    rl_total_len l = rl_header_len l + al"
proof -
  obtain segs seq where l: "lace_all enc src (oh_serial header) True [] 0 pcs = Some (Inr (segs, seq))"
    "map_err InvalidLayout (validated (segs @ [OggAudio ao al (uint seq - int (oh_header_pages header))])) = Inr l"
    using assms(2,3) by (auto simp: ogg_synthesize_layout_def pbind_eq_Ok Let_def)
  note r = lace_all_render[OF assms(1) l(1) assms(4), simplified]
  obtain l' where v: "validated (segs @ [OggAudio ao al (uint seq - int (oh_header_pages header))]) = Inr l'" "l' = l"
    using l(2) by (cases "validated (segs @ [OggAudio ao al (uint seq - int (oh_header_pages header))])") auto
  note t = validated_totals[OF v(1), unfolded v(2)]
  have f: "filter (\<lambda>s. \<not> is_audio s) segs = segs" using r by (auto simp: filter_id_conv good_seg_def)
  have len: "length (layout_bytes enc v segs) = sum_list (map seg_len segs)" using r good_segs_length by blast
  show ?thesis using r t f len by (intro exI[of _ segs] exI[of _ "header_pages (oh_serial header) True 0 (rendered_packets enc art pcs)"] exI[of _ seq]) simp
qed

end

definition arts_present :: "(int \<Rightarrow> bytes option) \<Rightarrow> art_input list \<Rightarrow> bool" where
  "arts_present art arts \<longleftrightarrow> list_all (\<lambda>a. \<exists>b. art (ai_art_id a) = Some b \<and> length b = ai_data_len a) arts"

lemma push_art_comments_present:
  "push_art_comments enc head chunks arts = Inr (head', chunks') \<Longrightarrow> arts_present art arts \<Longrightarrow>
   \<forall>c\<in>set chunks. chunk_present art c \<Longrightarrow> \<forall>c\<in>set chunks'. chunk_present art c"
  by (induction enc head chunks arts rule: push_art_comments.induct)
    (auto simp: arts_present_def Let_def elim!: rbindE)

lemma comment_packet_cases:
  assumes "comment_packet_chunks enc magic tags arts fb = Inr cs"
  obtains vs head chunks where "vs = filter (\<lambda>t. is_valid_key (ti_key t)) tags" "length vs \<le> u32_max"
    "list_all comment_fits vs" "length arts \<le> u32_max"
    "push_art_comments enc (magic @ le_bytes 4 6 @ as_bytes vendor @
       le_bytes 4 ((length vs + length arts) mod 2 ^ 32) @ concat (map comment_block vs)) [] arts = Inr (head, chunks)"
    "cs = (if fb then chunks @ [Bytes (head @ [1])] else if head \<noteq> [] then chunks @ [Bytes head] else chunks)"
proof -
  define vs where "vs = filter (\<lambda>t. is_valid_key (ti_key t)) tags"
  obtain tb where tb: "vorbis_build tags = Inr tb"
    using assms by (auto simp: comment_packet_chunks_def elim!: rbindE)
  then have n: "length vs \<le> u32_max" "list_all comment_fits vs"
    and tb': "tb = le_bytes 4 6 @ as_bytes vendor @ le_bytes 4 (length vs) @ concat (map comment_block vs)"
    by (auto simp: vorbis_build_eq Let_def simp flip: vs_def split: if_splits)
  have lv: "length (as_bytes vendor) = 6" by (simp add: vendor_def)
  have s0: "slice tb 0 4 = le_bytes 4 6" by (simp add: tb' slice_prefix del: le_bytes.simps)
  have s1: "slice tb 10 4 = le_bytes 4 (length vs)"
    unfolding tb' using lv by (simp add: slice_append2 slice_prefix)
  have v: "le_val (le_bytes 4 6) = 6" "le_val (le_bytes 4 (length vs)) = length vs"
    using n(1) by (simp_all add: le_val_le_bytes u32_max_def)
  have p: "patch_at tb 10 (le_bytes 4 x) = le_bytes 4 6 @ as_bytes vendor @ le_bytes 4 x @ concat (map comment_block vs)" for x
    using patch_at_mid[of "le_bytes 4 6 @ as_bytes vendor" 10 "le_bytes 4 x" "le_bytes 4 (length vs)"] lv
    by (simp add: tb' del: le_bytes.simps)
  obtain head chunks where h: "length arts \<le> u32_max"
    "push_art_comments enc (magic @ patch_at tb 10 (le_bytes 4 ((length vs + length arts) mod 2 ^ 32))) [] arts = Inr (head, chunks)"
    "(let head = (if fb then head @ [0x01] else head) in Inr (if head \<noteq> [] then chunks @ [Bytes head] else chunks)) = (Inr cs :: payload_chunk list fresult)"
    using assms unfolding comment_packet_chunks_def tb
    by (auto simp: s0 v s1 elim!: rbindE simp del: le_bytes.simps)
  show ?thesis
    by (rule that[OF vs_def n h(1)]) (use h(2,3) p in \<open>auto simp: Let_def split: if_splits\<close>)
qed

lemma comment_chunks_present:
  assumes "comment_packet_chunks enc magic tags arts fb = Inr cs" "arts_present art arts"
  shows "\<forall>c\<in>set cs. chunk_present art c"
proof -
  from comment_packet_cases[OF assms(1)] obtain h0 head chunks where
    p: "push_art_comments enc h0 [] arts = Inr (head, chunks)"
    "cs = (if fb then chunks @ [Bytes (head @ [1])] else if head \<noteq> [] then chunks @ [Bytes head] else chunks)"
    by metis
  show ?thesis using push_art_comments_present[OF p(1) assms(2)] p(2) by auto
qed

lemma push_picture_packets_shape:
  "push_picture_packets pcs arts = Inr pcs' \<Longrightarrow>
   length pcs' = length pcs + length arts \<and> (\<exists>qs. pcs' = pcs @ qs \<and>
     (arts_present art arts \<longrightarrow> (\<forall>cs\<in>set qs. \<forall>c\<in>set cs. chunk_present art c)))"
  by (induction pcs arts rule: push_picture_packets.induct)
    (fastforce simp: arts_present_def elim!: rbindE split: if_splits)+

lemma set_last_flags_length [simp]: "length (set_last_flags i n pcs) = length pcs"
  by (induction i n pcs rule: set_last_flags.induct) auto

lemma set_last_flags_present:
  "\<forall>cs\<in>set pcs. \<forall>c\<in>set cs. chunk_present art c \<Longrightarrow>
   \<forall>cs\<in>set (set_last_flags i n pcs). \<forall>c\<in>set cs. chunk_present art c"
  by (induction i n pcs rule: set_last_flags.induct)
    (auto split: list.splits payload_chunk.splits)


lemma detect_oggflac_iff: "detect_codec p = Inr OggFlac \<longleftrightarrow> 5 \<le> length p \<and> slice p 0 5 = 0x7F # as_bytes ''FLAC''"
proof -
  have "slice p 0 8 \<noteq> as_bytes ''OpusHead'' \<and> slice p 0 7 \<noteq> 1 # as_bytes ''vorbis''"
    if f5: "slice p 0 5 = 0x7F # as_bytes ''FLAC''"
  proof -
    obtain q where q: "p = 0x7F # q" using f5 by (cases p) (simp_all add: slice_def)
    have h: "hd (slice p 0 8) = 0x7F" "hd (slice p 0 7) = 0x7F" unfolding q by (simp_all add: slice_def)
    have "hd (as_bytes ''OpusHead'') = 0x4F" "(0x7F :: byte) \<noteq> 0x4F" "(0x7F :: byte) \<noteq> 1"
      by (simp_all add: as_bytes_def)
    then show ?thesis using h by (metis list.sel(1))
  qed
  then show ?thesis by (auto simp: detect_codec_def split: if_splits)
qed

lemma patch_mapping:
  assumes "9 \<le> length m" "n < 2 ^ 16" "detect_codec m = Inr OggFlac"
  shows "detect_codec (patch_at m 7 (be_bytes 2 n)) = Inr OggFlac"
    and "oggflac_following_packets (patch_at m 7 (be_bytes 2 n)) = Inr n"
proof -
  have "length (be_bytes 2 n) = Suc (Suc 0)" by simp
  then obtain a b where ab: "be_bytes 2 n = [a, b]" unfolding length_Suc_conv length_0_conv by blast
  have v: "be_val [a, b] = n" using be_val_be_bytes[of n 2] assms(2) unfolding ab by simp
  let ?p = "patch_at m 7 (be_bytes 2 n)"
  have l: "length ?p = length m" using assms(1) by simp
  have "slice ?p 0 5 = slice m 0 5" using assms(1) by (simp add: patch_at_def slice_append1 slice_take)
  then show "detect_codec ?p = Inr OggFlac" using assms(1,3) l unfolding detect_oggflac_iff by simp
  have "?p ! 7 = a" "?p ! 8 = b" using assms(1) by (simp_all add: patch_at_def ab nth_append)
  then show "oggflac_following_packets ?p = Inr n"
    using assms(1) l v by (simp add: oggflac_following_packets_def)
qed

lemma oggflac_packets_cases:
  assumes "oggflac_packets_with_art header tags arts = Inr pcs"
  obtains vc hdr count bps where "vorbis_build tags = Inr vc" "length vc \<le> max_block_body"
    "push_block_header [] 4 (length vc) False = Inr hdr"
    "count = length (filter is_structural_packet (drop 1 (oh_packets header))) + 1 + length arts" "count < 2 ^ 16"
    "push_picture_packets (map (\<lambda>s. [Bytes s]) (filter is_structural_packet (drop 1 (oh_packets header))) @
       [[Bytes (hdr @ vc)]]) arts = Inr bps"
    "oh_packets header \<noteq> []" "9 \<le> length (oh_packets header ! 0)"
    "pcs = [Bytes (patch_at (oh_packets header ! 0) 7 (be_bytes 2 count))] # set_last_flags 0 (length bps) bps"
proof -
  have "oh_packets header \<noteq> []" using assms by (auto simp: oggflac_packets_with_art_def)
  then show ?thesis using assms that unfolding oggflac_packets_with_art_def Let_def
    by (auto elim!: rbindE split: if_splits simp: not_less)
qed

lemma oggflac_build_shape:
  assumes b: "oggflac_packets_with_art header tags arts = Inr pcs" and p: "arts_present art arts"
    and d: "detect_codec (oh_packets header ! 0) = Inr OggFlac"
  shows "(\<forall>cs\<in>set pcs. \<forall>c\<in>set cs. chunk_present art c) \<and>
    (\<exists>q qs. rendered_packets enc art pcs = q # qs \<and> detect_codec q = Inr OggFlac \<and>
       wanted_packets OggFlac q = Inr (length pcs))"
proof -
  from oggflac_packets_cases[OF b] obtain hdr vc count bps where
    c: "count = length (filter is_structural_packet (drop 1 (oh_packets header))) + 1 + length arts" "count < 2 ^ 16"
    and bp: "push_picture_packets (map (\<lambda>s. [Bytes s]) (filter is_structural_packet (drop 1 (oh_packets header))) @
       [[Bytes (hdr @ vc)]]) arts = Inr bps"
    and l9: "9 \<le> length (oh_packets header ! 0)"
    and pcs: "pcs = [Bytes (patch_at (oh_packets header ! 0) 7 (be_bytes 2 count))] # set_last_flags 0 (length bps) bps"
    by metis
  note sh = push_picture_packets_shape[OF bp, of art]
  obtain qs where qs: "bps = map (\<lambda>s. [Bytes s]) (filter is_structural_packet (drop 1 (oh_packets header))) @ [[Bytes (hdr @ vc)]] @ qs"
    "\<forall>cs\<in>set qs. \<forall>c\<in>set cs. chunk_present art c" using sh p by auto
  have "\<forall>cs\<in>set bps. \<forall>c\<in>set cs. chunk_present art c" using qs by auto
  then have pr: "\<forall>cs\<in>set pcs. \<forall>c\<in>set cs. chunk_present art c"
    using set_last_flags_present[of bps art 0 "length bps"] unfolding pcs by simp
  have len: "length bps = count" using sh c(1) by simp
  show ?thesis
    using pr patch_mapping[OF l9 c(2) d] len by (simp add: pcs wanted_packets_def)
qed

lemma build_shape:
  assumes b: "build_packets_with_art enc header tags arts = Some (Inr pcs)" and p: "arts_present art arts"
    and d: "detect_codec (oh_packets header ! 0) = Inr (oh_codec header)"
  shows "(\<forall>cs\<in>set pcs. \<forall>c\<in>set cs. chunk_present art c) \<and>
    (\<exists>q qs. rendered_packets enc art pcs = q # qs \<and> detect_codec q = Inr (oh_codec header) \<and>
       wanted_packets (oh_codec header) q = Inr (length pcs))"
proof (cases "oh_codec header")
  case OggFlac
  then show ?thesis using oggflac_build_shape[OF _ p, of header tags pcs enc] b d
    by (simp add: build_packets_with_art_def)
next
  case Opus
  then obtain c where c: "comment_packet_chunks enc (as_bytes ''OpusTags'') tags arts False = Inr c"
    "pcs = [[Bytes (oh_packets header ! 0)], c]"
    using b by (auto simp: build_packets_with_art_def pbind_eq_Ok packet_bytes_def get_at_def elim!: rbindE split: if_splits option.splits)
  then show ?thesis using comment_chunks_present[OF c(1) p] d Opus by (simp add: wanted_packets_def)
next
  case OggVorbis
  then obtain c where c: "comment_packet_chunks enc (3 # as_bytes ''vorbis'') tags arts True = Inr c"
    "pcs = [[Bytes (oh_packets header ! 0)], c, [Bytes (oh_packets header ! 2)]]"
    using b by (auto simp: build_packets_with_art_def pbind_eq_Ok packet_bytes_def get_at_def split: if_splits option.splits)
  then show ?thesis using comment_chunks_present[OF c(1) p] d OggVorbis by (simp add: wanted_packets_def)
qed

lemma ogg_reparse:
  assumes s: "art_serving enc src art" and e: "\<And>i b. art i = Some b \<Longrightarrow> env_art v i = b"
    and l: "ogg_synthesize_layout enc src header ao al tags arts = Some (Inr l)"
    and p: "arts_present art arts" and d: "detect_codec (oh_packets header ! 0) = Inr (oh_codec header)"
  obtains pcs segs hp where "build_packets_with_art enc header tags arts = Some (Inr pcs)"
    "hp = header_pages (oh_serial header) True 0 (rendered_packets enc art pcs)"
    "read_header (layout_bytes enc v (rl_segments l)) = Inr \<lparr> oh_codec = oh_codec header, oh_serial = oh_serial header,
       oh_packets = rendered_packets enc art pcs, oh_header_pages = length hp, oh_audio_offset = rl_header_len l \<rparr>"
    "rl_segments l = segs @ [OggAudio ao al (uint (word_of_nat (length hp) :: crc) - int (oh_header_pages header))]"
    "rl_total_len l = rl_header_len l + al" "length (layout_bytes enc v segs) = rl_header_len l"
proof -
  obtain pcs where b: "build_packets_with_art enc header tags arts = Some (Inr pcs)"
    using l by (auto simp: ogg_synthesize_layout_def pbind_eq_Ok)
  note sh = build_shape[OF b p d]
  then obtain q qs where q: "rendered_packets enc art pcs = q # qs" "detect_codec q = Inr (oh_codec header)"
    "wanted_packets (oh_codec header) q = Inr (length pcs)" by blast
  have pr: "\<forall>cs\<in>set pcs. \<forall>c\<in>set cs. chunk_present art c" using sh by blast
  define hp where "hp = header_pages (oh_serial header) True 0 (rendered_packets enc art pcs)"
  obtain segs where r: "rl_segments l = segs @ [OggAudio ao al (uint (word_of_nat (length hp) :: crc) - int (oh_header_pages header))]"
    "layout_bytes enc v segs = concat hp" "rl_header_len l = length (concat hp)" "rl_total_len l = rl_header_len l + al"
    using art_serving.ogg_layout_render[OF s e l b pr] unfolding hp_def by blast
  have w: "wanted_packets (oh_codec header) q = Inr (length (rendered_packets enc art pcs))" using q(3) by simp
  have "layout_bytes enc v (rl_segments l) = concat hp @ env_ogg v ao al (uint (word_of_nat (length hp) :: crc) - int (oh_header_pages header))"
    using r(2) by (simp add: r(1))
  from read_header_rendered[OF this[unfolded hp_def] q(1,2) w] r(3)
  show ?thesis by (intro that[OF b hp_def _ r(1,4)]) (simp_all add: hp_def r(2))
qed

end
