(* ===== verification/Ogg_Roundtrip.thy ===== *)
theory Ogg_Roundtrip
  imports Ogg_Synth
begin

text \<open>
  What a re-scan reads back from a synthesized Ogg file, musefs-format/src/ogg/mod.rs: synthesis
  succeeds whenever the packets can be built and the result fits, and the header of the rendered
  file holds exactly the rendered packets.
\<close>

subsection \<open>Lacing never fails on packets that fit\<close>

definition art_env :: "(int \<Rightarrow> bytes option) \<Rightarrow> byte_env" where
  "art_env art = \<lparr> env_art = (\<lambda>i. case art i of Some b \<Rightarrow> b | None \<Rightarrow> []), env_tag = (\<lambda>i. []),
     env_backing = [], env_ogg = (\<lambda>ao n d. []) \<rparr>"

lemma art_env_art [simp]: "art i = Some b \<Longrightarrow> env_art (art_env art) i = b"
  by (simp add: art_env_def)

context art_serving begin

lemma lace_all_total:
  assumes "\<forall>cs\<in>set pcs. chunk_sizes_fit cs \<and> (\<forall>c\<in>set cs. chunk_present art c)"
  shows "\<exists>segs' seq'. lace_all enc src serial first segs seq pcs = Some (Inr (segs', seq'))"
  using assms
proof (induction pcs arbitrary: first segs seq)
  case (Cons cs pcs)
  have "\<exists>S used. lace_chunks_to_segments enc src serial seq first cs = Some (Inr (S, used))"
    using lace_chunks_render[OF art_env_art[of art], of cs serial seq first] Cons.prems by auto
  then show ?case using Cons.IH Cons.prems by (fastforce simp: pbind_def)
qed simp

lemma good_segs_pass:
  assumes "\<forall>s\<in>set segs. good_seg v s" "ao + al \<le> u64_max" "length (layout_bytes enc v segs) + al \<le> u64_max"
  shows "\<exists>l. validated (segs @ [OggAudio ao al d]) = Inr l"
  using assms good_segs_length[OF assms(1)] by (auto simp: validated_iff good_seg_def)

lemma synthesis_total:
  assumes b: "build_packets_with_art enc header tags arts = Some (Inr pcs)"
    and p: "\<forall>cs\<in>set pcs. chunk_sizes_fit cs \<and> (\<forall>c\<in>set cs. chunk_present art c)"
    and n: "ao + al \<le> u64_max"
      "length (concat (header_pages (oh_serial header) True 0 (rendered_packets enc art pcs))) + al \<le> u64_max"
  shows "\<exists>l. ogg_synthesize_layout enc src header ao al tags arts = Some (Inr l)"
proof -
  obtain segs seq where l: "lace_all enc src (oh_serial header) True [] 0 pcs = Some (Inr (segs, seq))"
    using lace_all_total[OF p] by blast
  note r = lace_all_render[OF art_env_art[of art] l, simplified]
  have g: "\<forall>s\<in>set segs. good_seg (art_env art) s"
    and len: "length (layout_bytes enc (art_env art) segs) + al \<le> u64_max"
    using r p n(2) by (simp_all add: ball_conj_distrib)
  obtain l where "validated (segs @ [OggAudio ao al (uint seq - int (oh_header_pages header))]) = Inr l"
    using good_segs_pass[OF g n(1) len] by blast
  then show ?thesis using l b by (simp add: ogg_synthesize_layout_def pbind_def)
qed

end

text \<open>C17: when the header packets can be built and the result fits, Ogg synthesis returns a layout,
  without a panic or an error.\<close>

theorem ogg_synthesis_succeeds:
  assumes "art_serving enc src art"
    "build_packets_with_art enc header tags arts = Some (Inr pcs)"
    "\<forall>cs\<in>set pcs. chunk_sizes_fit cs \<and> (\<forall>c\<in>set cs. chunk_present art c)"
    "ao + al \<le> u64_max"
    "length (concat (header_pages (oh_serial header) True 0 (rendered_packets enc art pcs))) + al \<le> u64_max"
  shows "\<exists>l. ogg_synthesize_layout enc src header ao al tags arts = Some (Inr l)"
  by (rule art_serving.synthesis_total[OF assms(1)]) (fact assms)+

definition demo_header :: ogg_header where
  "demo_header = \<lparr> oh_codec = OggFlac, oh_serial = 7,
     oh_packets = [0x7F # as_bytes ''FLAC'' @ [1, 0, 0, 1], 4 # replicate 8 0, [0x83, 0, 0, 2, 7, 7]],
     oh_header_pages = 2, oh_audio_offset = 120 \<rparr>"

definition demo_ogg_tags :: "tag_input list" where
  "demo_ogg_tags = [\<lparr> ti_key = ''title'', ti_value = ''Abc'' \<rparr>]"

definition demo_ogg_arts :: "art_input list" where
  "demo_ogg_arts = [\<lparr> ai_art_id = 1, ai_mime = ''image/png'', ai_description = ''x'', ai_picture_type = 3,
     ai_width = 2, ai_height = 2, ai_data_len = 5 \<rparr>]"

definition demo_packets :: "payload_chunk list list" where
  "demo_packets = projr (the (build_packets_with_art b64_std demo_header demo_ogg_tags demo_ogg_arts))"

definition demo_ogg_env :: byte_env where
  "demo_ogg_env = \<lparr> env_art = (\<lambda>i. [10, 20, 30, 40, 50]), env_tag = (\<lambda>i. []), env_backing = [],
     env_ogg = (\<lambda>ao n d. []) \<rparr>"

lemma demo_build: "build_packets_with_art b64_std demo_header demo_ogg_tags demo_ogg_arts = Some (Inr demo_packets)"
  unfolding demo_packets_def by code_simp

lemma demo_sizes: "list_all (\<lambda>cs. list_all (\<lambda>c. chunk_out_len c \<noteq> None) cs) demo_packets"
    "list_all (\<lambda>cs. sum_list (map out_len cs) < 1000) demo_packets" "length demo_packets = 4"
    "detect_codec (oh_packets demo_header ! 0) = Inr (oh_codec demo_header)"
  subgoal by code_simp
  subgoal by code_simp
  subgoal by code_simp
  subgoal by code_simp
  done

lemma stored_demo: "stored_art demo_images i = Some [10, 20, 30, 40, 50]"
  by (simp add: stored_art_def demo_images_def u64_max_def)

lemma demo_present: "arts_present (stored_art demo_images) demo_ogg_arts"
  by (simp add: arts_present_def demo_ogg_arts_def stored_demo)

lemma demo_ogg_env_art: "stored_art demo_images i = Some b \<Longrightarrow> env_art demo_ogg_env i = b"
  by (simp add: stored_demo demo_ogg_env_def)

lemma demo_chunks_present: "\<forall>cs\<in>set demo_packets. chunk_sizes_fit cs \<and> (\<forall>c\<in>set cs. chunk_present (stored_art demo_images) c)"
  using build_shape[OF demo_build demo_present demo_sizes(4)] demo_sizes(1,2)
  by (fastforce simp: list_all_iff chunk_sizes_fit_def u64_max_def)

lemma small_pages: "length p < 1000 \<Longrightarrow> length (concat (packet_pages s b g q f p)) \<le> 1040"
  by (subst packet_pages.simps) (simp add: sealed_page_def mk_page_length lacing_length)

lemma small_header_pages:
  "list_all (\<lambda>p. length p < 1000) ps \<Longrightarrow> length (concat (header_pages s f q ps)) \<le> 1040 * length ps"
proof (induction ps arbitrary: f q)
  case (Cons p ps)
  then show ?case
    using add_mono[OF small_pages[of p s f 0 q True] Cons.IH[of False "q + word_of_nat (length (packet_pages s f 0 q True p))"]]
    by (simp add: Let_def)
qed simp

lemma demo_rendered_small:
  "length (concat (header_pages s f q (rendered_packets b64_std (stored_art demo_images) demo_packets))) \<le> 4160"
proof -
  have "length (concat (map (chunk_bytes b64_std (stored_art demo_images)) cs)) = sum_list (map out_len cs)"
    if "cs \<in> set demo_packets" for cs
  proof -
    have "out_len c = length (chunk_bytes b64_std (stored_art demo_images) c)" if "c \<in> set cs" for c
      using that \<open>cs \<in> set demo_packets\<close> demo_chunks_present
      by (intro map_serving.chunk_length) (auto simp: chunk_sizes_fit_def list_all_iff)
    then show ?thesis by (simp add: length_concat comp_def cong: map_cong)
  qed
  then have "list_all (\<lambda>p. length p < 1000) (rendered_packets b64_std (stored_art demo_images) demo_packets)"
    using demo_sizes(2) by (simp add: rendered_packets_def list_all_iff)
  from small_header_pages[OF this, of s f q] show ?thesis by (simp add: rendered_packets_def demo_sizes)
qed

lemma ogg_synthesis_succeeds_witness:
  "\<exists>l. ogg_synthesize_layout b64_std (map_art_read demo_images) demo_header 120 500 demo_ogg_tags demo_ogg_arts = Some (Inr l)"
proof (rule ogg_synthesis_succeeds[OF map_serving.art_serving_axioms demo_build demo_chunks_present])
  show "length (concat (header_pages (oh_serial demo_header) True 0
      (rendered_packets b64_std (stored_art demo_images) demo_packets))) + 500 \<le> u64_max"
    using demo_rendered_small[of "oh_serial demo_header" True 0] by (simp add: u64_max_def)
qed (simp add: u64_max_def)

subsection \<open>The rendered file reads back\<close>

text \<open>C16: reading the header of a synthesized Ogg file succeeds: the codec and the serial number are
  kept, the packets are the regenerated ones byte for byte, and the audio starts exactly where the
  layout's header ends, its pages renumbered by the difference of the header page counts.\<close>

theorem ogg_synth_reparses:
  assumes "art_serving enc src art" "\<And>i b. art i = Some b \<Longrightarrow> env_art v i = b"
    "ogg_synthesize_layout enc src header ao al tags arts = Some (Inr l)"
    "arts_present art arts" "detect_codec (oh_packets header ! 0) = Inr (oh_codec header)"
  shows "\<exists>pcs pages. build_packets_with_art enc header tags arts = Some (Inr pcs) \<and>
    read_header (layout_bytes enc v (rl_segments l)) =
      Inr \<lparr> oh_codec = oh_codec header, oh_serial = oh_serial header,
            oh_packets = map (\<lambda>cs. concat (map (chunk_bytes enc art) cs)) pcs,
            oh_header_pages = pages, oh_audio_offset = rl_header_len l \<rparr> \<and>
    last (rl_segments l) = OggAudio ao al (uint (word_of_nat pages :: crc) - int (oh_header_pages header)) \<and>
    rl_total_len l = rl_header_len l + al"
  by (rule ogg_reparse[OF assms]) (auto simp: rendered_packets_def)

lemma ogg_synth_reparses_witness:
  "\<exists>l pages. ogg_synthesize_layout b64_std (map_art_read demo_images) demo_header 120 500 demo_ogg_tags demo_ogg_arts = Some (Inr l) \<and>
    read_header (layout_bytes b64_std demo_ogg_env (rl_segments l)) =
      Inr \<lparr> oh_codec = OggFlac, oh_serial = 7,
            oh_packets = map (\<lambda>cs. concat (map (chunk_bytes b64_std (stored_art demo_images)) cs)) demo_packets,
            oh_header_pages = pages, oh_audio_offset = rl_header_len l \<rparr>"
proof -
  obtain l where l: "ogg_synthesize_layout b64_std (map_art_read demo_images) demo_header 120 500 demo_ogg_tags demo_ogg_arts = Some (Inr l)"
    using demo_rendered_small[of "oh_serial demo_header" True 0]
    by (auto simp: u64_max_def intro: exE[OF map_serving.synthesis_total[OF demo_build demo_chunks_present, of 120 500]])
  show ?thesis
    using ogg_synth_reparses[OF map_serving.art_serving_axioms demo_ogg_env_art l demo_present demo_sizes(4)] l demo_build
    by (auto simp: demo_header_def)
qed

end
