(* ===== verification/Decimal.thy ===== *)
theory Decimal
  imports Format_Base
begin

text \<open>
  Decimal numerals as the standard library formats and parses them: dec writes an unsigned number,
  parse_uint reads one of a bounded integer type (an optional plus sign, then digits).
\<close>

definition digit :: "nat \<Rightarrow> char" where "digit d = char_of (48 + d)"

fun dec :: "nat \<Rightarrow> string" where
  "dec n = (if n < 10 then [digit n] else dec (n div 10) @ [digit (n mod 10)])"

declare dec.simps [simp del]

definition is_digit_char :: "char \<Rightarrow> bool" where
  "is_digit_char c \<longleftrightarrow> 48 \<le> (of_char c :: nat) \<and> (of_char c :: nat) \<le> 57"

definition digits_val :: "string \<Rightarrow> nat" where
  "digits_val ds = foldl (\<lambda>v c. v * 10 + ((of_char c :: nat) - 48)) 0 ds"

definition parse_uint :: "nat \<Rightarrow> string \<Rightarrow> nat option" where
  "parse_uint mx s =
     (let ds = (case s of c # cs \<Rightarrow> if c = CHR ''+'' then cs else s | [] \<Rightarrow> []) in
      if ds = [] \<or> \<not> list_all is_digit_char ds then None
      else if digits_val ds \<le> mx then Some (digits_val ds) else None)"

lemma digit_code [simp]: "d < 10 \<Longrightarrow> of_char (digit d) = (48 + d :: nat)"
  unfolding digit_def of_char_of by (rule mod_less) simp

lemma digit_inj: "d < 10 \<Longrightarrow> e < 10 \<Longrightarrow> digit d = digit e \<Longrightarrow> d = e"
  using digit_code by (metis add_left_imp_eq)

lemma dec_digits: "c \<in> set (dec n) \<Longrightarrow> is_digit_char c"
proof (induction n rule: dec.induct)
  case (1 n)
  thus ?case by (subst (asm) dec.simps) (auto simp: is_digit_char_def split: if_splits)
qed

lemma dec_nonempty [simp]: "dec n \<noteq> []"
  by (subst dec.simps) simp

lemma dec_val: "digits_val (dec n) = n"
proof (induction n rule: dec.induct)
  case (1 n)
  thus ?case by (subst dec.simps) (simp add: digits_val_def)
qed

lemma dec_inj: "dec m = dec n \<Longrightarrow> m = n"
  using dec_val by metis

lemma parse_uint_dec: "n \<le> mx \<Longrightarrow> parse_uint mx (dec n) = Some n"
proof -
  assume n: "n \<le> mx"
  have d: "list_all is_digit_char (dec n)" using dec_digits by (auto simp: list_all_iff)
  obtain c cs where c: "dec n = c # cs" using dec_nonempty by (cases "dec n") auto
  have "c \<noteq> CHR ''+''" using d c by (auto simp: is_digit_char_def)
  hence "(case dec n of c # cs \<Rightarrow> if c = CHR ''+'' then cs else dec n | [] \<Rightarrow> []) = dec n" using c by simp
  thus ?thesis using n d by (simp add: parse_uint_def Let_def dec_val)
qed

lemma parse_uint_bound: "parse_uint mx s = Some n \<Longrightarrow> n \<le> mx"
  by (auto simp: parse_uint_def Let_def split: if_splits)

end
