(* ===== verification/Mp3.thy ===== *)
theory Mp3
  imports Id3v2 Tagmap Layout Vorbis Decimal
begin

text \<open>
  MP3, musefs-format/src/mp3.rs, first half: where the audio of a file is (locate_audio and its
  bounded twin), and the ID3v2.4 tag written in front of it. The tag is built frame by frame into an
  inline buffer that is flushed around each streamed blob.
\<close>

unbundle bit_operations_syntax

subsection \<open>The audio region\<close>

record mp3_bounds =
  mb_audio_offset :: nat
  mb_audio_length :: nat

definition decode_frame_size :: "byte \<Rightarrow> bytes \<Rightarrow> nat" where
  "decode_frame_size major raw = (if major = 3 then be_val (take 4 raw) else synchsafe_decode raw)"

definition id3v1_magic :: bytes where "id3v1_magic = [0x54, 0x41, 0x47]"

definition frame_sync :: "byte \<Rightarrow> byte \<Rightarrow> bool" where
  "frame_sync a b \<longleftrightarrow> a = 0xFF \<and> b AND 0xE0 = 0xE0"

definition mp3_locate_audio :: "bytes \<Rightarrow> mp3_bounds fresult" where
  "mp3_locate_audio data =
     rbind (id3_total_len data) (\<lambda>r.
     rbind (case r of Some tag_len \<Rightarrow> if tag_len > length data then Inl Malformed else Inr tag_len | None \<Rightarrow> Inr 0) (\<lambda>off.
     let audio_end = (if off + 128 \<le> length data \<and> slice data (length data - 128) 3 = id3v1_magic
                      then length data - 128 else length data)
     in if length data \<le> off + 1 \<or> \<not> frame_sync (data ! off) (data ! (off + 1)) then Inl NotMp3
        else Inr \<lparr> mb_audio_offset = off, mb_audio_length = audio_end - off \<rparr>))"

definition mp3_locate_audio_bounded :: "bytes \<Rightarrow> nat \<Rightarrow> bytes option \<Rightarrow> mp3_bounds extent fresult" where
  "mp3_locate_audio_bounded prefx file_len ftail =
     (if length prefx < 10 \<and> 10 \<le> file_len then Inr (NeedMore 10)
      else rbind (id3_total_len prefx) (\<lambda>r.
           rbind (case r of Some tag_len \<Rightarrow> if tag_len > file_len then Inl Malformed else Inr tag_len | None \<Rightarrow> Inr 0) (\<lambda>off.
           if off + 2 > file_len then Inl NotMp3
           else if off + 2 > length prefx then Inr (NeedMore (off + 2))
           else if \<not> frame_sync (prefx ! off) (prefx ! (off + 1)) then Inl NotMp3
           else
             let audio_end = (case ftail of
                   Some t \<Rightarrow> if off + 128 \<le> file_len \<and> slice t 0 3 = id3v1_magic then file_len - 128 else file_len
                 | None \<Rightarrow> file_len)
             in Inr (Complete \<lparr> mb_audio_offset = off, mb_audio_length = audio_end - off \<rparr>))))"

subsection \<open>Frame bodies\<close>

definition enc_utf8 :: byte where "enc_utf8 = 3"

definition syncsafe :: "nat \<Rightarrow> bytes" where
  "syncsafe n = [word_of_nat (drop_bit 21 n AND 0x7F), word_of_nat (drop_bit 14 n AND 0x7F),
                 word_of_nat (drop_bit 7 n AND 0x7F), word_of_nat (n AND 0x7F)]"

definition synchsafe_max :: nat where "synchsafe_max = 0x0FFFFFFF"

definition synchsafe_len :: "nat \<Rightarrow> nat fresult" where
  "synchsafe_len n = ok_or (case u32_try_from n of Some v \<Rightarrow> if v \<le> synchsafe_max then Some v else None | None \<Rightarrow> None) TooLarge"

definition push_frame_header :: "bytes \<Rightarrow> bytes \<Rightarrow> nat \<Rightarrow> bytes fresult" where
  "push_frame_header out ident data_len =
     rbind (synchsafe_len data_len) (\<lambda>n. Inr (out @ ident @ syncsafe n @ [0, 0]))"

fun join_nul :: "string list \<Rightarrow> string" where
  "join_nul [] = []"
| "join_nul [v] = v"
| "join_nul (v # w # ws) = v @ CHR 0x00 # join_nul (w # ws)"

definition text_frame_data :: "string list \<Rightarrow> bytes" where
  "text_frame_data values = enc_utf8 # as_bytes (join_nul values)"

definition txxx_frame_data :: "string \<Rightarrow> string \<Rightarrow> bytes" where
  "txxx_frame_data desc v = enc_utf8 # as_bytes desc @ 0 # as_bytes v"

definition byte_or :: "bytes \<Rightarrow> nat \<Rightarrow> byte \<Rightarrow> byte" where
  "byte_or b i d = (case get_at b i of Some x \<Rightarrow> x | None \<Rightarrow> d)"

definition comm_like_frame_data :: "string \<Rightarrow> string \<Rightarrow> string \<Rightarrow> bytes" where
  "comm_like_frame_data lang description v =
     (let l = as_bytes lang in
      enc_utf8 # byte_or l 0 0x58 # byte_or l 1 0x58 # byte_or l 2 0x58 #
      as_bytes description @ 0 # as_bytes v)"

definition is_placeholder_lang :: "string \<Rightarrow> bool" where
  "is_placeholder_lang lang \<longleftrightarrow> to_ascii_lowercase lang \<in> set [[], ''xxx'', ''und'']"

definition comm_like_key :: "string \<Rightarrow> string \<Rightarrow> string \<Rightarrow> string \<Rightarrow> string" where
  "comm_like_key frame lang description default_key =
     (if description = [] \<and> is_placeholder_lang lang then default_key
      else ''id3:'' @ frame @ '':'' @ lang @ '':'' @ description)"

definition parse_comm_like_key :: "string \<Rightarrow> (bytes \<times> string \<times> string) option" where
  "parse_comm_like_key key =
     (if \<not> starts_with key ''id3:'' then None
      else Option.bind (split_once (CHR '':'') (drop 4 key)) (\<lambda>(frame, langdesc).
           if frame \<noteq> ''COMM'' \<and> frame \<noteq> ''USLT'' then None
           else map_option (\<lambda>(lang, desc). (as_bytes frame, lang, desc)) (split_once (CHR '':'') langdesc)))"

definition is_id3_text_frame_id :: "string \<Rightarrow> bool" where
  "is_id3_text_frame_id key \<longleftrightarrow>
     length key = 4 \<and> key \<noteq> ''TXXX'' \<and> starts_with key ''T'' \<and>
     list_all (\<lambda>c. 65 \<le> (of_char c :: nat) \<and> (of_char c :: nat) \<le> 90 \<or> is_digit_char c) key"

definition reject_embedded_nul :: "string \<Rightarrow> string \<Rightarrow> unit fresult" where
  "reject_embedded_nul field s = require (0 \<notin> set (as_bytes s)) (EmbeddedNul field)"

definition apic_framing :: "art_input \<Rightarrow> bytes" where
  "apic_framing art =
     enc_utf8 # as_bytes (ai_mime art) @ 0 # word_of_nat (ai_picture_type art) # as_bytes (ai_description art) @ [0]"

definition popm_frame_data :: "nat \<Rightarrow> nat \<Rightarrow> bytes" where
  "popm_frame_data rating playcount =
     0 # word_of_nat rating # (if playcount > 0 then be_bytes 4 (min playcount u32_max) else [])"

definition musicbrainz_ufid_owner :: string where "musicbrainz_ufid_owner = ''http://musicbrainz.org''"

definition ufid_frame_data :: "string \<Rightarrow> bytes \<Rightarrow> bytes" where
  "ufid_frame_data owner ident = as_bytes owner @ 0 # ident"

definition is_promoted_key :: "string \<Rightarrow> bool" where
  "is_promoted_key key \<longleftrightarrow> key \<in> set [''rating'', ''playcount'', ''musicbrainz_trackid'']"

subsection \<open>The tag\<close>

fun reject_tags :: "tag_input list \<Rightarrow> unit fresult" where
  "reject_tags [] = Inr ()"
| "reject_tags (t # ts) =
     rbind (reject_embedded_nul ''tag key'' (ti_key t)) (\<lambda>_.
     rbind (reject_embedded_nul ''tag value'' (ti_value t)) (\<lambda>_. reject_tags ts))"

fun reject_arts :: "art_input list \<Rightarrow> unit fresult" where
  "reject_arts [] = Inr ()"
| "reject_arts (a # as) =
     rbind (reject_embedded_nul ''art mime'' (ai_mime a)) (\<lambda>_.
     rbind (reject_embedded_nul ''art description'' (ai_description a)) (\<lambda>_. reject_arts as))"

fun promoted_values :: "nat option \<times> nat \<times> string option \<Rightarrow> tag_input list \<Rightarrow> nat option \<times> nat \<times> string option" where
  "promoted_values acc [] = acc"
| "promoted_values (rating, playcount, mbid) (t # ts) =
     promoted_values
       (if ti_key t = ''rating'' \<and> rating = None then (parse_uint 255 (ti_value t), playcount, mbid)
        else if ti_key t = ''playcount''
             then (rating, (case parse_uint u64_max (ti_value t) of Some c \<Rightarrow> c | None \<Rightarrow> playcount), mbid)
        else if ti_key t = ''musicbrainz_trackid'' \<and> mbid = None then (rating, playcount, Some (ti_value t))
        else (rating, playcount, mbid)) ts"

fun group_tags :: "(string \<times> string list) list \<Rightarrow> tag_input list \<Rightarrow> (string \<times> string list) list" where
  "group_tags groups [] = groups"
| "group_tags groups (t # ts) =
     (if is_promoted_key (ti_key t) then group_tags groups ts
      else if groups \<noteq> [] \<and> fst (last groups) = ti_key t
           then group_tags (butlast groups @ [(ti_key t, snd (last groups) @ [ti_value t])]) ts
      else group_tags (groups @ [(ti_key t, [ti_value t])]) ts)"

definition group_frames :: "string \<Rightarrow> string list \<Rightarrow> (bytes \<times> bytes) list" where
  "group_frames key values =
     (case key_to_id3 key of
        Some (Id3Text ident) \<Rightarrow> [(as_bytes ident, text_frame_data values)]
      | Some (Id3Txxx desc) \<Rightarrow> map (\<lambda>v. (as_bytes ''TXXX'', txxx_frame_data desc v)) values
      | Some Id3Comment \<Rightarrow> map (\<lambda>v. (as_bytes ''COMM'', comm_like_frame_data ''XXX'' [] v)) values
      | Some Id3Lyrics \<Rightarrow> map (\<lambda>v. (as_bytes ''USLT'', comm_like_frame_data ''XXX'' [] v)) values
      | None \<Rightarrow>
          if is_id3_text_frame_id key then [(as_bytes key, text_frame_data values)]
          else (case parse_comm_like_key key of
                  Some (frame, lang, desc) \<Rightarrow> map (\<lambda>v. (frame, comm_like_frame_data lang desc v)) values
                | None \<Rightarrow> map (\<lambda>v. (as_bytes ''TXXX'', txxx_frame_data key v)) values))"

fun push_frames :: "bytes \<Rightarrow> nat \<Rightarrow> (bytes \<times> bytes) list \<Rightarrow> (bytes \<times> nat) fresult" where
  "push_frames buf frames_len [] = Inr (buf, frames_len)"
| "push_frames buf frames_len ((ident, data) # fs) =
     rbind (push_frame_header buf ident (length data)) (\<lambda>buf.
     rbind (checked_add frames_len (10 + length data)) (\<lambda>frames_len. push_frames (buf @ data) frames_len fs))"

fun push_groups :: "bytes \<Rightarrow> nat \<Rightarrow> (string \<times> string list) list \<Rightarrow> (bytes \<times> nat) fresult" where
  "push_groups buf frames_len [] = Inr (buf, frames_len)"
| "push_groups buf frames_len ((key, values) # gs) =
     rbind (push_frames buf frames_len (group_frames key values)) (\<lambda>(buf, frames_len). push_groups buf frames_len gs)"

definition rating_frames :: "nat option \<Rightarrow> nat \<Rightarrow> (bytes \<times> bytes) list" where
  "rating_frames rating playcount =
     (case rating of Some r \<Rightarrow> [(as_bytes ''POPM'', popm_frame_data r playcount)] | None \<Rightarrow> [])"

definition mbid_frames :: "string option \<Rightarrow> (bytes \<times> bytes) list" where
  "mbid_frames mbid =
     (case mbid of Some i \<Rightarrow> [(as_bytes ''UFID'', ufid_frame_data musicbrainz_ufid_owner (as_bytes i))] | None \<Rightarrow> [])"

fun push_binary_frames ::
  "segment list \<Rightarrow> bytes \<Rightarrow> nat \<Rightarrow> binary_tag_input list \<Rightarrow> (segment list \<times> bytes \<times> nat) fresult" where
  "push_binary_frames segments buf frames_len [] = Inr (segments, buf, frames_len)"
| "push_binary_frames segments buf frames_len (bt # bts) =
     (if length (as_bytes (bt_key bt)) \<noteq> 4 then push_binary_frames segments buf frames_len bts
      else rbind (push_frame_header buf (as_bytes (bt_key bt)) (bt_len bt)) (\<lambda>buf.
           rbind (checked_add 10 (bt_len bt)) (\<lambda>n.
           rbind (checked_add frames_len n) (\<lambda>frames_len.
           push_binary_frames (segments @ [Inline buf, BinaryTag (bt_payload_id bt) (bt_len bt)]) [] frames_len bts))))"

fun push_apic_frames ::
  "segment list \<Rightarrow> bytes \<Rightarrow> nat \<Rightarrow> art_input list \<Rightarrow> (segment list \<times> bytes \<times> nat) fresult" where
  "push_apic_frames segments buf frames_len [] = Inr (segments, buf, frames_len)"
| "push_apic_frames segments buf frames_len (art # arts) =
     (let framing = apic_framing art in
      rbind (checked_add (length framing) (ai_data_len art)) (\<lambda>data_len.
      rbind (push_frame_header buf (as_bytes ''APIC'') data_len) (\<lambda>buf.
      rbind (checked_add 10 data_len) (\<lambda>n.
      rbind (checked_add frames_len n) (\<lambda>frames_len.
      push_apic_frames (segments @ [Inline (buf @ framing), ArtImage (ai_art_id art) (ai_data_len art)]) [] frames_len arts)))))"

definition build_id3v2_segments ::
  "tag_input list \<Rightarrow> binary_tag_input list \<Rightarrow> art_input list \<Rightarrow> (segment list \<times> nat) fresult" where
  "build_id3v2_segments tags binary_tags arts =
     rbind (reject_tags tags) (\<lambda>_.
     rbind (reject_arts arts) (\<lambda>_.
     case promoted_values (None, 0, None) tags of (rating, playcount, mbid) \<Rightarrow>
     rbind (push_groups [] 0 (group_tags [] tags)) (\<lambda>(buf, frames_len).
     rbind (push_frames buf frames_len (rating_frames rating playcount)) (\<lambda>(buf, frames_len).
     rbind (push_frames buf frames_len (mbid_frames mbid)) (\<lambda>(buf, frames_len).
     rbind (push_binary_frames [] buf frames_len binary_tags) (\<lambda>(segments, buf, frames_len).
     rbind (push_apic_frames segments buf frames_len arts) (\<lambda>(segments, buf, frames_len).
     rbind (synchsafe_len frames_len) (\<lambda>n.
     rbind (checked_add 10 frames_len) (\<lambda>tag_len.
     Inr (Inline (id3_magic @ [4, 0, 0] @ syncsafe n) # flush_inline buf segments, tag_len))))))))))"

definition mp3_synthesize_layout ::
  "nat \<Rightarrow> nat \<Rightarrow> tag_input list \<Rightarrow> binary_tag_input list \<Rightarrow> art_input list \<Rightarrow> region_layout fresult" where
  "mp3_synthesize_layout audio_offset audio_length tags binary_tags arts =
     rbind (build_id3v2_segments tags binary_tags arts) (\<lambda>(segments, tag_len).
     map_err InvalidLayout (validated (segments @ [BackingAudio audio_offset audio_length])))"

subsection \<open>The bounded probe is the whole-file one\<close>

text \<open>
  On a front window of the file, with the file's length and last 128 bytes, the bounded probe either
  gives the answer the whole file would give, error for error, or asks for more than it was given.
\<close>

definition file_tail :: "bytes \<Rightarrow> bytes option" where
  "file_tail data = (if length data < 128 then None else Some (slice data (length data - 128) 128))"

lemma id3_total_len_window:
  "10 \<le> k \<or> length data \<le> k \<Longrightarrow> id3_total_len (take k data) = id3_total_len data"
  using id3_total_len_prefix[of "take k data" "drop k data"]
  by (cases "length data \<le> k") (auto simp: id3_header_len_def)


lemma bounded_need_more:
  "mp3_locate_audio_bounded prefx file_len ftail = Inr (NeedMore n) \<Longrightarrow> length prefx < n \<and> n \<le> file_len"
  by (auto simp: mp3_locate_audio_bounded_def rbind_eq_Inr Let_def split: if_splits option.splits)

lemma bounded_agrees:
  assumes p: "prefx = take k data"
    and r: "\<nexists>n. mp3_locate_audio_bounded prefx (length data) (file_tail data) = Inr (NeedMore n)"
  shows "mp3_locate_audio_bounded prefx (length data) (file_tail data) = rbind (mp3_locate_audio data) (\<lambda>b. Inr (Complete b))"
proof -
  have k: "10 \<le> k \<or> length data \<le> k \<or> length data < 10"
    using r by (auto simp: mp3_locate_audio_bounded_def p)
  have len: "id3_total_len prefx = id3_total_len data"
  proof (cases "10 \<le> k \<or> length data \<le> k")
    case True
    thus ?thesis unfolding p by (rule id3_total_len_window)
  next
    case False
    thus ?thesis using k by (simp add: p id3_total_len_def body_end_def id3_header_len_def)
  qed
  have ng: "\<not> (length prefx < 10 \<and> 10 \<le> length data)"
    using r by (auto simp: mp3_locate_audio_bounded_def)
  show ?thesis
  proof (cases "id3_total_len data")
    case (Inl e)
    thus ?thesis using len ng by (simp add: mp3_locate_audio_bounded_def mp3_locate_audio_def)
  next
    case (Inr v)
    define off where "off = (case v of Some n \<Rightarrow> n | None \<Rightarrow> 0)"
    show ?thesis
    proof (cases "length data < off + 2")
      case True
      thus ?thesis using len ng Inr
        by (auto simp: mp3_locate_audio_bounded_def mp3_locate_audio_def off_def Let_def split: option.splits)
    next
      case False
      have fit: "off + 2 \<le> length prefx"
        using r len ng Inr False
        by (auto simp: mp3_locate_audio_bounded_def off_def Let_def not_less split: option.splits if_splits)
      have nth: "prefx ! off = data ! off" "prefx ! (off + 1) = data ! (off + 1)" using fit by (simp_all add: p)
      have t: "(case file_tail data of Some t \<Rightarrow>
            if off + 128 \<le> length data \<and> slice t 0 3 = id3v1_magic then length data - 128 else length data
          | None \<Rightarrow> length data) =
        (if off + 128 \<le> length data \<and> slice data (length data - 128) 3 = id3v1_magic then length data - 128 else length data)"
        by (auto simp: file_tail_def slice_slice)
      have opt: "(case v of Some tag_len \<Rightarrow> if tag_len > length data then Inl Malformed else Inr tag_len | None \<Rightarrow> Inr 0) = Inr off"
        using False by (auto simp: off_def split: option.splits)
      have b: "mp3_locate_audio_bounded prefx (length data) (file_tail data) =
        (if \<not> frame_sync (data ! off) (data ! (off + 1)) then Inl NotMp3
         else Inr (Complete \<lparr> mb_audio_offset = off, mb_audio_length =
           (if off + 128 \<le> length data \<and> slice data (length data - 128) 3 = id3v1_magic then length data - 128 else length data) - off \<rparr>))"
        unfolding mp3_locate_audio_bounded_def Let_def len Inr rbind.simps opt t using ng False fit nth by simp
      have "mp3_locate_audio data =
        (if \<not> frame_sync (data ! off) (data ! (off + 1)) then Inl NotMp3
         else Inr (\<lparr> mb_audio_offset = off, mb_audio_length =
           (if off + 128 \<le> length data \<and> slice data (length data - 128) 3 = id3v1_magic then length data - 128 else length data) - off \<rparr>))"
        using Inr False unfolding mp3_locate_audio_def by (cases v) (auto simp: off_def Let_def)
      thus ?thesis using b by simp
    qed
  qed
qed

subsection \<open>Synchsafe sizes\<close>

lemma syncsafe_length [simp, len_simps]: "length (syncsafe n) = 4"
  by (simp add: syncsafe_def)

lemma synchsafe_len_eq [simp]: "synchsafe_len n = Inr m \<longleftrightarrow> m = n \<and> n \<le> synchsafe_max"
  by (auto simp: synchsafe_len_def u32_try_from_def u32_max_def synchsafe_max_def split: if_splits)

lemma low7: "n AND 0x7F = n mod (128 :: nat)"
  using take_bit_eq_mask[of 7 n] by (simp add: take_bit_eq_mod mask_eq_exp_minus_1)

lemma byte_low7: "unat ((word_of_nat (n AND 0x7F) :: byte) AND 0x7F) = n mod 128"
proof -
  have m: "unat (word_of_nat (n mod 128) :: byte) = n mod 128"
    by (simp add: unat_of_nat)
  have "unat ((word_of_nat (n mod 128) :: byte) AND 0x7F) = unat (word_of_nat (n mod 128) :: byte) AND unat (0x7F :: byte)"
    by (simp add: unsigned_and_eq)
  also have "\<dots> = n mod 128" by (simp add: m low7)
  finally show ?thesis by (simp add: low7)
qed

lemma or_low: "push_bit k a OR b = 2 ^ k * a + (b :: nat)" if "b < 2 ^ k"
proof -
  have "bit b n \<Longrightarrow> n < k" for n
    using bit_take_bit_iff[of k b n] that by (simp add: take_bit_nat_eq_self)
  hence "\<not> (bit b n \<and> k \<le> n)" for n using leD by blast
  hence "push_bit k a AND b = 0"
    by (intro bit_eqI) (auto simp: bit_and_iff bit_push_bit_iff)
  hence "push_bit k a OR b = push_bit k a + b" by (simp add: disjunctive_add_eq_or)
  thus ?thesis by (simp add: push_bit_eq_mult)
qed

lemma synchsafe_decode_syncsafe [codec_simps]:
  assumes "n \<le> synchsafe_max"
  shows "synchsafe_decode (syncsafe n) = n"
proof -
  define a b c d where v: "a = n div 2097152 mod 128" "b = n div 16384 mod 128" "c = n div 128 mod 128" "d = n mod 128"
  have lt: "a < 128" "b < 128" "c < 128" "d < 128" by (simp_all add: v)
  have "synchsafe_decode (syncsafe n) = push_bit 21 a OR push_bit 14 b OR push_bit 7 c OR d"
    by (simp add: synchsafe_decode_def syncsafe_def byte_low7 drop_bit_eq_div v)
  also have "\<dots> = 2097152 * a + 16384 * b + 128 * c + d"
  proof -
    have "push_bit 7 c OR d = 128 * c + d" using or_low[of d 7 c] lt by simp
    moreover have "push_bit 14 b OR (128 * c + d) = 16384 * b + (128 * c + d)"
      using or_low[of "128 * c + d" 14 b] lt by simp
    moreover have "push_bit 21 a OR (16384 * b + (128 * c + d)) = 2097152 * a + (16384 * b + (128 * c + d))"
      using or_low[of "16384 * b + (128 * c + d)" 21 a] lt by simp
    ultimately show ?thesis by (simp add: or.assoc)
  qed
  also have "\<dots> = n"
  proof -
    have "n div 2097152 < 128" using assms by (simp add: synchsafe_max_def less_mult_imp_div_less)
    hence "a = n div 2097152" by (simp add: v)
    moreover have "n div 16384 = 128 * (n div 2097152) + b" "n div 128 = 128 * (n div 16384) + c" "n = 128 * (n div 128) + d"
      using div_mult_mod_eq[of "n div 16384" 128] div_mult_mod_eq[of "n div 128" 128]
      by (simp_all add: v div_mult2_eq[symmetric])
    ultimately show ?thesis by simp
  qed
  finally show ?thesis .
qed

lemma syncsafe_high: "b \<in> set (syncsafe n) \<Longrightarrow> b AND 0x80 = 0"
proof -
  assume "b \<in> set (syncsafe n)"
  then obtain m :: nat where b: "b = word_of_nat (m AND 0x7F)" by (auto simp: syncsafe_def)
  have "unat b = m mod 128" by (simp add: b low7 unat_of_nat)
  hence "\<not> bit (unat b) 7" using bit_take_bit_iff[of 7 m 7] by (simp add: take_bit_eq_mod)
  hence "\<not> bit b 7" by (simp add: bit_unsigned_iff)
  thus ?thesis using and_exp_eq_0_iff_not_bit[of b 7] by simp
qed

end
