(* ===== verification/Mp3_Read.thy ===== *)
theory Mp3_Read
  imports Mp3
begin

text \<open>
  MP3, musefs-format/src/mp3.rs, second half: the guard in front of the id3 crate, the readers of
  text tags and pictures (the crate's parser is a parameter, what it returns a record), and the
  reader of binary frames. A slice or index out of range is a panic, the answer None.
\<close>

unbundle bit_operations_syntax

subsection \<open>The allocation guard\<close>

definition alloc_frame_size :: "bytes \<Rightarrow> nat \<Rightarrow> nat option" where
  "alloc_frame_size data pos =
     (let major = data ! 3 in
      if major = 2 then Some (be_val (slice data (pos + 3) 3))
      else if data ! (pos + 8) \<noteq> 0 \<or> data ! (pos + 9) \<noteq> 0 then None
      else if major = 3 then Some (be_val (slice data (pos + 4) 4))
      else if 0x80 \<le> data ! (pos + 4) OR data ! (pos + 5) OR data ! (pos + 6) OR data ! (pos + 7) then None
      else Some (synchsafe_decode (slice data (pos + 4) 4)))"

function alloc_walk :: "bytes \<Rightarrow> nat \<Rightarrow> nat \<Rightarrow> bool" where
  "alloc_walk data tag_end pos =
     (let header_len = (if data ! 3 = 2 then 6 else 10) in
      if pos + header_len > length data then True
      else if data ! pos = 0 then True
      else if data ! 3 \<noteq> 2 \<and> (slice data pos 4 = as_bytes ''CHAP'' \<or> slice data pos 4 = as_bytes ''CTOC'') then False
      else case alloc_frame_size data pos of
             None \<Rightarrow> False
           | Some n \<Rightarrow>
               let data_start = pos + header_len in
               if data_start > tag_end \<or> n > tag_end - data_start then False
               else if data_start + n \<ge> tag_end then True
               else alloc_walk data tag_end (data_start + n))"
  by pat_completeness auto
termination by (relation "measure (\<lambda>(data, tag_end, pos). tag_end - pos)") (auto split: if_splits)

declare alloc_walk.simps [simp del]

definition id3v2_alloc_safe :: "bytes \<Rightarrow> bool" where
  "id3v2_alloc_safe data =
     (case body_end data of
        Inr (Some tag_end) \<Rightarrow>
          frames_are_parseable data \<and> data ! 5 AND 0xC0 = 0 \<and> tag_end \<le> length data \<and> alloc_walk data tag_end 10
      | _ \<Rightarrow> False)"

subsection \<open>Text tags and pictures\<close>

record id3_frame =
  fr_id :: string
  fr_extended_text :: "(string \<times> string) option"
  fr_comment :: "(string \<times> string \<times> string) option"
  fr_lyrics :: "(string \<times> string \<times> string) option"
  fr_text :: "string option"

record id3_picture =
  ip_mime_type :: string
  ip_picture_type :: nat
  ip_description :: string
  ip_data :: bytes

record id3_tag =
  tag_frames :: "id3_frame list"
  tag_pictures :: "id3_picture list"

fun split_nul :: "string \<Rightarrow> string list" where
  "split_nul [] = [[]]"
| "split_nul (c # cs) =
     (if c = CHR 0x00 then [] # split_nul cs
      else case split_nul cs of [] \<Rightarrow> [[c]] | w # ws \<Rightarrow> (c # w) # ws)"

definition frame_tags :: "id3_frame \<Rightarrow> (string \<times> string) list" where
  "frame_tags frame =
     (case fr_extended_text frame of
        Some (description, v) \<Rightarrow>
          [(case id3_txxx_to_key description of Some k \<Rightarrow> k | None \<Rightarrow> description, v)]
      | None \<Rightarrow> (case fr_comment frame of
        Some (lang, description, text) \<Rightarrow> [(comm_like_key ''COMM'' lang description ''comment'', text)]
      | None \<Rightarrow> (case fr_lyrics frame of
        Some (lang, description, text) \<Rightarrow> [(comm_like_key ''USLT'' lang description ''lyrics'', text)]
      | None \<Rightarrow> (case fr_text frame of
        Some text \<Rightarrow>
          (let key = (case id3_text_to_key (fr_id frame) of Some k \<Rightarrow> k | None \<Rightarrow> fr_id frame)
           in map (\<lambda>v. (key, v)) (filter (\<lambda>v. v \<noteq> []) (split_nul text)))
      | None \<Rightarrow> []))))"

definition mp3_read_tags :: "(bytes \<Rightarrow> id3_tag option) \<Rightarrow> bytes \<Rightarrow> (string \<times> string) list" where
  "mp3_read_tags read_from data =
     (if \<not> id3v2_alloc_safe data then []
      else case read_from data of None \<Rightarrow> [] | Some tag \<Rightarrow> concat (map frame_tags (tag_frames tag)))"

definition mp3_read_pictures :: "(bytes \<Rightarrow> id3_tag option) \<Rightarrow> bytes \<Rightarrow> embedded_picture list" where
  "mp3_read_pictures read_from data =
     (if \<not> id3v2_alloc_safe data then []
      else case read_from data of
             None \<Rightarrow> []
           | Some tag \<Rightarrow>
               map (\<lambda>p. \<lparr> pic_mime = ip_mime_type p,
                   pic_type = (case picture_type_new (ip_picture_type p) of Some t \<Rightarrow> t | None \<Rightarrow> 0),
                   pic_description = ip_description p, pic_width = 0, pic_height = 0, pic_data = ip_data p \<rparr>)
                 (tag_pictures tag))"

subsection \<open>Binary frames\<close>

type_synonym binary_tags = "embedded_binary_tag list \<times> (string \<times> string) list"

definition is_ascii_graphic :: "byte \<Rightarrow> bool" where
  "is_ascii_graphic b \<longleftrightarrow> 0x21 \<le> b \<and> b \<le> 0x7E"

text \<open>The bytes before the first NUL and after it.\<close>

definition split_owner :: "bytes \<Rightarrow> (bytes \<times> bytes) option" where
  "split_owner body = (if 0 \<in> set body then Some (takeWhile (\<lambda>b. b \<noteq> 0) body, tl (dropWhile (\<lambda>b. b \<noteq> 0) body)) else None)"

definition popm_promoted :: "bytes \<Rightarrow> (string \<times> string) list" where
  "popm_promoted body =
     (case split_owner body of
        Some (_, rating # counter) \<Rightarrow>
          (let c = be_val (take 8 counter) in
           (''rating'', dec (unat rating)) # (if c > 0 then [(''playcount'', dec c)] else []))
      | _ \<Rightarrow> [])"

definition classify_binary_frame :: "bytes \<Rightarrow> bytes \<Rightarrow> binary_tags \<Rightarrow> binary_tags" where
  "classify_binary_frame ident body acc =
     (case acc of (opaque, promoted) \<Rightarrow>
      if ident ! 0 = 0x54 \<or> ident = as_bytes ''COMM'' \<or> ident = as_bytes ''USLT'' \<or> ident = as_bytes ''APIC''
      then (opaque, promoted)
      else if ident = as_bytes ''POPM'' then (opaque, promoted @ popm_promoted body)
      else if ident = as_bytes ''UFID'' then
        (case split_owner body of
           Some (owner, rest) \<Rightarrow>
             if owner = as_bytes musicbrainz_ufid_owner
             then (opaque, promoted @ [(''musicbrainz_trackid'', from_utf8_lossy rest)])
             else (opaque @ [\<lparr> ebt_key = ''UFID'', ebt_payload = body \<rparr>], promoted)
         | None \<Rightarrow> (opaque @ [\<lparr> ebt_key = ''UFID'', ebt_payload = body \<rparr>], promoted))
      else if list_all is_ascii_graphic ident
      then (opaque @ [\<lparr> ebt_key = from_utf8_lossy ident, ebt_payload = body \<rparr>], promoted)
      else (opaque, promoted))"

function binary_walk :: "bytes \<Rightarrow> nat \<Rightarrow> nat \<Rightarrow> binary_tags \<Rightarrow> binary_tags option" where
  "binary_walk data tag_end pos acc =
     (if pos + 10 > tag_end then Some acc
      else case get_at data pos of
        None \<Rightarrow> None
      | Some b \<Rightarrow>
          if b = 0 then Some acc
          else Option.bind (get_slice data pos (pos + 4)) (\<lambda>ident.
               Option.bind (get_slice data (pos + 4) (pos + 8)) (\<lambda>raw.
               let n = decode_frame_size (data ! 3) raw; body_start = pos + 10 in
               if body_start + n > tag_end then Some acc
               else Option.bind (get_slice data body_start (body_start + n)) (\<lambda>body.
                    binary_walk data tag_end (body_start + n) (classify_binary_frame ident body acc)))))"
  by pat_completeness auto
termination by (relation "measure (\<lambda>(data, tag_end, pos, acc). tag_end - pos)") auto

declare binary_walk.simps [simp del]

definition mp3_read_binary_tags :: "bytes \<Rightarrow> binary_tags option" where
  "mp3_read_binary_tags data =
     (if \<not> id3v2_alloc_safe data \<or> data ! 3 < 3 then Some ([], [])
      else binary_walk data (10 + synchsafe_decode (slice data 6 4)) 10 ([], []))"

lemma binary_walk_total: "tag_end \<le> length data \<Longrightarrow> binary_walk data tag_end pos acc \<noteq> None"
proof (induction data tag_end pos acc rule: binary_walk.induct)
  case (1 data tag_end pos acc)
  show ?case
    using 1 by (subst binary_walk.simps) (auto simp: Let_def get_slice_def split: option.splits)
qed

lemma alloc_safeD:
  assumes "id3v2_alloc_safe data"
  shows "10 + synchsafe_decode (slice data 6 4) \<le> length data" "alloc_walk data (10 + synchsafe_decode (slice data 6 4)) 10"
  using assms by (auto simp: id3v2_alloc_safe_def body_end_def id3_header_len_def split: sum.splits option.splits if_splits)

lemma read_binary_tags_total: "mp3_read_binary_tags data \<noteq> None"
  using binary_walk_total alloc_safeD(1) by (simp add: mp3_read_binary_tags_def)

subsection \<open>Reading a written tag\<close>

definition frame_bytes :: "bytes \<times> bytes \<Rightarrow> bytes" where
  "frame_bytes f = fst f @ syncsafe (length (snd f)) @ [0, 0] @ snd f"

definition frames_bytes :: "(bytes \<times> bytes) list \<Rightarrow> bytes" where
  "frames_bytes fs = concat (map frame_bytes fs)"

definition frame_ok :: "bytes \<times> bytes \<Rightarrow> bool" where
  "frame_ok f \<longleftrightarrow> length (fst f) = 4 \<and> fst f ! 0 \<noteq> 0 \<and> fst f \<noteq> as_bytes ''CHAP'' \<and> fst f \<noteq> as_bytes ''CTOC'' \<and>
     length (snd f) \<le> synchsafe_max"

definition tag_bytes :: "(bytes \<times> bytes) list \<Rightarrow> bytes" where
  "tag_bytes fs = id3_magic @ [4, 0, 0] @ syncsafe (length (frames_bytes fs)) @ frames_bytes fs"

lemma frames_bytes_simps [simp]:
  "frames_bytes [] = []" "frames_bytes (f # fs) = frame_bytes f @ frames_bytes fs"
  "frames_bytes (fs @ gs) = frames_bytes fs @ frames_bytes gs"
  by (simp_all add: frames_bytes_def)

lemma frame_bytes_length: "length (fst f) = 4 \<Longrightarrow> length (frame_bytes f) = 10 + length (snd f)"
  by (simp add: frame_bytes_def)


lemma slice_at: "length pre = pos \<Longrightarrow> slice (pre @ xs) (pos + k) n = slice xs k n"
  by (simp add: slice_def)

lemma syncsafe_not_high: "\<not> 0x80 \<le> syncsafe n ! 0 OR syncsafe n ! 1 OR syncsafe n ! 2 OR syncsafe n ! 3"
proof -
  define b where "b = syncsafe n ! 0 OR syncsafe n ! 1 OR syncsafe n ! 2 OR syncsafe n ! 3"
  have "b AND 0x80 = 0"
    using syncsafe_high[of "syncsafe n ! 0" n] syncsafe_high[of "syncsafe n ! 1" n]
      syncsafe_high[of "syncsafe n ! 2" n] syncsafe_high[of "syncsafe n ! 3" n]
    by (simp add: b_def bit.conj_disj_distrib2)
  hence "\<not> bit b 7" using and_exp_eq_0_iff_not_bit[of b 7] by simp
  hence "\<not> bit (unat b) 7" by (simp add: bit_unsigned_iff)
  moreover have "unat b div 128 = 1" if "128 \<le> unat b"
    using that unat_byte_lt[of b] by (intro div_nat_eqI) simp_all
  ultimately have "\<not> 128 \<le> unat b" by (auto simp: bit_iff_odd)
  thus ?thesis by (simp add: b_def word_le_nat_alt)
qed

lemma frame_at:
  assumes f: "frame_ok f" and d: "data = pre @ frame_bytes f @ rest" "length pre = pos"
  shows "pos + 10 + length (snd f) \<le> length data"
    "data ! pos = fst f ! 0" "slice data pos 4 = fst f" "slice data (pos + 4) 4 = syncsafe (length (snd f))"
    "data ! (pos + 8) = 0" "data ! (pos + 9) = 0" "slice data (pos + 10) (length (snd f)) = snd f"
    "data ! (pos + 4) = syncsafe (length (snd f)) ! 0" "data ! (pos + 5) = syncsafe (length (snd f)) ! 1"
    "data ! (pos + 6) = syncsafe (length (snd f)) ! 2" "data ! (pos + 7) = syncsafe (length (snd f)) ! 3"
proof -
  obtain a0 a1 a2 a3 where i: "fst f = [a0, a1, a2, a3]"
    using f by (auto simp: frame_ok_def numeral_eq_Suc length_Suc_conv)
  obtain s0 s1 s2 s3 where s: "syncsafe (length (snd f)) = [s0, s1, s2, s3]" by (simp add: syncsafe_def)
  have x: "frame_bytes f @ rest = [a0, a1, a2, a3, s0, s1, s2, s3, 0, 0] @ snd f @ rest"
    by (simp add: frame_bytes_def i s)
  have n: "data ! (pos + k) = ([a0, a1, a2, a3, s0, s1, s2, s3, 0, 0] @ snd f @ rest) ! k" for k
    unfolding d(1) x by (simp add: d(2)[symmetric])
  note sl = slice_at[OF d(2), of "frame_bytes f @ rest", folded d(1), unfolded x]
  show "data ! pos = fst f ! 0" "data ! (pos + 8) = 0" "data ! (pos + 9) = 0"
    "data ! (pos + 4) = syncsafe (length (snd f)) ! 0" "data ! (pos + 5) = syncsafe (length (snd f)) ! 1"
    "data ! (pos + 6) = syncsafe (length (snd f)) ! 2" "data ! (pos + 7) = syncsafe (length (snd f)) ! 3"
    using n[of 0] n[of 8] n[of 9] n[of 4] n[of 5] n[of 6] n[of 7] by (simp_all add: i s)
  show "slice data pos 4 = fst f" "slice data (pos + 4) 4 = syncsafe (length (snd f))"
    "slice data (pos + 10) (length (snd f)) = snd f"
    using sl[of 0 4] sl[of 4 4] sl[of 10 "length (snd f)"] by (simp_all add: slice_def i s)
  show "pos + 10 + length (snd f) \<le> length data" using f d by (simp add: frame_bytes_length frame_ok_def)
qed

lemma alloc_walk_frames:
  assumes "fs \<noteq> []" "\<forall>f\<in>set fs. frame_ok f" "data = pre @ frames_bytes fs @ rest" "data ! 3 = 4"
    "tag_end = length pre + length (frames_bytes fs)"
  shows "alloc_walk data tag_end (length pre)"
  using assms
proof (induction fs arbitrary: pre)
  case (Cons f fs)
  have f: "frame_ok f" and d: "data = pre @ frame_bytes f @ (frames_bytes fs @ rest)" using Cons.prems by simp_all
  note at = frame_at[OF f d refl]
  have id: "length (fst f) = 4" "fst f ! 0 \<noteq> 0" "fst f \<noteq> as_bytes ''CHAP''" "fst f \<noteq> as_bytes ''CTOC''" "length (snd f) \<le> synchsafe_max"
    using f by (simp_all add: frame_ok_def)
  have m: "data ! 3 \<noteq> 2" "data ! 3 \<noteq> 3" using Cons.prems(4) by simp_all
  have sz: "alloc_frame_size data (length pre) = Some (length (snd f))"
    using at id(5) m syncsafe_not_high[of "length (snd f)"]
    by (simp add: alloc_frame_size_def Let_def synchsafe_decode_syncsafe)
  have te: "tag_end = length pre + 10 + length (snd f) + length (frames_bytes fs)"
    using Cons.prems(5) frame_bytes_length[OF id(1)] by simp
  show ?case
  proof (cases "fs = []")
    case True
    have "\<not> length pre + 10 > length data" using at(1) by simp
    thus ?thesis using True te sz m at(2,3) id by (subst alloc_walk.simps) (simp add: Let_def)
  next
    case False
    have "alloc_walk data tag_end (length (pre @ frame_bytes f))"
      using Cons.prems by (intro Cons.IH) (simp_all add: False)
    hence ih: "alloc_walk data tag_end (length pre + 10 + length (snd f))"
      using frame_bytes_length[OF id(1)] by (simp add: add.assoc)
    have "\<not> length pre + 10 > length data" using at(1) by simp
    thus ?thesis using te sz m at(2,3) id ih by (subst alloc_walk.simps) (simp add: Let_def)
  qed
qed simp

lemma binary_walk_frames:
  assumes "\<forall>f\<in>set fs. frame_ok f" "data = pre @ frames_bytes fs @ rest" "data ! 3 = 4"
    "tag_end = length pre + length (frames_bytes fs)"
  shows "binary_walk data tag_end (length pre) acc = Some (fold (\<lambda>f. classify_binary_frame (fst f) (snd f)) fs acc)"
  using assms
proof (induction fs arbitrary: pre acc)
  case Nil
  thus ?case by (subst binary_walk.simps) simp
next
  case (Cons f fs)
  have f: "frame_ok f" and d: "data = pre @ frame_bytes f @ (frames_bytes fs @ rest)" using Cons.prems by simp_all
  note at = frame_at[OF f d refl]
  have id: "length (fst f) = 4" "fst f ! 0 \<noteq> 0" "length (snd f) \<le> synchsafe_max" using f by (simp_all add: frame_ok_def)
  have te: "tag_end = length pre + 10 + length (snd f) + length (frames_bytes fs)"
    using Cons.prems(4) frame_bytes_length[OF id(1)] by simp
  have g: "get_slice data (length pre) (length pre + 4) = Some (fst f)"
    "get_slice data (length pre + 4) (length pre + 8) = Some (syncsafe (length (snd f)))"
    "get_slice data (length pre + 10) (length pre + 10 + length (snd f)) = Some (snd f)"
    using at by (simp_all add: get_slice_eq_Some)
  have b: "get_at data (length pre) = Some (fst f ! 0)" unfolding get_at_def using at(1,2) by simp
  have sz: "decode_frame_size (data ! 3) (syncsafe (length (snd f))) = length (snd f)"
    using Cons.prems(3) id(3) by (simp add: decode_frame_size_def synchsafe_decode_syncsafe)
  have "binary_walk data tag_end (length (pre @ frame_bytes f)) (classify_binary_frame (fst f) (snd f) acc) =
    Some (fold (\<lambda>f. classify_binary_frame (fst f) (snd f)) fs (classify_binary_frame (fst f) (snd f) acc))"
    using Cons.prems by (intro Cons.IH) simp_all
  hence ih: "binary_walk data tag_end (length pre + 10 + length (snd f)) (classify_binary_frame (fst f) (snd f) acc) =
    Some (fold (\<lambda>f. classify_binary_frame (fst f) (snd f)) fs (classify_binary_frame (fst f) (snd f) acc))"
    using frame_bytes_length[OF id(1)] by (simp add: add.assoc)
  show ?case unfolding binary_walk.simps[of data tag_end "length pre"] b using te g sz id(2) ih by (simp add: Let_def)
qed

lemma tag_bytes_header:
  assumes "length (frames_bytes fs) \<le> synchsafe_max"
  shows "body_end (tag_bytes fs @ rest) = Inr (Some (10 + length (frames_bytes fs)))"
    "id3_total_len (tag_bytes fs @ rest) = Inr (Some (10 + length (frames_bytes fs)))"
    "slice (tag_bytes fs @ rest) 6 4 = syncsafe (length (frames_bytes fs))"
    "(tag_bytes fs @ rest) ! 3 = 4" "(tag_bytes fs @ rest) ! 5 = 0" "10 \<le> length (tag_bytes fs @ rest)"
    "length (tag_bytes fs) = 10 + length (frames_bytes fs)"
proof -
  let ?n = "length (frames_bytes fs)"
  obtain s0 s1 s2 s3 where s: "syncsafe ?n = [s0, s1, s2, s3]" by (simp add: syncsafe_def)
  have x: "tag_bytes fs @ rest = [0x49, 0x44, 0x33, 4, 0, 0, s0, s1, s2, s3] @ frames_bytes fs @ rest"
    by (simp add: tag_bytes_def id3_magic_def s)
  show sl: "slice (tag_bytes fs @ rest) 6 4 = syncsafe ?n"
    and n: "(tag_bytes fs @ rest) ! 3 = 4" "(tag_bytes fs @ rest) ! 5 = 0"
    and len: "10 \<le> length (tag_bytes fs @ rest)"
    and "length (tag_bytes fs) = 10 + length (frames_bytes fs)"
    unfolding x by (simp_all add: slice_def s tag_bytes_def id3_magic_def)
  have "slice (tag_bytes fs @ rest) 0 3 = id3_magic" "(tag_bytes fs @ rest) ! 4 = 0"
    unfolding x by (simp_all add: slice_def id3_magic_def)
  moreover have "\<not> list_ex (\<lambda>b. b AND 0x80 \<noteq> 0) (syncsafe ?n)" using syncsafe_high by (auto simp: list_ex_iff)
  ultimately show b: "body_end (tag_bytes fs @ rest) = Inr (Some (10 + ?n))"
    using sl n len assms by (simp add: body_end_def id3_header_len_def synchsafe_decode_syncsafe)
  show "id3_total_len (tag_bytes fs @ rest) = Inr (Some (10 + ?n))"
    using n by (simp add: id3_total_len_def b)
qed

lemma read_written_tag:
  assumes "\<forall>f\<in>set fs. frame_ok f" "length (frames_bytes fs) \<le> synchsafe_max"
  shows "mp3_read_binary_tags (tag_bytes fs @ rest) = Some (fold (\<lambda>f. classify_binary_frame (fst f) (snd f)) fs ([], []))"
    "fs \<noteq> [] \<Longrightarrow> id3v2_alloc_safe (tag_bytes fs @ rest)"
proof -
  let ?d = "tag_bytes fs @ rest" and ?pre = "id3_magic @ [4, 0, 0] @ syncsafe (length (frames_bytes fs))"
  note h = tag_bytes_header(1-6)[OF assms(2), of rest]
  have d: "?d = ?pre @ frames_bytes fs @ rest" "length ?pre = 10" by (simp_all add: tag_bytes_def id3_magic_def)
  have te: "10 + synchsafe_decode (slice ?d 6 4) = length ?pre + length (frames_bytes fs)"
    using assms(2) h(3) d(2) by (simp add: synchsafe_decode_syncsafe)
  show safe: "id3v2_alloc_safe ?d" if "fs \<noteq> []"
    using alloc_walk_frames[OF that assms(1) d(1) h(4) refl] h tag_bytes_header(7)[OF assms(2)] d(2)
    by (simp add: id3v2_alloc_safe_def frames_are_parseable_def id3_header_len_def)
  show "mp3_read_binary_tags ?d = Some (fold (\<lambda>f. classify_binary_frame (fst f) (snd f)) fs ([], []))"
  proof (cases "fs = []")
    case True
    thus ?thesis using te d(2) by (simp add: mp3_read_binary_tags_def binary_walk.simps)
  next
    case False
    thus ?thesis using binary_walk_frames[OF assms(1) d(1) h(4) te, of "([], [])"] safe d(2) h(4)
      by (simp add: mp3_read_binary_tags_def)
  qed
qed

end
