(* ===== verification/Mp3_Roundtrip.thy ===== *)
theory Mp3_Roundtrip
  imports Mp3_Read
begin

text \<open>
  The MP3 writer against the MP3 readers: the bytes of a built tag are its frames in order, and the
  reader of binary frames finds in the synthesized file exactly what was put in.
\<close>

unbundle bit_operations_syntax

subsection \<open>The frames of a tag\<close>

definition text_frames :: "tag_input list \<Rightarrow> (bytes \<times> bytes) list" where
  "text_frames tags = concat (map (\<lambda>g. group_frames (fst g) (snd g)) (group_tags [] tags))"

definition promoted_frames :: "tag_input list \<Rightarrow> (bytes \<times> bytes) list" where
  "promoted_frames tags =
     (case promoted_values (None, 0, None) tags of (rating, playcount, mbid) \<Rightarrow>
      rating_frames rating playcount @ mbid_frames mbid)"

definition binary_frames :: "byte_env \<Rightarrow> binary_tag_input list \<Rightarrow> (bytes \<times> bytes) list" where
  "binary_frames v bts =
     map (\<lambda>bt. (as_bytes (bt_key bt), env_tag v (bt_payload_id bt))) (filter (\<lambda>bt. length (bt_key bt) = 4) bts)"

definition apic_frames :: "byte_env \<Rightarrow> art_input list \<Rightarrow> (bytes \<times> bytes) list" where
  "apic_frames v arts = map (\<lambda>a. (as_bytes ''APIC'', apic_framing a @ env_art v (ai_art_id a))) arts"

definition all_frames :: "byte_env \<Rightarrow> tag_input list \<Rightarrow> binary_tag_input list \<Rightarrow> art_input list \<Rightarrow> (bytes \<times> bytes) list" where
  "all_frames v tags bts arts = text_frames tags @ promoted_frames tags @ binary_frames v bts @ apic_frames v arts"

text \<open>Identifiers of four bytes, bodies within the synchsafe range.\<close>

definition sized :: "bytes \<times> bytes \<Rightarrow> bool" where
  "sized f \<longleftrightarrow> length (fst f) = 4 \<and> length (snd f) \<le> synchsafe_max"

lemma push_frame_header_eq [simp]:
  "push_frame_header out ident n = Inr b \<longleftrightarrow> b = out @ ident @ syncsafe n @ [0, 0] \<and> n \<le> synchsafe_max"
  by (auto simp: push_frame_header_def rbind_eq_Inr)

lemma push_frames_bytes:
  assumes "push_frames buf n fs = Inr (b, m)" "\<forall>f\<in>set fs. length (fst f) = 4"
  shows "b = buf @ frames_bytes fs \<and> m = n + length (frames_bytes fs) \<and> (\<forall>f\<in>set fs. sized f)"
  using assms
proof (induction fs arbitrary: buf n)
  case (Cons f fs)
  obtain ident data where f: "f = (ident, data)" by (cases f)
  have "push_frames (buf @ frame_bytes f) (n + (10 + length data)) fs = Inr (b, m)" "length data \<le> synchsafe_max"
    using Cons.prems(1) by (auto simp: f frame_bytes_def rbind_eq_Inr)
  with Cons.IH[OF this(1)] Cons.prems(2) show ?case
    by (simp add: f sized_def frame_bytes_length)
qed simp

text \<open>The generic frames are the ones the reader of binary frames skips.\<close>

definition text_frame :: "bytes \<times> bytes \<Rightarrow> bool" where
  "text_frame f \<longleftrightarrow> length (fst f) = 4 \<and> (fst f ! 0 = 0x54 \<or> fst f = as_bytes ''COMM'' \<or> fst f = as_bytes ''USLT'')"

lemma vocab_text_ids:
  "list_all (\<lambda>e. case e_id3 e of Id3Text i \<Rightarrow> length i = 4 \<and> as_bytes i ! 0 = 0x54 | _ \<Rightarrow> True) vocab"
  by code_simp

lemma key_to_id3_text: "key_to_id3 key = Some (Id3Text i) \<Longrightarrow> length i = 4 \<and> as_bytes i ! 0 = 0x54"
  using vocab_text_ids by (auto simp: key_to_id3_def Let_def list_all_iff find_Some_iff dest: nth_mem split: id3_slot.splits)

lemma four_ids:
  "length (as_bytes ''TXXX'') = 4" "as_bytes ''TXXX'' ! 0 = 0x54" "length (as_bytes ''COMM'') = 4"
  "length (as_bytes ''USLT'') = 4" "length (as_bytes ''POPM'') = 4" "length (as_bytes ''UFID'') = 4"
  "length (as_bytes ''APIC'') = 4"
  by (simp_all add: as_bytes_def)

lemma group_frames_text: "f \<in> set (group_frames key values) \<Longrightarrow> text_frame f"
proof -
  assume f: "f \<in> set (group_frames key values)"
  have t: "is_id3_text_frame_id key \<Longrightarrow> length key = 4 \<and> as_bytes key ! 0 = 0x54"
    by (cases key) (auto simp: is_id3_text_frame_id_def as_bytes_def)
  have c: "parse_comm_like_key key = Some (a, b, d) \<Longrightarrow> a = as_bytes ''COMM'' \<or> a = as_bytes ''USLT''" for a b d
    by (auto simp: parse_comm_like_key_def bind_eq_Some_conv split: if_splits prod.splits)
  show ?thesis
  proof (cases "key_to_id3 key")
    case None
    thus ?thesis using f t c four_ids
      by (auto simp: group_frames_def text_frame_def split: if_splits option.splits)
  next
    case (Some slot)
    thus ?thesis using f key_to_id3_text[of key] four_ids
      by (cases slot) (auto simp: group_frames_def text_frame_def)
  qed
qed

lemma text_frames_text: "f \<in> set (text_frames tags) \<Longrightarrow> text_frame f"
  by (auto simp: text_frames_def simp del: split_paired_All dest: group_frames_text)

lemma push_groups_bytes:
  assumes "push_groups buf n gs = Inr (b, m)"
  shows "b = buf @ frames_bytes (concat (map (\<lambda>g. group_frames (fst g) (snd g)) gs)) \<and>
    m = n + length (frames_bytes (concat (map (\<lambda>g. group_frames (fst g) (snd g)) gs))) \<and>
    (\<forall>f\<in>set (concat (map (\<lambda>g. group_frames (fst g) (snd g)) gs)). sized f)"
  using assms
proof (induction gs arbitrary: buf n)
  case (Cons g gs)
  obtain key vs where g: "g = (key, vs)" by (cases g)
  obtain b1 n1 where 1: "push_frames buf n (group_frames key vs) = Inr (b1, n1)" "push_groups b1 n1 gs = Inr (b, m)"
    using Cons.prems by (auto simp: g rbind_eq_Inr)
  have "\<forall>f\<in>set (group_frames key vs). length (fst f) = 4" using group_frames_text by (auto simp: text_frame_def)
  from push_frames_bytes[OF 1(1) this] Cons.IH[OF 1(2)] show ?case by (auto simp: g)
qed simp

lemma push_binary_frames_bytes:
  assumes "push_binary_frames segs buf n bts = Inr (segs', buf', m)"
    "list_all (\<lambda>bt. length (env_tag v (bt_payload_id bt)) = bt_len bt) bts" "\<forall>s\<in>set segs. meta_seg v s"
  shows "layout_bytes enc v segs' @ buf' = layout_bytes enc v segs @ buf @ frames_bytes (binary_frames v bts) \<and>
    m = n + length (frames_bytes (binary_frames v bts)) \<and> (\<forall>f\<in>set (binary_frames v bts). sized f) \<and>
    (\<forall>s\<in>set segs'. meta_seg v s)"
  using assms
proof (induction bts arbitrary: segs buf n)
  case Nil
  thus ?case by (simp add: binary_frames_def)
next
  case (Cons bt bts)
  show ?case
  proof (cases "length (bt_key bt) = 4")
    case False
    thus ?thesis using Cons.prems Cons.IH[of segs buf n] by (simp add: binary_frames_def)
  next
    case True
    let ?f = "(as_bytes (bt_key bt), env_tag v (bt_payload_id bt))"
    have len: "length (env_tag v (bt_payload_id bt)) = bt_len bt" using Cons.prems(2) by simp
    have r: "push_binary_frames (segs @ [Inline (buf @ as_bytes (bt_key bt) @ syncsafe (bt_len bt) @ [0, 0]),
        BinaryTag (bt_payload_id bt) (bt_len bt)]) [] (n + (10 + bt_len bt)) bts = Inr (segs', buf', m)"
      and sz: "bt_len bt \<le> synchsafe_max"
      using Cons.prems(1) True by (auto simp: rbind_eq_Inr)
    have bf: "binary_frames v (bt # bts) = ?f # binary_frames v bts" using True by (simp add: binary_frames_def)
    have "slice (env_tag v (bt_payload_id bt)) 0 (bt_len bt) = env_tag v (bt_payload_id bt)" using len by (simp add: slice_full)
    moreover note Cons.IH[OF r] Cons.prems(2,3)
    ultimately show ?thesis using True len sz
      by (auto simp: bf sized_def frame_bytes_def)
  qed
qed

lemma push_apic_frames_bytes:
  assumes "push_apic_frames segs buf n arts = Inr (segs', buf', m)"
    "list_all (\<lambda>a. length (env_art v (ai_art_id a)) = ai_data_len a) arts" "\<forall>s\<in>set segs. meta_seg v s"
  shows "layout_bytes enc v segs' @ buf' = layout_bytes enc v segs @ buf @ frames_bytes (apic_frames v arts) \<and>
    m = n + length (frames_bytes (apic_frames v arts)) \<and> (\<forall>f\<in>set (apic_frames v arts). sized f) \<and>
    (\<forall>s\<in>set segs'. meta_seg v s)"
  using assms
proof (induction arts arbitrary: segs buf n)
  case Nil
  thus ?case by (simp add: apic_frames_def)
next
  case (Cons art arts)
  let ?f = "(as_bytes ''APIC'', apic_framing art @ env_art v (ai_art_id art))"
  let ?n = "length (apic_framing art) + ai_data_len art"
  have len: "length (env_art v (ai_art_id art)) = ai_data_len art" using Cons.prems(2) by simp
  have r: "push_apic_frames (segs @ [Inline ((buf @ as_bytes ''APIC'' @ syncsafe ?n @ [0, 0]) @ apic_framing art),
      ArtImage (ai_art_id art) (ai_data_len art)]) [] (n + (10 + ?n)) arts = Inr (segs', buf', m)"
    and sz: "?n \<le> synchsafe_max"
    using Cons.prems(1) by (auto simp: rbind_eq_Inr Let_def)
  have "slice (env_art v (ai_art_id art)) 0 (ai_data_len art) = env_art v (ai_art_id art)" using len by (simp add: slice_full)
  moreover note Cons.IH[OF r] Cons.prems(2,3)
  ultimately show ?case using len sz four_ids
    by (auto simp: apic_frames_def sized_def frame_bytes_def)
qed

lemma promoted_frames_four: "\<forall>f\<in>set (rating_frames r p @ mbid_frames i). length (fst f) = 4"
  using four_ids by (auto simp: rating_frames_def mbid_frames_def split: option.splits)

lemma build_tag_bytes:
  assumes b: "build_id3v2_segments tags bts arts = Inr (segs, n)" and p: "blobs_present v bts arts"
  shows "layout_bytes enc v segs = tag_bytes (all_frames v tags bts arts) \<and> n = length (layout_bytes enc v segs) \<and>
    (\<forall>f\<in>set (all_frames v tags bts arts). sized f) \<and> length (frames_bytes (all_frames v tags bts arts)) \<le> synchsafe_max \<and>
    (\<forall>s\<in>set segs. meta_seg v s)"
proof -
  obtain r pc mb where pv: "promoted_values (None, 0, None) tags = (r, pc, mb)" by (cases "promoted_values (None, 0, None) tags")
  obtain b1 n1 b2 n2 b3 n3 s4 b4 n4 s5 b5 n5 where
    g: "push_groups [] 0 (group_tags [] tags) = Inr (b1, n1)" and
    f: "push_frames b1 n1 (rating_frames r pc) = Inr (b2, n2)" "push_frames b2 n2 (mbid_frames mb) = Inr (b3, n3)" and
    bi: "push_binary_frames [] b3 n3 bts = Inr (s4, b4, n4)" and
    ar: "push_apic_frames s4 b4 n4 arts = Inr (s5, b5, n5)" and
    sz: "n5 \<le> synchsafe_max" and
    res: "segs = Inline (id3_magic @ [4, 0, 0] @ syncsafe n5) # flush_inline b5 s5" "n = 10 + n5"
    using b by (auto simp: build_id3v2_segments_def pv rbind_eq_Inr)
  note G = push_groups_bytes[OF g, folded text_frames_def]
  note F1 = push_frames_bytes[OF f(1)] and F2 = push_frames_bytes[OF f(2)]
  have pf: "promoted_frames tags = rating_frames r pc @ mbid_frames mb" by (simp add: promoted_frames_def pv)
  note four = promoted_frames_four[of r pc mb]
  have p': "list_all (\<lambda>bt. length (env_tag v (bt_payload_id bt)) = bt_len bt) bts"
    "list_all (\<lambda>a. length (env_art v (ai_art_id a)) = ai_data_len a) arts"
    using p by (simp_all add: blobs_present_def)
  note B = push_binary_frames_bytes[OF bi p'(1), of enc, simplified]
  from B have ms: "\<forall>s\<in>set s4. meta_seg v s" by simp
  note A = push_apic_frames_bytes[OF ar p'(2) ms, of enc]
  have n5: "n5 = length (frames_bytes (all_frames v tags bts arts))"
    using G F1 F2 four B A by (simp add: all_frames_def pf)
  have "layout_bytes enc v s5 @ b5 = frames_bytes (all_frames v tags bts arts)"
    using G F1 F2 four B A by (simp add: all_frames_def pf)
  hence lb: "layout_bytes enc v segs = tag_bytes (all_frames v tags bts arts)"
    by (simp add: res flush_inline_bytes tag_bytes_def n5)
  moreover have "n = length (layout_bytes enc v segs)" unfolding lb by (simp add: tag_bytes_def id3_magic_def res n5)
  moreover have "\<forall>f\<in>set (all_frames v tags bts arts). sized f"
    using G F1 F2 four B A by (auto simp: all_frames_def pf)
  moreover have "\<forall>s\<in>set segs. meta_seg v s" using A by (simp add: res flush_inline_meta)
  ultimately show ?thesis using sz n5 by simp
qed


subsection \<open>What the reader makes of them\<close>

definition opaque_frame :: "bytes \<Rightarrow> bytes \<Rightarrow> bool" where
  "opaque_frame ident body \<longleftrightarrow>
     list_all is_ascii_graphic ident \<and> ident ! 0 \<noteq> 0x54 \<and>
     ident \<notin> set (map as_bytes [''COMM'', ''USLT'', ''APIC'', ''POPM'', ''CHAP'', ''CTOC'']) \<and>
     (ident = as_bytes ''UFID'' \<longrightarrow> (case split_owner body of Some (owner, _) \<Rightarrow> owner \<noteq> as_bytes musicbrainz_ufid_owner | None \<Rightarrow> True))"

definition promoted_tags :: "tag_input list \<Rightarrow> (string \<times> string) list" where
  "promoted_tags tags =
     (case promoted_values (None, 0, None) tags of (rating, playcount, mbid) \<Rightarrow>
      (case rating of Some r \<Rightarrow> (''rating'', dec r) # (if playcount > 0 then [(''playcount'', dec (min playcount u32_max))] else [])
       | None \<Rightarrow> []) @
      (case mbid of Some i \<Rightarrow> [(''musicbrainz_trackid'', i)] | None \<Rightarrow> []))"

definition opaque_tags :: "byte_env \<Rightarrow> binary_tag_input list \<Rightarrow> embedded_binary_tag list" where
  "opaque_tags v bts =
     map (\<lambda>bt. \<lparr> ebt_key = bt_key bt, ebt_payload = env_tag v (bt_payload_id bt) \<rparr>) (filter (\<lambda>bt. length (bt_key bt) = 4) bts)"

abbreviation classify_all :: "(bytes \<times> bytes) list \<Rightarrow> binary_tags \<Rightarrow> binary_tags" where
  "classify_all fs acc \<equiv> fold (\<lambda>f. classify_binary_frame (fst f) (snd f)) fs acc"

lemma frame_names_differ:
  "as_bytes ''POPM'' ! 0 = 0x50" "as_bytes ''UFID'' ! 0 = 0x55" "as_bytes ''APIC'' ! 0 = 0x41"
  "as_bytes ''POPM'' \<noteq> as_bytes ''COMM''" "as_bytes ''POPM'' \<noteq> as_bytes ''USLT''" "as_bytes ''POPM'' \<noteq> as_bytes ''APIC''"
  "as_bytes ''UFID'' \<noteq> as_bytes ''COMM''" "as_bytes ''UFID'' \<noteq> as_bytes ''USLT''" "as_bytes ''UFID'' \<noteq> as_bytes ''APIC''"
  "as_bytes ''UFID'' \<noteq> as_bytes ''POPM''"
  by (simp_all add: as_bytes_def)

lemma classify_text: "text_frame f \<Longrightarrow> classify_binary_frame (fst f) (snd f) acc = acc"
  by (auto simp: text_frame_def classify_binary_frame_def split: prod.splits)

lemma classify_texts: "\<forall>f\<in>set fs. text_frame f \<Longrightarrow> classify_all fs acc = acc"
  by (induction fs arbitrary: acc) (simp_all add: classify_text)

lemma classify_apics: "classify_all (apic_frames v arts) acc = acc"
  by (induction arts arbitrary: acc) (simp_all add: apic_frames_def classify_binary_frame_def split: prod.splits)

lemma split_owner_at: "0 \<notin> set owner \<Longrightarrow> split_owner (owner @ 0 # rest) = Some (owner, rest)"
  by (simp add: split_owner_def takeWhile_tail dropWhile_append1 dropWhile_append)

lemma graphic_lossy: "list_all is_ascii_graphic b \<Longrightarrow> from_utf8_lossy b = chars_of b"
proof -
  assume "list_all is_ascii_graphic b"
  hence "\<forall>x\<in>set b. x < 0x80" by (auto simp: list_all_iff is_ascii_graphic_def word_le_nat_alt word_less_nat_alt)
  hence "utf8_valid b" using utf8_valid_ascii_append[of b "[]"] by simp
  thus ?thesis by (simp add: from_utf8_lossy_def utf8_lossy_valid)
qed

lemma classify_opaque:
  assumes "opaque_frame (as_bytes key) body"
  shows "classify_binary_frame (as_bytes key) body (o1, p1) = (o1 @ [\<lparr> ebt_key = key, ebt_payload = body \<rparr>], p1)"
proof -
  have "as_bytes key = as_bytes ''UFID'' \<Longrightarrow> key = ''UFID''" by (metis chars_of_as_bytes)
  thus ?thesis
    using assms graphic_lossy[of "as_bytes key"] frame_names_differ
    by (auto simp: classify_binary_frame_def opaque_frame_def split: option.splits)
qed

lemma classify_binaries:
  assumes "\<forall>bt\<in>set bts. length (bt_key bt) = 4 \<longrightarrow> opaque_frame (as_bytes (bt_key bt)) (env_tag v (bt_payload_id bt))"
  shows "classify_all (binary_frames v bts) (o1, p1) = (o1 @ opaque_tags v bts, p1)"
  using assms
  by (induction bts arbitrary: o1) (auto simp: binary_frames_def opaque_tags_def classify_opaque)

lemma promoted_values_rating:
  "promoted_values acc tags = (r, pc, mb) \<Longrightarrow> (case fst acc of Some x \<Rightarrow> x \<le> 255 | None \<Rightarrow> True) \<Longrightarrow>
   (case r of Some x \<Rightarrow> x \<le> 255 | None \<Rightarrow> True)"
proof (induction acc tags rule: promoted_values.induct)
  case (2 rating playcount mbid t ts)
  show ?case using "2.prems" by (intro "2.IH") (auto split: option.splits if_splits dest: parse_uint_bound)
qed auto

lemma promoted_values_mbid:
  "promoted_values acc tags = (r, pc, Some i) \<Longrightarrow>
   snd (snd acc) = Some i \<or> (\<exists>t\<in>set tags. ti_key t = ''musicbrainz_trackid'' \<and> ti_value t = i)"
proof (induction acc tags rule: promoted_values.induct)
  case (2 rating playcount mbid t ts)
  show ?case using "2.IH"[OF "2.prems"[unfolded promoted_values.simps]] by (auto split: if_splits)
qed auto

lemma classify_popm:
  assumes "r \<le> 255"
  shows "classify_binary_frame (as_bytes ''POPM'') (popm_frame_data r pc) (o1, p1) =
    (o1, p1 @ (''rating'', dec r) # (if pc > 0 then [(''playcount'', dec (min pc u32_max))] else []))"
proof -
  have s: "split_owner (popm_frame_data r pc) =
      Some ([], word_of_nat r # (if pc > 0 then be_bytes 4 (min pc u32_max) else []))"
    by (simp add: popm_frame_data_def split_owner_def)
  have c: "be_val (be_bytes 4 (min pc u32_max)) = min pc u32_max"
    by (rule be_val_be_bytes) (simp add: u32_max_def)
  have "be_val [] = 0" by (simp add: be_val_def)
  moreover have "unat (word_of_nat r :: byte) = r" using assms by (simp add: unat_of_nat)
  ultimately have "popm_promoted (popm_frame_data r pc) =
      (''rating'', dec r) # (if pc > 0 then [(''playcount'', dec (min pc u32_max))] else [])"
    using c unfolding popm_promoted_def s by (simp add: Let_def u32_max_def)
  thus ?thesis using frame_names_differ by (simp add: classify_binary_frame_def)
qed

lemma classify_ufid:
  assumes "utf8_valid (as_bytes i)"
  shows "classify_binary_frame (as_bytes ''UFID'') (ufid_frame_data musicbrainz_ufid_owner (as_bytes i)) (o1, p1) =
    (o1, p1 @ [(''musicbrainz_trackid'', i)])"
proof -
  have "0 \<notin> set (as_bytes musicbrainz_ufid_owner)" by code_simp
  thus ?thesis using frame_names_differ split_owner_at[of "as_bytes musicbrainz_ufid_owner" "as_bytes i"] assms
    by (simp add: classify_binary_frame_def ufid_frame_data_def from_utf8_lossy_as_bytes)
qed

lemma classify_promoted:
  assumes "\<forall>t\<in>set tags. ti_key t = ''musicbrainz_trackid'' \<longrightarrow> utf8_valid (as_bytes (ti_value t))"
  shows "classify_all (promoted_frames tags) (o1, p1) = (o1, p1 @ promoted_tags tags)"
proof -
  obtain r pc mb where pv: "promoted_values (None, 0, None) tags = (r, pc, mb)" by (cases "promoted_values (None, 0, None) tags")
  have "classify_all (rating_frames r pc) (o1, p1) = (o1, p1 @ (case r of Some r \<Rightarrow>
      (''rating'', dec r) # (if pc > 0 then [(''playcount'', dec (min pc u32_max))] else []) | None \<Rightarrow> []))"
    using promoted_values_rating[OF pv] by (cases r) (simp_all add: rating_frames_def classify_popm)
  moreover have "classify_all (mbid_frames mb) (o1, p2) = (o1, p2 @ (case mb of Some i \<Rightarrow> [(''musicbrainz_trackid'', i)] | None \<Rightarrow> []))" for p2
    using promoted_values_mbid[of "(None, 0, None)" tags r pc] pv assms
    by (cases mb) (auto simp: mbid_frames_def classify_ufid)
  ultimately show ?thesis by (simp add: promoted_frames_def promoted_tags_def pv)
qed

lemma text_frame_ok: "text_frame f \<Longrightarrow> sized f \<Longrightarrow> frame_ok f"
  by (auto simp: text_frame_def sized_def frame_ok_def as_bytes_def)

lemma classify_built:
  assumes "\<forall>bt\<in>set bts. length (bt_key bt) = 4 \<longrightarrow> opaque_frame (as_bytes (bt_key bt)) (env_tag v (bt_payload_id bt))"
    "\<forall>t\<in>set tags. ti_key t = ''musicbrainz_trackid'' \<longrightarrow> utf8_valid (as_bytes (ti_value t))"
    "\<forall>f\<in>set (all_frames v tags bts arts). sized f"
  shows "classify_all (all_frames v tags bts arts) ([], []) = (opaque_tags v bts, promoted_tags tags)"
    "\<forall>f\<in>set (all_frames v tags bts arts). frame_ok f"
proof -
  have t: "\<forall>f\<in>set (text_frames tags). text_frame f" using text_frames_text by blast
  show "classify_all (all_frames v tags bts arts) ([], []) = (opaque_tags v bts, promoted_tags tags)"
    by (simp add: all_frames_def classify_texts[OF t] classify_promoted[OF assms(2)] classify_binaries[OF assms(1)] classify_apics)
  show "\<forall>f\<in>set (all_frames v tags bts arts). frame_ok f"
  proof
    fix f assume f: "f \<in> set (all_frames v tags bts arts)"
    hence sz: "sized f" using assms(3) by blast
    consider "text_frame f" | "fst f \<in> {as_bytes ''POPM'', as_bytes ''UFID'', as_bytes ''APIC''}"
      | "opaque_frame (fst f) (snd f)"
      using f t assms(1)
      by (auto simp: all_frames_def promoted_frames_def rating_frames_def mbid_frames_def binary_frames_def apic_frames_def
          split: option.splits prod.splits)
    thus "frame_ok f"
    proof cases
      case 1
      thus ?thesis using sz by (rule text_frame_ok)
    next
      case 2
      thus ?thesis using sz by (auto simp: frame_ok_def sized_def as_bytes_def)
    next
      case 3
      hence "list_all is_ascii_graphic (fst f)" "fst f ! 0 \<in> set (fst f)" using sz by (simp_all add: opaque_frame_def sized_def)
      hence "is_ascii_graphic (fst f ! 0)" by (simp add: list_all_iff)
      hence "fst f ! 0 \<noteq> 0" by (auto simp: is_ascii_graphic_def)
      thus ?thesis using 3 sz by (simp add: frame_ok_def sized_def opaque_frame_def)
    qed
  qed
qed

subsection \<open>Properties\<close>

lemma locate_audioD:
  assumes "mp3_locate_audio d = Inr b"
  shows "mb_audio_offset b + mb_audio_length b \<le> length d" "2 \<le> mb_audio_length b"
    "frame_sync (d ! mb_audio_offset b) (d ! (mb_audio_offset b + 1))"
proof -
  obtain off where off: "mb_audio_offset b = off" "off + 2 \<le> length d" "frame_sync (d ! off) (d ! (off + 1))"
    "mb_audio_length b = (if off + 128 \<le> length d \<and> slice d (length d - 128) 3 = id3v1_magic
       then length d - 128 else length d) - off"
    using assms by (auto simp: mp3_locate_audio_def rbind_eq_Inr Let_def split: if_splits option.splits)
  show "mb_audio_offset b + mb_audio_length b \<le> length d" using off by auto
  show "frame_sync (d ! mb_audio_offset b) (d ! (mb_audio_offset b + 1))" using off by simp
  show "2 \<le> mb_audio_length b"
  proof (cases "off + 128 \<le> length d \<and> slice d (length d - 128) 3 = id3v1_magic")
    case True
    have "length d - 128 < length d" using conjunct1[OF True] by linarith
    hence t: "d ! (length d - 128) = 0x54"
      using True slice_nth[of 0 3 "length d - 128" d] by (simp add: id3v1_magic_def)
    have "length d - 128 \<noteq> off" "length d - 128 \<noteq> off + 1"
      using t off(3) by (auto simp: frame_sync_def)
    thus ?thesis using off(4) True by auto
  qed (use off in auto)
qed

text \<open>The backing audio ends in something that looks like an ID3v1 trailer of its own.\<close>

definition ends_in_id3v1 :: "bytes \<Rightarrow> bool" where
  "ends_in_id3v1 audio \<longleftrightarrow> 128 \<le> length audio \<and> slice audio (length audio - 128) 3 = id3v1_magic"

text \<open>C31: Re-reading a synthesized MP3 gives back what it was made of. Behind a written tag of
  rl_header_len bytes come the backing audio bytes unchanged; locate_audio finds them there, to their
  end, unless the located audio itself ends in 128 bytes that start with TAG (a second ID3v1 trailer
  under the one already stripped), of which it strips those too. The tag passes the allocation guard
  where it has frames. The reader of binary frames returns, in order: every opaque frame of the store
  whose key has four characters, byte for byte; the first rating of the store that parses as 0 to
  255; after such a rating, the last of the store's play counts that parses, when it is positive,
  lowered to 4294967295 if larger (a play count without a rating is not written); and the first
  MusicBrainz track id. The opaque frames are assumed to be of the kind that reader leaves opaque:
  printable four-character ids other than T***, COMM, USLT, APIC, POPM, CHAP, CTOC and the MusicBrainz
  UFID; the MusicBrainz id is valid UTF-8, as every Rust string is. Text frames and pictures are left
  to their own readers.\<close>

theorem mp3_synth_reparses:
  assumes "mp3_locate_audio (env_backing v) = Inr b"
    "mp3_synthesize_layout (mb_audio_offset b) (mb_audio_length b) tags bts arts = Inr l"
    "blobs_present v bts arts"
    "\<forall>bt\<in>set bts. length (bt_key bt) = 4 \<longrightarrow> opaque_frame (as_bytes (bt_key bt)) (env_tag v (bt_payload_id bt))"
    "\<forall>t\<in>set tags. ti_key t = ''musicbrainz_trackid'' \<longrightarrow> utf8_valid (as_bytes (ti_value t))"
  defines "audio \<equiv> slice (env_backing v) (mb_audio_offset b) (mb_audio_length b)"
  shows "mp3_locate_audio (layout_bytes enc v (rl_segments l)) =
      Inr \<lparr> mb_audio_offset = rl_header_len l,
             mb_audio_length = mb_audio_length b - (if ends_in_id3v1 audio then 128 else 0) \<rparr> \<and>
    drop (rl_header_len l) (layout_bytes enc v (rl_segments l)) = audio \<and>
    (all_frames v tags bts arts \<noteq> [] \<longrightarrow> id3v2_alloc_safe (layout_bytes enc v (rl_segments l))) \<and>
    mp3_read_binary_tags (layout_bytes enc v (rl_segments l)) = Some (opaque_tags v bts, promoted_tags tags)"
proof -
  let ?fs = "all_frames v tags bts arts"
  obtain segs n where s: "build_id3v2_segments tags bts arts = Inr (segs, n)"
    "map_err InvalidLayout (validated (segs @ [BackingAudio (mb_audio_offset b) (mb_audio_length b)])) = Inr l"
    using assms(2) by (auto simp: mp3_synthesize_layout_def rbind_eq_Inr)
  from build_tag_bytes[OF s(1) assms(3), of enc]
  have t: "layout_bytes enc v segs = tag_bytes ?fs" "\<forall>f\<in>set ?fs. sized f" "length (frames_bytes ?fs) \<le> synchsafe_max"
    "\<forall>s\<in>set segs. meta_seg v s" by blast+
  note r = validated_meta_backing(2-4)[OF s(2) t(4), where enc=enc, unfolded t(1), folded audio_def]
  note c = classify_built[OF assms(4,5) t(2)]
  note w = read_written_tag[OF c(2) t(3), of audio, unfolded c(1)]
  note a = locate_audioD[OF assms(1)]
  have al: "length audio = mb_audio_length b" using a(1) by (simp add: audio_def)
  have an: "audio ! i = env_backing v ! (mb_audio_offset b + i)" if "i < mb_audio_length b" for i
    using that a(1) by (simp add: audio_def slice_nth)
  have sync: "frame_sync (audio ! 0) (audio ! 1)" using a(2,3) an[of 0] an[of 1] by simp
  have hdr: "rl_header_len l = length (tag_bytes ?fs)" by (rule r(1))
  have tail: "slice (tag_bytes ?fs @ audio) (length (tag_bytes ?fs @ audio) - 128) 3 = slice audio (length audio - 128) 3"
    if "128 \<le> length audio"
    using that by (simp add: slice_append2)
  have "mp3_locate_audio (tag_bytes ?fs @ audio) =
      Inr \<lparr> mb_audio_offset = rl_header_len l, mb_audio_length = mb_audio_length b - (if ends_in_id3v1 audio then 128 else 0) \<rparr>"
    using tag_bytes_header(2)[OF t(3), of audio] tag_bytes_header(7)[OF t(3)] sync tail al a(2)
    by (auto simp: mp3_locate_audio_def hdr Let_def nth_append ends_in_id3v1_def)
  thus ?thesis using w r(3) hdr by (simp add: audio_def)
qed

text \<open>C32: on any front window of an MP3 file the bounded probe, given the file's length and its last
  128 bytes, either gives the answer, error for error, of locating the audio in the whole file, or asks
  for a strictly longer window that the file can fill.\<close>

theorem mp3_bounded_probe:
  "(\<exists>n. mp3_locate_audio_bounded (take k data) (length data) (file_tail data) = Inr (NeedMore n) \<and>
      length (take k data) < n \<and> n \<le> length data) \<or>
   mp3_locate_audio_bounded (take k data) (length data) (file_tail data) =
     rbind (mp3_locate_audio data) (\<lambda>b. Inr (Complete b))"
  using bounded_agrees[OF refl, of k data] bounded_need_more[of "take k data" "length data" "file_tail data"] by blast

definition demo_mp3_env :: byte_env where
  "demo_mp3_env = \<lparr> env_art = (\<lambda>_. [1, 2, 3]), env_tag = (\<lambda>_. [9, 8]),
     env_backing = [0xFF, 0xFB, 0x90, 0, 7, 7] @ id3v1_magic @ replicate 125 0, env_ogg = (\<lambda>_ _ _. []) \<rparr>"

definition demo_mp3_tags :: "tag_input list" where
  "demo_mp3_tags = [\<lparr> ti_key = ''title'', ti_value = ''Abc'' \<rparr>, \<lparr> ti_key = ''rating'', ti_value = ''196'' \<rparr>,
     \<lparr> ti_key = ''playcount'', ti_value = ''12'' \<rparr>, \<lparr> ti_key = ''mood'', ti_value = ''calm'' \<rparr>]"

definition demo_mp3_binary :: "binary_tag_input list" where
  "demo_mp3_binary = [\<lparr> bt_key = ''PRIV'', bt_payload_id = 1, bt_len = 2 \<rparr>]"

definition demo_mp3_arts :: "art_input list" where
  "demo_mp3_arts = [\<lparr> ai_art_id = 1, ai_mime = ''image/png'', ai_description = [], ai_picture_type = 3,
     ai_width = 1, ai_height = 1, ai_data_len = 3 \<rparr>]"

definition demo_mp3_layout :: region_layout where
  "demo_mp3_layout = projr (mp3_synthesize_layout 0 6 demo_mp3_tags demo_mp3_binary demo_mp3_arts)"

lemma mp3_synth_reparses_witness:
  "mp3_read_binary_tags (layout_bytes b64_std demo_mp3_env (rl_segments demo_mp3_layout)) =
     Some ([\<lparr> ebt_key = ''PRIV'', ebt_payload = [9, 8] \<rparr>], [(''rating'', ''196''), (''playcount'', ''12'')])"
proof -
  have loc: "mp3_locate_audio (env_backing demo_mp3_env) = Inr \<lparr> mb_audio_offset = 0, mb_audio_length = 6 \<rparr>"
    by code_simp
  have syn: "mp3_synthesize_layout 0 6 demo_mp3_tags demo_mp3_binary demo_mp3_arts = Inr demo_mp3_layout"
    unfolding demo_mp3_layout_def by code_simp
  have ok: "blobs_present demo_mp3_env demo_mp3_binary demo_mp3_arts"
    "\<forall>bt\<in>set demo_mp3_binary. length (bt_key bt) = 4 \<longrightarrow> opaque_frame (as_bytes (bt_key bt)) (env_tag demo_mp3_env (bt_payload_id bt))"
    "\<forall>t\<in>set demo_mp3_tags. ti_key t = ''musicbrainz_trackid'' \<longrightarrow> utf8_valid (as_bytes (ti_value t))"
    by code_simp+
  from mp3_synth_reparses[OF loc, of demo_mp3_tags demo_mp3_binary demo_mp3_arts demo_mp3_layout b64_std] syn ok
  have "mp3_read_binary_tags (layout_bytes b64_std demo_mp3_env (rl_segments demo_mp3_layout)) =
      Some (opaque_tags demo_mp3_env demo_mp3_binary, promoted_tags demo_mp3_tags)" by simp
  moreover have "opaque_tags demo_mp3_env demo_mp3_binary = [\<lparr> ebt_key = ''PRIV'', ebt_payload = [9, 8] \<rparr>]"
    "promoted_tags demo_mp3_tags = [(''rating'', ''196''), (''playcount'', ''12'')]"
    by code_simp+
  ultimately show ?thesis by simp
qed

end
