(* ===== verification/Wav.thy ===== *)
theory Wav
  imports Mp3_Roundtrip
begin

text \<open>
  WAV, musefs-format/src/wav.rs: the walk over the chunks of a RIFF form, the location of the audio
  (whole-file, bounded, and at the probe ceiling), the preserved structure, the tag readers over the
  LIST/INFO and id3 chunks, and the synthesis of a new form around the untouched data payload.
\<close>

unbundle bit_operations_syntax

subsection \<open>Chunks\<close>

record wav_bounds =
  wb_audio_offset :: nat
  wb_audio_length :: nat

record wav_scan =
  ws_fmt :: bytes
  ws_fact :: "bytes option"

type_synonym wav_chunk = "bytes \<times> nat \<times> nat"

definition riff_wave_start :: "bytes \<Rightarrow> (nat \<times> nat) fresult" where
  "riff_wave_start buf =
     (if length buf < 12 \<or> slice buf 0 4 \<noteq> as_bytes ''RIFF'' \<or> slice buf 8 4 \<noteq> as_bytes ''WAVE'' then Inl NotWav
      else Inr (12, 8 + le_val (slice buf 4 4)))"

function wav_walk :: "bytes \<Rightarrow> nat \<Rightarrow> nat \<Rightarrow> wav_chunk list" where
  "wav_walk buf ceiling pos =
     (if pos + 8 > ceiling then []
      else let n = le_val (slice buf (pos + 4) 4) in
           (slice buf pos 4, pos + 8, n) #
           (case checked_add64 pos (8 + n + n mod 2) of
              Some nxt \<Rightarrow> if nxt \<le> ceiling then wav_walk buf ceiling nxt else []
            | None \<Rightarrow> []))"
  by pat_completeness auto
termination by (relation "measure (\<lambda>(buf, ceiling, pos). ceiling - pos)") auto

declare wav_walk.simps [simp del]

definition walk_chunks :: "bytes \<Rightarrow> wav_chunk list" where
  "walk_chunks buf =
     (case riff_wave_start buf of
        Inl _ \<Rightarrow> []
      | Inr (pos, form_end) \<Rightarrow> wav_walk buf (min form_end (length buf)) pos)"

definition chunk_slice :: "bytes \<Rightarrow> nat \<Rightarrow> nat \<Rightarrow> bytes option" where
  "chunk_slice buf offset len = get_slice buf offset (offset + len)"

definition find_chunk :: "(bytes \<Rightarrow> bool) \<Rightarrow> wav_chunk list \<Rightarrow> wav_chunk option" where
  "find_chunk P chunks = find (\<lambda>c. P (fst c)) chunks"

definition data_bounds :: "wav_chunk list \<Rightarrow> nat \<Rightarrow> wav_bounds fresult" where
  "data_bounds chunks form_end =
     (case (list_ex (\<lambda>c. fst c = as_bytes ''fmt '') chunks, find_chunk (\<lambda>i. i = as_bytes ''data'') chunks) of
        (True, Some (_, off, len)) \<Rightarrow>
          if sat_add64 off len > form_end then Inl Malformed
          else Inr \<lparr> wb_audio_offset = off, wb_audio_length = len \<rparr>
      | _ \<Rightarrow> Inl NotWav)"

definition wav_locate_audio :: "bytes \<Rightarrow> wav_bounds fresult" where
  "wav_locate_audio buf =
     rbind (riff_wave_start buf) (\<lambda>(_, form_end).
     if form_end > length buf then Inl Malformed else data_bounds (walk_chunks buf) form_end)"

definition wav_locate_audio_bounded :: "bytes \<Rightarrow> nat \<Rightarrow> wav_bounds extent fresult" where
  "wav_locate_audio_bounded prefx file_len =
     (if length prefx < file_len then Inr (NeedMore file_len)
      else rbind (wav_locate_audio prefx) (\<lambda>b. Inr (Complete b)))"

definition wav_locate_audio_at_ceiling :: "bytes \<Rightarrow> nat \<Rightarrow> wav_bounds fresult" where
  "wav_locate_audio_at_ceiling prefx file_len =
     rbind (riff_wave_start prefx) (\<lambda>(_, form_end).
     if form_end > file_len then Inl Malformed else data_bounds (walk_chunks prefx) form_end)"

definition wav_read_structure :: "bytes \<Rightarrow> wav_scan fresult" where
  "wav_read_structure front =
     rbind (riff_wave_start front) (\<lambda>_.
     let chunks = walk_chunks front in
     rbind (ok_or (find_chunk (\<lambda>i. i = as_bytes ''fmt '') chunks) NotWav) (\<lambda>(_, fmt_off, fmt_len).
     rbind (ok_or (chunk_slice front fmt_off fmt_len) Malformed) (\<lambda>fmt.
     rbind (case find_chunk (\<lambda>i. i = as_bytes ''fact'') chunks of
              Some (_, off, len) \<Rightarrow> rbind (ok_or (chunk_slice front off len) Malformed) (\<lambda>f. Inr (Some f))
            | None \<Rightarrow> Inr None) (\<lambda>fact_chunk.
     Inr \<lparr> ws_fmt = fmt, ws_fact = fact_chunk \<rparr>))))"

subsection \<open>Synthesis\<close>

definition info_fourcc :: "string \<Rightarrow> bytes option" where
  "info_fourcc key =
     (if key = ''title'' then Some (as_bytes ''INAM'')
      else if key = ''artist'' then Some (as_bytes ''IART'')
      else if key = ''album'' then Some (as_bytes ''IPRD'')
      else if key = ''date'' then Some (as_bytes ''ICRD'')
      else if key = ''genre'' then Some (as_bytes ''IGNR'')
      else if key = ''comment'' then Some (as_bytes ''ICMT'')
      else if key = ''tracknumber'' then Some (as_bytes ''ITRK'')
      else None)"

definition chunk_header :: "bytes \<Rightarrow> nat \<Rightarrow> bytes" where
  "chunk_header ident len = ident @ le_bytes 4 len"

definition append_chunk :: "bytes \<Rightarrow> bytes \<Rightarrow> bytes \<Rightarrow> bytes fresult" where
  "append_chunk out ident payload =
     rbind (u32_or_too_large (length payload)) (\<lambda>len.
     Inr (out @ chunk_header ident len @ payload @ (if length payload mod 2 = 1 then [0] else [])))"

fun info_entries :: "string list \<Rightarrow> tag_input list \<Rightarrow> (bytes \<times> string) list" where
  "info_entries used [] = []"
| "info_entries used (t # ts) =
     (if ti_key t \<in> set used then info_entries used ts
      else case info_fourcc (ti_key t) of
             Some cc \<Rightarrow> (cc, ti_value t) # info_entries (used @ [ti_key t]) ts
           | None \<Rightarrow> info_entries used ts)"

fun append_info :: "bytes \<Rightarrow> (bytes \<times> string) list \<Rightarrow> bytes fresult" where
  "append_info payload [] = Inr payload"
| "append_info payload ((cc, v) # es) =
     rbind (append_chunk payload cc (as_bytes v @ [0])) (\<lambda>payload. append_info payload es)"

definition build_info_payload :: "tag_input list \<Rightarrow> bytes option fresult" where
  "build_info_payload tags =
     (let entries = info_entries [] tags in
      if entries = [] then Inr None
      else rbind (append_info (as_bytes ''INFO'') entries) (\<lambda>p. Inr (Some p)))"

definition push_inline_chunk :: "segment list \<Rightarrow> bytes \<Rightarrow> bytes \<Rightarrow> segment list fresult" where
  "push_inline_chunk segments ident payload =
     rbind (append_chunk [] ident payload) (\<lambda>chunk. Inr (segments @ [Inline chunk]))"

definition wav_synthesize_layout ::
  "wav_scan \<Rightarrow> nat \<Rightarrow> nat \<Rightarrow> tag_input list \<Rightarrow> binary_tag_input list \<Rightarrow> art_input list \<Rightarrow> region_layout fresult" where
  "wav_synthesize_layout scan audio_offset audio_length tags binary_tags arts =
     rbind (u32_or_too_large audio_length) (\<lambda>audio_length_u32.
     rbind (push_inline_chunk [] (as_bytes ''fmt '') (ws_fmt scan)) (\<lambda>segments.
     rbind (case ws_fact scan of Some f \<Rightarrow> push_inline_chunk segments (as_bytes ''fact'') f | None \<Rightarrow> Inr segments) (\<lambda>segments.
     rbind (build_info_payload tags) (\<lambda>info.
     rbind (case info of Some i \<Rightarrow> push_inline_chunk segments (as_bytes ''LIST'') i | None \<Rightarrow> Inr segments) (\<lambda>segments.
     rbind (build_id3v2_segments tags binary_tags arts) (\<lambda>(tag_segments, tag_len).
     rbind (u32_or_too_large tag_len) (\<lambda>tag_len_u32.
     let segments =
           segments @ [Inline (chunk_header (as_bytes ''id3 '') tag_len_u32)] @ tag_segments @
           (if tag_len mod 2 = 1 then [Inline [0]] else []) @
           [Inline (chunk_header (as_bytes ''data'') audio_length_u32), BackingAudio audio_offset audio_length] @
           (if audio_length mod 2 = 1 then [Inline [0]] else [])
     in rbind (checked_sum (map seg_len segments)) (\<lambda>body_len.
        rbind (checked_add body_len 4) (\<lambda>n.
        rbind (u32_or_too_large n) (\<lambda>riff_size.
        map_err InvalidLayout
          (validated (Inline (as_bytes ''RIFF'' @ le_bytes 4 riff_size @ as_bytes ''WAVE'') # segments))))))))))))"

subsection \<open>Tag readers\<close>

definition info_to_key :: "bytes \<Rightarrow> string option" where
  "info_to_key ident =
     (if ident = as_bytes ''INAM'' then Some ''title''
      else if ident = as_bytes ''IART'' then Some ''artist''
      else if ident = as_bytes ''IPRD'' then Some ''album''
      else if ident = as_bytes ''ICRD'' then Some ''date''
      else if ident = as_bytes ''IGNR'' then Some ''genre''
      else if ident = as_bytes ''ICMT'' then Some ''comment''
      else if ident = as_bytes ''ITRK'' then Some ''tracknumber''
      else None)"

definition find_id3_chunk :: "bytes \<Rightarrow> wav_chunk list \<Rightarrow> bytes option" where
  "find_id3_chunk buf chunks =
     Option.bind (find_chunk (\<lambda>i. i = as_bytes ''id3 '' \<or> i = as_bytes ''ID3 '') chunks) (\<lambda>(_, off, len). chunk_slice buf off len)"

definition trim_end_nul :: "string \<Rightarrow> string" where
  "trim_end_nul s = rev (dropWhile (\<lambda>c. c = CHR 0x00) (rev s))"

function info_walk :: "bytes \<Rightarrow> nat \<Rightarrow> (string \<times> string) list" where
  "info_walk body pos =
     (if pos + 8 > length body then []
      else let n = le_val (slice body (pos + 4) 4);
               val_start = pos + 8;
               val_end = min (val_start + n) (length body);
               v = trim_end_nul (from_utf8_lossy (slice body val_start (val_end - val_start)))
           in (case info_to_key (slice body pos 4) of
                 Some key \<Rightarrow> if v \<noteq> [] then [(key, v)] else []
               | None \<Rightarrow> []) @ info_walk body (val_start + n + n mod 2))"
  by pat_completeness auto
termination by (relation "measure (\<lambda>(body, pos). length body - pos)") auto

declare info_walk.simps [simp del]

definition read_info_tags :: "bytes \<Rightarrow> (string \<times> string) list" where
  "read_info_tags body = info_walk body 0"

definition info_chunk_tags :: "bytes \<Rightarrow> wav_chunk list \<Rightarrow> (string \<times> string) list" where
  "info_chunk_tags buf chunks =
     (case Option.bind (find_chunk (\<lambda>i. i = as_bytes ''LIST'') chunks) (\<lambda>(_, off, len). chunk_slice buf off len) of
        Some s \<Rightarrow> if 4 \<le> length s \<and> slice s 0 4 = as_bytes ''INFO'' then read_info_tags (drop 4 s) else []
      | None \<Rightarrow> [])"

definition wav_read_tags :: "(bytes \<Rightarrow> id3_tag option) \<Rightarrow> bytes \<Rightarrow> (string \<times> string) list" where
  "wav_read_tags read_from buf =
     (let chunks = walk_chunks buf;
          from_id3 = (case find_id3_chunk buf chunks of Some b \<Rightarrow> mp3_read_tags read_from b | None \<Rightarrow> [])
      in from_id3 @ filter (\<lambda>(k, v). k \<notin> set (map fst from_id3)) (info_chunk_tags buf chunks))"

definition wav_read_binary_tags :: "bytes \<Rightarrow> binary_tags option" where
  "wav_read_binary_tags data =
     (case find_id3_chunk data (walk_chunks data) of
        Some b \<Rightarrow> mp3_read_binary_tags b
      | None \<Rightarrow> Some ([], []))"

definition wav_read_pictures :: "(bytes \<Rightarrow> id3_tag option) \<Rightarrow> bytes \<Rightarrow> embedded_picture list" where
  "wav_read_pictures read_from buf =
     (case find_id3_chunk buf (walk_chunks buf) of
        Some b \<Rightarrow> mp3_read_pictures read_from b
      | None \<Rightarrow> [])"

subsection \<open>A form as a list of chunks\<close>

definition chunk_bytes :: "bytes \<times> bytes \<Rightarrow> bytes" where
  "chunk_bytes c = fst c @ le_bytes 4 (length (snd c)) @ snd c @ (if length (snd c) mod 2 = 1 then [0] else [])"

definition chunks_bytes :: "(bytes \<times> bytes) list \<Rightarrow> bytes" where
  "chunks_bytes cs = concat (map chunk_bytes cs)"

definition chunk_ok :: "bytes \<times> bytes \<Rightarrow> bool" where
  "chunk_ok c \<longleftrightarrow> length (fst c) = 4 \<and> length (snd c) \<le> u32_max"

definition riff_bytes :: "(bytes \<times> bytes) list \<Rightarrow> bytes" where
  "riff_bytes cs = as_bytes ''RIFF'' @ le_bytes 4 (length (chunks_bytes cs) + 4) @ as_bytes ''WAVE'' @ chunks_bytes cs"

fun chunk_table :: "nat \<Rightarrow> (bytes \<times> bytes) list \<Rightarrow> wav_chunk list" where
  "chunk_table pos [] = []"
| "chunk_table pos (c # cs) = (fst c, pos + 8, length (snd c)) # chunk_table (pos + length (chunk_bytes c)) cs"

lemma chunks_bytes_simps [simp]:
  "chunks_bytes [] = []" "chunks_bytes (c # cs) = chunk_bytes c @ chunks_bytes cs"
  "chunks_bytes (cs @ ds) = chunks_bytes cs @ chunks_bytes ds"
  by (simp_all add: chunks_bytes_def)

lemma chunk_bytes_length: "chunk_ok c \<Longrightarrow> length (chunk_bytes c) = 8 + length (snd c) + length (snd c) mod 2"
  by (auto simp: chunk_bytes_def chunk_ok_def)

lemma chunk_at:
  assumes c: "chunk_ok c" and d: "data = pre @ chunk_bytes c @ rest" "length pre = pos"
  shows "slice data pos 4 = fst c" "le_val (slice data (pos + 4) 4) = length (snd c)"
    "slice data (pos + 8) (length (snd c)) = snd c" "pos + length (chunk_bytes c) \<le> length data"
proof -
  obtain a0 a1 a2 a3 where i: "fst c = [a0, a1, a2, a3]"
    using c by (auto simp: chunk_ok_def numeral_eq_Suc length_Suc_conv)
  have l4: "length (le_bytes 4 (length (snd c))) = 4" by simp
  then obtain s0 s1 s2 s3 where s: "le_bytes 4 (length (snd c)) = [s0, s1, s2, s3]"
    by (auto simp: numeral_eq_Suc length_Suc_conv simp del: le_bytes.simps le_bytes_length)
  define pad where "pad = (if length (snd c) mod 2 = 1 then [0 :: byte] else [])"
  have x: "chunk_bytes c @ rest = [a0, a1, a2, a3, s0, s1, s2, s3] @ snd c @ pad @ rest"
    by (simp add: chunk_bytes_def i s pad_def)
  have sl: "slice data (pos + k) n = slice ([a0, a1, a2, a3, s0, s1, s2, s3] @ snd c @ pad @ rest) k n" for k n
    unfolding d(1) x by (rule slice_at[OF d(2)])
  show "slice data pos 4 = fst c" using sl[of 0 4] by (simp add: slice_def i)
  have "slice data (pos + 4) 4 = le_bytes 4 (length (snd c))" using sl[of 4 4] by (simp add: slice_def s)
  thus "le_val (slice data (pos + 4) 4) = length (snd c)"
    using c by (simp add: chunk_ok_def u32_max_def le_val_le_bytes del: le_bytes.simps)
  show "slice data (pos + 8) (length (snd c)) = snd c" using sl[of 8 "length (snd c)"] by (simp add: slice_def)
  show "pos + length (chunk_bytes c) \<le> length data" using d by simp
qed

lemma wav_walk_table:
  assumes "\<forall>c\<in>set cs. chunk_ok c" "data = pre @ chunks_bytes cs" "length data \<le> u64_max"
  shows "wav_walk data (length data) (length pre) = chunk_table (length pre) cs"
  using assms
proof (induction cs arbitrary: pre)
  case Nil
  thus ?case by (subst wav_walk.simps) simp
next
  case (Cons c cs)
  have c: "chunk_ok c" and d: "data = pre @ chunk_bytes c @ chunks_bytes cs" using Cons.prems by simp_all
  note at = chunk_at[OF c d refl]
  have len: "length (chunk_bytes c) = 8 + length (snd c) + length (snd c) mod 2" by (rule chunk_bytes_length[OF c])
  have "wav_walk data (length data) (length (pre @ chunk_bytes c)) = chunk_table (length (pre @ chunk_bytes c)) cs"
    using Cons.prems by (intro Cons.IH) simp_all
  moreover have "checked_add64 (length pre) (8 + length (snd c) + length (snd c) mod 2) = Some (length pre + length (chunk_bytes c))"
    using at(4) Cons.prems(3) len by simp
  moreover have "\<not> length pre + 8 > length data" using at(4) len by simp
  ultimately show ?case using at(1,2,4) by (subst wav_walk.simps) (simp add: Let_def checked_add64_def)
qed

lemma chunk_table_append:
  "chunk_table pos (cs @ ds) = chunk_table pos cs @ chunk_table (pos + length (chunks_bytes cs)) ds"
  by (induction cs arbitrary: pos) (simp_all add: add.assoc)

lemma find_chunk_table:
  assumes "\<forall>c\<in>set cs. chunk_ok c" "data = pre @ chunks_bytes cs"
  shows "Option.bind (find_chunk P (chunk_table (length pre) cs)) (\<lambda>(_, off, len). chunk_slice data off len) =
      map_option snd (find (\<lambda>c. P (fst c)) cs)"
    "find_chunk P (chunk_table (length pre) cs) = None \<longleftrightarrow> find (\<lambda>c. P (fst c)) cs = None"
  using assms
proof (induction cs arbitrary: pre)
  case Nil
  { case 1 thus ?case by (simp add: find_chunk_def) }
  { case 2 thus ?case by (simp add: find_chunk_def) }
next
  case (Cons c cs)
  { case 1
    have c: "chunk_ok c" and d: "data = pre @ chunk_bytes c @ chunks_bytes cs" using 1 by simp_all
    note at = chunk_at[OF c d refl]
    have "length pre + 8 + length (snd c) \<le> length data" using at(4) chunk_bytes_length[OF c] by simp
    hence s: "chunk_slice data (length pre + 8) (length (snd c)) = Some (snd c)"
      using at(3) by (simp add: chunk_slice_def get_slice_eq_Some)
    have "data = (pre @ chunk_bytes c) @ chunks_bytes cs" "\<forall>c\<in>set cs. chunk_ok c" using 1 by simp_all
    from Cons.IH(1)[OF this(2,1)] s show ?case by (simp add: find_chunk_def) }
  { case 2
    have "data = (pre @ chunk_bytes c) @ chunks_bytes cs" "\<forall>c\<in>set cs. chunk_ok c" using 2 by simp_all
    from Cons.IH(2)[OF this(2,1)] show ?case by (simp add: find_chunk_def) }
qed

lemma riff_chunks:
  assumes cs: "\<forall>c\<in>set cs. chunk_ok c" and n: "length (chunks_bytes cs) + 4 \<le> u32_max"
  shows "riff_wave_start (riff_bytes cs) = Inr (12, length (riff_bytes cs))"
    "walk_chunks (riff_bytes cs) = chunk_table 12 cs" "length (riff_bytes cs) = 12 + length (chunks_bytes cs)"
proof -
  let ?pre = "as_bytes ''RIFF'' @ le_bytes 4 (length (chunks_bytes cs) + 4) @ as_bytes ''WAVE''"
  have d: "riff_bytes cs = ?pre @ chunks_bytes cs" by (simp add: riff_bytes_def)
  have l4: "length (le_bytes 4 (length (chunks_bytes cs) + 4)) = 4" by simp
  then obtain s0 s1 s2 s3 where s: "le_bytes 4 (length (chunks_bytes cs) + 4) = [s0, s1, s2, s3]"
    by (auto simp: numeral_eq_Suc length_Suc_conv simp del: le_bytes.simps le_bytes_length)
  have p: "length ?pre = 12" by simp
  show len: "length (riff_bytes cs) = 12 + length (chunks_bytes cs)" unfolding d by simp
  have "slice (riff_bytes cs) 0 4 = as_bytes ''RIFF''" "slice (riff_bytes cs) 8 4 = as_bytes ''WAVE''"
    "slice (riff_bytes cs) 4 4 = le_bytes 4 (length (chunks_bytes cs) + 4)"
    unfolding riff_bytes_def s by (simp_all add: slice_def as_bytes_def)
  moreover have "le_val (le_bytes 4 (length (chunks_bytes cs) + 4)) = length (chunks_bytes cs) + 4"
    using n by (intro le_val_le_bytes) (simp add: u32_max_def)
  ultimately show r: "riff_wave_start (riff_bytes cs) = Inr (12, length (riff_bytes cs))"
    using len by (simp add: riff_wave_start_def)
  have "length (riff_bytes cs) \<le> u64_max" using n len by (simp add: u32_max_def u64_max_def)
  from wav_walk_table[OF cs d this] show "walk_chunks (riff_bytes cs) = chunk_table 12 cs"
    using p by (simp add: walk_chunks_def r)
qed

end
