(* ===== verification/Wav_Roundtrip.thy ===== *)
theory Wav_Roundtrip
  imports Wav
begin

text \<open>
  The WAV writer against the WAV readers: a synthesized form is the RIFF rendering of a list of
  chunks, and each reader finds its chunk in it.
\<close>

subsection \<open>The chunks of a synthesis\<close>

definition info_chunks :: "(bytes \<times> string) list \<Rightarrow> (bytes \<times> bytes) list" where
  "info_chunks entries = map (\<lambda>e. (fst e, as_bytes (snd e) @ [0])) entries"

definition wav_chunks ::
  "byte_env \<Rightarrow> wav_scan \<Rightarrow> tag_input list \<Rightarrow> binary_tag_input list \<Rightarrow> art_input list \<Rightarrow> (bytes \<times> bytes) list" where
  "wav_chunks v scan tags bts arts =
     [(as_bytes ''fmt '', ws_fmt scan)] @
     (case ws_fact scan of Some f \<Rightarrow> [(as_bytes ''fact'', f)] | None \<Rightarrow> []) @
     (if info_entries [] tags = [] then []
      else [(as_bytes ''LIST'', as_bytes ''INFO'' @ chunks_bytes (info_chunks (info_entries [] tags)))]) @
     [(as_bytes ''id3 '', tag_bytes (all_frames v tags bts arts))]"

lemma append_chunk_eq [simp]:
  "append_chunk out ident p = Inr r \<longleftrightarrow> r = out @ chunk_bytes (ident, p) \<and> length p \<le> u32_max"
  by (auto simp: append_chunk_def chunk_bytes_def chunk_header_def rbind_eq_Inr)

lemma append_info_eq:
  "append_info out es = Inr r \<Longrightarrow> r = out @ chunks_bytes (info_chunks es) \<and> (\<forall>c\<in>set (info_chunks es). length (snd c) \<le> u32_max)"
proof (induction es arbitrary: out)
  case (Cons e es)
  obtain cc x where e: "e = (cc, x)" by (cases e)
  have "append_info (out @ chunk_bytes (cc, as_bytes x @ [0])) es = Inr r" "length (as_bytes x @ [0]) \<le> u32_max"
    using Cons.prems by (auto simp: e rbind_eq_Inr)
  with Cons.IH[OF this(1)] show ?case by (simp add: info_chunks_def e)
qed (simp add: info_chunks_def)

lemma push_inline_chunk_eq [simp]:
  "push_inline_chunk segs ident p = Inr r \<longleftrightarrow> r = segs @ [Inline (chunk_bytes (ident, p))] \<and> length p \<le> u32_max"
  by (auto simp: push_inline_chunk_def rbind_eq_Inr)

lemma info_fourcc_four: "info_fourcc k = Some cc \<Longrightarrow> length cc = 4"
  by (auto simp: info_fourcc_def split: if_splits)

lemma info_entries_four: "e \<in> set (info_entries used tags) \<Longrightarrow> length (fst e) = 4"
  by (induction tags arbitrary: used) (auto dest: info_fourcc_four split: if_splits option.splits)

lemma wav_synth_chunks:
  assumes s: "wav_synthesize_layout scan ao al tags bts arts = Inr l"
    and p: "blobs_present v bts arts" "ao + al \<le> length (env_backing v)"
  defines "cs \<equiv> wav_chunks v scan tags bts arts @ [(as_bytes ''data'', slice (env_backing v) ao al)]"
  shows "layout_bytes enc v (rl_segments l) = riff_bytes cs \<and> (\<forall>c\<in>set cs. chunk_ok c) \<and>
    length (chunks_bytes cs) + 4 \<le> u32_max \<and> (\<forall>f\<in>set (all_frames v tags bts arts). sized f) \<and>
    length (frames_bytes (all_frames v tags bts arts)) \<le> synchsafe_max \<and>
    (\<forall>c\<in>set (info_chunks (info_entries [] tags)). chunk_ok c) \<and>
    rl_header_len l + al = length (riff_bytes cs)"
proof -
  define audio where "audio = slice (env_backing v) ao al"
  have al: "length audio = al" using p(2) by (simp add: audio_def)
  define facts where "facts = (case ws_fact scan of Some f \<Rightarrow> [(as_bytes ''fact'', f)] | None \<Rightarrow> [])"
  define infos where "infos = (if info_entries [] tags = [] then []
      else [(as_bytes ''LIST'', as_bytes ''INFO'' @ chunks_bytes (info_chunks (info_entries [] tags)))])"
  let ?inl = "map (\<lambda>c. Inline (chunk_bytes c))"
  obtain s2 s3 tsegs tl where
    len: "al \<le> u32_max" "length (ws_fmt scan) \<le> u32_max" and
    f: "(case ws_fact scan of Some f \<Rightarrow> push_inline_chunk [Inline (chunk_bytes (as_bytes ''fmt '', ws_fmt scan))] (as_bytes ''fact'') f
         | None \<Rightarrow> Inr [Inline (chunk_bytes (as_bytes ''fmt '', ws_fmt scan))]) = Inr s2" and
    i: "rbind (build_info_payload tags) (\<lambda>info. case info of Some i \<Rightarrow> push_inline_chunk s2 (as_bytes ''LIST'') i | None \<Rightarrow> Inr s2) = Inr s3" and
    t: "build_id3v2_segments tags bts arts = Inr (tsegs, tl)" "tl \<le> u32_max" and
    r: "rbind (checked_sum (map seg_len (s3 @ [Inline (chunk_header (as_bytes ''id3 '') tl)] @ tsegs @
           (if tl mod 2 = 1 then [Inline [0]] else []) @
           [Inline (chunk_header (as_bytes ''data'') al), BackingAudio ao al] @
           (if al mod 2 = 1 then [Inline [0]] else [])))) (\<lambda>body_len.
        rbind (checked_add body_len 4) (\<lambda>n.
        rbind (u32_or_too_large n) (\<lambda>riff_size.
        map_err InvalidLayout
          (validated (Inline (as_bytes ''RIFF'' @ le_bytes 4 riff_size @ as_bytes ''WAVE'') #
           (s3 @ [Inline (chunk_header (as_bytes ''id3 '') tl)] @ tsegs @
           (if tl mod 2 = 1 then [Inline [0]] else []) @
           [Inline (chunk_header (as_bytes ''data'') al), BackingAudio ao al] @
           (if al mod 2 = 1 then [Inline [0]] else [])))))) ) = Inr l"
    using s unfolding wav_synthesize_layout_def Let_def
    by (auto simp: rbind_eq_Inr simp del: checked_add_eq)
  have s2: "s2 = ?inl ((as_bytes ''fmt '', ws_fmt scan) # facts)" "\<forall>c\<in>set facts. chunk_ok c"
    using f by (auto simp: facts_def chunk_ok_def split: option.splits)
  have s3: "s3 = s2 @ ?inl infos" "\<forall>c\<in>set infos. chunk_ok c" "\<forall>c\<in>set (info_chunks (info_entries [] tags)). chunk_ok c"
  proof -
    have four: "\<forall>c\<in>set (info_chunks (info_entries [] tags)). length (fst c) = 4"
      using info_entries_four by (auto simp: info_chunks_def)
    show "s3 = s2 @ ?inl infos" "\<forall>c\<in>set infos. chunk_ok c" "\<forall>c\<in>set (info_chunks (info_entries [] tags)). chunk_ok c"
      using i append_info_eq[of "as_bytes ''INFO''" "info_entries [] tags"] four
      by (auto simp: infos_def build_info_payload_def rbind_eq_Inr Let_def chunk_ok_def info_chunks_def split: if_splits)
  qed
  from build_tag_bytes[OF t(1) p(1), of enc]
  have tb: "layout_bytes enc v tsegs = tag_bytes (all_frames v tags bts arts)" "tl = length (tag_bytes (all_frames v tags bts arts))"
    "\<forall>f\<in>set (all_frames v tags bts arts). sized f" "length (frames_bytes (all_frames v tags bts arts)) \<le> synchsafe_max"
    "\<forall>s\<in>set tsegs. meta_seg v s" by simp_all
  define body where "body = s3 @ [Inline (chunk_header (as_bytes ''id3 '') tl)] @ tsegs @
           (if tl mod 2 = 1 then [Inline [0]] else []) @
           [Inline (chunk_header (as_bytes ''data'') al), BackingAudio ao al] @
           (if al mod 2 = 1 then [Inline [0]] else [])"
  have cs: "cs = (as_bytes ''fmt '', ws_fmt scan) # facts @ infos @
      [(as_bytes ''id3 '', tag_bytes (all_frames v tags bts arts)), (as_bytes ''data'', audio)]"
    by (simp add: cs_def wav_chunks_def facts_def infos_def audio_def)
  have inl: "layout_bytes enc v (?inl xs) = chunks_bytes xs" for xs by (induction xs) simp_all
  have bb: "layout_bytes enc v body = chunks_bytes cs"
  proof -
    have "chunk_bytes (as_bytes ''id3 '', tag_bytes (all_frames v tags bts arts)) =
        chunk_header (as_bytes ''id3 '') tl @ tag_bytes (all_frames v tags bts arts) @ (if tl mod 2 = 1 then [0] else [])"
      "chunk_bytes (as_bytes ''data'', audio) = chunk_header (as_bytes ''data'') al @ audio @ (if al mod 2 = 1 then [0] else [])"
      by (simp_all add: chunk_bytes_def chunk_header_def tb(2) al)
    thus ?thesis unfolding body_def s3(1) s2(1) cs by (simp add: inl tb(1) audio_def[symmetric])
  qed
  have bl: "length (layout_bytes enc v body) = sum_list (map seg_len body)"
  proof -
    have "length (layout_bytes enc v tsegs) = sum_list (map seg_len tsegs)" by (rule meta_bytes_length[OF tb(5)])
    moreover have "length (layout_bytes enc v (?inl xs)) = sum_list (map seg_len (?inl xs))" for xs by (induction xs) simp_all
    ultimately show ?thesis unfolding body_def s3(1) s2(1) using p(2) by simp
  qed
  obtain v': "validated (Inline (as_bytes ''RIFF'' @ le_bytes 4 (length (chunks_bytes cs) + 4) @ as_bytes ''WAVE'') # body) = Inr l"
    and n: "length (chunks_bytes cs) + 4 \<le> u32_max"
  proof -
    have e: "sum_list (map seg_len body) = length (chunks_bytes cs)" using bl bb by simp
    obtain b n where "checked_sum (map seg_len body) = Inr b" "n = b + 4" "n \<le> u32_max"
      "map_err InvalidLayout (validated (Inline (as_bytes ''RIFF'' @ le_bytes 4 n @ as_bytes ''WAVE'') # body)) = Inr l"
      using r unfolding body_def[symmetric] by (auto simp: rbind_eq_Inr)
    moreover from this(1) have "b = length (chunks_bytes cs)" using e by (simp add: checked_sum_eq split: if_splits)
    moreover have "map_err InvalidLayout x = Inr l \<Longrightarrow> x = Inr l" for x by (cases x) simp_all
    ultimately show ?thesis using that by blast
  qed
  note tot = validated_totals[OF v']
  have lb: "layout_bytes enc v (rl_segments l) = riff_bytes cs" using tot by (simp add: bb riff_bytes_def)
  have hl: "rl_header_len l + al = length (riff_bytes cs)"
  proof -
    have na: "filter is_audio tsegs = []" using tb(5) meta_seg_not_audio[of v] by (auto simp: filter_empty_conv)
    have ni: "filter is_audio (?inl xs) = []" for xs by (induction xs) simp_all
    have "filter is_audio body = [BackingAudio ao al]"
      unfolding body_def s3(1) s2(1) by (simp add: na ni)
    hence "sum_list (map seg_len body) = sum_list (map seg_len (filter (\<lambda>s. \<not> is_audio s) body)) + al"
      using sum_split_audio[of body] by simp
    thus ?thesis using tot bl bb by (simp add: riff_bytes_def)
  qed
  have ok: "\<forall>c\<in>set cs. chunk_ok c"
    using s2(2) s3(2) len t(2) tb(2) al by (auto simp: cs chunk_ok_def)
  show ?thesis using lb hl ok n tb(3,4) s3(3) by blast
qed

subsection \<open>INFO values\<close>

text \<open>The first value of each tag that has an INFO field.\<close>

fun first_values :: "string list \<Rightarrow> tag_input list \<Rightarrow> (string \<times> string) list" where
  "first_values used [] = []"
| "first_values used (t # ts) =
     (if ti_key t \<in> set used \<or> info_fourcc (ti_key t) = None then first_values used ts
      else (ti_key t, ti_value t) # first_values (used @ [ti_key t]) ts)"

definition info_tags :: "tag_input list \<Rightarrow> (string \<times> string) list" where
  "info_tags tags = filter (\<lambda>p. snd p \<noteq> []) (first_values [] tags)"

lemma info_entries_values:
  "info_entries used tags = map (\<lambda>p. (the (info_fourcc (fst p)), snd p)) (first_values used tags)"
  by (induction tags arbitrary: used) (auto split: option.splits)

lemma first_values_set:
  "p \<in> set (first_values used tags) \<Longrightarrow>
   (\<exists>t\<in>set tags. ti_value t = snd p) \<and> (\<exists>cc. info_fourcc (fst p) = Some cc)"
  by (induction tags arbitrary: used) (auto split: if_splits)

lemma info_to_key_fourcc: "info_fourcc k = Some cc \<Longrightarrow> info_to_key cc = Some k"
  by (auto simp: info_fourcc_def info_to_key_def as_bytes_def split: if_splits)

definition info_pair :: "bytes \<times> bytes \<Rightarrow> (string \<times> string) list" where
  "info_pair c =
     (case info_to_key (fst c) of
        Some key \<Rightarrow> if trim_end_nul (from_utf8_lossy (snd c)) \<noteq> [] then [(key, trim_end_nul (from_utf8_lossy (snd c)))] else []
      | None \<Rightarrow> [])"

lemma info_walk_chunks:
  assumes "\<forall>c\<in>set cs. chunk_ok c" "data = pre @ chunks_bytes cs"
  shows "info_walk data (length pre) = concat (map info_pair cs)"
  using assms
proof (induction cs arbitrary: pre)
  case Nil
  thus ?case by (subst info_walk.simps) simp
next
  case (Cons c cs)
  have c: "chunk_ok c" and d: "data = pre @ chunk_bytes c @ chunks_bytes cs" using Cons.prems by simp_all
  note at = chunk_at[OF c d refl] and len = chunk_bytes_length[OF c]
  have "info_walk data (length (pre @ chunk_bytes c)) = concat (map info_pair cs)"
    using Cons.prems by (intro Cons.IH) simp_all
  hence ih: "info_walk data (length pre + 8 + length (snd c) + length (snd c) mod 2) = concat (map info_pair cs)"
    using len by (simp add: add.assoc)
  have m: "\<not> length pre + 8 > length data" "min (length pre + 8 + length (snd c)) (length data) - (length pre + 8) = length (snd c)"
    using at(4) len by simp_all
  show ?case unfolding info_walk.simps[of data "length pre"] Let_def at(1,2) m(2) at(3) ih
    using m(1) by (simp add: info_pair_def[of c])
qed

lemma info_pair_value:
  assumes "info_fourcc k = Some cc" "utf8_valid (as_bytes x)" "0 \<notin> set (as_bytes x)"
  shows "info_pair (cc, as_bytes x @ [0]) = (if x \<noteq> [] then [(k, x)] else [])"
proof -
  have "utf8_valid (as_bytes x @ [0])" using assms(2) by (simp add: utf8_valid_append utf8_head_def)
  moreover have "chars_of (as_bytes x @ [0]) = chars_of (as_bytes x) @ chars_of [0]" by (simp add: chars_of_def)
  moreover have "chars_of [0] = [CHR 0x00]" by code_simp
  ultimately have l: "from_utf8_lossy (as_bytes x @ [0]) = x @ [CHR 0x00]"
    by (simp add: from_utf8_lossy_def utf8_lossy_valid)
  have "CHR 0x00 \<notin> set x" using assms(3) by (force simp: as_bytes_def)
  hence "trim_end_nul (x @ [CHR 0x00]) = x"
    by (simp add: trim_end_nul_def) (metis dropWhile_eq_self_iff hd_in_set list.set_sel(1) rev_is_Nil_conv rev_rev_ident set_rev)
  thus ?thesis using info_to_key_fourcc[OF assms(1)] by (simp add: info_pair_def l)
qed

lemma info_roundtrip:
  assumes "\<forall>t\<in>set tags. utf8_valid (as_bytes (ti_value t)) \<and> 0 \<notin> set (as_bytes (ti_value t))"
  shows "concat (map info_pair (info_chunks (info_entries [] tags))) = info_tags tags"
proof -
  have "concat (map info_pair (info_chunks (map (\<lambda>p. (the (info_fourcc (fst p)), snd p)) ps))) = filter (\<lambda>p. snd p \<noteq> []) ps"
    if "\<forall>p\<in>set ps. (\<exists>t\<in>set tags. ti_value t = snd p) \<and> (\<exists>cc. info_fourcc (fst p) = Some cc)" for ps
    using that
  proof (induction ps)
    case (Cons p ps)
    obtain cc where cc: "info_fourcc (fst p) = Some cc" using Cons.prems by auto
    have "utf8_valid (as_bytes (snd p))" "0 \<notin> set (as_bytes (snd p))" using Cons.prems assms by auto
    from info_pair_value[OF cc this] Cons show ?case by (simp add: info_chunks_def cc)
  qed (simp add: info_chunks_def)
  thus ?thesis using first_values_set by (simp add: info_entries_values info_tags_def)
qed

lemma reject_tags_ok: "reject_tags tags = Inr u \<Longrightarrow> t \<in> set tags \<Longrightarrow> 0 \<notin> set (as_bytes (ti_value t))"
  by (induction tags) (auto simp: rbind_eq_Inr reject_embedded_nul_def)

subsection \<open>Properties\<close>

lemma wav_ids_differ:
  "as_bytes ''fmt '' \<noteq> as_bytes ''fact''" "as_bytes ''fmt '' \<noteq> as_bytes ''LIST''" "as_bytes ''fmt '' \<noteq> as_bytes ''id3 ''"
  "as_bytes ''fmt '' \<noteq> as_bytes ''ID3 ''" "as_bytes ''fmt '' \<noteq> as_bytes ''data''" "as_bytes ''fact'' \<noteq> as_bytes ''LIST''"
  "as_bytes ''fact'' \<noteq> as_bytes ''id3 ''" "as_bytes ''fact'' \<noteq> as_bytes ''ID3 ''" "as_bytes ''fact'' \<noteq> as_bytes ''data''"
  "as_bytes ''LIST'' \<noteq> as_bytes ''id3 ''" "as_bytes ''LIST'' \<noteq> as_bytes ''ID3 ''" "as_bytes ''LIST'' \<noteq> as_bytes ''data''"
  "as_bytes ''id3 '' \<noteq> as_bytes ''data''"
  by (simp_all add: as_bytes_def)

lemma find_in_form:
  assumes "\<forall>c\<in>set cs. chunk_ok c" "length (chunks_bytes cs) + 4 \<le> u32_max"
  shows "Option.bind (find_chunk P (walk_chunks (riff_bytes cs))) (\<lambda>(_, off, len). chunk_slice (riff_bytes cs) off len) =
      map_option snd (find (\<lambda>c. P (fst c)) cs)"
    "find_chunk P (walk_chunks (riff_bytes cs)) = None \<longleftrightarrow> find (\<lambda>c. P (fst c)) cs = None"
proof -
  let ?pre = "as_bytes ''RIFF'' @ le_bytes 4 (length (chunks_bytes cs) + 4) @ as_bytes ''WAVE''"
  have d: "riff_bytes cs = ?pre @ chunks_bytes cs" "length ?pre = 12" by (simp_all add: riff_bytes_def)
  show "Option.bind (find_chunk P (walk_chunks (riff_bytes cs))) (\<lambda>(_, off, len). chunk_slice (riff_bytes cs) off len) =
      map_option snd (find (\<lambda>c. P (fst c)) cs)"
    "find_chunk P (walk_chunks (riff_bytes cs)) = None \<longleftrightarrow> find (\<lambda>c. P (fst c)) cs = None"
    using find_chunk_table[OF assms(1) d(1), of P] d(2) riff_chunks(2)[OF assms] by simp_all
qed

lemma find_append_None: "find P xs = None \<Longrightarrow> find P (xs @ ys) = find P ys"
  by (induction xs) (auto split: if_splits)

lemma locate_in_form:
  assumes cs: "cs = as @ [(as_bytes ''data'', audio)]" "\<forall>c\<in>set cs. chunk_ok c" "length (chunks_bytes cs) + 4 \<le> u32_max"
    and ids: "\<forall>c\<in>set as. fst c \<noteq> as_bytes ''data''" "\<exists>c\<in>set as. fst c = as_bytes ''fmt ''"
  shows "wav_locate_audio (riff_bytes cs) =
      Inr \<lparr> wb_audio_offset = 20 + length (chunks_bytes as), wb_audio_length = length audio \<rparr>"
    "slice (riff_bytes cs) (20 + length (chunks_bytes as)) (length audio) = audio"
proof -
  let ?off = "20 + length (chunks_bytes as)"
  have t: "walk_chunks (riff_bytes cs) = chunk_table 12 as @ [(as_bytes ''data'', ?off, length audio)]"
    using riff_chunks(2)[OF cs(2,3)] by (simp add: cs(1) chunk_table_append)
  have none: "find (\<lambda>c. fst c = as_bytes ''data'') (chunk_table pos as) = None" for pos
    using ids(1) by (induction as arbitrary: pos) auto
  have fmt: "list_ex (\<lambda>c. fst c = as_bytes ''fmt '') (chunk_table pos as)" for pos
    using ids(2) by (induction as arbitrary: pos) auto
  have f: "find_chunk (\<lambda>i. i = as_bytes ''data'') (walk_chunks (riff_bytes cs)) = Some (as_bytes ''data'', ?off, length audio)"
    unfolding find_chunk_def t find_append_None[OF none] by simp
  have d: "chunk_ok (as_bytes ''data'', audio)" using cs by simp
  have len: "?off + length audio \<le> length (riff_bytes cs)"
    using riff_chunks(3)[OF cs(2,3)] chunk_bytes_length[OF d] by (simp add: cs(1))
  have "sat_add64 ?off (length audio) \<le> length (riff_bytes cs)" using len by (simp add: sat_add64_def)
  thus "wav_locate_audio (riff_bytes cs) = Inr \<lparr> wb_audio_offset = ?off, wb_audio_length = length audio \<rparr>"
    using riff_chunks(1)[OF cs(2,3)] f fmt[of 12] t
    by (simp add: wav_locate_audio_def data_bounds_def)
  have "riff_bytes cs = (as_bytes ''RIFF'' @ le_bytes 4 (length (chunks_bytes cs) + 4) @ as_bytes ''WAVE'' @ chunks_bytes as) @
      chunk_bytes (as_bytes ''data'', audio) @ []"
    by (simp add: riff_bytes_def cs(1))
  from chunk_at(3)[OF d this refl] show "slice (riff_bytes cs) ?off (length audio) = audio" by (simp add: ac_simps)
qed

text \<open>C33: re-reading a synthesized WAV gives back what it was made of: the fmt and fact payloads, the
  audio as the payload of the data chunk with the backing bytes in it, the opaque and promoted binary
  frames of the id3 chunk, and as tags those the ID3 reader finds in that chunk followed by the INFO
  values (the first value of each INFO key) of the keys it does not report.\<close>

theorem wav_synth_reparses:
  assumes "wav_synthesize_layout scan ao al tags bts arts = Inr l"
    "blobs_present v bts arts" "ao + al \<le> length (env_backing v)"
    "\<forall>bt\<in>set bts. length (bt_key bt) = 4 \<longrightarrow> opaque_frame (as_bytes (bt_key bt)) (env_tag v (bt_payload_id bt))"
    "\<forall>t\<in>set tags. utf8_valid (as_bytes (ti_value t))"
  shows "wav_read_structure (layout_bytes enc v (rl_segments l)) = Inr scan \<and>
    (\<exists>p. wav_locate_audio (layout_bytes enc v (rl_segments l)) = Inr \<lparr> wb_audio_offset = p, wb_audio_length = al \<rparr> \<and>
       slice (layout_bytes enc v (rl_segments l)) p al = slice (env_backing v) ao al) \<and>
    wav_read_binary_tags (layout_bytes enc v (rl_segments l)) = Some (opaque_tags v bts, promoted_tags tags) \<and>
    (\<exists>ids. ids = mp3_read_tags read_from (tag_bytes (all_frames v tags bts arts)) \<and>
       wav_read_tags read_from (layout_bytes enc v (rl_segments l)) =
         ids @ filter (\<lambda>(k, x). k \<notin> set (map fst ids)) (info_tags tags))"
proof -
  define audio where "audio = slice (env_backing v) ao al"
  let ?as = "wav_chunks v scan tags bts arts" and ?fs = "all_frames v tags bts arts"
  let ?cs = "?as @ [(as_bytes ''data'', audio)]"
  note sy = wav_synth_chunks[OF assms(1-3), of enc, folded audio_def]
  have fil: "layout_bytes enc v (rl_segments l) = riff_bytes ?cs" and ok: "\<forall>c\<in>set ?cs. chunk_ok c"
    "length (chunks_bytes ?cs) + 4 \<le> u32_max" using sy by blast+
  have fs: "\<forall>f\<in>set ?fs. sized f" "length (frames_bytes ?fs) \<le> synchsafe_max"
    and ic: "\<forall>c\<in>set (info_chunks (info_entries [] tags)). chunk_ok c" using sy by blast+
  have al: "length audio = al" using assms(3) by (simp add: audio_def)
  note found = find_in_form[OF ok] and w = wav_chunks_def and ne = wav_ids_differ wav_ids_differ[symmetric]
  have fmt: "find (\<lambda>c. fst c = as_bytes ''fmt '') ?cs = Some (as_bytes ''fmt '', ws_fmt scan)" by (simp add: w)
  have fact_c: "map_option snd (find (\<lambda>c. fst c = as_bytes ''fact'') ?cs) = ws_fact scan"
    using ne by (simp add: w split: option.splits)
  have id3: "find (\<lambda>c. fst c = as_bytes ''id3 '' \<or> fst c = as_bytes ''ID3 '') ?cs = Some (as_bytes ''id3 '', tag_bytes ?fs)"
    using ne by (simp add: w split: option.splits)
  have info: "map_option snd (find (\<lambda>c. fst c = as_bytes ''LIST'') ?cs) =
      (if info_entries [] tags = [] then None else Some (as_bytes ''INFO'' @ chunks_bytes (info_chunks (info_entries [] tags))))"
    using ne by (simp add: w split: option.splits)
  have st: "wav_read_structure (riff_bytes ?cs) = Inr scan"
  proof -
    let ?W = "walk_chunks (riff_bytes ?cs)"
    obtain i o1 n1 where f: "find_chunk (\<lambda>i. i = as_bytes ''fmt '') ?W = Some (i, o1, n1)"
      "chunk_slice (riff_bytes ?cs) o1 n1 = Some (ws_fmt scan)"
      using found(1)[of "\<lambda>i. i = as_bytes ''fmt ''"] fmt by (auto simp: bind_eq_Some_conv)
    show ?thesis
    proof (cases "ws_fact scan")
      case None
      hence "find_chunk (\<lambda>i. i = as_bytes ''fact'') ?W = None"
        using found(2)[of "\<lambda>i. i = as_bytes ''fact''"] fact_c by simp
      thus ?thesis using f None riff_chunks(1)[OF ok] by (simp add: wav_read_structure_def Let_def)
    next
      case (Some x)
      obtain j o2 n2 where "find_chunk (\<lambda>i. i = as_bytes ''fact'') ?W = Some (j, o2, n2)"
        "chunk_slice (riff_bytes ?cs) o2 n2 = Some x"
        using found(1)[of "\<lambda>i. i = as_bytes ''fact''"] fact_c Some by (auto simp: bind_eq_Some_conv)
      thus ?thesis using f Some riff_chunks(1)[OF ok] by (simp add: wav_read_structure_def Let_def)
    qed
  qed
  have loc: "wav_locate_audio (riff_bytes ?cs) = Inr \<lparr> wb_audio_offset = 20 + length (chunks_bytes ?as), wb_audio_length = al \<rparr>"
    "slice (riff_bytes ?cs) (20 + length (chunks_bytes ?as)) al = audio"
  proof -
    have "\<forall>c\<in>set ?as. fst c \<noteq> as_bytes ''data''" "\<exists>c\<in>set ?as. fst c = as_bytes ''fmt ''"
      using ne by (auto simp: w split: option.splits)
    from locate_in_form[OF refl ok this] show
      "wav_locate_audio (riff_bytes ?cs) = Inr \<lparr> wb_audio_offset = 20 + length (chunks_bytes ?as), wb_audio_length = al \<rparr>"
      "slice (riff_bytes ?cs) (20 + length (chunks_bytes ?as)) al = audio" by (simp_all add: al)
  qed
  have idc: "find_id3_chunk (riff_bytes ?cs) (walk_chunks (riff_bytes ?cs)) = Some (tag_bytes ?fs)"
    using found(1)[of "\<lambda>i. i = as_bytes ''id3 '' \<or> i = as_bytes ''ID3 ''"] id3 by (simp add: find_id3_chunk_def)
  have mb: "\<forall>t\<in>set tags. ti_key t = ''musicbrainz_trackid'' \<longrightarrow> utf8_valid (as_bytes (ti_value t))" using assms(5) by blast
  note c = classify_built[OF assms(4) mb fs(1)]
  have bin: "wav_read_binary_tags (riff_bytes ?cs) = Some (opaque_tags v bts, promoted_tags tags)"
    using read_written_tag(1)[OF c(2) fs(2), of "[]"] c(1) by (simp add: wav_read_binary_tags_def idc)
  have nul: "\<forall>t\<in>set tags. utf8_valid (as_bytes (ti_value t)) \<and> 0 \<notin> set (as_bytes (ti_value t))"
  proof -
    obtain x where "build_id3v2_segments tags bts arts = Inr x"
      using assms(1) by (auto simp: wav_synthesize_layout_def rbind_eq_Inr)
    hence "reject_tags tags = Inr ()" by (auto simp: build_id3v2_segments_def rbind_eq_Inr)
    thus ?thesis using reject_tags_ok assms(5) by blast
  qed
  have inf: "info_chunk_tags (riff_bytes ?cs) (walk_chunks (riff_bytes ?cs)) = info_tags tags"
    using found(1)[of "\<lambda>i. i = as_bytes ''LIST''"] info info_walk_chunks[OF ic, of _ "[]"] info_roundtrip[OF nul]
    by (auto simp: info_chunk_tags_def read_info_tags_def slice_def info_chunks_def as_bytes_def split: if_splits)
  show ?thesis
    unfolding fil audio_def[symmetric] using st loc bin by (simp add: wav_read_tags_def idc inf Let_def)
qed

definition demo_wav_scan :: wav_scan where
  "demo_wav_scan = \<lparr> ws_fmt = [1, 0, 1, 0, 0x44, 0xAC, 0, 0, 0x88, 0x58, 1, 0, 2, 0, 16, 0], ws_fact = Some [7, 7, 7] \<rparr>"

definition demo_wav_layout :: region_layout where
  "demo_wav_layout = projr (wav_synthesize_layout demo_wav_scan 0 5 demo_mp3_tags demo_mp3_binary demo_mp3_arts)"

lemma wav_synth_reparses_witness:
  "wav_read_structure (layout_bytes b64_std demo_mp3_env (rl_segments demo_wav_layout)) = Inr demo_wav_scan \<and>
   wav_read_tags (\<lambda>_. None) (layout_bytes b64_std demo_mp3_env (rl_segments demo_wav_layout)) = [(''title'', ''Abc'')]"
proof -
  have syn: "wav_synthesize_layout demo_wav_scan 0 5 demo_mp3_tags demo_mp3_binary demo_mp3_arts = Inr demo_wav_layout"
    unfolding demo_wav_layout_def by code_simp
  have ok: "blobs_present demo_mp3_env demo_mp3_binary demo_mp3_arts" "0 + 5 \<le> length (env_backing demo_mp3_env)"
    "\<forall>bt\<in>set demo_mp3_binary. length (bt_key bt) = 4 \<longrightarrow> opaque_frame (as_bytes (bt_key bt)) (env_tag demo_mp3_env (bt_payload_id bt))"
    "\<forall>t\<in>set demo_mp3_tags. utf8_valid (as_bytes (ti_value t))"
    by code_simp+
  have i: "info_tags demo_mp3_tags = [(''title'', ''Abc'')]" by code_simp
  have "mp3_read_tags (\<lambda>_. None) b = []" for b by (simp add: mp3_read_tags_def)
  thus ?thesis using wav_synth_reparses[OF syn ok, of b64_std "\<lambda>_. None"] by (simp add: i)
qed

end
