(* ===== verification/Mp4.thy ===== *)
theory Mp4
  imports Decimal Tagmap Layout
begin

text \<open>
  MP4 structure, musefs-format/src/mp4.rs: box headers, strict and lenient box lists, the shape a
  served file must have, the whole-buffer structure reader and the seeking one, which is given a
  function that reads a region of the file.
\<close>

unbundle bit_operations_syntax

definition max_mp4_metadata_bytes :: nat where "max_mp4_metadata_bytes = 256 * 1024 * 1024"

subsection \<open>Boxes\<close>

record box_ref =
  bx_kind :: bytes
  bx_start :: nat
  bx_header_len :: nat
  bx_total_len :: nat

definition payload_start :: "box_ref \<Rightarrow> nat" where "payload_start b = bx_start b + bx_header_len b"

definition box_end :: "box_ref \<Rightarrow> nat" where "box_end b = bx_start b + bx_total_len b"

definition box_payload :: "box_ref \<Rightarrow> bytes \<Rightarrow> bytes" where
  "box_payload b buf = slice buf (payload_start b) (box_end b - payload_start b)"

record box_header =
  bh_kind :: bytes
  bh_header_len :: nat
  bh_total_len :: nat

definition mp4_box_header :: "bytes \<Rightarrow> nat \<Rightarrow> box_header fresult" where
  "mp4_box_header hdr remaining =
     rbind (read_u32_be hdr 0) (\<lambda>size32.
     rbind (ok_or (get_slice hdr 4 8) Malformed) (\<lambda>kind.
     rbind (if size32 = 1 then rbind (read_u64_be hdr 8) (\<lambda>n. Inr (16, n))
            else if size32 = 0 then Inr (8, remaining) else Inr (8, size32)) (\<lambda>(header_len, total_len).
     if total_len < header_len \<or> total_len > remaining then Inl Malformed
     else Inr \<lparr> bh_kind = kind, bh_header_len = header_len, bh_total_len = total_len \<rparr>)))"

definition read_box :: "bytes \<Rightarrow> nat \<Rightarrow> box_ref fresult" where
  "read_box buf pos =
     rbind (read_u32_be buf pos) (\<lambda>size32.
     rbind (ok_or (get_slice buf (pos + 4) (pos + 8)) Malformed) (\<lambda>kind.
     rbind (if size32 = 1 then rbind (read_u64_be buf (pos + 8)) (\<lambda>n. Inr (16, n))
            else if size32 = 0 then Inr (8, length buf - pos) else Inr (8, size32)) (\<lambda>(header_len, total).
     case checked_add64 pos total of
       None \<Rightarrow> Inl Malformed
     | Some e \<Rightarrow>
         if total < header_len \<or> e > length buf then Inl Malformed
         else Inr \<lparr> bx_kind = kind, bx_start = pos, bx_header_len = header_len, bx_total_len = total \<rparr>)))"

lemma read_box_bounds:
  assumes "read_box buf pos = Inr b"
  shows "bx_start b = pos" "8 \<le> bx_header_len b" "bx_header_len b \<le> bx_total_len b" "box_end b \<le> length buf"
  using assms by (auto simp: read_box_def rbind_eq_Inr box_end_def checked_add64_def split: if_splits option.splits)

lemma box_end_bounds: "read_box buf pos = Inr b \<Longrightarrow> pos + 8 \<le> box_end b \<and> box_end b \<le> length buf"
  using read_box_bounds[of buf pos b] by (simp add: box_end_def)

function boxes_from :: "bytes \<Rightarrow> nat \<Rightarrow> box_ref list fresult" where
  "boxes_from buf pos =
     (if pos + 8 > length buf then Inr []
      else case read_box buf pos of
             Inl e \<Rightarrow> Inl e
           | Inr b \<Rightarrow> rbind (boxes_from buf (box_end b)) (\<lambda>bs. Inr (b # bs)))"
  by pat_completeness auto
termination
  by (relation "measure (\<lambda>(buf, pos). length buf - pos)")
     (auto dest!: box_end_bounds)

declare boxes_from.simps [simp del]

definition child_boxes :: "bytes \<Rightarrow> box_ref list fresult" where
  "child_boxes buf = boxes_from buf 0"

function boxes_lenient_from :: "bytes \<Rightarrow> nat \<Rightarrow> box_ref list" where
  "boxes_lenient_from buf pos =
     (if pos + 8 > length buf then []
      else case read_box buf pos of
             Inl e \<Rightarrow> []
           | Inr b \<Rightarrow> b # boxes_lenient_from buf (box_end b))"
  by pat_completeness auto
termination
  by (relation "measure (\<lambda>(buf, pos). length buf - pos)")
     (auto dest!: box_end_bounds)

declare boxes_lenient_from.simps [simp del]

definition child_boxes_lenient :: "bytes \<Rightarrow> box_ref list" where
  "child_boxes_lenient buf = boxes_lenient_from buf 0"

definition find_box :: "bytes \<Rightarrow> bytes \<Rightarrow> box_ref option fresult" where
  "find_box buf kind = rbind (child_boxes buf) (\<lambda>bs. Inr (find (\<lambda>b. bx_kind b = kind) bs))"

definition find_box_lenient :: "bytes \<Rightarrow> bytes \<Rightarrow> box_ref option" where
  "find_box_lenient buf kind = find (\<lambda>b. bx_kind b = kind) (child_boxes_lenient buf)"

fun find_path_from :: "bytes \<Rightarrow> nat \<Rightarrow> (nat \<times> nat) option \<Rightarrow> bytes list \<Rightarrow> (nat \<times> nat) option fresult" where
  "find_path_from buf base last_found [] = Inr last_found"
| "find_path_from buf base last_found (kind # path) =
     rbind (find_box (drop base buf) kind) (\<lambda>r. case r of
       None \<Rightarrow> Inr None
     | Some b \<Rightarrow>
         let ps = base + payload_start b
         in find_path_from buf ps (Some (ps, bx_total_len b - bx_header_len b)) path)"

definition find_path :: "bytes \<Rightarrow> bytes list \<Rightarrow> (nat \<times> nat) option fresult" where
  "find_path buf path = find_path_from buf 0 None path"

subsection \<open>The supported shape\<close>

record mp4_bounds =
  m4_audio_offset :: nat
  m4_audio_length :: nat

definition chapter_handlers :: "bytes list" where
  "chapter_handlers = [as_bytes ''text'', as_bytes ''sbtl'']"

fun join_comma :: "string list \<Rightarrow> string" where
  "join_comma [] = []"
| "join_comma [w] = w"
| "join_comma (w # x # ws) = w @ '', '' @ join_comma (x # ws)"

definition trak_handler :: "bytes \<Rightarrow> bytes option fresult" where
  "trak_handler trak =
     rbind (find_path trak [as_bytes ''mdia'', as_bytes ''hdlr'']) (\<lambda>r.
     Inr (Option.bind r (\<lambda>(hp, hl). get_slice (slice trak hp hl) 8 12)))"

fun classify_traks ::
  "bytes \<Rightarrow> string list \<Rightarrow> nat \<Rightarrow> bool \<Rightarrow> box_ref list \<Rightarrow> (string list \<times> nat \<times> bool) fresult" where
  "classify_traks moov handlers soun unsupported [] = Inr (handlers, soun, unsupported)"
| "classify_traks moov handlers soun unsupported (t # ts) =
     rbind (trak_handler (box_payload t moov)) (\<lambda>handler.
     classify_traks moov
       (handlers @ [case handler of Some h \<Rightarrow> from_utf8_lossy h | None \<Rightarrow> ''<no hdlr>''])
       (if handler = Some (as_bytes ''soun'') then soun + 1 else soun)
       (case handler of
          Some h \<Rightarrow> if h = as_bytes ''soun'' \<or> h \<in> set chapter_handlers then unsupported else True
        | None \<Rightarrow> True) ts)"

definition validate_moov :: "bytes \<Rightarrow> unit fresult" where
  "validate_moov moov_payload =
     rbind (find_box moov_payload (as_bytes ''mvex'')) (\<lambda>mvex.
     if mvex \<noteq> None then Inl NotMp4
     else rbind (child_boxes moov_payload) (\<lambda>bs.
          rbind (classify_traks moov_payload [] 0 False (filter (\<lambda>b. bx_kind b = as_bytes ''trak'') bs))
            (\<lambda>(handlers, soun, unsupported).
          if soun \<noteq> 1 \<or> unsupported
          then Inl (Mp4Tracks (''expected one audio (soun) track, optionally with text/sbtl chapter tracks; found ['' @
                 join_comma handlers @ '']''))
          else Inr ())))"

definition one_box :: "box_ref list \<Rightarrow> bytes \<Rightarrow> box_ref fresult" where
  "one_box tops kind =
     (case filter (\<lambda>b. bx_kind b = kind) tops of [b] \<Rightarrow> Inr b | _ \<Rightarrow> Inl NotMp4)"

definition mp4_locate :: "bytes \<Rightarrow> (box_ref \<times> box_ref \<times> box_ref) fresult" where
  "mp4_locate buf =
     rbind (map_err (\<lambda>_. NotMp4) (child_boxes buf)) (\<lambda>tops.
     if list_ex (\<lambda>b. bx_kind b = as_bytes ''moof'') tops then Inl NotMp4
     else rbind (one_box tops (as_bytes ''ftyp'')) (\<lambda>ftyp.
          rbind (one_box tops (as_bytes ''moov'')) (\<lambda>moov.
          rbind (one_box tops (as_bytes ''mdat'')) (\<lambda>mdat.
          rbind (validate_moov (box_payload moov buf)) (\<lambda>_. Inr (ftyp, moov, mdat))))))"

definition mp4_locate_audio :: "bytes \<Rightarrow> mp4_bounds fresult" where
  "mp4_locate_audio buf =
     rbind (mp4_locate buf) (\<lambda>(ftyp, moov, mdat).
     Inr \<lparr> m4_audio_offset = payload_start mdat, m4_audio_length = bx_total_len mdat - bx_header_len mdat \<rparr>)"

record mp4_scan =
  sc_ftyp :: bytes
  sc_moov :: bytes
  sc_mdat_header :: bytes
  sc_mdat_payload_offset :: nat
  sc_mdat_payload_len :: nat

definition mp4_read_structure :: "bytes \<Rightarrow> mp4_scan fresult" where
  "mp4_read_structure buf =
     rbind (mp4_locate buf) (\<lambda>(ftyp, moov, mdat).
     Inr \<lparr> sc_ftyp = slice buf (bx_start ftyp) (box_end ftyp - bx_start ftyp),
           sc_moov = slice buf (bx_start moov) (box_end moov - bx_start moov),
           sc_mdat_header = slice buf (bx_start mdat) (payload_start mdat - bx_start mdat),
           sc_mdat_payload_offset = payload_start mdat,
           sc_mdat_payload_len = bx_total_len mdat - bx_header_len mdat \<rparr>)"

subsection \<open>The seeking reader\<close>

datatype 'io mp4_scan_error = Mp4Io 'io | Mp4Format format_error | MetadataTooLarge string nat nat

type_synonym 'io region = "nat \<Rightarrow> nat \<Rightarrow> 'io + bytes"

text \<open>The boxes met so far (the last one of each kind), and whether one was met twice.\<close>

record scan_walk =
  sw_ftyp :: "(nat \<times> box_header) option"
  sw_moov :: "(nat \<times> box_header) option"
  sw_mdat :: "(nat \<times> box_header) option"
  sw_dup :: bool

definition scan_header :: "'io region \<Rightarrow> nat \<Rightarrow> nat \<Rightarrow> 'io mp4_scan_error + box_header" where
  "scan_header rd file_len pos =
     rbind (map_err Mp4Io (rd pos 8)) (\<lambda>first8.
     rbind (if be_val (take 4 first8) = 1 then rbind (map_err Mp4Io (rd (pos + 8) 8)) (\<lambda>m. Inr (first8 @ m))
            else Inr first8) (\<lambda>hdr.
     map_err Mp4Format (mp4_box_header hdr (file_len - pos))))"

definition scan_note :: "nat \<Rightarrow> box_header \<Rightarrow> scan_walk \<Rightarrow> scan_walk" where
  "scan_note pos bh w =
     (if bh_kind bh = as_bytes ''ftyp'' then w\<lparr> sw_dup := sw_dup w \<or> sw_ftyp w \<noteq> None, sw_ftyp := Some (pos, bh) \<rparr>
      else if bh_kind bh = as_bytes ''moov'' then w\<lparr> sw_dup := sw_dup w \<or> sw_moov w \<noteq> None, sw_moov := Some (pos, bh) \<rparr>
      else if bh_kind bh = as_bytes ''mdat'' then w\<lparr> sw_dup := sw_dup w \<or> sw_mdat w \<noteq> None, sw_mdat := Some (pos, bh) \<rparr>
      else w)"

lemma box_header_bounds:
  "mp4_box_header hdr remaining = Inr bh \<Longrightarrow>
   8 \<le> bh_header_len bh \<and> bh_header_len bh \<le> bh_total_len bh \<and> bh_total_len bh \<le> remaining"
  by (auto simp: mp4_box_header_def rbind_eq_Inr split: if_splits)

lemma scan_header_bounds:
  "scan_header rd file_len pos = Inr bh \<Longrightarrow>
   8 \<le> bh_header_len bh \<and> bh_header_len bh \<le> bh_total_len bh \<and> bh_total_len bh \<le> file_len - pos"
proof -
  assume "scan_header rd file_len pos = Inr bh"
  then obtain hdr where "map_err Mp4Format (mp4_box_header hdr (file_len - pos)) = (Inr bh :: 'a mp4_scan_error + box_header)"
    by (auto simp: scan_header_def rbind_eq_Inr)
  hence "mp4_box_header hdr (file_len - pos) = Inr bh" by (cases "mp4_box_header hdr (file_len - pos)") auto
  thus ?thesis by (rule box_header_bounds)
qed

function scan_boxes :: "'io region \<Rightarrow> nat \<Rightarrow> nat \<Rightarrow> scan_walk \<Rightarrow> 'io mp4_scan_error + scan_walk" where
  "scan_boxes rd file_len pos w =
     (if pos + 8 > file_len then Inr w
      else case scan_header rd file_len pos of
             Inl e \<Rightarrow> Inl e
           | Inr bh \<Rightarrow>
               if bh_kind bh = as_bytes ''moof'' then Inl (Mp4Format NotMp4)
               else scan_boxes rd file_len (pos + bh_total_len bh) (scan_note pos bh w))"
  by pat_completeness auto
termination
  by (relation "measure (\<lambda>(rd, file_len, pos, w). file_len - pos)") (auto dest!: scan_header_bounds)

declare scan_boxes.simps [simp del]

definition scan_one :: "(nat \<times> box_header) option \<Rightarrow> 'io mp4_scan_error + (nat \<times> box_header)" where
  "scan_one r = ok_or r (Mp4Format NotMp4)"

definition check_metadata_len :: "string \<Rightarrow> nat \<Rightarrow> 'io mp4_scan_error + unit" where
  "check_metadata_len kind n = require (n \<le> max_mp4_metadata_bytes) (MetadataTooLarge kind n max_mp4_metadata_bytes)"

definition mp4_read_structure_from :: "'io region \<Rightarrow> nat \<Rightarrow> 'io mp4_scan_error + mp4_scan" where
  "mp4_read_structure_from rd file_len =
     rbind (scan_boxes rd file_len 0 \<lparr> sw_ftyp = None, sw_moov = None, sw_mdat = None, sw_dup = False \<rparr>) (\<lambda>w.
     if sw_dup w then Inl (Mp4Format NotMp4)
     else rbind (scan_one (sw_ftyp w)) (\<lambda>(ftyp_s, ftyp_h).
          rbind (scan_one (sw_moov w)) (\<lambda>(moov_s, moov_h).
          rbind (scan_one (sw_mdat w)) (\<lambda>(mdat_s, mdat_h).
          rbind (check_metadata_len ''ftyp'' (bh_total_len ftyp_h)) (\<lambda>_.
          rbind (check_metadata_len ''moov'' (bh_total_len moov_h)) (\<lambda>_.
          rbind (map_err Mp4Io (rd ftyp_s (bh_total_len ftyp_h))) (\<lambda>ftyp_bytes.
          rbind (map_err Mp4Io (rd moov_s (bh_total_len moov_h))) (\<lambda>moov_bytes.
          rbind (map_err Mp4Io (rd mdat_s (bh_header_len mdat_h))) (\<lambda>mdat_header.
          rbind (map_err Mp4Format (validate_moov (drop (bh_header_len moov_h) moov_bytes))) (\<lambda>_.
          Inr \<lparr> sc_ftyp = ftyp_bytes, sc_moov = moov_bytes, sc_mdat_header = mdat_header,
                sc_mdat_payload_offset = mdat_s + bh_header_len mdat_h,
                sc_mdat_payload_len = bh_total_len mdat_h - bh_header_len mdat_h \<rparr>))))))))))"

end
