(* ===== verification/Mp4_Tags.thy ===== *)
theory Mp4_Tags
  imports Mp4
begin

text \<open>
  The metadata readers of MP4, musefs-format/src/mp4.rs: the iTunes item list and the text tags,
  cover pictures and opaque freeform values in it. All of them are lenient: what is malformed is
  absent. UTF-8 decoding is that of Format_Base.
\<close>

unbundle bit_operations_syntax

definition ilst_region :: "bytes \<Rightarrow> (nat \<times> nat) option" where
  "ilst_region buf =
     Option.bind (find_box_lenient buf (as_bytes ''moov'')) (\<lambda>moov.
     let mp = box_payload moov buf; base = payload_start moov in
     Option.bind (find_box_lenient mp (as_bytes ''udta'')) (\<lambda>udta.
     let up = payload_start udta; udta_payload = box_payload udta mp in
     Option.bind (find_box_lenient udta_payload (as_bytes ''meta'')) (\<lambda>mta.
     let meta_payload = box_payload mta udta_payload;
         prefx = (if get_slice meta_payload 0 4 = Some [0, 0, 0, 0] then 4 else 0) in
     Option.bind (find_box_lenient (drop prefx meta_payload) (as_bytes ''ilst'')) (\<lambda>il.
     Some (base + up + payload_start mta + prefx + payload_start il, bx_total_len il - bx_header_len il)))))"

definition freeform_name :: "bytes \<Rightarrow> string option" where
  "freeform_name inner =
     Option.bind (find_box_lenient inner (as_bytes ''name'')) (\<lambda>n.
     let p = box_payload n inner in if length p < 4 then None else from_utf8 (drop 4 p))"

definition freeform_mean :: "bytes \<Rightarrow> string" where
  "freeform_mean inner =
     (case find_box_lenient inner (as_bytes ''mean'') of
        None \<Rightarrow> ''com.apple.iTunes''
      | Some m \<Rightarrow>
          let p = box_payload m inner in
          if 4 \<le> length p
          then (case from_utf8 (drop 4 p) of Some s \<Rightarrow> s | None \<Rightarrow> ''com.apple.iTunes'')
          else ''com.apple.iTunes'')"

text \<open>The bodies of the data children that hold a type, a locale and a value.\<close>

definition data_bodies :: "bytes \<Rightarrow> bytes list" where
  "data_bodies inner =
     filter (\<lambda>dp. 8 \<le> length dp)
       (map (\<lambda>b. box_payload b inner) (filter (\<lambda>b. bx_kind b = as_bytes ''data'') (child_boxes_lenient inner)))"

definition type_code :: "bytes \<Rightarrow> nat" where "type_code dp = be_val (take 4 dp)"

definition read_freeform :: "bytes \<Rightarrow> (string \<times> string) list" where
  "read_freeform inner =
     (case freeform_name inner of
        None \<Rightarrow> []
      | Some name \<Rightarrow>
          let key = (case mp4_freeform_to_key (freeform_mean inner) name of Some k \<Rightarrow> k | None \<Rightarrow> name)
          in List.map_filter (\<lambda>dp. if type_code dp \<noteq> 1 then None
                                   else map_option (\<lambda>v. (key, v)) (from_utf8 (drop 8 dp)))
               (data_bodies inner))"

definition number_total :: "bytes \<Rightarrow> string" where
  "number_total v =
     (let number = be_val (slice v 2 2);
          tot = (if 6 \<le> length v then be_val (slice v 4 2) else 0)
      in if tot \<noteq> 0 then dec number @ ''/'' @ dec tot else dec number)"

definition atom_value_tags :: "bytes \<Rightarrow> bytes \<Rightarrow> (string \<times> string) list" where
  "atom_value_tags kind dp =
     (let v = drop 8 dp in
      case mp4_atom_to_key kind of
        Some key \<Rightarrow> (case from_utf8 v of Some s \<Rightarrow> [(key, s)] | None \<Rightarrow> [])
      | None \<Rightarrow>
          if kind = as_bytes ''trkn'' \<and> 4 \<le> length v then [(''tracknumber'', number_total v)]
          else if kind = as_bytes ''disk'' \<and> 4 \<le> length v then [(''discnumber'', number_total v)]
          else (case mp4_integer_atom_to_key kind of
                  Some key \<Rightarrow> [(key, dec (be_val (take 8 v)))]
                | None \<Rightarrow> []))"

definition atom_tags :: "bytes \<Rightarrow> bytes \<Rightarrow> (string \<times> string) list" where
  "atom_tags kind inner =
     (if kind = as_bytes ''----'' then read_freeform inner
      else concat (map (atom_value_tags kind) (data_bodies inner)))"

definition ilst_atoms :: "bytes \<Rightarrow> (bytes \<times> bytes) list" where
  "ilst_atoms buf =
     (case ilst_region buf of
        None \<Rightarrow> []
      | Some (start, len) \<Rightarrow>
          let ilst = slice buf start len
          in map (\<lambda>b. (bx_kind b, box_payload b ilst)) (child_boxes_lenient ilst))"

definition mp4_read_tags :: "bytes \<Rightarrow> (string \<times> string) list" where
  "mp4_read_tags buf = concat (map (\<lambda>(kind, inner). atom_tags kind inner) (ilst_atoms buf))"

record oversize_drop =
  od_descriptor :: string
  od_bytes :: nat

definition picture_body :: "nat \<Rightarrow> bytes \<Rightarrow> embedded_picture list \<times> oversize_drop list" where
  "picture_body max_art_bytes dp =
     (let mime = (if type_code dp = 13 then Some ''image/jpeg'' else if type_code dp = 14 then Some ''image/png'' else None) in
      case mime of
        None \<Rightarrow> ([], [])
      | Some m \<Rightarrow>
          if length dp - 8 > max_art_bytes then ([], [\<lparr> od_descriptor = m, od_bytes = length dp - 8 \<rparr>])
          else ([\<lparr> pic_mime = m, pic_type = 3, pic_description = [], pic_width = 0, pic_height = 0, pic_data = drop 8 dp \<rparr>], []))"

text \<open>The pieces of two output lists, appended in order.\<close>

definition gather :: "('a list \<times> 'b list) list \<Rightarrow> 'a list \<times> 'b list" where
  "gather rs = (concat (map fst rs), concat (map snd rs))"

definition mp4_read_pictures_reporting :: "bytes \<Rightarrow> nat \<Rightarrow> embedded_picture list \<times> oversize_drop list" where
  "mp4_read_pictures_reporting buf max_art_bytes =
     gather (concat (map (\<lambda>(kind, inner).
       if kind \<noteq> as_bytes ''covr'' then [] else map (picture_body max_art_bytes) (data_bodies inner)) (ilst_atoms buf)))"

definition mp4_read_pictures :: "bytes \<Rightarrow> nat \<Rightarrow> embedded_picture list" where
  "mp4_read_pictures buf max_art_bytes = fst (mp4_read_pictures_reporting buf max_art_bytes)"

definition binary_body :: "nat \<Rightarrow> string \<Rightarrow> bytes \<Rightarrow> embedded_binary_tag list \<times> oversize_drop list" where
  "binary_body max_bytes key dp =
     (if type_code dp = 1 then ([], [])
      else if length dp - 8 > max_bytes then ([], [\<lparr> od_descriptor = key, od_bytes = length dp - 8 \<rparr>])
      else ([\<lparr> ebt_key = key, ebt_payload = drop 8 dp \<rparr>], []))"

definition mp4_read_binary_tags_reporting :: "bytes \<Rightarrow> nat \<Rightarrow> embedded_binary_tag list \<times> oversize_drop list" where
  "mp4_read_binary_tags_reporting buf max_bytes =
     gather (concat (map (\<lambda>(kind, inner).
       if kind \<noteq> as_bytes ''----'' then []
       else case freeform_name inner of
              None \<Rightarrow> []
            | Some name \<Rightarrow> map (binary_body max_bytes (''----:'' @ freeform_mean inner @ '':'' @ name)) (data_bodies inner))
       (ilst_atoms buf)))"

definition mp4_read_binary_tags :: "bytes \<Rightarrow> nat \<Rightarrow> embedded_binary_tag list" where
  "mp4_read_binary_tags buf max_bytes = fst (mp4_read_binary_tags_reporting buf max_bytes)"

end
