(* ===== verification/Mp4_Boxes.thy ===== *)
theory Mp4_Boxes
  imports Mp4_Tags
begin

text \<open>
  Written boxes and what the readers see of them: the lenient box list of a buffer as kind and
  payload pairs, how it splits over concatenation, and the item list as a chain of lookups.
\<close>

unbundle bit_operations_syntax

definition box_str :: "bytes \<times> bytes \<Rightarrow> bytes" where
  "box_str b = be_bytes 4 (8 + length (snd b)) @ fst b @ snd b"

definition boxes_str :: "(bytes \<times> bytes) list \<Rightarrow> bytes" where
  "boxes_str bs = concat (map box_str bs)"

definition box_ok :: "bytes \<times> bytes \<Rightarrow> bool" where
  "box_ok b \<longleftrightarrow> length (fst b) = 4 \<and> 8 + length (snd b) \<le> u32_max"

lemma boxes_str_simps [simp]:
  "boxes_str [] = []" "boxes_str (b # bs) = box_str b @ boxes_str bs" "boxes_str (bs @ cs) = boxes_str bs @ boxes_str cs"
  by (simp_all add: boxes_str_def)

lemma box_str_length: "length (fst b) = 4 \<Longrightarrow> length (box_str b) = 8 + length (snd b)"
  by (simp add: box_str_def)

subsection \<open>Reading a box\<close>

lemma be_val_single: "x \<le> u32_max \<Longrightarrow> be_val (be_bytes 4 x) = x"
  by (rule be_val_be_bytes) (simp add: u32_max_def)

lemma slice_offset: "length pre = pos \<Longrightarrow> slice (pre @ xs) (pos + k) n = slice xs k n"
  by (simp add: slice_def)

lemma read_box_str:
  assumes b: "box_ok b" and d: "buf = pre @ box_str b @ rest" "length pre = pos" "length buf \<le> u64_max"
  shows "read_box buf pos = Inr \<lparr> bx_kind = fst b, bx_start = pos, bx_header_len = 8, bx_total_len = 8 + length (snd b) \<rparr>"
    "slice buf (pos + 8) (length (snd b)) = snd b" "pos + 8 + length (snd b) \<le> length buf"
proof -
  obtain a0 a1 a2 a3 where i: "fst b = [a0, a1, a2, a3]"
    using b by (auto simp: box_ok_def numeral_eq_Suc length_Suc_conv)
  have l4: "length (be_bytes 4 (8 + length (snd b))) = 4" by simp
  then obtain s0 s1 s2 s3 where s: "be_bytes 4 (8 + length (snd b)) = [s0, s1, s2, s3]"
    by (auto simp: numeral_eq_Suc length_Suc_conv simp del: be_bytes_length)
  have x: "box_str b @ rest = [s0, s1, s2, s3, a0, a1, a2, a3] @ snd b @ rest" by (simp add: box_str_def i s)
  have sl: "slice buf (pos + k) n = slice ([s0, s1, s2, s3, a0, a1, a2, a3] @ snd b @ rest) k n" for k n
    unfolding d(1) x by (rule slice_offset[OF d(2)])
  show len: "pos + 8 + length (snd b) \<le> length buf" using d box_str_length[of b] b by (simp add: box_ok_def)
  have "slice buf pos 4 = be_bytes 4 (8 + length (snd b))" using sl[of 0 4] by (simp add: slice_def s)
  hence u: "read_u32_be buf pos = Inr (8 + length (snd b))"
    using len b by (simp add: read_u32_be_eq be_val_single box_ok_def)
  have k: "get_slice buf (pos + 4) (pos + 8) = Some (fst b)"
    using sl[of 4 4] len by (simp add: get_slice_eq_Some slice_def i)
  show "slice buf (pos + 8) (length (snd b)) = snd b" using sl[of 8 "length (snd b)"] by (simp add: slice_def)
  show "read_box buf pos = Inr \<lparr> bx_kind = fst b, bx_start = pos, bx_header_len = 8, bx_total_len = 8 + length (snd b) \<rparr>"
    using len d(3) by (simp add: read_box_def u k checked_add64_def)
qed

subsection \<open>Atoms\<close>

definition atom_of :: "bytes \<Rightarrow> box_ref \<Rightarrow> bytes \<times> bytes" where
  "atom_of buf b = (bx_kind b, box_payload b buf)"

definition atoms_from :: "bytes \<Rightarrow> nat \<Rightarrow> (bytes \<times> bytes) list" where
  "atoms_from buf pos = map (atom_of buf) (boxes_lenient_from buf pos)"

definition lenient_atoms :: "bytes \<Rightarrow> (bytes \<times> bytes) list" where
  "lenient_atoms buf = atoms_from buf 0"

lemma atoms_from_step:
  assumes "box_ok b" "buf = pre @ box_str b @ rest" "length pre = pos" "length buf \<le> u64_max"
  shows "atoms_from buf pos = b # atoms_from buf (pos + length (box_str b))"
proof -
  note r = read_box_str[OF assms]
  have l: "length (box_str b) = 8 + length (snd b)" using assms(1) by (simp add: box_str_length box_ok_def)
  have "boxes_lenient_from buf pos =
      \<lparr> bx_kind = fst b, bx_start = pos, bx_header_len = 8, bx_total_len = 8 + length (snd b) \<rparr> #
      boxes_lenient_from buf (pos + length (box_str b))"
    using r(1,3) l by (subst boxes_lenient_from.simps) (simp add: box_end_def)
  thus ?thesis using r(2) by (simp add: atoms_from_def atom_of_def box_payload_def payload_start_def box_end_def)
qed

lemma atoms_from_boxes:
  assumes "\<forall>b\<in>set bs. box_ok b" "buf = pre @ boxes_str bs @ rest" "length buf \<le> u64_max"
  shows "atoms_from buf (length pre) = bs @ atoms_from buf (length pre + length (boxes_str bs))"
  using assms
proof (induction bs arbitrary: pre)
  case (Cons b bs)
  have b: "box_ok b" "buf = pre @ box_str b @ (boxes_str bs @ rest)" using Cons.prems by simp_all
  have "atoms_from buf (length (pre @ box_str b)) = bs @ atoms_from buf (length (pre @ box_str b) + length (boxes_str bs))"
    using Cons.prems by (intro Cons.IH) simp_all
  thus ?case using atoms_from_step[OF b refl Cons.prems(3)] by (simp add: add.assoc)
qed simp

lemma atoms_from_end: "length buf < pos + 8 \<Longrightarrow> atoms_from buf pos = []"
  by (simp add: atoms_from_def boxes_lenient_from.simps)

lemma lenient_atoms_boxes:
  "\<forall>b\<in>set bs. box_ok b \<Longrightarrow> length (boxes_str bs) \<le> u64_max \<Longrightarrow> lenient_atoms (boxes_str bs) = bs"
  using atoms_from_boxes[of bs "boxes_str bs" "[]" "[]"] by (simp add: lenient_atoms_def atoms_from_end)

lemma box_end_le: "b \<in> set (boxes_lenient_from buf pos) \<Longrightarrow>
   bx_header_len b \<le> bx_total_len b \<and> box_end b \<le> length buf"
proof (induction buf pos rule: boxes_lenient_from.induct)
  case (1 buf pos)
  show ?case
  proof (cases "pos + 8 > length buf")
    case True
    thus ?thesis using "1.prems" by (simp add: boxes_lenient_from.simps)
  next
    case False
    show ?thesis
    proof (cases "read_box buf pos")
      case (Inl e)
      thus ?thesis using "1.prems" False by (simp add: boxes_lenient_from.simps)
    next
      case (Inr x)
      have "boxes_lenient_from buf pos = x # boxes_lenient_from buf (box_end x)"
        using False Inr by (subst boxes_lenient_from.simps) simp
      thus ?thesis using "1.prems" "1.IH"[OF False Inr] read_box_bounds[OF Inr] by auto
    qed
  qed
qed

definition first_payload :: "bytes \<Rightarrow> bytes \<Rightarrow> bytes option" where
  "first_payload buf kind = map_option snd (find (\<lambda>a. fst a = kind) (lenient_atoms buf))"

lemma find_atom:
  "map_option (\<lambda>b. box_payload b buf) (find_box_lenient buf kind) = first_payload buf kind"
proof -
  have "map_option (\<lambda>b. box_payload b buf) (find (\<lambda>b. bx_kind b = kind) bs) =
      map_option snd (find (\<lambda>a. fst a = kind) (map (atom_of buf) bs))" for bs
    by (induction bs) (simp_all add: atom_of_def)
  thus ?thesis by (simp add: find_box_lenient_def child_boxes_lenient_def first_payload_def lenient_atoms_def atoms_from_def)
qed

lemma find_atom_bounds:
  "find_box_lenient buf kind = Some b \<Longrightarrow>
   bx_header_len b \<le> bx_total_len b \<and> box_end b \<le> length buf \<and> length (box_payload b buf) = bx_total_len b - bx_header_len b"
  using box_end_le[of b buf 0]
  by (auto simp: find_box_lenient_def child_boxes_lenient_def find_Some_iff box_payload_def payload_start_def box_end_def
      dest!: nth_mem)

definition meta_prefix :: "bytes \<Rightarrow> nat" where
  "meta_prefix m = (if get_slice m 0 4 = Some [0, 0, 0, 0] then 4 else 0)"

lemma meta_prefix_le: "meta_prefix m \<le> length m"
  by (auto simp: meta_prefix_def get_slice_def split: if_splits)

text \<open>The item list as a chain of lookups.\<close>

lemma ilst_atoms_chain:
  "ilst_atoms buf =
     (case Option.bind (first_payload buf (as_bytes ''moov'')) (\<lambda>mp.
           Option.bind (first_payload mp (as_bytes ''udta'')) (\<lambda>up.
           Option.bind (first_payload up (as_bytes ''meta'')) (\<lambda>m.
           first_payload (drop (meta_prefix m) m) (as_bytes ''ilst'')))) of
        None \<Rightarrow> [] | Some il \<Rightarrow> lenient_atoms il)"
proof -
  have fp: "first_payload b k = (case find_box_lenient b k of None \<Rightarrow> None | Some x \<Rightarrow> Some (box_payload x b))" for b k
    unfolding find_atom[symmetric] by (cases "find_box_lenient b k") simp_all
  have lat: "map (\<lambda>b. (bx_kind b, box_payload b il)) (child_boxes_lenient il) = lenient_atoms il" for il
    by (simp add: lenient_atoms_def atoms_from_def child_boxes_lenient_def atom_of_def[abs_def])
  show ?thesis
  proof (cases "find_box_lenient buf (as_bytes ''moov'')")
    case None
    thus ?thesis by (simp add: ilst_atoms_def ilst_region_def fp)
  next
    case (Some moov)
    let ?mp = "box_payload moov buf"
    show ?thesis
    proof (cases "find_box_lenient ?mp (as_bytes ''udta'')")
      case None
      thus ?thesis using Some by (simp add: ilst_atoms_def ilst_region_def fp)
    next
      case udta: (Some udta)
      let ?up = "box_payload udta ?mp"
      show ?thesis
      proof (cases "find_box_lenient ?up (as_bytes ''meta'')")
        case None
        thus ?thesis using Some udta by (simp add: ilst_atoms_def ilst_region_def fp)
      next
        case mta: (Some mta)
        let ?m = "box_payload mta ?up"
        show ?thesis
        proof (cases "find_box_lenient (drop (meta_prefix ?m) ?m) (as_bytes ''ilst'')")
          case None
          thus ?thesis using Some udta mta by (simp add: ilst_atoms_def ilst_region_def fp meta_prefix_def)
        next
          case il: (Some il)
          note b = find_atom_bounds[OF Some] find_atom_bounds[OF udta] find_atom_bounds[OF mta] find_atom_bounds[OF il]
          define n where "n = bx_total_len il - bx_header_len il"
          define x where "x = meta_prefix ?m + payload_start il"
          have fit: "x + n \<le> length ?m" "n = 0 \<or> x + n \<le> length ?m"
            using b(4) meta_prefix_le[of ?m] by (auto simp: x_def n_def payload_start_def box_end_def)
          have ?thesis if "slice buf (payload_start moov + payload_start udta + payload_start mta + x) n = box_payload il (drop (meta_prefix ?m) ?m)"
            using that Some udta mta il
            by (simp add: ilst_atoms_def ilst_region_def fp meta_prefix_def[symmetric] lat n_def x_def add.assoc del: slice_length)
          moreover have "slice buf (payload_start moov + payload_start udta + payload_start mta + x) n = slice ?m x n"
          proof -
            have a1: "slice ?m x n = slice ?up (payload_start mta + x) n"
              using fit(1) b(3) unfolding box_payload_def[of mta] payload_start_def box_end_def by (intro slice_slice) linarith
            have "payload_start mta + x + n \<le> length ?up"
              using fit(1) b(3) unfolding payload_start_def box_end_def by linarith
            hence a2: "slice ?up (payload_start mta + x) n = slice ?mp (payload_start udta + (payload_start mta + x)) n"
              using b(2) unfolding box_payload_def[of udta] payload_start_def box_end_def by (intro slice_slice) linarith
            have "payload_start udta + (payload_start mta + x) + n \<le> length ?mp"
              using \<open>payload_start mta + x + n \<le> length ?up\<close> b(2) unfolding payload_start_def box_end_def by linarith
            hence "slice ?mp (payload_start udta + (payload_start mta + x)) n =
                slice buf (payload_start moov + (payload_start udta + (payload_start mta + x))) n"
              using b(1) unfolding box_payload_def[of moov] payload_start_def box_end_def by (intro slice_slice) linarith
            thus ?thesis using a1 a2 by (simp add: add.assoc)
          qed
          moreover have "slice ?m x n = box_payload il (drop (meta_prefix ?m) ?m)"
            by (simp add: x_def n_def box_payload_def payload_start_def box_end_def slice_def add.commute)
          ultimately show ?thesis by simp
        qed
      qed
    qed
  qed
qed

end
