(* ===== verification/Mp4_Synth.thy ===== *)
theory Mp4_Synth
  imports Mp4 Vorbis
begin

text \<open>
  MP4 synthesis, musefs-format/src/mp4/synth.rs: the regenerated udta box with its streamed values,
  the relocation of the chunk offsets by a constant, and the layout of the new file.
\<close>

unbundle bit_operations_syntax

subsection \<open>Atoms\<close>

definition u32_len :: "nat \<Rightarrow> bytes fresult" where
  "u32_len n = rbind (u32_or_too_large n) (\<lambda>n. Inr (be_bytes 4 n))"

definition boxed :: "bytes \<Rightarrow> bytes \<Rightarrow> bytes fresult" where
  "boxed kind payload = rbind (u32_len (8 + length payload)) (\<lambda>n. Inr (n @ kind @ payload))"

definition utf8_data_box :: "string \<Rightarrow> bytes fresult" where
  "utf8_data_box v = boxed (as_bytes ''data'') (be_bytes 4 1 @ be_bytes 4 0 @ as_bytes v)"

fun data_boxes :: "bytes \<Rightarrow> string list \<Rightarrow> bytes fresult" where
  "data_boxes inner [] = Inr inner"
| "data_boxes inner (v # vs) = rbind (utf8_data_box v) (\<lambda>d. data_boxes (inner @ d) vs)"

definition text_atom :: "bytes \<Rightarrow> string list \<Rightarrow> bytes fresult" where
  "text_atom kind values = rbind (data_boxes [] values) (boxed kind)"

definition resized :: "bytes \<Rightarrow> nat \<Rightarrow> bytes" where
  "resized b width = take width b @ replicate (width - length b) 0"

definition number_atom :: "bytes \<Rightarrow> nat \<Rightarrow> nat \<Rightarrow> nat \<Rightarrow> bytes fresult" where
  "number_atom kind number tot width =
     rbind (boxed (as_bytes ''data'')
              (be_bytes 4 0 @ be_bytes 4 0 @ resized ([0, 0] @ be_bytes 2 number @ be_bytes 2 tot) width)) (boxed kind)"

definition integer_atom :: "bytes \<Rightarrow> nat \<Rightarrow> nat \<Rightarrow> bytes fresult" where
  "integer_atom kind n width =
     rbind (boxed (as_bytes ''data'') (be_bytes 4 21 @ be_bytes 4 0 @ drop (8 - width) (be_bytes 8 n))) (boxed kind)"

definition parse_number_total :: "string \<Rightarrow> nat option \<times> nat" where
  "parse_number_total raw =
     (case (case split_once (CHR ''/'') raw of Some p \<Rightarrow> p | None \<Rightarrow> (raw, [])) of (num_str, total_str) \<Rightarrow>
      (parse_uint 65535 num_str, (case parse_uint 65535 total_str of Some t \<Rightarrow> t | None \<Rightarrow> 0)))"

definition freeform_atom :: "string \<Rightarrow> string \<Rightarrow> string list \<Rightarrow> bytes fresult" where
  "freeform_atom mean name values =
     rbind (boxed (as_bytes ''mean'') (be_bytes 4 0 @ as_bytes mean)) (\<lambda>m.
     rbind (boxed (as_bytes ''name'') (be_bytes 4 0 @ as_bytes name)) (\<lambda>n.
     rbind (data_boxes (m @ n) values) (boxed (as_bytes ''----''))))"

definition parse_freeform_key :: "string \<Rightarrow> (string \<times> string) option" where
  "parse_freeform_key key =
     (if starts_with key ''----:'' then split_once (CHR '':'') (drop 5 key) else None)"

definition freeform_binary_prefix :: "string \<Rightarrow> string \<Rightarrow> nat \<Rightarrow> bytes fresult" where
  "freeform_binary_prefix mean name payload_len =
     rbind (boxed (as_bytes ''mean'') (be_bytes 4 0 @ as_bytes mean)) (\<lambda>mean_box.
     rbind (boxed (as_bytes ''name'') (be_bytes 4 0 @ as_bytes name)) (\<lambda>name_box.
     rbind (checked_add 16 payload_len) (\<lambda>data_size.
     rbind (checked_sum [length mean_box, length name_box, data_size]) (\<lambda>inner_len.
     rbind (checked_add 8 inner_len) (\<lambda>outer_len.
     rbind (u32_len outer_len) (\<lambda>outer.
     rbind (u32_len data_size) (\<lambda>ds.
     Inr (outer @ as_bytes ''----'' @ mean_box @ name_box @ ds @ as_bytes ''data'' @ be_bytes 4 0 @ be_bytes 4 0))))))))"

subsection \<open>The udta box\<close>

fun group_values :: "(string \<times> string list) list \<Rightarrow> tag_input list \<Rightarrow> (string \<times> string list) list" where
  "group_values groups [] = groups"
| "group_values groups (t # ts) =
     (if groups \<noteq> [] \<and> fst (last groups) = ti_key t
      then group_values (butlast groups @ [(ti_key t, snd (last groups) @ [ti_value t])]) ts
      else group_values (groups @ [(ti_key t, [ti_value t])]) ts)"

definition first_value :: "string list \<Rightarrow> string" where
  "first_value values = (case values of v # _ \<Rightarrow> v | [] \<Rightarrow> [])"

definition group_atom :: "string \<Rightarrow> string list \<Rightarrow> bytes fresult" where
  "group_atom key values =
     (case key_to_mp4 key of
        Some (Mp4Text atom) \<Rightarrow> text_atom atom values
      | Some (Mp4Number atom width) \<Rightarrow>
          (case parse_number_total (first_value values) of
             (Some n, tot) \<Rightarrow> number_atom atom n tot width
           | (None, _) \<Rightarrow> Inr [])
      | Some (Mp4Integer atom width) \<Rightarrow>
          (case parse_uint u64_max (first_value values) of
             Some n \<Rightarrow> integer_atom atom n width
           | None \<Rightarrow> Inr [])
      | Some (Mp4Freeform mean name) \<Rightarrow> freeform_atom mean name values
      | None \<Rightarrow> freeform_atom ''com.apple.iTunes'' key values)"

fun group_atoms :: "bytes \<Rightarrow> (string \<times> string list) list \<Rightarrow> bytes fresult" where
  "group_atoms out [] = Inr out"
| "group_atoms out ((key, values) # gs) = rbind (group_atom key values) (\<lambda>a. group_atoms (out @ a) gs)"

type_synonym ilst_state = "segment list \<times> bytes \<times> nat"

fun push_freeforms :: "ilst_state \<Rightarrow> binary_tag_input list \<Rightarrow> ilst_state fresult" where
  "push_freeforms st [] = Inr st"
| "push_freeforms (segs, inline, streamed) (bt # bts) =
     (case parse_freeform_key (bt_key bt) of
        None \<Rightarrow> push_freeforms (segs, inline, streamed) bts
      | Some (mean, name) \<Rightarrow>
          rbind (freeform_binary_prefix mean name (bt_len bt)) (\<lambda>p.
          rbind (checked_add streamed (bt_len bt)) (\<lambda>streamed.
          push_freeforms (segs @ [Inline (inline @ p), BinaryTag (bt_payload_id bt) (bt_len bt)], [], streamed) bts)))"

fun covr_size :: "nat \<Rightarrow> art_input list \<Rightarrow> nat fresult" where
  "covr_size acc [] = Inr acc"
| "covr_size acc (a # as) =
     rbind (checked_add 16 (ai_data_len a)) (\<lambda>n. rbind (checked_add acc n) (\<lambda>acc. covr_size acc as))"

fun push_covers :: "ilst_state \<Rightarrow> art_input list \<Rightarrow> ilst_state fresult" where
  "push_covers st [] = Inr st"
| "push_covers (segs, inline, streamed) (a # as) =
     rbind (checked_add 16 (ai_data_len a)) (\<lambda>data_size.
     rbind (u32_len data_size) (\<lambda>ds.
     rbind (checked_add streamed (ai_data_len a)) (\<lambda>streamed.
     push_covers
       (segs @ [Inline (inline @ ds @ as_bytes ''data'' @
                  be_bytes 4 (if ai_mime a = ''image/png'' then 14 else 13) @ be_bytes 4 0),
                ArtImage (ai_art_id a) (ai_data_len a)], [], streamed) as)))"

definition push_covr :: "ilst_state \<Rightarrow> art_input list \<Rightarrow> ilst_state fresult" where
  "push_covr st arts =
     (case st of (segs, inline, streamed) \<Rightarrow>
      if arts \<noteq> [] then
        rbind (covr_size 8 arts) (\<lambda>n.
        rbind (u32_len n) (\<lambda>n.
        push_covers (segs, inline @ n @ as_bytes ''covr'', streamed) arts))
      else if inline \<noteq> [] then Inr (segs @ [Inline inline], [], streamed)
      else Inr (segs, inline, streamed))"

definition inline_len :: "segment list \<Rightarrow> nat" where
  "inline_len segs = sum_list (map (\<lambda>s. case s of Inline b \<Rightarrow> length b | _ \<Rightarrow> 0) segs)"

text \<open>Inline runs are merged, starting with what leads them.\<close>

fun merge_lead :: "segment list \<Rightarrow> bytes \<Rightarrow> segment list \<Rightarrow> segment list \<times> bytes" where
  "merge_lead segments lead [] = (segments, lead)"
| "merge_lead segments lead (Inline b # segs) = merge_lead segments (lead @ b) segs"
| "merge_lead segments lead (s # segs) = merge_lead (segments @ [Inline lead, s]) [] segs"

definition mdir_hdlr_body :: bytes where
  "mdir_hdlr_body = replicate 8 0 @ as_bytes ''mdir'' @ as_bytes ''appl'' @ replicate 9 0"

definition build_udta ::
  "tag_input list \<Rightarrow> binary_tag_input list \<Rightarrow> art_input list \<Rightarrow> bytes option \<Rightarrow> (segment list \<times> nat) fresult" where
  "build_udta tags binary_tags arts chpl =
     rbind (group_atoms [] (group_values [] tags)) (\<lambda>atoms.
     rbind (push_freeforms ([], atoms, 0) binary_tags) (\<lambda>st.
     rbind (push_covr st arts) (\<lambda>(ilst_segments, _, streamed_total).
     let ilst_inline_len = inline_len ilst_segments in
     rbind (boxed (as_bytes ''hdlr'') mdir_hdlr_body) (\<lambda>hdlr.
     rbind (checked_sum [8, ilst_inline_len, streamed_total]) (\<lambda>ilst_size.
     let meta_inline_len = 4 + length hdlr + 8 + ilst_inline_len in
     rbind (checked_sum [8, meta_inline_len, streamed_total]) (\<lambda>meta_size.
     let chpl_len = (case chpl of Some c \<Rightarrow> length c | None \<Rightarrow> 0) in
     rbind (checked_sum [8, meta_inline_len, chpl_len]) (\<lambda>udta_inline_len.
     rbind (checked_sum [8, udta_inline_len, streamed_total]) (\<lambda>udta_size.
     rbind (u32_len udta_size) (\<lambda>us.
     rbind (u32_len meta_size) (\<lambda>ms.
     rbind (u32_len ilst_size) (\<lambda>is.
     let header = us @ as_bytes ''udta'' @ ms @ as_bytes ''meta'' @ be_bytes 4 0 @ hdlr @ is @ as_bytes ''ilst'' in
     case merge_lead [] header ilst_segments of (segments, lead) \<Rightarrow>
     let lead = lead @ (case chpl of Some c \<Rightarrow> c | None \<Rightarrow> []) in
     Inr (if lead \<noteq> [] then segments @ [Inline lead] else segments, streamed_total))))))))))))"

subsection \<open>Chunk offsets\<close>

definition chunk_table_of :: "bytes \<Rightarrow> box_ref \<Rightarrow> (nat \<times> nat \<times> nat) fresult" where
  "chunk_table_of kept t =
     (let trak = box_payload t kept; path = map as_bytes [''mdia'', ''minf'', ''stbl''] in
      rbind (find_path trak (path @ [as_bytes ''stco''])) (\<lambda>r. case r of
        Some (start, len) \<Rightarrow> Inr (payload_start t + start, len, 4)
      | None \<Rightarrow>
          rbind (find_path trak (path @ [as_bytes ''co64''])) (\<lambda>r. case r of
            Some (start, len) \<Rightarrow> Inr (payload_start t + start, len, 8)
          | None \<Rightarrow> Inl Malformed)))"

fun chunk_tables :: "bytes \<Rightarrow> box_ref list \<Rightarrow> (nat \<times> nat \<times> nat) list fresult" where
  "chunk_tables kept [] = Inr []"
| "chunk_tables kept (t # ts) =
     rbind (chunk_table_of kept t) (\<lambda>x. rbind (chunk_tables kept ts) (\<lambda>xs. Inr (x # xs)))"

definition moved_offset :: "nat \<Rightarrow> int \<Rightarrow> nat \<Rightarrow> nat fresult" where
  "moved_offset entry delta v =
     (let w = int v + delta in
      if entry = 4 then if 0 \<le> w \<and> w \<le> int u32_max then Inr (nat w) else Inl TooLarge
      else if 0 \<le> w \<and> w \<le> int u64_max then Inr (nat w) else Inl Malformed)"

function patch_entries :: "bytes \<Rightarrow> nat \<Rightarrow> nat \<Rightarrow> nat \<Rightarrow> int \<Rightarrow> nat \<Rightarrow> nat \<Rightarrow> bytes fresult" where
  "patch_entries kept start len entry delta i count =
     (if i \<ge> count then Inr kept
      else let pos = start + 8 + i * entry in
           if pos + entry > start + len then Inl Malformed
           else rbind (if entry = 4 then read_u32_be kept pos else read_u64_be kept pos) (\<lambda>v.
                rbind (moved_offset entry delta v) (\<lambda>w.
                patch_entries (patch_at kept pos (be_bytes entry w)) start len entry delta (i + 1) count)))"
  by pat_completeness auto
termination by (relation "measure (\<lambda>(kept, start, len, entry, delta, i, count). count - i)") auto

declare patch_entries.simps [simp del]

fun patch_tables :: "bytes \<Rightarrow> int \<Rightarrow> (nat \<times> nat \<times> nat) list \<Rightarrow> bytes fresult" where
  "patch_tables kept delta [] = Inr kept"
| "patch_tables kept delta ((start, len, entry) # ts) =
     rbind (read_u32_be kept (start + 4)) (\<lambda>count.
     rbind (patch_entries kept start len entry delta 0 count) (\<lambda>kept. patch_tables kept delta ts))"

definition patch_chunk_offsets :: "bytes \<Rightarrow> int \<Rightarrow> bytes fresult" where
  "patch_chunk_offsets kept delta =
     rbind (child_boxes kept) (\<lambda>bs.
     rbind (chunk_tables kept (filter (\<lambda>b. bx_kind b = as_bytes ''trak'') bs)) (\<lambda>tables.
     if tables = [] then Inl Malformed else patch_tables kept delta tables))"

subsection \<open>The layout\<close>

definition box_bytes :: "box_ref \<Rightarrow> bytes \<Rightarrow> bytes" where
  "box_bytes b buf = slice buf (bx_start b) (box_end b - bx_start b)"

definition kept_boxes :: "bytes \<Rightarrow> box_ref list \<Rightarrow> bytes" where
  "kept_boxes moov_payload bs = concat (map (\<lambda>b. box_bytes b moov_payload) (filter (\<lambda>b. bx_kind b \<noteq> as_bytes ''udta'') bs))"

definition udta_chpl :: "bytes \<Rightarrow> bytes option" where
  "udta_chpl udta =
     map_option (\<lambda>c. box_bytes c udta) (find (\<lambda>c. bx_kind c = as_bytes ''chpl'') (child_boxes_lenient udta))"

fun last_chpl :: "bytes \<Rightarrow> bytes option \<Rightarrow> box_ref list \<Rightarrow> bytes option" where
  "last_chpl moov_payload chpl [] = chpl"
| "last_chpl moov_payload chpl (b # bs) =
     last_chpl moov_payload
       (if bx_kind b = as_bytes ''udta''
        then (case udta_chpl (box_payload b moov_payload) of Some c \<Rightarrow> Some c | None \<Rightarrow> chpl) else chpl) bs"

text \<open>The lengths of a file in memory stay below the range of i64, so the difference is exact.\<close>

definition mp4_synthesize_layout ::
  "mp4_scan \<Rightarrow> tag_input list \<Rightarrow> binary_tag_input list \<Rightarrow> art_input list \<Rightarrow> region_layout fresult" where
  "mp4_synthesize_layout scan tags binary_tags arts =
     rbind (read_box (sc_moov scan) 0) (\<lambda>mb.
     let moov_payload = drop (payload_start mb) (sc_moov scan) in
     rbind (child_boxes moov_payload) (\<lambda>bs.
     let kept = kept_boxes moov_payload bs; chpl = last_chpl moov_payload None bs in
     rbind (build_udta tags binary_tags arts chpl) (\<lambda>(udta_segments, _).
     let udta_total = sum_list (map seg_len udta_segments) in
     rbind (checked_sum [8, length kept, udta_total]) (\<lambda>new_moov_size.
     rbind (u32_len new_moov_size) (\<lambda>moov_size_field.
     rbind (checked_sum [length (sc_ftyp scan), new_moov_size, length (sc_mdat_header scan)]) (\<lambda>new_mdat_payload_pos.
     let delta = int new_mdat_payload_pos - int (sc_mdat_payload_offset scan) in
     rbind (patch_chunk_offsets kept delta) (\<lambda>kept.
     let head = sc_ftyp scan @ moov_size_field @ as_bytes ''moov'' @ kept in
     case udta_segments of
       Inline first_run # rest \<Rightarrow>
         let segments = Inline (head @ first_run) # rest;
             segments = (case last segments of
                 Inline b \<Rightarrow> butlast segments @ [Inline (b @ sc_mdat_header scan)]
               | _ \<Rightarrow> segments @ [Inline (sc_mdat_header scan)])
         in map_err InvalidLayout (validated (segments @
              [BackingAudio (sc_mdat_payload_offset scan) (sc_mdat_payload_len scan)]))
     | _ \<Rightarrow> Inl (ProducerBug ''build_udta did not yield a leading Inline framing segment''))))))))"

end
