(* ===== verification/Mp4_Ilst.thy ===== *)
theory Mp4_Ilst
  imports Mp4_Boxes Mp4_Synth
begin

text \<open>
  The item list as data: the boxes the synthesizer writes for the text tags, the freeform values
  and the covers, what its segments stand for, and what the readers make of each of these boxes.
\<close>

unbundle bit_operations_syntax

subsection \<open>The written boxes\<close>

lemma boxed_eq: "boxed kind p = Inr b \<Longrightarrow> length kind = 4 \<Longrightarrow> b = box_str (kind, p) \<and> box_ok (kind, p)"
  by (auto simp: boxed_def u32_len_def rbind_eq_Inr box_str_def box_ok_def)

definition data_item :: "nat \<Rightarrow> bytes \<Rightarrow> bytes \<times> bytes" where
  "data_item code v = (as_bytes ''data'', be_bytes 4 code @ be_bytes 4 0 @ v)"

definition text_item :: "string \<Rightarrow> bytes \<times> bytes" where "text_item v = data_item 1 (as_bytes v)"

definition mean_item :: "string \<Rightarrow> bytes \<times> bytes" where "mean_item m = (as_bytes ''mean'', be_bytes 4 0 @ as_bytes m)"
definition name_item :: "string \<Rightarrow> bytes \<times> bytes" where "name_item n = (as_bytes ''name'', be_bytes 4 0 @ as_bytes n)"

lemma item_kinds [simp]:
  "fst (data_item code v) = as_bytes ''data''" "fst (mean_item m) = as_bytes ''mean''" "fst (name_item n) = as_bytes ''name''"
  by (simp_all add: data_item_def mean_item_def name_item_def)

text \<open>An item is a box that holds a list of boxes.\<close>

type_synonym ilst_item = "bytes \<times> (bytes \<times> bytes) list"

definition item_box :: "ilst_item \<Rightarrow> bytes \<times> bytes" where
  "item_box b = (fst b, boxes_str (snd b))"

definition items_str :: "ilst_item list \<Rightarrow> bytes" where
  "items_str items = boxes_str (map item_box items)"

lemma items_str_simps [simp]:
  "items_str [] = []" "items_str (b # items) = box_str (item_box b) @ items_str items"
  "items_str (items @ items') = items_str items @ items_str items'"
  by (simp_all add: items_str_def)

definition nested :: "ilst_item \<Rightarrow> bool" where
  "nested b \<longleftrightarrow> box_ok (item_box b) \<and> (\<forall>d\<in>set (snd b). box_ok d)"

definition freeform_item :: "string \<Rightarrow> string \<Rightarrow> (bytes \<times> bytes) list \<Rightarrow> ilst_item" where
  "freeform_item mean name ds = (as_bytes ''----'', mean_item mean # name_item name # ds)"

definition group_items :: "string \<Rightarrow> string list \<Rightarrow> ilst_item list" where
  "group_items key values =
     (case key_to_mp4 key of
        Some (Mp4Text atom) \<Rightarrow> [(atom, map text_item values)]
      | Some (Mp4Number atom width) \<Rightarrow>
          (case parse_number_total (first_value values) of
             (Some n, tot) \<Rightarrow> [(atom, [data_item 0 (resized ([0, 0] @ be_bytes 2 n @ be_bytes 2 tot) width)])]
           | (None, _) \<Rightarrow> [])
      | Some (Mp4Integer atom width) \<Rightarrow>
          (case parse_uint u64_max (first_value values) of
             Some n \<Rightarrow> [(atom, [data_item 21 (drop (8 - width) (be_bytes 8 n))])]
           | None \<Rightarrow> [])
      | Some (Mp4Freeform mean name) \<Rightarrow> [freeform_item mean name (map text_item values)]
      | None \<Rightarrow> [freeform_item ''com.apple.iTunes'' key (map text_item values)])"

definition text_items :: "tag_input list \<Rightarrow> ilst_item list" where
  "text_items tags = concat (map (\<lambda>(key, values). group_items key values) (group_values [] tags))"

lemma utf8_data_box_eq: "utf8_data_box v = Inr d \<Longrightarrow> d = box_str (text_item v) \<and> box_ok (text_item v)"
  unfolding utf8_data_box_def text_item_def data_item_def by (drule boxed_eq) simp_all

lemma data_boxes_eq:
  "data_boxes inner vs = Inr out \<Longrightarrow> out = inner @ boxes_str (map text_item vs) \<and> (\<forall>v\<in>set vs. box_ok (text_item v))"
proof (induction vs arbitrary: inner)
  case (Cons v vs)
  then obtain d where "utf8_data_box v = Inr d" "data_boxes (inner @ d) vs = Inr out" by (auto simp: rbind_eq_Inr)
  thus ?case using Cons.IH utf8_data_box_eq by fastforce
qed simp

lemma mp4_slot_lens_all:
  "list_all (\<lambda>e. case e_mp4 e of Mp4Text a \<Rightarrow> length a = 4 | Mp4Number a w \<Rightarrow> length a = 4 \<and> 6 \<le> w \<and> w \<le> 8
      | Mp4Integer a w \<Rightarrow> length a = 4 \<and> w \<le> 8 | Mp4Freeform m n \<Rightarrow> utf8_valid (as_bytes m) \<and> utf8_valid (as_bytes n)) vocab"
  by code_simp

lemma key_to_mp4_entry: "key_to_mp4 key = Some s \<Longrightarrow> \<exists>e\<in>set vocab. e_key e = to_ascii_lowercase key \<and> e_mp4 e = s"
  by (auto simp: key_to_mp4_def Let_def find_Some_iff dest!: nth_mem)

lemma slot_lens:
  "key_to_mp4 key = Some (Mp4Text a) \<Longrightarrow> length a = 4"
  "key_to_mp4 key = Some (Mp4Number a w) \<Longrightarrow> length a = 4 \<and> 6 \<le> w \<and> w \<le> 8"
  "key_to_mp4 key = Some (Mp4Integer a w) \<Longrightarrow> length a = 4 \<and> w \<le> 8"
  "key_to_mp4 key = Some (Mp4Freeform m n) \<Longrightarrow> utf8_valid (as_bytes m) \<and> utf8_valid (as_bytes n)"
  using mp4_slot_lens_all by (fastforce simp: list_all_iff dest!: key_to_mp4_entry)+

lemma freeform_atom_eq:
  assumes "freeform_atom mean name values = Inr b"
  shows "b = box_str (item_box (freeform_item mean name (map text_item values)))"
    "nested (freeform_item mean name (map text_item values))"
proof -
  from assms obtain m n out where s: "boxed (as_bytes ''mean'') (be_bytes 4 0 @ as_bytes mean) = Inr m"
    "boxed (as_bytes ''name'') (be_bytes 4 0 @ as_bytes name) = Inr n"
    "data_boxes (m @ n) values = Inr out" "boxed (as_bytes ''----'') out = Inr b"
    by (auto simp: freeform_atom_def rbind_eq_Inr)
  from boxed_eq[OF s(1)] boxed_eq[OF s(2)] boxed_eq[OF s(4)] data_boxes_eq[OF s(3)]
  show "b = box_str (item_box (freeform_item mean name (map text_item values)))"
    "nested (freeform_item mean name (map text_item values))"
    by (auto simp: freeform_item_def item_box_def mean_item_def name_item_def nested_def)
qed

lemma boxed_data:
  assumes "rbind (boxed (as_bytes ''data'') (be_bytes 4 c @ be_bytes 4 0 @ v)) (boxed kind) = Inr b" "length kind = 4"
  shows "b = box_str (item_box (kind, [data_item c v])) \<and> nested (kind, [data_item c v])"
proof -
  from assms obtain d where d: "boxed (as_bytes ''data'') (be_bytes 4 c @ be_bytes 4 0 @ v) = Inr d" "boxed kind d = Inr b"
    by (auto simp: rbind_eq_Inr)
  show ?thesis using boxed_eq[OF d(1)] boxed_eq[OF d(2) assms(2)] by (simp add: data_item_def nested_def item_box_def)
qed

lemma group_atom_eq:
  assumes "group_atom key values = Inr b"
  shows "b = items_str (group_items key values) \<and> (\<forall>x\<in>set (group_items key values). nested x)"
proof (cases "key_to_mp4 key")
  case None
  hence "freeform_atom ''com.apple.iTunes'' key values = Inr b" using assms by (simp add: group_atom_def)
  from freeform_atom_eq[OF this] show ?thesis using None by (auto simp: group_items_def)
next
  case (Some s)
  show ?thesis
  proof (cases s)
    case (Mp4Text a)
    then obtain out where o: "data_boxes [] values = Inr out" "boxed a out = Inr b"
      using assms Some by (auto simp: group_atom_def text_atom_def rbind_eq_Inr)
    have "length a = 4" using Some Mp4Text slot_lens(1) by blast
    from boxed_eq[OF o(2) this] data_boxes_eq[OF o(1)] have "b = box_str (item_box (a, map text_item values))"
      "nested (a, map text_item values)" by (auto simp: nested_def item_box_def)
    thus ?thesis using Some Mp4Text by (auto simp: group_items_def)
  next
    case (Mp4Number a w)
    have l: "length a = 4" using Some Mp4Number slot_lens(2) by blast
    show ?thesis
    proof (cases "fst (parse_number_total (first_value values))")
      case None
      thus ?thesis using assms Some Mp4Number by (auto simp: group_atom_def group_items_def split: prod.splits)
    next
      case n: (Some n)
      then obtain tot where p: "parse_number_total (first_value values) = (Some n, tot)"
        by (cases "parse_number_total (first_value values)") auto
      have "number_atom a n tot w = Inr b" using assms Some Mp4Number p by (simp add: group_atom_def)
      from boxed_data[OF this[unfolded number_atom_def] l] show ?thesis
        using Some Mp4Number p by (auto simp: group_items_def)
    qed
  next
    case (Mp4Integer a w)
    have l: "length a = 4" using Some Mp4Integer slot_lens(3) by blast
    show ?thesis
    proof (cases "parse_uint u64_max (first_value values)")
      case None
      thus ?thesis using assms Some Mp4Integer by (auto simp: group_atom_def group_items_def)
    next
      case n: (Some n)
      have "integer_atom a n w = Inr b" using assms Some Mp4Integer n by (simp add: group_atom_def)
      from boxed_data[OF this[unfolded integer_atom_def] l] show ?thesis
        using Some Mp4Integer n by (auto simp: group_items_def)
    qed
  next
    case (Mp4Freeform m n)
    hence "freeform_atom m n values = Inr b" using assms Some by (simp add: group_atom_def)
    from freeform_atom_eq[OF this] show ?thesis using Some Mp4Freeform by (auto simp: group_items_def)
  qed
qed

lemma group_atoms_eq:
  "group_atoms out gs = Inr atoms \<Longrightarrow>
   atoms = out @ items_str (concat (map (\<lambda>(key, values). group_items key values) gs)) \<and>
   (\<forall>x\<in>set (concat (map (\<lambda>(key, values). group_items key values) gs)). nested x)"
proof (induction gs arbitrary: out)
  case (Cons g gs)
  obtain key vals where g: "g = (key, vals)" by (cases g)
  from Cons.prems g obtain a where a: "group_atom key vals = Inr a" "group_atoms (out @ a) gs = Inr atoms"
    by (auto simp: rbind_eq_Inr)
  show ?case using Cons.IH[OF a(2)] group_atom_eq[OF a(1)] g by auto
qed simp

subsection \<open>The streamed boxes\<close>

definition binary_items :: "byte_env \<Rightarrow> binary_tag_input list \<Rightarrow> ilst_item list" where
  "binary_items v bts =
     concat (map (\<lambda>bt. case parse_freeform_key (bt_key bt) of
         None \<Rightarrow> []
       | Some (mean, name) \<Rightarrow> [freeform_item mean name [data_item 0 (env_tag v (bt_payload_id bt))]]) bts)"

definition cover_item :: "byte_env \<Rightarrow> art_input \<Rightarrow> bytes \<times> bytes" where
  "cover_item v a = data_item (if ai_mime a = ''image/png'' then 14 else 13) (env_art v (ai_art_id a))"

definition cover_items :: "byte_env \<Rightarrow> art_input list \<Rightarrow> ilst_item list" where
  "cover_items v arts = (if arts = [] then [] else [(as_bytes ''covr'', map (cover_item v) arts)])"

text \<open>
  The bytes a pending state of the item list stands for, and the account it keeps: its segments are
  metadata, and the streamed total is what they hold beyond their inline runs.
\<close>

fun ilst_bytes :: "(bytes \<Rightarrow> bytes) \<Rightarrow> byte_env \<Rightarrow> ilst_state \<Rightarrow> bytes" where
  "ilst_bytes enc v (segs, inline, streamed) = layout_bytes enc v segs @ inline"

fun ilst_account :: "byte_env \<Rightarrow> ilst_state \<Rightarrow> bool" where
  "ilst_account v (segs, inline, streamed) \<longleftrightarrow>
     (\<forall>s\<in>set segs. meta_seg v s) \<and> sum_list (map seg_len segs) = inline_len segs + streamed"

lemma inline_len_simps [simp]:
  "inline_len [] = 0" "inline_len (Inline b # segs) = length b + inline_len segs"
  "inline_len (BinaryTag i n # segs) = inline_len segs" "inline_len (ArtImage i n # segs) = inline_len segs"
  "inline_len (segs @ segs') = inline_len segs + inline_len segs'"
  by (simp_all add: inline_len_def)

lemma freeform_prefix_eq:
  assumes "freeform_binary_prefix mean name n = Inr p" "length payload = n"
  shows "p @ payload = box_str (item_box (freeform_item mean name [data_item 0 payload])) \<and>
    nested (freeform_item mean name [data_item 0 payload])"
proof -
  from assms(1) obtain m k where s: "boxed (as_bytes ''mean'') (be_bytes 4 0 @ as_bytes mean) = Inr m"
    "boxed (as_bytes ''name'') (be_bytes 4 0 @ as_bytes name) = Inr k"
    and r: "8 + (length m + length k + (16 + n)) \<le> u32_max"
    "p = be_bytes 4 (8 + (length m + length k + (16 + n))) @ as_bytes ''----'' @ m @ k @ be_bytes 4 (16 + n) @
         as_bytes ''data'' @ be_bytes 4 0 @ be_bytes 4 0"
    by (auto simp: freeform_binary_prefix_def rbind_eq_Inr u32_len_def checked_sum_eq add.assoc split: if_splits)
  have m: "m = box_str (mean_item mean)" "box_ok (mean_item mean)" and k: "k = box_str (name_item name)" "box_ok (name_item name)"
    using boxed_eq[OF s(1)] boxed_eq[OF s(2)] by (simp_all add: mean_item_def name_item_def)
  have l: "length (box_str (data_item 0 payload)) = 16 + n" using assms(2) by (simp add: box_str_length data_item_def)
  show ?thesis
    using r m k l assms(2) by (simp add: freeform_item_def nested_def item_box_def box_str_def[of "(_, _ @ _ @ _)"] box_ok_def add.assoc)
      (simp add: data_item_def box_str_def)
qed

lemma push_freeforms_eq:
  assumes "push_freeforms st bts = Inr st'" "list_all (\<lambda>bt. length (env_tag v (bt_payload_id bt)) = bt_len bt) bts" "ilst_account v st"
  shows "ilst_bytes enc v st' = ilst_bytes enc v st @ items_str (binary_items v bts) \<and> ilst_account v st' \<and>
    (\<forall>x\<in>set (binary_items v bts). nested x)"
  using assms
proof (induction bts arbitrary: st)
  case Nil
  thus ?case by (simp add: binary_items_def)
next
  case (Cons bt bts)
  obtain segs inline streamed where st: "st = (segs, inline, streamed)" by (cases st)
  show ?case
  proof (cases "parse_freeform_key (bt_key bt)")
    case None
    thus ?thesis using Cons st by (simp add: binary_items_def)
  next
    case (Some mn)
    obtain mean name where mn: "mn = (mean, name)" by (cases mn)
    let ?st = "\<lambda>p. (segs @ [Inline (inline @ p), BinaryTag (bt_payload_id bt) (bt_len bt)], [], streamed + bt_len bt)"
    from Cons.prems(1) Some mn st obtain p where p: "freeform_binary_prefix mean name (bt_len bt) = Inr p"
      "push_freeforms (?st p) bts = Inr st'" by (auto simp: rbind_eq_Inr)
    have l: "length (env_tag v (bt_payload_id bt)) = bt_len bt" using Cons.prems(2) by simp
    note f = freeform_prefix_eq[OF p(1) l]
    have "ilst_account v (?st p)" using Cons.prems(3) l st by simp
    from Cons.IH[OF p(2) _ this] have ih: "ilst_bytes enc v st' = ilst_bytes enc v (?st p) @ items_str (binary_items v bts)"
      "ilst_account v st'" "\<forall>x\<in>set (binary_items v bts). nested x" using Cons.prems(2) by simp_all
    have b: "binary_items v (bt # bts) = freeform_item mean name [data_item 0 (env_tag v (bt_payload_id bt))] # binary_items v bts"
      using Some mn by (simp add: binary_items_def)
    have "slice (env_tag v (bt_payload_id bt)) 0 (bt_len bt) = env_tag v (bt_payload_id bt)" using l by (simp add: slice_full)
    thus ?thesis using ih f b st by auto
  qed
qed

lemma push_covers_eq:
  assumes "push_covers st arts = Inr st'" "list_all (\<lambda>a. length (env_art v (ai_art_id a)) = ai_data_len a) arts" "ilst_account v st"
  shows "ilst_bytes enc v st' = ilst_bytes enc v st @ boxes_str (map (cover_item v) arts) \<and> ilst_account v st' \<and>
    (\<forall>a\<in>set arts. box_ok (cover_item v a)) \<and> (arts \<noteq> [] \<longrightarrow> fst (snd st') = [])"
  using assms
proof (induction arts arbitrary: st)
  case (Cons a arts)
  obtain segs inline streamed where st: "st = (segs, inline, streamed)" by (cases st)
  let ?code = "if ai_mime a = ''image/png'' then 14 else 13 :: nat"
  let ?st = "(segs @ [Inline (inline @ be_bytes 4 (16 + ai_data_len a) @ as_bytes ''data'' @ be_bytes 4 ?code @ be_bytes 4 0),
      ArtImage (ai_art_id a) (ai_data_len a)], [], streamed + ai_data_len a)"
  from Cons.prems(1) st have p: "16 + ai_data_len a \<le> u32_max" "push_covers ?st arts = Inr st'"
    by (auto simp: rbind_eq_Inr u32_len_def)
  have l: "length (env_art v (ai_art_id a)) = ai_data_len a" using Cons.prems(2) by simp
  have "ilst_account v ?st" using Cons.prems(3) l st by simp
  from Cons.IH[OF p(2) _ this] have ih: "ilst_bytes enc v st' = ilst_bytes enc v ?st @ boxes_str (map (cover_item v) arts)"
    "ilst_account v st'" "\<forall>a\<in>set arts. box_ok (cover_item v a)" "arts \<noteq> [] \<longrightarrow> fst (snd st') = []" using Cons.prems(2) by auto
  have fin: "arts = [] \<Longrightarrow> fst (snd st') = []" using p(2) by auto
  have sl: "slice (env_art v (ai_art_id a)) 0 (ai_data_len a) = env_art v (ai_art_id a)" using l by (simp add: slice_full)
  have c: "box_str (cover_item v a) = be_bytes 4 (16 + ai_data_len a) @ as_bytes ''data'' @ be_bytes 4 ?code @ be_bytes 4 0 @ env_art v (ai_art_id a)"
    "box_ok (cover_item v a)" using l p(1) by (simp_all add: cover_item_def data_item_def box_str_def box_ok_def)
  show ?case using ih fin st c sl by auto
qed simp

lemma covr_size_eq:
  "covr_size acc arts = Inr n \<Longrightarrow> list_all (\<lambda>a. length (env_art v (ai_art_id a)) = ai_data_len a) arts \<Longrightarrow>
   n = acc + length (boxes_str (map (cover_item v) arts))"
proof (induction arts arbitrary: acc)
  case (Cons a arts)
  from Cons.prems(1) have "covr_size (acc + (16 + ai_data_len a)) arts = Inr n" by (auto simp: rbind_eq_Inr)
  from Cons.IH[OF this] Cons.prems(2) show ?case by (simp add: cover_item_def data_item_def box_str_length)
qed simp

lemma push_covr_eq:
  assumes "push_covr st arts = Inr st'" "list_all (\<lambda>a. length (env_art v (ai_art_id a)) = ai_data_len a) arts" "ilst_account v st"
  shows "layout_bytes enc v (fst st') = ilst_bytes enc v st @ items_str (cover_items v arts) \<and> ilst_account v st' \<and>
    (\<forall>x\<in>set (cover_items v arts). nested x)"
proof -
  obtain segs inline streamed where st: "st = (segs, inline, streamed)" by (cases st)
  show ?thesis
  proof (cases "arts = []")
    case True
    thus ?thesis using assms st by (auto simp: push_covr_def cover_items_def split: if_splits)
  next
    case False
    from assms(1) False st obtain n where n: "covr_size 8 arts = Inr n" "n \<le> u32_max"
      "push_covers (segs, inline @ be_bytes 4 n @ as_bytes ''covr'', streamed) arts = Inr st'"
      by (auto simp: push_covr_def rbind_eq_Inr u32_len_def)
    have nl: "n = 8 + length (boxes_str (map (cover_item v) arts))" by (rule covr_size_eq[OF n(1) assms(2)])
    have "ilst_account v (segs, inline @ be_bytes 4 n @ as_bytes ''covr'', streamed)" using assms(3) st by simp
    from push_covers_eq[OF n(3) assms(2) this, of enc] False
    have r: "ilst_bytes enc v st' = layout_bytes enc v segs @ inline @ be_bytes 4 n @ as_bytes ''covr'' @ boxes_str (map (cover_item v) arts)"
      "ilst_account v st'" "\<forall>a\<in>set arts. box_ok (cover_item v a)" "fst (snd st') = []" by auto
    have "nested (as_bytes ''covr'', map (cover_item v) arts)"
      using r(3) n(2) nl by (auto simp: nested_def item_box_def box_ok_def)
    moreover have "layout_bytes enc v (fst st') = ilst_bytes enc v st'" using r(4) by (cases st') auto
    ultimately show ?thesis using r st False nl by (auto simp: cover_items_def box_str_def item_box_def)
  qed
qed

subsection \<open>The udta box\<close>

definition ilst_items :: "byte_env \<Rightarrow> tag_input list \<Rightarrow> binary_tag_input list \<Rightarrow> art_input list \<Rightarrow> ilst_item list" where
  "ilst_items v tags bts arts = text_items tags @ binary_items v bts @ cover_items v arts"

definition meta_box :: "ilst_item list \<Rightarrow> bytes \<times> bytes" where
  "meta_box items =
     (as_bytes ''meta'', be_bytes 4 0 @ boxes_str [(as_bytes ''hdlr'', mdir_hdlr_body), (as_bytes ''ilst'', items_str items)])"

definition udta_box :: "ilst_item list \<Rightarrow> bytes option \<Rightarrow> bytes \<times> bytes" where
  "udta_box items chpl = (as_bytes ''udta'', box_str (meta_box items) @ (case chpl of Some c \<Rightarrow> c | None \<Rightarrow> []))"

lemma merge_lead_bytes:
  "merge_lead segments lead segs = (out, rest) \<Longrightarrow>
   layout_bytes enc v out @ rest = layout_bytes enc v segments @ lead @ layout_bytes enc v segs"
  by (induction segments lead segs rule: merge_lead.induct) auto

lemma merge_lead_meta:
  "merge_lead segments lead segs = (out, rest) \<Longrightarrow> \<forall>s\<in>set segments. meta_seg v s \<Longrightarrow> \<forall>s\<in>set segs. meta_seg v s \<Longrightarrow>
   \<forall>s\<in>set out. meta_seg v s"
proof (induction segs arbitrary: segments lead)
  case (Cons s segs)
  have s: "meta_seg v s" and segs: "\<forall>s\<in>set segs. meta_seg v s" using Cons.prems by simp_all
  show ?case
  proof (cases "\<exists>b. s = Inline b")
    case True
    thus ?thesis using Cons.prems(1) Cons.IH[OF _ Cons.prems(2) segs] by auto
  next
    case False
    hence "merge_lead (segments @ [Inline lead, s]) [] segs = (out, rest)" using Cons.prems(1) by (cases s) simp_all
    moreover have "\<forall>s\<in>set (segments @ [Inline lead, s]). meta_seg v s" using Cons.prems(2) s by simp
    ultimately show ?thesis using Cons.IH segs by blast
  qed
qed simp

lemma checked_sum_Inr: "checked_sum xs = Inr n \<longleftrightarrow> n = sum_list xs \<and> sum_list xs \<le> u64_max"
  by (auto simp: checked_sum_eq)

lemma build_udta_steps:
  assumes "build_udta tags bts arts chpl = Inr (segs, streamed)"
  obtains atoms st segs1 pending t hdlr out rest where "group_atoms [] (group_values [] tags) = Inr atoms"
    "push_freeforms ([], atoms, 0) bts = Inr st" "push_covr st arts = Inr (segs1, pending, t)"
    "boxed (as_bytes ''hdlr'') mdir_hdlr_body = Inr hdlr"
    "28 + (length hdlr + (inline_len segs1 + ((case chpl of None \<Rightarrow> 0 | Some x \<Rightarrow> length x) + t))) \<le> u32_max"
    "merge_lead [] (be_bytes 4 (28 + (length hdlr + (inline_len segs1 + ((case chpl of None \<Rightarrow> 0 | Some x \<Rightarrow> length x) + t)))) @
       as_bytes ''udta'' @ be_bytes 4 (20 + (length hdlr + (inline_len segs1 + t))) @ as_bytes ''meta'' @
       be_bytes 4 0 @ hdlr @ be_bytes 4 (8 + (inline_len segs1 + t)) @ as_bytes ''ilst'') segs1 = (out, rest)"
    "segs = flush_inline (rest @ (case chpl of Some c \<Rightarrow> c | None \<Rightarrow> [])) out"
proof -
  let ?lead = "\<lambda>hdlr segs1 t. be_bytes 4 (28 + (length hdlr + (inline_len segs1 + ((case chpl of None \<Rightarrow> 0 | Some x \<Rightarrow> length x) + t)))) @
       as_bytes ''udta'' @ be_bytes 4 (20 + (length hdlr + (inline_len segs1 + t))) @ as_bytes ''meta'' @
       be_bytes 4 0 @ hdlr @ be_bytes 4 (8 + (inline_len segs1 + t)) @ as_bytes ''ilst''"
  from assms obtain atoms st r where a: "group_atoms [] (group_values [] tags) = Inr atoms"
    "push_freeforms ([], atoms, 0) bts = Inr st" "push_covr st arts = Inr r"
    unfolding build_udta_def by (elim rbindE)
  obtain segs1 pending t where r: "r = (segs1, pending, t)" by (cases r)
  obtain hdlr where h: "boxed (as_bytes ''hdlr'') mdir_hdlr_body = Inr hdlr"
    using assms unfolding build_udta_def by (auto simp: a r rbind_eq_Inr Let_def)
  obtain out rest where m: "merge_lead [] (?lead hdlr segs1 t) segs1 = (out, rest)" by fastforce
  have "28 + (length hdlr + (inline_len segs1 + ((case chpl of None \<Rightarrow> 0 | Some x \<Rightarrow> length x) + t))) \<le> u32_max \<and>
      segs = flush_inline (rest @ (case chpl of Some c \<Rightarrow> c | None \<Rightarrow> [])) out"
    using assms unfolding build_udta_def
    by (auto simp: a r h m rbind_eq_Inr Let_def u32_len_def checked_sum_Inr flush_inline_def)
  thus thesis using that a h m unfolding r by blast
qed

lemma build_udta_eq:
  assumes "build_udta tags bts arts chpl = Inr (segs, streamed)" "blobs_present v bts arts"
  shows "layout_bytes enc v segs = box_str (udta_box (ilst_items v tags bts arts) chpl)"
    "\<forall>s\<in>set segs. meta_seg v s"
    "\<forall>x\<in>set (ilst_items v tags bts arts). nested x"
    "box_ok (udta_box (ilst_items v tags bts arts) chpl)"
proof -
  let ?items = "ilst_items v tags bts arts"
  let ?c = "case chpl of Some c \<Rightarrow> c | None \<Rightarrow> []"
  from build_udta_steps[OF assms(1)] obtain atoms st segs1 pending t hdlr out rest where
    b: "group_atoms [] (group_values [] tags) = Inr atoms"
    "push_freeforms ([], atoms, 0) bts = Inr st" "push_covr st arts = Inr (segs1, pending, t)"
    "boxed (as_bytes ''hdlr'') mdir_hdlr_body = Inr hdlr"
    and u: "28 + (length hdlr + (inline_len segs1 + ((case chpl of None \<Rightarrow> 0 | Some x \<Rightarrow> length x) + t))) \<le> u32_max"
    and m: "merge_lead [] (be_bytes 4 (28 + (length hdlr + (inline_len segs1 + ((case chpl of None \<Rightarrow> 0 | Some x \<Rightarrow> length x) + t)))) @
       as_bytes ''udta'' @ be_bytes 4 (20 + (length hdlr + (inline_len segs1 + t))) @ as_bytes ''meta'' @
       be_bytes 4 0 @ hdlr @ be_bytes 4 (8 + (inline_len segs1 + t)) @ as_bytes ''ilst'') segs1 = (out, rest)"
    and s: "segs = flush_inline (rest @ ?c) out" .
  have p: "list_all (\<lambda>bt. length (env_tag v (bt_payload_id bt)) = bt_len bt) bts"
    "list_all (\<lambda>a. length (env_art v (ai_art_id a)) = ai_data_len a) arts" using assms(2) by (simp_all add: blobs_present_def)
  have g: "atoms = items_str (text_items tags)" "\<forall>x\<in>set (text_items tags). nested x"
    using group_atoms_eq[OF b(1)] by (simp_all add: text_items_def)
  have "ilst_account v ([], atoms, 0)" by simp
  note f = push_freeforms_eq[OF b(2) p(1) this, of enc]
  note c = push_covr_eq[OF b(3) p(2) f[THEN conjunct2, THEN conjunct1], of enc]
  have lb: "layout_bytes enc v segs1 = items_str ?items" using f c g by (simp add: ilst_items_def)
  have acc: "\<forall>s\<in>set segs1. meta_seg v s" "inline_len segs1 + t = length (items_str ?items)"
    using c meta_bytes_length[of segs1 v enc] lb by auto
  show h: "\<forall>x\<in>set ?items. nested x" using f c g by (auto simp: ilst_items_def)
  have hd: "hdlr = box_str (as_bytes ''hdlr'', mdir_hdlr_body)" using boxed_eq[OF b(4)] by simp
  have cl: "(case chpl of None \<Rightarrow> 0 | Some x \<Rightarrow> length x) = length ?c" by (cases chpl) simp_all
  have L: "length (box_str (meta_box ?items)) = 20 + (length hdlr + length (items_str ?items))"
    by (simp add: box_str_length meta_box_def hd)
  have i1: "inline_len segs1 + (length ?c + t) = length (items_str ?items) + length ?c" using acc(2) by linarith
  have u': "28 + (length hdlr + (length (items_str ?items) + length ?c)) \<le> u32_max"
    using u acc(2) cl by linarith
  show "box_ok (udta_box ?items chpl)"
    using u' L by (simp add: udta_box_def box_ok_def)
  show "\<forall>s\<in>set segs. meta_seg v s"
    using merge_lead_meta[OF m _ acc(1)] by (simp add: s flush_inline_meta)
  have "layout_bytes enc v segs = (layout_bytes enc v out @ rest) @ ?c" by (simp add: s flush_inline_bytes)
  also have "layout_bytes enc v out @ rest =
      be_bytes 4 (8 + length (box_str (meta_box ?items)) + length ?c) @ as_bytes ''udta'' @ box_str (meta_box ?items)"
    unfolding merge_lead_bytes[OF m] lb cl i1 acc(2) L
    by (simp add: meta_box_def box_str_def hd add.commute add.left_commute)
  finally show "layout_bytes enc v segs = box_str (udta_box ?items chpl)"
    by (simp add: udta_box_def box_str_def[of "(as_bytes ''udta'', _)"] add.assoc)
qed

end
