(* ===== verification/Mp4_Items.thy ===== *)
theory Mp4_Items
  imports Mp4_Ilst
begin

text \<open>
  What the tag, picture and binary readers make of the boxes the synthesizer writes: a text group
  reads back as its values under its canonical key, numbers through their fixed-width fields, an
  opaque freeform value as its payload under its full key, a cover as a picture.
\<close>

unbundle bit_operations_syntax

lemma nested_atoms: "nested b \<Longrightarrow> lenient_atoms (snd (item_box b)) = snd b"
proof -
  assume n: "nested b"
  hence "length (boxes_str (snd b)) \<le> u64_max" by (auto simp: nested_def item_box_def box_ok_def u32_max_def u64_max_def)
  thus ?thesis using n lenient_atoms_boxes[of "snd b"] by (simp add: nested_def item_box_def)
qed

lemma data_bodies_atoms:
  "data_bodies inner = filter (\<lambda>dp. 8 \<le> length dp) (map snd (filter (\<lambda>b. fst b = as_bytes ''data'') (lenient_atoms inner)))"
  by (simp add: data_bodies_def lenient_atoms_def atoms_from_def child_boxes_lenient_def filter_map comp_def atom_of_def)

lemma freeform_name_atoms:
  "freeform_name inner =
     Option.bind (first_payload inner (as_bytes ''name'')) (\<lambda>p. if length p < 4 then None else from_utf8 (drop 4 p))"
  unfolding freeform_name_def find_atom[symmetric] by (cases "find_box_lenient inner (as_bytes ''name'')") (simp_all add: Let_def)

lemma freeform_mean_atoms:
  "freeform_mean inner =
     (case first_payload inner (as_bytes ''mean'') of
        None \<Rightarrow> ''com.apple.iTunes''
      | Some p \<Rightarrow> if 4 \<le> length p
          then (case from_utf8 (drop 4 p) of Some s \<Rightarrow> s | None \<Rightarrow> ''com.apple.iTunes'') else ''com.apple.iTunes'')"
  unfolding freeform_mean_def find_atom[symmetric] by (cases "find_box_lenient inner (as_bytes ''mean'')") (simp_all add: Let_def)

lemma item_kinds_differ:
  "as_bytes ''data'' \<noteq> as_bytes ''mean''" "as_bytes ''data'' \<noteq> as_bytes ''name''" "as_bytes ''mean'' \<noteq> as_bytes ''name''"
  "as_bytes ''covr'' \<noteq> as_bytes ''----''" "as_bytes ''hdlr'' \<noteq> as_bytes ''ilst''" "as_bytes ''moov'' \<noteq> as_bytes ''ftyp''"
  by code_simp+

lemmas kinds_differ = item_kinds_differ item_kinds_differ[symmetric]

subsection \<open>Numbers in fixed-width fields\<close>

lemma le_val_le_bytes_mod: "le_val (le_bytes n x) = x mod 256 ^ n"
proof (induction n arbitrary: x)
  case (Suc n)
  have "le_val (le_bytes (Suc n) x) = x mod 256 + 256 * (x div 256 mod 256 ^ n)" using Suc by (simp add: unat_of_nat)
  thus ?case by (simp add: mod_mult2_eq)
qed simp

lemma take_le_bytes: "k \<le> n \<Longrightarrow> take k (le_bytes n x) = le_bytes k x"
proof (induction n arbitrary: k x)
  case (Suc n)
  thus ?case by (cases k) auto
qed simp

lemma low_bytes: "w \<le> 8 \<Longrightarrow> be_val (drop (8 - w) (be_bytes 8 n)) = n mod 256 ^ w"
  using le_val_le_bytes_mod[of w n] take_le_bytes[of w 8 n] by (simp add: be_bytes_def be_val_def drop_rev take_rev)

lemma data_item_bodies:
  "8 \<le> length (snd (data_item c x))" "type_code (snd (data_item c x)) = c mod 2 ^ 32" "drop 8 (snd (data_item c x)) = x"
  using le_val_le_bytes_mod[of 4 c] by (simp_all add: data_item_def type_code_def be_val_def be_bytes_def)

lemma data_only:
  "\<forall>d\<in>set ds. \<exists>c x. d = data_item c x \<Longrightarrow>
   filter (\<lambda>dp. 8 \<le> length dp) (map snd (filter (\<lambda>b. fst b = as_bytes ''data'') ds)) = map snd ds"
proof (induction ds)
  case (Cons d ds)
  then obtain c x where "d = data_item c x" by auto
  thus ?case using Cons data_item_bodies(1)[of c x] by simp
qed simp

subsection \<open>Freeform items\<close>

lemma freeform_item_atoms:
  assumes "nested (freeform_item mean name ds)"
    "\<forall>d\<in>set ds. \<exists>c x. d = data_item c x" "utf8_valid (as_bytes mean)" "utf8_valid (as_bytes name)"
  shows "freeform_name (snd (item_box (freeform_item mean name ds))) = Some name"
    "freeform_mean (snd (item_box (freeform_item mean name ds))) = mean"
    "data_bodies (snd (item_box (freeform_item mean name ds))) = map snd ds"
proof -
  let ?in = "snd (item_box (freeform_item mean name ds))"
  have "snd (freeform_item mean name ds) = mean_item mean # name_item name # ds" by (simp add: freeform_item_def)
  with nested_atoms[OF assms(1)] have a: "lenient_atoms ?in = mean_item mean # name_item name # ds" by simp
  have "first_payload ?in (as_bytes ''name'') = Some (be_bytes 4 0 @ as_bytes name)"
    using kinds_differ by (simp add: first_payload_def a mean_item_def name_item_def)
  thus "freeform_name ?in = Some name" using assms(4) by (simp add: freeform_name_atoms from_utf8_as_bytes)
  have "first_payload ?in (as_bytes ''mean'') = Some (be_bytes 4 0 @ as_bytes mean)"
    by (simp add: first_payload_def a mean_item_def)
  thus "freeform_mean ?in = mean" using assms(3) by (simp add: freeform_mean_atoms from_utf8_as_bytes)
  show "data_bodies ?in = map snd ds" using kinds_differ data_only[OF assms(2)] by (simp add: data_bodies_atoms a)
qed

lemma freeform_item_bodies:
  assumes "nested (freeform_item mean name ds)" "\<forall>d\<in>set ds. \<exists>c x. d = data_item c x"
  shows "data_bodies (snd (item_box (freeform_item mean name ds))) = map snd ds"
proof -
  have "snd (freeform_item mean name ds) = mean_item mean # name_item name # ds" by (simp add: freeform_item_def)
  thus ?thesis using nested_atoms[OF assms(1)] kinds_differ data_only[OF assms(2)] by (simp add: data_bodies_atoms)
qed

lemma text_values:
  "\<forall>v\<in>set values. utf8_valid (as_bytes v) \<Longrightarrow>
   List.map_filter (\<lambda>dp. if type_code dp \<noteq> 1 then None else map_option (\<lambda>v. (key, v)) (from_utf8 (drop 8 dp)))
     (map snd (map text_item values)) = map (Pair key) values"
  by (induction "values") (simp_all add: map_filter_simps text_item_def data_item_bodies from_utf8_as_bytes)

definition freeform_key :: "string \<Rightarrow> string \<Rightarrow> string" where
  "freeform_key mean name = (case mp4_freeform_to_key mean name of Some k \<Rightarrow> k | None \<Rightarrow> name)"

lemma text_items_data: "\<forall>d\<in>set (map text_item vals). \<exists>c x. d = data_item c x"
  by (auto simp: text_item_def)

lemma read_freeform_text:
  assumes "nested (freeform_item mean name (map text_item vals))"
    "utf8_valid (as_bytes mean)" "utf8_valid (as_bytes name)" "\<forall>v\<in>set vals. utf8_valid (as_bytes v)"
  shows "read_freeform (snd (item_box (freeform_item mean name (map text_item vals)))) = map (Pair (freeform_key mean name)) vals"
  using freeform_item_atoms[OF assms(1) text_items_data assms(2,3)] text_values[OF assms(4)]
  by (simp add: read_freeform_def freeform_key_def Let_def del: map_map)

subsection \<open>Text groups\<close>

definition group_tags :: "string \<Rightarrow> string list \<Rightarrow> (string \<times> string) list" where
  "group_tags key vals =
     (case key_to_mp4 key of
        Some (Mp4Text a) \<Rightarrow> map (Pair (to_ascii_lowercase key)) vals
      | Some (Mp4Number a width) \<Rightarrow>
          (case parse_number_total (first_value vals) of
             (Some n, tot) \<Rightarrow> [(to_ascii_lowercase key, if tot \<noteq> 0 then dec n @ ''/'' @ dec tot else dec n)]
           | (None, _) \<Rightarrow> [])
      | Some (Mp4Integer a width) \<Rightarrow>
          (case parse_uint u64_max (first_value vals) of
             Some n \<Rightarrow> [(to_ascii_lowercase key, dec (n mod 256 ^ width))]
           | None \<Rightarrow> [])
      | Some (Mp4Freeform mean name) \<Rightarrow> map (Pair (to_ascii_lowercase key)) vals
      | None \<Rightarrow> map (Pair (freeform_key ''com.apple.iTunes'' key)) vals)"

lemma vocab_mp4_back_all:
  "list_all (\<lambda>e. case e_mp4 e of
       Mp4Text a \<Rightarrow> mp4_atom_to_key a = Some (e_key e) \<and> a \<noteq> as_bytes ''----'' \<and> a \<noteq> as_bytes ''covr''
     | Mp4Number a w \<Rightarrow> mp4_atom_to_key a = None \<and>
         (a = as_bytes ''trkn'' \<and> e_key e = ''tracknumber'' \<or> a = as_bytes ''disk'' \<and> a \<noteq> as_bytes ''trkn'' \<and> e_key e = ''discnumber'') \<and>
         a \<noteq> as_bytes ''----'' \<and> a \<noteq> as_bytes ''covr''
     | Mp4Integer a w \<Rightarrow> mp4_atom_to_key a = None \<and> a \<noteq> as_bytes ''trkn'' \<and> a \<noteq> as_bytes ''disk'' \<and>
         mp4_integer_atom_to_key a = Some (e_key e) \<and> a \<noteq> as_bytes ''----'' \<and> a \<noteq> as_bytes ''covr''
     | Mp4Freeform m n \<Rightarrow> mp4_freeform_to_key m n = Some (e_key e)) vocab"
  by code_simp

lemma slot_back:
  "key_to_mp4 key = Some (Mp4Text a) \<Longrightarrow>
     mp4_atom_to_key a = Some (to_ascii_lowercase key) \<and> a \<noteq> as_bytes ''----'' \<and> a \<noteq> as_bytes ''covr''"
  "key_to_mp4 key = Some (Mp4Number a w) \<Longrightarrow> mp4_atom_to_key a = None \<and>
     (a = as_bytes ''trkn'' \<and> to_ascii_lowercase key = ''tracknumber'' \<or>
      a = as_bytes ''disk'' \<and> a \<noteq> as_bytes ''trkn'' \<and> to_ascii_lowercase key = ''discnumber'') \<and>
     a \<noteq> as_bytes ''----'' \<and> a \<noteq> as_bytes ''covr''"
  "key_to_mp4 key = Some (Mp4Integer a w) \<Longrightarrow> mp4_atom_to_key a = None \<and> a \<noteq> as_bytes ''trkn'' \<and> a \<noteq> as_bytes ''disk'' \<and>
     mp4_integer_atom_to_key a = Some (to_ascii_lowercase key) \<and> a \<noteq> as_bytes ''----'' \<and> a \<noteq> as_bytes ''covr''"
  "key_to_mp4 key = Some (Mp4Freeform m n) \<Longrightarrow> mp4_freeform_to_key m n = Some (to_ascii_lowercase key)"
  using vocab_mp4_back_all by (fastforce simp: list_all_iff dest!: key_to_mp4_entry)+

lemma number_total_written:
  assumes "n \<le> 65535" "t \<le> 65535" "6 \<le> w" "w \<le> 8"
  shows "number_total (resized ([0, 0] @ be_bytes 2 n @ be_bytes 2 t) w) = (if t \<noteq> 0 then dec n @ ''/'' @ dec t else dec n)"
    "4 \<le> length (resized ([0, 0] @ be_bytes 2 n @ be_bytes 2 t) w)"
proof -
  have r: "resized ([0, 0] @ be_bytes 2 n @ be_bytes 2 t) w = [0, 0] @ be_bytes 2 n @ be_bytes 2 t @ replicate (w - 6) 0"
    using assms(3) by (simp add: resized_def)
  have "slice ([0, 0] @ be_bytes 2 n @ be_bytes 2 t @ replicate (w - 6) 0) 2 2 = be_bytes 2 n"
    "slice ([0, 0] @ be_bytes 2 n @ be_bytes 2 t @ replicate (w - 6) 0) 4 2 = be_bytes 2 t"
    by (simp_all add: slice_def)
  moreover have "be_val (be_bytes 2 n) = n" "be_val (be_bytes 2 t) = t" using assms(1,2) by (simp_all add: be_val_be_bytes)
  ultimately show "number_total (resized ([0, 0] @ be_bytes 2 n @ be_bytes 2 t) w) = (if t \<noteq> 0 then dec n @ ''/'' @ dec t else dec n)"
    "4 \<le> length (resized ([0, 0] @ be_bytes 2 n @ be_bytes 2 t) w)"
    unfolding r using assms(3) by (simp_all add: number_total_def Let_def)
qed

definition item_tags :: "ilst_item \<Rightarrow> (string \<times> string) list" where
  "item_tags it = atom_tags (fst it) (snd (item_box it))"

lemma item_tags_plain:
  assumes "nested it" "fst it \<noteq> as_bytes ''----''" "\<forall>d\<in>set (snd it). \<exists>c x. d = data_item c x"
  shows "item_tags it = concat (map (\<lambda>d. atom_value_tags (fst it) (snd d)) (snd it))"
proof -
  have "data_bodies (snd (item_box it)) = map snd (snd it)"
    using data_only[OF assms(3)] by (simp add: data_bodies_atoms nested_atoms[OF assms(1)])
  thus ?thesis using assms(2) by (simp add: item_tags_def atom_tags_def comp_def)
qed

lemma concat_singletons: "\<forall>x\<in>set xs. f x = [g x] \<Longrightarrow> concat (map f xs) = map g xs"
  by (induction xs) auto

lemma text_bodies:
  "\<forall>v\<in>set vals. utf8_valid (as_bytes v) \<Longrightarrow> mp4_atom_to_key a = Some key \<Longrightarrow>
   concat (map (\<lambda>d. atom_value_tags a (snd d)) (map text_item vals)) = map (Pair key) vals"
  unfolding map_map comp_def
  by (rule concat_singletons) (simp add: atom_value_tags_def text_item_def data_item_bodies from_utf8_as_bytes)

lemma group_reads_back:
  assumes "\<forall>x\<in>set (group_items key vals). nested x" "utf8_valid (as_bytes key)" "\<forall>v\<in>set vals. utf8_valid (as_bytes v)"
  shows "concat (map item_tags (group_items key vals)) = group_tags key vals"
proof (cases "key_to_mp4 key")
  case None
  have "utf8_valid (as_bytes ''com.apple.iTunes'')" by code_simp
  from read_freeform_text[OF _ this assms(2,3)] show ?thesis
    using assms(1) None by (simp add: group_items_def group_tags_def item_tags_def atom_tags_def freeform_item_def)
next
  case (Some s)
  show ?thesis
  proof (cases s)
    case (Mp4Text a)
    note b = slot_back(1)[OF Some[unfolded Mp4Text]]
    have "item_tags (a, map text_item vals) = map (Pair (to_ascii_lowercase key)) vals"
      using assms(1) Some Mp4Text b text_bodies[OF assms(3)] text_items_data
      by (subst item_tags_plain) (simp_all add: group_items_def)
    thus ?thesis using Some Mp4Text by (simp add: group_items_def group_tags_def)
  next
    case (Mp4Number a w)
    note b = slot_back(2)[OF Some[unfolded Mp4Number]] and w = slot_lens(2)[OF Some[unfolded Mp4Number]]
    obtain num tot where p: "parse_number_total (first_value vals) = (num, tot)" by fastforce
    show ?thesis
    proof (cases num)
      case None
      thus ?thesis using Some Mp4Number p by (simp add: group_items_def group_tags_def)
    next
      case n: (Some n)
      have bd: "n \<le> 65535" "tot \<le> 65535"
        using p n parse_uint_bound by (auto simp: parse_number_total_def split: prod.splits option.splits)
      let ?v = "resized ([0, 0] @ be_bytes 2 n @ be_bytes 2 tot) w"
      note nt = number_total_written[OF bd, of w]
      have "item_tags (a, [data_item 0 ?v]) = atom_value_tags a (snd (data_item 0 ?v))"
        using assms(1) Some Mp4Number p n b by (subst item_tags_plain) (auto simp: group_items_def)
      also have "\<dots> = [(to_ascii_lowercase key, if tot \<noteq> 0 then dec n @ ''/'' @ dec tot else dec n)]"
        using b nt w by (auto simp: atom_value_tags_def data_item_bodies simp del: append_Cons append_Nil)
      finally show ?thesis using Some Mp4Number p n by (simp add: group_items_def group_tags_def del: append_Cons)
    qed
  next
    case (Mp4Integer a w)
    note b = slot_back(3)[OF Some[unfolded Mp4Integer]] and w = slot_lens(3)[OF Some[unfolded Mp4Integer]]
    show ?thesis
    proof (cases "parse_uint u64_max (first_value vals)")
      case None
      thus ?thesis using Some Mp4Integer by (simp add: group_items_def group_tags_def)
    next
      case n: (Some n)
      let ?v = "drop (8 - w) (be_bytes 8 n)"
      have "item_tags (a, [data_item 21 ?v]) = atom_value_tags a (snd (data_item 21 ?v))"
        using assms(1) Some Mp4Integer n b by (subst item_tags_plain) (auto simp: group_items_def)
      also have "\<dots> = [(to_ascii_lowercase key, dec (n mod 256 ^ w))]"
        using b w low_bytes[of w n] by (simp add: atom_value_tags_def data_item_bodies)
      finally show ?thesis using Some Mp4Integer n by (simp add: group_items_def group_tags_def)
    qed
  next
    case (Mp4Freeform m n)
    note u = slot_lens(4)[OF Some[unfolded Mp4Freeform]] and b = slot_back(4)[OF Some[unfolded Mp4Freeform]]
    have "read_freeform (snd (item_box (freeform_item m n (map text_item vals)))) = map (Pair (freeform_key m n)) vals"
      using assms(1) Some Mp4Freeform u assms(3) by (intro read_freeform_text) (simp_all add: group_items_def)
    thus ?thesis using Some Mp4Freeform b
      by (simp add: group_items_def group_tags_def item_tags_def atom_tags_def freeform_item_def freeform_key_def)
  qed
qed

end
