(* ===== verification/Mp4_Reread.thy ===== *)
theory Mp4_Reread
  imports Mp4_Items
begin

text \<open>
  The whole item list read back: its tags, pictures and opaque values, from the items the
  synthesizer wrote.
\<close>

unbundle bit_operations_syntax

subsection \<open>Cutting UTF-8 at an ASCII character\<close>

lemma ascii_no_continuation: "c < 0x80 \<Longrightarrow> \<not> cont_byte c \<and> \<not> second_ok a c"
proof -
  assume c: "c < 0x80"
  have le: "\<not> k \<le> c" if "0x80 \<le> k" for k using that c by (meson leD order_trans)
  have "(0x80 :: byte) \<le> 0xA0" "(0x80 :: byte) \<le> 0x90" "(0x80 :: byte) \<le> 0x80" by simp_all
  thus ?thesis using le by (simp add: second_ok_def cont_byte_def)
qed

lemma utf8_head_cut:
  assumes "fst (utf8_head a (bs @ c # cs))" "c < 0x80"
  shows "utf8_head a bs = utf8_head a (bs @ c # cs) \<and> snd (utf8_head a bs) - 1 \<le> length bs"
proof -
  note n = ascii_no_continuation[OF assms(2)]
  consider "bs = []" | b1 where "bs = [b1]" | b1 b2 where "bs = [b1, b2]" | b1 b2 b3 r where "bs = b1 # b2 # b3 # r"
    by (metis list.exhaust)
  thus ?thesis
    using assms(1) n by cases (auto simp: utf8_head_def split: if_splits)
qed

lemma utf8_cut: "utf8_valid (a @ c # b) \<Longrightarrow> c < 0x80 \<Longrightarrow> utf8_valid a \<and> utf8_valid b"
proof (induction a rule: utf8_valid.induct)
  case 1
  thus ?case by (simp add: utf8_head_def)
next
  case (2 x bs)
  have h: "fst (utf8_head x (bs @ c # b))" using "2.prems" by simp
  note k = utf8_head_cut[OF h "2.prems"(2)]
  have "snd (utf8_head x bs) - Suc 0 - length bs = 0" using k by linarith
  hence "utf8_valid (drop (snd (utf8_head x bs) - 1) bs @ c # b)"
    using "2.prems"(1) k by (simp add: drop_Cons')
  with "2.IH" "2.prems"(2) have "utf8_valid (drop (snd (utf8_head x bs) - 1) bs) \<and> utf8_valid b" by blast
  thus ?case using h k by simp
qed

lemma takeWhile_split: "dropWhile P s = c # r \<Longrightarrow> s = takeWhile P s @ c # r"
  using takeWhile_dropWhile_id[of P s] by simp

lemma split_once_join: "split_once c s = Some (a, b) \<Longrightarrow> s = a @ c # b"
proof -
  assume s: "split_once c s = Some (a, b)"
  hence "c \<in> set s" and ab: "a = takeWhile (\<lambda>x. x \<noteq> c) s" "b = tl (dropWhile (\<lambda>x. x \<noteq> c) s)"
    by (auto simp: split_once_def split: if_splits)
  then obtain x r where d: "dropWhile (\<lambda>x. x \<noteq> c) s = x # r" by (cases "dropWhile (\<lambda>x. x \<noteq> c) s") auto
  moreover have "x = c" using hd_dropWhile[of "\<lambda>x. x \<noteq> c" s] d by simp
  ultimately show ?thesis using takeWhile_split[OF d] ab by simp
qed

lemma freeform_key_parts:
  assumes "parse_freeform_key key = Some (mean, name)" "utf8_valid (as_bytes key)"
  shows "key = ''----:'' @ mean @ '':'' @ name" "utf8_valid (as_bytes mean)" "utf8_valid (as_bytes name)"
proof -
  from assms(1) have s: "starts_with key ''----:''" "split_once (CHR '':'') (drop 5 key) = Some (mean, name)"
    by (auto simp: parse_freeform_key_def split: if_splits)
  have d: "drop 5 key = mean @ CHR '':'' # name" using split_once_join[OF s(2)] .
  have t: "take 5 key = ''----:''" using s(1) by (simp add: starts_with_iff numeral_eq_Suc)
  show k: "key = ''----:'' @ mean @ '':'' @ name" using append_take_drop_id[of 5 key] unfolding t d by simp
  have c: "as_bytes '':'' = [58]" by code_simp
  have "\<forall>b\<in>set (as_bytes ''----:''). b < 0x80" by code_simp
  hence "utf8_valid (as_bytes mean @ 58 # as_bytes name)"
    using assms(2) utf8_valid_ascii_append[of "as_bytes ''----:''"] unfolding k by (simp only: as_bytes_append c) simp
  from utf8_cut[OF this] show "utf8_valid (as_bytes mean)" "utf8_valid (as_bytes name)" by simp_all
qed

subsection \<open>The tags\<close>

definition group_valid :: "string \<times> string list \<Rightarrow> bool" where
  "group_valid g \<longleftrightarrow> utf8_valid (as_bytes (fst g)) \<and> (\<forall>x\<in>set (snd g). utf8_valid (as_bytes x))"

lemma group_values_valid:
  "\<forall>t\<in>set tags. utf8_valid (as_bytes (ti_key t)) \<and> utf8_valid (as_bytes (ti_value t)) \<Longrightarrow>
   \<forall>g\<in>set gs. group_valid g \<Longrightarrow> \<forall>g\<in>set (group_values gs tags). group_valid g"
proof (induction tags arbitrary: gs)
  case (Cons t ts)
  have t: "utf8_valid (as_bytes (ti_key t))" "utf8_valid (as_bytes (ti_value t))"
    "\<forall>t\<in>set ts. utf8_valid (as_bytes (ti_key t)) \<and> utf8_valid (as_bytes (ti_value t))" using Cons.prems(1) by simp_all
  show ?case
  proof (cases "gs \<noteq> [] \<and> fst (last gs) = ti_key t")
    case True
    let ?gs = "butlast gs @ [(ti_key t, snd (last gs) @ [ti_value t])]"
    have "last gs \<in> set gs" using True by simp
    hence "group_valid (last gs)" using Cons.prems(2) by blast
    hence "group_valid (ti_key t, snd (last gs) @ [ti_value t])" using t by (simp add: group_valid_def ball_Un)
    moreover have "\<forall>g\<in>set (butlast gs). group_valid g" using Cons.prems(2) by (meson in_set_butlastD)
    ultimately have "\<forall>g\<in>set ?gs. group_valid g" by simp
    from Cons.IH[OF t(3) this] True show ?thesis by simp
  next
    case False
    have "\<forall>g\<in>set (gs @ [(ti_key t, [ti_value t])]). group_valid g" using t Cons.prems(2) by (simp add: group_valid_def)
    from Cons.IH[OF t(3) this] False show ?thesis by (simp only: group_values.simps if_False)
  qed
qed simp

text \<open>The tags of a synthesis as the reader returns them.\<close>

definition written_tags :: "tag_input list \<Rightarrow> (string \<times> string) list" where
  "written_tags tags = concat (map (\<lambda>(key, vals). group_tags key vals) (group_values [] tags))"

definition opaque_item :: "byte_env \<Rightarrow> binary_tag_input \<Rightarrow> ilst_item" where
  "opaque_item v bt =
     (case parse_freeform_key (bt_key bt) of
        Some (mean, name) \<Rightarrow> freeform_item mean name [data_item 0 (env_tag v (bt_payload_id bt))]
      | None \<Rightarrow> ([], []))"

lemma binary_items_map:
  "binary_items v bts = map (opaque_item v) (filter (\<lambda>bt. parse_freeform_key (bt_key bt) \<noteq> None) bts)"
  by (induction bts) (auto simp: binary_items_def opaque_item_def split: option.splits)

lemma opaque_item_reads:
  assumes "nested (opaque_item v bt)" "parse_freeform_key (bt_key bt) \<noteq> None" "utf8_valid (as_bytes (bt_key bt))"
  shows "fst (opaque_item v bt) = as_bytes ''----''"
    "item_tags (opaque_item v bt) = []"
    "freeform_name (snd (item_box (opaque_item v bt))) \<noteq> None"
    "''----:'' @ freeform_mean (snd (item_box (opaque_item v bt))) @ '':'' @ the (freeform_name (snd (item_box (opaque_item v bt)))) = bt_key bt"
    "data_bodies (snd (item_box (opaque_item v bt))) = [snd (data_item 0 (env_tag v (bt_payload_id bt)))]"
proof -
  obtain mean name where p: "parse_freeform_key (bt_key bt) = Some (mean, name)" using assms(2) by auto
  note k = freeform_key_parts[OF p assms(3)]
  have o: "opaque_item v bt = freeform_item mean name [data_item 0 (env_tag v (bt_payload_id bt))]"
    using p by (simp add: opaque_item_def)
  have "\<forall>d\<in>set [data_item 0 (env_tag v (bt_payload_id bt))]. \<exists>c x. d = data_item c x" by auto
  note a = freeform_item_atoms[OF assms(1)[unfolded o] this k(2,3), folded o]
  show f: "fst (opaque_item v bt) = as_bytes ''----''" by (simp add: o freeform_item_def)
  show "item_tags (opaque_item v bt) = []"
    using f a by (simp add: item_tags_def atom_tags_def read_freeform_def Let_def map_filter_simps data_item_bodies)
  show "freeform_name (snd (item_box (opaque_item v bt))) \<noteq> None" using a by simp
  show "''----:'' @ freeform_mean (snd (item_box (opaque_item v bt))) @ '':'' @ the (freeform_name (snd (item_box (opaque_item v bt)))) = bt_key bt"
    using a k(1) by simp
  show "data_bodies (snd (item_box (opaque_item v bt))) = [snd (data_item 0 (env_tag v (bt_payload_id bt)))]" using a by simp
qed

lemma covr_no_tag: "atom_value_tags (as_bytes ''covr'') dp = []"
proof -
  have "mp4_atom_to_key (as_bytes ''covr'') = None" "as_bytes ''covr'' \<noteq> as_bytes ''trkn''" "as_bytes ''covr'' \<noteq> as_bytes ''disk''"
    "mp4_integer_atom_to_key (as_bytes ''covr'') = None" by code_simp+
  thus ?thesis by (simp add: atom_value_tags_def)
qed

lemma cover_items_read:
  assumes "\<forall>x\<in>set (cover_items v arts). nested x"
  shows "concat (map item_tags (cover_items v arts)) = []"
    "arts \<noteq> [] \<Longrightarrow> data_bodies (snd (item_box (as_bytes ''covr'', map (cover_item v) arts))) = map (\<lambda>a. snd (cover_item v a)) arts"
proof -
  let ?it = "(as_bytes ''covr'', map (cover_item v) arts)"
  have d: "\<forall>d\<in>set (map (cover_item v) arts). \<exists>c x. d = data_item c x" by (auto simp: cover_item_def)
  show b: "data_bodies (snd (item_box ?it)) = map (\<lambda>a. snd (cover_item v a)) arts" if "arts \<noteq> []"
  proof -
    have "nested ?it" using assms that by (simp add: cover_items_def)
    from nested_atoms[OF this] show ?thesis using data_only[OF d] by (simp add: data_bodies_atoms comp_def)
  qed
  show "concat (map item_tags (cover_items v arts)) = []"
    using b kinds_differ by (auto simp: cover_items_def item_tags_def atom_tags_def covr_no_tag concat_eq_Nil_conv)
qed

lemma item_list_tags:
  assumes "\<forall>x\<in>set (ilst_items v tags bts arts). nested x"
    "\<forall>t\<in>set tags. utf8_valid (as_bytes (ti_key t)) \<and> utf8_valid (as_bytes (ti_value t))"
    "\<forall>bt\<in>set bts. utf8_valid (as_bytes (bt_key bt))"
  shows "concat (map item_tags (ilst_items v tags bts arts)) = written_tags tags"
proof -
  have n: "\<forall>x\<in>set (text_items tags). nested x" "\<forall>x\<in>set (binary_items v bts). nested x" "\<forall>x\<in>set (cover_items v arts). nested x"
    using assms(1) by (auto simp: ilst_items_def)
  have "concat (map item_tags (concat (map (\<lambda>(key, vals). group_items key vals) gs))) =
      concat (map (\<lambda>(key, vals). group_tags key vals) gs)"
    if "\<forall>x\<in>set (concat (map (\<lambda>(key, vals). group_items key vals) gs)). nested x"
      "\<forall>g\<in>set gs. group_valid g" for gs
    using that
  proof (induction gs)
    case (Cons g gs)
    obtain key vals where g: "g = (key, vals)" by (cases g)
    have "concat (map item_tags (group_items key vals)) = group_tags key vals"
      using Cons.prems g by (intro group_reads_back) (auto simp: group_valid_def)
    thus ?case using Cons g by simp
  qed simp
  from this[OF n(1)[unfolded text_items_def] group_values_valid[OF assms(2)]]
  have "concat (map item_tags (text_items tags)) = written_tags tags" by (simp add: text_items_def written_tags_def)
  moreover have "concat (map item_tags (binary_items v bts)) = []"
    using n(2) assms(3) opaque_item_reads(2) by (auto simp: binary_items_map concat_eq_Nil_conv)
  ultimately show ?thesis using cover_items_read(1)[OF n(3)] by (simp add: ilst_items_def)
qed

subsection \<open>Pictures and opaque values\<close>

definition cover_pictures :: "byte_env \<Rightarrow> nat \<Rightarrow> art_input list \<Rightarrow> embedded_picture list" where
  "cover_pictures v max_art_bytes arts =
     map (\<lambda>a. \<lparr> pic_mime = (if ai_mime a = ''image/png'' then ''image/png'' else ''image/jpeg''), pic_type = 3,
                pic_description = [], pic_width = 0, pic_height = 0, pic_data = env_art v (ai_art_id a) \<rparr>)
       (filter (\<lambda>a. ai_data_len a \<le> max_art_bytes) arts)"

definition opaque_values :: "byte_env \<Rightarrow> nat \<Rightarrow> binary_tag_input list \<Rightarrow> embedded_binary_tag list" where
  "opaque_values v max_bytes bts =
     map (\<lambda>bt. \<lparr> ebt_key = bt_key bt, ebt_payload = env_tag v (bt_payload_id bt) \<rparr>)
       (filter (\<lambda>bt. parse_freeform_key (bt_key bt) \<noteq> None \<and> bt_len bt \<le> max_bytes) bts)"

definition atom_pictures :: "nat \<Rightarrow> bytes \<times> bytes \<Rightarrow> embedded_picture list" where
  "atom_pictures mx a =
     (if fst a \<noteq> as_bytes ''covr'' then [] else concat (map (\<lambda>dp. fst (picture_body mx dp)) (data_bodies (snd a))))"

definition atom_binaries :: "nat \<Rightarrow> bytes \<times> bytes \<Rightarrow> embedded_binary_tag list" where
  "atom_binaries mx a =
     (if fst a \<noteq> as_bytes ''----'' then []
      else case freeform_name (snd a) of
             None \<Rightarrow> []
           | Some name \<Rightarrow>
               concat (map (\<lambda>dp. fst (binary_body mx (''----:'' @ freeform_mean (snd a) @ '':'' @ name) dp)) (data_bodies (snd a))))"

lemma concat_fst_concat: "concat (map fst (concat xss)) = concat (map (\<lambda>xs. concat (map fst xs)) xss)"
  by (induction xss) simp_all

lemma pictures_of_atoms: "mp4_read_pictures buf mx = concat (map (atom_pictures mx) (ilst_atoms buf))"
proof -
  have "concat (map fst (case x of (kind, inner) \<Rightarrow>
      if kind \<noteq> as_bytes ''covr'' then [] else map (picture_body mx) (data_bodies inner))) = atom_pictures mx x" for x
    by (cases x) (simp add: atom_pictures_def comp_def)
  thus ?thesis
    unfolding mp4_read_pictures_def mp4_read_pictures_reporting_def gather_def fst_conv concat_fst_concat map_map comp_def
    by presburger
qed

lemma binaries_of_atoms: "mp4_read_binary_tags buf mx = concat (map (atom_binaries mx) (ilst_atoms buf))"
proof -
  have "concat (map fst (case x of (kind, inner) \<Rightarrow>
      if kind \<noteq> as_bytes ''----'' then []
      else case freeform_name inner of None \<Rightarrow> []
         | Some name \<Rightarrow> map (binary_body mx (''----:'' @ freeform_mean inner @ '':'' @ name)) (data_bodies inner))) = atom_binaries mx x" for x
    by (cases x) (simp add: atom_binaries_def comp_def split: option.split)
  thus ?thesis
    unfolding mp4_read_binary_tags_def mp4_read_binary_tags_reporting_def gather_def fst_conv concat_fst_concat map_map comp_def
    by presburger
qed

lemma text_item_no_binary: "fst (binary_body mx k (snd (text_item x))) = []"
  by (simp add: binary_body_def text_item_def data_item_bodies)

lemma group_items_kinds:
  assumes "it \<in> set (group_items key vals)"
  shows "fst it \<noteq> as_bytes ''covr''"
    "fst it = as_bytes ''----'' \<Longrightarrow> \<exists>mean name. it = freeform_item mean name (map text_item vals)"
  using assms slot_back kinds_differ
  by (auto simp: group_items_def freeform_item_def split: option.splits mp4_slot.splits prod.splits)

lemma item_box_fst [simp]: "fst (item_box it) = fst it"
  by (simp add: item_box_def)

lemma group_item_silent:
  assumes "nested it" "it \<in> set (group_items key vals)"
  shows "atom_pictures mx (item_box it) = []" "atom_binaries mx (item_box it) = []"
proof -
  note k = group_items_kinds[OF assms(2)]
  show "atom_pictures mx (item_box it) = []" using k(1) by (simp add: atom_pictures_def)
  show "atom_binaries mx (item_box it) = []"
  proof (cases "fst it = as_bytes ''----''")
    case True
    then obtain mean name where it: "it = freeform_item mean name (map text_item vals)" using k(2) by blast
    have "data_bodies (snd (item_box it)) = map snd (map text_item vals)"
      unfolding it by (rule freeform_item_bodies[OF assms(1)[unfolded it] text_items_data])
    thus ?thesis by (simp add: atom_binaries_def text_item_no_binary split: option.split)
  qed (simp add: atom_binaries_def)
qed

lemma opaque_item_value:
  assumes "nested (opaque_item v bt)" "parse_freeform_key (bt_key bt) \<noteq> None" "utf8_valid (as_bytes (bt_key bt))"
    "length (env_tag v (bt_payload_id bt)) = bt_len bt"
  shows "atom_pictures mx (item_box (opaque_item v bt)) = []"
    "atom_binaries mx (item_box (opaque_item v bt)) =
       (if bt_len bt \<le> mx then [\<lparr> ebt_key = bt_key bt, ebt_payload = env_tag v (bt_payload_id bt) \<rparr>] else [])"
proof -
  note r = opaque_item_reads[OF assms(1-3)]
  show "atom_pictures mx (item_box (opaque_item v bt)) = []" using r(1) kinds_differ by (simp add: atom_pictures_def)
  obtain name where n: "freeform_name (snd (item_box (opaque_item v bt))) = Some name" using r(3) by auto
  have l: "length (snd (data_item 0 (env_tag v (bt_payload_id bt)))) - 8 = bt_len bt"
    using assms(4) by (simp add: data_item_def)
  show "atom_binaries mx (item_box (opaque_item v bt)) =
      (if bt_len bt \<le> mx then [\<lparr> ebt_key = bt_key bt, ebt_payload = env_tag v (bt_payload_id bt) \<rparr>] else [])"
    using r n l by (simp add: atom_binaries_def binary_body_def data_item_bodies)
qed

lemma cover_body:
  "length (env_art v (ai_art_id a)) = ai_data_len a \<Longrightarrow>
   fst (picture_body mx (snd (cover_item v a))) = cover_pictures v mx [a]"
proof -
  assume l: "length (env_art v (ai_art_id a)) = ai_data_len a"
  have "length (snd (data_item c (env_art v (ai_art_id a)))) - 8 = ai_data_len a" for c
    using l by (simp add: data_item_def)
  thus ?thesis by (simp add: picture_body_def cover_item_def data_item_bodies cover_pictures_def Let_def)
qed

lemma cover_pictures_concat: "cover_pictures v mx arts = concat (map (\<lambda>a. cover_pictures v mx [a]) arts)"
  by (induction arts) (simp_all add: cover_pictures_def)

lemma opaque_values_concat:
  "opaque_values v mx bts =
   concat (map (\<lambda>bt. if bt_len bt \<le> mx then [\<lparr> ebt_key = bt_key bt, ebt_payload = env_tag v (bt_payload_id bt) \<rparr>] else [])
     (filter (\<lambda>bt. parse_freeform_key (bt_key bt) \<noteq> None) bts))"
  by (induction bts) (simp_all add: opaque_values_def)

lemma item_list_streamed:
  assumes "\<forall>x\<in>set (ilst_items v tags bts arts). nested x"
    "\<forall>bt\<in>set bts. utf8_valid (as_bytes (bt_key bt))" "blobs_present v bts arts"
  shows "concat (map (atom_pictures mx) (map item_box (ilst_items v tags bts arts))) = cover_pictures v mx arts"
    "concat (map (atom_binaries mx) (map item_box (ilst_items v tags bts arts))) = opaque_values v mx bts"
proof -
  have n: "\<forall>x\<in>set (text_items tags). nested x" "\<forall>x\<in>set (binary_items v bts). nested x" "\<forall>x\<in>set (cover_items v arts). nested x"
    using assms(1) by (auto simp: ilst_items_def)
  have l: "\<forall>bt\<in>set bts. length (env_tag v (bt_payload_id bt)) = bt_len bt" "\<forall>a\<in>set arts. length (env_art v (ai_art_id a)) = ai_data_len a"
    using assms(3) by (simp_all add: blobs_present_def list_all_iff)
  have t: "\<forall>it\<in>set (text_items tags). atom_pictures mx (item_box it) = [] \<and> atom_binaries mx (item_box it) = []"
    using n(1) group_item_silent by (fastforce simp: text_items_def)
  have b: "\<forall>bt\<in>set (filter (\<lambda>bt. parse_freeform_key (bt_key bt) \<noteq> None) bts).
      atom_pictures mx (item_box (opaque_item v bt)) = [] \<and>
      atom_binaries mx (item_box (opaque_item v bt)) =
        (if bt_len bt \<le> mx then [\<lparr> ebt_key = bt_key bt, ebt_payload = env_tag v (bt_payload_id bt) \<rparr>] else [])"
  proof
    fix bt assume m: "bt \<in> set (filter (\<lambda>bt. parse_freeform_key (bt_key bt) \<noteq> None) bts)"
    hence "nested (opaque_item v bt)" using n(2) by (auto simp: binary_items_map)
    thus "atom_pictures mx (item_box (opaque_item v bt)) = [] \<and> atom_binaries mx (item_box (opaque_item v bt)) =
        (if bt_len bt \<le> mx then [\<lparr> ebt_key = bt_key bt, ebt_payload = env_tag v (bt_payload_id bt) \<rparr>] else [])"
      using opaque_item_value[of v bt mx] m assms(2) l(1) by simp
  qed
  have c: "concat (map (atom_pictures mx) (map item_box (cover_items v arts))) = cover_pictures v mx arts"
  proof (cases "arts = []")
    case False
    note d = cover_items_read(2)[OF n(3) False]
    have "concat (map (\<lambda>a. fst (picture_body mx (snd (cover_item v a)))) arts) = cover_pictures v mx arts"
      unfolding cover_pictures_concat[of v mx arts] using l(2) cover_body by (intro arg_cong[where f = concat] map_cong) auto
    thus ?thesis using False by (simp add: cover_items_def atom_pictures_def d comp_def)
  qed (simp add: cover_items_def cover_pictures_def)
  have cb: "concat (map (atom_binaries mx) (map item_box (cover_items v arts))) = []"
    using kinds_differ by (simp add: cover_items_def atom_binaries_def)
  have bp: "concat (map (atom_pictures mx) (map item_box (binary_items v bts))) = []"
    using b by (simp add: binary_items_map concat_eq_Nil_conv)
  have bb: "concat (map (atom_binaries mx) (map item_box (binary_items v bts))) = opaque_values v mx bts"
    unfolding opaque_values_concat binary_items_map map_map comp_def
    using b by (intro arg_cong[where f = concat] map_cong) auto
  have tp: "concat (map (atom_pictures mx) (map item_box (text_items tags))) = []"
    "concat (map (atom_binaries mx) (map item_box (text_items tags))) = []"
    using t by (simp_all add: concat_eq_Nil_conv)
  show "concat (map (atom_pictures mx) (map item_box (ilst_items v tags bts arts))) = cover_pictures v mx arts"
    "concat (map (atom_binaries mx) (map item_box (ilst_items v tags bts arts))) = opaque_values v mx bts"
    unfolding ilst_items_def map_append concat_append c cb bp bb tp by simp_all
qed

end
