(* ===== verification/Mp4_Tiles.thy ===== *)
theory Mp4_Tiles
  imports Mp4_Boxes
begin

text \<open>
  Buffers that are tiled by boxes with explicit sizes: what such a buffer parses to, how tilings
  concatenate, and that they depend on the box headers only.
\<close>

unbundle bit_operations_syntax

definition moved :: "nat \<Rightarrow> box_ref \<Rightarrow> box_ref" where
  "moved n b = b\<lparr> bx_start := n + bx_start b \<rparr>"

lemma moved_simps [simp]:
  "bx_kind (moved n b) = bx_kind b" "bx_start (moved n b) = n + bx_start b" "bx_header_len (moved n b) = bx_header_len b"
  "bx_total_len (moved n b) = bx_total_len b" "box_end (moved n b) = n + box_end b" "payload_start (moved n b) = n + payload_start b"
  by (simp_all add: moved_def box_end_def payload_start_def)

definition explicit_at :: "bytes \<Rightarrow> nat \<Rightarrow> bool" where
  "explicit_at buf pos \<longleftrightarrow> be_val (slice buf pos 4) \<noteq> 0"

text \<open>A box header is read from its own bytes.\<close>

lemma read_box_cong:
  assumes r: "read_box a pos = Inr b" and h: "slice a' pos' (bx_header_len b) = slice a pos (bx_header_len b)"
    and e: "explicit_at a pos \<or> length a' - pos' = length a - pos"
    and l: "pos' + bx_total_len b \<le> length a'" "length a' \<le> u64_max"
  shows "read_box a' pos' = Inr (b\<lparr> bx_start := pos' \<rparr>)"
proof -
  let ?n = "be_val (slice a pos 4)"
  from r have p: "pos + 8 \<le> length a" and k: "bx_kind b = slice a (pos + 4) 4" and s: "bx_start b = pos"
    and big: "?n = 1 \<Longrightarrow> pos + 16 \<le> length a \<and> bx_header_len b = 16 \<and> bx_total_len b = be_val (slice a (pos + 8) 8)"
    and eof: "?n = 0 \<Longrightarrow> bx_header_len b = 8 \<and> bx_total_len b = length a - pos"
    and small: "?n \<noteq> 0 \<Longrightarrow> ?n \<noteq> 1 \<Longrightarrow> bx_header_len b = 8 \<and> bx_total_len b = ?n"
    and hl: "bx_header_len b \<le> bx_total_len b"
    by (auto simp: read_box_def rbind_eq_Inr read_u32_be_eq read_u64_be_eq get_slice_eq_Some checked_add64_def
        split: if_splits option.splits)
  have h8: "8 \<le> bx_header_len b" using big eof small by (cases "?n = 0"; cases "?n = 1") auto
  have sub: "slice a' (pos' + i) m = slice a (pos + i) m" if "i + m \<le> bx_header_len b" for i m
    using arg_cong[OF h, of "\<lambda>x. slice x i m"] unfolding slice_slice[OF that] .
  have s4: "slice a' pos' 4 = slice a pos 4" and s8: "slice a' (pos' + 4) 4 = slice a (pos + 4) 4"
    using sub[of 0 4] sub[of 4 4] h8 by simp_all
  have l8: "pos' + 8 \<le> length a'" using l(1) hl h8 by linarith
  have u: "read_u32_be a' pos' = Inr ?n" using l8 s4 by (simp add: read_u32_be_eq)
  have kk: "get_slice a' (pos' + 4) (pos' + 8) = Some (bx_kind b)" using l8 s8 k by (simp add: get_slice_eq_Some)
  have bd: "checked_add64 pos' (bx_total_len b) = Some (pos' + bx_total_len b)" using l by (simp add: checked_add64_def)
  have eb: "b\<lparr> bx_start := pos' \<rparr> = \<lparr> bx_kind = bx_kind b, bx_start = pos', bx_header_len = bx_header_len b, bx_total_len = bx_total_len b \<rparr>"
    by (cases b) simp
  have nb: "\<not> (bx_total_len b < bx_header_len b \<or> pos' + bx_total_len b > length a')" using hl l(1) by simp
  consider "?n = 1" | "?n = 0" | "?n \<noteq> 0" "?n \<noteq> 1" by blast
  thus ?thesis
  proof cases
    case 1
    hence "slice a' (pos' + 8) 8 = slice a (pos + 8) 8" using sub[of 8 8] big by simp
    moreover have "pos' + 16 \<le> length a'" using 1 big l(1) hl by linarith
    ultimately have "read_u64_be a' (pos' + 8) = Inr (bx_total_len b)" using big[OF 1] by (simp add: read_u64_be_eq)
    moreover have "16 = bx_header_len b" using 1 big by simp
    ultimately show ?thesis unfolding eb using 1 u kk bd nb by (simp add: read_box_def checked_add64_def del: de_Morgan_disj)
  next
    case 2
    hence "length a' - pos' = bx_total_len b" using e eof by (auto simp: explicit_at_def)
    thus ?thesis using 2 eof[OF 2] u kk bd hl l by (simp add: read_box_def checked_add64_def not_less eb)
  next
    case 3
    thus ?thesis using 3 small[OF 3] u kk bd hl l by (simp add: read_box_def checked_add64_def not_less eb)
  qed
qed

subsection \<open>Tilings\<close>

fun tiles :: "bytes \<Rightarrow> nat \<Rightarrow> box_ref list \<Rightarrow> bool" where
  "tiles a pos [] \<longleftrightarrow> pos = length a"
| "tiles a pos (b # bs) \<longleftrightarrow> read_box a pos = Inr b \<and> explicit_at a pos \<and> tiles a (box_end b) bs"

lemma tiles_prefix:
  assumes "tiles a pos bs" "length (a @ c) \<le> u64_max"
  shows "boxes_from (a @ c) pos = rbind (boxes_from (a @ c) (length a)) (\<lambda>cs. Inr (bs @ cs))"
    "boxes_lenient_from (a @ c) pos = bs @ boxes_lenient_from (a @ c) (length a)"
proof -
  have "boxes_from (a @ c) pos = rbind (boxes_from (a @ c) (length a)) (\<lambda>cs. Inr (bs @ cs)) \<and>
    boxes_lenient_from (a @ c) pos = bs @ boxes_lenient_from (a @ c) (length a)"
    using assms(1)
  proof (induction bs arbitrary: pos)
    case Nil
    thus ?case by (cases "boxes_from (a @ c) (length a)") simp_all
  next
    case (Cons b bs)
    hence r: "read_box a pos = Inr b" and e: "explicit_at a pos" and t: "tiles a (box_end b) bs" by simp_all
    note rb = read_box_bounds[OF r]
    have "read_box (a @ c) pos = Inr (b\<lparr> bx_start := pos \<rparr>)"
      using rb e assms(2) by (intro read_box_cong[OF r]) (auto simp: slice_append1 box_end_def)
    hence r': "read_box (a @ c) pos = Inr b" using rb(1) by simp
    have "\<not> pos + 8 > length (a @ c)" using box_end_bounds[OF r] by simp
    thus ?case using Cons.IH[OF t]
      by (subst (1) boxes_from.simps, subst (1) boxes_lenient_from.simps)
        (cases "boxes_from (a @ c) (length a)"; simp add: r' del: length_append)
  qed
  thus "boxes_from (a @ c) pos = rbind (boxes_from (a @ c) (length a)) (\<lambda>cs. Inr (bs @ cs))"
    "boxes_lenient_from (a @ c) pos = bs @ boxes_lenient_from (a @ c) (length a)" by simp_all
qed

lemma boxes_from_end: "length a < pos + 8 \<Longrightarrow> boxes_from a pos = Inr [] \<and> boxes_lenient_from a pos = []"
  by (simp add: boxes_from.simps boxes_lenient_from.simps)

lemma tiles_boxes:
  assumes "tiles a pos bs" "length a \<le> u64_max"
  shows "boxes_from a pos = Inr bs" "boxes_lenient_from a pos = bs"
  using tiles_prefix[of a pos bs "[]"] assms boxes_from_end[of a "length a"] by simp_all

lemma boxes_from_unique: "tiles a pos bs \<Longrightarrow> length a \<le> u64_max \<Longrightarrow> boxes_from a pos = Inr cs \<Longrightarrow> cs = bs"
  using tiles_boxes by simp

lemma tiles_append1:
  "tiles a pos bs \<Longrightarrow> length (a @ c) \<le> u64_max \<Longrightarrow> tiles (a @ c) (length a) cs \<Longrightarrow> tiles (a @ c) pos (bs @ cs)"
proof (induction bs arbitrary: pos)
  case (Cons b bs)
  hence r: "read_box a pos = Inr b" and e: "explicit_at a pos" and t: "tiles a (box_end b) bs" by simp_all
  note rb = read_box_bounds[OF r]
  have "read_box (a @ c) pos = Inr (b\<lparr> bx_start := pos \<rparr>)"
    using rb e Cons.prems(2) by (intro read_box_cong[OF r]) (auto simp: slice_append1 box_end_def)
  moreover have "explicit_at (a @ c) pos" using e box_end_bounds[OF r] by (simp add: explicit_at_def slice_append1)
  ultimately show ?case using Cons.IH[OF t Cons.prems(2,3)] rb(1) by simp
qed simp

lemma tiles_shift:
  "tiles c pos cs \<Longrightarrow> length (a @ c) \<le> u64_max \<Longrightarrow> tiles (a @ c) (length a + pos) (map (moved (length a)) cs)"
proof (induction cs arbitrary: pos)
  case (Cons b cs)
  hence r: "read_box c pos = Inr b" and e: "explicit_at c pos" and t: "tiles c (box_end b) cs" by simp_all
  note rb = read_box_bounds[OF r]
  have "read_box (a @ c) (length a + pos) = Inr (b\<lparr> bx_start := length a + pos \<rparr>)"
    using rb e Cons.prems(2) by (intro read_box_cong[OF r]) (auto simp: slice_append2 box_end_def)
  moreover have "b\<lparr> bx_start := length a + pos \<rparr> = moved (length a) b" using rb(1) by (simp add: moved_def)
  moreover have "explicit_at (a @ c) (length a + pos)" using e by (simp add: explicit_at_def slice_append2)
  ultimately show ?case using Cons.IH[OF t Cons.prems(2)] by simp
qed simp

lemma tiles_append:
  "tiles a 0 bs \<Longrightarrow> tiles c 0 cs \<Longrightarrow> length (a @ c) \<le> u64_max \<Longrightarrow> tiles (a @ c) 0 (bs @ map (moved (length a)) cs)"
  using tiles_shift[of c 0 cs a] by (intro tiles_append1) simp_all

text \<open>A tiling depends on the headers of its boxes only.\<close>

lemma tiles_headers:
  assumes "tiles a pos bs" "length a' = length a" "length a \<le> u64_max"
    "\<forall>b\<in>set bs. slice a' (bx_start b) (bx_header_len b) = slice a (bx_start b) (bx_header_len b)"
  shows "tiles a' pos bs"
  using assms(1,4)
proof (induction bs arbitrary: pos)
  case (Cons b bs)
  hence r: "read_box a pos = Inr b" and e: "explicit_at a pos" and t: "tiles a (box_end b) bs" by simp_all
  note rb = read_box_bounds[OF r]
  have h: "slice a' pos (bx_header_len b) = slice a pos (bx_header_len b)" using Cons.prems(2) rb(1) by simp
  have "read_box a' pos = Inr (b\<lparr> bx_start := pos \<rparr>)"
    using rb e assms(2,3) h by (intro read_box_cong[OF r]) (auto simp: box_end_def)
  moreover have "explicit_at a' pos"
  proof -
    have "slice (slice a' pos (bx_header_len b)) 0 4 = slice (slice a pos (bx_header_len b)) 0 4" using h by simp
    thus ?thesis using e rb(2) by (simp add: explicit_at_def slice_slice)
  qed
  ultimately show ?case using Cons.IH[OF t] Cons.prems(2) rb(1) by simp
qed (simp add: assms(2))

text \<open>A box cut out of a buffer tiles its own bytes.\<close>

lemma cut_box:
  assumes "read_box a pos = Inr b" "explicit_at a pos" "length a \<le> u64_max"
  shows "tiles (slice a pos (bx_total_len b)) 0 [b\<lparr> bx_start := 0 \<rparr>]"
proof -
  note rb = read_box_bounds[OF assms(1)]
  let ?c = "slice a pos (bx_total_len b)"
  have l: "length ?c = bx_total_len b" using rb(1,4) by (simp add: box_end_def)
  have h: "slice ?c 0 (bx_header_len b) = slice a pos (bx_header_len b)" using rb(3) by (simp add: slice_slice)
  have "read_box ?c 0 = Inr (b\<lparr> bx_start := 0 \<rparr>)"
    using assms rb l h by (intro read_box_cong[OF assms(1)]) (simp_all add: box_end_def)
  moreover have "explicit_at ?c 0" using assms(2) rb(2,3) by (simp add: explicit_at_def slice_slice)
  ultimately show ?thesis using l by (simp add: box_end_def)
qed

lemma tiles_box_str:
  assumes "box_ok b"
  shows "tiles (box_str b) 0 [\<lparr> bx_kind = fst b, bx_start = 0, bx_header_len = 8, bx_total_len = 8 + length (snd b) \<rparr>]"
proof -
  have l: "length (box_str b) = 8 + length (snd b)" using assms by (simp add: box_str_length box_ok_def)
  hence u: "length (box_str b) \<le> u64_max" using assms by (simp add: box_ok_def u32_max_def u64_max_def)
  have "read_box (box_str b) 0 = Inr \<lparr> bx_kind = fst b, bx_start = 0, bx_header_len = 8, bx_total_len = 8 + length (snd b) \<rparr>"
    using read_box_str(1)[of b "box_str b" "[]" "[]" 0] assms u by simp
  moreover have "be_val (slice (box_str b) 0 4) = 8 + length (snd b)"
    using assms be_val_single by (simp add: box_str_def slice_def box_ok_def)
  ultimately show ?thesis using l by (simp add: explicit_at_def box_end_def)
qed

lemma tiles_concat:
  "\<forall>x\<in>set xs. tiles (f x) 0 [g x] \<Longrightarrow> length (concat (map f xs)) \<le> u64_max \<Longrightarrow>
   \<exists>bs. tiles (concat (map f xs)) 0 bs \<and> map bx_kind bs = map (\<lambda>x. bx_kind (g x)) xs"
proof (induction xs)
  case (Cons x xs)
  then obtain bs where bs: "tiles (concat (map f xs)) 0 bs" "map bx_kind bs = map (\<lambda>x. bx_kind (g x)) xs" by auto
  have "tiles (f x @ concat (map f xs)) 0 ([g x] @ map (moved (length (f x))) bs)"
    using Cons.prems bs(1) by (intro tiles_append) simp_all
  moreover have "map bx_kind ([g x] @ map (moved (length (f x))) bs) = map (\<lambda>x. bx_kind (g x)) (x # xs)"
    using bs(2) by (simp add: comp_def)
  ultimately show ?case by (metis concat.simps(2) list.simps(9))
qed simp

end
