(* ===== verification/Mp4_Offsets.thy ===== *)
theory Mp4_Offsets
  imports Mp4_Tiles Mp4_Synth
begin

text \<open>
  Chunk-offset relocation: the tables lie inside the track boxes they were found in, so patching
  them moves every offset by the same amount and changes no other byte, in particular no box header.
\<close>

unbundle bit_operations_syntax

definition value_at :: "bytes \<Rightarrow> nat \<Rightarrow> nat \<Rightarrow> nat" where
  "value_at buf pos n = be_val (slice buf pos n)"

subsection \<open>Where a table lies\<close>

lemma boxes_from_in:
  "boxes_from buf pos = Inr bs \<Longrightarrow> b \<in> set bs \<Longrightarrow>
   pos \<le> bx_start b \<and> 8 \<le> bx_header_len b \<and> bx_header_len b \<le> bx_total_len b \<and> box_end b \<le> length buf"
proof (induction buf pos arbitrary: bs rule: boxes_from.induct)
  case (1 buf pos)
  show ?case
  proof (cases "pos + 8 > length buf")
    case True
    thus ?thesis using "1.prems" by (simp add: boxes_from_end)
  next
    case False
    with "1.prems"(1) obtain x xs where x: "read_box buf pos = Inr x" "boxes_from buf (box_end x) = Inr xs" "bs = x # xs"
      by (subst (asm) boxes_from.simps) (auto simp: rbind_eq_Inr split: sum.splits)
    note rb = read_box_bounds[OF x(1)]
    show ?thesis using "1.prems"(2) "1.IH"[OF False x(1) x(2)] rb x(3) by (auto simp: box_end_def)
  qed
qed

lemma boxes_from_ordered:
  "boxes_from buf pos = Inr bs \<Longrightarrow> sorted_wrt (\<lambda>b c. box_end b \<le> bx_start c) bs"
proof (induction buf pos arbitrary: bs rule: boxes_from.induct)
  case (1 buf pos)
  show ?case
  proof (cases "pos + 8 > length buf")
    case True
    thus ?thesis using "1.prems" by (simp add: boxes_from_end)
  next
    case False
    with "1.prems"(1) obtain x xs where x: "read_box buf pos = Inr x" "boxes_from buf (box_end x) = Inr xs" "bs = x # xs"
      by (subst (asm) boxes_from.simps) (auto simp: rbind_eq_Inr split: sum.splits)
    show ?thesis using "1.IH"[OF False x(1) x(2)] boxes_from_in[OF x(2)] x(3) by auto
  qed
qed

lemma find_path_from_in:
  assumes "find_path_from buf base lf path = Inr (Some (s, n))" "base \<le> length buf" "\<And>p. lf = Some p \<Longrightarrow> fst p + snd p \<le> length buf"
  shows "s + n \<le> length buf"
  using assms
proof (induction buf base lf path rule: find_path_from.induct)
  case (2 buf base lf kind path)
  from "2.prems"(1) obtain b where b: "find_box (drop base buf) kind = Inr (Some b)"
    "find_path_from buf (base + payload_start b) (Some (base + payload_start b, bx_total_len b - bx_header_len b)) path = Inr (Some (s, n))"
    by (auto simp: rbind_eq_Inr Let_def split: option.splits)
  then obtain bs where "boxes_from (drop base buf) 0 = Inr bs" "b \<in> set bs"
    by (auto simp: find_box_def child_boxes_def rbind_eq_Inr find_Some_iff)
  from boxes_from_in[OF this] have "base + payload_start b + (bx_total_len b - bx_header_len b) \<le> length buf"
    using "2.prems"(2) by (clarsimp simp: payload_start_def box_end_def) linarith
  thus ?case using "2.IH"[OF b(1) refl refl b(2)] by simp
qed auto

fun table_in :: "box_ref \<Rightarrow> nat \<times> nat \<times> nat \<Rightarrow> bool" where
  "table_in t (start, len, entry) \<longleftrightarrow>
     payload_start t \<le> start \<and> start + len \<le> box_end t \<and> (entry = 4 \<or> entry = 8)"

lemma chunk_table_in:
  assumes "chunk_table_of kept t = Inr x" "box_end t \<le> length kept" "bx_header_len t \<le> bx_total_len t"
  shows "table_in t x"
proof -
  let ?trak = "box_payload t kept"
  have l: "payload_start t + length ?trak \<le> box_end t" using assms(2,3) by (simp add: box_payload_def payload_start_def box_end_def)
  have b: "s + n \<le> length ?trak" if "find_path ?trak path = Inr (Some (s, n))" for path s n
    using find_path_from_in[OF that[unfolded find_path_def]] by simp
  from assms(1) obtain s n path where
    "find_path ?trak path = Inr (Some (s, n))" "x = (payload_start t + s, n, 4) \<or> x = (payload_start t + s, n, 8)"
    by (auto simp: chunk_table_of_def Let_def rbind_eq_Inr split: option.splits)
  from b[OF this(1)] this(2) l show ?thesis by auto
qed

lemma chunk_tables_in: "chunk_tables kept ts = Inr tables \<Longrightarrow>
   \<forall>t\<in>set ts. box_end t \<le> length kept \<and> bx_header_len t \<le> bx_total_len t \<Longrightarrow> list_all2 table_in ts tables"
  by (induction ts arbitrary: tables) (auto simp: rbind_eq_Inr intro: chunk_table_in)

definition before :: "nat \<times> nat \<times> nat \<Rightarrow> nat \<times> nat \<times> nat \<Rightarrow> bool" where
  "before x y \<longleftrightarrow> fst x + fst (snd x) \<le> fst y"

lemma tables_before:
  "list_all2 table_in ts tables \<Longrightarrow> sorted_wrt (\<lambda>b c. box_end b \<le> bx_start c) ts \<Longrightarrow> sorted_wrt before tables"
proof (induction ts tables rule: list_all2_induct)
  case (Cons t ts x tables)
  have "before x y" if y: "y \<in> set tables" for y
  proof -
    from y obtain i where i: "i < length tables" "tables ! i = y" by (auto simp: in_set_conv_nth)
    define u where "u = ts ! i"
    have u: "u \<in> set ts" "table_in u y"
      using list_all2_nthD2[OF Cons.hyps(2) i(1)] i list_all2_lengthD[OF Cons.hyps(2)] by (simp_all add: u_def)
    have "box_end t \<le> bx_start u" using Cons.prems u(1) by simp
    thus ?thesis using Cons.hyps(1) u(2) by (cases x; cases y) (auto simp: before_def payload_start_def)
  qed
  thus ?case using Cons by simp
qed simp

subsection \<open>Patching one table\<close>

definition same_outside :: "bytes \<Rightarrow> bytes \<Rightarrow> nat \<Rightarrow> nat \<Rightarrow> bool" where
  "same_outside a a' lo hi \<longleftrightarrow> length a' = length a \<and> (\<forall>i<length a. i < lo \<or> hi \<le> i \<longrightarrow> a' ! i = a ! i)"

lemma same_outside_slice:
  "same_outside a a' lo hi \<Longrightarrow> pos + n \<le> lo \<or> hi \<le> pos \<Longrightarrow> slice a' pos n = slice a pos n"
  unfolding same_outside_def by (rule nth_equalityI) (auto simp: slice_nth)

lemma patch_at_outside: "pos + length w \<le> length a \<Longrightarrow> same_outside a (patch_at a pos w) pos (pos + length w)"
  by (auto simp: same_outside_def patch_at_def nth_append)

lemma patch_at_value: "pos + length w \<le> length a \<Longrightarrow> slice (patch_at a pos w) pos (length w) = w"
  by (simp add: slice_def patch_at_def)

lemma same_outside_mono: "same_outside a b lo hi \<Longrightarrow> lo' \<le> lo \<Longrightarrow> hi \<le> hi' \<Longrightarrow> same_outside a b lo' hi'"
  by (auto simp: same_outside_def)

lemma same_outside_trans: "same_outside a b lo hi \<Longrightarrow> same_outside b c lo hi \<Longrightarrow> same_outside a c lo hi"
  by (auto simp: same_outside_def)

lemma moved_offset_val:
  "moved_offset entry delta v = Inr w \<Longrightarrow> entry = 4 \<or> entry = 8 \<Longrightarrow> int w = int v + delta \<and> w < 256 ^ entry"
  by (auto simp: moved_offset_def Let_def u32_max_def u64_max_def split: if_splits)

definition entry_moved :: "bytes \<Rightarrow> bytes \<Rightarrow> int \<Rightarrow> nat \<Rightarrow> nat \<Rightarrow> bool" where
  "entry_moved a a' delta pos n \<longleftrightarrow> int (value_at a' pos n) = int (value_at a pos n) + delta"

lemma patch_entries_spec:
  assumes "patch_entries kept start len entry delta i count = Inr kept'" "entry = 4 \<or> entry = 8" "start + len \<le> length kept"
  shows "same_outside kept kept' (start + 8 + i * entry) (start + 8 + count * entry) \<and>
    (\<forall>j. i \<le> j \<and> j < count \<longrightarrow> start + 8 + j * entry + entry \<le> start + len \<and>
       entry_moved kept kept' delta (start + 8 + j * entry) entry)"
  using assms
proof (induction kept start len entry delta i count rule: patch_entries.induct)
  case (1 kept start len entry delta i count)
  show ?case
  proof (cases "i \<ge> count")
    case True
    thus ?thesis using "1.prems"(1) by (auto simp: patch_entries.simps same_outside_def)
  next
    case False
    let ?pos = "start + 8 + i * entry"
    have e: "\<not> ?pos + entry > start + len" using False "1.prems"(1) by (auto simp: patch_entries.simps Let_def)
    from False "1.prems"(1) e obtain v w where r: "(if entry = 4 then read_u32_be kept ?pos else read_u64_be kept ?pos) = Inr v"
      "moved_offset entry delta v = Inr w"
      "patch_entries (patch_at kept ?pos (be_bytes entry w)) start len entry delta (i + 1) count = Inr kept'"
      using patch_entries.simps[of kept start len entry delta i count] by (simp add: Let_def rbind_eq_Inr) blast
    let ?k = "patch_at kept ?pos (be_bytes entry w)"
    have fit: "?pos + length (be_bytes entry w) \<le> length kept" using e "1.prems"(3) by simp
    have v: "v = value_at kept ?pos entry" using r(1) "1.prems"(2) by (auto simp: value_at_def read_u32_be_eq read_u64_be_eq split: if_splits)
    have w: "int w = int v + delta" "w < 256 ^ entry" using moved_offset_val[OF r(2) "1.prems"(2)] by auto
    have lk: "length ?k = length kept" by (rule patch_at_length[OF fit])
    have so: "same_outside kept ?k ?pos (?pos + entry)" using patch_at_outside[OF fit] by simp
    have lk': "start + len \<le> length ?k" using "1.prems"(3) unfolding lk .
    note ih = conjunct1[OF "1.IH"[OF False refl e r(1,2,3) "1.prems"(2) lk']] conjunct2[OF "1.IH"[OF False refl e r(1,2,3) "1.prems"(2) lk']]
    have "(i + 1) * entry \<le> count * entry" using False by (intro mult_le_mono1) simp
    hence en: "?pos + entry \<le> start + 8 + count * entry" by simp
    have a1: "same_outside kept ?k ?pos (start + 8 + count * entry)" using same_outside_mono[OF so order_refl en] .
    have a2: "same_outside ?k kept' ?pos (start + 8 + count * entry)"
      using same_outside_mono[OF ih(1), of ?pos "start + 8 + count * entry"] by simp
    have all: "same_outside kept kept' ?pos (start + 8 + count * entry)" by (rule same_outside_trans[OF a1 a2])
    have here: "entry_moved kept kept' delta ?pos entry"
    proof -
      have "slice kept' ?pos entry = slice ?k ?pos entry" by (rule same_outside_slice[OF ih(1)]) simp
      also have "\<dots> = be_bytes entry w" using patch_at_value[OF fit] by simp
      finally show ?thesis using w v by (simp add: entry_moved_def value_at_def be_val_be_bytes)
    qed
    have later: "entry_moved kept kept' delta (start + 8 + j * entry) entry" if j: "i + 1 \<le> j" "j < count" for j
    proof -
      have "(i + 1) * entry \<le> j * entry" by (rule mult_le_mono1[OF j(1)])
      hence "slice ?k (start + 8 + j * entry) entry = slice kept (start + 8 + j * entry) entry"
        by (intro same_outside_slice[OF so]) simp
      thus ?thesis using ih(2) j by (simp add: entry_moved_def value_at_def)
    qed
    show ?thesis
    proof (intro conjI allI impI)
      fix j assume j: "i \<le> j \<and> j < count"
      show "start + 8 + j * entry + entry \<le> start + len" using j e ih(2) by (cases "j = i") (auto simp: not_less)
      show "entry_moved kept kept' delta (start + 8 + j * entry) entry" using j here later by (cases "j = i") auto
    qed (rule all)
  qed
qed

subsection \<open>Patching them all\<close>

text \<open>The entries of a table moved, read off the bytes before and after.\<close>

fun relocated :: "bytes \<Rightarrow> bytes \<Rightarrow> int \<Rightarrow> nat \<times> nat \<times> nat \<Rightarrow> bool" where
  "relocated a a' delta (start, len, entry) \<longleftrightarrow>
     (\<forall>j<value_at a (start + 4) 4. start + 8 + j * entry + entry \<le> start + len \<and>
        entry_moved a a' delta (start + 8 + j * entry) entry)"

fun in_table :: "nat \<Rightarrow> nat \<times> nat \<times> nat \<Rightarrow> bool" where
  "in_table i (start, len, entry) \<longleftrightarrow> start + 8 \<le> i \<and> i < start + len"

text \<open>The bytes of the entries a table counts, without what its box holds behind them.\<close>

fun in_entries :: "bytes \<Rightarrow> nat \<Rightarrow> nat \<times> nat \<times> nat \<Rightarrow> bool" where
  "in_entries a i (start, len, entry) \<longleftrightarrow> start + 8 \<le> i \<and> i < start + 8 + value_at a (start + 4) 4 * entry"

lemma last_entry_end: "(n :: nat) \<noteq> 0 \<Longrightarrow> (n - 1) * e + e = n * e"
  by (cases n) simp_all

lemma entries_in_table:
  assumes "relocated a a' delta t" "in_entries a i t"
  shows "in_table i t"
proof -
  obtain start len entry where t: "t = (start, len, entry)" by (cases t)
  define n where "n = value_at a (start + 4) 4"
  have i: "start + 8 \<le> i" "i < start + 8 + n * entry" using assms(2) by (simp_all add: t n_def)
  hence n: "n \<noteq> 0" by (cases n) simp_all
  have "start + 8 + (n - 1) * entry + entry \<le> start + len" using assms(1) n unfolding t relocated.simps n_def by simp
  thus ?thesis using i last_entry_end[OF n, of entry] by (simp add: t)
qed

definition apart :: "bytes \<Rightarrow> bytes \<Rightarrow> (nat \<times> nat \<times> nat) list \<Rightarrow> bool" where
  "apart a a' tables \<longleftrightarrow> length a' = length a \<and> (\<forall>i<length a. (\<forall>t\<in>set tables. \<not> in_table i t) \<longrightarrow> a' ! i = a ! i)"

lemma apart_slice:
  assumes "apart a a' tables" "\<forall>t\<in>set tables. pos + n \<le> fst t + 8 \<or> fst t + fst (snd t) \<le> pos"
  shows "slice a' pos n = slice a pos n"
proof (rule nth_equalityI)
  show "length (slice a' pos n) = length (slice a pos n)" using assms(1) by (simp add: apart_def)
  fix i assume i: "i < length (slice a' pos n)"
  hence "pos + i < length a" "i < n" using assms(1) by (auto simp: apart_def)
  moreover have "\<forall>t\<in>set tables. \<not> in_table (pos + i) t"
    using assms(2) \<open>i < n\<close> by (fastforce simp: in_table.simps)
  ultimately show "slice a' pos n ! i = slice a pos n ! i" using assms(1) by (simp add: apart_def slice_nth)
qed

lemma patch_tables_spec:
  assumes "patch_tables kept delta tables = Inr kept'" "sorted_wrt before tables"
    "\<forall>t\<in>set tables. fst t + fst (snd t) \<le> length kept \<and> (snd (snd t) = 4 \<or> snd (snd t) = 8)"
  shows "(\<forall>i<length kept. (\<forall>t\<in>set tables. \<not> in_entries kept i t) \<longrightarrow> kept' ! i = kept ! i) \<and>
    apart kept kept' tables \<and> (\<forall>t\<in>set tables. relocated kept kept' delta t \<and> fst t + 8 \<le> length kept)"
  using assms
proof (induction tables arbitrary: kept)
  case Nil
  thus ?case by (simp add: apart_def)
next
  case (Cons t tables)
  obtain start len entry where t: "t = (start, len, entry)" by (cases t)
  from Cons.prems(1) obtain count k where r: "read_u32_be kept (start + 4) = Inr count"
    "patch_entries kept start len entry delta 0 count = Inr k" "patch_tables k delta tables = Inr kept'"
    by (auto simp: t rbind_eq_Inr)
  have e: "entry = 4 \<or> entry = 8" and fit: "start + len \<le> length kept" using Cons.prems(3) t by simp_all
  have count: "count = value_at kept (start + 4) 4" using r(1) by (simp add: value_at_def read_u32_be_eq add.commute split: if_splits)
  note pe = patch_entries_spec[OF r(2) e fit]
  have so0: "same_outside kept k (start + 8) (start + 8 + count * entry)" and mv: "\<forall>j<count. start + 8 + j * entry + entry \<le> start + len \<and>
      entry_moved kept k delta (start + 8 + j * entry) entry" using pe by simp_all
  have here: "relocated kept k delta t" using mv count t by simp
  have "i < start + 8 \<or> start + 8 + count * entry \<le> i" if "i < start + 8 \<or> start + len \<le> i" for i
    using entries_in_table[OF here, of i] count t that by (cases "i < start + 8"; cases "i < start + 8 + count * entry") (simp_all add: not_less)
  hence so: "same_outside kept k (start + 8) (start + len)" using so0 unfolding same_outside_def by blast
  have lk: "length k = length kept" using so by (simp add: same_outside_def)
  have ih: "\<forall>i<length k. (\<forall>t\<in>set tables. \<not> in_entries k i t) \<longrightarrow> kept' ! i = k ! i"
      "apart k kept' tables" "\<forall>t\<in>set tables. relocated k kept' delta t \<and> fst t + 8 \<le> length kept"
    using Cons.IH[OF r(3)] Cons.prems(2,3) lk by simp_all
  have bf: "start + len \<le> fst u" if "u \<in> set tables" for u using Cons.prems(2) that t by (auto simp: before_def)
  have ap: "apart kept kept' (t # tables)"
    using so ih(2) t by (auto simp: apart_def same_outside_def)
  have ent: "kept' ! i = kept ! i" if i: "i < length kept" "\<forall>u\<in>set (t # tables). \<not> in_entries kept i u" for i
  proof -
    have "value_at k (fst u + 4) 4 = value_at kept (fst u + 4) 4" if "u \<in> set tables" for u
      unfolding value_at_def using bf[OF that] by (intro arg_cong[of _ _ be_val] same_outside_slice[OF so]) simp
    hence "\<not> in_entries k i u" if "u \<in> set tables" for u using i(2) that by (cases u) auto
    hence "kept' ! i = k ! i" using ih(1) i(1) lk by simp
    moreover have "k ! i = kept ! i" using so0 i count t by (auto simp: same_outside_def not_le not_less)
    ultimately show ?thesis by simp
  qed
  have head: "relocated kept kept' delta t"
  proof -
    have "slice kept' (start + 8 + j * entry) entry = slice k (start + 8 + j * entry) entry" if "j < count" for j
      using mv that bf by (intro apart_slice[OF ih(2)]) fastforce
    thus ?thesis using mv count t by (simp add: entry_moved_def value_at_def)
  qed
  have tail: "relocated kept kept' delta u" if u: "u \<in> set tables" for u
  proof -
    obtain s n m where us: "u = (s, n, m)" by (cases u)
    have same: "slice k p q = slice kept p q" if "s \<le> p" for p q
      using bf[OF u] us that by (intro same_outside_slice[OF so]) simp
    show ?thesis using ih(3) u us same by (fastforce simp: entry_moved_def value_at_def)
  qed
  have "start + 8 \<le> length kept" using r(1) by (simp add: read_u32_be_eq split: if_splits)
  thus ?case using ap ent head tail ih(3) t by simp
qed

lemma chunk_tables_lie:
  assumes "child_boxes kept = Inr bs" "chunk_tables kept (filter (\<lambda>b. bx_kind b = as_bytes ''trak'') bs) = Inr tables"
  shows "list_all2 table_in (filter (\<lambda>b. bx_kind b = as_bytes ''trak'') bs) tables" "sorted_wrt before tables"
    "\<forall>t\<in>set tables. fst t + fst (snd t) \<le> length kept \<and> (snd (snd t) = 4 \<or> snd (snd t) = 8)"
proof -
  let ?ts = "filter (\<lambda>b. bx_kind b = as_bytes ''trak'') bs"
  have b: "\<forall>t\<in>set ?ts. box_end t \<le> length kept \<and> bx_header_len t \<le> bx_total_len t"
    using boxes_from_in[OF assms(1)[unfolded child_boxes_def]] by auto
  show ti: "list_all2 table_in ?ts tables" by (rule chunk_tables_in[OF assms(2) b])
  show "sorted_wrt before tables"
    using tables_before[OF ti sorted_wrt_filter[OF boxes_from_ordered[OF assms(1)[unfolded child_boxes_def]]]] .
  show "\<forall>t\<in>set tables. fst t + fst (snd t) \<le> length kept \<and> (snd (snd t) = 4 \<or> snd (snd t) = 8)"
  proof
    fix x assume "x \<in> set tables"
    then obtain i where i: "i < length tables" "tables ! i = x" by (auto simp: in_set_conv_nth)
    have "table_in (?ts ! i) x" using list_all2_nthD2[OF ti i(1)] i(2) by simp
    moreover have "?ts ! i \<in> set ?ts" using i(1) list_all2_lengthD[OF ti] by (intro nth_mem) simp
    ultimately show "fst x + fst (snd x) \<le> length kept \<and> (snd (snd x) = 4 \<or> snd (snd x) = 8)" using b by (cases x) fastforce
  qed
qed

lemma patch_chunk_offsets_spec:
  assumes "patch_chunk_offsets kept delta = Inr kept'"
  obtains bs tables where "child_boxes kept = Inr bs"
    "chunk_tables kept (filter (\<lambda>b. bx_kind b = as_bytes ''trak'') bs) = Inr tables" "tables \<noteq> []"
    "list_all2 table_in (filter (\<lambda>b. bx_kind b = as_bytes ''trak'') bs) tables"
    "apart kept kept' tables" "\<forall>t\<in>set tables. relocated kept kept' delta t \<and> fst t + 8 \<le> length kept"
    "\<forall>i<length kept. (\<forall>t\<in>set tables. \<not> in_entries kept i t) \<longrightarrow> kept' ! i = kept ! i"
proof -
  let ?ts = "\<lambda>bs. filter (\<lambda>b. bx_kind b = as_bytes ''trak'') bs"
  from assms obtain bs tables where s: "child_boxes kept = Inr bs" "chunk_tables kept (?ts bs) = Inr tables" "tables \<noteq> []"
    "patch_tables kept delta tables = Inr kept'" by (auto simp: patch_chunk_offsets_def rbind_eq_Inr split: if_splits)
  note lie = chunk_tables_lie[OF s(1,2)]
  from patch_tables_spec[OF s(4) lie(2,3)] show thesis using that s lie(1) by blast
qed

subsection \<open>When patching succeeds, and what it gives\<close>

definition entry_fits :: "bytes \<Rightarrow> int \<Rightarrow> nat \<Rightarrow> nat \<Rightarrow> bool" where
  "entry_fits a delta pos n \<longleftrightarrow> 0 \<le> int (value_at a pos n) + delta \<and> int (value_at a pos n) + delta < 256 ^ n"

text \<open>The count can be read, the entries it counts lie in the box, and each stays in its width.\<close>

fun relocatable :: "bytes \<Rightarrow> int \<Rightarrow> nat \<times> nat \<times> nat \<Rightarrow> bool" where
  "relocatable a delta (start, len, entry) \<longleftrightarrow> start + 8 \<le> length a \<and>
     (\<forall>j<value_at a (start + 4) 4. start + 8 + j * entry + entry \<le> start + len \<and>
        entry_fits a delta (start + 8 + j * entry) entry)"

lemma patch_entries_defined:
  assumes "entry = 4 \<or> entry = 8" "start + len \<le> length kept"
    "\<And>j. i \<le> j \<Longrightarrow> j < count \<Longrightarrow> start + 8 + j * entry + entry \<le> start + len \<and> entry_fits kept delta (start + 8 + j * entry) entry"
  shows "\<exists>kept'. patch_entries kept start len entry delta i count = Inr kept'"
  using assms
proof (induction "count - i" arbitrary: kept i)
  case 0
  thus ?case by (simp add: patch_entries.simps)
next
  case (Suc n)
  let ?pos = "start + 8 + i * entry"
  have i: "i < count" using Suc.hyps(2) by simp
  note here = Suc.prems(3) [OF order_refl i]
  define v where "v = value_at kept ?pos entry"
  have r: "(if entry = 4 then read_u32_be kept ?pos else read_u64_be kept ?pos) = Inr v"
    using here Suc.prems(1,2) by (auto simp: v_def value_at_def read_u32_be_eq read_u64_be_eq)
  have m: "moved_offset entry delta v = Inr (nat (int v + delta))"
    using here Suc.prems(1) by (auto simp: moved_offset_def Let_def entry_fits_def v_def[symmetric] u32_max_def u64_max_def)
  let ?k = "patch_at kept ?pos (be_bytes entry (nat (int v + delta)))"
  have fit: "?pos + length (be_bytes entry (nat (int v + delta))) \<le> length kept" using here Suc.prems(2) by simp
  have so: "same_outside kept ?k ?pos (?pos + entry)" using patch_at_outside[OF fit] by simp
  have "start + 8 + j * entry + entry \<le> start + len \<and> entry_fits ?k delta (start + 8 + j * entry) entry" if j: "i + 1 \<le> j" "j < count" for j
  proof -
    have "(i + 1) * entry \<le> j * entry" by (rule mult_le_mono1[OF j(1)])
    hence "slice ?k (start + 8 + j * entry) entry = slice kept (start + 8 + j * entry) entry"
      by (intro same_outside_slice[OF so]) simp
    thus ?thesis using Suc.prems(3)[of j] j by (simp add: entry_fits_def value_at_def)
  qed
  hence "\<exists>kept'. patch_entries ?k start len entry delta (i + 1) count = Inr kept'"
    using Suc.hyps(2) Suc.prems(1,2) so by (intro Suc.hyps(1)) (auto simp: same_outside_def)
  thus ?case using i here r m by (subst patch_entries.simps) (simp add: Let_def)
qed

lemma relocatable_later:
  assumes "relocatable a delta (start, len, entry)" "same_outside a b lo hi" "hi \<le> start"
  shows "relocatable b delta (start, len, entry)"
proof -
  have "value_at b p n = value_at a p n" if "start \<le> p" for p n
    unfolding value_at_def using that assms(3) by (intro arg_cong[of _ _ be_val] same_outside_slice[OF assms(2)]) simp
  thus ?thesis using assms(1,2) by (simp add: entry_fits_def same_outside_def)
qed

lemma patch_tables_defined:
  assumes "sorted_wrt before tables" "\<forall>t\<in>set tables. fst t + fst (snd t) \<le> length kept \<and> (snd (snd t) = 4 \<or> snd (snd t) = 8)"
    "\<forall>t\<in>set tables. relocatable kept delta t"
  shows "\<exists>kept'. patch_tables kept delta tables = Inr kept'"
  using assms
proof (induction tables arbitrary: kept)
  case (Cons t tables)
  obtain start len entry where t: "t = (start, len, entry)" by (cases t)
  define count where "count = value_at kept (start + 4) 4"
  have e: "entry = 4 \<or> entry = 8" and fit: "start + len \<le> length kept" and rt: "relocatable kept delta (start, len, entry)"
    using Cons.prems(2,3) t by simp_all
  have rd: "read_u32_be kept (start + 4) = Inr count" using rt by (simp add: read_u32_be_eq count_def value_at_def)
  obtain k where k: "patch_entries kept start len entry delta 0 count = Inr k"
    using patch_entries_defined[OF e fit, of 0 count delta] rt by (auto simp: count_def[symmetric])
  have fits: "start + 8 + count * entry \<le> start + len" if "count \<noteq> 0"
  proof -
    have "start + 8 + (count - 1) * entry + entry \<le> start + len" using rt that by (simp add: count_def[symmetric])
    thus ?thesis using last_entry_end[OF that, of entry] by simp
  qed
  have so: "same_outside kept k (start + 8) (start + len)"
  proof (cases "count = 0")
    case True
    thus ?thesis using k by (simp add: patch_entries.simps same_outside_def)
  next
    case False
    show ?thesis using fits[OF False] by (intro same_outside_mono[OF conjunct1[OF patch_entries_spec[OF k e fit]]]) simp_all
  qed
  have "relocatable k delta u" if u: "u \<in> set tables" for u
  proof -
    obtain s n m where us: "u = (s, n, m)" by (cases u)
    have "start + len \<le> s" using Cons.prems(1) u t us by (auto simp: before_def)
    thus ?thesis unfolding us using Cons.prems(3) u us by (intro relocatable_later[OF _ so]) auto
  qed
  moreover have "length k = length kept" using so by (simp add: same_outside_def)
  ultimately obtain kept' where "patch_tables k delta tables = Inr kept'" using Cons.IH[of k] Cons.prems(1,2) by auto
  thus ?case by (simp add: t rd k)
qed simp

lemma value_bound: "value_at a pos n < 256 ^ n"
  using be_val_bound[of "slice a pos n"] power_increasing[of "length (slice a pos n)" n "256 :: nat"]
  by (simp add: value_at_def slice_def order_less_le_trans)

lemma moved_fits: "entry_moved a a' delta p n \<Longrightarrow> entry_fits a delta p n"
proof -
  have "int (value_at a' p n) < int (256 ^ n)" unfolding of_nat_less_iff by (rule value_bound)
  thus "entry_moved a a' delta p n \<Longrightarrow> entry_fits a delta p n"
    unfolding entry_moved_def entry_fits_def by (metis of_nat_0_le_iff of_nat_numeral of_nat_power)
qed

lemma relocated_relocatable:
  "relocated a a' delta (start, len, entry) \<Longrightarrow> start + 8 \<le> length a \<Longrightarrow> relocatable a delta (start, len, entry)"
  by (auto intro: moved_fits)

text \<open>Two results that agree outside the entries and on the entries are the same.\<close>

lemma relocated_unique:
  assumes l: "length b = length a" "length c = length a"
    and out: "\<forall>i<length a. (\<forall>t\<in>set tables. \<not> in_entries a i t) \<longrightarrow> b ! i = a ! i"
      "\<forall>i<length a. (\<forall>t\<in>set tables. \<not> in_entries a i t) \<longrightarrow> c ! i = a ! i"
    and t: "\<forall>t\<in>set tables. relocated a b delta t" "\<forall>t\<in>set tables. relocated a c delta t"
      "\<forall>t\<in>set tables. fst t + fst (snd t) \<le> length a \<and> (snd (snd t) = 4 \<or> snd (snd t) = 8)"
  shows "b = c"
proof (rule nth_equalityI)
  fix i assume i: "i < length b"
  show "b ! i = c ! i"
  proof (cases "\<exists>u\<in>set tables. in_entries a i u")
    case True
    then obtain s n e where u: "(s, n, e) \<in> set tables" "in_entries a i (s, n, e)" by (metis prod_cases3)
    define j where "j = (i - (s + 8)) div e"
    have e: "0 < e" "s + n \<le> length a" using t(3) u(1) by fastforce+
    have j: "j < value_at a (s + 4) 4" unfolding j_def using u(2) by (intro less_mult_imp_div_less) (simp add: less_diff_conv2 add.commute)
    define p where "p = s + 8 + j * e"
    have "s + 8 \<le> i" using u(2) by simp
    hence p: "p \<le> i" "i < p + e"
      using div_mult_mod_eq[of "i - (s + 8)" e] mod_less_divisor[OF e(1), of "i - (s + 8)"]
      unfolding p_def j_def by linarith+
    have m: "entry_moved a b delta p e" "entry_moved a c delta p e" "p + e \<le> s + n" using t(1,2) u(1) j by (fastforce simp: p_def)+
    have "length (slice b p e) = e" "length (slice c p e) = e" using m(3) e(2) l by simp_all
    moreover have "be_val (slice b p e) = be_val (slice c p e)" using m(1,2) by (simp add: entry_moved_def value_at_def)
    ultimately have "slice b p e = slice c p e" by (metis be_bytes_be_val)
    hence "slice b p e ! (i - p) = slice c p e ! (i - p)" by simp
    thus ?thesis using p m(3) e(2) l by (simp add: slice_nth)
  next
    case False
    thus ?thesis using i l out by auto
  qed
qed (simp add: l)

text \<open>C35: relocating the chunk offsets succeeds exactly when there is a track and every track's table can
  be found, has its counted entries inside its box, and keeps each entry plus the difference within
  the entry's width; the result then is the kept boxes with every counted entry moved by exactly the
  difference and every other byte, what lies behind the counted entries in the box included, as before.\<close>

theorem mp4_chunk_offsets_moved:
  "patch_chunk_offsets kept delta = Inr kept' \<longleftrightarrow>
    (\<exists>bs tables. child_boxes kept = Inr bs \<and>
      chunk_tables kept (filter (\<lambda>b. bx_kind b = as_bytes ''trak'') bs) = Inr tables \<and> tables \<noteq> [] \<and>
      list_all2 table_in (filter (\<lambda>b. bx_kind b = as_bytes ''trak'') bs) tables \<and>
      (\<forall>t\<in>set tables. relocatable kept delta t \<and> relocated kept kept' delta t) \<and>
      length kept' = length kept \<and>
      (\<forall>i<length kept. (\<forall>t\<in>set tables. \<not> in_entries kept i t) \<longrightarrow> kept' ! i = kept ! i))"
    (is "?l \<longleftrightarrow> (\<exists>bs tables. ?spec kept' bs tables)")
proof
  have sound: "\<exists>bs tables. ?spec k bs tables" if "patch_chunk_offsets kept delta = Inr k" for k
  proof -
    from that obtain bs tables where s: "child_boxes kept = Inr bs"
      "chunk_tables kept (filter (\<lambda>b. bx_kind b = as_bytes ''trak'') bs) = Inr tables" "tables \<noteq> []"
      "list_all2 table_in (filter (\<lambda>b. bx_kind b = as_bytes ''trak'') bs) tables"
      "apart kept k tables" "\<forall>t\<in>set tables. relocated kept k delta t \<and> fst t + 8 \<le> length kept"
      "\<forall>i<length kept. (\<forall>t\<in>set tables. \<not> in_entries kept i t) \<longrightarrow> k ! i = kept ! i" by (rule patch_chunk_offsets_spec)
    have "relocatable kept delta t" if "t \<in> set tables" for t
      using s(6) that relocated_relocatable by (cases t) fastforce
    thus ?thesis using s unfolding apart_def by blast
  qed
  thus "?l \<Longrightarrow> \<exists>bs tables. ?spec kept' bs tables" by blast
  assume "\<exists>bs tables. ?spec kept' bs tables"
  then obtain bs tables where s: "?spec kept' bs tables" by blast
  note lie = chunk_tables_lie[of kept bs tables]
  obtain k where "patch_tables kept delta tables = Inr k" using patch_tables_defined[of tables kept delta] lie s by blast
  hence k: "patch_chunk_offsets kept delta = Inr k" using s by (simp add: patch_chunk_offsets_def)
  from sound[OF k] obtain bs' tables' where s': "?spec k bs' tables'" by blast
  have "tables' = tables" using s s' by simp
  hence "kept' = k" using s s' lie(3) by (intro relocated_unique[of kept' kept k tables delta]) auto
  thus ?l using k by simp
qed

text \<open>A two-entry table in a track box.\<close>

definition demo_kept :: bytes where
  "demo_kept = box_str (as_bytes ''trak'', box_str (as_bytes ''mdia'', box_str (as_bytes ''minf'',
     box_str (as_bytes ''stbl'', box_str (as_bytes ''stco'', replicate 4 0 @ be_bytes 4 2 @ be_bytes 4 100 @ be_bytes 4 300)))))"

definition demo_patched :: bytes where "demo_patched = projr (patch_chunk_offsets demo_kept (-60))"

lemma mp4_chunk_offsets_moved_witness:
  "\<exists>tables. relocated demo_kept demo_patched (-60) (40, 16, 4) \<and> tables = [(40 :: nat, 16 :: nat, 4 :: nat)] \<and>
     chunk_tables demo_kept [\<lparr> bx_kind = as_bytes ''trak'', bx_start = 0, bx_header_len = 8, bx_total_len = length demo_kept \<rparr>] = Inr tables"
proof -
  have p: "patch_chunk_offsets demo_kept (-60) = Inr demo_patched" unfolding demo_patched_def by code_simp
  let ?b = "\<lparr> bx_kind = as_bytes ''trak'', bx_start = 0, bx_header_len = 8, bx_total_len = length demo_kept \<rparr>"
  have c: "child_boxes demo_kept = Inr [?b]" "chunk_tables demo_kept [?b] = Inr [(40, 16, 4)]" by code_simp+
  from mp4_chunk_offsets_moved[THEN iffD1, OF p] c show ?thesis by auto
qed

end
