(* ===== verification/Mp4_Seek.thy ===== *)
theory Mp4_Seek
  imports Mp4
begin

text \<open>
  The seeking structure reader of MP4 against the whole-buffer one: on a file both give the same scan,
  and the seeking one never reads a byte of the audio payload.
\<close>

subsection \<open>The walk as a list of headers\<close>

fun tiled :: "'io region \<Rightarrow> nat \<Rightarrow> nat \<Rightarrow> (nat \<times> box_header) list \<Rightarrow> bool" where
  "tiled rd file_len pos [] \<longleftrightarrow> file_len < pos + 8"
| "tiled rd file_len pos ((p, h) # hs) \<longleftrightarrow>
     p = pos \<and> pos + 8 \<le> file_len \<and> scan_header rd file_len pos = Inr h \<and> bh_kind h \<noteq> as_bytes ''moof'' \<and>
     tiled rd file_len (pos + bh_total_len h) hs"

definition noted :: "(nat \<times> box_header) list \<Rightarrow> scan_walk \<Rightarrow> scan_walk" where
  "noted hs w = fold (\<lambda>(p, h). scan_note p h) hs w"

lemma noted_simps [simp]: "noted [] w = w" "noted ((p, h) # hs) w = noted hs (scan_note p h w)"
  by (simp_all add: noted_def)

lemma scan_boxes_tiled:
  "scan_boxes rd file_len pos w = Inr w' \<longleftrightarrow> (\<exists>hs. tiled rd file_len pos hs \<and> w' = noted hs w)"
proof (induction rd file_len pos w rule: scan_boxes.induct)
  case (1 rd file_len pos w)
  show ?case
  proof (cases "pos + 8 > file_len")
    case True
    have "tiled rd file_len pos hs \<longleftrightarrow> hs = []" for hs using True by (cases hs) auto
    thus ?thesis using True by (subst scan_boxes.simps) auto
  next
    case False
    have t: "tiled rd file_len pos hs \<longleftrightarrow> (\<exists>h hs'. hs = (pos, h) # hs' \<and> scan_header rd file_len pos = Inr h \<and>
        bh_kind h \<noteq> as_bytes ''moof'' \<and> tiled rd file_len (pos + bh_total_len h) hs')" for hs
      using False by (cases hs) auto
    show ?thesis
    proof (cases "scan_header rd file_len pos")
      case (Inl e)
      thus ?thesis using False by (subst scan_boxes.simps) (simp add: t)
    next
      case (Inr h)
      show ?thesis
      proof (cases "bh_kind h = as_bytes ''moof''")
        case True
        thus ?thesis using False Inr by (subst scan_boxes.simps) (auto simp: t)
      next
        case kind: False
        have "scan_boxes rd file_len pos w = scan_boxes rd file_len (pos + bh_total_len h) (scan_note pos h w)"
          using False Inr kind by (subst scan_boxes.simps) simp
        thus ?thesis using "1.IH"[OF False Inr kind] Inr kind by (auto simp: t)
      qed
    qed
  qed
qed

lemma tiled_after: "tiled rd file_len pos hs \<Longrightarrow> (p, h) \<in> set hs \<Longrightarrow> pos \<le> p \<and> p + bh_total_len h \<le> file_len"
proof (induction hs arbitrary: pos)
  case (Cons x hs)
  obtain q k where x: "x = (q, k)" by (cases x)
  note b = scan_header_bounds[of rd file_len pos k]
  show ?case
  proof (cases "(p, h) = (q, k)")
    case True
    thus ?thesis using Cons.prems b by (auto simp: x)
  next
    case False
    hence "pos + bh_total_len k \<le> p \<and> p + bh_total_len h \<le> file_len"
      using Cons by (auto simp: x)
    thus ?thesis by simp
  qed
qed simp

lemma tiled_disjoint:
  "tiled rd file_len pos hs \<Longrightarrow> (p, h) \<in> set hs \<Longrightarrow> (q, k) \<in> set hs \<Longrightarrow>
   (p, h) = (q, k) \<or> p + bh_total_len h \<le> q \<or> q + bh_total_len k \<le> p"
proof (induction hs arbitrary: pos)
  case (Cons x hs)
  obtain r m where x: "x = (r, m)" by (cases x)
  have t: "r = pos" "tiled rd file_len (pos + bh_total_len m) hs" using Cons.prems(1) by (simp_all add: x)
  show ?case using Cons.prems(2,3) tiled_after[OF t(2)] Cons.IH[OF t(2)] t(1) by (auto simp: x)
qed simp

lemma tiled_header:
  "tiled rd file_len pos hs \<Longrightarrow> (p, h) \<in> set hs \<Longrightarrow>
   scan_header rd file_len p = Inr h \<and> 8 \<le> bh_header_len h \<and> bh_header_len h \<le> bh_total_len h"
proof (induction hs arbitrary: pos)
  case (Cons x hs)
  thus ?case using scan_header_bounds[of rd file_len pos] by (cases x) auto
qed simp

text \<open>A header read looks at no byte beyond the header it returns.\<close>

lemma scan_header_cong:
  assumes "scan_header rd file_len pos = Inr h" "rd' pos 8 = rd pos 8" "bh_header_len h = 16 \<Longrightarrow> rd' (pos + 8) 8 = rd (pos + 8) 8"
    and len: "\<And>off n b. rd off n = Inr b \<Longrightarrow> length b = n"
  shows "scan_header rd' file_len pos = Inr h"
proof -
  obtain f where f: "rd pos 8 = Inr f" using assms(1) by (cases "rd pos 8") (auto simp: scan_header_def)
  show ?thesis
  proof (cases "be_val (take 4 f) = 1")
    case False
    thus ?thesis using assms(1,2) f by (simp add: scan_header_def)
  next
    case True
    obtain m where m: "rd (pos + 8) 8 = Inr m"
      using assms(1) f True by (cases "rd (pos + 8) 8") (auto simp: scan_header_def)
    have l: "length f = 8" "length m = 8" using len f m by auto
    have "map_err Mp4Format (mp4_box_header (f @ m) (file_len - pos)) = (Inr h :: 'a mp4_scan_error + box_header)"
      using assms(1) f m True by (simp add: scan_header_def)
    hence "mp4_box_header (f @ m) (file_len - pos) = Inr h" by (cases "mp4_box_header (f @ m) (file_len - pos)") auto
    moreover have "read_u32_be (f @ m) 0 = Inr 1"
      using True l by (simp add: read_u32_be_eq slice_def)
    ultimately have "bh_header_len h = 16" by (auto simp: mp4_box_header_def rbind_eq_Inr split: if_splits)
    thus ?thesis using assms f m True by (simp add: scan_header_def)
  qed
qed

lemma tiled_cong:
  assumes t: "tiled rd file_len pos hs"
    and eq: "\<And>p h. (p, h) \<in> set hs \<Longrightarrow> rd' p 8 = rd p 8 \<and> (bh_header_len h = 16 \<longrightarrow> rd' (p + 8) 8 = rd (p + 8) 8)"
    and len: "\<And>off n b. rd off n = Inr b \<Longrightarrow> length b = n"
  shows "tiled rd' file_len pos hs"
  using t eq
proof (induction hs arbitrary: pos)
  case (Cons x hs)
  obtain p h where x: "x = (p, h)" by (cases x)
  have a: "p = pos" "scan_header rd file_len pos = Inr h" "tiled rd file_len (pos + bh_total_len h) hs"
    using Cons.prems(1) by (simp_all add: x)
  have e: "rd' pos 8 = rd pos 8" "bh_header_len h = 16 \<Longrightarrow> rd' (pos + 8) 8 = rd (pos + 8) 8"
    using Cons.prems(2)[of pos h] a(1) by (simp_all add: x)
  have "tiled rd' file_len (pos + bh_total_len h) hs"
    by (rule Cons.IH[OF a(3)], rule Cons.prems(2)) (simp add: x)
  moreover have "scan_header rd' file_len pos = Inr h"
    by (rule scan_header_cong[where rd = rd and rd' = rd', OF a(2) e(1)]) (simp_all add: e len)
  ultimately show ?case using Cons.prems(1) by (simp add: x)
qed simp

subsection \<open>What is noted\<close>

definition kinds_noted :: "bytes \<Rightarrow> (nat \<times> box_header) list \<Rightarrow> (nat \<times> box_header) list" where
  "kinds_noted kind hs = filter (\<lambda>x. bh_kind (snd x) = kind) hs"

lemma noted_eq:
  "sw_ftyp (noted hs w) = (if kinds_noted (as_bytes ''ftyp'') hs = [] then sw_ftyp w else Some (last (kinds_noted (as_bytes ''ftyp'') hs)))"
  "sw_moov (noted hs w) = (if kinds_noted (as_bytes ''moov'') hs = [] then sw_moov w else Some (last (kinds_noted (as_bytes ''moov'') hs)))"
  "sw_mdat (noted hs w) = (if kinds_noted (as_bytes ''mdat'') hs = [] then sw_mdat w else Some (last (kinds_noted (as_bytes ''mdat'') hs)))"
  "sw_dup (noted hs w) \<longleftrightarrow> sw_dup w \<or>
     length (kinds_noted (as_bytes ''ftyp'') hs) + (if sw_ftyp w = None then 0 else 1) > 1 \<or>
     length (kinds_noted (as_bytes ''moov'') hs) + (if sw_moov w = None then 0 else 1) > 1 \<or>
     length (kinds_noted (as_bytes ''mdat'') hs) + (if sw_mdat w = None then 0 else 1) > 1"
proof (induction hs arbitrary: w)
  case Nil
  { case 1 show ?case by (simp add: kinds_noted_def) next
    case 2 show ?case by (simp add: kinds_noted_def) next
    case 3 show ?case by (simp add: kinds_noted_def) next
    case 4 show ?case by (simp add: kinds_noted_def) }
next
  case (Cons x hs)
  obtain p h where x: "x = (p, h)" by (cases x)
  have ne: "as_bytes ''ftyp'' \<noteq> as_bytes ''moov''" "as_bytes ''ftyp'' \<noteq> as_bytes ''mdat''" "as_bytes ''moov'' \<noteq> as_bytes ''mdat''"
    by (simp_all add: as_bytes_def)
  note k = kinds_noted_def scan_note_def x
  { case 1 show ?case using ne Cons.IH(1)[of "scan_note p h w"] by (auto simp: k) next
    case 2 show ?case using ne Cons.IH(2)[of "scan_note p h w"] by (auto simp: k) next
    case 3 show ?case using ne Cons.IH(3)[of "scan_note p h w"] by (auto simp: k) next
    case 4 show ?case using ne Cons.IH(4)[of "scan_note p h w"] by (auto simp: k) }
qed

definition empty_walk :: scan_walk where
  "empty_walk = \<lparr> sw_ftyp = None, sw_moov = None, sw_mdat = None, sw_dup = False \<rparr>"

lemma single_filter: "length xs \<le> 1 \<Longrightarrow> xs \<noteq> [] \<Longrightarrow> xs = [last xs]"
  by (cases xs) auto

lemma noted_unique:
  "\<not> sw_dup (noted hs empty_walk) \<and> sw_ftyp (noted hs empty_walk) = Some f \<and>
     sw_moov (noted hs empty_walk) = Some m \<and> sw_mdat (noted hs empty_walk) = Some d \<longleftrightarrow>
   kinds_noted (as_bytes ''ftyp'') hs = [f] \<and> kinds_noted (as_bytes ''moov'') hs = [m] \<and> kinds_noted (as_bytes ''mdat'') hs = [d]"
  unfolding noted_eq using single_filter by (auto simp: empty_walk_def not_less dest!: single_filter)

text \<open>A scan that succeeds, in one sentence.\<close>

definition seek_parts ::
  "'io region \<Rightarrow> nat \<Rightarrow> (nat \<times> box_header) list \<Rightarrow> nat \<times> box_header \<Rightarrow> nat \<times> box_header \<Rightarrow> nat \<times> box_header \<Rightarrow> mp4_scan \<Rightarrow> bool" where
  "seek_parts rd file_len hs f m d s \<longleftrightarrow>
     tiled rd file_len 0 hs \<and> kinds_noted (as_bytes ''ftyp'') hs = [f] \<and> kinds_noted (as_bytes ''moov'') hs = [m] \<and>
     kinds_noted (as_bytes ''mdat'') hs = [d] \<and>
     bh_total_len (snd f) \<le> max_mp4_metadata_bytes \<and> bh_total_len (snd m) \<le> max_mp4_metadata_bytes \<and>
     rd (fst f) (bh_total_len (snd f)) = Inr (sc_ftyp s) \<and> rd (fst m) (bh_total_len (snd m)) = Inr (sc_moov s) \<and>
     rd (fst d) (bh_header_len (snd d)) = Inr (sc_mdat_header s) \<and>
     validate_moov (drop (bh_header_len (snd m)) (sc_moov s)) = Inr () \<and>
     sc_mdat_payload_offset s = fst d + bh_header_len (snd d) \<and>
     sc_mdat_payload_len s = bh_total_len (snd d) - bh_header_len (snd d)"

lemma map_err_eq_Inr [simp]: "map_err f r = Inr x \<longleftrightarrow> r = Inr x"
  by (cases r) auto

lemma seek_iff:
  "mp4_read_structure_from rd file_len = Inr s \<longleftrightarrow> (\<exists>hs f m d. seek_parts rd file_len hs f m d s)"
proof
  assume "mp4_read_structure_from rd file_len = Inr s"
  then obtain w fs fh ms mh ds dh fb mb db where w: "scan_boxes rd file_len 0 empty_walk = Inr w" "\<not> sw_dup w"
    "sw_ftyp w = Some (fs, fh)" "sw_moov w = Some (ms, mh)" "sw_mdat w = Some (ds, dh)" and
    r: "bh_total_len fh \<le> max_mp4_metadata_bytes" "bh_total_len mh \<le> max_mp4_metadata_bytes"
    "rd fs (bh_total_len fh) = Inr fb" "rd ms (bh_total_len mh) = Inr mb" "rd ds (bh_header_len dh) = Inr db"
    "validate_moov (drop (bh_header_len mh) mb) = Inr ()" and
    s: "s = \<lparr> sc_ftyp = fb, sc_moov = mb, sc_mdat_header = db,
                sc_mdat_payload_offset = ds + bh_header_len dh,
                sc_mdat_payload_len = bh_total_len dh - bh_header_len dh \<rparr>"
    by (auto simp: mp4_read_structure_from_def rbind_eq_Inr scan_one_def check_metadata_len_def empty_walk_def split: if_splits)
  obtain hs where t: "tiled rd file_len 0 hs" "w = noted hs empty_walk" using w(1) scan_boxes_tiled by blast
  from noted_unique[of hs "(fs, fh)" "(ms, mh)" "(ds, dh)"] w(2-5) t(2)
  have "kinds_noted (as_bytes ''ftyp'') hs = [(fs, fh)]" "kinds_noted (as_bytes ''moov'') hs = [(ms, mh)]"
    "kinds_noted (as_bytes ''mdat'') hs = [(ds, dh)]" by simp_all
  thus "\<exists>hs f m d. seek_parts rd file_len hs f m d s"
    using t(1) r by (intro exI[of _ hs] exI[of _ "(fs, fh)"] exI[of _ "(ms, mh)"] exI[of _ "(ds, dh)"]) (simp add: seek_parts_def s)
next
  assume "\<exists>hs f m d. seek_parts rd file_len hs f m d s"
  then obtain hs fs fh ms mh ds dh where p: "seek_parts rd file_len hs (fs, fh) (ms, mh) (ds, dh) s" by fastforce
  from p have k: "\<not> sw_dup (noted hs empty_walk)" "sw_ftyp (noted hs empty_walk) = Some (fs, fh)"
    "sw_moov (noted hs empty_walk) = Some (ms, mh)" "sw_mdat (noted hs empty_walk) = Some (ds, dh)"
    using noted_unique[of hs "(fs, fh)" "(ms, mh)" "(ds, dh)"] by (simp_all add: seek_parts_def)
  have b: "scan_boxes rd file_len 0 \<lparr> sw_ftyp = None, sw_moov = None, sw_mdat = None, sw_dup = False \<rparr> = Inr (noted hs empty_walk)"
    unfolding scan_boxes_tiled empty_walk_def using p by (auto simp: seek_parts_def)
  show "mp4_read_structure_from rd file_len = Inr s"
    using p k b by (cases s) (simp add: mp4_read_structure_from_def seek_parts_def scan_one_def check_metadata_len_def)
qed

subsection \<open>The payload is not read\<close>

definition outside :: "nat \<Rightarrow> nat \<Rightarrow> nat \<Rightarrow> nat \<Rightarrow> bool" where
  "outside p len off n \<longleftrightarrow> off + n \<le> p \<or> p + len \<le> off"

lemma seek_avoids_payload:
  assumes r: "mp4_read_structure_from rd file_len = Inr s"
    and len: "\<And>off n b. rd off n = Inr b \<Longrightarrow> length b = n"
    and eq: "\<And>off n. outside (sc_mdat_payload_offset s) (sc_mdat_payload_len s) off n \<Longrightarrow> rd' off n = rd off n"
  shows "mp4_read_structure_from rd' file_len = Inr s"
proof -
  obtain hs f m d where p: "seek_parts rd file_len hs f m d s" using r seek_iff by blast
  obtain q k where d: "d = (q, k)" by (cases d)
  have mem: "x \<in> set hs" if "kinds_noted kd hs = [x]" for x kd
  proof -
    have "x \<in> set (kinds_noted kd hs)" using that by simp
    thus ?thesis by (simp add: kinds_noted_def)
  qed
  have t: "tiled rd file_len 0 hs" and md: "(q, k) \<in> set hs" using p mem d by (auto simp: seek_parts_def)
  note kh = tiled_header[OF t md]
  have pay: "sc_mdat_payload_offset s = q + bh_header_len k" "sc_mdat_payload_offset s + sc_mdat_payload_len s = q + bh_total_len k"
    using p kh by (simp_all add: seek_parts_def d)
  have out: "outside (sc_mdat_payload_offset s) (sc_mdat_payload_len s) off n"
    if "(x, h) \<in> set hs" "x \<le> off" "off + n \<le> x + bh_header_len h" for x h off n
    using tiled_disjoint[OF t that(1) md] that(2,3) tiled_header[OF t that(1)] kh pay by (auto simp: outside_def)
  have whole: "outside (sc_mdat_payload_offset s) (sc_mdat_payload_len s) x (bh_total_len h)"
    if "(x, h) \<in> set hs" "bh_kind h \<noteq> bh_kind k" for x h
    using tiled_disjoint[OF t that(1) md] that(2) kh pay by (auto simp: outside_def)
  have t': "tiled rd' file_len 0 hs"
    by (rule tiled_cong[OF t _ len])
       (use out tiled_header[OF t] in \<open>auto intro!: eq\<close>)
  have kinds: "bh_kind (snd x) = kd" if "kinds_noted kd hs = [x]" for x kd
  proof -
    have "x \<in> set (kinds_noted kd hs)" using that by simp
    thus ?thesis by (simp add: kinds_noted_def)
  qed
  have sg: "kinds_noted (as_bytes ''ftyp'') hs = [f]" "kinds_noted (as_bytes ''moov'') hs = [m]"
    "kinds_noted (as_bytes ''mdat'') hs = [(q, k)]" using p by (simp_all add: seek_parts_def d)
  have kf: "bh_kind (snd f) \<noteq> bh_kind k" "bh_kind (snd m) \<noteq> bh_kind k" "f \<in> set hs" "m \<in> set hs"
    using kinds[OF sg(1)] kinds[OF sg(2)] kinds[OF sg(3)] mem[OF sg(1)] mem[OF sg(2)] by (simp_all add: as_bytes_def)
  have "rd' (fst f) (bh_total_len (snd f)) = rd (fst f) (bh_total_len (snd f))"
    "rd' (fst m) (bh_total_len (snd m)) = rd (fst m) (bh_total_len (snd m))"
    "rd' q (bh_header_len k) = rd q (bh_header_len k)"
    using whole[of "fst f" "snd f"] whole[of "fst m" "snd m"] out[OF md] kf by (auto intro!: eq)
  hence "seek_parts rd' file_len hs f m d s" using p t' by (simp add: seek_parts_def d)
  thus ?thesis using seek_iff by blast
qed

subsection \<open>On a file it is the whole-buffer reader\<close>

definition file_region :: "bytes \<Rightarrow> unit region" where
  "file_region buf off n = (if off + n \<le> length buf then Inr (slice buf off n) else Inl ())"

definition box_of :: "nat \<times> box_header \<Rightarrow> box_ref" where
  "box_of x = \<lparr> bx_kind = bh_kind (snd x), bx_start = fst x, bx_header_len = bh_header_len (snd x), bx_total_len = bh_total_len (snd x) \<rparr>"

lemma box_of_inj: "box_of x = box_of y \<longleftrightarrow> x = y"
  by (cases x; cases y; cases "snd x"; cases "snd y") (auto simp: box_of_def)

lemma read_box_scan:
  assumes "length buf \<le> u64_max" "pos + 8 \<le> length buf"
  shows "read_box buf pos = Inr (box_of x) \<longleftrightarrow>
    fst x = pos \<and> scan_header (file_region buf) (length buf) pos = Inr (snd x)"
proof -
  obtain p h where x: "x = (p, h)" by (cases x)
  have 8: "file_region buf pos 8 = Inr (slice buf pos 8)" using assms(2) by (simp add: file_region_def)
  have t4: "take 4 (slice buf pos 8) = slice buf pos 4" by (simp add: slice_def)
  have u: "read_u32_be buf pos = Inr (be_val (slice buf pos 4))" using assms(2) by (simp add: read_u32_be_eq)
  have k: "get_slice buf (pos + 4) (pos + 8) = Some (slice buf (pos + 4) 4)" using assms(2) by (simp add: get_slice_eq_Some)
  have h8: "read_u32_be (slice buf pos 8 @ r) 0 = Inr (be_val (slice buf pos 4))"
    "get_slice (slice buf pos 8 @ r) 4 8 = Some (slice buf (pos + 4) 4)" for r
    using assms(2) by (simp_all add: read_u32_be_eq slice_append1 slice_slice get_slice_eq_Some)
  note h8' = h8[of "[]", simplified]
  have ca: "n \<le> length buf - pos \<Longrightarrow> checked_add64 pos n = Some (pos + n)" for n
    using assms by (simp add: checked_add64_def)
  have le: "pos + n \<le> length buf \<longleftrightarrow> n \<le> length buf - pos" for n using assms(2) by auto
  consider "be_val (slice buf pos 4) = 1" | "be_val (slice buf pos 4) = 0" | "be_val (slice buf pos 4) \<noteq> 1" "be_val (slice buf pos 4) \<noteq> 0" by blast
  thus ?thesis
  proof cases
    case 1
    show ?thesis
    proof (cases "pos + 16 \<le> length buf")
      case True
      have "file_region buf (pos + 8) 8 = Inr (slice buf (pos + 8) 8)" using True by (simp add: file_region_def)
      moreover have "read_u64_be (slice buf pos 8 @ slice buf (pos + 8) 8) 8 = Inr (be_val (slice buf (pos + 8) 8))"
        using True by (simp add: read_u64_be_eq slice_append2 slice_full)
      moreover have "read_u64_be buf (pos + 8) = Inr (be_val (slice buf (pos + 8) 8))" using True by (simp add: read_u64_be_eq)
      ultimately show ?thesis using 1 assms
        unfolding scan_header_def 8 rbind.simps map_err.simps t4 read_box_def u k
        by (cases h) (auto simp: x box_of_def mp4_box_header_def h8 checked_add64_def split: if_splits)
    next
      case False
      thus ?thesis using 1 unfolding scan_header_def 8 rbind.simps map_err.simps t4 read_box_def u k
        by (simp add: file_region_def read_u64_be_eq)
    qed
  next
    case 2
    show ?thesis using 2 assms unfolding scan_header_def 8 rbind.simps map_err.simps t4 read_box_def u k
      by (cases h) (auto simp: x box_of_def mp4_box_header_def h8' checked_add64_def split: if_splits)
  next
    case 3
    show ?thesis using 3 assms unfolding scan_header_def 8 rbind.simps map_err.simps t4 read_box_def u k
      by (cases h) (auto simp: x box_of_def mp4_box_header_def h8' checked_add64_def split: if_splits)
  qed
qed

lemma read_box_is_box_of: "read_box buf pos = Inr b \<Longrightarrow>
   b = box_of (pos, \<lparr> bh_kind = bx_kind b, bh_header_len = bx_header_len b, bh_total_len = bx_total_len b \<rparr>)"
  using read_box_bounds(1)[of buf pos b] by (simp add: box_of_def)

lemma box_end_of [simp]: "box_end (box_of (p, h)) = p + bh_total_len h" "bx_kind (box_of x) = bh_kind (snd x)"
  by (simp_all add: box_end_def box_of_def)

lemma tiled_boxes:
  assumes "length buf \<le> u64_max"
  shows "tiled (file_region buf) (length buf) pos hs \<longleftrightarrow>
    boxes_from buf pos = Inr (map box_of hs) \<and> list_all (\<lambda>x. bh_kind (snd x) \<noteq> as_bytes ''moof'') hs"
proof (induction hs arbitrary: pos)
  case Nil
  show ?case by (subst boxes_from.simps) (auto simp: rbind_eq_Inr split: sum.splits)
next
  case (Cons x hs)
  obtain p h where x: "x = (p, h)" by (cases x)
  show ?case
  proof (cases "pos + 8 \<le> length buf")
    case False
    thus ?thesis by (subst boxes_from.simps) (simp add: x)
  next
    case True
    note rb = read_box_scan[OF assms True, of x]
    have b: "boxes_from buf pos = Inr (map box_of (x # hs)) \<longleftrightarrow>
        read_box buf pos = Inr (box_of x) \<and> boxes_from buf (p + bh_total_len h) = Inr (map box_of hs)"
      using True by (subst boxes_from.simps) (auto simp: rbind_eq_Inr x split: sum.splits)
    show ?thesis unfolding b rb using True by (auto simp: x Cons.IH)
  qed
qed

lemma boxes_from_box_of: "boxes_from buf pos = Inr bs \<Longrightarrow> \<exists>hs. bs = map box_of hs"
proof -
  assume "boxes_from buf pos = Inr bs"
  have "bs = map box_of (map (\<lambda>b. (bx_start b, \<lparr> bh_kind = bx_kind b, bh_header_len = bx_header_len b, bh_total_len = bx_total_len b \<rparr>)) bs)"
    by (induction bs) (auto simp: box_of_def)
  thus ?thesis by blast
qed

lemma one_box_iff: "one_box tops kind = Inr b \<longleftrightarrow> filter (\<lambda>b. bx_kind b = kind) tops = [b]"
  by (auto simp: one_box_def split: list.splits)

lemma filter_box_of: "filter (\<lambda>b. bx_kind b = kind) (map box_of hs) = map box_of (kinds_noted kind hs)"
  by (induction hs) (simp_all add: kinds_noted_def)

lemma map_box_of_single: "map box_of xs = [box_of y] \<longleftrightarrow> xs = [y]"
  by (cases xs) (auto simp: box_of_inj)

text \<open>The whole-buffer reader, in the same sentence.\<close>

lemma read_structure_iff:
  assumes "length buf \<le> u64_max"
  shows "mp4_read_structure buf = Inr s \<and> length (sc_ftyp s) \<le> max_mp4_metadata_bytes \<and> length (sc_moov s) \<le> max_mp4_metadata_bytes \<longleftrightarrow>
    (\<exists>hs f m d. seek_parts (file_region buf) (length buf) hs f m d s)"
proof
  assume l: "mp4_read_structure buf = Inr s \<and> length (sc_ftyp s) \<le> max_mp4_metadata_bytes \<and> length (sc_moov s) \<le> max_mp4_metadata_bytes"
  then obtain bs fb mb db where b: "child_boxes buf = Inr bs" "\<not> list_ex (\<lambda>b. bx_kind b = as_bytes ''moof'') bs"
    "filter (\<lambda>b. bx_kind b = as_bytes ''ftyp'') bs = [fb]" "filter (\<lambda>b. bx_kind b = as_bytes ''moov'') bs = [mb]"
    "filter (\<lambda>b. bx_kind b = as_bytes ''mdat'') bs = [db]" "validate_moov (box_payload mb buf) = Inr ()" and
    s: "s = \<lparr> sc_ftyp = slice buf (bx_start fb) (box_end fb - bx_start fb),
           sc_moov = slice buf (bx_start mb) (box_end mb - bx_start mb),
           sc_mdat_header = slice buf (bx_start db) (payload_start db - bx_start db),
           sc_mdat_payload_offset = payload_start db,
           sc_mdat_payload_len = bx_total_len db - bx_header_len db \<rparr>"
    by (auto simp: mp4_read_structure_def mp4_locate_def rbind_eq_Inr one_box_iff split: if_splits)
  obtain hs where hs: "bs = map box_of hs" using boxes_from_box_of[OF b(1)[unfolded child_boxes_def]] by blast
  have t: "tiled (file_region buf) (length buf) 0 hs"
    using b(1,2) by (auto simp: tiled_boxes[OF assms] child_boxes_def hs list_ex_iff list_all_iff)
  from b(3-5) obtain f m d where k: "kinds_noted (as_bytes ''ftyp'') hs = [f]" "fb = box_of f"
    "kinds_noted (as_bytes ''moov'') hs = [m]" "mb = box_of m" "kinds_noted (as_bytes ''mdat'') hs = [d]" "db = box_of d"
    unfolding hs filter_box_of by (auto simp: map_eq_Cons_conv)
  have fit: "fst x + bh_total_len (snd x) \<le> length buf \<and> bh_header_len (snd x) \<le> bh_total_len (snd x)"
    if "kinds_noted kd hs = [x]" for x kd
  proof -
    have "x \<in> set (kinds_noted kd hs)" using that by simp
    hence "x \<in> set hs" by (simp add: kinds_noted_def)
    thus ?thesis using tiled_after[OF t, of "fst x" "snd x"] tiled_header[OF t, of "fst x" "snd x"] by simp
  qed
  note fits = fit[OF k(1)] fit[OF k(3)] fit[OF k(5)]
  have "drop (bh_header_len (snd m)) (slice buf (fst m) (bh_total_len (snd m))) = box_payload mb buf"
    using fits(2) by (simp add: box_payload_def k(4) payload_start_def box_end_def box_of_def slice_def drop_take add.commute)
  moreover have "length (sc_ftyp s) = bh_total_len (snd f)" "length (sc_moov s) = bh_total_len (snd m)"
    using conjunct1[OF fits(1)] conjunct1[OF fits(2)] by (simp_all add: s k box_end_def box_of_def min_def)
  ultimately show "\<exists>hs f m d. seek_parts (file_region buf) (length buf) hs f m d s"
    using t k l fits b(6)
    by (intro exI[of _ hs] exI[of _ f] exI[of _ m] exI[of _ d])
       (simp add: seek_parts_def s file_region_def box_end_def payload_start_def box_of_def)
next
  assume "\<exists>hs f m d. seek_parts (file_region buf) (length buf) hs f m d s"
  then obtain hs f m d where p: "seek_parts (file_region buf) (length buf) hs f m d s" by blast
  hence t: "tiled (file_region buf) (length buf) 0 hs" by (simp add: seek_parts_def)
  have cb: "child_boxes buf = Inr (map box_of hs)" "\<not> list_ex (\<lambda>b. bx_kind b = as_bytes ''moof'') (map box_of hs)"
    using t by (auto simp: tiled_boxes[OF assms] child_boxes_def list_ex_iff list_all_iff)
  have k: "kinds_noted (as_bytes ''ftyp'') hs = [f]" "kinds_noted (as_bytes ''moov'') hs = [m]" "kinds_noted (as_bytes ''mdat'') hs = [d]"
    using p by (simp_all add: seek_parts_def)
  have one: "one_box (map box_of hs) (as_bytes ''ftyp'') = Inr (box_of f)" "one_box (map box_of hs) (as_bytes ''moov'') = Inr (box_of m)"
    "one_box (map box_of hs) (as_bytes ''mdat'') = Inr (box_of d)"
    by (simp_all add: one_box_iff filter_box_of k)
  have fm: "m \<in> set hs" using k(2) by (metis kinds_noted_def filter_is_subset list.set_intros(1) subsetD)
  note hm = tiled_header[OF t, of "fst m" "snd m"]
  have mo: "sc_moov s = slice buf (fst m) (bh_total_len (snd m))" "sc_ftyp s = slice buf (fst f) (bh_total_len (snd f))"
    "sc_mdat_header s = slice buf (fst d) (bh_header_len (snd d))"
    "bh_total_len (snd f) \<le> max_mp4_metadata_bytes" "bh_total_len (snd m) \<le> max_mp4_metadata_bytes"
    using p by (auto simp: seek_parts_def file_region_def split: if_splits)
  have "drop (bh_header_len (snd m)) (sc_moov s) = box_payload (box_of m) buf"
    using hm fm by (simp add: mo box_payload_def payload_start_def box_end_def box_of_def slice_def drop_take add.commute)
  hence "mp4_locate buf = Inr (box_of f, box_of m, box_of d)"
    using p cb one by (simp add: mp4_locate_def seek_parts_def)
  thus "mp4_read_structure buf = Inr s \<and> length (sc_ftyp s) \<le> max_mp4_metadata_bytes \<and> length (sc_moov s) \<le> max_mp4_metadata_bytes"
    using p mo by (cases s) (simp add: mp4_read_structure_def seek_parts_def box_end_def payload_start_def box_of_def min.coboundedI1)
qed

lemma seek_eq_whole:
  assumes "length buf \<le> u64_max"
  shows "mp4_read_structure_from (file_region buf) (length buf) = Inr s \<longleftrightarrow>
    mp4_read_structure buf = Inr s \<and> length (sc_ftyp s) \<le> max_mp4_metadata_bytes \<and> length (sc_moov s) \<le> max_mp4_metadata_bytes"
  unfolding seek_iff read_structure_iff[OF assms] by (rule refl)

text \<open>C36: on any file the seeking structure reader answers exactly what the whole-buffer reader does
  (given that ftyp and moov respect the metadata cap), and it never touches the audio payload: with
  every region that meets the mdat payload unreadable it still gives the same scan.\<close>

theorem mp4_seek_reads_structure:
  assumes "length buf \<le> u64_max"
  shows "(mp4_read_structure_from (file_region buf) (length buf) = Inr s \<longleftrightarrow>
      mp4_read_structure buf = Inr s \<and> length (sc_ftyp s) \<le> max_mp4_metadata_bytes \<and> length (sc_moov s) \<le> max_mp4_metadata_bytes) \<and>
    (mp4_read_structure_from (file_region buf) (length buf) = Inr s \<longrightarrow>
      mp4_read_structure_from
        (\<lambda>off n. if outside (sc_mdat_payload_offset s) (sc_mdat_payload_len s) off n then file_region buf off n else Inl ())
        (length buf) = Inr s)"
proof -
  have len: "file_region buf off n = Inr b \<Longrightarrow> length b = n" for off n b
    by (auto simp: file_region_def split: if_splits)
  show ?thesis
    using seek_eq_whole[OF assms, of s]
      seek_avoids_payload[of "file_region buf" "length buf" s
        "\<lambda>off n. if outside (sc_mdat_payload_offset s) (sc_mdat_payload_len s) off n then file_region buf off n else Inl ()"] len
    by simp
qed

text \<open>A small file: ftyp, an mdat of five bytes, and moov / trak / mdia (hdlr soun, minf / stbl / stco with one offset).\<close>

definition demo_ftyp :: bytes where
  "demo_ftyp = [0, 0, 0, 16, 102, 116, 121, 112, 77, 52, 65, 32, 0, 0, 0, 0]"

definition demo_moov :: bytes where
  "demo_moov = [
     0, 0, 0, 84, 109, 111, 111, 118, 0, 0, 0, 76, 116, 114, 97, 107, 0, 0, 0, 68, 109, 100, 105, 97, 0, 0, 0, 24,
     104, 100, 108, 114, 0, 0, 0, 0, 0, 0, 0, 0, 115, 111, 117, 110, 0, 0, 0, 0, 0, 0, 0, 36, 109, 105, 110, 102,
     0, 0, 0, 28, 115, 116, 98, 108, 0, 0, 0, 20, 115, 116, 99, 111, 0, 0, 0, 0, 0, 0, 0, 1, 0, 0, 0, 28]"

definition demo_mdat_header :: bytes where "demo_mdat_header = [0, 0, 0, 13, 109, 100, 97, 116]"

definition demo_mp4 :: bytes where
  "demo_mp4 = demo_ftyp @ demo_mdat_header @ [1, 2, 3, 4, 5] @ demo_moov"

definition demo_mp4_scan :: mp4_scan where
  "demo_mp4_scan = \<lparr> sc_ftyp = demo_ftyp, sc_moov = demo_moov, sc_mdat_header = demo_mdat_header,
     sc_mdat_payload_offset = 24, sc_mdat_payload_len = 5 \<rparr>"

lemma demo_mp4_reads: "mp4_read_structure demo_mp4 = Inr demo_mp4_scan"
  by code_simp

lemma mp4_seek_reads_structure_witness:
  "mp4_read_structure_from (\<lambda>off n. if outside 24 5 off n then file_region demo_mp4 off n else Inl ()) (length demo_mp4) =
     Inr demo_mp4_scan \<and> sc_mdat_payload_offset demo_mp4_scan = 24 \<and> sc_mdat_payload_len demo_mp4_scan = 5"
proof -
  have "length demo_mp4 = 113" by code_simp
  hence l: "length demo_mp4 \<le> u64_max" by (simp add: u64_max_def)
  note r = demo_mp4_reads
  have s: "sc_mdat_payload_offset demo_mp4_scan = 24" "sc_mdat_payload_len demo_mp4_scan = 5"
    by code_simp+
  have "length (sc_ftyp demo_mp4_scan) = 16" "length (sc_moov demo_mp4_scan) = 84"
    by code_simp+
  hence "length (sc_ftyp demo_mp4_scan) \<le> max_mp4_metadata_bytes" "length (sc_moov demo_mp4_scan) \<le> max_mp4_metadata_bytes"
    by (simp_all add: max_mp4_metadata_bytes_def)
  thus ?thesis using mp4_seek_reads_structure[OF l, of demo_mp4_scan] r s by simp
qed

end
