(* ===== verification/Mp4_File.thy ===== *)
theory Mp4_File
  imports Mp4_Reread Mp4_Offsets Mp4_Seek
begin

text \<open>
  The synthesized MP4 file as a whole: its three boxes, the relocated moov, and what the readers
  return on it.
\<close>

unbundle bit_operations_syntax

subsection \<open>Lookups behind a tiling\<close>

lemma first_after_tiles:
  assumes "tiles a 0 bs" "\<forall>b\<in>set bs. bx_kind b \<noteq> k" "box_ok (k, p)" "length (a @ box_str (k, p) @ c) \<le> u64_max"
  shows "first_payload (a @ box_str (k, p) @ c) k = Some p"
proof -
  let ?f = "a @ box_str (k, p) @ c"
  have "boxes_lenient_from ?f 0 = bs @ boxes_lenient_from ?f (length a)"
    using tiles_prefix(2)[OF assms(1), of "box_str (k, p) @ c"] assms(4) by simp
  hence "lenient_atoms ?f = map (atom_of ?f) bs @ atoms_from ?f (length a)"
    by (simp add: lenient_atoms_def atoms_from_def)
  also have "atoms_from ?f (length a) = (k, p) # atoms_from ?f (length a + length (box_str (k, p)))"
    by (rule atoms_from_step[OF assms(3) refl refl assms(4)])
  finally have "lenient_atoms ?f = map (atom_of ?f) bs @ (k, p) # atoms_from ?f (length a + length (box_str (k, p)))" .
  moreover have "find (\<lambda>a. fst a = k) (map (atom_of ?f) bs @ (k, p) # r) = Some (k, p)" for r
    using assms(2) by (induction bs) (simp_all add: atom_of_def)
  ultimately show ?thesis by (simp add: first_payload_def)
qed

lemma boxes_from_read: "boxes_from buf pos = Inr bs \<Longrightarrow> b \<in> set bs \<Longrightarrow> read_box buf (bx_start b) = Inr b"
proof (induction buf pos arbitrary: bs rule: boxes_from.induct)
  case (1 buf pos)
  show ?case
  proof (cases "pos + 8 > length buf")
    case True
    thus ?thesis using "1.prems" by (simp add: boxes_from_end)
  next
    case False
    with "1.prems"(1) obtain x xs where x: "read_box buf pos = Inr x" "boxes_from buf (box_end x) = Inr xs" "bs = x # xs"
      by (subst (asm) boxes_from.simps) (auto simp: rbind_eq_Inr split: sum.splits)
    show ?thesis using "1.prems"(2) "1.IH"[OF False x(1) x(2)] read_box_bounds(1)[OF x(1)] x by auto
  qed
qed

lemma sorted_apart:
  "sorted_wrt (\<lambda>b c. box_end b \<le> bx_start c) bs \<Longrightarrow> b \<in> set bs \<Longrightarrow> c \<in> set bs \<Longrightarrow>
   b = c \<or> box_end b \<le> bx_start c \<or> box_end c \<le> bx_start b"
  by (induction bs) auto

text \<open>Relocation keeps the tiling: the tables lie in the payloads.\<close>

lemma patched_tiles:
  assumes "patch_chunk_offsets kept delta = Inr kept'" "tiles kept 0 bs" "length kept \<le> u64_max"
  shows "tiles kept' 0 bs" "length kept' = length kept"
proof -
  let ?ts = "filter (\<lambda>b. bx_kind b = as_bytes ''trak'') bs"
  from assms(1) obtain bs' tables where s: "child_boxes kept = Inr bs'"
    "list_all2 table_in (filter (\<lambda>b. bx_kind b = as_bytes ''trak'') bs') tables" "apart kept kept' tables"
    by (rule patch_chunk_offsets_spec) blast
  have bs: "boxes_from kept 0 = Inr bs" using tiles_boxes[OF assms(2,3)] by simp
  hence ti: "list_all2 table_in ?ts tables" using s(1,2) by (simp add: child_boxes_def)
  note o = boxes_from_ordered[OF bs]
  have hdr: "slice kept' (bx_start b) (bx_header_len b) = slice kept (bx_start b) (bx_header_len b)" if b: "b \<in> set bs" for b
  proof (rule apart_slice[OF s(3)], rule ballI)
    fix x assume "x \<in> set tables"
    then obtain i where i: "i < length tables" "tables ! i = x" by (auto simp: in_set_conv_nth)
    define u where "u = ?ts ! i"
    have "u \<in> set ?ts" unfolding u_def using i(1) list_all2_lengthD[OF ti] by (intro nth_mem) simp
    hence u: "u \<in> set bs" by simp
    have t: "table_in u x" using list_all2_nthD2[OF ti i(1)] i(2) by (simp add: u_def)
    note bb = boxes_from_in[OF bs b]
    show "bx_start b + bx_header_len b \<le> fst x + 8 \<or> fst x + fst (snd x) \<le> bx_start b"
      using sorted_apart[OF o b u] t bb by (cases x) (auto simp: payload_start_def box_end_def)
  qed
  show "length kept' = length kept" using s(3) by (simp add: apart_def)
  thus "tiles kept' 0 bs" using tiles_headers[OF assms(2) _ assms(3)] hdr by blast
qed

subsection \<open>The item list of a file\<close>

lemma udta_ilst:
  assumes "tiles ftyp 0 fs" "\<forall>b\<in>set fs. bx_kind b \<noteq> as_bytes ''moov''"
    "tiles kept 0 ks" "\<forall>b\<in>set ks. bx_kind b \<noteq> as_bytes ''udta''"
    "box_ok (as_bytes ''moov'', kept @ box_str (udta_box items chpl))" "box_ok (udta_box items chpl)"
    "\<forall>x\<in>set items. nested x"
    "length (ftyp @ box_str (as_bytes ''moov'', kept @ box_str (udta_box items chpl)) @ tail) \<le> u64_max"
  shows "ilst_atoms (ftyp @ box_str (as_bytes ''moov'', kept @ box_str (udta_box items chpl)) @ tail) = map item_box items"
proof -
  let ?c = "case chpl of Some c \<Rightarrow> c | None \<Rightarrow> []"
  have up: "udta_box items chpl = (as_bytes ''udta'', box_str (meta_box items) @ ?c)" by (simp add: udta_box_def)
  have mp: "meta_box items = (as_bytes ''meta'', be_bytes 4 0 @ boxes_str [(as_bytes ''hdlr'', mdir_hdlr_body), (as_bytes ''ilst'', items_str items)])"
    by (simp add: meta_box_def)
  have moov: "first_payload (ftyp @ box_str (as_bytes ''moov'', kept @ box_str (udta_box items chpl)) @ tail) (as_bytes ''moov'') =
      Some (kept @ box_str (udta_box items chpl))"
    by (rule first_after_tiles[OF assms(1,2,5,8)])
  have u32: "u32_max \<le> u64_max" by (simp add: u32_max_def u64_max_def)
  have ul: "length (box_str (udta_box items chpl)) = 8 + length (snd (udta_box items chpl))"
    by (simp add: box_str_length up)
  have lm: "8 + length (kept @ box_str (udta_box items chpl)) \<le> u32_max" using assms(5) by (simp add: box_ok_def)
  have "length (kept @ box_str (udta_box items chpl) @ []) \<le> u64_max" using lm u32 by simp
  hence udta: "first_payload (kept @ box_str (udta_box items chpl)) (as_bytes ''udta'') = Some (box_str (meta_box items) @ ?c)"
    using first_after_tiles[OF assms(3,4), of "box_str (meta_box items) @ ?c" "[]"] assms(6) up by simp
  have lu: "8 + length (box_str (meta_box items) @ ?c) \<le> u32_max" using assms(6) by (simp add: box_ok_def up)
  have ml: "length (box_str (meta_box items)) = 8 + length (snd (meta_box items))" by (simp add: box_str_length mp)
  have mok: "box_ok (meta_box items)" using lu ml by (simp add: box_ok_def mp)
  have "first_payload ([] @ box_str (as_bytes ''meta'', snd (meta_box items)) @ ?c) (as_bytes ''meta'') = Some (snd (meta_box items))"
    using mok lu u32 by (intro first_after_tiles[where bs = "[]"]) (simp_all add: mp)
  hence mt: "first_payload (box_str (meta_box items) @ ?c) (as_bytes ''meta'') = Some (snd (meta_box items))"
    by (simp add: mp)
  have z: "be_bytes 4 0 = [0, 0, 0, 0 :: byte]" by code_simp
  have pre: "meta_prefix (snd (meta_box items)) = 4"
    by (simp add: meta_prefix_def mp get_slice_def z)
  have dr: "drop 4 (snd (meta_box items)) = boxes_str [(as_bytes ''hdlr'', mdir_hdlr_body), (as_bytes ''ilst'', items_str items)]"
    by (simp add: mp)
  have lmt: "8 + (4 + length (boxes_str [(as_bytes ''hdlr'', mdir_hdlr_body), (as_bytes ''ilst'', items_str items)])) \<le> u32_max"
    using mok by (simp add: mp box_ok_def)
  have oks: "box_ok (as_bytes ''hdlr'', mdir_hdlr_body)" "box_ok (as_bytes ''ilst'', items_str items)"
    using lmt by (simp_all add: box_ok_def box_str_length)
  hence "lenient_atoms (boxes_str [(as_bytes ''hdlr'', mdir_hdlr_body), (as_bytes ''ilst'', items_str items)]) =
      [(as_bytes ''hdlr'', mdir_hdlr_body), (as_bytes ''ilst'', items_str items)]"
    using lmt u32 by (intro lenient_atoms_boxes) auto
  hence il: "first_payload (boxes_str [(as_bytes ''hdlr'', mdir_hdlr_body), (as_bytes ''ilst'', items_str items)]) (as_bytes ''ilst'') =
      Some (items_str items)"
    using kinds_differ by (simp add: first_payload_def)
  have "lenient_atoms (items_str items) = map item_box items"
    unfolding items_str_def using assms(7) oks(2) u32
    by (intro lenient_atoms_boxes) (auto simp: nested_def box_ok_def items_str_def)
  thus ?thesis unfolding ilst_atoms_chain by (simp add: moov udta mt pre dr il del: boxes_str_simps)
qed

end
