(* ===== verification/Mp4_Roundtrip.thy ===== *)
theory Mp4_Roundtrip
  imports Mp4_File
begin

text \<open>
  From a file through its scan to the synthesized file and back: the layout's bytes, the boxes they
  parse to, and the main theorem.
\<close>

unbundle bit_operations_syntax

text \<open>The file type box and the boxes of moov state their sizes (no box that runs to the end of its parent).\<close>

definition explicit_boxes :: "mp4_scan \<Rightarrow> bool" where
  "explicit_boxes scan \<longleftrightarrow> explicit_at (sc_ftyp scan) 0 \<and>
     (case read_box (sc_moov scan) 0 of
        Inl e \<Rightarrow> False
      | Inr mb \<Rightarrow>
          let p = drop (payload_start mb) (sc_moov scan) in
          (case child_boxes p of Inl e \<Rightarrow> False | Inr bs \<Rightarrow> list_all (\<lambda>b. explicit_at p (bx_start b)) bs))"

lemma kept_tiles:
  assumes "child_boxes p = Inr bs" "list_all (\<lambda>b. explicit_at p (bx_start b)) bs" "length p \<le> u64_max"
    "length (kept_boxes p bs) \<le> u64_max"
  shows "\<exists>ks. tiles (kept_boxes p bs) 0 ks \<and> (\<forall>b\<in>set ks. bx_kind b \<noteq> as_bytes ''udta'')"
proof -
  let ?bs = "filter (\<lambda>b. bx_kind b \<noteq> as_bytes ''udta'') bs"
  have "\<forall>b\<in>set ?bs. tiles (box_bytes b p) 0 [b\<lparr> bx_start := 0 \<rparr>]"
  proof
    fix b assume b: "b \<in> set ?bs"
    have r: "read_box p (bx_start b) = Inr b" using boxes_from_read[OF assms(1)[unfolded child_boxes_def]] b by simp
    have "explicit_at p (bx_start b)" using assms(2) b by (simp add: list_all_iff)
    from cut_box[OF r this assms(3)] show "tiles (box_bytes b p) 0 [b\<lparr> bx_start := 0 \<rparr>]"
      by (simp add: box_bytes_def box_end_def)
  qed
  from tiles_concat[OF this] assms(4) obtain ks where ks: "tiles (kept_boxes p bs) 0 ks"
    "map bx_kind ks = map (\<lambda>b. bx_kind (b\<lparr> bx_start := 0 \<rparr>)) ?bs" unfolding kept_boxes_def by blast
  have "set (map bx_kind ks) = bx_kind ` set ?bs" unfolding ks(2) by simp
  hence "\<forall>k\<in>bx_kind ` set ks. k \<noteq> as_bytes ''udta''" by auto
  hence "\<forall>b\<in>set ks. bx_kind b \<noteq> as_bytes ''udta''" by blast
  with ks(1) show ?thesis by blast
qed

subsection \<open>What the layout stands for\<close>

lemma splice_segments:
  assumes "segs = (case List.last (Inline x # rest) of
                 Inline b \<Rightarrow> butlast (Inline x # rest) @ [Inline (b @ h)] | _ \<Rightarrow> (Inline x # rest) @ [Inline h])"
  shows "layout_bytes enc v segs = x @ layout_bytes enc v rest @ h"
proof (cases rest rule: rev_cases)
  case Nil
  thus ?thesis using assms by simp
next
  case (snoc r s)
  thus ?thesis using assms by (cases s) (simp_all add: butlast_append)
qed

lemma mp4_layout_steps:
  assumes "mp4_synthesize_layout scan tags bts arts = Inr l" "blobs_present v bts arts"
  obtains mb p bs chpl U kept' where "read_box (sc_moov scan) 0 = Inr mb" "p = drop (payload_start mb) (sc_moov scan)"
    "child_boxes p = Inr bs" "chpl = last_chpl p None bs" "U = udta_box (ilst_items v tags bts arts) chpl"
    "patch_chunk_offsets (kept_boxes p bs)
       (int (length (sc_ftyp scan) + length (box_str (as_bytes ''moov'', kept' @ box_str U)) + length (sc_mdat_header scan)) -
        int (sc_mdat_payload_offset scan)) = Inr kept'"
    "\<forall>x\<in>set (ilst_items v tags bts arts). nested x" "box_ok U" "box_ok (as_bytes ''moov'', kept' @ box_str U)"
    "layout_bytes enc v (rl_segments l) = sc_ftyp scan @ box_str (as_bytes ''moov'', kept' @ box_str U) @
       sc_mdat_header scan @ slice (env_backing v) (sc_mdat_payload_offset scan) (sc_mdat_payload_len scan)"
    "length kept' = length (kept_boxes p bs)"
    "rl_total_len l = length (sc_ftyp scan) + length (box_str (as_bytes ''moov'', kept' @ box_str U)) +
       length (sc_mdat_header scan) + sc_mdat_payload_len scan"
    "rl_header_len l = length (sc_ftyp scan) + length (box_str (as_bytes ''moov'', kept' @ box_str U)) + length (sc_mdat_header scan)"
    "rl_total_len l \<le> u64_max"
proof -
  from assms(1) obtain mb bs us st where a: "read_box (sc_moov scan) 0 = Inr mb"
    "child_boxes (drop (payload_start mb) (sc_moov scan)) = Inr bs"
    "build_udta tags bts arts (last_chpl (drop (payload_start mb) (sc_moov scan)) None bs) = Inr (us, st)"
    unfolding mp4_synthesize_layout_def by (auto simp: Let_def rbind_eq_Inr)
  define p where "p = drop (payload_start mb) (sc_moov scan)"
  define chpl where "chpl = last_chpl p None bs"
  define kept where "kept = kept_boxes p bs"
  define U where "U = udta_box (ilst_items v tags bts arts) chpl"
  have a2: "child_boxes p = Inr bs" and a3: "build_udta tags bts arts chpl = Inr (us, st)" using a(2,3) by (simp_all add: chpl_def p_def)
  let ?n = "8 + (length kept + sum_list (map seg_len us))"
  let ?delta = "int (length (sc_ftyp scan)) + (8 + (int (length kept) + int (sum_list (map seg_len us))) + int (length (sc_mdat_header scan))) -
    int (sc_mdat_payload_offset scan)"
  from assms(1) obtain kept' where b: "?n \<le> u32_max" "patch_chunk_offsets kept ?delta = Inr kept'"
    and seg: "(case us of Inline first_run # rest \<Rightarrow>
         let segments = Inline ((sc_ftyp scan @ be_bytes 4 ?n @ as_bytes ''moov'' @ kept') @ first_run) # rest;
             segments = (case List.last segments of
                 Inline b \<Rightarrow> butlast segments @ [Inline (b @ sc_mdat_header scan)]
               | _ \<Rightarrow> segments @ [Inline (sc_mdat_header scan)])
         in map_err InvalidLayout (validated (segments @
              [BackingAudio (sc_mdat_payload_offset scan) (sc_mdat_payload_len scan)]))
     | _ \<Rightarrow> Inl (ProducerBug ''build_udta did not yield a leading Inline framing segment'')) = Inr l"
    unfolding mp4_synthesize_layout_def
    by (auto simp: a(1) a2 a3 p_def[symmetric] chpl_def[symmetric] kept_def[symmetric]
        Let_def rbind_eq_Inr u32_len_def checked_sum_Inr)
  from seg obtain first_run rest where us: "us = Inline first_run # rest" by (auto split: list.splits segment.splits)
  let ?head = "sc_ftyp scan @ be_bytes 4 ?n @ as_bytes ''moov'' @ kept'"
  obtain segs where segs: "segs = (case List.last (Inline (?head @ first_run) # rest) of
        Inline b \<Rightarrow> butlast (Inline (?head @ first_run) # rest) @ [Inline (b @ sc_mdat_header scan)]
      | _ \<Rightarrow> (Inline (?head @ first_run) # rest) @ [Inline (sc_mdat_header scan)])" by blast
  let ?audio = "BackingAudio (sc_mdat_payload_offset scan) (sc_mdat_payload_len scan)"
  have vl: "validated (segs @ [?audio]) = Inr l"
  proof -
    have "map_err InvalidLayout (validated (segs @ [?audio])) = Inr l"
      using seg unfolding us segs by (simp only: Let_def list.case segment.case)
    thus ?thesis by (cases "validated (segs @ [?audio])") simp_all
  qed
  note bu = build_udta_eq[OF a(3) assms(2), folded p_def, folded chpl_def, folded U_def]
  have ub: "layout_bytes enc v us = box_str U" and um: "\<forall>s\<in>set us. meta_seg v s" and okU: "box_ok U"
    using bu by (simp_all add: U_def chpl_def p_def)
  have lu: "sum_list (map seg_len us) = length (box_str U)" using meta_bytes_length[OF um, of enc] ub by simp
  have lk: "length kept' = length kept"
    using b(2) by (rule patch_chunk_offsets_spec) (simp add: apart_def)
  have mv: "box_str (as_bytes ''moov'', kept' @ box_str U) = be_bytes 4 ?n @ as_bytes ''moov'' @ kept' @ box_str U"
    using lk lu by (simp add: box_str_def)
  have sb: "layout_bytes enc v segs = sc_ftyp scan @ box_str (as_bytes ''moov'', kept' @ box_str U) @ sc_mdat_header scan"
    using splice_segments[OF segs, of enc v] ub unfolding us mv by simp
  note tot = validated_totals[OF vl]
  have lay: "layout_bytes enc v (rl_segments l) = sc_ftyp scan @ box_str (as_bytes ''moov'', kept' @ box_str U) @
      sc_mdat_header scan @ slice (env_backing v) (sc_mdat_payload_offset scan) (sc_mdat_payload_len scan)"
    using tot sb by simp
  have ms: "\<forall>s\<in>set segs. meta_seg v s"
  proof -
    have "\<forall>s\<in>set rest. meta_seg v s" using um unfolding us by simp
    thus ?thesis unfolding segs by (cases rest rule: rev_cases) (auto split: segment.split simp: butlast_append)
  qed
  have ls: "sum_list (map seg_len segs) = length (sc_ftyp scan @ box_str (as_bytes ''moov'', kept' @ box_str U) @ sc_mdat_header scan)"
    using meta_bytes_length[OF ms, of enc] sb by simp
  have total: "rl_total_len l = length (sc_ftyp scan) + length (box_str (as_bytes ''moov'', kept' @ box_str U)) +
      length (sc_mdat_header scan) + sc_mdat_payload_len scan" using tot ls by simp
  have lm: "length (box_str (as_bytes ''moov'', kept' @ box_str U)) = ?n" using lk lu by (simp add: box_str_length)
  have okm: "box_ok (as_bytes ''moov'', kept' @ box_str U)" using b(1) lk lu by (simp add: box_ok_def)
  have dl: "int (length (sc_ftyp scan) + length (box_str (as_bytes ''moov'', kept' @ box_str U)) + length (sc_mdat_header scan)) -
      int (sc_mdat_payload_offset scan) = ?delta" unfolding lm by simp
  have u64: "rl_total_len l \<le> u64_max" using vl validated_iff[of "segs @ [?audio]" l] tot by simp
  have "filter (\<lambda>s. \<not> is_audio s) segs = segs" using ms meta_seg_not_audio by (auto intro!: filter_True)
  hence hl: "rl_header_len l = length (sc_ftyp scan) + length (box_str (as_bytes ''moov'', kept' @ box_str U)) + length (sc_mdat_header scan)"
    using tot ls by simp
  have nest: "\<forall>x\<in>set (ilst_items v tags bts arts). nested x" by (rule bu(3))
  show thesis
    by (rule that[OF a(1) p_def a2 chpl_def U_def _ nest okU okm lay _ total hl u64])
      (simp_all only: dl b(2) lk kept_def[symmetric])
qed

subsection \<open>The scanned file\<close>

lemma one_box_in: "one_box tops kind = Inr b \<Longrightarrow> b \<in> set tops \<and> bx_kind b = kind"
proof -
  assume "one_box tops kind = Inr b"
  hence "filter (\<lambda>b. bx_kind b = kind) tops = [b]" by (auto simp: one_box_def split: list.splits)
  hence "b \<in> set (filter (\<lambda>b. bx_kind b = kind) tops)" by simp
  thus ?thesis by simp
qed

lemma located_box:
  assumes "mp4_locate buf = Inr (f, m, d)"
  shows "read_box buf (bx_start f) = Inr f \<and> bx_kind f = as_bytes ''ftyp''"
    "read_box buf (bx_start m) = Inr m \<and> bx_kind m = as_bytes ''moov''"
    "read_box buf (bx_start d) = Inr d \<and> bx_kind d = as_bytes ''mdat''"
proof -
  from assms obtain tops where t: "map_err (\<lambda>_. NotMp4) (child_boxes buf) = Inr tops" "one_box tops (as_bytes ''ftyp'') = Inr f"
    "one_box tops (as_bytes ''moov'') = Inr m" "one_box tops (as_bytes ''mdat'') = Inr d"
    by (auto simp: mp4_locate_def rbind_eq_Inr split: if_splits)
  have "boxes_from buf 0 = Inr tops" using t(1) by (cases "child_boxes buf") (simp_all add: child_boxes_def)
  thus "read_box buf (bx_start f) = Inr f \<and> bx_kind f = as_bytes ''ftyp''"
    "read_box buf (bx_start m) = Inr m \<and> bx_kind m = as_bytes ''moov''"
    "read_box buf (bx_start d) = Inr d \<and> bx_kind d = as_bytes ''mdat''"
    using one_box_in[OF t(2)] one_box_in[OF t(3)] one_box_in[OF t(4)] boxes_from_read by blast+
qed

lemma scan_parts:
  assumes "mp4_read_structure buf = Inr scan" "length buf \<le> u64_max" "explicit_at (sc_ftyp scan) 0"
  shows "\<exists>f. tiles (sc_ftyp scan) 0 [f] \<and> bx_kind f = as_bytes ''ftyp''"
    "length (sc_moov scan) \<le> u64_max"
    "\<And>pre rest. length (pre @ sc_mdat_header scan @ rest) \<le> u64_max \<Longrightarrow> length rest = sc_mdat_payload_len scan \<Longrightarrow>
       read_box (pre @ sc_mdat_header scan @ rest) (length pre) =
         Inr \<lparr> bx_kind = as_bytes ''mdat'', bx_start = length pre, bx_header_len = length (sc_mdat_header scan),
              bx_total_len = length (sc_mdat_header scan) + sc_mdat_payload_len scan \<rparr>"
    "sc_mdat_payload_offset scan + sc_mdat_payload_len scan \<le> length buf"
proof -
  from assms(1) obtain f m d where loc: "mp4_locate buf = Inr (f, m, d)"
    and sc: "scan = \<lparr> sc_ftyp = slice buf (bx_start f) (box_end f - bx_start f),
           sc_moov = slice buf (bx_start m) (box_end m - bx_start m),
           sc_mdat_header = slice buf (bx_start d) (payload_start d - bx_start d),
           sc_mdat_payload_offset = payload_start d,
           sc_mdat_payload_len = bx_total_len d - bx_header_len d \<rparr>"
    by (auto simp: mp4_read_structure_def rbind_eq_Inr)
  note lb = located_box[OF loc]
  note bf = read_box_bounds[OF conjunct1[OF lb(1)]] and bd = read_box_bounds[OF conjunct1[OF lb(3)]]
  have sf: "sc_ftyp scan = slice buf (bx_start f) (bx_total_len f)" by (simp add: sc box_end_def)
  have "explicit_at buf (bx_start f)"
    using assms(3) bf(2,3) unfolding sf explicit_at_def by (simp add: slice_slice)
  from cut_box[OF conjunct1[OF lb(1)] this assms(2)] lb(1) show "\<exists>f. tiles (sc_ftyp scan) 0 [f] \<and> bx_kind f = as_bytes ''ftyp''"
    unfolding sf[symmetric] by (intro exI[of _ "f\<lparr> bx_start := 0 \<rparr>"]) simp
  show "length (sc_moov scan) \<le> u64_max" using assms(2) by (simp add: sc)
  have sh: "sc_mdat_header scan = slice buf (bx_start d) (bx_header_len d)" "length (sc_mdat_header scan) = bx_header_len d"
    using bd by (simp_all add: sc payload_start_def box_end_def)
  have sl: "sc_mdat_payload_len scan = bx_total_len d - bx_header_len d" by (simp add: sc)
  show "sc_mdat_payload_offset scan + sc_mdat_payload_len scan \<le> length buf"
    using bd by (simp add: sc payload_start_def box_end_def)
  fix pre rest assume u: "length (pre @ sc_mdat_header scan @ rest) \<le> u64_max" and lr: "length rest = sc_mdat_payload_len scan"
  let ?F = "pre @ sc_mdat_header scan @ rest"
  have "slice ?F (length pre) (bx_header_len d) = sc_mdat_header scan" using sh(2) by (simp add: slice_def)
  hence h: "slice ?F (length pre) (bx_header_len d) = slice buf (bx_start d) (bx_header_len d)" by (simp only: sh(1))
  have tl: "length ?F - length pre = bx_total_len d" using sh(2) lr sl bd(3) by simp
  have eof: "bx_total_len d = length buf - bx_start d" if "\<not> explicit_at buf (bx_start d)"
    using conjunct1[OF lb(3)] that
    by (auto simp: read_box_def rbind_eq_Inr read_u32_be_eq explicit_at_def split: if_splits option.splits)
      (metis box_ref.select_convs(4))
  have "read_box ?F (length pre) = Inr (d\<lparr> bx_start := length pre \<rparr>)"
    using tl eof u h sh(2) lr sl bd(3) by (intro read_box_cong[OF conjunct1[OF lb(3)]]) auto
  moreover have "d\<lparr> bx_start := length pre \<rparr> = \<lparr> bx_kind = as_bytes ''mdat'', bx_start = length pre,
      bx_header_len = length (sc_mdat_header scan), bx_total_len = length (sc_mdat_header scan) + sc_mdat_payload_len scan \<rparr>"
    using lb(3) sh(2) sl bd(3) by (cases d) simp
  ultimately show "read_box ?F (length pre) = Inr \<lparr> bx_kind = as_bytes ''mdat'', bx_start = length pre,
      bx_header_len = length (sc_mdat_header scan), bx_total_len = length (sc_mdat_header scan) + sc_mdat_payload_len scan \<rparr>" by simp
qed

subsection \<open>The theorem\<close>

lemma one_box_three:
  assumes "bx_kind f = as_bytes ''ftyp''" "bx_kind m = as_bytes ''moov''" "bx_kind d = as_bytes ''mdat''"
  shows "one_box [f, m, d] (as_bytes ''ftyp'') = Inr f" "one_box [f, m, d] (as_bytes ''moov'') = Inr m"
    "one_box [f, m, d] (as_bytes ''mdat'') = Inr d" "\<not> list_ex (\<lambda>b. bx_kind b = as_bytes ''moof'') [f, m, d]"
proof -
  have k: "as_bytes ''ftyp'' \<noteq> as_bytes ''moov''" "as_bytes ''ftyp'' \<noteq> as_bytes ''mdat''" "as_bytes ''moov'' \<noteq> as_bytes ''mdat''"
    "as_bytes ''moof'' \<noteq> as_bytes ''ftyp''" "as_bytes ''moof'' \<noteq> as_bytes ''moov''" "as_bytes ''moof'' \<noteq> as_bytes ''mdat''"
    by code_simp+
  show "one_box [f, m, d] (as_bytes ''ftyp'') = Inr f" "one_box [f, m, d] (as_bytes ''moov'') = Inr m"
    "one_box [f, m, d] (as_bytes ''mdat'') = Inr d" "\<not> list_ex (\<lambda>b. bx_kind b = as_bytes ''moof'') [f, m, d]"
    using assms k k[symmetric] by (simp_all add: one_box_def)
qed

lemma file_structure:
  assumes "tiles ftyp 0 [f]" "bx_kind f = as_bytes ''ftyp''" "box_ok (as_bytes ''moov'', mp)"
    "length (ftyp @ box_str (as_bytes ''moov'', mp) @ mh @ audio) \<le> u64_max"
    "read_box (ftyp @ box_str (as_bytes ''moov'', mp) @ mh @ audio) (length ftyp + length (box_str (as_bytes ''moov'', mp))) =
       Inr \<lparr> bx_kind = as_bytes ''mdat'', bx_start = length ftyp + length (box_str (as_bytes ''moov'', mp)),
            bx_header_len = length mh, bx_total_len = length mh + length audio \<rparr>"
  shows "mp4_read_structure (ftyp @ box_str (as_bytes ''moov'', mp) @ mh @ audio) =
    rbind (validate_moov mp) (\<lambda>_. Inr \<lparr> sc_ftyp = ftyp, sc_moov = box_str (as_bytes ''moov'', mp), sc_mdat_header = mh,
      sc_mdat_payload_offset = length ftyp + length (box_str (as_bytes ''moov'', mp)) + length mh,
      sc_mdat_payload_len = length audio \<rparr>)"
proof -
  let ?M = "box_str (as_bytes ''moov'', mp)"
  let ?F = "ftyp @ ?M @ mh @ audio"
  define m where "m = \<lparr> bx_kind = as_bytes ''moov'', bx_start = length ftyp, bx_header_len = 8, bx_total_len = 8 + length mp \<rparr>"
  define d where "d = \<lparr> bx_kind = as_bytes ''mdat'', bx_start = length ftyp + length ?M, bx_header_len = length mh,
      bx_total_len = length mh + length audio \<rparr>"
  have lM: "length ?M = 8 + length mp" by (simp add: box_str_length)
  have rd: "read_box ?F (length ftyp + length ?M) = Inr d" using assms(5) by (simp add: d_def)
  have t: "tiles (ftyp @ ?M) 0 ([f] @ map (moved (length ftyp))
      [\<lparr> bx_kind = fst (as_bytes ''moov'', mp), bx_start = 0, bx_header_len = 8, bx_total_len = 8 + length (snd (as_bytes ''moov'', mp)) \<rparr>])"
    using assms(4) by (intro tiles_append[OF assms(1) tiles_box_str[OF assms(3)]]) simp
  have mm: "map (moved (length ftyp))
      [\<lparr> bx_kind = fst (as_bytes ''moov'', mp), bx_start = 0, bx_header_len = 8, bx_total_len = 8 + length (snd (as_bytes ''moov'', mp)) \<rparr>] = [m]"
    by (simp add: moved_def m_def)
  have t2: "tiles (ftyp @ ?M) 0 [f, m]" using t unfolding mm by simp
  have ed: "box_end d = length ?F" by (simp add: d_def box_end_def)
  have d8: "length ftyp + length ?M + 8 \<le> length ?F" using box_end_bounds[OF rd] ed by simp
  have "boxes_from ?F (length (ftyp @ ?M)) = Inr [d]"
    using d8 rd ed boxes_from_end[of ?F "length ?F"] by (subst boxes_from.simps) simp
  hence c: "child_boxes ?F = Inr [f, m, d]"
    using tiles_prefix(1)[OF t2, of "mh @ audio"] assms(4) by (simp add: child_boxes_def)
  have kd: "bx_kind m = as_bytes ''moov''" "bx_kind d = as_bytes ''mdat''" by (simp_all add: m_def d_def)
  have f0: "bx_start f = 0" "box_end f = length ftyp" using assms(1) read_box_bounds(1)[of ftyp 0 f] by simp_all
  have pm: "box_payload m ?F = mp"
    using lM by (simp add: box_payload_def payload_start_def box_end_def m_def slice_def box_str_def)
  have loc: "mp4_locate ?F = rbind (validate_moov mp) (\<lambda>_. Inr (f, m, d))"
    using one_box_three[OF assms(2) kd] unfolding mp4_locate_def c map_err.simps rbind.simps pm by (simp only: rbind.simps pm if_False)
  have sl: "slice ?F (bx_start f) (box_end f - bx_start f) = ftyp" "slice ?F (bx_start m) (box_end m - bx_start m) = ?M"
    "slice ?F (bx_start d) (payload_start d - bx_start d) = mh" "payload_start d = length ftyp + length ?M + length mh"
    "bx_total_len d - bx_header_len d = length audio"
    using f0 lM by (simp_all add: m_def d_def box_end_def payload_start_def slice_def)
  show ?thesis unfolding mp4_read_structure_def loc
    by (cases "validate_moov mp") (simp_all only: rbind.simps prod.case sl(1-3), simp_all only: sl(4,5))
qed

text \<open>C34: a file scanned and synthesized with new metadata parses again: the structure reader
  accepts exactly what moov's own check accepts and finds the audio payload unchanged where the layout's
  header ends; every chunk offset moved with it; and the tag, picture and binary readers return the
  written tags, the covers and the opaque values (within the given size caps). The file type box and the
  boxes of moov must state their sizes.\<close>

theorem mp4_synth_reparses:
  fixes enc :: "bytes \<Rightarrow> bytes"
  assumes "mp4_read_structure (env_backing v) = Inr scan" "length (env_backing v) \<le> u64_max" "explicit_boxes scan"
    "mp4_synthesize_layout scan tags bts arts = Inr l" "blobs_present v bts arts"
    "\<forall>t\<in>set tags. utf8_valid (as_bytes (ti_key t)) \<and> utf8_valid (as_bytes (ti_value t))"
    "\<forall>bt\<in>set bts. utf8_valid (as_bytes (bt_key bt))"
  defines "F \<equiv> layout_bytes enc v (rl_segments l)"
  shows "(\<exists>mb p bs kept. read_box (sc_moov scan) 0 = Inr mb \<and> p = drop (payload_start mb) (sc_moov scan) \<and>
      child_boxes p = Inr bs \<and>
      patch_chunk_offsets (kept_boxes p bs) (int (rl_header_len l) - int (sc_mdat_payload_offset scan)) = Inr kept \<and>
      (let moov = kept @ box_str (udta_box (ilst_items v tags bts arts) (last_chpl p None bs)) in
       mp4_read_structure F = rbind (validate_moov moov) (\<lambda>_. Inr \<lparr> sc_ftyp = sc_ftyp scan,
         sc_moov = box_str (as_bytes ''moov'', moov), sc_mdat_header = sc_mdat_header scan,
         sc_mdat_payload_offset = rl_header_len l, sc_mdat_payload_len = sc_mdat_payload_len scan \<rparr>))) \<and>
    slice F (rl_header_len l) (sc_mdat_payload_len scan) =
      slice (env_backing v) (sc_mdat_payload_offset scan) (sc_mdat_payload_len scan) \<and>
    mp4_read_tags F = written_tags tags \<and>
    mp4_read_pictures F max_art = cover_pictures v max_art arts \<and>
    mp4_read_binary_tags F max_bin = opaque_values v max_bin bts"
proof -
  let ?items = "ilst_items v tags bts arts"
  have ex: "explicit_at (sc_ftyp scan) 0" using assms(3) by (simp add: explicit_boxes_def)
  note sp = scan_parts[OF assms(1,2) ex]
  obtain mb p bs chpl U kept where lay: "read_box (sc_moov scan) 0 = Inr mb" "p = drop (payload_start mb) (sc_moov scan)"
    "child_boxes p = Inr bs" "chpl = last_chpl p None bs" "U = udta_box ?items chpl"
    "patch_chunk_offsets (kept_boxes p bs)
       (int (length (sc_ftyp scan) + length (box_str (as_bytes ''moov'', kept @ box_str U)) + length (sc_mdat_header scan)) -
        int (sc_mdat_payload_offset scan)) = Inr kept"
    "\<forall>x\<in>set ?items. nested x" "box_ok U" "box_ok (as_bytes ''moov'', kept @ box_str U)"
    "F = sc_ftyp scan @ box_str (as_bytes ''moov'', kept @ box_str U) @
       sc_mdat_header scan @ slice (env_backing v) (sc_mdat_payload_offset scan) (sc_mdat_payload_len scan)"
    "length kept = length (kept_boxes p bs)"
    "rl_total_len l = length (sc_ftyp scan) + length (box_str (as_bytes ''moov'', kept @ box_str U)) +
       length (sc_mdat_header scan) + sc_mdat_payload_len scan"
    "rl_header_len l = length (sc_ftyp scan) + length (box_str (as_bytes ''moov'', kept @ box_str U)) + length (sc_mdat_header scan)"
    "rl_total_len l \<le> u64_max"
    unfolding F_def by (rule mp4_layout_steps[OF assms(4,5), of enc])
  define audio where "audio = slice (env_backing v) (sc_mdat_payload_offset scan) (sc_mdat_payload_len scan)"
  let ?M = "box_str (as_bytes ''moov'', kept @ box_str U)"
  note Feq = lay(10)[folded audio_def]
  have la: "length audio = sc_mdat_payload_len scan" using sp(4) by (simp add: audio_def)
  have lF: "length (sc_ftyp scan @ ?M @ sc_mdat_header scan @ audio) \<le> u64_max" using lay(12,14) la by simp
  obtain f where f: "tiles (sc_ftyp scan) 0 [f]" "bx_kind f = as_bytes ''ftyp''" using sp(1) by blast
  have exp: "list_all (\<lambda>b. explicit_at p (bx_start b)) bs" using assms(3) lay(1,3) by (simp add: explicit_boxes_def Let_def lay(2)[symmetric])
  have lk: "length (kept_boxes p bs) \<le> u64_max" using lay(9,11) by (simp add: box_ok_def u32_max_def u64_max_def)
  have "length p \<le> u64_max" using sp(2) by (simp add: lay(2))
  from kept_tiles[OF lay(3) exp this lk] obtain ks where ks: "tiles (kept_boxes p bs) 0 ks" "\<forall>b\<in>set ks. bx_kind b \<noteq> as_bytes ''udta''"
    by blast
  note kt = patched_tiles(1)[OF lay(6) ks(1) lk]
  have "read_box ((sc_ftyp scan @ ?M) @ sc_mdat_header scan @ audio) (length (sc_ftyp scan @ ?M)) =
      Inr \<lparr> bx_kind = as_bytes ''mdat'', bx_start = length (sc_ftyp scan @ ?M), bx_header_len = length (sc_mdat_header scan),
        bx_total_len = length (sc_mdat_header scan) + sc_mdat_payload_len scan \<rparr>"
    using lF la by (intro sp(3)) simp_all
  hence "mp4_read_structure F = rbind (validate_moov (kept @ box_str U)) (\<lambda>_. Inr \<lparr> sc_ftyp = sc_ftyp scan,
         sc_moov = ?M, sc_mdat_header = sc_mdat_header scan,
         sc_mdat_payload_offset = rl_header_len l, sc_mdat_payload_len = sc_mdat_payload_len scan \<rparr>)"
    using file_structure[OF f lay(9) lF] unfolding Feq lay(13) by (simp add: la del: length_append) (simp add: la)
  moreover have "slice F (rl_header_len l) (sc_mdat_payload_len scan) = audio"
    unfolding Feq lay(13) using la by (simp add: slice_def)
  moreover have il: "ilst_atoms F = map item_box ?items"
  proof -
    have "\<forall>b\<in>set [f]. bx_kind b \<noteq> as_bytes ''moov''" using f(2) kinds_differ by simp
    from udta_ilst[OF f(1) this kt ks(2), of ?items chpl "sc_mdat_header scan @ audio", folded lay(5)] show ?thesis
      using lay(7,8,9) lF unfolding Feq by simp
  qed
  moreover have "mp4_read_tags F = written_tags tags"
  proof -
    have "mp4_read_tags F = concat (map item_tags ?items)"
      unfolding mp4_read_tags_def il map_map comp_def by (simp add: item_tags_def[abs_def] item_box_def case_prod_unfold)
    thus ?thesis using item_list_tags[OF lay(7) assms(6,7)] by simp
  qed
  moreover note pictures_of_atoms[of F max_art, unfolded il item_list_streamed(1)[OF lay(7) assms(7,5)]]
    binaries_of_atoms[of F max_bin, unfolded il item_list_streamed(2)[OF lay(7) assms(7,5)]]
  ultimately show ?thesis
    using lay(1,2,3) lay(6)[folded lay(13)] unfolding audio_def lay(5) lay(4) Let_def by blast
qed

definition demo_mp4_env :: byte_env where
  "demo_mp4_env = \<lparr> env_art = (\<lambda>_. [1, 2, 3]), env_tag = (\<lambda>_. [9, 8]), env_backing = demo_mp4, env_ogg = (\<lambda>_ _ _. []) \<rparr>"

definition demo_mp4_tags :: "tag_input list" where
  "demo_mp4_tags = [\<lparr> ti_key = ''title'', ti_value = ''Abc'' \<rparr>, \<lparr> ti_key = ''compilation'', ti_value = ''257'' \<rparr>]"

definition demo_mp4_binary :: "binary_tag_input list" where
  "demo_mp4_binary = [\<lparr> bt_key = ''----:org.x:blob'', bt_payload_id = 1, bt_len = 2 \<rparr>]"

definition demo_mp4_arts :: "art_input list" where
  "demo_mp4_arts = [\<lparr> ai_art_id = 1, ai_mime = ''image/png'', ai_description = [], ai_picture_type = 3,
     ai_width = 1, ai_height = 1, ai_data_len = 3 \<rparr>]"

definition demo_mp4_layout :: region_layout where
  "demo_mp4_layout = projr (mp4_synthesize_layout demo_mp4_scan demo_mp4_tags demo_mp4_binary demo_mp4_arts)"

lemma mp4_synth_reparses_witness:
  "mp4_read_tags (layout_bytes b64_std demo_mp4_env (rl_segments demo_mp4_layout)) =
     [(''title'', ''Abc''), (''compilation'', ''1'')] \<and>
   mp4_read_binary_tags (layout_bytes b64_std demo_mp4_env (rl_segments demo_mp4_layout)) 100 =
     [\<lparr> ebt_key = ''----:org.x:blob'', ebt_payload = [9, 8] \<rparr>]"
proof -
  have r: "mp4_read_structure (env_backing demo_mp4_env) = Inr demo_mp4_scan" using demo_mp4_reads by (simp add: demo_mp4_env_def)
  have "length (env_backing demo_mp4_env) = 113" by code_simp
  hence l: "length (env_backing demo_mp4_env) \<le> u64_max" by (simp add: u64_max_def)
  have e: "explicit_boxes demo_mp4_scan" by code_simp
  have "\<not> isl (mp4_synthesize_layout demo_mp4_scan demo_mp4_tags demo_mp4_binary demo_mp4_arts)" by code_simp
  hence s: "mp4_synthesize_layout demo_mp4_scan demo_mp4_tags demo_mp4_binary demo_mp4_arts = Inr demo_mp4_layout"
    by (simp add: demo_mp4_layout_def)
  have ok: "blobs_present demo_mp4_env demo_mp4_binary demo_mp4_arts"
    "\<forall>t\<in>set demo_mp4_tags. utf8_valid (as_bytes (ti_key t)) \<and> utf8_valid (as_bytes (ti_value t))"
    "\<forall>bt\<in>set demo_mp4_binary. utf8_valid (as_bytes (bt_key bt))"
    by code_simp+
  have w: "written_tags demo_mp4_tags = [(''title'', ''Abc''), (''compilation'', ''1'')]"
    "opaque_values demo_mp4_env 100 demo_mp4_binary = [\<lparr> ebt_key = ''----:org.x:blob'', ebt_payload = [9, 8] \<rparr>]"
    by code_simp+
  from mp4_synth_reparses[OF r l e s ok, of b64_std 0 100] w show ?thesis by simp
qed

end
