(* ===== verification/Core_Base.thy ===== *)
theory Core_Base
  imports Format_Base
begin

text \<open>
  Errors of the integration layer, musefs-core/src/error.rs, with the store's errors
  (musefs-db/src/error.rs) and the template parser's (musefs-core/src/template.rs), and positioned
  reads of the backing file. A file is the list of its bytes; an I/O error is its kind.
\<close>

datatype io_error = UnexpectedEof | NotFound | OtherIo

datatype db_error =
    Sqlite string
  | AudioBoundsOutOfRange nat nat nat
  | SchemaMismatch string
  | StoreTooNew int int
  | StoreInUse string
  | FieldTooLarge string string int int
  | InvalidStructuralBlock int string
  | TooManyValues int nat nat
  | TooManyArtRows int nat nat

datatype template_error =
    NestingTooDeep nat
  | ControlByte byte
  | UnterminatedField
  | UnclosedSection

datatype core_error =
    DbErr db_error
  | DbOpen string db_error
  | FormatErr format_error
  | InvalidTemplate template_error
  | Mp4MetadataTooLarge string nat nat
  | Io io_error
  | BackingIo string io_error
  | BackingChanged string
  | TrackFieldTooLarge string string nat nat string
  | TrackMetadataTooLarge string string nat nat
  | OrphanedArt int int
  | InvalidPictureType int int nat
  | ArtTooLarge int int nat nat
  | HeaderTooLarge nat nat
  | TrackNotFound int
  | NoEntry nat
  | IsDir nat
  | NotADir nat
  | HandleTableFull

type_synonym 'a cresult = "core_error + 'a"

text \<open>The store's length and row-count guards.\<close>

definition check_field_len :: "string \<Rightarrow> string \<Rightarrow> int \<Rightarrow> int \<Rightarrow> db_error + unit" where
  "check_field_len tab fld len mx = (if len > mx then Inl (FieldTooLarge tab fld len mx) else Inr ())"

subsection \<open>The backing file\<close>

definition file_read_at :: "bytes \<Rightarrow> nat \<Rightarrow> nat \<Rightarrow> bytes" where
  "file_read_at f off n = slice f off n"

definition file_read_exact :: "bytes \<Rightarrow> nat \<Rightarrow> nat \<Rightarrow> bytes cresult" where
  "file_read_exact f off n = (if n = 0 \<or> off + n \<le> length f then Inr (slice f off n) else Inl (Io UnexpectedEof))"

text \<open>
  What a reader of the backing file promises its clients: a range inside the file is returned
  byte for byte.
\<close>

locale backing_reader =
  fixes rd :: "nat \<Rightarrow> nat \<Rightarrow> bytes cresult" and f :: bytes
  assumes rd_exact: "off + n \<le> length f \<Longrightarrow> rd off n = Inr (slice f off n)"

interpretation plain_file: backing_reader "file_read_exact f" f for f
  by unfold_locales (simp add: file_read_exact_def)

end
