(* ===== verification/Ogg_Serve.thy ===== *)
theory Ogg_Serve
  imports Core_Base Page_Chunks
begin

text \<open>
  Serving a window of an Ogg audio region, musefs-core/src/ogg_index.rs: the page holding the
  window's start is found by a backward scan with checksum validation, then pages are walked
  forward, each header renumbered algebraically and each payload slice read from the backing file.
  The abstract bytes are the renumbered pages of the region, one after the other.
\<close>

subsection \<open>Finding a page start\<close>

type_synonym last_page_memo = "(nat \<times> nat \<times> bytes) option"

definition max_ogg_page_bytes :: nat where "max_ogg_page_bytes = 65307"
definition max_ogg_header_bytes :: nat where "max_ogg_header_bytes = 282"
definition max_crc_checks :: nat where "max_crc_checks = 64"

abbreviation malformed :: core_error where "malformed \<equiv> FormatErr Malformed"

definition page_crc_ok :: "bytes \<Rightarrow> nat \<Rightarrow> bool" where
  "page_crc_ok f page_start =
     (let head = file_read_at f page_start max_ogg_header_bytes
      in if length head < 27 then False
         else let seg_count = unat (head ! 26);
                  header_len = 27 + seg_count
              in if length head < header_len then False
                 else let payload_len = sum_bytes (slice head 27 seg_count);
                          n = header_len + payload_len
                      in case file_read_exact f page_start n of
                           Inl _ \<Rightarrow> False
                         | Inr page \<Rightarrow> (case verify_page_crc page of Inr b \<Rightarrow> b | Inl _ \<Rightarrow> False))"

definition cheap_ok :: "bytes \<Rightarrow> nat \<Rightarrow> bool" where
  "cheap_ok w i =
     ((case get_at w (i + 4) of None \<Rightarrow> True | Some v \<Rightarrow> v = 0) \<and>
      (case get_at w (i + 5) of None \<Rightarrow> True | Some ht \<Rightarrow> ht AND 0xF8 = 0))"

fun scan_back :: "bytes \<Rightarrow> nat \<Rightarrow> bytes \<Rightarrow> nat \<Rightarrow> nat \<Rightarrow> nat cresult" where
  "scan_back f scan_start w i crc_checks =
     (let next = (\<lambda>checks. case i of 0 \<Rightarrow> Inl malformed | Suc j \<Rightarrow> scan_back f scan_start w j checks)
      in if starts_with (drop i w) capture \<and> cheap_ok w i then
           if crc_checks = max_crc_checks then Inl malformed
           else if page_crc_ok f (scan_start + i) then Inr (scan_start + i)
           else next (crc_checks + 1)
         else next crc_checks)"

declare scan_back.simps [simp del]

definition scan_for_page :: "bytes \<Rightarrow> nat \<Rightarrow> nat \<Rightarrow> nat cresult" where
  "scan_for_page f audio_offset abs_target =
     (let scan_start = max (abs_target - max_ogg_page_bytes) audio_offset;
          window_len = abs_target - scan_start
      in rbind (file_read_exact f scan_start window_len) (\<lambda>w.
         scan_back f scan_start w (window_len - 4) 0))"

definition find_page_start :: "bytes \<Rightarrow> nat \<Rightarrow> nat \<Rightarrow> last_page_memo \<Rightarrow> nat cresult" where
  "find_page_start f audio_offset abs_target memo =
     (if abs_target - audio_offset < 4 then Inr audio_offset
      else case memo of
        None \<Rightarrow> scan_for_page f audio_offset abs_target
      | Some (rel, total_len, _) \<Rightarrow>
          rbind (ok_or (checked_add64 audio_offset rel) malformed) (\<lambda>start.
          rbind (ok_or (checked_add64 start total_len) malformed) (\<lambda>e.
          if start \<le> abs_target \<and> abs_target < e then Inr start
          else scan_for_page f audio_offset abs_target)))"

subsection \<open>Walking pages forward\<close>

definition patched_header ::
  "(nat \<times> bytes) option \<Rightarrow> nat \<Rightarrow> int \<Rightarrow> bytes \<Rightarrow> (bytes \<times> (nat \<times> bytes) option) cresult" where
  "patched_header carried page_rel seq_delta hdr =
     (case carried of
        Some (rel, h) \<Rightarrow>
          if rel = page_rel then Inr (h, None)
          else rbind (map_err FormatErr (patch_page_header_algebraic hdr (u32_le (slice hdr 18 4) + of_int seq_delta)))
                 (\<lambda>h. Inr (h, carried))
      | None \<Rightarrow>
          rbind (map_err FormatErr (patch_page_header_algebraic hdr (u32_le (slice hdr 18 4) + of_int seq_delta)))
            (\<lambda>h. Inr (h, None)))"

definition header_overlap :: "nat \<Rightarrow> nat \<Rightarrow> nat \<Rightarrow> nat \<Rightarrow> bytes \<Rightarrow> bytes" where
  "header_overlap rstart rend page_rel hdr_end patched_hdr =
     (let hs = max rstart page_rel; he = min rend hdr_end
      in if hs < he then slice patched_hdr (hs - page_rel) (he - hs) else [])"

definition payload_overlap ::
  "(nat \<Rightarrow> nat \<Rightarrow> bytes cresult) \<Rightarrow> nat \<Rightarrow> nat \<Rightarrow> nat \<Rightarrow> nat \<Rightarrow> nat \<Rightarrow> bytes cresult" where
  "payload_overlap rd rstart rend hdr_end page_end payload_pos =
     (let ps = max rstart hdr_end; pe = min rend page_end
      in if ps < pe then rd (payload_pos + (ps - hdr_end)) (pe - ps) else Inr [])"

function serve_pages ::
  "(nat \<Rightarrow> nat \<Rightarrow> bytes cresult) \<Rightarrow> nat \<Rightarrow> nat \<Rightarrow> int \<Rightarrow> nat \<Rightarrow> nat \<Rightarrow> nat \<Rightarrow> (nat \<times> bytes) option \<Rightarrow>
   last_page_memo \<Rightarrow> bytes \<Rightarrow> (bytes \<times> last_page_memo) cresult" where
  "serve_pages rd ao audio_end seq_delta rstart rend pos carried last_entry out =
     (if pos < audio_end then
        let page_rel = pos - ao
        in if page_rel \<ge> rend then Inr (out, last_entry)
        else rbind (rd pos (min max_ogg_header_bytes (audio_end - pos))) (\<lambda>hdr_buf.
        if length hdr_buf < 27 then Inl malformed
        else let seg_count = unat (hdr_buf ! 26);
                 header_len = 27 + seg_count
        in if length hdr_buf < header_len then Inl malformed
        else let payload_len = sum_bytes (slice hdr_buf 27 seg_count)
        in rbind (patched_header carried page_rel seq_delta (take header_len hdr_buf)) (\<lambda>(patched_hdr, carried).
        rbind (ok_or (checked_add64 page_rel header_len) malformed) (\<lambda>hdr_end.
        rbind (ok_or (checked_add64 hdr_end payload_len) malformed) (\<lambda>page_end.
        let out = out @ header_overlap rstart rend page_rel hdr_end patched_hdr
        in rbind (payload_overlap rd rstart rend hdr_end page_end (pos + header_len)) (\<lambda>payload.
        rbind (ok_or (checked_add64 header_len payload_len) malformed) (\<lambda>total_len.
        rbind (ok_or (checked_add64 pos total_len) malformed) (\<lambda>next_pos.
        if next_pos > audio_end then Inl malformed
        else serve_pages rd ao audio_end seq_delta rstart rend next_pos carried
               (Some (page_rel, total_len, patched_hdr)) (out @ payload))))))))
      else Inr (out, last_entry))"
  by auto
termination
  by (relation "measure (\<lambda>(_, _, audio_end, _, _, _, pos, _, _, _). audio_end - pos)") auto

declare serve_pages.simps [simp del]

definition serve_ogg_window ::
  "bytes \<Rightarrow> (nat \<Rightarrow> nat \<Rightarrow> bytes cresult) \<Rightarrow> nat \<Rightarrow> nat \<Rightarrow> int \<Rightarrow> nat \<Rightarrow> nat \<Rightarrow> bytes \<Rightarrow> last_page_memo \<Rightarrow>
   (bytes \<times> last_page_memo) cresult" where
  "serve_ogg_window f rd audio_offset audio_length seq_delta rstart rend out memo =
     (if rstart \<ge> rend then Inr (out, memo)
      else rbind (ok_or (checked_add64 audio_offset audio_length) malformed) (\<lambda>audio_end.
      rbind (ok_or (checked_add64 audio_offset rstart) malformed) (\<lambda>abs_rstart.
      rbind (find_page_start f audio_offset abs_rstart memo) (\<lambda>pos.
      rbind (serve_pages rd audio_offset audio_end seq_delta rstart rend pos
               (map_option (\<lambda>(rel, _, h). (rel, h)) memo) None out) (\<lambda>(out, last_entry).
      Inr (out, if last_entry \<noteq> None then last_entry else memo))))))"

subsection \<open>The renumbered region\<close>

lemma page_total_pos: "parse_page f pos = Inr h \<Longrightarrow> 0 < page_total_len h"
  by (auto simp: page_total_len_def dest!: parse_page_bounds)

function well_paged :: "bytes \<Rightarrow> nat \<Rightarrow> nat \<Rightarrow> bool" where
  "well_paged f pos audio_end =
     (if audio_end \<le> pos then pos = audio_end
      else case parse_page f pos of
             Inl _ \<Rightarrow> False
           | Inr h \<Rightarrow> pos + page_total_len h \<le> audio_end \<and> well_paged f (pos + page_total_len h) audio_end)"
  by auto
termination
  by (relation "measure (\<lambda>(_, pos, audio_end). audio_end - pos)") (auto dest: page_total_pos)

function page_starts :: "bytes \<Rightarrow> nat \<Rightarrow> nat \<Rightarrow> nat list" where
  "page_starts f pos audio_end =
     (if audio_end \<le> pos then []
      else pos # (case parse_page f pos of
             Inl _ \<Rightarrow> []
           | Inr h \<Rightarrow> page_starts f (pos + page_total_len h) audio_end))"
  by auto
termination
  by (relation "measure (\<lambda>(_, pos, audio_end). audio_end - pos)") (auto dest: page_total_pos)

definition new_header :: "bytes \<Rightarrow> nat \<Rightarrow> int \<Rightarrow> bytes" where
  "new_header f pos seq_delta =
     projr (patch_page_header_algebraic (slice f pos (27 + unat (f ! (pos + 26))))
       (u32_le (slice f (pos + 18) 4) + of_int seq_delta))"

function renumbered :: "bytes \<Rightarrow> nat \<Rightarrow> nat \<Rightarrow> int \<Rightarrow> bytes" where
  "renumbered f pos audio_end seq_delta =
     (if audio_end \<le> pos then []
      else case parse_page f pos of
             Inl _ \<Rightarrow> []
           | Inr h \<Rightarrow> new_header f pos seq_delta @ slice f (pos + ph_header_len h) (ph_payload_len h) @
                      renumbered f (pos + page_total_len h) audio_end seq_delta)"
  by auto
termination
  by (relation "measure (\<lambda>(_, pos, audio_end, _). audio_end - pos)") (auto dest: page_total_pos)

declare well_paged.simps [simp del] page_starts.simps [simp del] renumbered.simps [simp del]

lemma parse_page_fields:
  "parse_page f pos = Inr h \<Longrightarrow>
   ph_header_len h = 27 + unat (f ! (pos + 26)) \<and> pos + 27 + unat (f ! (pos + 26)) \<le> length f \<and>
   ph_payload_len h = sum_bytes (slice f (pos + 27) (unat (f ! (pos + 26)))) \<and>
   page_total_len h = 27 + unat (f ! (pos + 26)) + sum_bytes (slice f (pos + 27) (unat (f ! (pos + 26))))"
  by (auto simp: parse_page_def page_total_len_def Let_def split: if_splits)

lemma well_pagedE:
  assumes "well_paged f pos audio_end" "pos < audio_end"
  obtains h where "parse_page f pos = Inr h" "pos + page_total_len h \<le> audio_end"
    "well_paged f (pos + page_total_len h) audio_end"
  using assms by (subst (asm) well_paged.simps) (auto split: sum.splits)

lemma new_header_patch:
  assumes "pos + 27 + unat (f ! (pos + 26)) \<le> length f"
  shows "patch_page_header_algebraic (slice f pos (27 + unat (f ! (pos + 26))))
      (u32_le (slice f (pos + 18) 4) + of_int seq_delta) = Inr (new_header f pos seq_delta)"
    "length (new_header f pos seq_delta) = 27 + unat (f ! (pos + 26))"
proof -
  have n: "slice f pos (27 + unat (f ! (pos + 26))) ! 26 = f ! (pos + 26)"
    using assms by (simp add: slice_nth)
  then have "\<exists>h. patch_page_header_algebraic (slice f pos (27 + unat (f ! (pos + 26))))
      (u32_le (slice f (pos + 18) 4) + of_int seq_delta) = Inr h \<and> length h = 27 + unat (f ! (pos + 26))"
    using assms by (simp add: patch_page_header_algebraic_def Let_def le32_length)
  then show "patch_page_header_algebraic (slice f pos (27 + unat (f ! (pos + 26))))
      (u32_le (slice f (pos + 18) 4) + of_int seq_delta) = Inr (new_header f pos seq_delta)"
    "length (new_header f pos seq_delta) = 27 + unat (f ! (pos + 26))"
    by (auto simp: new_header_def)
qed

lemma header_window:
  assumes "pos + 27 + n \<le> audio_end" "audio_end \<le> length f" "n < 256"
  defines "buf \<equiv> slice f pos (min max_ogg_header_bytes (audio_end - pos))"
  shows "27 + n \<le> length buf" "take (27 + n) buf = slice f pos (27 + n)" "slice buf 27 n = slice f (pos + 27) n"
    "buf ! 26 = f ! (pos + 26)" "slice (take (27 + n) buf) 18 4 = slice f (pos + 18) 4"
proof -
  define m where "m = min max_ogg_header_bytes (audio_end - pos)"
  have m: "27 + n \<le> m" "pos + m \<le> length f" using assms(1-3) by (auto simp: m_def max_ogg_header_bytes_def)
  show "27 + n \<le> length buf" "slice buf 27 n = slice f (pos + 27) n" "buf ! 26 = f ! (pos + 26)"
    using m by (simp_all add: buf_def slice_slice slice_nth flip: m_def)
  show t: "take (27 + n) buf = slice f pos (27 + n)"
    using m slice_slice[of 0 "27 + n" m f pos] by (simp add: buf_def slice_def flip: m_def)
  show "slice (take (27 + n) buf) 18 4 = slice f (pos + 18) 4"
    unfolding t using m by (simp add: slice_slice)
qed

definition carried_ok :: "bytes \<Rightarrow> nat \<Rightarrow> int \<Rightarrow> nat list \<Rightarrow> (nat \<times> bytes) option \<Rightarrow> bool" where
  "carried_ok f ao seq_delta starts carried \<longleftrightarrow>
     (\<forall>p h. carried = Some (p - ao, h) \<and> p \<in> set starts \<longrightarrow> h = new_header f p seq_delta)"

definition entry_ok :: "bytes \<Rightarrow> nat \<Rightarrow> int \<Rightarrow> nat list \<Rightarrow> last_page_memo \<Rightarrow> bool" where
  "entry_ok f ao seq_delta starts memo \<longleftrightarrow>
     (case memo of None \<Rightarrow> True
      | Some (rel, n, h) \<Rightarrow> ao + rel \<in> set starts \<and> h = new_header f (ao + rel) seq_delta \<and>
          (\<exists>ph. parse_page f (ao + rel) = Inr ph \<and> n = page_total_len ph))"

lemma patched_header_at:
  assumes "carried_ok f ao seq_delta starts carried" "pos \<in> set starts" "pos + 27 + unat (f ! (pos + 26)) \<le> length f"
  shows "\<exists>c. patched_header carried (pos - ao) seq_delta (slice f pos (27 + unat (f ! (pos + 26)))) =
      Inr (new_header f pos seq_delta, c) \<and> (c = carried \<or> c = None)"
proof -
  have "slice (slice f pos (27 + unat (f ! (pos + 26)))) 18 4 = slice f (pos + 18) 4" by (simp add: slice_slice)
  then show ?thesis
    using assms(1,2) new_header_patch(1)[OF assms(3), of seq_delta]
    by (auto simp: patched_header_def carried_ok_def split: option.splits)
qed

lemma window_overlap:
  "window p0 e cs b = (if max p0 cs < min e (cs + length b)
     then slice b (max p0 cs - cs) (min e (cs + length b) - max p0 cs) else [])"
  by (simp add: window_slice window_empty)

lemma header_overlap_window:
  "header_overlap rs re cs (cs + length hdr) hdr = window rs re cs hdr"
  unfolding header_overlap_def window_overlap Let_def ..

lemma payload_overlap_window:
  assumes "backing_reader rd f" "q + pl \<le> length f"
  shows "payload_overlap rd rs re he (he + pl) q = Inr (window rs re he (slice f q pl))"
proof -
  have l: "length (slice f q pl) = pl" using assms(2) by simp
  have e: "rd (q + (max rs he - he)) (min re (he + pl) - max rs he) =
      Inr (slice (slice f q pl) (max rs he - he) (min re (he + pl) - max rs he))" if "max rs he < min re (he + pl)"
  proof -
    have "q + (max rs he - he) + (min re (he + pl) - max rs he) \<le> length f"
      using that assms(2) by linarith
    then show ?thesis
      using backing_reader.rd_exact[OF assms(1)] that by (subst slice_slice) linarith+
  qed
  show ?thesis unfolding payload_overlap_def window_overlap l Let_def
    by (cases "max rs he < min re (he + pl)") (simp_all only: if_True if_False e)
qed

lemma serve_pages_step:
  assumes r: "backing_reader rd f" and ae: "audio_end \<le> length f" "audio_end \<le> u64_max"
    and ao: "ao \<le> pos" and h: "parse_page f pos = Inr h" "pos + page_total_len h \<le> audio_end"
    and c: "carried_ok f ao d starts carried" "pos \<in> set starts" and re: "rs \<le> re" "pos - ao < re"
  shows "\<exists>c'. (c' = carried \<or> c' = None) \<and>
    serve_pages rd ao audio_end d rs re pos carried last_entry out =
    serve_pages rd ao audio_end d rs re (pos + page_total_len h) c'
      (Some (pos - ao, page_total_len h, new_header f pos d))
      (out @ window rs re (pos - ao) (new_header f pos d @ slice f (pos + ph_header_len h) (ph_payload_len h)))"
proof -
  define n where "n = unat (f ! (pos + 26))"
  define pl where "pl = sum_bytes (slice f (pos + 27) n)"
  note pf = parse_page_fields[OF h(1), folded n_def, folded pl_def]
  have n: "n < 256" by (simp add: n_def)
  have b: "pos + 27 + n \<le> audio_end" "pos < audio_end" using pf h(2) by linarith+
  note hw = header_window[OF b(1) ae(1) n]
  obtain c' where c': "patched_header carried (pos - ao) d (slice f pos (27 + n)) = Inr (new_header f pos d, c')"
      "c' = carried \<or> c' = None"
    using patched_header_at[OF c, folded n_def] pf by blast
  have rd1: "rd pos (min max_ogg_header_bytes (audio_end - pos)) = Inr (slice f pos (min max_ogg_header_bytes (audio_end - pos)))"
    using b ae by (intro backing_reader.rd_exact[OF r]) linarith
  have q: "pos + (27 + n) + pl \<le> length f" using h(2) pf ae(1) by linarith
  note pay = payload_overlap_window[OF r q, of rs re "pos - ao + (27 + n)"]
  have len: "length (new_header f pos d) = 27 + n" using new_header_patch(2)[of pos f d] pf by (simp add: n_def)
  have small: "pos - ao + (27 + n) + pl \<le> u64_max" "pos + (27 + n + pl) \<le> u64_max"
    using h(2) pf ae(2) by linarith+
  have w: "window rs re (pos - ao) (new_header f pos d @ slice f (pos + (27 + n)) pl) =
      window rs re (pos - ao) (new_header f pos d) @ window rs re (pos - ao + (27 + n)) (slice f (pos + (27 + n)) pl)"
    unfolding window_append[OF re(1)] len ..
  note hd = header_overlap_window[of rs re "pos - ao" "new_header f pos d", unfolded len]
  have step: "serve_pages rd ao audio_end d rs re pos carried last_entry out =
      serve_pages rd ao audio_end d rs re (pos + (27 + n + pl)) c' (Some (pos - ao, 27 + n + pl, new_header f pos d))
        ((out @ window rs re (pos - ao) (new_header f pos d)) @
          window rs re (pos - ao + (27 + n)) (slice f (pos + (27 + n)) pl))"
    by (subst serve_pages.simps)
      (use b re small h(2) pf hw c'(1) in
        \<open>simp add: rd1 Let_def hd[simplified] pay[simplified] checked_add64_def n_def[symmetric] pl_def[symmetric]
           del: slice_length\<close>)
  then show ?thesis using c'(2) pf by (auto simp: w add.assoc)
qed

lemma page_starts_step:
  "parse_page f pos = Inr h \<Longrightarrow> pos < audio_end \<Longrightarrow>
   page_starts f pos audio_end = pos # page_starts f (pos + page_total_len h) audio_end"
  by (subst page_starts.simps) simp

lemma renumbered_step:
  "parse_page f pos = Inr h \<Longrightarrow> pos < audio_end \<Longrightarrow>
   renumbered f pos audio_end d = (new_header f pos d @ slice f (pos + ph_header_len h) (ph_payload_len h)) @
     renumbered f (pos + page_total_len h) audio_end d"
  by (subst renumbered.simps) simp

lemma renumbered_page_length:
  "parse_page f pos = Inr h \<Longrightarrow> pos + page_total_len h \<le> length f \<Longrightarrow>
   length (new_header f pos d @ slice f (pos + ph_header_len h) (ph_payload_len h)) = page_total_len h"
  using parse_page_fields[of f pos h] new_header_patch(2)[of pos f d] by auto

lemma window_past: "e \<le> cs \<Longrightarrow> window p0 e cs b = []"
  by (simp add: window_def)

lemma serve_pages_window:
  assumes r: "backing_reader rd f" and ae: "audio_end \<le> length f" "audio_end \<le> u64_max" and re: "rs \<le> re"
    and "ao \<le> pos" "well_paged f pos audio_end" "set (page_starts f pos audio_end) \<subseteq> set starts"
    "carried_ok f ao d starts carried" "entry_ok f ao d starts last_entry"
  shows "\<exists>last'. serve_pages rd ao audio_end d rs re pos carried last_entry out =
      Inr (out @ window rs re (pos - ao) (renumbered f pos audio_end d), last') \<and> entry_ok f ao d starts last'"
  using assms(5-9)
proof (induction "audio_end - pos" arbitrary: pos carried last_entry out rule: less_induct)
  case less
  show ?case
  proof (cases "pos < audio_end \<and> pos - ao < re")
    case True
    obtain h where h: "parse_page f pos = Inr h" "pos + page_total_len h \<le> audio_end"
        "well_paged f (pos + page_total_len h) audio_end"
      using less.prems(2) True by (blast elim: well_pagedE)
    note st = page_starts_step[OF h(1), of audio_end]
    have pos: "pos \<in> set starts" and sub: "set (page_starts f (pos + page_total_len h) audio_end) \<subseteq> set starts"
      using less.prems(3) st True by auto
    obtain c' where c': "c' = carried \<or> c' = None"
      "serve_pages rd ao audio_end d rs re pos carried last_entry out =
       serve_pages rd ao audio_end d rs re (pos + page_total_len h) c'
         (Some (pos - ao, page_total_len h, new_header f pos d))
         (out @ window rs re (pos - ao) (new_header f pos d @ slice f (pos + ph_header_len h) (ph_payload_len h)))"
      using serve_pages_step[OF r ae less.prems(1) h(1,2) less.prems(4) pos re, of last_entry out] True by blast
    have ok: "carried_ok f ao d starts c'"
      using c'(1) less.prems(4) by (auto simp: carried_ok_def)
    have eok: "entry_ok f ao d starts (Some (pos - ao, page_total_len h, new_header f pos d))"
      using less.prems(1) pos h(1) by (simp add: entry_ok_def)
    have len: "length (new_header f pos d @ slice f (pos + ph_header_len h) (ph_payload_len h)) = page_total_len h"
      using h(2) ae(1) by (intro renumbered_page_length[OF h(1)]) linarith
    have w: "window rs re (pos - ao) (renumbered f pos audio_end d) =
        window rs re (pos - ao) (new_header f pos d @ slice f (pos + ph_header_len h) (ph_payload_len h)) @
        window rs re (pos + page_total_len h - ao) (renumbered f (pos + page_total_len h) audio_end d)"
      unfolding renumbered_step[OF h(1) conjunct1[OF True]] window_append[OF re] len using less.prems(1) by simp
    have "audio_end - (pos + page_total_len h) < audio_end - pos"
      using True page_total_pos[OF h(1)] by linarith
    from less.hyps[OF this trans_le_add1[OF less.prems(1)] h(3) sub ok eok] show ?thesis
      unfolding c'(2) w append_assoc[symmetric] .
  next
    case False
    then have "window rs re (pos - ao) (renumbered f pos audio_end d) = []"
      by (auto simp: window_past window_def renumbered.simps[of f pos audio_end])
    then show ?thesis using False less.prems(5) by (subst serve_pages.simps) auto
  qed
qed

lemma page_starts_trans:
  "p \<in> set (page_starts f pos audio_end) \<Longrightarrow> set (page_starts f p audio_end) \<subseteq> set (page_starts f pos audio_end)"
proof (induction f pos audio_end rule: page_starts.induct)
  case (1 f pos audio_end)
  show ?case
  proof (cases "p = pos")
    case False
    then obtain h where h: "\<not> audio_end \<le> pos" "parse_page f pos = Inr h"
        "p \<in> set (page_starts f (pos + page_total_len h) audio_end)"
      using 1(2) by (cases "parse_page f pos") (auto simp: page_starts.simps[of f pos audio_end] split: if_splits)
    then show ?thesis using 1(1)[OF h] page_starts_step[OF h(2), of audio_end] by auto
  qed simp
qed

lemma page_starts_at:
  "p \<in> set (page_starts f pos audio_end) \<Longrightarrow> well_paged f pos audio_end \<Longrightarrow>
   pos \<le> p \<and> p < audio_end \<and> well_paged f p audio_end \<and> (\<exists>h. parse_page f p = Inr h \<and> p + page_total_len h \<le> audio_end)"
proof (induction f pos audio_end rule: page_starts.induct)
  case (1 f pos audio_end)
  then have lt: "pos < audio_end" by (auto simp: page_starts.simps[of f pos audio_end] split: if_splits)
  then obtain h where h: "parse_page f pos = Inr h" "pos + page_total_len h \<le> audio_end"
      "well_paged f (pos + page_total_len h) audio_end"
    using 1 by (blast elim: well_pagedE)
  show ?case
  proof (cases "p = pos")
    case False
    then have "p \<in> set (page_starts f (pos + page_total_len h) audio_end)"
      using 1(2) page_starts_step[OF h(1) lt] by simp
    then show ?thesis using 1(1)[OF _ h(1) _ h(3)] lt by auto
  qed (use 1(3) lt h in auto)
qed

text \<open>The bytes of the renumbered region from any page on are its tail.\<close>

lemma renumbered_tail:
  "p \<in> set (page_starts f pos audio_end) \<Longrightarrow> well_paged f pos audio_end \<Longrightarrow> audio_end \<le> length f \<Longrightarrow>
   renumbered f p audio_end d = drop (p - pos) (renumbered f pos audio_end d)"
proof (induction f pos audio_end rule: page_starts.induct)
  case (1 f pos audio_end)
  then have lt: "pos < audio_end" by (auto simp: page_starts.simps[of f pos audio_end] split: if_splits)
  then obtain h where h: "parse_page f pos = Inr h" "pos + page_total_len h \<le> audio_end"
      "well_paged f (pos + page_total_len h) audio_end"
    using 1 by (blast elim: well_pagedE)
  show ?case
  proof (cases "p = pos")
    case False
    then have p: "p \<in> set (page_starts f (pos + page_total_len h) audio_end)"
      using 1(2) page_starts_step[OF h(1) lt] by simp
    have le: "pos + page_total_len h \<le> p" using page_starts_at[OF p h(3)] by simp
    have len: "length (new_header f pos d @ slice f (pos + ph_header_len h) (ph_payload_len h)) = page_total_len h"
      using h(2) 1(4) by (intro renumbered_page_length[OF h(1)]) linarith
    have "drop (p - pos) (renumbered f pos audio_end d) = drop (p - (pos + page_total_len h)) (renumbered f (pos + page_total_len h) audio_end d)"
      unfolding renumbered_step[OF h(1) lt] drop_append len using le len by (simp del: append_assoc)
    then show ?thesis using 1(1)[OF _ h(1) p h(3) 1(4)] lt by simp
  qed simp
qed

subsection \<open>The page found is a page\<close>

lemma scan_back_sound:
  "scan_back f ss w i c = Inr p \<Longrightarrow> ss \<le> p \<and> p \<le> ss + i \<and> page_crc_ok f p"
proof (induction i arbitrary: c)
  case 0
  then show ?case by (subst (asm) scan_back.simps) (auto simp: Let_def split: if_splits)
next
  case (Suc i)
  then show ?case
    by (auto simp: scan_back.simps[of f ss w "Suc i" c] Let_def split: if_splits dest!: Suc.IH)
qed

text \<open>No position of the region but a page start carries a valid page.\<close>

definition genuine_pages :: "bytes \<Rightarrow> nat \<Rightarrow> nat \<Rightarrow> bool" where
  "genuine_pages f ao audio_end \<longleftrightarrow>
     (\<forall>q. ao \<le> q \<and> q < audio_end \<and> page_crc_ok f q \<longrightarrow> q \<in> set (page_starts f ao audio_end))"

lemma scan_for_page_sound:
  assumes "scan_for_page f ao t = Inr p" "genuine_pages f ao audio_end" "ao + 4 \<le> t" "t < audio_end"
  shows "p \<in> set (page_starts f ao audio_end) \<and> p \<le> t"
proof -
  define ss where "ss = max (t - max_ogg_page_bytes) ao"
  obtain w where "scan_back f ss w (t - ss - 4) 0 = Inr p"
    using assms(1) by (auto simp: scan_for_page_def Let_def ss_def elim!: rbindE)
  from scan_back_sound[OF this] have "ss \<le> p" "p \<le> ss + (t - ss - 4)" "page_crc_ok f p" by auto
  moreover have "ao \<le> ss" "ss \<le> t" using assms(3) by (auto simp: ss_def max_ogg_page_bytes_def)
  ultimately show ?thesis using assms(2,4) by (auto simp: genuine_pages_def)
qed

lemma find_page_start_sound:
  assumes "find_page_start f ao t memo = Inr p" "genuine_pages f ao audio_end" "ao \<le> t" "t < audio_end"
    "entry_ok f ao d (page_starts f ao audio_end) memo"
  shows "p \<in> set (page_starts f ao audio_end) \<and> p \<le> t"
proof (cases "t - ao < 4")
  case True
  have "ao \<in> set (page_starts f ao audio_end)" using assms(3,4) by (simp add: page_starts.simps[of f ao audio_end])
  then show ?thesis using assms(1,3) True by (simp add: find_page_start_def)
next
  case False
  then have t: "ao + 4 \<le> t" by simp
  show ?thesis
  proof (cases memo)
    case None
    then show ?thesis using scan_for_page_sound[OF _ assms(2) t assms(4)] False assms(1) by (simp add: find_page_start_def)
  next
    case (Some m)
    obtain rel n h where m: "m = (rel, n, h)" by (cases m)
    have "ao + rel \<in> set (page_starts f ao audio_end)" using assms(5) by (simp add: entry_ok_def Some m)
    then show ?thesis using scan_for_page_sound[OF _ assms(2) t assms(4)] False assms(1)
      by (auto simp: find_page_start_def Some m elim!: rbindE split: if_splits)
  qed
qed

lemma window_drop: "k \<le> p0 \<Longrightarrow> window p0 e k (drop k b) = slice b p0 (e - p0)"
  by (simp add: window_def slice_def)

lemma entry_carried:
  assumes "entry_ok f ao d (page_starts f ao audio_end) memo" "well_paged f ao audio_end"
  shows "carried_ok f ao d (page_starts f ao audio_end) (map_option (\<lambda>(rel, _, h). (rel, h)) memo)"
  unfolding carried_ok_def
proof (intro allI impI)
  fix p h
  assume a: "map_option (\<lambda>(rel, _, h). (rel, h)) memo = Some (p - ao, h) \<and> p \<in> set (page_starts f ao audio_end)"
  then obtain n where m: "memo = Some (p - ao, n, h)" by (cases memo) auto
  have "ao \<le> p" using page_starts_at[OF conjunct2[OF a] assms(2)] by simp
  then show "h = new_header f p d" using assms(1) by (simp add: entry_ok_def m)
qed

lemma serve_ogg_window_from:
  assumes "backing_reader rd f" "well_paged f ao (ao + al)" "ao + al \<le> length f" "ao + al \<le> u64_max"
    "genuine_pages f ao (ao + al)" "entry_ok f ao d (page_starts f ao (ao + al)) memo" "rs < re" "re \<le> al"
    "find_page_start f ao (ao + rs) memo = Inr p"
  shows "\<exists>memo'. serve_ogg_window f rd ao al d rs re out memo =
      Inr (out @ slice (renumbered f ao (ao + al) d) rs (re - rs), memo') \<and>
    entry_ok f ao d (page_starts f ao (ao + al)) memo'"
proof -
  note p = find_page_start_sound[OF assms(9,5) _ _ assms(6)]
  have pp: "p \<in> set (page_starts f ao (ao + al))" "p \<le> ao + rs" using p assms(7,8) by auto
  note pa = page_starts_at[OF pp(1) assms(2)]
  obtain last' where l: "serve_pages rd ao (ao + al) d rs re p (map_option (\<lambda>(rel, _, h). (rel, h)) memo) None out =
      Inr (out @ window rs re (p - ao) (renumbered f p (ao + al) d), last')"
      "entry_ok f ao d (page_starts f ao (ao + al)) last'"
    using serve_pages_window[OF assms(1,3,4) less_imp_le[OF assms(7)] _ _ page_starts_trans[OF pp(1)]
        entry_carried[OF assms(6,2)], where last_entry = None and out = out] pa
    by (auto simp: entry_ok_def)
  have w: "window rs re (p - ao) (renumbered f p (ao + al) d) = slice (renumbered f ao (ao + al) d) rs (re - rs)"
    unfolding renumbered_tail[OF pp(1) assms(2,3)] using pp(2) by (intro window_drop) linarith
  have rsb: "ao + rs \<le> u64_max" "ao + rs < ao + al" using assms(4,7,8) by linarith+
  show ?thesis
    using l assms(4,6,7,9) rsb by (auto simp: serve_ogg_window_def w checked_add64_def)
qed

subsection \<open>The page is found\<close>

text \<open>
  A region is sealed when every page of it verifies and has a defined flag byte, and nothing that is not
  a page does. Payloads may hold the capture pattern: such a decoy costs the scan a checksum.
\<close>

definition sealed_pages :: "bytes \<Rightarrow> nat \<Rightarrow> nat \<Rightarrow> bool" where
  "sealed_pages f ao audio_end \<longleftrightarrow>
     (\<forall>q \<in> set (page_starts f ao audio_end). page_crc_ok f q \<and> f ! (q + 5) AND 0xF8 = 0) \<and> genuine_pages f ao audio_end"

text \<open>The decoys a scan for t meets: capture patterns in its window that pass the cheap checks on the
  bytes before t.\<close>

definition decoys :: "bytes \<Rightarrow> nat \<Rightarrow> nat \<Rightarrow> nat \<Rightarrow> nat list" where
  "decoys f ao audio_end t =
     filter (\<lambda>q. starts_with (drop q f) capture \<and> cheap_ok (slice f q (t - q)) 0 \<and> q \<notin> set (page_starts f ao audio_end))
       [max (t - max_ogg_page_bytes) ao ..< t]"

text \<open>
  The targets that are found: the first four bytes of the region need no scan; a scan has to meet fewer
  decoys than it may verify, and a target one to three bytes into a page, where the capture pattern of
  that page is cut off, has to have the page before it start in the scan's window.
\<close>

definition seekable :: "bytes \<Rightarrow> nat \<Rightarrow> nat \<Rightarrow> nat \<Rightarrow> bool" where
  "seekable f ao audio_end t \<longleftrightarrow> t - ao < 4 \<or>
     length (decoys f ao audio_end t) < max_crc_checks \<and>
     list_all (\<lambda>p. case parse_page f p of Inl _ \<Rightarrow> True | Inr h \<Rightarrow>
        p + page_total_len h < t \<and> t < p + page_total_len h + 4 \<longrightarrow> t - p \<le> max_ogg_page_bytes)
       (page_starts f ao audio_end)"

lemma crc_ok_capture: "page_crc_ok f q \<Longrightarrow> starts_with (drop q f) capture \<and> f ! (q + 4) = 0"
proof -
  assume a: "page_crc_ok f q"
  define hd where "hd = file_read_at f q max_ogg_header_bytes"
  define n where "n = 27 + unat (hd ! 26) + sum_bytes (slice hd 27 (unat (hd ! 26)))"
  have n: "27 \<le> n" "q + n \<le> length f" "verify_page_crc (slice f q n) = Inr True"
    using a by (auto simp: page_crc_ok_def Let_def file_read_exact_def n_def simp flip: hd_def split: if_splits sum.splits)
  then obtain h where "parse_page (slice f q n) 0 = Inr h"
    by (auto simp: verify_page_crc_def elim!: rbindE)
  then have "slice (slice f q n) 0 4 = capture" "slice f q n ! 4 = 0"
    by (auto simp: parse_page_def Let_def split: if_splits)
  then show ?thesis using n
    by (simp add: slice_slice slice_nth starts_with_iff capture_length) (simp add: slice_def)
qed

definition checked_at :: "bytes \<Rightarrow> nat \<Rightarrow> bool" where
  "checked_at w j \<longleftrightarrow> starts_with (drop j w) capture \<and> cheap_ok w j"

lemma scan_back_finds:
  assumes "\<exists>j \<le> i. checked_at w j \<and> page_crc_ok f (ss + j)"
    and "c + length (filter (\<lambda>j. checked_at w j \<and> \<not> page_crc_ok f (ss + j)) [0..<Suc i]) < max_crc_checks"
  shows "\<exists>p. scan_back f ss w i c = Inr p"
  using assms
proof (induction i arbitrary: c)
  case 0
  thus ?case by (subst scan_back.simps) (auto simp: checked_at_def)
next
  case (Suc i)
  show ?case
  proof (cases "checked_at w (Suc i) \<and> page_crc_ok f (ss + Suc i)")
    case True
    thus ?thesis using Suc.prems(2) by (subst scan_back.simps) (auto simp: checked_at_def Let_def)
  next
    case False
    let ?c = "if checked_at w (Suc i) then c + 1 else c"
    have "\<exists>j \<le> i. checked_at w j \<and> page_crc_ok f (ss + j)" using Suc.prems(1) False le_Suc_eq by auto
    moreover have "?c + length (filter (\<lambda>j. checked_at w j \<and> \<not> page_crc_ok f (ss + j)) [0..<Suc i]) < max_crc_checks"
      using Suc.prems(2) False by (auto simp: upt_Suc_append[of 0 "Suc i"] simp del: upt_Suc)
    ultimately obtain p where "scan_back f ss w i ?c = Inr p" using Suc.IH by blast
    thus ?thesis using False Suc.prems(2) by (subst scan_back.simps) (auto simp: checked_at_def Let_def split: if_splits)
  qed
qed

lemma page_containing:
  "well_paged f pos audio_end \<Longrightarrow> pos \<le> x \<Longrightarrow> x < audio_end \<Longrightarrow>
   \<exists>q h. q \<in> set (page_starts f pos audio_end) \<and> parse_page f q = Inr h \<and> q \<le> x \<and> x < q + page_total_len h"
proof (induction f pos audio_end rule: page_starts.induct)
  case (1 f pos audio_end)
  then have lt: "pos < audio_end" by simp
  then obtain h where h: "parse_page f pos = Inr h" "pos + page_total_len h \<le> audio_end"
      "well_paged f (pos + page_total_len h) audio_end"
    using 1(2) by (blast elim: well_pagedE)
  show ?case
  proof (cases "x < pos + page_total_len h")
    case True
    then show ?thesis using h(1) 1(3) page_starts_step[OF h(1) lt] by auto
  next
    case False
    then show ?thesis using 1(1)[OF _ h(1) h(3) _ 1(4)] lt page_starts_step[OF h(1) lt] by auto
  qed
qed

lemma slice_starts: "j + 4 \<le> n \<Longrightarrow> starts_with (drop j (slice f ss n)) capture = starts_with (drop (ss + j) f) capture"
  by (simp add: starts_with_iff capture_length slice_def take_drop min_def add.commute)

lemma slice_cheap:
  "f ! (ss + j + 4) = 0 \<Longrightarrow> f ! (ss + j + 5) AND 0xF8 = 0 \<Longrightarrow> cheap_ok (slice f ss n) j"
  by (auto simp: cheap_ok_def get_at_def slice_nth add.assoc)

lemma slice_cheap_shift: "cheap_ok (slice f ss n) j = cheap_ok (slice f (ss + j) (n - j)) 0"
proof -
  have "slice f (ss + j) (n - j) = drop j (slice f ss n)" by (simp add: slice_def drop_take add.commute)
  moreover have "get_at (drop j w) k = get_at w (j + k)" for w :: bytes and k by (auto simp: get_at_def)
  ultimately show ?thesis by (simp add: cheap_ok_def)
qed

lemma page_total_max: "parse_page f q = Inr h \<Longrightarrow> page_total_len h \<le> max_ogg_page_bytes"
proof -
  have s: "sum_bytes xs \<le> 255 * length xs" for xs
  proof (induction xs)
    case (Cons x xs)
    have "unat x < 256" by simp
    hence "unat x \<le> 255" by linarith
    thus ?case using Cons by (simp add: sum_bytes_simps)
  qed (simp add: sum_bytes_simps)
  have "unat (f ! (q + 26)) < 256" by simp
  hence "unat (f ! (q + 26)) \<le> 255" by linarith
  thus "parse_page f q = Inr h \<Longrightarrow> page_total_len h \<le> max_ogg_page_bytes"
    using parse_page_fields[of f q h] s[of "slice f (q + 27) (unat (f ! (q + 26)))"]
    by (auto simp: max_ogg_page_bytes_def)
qed

text \<open>The page the scan looks for starts in its window.\<close>

lemma page_in_window:
  assumes w: "well_paged f ao audio_end" and k: "seekable f ao audio_end t" and t: "ao + 4 \<le> t" "t < audio_end"
  obtains q where "q \<in> set (page_starts f ao audio_end)" "max (t - max_ogg_page_bytes) ao \<le> q" "q + 4 \<le> t"
proof -
  have "ao \<le> t - 4" "t - 4 < audio_end" using t by linarith+
  from page_containing[OF w this] obtain q h where q: "q \<in> set (page_starts f ao audio_end)"
    "parse_page f q = Inr h" "q \<le> t - 4" "t - 4 < q + page_total_len h" by blast
  have "t - q \<le> max_ogg_page_bytes"
  proof (cases "t \<le> q + page_total_len h")
    case True
    thus ?thesis using page_total_max[OF q(2)] by linarith
  next
    case False
    have "q + page_total_len h < t" "t < q + page_total_len h + 4" using False q(4) by linarith+
    moreover have "\<forall>p\<in>set (page_starts f ao audio_end). case parse_page f p of Inl _ \<Rightarrow> True | Inr h \<Rightarrow>
        p + page_total_len h < t \<and> t < p + page_total_len h + 4 \<longrightarrow> t - p \<le> max_ogg_page_bytes"
      using k t(1) by (auto simp: seekable_def list_all_iff)
    ultimately show ?thesis using q(1,2) by fastforce
  qed
  thus thesis using that[OF q(1)] q(3) t(1) page_starts_at[OF q(1) w] by simp
qed

lemma scan_for_page_finds:
  assumes w: "well_paged f ao audio_end" and ae: "audio_end \<le> length f" and pl: "sealed_pages f ao audio_end"
    and k: "seekable f ao audio_end t" and t: "ao + 4 \<le> t" "t < audio_end"
  shows "\<exists>p. scan_for_page f ao t = Inr p"
proof -
  define ss where "ss = max (t - max_ogg_page_bytes) ao"
  define n where "n = t - ss"
  have b: "ao \<le> ss" "ss + n = t" "4 \<le> n" using t by (auto simp: ss_def n_def max_ogg_page_bytes_def)
  obtain q where q: "q \<in> set (page_starts f ao audio_end)" "ss \<le> q" "q + 4 \<le> t"
    using page_in_window[OF w k t] unfolding ss_def by blast
  have good: "page_crc_ok f q" "f ! (q + 5) AND 0xF8 = 0" using pl q(1) by (auto simp: sealed_pages_def)
  note cap = crc_ok_capture[OF good(1)]
  let ?w = "slice f ss n"
  have at: "checked_at ?w j \<longleftrightarrow> starts_with (drop (ss + j) f) capture \<and> cheap_ok (slice f (ss + j) (t - (ss + j))) 0"
    if "j \<le> n - 4" for j
  proof -
    have "j + 4 \<le> n" "n - j = t - (ss + j)" using that b by linarith+
    thus ?thesis using slice_starts[of j n f ss] slice_cheap_shift[of f ss n j] by (simp add: checked_at_def)
  qed
  have "q - ss \<le> n - 4 \<and> checked_at ?w (q - ss) \<and> page_crc_ok f (ss + (q - ss))"
  proof -
    have j: "q - ss \<le> n - 4" "ss + (q - ss) = q" using q b by linarith+
    have "cheap_ok ?w (q - ss)" using cap good(2) slice_cheap[of f ss "q - ss" n] j(2) by simp
    thus ?thesis using j good(1) cap slice_starts[of "q - ss" n f ss] b(3) by (simp add: checked_at_def)
  qed
  moreover have "length (filter (\<lambda>j. checked_at ?w j \<and> \<not> page_crc_ok f (ss + j)) [0..<Suc (n - 4)]) \<le> length (decoys f ao audio_end t)"
  proof -
    let ?bad = "\<lambda>p. starts_with (drop p f) capture \<and> cheap_ok (slice f p (t - p)) 0 \<and> p \<notin> set (page_starts f ao audio_end)"
    have "length (filter (\<lambda>j. checked_at ?w j \<and> \<not> page_crc_ok f (ss + j)) [0..<Suc (n - 4)]) =
        card {j. j < Suc (n - 4) \<and> checked_at ?w j \<and> \<not> page_crc_ok f (ss + j)}"
      by (subst distinct_card[symmetric]) (auto intro: arg_cong[of _ _ card] simp del: upt_Suc)
    also have "\<dots> \<le> card {p. ss \<le> p \<and> p < t \<and> ?bad p}"
      using at pl b by (intro card_inj_on_le[of "\<lambda>j. ss + j"]) (auto simp: sealed_pages_def inj_on_def)
    also have "\<dots> = length (decoys f ao audio_end t)"
      unfolding decoys_def ss_def[symmetric] by (subst distinct_card[symmetric]) (auto intro: arg_cong[of _ _ card])
    finally show ?thesis .
  qed
  ultimately have "\<exists>p. scan_back f ss ?w (n - 4) 0 = Inr p"
    using k t(1) by (intro scan_back_finds) (auto simp: seekable_def simp del: upt_Suc)
  moreover have "file_read_exact f ss n = Inr ?w"
    using b t ae by (simp add: file_read_exact_def)
  ultimately show ?thesis unfolding scan_for_page_def Let_def ss_def[symmetric] n_def[symmetric] by simp
qed

lemma find_page_start_finds:
  assumes "well_paged f ao audio_end" "audio_end \<le> length f" "audio_end \<le> u64_max" "sealed_pages f ao audio_end"
    "seekable f ao audio_end t" "ao \<le> t" "t < audio_end" "entry_ok f ao d (page_starts f ao audio_end) memo"
  shows "\<exists>p. find_page_start f ao t memo = Inr p"
proof (cases "t - ao < 4")
  case False
  then have "\<exists>p. scan_for_page f ao t = Inr p" using scan_for_page_finds[OF assms(1,2,4,5)] assms(7) by simp
  moreover have "ao + rel + n \<le> u64_max" if "memo = Some (rel, n, h)" for rel n h
    using assms(3,8) that page_starts_at[OF _ assms(1), of "ao + rel"] by (auto simp: entry_ok_def)
  ultimately show ?thesis using False
    by (fastforce simp: find_page_start_def checked_add64_def split: option.splits)
qed (simp add: find_page_start_def)

lemma serve_ogg_window_exact_aux:
  assumes "backing_reader rd f" "well_paged f ao (ao + al)" "ao + al \<le> length f" "ao + al \<le> u64_max"
    "sealed_pages f ao (ao + al)" "seekable f ao (ao + al) (ao + rs)"
    "entry_ok f ao d (page_starts f ao (ao + al)) memo" "rs < re" "re \<le> al"
  shows "\<exists>memo'. serve_ogg_window f rd ao al d rs re out memo =
      Inr (out @ slice (renumbered f ao (ao + al) d) rs (re - rs), memo') \<and>
    entry_ok f ao d (page_starts f ao (ao + al)) memo'"
proof -
  have g: "genuine_pages f ao (ao + al)" using assms(5) by (simp add: sealed_pages_def)
  obtain p where "find_page_start f ao (ao + rs) memo = Inr p"
    using find_page_start_finds[OF assms(2,3,4,5,6) _ _ assms(7)] assms(8,9) by auto
  from serve_ogg_window_from[OF assms(1-4) g assms(7-9) this] show ?thesis .
qed

text \<open>C20: over an audio region of whole pages that verify and have no reserved header flag set, in which
  nothing else verifies as a page (capture patterns in the payloads are allowed), serving any window
  of the region appends exactly those bytes of the renumbered region, pages with the patched sequence
  number and checksum one after the other, from any memo that names a page of the region, and leaves
  such a memo. The start of the window has to be seekable: among the first four
  bytes, or with fewer than 64 capture patterns in the payloads of the scanned window that pass the
  cheap header checks, and not one to three bytes into a page whose predecessor starts more than
  65307 bytes before the start of the window (below is such a seek, which fails).\<close>

theorem serve_ogg_window_exact:
  assumes "backing_reader rd f" "well_paged f ao (ao + al)" "ao + al \<le> length f" "ao + al \<le> u64_max"
    "sealed_pages f ao (ao + al)" "seekable f ao (ao + al) (ao + rs)"
    "entry_ok f ao d (page_starts f ao (ao + al)) memo" "rs < re" "re \<le> al"
  shows "\<exists>memo'. serve_ogg_window f rd ao al d rs re out memo =
      Inr (out @ slice (renumbered f ao (ao + al) d) rs (re - rs), memo') \<and>
    entry_ok f ao d (page_starts f ao (ao + al)) memo'"
  using serve_ogg_window_exact_aux[OF assms] .

lemma crc32_bits: "crc32_update s bs = crc_bitserial s bs"
  by (induction s bs rule: crc_bitserial.induct) (simp_all add: crc_byte_eq)

lemma eight_times: "(g ^^ 8) x = g (g (g (g (g (g (g (g x)))))))"
  by (simp add: eval_nat_numeral)

definition demo_page_a :: bytes where
  "demo_page_a = [79, 103, 103, 83, 0, 0, 7, 0, 0, 0, 0, 0, 0, 0, 9, 0, 0, 0, 5, 0, 0, 0, 21, 31, 162, 88, 1, 2, 40, 41]"

text \<open>The payload of the second page holds the capture pattern.\<close>

definition demo_page_b :: bytes where
  "demo_page_b = [79, 103, 103, 83, 0, 0, 7, 0, 0, 0, 0, 0, 0, 0, 9, 0, 0, 0, 6, 0, 0, 0, 143, 1, 46, 46, 1, 7,
     79, 103, 103, 83, 0, 0, 50]"

definition demo_ogg_file :: bytes where
  "demo_ogg_file = [1, 2, 3] @ demo_page_a @ demo_page_b"

lemma demo_crc_a: "crc32 [79, 103, 103, 83, 0, 0, 7, 0, 0, 0, 0, 0, 0, 0, 9, 0, 0, 0, 5, 0, 0, 0, 0, 0, 0, 0, 1, 2, 40, 41] = 1487019797"
  unfolding crc32_def crc32_bits by (simp add: eight_times crc_bit_step_def crc_poly_def)

lemma demo_crc_b: "crc32 [79, 103, 103, 83, 0, 0, 7, 0, 0, 0, 0, 0, 0, 0, 9, 0, 0, 0, 6, 0, 0, 0, 0, 0, 0, 0, 1, 7, 79, 103, 103, 83, 0, 0, 50] = 774766991"
  unfolding crc32_def crc32_bits by (simp add: eight_times crc_bit_step_def crc_poly_def)

lemma demo_verify_a: "verify_page_crc demo_page_a = Inr True"
proof -
  have "parse_page demo_page_a 0 = Inr \<lparr> ph_header_type = 0, ph_granule = 7, ph_serial = 9, ph_seq = 5,
      ph_crc = 1487019797, ph_seg_count = 1, ph_header_len = 28, ph_payload_len = 2 \<rparr>"
    by code_simp
  moreover have "patch_at (take 30 demo_page_a) 22 (le32 0) = [79, 103, 103, 83, 0, 0, 7, 0, 0, 0, 0, 0, 0, 0, 9, 0, 0, 0, 5, 0, 0, 0, 0, 0, 0, 0, 1, 2, 40, 41]"
    by code_simp
  moreover have "length demo_page_a = 30" by code_simp
  ultimately show ?thesis by (simp add: verify_page_crc_def page_total_len_def demo_crc_a)
qed

lemma demo_verify_b: "verify_page_crc demo_page_b = Inr True"
proof -
  have "parse_page demo_page_b 0 = Inr \<lparr> ph_header_type = 0, ph_granule = 7, ph_serial = 9, ph_seq = 6,
      ph_crc = 774766991, ph_seg_count = 1, ph_header_len = 28, ph_payload_len = 7 \<rparr>"
    by code_simp
  moreover have "patch_at (take 35 demo_page_b) 22 (le32 0) = [79, 103, 103, 83, 0, 0, 7, 0, 0, 0, 0, 0, 0, 0, 9, 0, 0, 0, 6, 0, 0, 0, 0, 0, 0, 0, 1, 7, 79, 103, 103, 83, 0, 0, 50]"
    by code_simp
  moreover have "length demo_page_b = 35" by code_simp
  ultimately show ?thesis by (simp add: verify_page_crc_def page_total_len_def demo_crc_b)
qed

lemma demo_page_at:
  "page_crc_ok demo_ogg_file 3" "page_crc_ok demo_ogg_file 33"
proof -
  have "file_read_at demo_ogg_file 3 max_ogg_header_bytes = demo_page_a @ demo_page_b"
    "file_read_exact demo_ogg_file 3 30 = Inr demo_page_a" "(demo_page_a @ demo_page_b) ! 26 = 1"
    "sum_bytes (slice (demo_page_a @ demo_page_b) 27 1) = 2" "length (demo_page_a @ demo_page_b) = 65"
    by code_simp+
  then show "page_crc_ok demo_ogg_file 3" by (simp add: page_crc_ok_def demo_verify_a)
  have "file_read_at demo_ogg_file 33 max_ogg_header_bytes = demo_page_b"
    "file_read_exact demo_ogg_file 33 35 = Inr demo_page_b" "demo_page_b ! 26 = 1"
    "sum_bytes (slice demo_page_b 27 1) = 7" "length demo_page_b = 35"
    by code_simp+
  then show "page_crc_ok demo_ogg_file 33" by (simp add: page_crc_ok_def demo_verify_b)
qed

lemma demo_decoy: "\<not> page_crc_ok demo_ogg_file 61"
  by code_simp

lemma demo_region: "well_paged demo_ogg_file 3 68" "page_starts demo_ogg_file 3 68 = [3, 33]" "length demo_ogg_file = 68"
    "list_all (\<lambda>q. starts_with (drop q demo_ogg_file) capture \<longrightarrow> q \<in> {3, 33, 61}) [3..<68]"
    "list_all (\<lambda>q. demo_ogg_file ! (q + 5) AND 0xF8 = 0) [3, 33]"
    "decoys demo_ogg_file 3 68 65 = [61]" "seekable demo_ogg_file 3 68 65"
  by code_simp+

lemma demo_sealed: "sealed_pages demo_ogg_file 3 68"
proof -
  have "q \<in> {3, 33}" if q: "3 \<le> q" "q < 68" "page_crc_ok demo_ogg_file q" for q
  proof -
    have "q \<in> set [3..<68]" using q by (simp only: set_upt atLeastLessThan_iff)
    hence "q \<in> {3, 33, 61}" using demo_region(4) crc_ok_capture[OF q(3)] unfolding list_all_iff by blast
    thus ?thesis using q(3) demo_decoy by auto
  qed
  thus ?thesis using demo_region(5) demo_page_at by (auto simp: sealed_pages_def genuine_pages_def demo_region(2))
qed

lemma serve_ogg_window_exact_witness:
  "(\<exists>memo'. serve_ogg_window demo_ogg_file (file_read_exact demo_ogg_file) 3 65 (-2) 62 65 [] None =
      Inr ([] @ slice (renumbered demo_ogg_file 3 68 (-2)) 62 (65 - 62), memo') \<and>
    entry_ok demo_ogg_file 3 (-2) (page_starts demo_ogg_file 3 68) memo') \<and> decoys demo_ogg_file 3 68 65 = [61]"
  using serve_ogg_window_exact[OF plain_file.backing_reader_axioms, of demo_ogg_file 3 65 62 "-2" None 65 "[]"]
    demo_region(1,3,6,7) demo_sealed by (simp add: u64_max_def entry_ok_def)

subsection \<open>Where the backward scan misses\<close>

lemma scan_back_none:
  "(\<And>j. j \<le> i \<Longrightarrow> \<not> starts_with (drop j w) capture) \<Longrightarrow> scan_back f ss w i c = Inl malformed"
  by (induction i) (simp_all add: scan_back.simps)

lemma page_starts_gap:
  "p \<in> set (page_starts f pos audio_end) \<Longrightarrow> q \<in> set (page_starts f pos audio_end) \<Longrightarrow>
   well_paged f pos audio_end \<Longrightarrow> parse_page f p = Inr h \<Longrightarrow> p < q \<Longrightarrow> p + page_total_len h \<le> q"
proof (induction f pos audio_end rule: page_starts.induct)
  case (1 f pos audio_end)
  then have lt: "pos < audio_end" by (auto simp: page_starts.simps[of f pos audio_end] split: if_splits)
  then obtain h' where h': "parse_page f pos = Inr h'" "well_paged f (pos + page_total_len h') audio_end"
    using 1(4) by (blast elim: well_pagedE)
  note st = page_starts_step[OF h'(1) lt] and low = page_starts_at[OF _ h'(2)]
  have q: "q \<in> set (page_starts f (pos + page_total_len h') audio_end)"
    using 1(2,3,6) st low[of p] by fastforce
  show ?case
  proof (cases "p = pos")
    case True
    then show ?thesis using low[OF q] 1(5) h'(1) by simp
  next
    case False
    then have "p \<in> set (page_starts f (pos + page_total_len h') audio_end)" using 1(2) st by simp
    then show ?thesis using 1(1)[OF _ h'(1) _ q h'(2) 1(5,6)] lt by simp
  qed
qed

text \<open>C21: behind a page of the maximal 65307 bytes, a seek without a memo that lands one to three bytes
  past the next page's start fails as malformed: the full page starts before the scanned window, and
  the capture pattern of the next page does not fit into it.\<close>

theorem seek_behind_full_page_fails:
  assumes "well_paged f ao audio_end" "audio_end \<le> length f"
    "\<forall>q \<in> {ao..<audio_end}. starts_with (drop q f) capture \<longrightarrow> q \<in> set (page_starts f ao audio_end)"
    "p \<in> set (page_starts f ao audio_end)" "parse_page f p = Inr h" "page_total_len h = 65307"
    "1 \<le> k" "k \<le> 3" "p + 65307 + k < audio_end"
  shows "find_page_start f ao (p + 65307 + k) None = Inl malformed"
proof -
  define t where "t = p + 65307 + k"
  have p: "ao \<le> p" using page_starts_at[OF assms(4,1)] by simp
  have ss: "max (t - max_ogg_page_bytes) ao = p + k" "t - (p + k) = 65307" "\<not> t - ao < 4"
    using p by (auto simp: t_def max_ogg_page_bytes_def)
  have r: "file_read_exact f (p + k) 65307 = Inr (slice f (p + k) 65307)"
    using assms(2,9) by (simp add: file_read_exact_def)
  have "\<not> starts_with (drop j (slice f (p + k) 65307)) capture" if j: "j \<le> 65303" for j
  proof
    assume "starts_with (drop j (slice f (p + k) 65307)) capture"
    then have c: "starts_with (drop (p + k + j) f) capture" using j slice_starts[of j 65307 f "p + k"] by simp
    have "p + k + j \<in> {ao..<audio_end}" using p assms(9) j by auto
    then have q: "p + k + j \<in> set (page_starts f ao audio_end)" using assms(3) c by blast
    have "p + 65307 \<le> p + k + j"
      using page_starts_gap[OF assms(4) q assms(1,5)] assms(6,7) by simp
    then show False using j assms(8) by linarith
  qed
  then have "scan_back f (p + k) (slice f (p + k) 65307) 65303 0 = Inl malformed"
    by (intro scan_back_none)
  then show ?thesis
    unfolding t_def[symmetric] find_page_start_def scan_for_page_def Let_def ss(1,2) r using ss(3) by simp
qed

definition full_page_file :: bytes where
  "full_page_file = mk_page 0 0 0 0 0 (replicate 255 255) (replicate 65025 0) @ mk_page 0 0 0 1 0 [1] [0]"

lemma only_first_byte:
  assumes "f = x # a @ x # b" "x \<notin> set a" "x \<notin> set b" "q < length f" "f ! q = x"
  shows "q = 0 \<or> q = length a + 1"
proof (rule ccontr)
  assume n: "\<not> (q = 0 \<or> q = length a + 1)"
  show False
  proof (cases "q < length a + 1")
    case True
    then have "f ! q = a ! (q - 1)" "q - 1 < length a" using n assms(1) by (auto simp: nth_append nth_Cons')
    then show False using assms(2,5) nth_mem by metis
  next
    case False
    then have "f ! q = b ! (q - length a - 2)" "q - length a - 2 < length b"
      using n assms(1,4) by (auto simp: nth_append nth_Cons')
    then show False using assms(3,5) nth_mem by metis
  qed
qed

lemma full_page_region:
  fixes tab pay :: bytes
  assumes l: "length tab = 255" "sum_bytes tab = 65025" "length pay = 65025" "79 \<notin> set tab" "79 \<notin> set pay"
    and f: "f = mk_page 0 0 0 0 0 tab pay @ mk_page 0 0 0 1 0 [1] [0]"
  shows "well_paged f 0 65336" "length f = 65336" "page_starts f 0 65336 = [0, 65307]"
    "\<forall>q \<in> {0..<65336}. starts_with (drop q f) capture \<longrightarrow> q \<in> set (page_starts f 0 65336)"
    "\<exists>h. parse_page f 0 = Inr h \<and> page_total_len h = 65307"
proof -
  have p0: "\<exists>h. parse_page f 0 = Inr h \<and> page_total_len h = 65307"
    using parse_mk_page0[of tab 0 0 0 0 0 pay "mk_page 0 0 0 1 0 [1] [0]"] l by (simp add: f page_total_len_def)
  have p1: "\<exists>h. parse_page f 65307 = Inr h \<and> page_total_len h = 29"
    using parse_mk_page[of "[1]" 0 "mk_page 0 0 0 0 0 tab pay" 0 0 1 0 "[0]" "[]"] l
    by (simp add: f page_total_len_def mk_page_length)
  show len: "length f = 65336" using l by (simp add: f mk_page_length)
  have w1: "well_paged f 65307 65336"
    using p1 by (auto simp: well_paged.simps[of f 65307] well_paged.simps[of f 65336])
  show "well_paged f 0 65336" using p0 w1 by (auto simp: well_paged.simps[of f 0])
  have s1: "page_starts f 65307 65336 = [65307]"
    using p1 by (auto simp: page_starts.simps[of f 65307] page_starts.simps[of f 65336])
  show s: "page_starts f 0 65336 = [0, 65307]" using p0 s1 by (auto simp: page_starts.simps[of f 0])
  show "\<exists>h. parse_page f 0 = Inr h \<and> page_total_len h = 65307" by (rule p0)
  let ?a = "[103, 103, 83, 0, 0] @ le_bytes 8 0 @ le32 0 @ le32 0 @ le32 0 @ [255] @ tab @ pay"
  let ?b = "[103, 103, 83, 0, 0] @ le_bytes 8 0 @ le32 0 @ le32 1 @ le32 0 @ [1] @ [1] @ [0]"
  have e: "f = 79 # ?a @ 79 # ?b" using l(1) by (simp add: f mk_page_def capture_def)
  have b: "79 \<notin> set ?b" by code_simp
  have "79 \<notin> set ([103, 103, 83, 0, 0] @ le_bytes 8 0 @ le32 0 @ le32 0 @ le32 0 @ [255 :: byte])" by code_simp
  then have a: "79 \<notin> set ?a" using l(4,5) by (simp only: set_append Un_iff) simp
  have la: "length ?a + 1 = 65307" using l by (simp add: le32_length)
  show "\<forall>q \<in> {0..<65336}. starts_with (drop q f) capture \<longrightarrow> q \<in> set (page_starts f 0 65336)"
  proof (intro ballI impI)
    fix q assume q: "q \<in> {0..<65336 :: nat}" "starts_with (drop q f) capture"
    then have "f ! q = 79" using len by (simp add: starts_with_iff capture_def Cons_nth_drop_Suc[symmetric])
    then have "q = 0 \<or> q = 65307" using only_first_byte[OF e a b, of q] q(1) len la by simp
    then show "q \<in> set (page_starts f 0 65336)" by (auto simp: s)
  qed
qed

lemma full_page_file_region:
  "well_paged full_page_file 0 65336" "length full_page_file = 65336" "page_starts full_page_file 0 65336 = [0, 65307]"
  "\<forall>q \<in> {0..<65336}. starts_with (drop q full_page_file) capture \<longrightarrow> q \<in> set (page_starts full_page_file 0 65336)"
  "\<exists>h. parse_page full_page_file 0 = Inr h \<and> page_total_len h = 65307"
proof -
  have "length (replicate 255 (255 :: byte)) = 255" "sum_bytes (replicate 255 255) = 65025"
    "length (replicate 65025 (0 :: byte)) = 65025"
    unfolding length_replicate sum_bytes_simps by simp_all
  moreover have "79 \<notin> set (replicate 255 (255 :: byte))" "79 \<notin> set (replicate 65025 (0 :: byte))"
    unfolding in_set_replicate by simp_all
  ultimately show "well_paged full_page_file 0 65336" "length full_page_file = 65336"
    "page_starts full_page_file 0 65336 = [0, 65307]"
    "\<forall>q \<in> {0..<65336}. starts_with (drop q full_page_file) capture \<longrightarrow> q \<in> set (page_starts full_page_file 0 65336)"
    "\<exists>h. parse_page full_page_file 0 = Inr h \<and> page_total_len h = 65307"
    using full_page_region[OF _ _ _ _ _ full_page_file_def] by blast+
qed

lemma seek_behind_full_page_fails_witness:
  "find_page_start full_page_file 0 (0 + 65307 + 2) None = Inl malformed"
proof -
  obtain h where h: "parse_page full_page_file 0 = Inr h" "page_total_len h = 65307"
    using full_page_file_region(5) by blast
  have "0 \<in> set (page_starts full_page_file 0 65336)" by (simp add: full_page_file_region(3))
  from seek_behind_full_page_fails[OF full_page_file_region(1) _ full_page_file_region(4) this h, of 2]
  show ?thesis by (simp add: full_page_file_region(2))
qed

end
