(* ===== verification/Reader.thy ===== *)
theory Reader
  imports Ogg_Serve Vorbis
begin

text \<open>
  The read path, musefs-core/src/reader.rs: splicing a window of a synthesized file from the
  segments of its layout (inline bytes, backing audio, renumbered Ogg audio, stored blobs and
  base64 windows of stored images), and the stateless read that re-validates the backing file and
  the track's content version first (musefs-core/src/freshness.rs holds the stamp).
\<close>

subsection \<open>The freshness stamp\<close>

record file_meta =
  fm_len :: nat
  fm_mtime :: int
  fm_mtime_nsec :: int
  fm_ctime :: int
  fm_ctime_nsec :: int

record backing_stamp =
  bs_size :: nat
  bs_mtime_ns :: int
  bs_ctime_ns :: int

definition sat_i64 :: "int \<Rightarrow> int" where
  "sat_i64 x = max (- (2 ^ 63)) (min (2 ^ 63 - 1) x)"

definition nanos_per_sec :: int where "nanos_per_sec = 1000000000"

definition stamp_from_metadata :: "file_meta \<Rightarrow> backing_stamp" where
  "stamp_from_metadata m =
     \<lparr> bs_size = fm_len m,
       bs_mtime_ns = sat_i64 (sat_i64 (fm_mtime m * nanos_per_sec) + fm_mtime_nsec m),
       bs_ctime_ns = sat_i64 (sat_i64 (fm_ctime m * nanos_per_sec) + fm_ctime_nsec m) \<rparr>"

text \<open>Rust's integer division truncates towards zero.\<close>

definition display_secs :: "backing_stamp \<Rightarrow> int" where
  "display_secs s = sgn (bs_mtime_ns s) * (\<bar>bs_mtime_ns s\<bar> div nanos_per_sec)"

subsection \<open>Reading stored blobs\<close>

text \<open>
  Incremental blob reads of the store (musefs-db/src/art.rs and tags.rs): the row must exist and
  hold the whole requested range.
\<close>

record blob_store =
  st_art :: "int \<Rightarrow> bytes option"
  st_tag :: "int \<Rightarrow> bytes option"

definition blob_read_at_exact :: "bytes option \<Rightarrow> nat \<Rightarrow> nat \<Rightarrow> bytes cresult" where
  "blob_read_at_exact blob off n =
     (case blob of
        None \<Rightarrow> Inl (DbErr (Sqlite ''no such rowid''))
      | Some b \<Rightarrow> if off + n \<le> length b then Inr (slice b off n) else Inl (DbErr (Sqlite ''blob size''))) "

definition read_art_chunk :: "blob_store \<Rightarrow> int \<Rightarrow> nat \<Rightarrow> nat \<Rightarrow> bytes cresult" where
  "read_art_chunk db art_id off n = blob_read_at_exact (st_art db art_id) off n"

definition read_binary_tag_chunk :: "blob_store \<Rightarrow> int \<Rightarrow> nat \<Rightarrow> nat \<Rightarrow> bytes cresult" where
  "read_binary_tag_chunk db payload_id off n = blob_read_at_exact (st_tag db payload_id) off n"

subsection \<open>Splicing segments\<close>

record backing =
  bk_file :: bytes
  bk_read :: "nat \<Rightarrow> nat \<Rightarrow> bytes cresult"

type_synonym served = "bytes \<times> last_page_memo"

definition append_read :: "bytes \<Rightarrow> last_page_memo \<Rightarrow> bytes cresult \<Rightarrow> served cresult option" where
  "append_read out memo r = Some (rbind r (\<lambda>x. Inr (out @ x, memo)))"

fun serve_segment ::
  "(bytes \<Rightarrow> bytes) \<Rightarrow> blob_store option \<Rightarrow> backing option \<Rightarrow> nat \<Rightarrow> nat \<Rightarrow> bytes \<Rightarrow> last_page_memo \<Rightarrow> segment \<Rightarrow>
   served cresult option" where
  "serve_segment enc db bk within n out memo (Inline b) = Some (Inr (out @ slice b within n, memo))"
| "serve_segment enc db bk within n out memo (BackingAudio bo _) =
     (case bk of None \<Rightarrow> None
      | Some br \<Rightarrow> append_read out memo (bk_read br (bo + within) n))"
| "serve_segment enc db bk within n out memo (ArtImage art_id _) =
     (case db of None \<Rightarrow> None
      | Some d \<Rightarrow> append_read out memo (read_art_chunk d art_id within n))"
| "serve_segment enc db bk within n out memo (BinaryTag payload_id _) =
     (case db of None \<Rightarrow> None
      | Some d \<Rightarrow> append_read out memo (read_binary_tag_chunk d payload_id within n))"
| "serve_segment enc db bk within n out memo (OggAudio ao len seq_delta) =
     (case bk of None \<Rightarrow> None
      | Some br \<Rightarrow> Some (serve_ogg_window (bk_file br) (bk_read br) ao len seq_delta within (within + n) out memo))"
| "serve_segment enc db bk within n out memo (OggArtSlice art_id off _ base64 art_total) =
     (case db of None \<Rightarrow> None
      | Some d \<Rightarrow>
          if base64 then
            let w = b64_window (off + within) n art_total
            in append_read out memo
                 (rbind (read_art_chunk d art_id (w_in_start w) (w_in_len w)) (\<lambda>raw.
                  ok_or (encode_b64_slice enc raw (w_skip w) n)
                    (BackingChanged ''art shorter than its indexed base64 window'')))
          else append_read out memo (read_art_chunk d art_id (off + within) n))"

fun read_segments_loop ::
  "(bytes \<Rightarrow> bytes) \<Rightarrow> blob_store option \<Rightarrow> backing option \<Rightarrow> nat \<Rightarrow> nat \<Rightarrow> nat \<Rightarrow> served \<Rightarrow> segment list \<Rightarrow>
   served cresult option" where
  "read_segments_loop enc db bk off e seg_start om [] = Some (Inr om)"
| "read_segments_loop enc db bk off e seg_start om (seg # segs) =
     (let seg_end = seg_start + seg_len seg;
          ov_start = max off seg_start;
          ov_end = min e seg_end
      in pbind
           (if ov_start < ov_end
            then serve_segment enc db bk (ov_start - seg_start) (ov_end - ov_start) (fst om) (snd om) seg
            else Some (Inr om))
           (\<lambda>om. if seg_end \<ge> e then Some (Inr om)
                 else read_segments_loop enc db bk off e seg_end om segs))"

record resolved_file =
  rf_layout :: region_layout
  rf_total_len :: nat
  rf_track_id :: int
  rf_content_version :: int
  rf_backing_path :: string
  rf_stamp :: backing_stamp
  rf_mtime_secs :: int
  rf_last_page :: last_page_memo
  rf_cache_bytes :: nat
  rf_streams_db_rowid :: bool

definition read_segments_into ::
  "(bytes \<Rightarrow> bytes) \<Rightarrow> resolved_file \<Rightarrow> blob_store option \<Rightarrow> backing option \<Rightarrow> nat \<Rightarrow> nat \<Rightarrow> bytes \<Rightarrow>
   served cresult option" where
  "read_segments_into enc rf db bk off sz out =
     (if off \<ge> rf_total_len rf \<or> sz = 0 then Some (Inr (out, rf_last_page rf))
      else read_segments_loop enc db bk off (min (sat_add64 off sz) (rf_total_len rf)) 0
             (out, rf_last_page rf) (rl_segments (rf_layout rf)))"

definition needs_file :: "region_layout \<Rightarrow> bool" where
  "needs_file l = list_ex is_audio (rl_segments l)"

text \<open>The live database the stateless read consults: blobs, and each track's content version.\<close>

record live_db =
  db_blobs :: blob_store
  db_content_version :: "int \<Rightarrow> int cresult"

text \<open>The file system: what opening a path yields, the metadata and the bytes of the opened file.\<close>

type_synonym file_system = "string \<Rightarrow> io_error + (file_meta \<times> bytes)"

definition open_validated :: "file_system \<Rightarrow> resolved_file \<Rightarrow> bytes cresult" where
  "open_validated fs rf =
     (case fs (rf_backing_path rf) of
        Inl e \<Rightarrow> Inl (BackingIo (rf_backing_path rf) e)
      | Inr (m, f) \<Rightarrow>
          if stamp_from_metadata m \<noteq> rf_stamp rf then Inl (BackingChanged (rf_backing_path rf)) else Inr f)"

definition read_with_optional_backing ::
  "(bytes \<Rightarrow> bytes) \<Rightarrow> resolved_file \<Rightarrow> blob_store \<Rightarrow> bytes option \<Rightarrow> nat \<Rightarrow> nat \<Rightarrow> bytes \<Rightarrow> served cresult option" where
  "read_with_optional_backing enc rf db file off sz out =
     read_segments_into enc rf (Some db)
       (map_option (\<lambda>f. \<lparr> bk_file = f, bk_read = file_read_exact f \<rparr>) file) off sz out"

definition read_at_into ::
  "(bytes \<Rightarrow> bytes) \<Rightarrow> resolved_file \<Rightarrow> live_db \<Rightarrow> file_system \<Rightarrow> nat \<Rightarrow> nat \<Rightarrow> bytes \<Rightarrow> served cresult option" where
  "read_at_into enc rf db fs off sz out =
     (if off \<ge> rf_total_len rf \<or> sz = 0 then Some (Inr (out, rf_last_page rf))
      else pbind (Some (if needs_file (rf_layout rf) then rbind (open_validated fs rf) (\<lambda>f. Inr (Some f)) else Inr None))
        (\<lambda>file.
         if rf_streams_db_rowid rf then
           pbind (Some (db_content_version db (rf_track_id rf))) (\<lambda>v.
           if v \<noteq> rf_content_version rf then Some (Inl (BackingChanged (rf_backing_path rf)))
           else read_with_optional_backing enc rf (db_blobs db) file off sz out)
         else read_with_optional_backing enc rf (db_blobs db) file off sz out))"

text \<open>The keys Vorbis synthesis drops, each reported once, in order of first appearance.\<close>

fun invalid_keys_from :: "string list \<Rightarrow> tag_input list \<Rightarrow> string list" where
  "invalid_keys_from seen [] = []"
| "invalid_keys_from seen (t # ts) =
     (if \<not> is_valid_key (ti_key t) \<and> ti_key t \<notin> set seen
      then ti_key t # invalid_keys_from (ti_key t # seen) ts
      else invalid_keys_from seen ts)"

definition invalid_vorbis_keys :: "tag_input list \<Rightarrow> string list" where
  "invalid_vorbis_keys ts = invalid_keys_from [] ts"

subsection \<open>What a read returns\<close>

text \<open>
  The store, the backing file and the memo agree with the bytes the layout stands for: stored blobs
  have their recorded lengths, backing ranges lie in the file, and an Ogg region is made of whole
  pages that verify, with nothing else verifying as a page. The start of a read has to be seekable
  where it lies in an Ogg region.
\<close>

definition ogg_ready :: "bytes \<Rightarrow> nat \<Rightarrow> nat \<Rightarrow> bool" where
  "ogg_ready f ao n \<longleftrightarrow> well_paged f ao (ao + n) \<and> ao + n \<le> length f \<and> sealed_pages f ao (ao + n)"

fun seg_served :: "blob_store option \<Rightarrow> backing option \<Rightarrow> byte_env \<Rightarrow> segment \<Rightarrow> bool" where
  "seg_served db bk v (Inline b) = True"
| "seg_served db bk v (ArtImage i n) =
     (\<exists>d. db = Some d \<and> st_art d i = Some (env_art v i) \<and> length (env_art v i) = n)"
| "seg_served db bk v (BinaryTag i n) =
     (\<exists>d. db = Some d \<and> st_tag d i = Some (env_tag v i) \<and> length (env_tag v i) = n)"
| "seg_served db bk v (OggArtSlice i off n b64 tot) =
     (\<exists>d. db = Some d \<and> st_art d i = Some (env_art v i) \<and> length (env_art v i) = tot)"
| "seg_served db bk v (BackingAudio off n) =
     (\<exists>br. bk = Some br \<and> backing_reader (bk_read br) (bk_file br) \<and> bk_file br = env_backing v \<and>
        off + n \<le> length (env_backing v))"
| "seg_served db bk v (OggAudio ao n d) =
     (\<exists>br. bk = Some br \<and> backing_reader (bk_read br) (bk_file br) \<and> ogg_ready (bk_file br) ao n \<and>
        env_ogg v ao n d = renumbered (bk_file br) ao (ao + n) d)"

fun memo_fits :: "backing option \<Rightarrow> last_page_memo \<Rightarrow> segment \<Rightarrow> bool" where
  "memo_fits (Some br) memo (OggAudio ao n d) =
     entry_ok (bk_file br) ao d (page_starts (bk_file br) ao (ao + n)) memo"
| "memo_fits bk memo s = True"

text \<open>The start of a read, where it falls into an Ogg region, has to be seekable there.\<close>

fun seg_seekable :: "backing option \<Rightarrow> nat \<Rightarrow> segment \<Rightarrow> bool" where
  "seg_seekable (Some br) within (OggAudio ao n d) = seekable (bk_file br) ao (ao + n) (ao + within)"
| "seg_seekable bk within s = True"

fun off_seekable :: "backing option \<Rightarrow> nat \<Rightarrow> nat \<Rightarrow> segment list \<Rightarrow> bool" where
  "off_seekable bk off pos [] = True"
| "off_seekable bk off pos (s # segs) \<longleftrightarrow>
     (pos \<le> off \<and> off < pos + seg_len s \<longrightarrow> seg_seekable bk (off - pos) s) \<and> off_seekable bk off (pos + seg_len s) segs"

lemma seg_seekable_0: "seg_seekable bk 0 s"
  by (cases s; cases bk) (simp_all add: seekable_def)

definition one_ogg :: "segment list \<Rightarrow> bool" where
  "one_ogg segs \<longleftrightarrow> (\<forall>s\<in>set segs. \<forall>t\<in>set segs. (\<exists>a n d. s = OggAudio a n d) \<and> (\<exists>a n d. t = OggAudio a n d) \<longrightarrow> s = t)"

lemma renumbered_length:
  "well_paged f pos audio_end \<Longrightarrow> pos \<le> audio_end \<Longrightarrow> audio_end \<le> length f \<Longrightarrow>
   length (renumbered f pos audio_end d) = audio_end - pos"
proof (induction f pos audio_end d rule: renumbered.induct)
  case (1 f pos audio_end d)
  show ?case
  proof (cases "pos < audio_end")
    case True
    then obtain h where h: "parse_page f pos = Inr h" "pos + page_total_len h \<le> audio_end"
        "well_paged f (pos + page_total_len h) audio_end"
      using 1(2) by (blast elim: well_pagedE)
    have len: "length (new_header f pos d @ slice f (pos + ph_header_len h) (ph_payload_len h)) = page_total_len h"
      using h(2) 1(4) by (intro renumbered_page_length[OF h(1)]) linarith
    have "length (renumbered f (pos + page_total_len h) audio_end d) = audio_end - (pos + page_total_len h)"
      using 1(1)[OF _ h(1,3,2) 1(4)] True by simp
    then show ?thesis unfolding renumbered_step[OF h(1) True] length_append[of "_ @ _"] len using h(2) by simp
  next
    case False
    then show ?thesis by (subst renumbered.simps) simp
  qed
qed

lemma blob_read_in_range:
  "off + n \<le> length b \<Longrightarrow> blob_read_at_exact (Some b) off n = Inr (slice b off n)"
  by (simp add: blob_read_at_exact_def)

lemma seg_served_length:
  assumes "base64_engine enc" "seg_ok s" "seg_served db bk v s"
  shows "length (seg_bytes enc v s) = seg_len s"
  using assms
  by (cases s) (auto simp: base64_engine.enc_length ogg_ready_def renumbered_length split: if_splits)

lemma window_in_image:
  "0 < n \<Longrightarrow> off + n \<le> 4 * ((tot + 2) div 3) \<Longrightarrow>
   w_in_start (b64_window off n tot) + w_in_len (b64_window off n tot) \<le> tot"
proof -
  assume a: "0 < n" "off + n \<le> 4 * ((tot + 2) div 3)"
  then have "off div 4 < (tot + 2) div 3" by linarith
  then have "off div 4 * 3 \<le> tot" by linarith
  then show ?thesis by (simp add: b64_window_def Let_def)
qed

lemma serve_segment_slice:
  assumes e: "base64_engine enc" and ok: "seg_ok s" "seg_served db bk v s" and m: "memo_fits bk memo s"
    and n: "0 < n" "within + n \<le> seg_len s" and k: "seg_seekable bk within s"
  shows "\<exists>memo'. serve_segment enc db bk within n out memo s =
      Some (Inr (out @ slice (seg_bytes enc v s) within n, memo')) \<and>
    memo_fits bk memo' s \<and> ((\<nexists>a k d. s = OggAudio a k d) \<longrightarrow> memo' = memo)"
proof (cases s)
  case (OggAudio ao len d)
  then obtain br where br: "bk = Some br" "backing_reader (bk_read br) (bk_file br)" "ogg_ready (bk_file br) ao len"
      "env_ogg v ao len d = renumbered (bk_file br) ao (ao + len) d"
    using ok(2) by auto
  have "ao + len \<le> u64_max" "within + n \<le> len" using ok(1) n(2) by (simp_all add: OggAudio)
  then show ?thesis
    using serve_ogg_window_exact_aux[OF br(2), of ao len within d memo "within + n" out] n(1) br(1,3,4) m k
    by (auto simp: OggAudio ogg_ready_def)
next
  case (OggArtSlice i off len b64 tot)
  then obtain d where d: "db = Some d" "st_art d i = Some (env_art v i)" "length (env_art v i) = tot" using ok(2) by auto
  show ?thesis
  proof (cases b64)
    case True
    let ?img = "env_art v i"
    define w where "w = b64_window (off + within) n tot"
    have l: "length (enc ?img) = 4 * ((tot + 2) div 3)" by (simp add: base64_engine.enc_length[OF e] d(3))
    have r: "off + within + n \<le> length (enc ?img)" "length (enc ?img) \<le> u64_max"
      using ok(1) n(2) by (simp_all add: OggArtSlice True l)
    note enc = base64_engine.window_encodes[OF e n(1) r, of w, unfolded d(3), OF w_def]
    have "w_in_start w + w_in_len w \<le> tot"
      using window_in_image[OF n(1), of "off + within" tot] r(1) l d(3) by (simp add: w_def)
    moreover have "slice (slice (enc ?img) off len) within n = slice (enc ?img) (off + within) n"
      using n(2) by (intro slice_slice) (simp add: OggArtSlice)
    ultimately show ?thesis using d enc m
      by (simp add: OggArtSlice True read_art_chunk_def blob_read_in_range append_read_def Let_def flip: w_def)
  next
    case False
    then show ?thesis using d ok(1) n m
      by (simp add: OggArtSlice read_art_chunk_def blob_read_in_range append_read_def slice_slice)
  qed
qed (use ok n m in \<open>auto simp: append_read_def read_art_chunk_def read_binary_tag_chunk_def blob_read_in_range
       slice_slice backing_reader.rd_exact\<close>)

lemma one_ogg_memo:
  assumes "one_ogg all" "s \<in> set all" "\<forall>t\<in>set all. memo_fits bk memo t"
    "memo_fits bk memo1 s" "(\<nexists>a k d. s = OggAudio a k d) \<longrightarrow> memo1 = memo"
  shows "\<forall>t\<in>set all. memo_fits bk memo1 t"
proof
  fix t assume t: "t \<in> set all"
  show "memo_fits bk memo1 t"
  proof (cases "\<exists>a k d. s = OggAudio a k d")
    case True
    show ?thesis
    proof (cases "\<exists>a k d. t = OggAudio a k d")
      case True
      then have "t = s" using \<open>\<exists>a k d. s = OggAudio a k d\<close> assms(1,2) t unfolding one_ogg_def by blast
      then show ?thesis using assms(4) by simp
    qed (cases t; cases bk; simp)
  next
    case False
    then show ?thesis using assms(3,5) t by auto
  qed
qed

lemma read_loop_window:
  assumes e: "base64_engine enc" and "\<forall>s\<in>set segs. seg_ok s \<and> seg_served db bk v s" "off \<le> en"
    and k: "off_seekable bk off seg_start segs"
    and all: "one_ogg all" "set segs \<subseteq> set all" "\<forall>t\<in>set all. memo_fits bk memo t"
  shows "\<exists>memo'. read_segments_loop enc db bk off en seg_start (out, memo) segs =
      Some (Inr (out @ window off en seg_start (layout_bytes enc v segs), memo')) \<and>
    (\<forall>t\<in>set all. memo_fits bk memo' t)"
  using assms(2,4,6,7)
proof (induction segs arbitrary: seg_start out memo)
  case Nil
  then show ?case by (auto simp: layout_bytes_def window_def)
next
  case (Cons s segs)
  have s: "seg_ok s" "seg_served db bk v s" "memo_fits bk memo s" "s \<in> set all" using Cons.prems by auto
  define b where "b = seg_bytes enc v s"
  have len: "length b = seg_len s" using seg_served_length[OF e s(1,2)] by (simp add: b_def)
  have lb: "layout_bytes enc v (s # segs) = b @ layout_bytes enc v segs" by (simp add: layout_bytes_def b_def)
  have step: "\<exists>memo1. (if max off seg_start < min en (seg_start + seg_len s)
        then serve_segment enc db bk (max off seg_start - seg_start) (min en (seg_start + seg_len s) - max off seg_start) out memo s
        else Some (Inr (out, memo))) = Some (Inr (out @ window off en seg_start b, memo1)) \<and>
      memo_fits bk memo1 s \<and> ((\<nexists>a k d. s = OggAudio a k d) \<longrightarrow> memo1 = memo)"
  proof (cases "max off seg_start < min en (seg_start + seg_len s)")
    case True
    then have "0 < min en (seg_start + seg_len s) - max off seg_start"
      "max off seg_start - seg_start + (min en (seg_start + seg_len s) - max off seg_start) \<le> seg_len s" by linarith+
    moreover have "seg_seekable bk (max off seg_start - seg_start) s"
      using Cons.prems(2) True seg_seekable_0[of bk s] by (cases "seg_start \<le> off") auto
    ultimately have sl: "\<exists>memo'. serve_segment enc db bk (max off seg_start - seg_start)
          (min en (seg_start + seg_len s) - max off seg_start) out memo s =
        Some (Inr (out @ slice b (max off seg_start - seg_start) (min en (seg_start + seg_len s) - max off seg_start), memo')) \<and>
        memo_fits bk memo' s \<and> ((\<nexists>a k d. s = OggAudio a k d) \<longrightarrow> memo' = memo)"
      unfolding b_def by (rule serve_segment_slice[OF e s(1-3)])
    have "window off en seg_start b = slice b (max off seg_start - seg_start) (min en (seg_start + seg_len s) - max off seg_start)"
      using window_overlap[of off en seg_start b, unfolded len] True by (simp only: if_True)
    then show ?thesis using sl True by (simp only: if_True)
  next
    case False
    then show ?thesis using s(3) by (simp only: if_False window_overlap[of off en seg_start b, unfolded len]) simp
  qed
  then obtain memo1 where m1: "(if max off seg_start < min en (seg_start + seg_len s)
        then serve_segment enc db bk (max off seg_start - seg_start) (min en (seg_start + seg_len s) - max off seg_start) out memo s
        else Some (Inr (out, memo))) = Some (Inr (out @ window off en seg_start b, memo1))"
      "memo_fits bk memo1 s" "(\<nexists>a k d. s = OggAudio a k d) \<longrightarrow> memo1 = memo" by blast
  note fit1 = one_ogg_memo[OF all(1) s(4) Cons.prems(4) m1(2,3)]
  note w = window_append[OF assms(3), of seg_start b "layout_bytes enc v segs", unfolded len]
  have sub: "\<forall>s\<in>set segs. seg_ok s \<and> seg_served db bk v s" "off_seekable bk off (seg_start + seg_len s) segs"
    "set segs \<subseteq> set all" using Cons.prems by auto
  from Cons.IH[OF sub fit1, of "out @ window off en seg_start b"]
  obtain memo' where m': "read_segments_loop enc db bk off en (seg_start + seg_len s) (out @ window off en seg_start b, memo1) segs =
        Some (Inr ((out @ window off en seg_start b) @ window off en (seg_start + seg_len s) (layout_bytes enc v segs), memo'))"
      "\<forall>t\<in>set all. memo_fits bk memo' t" by auto
  have st: "read_segments_loop enc db bk off en seg_start (out, memo) (s # segs) =
      (if en \<le> seg_start + seg_len s then Some (Inr (out @ window off en seg_start b, memo1))
       else read_segments_loop enc db bk off en (seg_start + seg_len s) (out @ window off en seg_start b, memo1) segs)"
    unfolding read_segments_loop.simps Let_def fst_conv snd_conv m1(1) pbind_simps ..
  show ?case unfolding st lb w
  proof (cases "en \<le> seg_start + seg_len s")
    case True
    then show "\<exists>memo'. (if en \<le> seg_start + seg_len s then Some (Inr (out @ window off en seg_start b, memo1))
         else read_segments_loop enc db bk off en (seg_start + seg_len s) (out @ window off en seg_start b, memo1) segs) =
       Some (Inr (out @ window off en seg_start b @ window off en (seg_start + seg_len s) (layout_bytes enc v segs), memo')) \<and>
       (\<forall>t\<in>set all. memo_fits bk memo' t)"
      using fit1 by (simp add: window_past)
  next
    case False
    then show "\<exists>memo'. (if en \<le> seg_start + seg_len s then Some (Inr (out @ window off en seg_start b, memo1))
         else read_segments_loop enc db bk off en (seg_start + seg_len s) (out @ window off en seg_start b, memo1) segs) =
       Some (Inr (out @ window off en seg_start b @ window off en (seg_start + seg_len s) (layout_bytes enc v segs), memo')) \<and>
       (\<forall>t\<in>set all. memo_fits bk memo' t)"
      using m' by simp
  qed
qed

text \<open>The whole precondition of a read: the layout passed validation and the store, the backing
  file and the memo still agree with it.\<close>

definition read_ready ::
  "(bytes \<Rightarrow> bytes) \<Rightarrow> byte_env \<Rightarrow> blob_store option \<Rightarrow> backing option \<Rightarrow> resolved_file \<Rightarrow> bool" where
  "read_ready enc v db bk rf \<longleftrightarrow>
     validated (rl_segments (rf_layout rf)) = Inr (rf_layout rf) \<and> rf_total_len rf = rl_total_len (rf_layout rf) \<and>
     one_ogg (rl_segments (rf_layout rf)) \<and>
     list_all (\<lambda>s. seg_served db bk v s \<and> memo_fits bk (rf_last_page rf) s) (rl_segments (rf_layout rf))"

lemma served_total:
  assumes "base64_engine enc" "read_ready enc v db bk rf"
  shows "length (layout_bytes enc v (rl_segments (rf_layout rf))) = rf_total_len rf" "rf_total_len rf \<le> u64_max"
proof -
  have "length (layout_bytes enc v segs) = sum_list (map seg_len segs)"
    if "\<forall>s\<in>set segs. seg_ok s \<and> seg_served db bk v s" for segs
    using that by (induction segs) (simp_all add: layout_bytes_def seg_served_length[OF assms(1), of _ db bk])
  then show "length (layout_bytes enc v (rl_segments (rf_layout rf))) = rf_total_len rf" "rf_total_len rf \<le> u64_max"
    using assms(2) validated_totals[of "rl_segments (rf_layout rf)" "rf_layout rf"]
    by (auto simp: read_ready_def validated_iff list_all_iff)
qed

lemma read_segments_slice:
  assumes e: "base64_engine enc" and r: "read_ready enc v db bk rf"
    and k: "off_seekable bk off 0 (rl_segments (rf_layout rf))"
  shows "\<exists>memo'. read_segments_into enc rf db bk off sz out =
      Some (Inr (out @ slice (layout_bytes enc v (rl_segments (rf_layout rf))) off sz, memo')) \<and>
    (\<forall>t\<in>set (rl_segments (rf_layout rf)). memo_fits bk memo' t)"
proof -
  let ?segs = "rl_segments (rf_layout rf)"
  have s: "\<forall>s\<in>set ?segs. seg_ok s \<and> seg_served db bk v s" "one_ogg ?segs" "\<forall>t\<in>set ?segs. memo_fits bk (rf_last_page rf) t"
    using r by (auto simp: read_ready_def validated_iff list_all_iff)
  note t = served_total[OF e r]
  show ?thesis
  proof (cases "rf_total_len rf \<le> off \<or> sz = 0")
    case True
    then have "slice (layout_bytes enc v ?segs) off sz = []" using t by (auto simp: slice_def)
    then show ?thesis using True s(3) by (simp add: read_segments_into_def)
  next
    case False
    define en where "en = min (sat_add64 off sz) (rf_total_len rf)"
    have en: "off \<le> en" using False t(2) by (simp add: en_def sat_add64_def)
    have "slice (layout_bytes enc v ?segs) off sz = window off en 0 (layout_bytes enc v ?segs)"
      using False t by (auto simp: window_def slice_def en_def sat_add64_def min_def)
    then show ?thesis
      using read_loop_window[OF e s(1) en k s(2) subset_refl s(3), of out] False
      by (simp add: read_segments_into_def flip: en_def)
  qed
qed

text \<open>C18: a read of a synthesized file appends exactly the requested window of the bytes its layout
  stands for, cut at the end of the file, whatever segments the window crosses, without a panic or an
  error, as long as the layout is a validated one with at most one Ogg region, the stored blobs have
  the lengths and the backing file has the ranges of the layout, the Ogg region is made of whole pages
  that verify, with no reserved header flag set and nothing else verifying as a page, a memo left by
  an earlier read names a page of it, and the offset, where it lies in the Ogg region, is seekable:
  the backward search finds its page (Ogg_Serve has an offset that is not, and whose read fails).\<close>

theorem reads_are_slices:
  assumes "base64_engine enc" "read_ready enc v db bk rf" "off_seekable bk off 0 (rl_segments (rf_layout rf))"
  shows "\<exists>memo'. read_segments_into enc rf db bk off sz out =
      Some (Inr (out @ slice (layout_bytes enc v (rl_segments (rf_layout rf))) off sz, memo'))"
  using read_segments_slice[OF assms] by blast

definition demo_segs :: "segment list" where
  "demo_segs = [Inline [1, 2], ArtImage 1 3, BackingAudio 2 4, OggArtSlice 1 1 2 True 3, BinaryTag 5 2]"

definition demo_read_layout :: region_layout where
  "demo_read_layout = \<lparr> rl_segments = demo_segs, rl_total_len = 13, rl_header_len = 9 \<rparr>"

definition demo_read_env :: byte_env where
  "demo_read_env = \<lparr> env_art = (\<lambda>i. [7, 8, 9]), env_tag = (\<lambda>i. [5, 6]), env_backing = [0, 1, 2, 3, 4, 5, 6],
     env_ogg = (\<lambda>ao n d. []) \<rparr>"

definition demo_stamp :: backing_stamp where
  "demo_stamp = stamp_from_metadata \<lparr> fm_len = 7, fm_mtime = 3, fm_mtime_nsec = 4, fm_ctime = 3, fm_ctime_nsec = 5 \<rparr>"

definition demo_resolved :: resolved_file where
  "demo_resolved = \<lparr> rf_layout = demo_read_layout, rf_total_len = 13, rf_track_id = 1, rf_content_version = 2,
     rf_backing_path = ''a.flac'', rf_stamp = demo_stamp, rf_mtime_secs = 3, rf_last_page = None,
     rf_cache_bytes = 2, rf_streams_db_rowid = True \<rparr>"

definition demo_store :: blob_store where
  "demo_store = \<lparr> st_art = (\<lambda>i. Some [7, 8, 9]), st_tag = (\<lambda>i. Some [5, 6]) \<rparr>"

definition demo_backing :: backing where
  "demo_backing = \<lparr> bk_file = [0, 1, 2, 3, 4, 5, 6], bk_read = file_read_exact [0, 1, 2, 3, 4, 5, 6] \<rparr>"

lemma demo_read_ready: "read_ready b64_std demo_read_env (Some demo_store) (Some demo_backing) demo_resolved"
  using plain_file.backing_reader_axioms[of "[0, 1, 2, 3, 4, 5, 6]"]
  by (simp add: read_ready_def demo_resolved_def demo_read_layout_def demo_segs_def validated_iff from_segments_def
      sat_add64_def u64_max_def one_ogg_def demo_read_env_def demo_store_def demo_backing_def)

lemma reads_are_slices_witness:
  "\<exists>memo'. read_segments_into b64_std demo_resolved (Some demo_store) (Some demo_backing) 1 11 [] =
      Some (Inr ([] @ slice (layout_bytes b64_std demo_read_env demo_segs) 1 11, memo'))"
  using reads_are_slices[OF std.base64_engine_axioms demo_read_ready, of 1 11 "[]"]
  by (simp add: demo_resolved_def demo_read_layout_def demo_segs_def)

text \<open>C19: the stateless read checks before it serves: when the file it opened does not carry the stamp
  the layout was resolved from, or the layout streams rows of the store and the track's live content
  version is not the resolved one, it reports that the backing changed, whatever the file and the
  store hold by then; when both agree it serves the requested window, under the conditions of
  the property before on the opened file and the live store.\<close>

theorem read_at_into_guarded:
  assumes "fs (rf_backing_path rf) = Inr (m, f)" "db_content_version db (rf_track_id rf) = Inr cv"
    "off < rf_total_len rf" "sz \<noteq> 0"
  defines "changed \<equiv> needs_file (rf_layout rf) \<and> stamp_from_metadata m \<noteq> rf_stamp rf \<or>
      rf_streams_db_rowid rf \<and> cv \<noteq> rf_content_version rf"
    and "bk \<equiv> if needs_file (rf_layout rf) then Some \<lparr> bk_file = f, bk_read = file_read_exact f \<rparr> else None"
  shows "(changed \<longrightarrow> read_at_into enc rf db fs off sz out = Some (Inl (BackingChanged (rf_backing_path rf)))) \<and>
    (\<not> changed \<and> base64_engine enc \<and> read_ready enc v (Some (db_blobs db)) bk rf \<and>
        off_seekable bk off 0 (rl_segments (rf_layout rf)) \<longrightarrow>
      (\<exists>memo'. read_at_into enc rf db fs off sz out =
         Some (Inr (out @ slice (layout_bytes enc v (rl_segments (rf_layout rf))) off sz, memo'))))"
proof (intro conjI impI)
  assume "changed"
  thus "read_at_into enc rf db fs off sz out = Some (Inl (BackingChanged (rf_backing_path rf)))"
    using assms(1-4) unfolding changed_def
    by (cases "needs_file (rf_layout rf)") (auto simp: read_at_into_def open_validated_def)
next
  assume a: "\<not> changed \<and> base64_engine enc \<and> read_ready enc v (Some (db_blobs db)) bk rf \<and>
        off_seekable bk off 0 (rl_segments (rf_layout rf))"
  obtain memo' where r: "read_segments_into enc rf (Some (db_blobs db)) bk off sz out =
      Some (Inr (out @ slice (layout_bytes enc v (rl_segments (rf_layout rf))) off sz, memo'))"
    using read_segments_slice[of enc v "Some (db_blobs db)" bk rf off sz out] a by blast
  have "read_with_optional_backing enc rf (db_blobs db) (if needs_file (rf_layout rf) then Some f else None) off sz out =
      Some (Inr (out @ slice (layout_bytes enc v (rl_segments (rf_layout rf))) off sz, memo'))"
    using r by (simp add: read_with_optional_backing_def bk_def split: if_split_asm)
  then show "\<exists>memo'. read_at_into enc rf db fs off sz out =
         Some (Inr (out @ slice (layout_bytes enc v (rl_segments (rf_layout rf))) off sz, memo'))"
    using assms(1-4) a unfolding changed_def
    by (cases "needs_file (rf_layout rf)") (auto simp: read_at_into_def open_validated_def)
qed

text \<open>The row moved on and its blobs are gone; and the same read while they are there.\<close>

definition demo_fs :: file_system where
  "demo_fs = (\<lambda>_. Inr (\<lparr> fm_len = 7, fm_mtime = 3, fm_mtime_nsec = 4, fm_ctime = 3, fm_ctime_nsec = 5 \<rparr>, [0, 1, 2, 3, 4, 5, 6]))"

definition demo_live :: "int \<Rightarrow> live_db" where
  "demo_live v = \<lparr> db_blobs = (if v = 2 then demo_store else \<lparr> st_art = (\<lambda>_. None), st_tag = (\<lambda>_. None) \<rparr>),
     db_content_version = (\<lambda>_. Inr v) \<rparr>"

lemma read_at_into_guarded_witness:
  "read_at_into b64_std demo_resolved (demo_live 3) demo_fs 1 4 [] = Some (Inl (BackingChanged ''a.flac'')) \<and>
   (\<exists>memo'. read_at_into b64_std demo_resolved (demo_live 2) demo_fs 1 4 [] =
      Some (Inr ([] @ slice (layout_bytes b64_std demo_read_env demo_segs) 1 4, memo')))"
proof -
  have n: "needs_file (rf_layout demo_resolved)" by (simp add: needs_file_def demo_resolved_def demo_read_layout_def demo_segs_def)
  have fs: "demo_fs (rf_backing_path demo_resolved) =
      Inr (\<lparr> fm_len = 7, fm_mtime = 3, fm_mtime_nsec = 4, fm_ctime = 3, fm_ctime_nsec = 5 \<rparr>, [0, 1, 2, 3, 4, 5, 6])"
    by (simp add: demo_fs_def)
  have v: "db_content_version (demo_live w) (rf_track_id demo_resolved) = Inr w" for w by (simp add: demo_live_def)
  have "off_seekable (Some demo_backing) 1 0 (rl_segments (rf_layout demo_resolved))"
    by (simp add: demo_resolved_def demo_read_layout_def demo_segs_def)
  moreover have "rf_stamp demo_resolved = demo_stamp" "rf_streams_db_rowid demo_resolved" "rf_content_version demo_resolved = 2"
    "1 < rf_total_len demo_resolved" "rf_backing_path demo_resolved = ''a.flac''" "rl_segments (rf_layout demo_resolved) = demo_segs"
    by (simp_all add: demo_resolved_def demo_read_layout_def)
  moreover note demo_read_ready[unfolded demo_backing_def] std.base64_engine_axioms
  ultimately show ?thesis
    using read_at_into_guarded[of demo_fs demo_resolved _ _ "demo_live 3" 3 1 4 b64_std "[]", OF fs v]
      read_at_into_guarded[of demo_fs demo_resolved _ _ "demo_live 2" 2 1 4 b64_std "[]" demo_read_env, OF fs v] n
    by (auto simp: demo_backing_def demo_live_def demo_stamp_def)
qed

end
