(* ===== verification/Readahead.thy ===== *)
theory Readahead
  imports Core_Base "HOL-Library.AList"
begin

text \<open>
  Per-handle read-ahead of the backing file, musefs-core/src/readahead.rs: the ring of cached
  windows with its adaptive size, the shared byte budget with eviction of the coldest stream, the
  prefetch plan and its epoch check. The operations of all streams are the steps of a machine; its
  invariant is that every cached window holds the bytes of its file and the budget charges exactly
  what is cached.
\<close>

definition window_floor :: nat where "window_floor = 512 * 1024"
definition window_abs_cap :: nat where "window_abs_cap = 8 * 1024 * 1024"
definition per_stream_divisor :: nat where "per_stream_divisor = 4"

subsection \<open>One handle's windows\<close>

record cached_window =
  cw_start :: nat
  cw_bytes :: bytes

abbreviation cw_end :: "cached_window \<Rightarrow> nat" where
  "cw_end w \<equiv> cw_start w + length (cw_bytes w)"

record read_ahead =
  ra_windows :: "cached_window list"
  ra_cached_bytes :: nat
  ra_next_expected :: nat
  ra_window :: nat
  ra_cap :: nat
  ra_max_windows :: nat

definition read_ahead_new :: "nat \<Rightarrow> read_ahead" where
  "read_ahead_new cap = \<lparr> ra_windows = [], ra_cached_bytes = 0, ra_next_expected = u64_max,
     ra_window = window_floor, ra_cap = cap, ra_max_windows = 1 \<rparr>"

definition set_max_windows :: "nat \<Rightarrow> read_ahead \<Rightarrow> read_ahead" where
  "set_max_windows n ra = ra\<lparr> ra_max_windows := max n 1 \<rparr>"

definition ra_clear :: "read_ahead \<Rightarrow> nat \<times> read_ahead" where
  "ra_clear ra = (ra_cached_bytes ra, ra\<lparr> ra_windows := [], ra_cached_bytes := 0,
     ra_window := min window_floor (ra_cap ra), ra_next_expected := u64_max \<rparr>)"

definition set_cap :: "nat \<Rightarrow> read_ahead \<Rightarrow> read_ahead" where
  "set_cap cap ra = ra\<lparr> ra_cap := cap, ra_window := (if ra_window ra > cap then cap else ra_window ra) \<rparr>"

definition holds_range :: "nat \<Rightarrow> nat \<Rightarrow> cached_window \<Rightarrow> bool" where
  "holds_range off n w \<longleftrightarrow> off \<ge> cw_start w \<and> sat_add64 off n \<le> cw_end w"

definition covers :: "read_ahead \<Rightarrow> nat \<Rightarrow> nat \<Rightarrow> bool" where
  "covers ra off n = list_ex (holds_range off n) (ra_windows ra)"

definition window_containing :: "read_ahead \<Rightarrow> nat \<Rightarrow> nat \<Rightarrow> cached_window option" where
  "window_containing ra off n = find (holds_range off n) (ra_windows ra)"

text \<open>The windows are sorted by start; the binary search yields the position of an equal start, or
  the position at which to insert.\<close>

fun place_window :: "cached_window \<Rightarrow> cached_window list \<Rightarrow> cached_window list" where
  "place_window w [] = [w]"
| "place_window w (x # xs) =
     (if cw_start x = cw_start w then w # xs
      else if cw_start w < cw_start x then w # x # xs
      else x # place_window w xs)"

fun find_position :: "('a \<Rightarrow> bool) \<Rightarrow> 'a list \<Rightarrow> nat option" where
  "find_position p [] = None"
| "find_position p (x # xs) = (if p x then Some 0 else map_option Suc (find_position p xs))"

fun find_last_position :: "('a \<Rightarrow> bool) \<Rightarrow> 'a list \<Rightarrow> nat option" where
  "find_last_position p [] = None"
| "find_last_position p (x # xs) =
     (case find_last_position p xs of Some i \<Rightarrow> Some (Suc i) | None \<Rightarrow> if p x then Some 0 else None)"

fun min_position :: "('a \<Rightarrow> nat) \<Rightarrow> 'a list \<Rightarrow> nat" where
  "min_position k [] = 0"
| "min_position k [x] = 0"
| "min_position k (x # y # xs) =
     (let i = min_position k (y # xs) in if k x \<le> k ((y # xs) ! i) then 0 else Suc i)"

definition evict_victim :: "nat \<Rightarrow> cached_window list \<Rightarrow> nat" where
  "evict_victim frontier ws =
     (case find_position (\<lambda>w. cw_end w \<le> frontier) ws of
        Some i \<Rightarrow> i
      | None \<Rightarrow>
          (case find_last_position (\<lambda>w. cw_start w > frontier) ws of
             Some i \<Rightarrow> i
           | None \<Rightarrow> min_position cw_end ws))"

definition remove_at :: "nat \<Rightarrow> 'a list \<Rightarrow> 'a list" where
  "remove_at i xs = take i xs @ drop (Suc i) xs"

lemma find_position_Some:
  "find_position p xs = Some i \<Longrightarrow> i < length xs \<and> p (xs ! i)"
  by (induction xs arbitrary: i) (auto split: if_splits)

lemma find_position_None: "find_position p xs = None \<longleftrightarrow> (\<forall>x\<in>set xs. \<not> p x)"
  by (induction xs) auto

lemma find_last_position_Some:
  "find_last_position p xs = Some i \<Longrightarrow> i < length xs \<and> p (xs ! i)"
  by (induction xs arbitrary: i) (auto split: if_splits option.splits)

lemma find_last_position_None: "find_last_position p xs = None \<longleftrightarrow> (\<forall>x\<in>set xs. \<not> p x)"
  by (induction xs) (auto split: option.splits)

lemma min_position_min:
  "xs \<noteq> [] \<Longrightarrow> min_position k xs < length xs \<and> (\<forall>x\<in>set xs. k (xs ! min_position k xs) \<le> k x)"
  by (induction k xs rule: min_position.induct) (auto simp: Let_def)

lemma evict_victim_lt: "ws \<noteq> [] \<Longrightarrow> evict_victim frontier ws < length ws"
  using min_position_min[of ws cw_end]
  by (auto simp: evict_victim_def dest: find_position_Some find_last_position_Some split: option.splits)

lemma remove_at_length: "i < length xs \<Longrightarrow> length (remove_at i xs) = length xs - 1"
  by (simp add: remove_at_def)

lemma evict_shrinks: "mx < length ws \<Longrightarrow> length (remove_at (evict_victim frontier ws) ws) < length ws"
  using evict_victim_lt[of ws frontier] by (cases ws) (simp_all add: remove_at_length)

function trim_windows :: "nat \<Rightarrow> nat \<Rightarrow> cached_window list \<Rightarrow> nat \<Rightarrow> cached_window list \<times> nat" where
  "trim_windows frontier mx ws cached =
     (if length ws > mx then
        let idx = evict_victim frontier ws
        in trim_windows frontier mx (remove_at idx ws) (cached - length (cw_bytes (ws ! idx)))
      else (ws, cached))"
  by auto
termination
  by (relation "measure (\<lambda>(_, _, ws, _). length ws)") (simp_all add: evict_shrinks)

declare trim_windows.simps [simp del]

definition insert_window :: "cached_window \<Rightarrow> read_ahead \<Rightarrow> read_ahead" where
  "insert_window w ra =
     (let n = length (cw_bytes w);
          cached = (case find (\<lambda>x. cw_start x = cw_start w) (ra_windows ra) of
              Some x \<Rightarrow> ra_cached_bytes ra - length (cw_bytes x) + n
            | None \<Rightarrow> ra_cached_bytes ra + n);
          (ws, cached) = trim_windows (ra_next_expected ra) (ra_max_windows ra)
                           (place_window w (ra_windows ra)) cached
      in ra\<lparr> ra_windows := ws, ra_cached_bytes := cached \<rparr>)"

definition store_window :: "nat \<Rightarrow> bytes \<Rightarrow> read_ahead \<Rightarrow> (nat \<times> nat) \<times> read_ahead" where
  "store_window start bs ra =
     (let ra' = insert_window \<lparr> cw_start = start, cw_bytes = bs \<rparr> ra
      in ((ra_cached_bytes ra, ra_cached_bytes ra'), ra'))"

text \<open>Reading n bytes at an offset: the bytes, the lengths before and after, and the new state. The
  state is also kept by a failing read.\<close>

definition ra_read_into ::
  "(nat \<Rightarrow> nat \<Rightarrow> bytes cresult) \<Rightarrow> nat \<Rightarrow> nat \<Rightarrow> nat \<Rightarrow> read_ahead \<Rightarrow>
   (bytes \<times> nat \<times> nat) cresult \<times> read_ahead" where
  "ra_read_into fill off n backing_len ra =
     (if n = 0 then (Inr ([], ra_cached_bytes ra, ra_cached_bytes ra), ra)
      else case window_containing ra off n of
        Some w \<Rightarrow>
          (Inr (slice (cw_bytes w) (off - cw_start w) n, ra_cached_bytes ra, ra_cached_bytes ra),
           ra\<lparr> ra_next_expected := off + n \<rparr>)
      | None \<Rightarrow>
          let old = ra_cached_bytes ra;
              ra = ra\<lparr> ra_window := (if off = ra_next_expected ra
                         then min (min (2 * ra_window ra) u64_max) (ra_cap ra)
                         else min window_floor (ra_cap ra)) \<rparr>
          in if off \<ge> backing_len \<or> sat_add64 off n > backing_len then (Inl (Io UnexpectedEof), ra)
             else let want = min (min (max (ra_window ra) n) (max (ra_cap ra) n)) (backing_len - off)
                  in case fill off want of
                       Inl e \<Rightarrow> (Inl e, ra)
                     | Inr buf \<Rightarrow>
                         let ra = insert_window \<lparr> cw_start = off, cw_bytes = buf \<rparr> (ra\<lparr> ra_next_expected := off + n \<rparr>)
                         in (Inr (take n buf, old, ra_cached_bytes ra), ra))"

subsection \<open>What a handle's windows hold\<close>

definition window_ok :: "bytes \<Rightarrow> cached_window \<Rightarrow> bool" where
  "window_ok f w \<longleftrightarrow> cw_end w \<le> length f \<and> cw_bytes w = slice f (cw_start w) (length (cw_bytes w))"

definition ra_ok :: "bytes \<Rightarrow> read_ahead \<Rightarrow> bool" where
  "ra_ok f ra \<longleftrightarrow> list_all (window_ok f) (ra_windows ra) \<and> sorted_wrt (<) (map cw_start (ra_windows ra)) \<and>
     ra_cached_bytes ra = (\<Sum>w\<leftarrow>ra_windows ra. length (cw_bytes w))"

lemma place_window_set: "set (place_window w ws) \<subseteq> insert w (set ws)" "w \<in> set (place_window w ws)"
  by (induction w ws rule: place_window.induct) auto

lemma place_window_starts:
  "sorted_wrt (<) (map cw_start ws) \<Longrightarrow> sorted_wrt (<) (map cw_start (place_window w ws)) \<and>
   cw_start ` set (place_window w ws) = insert (cw_start w) (cw_start ` set ws)"
  by (induction w ws rule: place_window.induct) (auto simp: ball_Un image_iff; fastforce)+

abbreviation total_bytes :: "cached_window list \<Rightarrow> nat" where
  "total_bytes ws \<equiv> (\<Sum>w\<leftarrow>ws. length (cw_bytes w))"

lemma find_start_bytes:
  "find p ws = Some x \<Longrightarrow> x \<in> set ws \<and> p x \<and> length (cw_bytes x) \<le> total_bytes ws"
  by (induction ws) (auto split: if_splits)

lemma place_window_bytes:
  "sorted_wrt (<) (map cw_start ws) \<Longrightarrow>
   total_bytes (place_window w ws) =
     (case find (\<lambda>x. cw_start x = cw_start w) ws of
        Some x \<Rightarrow> total_bytes ws - length (cw_bytes x) + length (cw_bytes w)
      | None \<Rightarrow> total_bytes ws + length (cw_bytes w))"
proof (induction w ws rule: place_window.induct)
  case (2 w x xs)
  have "find (\<lambda>y. cw_start y = cw_start w) xs = None" if "cw_start w < cw_start x"
    using 2(2) that by (auto simp: find_None_iff)
  moreover have "total_bytes (place_window w xs) = (case find (\<lambda>x. cw_start x = cw_start w) xs of
        Some x \<Rightarrow> total_bytes xs - length (cw_bytes x) + length (cw_bytes w)
      | None \<Rightarrow> total_bytes xs + length (cw_bytes w))"
    if "cw_start x \<noteq> cw_start w" "\<not> cw_start w < cw_start x"
    using 2 that by simp
  moreover have "length (cw_bytes y) \<le> total_bytes xs" if "find (\<lambda>x. cw_start x = cw_start w) xs = Some y" for y
    using find_start_bytes[OF that] by simp
  ultimately show ?case by (cases "find (\<lambda>x. cw_start x = cw_start w) xs") auto
qed simp

lemma remove_at_set: "i < length xs \<Longrightarrow> xs = take i xs @ xs ! i # drop (Suc i) xs"
  by (simp add: id_take_nth_drop)

lemma remove_at_bytes:
  "i < length ws \<Longrightarrow> total_bytes (remove_at i ws) = total_bytes ws - length (cw_bytes (ws ! i))"
  by (subst (2) remove_at_set, assumption) (simp add: remove_at_def)

lemma remove_at_subset: "set (remove_at i xs) \<subseteq> set xs"
  using set_take_subset[of i xs] set_drop_subset[of "Suc i" xs] by (auto simp: remove_at_def)

lemma remove_at_sorted: "sorted_wrt P xs \<Longrightarrow> sorted_wrt P (remove_at i xs)"
proof -
  assume s: "sorted_wrt P xs"
  have d: "drop (Suc i) xs = drop 1 (drop i xs)" by simp
  have "sorted_wrt P (take i xs @ drop i xs)" using s by simp
  then show ?thesis unfolding remove_at_def d sorted_wrt_append
    using in_set_dropD[of _ 1 "drop i xs"] sorted_wrt_drop[of P "drop i xs" 1] by blast
qed

lemma trim_windows_ok:
  assumes "sorted_wrt (<) (map cw_start ws)" "cached = total_bytes ws" "trim_windows fr mx ws cached = (ws', cached')"
  shows "sorted_wrt (<) (map cw_start ws') \<and> cached' = total_bytes ws' \<and> set ws' \<subseteq> set ws \<and> length ws' \<le> mx"
  using assms
proof (induction fr mx ws cached rule: trim_windows.induct)
  case (1 fr mx ws cached)
  show ?case
  proof (cases "length ws > mx")
    case True
    define idx where "idx = evict_victim fr ws"
    have idx: "idx < length ws" using True evict_victim_lt[of ws fr] by (cases ws) (auto simp: idx_def)
    have "sorted_wrt (<) (map cw_start (remove_at idx ws))"
      using 1(2) remove_at_sorted[of "\<lambda>a b. cw_start a < cw_start b" ws idx] by (simp add: sorted_wrt_map)
    moreover have "cached - length (cw_bytes (ws ! idx)) = total_bytes (remove_at idx ws)"
      using remove_at_bytes[OF idx] 1(3) by simp
    moreover have "trim_windows fr mx (remove_at idx ws) (cached - length (cw_bytes (ws ! idx))) = (ws', cached')"
      using 1(4) True by (subst (asm) trim_windows.simps) (simp add: idx_def Let_def)
    ultimately show ?thesis using 1(1)[OF True idx_def] remove_at_subset[of idx ws] by blast
  next
    case False
    then show ?thesis using 1(2,3,4) by (subst (asm) trim_windows.simps) auto
  qed
qed

lemma insert_window_ok:
  assumes "ra_ok f ra" "window_ok f w"
  shows "ra_ok f (insert_window w ra)" "length (ra_windows (insert_window w ra)) \<le> ra_max_windows ra"
    "ra_cap (insert_window w ra) = ra_cap ra" "ra_window (insert_window w ra) = ra_window ra"
    "ra_next_expected (insert_window w ra) = ra_next_expected ra" "ra_max_windows (insert_window w ra) = ra_max_windows ra"
proof -
  define c where "c = (case find (\<lambda>x. cw_start x = cw_start w) (ra_windows ra) of
      Some x \<Rightarrow> ra_cached_bytes ra - length (cw_bytes x) + length (cw_bytes w)
    | None \<Rightarrow> ra_cached_bytes ra + length (cw_bytes w))"
  obtain ws' c' where t: "trim_windows (ra_next_expected ra) (ra_max_windows ra) (place_window w (ra_windows ra)) c = (ws', c')"
    by fastforce
  have i: "insert_window w ra = ra\<lparr> ra_windows := ws', ra_cached_bytes := c' \<rparr>"
    by (simp add: insert_window_def Let_def t flip: c_def)
  have s: "sorted_wrt (<) (map cw_start (ra_windows ra))" using assms(1) by (simp add: ra_ok_def)
  have "c = total_bytes (place_window w (ra_windows ra))"
    using place_window_bytes[OF s, of w] assms(1) by (simp add: c_def ra_ok_def cong: option.case_cong)
  note tr = trim_windows_ok[OF conjunct1[OF place_window_starts[OF s]] this t]
  show "ra_ok f (insert_window w ra)"
    using tr place_window_set(1)[of w "ra_windows ra"] assms
    by (auto simp: i ra_ok_def list_all_iff dest!: subsetD)
  show "length (ra_windows (insert_window w ra)) \<le> ra_max_windows ra" using tr by (simp add: i)
qed (auto simp: insert_window_def Let_def split: prod.split)

lemma ra_edit_ok [simp]:
  "ra_ok f (ra\<lparr> ra_next_expected := x \<rparr>) = ra_ok f ra" "ra_ok f (ra\<lparr> ra_window := x \<rparr>) = ra_ok f ra"
  "ra_ok f (set_max_windows m ra) = ra_ok f ra" "ra_ok f (set_cap c ra) = ra_ok f ra"
  "ra_ok f (read_ahead_new c)" "ra_ok f (snd (ra_clear ra))"
  by (simp_all add: ra_ok_def set_max_windows_def set_cap_def read_ahead_new_def ra_clear_def)

lemma ra_edit_cached [simp]:
  "ra_cached_bytes (set_max_windows m ra) = ra_cached_bytes ra" "ra_cached_bytes (set_cap c ra) = ra_cached_bytes ra"
  "ra_cached_bytes (read_ahead_new c) = 0" "ra_cached_bytes (snd (ra_clear ra)) = 0"
  by (simp_all add: set_max_windows_def set_cap_def read_ahead_new_def ra_clear_def)

lemma window_containing_slice:
  assumes "ra_ok f ra" "window_containing ra off n = Some w" "length f < u64_max"
  shows "off + n \<le> length f" "slice (cw_bytes w) (off - cw_start w) n = slice f off n"
proof -
  have "w \<in> set (ra_windows ra)" "holds_range off n w"
    using assms(2) by (auto simp: window_containing_def find_Some_iff)
  then have w: "cw_end w \<le> length f" "cw_bytes w = slice f (cw_start w) (length (cw_bytes w))"
      "cw_start w \<le> off" "sat_add64 off n \<le> cw_end w"
    using assms(1) by (auto simp: ra_ok_def list_all_iff window_ok_def holds_range_def)
  have e: "off + n \<le> cw_end w" using w(1,4) assms(3) by (auto simp: sat_add64_def split: if_splits)
  show "off + n \<le> length f" using e w(1) by linarith
  have "slice (slice f (cw_start w) (length (cw_bytes w))) (off - cw_start w) n = slice f (cw_start w + (off - cw_start w)) n"
    using e w(3) by (intro slice_slice) linarith
  then show "slice (cw_bytes w) (off - cw_start w) n = slice f off n" using w(2,3) by simp
qed

text \<open>Reading through the windows is reading the file.\<close>

lemma ra_read_into_file:
  assumes "backing_reader fill f" "ra_ok f ra" "length f < u64_max"
  shows "ra_ok f (snd (ra_read_into fill off n (length f) ra)) \<and>
    (if n = 0 \<or> off + n \<le> length f
     then fst (ra_read_into fill off n (length f) ra) =
       Inr (slice f off n, ra_cached_bytes ra, ra_cached_bytes (snd (ra_read_into fill off n (length f) ra)))
     else fst (ra_read_into fill off n (length f) ra) = Inl (Io UnexpectedEof) \<and>
       ra_cached_bytes (snd (ra_read_into fill off n (length f) ra)) = ra_cached_bytes ra)"
proof (cases "n = 0 \<or> window_containing ra off n \<noteq> None")
  case True
  then show ?thesis
  proof
    assume "window_containing ra off n \<noteq> None"
    then obtain w where "window_containing ra off n = Some w" by blast
    then show ?thesis using window_containing_slice[OF assms(2) _ assms(3)] assms(2)
      by (simp add: ra_read_into_def)
  qed (use assms(2) in \<open>simp add: ra_read_into_def\<close>)
next
  case False
  then have None: "window_containing ra off n = None" and n: "0 < n" by auto
  show ?thesis
  proof (cases "off + n \<le> length f")
    case True
    define wn where "wn = (if off = ra_next_expected ra then min (min (2 * ra_window ra) u64_max) (ra_cap ra)
        else min window_floor (ra_cap ra))"
    define ra1 where "ra1 = ra\<lparr> ra_window := wn, ra_next_expected := off + n \<rparr>"
    define want where "want = min (min (max wn n) (max (ra_cap ra) n)) (length f - off)"
    have w: "n \<le> want" "off + want \<le> length f" using True by (auto simp: want_def)
    have f: "fill off want = Inr (slice f off want)" using w(2) by (rule backing_reader.rd_exact[OF assms(1)])
    have ok: "window_ok f \<lparr> cw_start = off, cw_bytes = slice f off want \<rparr>" using w(2) by (simp add: window_ok_def)
    have "sat_add64 off n = off + n" using True assms(3) by (simp add: sat_add64_def)
    then have r: "ra_read_into fill off n (length f) ra =
        (let ra2 = insert_window \<lparr> cw_start = off, cw_bytes = slice f off want \<rparr> ra1
         in (Inr (take n (slice f off want), ra_cached_bytes ra, ra_cached_bytes ra2), ra2))"
      using None n True f
      by (simp add: ra_read_into_def Let_def want_def[symmetric] ra1_def wn_def[symmetric] del: if_split)
    have "take n (slice f off want) = slice f off n" using w(1) by (simp add: slice_def min_def)
    moreover have "ra_ok f ra1" using assms(2) by (simp add: ra1_def)
    ultimately show ?thesis using True insert_window_ok(1)[OF _ ok] by (simp add: r Let_def)
  next
    case False
    have "sat_add64 off n > length f" using False assms(3) by (simp add: sat_add64_def)
    then show ?thesis using None n assms(2) False by (simp add: ra_read_into_def Let_def)
  qed
qed

subsection \<open>The budget shared by all streams\<close>

record prefetch_job =
  pj_key :: nat
  pj_start :: nat
  pj_len :: nat
  pj_epoch :: nat

record pool_state =
  ps_budget :: nat
  ps_charged :: nat
  ps_streams :: "(nat \<times> nat) list"
  ps_clock :: nat
  ps_bufs :: "nat \<Rightarrow> read_ahead"
  ps_epoch :: "nat \<Rightarrow> nat"
  ps_jobs :: "prefetch_job list"

definition per_stream_cap :: "nat \<Rightarrow> nat" where
  "per_stream_cap budget =
     (if budget = 0 then 0 else max window_floor (min window_abs_cap (budget div per_stream_divisor)))"

definition pool_new :: "nat \<Rightarrow> pool_state" where
  "pool_new budget = \<lparr> ps_budget = budget, ps_charged = 0, ps_streams = [], ps_clock = 0,
     ps_bufs = (\<lambda>_. read_ahead_new (per_stream_cap budget)), ps_epoch = (\<lambda>_. 0), ps_jobs = [] \<rparr>"

definition register :: "nat \<Rightarrow> pool_state \<Rightarrow> pool_state" where
  "register key st = st\<lparr> ps_streams := AList.update key (ps_clock st) (ps_streams st), ps_clock := ps_clock st + 1 \<rparr>"

definition set_buf :: "nat \<Rightarrow> read_ahead \<Rightarrow> pool_state \<Rightarrow> pool_state" where
  "set_buf key ra st = st\<lparr> ps_bufs := (ps_bufs st)(key := ra) \<rparr>"

definition deregister :: "nat \<Rightarrow> pool_state \<Rightarrow> pool_state" where
  "deregister key st =
     (if key \<in> fst ` set (ps_streams st) then
        let (freed, ra) = ra_clear (ps_bufs st key);
            st = set_buf key ra (st\<lparr> ps_streams := AList.delete key (ps_streams st) \<rparr>)
        in (if freed > 0 then st\<lparr> ps_charged := ps_charged st - freed \<rparr> else st)
      else st)"

definition touch :: "bool \<Rightarrow> nat \<Rightarrow> pool_state \<Rightarrow> pool_state" where
  "touch contended key st =
     (let stamp = ps_clock st; st = st\<lparr> ps_clock := stamp + 1 \<rparr>
      in if \<not> contended \<and> key \<in> fst ` set (ps_streams st)
         then st\<lparr> ps_streams := AList.update key stamp (ps_streams st) \<rparr> else st)"

definition reconcile :: "nat \<Rightarrow> nat \<Rightarrow> pool_state \<Rightarrow> pool_state" where
  "reconcile old_len new_len st =
     (if new_len > old_len then st\<lparr> ps_charged := ps_charged st + (new_len - old_len) \<rparr>
      else if new_len < old_len then st\<lparr> ps_charged := ps_charged st - (old_len - new_len) \<rparr>
      else st)"

definition has_room_for :: "nat \<Rightarrow> pool_state \<Rightarrow> bool" where
  "has_room_for need st \<longleftrightarrow> ps_budget st > 0 \<and> ps_budget st - ps_charged st \<ge> need"

text \<open>A buffer whose lock another thread holds is skipped; the set of such keys is a parameter.\<close>

fun evict_from :: "(nat \<Rightarrow> bool) \<Rightarrow> (nat \<times> nat) list \<Rightarrow> pool_state \<Rightarrow> nat option \<times> pool_state" where
  "evict_from locked [] st = (None, st)"
| "evict_from locked ((k, _) # cs) st =
     (if locked k then evict_from locked cs st
      else let (freed, ra) = ra_clear (ps_bufs st k); st = set_buf k ra st
           in if freed > 0 then (Some freed, st\<lparr> ps_charged := ps_charged st - freed \<rparr>)
              else evict_from locked cs st)"

definition evict_one_coldest :: "(nat \<Rightarrow> bool) \<Rightarrow> nat \<Rightarrow> pool_state \<Rightarrow> nat option \<times> pool_state" where
  "evict_one_coldest locked except st =
     evict_from locked (sort_key snd (filter (\<lambda>(k, _). k \<noteq> except) (ps_streams st))) st"

definition nonempty_streams :: "pool_state \<Rightarrow> nat" where
  "nonempty_streams st = card {k \<in> fst ` set (ps_streams st). 0 < ra_cached_bytes (ps_bufs st k)}"

lemma set_buf_simps [simp]:
  "ps_bufs (set_buf k ra st) = (ps_bufs st)(k := ra)" "ps_streams (set_buf k ra st) = ps_streams st"
  "ps_charged (set_buf k ra st) = ps_charged st" "ps_budget (set_buf k ra st) = ps_budget st"
  "ps_epoch (set_buf k ra st) = ps_epoch st" "ps_jobs (set_buf k ra st) = ps_jobs st"
  by (simp_all add: set_buf_def)

lemma evict_from_Cons:
  "evict_from locked ((k, x) # cs) st =
     (if locked k then evict_from locked cs st
      else let st1 = set_buf k (snd (ra_clear (ps_bufs st k))) st
           in if 0 < ra_cached_bytes (ps_bufs st k)
              then (Some (ra_cached_bytes (ps_bufs st k)), st1\<lparr> ps_charged := ps_charged st - ra_cached_bytes (ps_bufs st k) \<rparr>)
              else evict_from locked cs st1)"
  by (simp add: ra_clear_def Let_def)

declare evict_from.simps(2) [simp del]

lemma clear_clear: "snd (ra_clear (snd (ra_clear ra))) = snd (ra_clear ra)"
  by (simp add: ra_clear_def)

lemma evict_from_frame:
  "evict_from locked cs st = (r, st') \<Longrightarrow>
   ps_streams st' = ps_streams st \<and> ps_budget st' = ps_budget st \<and> ps_epoch st' = ps_epoch st \<and>
   ps_jobs st' = ps_jobs st \<and>
   (\<forall>k. ps_bufs st' k = ps_bufs st k \<or> ps_bufs st' k = snd (ra_clear (ps_bufs st k)))"
proof (induction cs arbitrary: st)
  case (Cons c cs)
  obtain k x where c: "c = (k, x)" by (cases c)
  show ?case using Cons.prems Cons.IH
    by (fastforce simp: c evict_from_Cons Let_def clear_clear split: if_splits)
qed simp

lemma clear_cached_le: "ra_cached_bytes (snd (ra_clear ra)) \<le> ra_cached_bytes ra"
  by (simp add: ra_clear_def)

lemma evict_from_decreases:
  "evict_from locked cs st = (Some n, st') \<Longrightarrow> fst ` set cs \<subseteq> fst ` set (ps_streams st) \<Longrightarrow>
   nonempty_streams st' < nonempty_streams st"
proof (induction cs arbitrary: st)
  case (Cons c cs)
  obtain k x where c: "c = (k, x)" by (cases c)
  let ?N = "\<lambda>st. {k \<in> fst ` set (ps_streams st). 0 < ra_cached_bytes (ps_bufs st k)}"
  let ?st1 = "set_buf k (snd (ra_clear (ps_bufs st k))) st"
  consider "locked k" | "\<not> locked k" "ra_cached_bytes (ps_bufs st k) = 0" | "\<not> locked k" "0 < ra_cached_bytes (ps_bufs st k)"
    by auto
  then show ?case
  proof cases
    case 2
    then have "?N ?st1 = ?N st" by auto
    then have "nonempty_streams ?st1 = nonempty_streams st" by (simp only: nonempty_streams_def)
    then show ?thesis using Cons.IH[of ?st1] Cons.prems 2 by (simp add: c evict_from_Cons Let_def)
  next
    case 3
    then have "st' = ?st1\<lparr> ps_charged := ps_charged st - ra_cached_bytes (ps_bufs st k) \<rparr>"
      using Cons.prems(1) by (auto simp: c evict_from_Cons Let_def)
    then have "?N st' \<subset> ?N st" using 3 Cons.prems(2) by (auto simp: c)
    then show ?thesis unfolding nonempty_streams_def by (intro psubset_card_mono) auto
  qed (use Cons in \<open>simp add: c evict_from_Cons\<close>)
qed simp

lemma evict_one_decreases:
  "evict_one_coldest locked except st = (Some n, st') \<Longrightarrow> nonempty_streams st' < nonempty_streams st"
  unfolding evict_one_coldest_def by (rule evict_from_decreases) auto

function permitted_loop :: "(nat \<Rightarrow> bool) \<Rightarrow> nat \<Rightarrow> nat \<Rightarrow> nat \<Rightarrow> pool_state \<Rightarrow> nat \<times> pool_state" where
  "permitted_loop locked key old_len need st =
     (let room = ps_budget st - ps_charged st
      in if room \<ge> need then (old_len + need, st)
         else case evict_one_coldest locked key st of
                (Some _, st') \<Rightarrow> permitted_loop locked key old_len need st'
              | (None, st') \<Rightarrow> (old_len + room, st'))"
  by auto
termination
  by (relation "measure (\<lambda>(_, _, _, _, st). nonempty_streams st)") (auto dest: evict_one_decreases[OF sym])

declare permitted_loop.simps [simp del]

definition permitted_window :: "(nat \<Rightarrow> bool) \<Rightarrow> nat \<Rightarrow> nat \<Rightarrow> nat \<Rightarrow> pool_state \<Rightarrow> nat \<times> pool_state" where
  "permitted_window locked key old_len desired st =
     (if ps_budget st = 0 then (0, st)
      else let desired = max (min desired (per_stream_cap (ps_budget st))) old_len
           in permitted_loop locked key old_len (desired - old_len) st)"

definition prefetch_depth :: "nat \<Rightarrow> nat \<Rightarrow> nat" where
  "prefetch_depth cap window = max 1 (min 4 (cap div max window 1))"

text \<open>One read of a handle through the pool; prefetch planning sizes the eviction ring.\<close>

definition read_exact_at ::
  "(nat \<Rightarrow> nat \<Rightarrow> bytes cresult) \<Rightarrow> (nat \<Rightarrow> bool) \<Rightarrow> bool \<Rightarrow> bool \<Rightarrow> nat \<Rightarrow> nat \<Rightarrow> nat \<Rightarrow> nat \<Rightarrow> pool_state \<Rightarrow>
   bytes cresult \<times> pool_state" where
  "read_exact_at fill locked contended prefetch key backing_len off n st =
     (if ps_budget st = 0 then (fill off n, st)
      else let st = (if covers (ps_bufs st key) off n then st
                else let st = (if off \<noteq> ra_next_expected (ps_bufs st key)
                           then st\<lparr> ps_epoch := (ps_epoch st)(key := ps_epoch st key + 1) \<rparr> else st);
                         (cap, st) = permitted_window locked key (ra_cached_bytes (ps_bufs st key))
                                       (per_stream_cap (ps_budget st)) st
                     in set_buf key (set_cap cap (ps_bufs st key)) st)
           in case ra_read_into fill off n backing_len (ps_bufs st key) of
                (Inl e, ra) \<Rightarrow> (Inl e, set_buf key ra st)
              | (Inr (bs, old_len, new_len), ra) \<Rightarrow>
                  let ra = (if prefetch
                            then set_max_windows (prefetch_depth (per_stream_cap (ps_budget st)) (ra_window ra) + 1) ra
                            else ra)
                  in (Inr bs, touch contended key (reconcile old_len new_len (set_buf key ra st))))"

definition try_store_prefetch :: "nat \<Rightarrow> nat \<Rightarrow> nat \<Rightarrow> bytes \<Rightarrow> pool_state \<Rightarrow> pool_state" where
  "try_store_prefetch key dispatched_epoch start bs st =
     (if ps_epoch st key \<noteq> dispatched_epoch then st
      else let ((old, new), ra) = store_window start bs (ps_bufs st key)
           in reconcile old new (set_buf key ra st))"

definition run_job :: "(nat \<Rightarrow> nat \<Rightarrow> bytes cresult) \<Rightarrow> nat \<Rightarrow> prefetch_job \<Rightarrow> pool_state \<Rightarrow> pool_state" where
  "run_job fill backing_len job st =
     (if ps_epoch st (pj_key job) \<noteq> pj_epoch job then st
      else let want = min (pj_len job) (backing_len - pj_start job)
           in if want = 0 \<or> \<not> has_room_for want st then st
              else case fill (pj_start job) want of
                     Inl _ \<Rightarrow> st
                   | Inr bs \<Rightarrow> try_store_prefetch (pj_key job) (pj_epoch job) (pj_start job) bs st)"

text \<open>Planning which windows to prefetch, from the watermark to the horizon.\<close>

function plan_from :: "nat \<Rightarrow> nat \<Rightarrow> nat \<Rightarrow> nat list \<times> nat" where
  "plan_from s window horizon =
     (if window > 0 \<and> s < horizon then
        (case plan_from (s + window) window horizon of (starts, s') \<Rightarrow> (s # starts, s'))
      else ([], s))"
  by auto
termination by (relation "measure (\<lambda>(s, _, horizon). horizon - s)") auto

declare plan_from.simps [simp del]

definition plan_prefetch :: "nat \<Rightarrow> nat \<Rightarrow> nat \<Rightarrow> nat \<Rightarrow> nat \<Rightarrow> nat list \<times> nat" where
  "plan_prefetch prefetched_upto start window depth backing_len =
     (if window = 0 \<or> start \<ge> backing_len then ([], prefetched_upto)
      else let horizon = min (sat_add64 start (min (depth * window) u64_max)) backing_len;
               s = (if start \<le> prefetched_upto \<and> prefetched_upto < sat_add64 horizon window
                    then prefetched_upto else start);
               (starts, s') = plan_from s window horizon
           in (starts, min s' backing_len))"

subsection \<open>The machine of all streams\<close>

text \<open>
  The steps of the buffers and of the prefetch workers. A key stands for one handle's buffer, which
  is never another handle's: the buffer of a key that was not used yet is a new one, and registering
  enters the buffer the key has. The machine allows more than the handles do: any buffer registers,
  moves its epoch or leaves the registry at any time, and any window may be dispatched; the theory
  Handles has the order in which the handles take these steps, and shows that they are steps of this
  machine.
\<close>

inductive pool_step :: "(nat \<Rightarrow> bytes) \<Rightarrow> pool_state \<Rightarrow> pool_state \<Rightarrow> bool" for files where
  step_register: "pool_step files st (register k st)"
| step_read: "k \<in> fst ` set (ps_streams st) \<Longrightarrow>
    read_exact_at (file_read_exact (files k)) locked contended prefetch k (length (files k)) off n st = (r, st') \<Longrightarrow>
    pool_step files st st'"
| step_dispatch: "k \<in> fst ` set (ps_streams st) \<Longrightarrow>
    pool_step files st (st\<lparr> ps_jobs := ps_jobs st @ [\<lparr> pj_key = k, pj_start = start, pj_len = n, pj_epoch = ps_epoch st k \<rparr>] \<rparr>)"
| step_run: "job \<in> set (ps_jobs st) \<Longrightarrow>
    pool_step files st (run_job (file_read_exact (files (pj_key job))) (length (files (pj_key job))) job
      (st\<lparr> ps_jobs := remove1 job (ps_jobs st) \<rparr>))"
| step_release: "pool_step files st (st\<lparr> ps_epoch := (ps_epoch st)(k := ps_epoch st k + 1) \<rparr>)"
| step_drop: "pool_step files st (deregister k st)"

inductive pool_reach :: "(nat \<Rightarrow> bytes) \<Rightarrow> nat \<Rightarrow> pool_state \<Rightarrow> bool" for files budget where
  reach_new: "pool_reach files budget (pool_new budget)"
| reach_step: "pool_reach files budget st \<Longrightarrow> pool_step files st st' \<Longrightarrow> pool_reach files budget st'"

definition pool_ok :: "(nat \<Rightarrow> bytes) \<Rightarrow> nat set \<Rightarrow> pool_state \<Rightarrow> bool" where
  "pool_ok files K st \<longleftrightarrow> finite K \<and> fst ` set (ps_streams st) \<subseteq> K \<and> pj_key ` set (ps_jobs st) \<subseteq> K \<and>
     (\<forall>k. ra_ok (files k) (ps_bufs st k)) \<and> (\<forall>k. k \<notin> K \<longrightarrow> ra_cached_bytes (ps_bufs st k) = 0) \<and>
     ps_charged st = (\<Sum>k\<in>K. ra_cached_bytes (ps_bufs st k))"

lemma pool_ok_edit [simp]:
  "pool_ok files K (st\<lparr> ps_epoch := e \<rparr>) = pool_ok files K st"
  "pool_ok files K (st\<lparr> ps_clock := c \<rparr>) = pool_ok files K st"
  by (simp_all add: pool_ok_def)

lemma cached_sum_upd:
  "finite K \<Longrightarrow> k \<in> K \<Longrightarrow>
   (\<Sum>i\<in>K. ra_cached_bytes ((bufs(k := ra)) i)) + ra_cached_bytes (bufs k) =
   (\<Sum>i\<in>K. ra_cached_bytes (bufs i)) + ra_cached_bytes ra"
  by (simp add: sum.remove[of K k])

lemma reconcile_ok:
  assumes "pool_ok files K st" "k \<in> K" "ra_ok (files k) ra" "old = ra_cached_bytes (ps_bufs st k)" "new = ra_cached_bytes ra"
  shows "pool_ok files K (reconcile old new (set_buf k ra st))"
proof -
  have "finite K" "ps_charged st = (\<Sum>k\<in>K. ra_cached_bytes (ps_bufs st k))" using assms(1) by (auto simp: pool_ok_def)
  note s = cached_sum_upd[OF this(1) assms(2), of "ps_bufs st" ra] and c = this(2)
  have "(\<Sum>i\<in>K. ra_cached_bytes (((ps_bufs st)(k := ra)) i)) =
      (if new > old then ps_charged st + (new - old) else if new < old then ps_charged st - (old - new) else ps_charged st)"
    using s c assms(4,5) by auto
  then show ?thesis using assms(1-3) by (auto simp: pool_ok_def reconcile_def)
qed

lemma set_buf_ok:
  "pool_ok files K st \<Longrightarrow> k \<in> K \<Longrightarrow> ra_ok (files k) ra \<Longrightarrow> ra_cached_bytes ra = ra_cached_bytes (ps_bufs st k) \<Longrightarrow>
   pool_ok files K (set_buf k ra st)"
  using reconcile_ok[of files K st k ra "ra_cached_bytes (ps_bufs st k)" "ra_cached_bytes ra"] by (simp add: reconcile_def)

lemma clear_buf_ok:
  assumes "pool_ok files K st" "k \<in> K"
  shows "pool_ok files K ((set_buf k (snd (ra_clear (ps_bufs st k))) st)\<lparr> ps_charged := ps_charged st - ra_cached_bytes (ps_bufs st k) \<rparr>)"
proof -
  have "ra_ok (files k) (snd (ra_clear (ps_bufs st k)))" by (simp add: ra_ok_def ra_clear_def)
  from reconcile_ok[OF assms this refl refl] show ?thesis
    by (cases "ra_cached_bytes (ps_bufs st k) = 0") (simp_all add: reconcile_def pool_ok_def)
qed

lemma evict_from_ok:
  "evict_from locked cs st = (r, st') \<Longrightarrow> fst ` set cs \<subseteq> K \<Longrightarrow> pool_ok files K st \<Longrightarrow> pool_ok files K st'"
proof (induction cs arbitrary: st)
  case (Cons c cs)
  obtain k x where c: "c = (k, x)" by (cases c)
  have k: "k \<in> K" using Cons.prems(2) by (simp add: c)
  note cl = clear_buf_ok[OF Cons.prems(3) k]
  have "pool_ok files K (set_buf k (snd (ra_clear (ps_bufs st k))) st)" if "ra_cached_bytes (ps_bufs st k) = 0"
    using cl that by (simp add: pool_ok_def)
  then show ?case using Cons cl by (auto simp: c evict_from_Cons Let_def split: if_splits)
qed simp

lemma evict_one_ok:
  "evict_one_coldest locked except st = (r, st') \<Longrightarrow> pool_ok files K st \<Longrightarrow> pool_ok files K st'"
  unfolding evict_one_coldest_def by (erule evict_from_ok) (auto simp: pool_ok_def)

lemma permitted_loop_ok:
  "permitted_loop locked key old_len need st = (w, st') \<Longrightarrow> pool_ok files K st \<Longrightarrow>
   pool_ok files K st' \<and> ps_budget st' = ps_budget st \<and> ps_streams st' = ps_streams st \<and> ps_jobs st' = ps_jobs st"
proof (induction locked key old_len need st rule: permitted_loop.induct)
  case (1 locked key old_len need st)
  obtain r st1 where e: "evict_one_coldest locked key st = (r, st1)" by fastforce
  have ok: "pool_ok files K st1" using evict_one_ok[OF e 1(3)] .
  have f: "ps_budget st1 = ps_budget st" "ps_streams st1 = ps_streams st" "ps_jobs st1 = ps_jobs st"
    using evict_from_frame[OF e[unfolded evict_one_coldest_def]] by auto
  show ?case
  proof (cases "ps_budget st - ps_charged st \<ge> need")
    case True
    then show ?thesis using 1(2,3) by (subst (asm) permitted_loop.simps) (auto simp: Let_def)
  next
    case False
    show ?thesis
    proof (cases r)
      case None
      then show ?thesis using 1(2) False e ok f by (subst (asm) permitted_loop.simps) (auto simp: Let_def)
    next
      case (Some x)
      have "permitted_loop locked key old_len need st1 = (w, st')"
        using 1(2) False e Some by (subst (asm) permitted_loop.simps) (auto simp: Let_def)
      then show ?thesis using 1(1)[OF refl False e[symmetric] Some _ ok] f by simp
    qed
  qed
qed

lemma permitted_window_ok:
  "permitted_window locked key old_len desired st = (w, st') \<Longrightarrow> pool_ok files K st \<Longrightarrow>
   pool_ok files K st' \<and> ps_budget st' = ps_budget st \<and> ps_streams st' = ps_streams st \<and> ps_jobs st' = ps_jobs st"
  by (auto simp: permitted_window_def Let_def split: if_splits dest: permitted_loop_ok)

lemma touch_ok: "pool_ok files K st \<Longrightarrow> pool_ok files K (touch c k st)"
  by (auto simp: pool_ok_def touch_def Let_def dom_update)

lemma covers_containing: "covers ra off n \<longleftrightarrow> window_containing ra off n \<noteq> None"
  by (auto simp: covers_def window_containing_def find_None_iff list_ex_iff)

lemma read_exact_at_ok:
  assumes r: "read_exact_at (file_read_exact (files k)) locked contended prefetch k (length (files k)) off n st = (res, st')"
    and ok: "pool_ok files K st" "k \<in> K" and small: "length (files k) < u64_max"
  shows "pool_ok files K st' \<and>
    res = (if n = 0 \<or> off + n \<le> length (files k) then Inr (slice (files k) off n) else Inl (Io UnexpectedEof))"
proof (cases "ps_budget st = 0")
  case True
  then show ?thesis using r ok by (auto simp: read_exact_at_def file_read_exact_def)
next
  case False
  let ?fill = "file_read_exact (files k)"
  define st0 where "st0 = (if off \<noteq> ra_next_expected (ps_bufs st k)
    then st\<lparr> ps_epoch := (ps_epoch st)(k := ps_epoch st k + 1) \<rparr> else st)"
  obtain cap st2 where p: "permitted_window locked k (ra_cached_bytes (ps_bufs st0 k)) (per_stream_cap (ps_budget st0)) st0 = (cap, st2)"
    by fastforce
  have ok2: "pool_ok files K st2" using permitted_window_ok[OF p] ok(1) by (simp add: st0_def)
  define st1 where "st1 = (if covers (ps_bufs st k) off n then st else set_buf k (set_cap cap (ps_bufs st2 k)) st2)"
  have ok1: "pool_ok files K st1"
  proof -
    have "ra_ok (files k) (ps_bufs st2 k)" using ok2 by (simp add: pool_ok_def)
    then show ?thesis using ok(1) set_buf_ok[OF ok2 ok(2), of "set_cap cap (ps_bufs st2 k)"] by (simp add: st1_def)
  qed
  obtain rr ra where rd: "ra_read_into ?fill off n (length (files k)) (ps_bufs st1 k) = (rr, ra)" by fastforce
  have rok: "ra_ok (files k) (ps_bufs st1 k)" using ok1 by (simp add: pool_ok_def)
  note f = ra_read_into_file[OF plain_file.backing_reader_axioms rok small, where off = off and n = n, unfolded rd fst_conv snd_conv]
  have e: "read_exact_at ?fill locked contended prefetch k (length (files k)) off n st =
      (case (rr, ra) of
         (Inl e, ra) \<Rightarrow> (Inl e, set_buf k ra st1)
       | (Inr (bs, old_len, new_len), ra) \<Rightarrow>
           let ra = (if prefetch then set_max_windows (prefetch_depth (per_stream_cap (ps_budget st1)) (ra_window ra) + 1) ra else ra)
           in (Inr bs, touch contended k (reconcile old_len new_len (set_buf k ra st1))))"
    unfolding read_exact_at_def Let_def st0_def[symmetric] p prod.case if_not_P[OF False] st1_def[symmetric] rd ..
  show ?thesis
  proof (cases "n = 0 \<or> off + n \<le> length (files k)")
    case True
    then have rr: "rr = Inr (slice (files k) off n, ra_cached_bytes (ps_bufs st1 k), ra_cached_bytes ra)" and ra: "ra_ok (files k) ra"
      using f by auto
    show ?thesis using True r ra ok(2) unfolding e rr
      by (auto simp: Let_def intro!: touch_ok reconcile_ok[OF ok1])
  next
    case False
    then show ?thesis using f r ok(2) unfolding e by (auto intro!: set_buf_ok[OF ok1])
  qed
qed

lemma run_job_ok:
  assumes "pool_ok files K st" "pj_key job \<in> K"
  shows "pool_ok files K (run_job (file_read_exact (files (pj_key job))) (length (files (pj_key job))) job st)"
proof -
  let ?k = "pj_key job"
  define want where "want = min (pj_len job) (length (files ?k) - pj_start job)"
  let ?w = "\<lparr> cw_start = pj_start job, cw_bytes = slice (files ?k) (pj_start job) want \<rparr>"
  have "window_ok (files ?k) ?w" if "0 < want" using that by (auto simp: window_ok_def want_def)
  then have "ra_ok (files ?k) (insert_window ?w (ps_bufs st ?k))" if "0 < want"
    using that assms(1) by (intro insert_window_ok(1)) (simp_all add: pool_ok_def)
  then show ?thesis using assms
    by (auto simp: run_job_def Let_def file_read_exact_def try_store_prefetch_def store_window_def
        intro!: reconcile_ok simp flip: want_def)
qed

lemma deregister_eq:
  "deregister k st =
     (if k \<in> fst ` set (ps_streams st)
      then ((set_buf k (snd (ra_clear (ps_bufs st k))) st)\<lparr> ps_charged := ps_charged st - ra_cached_bytes (ps_bufs st k) \<rparr>)
        \<lparr> ps_streams := AList.delete k (ps_streams st) \<rparr>
      else st)"
  by (simp add: deregister_def Let_def ra_clear_def set_buf_def)

lemma pool_ok_unregister:
  "pool_ok files K st \<Longrightarrow> ps_streams st = ss \<Longrightarrow> pool_ok files K (st\<lparr> ps_streams := AList.delete k ss \<rparr>)"
  by (auto simp: pool_ok_def AList.delete_eq)

lemma pool_step_ok:
  assumes "pool_step files st st'" "pool_ok files K st" "\<forall>k. length (files k) < u64_max"
  shows "\<exists>K'. K \<subseteq> K' \<and> pool_ok files K' st'"
  using assms(1)
proof cases
  case (step_register k)
  have "pool_ok files (insert k K) st" using assms(2)
    by (cases "k \<in> K") (auto simp: pool_ok_def insert_absorb)
  then have "pool_ok files (insert k K) st'" by (auto simp: step_register register_def pool_ok_def dom_update)
  then show ?thesis by blast
next
  case (step_read k locked contended prefetch off n r)
  have k: "k \<in> K" using step_read(1) assms(2) by (auto simp: pool_ok_def)
  show ?thesis using read_exact_at_ok[OF step_read(2) assms(2) k] assms(3) by blast
next
  case (step_dispatch k start n)
  then have "pool_ok files K st'" using assms(2) by (auto simp: pool_ok_def)
  then show ?thesis by blast
next
  case (step_run job)
  have "pool_ok files K (st\<lparr> ps_jobs := remove1 job (ps_jobs st) \<rparr>)" "pj_key job \<in> K"
    using assms(2) step_run(2) set_remove1_subset[of job "ps_jobs st"] unfolding pool_ok_def by auto (metis image_subset_iff subsetD)
  then show ?thesis using run_job_ok step_run(1) by blast
next
  case (step_release k)
  then show ?thesis using assms(2) by auto
next
  case (step_drop k)
  have "pool_ok files K st'"
  proof (cases "k \<in> fst ` set (ps_streams st)")
    case True
    then have "k \<in> K" using assms(2) by (auto simp: pool_ok_def)
    from pool_ok_unregister[OF clear_buf_ok[OF assms(2) this], of "ps_streams st" k] show ?thesis
      unfolding step_drop deregister_eq if_P[OF True] by simp
  qed (use assms(2) in \<open>simp add: step_drop deregister_def\<close>)
  then show ?thesis by blast
qed

lemma pool_reach_ok:
  "pool_reach files budget st \<Longrightarrow> \<forall>k. length (files k) < u64_max \<Longrightarrow> \<exists>K. pool_ok files K st"
proof (induction rule: pool_reach.induct)
  case reach_new
  have "pool_ok files {} (pool_new budget)" by (simp add: pool_ok_def pool_new_def)
  then show ?case by blast
next
  case (reach_step st st')
  then show ?case using pool_step_ok by blast
qed

text \<open>C22: in every reachable state of the read-ahead machine, whatever the streams read, prefetch,
  evict, release and drop, each cached window holds the bytes of its file at its offset, the windows of
  a stream are sorted and disjointly keyed, and the budget is charged exactly the bytes cached.\<close>

theorem readahead_invariant:
  assumes "pool_reach files budget st" "\<forall>k. length (files k) < u64_max"
  shows "(\<forall>k. \<forall>w\<in>set (ra_windows (ps_bufs st k)).
      cw_end w \<le> length (files k) \<and> cw_bytes w = slice (files k) (cw_start w) (length (cw_bytes w))) \<and>
    (\<forall>k. sorted_wrt (<) (map cw_start (ra_windows (ps_bufs st k)))) \<and>
    (\<exists>K. finite K \<and> fst ` set (ps_streams st) \<subseteq> K \<and>
      (\<forall>k. k \<notin> K \<longrightarrow> ra_cached_bytes (ps_bufs st k) = 0) \<and>
      ps_charged st = (\<Sum>k\<in>K. \<Sum>w\<leftarrow>ra_windows (ps_bufs st k). length (cw_bytes w)))"
proof -
  obtain K where K: "pool_ok files K st" using pool_reach_ok[OF assms] by blast
  then have "\<forall>k. ra_ok (files k) (ps_bufs st k)" by (simp add: pool_ok_def)
  then show ?thesis using K by (auto simp: ra_ok_def pool_ok_def list_all_iff window_ok_def intro!: exI[of _ K])
qed

text \<open>C23: in every reachable state a registered stream's read is a read of its backing file: it returns
  the requested bytes, from the cache or from disk, or the end-of-file error when they are not there.\<close>

theorem readahead_reads_file:
  assumes "pool_reach files budget st" "\<forall>k. length (files k) < u64_max" "k \<in> fst ` set (ps_streams st)"
  shows "backing_reader
      (\<lambda>off n. fst (read_exact_at (file_read_exact (files k)) locked contended prefetch k (length (files k)) off n st))
      (files k) \<and>
    (0 < n \<and> length (files k) < off + n \<longrightarrow>
      fst (read_exact_at (file_read_exact (files k)) locked contended prefetch k (length (files k)) off n st) =
        Inl (Io UnexpectedEof))"
proof -
  obtain K where K: "pool_ok files K st" using pool_reach_ok[OF assms(1,2)] by blast
  then have k: "k \<in> K" using assms(3) by (auto simp: pool_ok_def)
  have r: "fst (read_exact_at (file_read_exact (files k)) locked contended prefetch k (length (files k)) off n st) =
      (if n = 0 \<or> off + n \<le> length (files k) then Inr (slice (files k) off n) else Inl (Io UnexpectedEof))" for off n
    using read_exact_at_ok[OF surjective_pairing K k] assms(2) by blast
  show ?thesis by (auto simp: r intro!: backing_reader.intro)
qed

definition demo_files :: "nat \<Rightarrow> bytes" where "demo_files k = [1, 2, 3, 4, 5, 6, 7, 8]"

definition demo_read :: "nat \<Rightarrow> nat \<Rightarrow> pool_state \<Rightarrow> bytes cresult \<times> pool_state" where
  "demo_read off n st = read_exact_at (file_read_exact (demo_files 1)) (\<lambda>_. False) False True 1 (length (demo_files 1)) off n st"

definition demo_pool :: pool_state where
  "demo_pool = snd (demo_read 0 2 (register 1 (pool_new 4096)))"

lemma demo_pool_reach: "pool_reach demo_files 4096 demo_pool"
proof -
  have "pool_reach demo_files 4096 (register 1 (pool_new 4096))"
    by (rule reach_step[OF reach_new step_register])
  moreover have "pool_step demo_files (register 1 (pool_new 4096)) demo_pool"
    unfolding demo_pool_def demo_read_def
    by (rule step_read[OF _ surjective_pairing]) (simp add: register_def dom_update)
  ultimately show ?thesis by (rule reach_step)
qed

lemma demo_files_small: "\<forall>k. length (demo_files k) < u64_max"
  by (simp add: demo_files_def u64_max_def)

lemma readahead_invariant_witness:
  "\<exists>K. finite K \<and> fst ` set (ps_streams demo_pool) \<subseteq> K \<and>
     ps_charged demo_pool = (\<Sum>k\<in>K. \<Sum>w\<leftarrow>ra_windows (ps_bufs demo_pool k). length (cw_bytes w))"
  using readahead_invariant[OF demo_pool_reach demo_files_small] by blast

lemma demo_pool_streams: "1 \<in> fst ` set (ps_streams demo_pool)"
  by code_simp

lemma readahead_reads_file_witness:
  "fst (demo_read 6 3 demo_pool) = Inl (Io UnexpectedEof)"
  using readahead_reads_file[OF demo_pool_reach demo_files_small demo_pool_streams, of "\<lambda>_. False" False True 3 6]
  by (simp add: demo_read_def demo_files_def)

subsection \<open>The trim keeps the window the reader is in\<close>

definition spans :: "nat \<Rightarrow> cached_window \<Rightarrow> bool" where
  "spans frontier w \<longleftrightarrow> cw_start w \<le> frontier \<and> frontier < cw_end w"

lemma remove_at_keeps: "w \<in> set xs \<Longrightarrow> i < length xs \<Longrightarrow> w \<noteq> xs ! i \<Longrightarrow> w \<in> set (remove_at i xs)"
proof -
  assume a: "w \<in> set xs" "i < length xs" "w \<noteq> xs ! i"
  then have "w \<in> set (take i xs @ xs ! i # drop (Suc i) xs)" using id_take_nth_drop[OF a(2)] by simp
  then show ?thesis using a(3) by (auto simp: remove_at_def)
qed

lemma evict_keeps_frontier:
  assumes "w \<in> set ws" "spans fr w" "1 < length ws"
  shows "\<exists>w'\<in>set (remove_at (evict_victim fr ws) ws). spans fr w'"
proof (cases "spans fr (ws ! evict_victim fr ws)")
  case False
  have "evict_victim fr ws < length ws" using assms(3) by (intro evict_victim_lt) auto
  then show ?thesis using remove_at_keeps[OF assms(1)] assms(2) False by blast
next
  case True
  have n1: "find_position (\<lambda>w. cw_end w \<le> fr) ws = None"
    using True find_position_Some[of "\<lambda>w. cw_end w \<le> fr" ws]
    by (cases "find_position (\<lambda>w. cw_end w \<le> fr) ws") (auto simp: evict_victim_def spans_def)
  then have n2: "find_last_position (\<lambda>w. cw_start w > fr) ws = None"
    using True find_last_position_Some[of "\<lambda>w. cw_start w > fr" ws]
    by (cases "find_last_position (\<lambda>w. cw_start w > fr) ws") (auto simp: evict_victim_def spans_def)
  have all: "\<forall>w\<in>set ws. spans fr w"
  proof
    fix w assume w: "w \<in> set ws"
    have "\<not> cw_end w \<le> fr" using n1 w unfolding find_position_None by blast
    moreover have "\<not> cw_start w > fr" using n2 w unfolding find_last_position_None by blast
    ultimately show "spans fr w" unfolding spans_def by linarith
  qed
  have "evict_victim fr ws < length ws" using assms(3) by (intro evict_victim_lt) auto
  then have "0 < length (remove_at (evict_victim fr ws) ws)" using assms(3) by (simp add: remove_at_length)
  then have "remove_at (evict_victim fr ws) ws \<noteq> []" by (rule length_greater_0_conv[THEN iffD1])
  then have "hd (remove_at (evict_victim fr ws) ws) \<in> set (remove_at (evict_victim fr ws) ws)" by simp
  from this subsetD[OF remove_at_subset this] show ?thesis using all by auto
qed

lemma trim_keeps_frontier:
  "w \<in> set ws \<Longrightarrow> spans fr w \<Longrightarrow> 1 \<le> mx \<Longrightarrow> \<exists>w'\<in>set (fst (trim_windows fr mx ws cached)). spans fr w'"
proof (induction fr mx ws cached arbitrary: w rule: trim_windows.induct)
  case (1 fr mx ws cached)
  show ?case
  proof (cases "length ws > mx")
    case True
    then obtain w' where "w' \<in> set (remove_at (evict_victim fr ws) ws)" "spans fr w'"
      using evict_keeps_frontier[OF 1(2,3)] 1(4) by auto
    then show ?thesis using 1(1)[OF True refl _ _ 1(4)] True by (subst trim_windows.simps) (simp add: Let_def)
  next
    case False
    then show ?thesis using 1(2,3) by (subst trim_windows.simps) auto
  qed
qed

text \<open>Trimming the ring after a fill never drops the bytes under the read frontier: if the window
  just filled reaches past the frontier, some kept window still holds the byte at the frontier, and
  the ring holds at most the permitted number of windows.\<close>

theorem insert_keeps_frontier:
  assumes "ra_ok f ra" "window_ok f w" "1 \<le> ra_max_windows ra"
    "cw_start w \<le> ra_next_expected ra" "ra_next_expected ra < cw_end w"
  shows "(\<exists>w'\<in>set (ra_windows (insert_window w ra)). cw_start w' \<le> ra_next_expected ra \<and> ra_next_expected ra < cw_end w') \<and>
    length (ra_windows (insert_window w ra)) \<le> ra_max_windows ra"
proof -
  have sp: "spans (ra_next_expected ra) w" using assms(4,5) by (simp add: spans_def)
  define c where "c = (case find (\<lambda>x. cw_start x = cw_start w) (ra_windows ra) of
      Some x \<Rightarrow> ra_cached_bytes ra - length (cw_bytes x) + length (cw_bytes w)
    | None \<Rightarrow> ra_cached_bytes ra + length (cw_bytes w))"
  have "ra_windows (insert_window w ra) =
      fst (trim_windows (ra_next_expected ra) (ra_max_windows ra) (place_window w (ra_windows ra)) c)"
    by (simp add: insert_window_def Let_def c_def split: prod.split)
  then show ?thesis
    using trim_keeps_frontier[OF place_window_set(2) sp assms(3), of "ra_windows ra" c] insert_window_ok(2)[OF assms(1,2)]
    by (simp add: spans_def)
qed

definition demo_ring :: read_ahead where
  "demo_ring = \<lparr> ra_windows = [\<lparr> cw_start = 5, cw_bytes = [6, 7] \<rparr>], ra_cached_bytes = 2, ra_next_expected = 3,
     ra_window = 4, ra_cap = 8, ra_max_windows = 1 \<rparr>"

lemma insert_keeps_frontier_witness:
  "(\<exists>w'\<in>set (ra_windows (insert_window \<lparr> cw_start = 2, cw_bytes = [3, 4, 5] \<rparr> demo_ring)).
      cw_start w' \<le> ra_next_expected demo_ring \<and> ra_next_expected demo_ring < cw_end w') \<and>
    length (ra_windows (insert_window \<lparr> cw_start = 2, cw_bytes = [3, 4, 5] \<rparr> demo_ring)) \<le> ra_max_windows demo_ring"
  by (rule insert_keeps_frontier[of "[1, 2, 3, 4, 5, 6, 7, 8]"])
    (simp_all add: demo_ring_def ra_ok_def window_ok_def slice_def)

subsection \<open>The prefetch plan\<close>

lemma plan_from_blocks:
  "0 < window \<Longrightarrow> plan_from s window horizon = (starts, s') \<Longrightarrow>
   starts = map (\<lambda>i. s + i * window) [0..<length starts] \<and> s' = s + length starts * window \<and>
   (\<forall>x\<in>set starts. x < horizon \<and> s \<le> x) \<and> horizon \<le> s' "
proof (induction s window horizon arbitrary: starts s' rule: plan_from.induct)
  case (1 s window horizon)
  show ?case
  proof (cases "s < horizon")
    case True
    obtain ss s2 where p: "plan_from (s + window) window horizon = (ss, s2)" by fastforce
    have st: "starts = s # ss" "s' = s2" using 1(3) True 1(2) p by (subst (asm) plan_from.simps; simp)+
    note ih = 1(1)[OF conjI[OF 1(2) True] 1(2) p]
    have "map (\<lambda>i. s + i * window) [0..<length starts] = s # map (\<lambda>i. s + window + i * window) [0..<length ss]"
      by (simp add: st upt_conv_Cons map_Suc_upt[symmetric] comp_def add.assoc del: upt_Suc)
    moreover have "ss = map (\<lambda>i. s + window + i * window) [0..<length ss]" using ih by blast
    ultimately show ?thesis using ih True by (auto simp: st)
  next
    case False
    then show ?thesis using 1(3) by (subst (asm) plan_from.simps) auto
  qed
qed

text \<open>The prefetch plan is a run of whole windows that starts at the watermark when the reader has
  neither passed it nor left it more than a window beyond the horizon (so nothing already dispatched is
  requested again) and at the reader's position otherwise, stays below the horizon and the end of the
  file, and moves the watermark to at least the horizon.\<close>

theorem plan_prefetch_blocks:
  assumes "plan_prefetch mark start window depth backing_len = (starts, mark')" "0 < window" "start < backing_len"
    "start + depth * window + window \<le> u64_max"
  defines "horizon \<equiv> min (start + depth * window) backing_len"
  defines "s \<equiv> (if start \<le> mark \<and> mark < horizon + window then mark else start)"
  shows "starts = map (\<lambda>i. s + i * window) [0..<length starts] \<and>
    (\<forall>x\<in>set starts. s \<le> x \<and> x < horizon) \<and>
    mark' = min (s + length starts * window) backing_len \<and> horizon \<le> mark'"
proof -
  have h: "min (sat_add64 start (min (depth * window) u64_max)) backing_len = horizon" "sat_add64 horizon window = horizon + window"
    using assms(4) by (auto simp: horizon_def sat_add64_def)
  obtain s' where p: "plan_from s window horizon = (starts, s')" "mark' = min s' backing_len"
    using assms(1-3) by (auto simp: plan_prefetch_def h Let_def s_def split: prod.splits)
  have "horizon \<le> backing_len" by (simp add: horizon_def)
  then show ?thesis using plan_from_blocks[OF assms(2) p(1)] p(2) by auto
qed

lemma plan_prefetch_blocks_witness:
  "[30, 40] = map (\<lambda>i. 30 + i * 10) [0..<length [30 :: nat, 40 :: nat]] \<and>
   45 = min (30 + length [30 :: nat, 40 :: nat] * 10) (45 :: nat)"
proof -
  have "plan_prefetch 30 25 10 4 45 = ([30, 40], 45)" by code_simp
  from plan_prefetch_blocks[OF this] show ?thesis by (simp add: u64_max_def)
qed

end
