(* ===== verification/Handles.thy ===== *)
theory Handles
  imports Readahead
begin

text \<open>
  The life of a handle and its reads around the read-ahead pool (struct Handle, serve_backing,
  open_handle_inner and release_handle of musefs-core/src/facade.rs), with prefetch on. A read in
  flight keeps the handle alive: a release moves the epoch and takes the handle out of the slab, and
  the buffer leaves the pool only when the last read has ended.
\<close>

subsection \<open>Handles and reads in flight\<close>

text \<open>
  A read has registered the buffer or not yet (rd_entered), and carries the frontier and window of its
  latest backing read, (u64 max, 0) before the first one.
\<close>

record reading =
  rd_entered :: bool
  rd_plan :: "nat \<times> nat"

datatype handle_phase = Unopened | Opened | Closing | Removed | Dropped

record handle =
  hd_phase :: handle_phase
  hd_reads :: "reading list"
  hd_registered :: bool
  hd_upto :: nat

record serving =
  sv_pool :: pool_state
  sv_handles :: "nat \<Rightarrow> handle"

definition unopened :: handle where
  "unopened = \<lparr> hd_phase = Unopened, hd_reads = [], hd_registered = False, hd_upto = 0 \<rparr>"

definition serving_new :: "nat \<Rightarrow> serving" where
  "serving_new budget = \<lparr> sv_pool = pool_new budget, sv_handles = (\<lambda>_. unopened) \<rparr>"

abbreviation handle_of :: "serving \<Rightarrow> nat \<Rightarrow> handle" where "handle_of m k \<equiv> sv_handles m k"

definition set_handle :: "nat \<Rightarrow> handle \<Rightarrow> serving \<Rightarrow> serving" where
  "set_handle k h m = m\<lparr> sv_handles := (sv_handles m)(k := h) \<rparr>"

definition set_pool :: "pool_state \<Rightarrow> serving \<Rightarrow> serving" where
  "set_pool st m = m\<lparr> sv_pool := st \<rparr>"

definition bump_epoch :: "nat \<Rightarrow> pool_state \<Rightarrow> pool_state" where
  "bump_epoch k st = st\<lparr> ps_epoch := (ps_epoch st)(k := ps_epoch st k + 1) \<rparr>"

subsection \<open>The operations\<close>

text \<open>open_handle_inner gives the handle a new buffer with the cap of the pool, and epoch 0.\<close>

definition open_handle :: "nat \<Rightarrow> serving \<Rightarrow> serving" where
  "open_handle k m =
     (let st = set_buf k (read_ahead_new (per_stream_cap (ps_budget (sv_pool m)))) (sv_pool m) in
      set_handle k \<lparr> hd_phase = Opened, hd_reads = [], hd_registered = False, hd_upto = 0 \<rparr>
        (set_pool (st\<lparr> ps_epoch := (ps_epoch st)(k := 0) \<rparr>) m))"

text \<open>A read takes a reference to the handle from the slab.\<close>

definition begin_read :: "nat \<Rightarrow> serving \<Rightarrow> serving" where
  "begin_read k m = set_handle k ((handle_of m k)\<lparr> hd_reads := hd_reads (handle_of m k) @ [\<lparr> rd_entered = False, rd_plan = (u64_max, 0) \<rparr>] \<rparr>) m"

text \<open>serve_backing: the first read to arrive registers the buffer.\<close>

definition enter_read :: "nat \<Rightarrow> nat \<Rightarrow> serving \<Rightarrow> serving" where
  "enter_read k i m =
     (let h = handle_of m k;
          st = (if hd_registered h then sv_pool m else register k (sv_pool m))
      in set_handle k (h\<lparr> hd_registered := True, hd_reads := (hd_reads h)[i := (hd_reads h ! i)\<lparr> rd_entered := True \<rparr>] \<rparr>)
           (set_pool st m))"

text \<open>One backing read of a read in flight; when it succeeds it captures the plan.\<close>

definition fetch ::
  "(nat \<Rightarrow> bytes) \<Rightarrow> (nat \<Rightarrow> bool) \<Rightarrow> bool \<Rightarrow> nat \<Rightarrow> nat \<Rightarrow> nat \<Rightarrow> nat \<Rightarrow> serving \<Rightarrow> serving" where
  "fetch files locked contended k i off n m =
     (let h = handle_of m k in
      case read_exact_at (file_read_exact (files k)) locked contended True k (length (files k)) off n (sv_pool m) of
        (Inl e, st) \<Rightarrow> set_pool st m
      | (Inr bs, st) \<Rightarrow>
          if ps_budget st = 0 then set_pool st m
          else set_handle k (h\<lparr> hd_reads := (hd_reads h)[i :=
                 (hd_reads h ! i)\<lparr> rd_plan := (ra_next_expected (ps_bufs st k), ra_window (ps_bufs st k)) \<rparr>] \<rparr>) (set_pool st m))"

definition planned_jobs :: "nat \<Rightarrow> nat \<Rightarrow> nat \<Rightarrow> nat list \<Rightarrow> prefetch_job list" where
  "planned_jobs k epoch window starts =
     map (\<lambda>s. \<lparr> pj_key = k, pj_start = s, pj_len = window, pj_epoch = epoch \<rparr>) starts"

definition end_read :: "nat \<Rightarrow> nat \<Rightarrow> serving \<Rightarrow> serving" where
  "end_read k i m = set_handle k ((handle_of m k)\<lparr> hd_reads := remove_at i (hd_reads (handle_of m k)) \<rparr>) m"

text \<open>
  The end of a read that served its bytes: it plans past the watermark, moves the watermark, and
  requests the windows under the epoch of that moment; the bounded queue may refuse some.
\<close>

definition dispatch :: "(nat \<Rightarrow> bytes) \<Rightarrow> (nat \<Rightarrow> bool) \<Rightarrow> nat \<Rightarrow> nat \<Rightarrow> serving \<Rightarrow> serving" where
  "dispatch files queued k i m =
     (let h = handle_of m k; st = sv_pool m; (start, window) = rd_plan (hd_reads h ! i);
          depth = prefetch_depth (per_stream_cap (ps_budget st)) window;
          (starts, upto) = plan_prefetch (hd_upto h) start window depth (length (files k))
      in end_read k i (set_handle k (h\<lparr> hd_upto := upto \<rparr>)
           (set_pool (st\<lparr> ps_jobs := ps_jobs st @ planned_jobs k (ps_epoch st k) window (filter queued starts) \<rparr>) m)))"

text \<open>release_handle moves the epoch of a handle in the slab, then removes it from the slab.\<close>

definition release_epoch :: "nat \<Rightarrow> serving \<Rightarrow> serving" where
  "release_epoch k m = set_handle k ((handle_of m k)\<lparr> hd_phase := Closing \<rparr>) (set_pool (bump_epoch k (sv_pool m)) m)"

definition remove_handle :: "nat \<Rightarrow> serving \<Rightarrow> serving" where
  "remove_handle k m = set_handle k ((handle_of m k)\<lparr> hd_phase := Removed \<rparr>) m"

definition drop_handle :: "nat \<Rightarrow> serving \<Rightarrow> serving" where
  "drop_handle k m = set_handle k ((handle_of m k)\<lparr> hd_phase := Dropped \<rparr>) (set_pool (deregister k (sv_pool m)) m)"

definition work :: "(nat \<Rightarrow> bytes) \<Rightarrow> prefetch_job \<Rightarrow> serving \<Rightarrow> serving" where
  "work files job m =
     set_pool (run_job (file_read_exact (files (pj_key job))) (length (files (pj_key job))) job
       ((sv_pool m)\<lparr> ps_jobs := remove1 job (ps_jobs (sv_pool m)) \<rparr>)) m"

subsection \<open>The steps\<close>

abbreviation in_flight :: "serving \<Rightarrow> nat \<Rightarrow> nat \<Rightarrow> bool" where
  "in_flight m k i \<equiv> i < length (hd_reads (handle_of m k)) \<and> rd_entered (hd_reads (handle_of m k) ! i)"

inductive handle_step :: "(nat \<Rightarrow> bytes) \<Rightarrow> serving \<Rightarrow> serving \<Rightarrow> bool" for files where
  Open: "hd_phase (handle_of m k) = Unopened \<Longrightarrow> handle_step files m (open_handle k m)"
| Begin: "hd_phase (handle_of m k) \<in> {Opened, Closing} \<Longrightarrow> handle_step files m (begin_read k m)"
| Enter: "i < length (hd_reads (handle_of m k)) \<Longrightarrow> handle_step files m (enter_read k i m)"
| Fetch: "in_flight m k i \<Longrightarrow> handle_step files m (fetch files locked contended k i off n m)"
| Dispatch: "in_flight m k i \<Longrightarrow> handle_step files m (dispatch files queued k i m)"
| Fail: "i < length (hd_reads (handle_of m k)) \<Longrightarrow> handle_step files m (end_read k i m)"
| Release: "hd_phase (handle_of m k) = Opened \<Longrightarrow> handle_step files m (release_epoch k m)"
| Remove: "hd_phase (handle_of m k) = Closing \<Longrightarrow> handle_step files m (remove_handle k m)"
| Drop: "hd_phase (handle_of m k) = Removed \<Longrightarrow> hd_reads (handle_of m k) = [] \<Longrightarrow> handle_step files m (drop_handle k m)"
| Work: "job \<in> set (ps_jobs (sv_pool m)) \<Longrightarrow> handle_step files m (work files job m)"

inductive_cases handle_stepE: "handle_step files m m'"

definition handle_reach :: "(nat \<Rightarrow> bytes) \<Rightarrow> nat \<Rightarrow> serving \<Rightarrow> bool" where
  "handle_reach files budget m \<longleftrightarrow> (handle_step files)\<^sup>*\<^sup>* (serving_new budget) m"

subsection \<open>What the pool does to other buffers\<close>

abbreviation registered :: "pool_state \<Rightarrow> nat set" where "registered st \<equiv> fst ` set (ps_streams st)"

definition same_at :: "nat \<Rightarrow> pool_state \<Rightarrow> pool_state \<Rightarrow> bool" where
  "same_at k st st' \<longleftrightarrow> ps_bufs st' k = ps_bufs st k \<and> ps_epoch st' k = ps_epoch st k"

lemma same_at_refl [simp]: "same_at k st st"
  by (simp add: same_at_def)

lemma same_at_trans: "same_at k st st1 \<Longrightarrow> same_at k st1 st2 \<Longrightarrow> same_at k st st2"
  by (simp add: same_at_def)

lemma evict_from_other:
  "evict_from locked cs st = (r, st') \<Longrightarrow> k \<notin> fst ` set cs \<Longrightarrow> same_at k st st'"
proof (induction cs arbitrary: st)
  case (Cons c cs)
  obtain j x where c: "c = (j, x)" by (cases c)
  let ?st1 = "set_buf j (snd (ra_clear (ps_bufs st j))) st"
  have "same_at k st ?st1" using Cons.prems(2) by (simp add: c same_at_def)
  thus ?case using Cons same_at_trans by (fastforce simp: c evict_from_Cons Let_def same_at_def split: if_splits)
qed simp

lemma evict_one_other:
  "evict_one_coldest locked j st = (r, st') \<Longrightarrow> k \<notin> registered st \<Longrightarrow> same_at k st st'"
  unfolding evict_one_coldest_def by (erule evict_from_other) auto

lemma evict_one_frame:
  "evict_one_coldest locked j st = (r, st') \<Longrightarrow>
     ps_streams st' = ps_streams st \<and> ps_budget st' = ps_budget st \<and> ps_jobs st' = ps_jobs st"
  using evict_from_frame unfolding evict_one_coldest_def by blast

lemma permitted_loop_other:
  "permitted_loop locked j old need st = (w, st') \<Longrightarrow> k \<notin> registered st \<Longrightarrow>
     same_at k st st' \<and> ps_streams st' = ps_streams st \<and> ps_budget st' = ps_budget st \<and> ps_jobs st' = ps_jobs st"
proof (induction locked j old need st rule: permitted_loop.induct)
  case (1 locked j old need st)
  obtain r st1 where e: "evict_one_coldest locked j st = (r, st1)" by fastforce
  note f = evict_one_other [OF e 1(3)] evict_one_frame [OF e]
  show ?case
  proof (cases "ps_budget st - ps_charged st \<ge> need")
    case True
    thus ?thesis using 1(2) by (subst (asm) permitted_loop.simps) (auto simp: Let_def)
  next
    case False
    show ?thesis
    proof (cases r)
      case None
      thus ?thesis using 1(2) False e f by (subst (asm) permitted_loop.simps) (auto simp: Let_def)
    next
      case (Some x)
      have "permitted_loop locked j old need st1 = (w, st')"
        using 1(2) False e Some by (subst (asm) permitted_loop.simps) (auto simp: Let_def)
      thus ?thesis using 1(1) [OF refl False e [symmetric] Some] 1(3) f same_at_trans by metis
    qed
  qed
qed

lemma permitted_window_other:
  "permitted_window locked j old desired st = (w, st') \<Longrightarrow> k \<notin> registered st \<Longrightarrow>
     same_at k st st' \<and> ps_streams st' = ps_streams st \<and> ps_budget st' = ps_budget st \<and> ps_jobs st' = ps_jobs st"
  by (auto simp: permitted_window_def Let_def split: if_splits dest: permitted_loop_other)

lemma touch_frame:
  "same_at k st (touch c j st) \<and> registered (touch c j st) = registered st \<and> ps_jobs (touch c j st) = ps_jobs st \<and>
     ps_budget (touch c j st) = ps_budget st"
  by (auto simp: touch_def Let_def same_at_def dom_update)

lemma reconcile_frame:
  "same_at k st (reconcile a b st) \<and> ps_streams (reconcile a b st) = ps_streams st \<and> ps_jobs (reconcile a b st) = ps_jobs st \<and>
     ps_budget (reconcile a b st) = ps_budget st"
  by (simp add: reconcile_def same_at_def)

lemma permitted_window_frame:
  "permitted_window locked j old desired st = (w, st') \<Longrightarrow>
     ps_streams st' = ps_streams st \<and> ps_budget st' = ps_budget st \<and> ps_jobs st' = ps_jobs st"
proof -
  assume p: "permitted_window locked j old desired st = (w, st')"
  obtain k where "k \<notin> registered st" using ex_new_if_finite [OF infinite_UNIV_nat, of "registered st"] by auto
  thus ?thesis using permitted_window_other [OF p] by blast
qed

lemma read_exact_frame:
  assumes r: "read_exact_at fill locked contended prefetch j len off n st = (res, st')"
  shows "registered st' = registered st \<and> ps_jobs st' = ps_jobs st \<and> ps_budget st' = ps_budget st \<and>
    (k \<noteq> j \<longrightarrow> k \<notin> registered st \<longrightarrow> same_at k st st')"
proof (cases "ps_budget st = 0")
  case True
  thus ?thesis using r by (simp add: read_exact_at_def)
next
  case False
  define st0 where "st0 = (if off \<noteq> ra_next_expected (ps_bufs st j)
    then st\<lparr> ps_epoch := (ps_epoch st)(j := ps_epoch st j + 1) \<rparr> else st)"
  obtain cap st2 where p: "permitted_window locked j (ra_cached_bytes (ps_bufs st0 j)) (per_stream_cap (ps_budget st0)) st0 = (cap, st2)"
    by fastforce
  define st1 where "st1 = (if covers (ps_bufs st j) off n then st else set_buf j (set_cap cap (ps_bufs st2 j)) st2)"
  have f0: "ps_streams st0 = ps_streams st" "ps_jobs st0 = ps_jobs st" "ps_budget st0 = ps_budget st"
    "k \<noteq> j \<Longrightarrow> same_at k st st0"
    by (auto simp: st0_def same_at_def)
  have f1: "ps_streams st1 = ps_streams st" "ps_jobs st1 = ps_jobs st" "ps_budget st1 = ps_budget st"
    using permitted_window_frame [OF p] f0 by (auto simp: st1_def)
  have s1: "same_at k st st1" if "k \<noteq> j" "k \<notin> registered st"
    using permitted_window_other [OF p, of k] f0 that by (auto simp: st1_def same_at_def)
  obtain rr ra where rd: "ra_read_into fill off n len (ps_bufs st1 j) = (rr, ra)" by fastforce
  have e: "read_exact_at fill locked contended prefetch j len off n st =
      (case (rr, ra) of
         (Inl e, ra) \<Rightarrow> (Inl e, set_buf j ra st1)
       | (Inr (bs, old_len, new_len), ra) \<Rightarrow>
           let ra = (if prefetch then set_max_windows (prefetch_depth (per_stream_cap (ps_budget st1)) (ra_window ra) + 1) ra else ra)
           in (Inr bs, touch contended j (reconcile old_len new_len (set_buf j ra st1))))"
    unfolding read_exact_at_def Let_def st0_def [symmetric] p prod.case if_not_P [OF False] st1_def [symmetric] rd ..
  have edit: "registered (touch c j (reconcile a b (set_buf j x st1))) = registered st \<and>
      ps_jobs (touch c j (reconcile a b (set_buf j x st1))) = ps_jobs st \<and>
      ps_budget (touch c j (reconcile a b (set_buf j x st1))) = ps_budget st \<and>
      (k \<noteq> j \<longrightarrow> k \<notin> registered st \<longrightarrow> same_at k st (touch c j (reconcile a b (set_buf j x st1))))" for a b c x
    using touch_frame [of k "reconcile a b (set_buf j x st1)" c j] reconcile_frame [of k "set_buf j x st1" a b] f1 s1
    by (simp add: same_at_def)
  show ?thesis
  proof (cases rr)
    case (Inl x)
    thus ?thesis using r f1 s1 unfolding e by (auto simp: same_at_def)
  next
    case (Inr y)
    then obtain bs a b where "rr = Inr (bs, a, b)" by (cases y) auto
    hence "\<exists>x. st' = touch contended j (reconcile a b (set_buf j x st1))" using r unfolding e by (auto simp: Let_def)
    then obtain x where x: "st' = touch contended j (reconcile a b (set_buf j x st1))" ..
    show ?thesis unfolding x by (rule edit)
  qed
qed

lemma run_job_frame:
  "ps_streams (run_job fill len job st) = ps_streams st \<and> ps_jobs (run_job fill len job st) = ps_jobs st \<and>
   ps_budget (run_job fill len job st) = ps_budget st \<and> (k \<noteq> pj_key job \<longrightarrow> same_at k st (run_job fill len job st))"
  by (simp add: run_job_def Let_def try_store_prefetch_def store_window_def reconcile_def same_at_def split: sum.split)

lemma deregister_frame:
  "registered (deregister j st) = registered st - {j}" "ps_jobs (deregister j st) = ps_jobs st"
  "ps_budget (deregister j st) = ps_budget st" "k \<noteq> j \<Longrightarrow> same_at k st (deregister j st)"
  by (auto simp: deregister_eq same_at_def AList.delete_eq)

subsection \<open>The handles take steps of the pool machine\<close>

definition keys_queued :: "pool_state \<Rightarrow> nat set" where "keys_queued st = pj_key ` set (ps_jobs st)"

definition handle_ok :: "serving \<Rightarrow> nat \<Rightarrow> bool" where
  "handle_ok m k \<longleftrightarrow>
     (let h = handle_of m k; st = sv_pool m in
      (hd_phase h = Unopened \<longrightarrow> h = unopened \<and> k \<notin> keys_queued st \<and> ps_epoch st k = 0 \<and>
         ps_bufs st k = read_ahead_new (per_stream_cap (ps_budget st))) \<and>
      (hd_phase h = Dropped \<longrightarrow> hd_reads h = [] \<and> k \<notin> registered st) \<and>
      (hd_phase h \<noteq> Dropped \<longrightarrow> (hd_registered h \<longleftrightarrow> k \<in> registered st)) \<and>
      (\<forall>r\<in>set (hd_reads h). rd_entered r \<longrightarrow> hd_registered h))"

definition serving_ok :: "(nat \<Rightarrow> bytes) \<Rightarrow> nat \<Rightarrow> serving \<Rightarrow> bool" where
  "serving_ok files budget m \<longleftrightarrow> pool_reach files budget (sv_pool m) \<and> (\<forall>k. handle_ok m k)"

lemma handle_okD:
  assumes "handle_ok m k"
  shows "hd_phase (handle_of m k) = Unopened \<Longrightarrow> handle_of m k = unopened"
    "hd_phase (handle_of m k) = Unopened \<Longrightarrow> k \<notin> keys_queued (sv_pool m)"
    "hd_phase (handle_of m k) = Unopened \<Longrightarrow> ps_epoch (sv_pool m) k = 0"
    "hd_phase (handle_of m k) = Unopened \<Longrightarrow> ps_bufs (sv_pool m) k = read_ahead_new (per_stream_cap (ps_budget (sv_pool m)))"
    "hd_phase (handle_of m k) = Dropped \<Longrightarrow> hd_reads (handle_of m k) = []"
    "hd_phase (handle_of m k) = Dropped \<Longrightarrow> k \<notin> registered (sv_pool m)"
    "hd_phase (handle_of m k) \<noteq> Dropped \<Longrightarrow> hd_registered (handle_of m k) \<longleftrightarrow> k \<in> registered (sv_pool m)"
    "r \<in> set (hd_reads (handle_of m k)) \<Longrightarrow> rd_entered r \<Longrightarrow> hd_registered (handle_of m k)"
  using assms unfolding handle_ok_def Let_def by blast+

lemma serving_simps [simp]:
  "sv_pool (set_handle k h m) = sv_pool m" "sv_handles (set_handle k h m) = (sv_handles m)(k := h)"
  "sv_pool (set_pool st m) = st" "sv_handles (set_pool st m) = sv_handles m"
  by (simp_all add: set_handle_def set_pool_def)

text \<open>A step of handle k leaves the other handles alone when the pool leaves their buffers alone.\<close>

lemma handle_ok_other:
  assumes "handle_ok m j" "sv_handles m' j = sv_handles m j" "j \<in> registered (sv_pool m') \<longleftrightarrow> j \<in> registered (sv_pool m)"
    "j \<in> keys_queued (sv_pool m') \<Longrightarrow> j \<in> keys_queued (sv_pool m)" "ps_budget (sv_pool m') = ps_budget (sv_pool m)"
    "j \<notin> registered (sv_pool m) \<Longrightarrow> j \<notin> keys_queued (sv_pool m) \<Longrightarrow> same_at j (sv_pool m) (sv_pool m')"
  shows "handle_ok m' j"
proof (cases "hd_phase (sv_handles m j) = Unopened")
  case True
  hence "j \<notin> registered (sv_pool m)" "j \<notin> keys_queued (sv_pool m)"
    using assms(1) by (auto simp: handle_ok_def Let_def unopened_def)
  moreover from this have "same_at j (sv_pool m) (sv_pool m')" "j \<notin> keys_queued (sv_pool m')" using assms(4,6) by blast+
  ultimately show ?thesis using assms(1) True by (simp add: handle_ok_def Let_def assms(2,3,5) same_at_def unopened_def)
next
  case False
  thus ?thesis using assms(1) by (simp add: handle_ok_def Let_def assms(2,3))
qed

lemma dispatch_reach:
  "pool_reach files budget st \<Longrightarrow> k \<in> registered st \<Longrightarrow>
     pool_reach files budget (st\<lparr> ps_jobs := ps_jobs st @ planned_jobs k (ps_epoch st k) window starts \<rparr>)"
proof (induction starts rule: rev_induct)
  case (snoc s starts)
  let ?st = "st\<lparr> ps_jobs := ps_jobs st @ planned_jobs k (ps_epoch st k) window starts \<rparr>"
  have "pool_step files ?st (?st\<lparr> ps_jobs := ps_jobs ?st @
      [\<lparr> pj_key = k, pj_start = s, pj_len = window, pj_epoch = ps_epoch ?st k \<rparr>] \<rparr>)"
    by (rule step_dispatch) (use snoc.prems in simp)
  from reach_step [OF snoc.IH [OF snoc.prems] this] show ?case by (simp add: planned_jobs_def)
qed (simp add: planned_jobs_def)

lemma entered_registered:
  assumes "handle_ok m k" "in_flight m k i"
  shows "k \<in> registered (sv_pool m)" "hd_phase (handle_of m k) \<noteq> Dropped"
proof -
  have r: "hd_reads (handle_of m k) ! i \<in> set (hd_reads (handle_of m k))" using assms(2) by simp
  thus d: "hd_phase (handle_of m k) \<noteq> Dropped" using handle_okD(5) [OF assms(1)] by auto
  show "k \<in> registered (sv_pool m)" using handle_okD(7) [OF assms(1) d] handle_okD(8) [OF assms(1) r] assms(2) by simp
qed

lemma read_live:
  assumes "handle_ok m k" "i < length (hd_reads (handle_of m k))"
  shows "hd_phase (handle_of m k) \<noteq> Dropped" "hd_phase (handle_of m k) \<noteq> Unopened"
  using assms(2) handle_okD(1,5) [OF assms(1)] by (auto simp: unopened_def)

lemma remove_at_member: "x \<in> set (remove_at i xs) \<Longrightarrow> x \<in> set xs"
  by (rule subsetD [OF remove_at_subset])

text \<open>The steps, one by one: what each does to its own handle and to the pool.\<close>

lemma open_handle_ok:
  assumes "serving_ok files budget m" "hd_phase (handle_of m k) = Unopened"
  shows "serving_ok files budget (open_handle k m)"
proof -
  have ok: "handle_ok m j" for j using assms(1) by (simp add: serving_ok_def)
  note u = handle_okD [OF ok [of k]]
  have un: "handle_of m k = unopened" by (rule u(1) [OF assms(2)])
  have same: "sv_pool (open_handle k m) = sv_pool m"
    using u(3,4) assms(2) by (simp add: open_handle_def Let_def set_buf_def fun_upd_idem)
  have "handle_ok (open_handle k m) j" for j
  proof (cases "j = k")
    case True
    have "k \<notin> registered (sv_pool m)" using u(7) assms(2) un by (simp add: unopened_def)
    thus ?thesis unfolding handle_ok_def Let_def same using True by (simp add: open_handle_def Let_def)
  next
    case False
    hence "sv_handles (open_handle k m) j = sv_handles m j" by (simp add: open_handle_def Let_def)
    thus ?thesis by (intro handle_ok_other [OF ok]) (simp_all add: same)
  qed
  thus ?thesis using assms(1) by (simp add: serving_ok_def same)
qed

text \<open>A handle that is open or closing and changes only its reads, its watermark or its phase.\<close>

lemma live_ok:
  assumes s: "serving_ok files budget m" and p: "pool_reach files budget st"
    and live: "hd_phase (handle_of m k) \<notin> {Unopened, Dropped}" "hd_phase h \<notin> {Unopened, Dropped}"
    and r: "hd_registered h \<longleftrightarrow> k \<in> registered st" "\<forall>x\<in>set (hd_reads h). rd_entered x \<longrightarrow> hd_registered h"
    and others: "\<And>j. j \<noteq> k \<Longrightarrow> j \<in> registered st \<longleftrightarrow> j \<in> registered (sv_pool m)"
      "\<And>j. j \<noteq> k \<Longrightarrow> j \<in> keys_queued st \<Longrightarrow> j \<in> keys_queued (sv_pool m)" "ps_budget st = ps_budget (sv_pool m)"
      "\<And>j. j \<noteq> k \<Longrightarrow> j \<notin> registered (sv_pool m) \<Longrightarrow> same_at j (sv_pool m) st"
  shows "serving_ok files budget (set_handle k h (set_pool st m))"
proof -
  have ok: "handle_ok m j" for j using s by (simp add: serving_ok_def)
  have "handle_ok (set_handle k h (set_pool st m)) j" for j
  proof (cases "j = k")
    case True
    thus ?thesis using live(2) r by (simp add: handle_ok_def Let_def)
  next
    case False
    thus ?thesis by (intro handle_ok_other [OF ok]) (simp_all add: others)
  qed
  thus ?thesis using p by (simp add: serving_ok_def)
qed

lemma set_pool_same [simp]: "set_pool (sv_pool m) m = m"
  by (simp add: set_pool_def)

lemma live_ok_same:
  assumes "serving_ok files budget m" "hd_phase (handle_of m k) \<notin> {Unopened, Dropped}" "hd_phase h \<notin> {Unopened, Dropped}"
    "hd_registered h = hd_registered (handle_of m k)" "\<forall>x\<in>set (hd_reads h). rd_entered x \<longrightarrow> hd_registered h"
  shows "serving_ok files budget (set_handle k h m)"
proof -
  have "handle_ok m k" and p: "pool_reach files budget (sv_pool m)" using assms(1) by (auto simp: serving_ok_def)
  hence "hd_registered h \<longleftrightarrow> k \<in> registered (sv_pool m)" using handle_okD(7) assms(2,4) by simp
  from live_ok [OF assms(1) p assms(2,3) this assms(5)] show ?thesis by simp
qed

lemma in_set_list_update: "x \<in> set (xs[i := y]) \<Longrightarrow> x = y \<or> x \<in> set xs"
  using set_update_subset_insert by fastforce

lemma enter_ok:
  assumes s: "serving_ok files budget m" and i: "i < length (hd_reads (handle_of m k))"
  shows "serving_ok files budget (enter_read k i m)"
proof -
  have ok: "handle_ok m k" and p: "pool_reach files budget (sv_pool m)" using s by (auto simp: serving_ok_def)
  note l = read_live [OF ok i]
  define st where "st = (if hd_registered (handle_of m k) then sv_pool m else register k (sv_pool m))"
  have "pool_reach files budget st" using p reach_step [OF p step_register] by (simp add: st_def)
  moreover have "k \<in> registered st" using handle_okD(7) [OF ok l(1)] by (auto simp: st_def register_def dom_update)
  moreover have "j \<noteq> k \<Longrightarrow> j \<in> registered st \<longleftrightarrow> j \<in> registered (sv_pool m)" "keys_queued st = keys_queued (sv_pool m)"
    "ps_budget st = ps_budget (sv_pool m)" "same_at j (sv_pool m) st" for j
    by (simp_all add: st_def register_def dom_update keys_queued_def same_at_def)
  ultimately show ?thesis
    unfolding enter_read_def Let_def st_def [symmetric] using l by (intro live_ok [OF s]) simp_all
qed

lemma fetch_ok:
  assumes s: "serving_ok files budget m" and i: "in_flight m k i"
  shows "serving_ok files budget (fetch files locked contended k i off n m)"
proof -
  have ok: "handle_ok m k" and p: "pool_reach files budget (sv_pool m)" using s by (auto simp: serving_ok_def)
  have len: "i < length (hd_reads (handle_of m k))" using i by simp
  note l = read_live [OF ok len] and reg = entered_registered(1) [OF ok i]
  obtain r st where e: "read_exact_at (file_read_exact (files k)) locked contended True k (length (files k)) off n (sv_pool m) = (r, st)"
    by fastforce
  have p': "pool_reach files budget st" using step_read [of k "sv_pool m" files, OF reg e] p by (blast intro: reach_step)
  note f = read_exact_frame [OF e]
  have keys: "keys_queued st = keys_queued (sv_pool m)" using f by (simp add: keys_queued_def)
  have st: "serving_ok files budget (set_handle k h (set_pool st m))"
    if "hd_phase h = hd_phase (handle_of m k)" "hd_registered h = hd_registered (handle_of m k)"
      "\<forall>x\<in>set (hd_reads h). rd_entered x \<longrightarrow> hd_registered h" for h
    using that l f keys handle_okD(7) [OF ok l(1)] by (intro live_ok [OF s p']) simp_all
  have same: "set_handle k (handle_of m k) (set_pool st m) = set_pool st m" by (simp add: set_handle_def set_pool_def)
  have "\<forall>x\<in>set (hd_reads (handle_of m k)). rd_entered x \<longrightarrow> hd_registered (handle_of m k)"
    using handle_okD(8) [OF ok] by blast
  hence stay: "serving_ok files budget (set_pool st m)" by (rule st [OF refl refl, unfolded same])
  have "hd_registered (handle_of m k)" using handle_okD(7) [OF ok l(1)] reg by simp
  thus ?thesis unfolding fetch_def Let_def e using stay st by (auto split: sum.split)
qed

lemma end_ok:
  assumes s: "serving_ok files budget m" and i: "i < length (hd_reads (handle_of m k))"
  shows "serving_ok files budget (end_read k i m)"
proof -
  have ok: "handle_ok m k" using s by (simp add: serving_ok_def)
  note l = read_live [OF ok i]
  have "\<forall>x\<in>set (remove_at i (hd_reads (handle_of m k))). rd_entered x \<longrightarrow> hd_registered (handle_of m k)"
    using handle_okD(8) [OF ok remove_at_member] by blast
  thus ?thesis unfolding end_read_def using l by (intro live_ok_same [OF s]) simp_all
qed

lemma dispatch_ok:
  assumes s: "serving_ok files budget m" and i: "in_flight m k i"
  shows "serving_ok files budget (dispatch files queued k i m)"
proof -
  have ok: "handle_ok m k" and p: "pool_reach files budget (sv_pool m)" using s by (auto simp: serving_ok_def)
  have len: "i < length (hd_reads (handle_of m k))" using i by simp
  note l = read_live [OF ok len] and reg = entered_registered(1) [OF ok i]
  obtain start window where w: "rd_plan (hd_reads (handle_of m k) ! i) = (start, window)" by fastforce
  obtain starts upto where q: "plan_prefetch (hd_upto (handle_of m k)) start window
      (prefetch_depth (per_stream_cap (ps_budget (sv_pool m))) window) (length (files k)) = (starts, upto)" by fastforce
  let ?st = "(sv_pool m)\<lparr> ps_jobs := ps_jobs (sv_pool m) @ planned_jobs k (ps_epoch (sv_pool m) k) window (filter queued starts) \<rparr>"
  let ?m = "set_handle k ((handle_of m k)\<lparr> hd_upto := upto \<rparr>) (set_pool ?st m)"
  have keys: "j \<noteq> k \<Longrightarrow> j \<in> keys_queued ?st \<Longrightarrow> j \<in> keys_queued (sv_pool m)" for j
    by (auto simp: keys_queued_def planned_jobs_def)
  have same: "same_at j (sv_pool m) ?st" for j by (simp add: same_at_def)
  have "serving_ok files budget ?m"
    by (rule live_ok [OF s dispatch_reach [OF p reg]])
      (use l handle_okD(7) [OF ok l(1)] handle_okD(8) [OF ok] keys same in \<open>simp_all\<close>)
  from end_ok [OF this, of i k] len show ?thesis by (simp add: dispatch_def Let_def w q)
qed

lemma drop_ok:
  assumes s: "serving_ok files budget m" and d: "hd_phase (handle_of m k) = Removed" "hd_reads (handle_of m k) = []"
  shows "serving_ok files budget (drop_handle k m)"
proof -
  have ok: "handle_ok m j" for j using s by (simp add: serving_ok_def)
  have p: "pool_reach files budget (sv_pool m)" using s by (simp add: serving_ok_def)
  have pool: "sv_pool (drop_handle k m) = deregister k (sv_pool m)" by (simp add: drop_handle_def)
  have "handle_ok (drop_handle k m) j" for j
  proof (cases "j = k")
    case True
    thus ?thesis using d deregister_frame(1) [of k "sv_pool m"] by (simp add: drop_handle_def handle_ok_def Let_def)
  next
    case False
    hence "sv_handles (drop_handle k m) j = sv_handles m j" by (simp add: drop_handle_def)
    thus ?thesis using False deregister_frame(1-3) [of k "sv_pool m"] deregister_frame(4) [of j k "sv_pool m"]
      by (intro handle_ok_other [OF ok]) (simp_all add: pool keys_queued_def)
  qed
  thus ?thesis using reach_step [OF p step_drop] by (simp add: serving_ok_def pool)
qed

lemma work_ok:
  assumes s: "serving_ok files budget m" and j: "job \<in> set (ps_jobs (sv_pool m))"
  shows "serving_ok files budget (work files job m)"
proof -
  have ok: "handle_ok m k" for k using s by (simp add: serving_ok_def)
  have p: "pool_reach files budget (sv_pool m)" using s by (simp add: serving_ok_def)
  let ?st = "(sv_pool m)\<lparr> ps_jobs := remove1 job (ps_jobs (sv_pool m)) \<rparr>"
  let ?st' = "run_job (file_read_exact (files (pj_key job))) (length (files (pj_key job))) job ?st"
  have f: "ps_streams ?st' = ps_streams (sv_pool m)" "ps_jobs ?st' = remove1 job (ps_jobs (sv_pool m))" "ps_budget ?st' = ps_budget (sv_pool m)"
    "k \<noteq> pj_key job \<Longrightarrow> same_at k (sv_pool m) ?st'" for k
    using run_job_frame [of "file_read_exact (files (pj_key job))" "length (files (pj_key job))" job ?st k]
    by (simp_all add: same_at_def)
  have sub: "keys_queued ?st' \<subseteq> keys_queued (sv_pool m)"
    unfolding keys_queued_def f using set_remove1_subset [of job "ps_jobs (sv_pool m)"] by blast
  have q: "pj_key job \<in> keys_queued (sv_pool m)" using j by (auto simp: keys_queued_def)
  have pool: "sv_pool (work files job m) = ?st'" "sv_handles (work files job m) = sv_handles m" by (simp_all add: work_def)
  have "handle_ok (work files job m) k" for k
  proof (rule handle_ok_other [OF ok])
    assume "k \<notin> keys_queued (sv_pool m)"
    hence "k \<noteq> pj_key job" using q by blast
    thus "same_at k (sv_pool m) (sv_pool (work files job m))" unfolding pool by (rule f(4))
  qed (use sub in \<open>auto simp: pool f(1,3)\<close>)
  thus ?thesis using reach_step [OF p step_run [OF j]] by (simp add: serving_ok_def pool)
qed

lemma handle_step_ok:
  assumes "handle_step files m m'" "serving_ok files budget m"
  shows "serving_ok files budget m'"
  using assms(1)
proof cases
  case (Release k)
  have p: "pool_reach files budget (sv_pool m)" and ok: "handle_ok m k" using assms(2) by (auto simp: serving_ok_def)
  have "pool_reach files budget (bump_epoch k (sv_pool m))" unfolding bump_epoch_def by (rule reach_step [OF p step_release])
  thus ?thesis unfolding Release(1) release_epoch_def
    by (intro live_ok [OF assms(2)])
       (use Release(2) handle_okD(7) [OF ok] handle_okD(8) [OF ok] in \<open>simp_all add: bump_epoch_def same_at_def keys_queued_def\<close>)
next
  case (Begin k)
  have ok: "handle_ok m k" using assms(2) by (simp add: serving_ok_def)
  show ?thesis unfolding Begin(1) begin_read_def
    by (rule live_ok_same [OF assms(2)]) (use Begin(2) handle_okD(8) [OF ok] in auto)
next
  case (Remove k)
  have ok: "handle_ok m k" using assms(2) by (simp add: serving_ok_def)
  show ?thesis unfolding Remove(1) remove_handle_def
    by (rule live_ok_same [OF assms(2)]) (use Remove(2) handle_okD(8) [OF ok] in auto)
next
  case (Open k)
  thus ?thesis using open_handle_ok [OF assms(2)] by simp
next
  case (Enter i k)
  thus ?thesis using enter_ok [OF assms(2)] by simp
next
  case (Fetch k i locked contended off n)
  thus ?thesis using fetch_ok [OF assms(2)] by simp
next
  case (Dispatch k i queued)
  thus ?thesis using dispatch_ok [OF assms(2)] by simp
next
  case (Fail i k)
  thus ?thesis using end_ok [OF assms(2)] by simp
next
  case (Drop k)
  thus ?thesis using drop_ok [OF assms(2)] by simp
next
  case (Work job)
  thus ?thesis using work_ok [OF assms(2)] by simp
qed

lemma serving_new_ok: "serving_ok files budget (serving_new budget)"
proof -
  have "handle_ok (serving_new budget) k" for k
    by (simp add: serving_new_def handle_ok_def unopened_def pool_new_def keys_queued_def)
  thus ?thesis using reach_new by (simp add: serving_ok_def) (simp add: serving_new_def)
qed

lemma handle_reach_ok: "handle_reach files budget m \<Longrightarrow> serving_ok files budget m"
  unfolding handle_reach_def by (induction rule: rtranclp_induct) (simp_all add: serving_new_ok handle_step_ok)

subsection \<open>A stranded buffer\<close>

text \<open>The buffer of a dropped handle with no job left is out of reach: nothing changes it any more.\<close>

definition stranded :: "nat \<Rightarrow> serving \<Rightarrow> bool" where
  "stranded k m \<longleftrightarrow> hd_phase (handle_of m k) = Dropped \<and> hd_reads (handle_of m k) = [] \<and>
     k \<notin> registered (sv_pool m) \<and> k \<notin> keys_queued (sv_pool m)"

lemma other_handle [simp]: "k \<noteq> j \<Longrightarrow> handle_of (set_handle j h m) k = handle_of m k"
  by simp

lemma strandedI:
  assumes "stranded k m" "sv_handles m' k = sv_handles m k" "k \<in> registered (sv_pool m') \<Longrightarrow> k \<in> registered (sv_pool m)"
    "k \<in> keys_queued (sv_pool m') \<Longrightarrow> k \<in> keys_queued (sv_pool m)" "same_at k (sv_pool m) (sv_pool m')"
  shows "stranded k m' \<and> ps_bufs (sv_pool m') k = ps_bufs (sv_pool m) k"
  using assms unfolding stranded_def same_at_def by auto

lemma stranded_step:
  assumes "handle_step files m m'" "stranded k m"
  shows "stranded k m' \<and> ps_bufs (sv_pool m') k = ps_bufs (sv_pool m) k"
  using assms(1)
proof cases
  case (Open j)
  have "j \<noteq> k" using Open assms(2) by (auto simp: stranded_def)
  thus ?thesis unfolding Open(1)
    by (intro strandedI [OF assms(2)]) (simp_all add: open_handle_def Let_def same_at_def keys_queued_def set_buf_def)
next
  case (Begin j)
  have "j \<noteq> k" using Begin assms(2) by (auto simp: stranded_def)
  thus ?thesis unfolding Begin(1) by (intro strandedI [OF assms(2)]) (simp_all add: begin_read_def)
next
  case (Enter i j)
  have "j \<noteq> k" using Enter assms(2) by (auto simp: stranded_def)
  thus ?thesis unfolding Enter(1)
    by (intro strandedI [OF assms(2)])
       (auto simp: enter_read_def Let_def register_def dom_update same_at_def keys_queued_def split: if_splits)
next
  case (Fetch j i locked contended off n)
  have j: "j \<noteq> k" using Fetch assms(2) by (auto simp: stranded_def)
  obtain r st where e: "read_exact_at (file_read_exact (files j)) locked contended True j (length (files j)) off n (sv_pool m) = (r, st)"
    by fastforce
  have f: "registered st = registered (sv_pool m)" "ps_jobs st = ps_jobs (sv_pool m)" "same_at k (sv_pool m) st"
    using read_exact_frame [OF e, of k] j assms(2) by (auto simp: stranded_def)
  have m': "sv_pool m' = st" "sv_handles m' k = sv_handles m k"
    unfolding Fetch(1) fetch_def Let_def e using j by (simp_all split: sum.split)
  show ?thesis by (rule strandedI [OF assms(2)]) (simp_all add: m' f keys_queued_def)
next
  case (Dispatch j i queued)
  have "j \<noteq> k" using Dispatch assms(2) by (auto simp: stranded_def)
  thus ?thesis unfolding Dispatch(1)
    by (intro strandedI [OF assms(2)])
       (auto simp: dispatch_def end_read_def Let_def same_at_def keys_queued_def planned_jobs_def split: prod.splits)
next
  case (Fail i j)
  have "j \<noteq> k" using Fail assms(2) by (auto simp: stranded_def)
  thus ?thesis unfolding Fail(1) by (intro strandedI [OF assms(2)]) (simp_all add: end_read_def)
next
  case (Release j)
  have "j \<noteq> k" using Release assms(2) by (auto simp: stranded_def)
  thus ?thesis unfolding Release(1)
    by (intro strandedI [OF assms(2)]) (simp_all add: release_epoch_def bump_epoch_def same_at_def keys_queued_def)
next
  case (Remove j)
  have "j \<noteq> k" using Remove assms(2) by (auto simp: stranded_def)
  thus ?thesis unfolding Remove(1) by (intro strandedI [OF assms(2)]) (simp_all add: remove_handle_def)
next
  case (Drop j)
  have j: "j \<noteq> k" using Drop assms(2) by (auto simp: stranded_def)
  have m': "sv_pool m' = deregister j (sv_pool m)" "sv_handles m' k = sv_handles m k"
    unfolding Drop(1) drop_handle_def using j by simp_all
  show ?thesis
    by (rule strandedI [OF assms(2)])
       (use deregister_frame(1,2) [of j "sv_pool m"] deregister_frame(4) [of k j "sv_pool m"] j in \<open>simp_all add: m' keys_queued_def\<close>)
next
  case (Work job)
  have j: "k \<noteq> pj_key job" using Work assms(2) by (auto simp: stranded_def keys_queued_def)
  let ?st = "(sv_pool m)\<lparr> ps_jobs := remove1 job (ps_jobs (sv_pool m)) \<rparr>"
  note f = run_job_frame [of "file_read_exact (files (pj_key job))" "length (files (pj_key job))" job ?st k]
  have m': "sv_pool m' = run_job (file_read_exact (files (pj_key job))) (length (files (pj_key job))) job ?st" "sv_handles m' k = sv_handles m k"
    unfolding Work(1) by (simp_all add: work_def)
  have sub: "set (remove1 job (ps_jobs (sv_pool m))) \<subseteq> set (ps_jobs (sv_pool m))" by (rule set_remove1_subset)
  show ?thesis
    by (rule strandedI [OF assms(2)]) (use f j sub in \<open>auto simp: m' keys_queued_def same_at_def\<close>)
qed

lemma stranded_for_ever:
  assumes "(handle_step files)\<^sup>*\<^sup>* m m'" "stranded k m"
  shows "stranded k m' \<and> ps_bufs (sv_pool m') k = ps_bufs (sv_pool m) k"
  using assms(1) by (induction rule: rtranclp_induct) (use assms(2) stranded_step in force)+

text \<open>Its bytes stay charged.\<close>

lemma stranded_charge:
  assumes "handle_reach files budget m" "\<forall>k. length (files k) < u64_max" "stranded k m" "(handle_step files)\<^sup>*\<^sup>* m m'"
  shows "ra_cached_bytes (ps_bufs (sv_pool m) k) \<le> ps_charged (sv_pool m')"
proof -
  have "handle_reach files budget m'" using assms(1,4) unfolding handle_reach_def by simp
  hence "pool_reach files budget (sv_pool m')" using handle_reach_ok by (simp add: serving_ok_def)
  then obtain K where K: "pool_ok files K (sv_pool m')" using pool_reach_ok assms(2) by blast
  have "ra_cached_bytes (ps_bufs (sv_pool m') k) \<le> ps_charged (sv_pool m')"
  proof (cases "k \<in> K")
    case True
    thus ?thesis using K member_le_sum [of k K "\<lambda>k. ra_cached_bytes (ps_bufs (sv_pool m') k)"] by (simp add: pool_ok_def)
  qed (use K in \<open>simp add: pool_ok_def\<close>)
  thus ?thesis using stranded_for_ever [OF assms(4,3)] by simp
qed

subsection \<open>A prefetch that outlives its handle\<close>

text \<open>
  A handle on a file of 8 bytes with a budget of 4096: its read fetches bytes 0 and 1, the release
  moves the epoch and empties the slab, and only then the read plans and requests its prefetch.
\<close>

definition leak_fetched :: serving where
  "leak_fetched = fetch demo_files (\<lambda>_. False) False 1 0 0 2 (enter_read 1 0 (begin_read 1 (open_handle 1 (serving_new 4096))))"

definition leak_removed :: serving where "leak_removed = remove_handle 1 (release_epoch 1 leak_fetched)"
definition leak_dropped :: serving where "leak_dropped = drop_handle 1 (dispatch demo_files (\<lambda>_. True) 1 0 leak_removed)"
definition leak_job :: prefetch_job where "leak_job = \<lparr> pj_key = 1, pj_start = 2, pj_len = 4096, pj_epoch = 2 \<rparr>"
definition leak_final :: serving where "leak_final = work demo_files leak_job leak_dropped"

lemma leak_fetched_reach: "(handle_step demo_files)\<^sup>*\<^sup>* (serving_new 4096) leak_fetched"
proof -
  let ?m1 = "open_handle 1 (serving_new 4096)"
  let ?m3 = "enter_read 1 0 (begin_read 1 ?m1)"
  have "handle_step demo_files (serving_new 4096) ?m1" by (rule Open) code_simp
  moreover have "handle_step demo_files ?m1 (begin_read 1 ?m1)" by (rule Begin) code_simp
  moreover have "handle_step demo_files (begin_read 1 ?m1) ?m3" by (rule Enter) code_simp
  moreover have "handle_step demo_files ?m3 leak_fetched" unfolding leak_fetched_def by (rule Fetch) code_simp
  ultimately show ?thesis by (meson r_into_rtranclp rtranclp_trans)
qed

lemma leak_dropped_reach: "(handle_step demo_files)\<^sup>*\<^sup>* leak_fetched leak_dropped"
proof -
  let ?m1 = "release_epoch 1 leak_fetched"
  let ?m3 = "dispatch demo_files (\<lambda>_. True) 1 0 leak_removed"
  have "handle_step demo_files leak_fetched ?m1" by (rule Release) code_simp
  moreover have "handle_step demo_files ?m1 leak_removed" unfolding leak_removed_def by (rule Remove) code_simp
  moreover have "handle_step demo_files leak_removed ?m3" by (rule Dispatch) code_simp
  moreover have "handle_step demo_files ?m3 leak_dropped" unfolding leak_dropped_def by (rule Drop) code_simp+
  ultimately show ?thesis by (meson r_into_rtranclp rtranclp_trans)
qed

lemma leak_job_queued: "ps_jobs (sv_pool leak_dropped) = [leak_job]"
  by code_simp

lemma leak_final_reach: "handle_reach demo_files 4096 leak_final"
proof -
  have "handle_step demo_files leak_dropped leak_final"
    unfolding leak_final_def by (rule Work) (simp add: leak_job_queued)
  thus ?thesis using leak_fetched_reach leak_dropped_reach unfolding handle_reach_def by (meson r_into_rtranclp rtranclp_trans)
qed

lemma leak_final_pool:
  "ps_streams (sv_pool leak_final) = []" "ps_jobs (sv_pool leak_final) = []" "ps_charged (sv_pool leak_final) = 6"
  "ra_cached_bytes (ps_bufs (sv_pool leak_final) 1) = 6" "hd_phase (handle_of leak_final 1) = Dropped"
  "hd_reads (handle_of leak_final 1) = []"
  subgoal by code_simp
  subgoal by code_simp
  subgoal by code_simp
  subgoal by code_simp
  subgoal by code_simp
  subgoal by code_simp
  done

lemma other_handles:
  "k \<noteq> j \<Longrightarrow> handle_of (open_handle j m) k = handle_of m k" "k \<noteq> j \<Longrightarrow> handle_of (begin_read j m) k = handle_of m k"
  "k \<noteq> j \<Longrightarrow> handle_of (enter_read j i m) k = handle_of m k"
  "k \<noteq> j \<Longrightarrow> handle_of (fetch files locked contended j i off n m) k = handle_of m k"
  "k \<noteq> j \<Longrightarrow> handle_of (release_epoch j m) k = handle_of m k" "k \<noteq> j \<Longrightarrow> handle_of (remove_handle j m) k = handle_of m k"
  "k \<noteq> j \<Longrightarrow> handle_of (dispatch files queued j i m) k = handle_of m k"
  "k \<noteq> j \<Longrightarrow> handle_of (drop_handle j m) k = handle_of m k" "handle_of (work files job m) k = handle_of m k"
  by (auto simp: open_handle_def begin_read_def enter_read_def fetch_def release_epoch_def remove_handle_def dispatch_def
      end_read_def drop_handle_def work_def Let_def split: sum.split prod.split)

lemma leak_final_others: "k \<noteq> 1 \<Longrightarrow> handle_of leak_final k = unopened"
  by (simp add: leak_final_def leak_dropped_def leak_removed_def leak_fetched_def other_handles) (simp add: serving_new_def)

text \<open>C24: A prefetch can outlive its handle and leak budget for good. When a release overlaps a read of the
  handle, the read requests its prefetch under the epoch the release has already moved, so the epoch
  check passes; if the job runs after the read has ended and the handle was dropped, it stores and
  charges its window in a buffer that is no longer registered. So, with handles that open, read,
  release and drop in the order of the code, a state is reachable in which every handle ever opened
  is dropped, no buffer is registered and no job is queued, but bytes are charged to the budget, and
  after it the charge never falls below them, whatever is opened, read, evicted and released later.
\<close>

theorem prefetch_outlives_handle:
  "\<exists>m. handle_reach demo_files 4096 m \<and> (\<forall>k. hd_phase (handle_of m k) = Unopened \<or> hd_phase (handle_of m k) = Dropped) \<and>
     ps_streams (sv_pool m) = [] \<and> ps_jobs (sv_pool m) = [] \<and> 0 < ps_charged (sv_pool m) \<and>
     (\<nexists>m'. (handle_step demo_files)\<^sup>*\<^sup>* m m' \<and> ps_charged (sv_pool m') < ps_charged (sv_pool m))"
proof (intro exI conjI allI)
  show "handle_reach demo_files 4096 leak_final" by (rule leak_final_reach)
  show "hd_phase (handle_of leak_final k) = Unopened \<or> hd_phase (handle_of leak_final k) = Dropped" for k
    using leak_final_others [of k] leak_final_pool(5) by (cases "k = 1") (simp_all add: unopened_def)
  show "ps_streams (sv_pool leak_final) = []" "ps_jobs (sv_pool leak_final) = []" "0 < ps_charged (sv_pool leak_final)"
    by (simp_all add: leak_final_pool)
  have "stranded 1 leak_final" using leak_final_pool by (simp add: stranded_def keys_queued_def)
  from stranded_charge [OF leak_final_reach demo_files_small this] leak_final_pool(4)
  have "(handle_step demo_files)\<^sup>*\<^sup>* leak_final m' \<Longrightarrow> 6 \<le> ps_charged (sv_pool m')" for m' by simp
  thus "\<nexists>m'. (handle_step demo_files)\<^sup>*\<^sup>* leak_final m' \<and> ps_charged (sv_pool m') < ps_charged (sv_pool leak_final)"
    by (auto simp: leak_final_pool not_less)
qed

end
