(* ===== verification/Template.thy ===== *)
theory Template
  imports Core_Base
begin

text \<open>
  Path templates, musefs-core/src/template.rs: the parser of fields, fallback chains, path fields
  and conditional sections, the set of fields a template references, and rendering with its
  sanitization. The characters the code distinguishes are ASCII, so working on the UTF-8 bytes of a
  string is working on its characters.
\<close>

subsection \<open>Parsing\<close>

datatype part =
    Literal string
  | Field "string list" bool
  | Section "part list"

definition max_path_field_segments :: nat where "max_path_field_segments = 64"
definition max_section_depth :: nat where "max_section_depth = 64"

definition is_field_char :: "char \<Rightarrow> bool" where
  "is_field_char c =
     (let n = (of_char c :: nat) in 97 \<le> n \<and> n \<le> 122 \<or> 65 \<le> n \<and> n \<le> 90 \<or> 48 \<le> n \<and> n \<le> 57 \<or> n = 95)"

definition is_control :: "char \<Rightarrow> bool" where
  "is_control c \<longleftrightarrow> (of_char c :: nat) < 0x20"

definition push_literal :: "part list \<Rightarrow> string \<Rightarrow> part list" where
  "push_literal parts literal = (if literal \<noteq> [] then parts @ [Literal literal] else parts)"

fun split_on :: "char \<Rightarrow> string \<Rightarrow> string list" where
  "split_on d [] = [[]]"
| "split_on d (c # cs) =
     (if c = d then [] # split_on d cs
      else case split_on d cs of [] \<Rightarrow> [[c]] | w # ws \<Rightarrow> (c # w) # ws)"

definition parse_braced_names :: "string \<Rightarrow> template_error + (string list \<times> string)" where
  "parse_braced_names chars =
     (if CHR 0x7D \<notin> set chars then Inl UnterminatedField
      else Inr (map to_ascii_lowercase (split_on (CHR ''|'') (takeWhile (\<lambda>c. c \<noteq> CHR 0x7D) chars)),
                tl (dropWhile (\<lambda>c. c \<noteq> CHR 0x7D) chars)))"

definition parse_unbraced_name :: "string \<Rightarrow> string \<times> string" where
  "parse_unbraced_name chars =
     (to_ascii_lowercase (takeWhile is_field_char chars), dropWhile is_field_char chars)"

text \<open>Every step of the parser consumes a character; the fuel bounds the steps.\<close>

fun parse_parts ::
  "nat \<Rightarrow> nat \<Rightarrow> part list \<Rightarrow> string \<Rightarrow> string \<Rightarrow> (template_error + (part list \<times> string)) option" where
  "parse_parts 0 depth parts literal chars = None"
| "parse_parts (Suc n) depth parts literal [] =
     Some (if depth > 0 then Inl UnclosedSection else Inr (push_literal parts literal, []))"
| "parse_parts (Suc n) depth parts literal (c # cs) =
     (if c = CHR '']'' \<and> depth > 0 then Some (Inr (push_literal parts literal, cs))
      else if c = CHR ''['' then
        let parts = push_literal parts literal
        in if depth + 1 > max_section_depth then Some (Inl (NestingTooDeep max_section_depth))
           else pbind (parse_parts n (depth + 1) [] [] cs) (\<lambda>(inner, rest).
                parse_parts n depth (parts @ [Section inner]) [] rest)
      else if c = CHR ''$'' then
        (case cs of
           [] \<Rightarrow> parse_parts n depth parts (literal @ ''$'') cs
         | d # ds \<Rightarrow>
             if d = CHR ''['' then parse_parts n depth parts (literal @ ''['') ds
             else if d = CHR '']'' then parse_parts n depth parts (literal @ '']'') ds
             else if d = CHR 0x7B then
               pbind (Some (parse_braced_names ds)) (\<lambda>(names, rest).
               parse_parts n depth (push_literal parts literal @ [Field names False]) [] rest)
             else if d = CHR ''!'' then
               (if ds \<noteq> [] \<and> hd ds = CHR 0x7B then
                  pbind (Some (parse_braced_names (tl ds))) (\<lambda>(names, rest).
                  parse_parts n depth (push_literal parts literal @ [Field names True]) [] rest)
                else parse_parts n depth parts (literal @ ''$!'') ds)
             else if is_field_char d then
               (case parse_unbraced_name cs of
                  (name, rest) \<Rightarrow> parse_parts n depth (push_literal parts literal @ [Field [name] False]) [] rest)
             else parse_parts n depth parts (literal @ ''$'') cs)
      else if is_control c then Some (Inl (ControlByte (of_char c)))
      else parse_parts n depth parts (literal @ [c]) cs)"

definition template_parse :: "string \<Rightarrow> (template_error + part list) option" where
  "template_parse t = pbind (parse_parts (length t + 1) 0 [] [] t) (\<lambda>(parts, _). Some (Inr parts))"

fun collect_part :: "part \<Rightarrow> string set" and collect_field_names :: "part list \<Rightarrow> string set" where
  "collect_part (Literal _) = {}"
| "collect_part (Field names _) = set names"
| "collect_part (Section inner) = collect_field_names inner"
| "collect_field_names [] = {}"
| "collect_field_names (p # ps) = collect_part p \<union> collect_field_names ps"

subsection \<open>Rendering\<close>

type_synonym fields = "string \<Rightarrow> string option"

definition nonempty :: "string option \<Rightarrow> string option" where
  "nonempty v = (case v of Some s \<Rightarrow> if s \<noteq> [] then Some s else None | None \<Rightarrow> None)"

fun resolve_plain :: "string list \<Rightarrow> fields \<Rightarrow> fields \<Rightarrow> string option" where
  "resolve_plain [] fs fb = None"
| "resolve_plain (n # ns) fs fb =
     (case nonempty (fs n) of
        Some v \<Rightarrow> Some v
      | None \<Rightarrow> (case nonempty (fb n) of Some v \<Rightarrow> Some v | None \<Rightarrow> resolve_plain ns fs fb))"

definition sanitize :: "string \<Rightarrow> string" where
  "sanitize v = map (\<lambda>c. if c = CHR ''/'' \<or> is_control c then CHR ''_'' else c) v"

fun sanitize_segments :: "string \<Rightarrow> nat \<Rightarrow> string list \<Rightarrow> string" where
  "sanitize_segments out count [] = out"
| "sanitize_segments out count (s # ss) =
     (if count = max_path_field_segments then out
      else if s = [] \<or> s = ''.'' \<or> s = ''..'' then sanitize_segments out count ss
      else sanitize_segments ((if out \<noteq> [] then out @ ''/'' else out) @ sanitize s) (count + 1) ss)"

definition sanitize_path :: "string \<Rightarrow> string" where
  "sanitize_path v = sanitize_segments [] 0 (split_on (CHR ''/'') v)"

fun resolve_path :: "string list \<Rightarrow> fields \<Rightarrow> fields \<Rightarrow> string option" where
  "resolve_path [] fs fb = None"
| "resolve_path (n # ns) fs fb =
     (case (case fs n of Some v \<Rightarrow> Some v | None \<Rightarrow> fb n) of
        Some v \<Rightarrow> (let p = sanitize_path v in if p \<noteq> [] then Some p else resolve_path ns fs fb)
      | None \<Rightarrow> resolve_path ns fs fb)"

text \<open>The text, whether some field was present, and whether every top-level field resolved.\<close>

fun render_part :: "fields \<Rightarrow> fields \<Rightarrow> string \<Rightarrow> bool \<Rightarrow> part \<Rightarrow> string \<times> bool \<times> bool"
and render_parts :: "fields \<Rightarrow> fields \<Rightarrow> string \<Rightarrow> bool \<Rightarrow> part list \<Rightarrow> string \<times> bool \<times> bool" where
  "render_part fs fb dflt sec (Literal l) = (l, False, True)"
| "render_part fs fb dflt sec (Field names raw) =
     (case (if raw then resolve_path names fs fb else map_option sanitize (resolve_plain names fs fb)) of
        Some v \<Rightarrow> (v, True, True)
      | None \<Rightarrow> if \<not> sec then (sanitize dflt, False, False) else ([], False, True))"
| "render_part fs fb dflt sec (Section inner) =
     (case render_parts fs fb dflt True inner of
        (text, present, _) \<Rightarrow> if present then (text, True, True) else ([], False, True))"
| "render_parts fs fb dflt sec [] = ([], False, True)"
| "render_parts fs fb dflt sec (p # ps) =
     (case render_part fs fb dflt sec p of (o1, a1, t1) \<Rightarrow>
      case render_parts fs fb dflt sec ps of (o2, a2, t2) \<Rightarrow> (o1 @ o2, a1 \<or> a2, t1 \<and> t2))"

definition template_render :: "part list \<Rightarrow> fields \<Rightarrow> fields \<Rightarrow> string \<Rightarrow> string \<Rightarrow> string" where
  "template_render parts fs fb dflt ext = fst (render_parts fs fb dflt False parts) @ ''.'' @ ext"

definition template_render_checked :: "part list \<Rightarrow> fields \<Rightarrow> fields \<Rightarrow> string \<Rightarrow> string option" where
  "template_render_checked parts fs fb ext =
     (case render_parts fs fb [] False parts of
        (out, _, top_complete) \<Rightarrow> if \<not> top_complete then None else Some (out @ ''.'' @ ext))"


subsection \<open>Parsing is total and bounds the nesting\<close>

fun nesting_part :: "part \<Rightarrow> nat" and nesting :: "part list \<Rightarrow> nat" where
  "nesting_part (Literal _) = 0"
| "nesting_part (Field _ _) = 0"
| "nesting_part (Section inner) = Suc (nesting inner)"
| "nesting [] = 0"
| "nesting (p # ps) = max (nesting_part p) (nesting ps)"

definition lowercase_names :: "part list \<Rightarrow> bool" where
  "lowercase_names ps \<longleftrightarrow> (\<forall>n\<in>collect_field_names ps. to_ascii_lowercase n = n)"

lemma nesting_append [simp]: "nesting (ps @ qs) = max (nesting ps) (nesting qs)"
  by (induction ps) auto

lemma collect_append [simp]: "collect_field_names (ps @ qs) = collect_field_names ps \<union> collect_field_names qs"
  by (induction ps) auto

lemma nesting_push_literal [simp]: "nesting (push_literal ps l) = nesting ps"
  by (simp add: push_literal_def)

lemma collect_push_literal [simp]: "collect_field_names (push_literal ps l) = collect_field_names ps"
  by (simp add: push_literal_def)

lemma lower_idem [simp]: "to_ascii_lowercase (to_ascii_lowercase n) = to_ascii_lowercase n"
  by (rule lower_lower)

lemma parse_braced_names_OkD:
  "parse_braced_names cs = Inr (names, rest) \<Longrightarrow>
     length rest < length cs \<and> (\<forall>n\<in>set names. to_ascii_lowercase n = n)"
proof -
  assume a: "parse_braced_names cs = Inr (names, rest)"
  hence "dropWhile (\<lambda>c. c \<noteq> CHR 0x7D) cs \<noteq> []"
    by (auto simp: parse_braced_names_def split: if_splits)
  hence "length (tl (dropWhile (\<lambda>c. c \<noteq> CHR 0x7D) cs)) < length cs"
    using length_dropWhile_le [of "\<lambda>c. c \<noteq> CHR 0x7D" cs] by (cases "dropWhile (\<lambda>c. c \<noteq> CHR 0x7D) cs") auto
  with a show ?thesis by (auto simp: parse_braced_names_def split: if_splits)
qed

text \<open>What one call of the parser leaves: an error, or the parts of its level and a shorter rest.\<close>

definition parsed_ok :: "nat \<Rightarrow> string \<Rightarrow> (template_error + (part list \<times> string)) option \<Rightarrow> bool" where
  "parsed_ok depth chars r = (case r of
     None \<Rightarrow> False
   | Some (Inl e) \<Rightarrow> True
   | Some (Inr (ps, rest)) \<Rightarrow>
       length rest \<le> length chars \<and> (depth > 0 \<longrightarrow> length rest < length chars) \<and>
       nesting ps + depth \<le> max_section_depth \<and> lowercase_names ps)"

lemma parsed_ok_longer:
  "parsed_ok depth cs r \<Longrightarrow> length cs \<le> length cs' \<Longrightarrow> parsed_ok depth cs' r"
  by (auto simp: parsed_ok_def split: option.splits sum.splits prod.splits)

lemma lowercase_names_simps [simp]:
  "lowercase_names []" 
  "lowercase_names (push_literal ps l) = lowercase_names ps"
  "lowercase_names (ps @ qs) \<longleftrightarrow> lowercase_names ps \<and> lowercase_names qs"
  "lowercase_names [Literal l]"
  "lowercase_names [Field ns raw] \<longleftrightarrow> (\<forall>n\<in>set ns. to_ascii_lowercase n = n)"
  "lowercase_names [Section inner] \<longleftrightarrow> lowercase_names inner"
  by (auto simp: lowercase_names_def)

lemma parse_parts_ok:
  assumes "length chars < n" "depth \<le> max_section_depth"
    "nesting parts + depth \<le> max_section_depth" "lowercase_names parts"
  shows "parsed_ok depth chars (parse_parts n depth parts literal chars)"
  using assms
proof (induction n arbitrary: depth parts literal chars)
  case 0 thus ?case by simp
next
  case (Suc n)
  note IH = Suc.IH and pre = Suc.prems
  have go: "parsed_ok depth chars (parse_parts n depth ps l cs)"
    if "length cs < length chars" "nesting ps + depth \<le> max_section_depth" "lowercase_names ps" for ps l cs
    by (rule parsed_ok_longer [OF IH [of cs depth ps l]]) (use that pre in auto)
  show ?case
  proof (cases chars)
    case Nil thus ?thesis using pre by (auto simp: parsed_ok_def)
  next
    case (Cons c cs)
    have braced: "parsed_ok depth chars (pbind (Some (parse_braced_names ds)) (\<lambda>(names, rest).
        parse_parts n depth (push_literal parts literal @ [Field names raw]) [] rest))"
      if "length ds < length chars" for ds raw
      using that pre
      by (cases "parse_braced_names ds")
         (auto simp: parsed_ok_def [of _ _ "Some (Inl e)" for e] dest!: parse_braced_names_OkD intro!: go)
    have unbraced: "parsed_ok depth chars (case parse_unbraced_name cs of (name, rest) \<Rightarrow>
        parse_parts n depth (push_literal parts literal @ [Field [name] False]) [] rest)"
      using pre length_dropWhile_le [of is_field_char cs] unfolding parse_unbraced_name_def prod.case
      by (intro go) (auto simp: Cons)
    have sect: "parsed_ok depth chars (pbind (parse_parts n (depth + 1) [] [] cs) (\<lambda>(inner, rest).
        parse_parts n depth (push_literal parts literal @ [Section inner]) [] rest))"
      if "depth + 1 \<le> max_section_depth"
    proof -
      have inner: "parsed_ok (depth + 1) cs (parse_parts n (depth + 1) [] [] cs)"
        by (rule IH) (use that pre Cons in auto)
      show ?thesis
      proof (cases "parse_parts n (depth + 1) [] [] cs")
        case None thus ?thesis using inner by (simp add: parsed_ok_def)
      next
        case (Some r)
        note r = Some
        show ?thesis
        proof (cases r)
          case (Inl e) thus ?thesis using r by (simp add: parsed_ok_def)
        next
          case (Inr x)
          obtain ps rest where x: "x = (ps, rest)" by fastforce
          have "length rest < length chars" "Suc (nesting ps + depth) \<le> max_section_depth" "lowercase_names ps"
            using inner r Inr x Cons by (auto simp: parsed_ok_def)
          thus ?thesis using pre r Inr x by (auto intro: go)
        qed
      qed
    qed
    have lit: "parsed_ok depth chars (parse_parts n depth parts l ds)" if "length ds < length chars" for l ds
      using that pre by (auto intro: go)
    have err: "parsed_ok depth chars (Some (Inl e))" for e
      by (simp add: parsed_ok_def)
    consider "c = CHR '']'' \<and> depth > 0" | "c = CHR ''[''" | "c = CHR ''$''"
      | "\<not> (c = CHR '']'' \<and> depth > 0)" "c \<noteq> CHR ''[''" "c \<noteq> CHR ''$''" by blast
    thus ?thesis
    proof cases
      case 1
      thus ?thesis using pre Cons by (simp add: parsed_ok_def)
    next
      case 2
      show ?thesis
      proof (cases "depth + 1 > max_section_depth")
        case True thus ?thesis using 2 err Cons by simp
      next
        case False thus ?thesis using 2 sect Cons by simp
      qed
    next
      case 3
      have "parsed_ok depth chars (parse_parts (Suc n) depth parts literal (CHR ''$'' # cs))"
      proof (cases cs)
        case Nil thus ?thesis using lit [of cs] Cons by simp
      next
        case (Cons d ds)
        have len: "length ds < length chars" "length cs < length chars" "ds \<noteq> [] \<Longrightarrow> length (tl ds) < length chars"
          using Cons \<open>chars = c # cs\<close> by auto
        note steps = lit [OF len(1)] lit [OF len(2)] braced [OF len(1), of False] unbraced
        show ?thesis
          using Cons steps braced [OF len(3), of True] by (cases ds) (simp_all split del: prod.splits)
      qed
      thus ?thesis using 3 Cons by simp
    next
      case 4
      hence "parse_parts (Suc n) depth parts literal (c # cs) =
          (if is_control c then Some (Inl (ControlByte (of_char c))) else parse_parts n depth parts (literal @ [c]) cs)"
        by (cases "c = CHR '']''") simp_all
      thus ?thesis using lit [of cs] err Cons by simp
    qed
  qed
qed

lemma max_section_depth_zero: "nesting [] + 0 \<le> max_section_depth" "(0::nat) \<le> max_section_depth"
  by (simp_all add: max_section_depth_def)

text \<open>The template parser always answers: its step bound is never exhausted, so parsing ends with
  an error or with parts whose sections nest at most max_section_depth deep and whose field names
  are all lowercase, the form in which the store's keys are looked up.
\<close>

theorem template_parse_total:
  "case template_parse t of
     None \<Rightarrow> False
   | Some (Inl e) \<Rightarrow> True
   | Some (Inr ps) \<Rightarrow> nesting ps \<le> max_section_depth \<and> lowercase_names ps"
proof -
  have "parsed_ok 0 t (parse_parts (length t + 1) 0 [] [] t)"
    by (rule parse_parts_ok) (simp_all add: max_section_depth_zero)
  thus ?thesis
    by (auto simp: template_parse_def parsed_ok_def pbind_def split: option.splits sum.splits prod.splits)
qed

subsection \<open>Path fields\<close>

fun join_with :: "char \<Rightarrow> string list \<Rightarrow> string" where
  "join_with d [] = []"
| "join_with d [w] = w"
| "join_with d (w # ws) = w @ d # join_with d ws"

definition kept_segment :: "string \<Rightarrow> bool" where
  "kept_segment s \<longleftrightarrow> s \<noteq> [] \<and> s \<noteq> ''.'' \<and> s \<noteq> ''..''"

definition clean_segment :: "string \<Rightarrow> bool" where
  "clean_segment s \<longleftrightarrow> kept_segment s \<and> list_all (\<lambda>c. c \<noteq> CHR ''/'' \<and> \<not> is_control c) s"

lemma join_with_Cons: "join_with d (w # ws) = w @ (if ws = [] then [] else d # join_with d ws)"
  by (cases ws) auto

lemma join_with_append:
  "join_with d (vs @ ws) = (if vs = [] then join_with d ws
     else if ws = [] then join_with d vs else join_with d vs @ d # join_with d ws)"
proof (induction vs)
  case (Cons v vs) thus ?case by (cases "vs @ ws") (auto simp: join_with_Cons)
qed simp

lemma join_with_eq_Nil: "\<forall>w\<in>set ws. w \<noteq> [] \<Longrightarrow> join_with d ws = [] \<longleftrightarrow> ws = []"
  by (cases ws) (auto simp: join_with_Cons)

lemma underscore_not_control [simp]: "\<not> is_control (CHR ''_'')"
  by (simp add: is_control_def)

lemma sanitize_char_clean:
  "(if c = CHR ''/'' \<or> is_control c then CHR ''_'' else c) \<noteq> CHR ''/'' \<and>
   \<not> is_control (if c = CHR ''/'' \<or> is_control c then CHR ''_'' else c)"
  by auto

lemma sanitize_kept: "kept_segment s \<Longrightarrow> clean_segment (sanitize s)"
proof -
  assume k: "kept_segment s"
  have dot: "(if c = CHR ''/'' \<or> is_control c then CHR ''_'' else c) = CHR ''.'' \<longleftrightarrow> c = CHR ''.''" for c
    by (auto simp: is_control_def)
  have "sanitize s = ''.'' \<longleftrightarrow> s = ''.''" "sanitize s = ''..'' \<longleftrightarrow> s = ''..''"
    by (auto simp: sanitize_def map_eq_Cons_conv dot)
  with k have "kept_segment (sanitize s)" by (auto simp: kept_segment_def sanitize_def)
  thus ?thesis by (auto simp: clean_segment_def sanitize_def list_all_iff sanitize_char_clean)
qed

lemma clean_segments: "\<forall>s\<in>set ss. kept_segment s \<Longrightarrow> list_all clean_segment (map sanitize ss)"
  by (induction ss) (auto intro: sanitize_kept)

lemma sanitize_segments_eq:
  assumes "out = join_with (CHR ''/'') ps" "length ps = count" "\<forall>p\<in>set ps. p \<noteq> []" "count \<le> max_path_field_segments"
  shows "sanitize_segments out count ss =
     join_with (CHR ''/'') (ps @ map sanitize (take (max_path_field_segments - count) (filter kept_segment ss)))"
  using assms
proof (induction ss arbitrary: out count ps)
  case Nil thus ?case by simp
next
  case (Cons s ss)
  show ?case
  proof (cases "count = max_path_field_segments")
    case True thus ?thesis using Cons.prems by simp
  next
    case False
    show ?thesis
    proof (cases "kept_segment s")
      case False
      thus ?thesis using Cons \<open>count \<noteq> _\<close> by (auto simp: kept_segment_def)
    next
      case True
      have ne: "sanitize s \<noteq> []" using True by (auto simp: kept_segment_def sanitize_def)
      have out: "(if out \<noteq> [] then out @ ''/'' else out) @ sanitize s = join_with (CHR ''/'') (ps @ [sanitize s])"
        using Cons.prems by (simp add: join_with_append join_with_eq_Nil)
      have "sanitize_segments out count (s # ss) =
          sanitize_segments ((if out \<noteq> [] then out @ ''/'' else out) @ sanitize s) (count + 1) ss"
        using True \<open>count \<noteq> _\<close> by (simp add: kept_segment_def)
      also have "\<dots> = join_with (CHR ''/'') ((ps @ [sanitize s]) @
          map sanitize (take (max_path_field_segments - (count + 1)) (filter kept_segment ss)))"
        by (rule Cons.IH [OF out]) (use Cons.prems False ne in auto)
      also have "max_path_field_segments - count = Suc (max_path_field_segments - (count + 1))"
        using False Cons.prems by simp
      hence "(ps @ [sanitize s]) @ map sanitize (take (max_path_field_segments - (count + 1)) (filter kept_segment ss)) =
          ps @ map sanitize (take (max_path_field_segments - count) (filter kept_segment (s # ss)))"
        using True by simp
      finally show ?thesis .
    qed
  qed
qed

text \<open>C25: A path field contributes exactly the first max_path_field_segments components of the tag that
  are neither empty nor dots, with control characters replaced, joined by slashes: no tag value can
  add an empty, dot or dot-dot component, a leading or trailing slash, or unbounded depth.
\<close>

theorem path_field_components:
  "sanitize_path v = join_with (CHR ''/'') (map sanitize (take max_path_field_segments (filter kept_segment (split_on (CHR ''/'') v)))) \<and>
   list_all clean_segment (map sanitize (take max_path_field_segments (filter kept_segment (split_on (CHR ''/'') v))))"
proof -
  have "\<forall>s\<in>set (take max_path_field_segments (filter kept_segment (split_on (CHR ''/'') v))). kept_segment s"
    by (auto dest: in_set_takeD)
  hence "list_all clean_segment (map sanitize (take max_path_field_segments (filter kept_segment (split_on (CHR ''/'') v))))"
    by (rule clean_segments)
  moreover have "sanitize_path v = join_with (CHR ''/'')
      ([] @ map sanitize (take (max_path_field_segments - 0) (filter kept_segment (split_on (CHR ''/'') v))))"
    unfolding sanitize_path_def by (rule sanitize_segments_eq) simp_all
  ultimately show ?thesis by simp
qed

subsection \<open>Rendering\<close>

definition agree_on :: "string set \<Rightarrow> fields \<Rightarrow> fields \<Rightarrow> bool" where
  "agree_on ns f g \<longleftrightarrow> (\<forall>n\<in>ns. f n = g n)"

lemma agree_on_Un [simp]: "agree_on (A \<union> B) f g \<longleftrightarrow> agree_on A f g \<and> agree_on B f g"
  by (auto simp: agree_on_def)

lemma resolve_plain_agree:
  "agree_on (set ns) fs fs' \<Longrightarrow> agree_on (set ns) fb fb' \<Longrightarrow> resolve_plain ns fs fb = resolve_plain ns fs' fb'"
  by (induction ns) (auto simp: agree_on_def split: option.splits)

lemma resolve_path_agree:
  "agree_on (set ns) fs fs' \<Longrightarrow> agree_on (set ns) fb fb' \<Longrightarrow> resolve_path ns fs fb = resolve_path ns fs' fb'"
  by (induction ns) (auto simp: agree_on_def Let_def split: option.splits)

lemma render_parts_agree:
  shows "agree_on (collect_part p) fs fs' \<Longrightarrow> agree_on (collect_part p) fb fb' \<Longrightarrow>
      render_part fs fb d sec p = render_part fs' fb' d sec p"
    and "agree_on (collect_field_names ps) fs fs' \<Longrightarrow> agree_on (collect_field_names ps) fb fb' \<Longrightarrow>
      render_parts fs fb d sec ps = render_parts fs' fb' d sec ps"
proof (induction fs fb d sec p and fs fb d sec ps rule: render_part_render_parts.induct)
  case (2 fs fb d sec names raw)
  thus ?case using resolve_plain_agree [of names fs fs' fb fb'] resolve_path_agree [of names fs fs' fb fb'] by simp
next
  case (5 fs fb d sec p ps)
  thus ?case by (auto split: prod.splits)
qed auto

text \<open>Rendering reads only the fields the template references: two tag sets that agree on
  referenced_fields give the same path, with and without the skip-on-missing check, so the store
  query restricted to those keys loses nothing.
\<close>

theorem render_reads_referenced:
  assumes "agree_on (collect_field_names parts) fs fs'" "agree_on (collect_field_names parts) fb fb'"
  shows "template_render parts fs fb dflt ext = template_render parts fs' fb' dflt ext \<and>
    template_render_checked parts fs fb ext = template_render_checked parts fs' fb' ext"
  using render_parts_agree(2) [OF assms] by (simp add: template_render_def template_render_checked_def)

definition demo_parts :: "part list" where
  "demo_parts = [Field [''albumartist'', ''artist''] False, Literal ''/'', Section [Literal ''('', Field [''date''] False, Literal '')'']]"

lemma render_reads_referenced_witness:
  "template_render demo_parts [''artist'' \<mapsto> ''Can'', ''comment'' \<mapsto> ''x''] Map.empty ''Unknown'' ''flac'' = ''Can/.flac'' \<and>
   template_render demo_parts [''artist'' \<mapsto> ''Can''] Map.empty ''Unknown'' ''flac'' = ''Can/.flac''"
proof -
  have a: "agree_on (collect_field_names demo_parts) [''artist'' \<mapsto> ''Can'', ''comment'' \<mapsto> ''x''] [''artist'' \<mapsto> ''Can'']"
    by (simp add: demo_parts_def agree_on_def)
  have b: "agree_on (collect_field_names demo_parts) Map.empty Map.empty" by (simp add: agree_on_def)
  have "template_render demo_parts [''artist'' \<mapsto> ''Can''] Map.empty ''Unknown'' ''flac'' = ''Can/.flac''"
    by (simp add: template_render_def demo_parts_def nonempty_def sanitize_def is_control_def)
  thus ?thesis using render_reads_referenced [OF a b] by simp
qed

text \<open>Two renderings under different defaults: same flags, same text unless a default was used.\<close>

definition same_but_default :: "bool \<Rightarrow> string \<times> bool \<times> bool \<Rightarrow> string \<times> bool \<times> bool \<Rightarrow> bool" where
  "same_but_default sec r r' \<longleftrightarrow> snd r = snd r' \<and> (sec \<or> snd (snd r) \<longrightarrow> r = r')"

lemma render_parts_complete:
  shows "same_but_default sec (render_part fs fb d sec p) (render_part fs fb d' sec p)"
    and "same_but_default sec (render_parts fs fb d sec ps) (render_parts fs fb d' sec ps)"
proof (induction fs fb d sec p and fs fb d sec ps rule: render_part_render_parts.induct)
  case (2 fs fb d sec names raw)
  thus ?case by (simp add: same_but_default_def split: option.splits)
next
  case (3 fs fb d sec inner)
  hence "render_parts fs fb d True inner = render_parts fs fb d' True inner"
    by (simp add: same_but_default_def)
  thus ?case by (simp add: same_but_default_def)
next
  case (5 fs fb d sec p ps)
  obtain o1 a1 t1 o2 a2 t2 where r: "render_part fs fb d sec p = (o1, a1, t1)" "render_parts fs fb d sec ps = (o2, a2, t2)"
    by (metis prod_cases3)
  obtain o1' o2' where r': "render_part fs fb d' sec p = (o1', a1, t1)" "render_parts fs fb d' sec ps = (o2', a2, t2)"
    using 5 r by (cases "render_part fs fb d' sec p"; cases "render_parts fs fb d' sec ps") (auto simp: same_but_default_def)
  show ?case using 5 r r' by (auto simp: same_but_default_def)
qed (simp_all add: same_but_default_def)

text \<open>When the skip-on-missing rendering answers, it is the ordinary one, whatever the default.\<close>

lemma render_checked_agrees:
  assumes "template_render_checked parts fs fb ext = Some p"
  shows "template_render parts fs fb dflt ext = p"
  using assms render_parts_complete(2) [of False fs fb "[]" parts dflt]
  by (cases "render_parts fs fb [] False parts"; cases "render_parts fs fb dflt False parts")
     (auto simp: same_but_default_def template_render_checked_def template_render_def split: if_splits)

end
