(* ===== verification/Tree_Names.thy ===== *)
theory Tree_Names
  imports Decimal
begin

text \<open>
  Names of the virtual tree, musefs-core/src/tree.rs: the components of a rendered path, joining,
  truncation to NAME_MAX bytes at a character boundary, and the rank suffixes that disambiguate
  colliding names. Strings are lists of UTF-8 bytes.
\<close>

fun split_slash :: "string \<Rightarrow> string list" where
  "split_slash [] = [[]]"
| "split_slash (c # cs) =
     (if c = CHR ''/'' then [] # split_slash cs
      else case split_slash cs of [] \<Rightarrow> [[c]] | w # ws \<Rightarrow> (c # w) # ws)"

definition path_components :: "string \<Rightarrow> string list" where
  "path_components path = filter (\<lambda>c. c \<noteq> [] \<and> c \<noteq> ''.'' \<and> c \<noteq> ''..'') (split_slash path)"

definition metrics_dir_name :: string where "metrics_dir_name = ''.musefs-metrics''"
definition spotlight_marker_name :: string where "spotlight_marker_name = ''.metadata_never_index''"

definition reserved_root_names :: "string list" where
  "reserved_root_names = [metrics_dir_name, spotlight_marker_name]"

definition join_path :: "string \<Rightarrow> string \<Rightarrow> string" where
  "join_path parent name = (if parent = [] then name else parent @ ''/'' @ name)"

definition name_max :: nat where "name_max = 255"

subsection \<open>Finding and cutting\<close>

text \<open>The last position of a byte, and of a two-byte pattern.\<close>

fun rfind :: "char \<Rightarrow> string \<Rightarrow> nat option" where
  "rfind c [] = None"
| "rfind c (x # xs) =
     (case rfind c xs of Some i \<Rightarrow> Some (Suc i) | None \<Rightarrow> if x = c then Some 0 else None)"

fun rfind2 :: "char \<Rightarrow> char \<Rightarrow> string \<Rightarrow> nat option" where
  "rfind2 c d (x # y # xs) =
     (case rfind2 c d (y # xs) of Some i \<Rightarrow> Some (Suc i) | None \<Rightarrow> if x = c \<and> y = d then Some 0 else None)"
| "rfind2 c d _ = None"

definition split_suffix_parts :: "string \<Rightarrow> string \<times> string option" where
  "split_suffix_parts name =
     (case rfind CHR ''.'' name of
        Some i \<Rightarrow> if i > 0 then (take i name, Some (drop (i + 1) name)) else (name, None)
      | None \<Rightarrow> (name, None))"

definition is_char_boundary :: "string \<Rightarrow> nat \<Rightarrow> bool" where
  "is_char_boundary s i \<longleftrightarrow> i = 0 \<or> i = length s \<or>
     i < length s \<and> \<not> (0x80 \<le> (of_char (s ! i) :: nat) \<and> (of_char (s ! i) :: nat) < 0xC0)"

fun boundary_below :: "string \<Rightarrow> nat \<Rightarrow> nat" where
  "boundary_below s 0 = 0"
| "boundary_below s (Suc e) = (if is_char_boundary s (Suc e) then Suc e else boundary_below s e)"

definition truncate_bytes :: "string \<Rightarrow> nat \<Rightarrow> string" where
  "truncate_bytes s mx = (if length s \<le> mx then s else take (boundary_below s mx) s)"

definition truncate_component :: "string \<Rightarrow> bool \<Rightarrow> string" where
  "truncate_component name preserve_ext =
     (if length name \<le> name_max then name
      else case (if preserve_ext then snd (split_suffix_parts name) else None) of
             Some ext \<Rightarrow>
               if length ext + 1 < name_max
               then truncate_bytes (fst (split_suffix_parts name)) (name_max - (length ext + 1)) @ ''.'' @ ext
               else truncate_bytes name name_max
           | None \<Rightarrow> truncate_bytes name name_max)"

subsection \<open>Ranks\<close>

definition rank_suffix :: "nat \<Rightarrow> string" where "rank_suffix k = '' ('' @ dec k @ '')''"

definition suffix_candidate :: "string \<Rightarrow> nat \<Rightarrow> string" where
  "suffix_candidate name k =
     (case split_suffix_parts name of (stem, ext) \<Rightarrow>
      let suffix = rank_suffix k;
          ext_part = (case ext of Some e \<Rightarrow> ''.'' @ e | None \<Rightarrow> [])
      in truncate_bytes stem (name_max - (length suffix + length ext_part)) @ suffix @ ext_part)"

definition is_suffix_shaped :: "string \<Rightarrow> bool" where
  "is_suffix_shaped name =
     (let stem = fst (split_suffix_parts name) in
      case rfind2 CHR '' '' CHR ''('' stem of
        None \<Rightarrow> False
      | Some i \<Rightarrow>
          let tail = drop (i + 2) stem in
          if tail = [] \<or> last tail \<noteq> CHR '')'' then False
          else case parse_uint u32_max (butlast tail) of Some k \<Rightarrow> k \<ge> 2 | None \<Rightarrow> False)"

subsection \<open>Components\<close>

text \<open>What a name of the tree looks like.\<close>

definition name_ok :: "string \<Rightarrow> bool" where
  "name_ok n \<longleftrightarrow> n \<noteq> [] \<and> n \<noteq> ''.'' \<and> n \<noteq> ''..'' \<and> CHR ''/'' \<notin> set n"

lemma split_slash_no_slash: "w \<in> set (split_slash s) \<Longrightarrow> CHR ''/'' \<notin> set w"
proof (induction s arbitrary: w)
  case (Cons c cs)
  thus ?case by (cases "split_slash cs") (auto split: if_splits)
qed auto

lemma path_components_ok: "c \<in> set (path_components p) \<Longrightarrow> name_ok c"
  by (auto simp: path_components_def name_ok_def dest: split_slash_no_slash)

lemma boundary_below_le: "boundary_below s e \<le> e"
  by (induction e) auto

lemma truncate_bytes_length: "length (truncate_bytes s mx) \<le> mx"
  using boundary_below_le [of s mx] by (simp add: truncate_bytes_def)

lemma truncate_bytes_prefix: "\<exists>r. s = truncate_bytes s mx @ r"
  by (metis append_Nil2 append_take_drop_id truncate_bytes_def)

lemma truncate_bytes_set: "set (truncate_bytes s mx) \<subseteq> set s"
  by (auto simp: truncate_bytes_def dest: in_set_takeD)

lemma split_suffix_parts_join:
  "split_suffix_parts name = (stem, ext) \<Longrightarrow>
     name = stem @ (case ext of Some e \<Rightarrow> ''.'' @ e | None \<Rightarrow> []) \<and> (ext \<noteq> None \<longrightarrow> stem \<noteq> [])"
proof -
  have rf: "rfind c s = Some i \<Longrightarrow> i < length s \<and> s ! i = c" for c s i
    by (induction s arbitrary: i) (auto split: option.splits if_splits)
  assume "split_suffix_parts name = (stem, ext)"
  thus ?thesis
    using rf [of "CHR ''.''" name]
    by (auto simp: split_suffix_parts_def split: option.splits if_splits) (metis id_take_nth_drop)
qed

subsection \<open>UTF-8 text\<close>

text \<open>
  A string never has more than three continuation bytes in a row; truncation at a character boundary
  therefore loses at most three bytes below the limit.
\<close>

definition cont_char :: "char \<Rightarrow> bool" where
  "cont_char c \<longleftrightarrow> 0x80 \<le> (of_char c :: nat) \<and> (of_char c :: nat) < 0xC0"

fun short_runs :: "nat \<Rightarrow> string \<Rightarrow> bool" where
  "short_runs r [] = True"
| "short_runs r (c # cs) = (if cont_char c then r > 0 \<and> short_runs (r - 1) cs else short_runs 3 cs)"

definition text_ok :: "string \<Rightarrow> bool" where "text_ok s = short_runs 3 s"

lemma short_runs_mono: "short_runs r s \<Longrightarrow> r \<le> r' \<Longrightarrow> short_runs r' s"
proof (induction s arbitrary: r r')
  case (Cons c cs)
  thus ?case by (auto intro: Cons.IH [of "r - 1" "r' - 1"])
qed simp

lemma short_runs_le3: "short_runs r s \<Longrightarrow> r \<le> 3 \<Longrightarrow> short_runs 3 s"
  by (rule short_runs_mono)

lemma short_runs_prefix: "short_runs r (a @ b) \<Longrightarrow> short_runs r a"
  by (induction a arbitrary: r) auto

lemma short_runs_suffix: "short_runs r (a @ b) \<Longrightarrow> r \<le> 3 \<Longrightarrow> short_runs 3 b"
  by (induction a arbitrary: r) (auto intro: short_runs_mono split: if_splits)

lemma short_runs_before:
  "\<lbrakk>\<And>r. short_runs r y; length x \<le> r; length x \<le> 3\<rbrakk> \<Longrightarrow> short_runs r (x @ y)"
proof (induction x arbitrary: r)
  case (Cons c cs)
  thus ?case by auto
qed simp

lemma utf8_short_runs: "utf8_valid b \<Longrightarrow> short_runs r (chars_of b)"
proof (induction b arbitrary: r rule: utf8_valid.induct)
  case 1 thus ?case by (simp add: chars_of_def)
next
  case (2 a bs)
  let ?n = "snd (utf8_head a bs) - 1"
  have ok: "fst (utf8_head a bs)" using "2.prems" by simp
  have lead: "a < 0x80 \<or> 0xC2 \<le> a" using ok
    by (auto simp: utf8_head_def word_less_nat_alt word_le_nat_alt split: if_splits)
  have ua: "unat a < 0x80 \<or> 0xC2 \<le> unat a" using lead by (simp add: word_less_nat_alt word_le_nat_alt)
  have "of_char (char_of (unat a)) = (unat a :: nat)"
    using unat_byte_lt [of a] unfolding of_char_of by (intro mod_less) simp
  with ua have noncont: "\<not> cont_char (char_of (unat a))" by (auto simp: cont_char_def)
  have n: "?n \<le> 3" using ok by (auto simp: utf8_head_def split: if_splits list.splits)
  have "short_runs 3 (chars_of (take ?n bs) @ chars_of (drop ?n bs))"
    using 2 n by (intro short_runs_before) (auto simp: chars_of_def)
  hence "short_runs 3 (chars_of bs)" by (simp add: chars_of_def flip: map_append)
  thus ?case using noncont by (simp add: chars_of_def)
qed

lemma utf8_text: "utf8_valid (as_bytes s) \<Longrightarrow> text_ok s"
  using utf8_short_runs [of "as_bytes s" 3] by (simp add: text_ok_def)

lemma text_ok_append: "text_ok (a @ b) \<Longrightarrow> text_ok a \<and> text_ok b"
  unfolding text_ok_def by (auto intro: short_runs_prefix short_runs_suffix)

lemma text_ok_Cons: "text_ok (c # b) \<Longrightarrow> text_ok b"
  using text_ok_append [of "[c]" b] by simp

lemma text_ok_boundary:
  assumes "text_ok s" "3 \<le> e" "e < length s"
  shows "e \<le> boundary_below s e + 3"
proof -
  have step: "e \<le> boundary_below s e + k" if "is_char_boundary s (e - k)" "k \<le> e" for e k
    using that
  proof (induction k arbitrary: e)
    case 0 thus ?case by (cases e) auto
  next
    case (Suc k)
    then obtain e' where "e = Suc e'" by (cases e) auto
    thus ?case using Suc.IH [of e'] Suc.prems by (auto simp: )
  qed
  let ?i = "e - 3"
  have "text_ok (drop ?i s)" using text_ok_append [of "take ?i s" "drop ?i s"] assms(1) by simp
  moreover have "drop ?i s = s ! ?i # s ! (?i + 1) # s ! (?i + 2) # s ! (?i + 3) # drop (?i + 4) s"
    using assms by (simp add: Cons_nth_drop_Suc numeral_eq_Suc Suc_diff_le flip: Cons_nth_drop_Suc)
  ultimately have "\<not> cont_char (s ! ?i) \<or> \<not> cont_char (s ! (?i + 1)) \<or> \<not> cont_char (s ! (?i + 2)) \<or> \<not> cont_char (s ! (?i + 3))"
    by (auto simp: text_ok_def split: if_splits)
  moreover have "?i + 1 = e - 2" "?i + 2 = e - 1" "?i + 3 = e - 0" using assms by auto
  ultimately have "\<not> cont_char (s ! (e - 3)) \<or> \<not> cont_char (s ! (e - 2)) \<or> \<not> cont_char (s ! (e - 1)) \<or> \<not> cont_char (s ! (e - 0))"
    by metis
  moreover have "(3::nat) \<le> 3" "(2::nat) \<le> 3" "(1::nat) \<le> 3" "(0::nat) \<le> 3" by simp_all
  ultimately have "\<exists>k\<le>3. \<not> cont_char (s ! (e - k))" by blast
  then obtain k where k: "k \<le> 3" "\<not> cont_char (s ! (e - k))" by blast
  moreover have "e - k < length s" using assms by linarith
  ultimately have "is_char_boundary s (e - k)" by (simp add: is_char_boundary_def cont_char_def)
  hence "e \<le> boundary_below s e + k" using k assms by (intro step) auto
  thus ?thesis using k by linarith
qed

lemma split_slash_text: "short_runs r s \<Longrightarrow> r \<le> 3 \<Longrightarrow>
    (case split_slash s of [] \<Rightarrow> True | w # ws \<Rightarrow> short_runs r w \<and> list_all text_ok ws)"
proof (induction s arbitrary: r)
  case (Cons c cs)
  have "(of_char (CHR ''/'') :: nat) = 47" by simp
  hence slash: "\<not> cont_char (CHR ''/'')" by (simp add: cont_char_def)
  show ?case
  proof (cases "c = CHR ''/''")
    case True
    with Cons.prems slash have "short_runs 3 cs" by simp
    with Cons.IH [of 3] True show ?thesis
      by (cases "split_slash cs") (auto simp: text_ok_def)
  next
    case False
    show ?thesis
    proof (cases "cont_char c")
      case True
      with Cons.prems have "r > 0" "short_runs (r - 1) cs" by auto
      with Cons.IH [of "r - 1"] Cons.prems False True show ?thesis
        by (cases "split_slash cs") auto
    next
      case False
      with Cons.prems have "short_runs 3 cs" by auto
      with Cons.IH [of 3] \<open>c \<noteq> _\<close> False show ?thesis
        by (cases "split_slash cs") auto
    qed
  qed
qed simp

lemma path_components_text: "text_ok p \<Longrightarrow> c \<in> set (path_components p) \<Longrightarrow> text_ok c"
  using split_slash_text [of 3 p]
  by (cases "split_slash p") (auto simp: text_ok_def path_components_def list_all_iff split: if_splits)

lemma truncate_bytes_long:
  assumes "text_ok s" "3 \<le> mx" "mx < length s"
  shows "mx \<le> length (truncate_bytes s mx) + 3"
  using text_ok_boundary [OF assms] assms boundary_below_le [of s mx] by (simp add: truncate_bytes_def)

lemma name_ok_prefix:
  assumes "set n \<subseteq> set m" "name_ok m" "2 < length n"
  shows "name_ok n"
  using assms by (auto simp: name_ok_def)

lemma truncate_component_ok:
  assumes "text_ok name" "name_ok name"
  shows "name_ok (truncate_component name ext) \<and> length (truncate_component name ext) \<le> name_max"
proof (cases "length name \<le> name_max")
  case True thus ?thesis using assms by (simp add: truncate_component_def)
next
  case False
  have whole: "name_ok (truncate_bytes name name_max) \<and> length (truncate_bytes name name_max) \<le> name_max"
    using truncate_bytes_long [OF assms(1), of name_max] truncate_bytes_length [of name name_max] False
    by (auto intro!: name_ok_prefix [OF truncate_bytes_set assms(2)] simp: name_max_def)
  show ?thesis
  proof (cases "if ext then snd (split_suffix_parts name) else None")
    case None thus ?thesis using whole False by (simp add: truncate_component_def)
  next
    case (Some e)
    obtain stem where sp: "split_suffix_parts name = (stem, Some e)"
      using Some by (cases "split_suffix_parts name") (auto split: if_splits)
    have name: "name = stem @ ''.'' @ e" using split_suffix_parts_join [OF sp] by simp
    show ?thesis
    proof (cases "length e + 1 < name_max")
      case False
      thus ?thesis using whole Some \<open>\<not> length name \<le> name_max\<close> by (auto simp: truncate_component_def split: if_splits)
    next
      case True
      let ?b = "name_max - (length e + 1)"
      let ?t = "truncate_bytes stem ?b @ ''.'' @ e"
      have t: "truncate_component name ext = ?t"
        using Some sp True False by (auto simp: truncate_component_def split: if_splits)
      have len: "length ?t \<le> name_max" using truncate_bytes_length [of stem ?b] True by simp
      have ts: "text_ok stem" using assms(1) text_ok_append [of stem] name by simp
      have "2 < length ?t"
      proof (cases "3 \<le> ?b")
        case True
        hence "?b \<le> length (truncate_bytes stem ?b) + 3"
          using False name by (intro truncate_bytes_long ts) auto
        thus ?thesis using \<open>length e + 1 < name_max\<close> by (simp add: name_max_def)
      next
        case False
        thus ?thesis by (simp add: name_max_def)
      qed
      moreover have "set ?t \<subseteq> set name" using truncate_bytes_set [of stem ?b] name by auto
      ultimately have "name_ok ?t" by (metis name_ok_prefix assms(2))
      thus ?thesis using t len by simp
    qed
  qed
qed

subsection \<open>Candidates of different ranks differ\<close>

lemma rank_suffix_tail: "a @ rank_suffix k = b @ rank_suffix k' \<Longrightarrow> k = k'"
proof -
  assume "a @ rank_suffix k = b @ rank_suffix k'"
  hence "rev (a @ rank_suffix k) = rev (b @ rank_suffix k')" by simp
  hence r: "rev (dec k) @ ''( '' @ rev a = rev (dec k') @ ''( '' @ rev b" by (simp add: rank_suffix_def)
  have paren: "\<not> is_digit_char (CHR ''('')" by (simp add: is_digit_char_def)
  have tw: "takeWhile is_digit_char (rev (dec k) @ ''( '' @ x) = rev (dec k)" for k x
    using dec_digits paren by (subst takeWhile_append2) auto
  have "rev (dec k) = rev (dec k')" using arg_cong [OF r, of "takeWhile is_digit_char"] by (simp only: tw)
  thus ?thesis by (simp add: dec_inj)
qed

lemma suffix_candidate_shape:
  "\<exists>stem ext_part. \<forall>k. \<exists>t. suffix_candidate name k = t @ rank_suffix k @ ext_part \<and> set t \<subseteq> set stem \<and>
     name = stem @ ext_part"
proof -
  obtain stem ext where sp: "split_suffix_parts name = (stem, ext)" by fastforce
  have "suffix_candidate name k = truncate_bytes stem (name_max - (length (rank_suffix k) +
      length (case ext of Some e \<Rightarrow> ''.'' @ e | None \<Rightarrow> []))) @ rank_suffix k @ (case ext of Some e \<Rightarrow> ''.'' @ e | None \<Rightarrow> [])" for k
    by (simp add: suffix_candidate_def sp Let_def)
  thus ?thesis using split_suffix_parts_join [OF sp] truncate_bytes_set by blast
qed

lemma suffix_candidate_inj: "suffix_candidate name k = suffix_candidate name k' \<Longrightarrow> k = k'"
proof -
  assume eq: "suffix_candidate name k = suffix_candidate name k'"
  obtain e where "\<forall>k. \<exists>t. suffix_candidate name k = t @ rank_suffix k @ e"
    using suffix_candidate_shape [of name] by blast
  then obtain t t' where "suffix_candidate name k = (t @ rank_suffix k) @ e" "suffix_candidate name k' = (t' @ rank_suffix k') @ e"
    by (metis append_assoc)
  with eq have "t @ rank_suffix k = t' @ rank_suffix k'" by simp
  thus ?thesis by (rule rank_suffix_tail)
qed

lemma rank_suffix_no_slash: "CHR ''/'' \<notin> set (rank_suffix k)"
proof -
  have "\<not> is_digit_char (CHR ''/'')" by (simp add: is_digit_char_def)
  thus ?thesis using dec_digits [of "CHR ''/''" k] by (auto simp: rank_suffix_def)
qed

lemma suffix_candidate_ok: "name_ok name \<Longrightarrow> name_ok (suffix_candidate name k)"
proof -
  assume ok: "name_ok name"
  obtain stem e t where s: "suffix_candidate name k = t @ rank_suffix k @ e" "set t \<subseteq> set stem" "name = stem @ e"
    using suffix_candidate_shape [of name] by blast
  have "CHR ''/'' \<notin> set (suffix_candidate name k)" using s ok rank_suffix_no_slash by (auto simp: name_ok_def)
  moreover have "2 < length (suffix_candidate name k)" using s by (simp add: rank_suffix_def)
  ultimately show ?thesis by (auto simp: name_ok_def)
qed

end
