(* ===== verification/Tree.thy ===== *)
theory Tree
  imports Tree_Names "HOL-Library.AList" "HOL-Library.List_Lexorder"
begin

text \<open>
  The virtual tree, musefs-core/src/tree.rs: the inode allocator, the node and child maps, insertion
  of a rendered path, removal with pruning of emptied directories, the queries of the filesystem
  layer and the walks of the incremental refresh. A hash map is an association list (the code reads
  it only by key, or in an order that does not matter); an ordered map is one whose keys are kept
  sorted. The Unicode lowercase of the standard library is the parameter lower.
  An operation that would panic, or walk a cyclic parent chain forever, answers None.
\<close>

subsection \<open>Maps\<close>

abbreviation hput :: "'k \<Rightarrow> 'v \<Rightarrow> ('k \<times> 'v) list \<Rightarrow> ('k \<times> 'v) list" where "hput \<equiv> AList.update"
abbreviation hdel :: "'k \<Rightarrow> ('k \<times> 'v) list \<Rightarrow> ('k \<times> 'v) list" where "hdel \<equiv> AList.delete"

fun ord_insert :: "'k::linorder \<Rightarrow> 'v \<Rightarrow> ('k \<times> 'v) list \<Rightarrow> ('k \<times> 'v) list" where
  "ord_insert k v [] = [(k, v)]"
| "ord_insert k v (p # ps) =
     (if k < fst p then (k, v) # p # ps else if k = fst p then (k, v) # ps else p # ord_insert k v ps)"

definition or_default :: "('k \<times> 'a list) list \<Rightarrow> 'k \<Rightarrow> 'a list" where
  "or_default m k = (case map_of m k of Some b \<Rightarrow> b | None \<Rightarrow> [])"

type_synonym folding = "string \<Rightarrow> string"

subsection \<open>State\<close>

datatype rebuild_error = MissingRenderedPath int | TestInjected

record inode_allocator =
  a_paths :: "(string \<times> nat) list"
  a_next :: nat
  a_fold_keys :: bool

datatype node_kind = Dir | File int

record tnode =
  n_parent :: nat
  n_name :: string
  n_rendered :: string
  n_kind :: node_kind

record vtree =
  nodes :: "(nat \<times> tnode) list"
  children :: "(nat \<times> (string \<times> nat) list) list"
  rendered_children :: "(nat \<times> (string \<times> (string \<times> nat) list) list) list"
  folded_children :: "(nat \<times> (string \<times> nat) list) list"
  track_to_inode :: "(int \<times> nat) list"
  case_insensitive :: bool

definition root_ino :: nat where "root_ino = 1"

definition node :: "vtree \<Rightarrow> nat \<Rightarrow> tnode option" where "node t i = map_of (nodes t) i"

definition node_kind_of :: "vtree \<Rightarrow> nat \<Rightarrow> node_kind option" where
  "node_kind_of t i = map_option n_kind (node t i)"

subsection \<open>The allocator\<close>

definition alloc_new :: "bool \<Rightarrow> inode_allocator" where
  "alloc_new ci = \<lparr>a_paths = [([], root_ino)], a_next = 2, a_fold_keys = ci\<rparr>"

definition a_key :: "folding \<Rightarrow> inode_allocator \<Rightarrow> string \<Rightarrow> string" where
  "a_key lower a path = (if a_fold_keys a then lower path else path)"

definition intern :: "folding \<Rightarrow> inode_allocator \<Rightarrow> string \<Rightarrow> nat \<times> inode_allocator" where
  "intern lower a path =
     (case map_of (a_paths a) (a_key lower a path) of
        Some ino \<Rightarrow> (ino, a)
      | None \<Rightarrow> (a_next a, a\<lparr>a_next := a_next a + 1, a_paths := hput (a_key lower a path) (a_next a) (a_paths a)\<rparr>))"

definition prune_retired :: "inode_allocator \<Rightarrow> vtree \<Rightarrow> inode_allocator" where
  "prune_retired a t =
     (if length (a_paths a) \<le> 2 * length (nodes t) then a
      else a\<lparr>a_paths := filter (\<lambda>e. node t (snd e) \<noteq> None) (a_paths a)\<rparr>)"

subsection \<open>Queries\<close>

definition parent_of :: "vtree \<Rightarrow> nat \<Rightarrow> nat option" where
  "parent_of t i = map_option n_parent (node t i)"

definition lookup :: "folding \<Rightarrow> vtree \<Rightarrow> nat \<Rightarrow> string \<Rightarrow> nat option" where
  "lookup lower t parent name =
     (if case_insensitive t
      then Option.bind (map_of (folded_children t) parent) (\<lambda>b. map_of b (lower name))
      else Option.bind (map_of (children t) parent) (\<lambda>c. map_of c name))"

definition is_dir :: "vtree \<Rightarrow> nat \<Rightarrow> bool" where
  "is_dir t i \<longleftrightarrow> node_kind_of t i = Some Dir"

definition track_id :: "vtree \<Rightarrow> nat \<Rightarrow> int option" where
  "track_id t i = (case node_kind_of t i of Some (File tid) \<Rightarrow> Some tid | _ \<Rightarrow> None)"

definition inode_of_track :: "vtree \<Rightarrow> int \<Rightarrow> nat option" where
  "inode_of_track t tid = map_of (track_to_inode t) tid"

definition entry_counts :: "vtree \<Rightarrow> nat \<times> nat" where
  "entry_counts t =
     (length (track_to_inode t), length (filter (\<lambda>e. n_kind (snd e) = Dir) (nodes t)) - 1)"

definition tree_track_ids :: "vtree \<Rightarrow> int set" where
  "tree_track_ids t =
     set (List.map_filter (\<lambda>e. case n_kind (snd e) of File tid \<Rightarrow> Some tid | Dir \<Rightarrow> None) (nodes t))"

definition rendered_key :: "folding \<Rightarrow> vtree \<Rightarrow> string \<Rightarrow> string" where
  "rendered_key lower t r = (if case_insensitive t then lower r else r)"

definition rendered_group :: "folding \<Rightarrow> vtree \<Rightarrow> nat \<Rightarrow> string \<Rightarrow> (string \<times> nat) list option" where
  "rendered_group lower t dir r =
     Option.bind (map_of (rendered_children t) dir) (\<lambda>kids. map_of kids (rendered_key lower t r))"

definition dir_child_named :: "folding \<Rightarrow> vtree \<Rightarrow> nat \<Rightarrow> string \<Rightarrow> nat option" where
  "dir_child_named lower t dir r =
     Option.bind (rendered_group lower t dir r) (\<lambda>g. find (is_dir t) (map snd g))"

definition children_by_rendered :: "folding \<Rightarrow> vtree \<Rightarrow> nat \<Rightarrow> string \<Rightarrow> nat list" where
  "children_by_rendered lower t dir r =
     (case rendered_group lower t dir r of None \<Rightarrow> [] | Some g \<Rightarrow> map snd g)"

text \<open>The path from the root, by the parent chain.\<close>

partial_function (option) path_up :: "vtree \<Rightarrow> nat \<Rightarrow> string list \<Rightarrow> string list option" where
  "path_up t cur parts =
     (if cur = root_ino then Some parts
      else case node t cur of
             None \<Rightarrow> Some parts
           | Some n \<Rightarrow> path_up t (n_parent n) (n_name n # parts))"

fun join_slash :: "string list \<Rightarrow> string" where
  "join_slash [] = []"
| "join_slash [w] = w"
| "join_slash (w # v # ws) = w @ ''/'' @ join_slash (v # ws)"

definition path_of :: "vtree \<Rightarrow> nat \<Rightarrow> string option" where
  "path_of t ino = (if ino = root_ino then Some [] else map_option join_slash (path_up t ino []))"

subsection \<open>Taken names\<close>

definition is_reserved_root_name :: "folding \<Rightarrow> vtree \<Rightarrow> string \<Rightarrow> bool" where
  "is_reserved_root_name lower t name \<longleftrightarrow>
     (if case_insensitive t then lower name else name) \<in> set reserved_root_names"

definition taken :: "folding \<Rightarrow> vtree \<Rightarrow> nat \<Rightarrow> string \<Rightarrow> bool" where
  "taken lower t dir name \<longleftrightarrow>
     (if dir = root_ino \<and> is_reserved_root_name lower t name then True
      else if case_insensitive t
           then (case map_of (folded_children t) dir of Some b \<Rightarrow> map_of b (lower name) \<noteq> None | None \<Rightarrow> False)
           else (case map_of (children t) dir of Some c \<Rightarrow> map_of c name \<noteq> None | None \<Rightarrow> False))"

text \<open>
  The rank counter is a u32: a search that exhausts it would panic.
\<close>

function free_rank :: "folding \<Rightarrow> vtree \<Rightarrow> nat \<Rightarrow> string \<Rightarrow> nat \<Rightarrow> string option" where
  "free_rank lower t dir name k =
     (if k \<ge> 2 ^ 32 then None
      else if \<not> taken lower t dir (suffix_candidate name k) then Some (suffix_candidate name k)
      else free_rank lower t dir name (k + 1))"
  by pat_completeness auto
termination by (relation "measure (\<lambda>(_, _, _, _, k). 2 ^ 32 - k)") auto

declare free_rank.simps [simp del]

definition disambiguate :: "folding \<Rightarrow> vtree \<Rightarrow> nat \<Rightarrow> string \<Rightarrow> string option" where
  "disambiguate lower t dir name = (if \<not> taken lower t dir name then Some name else free_rank lower t dir name 2)"

subsection \<open>Insertion\<close>

definition insert_folded_child :: "folding \<Rightarrow> vtree \<Rightarrow> nat \<Rightarrow> string \<Rightarrow> nat \<Rightarrow> vtree" where
  "insert_folded_child lower t parent name ino =
     (if \<not> case_insensitive t then t
      else t\<lparr>folded_children :=
        hput parent (hput (lower name) ino (or_default (folded_children t) parent)) (folded_children t)\<rparr>)"

definition remove_folded_child :: "folding \<Rightarrow> vtree \<Rightarrow> nat \<Rightarrow> string \<Rightarrow> vtree" where
  "remove_folded_child lower t parent name =
     (if \<not> case_insensitive t then t
      else case map_of (folded_children t) parent of
             None \<Rightarrow> t
           | Some bucket \<Rightarrow>
               let bucket = hdel (lower name) bucket
               in t\<lparr>folded_children :=
                    if bucket = [] then hdel parent (folded_children t) else hput parent bucket (folded_children t)\<rparr>)"

definition insert_rendered_child :: "folding \<Rightarrow> vtree \<Rightarrow> nat \<Rightarrow> string \<Rightarrow> string \<Rightarrow> nat \<Rightarrow> vtree" where
  "insert_rendered_child lower t parent r name ino =
     (let kids = or_default (rendered_children t) parent;
          key = rendered_key lower t r
      in t\<lparr>rendered_children :=
           hput parent (ord_insert key (ord_insert name ino (or_default kids key)) kids) (rendered_children t)\<rparr>)"

definition remove_rendered_child :: "folding \<Rightarrow> vtree \<Rightarrow> nat \<Rightarrow> string \<Rightarrow> string \<Rightarrow> vtree" where
  "remove_rendered_child lower t parent r name =
     (case map_of (rendered_children t) parent of
        None \<Rightarrow> t
      | Some kids \<Rightarrow>
          (let key = rendered_key lower t r in
           case map_of kids key of
             None \<Rightarrow> t
           | Some g \<Rightarrow>
               let g = hdel name g
               in t\<lparr>rendered_children :=
                    hput parent (if g = [] then hdel key kids else ord_insert key g kids) (rendered_children t)\<rparr>))"

text \<open>The unwrapped insertion into the child map of an existing directory.\<close>

definition add_child :: "vtree \<Rightarrow> nat \<Rightarrow> string \<Rightarrow> nat \<Rightarrow> vtree option" where
  "add_child t dir name ino =
     map_option (\<lambda>kids. t\<lparr>children := hput dir (ord_insert name ino kids) (children t)\<rparr>) (map_of (children t) dir)"

definition drop_child :: "vtree \<Rightarrow> nat \<Rightarrow> string \<Rightarrow> vtree" where
  "drop_child t dir name =
     (case map_of (children t) dir of
        Some kids \<Rightarrow> t\<lparr>children := hput dir (hdel name kids) (children t)\<rparr>
      | None \<Rightarrow> t)"

definition intern_names :: "folding \<Rightarrow> vtree \<Rightarrow> nat \<Rightarrow> string \<Rightarrow> (string \<times> string) option" where
  "intern_names lower t dir r = map_option (\<lambda>unique. (unique, r)) (disambiguate lower t dir r)"

definition ensure_dir ::
  "folding \<Rightarrow> vtree \<Rightarrow> inode_allocator \<Rightarrow> nat \<Rightarrow> string \<Rightarrow> string \<Rightarrow>
     (nat \<times> string \<times> vtree \<times> inode_allocator) option" where
  "ensure_dir lower t a parent parent_path raw =
     (let name = truncate_component raw False in
      case dir_child_named lower t parent name of
        Some existing \<Rightarrow>
          map_option (\<lambda>n. (existing, join_path parent_path (n_name n), t, a)) (node t existing)
      | None \<Rightarrow>
          Option.bind (intern_names lower t parent name) (\<lambda>(unique, r).
          let full = join_path parent_path unique in
          case intern lower a full of (ino, a) \<Rightarrow>
          let t = t\<lparr>nodes := hput ino \<lparr>n_parent = parent, n_name = unique, n_rendered = r, n_kind = Dir\<rparr> (nodes t),
                    children := hput ino [] (children t),
                    rendered_children := hput ino [] (rendered_children t)\<rparr>
          in map_option (\<lambda>t.
               (ino, full, insert_folded_child lower (insert_rendered_child lower t parent r unique ino) parent unique ino, a))
             (add_child t parent unique ino)))"

fun ensure_dirs ::
  "folding \<Rightarrow> vtree \<Rightarrow> inode_allocator \<Rightarrow> nat \<Rightarrow> string \<Rightarrow> string list \<Rightarrow>
     (nat \<times> string \<times> vtree \<times> inode_allocator) option" where
  "ensure_dirs lower t a dir dir_path [] = Some (dir, dir_path, t, a)"
| "ensure_dirs lower t a dir dir_path (c # cs) =
     Option.bind (ensure_dir lower t a dir dir_path c) (\<lambda>(dir, dir_path, t, a). ensure_dirs lower t a dir dir_path cs)"

definition insert_file ::
  "folding \<Rightarrow> vtree \<Rightarrow> inode_allocator \<Rightarrow> int \<Rightarrow> string \<Rightarrow> (vtree \<times> inode_allocator) option" where
  "insert_file lower t a tid path =
     (let comps = path_components path in
      if comps = [] then Some (t, a)
      else Option.bind (ensure_dirs lower t a root_ino [] (butlast comps)) (\<lambda>(dir, dir_path, t, a).
           let raw_name = truncate_component (last comps) True in
           Option.bind (intern_names lower t dir raw_name) (\<lambda>(name, r).
           case intern lower a (join_path dir_path name) of (ino, a) \<Rightarrow>
           let t = t\<lparr>track_to_inode := hput tid ino (track_to_inode t),
                     nodes := hput ino \<lparr>n_parent = dir, n_name = name, n_rendered = r, n_kind = File tid\<rparr> (nodes t)\<rparr>
           in map_option (\<lambda>t.
                (insert_folded_child lower (insert_rendered_child lower t dir r name ino) dir name ino, a))
              (add_child t dir name ino))))"

definition empty_tree :: "bool \<Rightarrow> vtree" where
  "empty_tree ci = \<lparr>nodes = [(root_ino, \<lparr>n_parent = root_ino, n_name = [], n_rendered = [], n_kind = Dir\<rparr>)],
     children = [(root_ino, [])], rendered_children = [(root_ino, [])], folded_children = [],
     track_to_inode = [], case_insensitive = ci\<rparr>"

fun insert_entries ::
  "folding \<Rightarrow> vtree \<Rightarrow> inode_allocator \<Rightarrow> (int \<times> string) list \<Rightarrow> (vtree \<times> inode_allocator) option" where
  "insert_entries lower t a [] = Some (t, a)"
| "insert_entries lower t a ((tid, path) # es) =
     Option.bind (insert_file lower t a tid path) (\<lambda>(t, a). insert_entries lower t a es)"

definition build_with_ci ::
  "folding \<Rightarrow> (int \<times> string) list \<Rightarrow> inode_allocator \<Rightarrow> bool \<Rightarrow> (vtree \<times> inode_allocator) option" where
  "build_with_ci lower entries a ci = insert_entries lower (empty_tree ci) a entries"

subsection \<open>Removal\<close>

text \<open>Unlinking one node from its parent's three child maps.\<close>

definition unlink :: "folding \<Rightarrow> vtree \<Rightarrow> nat \<Rightarrow> string \<Rightarrow> string \<Rightarrow> vtree" where
  "unlink lower t parent name r =
     remove_folded_child lower (remove_rendered_child lower (drop_child t parent name) parent r name) parent name"

definition drop_dir :: "vtree \<Rightarrow> nat \<Rightarrow> vtree" where
  "drop_dir t dir = t\<lparr>children := hdel dir (children t), rendered_children := hdel dir (rendered_children t),
     folded_children := hdel dir (folded_children t), nodes := hdel dir (nodes t)\<rparr>"

lemma hdel_length: "map_of m k = Some v \<Longrightarrow> length (hdel k m) < length m"
  by (induction m) (auto intro: le_imp_less_Suc AList.length_delete_le split: if_splits)

lemma unlink_nodes [simp]: "nodes (unlink lower t p n r) = nodes t"
  by (simp add: unlink_def remove_folded_child_def remove_rendered_child_def drop_child_def Let_def
      split: option.splits)

function prune_empty_dirs_upward ::
  "folding \<Rightarrow> vtree \<Rightarrow> nat \<Rightarrow> (string \<times> string) option \<Rightarrow> nat \<times> (string \<times> string) option \<times> vtree" where
  "prune_empty_dirs_upward lower t dir last_pruned =
     (if dir \<noteq> root_ino \<and> or_default (children t) dir = [] then
        (case node t dir of
           None \<Rightarrow> (dir, last_pruned, t)
         | Some n \<Rightarrow>
             prune_empty_dirs_upward lower (unlink lower (drop_dir t dir) (n_parent n) (n_name n) (n_rendered n))
               (n_parent n) (Some (n_name n, n_rendered n)))
      else (dir, last_pruned, t))"
  by pat_completeness auto
termination
  by (relation "measure (\<lambda>(_, t, _, _). length (nodes t))") (auto simp: drop_dir_def node_def hdel_length)

declare prune_empty_dirs_upward.simps [simp del]

definition remove_track ::
  "folding \<Rightarrow> vtree \<Rightarrow> int \<Rightarrow> (nat \<times> (string \<times> string) option) option \<times> vtree" where
  "remove_track lower t tid =
     (case map_of (track_to_inode t) tid of
        None \<Rightarrow> (None, t)
      | Some ino \<Rightarrow>
          let t = t\<lparr>track_to_inode := hdel tid (track_to_inode t)\<rparr> in
          case node t ino of
            None \<Rightarrow> (None, t)
          | Some n \<Rightarrow>
              let t = unlink lower (t\<lparr>nodes := hdel ino (nodes t)\<rparr>) (n_parent n) (n_name n) (n_rendered n) in
              case prune_empty_dirs_upward lower t (n_parent n) None of
                (surv, pruned, t) \<Rightarrow> (Some (surv, pruned), t))"

fun remove_tracks :: "folding \<Rightarrow> vtree \<Rightarrow> int list \<Rightarrow> vtree" where
  "remove_tracks lower t [] = t"
| "remove_tracks lower t (i # is) = remove_tracks lower (snd (remove_track lower t i)) is"

end
