(* ===== verification/Tree_Inv.thy ===== *)
theory Tree_Inv
  imports Tree
begin

text \<open>
  The invariant of the virtual tree and of its inode allocator, and its preservation by insertion
  and removal. The maps of the tree are read through three lookup functions; the invariant says that
  each of them is determined by the node map, that every node hangs off the root by a chain of
  directories, and that the allocator hands every such chain its own inode.
\<close>

subsection \<open>Case folding\<close>

text \<open>
  What the code relies on of Unicode lowercasing: the characters around a slash do not influence
  each other, a slash is neither introduced nor lost, only the empty string lowers to the empty one,
  and candidates of different ranks stay different.
\<close>

locale case_folding =
  fixes lower :: "string \<Rightarrow> string"
  assumes lower_join: "lower (a @ ''/'' @ b) = lower a @ ''/'' @ lower b"
    and lower_slash: "CHR ''/'' \<in> set (lower s) \<longleftrightarrow> CHR ''/'' \<in> set s"
    and lower_Nil: "lower s = [] \<longleftrightarrow> s = []"
    and lower_rank: "lower (a @ rank_suffix k @ e) = lower (b @ rank_suffix k' @ e) \<Longrightarrow> k = k'"

lemma ascii_lower_slash: "ascii_lower_char c = CHR ''/'' \<longleftrightarrow> c = CHR ''/''"
proof (cases "65 \<le> (of_char c :: nat) \<and> (of_char c :: nat) \<le> 90")
  case True
  have "of_char (ascii_lower_char c) = (of_char c :: nat) + 32" by (rule lower_code [OF True])
  moreover have "(of_char (CHR ''/'') :: nat) = 47" by simp
  ultimately show ?thesis using True by auto
next
  case False
  thus ?thesis by (auto simp: ascii_lower_char_def Let_def)
qed

lemma ascii_lower_digits: "to_ascii_lowercase (dec n) = dec n"
proof -
  have "ascii_lower_char c = c" if "c \<in> set (dec n)" for c
    using dec_digits [OF that] by (simp add: ascii_lower_char_def is_digit_char_def Let_def)
  hence "map ascii_lower_char (dec n) = map (\<lambda>c. c) (dec n)" by (intro map_cong) auto
  thus ?thesis by (simp add: to_ascii_lowercase_def)
qed

lemma ascii_lower_rank: "to_ascii_lowercase (rank_suffix k) = rank_suffix k"
  using ascii_lower_digits [of k]
  by (simp add: rank_suffix_def to_ascii_lowercase_def ascii_lower_char_def Let_def)

interpretation ascii_fold: case_folding to_ascii_lowercase
proof
  fix a b e s :: string and k k' :: nat
  show "to_ascii_lowercase (a @ ''/'' @ b) = to_ascii_lowercase a @ ''/'' @ to_ascii_lowercase b"
    by (simp add: to_ascii_lowercase_def ascii_lower_char_def Let_def)
  show "CHR ''/'' \<in> set (to_ascii_lowercase s) \<longleftrightarrow> CHR ''/'' \<in> set s"
    by (auto simp: to_ascii_lowercase_def ascii_lower_slash eq_commute [of "CHR ''/''"] image_iff)
  show "to_ascii_lowercase s = [] \<longleftrightarrow> s = []" by (simp add: to_ascii_lowercase_def)
  assume "to_ascii_lowercase (a @ rank_suffix k @ e) = to_ascii_lowercase (b @ rank_suffix k' @ e)"
  hence "to_ascii_lowercase a @ rank_suffix k = to_ascii_lowercase b @ rank_suffix k'"
    using ascii_lower_rank by (simp add: to_ascii_lowercase_def)
  thus "k = k'" by (rule rank_suffix_tail)
qed

subsection \<open>Reading the maps\<close>

definition kid :: "vtree \<Rightarrow> nat \<Rightarrow> string \<Rightarrow> nat option" where
  "kid t p n = map_of (or_default (children t) p) n"

definition rkid :: "vtree \<Rightarrow> nat \<Rightarrow> string \<Rightarrow> string \<Rightarrow> nat option" where
  "rkid t p k n = map_of (or_default (or_default (rendered_children t) p) k) n"

definition fkid :: "vtree \<Rightarrow> nat \<Rightarrow> string \<Rightarrow> nat option" where
  "fkid t p f = map_of (or_default (folded_children t) p) f"

lemma map_of_hput [simp]: "map_of (hput k v m) = (map_of m)(k \<mapsto> v)"
  by (rule update_conv')

lemma map_of_hdel [simp]: "map_of (hdel k m) = (map_of m)(k := None)"
  by (rule delete_conv')

lemma map_of_ord_insert [simp]: "map_of (ord_insert k v m) = (map_of m)(k \<mapsto> v)"
  by (induction m) (auto simp: fun_eq_iff)

lemma or_default_hput [simp]: "or_default (hput k v m) j = (if j = k then v else or_default m j)"
  by (simp add: or_default_def)

lemma or_default_ord_insert [simp]: "or_default (ord_insert k v m) j = (if j = k then v else or_default m j)"
  by (simp add: or_default_def)

lemma or_default_hdel [simp]: "or_default (hdel k m) j = (if j = k then [] else or_default m j)"
  by (simp add: or_default_def)

lemma or_default_Some: "map_of m k = Some b \<Longrightarrow> or_default m k = b"
  by (simp add: or_default_def)

lemma or_default_None: "map_of m k = None \<Longrightarrow> or_default m k = []"
  by (simp add: or_default_def)

lemma hdel_NilD: "hdel k m = [] \<Longrightarrow> x \<noteq> k \<Longrightarrow> map_of m x = None"
  using map_of_hdel [of k m] by (metis fun_upd_other map_of.simps(1))

named_theorems tree_fx "effects of the map updates on the lookup functions"

lemma node_update [tree_fx]: "node (t\<lparr>nodes := hput i nd (nodes t)\<rparr>) = (node t)(i \<mapsto> nd)"
  by (simp add: node_def fun_eq_iff)

lemma node_delete [tree_fx]: "node (t\<lparr>nodes := hdel i (nodes t)\<rparr>) = (node t)(i := None)"
  by (simp add: node_def fun_eq_iff)

lemma insert_folded_fx [tree_fx]:
  "fkid (insert_folded_child lower t p n i) =
     (\<lambda>q f. if case_insensitive t \<and> q = p \<and> f = lower n then Some i else fkid t q f)"
  "nodes (insert_folded_child lower t p n i) = nodes t"
  "children (insert_folded_child lower t p n i) = children t"
  "rendered_children (insert_folded_child lower t p n i) = rendered_children t"
  "track_to_inode (insert_folded_child lower t p n i) = track_to_inode t"
  "case_insensitive (insert_folded_child lower t p n i) = case_insensitive t"
  by (auto simp: insert_folded_child_def fkid_def fun_eq_iff)

lemma insert_rendered_fx [tree_fx]:
  "rkid (insert_rendered_child lower t p r n i) =
     (\<lambda>q k m. if q = p \<and> k = rendered_key lower t r \<and> m = n then Some i else rkid t q k m)"
  "nodes (insert_rendered_child lower t p r n i) = nodes t"
  "children (insert_rendered_child lower t p r n i) = children t"
  "folded_children (insert_rendered_child lower t p r n i) = folded_children t"
  "track_to_inode (insert_rendered_child lower t p r n i) = track_to_inode t"
  "case_insensitive (insert_rendered_child lower t p r n i) = case_insensitive t"
  "map_of (rendered_children (insert_rendered_child lower t p r n i)) q \<noteq> None \<longleftrightarrow>
     q = p \<or> map_of (rendered_children t) q \<noteq> None"
  by (auto simp: insert_rendered_child_def rkid_def fun_eq_iff Let_def)

lemma add_child_fx:
  assumes "add_child t p n i = Some t'"
  shows "kid t' = (\<lambda>q m. if q = p \<and> m = n then Some i else kid t q m)"
    "nodes t' = nodes t" "rendered_children t' = rendered_children t" "folded_children t' = folded_children t"
    "track_to_inode t' = track_to_inode t" "case_insensitive t' = case_insensitive t"
    "map_of (children t') q \<noteq> None \<longleftrightarrow> map_of (children t) q \<noteq> None"
  using assms by (auto simp: add_child_def kid_def fun_eq_iff or_default_Some split: if_splits)

lemma drop_child_fx [tree_fx]:
  "kid (drop_child t p n) = (\<lambda>q m. if q = p \<and> m = n then None else kid t q m)"
  "nodes (drop_child t p n) = nodes t"
  "rendered_children (drop_child t p n) = rendered_children t"
  "folded_children (drop_child t p n) = folded_children t"
  "track_to_inode (drop_child t p n) = track_to_inode t"
  "case_insensitive (drop_child t p n) = case_insensitive t"
  "map_of (children (drop_child t p n)) q \<noteq> None \<longleftrightarrow> map_of (children t) q \<noteq> None"
  by (auto simp: drop_child_def kid_def fun_eq_iff or_default_Some or_default_None split: option.splits)

lemma remove_rendered_fx [tree_fx]:
  "rkid (remove_rendered_child lower t p r n) =
     (\<lambda>q k m. if q = p \<and> k = rendered_key lower t r \<and> m = n then None else rkid t q k m)"
  "nodes (remove_rendered_child lower t p r n) = nodes t"
  "children (remove_rendered_child lower t p r n) = children t"
  "folded_children (remove_rendered_child lower t p r n) = folded_children t"
  "track_to_inode (remove_rendered_child lower t p r n) = track_to_inode t"
  "case_insensitive (remove_rendered_child lower t p r n) = case_insensitive t"
  "map_of (rendered_children (remove_rendered_child lower t p r n)) q \<noteq> None \<longleftrightarrow> map_of (rendered_children t) q \<noteq> None"
  by (auto simp: remove_rendered_child_def rkid_def fun_eq_iff Let_def or_default_Some or_default_None intro: hdel_NilD [symmetric] split: option.splits)

lemma remove_folded_fx [tree_fx]:
  "fkid (remove_folded_child lower t p n) =
     (\<lambda>q f. if case_insensitive t \<and> q = p \<and> f = lower n then None else fkid t q f)"
  "nodes (remove_folded_child lower t p n) = nodes t"
  "children (remove_folded_child lower t p n) = children t"
  "rendered_children (remove_folded_child lower t p n) = rendered_children t"
  "track_to_inode (remove_folded_child lower t p n) = track_to_inode t"
  "case_insensitive (remove_folded_child lower t p n) = case_insensitive t"
  by (auto simp: remove_folded_child_def fkid_def fun_eq_iff Let_def or_default_Some or_default_None intro: hdel_NilD [symmetric] split: option.splits)

text \<open>Ordered maps keep their keys sorted, hence distinct.\<close>

definition keys_sorted :: "('k::linorder \<times> 'v) list \<Rightarrow> bool" where
  "keys_sorted m \<longleftrightarrow> sorted_wrt (<) (map fst m)"

lemma keys_sorted_Nil [simp]: "keys_sorted []"
  by (simp add: keys_sorted_def)

lemma ord_insert_keys: "fst ` set (ord_insert k v m) = insert k (fst ` set m)"
  by (induction m) auto

lemma keys_sorted_ord_insert [intro]: "keys_sorted m \<Longrightarrow> keys_sorted (ord_insert k v m)"
proof (induction m)
  case (Cons p ps)
  have "fst ` set (ord_insert k v ps) = insert k (fst ` set ps)" by (rule ord_insert_keys)
  with Cons show ?case by (auto simp: keys_sorted_def)
qed (simp add: keys_sorted_def)

lemma keys_sorted_hdel [intro]: "keys_sorted m \<Longrightarrow> keys_sorted (hdel k m)"
  by (induction m) (auto simp: keys_sorted_def AList.delete_eq)

lemma or_default_sorted: "\<forall>p. keys_sorted (or_default m p) \<Longrightarrow> map_of m p = Some k \<Longrightarrow> keys_sorted k"
  by (metis or_default_Some)

lemma keys_sorted_distinct: "keys_sorted m \<Longrightarrow> distinct (map fst m)"
  by (auto simp: keys_sorted_def strict_sorted_iff)

definition ord_ok :: "vtree \<Rightarrow> bool" where
  "ord_ok t \<longleftrightarrow> (\<forall>p. keys_sorted (or_default (children t) p)) \<and>
     (\<forall>p k. keys_sorted (or_default (or_default (rendered_children t) p) k))"

lemma ord_ok_insert_folded: "ord_ok (insert_folded_child lower t p n i) = ord_ok t"
  by (simp add: ord_ok_def tree_fx)

lemma ord_ok_remove_folded: "ord_ok (remove_folded_child lower t p n) = ord_ok t"
  by (simp add: ord_ok_def tree_fx)

lemma ord_ok_insert_rendered: "ord_ok t \<Longrightarrow> ord_ok (insert_rendered_child lower t p r n i)"
  by (auto simp: ord_ok_def insert_rendered_child_def Let_def)

lemma ord_ok_remove_rendered: "ord_ok t \<Longrightarrow> ord_ok (remove_rendered_child lower t p r n)"
  unfolding ord_ok_def remove_rendered_child_def Let_def
  by (auto simp: or_default_def keys_sorted_hdel split: option.splits) 

lemma ord_ok_add_child: "ord_ok t \<Longrightarrow> add_child t p n i = Some t' \<Longrightarrow> ord_ok t'"
  using or_default_sorted [of "children t" p] unfolding ord_ok_def add_child_def by auto

lemma ord_ok_drop_child: "ord_ok t \<Longrightarrow> ord_ok (drop_child t p n)"
  unfolding ord_ok_def drop_child_def by (auto intro: keys_sorted_hdel or_default_sorted split: option.splits)

lemma ord_ok_link:
  "ord_ok t1 \<Longrightarrow> add_child t1 p n i = Some t2 \<Longrightarrow>
     ord_ok (insert_folded_child lower (insert_rendered_child lower t2 p r n i) p n i)"
  by (simp add: ord_ok_insert_folded ord_ok_insert_rendered ord_ok_add_child)

subsection \<open>The invariant\<close>

text \<open>The nodes on the way from the root to an inode.\<close>

inductive chain :: "vtree \<Rightarrow> nat \<Rightarrow> tnode list \<Rightarrow> bool" for t where
  root: "chain t root_ino []"
| step: "chain t p nds \<Longrightarrow> c \<noteq> root_ino \<Longrightarrow> node t c = Some nd \<Longrightarrow> n_parent nd = p \<Longrightarrow> chain t c (nds @ [nd])"

inductive_cases chain_NilE: "chain t c []"
inductive_cases chain_snocE: "chain t c (nds @ [nd])"

definition name_key :: "folding \<Rightarrow> bool \<Rightarrow> string \<Rightarrow> string" where
  "name_key lower ci s = (if ci then lower s else s)"

definition child_of :: "vtree \<Rightarrow> nat \<Rightarrow> nat \<Rightarrow> tnode \<Rightarrow> bool" where
  "child_of t p c nd \<longleftrightarrow> c \<noteq> root_ino \<and> node t c = Some nd \<and> n_parent nd = p"

definition root_ok :: "vtree \<Rightarrow> bool" where
  "root_ok t \<longleftrightarrow> node t root_ino = Some \<lparr>n_parent = root_ino, n_name = [], n_rendered = [], n_kind = Dir\<rparr>"

definition nodes_ok :: "folding \<Rightarrow> vtree \<Rightarrow> bool" where
  "nodes_ok lower t \<longleftrightarrow> (\<forall>p c nd. child_of t p c nd \<longrightarrow>
     is_dir t p \<and> name_ok (n_name nd) \<and> \<not> (p = root_ino \<and> is_reserved_root_name lower t (n_name nd)) \<and>
     (\<exists>nds. chain t c nds))"

definition index_ok :: "folding \<Rightarrow> vtree \<Rightarrow> bool" where
  "index_ok lower t \<longleftrightarrow>
     (\<forall>p n c. kid t p n = Some c \<longleftrightarrow> (\<exists>nd. child_of t p c nd \<and> n_name nd = n)) \<and>
     (\<forall>p k n c. rkid t p k n = Some c \<longleftrightarrow>
        (\<exists>nd. child_of t p c nd \<and> n_name nd = n \<and> rendered_key lower t (n_rendered nd) = k)) \<and>
     (\<forall>p f c. fkid t p f = Some c \<longleftrightarrow> case_insensitive t \<and> (\<exists>nd. child_of t p c nd \<and> lower (n_name nd) = f)) \<and>
     (\<forall>tid c. map_of (track_to_inode t) tid = Some c \<longleftrightarrow> (\<exists>nd. node t c = Some nd \<and> n_kind nd = File tid)) \<and>
     (\<forall>p. map_of (children t) p \<noteq> None \<longleftrightarrow> is_dir t p) \<and>
     (\<forall>p. map_of (rendered_children t) p \<noteq> None \<longleftrightarrow> is_dir t p)"

definition tree_ok :: "folding \<Rightarrow> vtree \<Rightarrow> bool" where
  "tree_ok lower t \<longleftrightarrow> root_ok t \<and> nodes_ok lower t \<and> index_ok lower t \<and> ord_ok t"

definition alloc_wf :: "inode_allocator \<Rightarrow> bool" where
  "alloc_wf a \<longleftrightarrow> distinct (map fst (a_paths a)) \<and> map_of (a_paths a) [] = Some root_ino \<and> root_ino < a_next a \<and>
     (\<forall>k i. map_of (a_paths a) k = Some i \<longrightarrow> i < a_next a) \<and>
     (\<forall>k k' i. map_of (a_paths a) k = Some i \<longrightarrow> map_of (a_paths a) k' = Some i \<longrightarrow> k = k')"

definition chain_path :: "tnode list \<Rightarrow> string" where
  "chain_path nds = join_slash (map n_name nds)"

definition alloc_ok :: "folding \<Rightarrow> vtree \<Rightarrow> inode_allocator \<Rightarrow> bool" where
  "alloc_ok lower t a \<longleftrightarrow> alloc_wf a \<and> a_fold_keys a = case_insensitive t \<and>
     (\<forall>c nds. chain t c nds \<longrightarrow> map_of (a_paths a) (a_key lower a (chain_path nds)) = Some c)"

lemma tree_ok_kid: "tree_ok lower t \<Longrightarrow> kid t p n = Some c \<longleftrightarrow> (\<exists>nd. child_of t p c nd \<and> n_name nd = n)"
  by (simp add: tree_ok_def index_ok_def)

lemma tree_ok_rkid: "tree_ok lower t \<Longrightarrow> rkid t p k n = Some c \<longleftrightarrow>
    (\<exists>nd. child_of t p c nd \<and> n_name nd = n \<and> rendered_key lower t (n_rendered nd) = k)"
  by (simp add: tree_ok_def index_ok_def)

lemma tree_ok_fkid: "tree_ok lower t \<Longrightarrow> fkid t p f = Some c \<longleftrightarrow>
    case_insensitive t \<and> (\<exists>nd. child_of t p c nd \<and> lower (n_name nd) = f)"
  by (simp add: tree_ok_def index_ok_def)

lemma tree_ok_track: "tree_ok lower t \<Longrightarrow> map_of (track_to_inode t) tid = Some c \<longleftrightarrow>
    (\<exists>nd. node t c = Some nd \<and> n_kind nd = File tid)"
  by (simp add: tree_ok_def index_ok_def)

lemma tree_ok_children: "tree_ok lower t \<Longrightarrow> map_of (children t) p \<noteq> None \<longleftrightarrow> is_dir t p"
  by (simp add: tree_ok_def index_ok_def)

lemma tree_ok_child: "tree_ok lower t \<Longrightarrow> child_of t p c nd \<Longrightarrow>
    is_dir t p \<and> name_ok (n_name nd) \<and> \<not> (p = root_ino \<and> is_reserved_root_name lower t (n_name nd)) \<and> (\<exists>nds. chain t c nds)"
  unfolding tree_ok_def nodes_ok_def by blast

lemma tree_ok_root: "tree_ok lower t \<Longrightarrow> is_dir t root_ino"
  by (simp add: tree_ok_def root_ok_def is_dir_def node_kind_of_def)

lemma taken_iff:
  assumes "tree_ok lower t"
  shows "taken lower t p n \<longleftrightarrow> (p = root_ino \<and> is_reserved_root_name lower t n) \<or>
    (\<exists>c nd. child_of t p c nd \<and> name_key lower (case_insensitive t) (n_name nd) = name_key lower (case_insensitive t) n)"
proof -
  have "taken lower t p n \<longleftrightarrow> (p = root_ino \<and> is_reserved_root_name lower t n) \<or>
      (if case_insensitive t then fkid t p (lower n) \<noteq> None else kid t p n \<noteq> None)"
    by (auto simp: taken_def fkid_def kid_def or_default_def split: option.splits)
  thus ?thesis using tree_ok_fkid [OF assms] tree_ok_kid [OF assms] by (auto simp: name_key_def)
qed

lemma children_unique:
  assumes "tree_ok lower t" "child_of t p c nd" "child_of t p c' nd'"
    "name_key lower (case_insensitive t) (n_name nd) = name_key lower (case_insensitive t) (n_name nd')"
  shows "c = c'"
proof (cases "case_insensitive t")
  case True
  hence "fkid t p (lower (n_name nd)) = Some c" "fkid t p (lower (n_name nd)) = Some c'"
    using assms by (auto simp: tree_ok_fkid [OF assms(1)] name_key_def)
  thus ?thesis by simp
next
  case False
  hence "kid t p (n_name nd) = Some c" "kid t p (n_name nd) = Some c'"
    using assms by (auto simp: tree_ok_kid [OF assms(1)] name_key_def)
  thus ?thesis by simp
qed

lemma chain_mono:
  assumes "chain t c nds" "\<And>i nd. node t i = Some nd \<Longrightarrow> node t' i = Some nd"
  shows "chain t' c nds"
  using assms(1) by (induction) (auto intro: chain.intros assms(2))

lemma chain_det: "chain t c nds \<Longrightarrow> chain t c nds' \<Longrightarrow> nds = nds'"
proof (induction arbitrary: nds' rule: chain.induct)
  case root
  thus ?case by (cases rule: chain.cases) auto
next
  case (step p nds c nd)
  from step.prems show ?case
  proof (cases rule: chain.cases)
    case root thus ?thesis using step.hyps by simp
  next
    case (step q ms nd')
    thus ?thesis using step.hyps \<open>node t c = Some nd\<close> \<open>n_parent nd = p\<close> by (auto intro: step.IH)
  qed
qed

lemma chain_node: "root_ok t \<Longrightarrow> chain t c nds \<Longrightarrow> node t c \<noteq> None"
  by (erule chain.cases) (auto simp: root_ok_def)

lemma tree_ok_chain: "tree_ok lower t \<Longrightarrow> node t c \<noteq> None \<Longrightarrow> \<exists>nds. chain t c nds"
proof -
  assume ok: "tree_ok lower t" and "node t c \<noteq> None"
  then obtain nd where "node t c = Some nd" by auto
  thus ?thesis
    using tree_ok_child [OF ok, of "n_parent nd" c nd] chain.root [of t]
    by (cases "c = root_ino") (auto simp: child_of_def)
qed

subsection \<open>Attaching a node\<close>

text \<open>The effect of insertion: one new node under an existing directory, entered in every index.\<close>

definition attached :: "folding \<Rightarrow> vtree \<Rightarrow> vtree \<Rightarrow> nat \<Rightarrow> tnode \<Rightarrow> bool" where
  "attached lower t t' i nd \<longleftrightarrow>
     case_insensitive t' = case_insensitive t \<and>
     node t' = (node t)(i \<mapsto> nd) \<and>
     kid t' = (\<lambda>q m. if q = n_parent nd \<and> m = n_name nd then Some i else kid t q m) \<and>
     rkid t' = (\<lambda>q k m. if q = n_parent nd \<and> k = rendered_key lower t (n_rendered nd) \<and> m = n_name nd
                       then Some i else rkid t q k m) \<and>
     fkid t' = (\<lambda>q f. if case_insensitive t \<and> q = n_parent nd \<and> f = lower (n_name nd) then Some i else fkid t q f) \<and>
     (\<forall>q. map_of (children t') q \<noteq> None \<longleftrightarrow> map_of (children t) q \<noteq> None \<or> q = i \<and> n_kind nd = Dir) \<and>
     (\<forall>q. map_of (rendered_children t') q \<noteq> None \<longleftrightarrow> map_of (rendered_children t) q \<noteq> None \<or> q = i \<and> n_kind nd = Dir) \<and>
     map_of (track_to_inode t') =
       (case n_kind nd of File tid \<Rightarrow> (map_of (track_to_inode t))(tid \<mapsto> i) | Dir \<Rightarrow> map_of (track_to_inode t)) \<and>
     (ord_ok t \<longrightarrow> ord_ok t')"

definition attachable :: "folding \<Rightarrow> vtree \<Rightarrow> nat \<Rightarrow> tnode \<Rightarrow> bool" where
  "attachable lower t i nd \<longleftrightarrow> node t i = None \<and> is_dir t (n_parent nd) \<and> name_ok (n_name nd) \<and>
     \<not> taken lower t (n_parent nd) (n_name nd) \<and>
     (\<forall>tid. n_kind nd = File tid \<longrightarrow> map_of (track_to_inode t) tid = None)"

lemma attached_child_of:
  assumes "tree_ok lower t" "attached lower t t' i nd" "attachable lower t i nd"
  shows "child_of t' q c d \<longleftrightarrow> child_of t q c d \<or> (q = n_parent nd \<and> c = i \<and> d = nd)"
proof -
  have "i \<noteq> root_ino" using assms(1,3) by (auto simp: attachable_def tree_ok_def root_ok_def)
  thus ?thesis using assms(2,3) by (auto simp: child_of_def attached_def attachable_def)
qed

lemma attached_kind:
  assumes "attached lower t t' i nd"
  shows "is_dir t' p \<longleftrightarrow> (if p = i then n_kind nd = Dir else is_dir t p)"
  using assms by (simp add: attached_def is_dir_def node_kind_of_def)

lemma attached_mono:
  "attached lower t t' i nd \<Longrightarrow> attachable lower t i nd \<Longrightarrow> node t j = Some d \<Longrightarrow> node t' j = Some d"
  by (auto simp: attached_def attachable_def)

lemma attached_nodes_ok:
  assumes ok: "tree_ok lower t" and at: "attached lower t t' i nd" "attachable lower t i nd"
  shows "nodes_ok lower t'"
  unfolding nodes_ok_def
proof (intro allI impI)
  fix p c d
  assume ch: "child_of t' p c d"
  have res: "is_reserved_root_name lower t' = is_reserved_root_name lower t"
    using at(1) by (auto simp: attached_def is_reserved_root_name_def fun_eq_iff)
  have dir: "is_dir t q \<Longrightarrow> is_dir t' q" for q
    using at(2) unfolding attached_kind [OF at(1)] by (auto simp: attachable_def is_dir_def node_kind_of_def)
  from ch consider "child_of t p c d" | "p = n_parent nd" "c = i" "d = nd"
    using attached_child_of [OF ok at] by blast
  thus "is_dir t' p \<and> name_ok (n_name d) \<and> \<not> (p = root_ino \<and> is_reserved_root_name lower t' (n_name d)) \<and>
     (\<exists>nds. chain t' c nds)"
  proof cases
    case 1
    thus ?thesis using tree_ok_child [OF ok 1] dir res chain_mono [OF _ attached_mono [OF at]] by metis
  next
    case 2
    have p: "is_dir t p" using at(2) 2 by (simp add: attachable_def)
    then obtain nds where "chain t p nds"
      using tree_ok_chain [OF ok, of p] by (auto simp: is_dir_def node_kind_of_def)
    hence "chain t' p nds" by (rule chain_mono) (rule attached_mono [OF at])
    hence "chain t' c (nds @ [d])" using ch by (auto simp: child_of_def intro: chain.step)
    moreover have "name_ok (n_name d)" "\<not> (p = root_ino \<and> is_reserved_root_name lower t' (n_name d))"
      using at(2) 2 res by (auto simp: attachable_def taken_def split: if_splits)
    ultimately show ?thesis using dir [OF p] by blast
  qed
qed

lemma attached_index_ok:
  assumes ok: "tree_ok lower t" and at: "attached lower t t' i nd" "attachable lower t i nd"
  shows "index_ok lower t'"
proof -
  note ch = attached_child_of [OF ok at]
  let ?p = "n_parent nd"
  have free: "\<not> taken lower t ?p (n_name nd)" using at(2) by (simp add: attachable_def)
  have ci: "case_insensitive t' = case_insensitive t" using at(1) by (simp add: attached_def)
  have rk: "rendered_key lower t' = rendered_key lower t" by (auto simp: rendered_key_def ci fun_eq_iff)
  have nochild: False if "child_of t ?p c d" "n_name d = n_name nd" for c d
    using free that unfolding taken_iff [OF ok] by metis
  have nofold: False if "case_insensitive t" "child_of t ?p c d" "lower (n_name d) = lower (n_name nd)" for c d
    using free that by (auto simp: taken_iff [OF ok] name_key_def)
  have "\<forall>p n c. kid t' p n = Some c \<longleftrightarrow> (\<exists>d. child_of t' p c d \<and> n_name d = n)"
    using at(1) nochild by (auto simp: ch attached_def tree_ok_kid [OF ok])
  moreover have "\<forall>p k n c. rkid t' p k n = Some c \<longleftrightarrow>
      (\<exists>d. child_of t' p c d \<and> n_name d = n \<and> rendered_key lower t' (n_rendered d) = k)"
    using at(1) nochild by (auto simp: ch rk attached_def tree_ok_rkid [OF ok])
  moreover have "\<forall>p f c. fkid t' p f = Some c \<longleftrightarrow> case_insensitive t' \<and> (\<exists>d. child_of t' p c d \<and> lower (n_name d) = f)"
    using at(1) nofold by (auto simp: ch ci attached_def tree_ok_fkid [OF ok])
  moreover have "map_of (track_to_inode t') tid = Some c \<longleftrightarrow> (\<exists>d. node t' c = Some d \<and> n_kind d = File tid)" for tid c
  proof (cases "n_kind nd")
    case Dir
    thus ?thesis using at by (auto simp: attached_def attachable_def tree_ok_track [OF ok])
  next
    case (File tid')
    have "map_of (track_to_inode t) tid' = None" using at(2) File by (simp add: attachable_def)
    hence "\<not> (node t j = Some d \<and> n_kind d = File tid')" for j d using tree_ok_track [OF ok, of tid' j] by auto
    thus ?thesis using at File by (auto simp: attached_def attachable_def tree_ok_track [OF ok])
  qed
  moreover have "\<forall>p. map_of (children t') p \<noteq> None \<longleftrightarrow> is_dir t' p" "\<forall>p. map_of (rendered_children t') p \<noteq> None \<longleftrightarrow> is_dir t' p"
  proof -
    have "\<not> is_dir t i" using at(2) by (auto simp: attachable_def is_dir_def node_kind_of_def)
    thus "\<forall>p. map_of (children t') p \<noteq> None \<longleftrightarrow> is_dir t' p" "\<forall>p. map_of (rendered_children t') p \<noteq> None \<longleftrightarrow> is_dir t' p"
      using at(1) ok unfolding attached_kind [OF at(1)] by (auto simp: attached_def tree_ok_def index_ok_def)
  qed
  ultimately show ?thesis unfolding index_ok_def by blast
qed

lemma attached_ok:
  assumes "tree_ok lower t" "attached lower t t' i nd" "attachable lower t i nd"
  shows "tree_ok lower t'"
proof -
  have "root_ok t'" using assms by (auto simp: tree_ok_def root_ok_def attached_def attachable_def)
  thus ?thesis using attached_nodes_ok [OF assms] attached_index_ok [OF assms] assms(1,2)
    by (simp add: tree_ok_def attached_def)
qed

lemma attached_chain:
  assumes ok: "tree_ok lower t" and at: "attached lower t t' i nd" "attachable lower t i nd"
    and "chain t' c ms"
  shows "chain t c ms \<or> c = i \<and> (\<exists>nds. chain t (n_parent nd) nds \<and> ms = nds @ [nd])"
  using assms(4)
proof induction
  case root
  thus ?case by (simp add: chain.root)
next
  case (step p nds c d)
  hence "child_of t' p c d" by (simp add: child_of_def)
  hence new: "child_of t p c d \<or> (p = n_parent nd \<and> c = i \<and> d = nd)" using attached_child_of [OF ok at] by simp
  have "\<not> is_dir t i" using at(2) by (auto simp: attachable_def is_dir_def node_kind_of_def)
  moreover have "is_dir t p"
    using new tree_ok_child [OF ok, of p c d] at(2) by (auto simp: attachable_def)
  ultimately have "chain t p nds" using step.IH by auto
  thus ?case using new by (auto simp: child_of_def intro: chain.step)
qed

subsection \<open>Paths and their keys\<close>

lemma join_slash_snoc: "join_slash (ws @ [w]) = (if ws = [] then w else join_slash ws @ ''/'' @ w)"
proof (induction ws rule: join_slash.induct)
  case (3 w' v ws)
  thus ?case by (cases ws) simp_all
qed simp_all

lemma join_slash_Nil: "\<forall>w\<in>set ws. w \<noteq> [] \<Longrightarrow> join_slash ws = [] \<longleftrightarrow> ws = []"
  by (cases ws rule: rev_cases) (auto simp: join_slash_snoc)

lemma join_path_inj:
  assumes "CHR ''/'' \<notin> set n" "CHR ''/'' \<notin> set n'" "join_path a n = join_path b n'"
  shows "a = b \<and> n = n'"
proof (cases "a = []"; cases "b = []")
  assume ab: "a \<noteq> []" "b \<noteq> []"
  hence eq: "a @ CHR ''/'' # n = b @ CHR ''/'' # n'" using assms(3) by (simp add: join_path_def)
  hence "rev n @ CHR ''/'' # rev a = rev n' @ CHR ''/'' # rev b"
    by (metis append_assoc append_Cons append_Nil rev.simps(2) rev_append)
  hence "takeWhile (\<lambda>c. c \<noteq> CHR ''/'') (rev n @ CHR ''/'' # rev a) = takeWhile (\<lambda>c. c \<noteq> CHR ''/'') (rev n' @ CHR ''/'' # rev b)"
    by simp
  moreover have "takeWhile (\<lambda>c. c \<noteq> CHR ''/'') (rev m @ CHR ''/'' # xs) = rev m" if "CHR ''/'' \<notin> set m" for m xs
    using that by (subst takeWhile_append2) auto
  ultimately have "n = n'" using assms by simp
  thus ?thesis using eq by simp
qed (use assms in \<open>auto simp: join_path_def\<close>)

definition names_ok :: "tnode list \<Rightarrow> bool" where
  "names_ok nds \<longleftrightarrow> (\<forall>nd\<in>set nds. name_ok (n_name nd))"

lemma chain_names: "tree_ok lower t \<Longrightarrow> chain t c nds \<Longrightarrow> names_ok nds"
proof -
  assume ok: "tree_ok lower t" and "chain t c nds"
  from this(2) show ?thesis
    by induction (use tree_ok_child [OF ok] in \<open>auto simp: names_ok_def child_of_def\<close>)
qed

lemma chain_path_snoc: "names_ok (nds @ [nd]) \<Longrightarrow> chain_path (nds @ [nd]) = join_path (chain_path nds) (n_name nd)"
  by (simp add: chain_path_def join_slash_snoc join_path_def join_slash_Nil names_ok_def name_ok_def)

lemma chain_path_Nil: "names_ok nds \<Longrightarrow> chain_path nds = [] \<longleftrightarrow> nds = []"
  by (simp add: chain_path_def join_slash_Nil names_ok_def name_ok_def)

lemma a_key_name_key: "a_key lower a = name_key lower (a_fold_keys a)"
  by (simp add: a_key_def name_key_def fun_eq_iff)

context case_folding
begin

lemma name_key_Nil: "name_key lower ci s = [] \<longleftrightarrow> s = []"
  by (simp add: name_key_def lower_Nil)

lemma name_key_join: "name_key lower ci (join_path p n) = join_path (name_key lower ci p) (name_key lower ci n)"
  using lower_join [of p n] by (simp add: name_key_def join_path_def lower_Nil)

lemma name_key_slash: "name_ok n \<Longrightarrow> CHR ''/'' \<notin> set (name_key lower ci n)"
  by (simp add: name_key_def name_ok_def lower_slash)

lemma intern_unused:
  assumes ok: "tree_ok lower t" "alloc_ok lower t a" and p: "chain t p nds" and n: "name_ok n" "\<not> taken lower t p n"
    and i: "map_of (a_paths a) (a_key lower a (join_path (chain_path nds) n)) = Some i"
  shows "node t i = None"
proof (rule ccontr)
  assume "node t i \<noteq> None"
  let ?k = "name_key lower (case_insensitive t)"
  have key: "a_key lower a = ?k" using ok(2) by (simp add: alloc_ok_def a_key_name_key)
  from \<open>node t i \<noteq> None\<close> tree_ok_chain [OF ok(1)] obtain ms where ms: "chain t i ms" by blast
  have paths: "map_of (a_paths a) (?k (chain_path ms)) = Some i" "map_of (a_paths a) (?k (chain_path nds)) = Some p"
    using ok(2) ms p by (auto simp: alloc_ok_def a_key_name_key)
  have inj: "k = k'" if "map_of (a_paths a) k = Some j" "map_of (a_paths a) k' = Some j" for k k' j
    using ok(2) that unfolding alloc_ok_def alloc_wf_def by blast
  have eq: "?k (chain_path ms) = ?k (join_path (chain_path nds) n)" using inj paths(1) i key by simp
  have "join_path (chain_path nds) n \<noteq> []" using n by (simp add: join_path_def name_ok_def)
  hence "chain_path ms \<noteq> []" using eq name_key_Nil by metis
  hence "ms \<noteq> []" by (auto simp: chain_path_def)
  then obtain ms' d where msd: "ms = ms' @ [d]" by (cases ms rule: rev_cases) auto
  from ms msd have c: "child_of t (n_parent d) i d" "chain t (n_parent d) ms'"
    by (auto simp: child_of_def elim: chain_snocE)
  have nm: "names_ok (ms' @ [d])" using chain_names [OF ok(1) ms] msd by simp
  have jk: "join_path (?k (chain_path ms')) (?k (n_name d)) = join_path (?k (chain_path nds)) (?k n)"
    using eq msd chain_path_snoc [OF nm] by (simp add: name_key_join)
  hence split: "?k (chain_path ms') = ?k (chain_path nds)" "?k (n_name d) = ?k n"
    using join_path_inj [OF name_key_slash name_key_slash jk] n(1) nm by (auto simp: names_ok_def)
  have "map_of (a_paths a) (?k (chain_path ms')) = Some (n_parent d)"
    using ok(2) c(2) by (auto simp: alloc_ok_def a_key_name_key)
  hence "n_parent d = p" using split paths by simp
  hence "taken lower t p n" using taken_iff [OF ok(1)] c(1) split(2) by blast
  thus False using n(2) by simp
qed

end

definition alloc_le :: "inode_allocator \<Rightarrow> inode_allocator \<Rightarrow> bool" where
  "alloc_le a a' \<longleftrightarrow> a_fold_keys a' = a_fold_keys a \<and> a_next a \<le> a_next a' \<and>
     (\<forall>k i. map_of (a_paths a) k = Some i \<longrightarrow> map_of (a_paths a') k = Some i) \<and>
     (\<forall>k i. map_of (a_paths a') k = Some i \<longrightarrow> map_of (a_paths a) k = Some i \<or> a_next a \<le> i)"

lemma alloc_le_refl [simp]: "alloc_le a a"
  by (simp add: alloc_le_def)

lemma alloc_le_trans: "alloc_le a b \<Longrightarrow> alloc_le b c \<Longrightarrow> alloc_le a c"
  unfolding alloc_le_def by (metis le_trans)

lemma intern_wf:
  assumes "alloc_wf a" "intern lower a path = (i, a')"
  shows "alloc_wf a' \<and> alloc_le a a' \<and> map_of (a_paths a') (a_key lower a path) = Some i \<and>
    (map_of (a_paths a) (a_key lower a path) = Some i \<or> map_of (a_paths a) (a_key lower a path) = None \<and> i = a_next a)"
proof (cases "map_of (a_paths a) (a_key lower a path)")
  case None
  hence i: "i = a_next a" "a' = a\<lparr>a_next := a_next a + 1, a_paths := hput (a_key lower a path) (a_next a) (a_paths a)\<rparr>"
    using assms(2) by (auto simp: intern_def)
  have lt: "\<And>k j. map_of (a_paths a) k = Some j \<Longrightarrow> j < a_next a" and inj: "\<And>k k' j. map_of (a_paths a) k = Some j \<Longrightarrow> map_of (a_paths a) k' = Some j \<Longrightarrow> k = k'"
    using assms(1) unfolding alloc_wf_def by blast+
  have "alloc_wf a'"
    using assms(1) None lt inj unfolding alloc_wf_def i
    by (auto dest: lt less_SucI intro: distinct_update split: if_splits)
  thus ?thesis using None i by (auto simp: alloc_le_def)
next
  case (Some j)
  thus ?thesis using assms by (simp add: intern_def)
qed

text \<open>A fresh name under a directory, interned and attached, keeps the tree and the allocator in step.\<close>

context case_folding
begin

lemma intern_fresh:
  assumes ok: "tree_ok lower t" "alloc_ok lower t a" and p: "chain t p nds"
    and n: "name_ok n" "\<not> taken lower t p n"
    and i: "intern lower a (join_path (chain_path nds) n) = (i, a')"
  shows "node t i = None"
proof (cases "map_of (a_paths a) (a_key lower a (join_path (chain_path nds) n))")
  case None
  have a: "alloc_wf a" and ch: "\<And>c ms. chain t c ms \<Longrightarrow> map_of (a_paths a) (a_key lower a (chain_path ms)) = Some c"
    using ok(2) by (auto simp: alloc_ok_def)
  have new: "i = a_next a" using intern_wf [OF a i] None by simp
  show ?thesis
  proof (rule ccontr)
    assume "node t i \<noteq> None"
    then obtain ms where "chain t i ms" using tree_ok_chain [OF ok(1)] by blast
    hence "i < a_next a" using ch a unfolding alloc_wf_def by blast
    thus False using new by simp
  qed
next
  case (Some j)
  hence "j = i" using i by (simp add: intern_def)
  thus ?thesis using intern_unused [OF ok p(1) n] Some by simp
qed

lemma attach_step:
  assumes ok: "tree_ok lower t" "alloc_ok lower t a" and p: "chain t (n_parent nd) nds" "is_dir t (n_parent nd)"
    and n: "name_ok (n_name nd)" "\<not> taken lower t (n_parent nd) (n_name nd)"
    and fresh: "\<forall>tid. n_kind nd = File tid \<longrightarrow> map_of (track_to_inode t) tid = None"
    and i: "intern lower a (join_path (chain_path nds) (n_name nd)) = (i, a')"
    and at: "attached lower t t' i nd"
  shows "attachable lower t i nd \<and> tree_ok lower t' \<and> alloc_ok lower t' a' \<and> alloc_le a a' \<and> chain t' i (nds @ [nd])"
proof -
  have a: "alloc_wf a" "a_fold_keys a = case_insensitive t"
    and ch: "\<And>c ms. chain t c ms \<Longrightarrow> map_of (a_paths a) (a_key lower a (chain_path ms)) = Some c"
    using ok(2) by (auto simp: alloc_ok_def)
  note w = intern_wf [OF a(1) i]
  have "node t i = None" by (rule intern_fresh [OF ok p(1) n i])
  hence att: "attachable lower t i nd" using p n fresh by (simp add: attachable_def)
  have ok': "tree_ok lower t'" by (rule attached_ok [OF ok(1) at att])
  have "i \<noteq> root_ino" using \<open>node t i = None\<close> ok(1) by (auto simp: tree_ok_def root_ok_def)
  hence new: "chain t' i (nds @ [nd])"
    using at chain_mono [OF p(1), of t'] attached_mono [OF at att]
    by (intro chain.step) (auto simp: attached_def)
  have nm: "names_ok (nds @ [nd])" using chain_names [OF ok' new] .
  have "map_of (a_paths a') (a_key lower a' (chain_path ms)) = Some c" if "chain t' c ms" for c ms
  proof -
    have key: "a_key lower a' = a_key lower a" using w by (simp add: alloc_le_def a_key_name_key)
    from attached_chain [OF ok(1) at att that] show ?thesis
    proof
      assume "chain t c ms"
      thus ?thesis using ch w key by (simp add: alloc_le_def)
    next
      assume "c = i \<and> (\<exists>nds. chain t (n_parent nd) nds \<and> ms = nds @ [nd])"
      hence "c = i" "ms = nds @ [nd]" using chain_det [OF p(1)] by auto
      thus ?thesis using w key chain_path_snoc [OF nm] by simp
    qed
  qed
  hence "alloc_ok lower t' a'"
    using w a at by (auto simp: alloc_ok_def alloc_le_def attached_def)
  thus ?thesis using att ok' new w by simp
qed

end

end
