(* ===== verification/Tree_Insert.thy ===== *)
theory Tree_Insert
  imports Tree_Inv
begin

text \<open>
  Insertion into the virtual tree: the search for a free rank, the directory walk and the file
  itself. Insertion always succeeds on a well-formed tree, keeps it well formed, and gives the track
  the file its rendered path names.
\<close>

subsection \<open>Insertion\<close>

lemma not_dir_empty:
  "tree_ok lower t \<Longrightarrow> node t i = None \<Longrightarrow>
     or_default (children t) i = [] \<and> or_default (rendered_children t) i = [] \<and>
     map_of (children t) i = None \<and> map_of (rendered_children t) i = None"
proof -
  assume ok: "tree_ok lower t" and "node t i = None"
  hence "\<not> is_dir t i" by (simp add: is_dir_def node_kind_of_def)
  hence "map_of (children t) i = None" "map_of (rendered_children t) i = None"
    using ok unfolding tree_ok_def index_ok_def by blast+
  thus ?thesis by (simp add: or_default_None)
qed

lemma read_cong:
  "nodes t' = nodes t \<Longrightarrow> node t' = node t"
  "children t' = children t \<Longrightarrow> kid t' = kid t"
  "rendered_children t' = rendered_children t \<Longrightarrow> rkid t' = rkid t"
  "folded_children t' = folded_children t \<Longrightarrow> fkid t' = fkid t"
  "case_insensitive t' = case_insensitive t \<Longrightarrow> rendered_key lower t' = rendered_key lower t"
  by (auto simp: node_def kid_def rkid_def fkid_def rendered_key_def fun_eq_iff)

lemma link_fx:
  assumes t2: "add_child t1 p n i = Some t2"
    and t3: "t3 = insert_folded_child lower (insert_rendered_child lower t2 p r n i) p n i"
  shows "node t3 = node t1" "case_insensitive t3 = case_insensitive t1" "track_to_inode t3 = track_to_inode t1"
    "kid t3 = (\<lambda>q m. if q = p \<and> m = n then Some i else kid t1 q m)"
    "rkid t3 = (\<lambda>q k m. if q = p \<and> k = rendered_key lower t1 r \<and> m = n then Some i else rkid t1 q k m)"
    "fkid t3 = (\<lambda>q f. if case_insensitive t1 \<and> q = p \<and> f = lower n then Some i else fkid t1 q f)"
    "map_of (children t3) q \<noteq> None \<longleftrightarrow> map_of (children t1) q \<noteq> None"
    "map_of (rendered_children t3) q \<noteq> None \<longleftrightarrow> q = p \<or> map_of (rendered_children t1) q \<noteq> None"
proof -
  let ?m = "insert_rendered_child lower t2 p r n i"
  note fx = add_child_fx [OF t2]
  have rk: "rendered_key lower t2 = rendered_key lower t1" by (rule read_cong(5)) (rule fx)
  have r2: "rkid t2 = rkid t1" by (rule read_cong(3)) (rule fx)
  have f2: "fkid t2 = fkid t1" by (rule read_cong(4)) (rule fx)
  have rm: "rkid t3 = rkid ?m" unfolding t3 by (rule read_cong(3)) (simp add: tree_fx)
  have km: "kid t3 = kid t2" unfolding t3 by (rule read_cong(2)) (simp add: tree_fx)
  have fm: "fkid ?m = fkid t2" by (rule read_cong(4)) (simp add: tree_fx)
  show "node t3 = node t1" by (rule read_cong(1)) (simp add: t3 tree_fx fx)
  show "case_insensitive t3 = case_insensitive t1" "track_to_inode t3 = track_to_inode t1"
    by (simp_all add: t3 tree_fx fx)
  show "kid t3 = (\<lambda>q m. if q = p \<and> m = n then Some i else kid t1 q m)" unfolding km by (rule fx)
  show "rkid t3 = (\<lambda>q k m. if q = p \<and> k = rendered_key lower t1 r \<and> m = n then Some i else rkid t1 q k m)"
    unfolding rm insert_rendered_fx rk r2 by simp
  show "fkid t3 = (\<lambda>q f. if case_insensitive t1 \<and> q = p \<and> f = lower n then Some i else fkid t1 q f)"
    unfolding t3 insert_folded_fx fm f2 insert_rendered_fx fx by simp
  show "map_of (children t3) q \<noteq> None \<longleftrightarrow> map_of (children t1) q \<noteq> None"
    using fx(7) by (simp add: t3 tree_fx)
  show "map_of (rendered_children t3) q \<noteq> None \<longleftrightarrow> q = p \<or> map_of (rendered_children t1) q \<noteq> None"
    using insert_rendered_fx(7) [of lower t2 p r n i q] fx(3) by (simp add: t3 tree_fx)
qed

lemma new_dir_attached:
  assumes ok: "tree_ok lower t" and i: "node t i = None" and p: "is_dir t p"
    and nd: "nd = \<lparr>n_parent = p, n_name = u, n_rendered = r, n_kind = Dir\<rparr>"
    and t1: "t1 = t\<lparr>nodes := hput i nd (nodes t), children := hput i [] (children t),
                   rendered_children := hput i [] (rendered_children t)\<rparr>"
    and t2: "add_child t1 p u i = Some t2"
  shows "attached lower t (insert_folded_child lower (insert_rendered_child lower t2 p r u i) p u i) i nd"
proof -
  note e = not_dir_empty [OF ok i]
  note fx = link_fx [OF t2 refl, of lower r]
  have k1: "kid t1 = kid t" "rkid t1 = rkid t" "fkid t1 = fkid t"
    using e by (auto simp: t1 kid_def rkid_def fkid_def fun_eq_iff or_default_def)
  have n1: "node t1 = (node t)(i \<mapsto> nd)" by (simp add: t1 node_def fun_eq_iff)
  have d1: "map_of (children t1) q \<noteq> None \<longleftrightarrow> map_of (children t) q \<noteq> None \<or> q = i"
    "map_of (rendered_children t1) q \<noteq> None \<longleftrightarrow> map_of (rendered_children t) q \<noteq> None \<or> q = i" for q
    by (auto simp: t1)
  have r1: "track_to_inode t1 = track_to_inode t" "case_insensitive t1 = case_insensitive t" by (simp_all add: t1)
  have rk: "rendered_key lower t1 = rendered_key lower t" by (rule read_cong(5)) (rule r1)
  have par: "map_of (rendered_children t) p \<noteq> None" using ok p unfolding tree_ok_def index_ok_def by blast
  have "ord_ok t \<longrightarrow> ord_ok t1" by (simp add: ord_ok_def t1) (simp add: or_default_def)
  hence "ord_ok t \<longrightarrow> ord_ok (insert_folded_child lower (insert_rendered_child lower t2 p r u i) p u i)"
    using ord_ok_link [OF _ t2] by blast
  thus ?thesis
    unfolding attached_def fx n1 k1 r1 rk d1 using par by (auto simp: nd)
qed

lemma new_file_attached:
  assumes ok: "tree_ok lower t" and p: "is_dir t p"
    and nd: "nd = \<lparr>n_parent = p, n_name = u, n_rendered = r, n_kind = File tid\<rparr>"
    and t1: "t1 = t\<lparr>track_to_inode := hput tid i (track_to_inode t), nodes := hput i nd (nodes t)\<rparr>"
    and t2: "add_child t1 p u i = Some t2"
  shows "attached lower t (insert_folded_child lower (insert_rendered_child lower t2 p r u i) p u i) i nd"
proof -
  note fx = link_fx [OF t2 refl, of lower r]
  have k1: "kid t1 = kid t" "rkid t1 = rkid t" "fkid t1 = fkid t"
    by (auto simp: t1 kid_def rkid_def fkid_def fun_eq_iff)
  have n1: "node t1 = (node t)(i \<mapsto> nd)" by (simp add: t1 node_def fun_eq_iff)
  have d1: "children t1 = children t" "rendered_children t1 = rendered_children t" by (simp_all add: t1)
  have r1: "map_of (track_to_inode t1) = (map_of (track_to_inode t))(tid \<mapsto> i)" "case_insensitive t1 = case_insensitive t"
    by (simp_all add: t1)
  have rk: "rendered_key lower t1 = rendered_key lower t" by (rule read_cong(5)) (rule r1)
  have par: "map_of (rendered_children t) p \<noteq> None" using ok p unfolding tree_ok_def index_ok_def by blast
  have "ord_ok t \<longrightarrow> ord_ok (insert_folded_child lower (insert_rendered_child lower t2 p r u i) p u i)"
    using ord_ok_link [OF _ t2] by (simp add: ord_ok_def d1)
  thus ?thesis
    unfolding attached_def fx n1 k1 r1 rk d1 using par by (auto simp: nd)
qed

lemma free_rank_free:
  "free_rank lower t d n k = Some u \<Longrightarrow> \<not> taken lower t d u \<and> (\<exists>j\<ge>k. u = suffix_candidate n j)"
proof (induction lower t d n k rule: free_rank.induct)
  case (1 lower t d n k)
  show ?case
  proof (cases "taken lower t d (suffix_candidate n k)")
    case True
    thus ?thesis using 1 by (auto simp: free_rank.simps [of lower t d n k] split: if_splits dest: Suc_leD)
  next
    case False
    thus ?thesis using 1 by (auto simp: free_rank.simps [of lower t d n k] split: if_splits)
  qed
qed

lemma disambiguate_free:
  assumes "disambiguate lower t d n = Some u" "name_ok n"
  shows "\<not> taken lower t d u \<and> name_ok u"
  using assms by (auto simp: disambiguate_def dest!: free_rank_free intro: suffix_candidate_ok split: if_splits)

text \<open>The tree only grows: nodes and tracks keep their place.\<close>

definition tree_le :: "vtree \<Rightarrow> vtree \<Rightarrow> bool" where
  "tree_le t t' \<longleftrightarrow> case_insensitive t' = case_insensitive t \<and>
     (\<forall>i nd. node t i = Some nd \<longrightarrow> node t' i = Some nd)"

lemma tree_le_refl [simp]: "tree_le t t"
  by (simp add: tree_le_def)

lemma tree_le_trans: "tree_le t u \<Longrightarrow> tree_le u v \<Longrightarrow> tree_le t v"
  by (auto simp: tree_le_def)

lemma attached_le: "attached lower t t' i nd \<Longrightarrow> attachable lower t i nd \<Longrightarrow> tree_le t t'"
  by (auto simp: tree_le_def attached_def attachable_def)

lemma tree_le_chain: "tree_le t t' \<Longrightarrow> chain t c nds \<Longrightarrow> chain t' c nds"
  by (erule chain_mono) (simp add: tree_le_def)

lemma tree_le_is_dir: "tree_le t t' \<Longrightarrow> is_dir t d \<Longrightarrow> is_dir t' d"
  by (auto simp: tree_le_def is_dir_def node_kind_of_def)

lemma dir_child_named_Some:
  assumes ok: "tree_ok lower t" and c: "dir_child_named lower t p r = Some c"
  shows "\<exists>nd. child_of t p c nd \<and> n_kind nd = Dir \<and> rendered_key lower t (n_rendered nd) = rendered_key lower t r"
proof -
  let ?g = "or_default (or_default (rendered_children t) p) (rendered_key lower t r)"
  obtain g where g: "rendered_group lower t p r = Some g" "find (is_dir t) (map snd g) = Some c"
    using c by (auto simp: dir_child_named_def split: bind_splits)
  have "g = ?g" using g(1) by (auto simp: rendered_group_def or_default_def split: bind_splits)
  have "c \<in> set (map snd g)" "is_dir t c" using g(2) by (auto simp: find_Some_iff)
  then obtain n where n: "(n, c) \<in> set g" "is_dir t c" by auto
  have "keys_sorted ?g" using ok by (simp add: tree_ok_def ord_ok_def)
  hence "map_of g n = Some c" using n(1) \<open>g = ?g\<close> by (simp add: keys_sorted_distinct)
  hence "rkid t p (rendered_key lower t r) n = Some c" using \<open>g = ?g\<close> by (simp add: rkid_def)
  then obtain nd where nd: "child_of t p c nd" "rendered_key lower t (n_rendered nd) = rendered_key lower t r"
    using tree_ok_rkid [OF ok] by auto
  thus ?thesis using n(2) by (auto simp: child_of_def is_dir_def node_kind_of_def)
qed

lemma child_map_exists: "tree_ok lower t \<Longrightarrow> is_dir t p \<Longrightarrow> \<exists>kids. map_of (children t) p = Some kids"
  using tree_ok_children by blast

text \<open>What holds after descending to the directory with path dpath.\<close>

definition at_dir :: "folding \<Rightarrow> vtree \<Rightarrow> inode_allocator \<Rightarrow> nat \<Rightarrow> string \<Rightarrow> tnode list \<Rightarrow> bool" where
  "at_dir lower t a d dpath nds \<longleftrightarrow> tree_ok lower t \<and> alloc_ok lower t a \<and> is_dir t d \<and> chain t d nds \<and> dpath = chain_path nds"

context case_folding
begin

lemma ensure_dir_step:
  assumes at: "at_dir lower t a p ppath nds" and c: "name_ok c" "text_ok c"
    and e: "ensure_dir lower t a p ppath c = Some (d, dpath, t', a')"
  shows "\<exists>nd. at_dir lower t' a' d dpath (nds @ [nd]) \<and> tree_le t t' \<and> alloc_le a a' \<and>
    track_to_inode t' = track_to_inode t \<and>
    rendered_key lower t (n_rendered nd) = rendered_key lower t (truncate_component c False) \<and>
    (t' = t \<and> a' = a \<or> n_kind nd = Dir \<and> n_parent nd = p \<and> attached lower t t' d nd \<and> attachable lower t d nd)"
proof -
  let ?n = "truncate_component c False"
  have n: "name_ok ?n" using truncate_component_ok c by blast
  have ok: "tree_ok lower t" "alloc_ok lower t a" and p: "is_dir t p" "chain t p nds" and pp: "ppath = chain_path nds"
    using at by (auto simp: at_dir_def)
  show ?thesis
  proof (cases "dir_child_named lower t p ?n")
    case (Some x)
    then obtain nd where nd: "child_of t p x nd" "n_kind nd = Dir" "rendered_key lower t (n_rendered nd) = rendered_key lower t ?n"
      using dir_child_named_Some [OF ok(1)] by blast
    hence e': "d = x" "dpath = join_path ppath (n_name nd)" "t' = t" "a' = a"
      using e Some by (auto simp: ensure_dir_def Let_def child_of_def)
    have ch: "chain t x (nds @ [nd])" using nd p by (auto simp: child_of_def intro: chain.step)
    have "at_dir lower t a x dpath (nds @ [nd])"
      using ok nd ch e' pp chain_path_snoc [OF chain_names [OF ok(1) ch]]
      by (auto simp: at_dir_def child_of_def is_dir_def node_kind_of_def)
    thus ?thesis using e' nd by auto
  next
    case None
    then obtain u i where u: "disambiguate lower t p ?n = Some u" and i: "intern lower a (join_path ppath u) = (i, a')"
      using e by (auto simp: ensure_dir_def Let_def intern_names_def split: bind_splits prod.splits)
    let ?nd = "\<lparr>n_parent = p, n_name = u, n_rendered = ?n, n_kind = Dir\<rparr>"
    let ?t1 = "t\<lparr>nodes := hput i ?nd (nodes t), children := hput i [] (children t),
                   rendered_children := hput i [] (rendered_children t)\<rparr>"
    obtain t2 where t2: "add_child ?t1 p u i = Some t2" and e': "d = i" "dpath = join_path ppath u"
      "t' = insert_folded_child lower (insert_rendered_child lower t2 p ?n u i) p u i"
      using e None u i by (auto simp: ensure_dir_def Let_def intern_names_def)
    note free = disambiguate_free [OF u n]
    have fresh: "node t i = None" by (rule intern_fresh [OF ok p(2)]) (use free i pp in auto)
    have att: "attached lower t t' i ?nd"
      unfolding e' by (rule new_dir_attached [OF ok(1) fresh p(1) refl refl t2])
    have st: "attachable lower t i ?nd \<and> tree_ok lower t' \<and> alloc_ok lower t' a' \<and> alloc_le a a' \<and> chain t' i (nds @ [?nd])"
      by (rule attach_step [OF ok _ _ _ _ _ _ att]) (use p free i pp in auto)
    have "is_dir t' i" using attached_kind [OF att, of i] by simp
    hence "at_dir lower t' a' d dpath (nds @ [?nd])"
      using st e'(1,2) pp chain_path_snoc [of nds ?nd] chain_names [of lower t' i "nds @ [?nd]"]
      by (simp add: at_dir_def)
    moreover have "track_to_inode t' = track_to_inode t"
      using link_fx(3) [OF t2 e'(3)] by simp
    ultimately show ?thesis using st att attached_le [OF att] e' by (intro exI [of _ ?nd]) auto
  qed
qed

lemma ensure_dirs_step:
  assumes "at_dir lower t a p ppath nds" "\<forall>c\<in>set cs. name_ok c \<and> text_ok c"
    "ensure_dirs lower t a p ppath cs = Some (d, dpath, t', a')"
  shows "\<exists>ms. at_dir lower t' a' d dpath (nds @ ms) \<and> tree_le t t' \<and> alloc_le a a' \<and>
    track_to_inode t' = track_to_inode t \<and>
    map (\<lambda>nd. rendered_key lower t (n_rendered nd)) ms = map (\<lambda>c. rendered_key lower t (truncate_component c False)) cs"
  using assms
proof (induction cs arbitrary: t a p ppath nds)
  case Nil
  thus ?case by (intro exI [of _ "[]"]) auto
next
  case (Cons c cs)
  obtain p1 pp1 t1 a1 where e: "ensure_dir lower t a p ppath c = Some (p1, pp1, t1, a1)"
    and es: "ensure_dirs lower t1 a1 p1 pp1 cs = Some (d, dpath, t', a')"
    using Cons.prems(3) by (auto split: bind_splits)
  obtain nd where nd: "at_dir lower t1 a1 p1 pp1 (nds @ [nd])" "tree_le t t1" "alloc_le a a1"
    "track_to_inode t1 = track_to_inode t"
    "rendered_key lower t (n_rendered nd) = rendered_key lower t (truncate_component c False)"
    using ensure_dir_step [OF Cons.prems(1) _ _ e] Cons.prems(2) by auto
  have rk: "rendered_key lower t1 = rendered_key lower t" using nd(2) by (intro read_cong(5)) (simp add: tree_le_def)
  obtain ms where "at_dir lower t' a' d dpath ((nds @ [nd]) @ ms)" "tree_le t1 t'" "alloc_le a1 a'"
    "track_to_inode t' = track_to_inode t1"
    "map (\<lambda>nd. rendered_key lower t (n_rendered nd)) ms = map (\<lambda>c. rendered_key lower t (truncate_component c False)) cs"
    using Cons.IH [OF nd(1) _ es] Cons.prems(2) rk by auto
  thus ?case
    using nd tree_le_trans alloc_le_trans by (intro exI [of _ "nd # ms"]) auto
qed

end

text \<open>The names a rendered path asks for: its components, cut to NAME_MAX.\<close>

definition wanted_names :: "string \<Rightarrow> string list" where
  "wanted_names path =
     (let cs = path_components path in
      map (\<lambda>c. truncate_component c False) (butlast cs) @ [truncate_component (last cs) True])"

definition placed :: "folding \<Rightarrow> vtree \<Rightarrow> int \<Rightarrow> string \<Rightarrow> nat \<Rightarrow> bool" where
  "placed lower t tid path i \<longleftrightarrow>
     (\<exists>nds. chain t i nds \<and> nds \<noteq> [] \<and> n_kind (last nds) = File tid \<and>
        map (\<lambda>nd. rendered_key lower t (n_rendered nd)) nds = map (rendered_key lower t) (wanted_names path))"

lemma tree_ok_empty: "tree_ok lower (empty_tree ci)"
proof -
  have n: "node (empty_tree ci) c = (if c = root_ino then Some \<lparr>n_parent = root_ino, n_name = [], n_rendered = [], n_kind = Dir\<rparr> else None)" for c
    by (auto simp: empty_tree_def node_def)
  have ch: "\<not> child_of (empty_tree ci) p c nd" for p c nd by (simp add: child_of_def n)
  have m: "or_default (children (empty_tree ci)) p = []" "or_default (rendered_children (empty_tree ci)) p = []"
    "or_default (folded_children (empty_tree ci)) p = []" for p
    by (simp_all add: empty_tree_def or_default_def)
  have "index_ok lower (empty_tree ci)"
    unfolding index_ok_def using n ch m
    by (auto simp: kid_def rkid_def fkid_def is_dir_def node_kind_of_def or_default_None) (simp_all add: empty_tree_def)
  thus ?thesis using n ch m by (auto simp: tree_ok_def root_ok_def nodes_ok_def ord_ok_def or_default_None)
qed

context case_folding
begin

lemma insert_file_step:
  assumes ok: "tree_ok lower t" "alloc_ok lower t a" and path: "text_ok path"
    and new: "map_of (track_to_inode t) tid = None" and e: "insert_file lower t a tid path = Some (t', a')"
  shows "tree_ok lower t' \<and> alloc_ok lower t' a' \<and> tree_le t t' \<and> alloc_le a a' \<and>
    (if path_components path = [] then t' = t
     else \<exists>i. map_of (track_to_inode t') = (map_of (track_to_inode t))(tid \<mapsto> i) \<and> placed lower t' tid path i)"
proof (cases "path_components path = []")
  case True
  thus ?thesis using e ok by (auto simp: insert_file_def)
next
  case False
  let ?cs = "path_components path"
  have cs: "\<forall>c\<in>set ?cs. name_ok c \<and> text_ok c" using path_components_ok path_components_text path by blast
  have at0: "at_dir lower t a root_ino [] []"
    using ok tree_ok_root by (auto simp: at_dir_def chain_path_def intro: chain.root)
  obtain d dpath t1 a1 where ds: "ensure_dirs lower t a root_ino [] (butlast ?cs) = Some (d, dpath, t1, a1)"
    using e False by (auto simp: insert_file_def Let_def split: bind_splits)
  obtain nds where nds: "at_dir lower t1 a1 d dpath nds" "tree_le t t1" "alloc_le a a1" "track_to_inode t1 = track_to_inode t"
    "map (\<lambda>nd. rendered_key lower t (n_rendered nd)) nds = map (\<lambda>c. rendered_key lower t (truncate_component c False)) (butlast ?cs)"
    using ensure_dirs_step [OF at0 _ ds] cs by (auto dest: in_set_butlastD)
  let ?n = "truncate_component (last ?cs) True"
  have n: "name_ok ?n" using truncate_component_ok cs False by (meson last_in_set)
  obtain u i a2 where u: "disambiguate lower t1 d ?n = Some u" and i: "intern lower a1 (join_path dpath u) = (i, a2)"
    using e False ds by (auto simp: insert_file_def Let_def intern_names_def split: bind_splits prod.splits)
  let ?nd = "\<lparr>n_parent = d, n_name = u, n_rendered = ?n, n_kind = File tid\<rparr>"
  let ?t2 = "t1\<lparr>track_to_inode := hput tid i (track_to_inode t1), nodes := hput i ?nd (nodes t1)\<rparr>"
  obtain t3 where t3: "add_child ?t2 d u i = Some t3" and e': "a' = a2"
    "t' = insert_folded_child lower (insert_rendered_child lower t3 d ?n u i) d u i"
    using e False ds u i by (auto simp: insert_file_def Let_def intern_names_def)
  have ok1: "tree_ok lower t1" "alloc_ok lower t1 a1" and d: "is_dir t1 d" "chain t1 d nds" and dp: "dpath = chain_path nds"
    using nds(1) by (auto simp: at_dir_def)
  note free = disambiguate_free [OF u n]
  have att: "attached lower t1 t' i ?nd"
    unfolding e' by (rule new_file_attached [OF ok1(1) d(1) refl refl t3])
  have st: "attachable lower t1 i ?nd \<and> tree_ok lower t' \<and> alloc_ok lower t' a' \<and> alloc_le a1 a' \<and> chain t' i (nds @ [?nd])"
    by (rule attach_step [OF ok1 _ _ _ _ _ _ att]) (use d free i dp new nds(4) e' in auto)
  have le: "tree_le t t'" using attached_le [OF att] st nds(2) tree_le_trans by blast
  have rk: "rendered_key lower t' = rendered_key lower t" using le by (intro read_cong(5)) (simp add: tree_le_def)
  have "placed lower t' tid path i"
    unfolding placed_def
    by (intro exI [of _ "nds @ [?nd]"]) (use st nds(5) in \<open>simp add: rk wanted_names_def Let_def\<close>)
  moreover have "map_of (track_to_inode t') = (map_of (track_to_inode t))(tid \<mapsto> i)"
    using att nds(4) by (simp add: attached_def)
  ultimately show ?thesis using st le nds(3) alloc_le_trans False by (intro conjI) auto
qed

end

end
