(* ===== verification/Tree_Total.thy ===== *)
theory Tree_Total
  imports Tree_Insert
begin

text \<open>
  Insertion never fails: the rank counter cannot run out. Outside the walk no directory is empty, so
  the children of a directory are at most as many as the tracks of the tree; ranks give different
  candidates, so a free one appears among the first few.
\<close>

definition full_dirs :: "vtree \<Rightarrow> nat set \<Rightarrow> bool" where
  "full_dirs t X \<longleftrightarrow> (\<forall>d. is_dir t d \<longrightarrow> d = root_ino \<or> d \<in> X \<or> (\<exists>c nd. child_of t d c nd))"

definition kids_of :: "vtree \<Rightarrow> nat \<Rightarrow> nat set" where
  "kids_of t d = {c. \<exists>nd. child_of t d c nd}"

lemma finite_nodes: "finite {i. node t i \<noteq> None}"
  using finite_dom_map_of [of "nodes t"] by (simp add: node_def dom_def)

lemma finite_kids: "finite (kids_of t d)"
  by (rule finite_subset [OF _ finite_nodes [of t]]) (auto simp: kids_of_def child_of_def)

lemma chain_prefix: "chain t c (xs @ ys) \<Longrightarrow> \<exists>j. chain t j xs"
proof (induction ys arbitrary: c rule: rev_induct)
  case (snoc y ys)
  thus ?case by (metis append_assoc chain_snocE)
qed auto

lemma chain_same:
  assumes "tree_ok lower t" "chain t c (nds @ [nd])" "chain t c' (nds' @ [nd])"
  shows "c = c'"
proof -
  have "child_of t (n_parent nd) c nd" "child_of t (n_parent nd) c' nd"
    using assms(2,3) by (auto simp: child_of_def elim!: chain_snocE)
  thus ?thesis using children_unique [OF assms(1)] by blast
qed

lemma chain_inj: "tree_ok lower t \<Longrightarrow> chain t c nds \<Longrightarrow> chain t c' nds \<Longrightarrow> c = c'"
proof (cases nds rule: rev_cases)
  case Nil
  moreover assume "chain t c nds" "chain t c' nds"
  ultimately show ?thesis by (auto elim!: chain_NilE)
next
  case (snoc ys y)
  moreover assume "tree_ok lower t" "chain t c nds" "chain t c' nds"
  ultimately show ?thesis using chain_same by blast
qed

text \<open>Below every child there is a file.\<close>

lemma file_below:
  assumes ok: "tree_ok lower t" and full: "full_dirs t {p}" and p: "chain t p ps" and c: "child_of t p c nd"
  shows "\<exists>tid i zs. map_of (track_to_inode t) tid = Some i \<and> chain t i (ps @ [nd] @ zs)"
proof -
  let ?D = "{i. \<exists>zs. chain t i (ps @ [nd] @ zs)}"
  define len where "len i = length (SOME nds. chain t i nds)" for i
  have len: "len i = length nds" if "chain t i nds" for i nds
    unfolding len_def using that chain_det by (metis someI)
  have cD: "c \<in> ?D" using p c by (auto simp: child_of_def intro!: exI [of _ "[]"] intro: chain.step)
  have fin: "finite ?D"
    by (rule finite_subset [OF _ finite_nodes [of t]]) (use chain_node ok in \<open>auto simp: tree_ok_def\<close>)
  hence "finite (len ` ?D)" by simp
  moreover have "len ` ?D \<noteq> {}" using cD by auto
  ultimately obtain i where i: "i \<in> ?D" "\<forall>j\<in>?D. len j \<le> len i"
    by (smt (verit) Max_ge Max_in imageE image_eqI)
  then obtain zs where zs: "chain t i (ps @ [nd] @ zs)" by auto
  obtain ws w where snoc: "ps @ [nd] @ zs = ws @ [w]" by (metis append_is_Nil_conv not_Cons_self2 rev_exhaust)
  have nd_i: "node t i = Some w" "i \<noteq> root_ino" using zs unfolding snoc by (auto elim: chain_snocE)
  show ?thesis
  proof (cases "n_kind w")
    case (File tid)
    thus ?thesis using tree_ok_track [OF ok] nd_i zs by blast
  next
    case Dir
    hence "is_dir t i" using nd_i by (simp add: is_dir_def node_kind_of_def)
    moreover have "i \<noteq> p" using zs p chain_det by (metis append_eq_conv_conj append_self_conv not_Cons_self2 self_append_conv append_Cons append_is_Nil_conv)
    ultimately obtain j d where j: "child_of t i j d" using full nd_i by (auto simp: full_dirs_def)
    have "chain t j ((ps @ [nd] @ zs) @ [d])" using chain.step [OF zs, of j d] j by (simp add: child_of_def)
    hence "j \<in> ?D" "len j = Suc (len i)" using len zs by force+
    thus ?thesis using i(2) by force
  qed
qed

lemma kids_bound:
  assumes ok: "tree_ok lower t" and full: "full_dirs t {p}" and p: "chain t p ps"
  shows "card (kids_of t p) \<le> card (dom (map_of (track_to_inode t)))"
proof -
  let ?R = "\<lambda>c tid. \<exists>nd i zs. child_of t p c nd \<and> map_of (track_to_inode t) tid = Some i \<and> chain t i (ps @ [nd] @ zs)"
  have "\<forall>c\<in>kids_of t p. \<exists>tid. ?R c tid"
    using file_below [OF ok full p] by (fastforce simp: kids_of_def)
  then obtain f where f: "\<And>c. c \<in> kids_of t p \<Longrightarrow> ?R c (f c)" by metis
  have "inj_on f (kids_of t p)"
  proof (rule inj_onI)
    fix c c' assume cc: "c \<in> kids_of t p" "c' \<in> kids_of t p" "f c = f c'"
    obtain nd i zs where a: "child_of t p c nd" "map_of (track_to_inode t) (f c) = Some i" "chain t i (ps @ [nd] @ zs)"
      using f [OF cc(1)] by blast
    obtain nd' i' zs' where b: "child_of t p c' nd'" "map_of (track_to_inode t) (f c') = Some i'" "chain t i' (ps @ [nd'] @ zs')"
      using f [OF cc(2)] by blast
    have "i' = i" using a(2) b(2) cc(3) by simp
    hence "ps @ [nd] @ zs = ps @ [nd'] @ zs'" using chain_det [OF a(3)] b(3) by blast
    hence "nd = nd'" by simp
    thus "c = c'" using children_unique [OF ok a(1) b(1)] by simp
  qed
  moreover have "f ` kids_of t p \<subseteq> dom (map_of (track_to_inode t))" using f by blast
  ultimately show ?thesis using card_inj_on_le finite_dom_map_of by blast
qed

context case_folding
begin

lemma rank_key_inj: "name_key lower ci (suffix_candidate n k) = name_key lower ci (suffix_candidate n k') \<Longrightarrow> k = k'"
proof (cases ci)
  case True
  assume eq: "name_key lower ci (suffix_candidate n k) = name_key lower ci (suffix_candidate n k')"
  obtain e where "\<forall>k. \<exists>t. suffix_candidate n k = t @ rank_suffix k @ e"
    using suffix_candidate_shape [of n] by blast
  then obtain t t' where "suffix_candidate n k = t @ rank_suffix k @ e" "suffix_candidate n k' = t' @ rank_suffix k' @ e"
    by metis
  thus ?thesis using eq True lower_rank by (simp add: name_key_def)
qed (simp add: name_key_def suffix_candidate_inj)

lemma free_rank_exhausted: "free_rank lower t d n k = None \<Longrightarrow> k \<le> j \<Longrightarrow> j < 2 ^ 32 \<Longrightarrow> taken lower t d (suffix_candidate n j)"
proof (induction lower t d n k rule: free_rank.induct)
  case (1 lower t d n k)
  show ?case
  proof (cases "j = k")
    case True
    thus ?thesis using 1 by (auto simp: free_rank.simps [of lower t d n k] split: if_splits)
  next
    case False
    hence "k + 1 \<le> j" "\<not> 2 ^ 32 \<le> k" using "1.prems" by auto
    moreover have "taken lower t d (suffix_candidate n k)" "free_rank lower t d n (k + 1) = None"
      using "1.prems" calculation by (auto simp: free_rank.simps [of lower t d n k] split: if_splits)
    ultimately show ?thesis using "1.IH" "1.prems" by blast
  qed
qed

lemma disambiguate_total:
  assumes ok: "tree_ok lower t" and room: "card (kids_of t d) + 4 < 2 ^ 32"
  shows "disambiguate lower t d n \<noteq> None"
proof
  assume "disambiguate lower t d n = None"
  hence none: "free_rank lower t d n 2 = None" by (simp add: disambiguate_def split: if_splits)
  let ?k = "name_key lower (case_insensitive t)"
  let ?S = "set reserved_root_names \<union> (\<lambda>c. ?k (n_name (the (node t c)))) ` kids_of t d"
  have "?k (suffix_candidate n j) \<in> ?S" if "j \<in> {2..<2 ^ 32}" for j
  proof -
    have "taken lower t d (suffix_candidate n j)" using free_rank_exhausted [OF none] that by simp
    thus ?thesis
      by (auto simp: taken_iff [OF ok] is_reserved_root_name_def name_key_def kids_of_def child_of_def image_iff
          intro!: bexI split: if_splits)
  qed
  hence "(\<lambda>j. ?k (suffix_candidate n j)) ` {2..<2 ^ 32} \<subseteq> ?S" by blast
  moreover have "inj_on (\<lambda>j. ?k (suffix_candidate n j)) {2..<2 ^ 32}" using rank_key_inj by (auto intro: inj_onI)
  moreover have fin: "finite ?S" using finite_kids by simp
  ultimately have "card {2..<2 ^ 32::nat} \<le> card ?S" by (metis card_inj_on_le)
  also have "\<dots> \<le> card (set reserved_root_names) + card (kids_of t d)"
    using card_Un_le card_image_le [OF finite_kids] by (meson add_le_cancel_left le_trans)
  also have "card (set reserved_root_names) \<le> 2"
    by (rule order_trans [OF card_length]) (simp add: reserved_root_names_def)
  finally show False using room by simp
qed

end

definition track_count :: "vtree \<Rightarrow> nat" where
  "track_count t = card (dom (map_of (track_to_inode t)))"

lemma attached_full:
  assumes ok: "tree_ok lower t" and at: "attached lower t t' i nd" "attachable lower t i nd"
    and full: "full_dirs t {n_parent nd}"
  shows "full_dirs t' (if n_kind nd = Dir then {i} else {})"
  unfolding full_dirs_def
proof (intro allI impI)
  fix d assume d: "is_dir t' d"
  have ch: "child_of t q c e \<Longrightarrow> child_of t' q c e" "child_of t' (n_parent nd) i nd" for q c e
    using attached_child_of [OF ok at] by auto
  show "d = root_ino \<or> d \<in> (if n_kind nd = Dir then {i} else {}) \<or> (\<exists>c nd. child_of t' d c nd)"
  proof (cases "d = i")
    case True
    thus ?thesis using d attached_kind [OF at(1), of d] by auto
  next
    case False
    hence "is_dir t d" using d attached_kind [OF at(1), of d] by simp
    thus ?thesis using full ch unfolding full_dirs_def by blast
  qed
qed

lemma add_child_Some: "map_of (children t) p \<noteq> None \<Longrightarrow> \<exists>t'. add_child t p n i = Some t'"
  by (auto simp: add_child_def)

context case_folding
begin

lemma room_names:
  assumes "at_dir lower t a p ppath nds" "full_dirs t {p}" "track_count t + 4 < 2 ^ 32"
  shows "\<exists>u. disambiguate lower t p n = Some u"
proof -
  have "card (kids_of t p) \<le> track_count t"
    using kids_bound [of lower t p nds] assms(1,2) by (simp add: at_dir_def track_count_def)
  thus ?thesis using disambiguate_total [of t p n] assms(1,3) by (auto simp: at_dir_def)
qed

lemma ensure_dir_total:
  assumes at: "at_dir lower t a p ppath nds" and full: "full_dirs t {p}" and room: "track_count t + 4 < 2 ^ 32"
    and c: "name_ok c" "text_ok c"
  shows "\<exists>d dpath t' a'. ensure_dir lower t a p ppath c = Some (d, dpath, t', a') \<and> full_dirs t' {d}"
proof -
  have ok: "tree_ok lower t" and p: "is_dir t p" using at by (simp_all add: at_dir_def)
  let ?n = "truncate_component c False"
  have "\<exists>d dpath t' a'. ensure_dir lower t a p ppath c = Some (d, dpath, t', a')"
  proof (cases "dir_child_named lower t p ?n")
    case (Some x)
    then obtain nd where "child_of t p x nd" using dir_child_named_Some [OF ok] by blast
    thus ?thesis using Some by (auto simp: ensure_dir_def Let_def child_of_def)
  next
    case None
    obtain u where u: "disambiguate lower t p ?n = Some u" using room_names [OF at full room] by blast
    obtain i a' where i: "intern lower a (join_path ppath u) = (i, a')" by fastforce
    have "map_of (children t) p \<noteq> None" using child_map_exists [OF ok p] by blast
    thus ?thesis using None u i
      by (auto simp: ensure_dir_def Let_def intern_names_def add_child_def)
  qed
  then obtain d dpath t' a' where e: "ensure_dir lower t a p ppath c = Some (d, dpath, t', a')" by blast
  from ensure_dir_step [OF at c e] obtain nd where nd: "at_dir lower t' a' d dpath (nds @ [nd])"
    "t' = t \<and> a' = a \<or> n_kind nd = Dir \<and> n_parent nd = p \<and> attached lower t t' d nd \<and> attachable lower t d nd"
    by blast
  have "full_dirs t' {d}"
    using nd(2)
  proof
    assume same: "t' = t \<and> a' = a"
    have "chain t d (nds @ [nd])" "chain t p nds" using nd(1) at same by (auto simp: at_dir_def)
    hence "child_of t p d nd"
      using chain_inj [OF ok] by (auto simp: child_of_def elim!: chain_snocE)
    thus ?thesis using full same by (auto simp: full_dirs_def)
  next
    assume "n_kind nd = Dir \<and> n_parent nd = p \<and> attached lower t t' d nd \<and> attachable lower t d nd"
    thus ?thesis using attached_full [OF ok, of t' d nd] full by auto
  qed
  thus ?thesis using e by blast
qed

lemma ensure_dirs_total:
  assumes "at_dir lower t a p ppath nds" "full_dirs t {p}" "track_count t + 4 < 2 ^ 32"
    "\<forall>c\<in>set cs. name_ok c \<and> text_ok c"
  shows "\<exists>d dpath t' a'. ensure_dirs lower t a p ppath cs = Some (d, dpath, t', a') \<and> full_dirs t' {d}"
  using assms
proof (induction cs arbitrary: t a p ppath nds)
  case (Cons c cs)
  obtain p1 pp1 t1 a1 where e: "ensure_dir lower t a p ppath c = Some (p1, pp1, t1, a1)" "full_dirs t1 {p1}"
    using ensure_dir_total [OF Cons.prems(1-3), of c] Cons.prems(4) by auto
  obtain nd where nd: "at_dir lower t1 a1 p1 pp1 (nds @ [nd])" "track_to_inode t1 = track_to_inode t"
    using ensure_dir_step [OF Cons.prems(1) _ _ e(1)] Cons.prems(4) by auto
  show ?case using Cons.IH [OF nd(1) e(2)] Cons.prems(3,4) nd(2) e(1) by (simp add: track_count_def)
qed simp

lemma insert_file_total:
  assumes ok: "tree_ok lower t" "alloc_ok lower t a" and path: "text_ok path" and full: "full_dirs t {}"
    and new: "map_of (track_to_inode t) tid = None" and room: "track_count t + 4 < 2 ^ 32"
  shows "\<exists>t' a'. insert_file lower t a tid path = Some (t', a') \<and> full_dirs t' {}"
proof (cases "path_components path = []")
  case True
  thus ?thesis using full by (auto simp: insert_file_def)
next
  case False
  let ?cs = "path_components path"
  have cs: "\<forall>c\<in>set ?cs. name_ok c \<and> text_ok c" using path_components_ok path_components_text path by blast
  have at0: "at_dir lower t a root_ino [] []"
    using ok tree_ok_root by (auto simp: at_dir_def chain_path_def intro: chain.root)
  have "full_dirs t {root_ino}" using full by (auto simp: full_dirs_def)
  then obtain d dpath t1 a1 where ds: "ensure_dirs lower t a root_ino [] (butlast ?cs) = Some (d, dpath, t1, a1)"
    and full1: "full_dirs t1 {d}"
    using ensure_dirs_total [OF at0 _ room, of "butlast ?cs"] cs by (meson in_set_butlastD)
  obtain nds where nds: "at_dir lower t1 a1 d dpath nds" "track_to_inode t1 = track_to_inode t"
    using ensure_dirs_step [OF at0 _ ds] cs by (auto dest: in_set_butlastD)
  have ok1: "tree_ok lower t1" "alloc_ok lower t1 a1" and d: "is_dir t1 d" "chain t1 d nds" and dp: "dpath = chain_path nds"
    using nds(1) by (auto simp: at_dir_def)
  let ?n = "truncate_component (last ?cs) True"
  have n: "name_ok ?n" using truncate_component_ok cs False by (meson last_in_set)
  obtain u where u: "disambiguate lower t1 d ?n = Some u"
    using room_names [OF nds(1) full1] room nds(2) by (auto simp: track_count_def)
  obtain i a2 where i: "intern lower a1 (join_path dpath u) = (i, a2)" by fastforce
  let ?nd = "\<lparr>n_parent = d, n_name = u, n_rendered = ?n, n_kind = File tid\<rparr>"
  let ?t2 = "t1\<lparr>track_to_inode := hput tid i (track_to_inode t1), nodes := hput i ?nd (nodes t1)\<rparr>"
  have "map_of (children ?t2) d \<noteq> None" using child_map_exists [OF ok1(1) d(1)] by auto
  then obtain t3 where t3: "add_child ?t2 d u i = Some t3" using add_child_Some by blast
  let ?t' = "insert_folded_child lower (insert_rendered_child lower t3 d ?n u i) d u i"
  have e: "insert_file lower t a tid path = Some (?t', a2)"
    using False ds u i t3 by (simp add: insert_file_def Let_def intern_names_def)
  have att: "attached lower t1 ?t' i ?nd" by (rule new_file_attached [OF ok1(1) d(1) refl refl t3])
  have "attachable lower t1 i ?nd"
    using attach_step [OF ok1 _ _ _ _ _ _ att] disambiguate_free [OF u n] d i dp new nds(2) by auto
  hence "full_dirs ?t' {}" using attached_full [OF ok1(1) att] full1 by simp
  thus ?thesis using e by blast
qed

end

end
