(* ===== verification/Tree_Remove.thy ===== *)
theory Tree_Remove
  imports Tree_Total
begin

text \<open>
  Removal of a track and pruning of the directories it empties: the tree stays well formed, every
  other file keeps its node, and no empty directory is left.
\<close>

definition detached :: "folding \<Rightarrow> vtree \<Rightarrow> vtree \<Rightarrow> nat \<Rightarrow> tnode \<Rightarrow> bool" where
  "detached lower t t' i nd \<longleftrightarrow>
     case_insensitive t' = case_insensitive t \<and>
     node t' = (node t)(i := None) \<and>
     kid t' = (\<lambda>q m. if q = n_parent nd \<and> m = n_name nd then None else kid t q m) \<and>
     rkid t' = (\<lambda>q k m. if q = n_parent nd \<and> k = rendered_key lower t (n_rendered nd) \<and> m = n_name nd
                       then None else rkid t q k m) \<and>
     fkid t' = (\<lambda>q f. if case_insensitive t \<and> q = n_parent nd \<and> f = lower (n_name nd) then None else fkid t q f) \<and>
     (\<forall>q. map_of (children t') q \<noteq> None \<longleftrightarrow> map_of (children t) q \<noteq> None \<and> q \<noteq> i) \<and>
     (\<forall>q. map_of (rendered_children t') q \<noteq> None \<longleftrightarrow> map_of (rendered_children t) q \<noteq> None \<and> q \<noteq> i) \<and>
     map_of (track_to_inode t') =
       (case n_kind nd of File tid \<Rightarrow> (map_of (track_to_inode t))(tid := None) | Dir \<Rightarrow> map_of (track_to_inode t)) \<and>
     (ord_ok t \<longrightarrow> ord_ok t')"

definition leaf :: "vtree \<Rightarrow> nat \<Rightarrow> tnode \<Rightarrow> bool" where
  "leaf t i nd \<longleftrightarrow> child_of t (n_parent nd) i nd \<and> kids_of t i = {}"

lemma detached_child_of:
  assumes "detached lower t t' i nd"
  shows "child_of t' q c d \<longleftrightarrow> child_of t q c d \<and> c \<noteq> i"
  using assms by (auto simp: child_of_def detached_def)

lemma detached_is_dir: "detached lower t t' i nd \<Longrightarrow> is_dir t' p \<longleftrightarrow> is_dir t p \<and> p \<noteq> i"
  by (auto simp: detached_def is_dir_def node_kind_of_def)

lemma detached_back: "detached lower t t' i nd \<Longrightarrow> node t' j = Some d \<Longrightarrow> node t j = Some d"
  by (auto simp: detached_def split: if_splits)

lemma detached_chain:
  assumes d: "detached lower t t' i nd" and l: "leaf t i nd" and c: "chain t c ms" "c \<noteq> i"
  shows "chain t' c ms"
  using c
proof induction
  case root
  show ?case by (rule chain.root)
next
  case (step p nds c e)
  hence "c \<in> kids_of t p" by (auto simp: kids_of_def child_of_def)
  hence "p \<noteq> i" using l by (auto simp: leaf_def)
  thus ?case using step d by (intro chain.step) (auto simp: detached_def)
qed

lemma detached_ok:
  assumes ok: "tree_ok lower t" and d: "detached lower t t' i nd" and l: "leaf t i nd"
  shows "tree_ok lower t'"
proof -
  note ch = detached_child_of [OF d]
  have ci: "case_insensitive t' = case_insensitive t" using d by (simp add: detached_def)
  have rk: "rendered_key lower t' = rendered_key lower t" by (rule read_cong(5)) (rule ci)
  have res: "is_reserved_root_name lower t' = is_reserved_root_name lower t"
    by (auto simp: ci is_reserved_root_name_def fun_eq_iff)
  have i: "child_of t (n_parent nd) i nd" "i \<noteq> root_ino" "node t i = Some nd" using l by (auto simp: leaf_def child_of_def)
  have nodes: "nodes_ok lower t'"
    unfolding nodes_ok_def
  proof (intro allI impI)
    fix p c e assume "child_of t' p c e"
    hence c: "child_of t p c e" "c \<noteq> i" using ch by auto
    hence "c \<in> kids_of t p" by (auto simp: kids_of_def)
    hence "p \<noteq> i" using l by (auto simp: leaf_def)
    thus "is_dir t' p \<and> name_ok (n_name e) \<and> \<not> (p = root_ino \<and> is_reserved_root_name lower t' (n_name e)) \<and> (\<exists>nds. chain t' c nds)"
      using tree_ok_child [OF ok c(1)] res detached_is_dir [OF d] detached_chain [OF d l _ c(2)] by metis
  qed
  have same: "c = i" if "child_of t (n_parent nd) c e" "n_name e = n_name nd" for c e
    using children_unique [OF ok that(1) i(1)] that(2) by simp
  have samef: "c = i" if "case_insensitive t" "child_of t (n_parent nd) c e" "lower (n_name e) = lower (n_name nd)" for c e
    using children_unique [OF ok that(2) i(1)] that by (simp add: name_key_def)
  have kids: "kid t' p n = Some c \<longleftrightarrow> (\<exists>e. child_of t' p c e \<and> n_name e = n)" for p n c
  proof (cases "p = n_parent nd \<and> n = n_name nd")
    case True
    thus ?thesis using d same by (auto simp: ch detached_def)
  next
    case False
    moreover have "\<not> (child_of t p i e \<and> n_name e = n)" for e using False i by (auto simp: child_of_def)
    ultimately show ?thesis using d by (auto simp: ch detached_def tree_ok_kid [OF ok])
  qed
  have rkids: "rkid t' p k n = Some c \<longleftrightarrow>
      (\<exists>e. child_of t' p c e \<and> n_name e = n \<and> rendered_key lower t' (n_rendered e) = k)" for p k n c
  proof (cases "p = n_parent nd \<and> k = rendered_key lower t (n_rendered nd) \<and> n = n_name nd")
    case True
    thus ?thesis using d same by (auto simp: ch detached_def)
  next
    case False
    moreover have "\<not> (child_of t p i e \<and> n_name e = n \<and> rendered_key lower t (n_rendered e) = k)" for e
      using False i by (auto simp: child_of_def)
    ultimately show ?thesis using d by (auto simp: ch rk detached_def tree_ok_rkid [OF ok])
  qed
  have fkids: "fkid t' p f = Some c \<longleftrightarrow> case_insensitive t' \<and> (\<exists>e. child_of t' p c e \<and> lower (n_name e) = f)" for p f c
  proof (cases "case_insensitive t \<and> p = n_parent nd \<and> f = lower (n_name nd)")
    case True
    thus ?thesis using d samef by (auto simp: ch detached_def)
  next
    case False
    moreover have "\<not> (case_insensitive t \<and> child_of t p i e \<and> lower (n_name e) = f)" for e
      using False i by (auto simp: child_of_def)
    ultimately show ?thesis using d by (auto simp: ch ci detached_def tree_ok_fkid [OF ok])
  qed
  have tracks: "map_of (track_to_inode t') tid = Some c \<longleftrightarrow> (\<exists>e. node t' c = Some e \<and> n_kind e = File tid)" for tid c
  proof (cases "n_kind nd")
    case Dir
    thus ?thesis using d i by (auto simp: detached_def tree_ok_track [OF ok])
  next
    case (File tid')
    hence "map_of (track_to_inode t) tid' = Some i" using tree_ok_track [OF ok] i by blast
    hence uniq: "j = i" if "node t j = Some e" "n_kind e = File tid'" for j e
      using tree_ok_track [OF ok, of tid' j] that by auto
    have eqs: "map_of (track_to_inode t') = (map_of (track_to_inode t))(tid' := None)" "node t' = (node t)(i := None)"
      using d File by (simp_all add: detached_def)
    show ?thesis
    proof (cases "tid = tid'")
      case True
      thus ?thesis using uniq by (auto simp: eqs)
    next
      case False
      thus ?thesis using i(3) File by (auto simp: eqs tree_ok_track [OF ok])
    qed
  qed
  have "index_ok lower t'"
    unfolding index_ok_def using kids rkids fkids tracks d ok
    by (simp add: detached_is_dir [OF d]) (simp add: detached_def tree_ok_def index_ok_def)
  moreover have "root_ok t'" using ok d i by (auto simp: tree_ok_def root_ok_def detached_def)
  ultimately show ?thesis using nodes ok d by (simp add: tree_ok_def detached_def)
qed

lemma detached_alloc_ok:
  assumes "alloc_ok lower t a" "detached lower t t' i nd"
  shows "alloc_ok lower t' a"
proof -
  have "chain t' c nds \<Longrightarrow> chain t c nds" for c nds
    by (erule chain_mono) (rule detached_back [OF assms(2)])
  thus ?thesis using assms by (simp add: alloc_ok_def detached_def)
qed

lemma detached_full:
  assumes "full_dirs t X" "detached lower t t' i nd" "X \<subseteq> {i, n_parent nd}" "leaf t i nd"
  shows "full_dirs t' {n_parent nd}"
  unfolding full_dirs_def
proof (intro allI impI)
  fix d assume "is_dir t' d"
  hence d: "is_dir t d" "d \<noteq> i" using detached_is_dir [OF assms(2)] by auto
  show "d = root_ino \<or> d \<in> {n_parent nd} \<or> (\<exists>c nd. child_of t' d c nd)"
  proof (cases "d = root_ino \<or> d = n_parent nd")
    case False
    then obtain c e where "child_of t d c e" using assms(1,3) d by (auto simp: full_dirs_def)
    moreover have "c \<noteq> i"
      using \<open>child_of t d c e\<close> False assms(4) by (auto simp: leaf_def child_of_def)
    ultimately show ?thesis using detached_child_of [OF assms(2)] by blast
  qed auto
qed

subsection \<open>The operations detach\<close>

lemma ord_ok_unlink: "ord_ok t \<Longrightarrow> ord_ok (unlink lower t p n r)"
  by (simp add: unlink_def ord_ok_remove_folded ord_ok_remove_rendered ord_ok_drop_child)

lemma unlink_fx:
  "node (unlink lower t p n r) = node t"
  "case_insensitive (unlink lower t p n r) = case_insensitive t"
  "track_to_inode (unlink lower t p n r) = track_to_inode t"
  "kid (unlink lower t p n r) = (\<lambda>q m. if q = p \<and> m = n then None else kid t q m)"
  "rkid (unlink lower t p n r) = (\<lambda>q k m. if q = p \<and> k = rendered_key lower t r \<and> m = n then None else rkid t q k m)"
  "fkid (unlink lower t p n r) = (\<lambda>q f. if case_insensitive t \<and> q = p \<and> f = lower n then None else fkid t q f)"
  "map_of (children (unlink lower t p n r)) q \<noteq> None \<longleftrightarrow> map_of (children t) q \<noteq> None"
  "map_of (rendered_children (unlink lower t p n r)) q \<noteq> None \<longleftrightarrow> map_of (rendered_children t) q \<noteq> None"
proof -
  let ?d = "drop_child t p n" and ?r = "remove_rendered_child lower (drop_child t p n) p r n"
  have rk: "rendered_key lower ?d = rendered_key lower t" by (rule read_cong(5)) (simp add: tree_fx)
  have rd: "rkid ?d = rkid t" by (rule read_cong(3)) (simp add: tree_fx)
  have ru: "rkid (unlink lower t p n r) = rkid ?r" unfolding unlink_def by (rule read_cong(3)) (simp add: tree_fx)
  have ku: "kid (unlink lower t p n r) = kid ?d" unfolding unlink_def by (rule read_cong(2)) (simp add: tree_fx)
  have fr: "fkid ?r = fkid t" by (rule read_cong(4)) (simp add: tree_fx)
  show "node (unlink lower t p n r) = node t" by (rule read_cong(1)) (rule unlink_nodes)
  show "case_insensitive (unlink lower t p n r) = case_insensitive t" "track_to_inode (unlink lower t p n r) = track_to_inode t"
    by (simp_all add: unlink_def tree_fx)
  show "kid (unlink lower t p n r) = (\<lambda>q m. if q = p \<and> m = n then None else kid t q m)"
    unfolding ku by (rule drop_child_fx)
  show "rkid (unlink lower t p n r) = (\<lambda>q k m. if q = p \<and> k = rendered_key lower t r \<and> m = n then None else rkid t q k m)"
    unfolding ru remove_rendered_fx rk rd by simp
  show "fkid (unlink lower t p n r) = (\<lambda>q f. if case_insensitive t \<and> q = p \<and> f = lower n then None else fkid t q f)"
    unfolding unlink_def remove_folded_fx fr by (simp add: tree_fx)
  show "map_of (children (unlink lower t p n r)) q \<noteq> None \<longleftrightarrow> map_of (children t) q \<noteq> None"
    using drop_child_fx(7) [of t p n q] by (simp add: unlink_def tree_fx)
  show "map_of (rendered_children (unlink lower t p n r)) q \<noteq> None \<longleftrightarrow> map_of (rendered_children t) q \<noteq> None"
    using remove_rendered_fx(7) [of lower ?d p r n q] by (simp add: unlink_def tree_fx)
qed

lemma unlink_file_detached:
  assumes ok: "tree_ok lower t" and l: "leaf t i nd" and k: "n_kind nd = File tid"
    and t1: "t1 = t\<lparr>track_to_inode := hdel tid (track_to_inode t), nodes := hdel i (nodes t)\<rparr>"
  shows "detached lower t (unlink lower t1 (n_parent nd) (n_name nd) (n_rendered nd)) i nd"
proof -
  have k1: "kid t1 = kid t" "rkid t1 = rkid t" "fkid t1 = fkid t"
    by (auto simp: t1 kid_def rkid_def fkid_def fun_eq_iff)
  have n1: "node t1 = (node t)(i := None)" by (simp add: t1 node_def fun_eq_iff)
  have d1: "children t1 = children t" "rendered_children t1 = rendered_children t" by (simp_all add: t1)
  have r1: "map_of (track_to_inode t1) = (map_of (track_to_inode t))(tid := None)" "case_insensitive t1 = case_insensitive t"
    by (simp_all add: t1)
  have rk: "rendered_key lower t1 = rendered_key lower t" by (rule read_cong(5)) (rule r1)
  have "\<not> is_dir t i" using l k by (auto simp: leaf_def child_of_def is_dir_def node_kind_of_def)
  hence nd: "map_of (children t) i = None" "map_of (rendered_children t) i = None"
    using ok unfolding tree_ok_def index_ok_def by blast+
  have "ord_ok t \<longrightarrow> ord_ok (unlink lower t1 (n_parent nd) (n_name nd) (n_rendered nd))"
    using ord_ok_unlink [of t1] by (simp add: ord_ok_def d1)
  thus ?thesis
    unfolding detached_def unlink_fx n1 k1 r1 rk d1 using nd k by auto
qed

lemma unlink_dir_detached:
  assumes ok: "tree_ok lower t" and l: "leaf t i nd" and k: "n_kind nd = Dir"
  shows "detached lower t (unlink lower (drop_dir t i) (n_parent nd) (n_name nd) (n_rendered nd)) i nd"
proof -
  let ?t1 = "drop_dir t i"
  have none: "\<not> child_of t i c e" for c e using l by (auto simp: leaf_def kids_of_def)
  have "kid t i m = None" "rkid t i x m = None" "fkid t i f = None" for m x f
    using tree_ok_kid [OF ok, of i m] tree_ok_rkid [OF ok, of i x m] tree_ok_fkid [OF ok, of i f] none
    by (auto intro: option.exhaust)
  hence k1: "kid ?t1 = kid t" "rkid ?t1 = rkid t" "fkid ?t1 = fkid t"
    by (auto simp: drop_dir_def kid_def rkid_def fkid_def fun_eq_iff or_default_def [of "[]"])
  have n1: "node ?t1 = (node t)(i := None)" by (simp add: drop_dir_def node_def fun_eq_iff)
  have d1: "map_of (children ?t1) q \<noteq> None \<longleftrightarrow> map_of (children t) q \<noteq> None \<and> q \<noteq> i"
    "map_of (rendered_children ?t1) q \<noteq> None \<longleftrightarrow> map_of (rendered_children t) q \<noteq> None \<and> q \<noteq> i" for q
    by (auto simp: drop_dir_def)
  have r1: "track_to_inode ?t1 = track_to_inode t" "case_insensitive ?t1 = case_insensitive t"
    by (simp_all add: drop_dir_def)
  have rk: "rendered_key lower ?t1 = rendered_key lower t" by (rule read_cong(5)) (rule r1)
  have "ord_ok t \<longrightarrow> ord_ok ?t1" by (auto simp: ord_ok_def drop_dir_def or_default_def [of "[]"])
  hence "ord_ok t \<longrightarrow> ord_ok (unlink lower ?t1 (n_parent nd) (n_name nd) (n_rendered nd))"
    using ord_ok_unlink by blast
  thus ?thesis
    unfolding detached_def unlink_fx n1 k1 r1 rk d1 using k by auto
qed

lemma tree_le_alloc_ok:
  assumes "alloc_ok lower t a" "tree_le t' t"
  shows "alloc_ok lower t' a"
proof -
  have "chain t' c nds \<Longrightarrow> chain t c nds" for c nds
    by (rule tree_le_chain [OF assms(2)])
  thus ?thesis using assms by (simp add: alloc_ok_def tree_le_def)
qed

lemma detached_le: "detached lower t t' i nd \<Longrightarrow> tree_le t' t"
  by (auto simp: tree_le_def detached_def split: if_splits)

lemma no_kids_iff:
  assumes ok: "tree_ok lower t"
  shows "or_default (children t) d = [] \<longleftrightarrow> kids_of t d = {}"
proof
  assume "or_default (children t) d = []"
  hence none: "kid t d n = None" for n by (simp add: kid_def)
  have "\<not> child_of t d c nd" for c nd
    using tree_ok_kid [OF ok, of d "n_name nd" c] none [of "n_name nd"] by auto
  thus "kids_of t d = {}" by (simp add: kids_of_def)
next
  assume none: "kids_of t d = {}"
  show "or_default (children t) d = []"
  proof (cases "or_default (children t) d")
    case (Cons e es)
    hence "kid t d (fst e) = Some (snd e)" by (simp add: kid_def)
    thus ?thesis using tree_ok_kid [OF ok] none by (auto simp: kids_of_def)
  qed
qed

lemma prune_ok:
  assumes "tree_ok lower t" "full_dirs t {dir}" "is_dir t dir"
    "prune_empty_dirs_upward lower t dir lp = (surv, pruned, t')"
  shows "tree_ok lower t' \<and> full_dirs t' {} \<and> is_dir t' surv \<and> tree_le t' t \<and>
    map_of (track_to_inode t') = map_of (track_to_inode t)"
  using assms
proof (induction lower t dir lp rule: prune_empty_dirs_upward.induct)
  case (1 lower t dir lp)
  note ok = "1.prems"(1)
  obtain nd where nd: "node t dir = Some nd" "n_kind nd = Dir"
    using "1.prems"(3) by (auto simp: is_dir_def node_kind_of_def)
  show ?case
  proof (cases "dir \<noteq> root_ino \<and> or_default (children t) dir = []")
    case False
    hence "surv = dir" "t' = t" using "1.prems"(4) by (auto simp: prune_empty_dirs_upward.simps [of lower t dir lp])
    moreover have "full_dirs t {}"
      using False "1.prems"(2) no_kids_iff [OF ok] by (fastforce simp: full_dirs_def kids_of_def)
    ultimately show ?thesis using "1.prems" by simp
  next
    case True
    let ?t1 = "unlink lower (drop_dir t dir) (n_parent nd) (n_name nd) (n_rendered nd)"
    have l: "leaf t dir nd"
      using nd True no_kids_iff [OF ok] by (simp add: leaf_def child_of_def)
    have d: "detached lower t ?t1 dir nd" by (rule unlink_dir_detached [OF ok l nd(2)])
    have ok1: "tree_ok lower ?t1" by (rule detached_ok [OF ok d l])
    have full1: "full_dirs ?t1 {n_parent nd}" by (rule detached_full [OF "1.prems"(2) d _ l]) simp
    have p: "is_dir t (n_parent nd)" "n_parent nd \<noteq> dir"
      using l tree_ok_child [OF ok, of "n_parent nd" dir nd] by (auto simp: leaf_def kids_of_def)
    hence dir1: "is_dir ?t1 (n_parent nd)" using detached_is_dir [OF d] by simp
    have step: "prune_empty_dirs_upward lower ?t1 (n_parent nd) (Some (n_name nd, n_rendered nd)) = (surv, pruned, t')"
      using "1.prems"(4) True nd by (simp add: prune_empty_dirs_upward.simps [of lower t dir lp])
    have "map_of (track_to_inode ?t1) = map_of (track_to_inode t)" using d nd by (simp add: detached_def)
    thus ?thesis
      using "1.IH" [OF True nd(1) ok1 full1 dir1 step] detached_le [OF d] tree_le_trans by auto
  qed
qed

lemma remove_track_ok:
  assumes ok: "tree_ok lower t" "full_dirs t {}" and r: "remove_track lower t tid = (res, t')"
  shows "tree_ok lower t' \<and> full_dirs t' {} \<and> tree_le t' t \<and>
    map_of (track_to_inode t') = (map_of (track_to_inode t))(tid := None) \<and>
    (case res of None \<Rightarrow> map_of (track_to_inode t) tid = None | Some (surv, _) \<Rightarrow> is_dir t' surv)"
proof (cases "map_of (track_to_inode t) tid")
  case None
  thus ?thesis using r ok by (auto simp: remove_track_def fun_upd_idem)
next
  case (Some i)
  then obtain nd where nd: "node t i = Some nd" "n_kind nd = File tid" using tree_ok_track [OF ok(1)] by blast
  have root: "i \<noteq> root_ino" using ok nd by (auto simp: tree_ok_def root_ok_def)
  have "\<not> is_dir t i" using nd by (simp add: is_dir_def node_kind_of_def)
  hence "kids_of t i = {}" using tree_ok_child [OF ok(1), of i] by (auto simp: kids_of_def)
  hence l: "leaf t i nd" using nd root by (simp add: leaf_def child_of_def)
  let ?t1 = "t\<lparr>track_to_inode := hdel tid (track_to_inode t), nodes := hdel i (nodes t)\<rparr>"
  let ?t2 = "unlink lower ?t1 (n_parent nd) (n_name nd) (n_rendered nd)"
  have d: "detached lower t ?t2 i nd" by (rule unlink_file_detached [OF ok(1) l nd(2) refl])
  obtain surv pruned where p: "prune_empty_dirs_upward lower ?t2 (n_parent nd) None = (surv, pruned, t')" "res = Some (surv, pruned)"
    using r Some nd by (auto simp: remove_track_def Let_def node_def split: prod.splits)
  have par: "is_dir t (n_parent nd)" "n_parent nd \<noteq> i"
    using l tree_ok_child [OF ok(1), of "n_parent nd" i nd] \<open>\<not> is_dir t i\<close> by (auto simp: leaf_def)
  have full: "full_dirs t {i}" using ok(2) by (auto simp: full_dirs_def)
  have "is_dir ?t2 (n_parent nd)" using par detached_is_dir [OF d] by simp
  from prune_ok [OF detached_ok [OF ok(1) d l] detached_full [OF full d _ l] this p(1)]
  have "tree_ok lower t' \<and> full_dirs t' {} \<and> is_dir t' surv \<and> tree_le t' ?t2 \<and>
      map_of (track_to_inode t') = map_of (track_to_inode ?t2)" by simp
  moreover have "map_of (track_to_inode ?t2) = (map_of (track_to_inode t))(tid := None)"
    using d nd by (simp add: detached_def)
  ultimately show ?thesis using detached_le [OF d] tree_le_trans p(2) by auto
qed

lemma remove_tracks_ok:
  assumes "tree_ok lower t" "full_dirs t {}"
  shows "tree_ok lower (remove_tracks lower t ids) \<and> full_dirs (remove_tracks lower t ids) {} \<and>
    tree_le (remove_tracks lower t ids) t \<and>
    map_of (track_to_inode (remove_tracks lower t ids)) = (map_of (track_to_inode t)) |` (- set ids)"
  using assms
proof (induction ids arbitrary: t)
  case (Cons i ids)
  obtain res t1 where r: "remove_track lower t i = (res, t1)" by fastforce
  note st = remove_track_ok [OF Cons.prems r]
  have ih: "tree_ok lower (remove_tracks lower t1 ids) \<and> full_dirs (remove_tracks lower t1 ids) {} \<and>
    tree_le (remove_tracks lower t1 ids) t1 \<and>
    map_of (track_to_inode (remove_tracks lower t1 ids)) = (map_of (track_to_inode t1)) |` (- set ids)"
    by (rule Cons.IH) (use st in auto)
  have "(map_of (track_to_inode t1)) |` (- set ids) = map_of (track_to_inode t) |` (- set (i # ids))"
    using st by (auto simp: restrict_map_def fun_eq_iff)
  thus ?case using ih st r tree_le_trans [of _ t1 t] by simp
qed (simp add: restrict_map_def)

end
