(* ===== verification/Refresh_Diff.thy ===== *)
theory Refresh_Diff
  imports Core_Base
begin

text \<open>
  The change set of a refresh, musefs-core/src/refresh_diff.rs, with the format enumeration of the
  store (musefs-db/src/models.rs): a changelog read is partitioned against the render states of the
  previous refresh.
\<close>

datatype audio_format = Flac | Mp3 | M4a | Opus | Vorbis | OggFlac | Wav

fun format_str :: "audio_format \<Rightarrow> string" where
  "format_str Flac = ''flac''"
| "format_str Mp3 = ''mp3''"
| "format_str M4a = ''m4a''"
| "format_str Opus = ''opus''"
| "format_str Vorbis = ''vorbis''"
| "format_str OggFlac = ''oggflac''"
| "format_str Wav = ''wav''"

record track_render_state =
  rs_version :: int
  rs_format :: audio_format
  rs_path :: string

record change_set =
  cs_changed :: "int list"
  cs_added :: "int list"
  cs_removed :: "int list"

type_synonym render_states = "(int \<times> track_render_state) list"
type_synonym render_keys = "(int \<times> int \<times> audio_format) list"

text \<open>The live keys are collected into a map: the last entry of an id wins.\<close>

definition live_keys :: "render_keys \<Rightarrow> int \<Rightarrow> (int \<times> audio_format) option" where
  "live_keys keys = map_of (rev keys)"

fun partition_from :: "render_states \<Rightarrow> render_keys \<Rightarrow> change_set \<Rightarrow> int list \<Rightarrow> change_set" where
  "partition_from prev keys cs [] = cs"
| "partition_from prev keys cs (i # is) =
     partition_from prev keys
       (case (live_keys keys i, map_of prev i) of
          (Some (cv, fmt), Some s) \<Rightarrow>
            if rs_version s \<noteq> cv \<or> rs_format s \<noteq> fmt then cs\<lparr>cs_changed := cs_changed cs @ [i]\<rparr> else cs
        | (Some _, None) \<Rightarrow> cs\<lparr>cs_added := cs_added cs @ [i]\<rparr>
        | (None, Some _) \<Rightarrow> cs\<lparr>cs_removed := cs_removed cs @ [i]\<rparr>
        | (None, None) \<Rightarrow> cs) is"

definition partition_changelog :: "render_states \<Rightarrow> int list \<Rightarrow> render_keys \<Rightarrow> change_set" where
  "partition_changelog prev ids keys =
     partition_from prev keys \<lparr>cs_changed = [], cs_added = [], cs_removed = []\<rparr> ids"

lemma partition_from_eq:
  "partition_from prev keys cs ids =
     cs\<lparr>cs_changed := cs_changed cs @ filter (\<lambda>i. \<exists>cv fmt s. live_keys keys i = Some (cv, fmt) \<and>
          map_of prev i = Some s \<and> (rs_version s \<noteq> cv \<or> rs_format s \<noteq> fmt)) ids,
        cs_added := cs_added cs @ filter (\<lambda>i. live_keys keys i \<noteq> None \<and> map_of prev i = None) ids,
        cs_removed := cs_removed cs @ filter (\<lambda>i. live_keys keys i = None \<and> map_of prev i \<noteq> None) ids\<rparr>"
proof (induction ids arbitrary: cs)
  case (Cons i ids)
  show ?case
    by (cases "live_keys keys i"; cases "map_of prev i") (auto simp: Cons.IH)
qed simp

lemma partition_changelog_eq:
  "cs_changed (partition_changelog prev ids keys) = filter (\<lambda>i. \<exists>cv fmt s. live_keys keys i = Some (cv, fmt) \<and>
      map_of prev i = Some s \<and> (rs_version s \<noteq> cv \<or> rs_format s \<noteq> fmt)) ids"
  "cs_added (partition_changelog prev ids keys) = filter (\<lambda>i. live_keys keys i \<noteq> None \<and> map_of prev i = None) ids"
  "cs_removed (partition_changelog prev ids keys) = filter (\<lambda>i. live_keys keys i = None \<and> map_of prev i \<noteq> None) ids"
  by (simp_all add: partition_changelog_def partition_from_eq)

end
