(* ===== verification/Tree_Apply.thy ===== *)
theory Tree_Apply
  imports Tree_Remove Refresh_Diff
begin

text \<open>
  Incremental application of a change set to the virtual tree (musefs-core/src/tree.rs): the
  collision gate, the introducing id of a directory, the walks that collect the directories to
  rebuild, the rebuild of a subtree, and apply_changes. A loop along the parent chain or over a stack
  of inodes is a partial function; None also stands for a panic.
\<close>

subsection \<open>The collision gate\<close>

function probe_ranks :: "vtree \<Rightarrow> (string \<times> nat) list \<Rightarrow> string \<Rightarrow> nat \<Rightarrow> bool option" where
  "probe_ranks t kids r k =
     (if k \<ge> 2 ^ 32 then None
      else case map_of kids (suffix_candidate r k) of
             None \<Rightarrow> Some False
           | Some c \<Rightarrow>
               if (case node t c of Some n \<Rightarrow> n_rendered n = r | None \<Rightarrow> False) then Some True
               else probe_ranks t kids r (k + 1))"
  by pat_completeness auto
termination by (relation "measure (\<lambda>(_, _, _, k). 2 ^ 32 - k)") auto

declare probe_ranks.simps [simp del]

definition collision_gate :: "vtree \<Rightarrow> nat \<Rightarrow> string \<Rightarrow> string \<Rightarrow> bool option" where
  "collision_gate t dir name r =
     (if name \<noteq> r \<or> is_suffix_shaped name then Some True
      else case map_of (children t) dir of
             None \<Rightarrow> Some False
           | Some kids \<Rightarrow> probe_ranks t kids r 2)"

subsection \<open>Subtree walks\<close>

definition i64_max :: int where "i64_max = 2 ^ 63 - 1"

text \<open>The top of a stack is the head of the list; children are pushed in order.\<close>

definition push_kids :: "vtree \<Rightarrow> nat \<Rightarrow> nat list \<Rightarrow> nat list" where
  "push_kids t n stack = rev (map snd (or_default (children t) n)) @ stack"

partial_function (option) min_track :: "vtree \<Rightarrow> int \<Rightarrow> nat list \<Rightarrow> int option" where
  "min_track t m stack =
     (case stack of
        [] \<Rightarrow> Some m
      | n # rest \<Rightarrow>
          (case track_id t n of
             Some tid \<Rightarrow> min_track t (min m tid) rest
           | None \<Rightarrow> min_track t m (push_kids t n rest)))"

definition introducing_id :: "vtree \<Rightarrow> nat \<Rightarrow> int option" where
  "introducing_id t ino =
     (case track_id t ino of Some tid \<Rightarrow> Some tid | None \<Rightarrow> min_track t i64_max [ino])"

partial_function (option) collect_tracks :: "vtree \<Rightarrow> int list \<Rightarrow> nat list \<Rightarrow> int list option" where
  "collect_tracks t ids stack =
     (case stack of
        [] \<Rightarrow> Some ids
      | n # rest \<Rightarrow>
          (case track_id t n of
             Some tid \<Rightarrow> collect_tracks t (ids @ [tid]) rest
           | None \<Rightarrow> collect_tracks t ids (push_kids t n rest)))"

partial_function (option) dirty_removed_ancestors :: "vtree \<Rightarrow> nat \<Rightarrow> int \<Rightarrow> nat list \<Rightarrow> nat list option" where
  "dirty_removed_ancestors t child tid dirty =
     (if child = root_ino then Some dirty
      else case node t child of
             None \<Rightarrow> Some dirty
           | Some n \<Rightarrow>
               Option.bind (collision_gate t (n_parent n) (n_name n) (n_rendered n)) (\<lambda>gated.
               if gated then
                 Option.bind (introducing_id t child) (\<lambda>intro.
                 if intro = tid then dirty_removed_ancestors t (n_parent n) tid (List.insert (n_parent n) dirty)
                 else Some dirty)
               else dirty_removed_ancestors t (n_parent n) tid dirty))"

partial_function (option) dirty_min_flip_ancestors :: "vtree \<Rightarrow> nat \<Rightarrow> int \<Rightarrow> nat list \<Rightarrow> nat list option" where
  "dirty_min_flip_ancestors t child tid dirty =
     (if child = root_ino then Some dirty
      else case node t child of
             None \<Rightarrow> Some dirty
           | Some n \<Rightarrow>
               Option.bind (collision_gate t (n_parent n) (n_name n) (n_rendered n)) (\<lambda>gated.
               if gated then
                 Option.bind (introducing_id t child) (\<lambda>intro.
                 if tid < intro then dirty_min_flip_ancestors t (n_parent n) tid (List.insert (n_parent n) dirty)
                 else Some dirty)
               else dirty_min_flip_ancestors t (n_parent n) tid dirty))"

fun descend_existing :: "folding \<Rightarrow> vtree \<Rightarrow> nat \<Rightarrow> nat \<Rightarrow> string list \<Rightarrow> nat \<times> nat" where
  "descend_existing lower t dir consumed [] = (dir, consumed)"
| "descend_existing lower t dir consumed (c # cs) =
     (case dir_child_named lower t dir (truncate_component c False) of
        Some d \<Rightarrow> descend_existing lower t d (consumed + 1) cs
      | None \<Rightarrow> (dir, consumed))"

definition deepest_existing_ancestor :: "folding \<Rightarrow> vtree \<Rightarrow> string \<Rightarrow> nat \<times> nat" where
  "deepest_existing_ancestor lower t r = descend_existing lower t root_ino 0 (butlast (path_components r))"

partial_function (option) ancestor_in :: "vtree \<Rightarrow> nat \<Rightarrow> nat list \<Rightarrow> bool option" where
  "ancestor_in t cur done_dirs =
     (if cur \<in> set done_dirs then Some True
      else if cur = root_ino then Some False
      else case node t cur of Some n \<Rightarrow> ancestor_in t (n_parent n) done_dirs | None \<Rightarrow> Some False)"

subsection \<open>Rebuilding a subtree\<close>

type_synonym rebuild_result = "((rebuild_error + vtree) \<times> inode_allocator) option"

fun insert_rendered_ids ::
  "folding \<Rightarrow> render_states \<Rightarrow> vtree \<Rightarrow> inode_allocator \<Rightarrow> int list \<Rightarrow> rebuild_result" where
  "insert_rendered_ids lower paths t a [] = Some (Inr t, a)"
| "insert_rendered_ids lower paths t a (i # is) =
     (case map_of paths i of
        None \<Rightarrow> Some (Inl (MissingRenderedPath i), a)
      | Some s \<Rightarrow> Option.bind (insert_file lower t a i (rs_path s)) (\<lambda>(t, a). insert_rendered_ids lower paths t a is))"

definition rebuild_subtree ::
  "folding \<Rightarrow> vtree \<Rightarrow> nat \<Rightarrow> render_states \<Rightarrow> inode_allocator \<Rightarrow> rebuild_result" where
  "rebuild_subtree lower t dir paths a =
     Option.bind (collect_tracks t [] [dir]) (\<lambda>ids.
     insert_rendered_ids lower paths (remove_tracks lower t ids) a (sort ids))"

subsection \<open>Applying a change set\<close>

fun split_moved ::
  "vtree \<Rightarrow> render_states \<Rightarrow> int list \<Rightarrow> int list \<Rightarrow> int list \<Rightarrow> (rebuild_error + (int list \<times> int list)) option" where
  "split_moved t paths out inn [] = Some (Inr (out, inn))"
| "split_moved t paths out inn (i # is) =
     (case map_of paths i of
        None \<Rightarrow> Some (Inl (MissingRenderedPath i))
      | Some s \<Rightarrow>
          (case inode_of_track t i of
             None \<Rightarrow> split_moved t paths out (inn @ [i]) is
           | Some ino \<Rightarrow>
               Option.bind (path_of t ino) (\<lambda>p.
               if p = rs_path s then split_moved t paths out inn is
               else split_moved t paths (out @ [i]) (inn @ [i]) is)))"

fun dirty_out :: "vtree \<Rightarrow> nat list \<Rightarrow> int list \<Rightarrow> nat list option" where
  "dirty_out t dirty [] = Some dirty"
| "dirty_out t dirty (i # is) =
     (case inode_of_track t i of
        None \<Rightarrow> dirty_out t dirty is
      | Some lf \<Rightarrow> Option.bind (dirty_removed_ancestors t lf i dirty) (\<lambda>dirty. dirty_out t dirty is))"

definition first_new_taken :: "folding \<Rightarrow> vtree \<Rightarrow> string list \<Rightarrow> nat \<Rightarrow> nat \<Rightarrow> bool" where
  "first_new_taken lower t comps d consumed \<longleftrightarrow>
     (consumed < length comps \<and>
      taken lower t d (truncate_component (comps ! consumed) (consumed + 1 = length comps)))"

fun dirty_in ::
  "folding \<Rightarrow> vtree \<Rightarrow> render_states \<Rightarrow> nat list \<Rightarrow> int list \<Rightarrow> (rebuild_error + nat list) option" where
  "dirty_in lower t paths dirty [] = Some (Inr dirty)"
| "dirty_in lower t paths dirty (i # is) =
     (case map_of paths i of
        None \<Rightarrow> Some (Inl (MissingRenderedPath i))
      | Some s \<Rightarrow>
          (case deepest_existing_ancestor lower t (rs_path s) of
             (d, consumed) \<Rightarrow>
               Option.bind (dirty_min_flip_ancestors t d i
                 (if first_new_taken lower t (path_components (rs_path s)) d consumed then List.insert d dirty else dirty))
               (\<lambda>dirty. dirty_in lower t paths dirty is)))"

fun mutate_out :: "folding \<Rightarrow> vtree \<Rightarrow> nat list \<Rightarrow> int list \<Rightarrow> (vtree \<times> nat list) option" where
  "mutate_out lower t dirty [] = Some (t, dirty)"
| "mutate_out lower t dirty (i # is) =
     (case remove_track lower t i of
        (Some (surv, Some (name, r)), t) \<Rightarrow>
          Option.bind (collision_gate t surv name r) (\<lambda>gated.
          mutate_out lower t (if gated then List.insert surv dirty else dirty) is)
      | (_, t) \<Rightarrow> mutate_out lower t dirty is)"

fun rebuild_dirty ::
  "folding \<Rightarrow> render_states \<Rightarrow> vtree \<Rightarrow> inode_allocator \<Rightarrow> nat list \<Rightarrow> nat \<Rightarrow> nat list \<Rightarrow>
     ((rebuild_error + (vtree \<times> nat)) \<times> inode_allocator) option" where
  "rebuild_dirty lower paths t a done_dirs rebuilds [] = Some (Inr (t, rebuilds), a)"
| "rebuild_dirty lower paths t a done_dirs rebuilds (d # ds) =
     (if node t d = None then rebuild_dirty lower paths t a done_dirs rebuilds ds
      else Option.bind (ancestor_in t d done_dirs) (\<lambda>covered.
           if covered then rebuild_dirty lower paths t a done_dirs rebuilds ds
           else Option.bind (rebuild_subtree lower t d paths a) (\<lambda>(r, a).
                case r of
                  Inl e \<Rightarrow> Some (Inl e, a)
                | Inr t \<Rightarrow> rebuild_dirty lower paths t a (d # done_dirs) (rebuilds + 1) ds)))"

text \<open>The order in which a hash set is listed is a parameter; the sort by depth is stable.\<close>

definition apply_changes ::
  "folding \<Rightarrow> (nat list \<Rightarrow> nat list) \<Rightarrow> vtree \<Rightarrow> render_states \<Rightarrow> int list \<Rightarrow> int list \<Rightarrow> int list \<Rightarrow> inode_allocator \<Rightarrow>
     ((rebuild_error + (vtree \<times> nat)) \<times> inode_allocator) option" where
  "apply_changes lower hash_order t paths changed added removed a =
     Option.bind (split_moved t paths [] [] changed) (\<lambda>r. case r of Inl e \<Rightarrow> Some (Inl e, a) | Inr (moved_out, moved_in) \<Rightarrow>
     Option.bind (dirty_out t [] (removed @ moved_out)) (\<lambda>dirty.
     Option.bind (dirty_in lower t paths dirty (added @ moved_in)) (\<lambda>r. case r of Inl e \<Rightarrow> Some (Inl e, a) | Inr dirty \<Rightarrow>
     Option.bind (mutate_out lower t dirty (removed @ moved_out)) (\<lambda>(t, dirty).
     Option.bind (insert_rendered_ids lower paths t a (sort (added @ moved_in))) (\<lambda>(r, a). case r of Inl e \<Rightarrow> Some (Inl e, a) | Inr t \<Rightarrow>
       let live_dirty = filter (\<lambda>d. node t d \<noteq> None) (hash_order dirty) in
       if list_ex (\<lambda>d. path_of t d = None) live_dirty then None
       else rebuild_dirty lower paths t a [] 0
              (sort_key (\<lambda>d. length (path_components (the (path_of t d)))) live_dirty))))))"

end
