(* ===== verification/Tree_Walks.thy ===== *)
theory Tree_Walks
  imports Tree_Apply
begin

text \<open>
  The loops of the incremental update end: walks up the parent chain follow a chain of the tree, and
  a walk over a stack of subtrees visits disjoint sets of inodes.
\<close>

definition wf_tree :: "folding \<Rightarrow> vtree \<Rightarrow> inode_allocator \<Rightarrow> bool" where
  "wf_tree lower t a \<longleftrightarrow> tree_ok lower t \<and> alloc_ok lower t a \<and> full_dirs t {}"

subsection \<open>Up the parent chain\<close>

lemma path_up_chain: "chain t c nds \<Longrightarrow> path_up t c parts = Some (map n_name nds @ parts)"
proof (induction arbitrary: parts rule: chain.induct)
  case root
  thus ?case by (simp add: path_up.simps)
next
  case (step p nds c nd)
  thus ?case by (subst path_up.simps) auto
qed

lemma path_of_chain: "chain t c nds \<Longrightarrow> path_of t c = Some (chain_path nds)"
proof -
  assume c: "chain t c nds"
  show ?thesis
  proof (cases "c = root_ino")
    case True
    hence "nds = []" using chain_det [OF c] chain.root by blast
    thus ?thesis using True by (simp add: path_of_def chain_path_def)
  next
    case False
    thus ?thesis using path_up_chain [OF c, of "[]"] by (simp add: path_of_def chain_path_def)
  qed
qed

lemma ancestor_in_total: "chain t c nds \<Longrightarrow> \<exists>b. ancestor_in t c ds = Some b"
proof (induction rule: chain.induct)
  case root
  show ?case by (subst ancestor_in.simps) auto
next
  case (step p nds c nd)
  thus ?case by (subst ancestor_in.simps) auto
qed

subsection \<open>Subtrees\<close>

definition under :: "vtree \<Rightarrow> nat \<Rightarrow> nat set" where
  "under t n = {i. \<exists>ns zs. chain t n ns \<and> chain t i (ns @ zs)}"

fun apart :: "vtree \<Rightarrow> nat list \<Rightarrow> bool" where
  "apart t [] = True"
| "apart t (n # ns) \<longleftrightarrow> (\<forall>m\<in>set ns. under t n \<inter> under t m = {}) \<and> apart t ns"

lemma apart_append: "apart t (xs @ ys) \<longleftrightarrow>
    apart t xs \<and> apart t ys \<and> (\<forall>x\<in>set xs. \<forall>y\<in>set ys. under t x \<inter> under t y = {})"
  by (induction xs) auto

lemma finite_under: "root_ok t \<Longrightarrow> finite (under t n)"
  by (rule finite_subset [OF _ finite_nodes [of t]]) (auto simp: under_def dest: chain_node)

lemma under_self: "chain t n ns \<Longrightarrow> n \<in> under t n"
  unfolding under_def mem_Collect_eq by (rule exI [of _ ns], rule exI [of _ "[]"]) simp

lemma under_file:
  assumes ok: "tree_ok lower t" and f: "track_id t n = Some tid"
  shows "under t n = {n}"
proof -
  obtain nd where nd: "node t n = Some nd" "n_kind nd = File tid"
    using f by (auto simp: track_id_def node_kind_of_def split: option.splits node_kind.splits)
  obtain ns where ns: "chain t n ns" using tree_ok_chain [OF ok] nd by blast
  have "i = n" if c: "chain t i (ns @ zs)" for i zs
  proof (cases zs rule: rev_cases)
    case Nil
    thus ?thesis using chain_inj [OF ok ns] c by simp
  next
    case (snoc ys y)
    obtain z zs' where z: "zs = z # zs'" using snoc by (metis append_is_Nil_conv neq_Nil_conv)
    then obtain j where j: "chain t j (ns @ [z])" using chain_prefix [of t i "ns @ [z]" zs'] c by auto
    hence "child_of t n j z"
      using chain_inj [OF ok ns] by (auto simp: child_of_def elim!: chain_snocE)
    hence "is_dir t n" using tree_ok_child [OF ok] by blast
    thus ?thesis using nd by (simp add: is_dir_def node_kind_of_def)
  qed
  thus ?thesis using ns under_self [OF ns] chain_det by (fastforce simp: under_def)
qed

lemma under_dir:
  assumes ok: "tree_ok lower t" and d: "node t n \<noteq> None"
  shows "under t n = insert n (\<Union>c\<in>kids_of t n. under t c)"
proof -
  obtain ns where ns: "chain t n ns" using tree_ok_chain [OF ok d] by blast
  have kid: "chain t c (ns @ [nd])" if "child_of t n c nd" for c nd
    using that ns by (auto simp: child_of_def intro: chain.step)
  show ?thesis
  proof (intro set_eqI iffI)
    fix i assume "i \<in> under t n"
    then obtain zs where zs: "chain t i (ns @ zs)" using ns chain_det by (fastforce simp: under_def)
    show "i \<in> insert n (\<Union>c\<in>kids_of t n. under t c)"
    proof (cases zs)
      case Nil
      thus ?thesis using chain_inj [OF ok ns] zs by simp
    next
      case (Cons z zs')
      then obtain j where j: "chain t j (ns @ [z])" using chain_prefix [of t i "ns @ [z]" zs'] zs by auto
      hence "child_of t n j z" using chain_inj [OF ok ns] by (auto simp: child_of_def elim!: chain_snocE)
      moreover have "i \<in> under t j" using j zs Cons unfolding under_def by fastforce
      ultimately show ?thesis by (auto simp: kids_of_def)
    qed
  next
    fix i assume i: "i \<in> insert n (\<Union>c\<in>kids_of t n. under t c)"
    show "i \<in> under t n"
    proof (cases "i = n")
      case True
      thus ?thesis using under_self [OF ns] by simp
    next
      case False
      then obtain c nd where c: "child_of t n c nd" "i \<in> under t c" using i by (auto simp: kids_of_def)
      then obtain zs where "chain t i ((ns @ [nd]) @ zs)" using kid chain_det by (fastforce simp: under_def)
      thus ?thesis using ns by (auto simp: under_def)
    qed
  qed
qed

lemma kids_apart:
  assumes ok: "tree_ok lower t" and c: "child_of t n c nd" "child_of t n c' nd'" "c \<noteq> c'"
  shows "under t c \<inter> under t c' = {}"
proof (rule ccontr)
  assume "under t c \<inter> under t c' \<noteq> {}"
  then obtain i where i: "i \<in> under t c" "i \<in> under t c'" by blast
  have "node t n \<noteq> None" using tree_ok_child [OF ok c(1)] by (auto simp: is_dir_def node_kind_of_def)
  then obtain ns where ns: "chain t n ns" using tree_ok_chain [OF ok] by blast
  have k: "chain t c (ns @ [nd])" "chain t c' (ns @ [nd'])" using c ns by (auto simp: child_of_def intro: chain.step)
  obtain zs zs' where "chain t i ((ns @ [nd]) @ zs)" "chain t i ((ns @ [nd']) @ zs')"
    using i k chain_det by (fastforce simp: under_def)
  hence "nd = nd'" using chain_det by fastforce
  thus False using c children_unique [OF ok c(1,2)] by simp
qed

lemma kid_not_under:
  assumes ok: "tree_ok lower t" and c: "child_of t n c nd"
  shows "n \<notin> under t c"
proof
  assume n: "n \<in> under t c"
  have "node t n \<noteq> None" using tree_ok_child [OF ok c(1)] by (auto simp: is_dir_def node_kind_of_def)
  then obtain ns where ns: "chain t n ns" using tree_ok_chain [OF ok] by blast
  have "chain t c (ns @ [nd])" using c ns by (auto simp: child_of_def intro: chain.step)
  then obtain zs where "chain t n ((ns @ [nd]) @ zs)" using n chain_det by (fastforce simp: under_def)
  hence "ns = (ns @ [nd]) @ zs" using chain_det [OF ns] by blast
  thus False by simp
qed

lemma kid_list:
  assumes ok: "tree_ok lower t"
  shows "set (map snd (or_default (children t) n)) = kids_of t n" "distinct (map snd (or_default (children t) n))"
proof -
  let ?l = "or_default (children t) n"
  have d: "distinct (map fst ?l)" using ok by (simp add: tree_ok_def ord_ok_def keys_sorted_distinct)
  have m: "(k, c) \<in> set ?l \<longleftrightarrow> (\<exists>nd. child_of t n c nd \<and> n_name nd = k)" for k c
    using tree_ok_kid [OF ok, of n k c] d by (simp add: kid_def)
  show "set (map snd ?l) = kids_of t n"
  proof (intro set_eqI iffI)
    fix c assume "c \<in> set (map snd ?l)"
    then obtain k where "(k, c) \<in> set ?l" by auto
    thus "c \<in> kids_of t n" using m [of k c] by (auto simp: kids_of_def)
  next
    fix c assume "c \<in> kids_of t n"
    then obtain nd where "child_of t n c nd" by (auto simp: kids_of_def)
    hence "(n_name nd, c) \<in> set ?l" using m [of "n_name nd" c] by blast
    thus "c \<in> set (map snd ?l)" by force
  qed
  have "inj_on snd (set ?l)"
  proof (rule inj_onI)
    fix x y assume xy: "x \<in> set ?l" "y \<in> set ?l" "snd x = snd y"
    obtain nd nd' where "child_of t n (snd x) nd" "n_name nd = fst x" "child_of t n (snd y) nd'" "n_name nd' = fst y"
      using m [of "fst x" "snd x"] m [of "fst y" "snd y"] xy(1,2) by auto
    thus "x = y" using xy(3) by (auto simp: child_of_def prod_eq_iff)
  qed
  thus "distinct (map snd ?l)" using d by (simp add: distinct_map)
qed

lemma apart_disjoint_sum:
  "root_ok t \<Longrightarrow> apart t ns \<Longrightarrow> card (\<Union>n\<in>set ns. under t n) = (\<Sum>n\<leftarrow>ns. card (under t n))"
proof (induction ns)
  case (Cons n ns)
  have "under t n \<inter> (\<Union>m\<in>set ns. under t m) = {}" using Cons.prems(2) by auto
  thus ?case using Cons finite_under [OF Cons.prems(1)] by (simp add: card_Un_disjoint)
qed simp

lemma push_kids_apart:
  assumes ok: "tree_ok lower t" and st: "apart t (n # rest)" "\<forall>m\<in>set (n # rest). node t m \<noteq> None"
  shows "apart t (push_kids t n rest)" "\<forall>m\<in>set (push_kids t n rest). node t m \<noteq> None"
    "insert n (\<Union>m\<in>set (push_kids t n rest). under t m) = (\<Union>m\<in>set (n # rest). under t m)"
    "n \<notin> (\<Union>m\<in>set (push_kids t n rest). under t m)"
proof -
  let ?ks = "rev (map snd (or_default (children t) n))"
  have ks: "set ?ks = kids_of t n" "distinct ?ks" using kid_list [OF ok, of n] by simp_all
  have u: "under t n = insert n (\<Union>c\<in>kids_of t n. under t c)" using under_dir [OF ok] st(2) by simp
  have "apart t xs" if "distinct xs" "set xs \<subseteq> kids_of t n" for xs
    using that kids_apart [OF ok] by (induction xs) (fastforce simp: kids_of_def)+
  hence "apart t ?ks" using ks by blast
  moreover have "under t x \<inter> under t y = {}" if "x \<in> kids_of t n" "y \<in> set rest" for x y
    using st(1) that u by auto
  ultimately show "apart t (push_kids t n rest)"
    using st(1) ks(1) unfolding push_kids_def apart_append by auto
  show "\<forall>m\<in>set (push_kids t n rest). node t m \<noteq> None"
    using st(2) ks(1) unfolding push_kids_def by (auto simp: kids_of_def child_of_def)
  show "insert n (\<Union>m\<in>set (push_kids t n rest). under t m) = (\<Union>m\<in>set (n # rest). under t m)"
    using u ks(1) unfolding push_kids_def by auto
  show "n \<notin> (\<Union>m\<in>set (push_kids t n rest). under t m)"
    using u ks(1) st(1) kid_not_under [OF ok] unfolding push_kids_def by (auto simp: kids_of_def)
qed

definition tracks_in :: "vtree \<Rightarrow> nat set \<Rightarrow> int set" where
  "tracks_in t S = {tid. \<exists>i\<in>S. map_of (track_to_inode t) tid = Some i}"

lemma collect_min_total:
  assumes "tree_ok lower t" "apart t stack" "\<forall>m\<in>set stack. node t m \<noteq> None"
  shows "\<exists>ids'. collect_tracks t ids stack = Some (ids @ ids') \<and> distinct ids' \<and>
    set ids' = tracks_in t (\<Union>n\<in>set stack. under t n) \<and> min_track t m stack = Some (foldl min m ids')"
  using assms
proof (induction "card (\<Union>n\<in>set stack. under t n)" arbitrary: stack ids m rule: less_induct)
  case less
  note ok = less.prems(1)
  have fin: "finite (\<Union>n\<in>set ns. under t n)" for ns
    using finite_under ok by (auto simp: tree_ok_def)
  show ?case
  proof (cases stack)
    case Nil
    thus ?thesis by (subst collect_tracks.simps, subst min_track.simps) (simp add: tracks_in_def)
  next
    case (Cons n rest)
    have node: "node t n \<noteq> None" using less.prems(3) Cons by simp
    have self: "n \<in> under t n" using under_self tree_ok_chain [OF ok node] by blast
    show ?thesis
    proof (cases "track_id t n")
      case (Some tid)
      have un: "under t n = {n}" by (rule under_file [OF ok Some])
      have tr: "map_of (track_to_inode t) tid = Some n"
        using Some tree_ok_track [OF ok] by (auto simp: track_id_def node_kind_of_def split: option.splits node_kind.splits)
      have ap: "apart t rest" "n \<notin> (\<Union>m\<in>set rest. under t m)" using less.prems(2) Cons un by auto
      have "(\<Union>m\<in>set stack. under t m) = insert n (\<Union>m\<in>set rest. under t m)" using Cons un by simp
      hence "card (\<Union>m\<in>set rest. under t m) < card (\<Union>m\<in>set stack. under t m)" using ap(2) fin by simp
      from less.hyps [OF this ok ap(1), of "ids @ [tid]" "min m tid"] less.prems(3) Cons
      obtain ids' where ids': "collect_tracks t (ids @ [tid]) rest = Some ((ids @ [tid]) @ ids')" "distinct ids'"
        "set ids' = tracks_in t (\<Union>n\<in>set rest. under t n)" "min_track t (min m tid) rest = Some (foldl min (min m tid) ids')"
        by auto
      have "tid \<notin> set ids'" using ids'(3) ap(2) tr by (auto simp: tracks_in_def)
      moreover have "set (tid # ids') = tracks_in t (\<Union>n\<in>set stack. under t n)"
      proof -
        have "tracks_in t {n} = {tid}"
          using tr tree_ok_track [OF ok] by (auto simp: tracks_in_def)
        hence "tracks_in t (insert n S) = insert tid (tracks_in t S)" for S by (auto simp: tracks_in_def)
        thus ?thesis using ids'(3) Cons un by simp
      qed
      moreover have "collect_tracks t ids stack = Some (ids @ tid # ids')" "min_track t m stack = Some (foldl min m (tid # ids'))"
        using Cons Some ids' by (subst collect_tracks.simps min_track.simps, simp)+
      ultimately show ?thesis using ids'(2) by (intro exI [of _ "tid # ids'"]) simp
    next
      case None
      note pk = push_kids_apart [OF ok, of n rest]
      have st: "apart t (n # rest)" "\<forall>m\<in>set (n # rest). node t m \<noteq> None" using less.prems Cons by auto
      have eq: "insert n (\<Union>m\<in>set (push_kids t n rest). under t m) = (\<Union>m\<in>set stack. under t m)" using pk(3) [OF st] Cons by simp
      have "card (\<Union>m\<in>set (push_kids t n rest). under t m) < card (\<Union>m\<in>set stack. under t m)"
        unfolding eq [symmetric] using pk(4) [OF st] fin by simp
      from less.hyps [OF this ok pk(1,2) [OF st], of ids m]
      obtain ids' where ids': "collect_tracks t ids (push_kids t n rest) = Some (ids @ ids')" "distinct ids'"
        "set ids' = tracks_in t (\<Union>n\<in>set (push_kids t n rest). under t n)" "min_track t m (push_kids t n rest) = Some (foldl min m ids')"
        by auto
      have "tracks_in t {n} = {}"
        using None tree_ok_track [OF ok] by (auto simp: tracks_in_def track_id_def node_kind_of_def)
      hence "tracks_in t (insert n S) = tracks_in t S" for S by (auto simp: tracks_in_def)
      hence "set ids' = tracks_in t (\<Union>n\<in>set stack. under t n)" using ids'(3) eq by metis
      moreover have "collect_tracks t ids stack = Some (ids @ ids')" "min_track t m stack = Some (foldl min m ids')"
        using Cons None ids' by (subst collect_tracks.simps min_track.simps, simp)+
      ultimately show ?thesis using ids'(2) by blast
    qed
  qed
qed

lemma collect_tracks_total:
  assumes ok: "tree_ok lower t" and d: "node t d \<noteq> None"
  shows "\<exists>ids. collect_tracks t [] [d] = Some ids \<and> distinct ids \<and> set ids = tracks_in t (under t d)"
  using collect_min_total [OF ok, of "[d]" "[]" 0] d by auto

lemma introducing_id_total: "tree_ok lower t \<Longrightarrow> node t d \<noteq> None \<Longrightarrow> \<exists>m. introducing_id t d = Some m"
  using collect_min_total [of lower t "[d]" "[]" i64_max] by (auto simp: introducing_id_def split: option.splits)

subsection \<open>The collision gate answers\<close>

lemma probe_ranks_exhausted:
  "probe_ranks t kids r k = None \<Longrightarrow> k \<le> j \<Longrightarrow> j < 2 ^ 32 \<Longrightarrow> map_of kids (suffix_candidate r j) \<noteq> None"
proof (induction t kids r k rule: probe_ranks.induct)
  case (1 t kids r k)
  show ?case
  proof (cases "j = k")
    case True
    thus ?thesis using 1 by (auto simp: probe_ranks.simps [of t kids r k] split: option.splits)
  next
    case False
    hence k: "k + 1 \<le> j" "\<not> 2 ^ 32 \<le> k" using "1.prems" by auto
    obtain c where c: "map_of kids (suffix_candidate r k) = Some c"
      using "1.prems"(1) k by (auto simp: probe_ranks.simps [of t kids r k] split: option.splits)
    have "\<not> (case node t c of Some n \<Rightarrow> n_rendered n = r | None \<Rightarrow> False)" "probe_ranks t kids r (k + 1) = None"
      using "1.prems"(1) k c by (auto simp: probe_ranks.simps [of t kids r k] split: if_splits)
    thus ?thesis using "1.IH" [OF k(2) c] k "1.prems"(3) by blast
  qed
qed

lemma collision_gate_total:
  assumes ok: "tree_ok lower t" and room: "card (kids_of t d) + 4 < 2 ^ 32"
  shows "\<exists>b. collision_gate t d name r = Some b"
proof (rule ccontr)
  assume "\<nexists>b. collision_gate t d name r = Some b"
  then obtain kids where k: "map_of (children t) d = Some kids" "probe_ranks t kids r 2 = None"
    by (auto simp: collision_gate_def split: if_splits option.splits)
  have taken: "map_of kids (suffix_candidate r j) \<noteq> None" if "j \<in> {2..<2 ^ 32}" for j
    using probe_ranks_exhausted [OF k(2), of j] that by simp
  have kids: "or_default (children t) d = kids" using k(1) by (rule or_default_Some)
  have "(\<lambda>j. suffix_candidate r j) ` {2..<2 ^ 32} \<subseteq> (\<lambda>c. n_name (the (node t c))) ` kids_of t d"
  proof
    fix x assume "x \<in> (\<lambda>j. suffix_candidate r j) ` {2..<2 ^ 32}"
    then obtain c where "map_of kids x = Some c" using taken by blast
    hence "kid t d x = Some c" by (simp add: kid_def kids)
    then obtain nd where "child_of t d c nd" "n_name nd = x" using tree_ok_kid [OF ok] by blast
    thus "x \<in> (\<lambda>c. n_name (the (node t c))) ` kids_of t d"
      by (intro image_eqI [of _ _ c]) (auto simp: kids_of_def child_of_def)
  qed
  moreover have "inj_on (\<lambda>j. suffix_candidate r j) {2..<2 ^ 32}" using suffix_candidate_inj by (auto intro: inj_onI)
  ultimately have "card {2..<2 ^ 32::nat} \<le> card (kids_of t d)"
    using surj_card_le finite_kids by (meson card_image_le card_inj_on_le finite_imageI le_trans)
  thus False using room by simp
qed

lemma kids_room:
  assumes ok: "tree_ok lower t" "full_dirs t {}" and room: "track_count t + 4 < 2 ^ 32"
  shows "card (kids_of t d) + 4 < 2 ^ 32"
proof (cases "kids_of t d = {}")
  case True
  thus ?thesis using room by simp
next
  case False
  then obtain c nd where "child_of t d c nd" by (auto simp: kids_of_def)
  hence "node t d \<noteq> None" using tree_ok_child [OF ok(1), of d c nd] by (auto simp: is_dir_def node_kind_of_def)
  then obtain ns where "chain t d ns" using tree_ok_chain [OF ok(1)] by blast
  moreover have "full_dirs t {d}" using ok(2) by (auto simp: full_dirs_def)
  ultimately have "card (kids_of t d) \<le> track_count t"
    using kids_bound [OF ok(1)] unfolding track_count_def by blast
  thus ?thesis using room by linarith
qed

lemma gate_total:
  "tree_ok lower t \<Longrightarrow> full_dirs t {} \<Longrightarrow> track_count t + 4 < 2 ^ 32 \<Longrightarrow> \<exists>b. collision_gate t d name r = Some b"
  by (rule collision_gate_total, assumption, rule kids_room)

lemma dirty_walks_total:
  assumes "chain t c nds" and ok: "tree_ok lower t" "full_dirs t {}" "track_count t + 4 < 2 ^ 32"
  shows "(\<exists>ds. dirty_removed_ancestors t c tid dirty = Some ds) \<and> (\<exists>ds. dirty_min_flip_ancestors t c tid dirty = Some ds)"
  using assms(1)
proof (induction arbitrary: dirty rule: chain.induct)
  case root
  show ?case by (subst dirty_removed_ancestors.simps, subst dirty_min_flip_ancestors.simps) simp
next
  case (step p nds c nd)
  obtain g where g: "collision_gate t (n_parent nd) (n_name nd) (n_rendered nd) = Some g"
    using gate_total [OF ok] by blast
  obtain m where m: "introducing_id t c = Some m" using introducing_id_total [OF ok(1)] step.hyps by auto
  show ?case
    using step g m
    by (subst dirty_removed_ancestors.simps, subst dirty_min_flip_ancestors.simps) (auto split: if_splits)
qed

end
