(* ===== verification/Tree_Changes.thy ===== *)
theory Tree_Changes
  imports Tree_Walks
begin

text \<open>
  The incremental update is right: it never panics or loops, and from a tree that reflects the old
  render states it produces a well-formed tree that reflects the new ones.
\<close>

subsection \<open>Where a track is\<close>

text \<open>
  A track is located when its file sits under the names its rendered path asks for, up to ranks and
  truncation, or literally at that path.
\<close>

definition located :: "folding \<Rightarrow> vtree \<Rightarrow> int \<Rightarrow> string \<Rightarrow> nat \<Rightarrow> bool" where
  "located lower t tid path i \<longleftrightarrow> placed lower t tid path i \<or>
     (\<exists>nds. chain t i nds \<and> nds \<noteq> [] \<and> n_kind (last nds) = File tid \<and> chain_path nds = path)"

definition settled :: "folding \<Rightarrow> vtree \<Rightarrow> render_states \<Rightarrow> bool" where
  "settled lower t paths \<longleftrightarrow>
     (\<forall>tid i. map_of (track_to_inode t) tid = Some i \<longrightarrow>
        (\<exists>s. map_of paths tid = Some s \<and> located lower t tid (rs_path s) i))"

definition paths_ok :: "render_states \<Rightarrow> bool" where
  "paths_ok paths \<longleftrightarrow> (\<forall>(i, s)\<in>set paths. text_ok (rs_path s) \<and> path_components (rs_path s) \<noteq> [])"

lemma paths_okD: "paths_ok paths \<Longrightarrow> map_of paths i = Some s \<Longrightarrow> text_ok (rs_path s) \<and> path_components (rs_path s) \<noteq> []"
  by (auto simp: paths_ok_def dest!: map_of_SomeD)

lemma tree_le_rendered_key: "tree_le t t' \<Longrightarrow> rendered_key lower t' = rendered_key lower t"
  by (intro read_cong(5)) (simp add: tree_le_def)

lemma located_grow: "tree_le t t' \<Longrightarrow> located lower t tid path i \<Longrightarrow> located lower t' tid path i"
  using tree_le_chain [of t t' i] tree_le_rendered_key [of t t' lower]
  unfolding located_def placed_def by metis

lemma located_shrink:
  assumes "tree_le t' t" "tree_ok lower t'" "node t' i \<noteq> None" "located lower t tid path i"
  shows "located lower t' tid path i"
proof -
  obtain ms where ms: "chain t' i ms" using tree_ok_chain [OF assms(2,3)] by blast
  have "chain t i ms" by (rule tree_le_chain [OF assms(1) ms])
  hence "nds = ms" if "chain t i nds" for nds using chain_det that by blast
  thus ?thesis
    using assms(4) ms tree_le_rendered_key [OF assms(1), of lower] unfolding located_def placed_def by metis
qed

lemma settled_removed:
  assumes "settled lower t paths" "tree_le t' t" "tree_ok lower t'"
    "map_of (track_to_inode t') = map_of (track_to_inode t) |` S"
  shows "settled lower t' paths"
  unfolding settled_def
proof (intro allI impI)
  fix tid i assume m: "map_of (track_to_inode t') tid = Some i"
  hence "map_of (track_to_inode t) tid = Some i" using assms(4) by (auto simp: restrict_map_def split: if_splits)
  then obtain s where s: "map_of paths tid = Some s" "located lower t tid (rs_path s) i"
    using assms(1) by (auto simp: settled_def)
  have "node t' i \<noteq> None" using tree_ok_track [OF assms(3)] m by auto
  thus "\<exists>s. map_of paths tid = Some s \<and> located lower t' tid (rs_path s) i"
    using s located_shrink [OF assms(2,3)] by blast
qed

subsection \<open>Inserting a batch\<close>

context case_folding
begin

lemma insert_ids_ok:
  assumes "wf_tree lower t a" "paths_ok paths" "settled lower t paths" "distinct ids"
    "set ids \<inter> dom (map_of (track_to_inode t)) = {}" "set ids \<subseteq> dom (map_of paths)"
    "track_count t + length ids + 4 < 2 ^ 32"
  shows "\<exists>t' a'. insert_rendered_ids lower paths t a ids = Some (Inr t', a') \<and> wf_tree lower t' a' \<and>
    settled lower t' paths \<and> tree_le t t' \<and> alloc_le a a' \<and>
    dom (map_of (track_to_inode t')) = set ids \<union> dom (map_of (track_to_inode t))"
  using assms
proof (induction ids arbitrary: t a)
  case Nil
  thus ?case by simp
next
  case (Cons i ids)
  have wf: "tree_ok lower t" "alloc_ok lower t a" "full_dirs t {}" using Cons.prems(1) by (auto simp: wf_tree_def)
  obtain s where s: "map_of paths i = Some s" using Cons.prems(6) by auto
  have path: "text_ok (rs_path s)" "path_components (rs_path s) \<noteq> []" using paths_okD [OF Cons.prems(2) s] by auto
  have new: "map_of (track_to_inode t) i = None" using Cons.prems(5) by auto
  obtain t1 a1 where e: "insert_file lower t a i (rs_path s) = Some (t1, a1)" and full: "full_dirs t1 {}"
    using insert_file_total [OF wf(1,2) path(1) wf(3) new] Cons.prems(7) by auto
  have st: "tree_ok lower t1" "alloc_ok lower t1 a1" "tree_le t t1" "alloc_le a a1"
    using insert_file_step [OF wf(1,2) path(1) new e] by auto
  obtain j where j: "map_of (track_to_inode t1) = (map_of (track_to_inode t))(i \<mapsto> j)" "placed lower t1 i (rs_path s) j"
    using insert_file_step [OF wf(1,2) path(1) new e] path(2) by auto
  have set1: "settled lower t1 paths"
    unfolding settled_def
  proof (intro allI impI)
    fix tid k assume k: "map_of (track_to_inode t1) tid = Some k"
    show "\<exists>s. map_of paths tid = Some s \<and> located lower t1 tid (rs_path s) k"
    proof (cases "tid = i")
      case True
      thus ?thesis using s j k by (auto simp: located_def)
    next
      case False
      hence "map_of (track_to_inode t) tid = Some k" using k j(1) by simp
      thus ?thesis using Cons.prems(3) located_grow [OF st(3)] unfolding settled_def by blast
    qed
  qed
  have dom1: "dom (map_of (track_to_inode t1)) = insert i (dom (map_of (track_to_inode t)))" using j(1) by simp
  have count: "track_count t1 = Suc (track_count t)"
    using new finite_dom_map_of [of "track_to_inode t"] by (simp add: track_count_def dom1 domIff)
  have "\<exists>t' a'. insert_rendered_ids lower paths t1 a1 ids = Some (Inr t', a') \<and> wf_tree lower t' a' \<and>
    settled lower t' paths \<and> tree_le t1 t' \<and> alloc_le a1 a' \<and>
    dom (map_of (track_to_inode t')) = set ids \<union> dom (map_of (track_to_inode t1))"
    by (rule Cons.IH) (use Cons.prems st full set1 count dom1 in \<open>auto simp: wf_tree_def\<close>)
  then obtain t' a' where r: "insert_rendered_ids lower paths t1 a1 ids = Some (Inr t', a')" "wf_tree lower t' a'"
    "settled lower t' paths" "tree_le t1 t'" "alloc_le a1 a'"
    "dom (map_of (track_to_inode t')) = set ids \<union> dom (map_of (track_to_inode t1))" by blast
  have "insert_rendered_ids lower paths t a (i # ids) = Some (Inr t', a')" using s e r(1) by simp
  moreover have "dom (map_of (track_to_inode t')) = set (i # ids) \<union> dom (map_of (track_to_inode t))"
    using r(6) dom1 by auto
  ultimately show ?case
    using r(2,3) tree_le_trans [OF st(3) r(4)] alloc_le_trans [OF st(4) r(5)] by blast
qed

lemma rebuild_subtree_ok:
  assumes wf: "wf_tree lower t a" and p: "paths_ok paths" "settled lower t paths" and d: "node t d \<noteq> None"
    and room: "track_count t + 4 < 2 ^ 32"
  shows "\<exists>t' a'. rebuild_subtree lower t d paths a = Some (Inr t', a') \<and> wf_tree lower t' a' \<and>
    settled lower t' paths \<and> alloc_le a a' \<and> dom (map_of (track_to_inode t')) = dom (map_of (track_to_inode t))"
proof -
  have ok: "tree_ok lower t" "alloc_ok lower t a" "full_dirs t {}" using wf by (auto simp: wf_tree_def)
  obtain ids where ids: "collect_tracks t [] [d] = Some ids" "distinct ids" "set ids = tracks_in t (under t d)"
    using collect_tracks_total [OF ok(1) d] by blast
  let ?t1 = "remove_tracks lower t ids"
  have rm: "tree_ok lower ?t1" "full_dirs ?t1 {}" "tree_le ?t1 t"
    "map_of (track_to_inode ?t1) = map_of (track_to_inode t) |` (- set ids)"
    using remove_tracks_ok [OF ok(1,3), of ids] by auto
  have sub: "set ids \<subseteq> dom (map_of (track_to_inode t))" using ids(3) by (auto simp: tracks_in_def)
  have dom1: "dom (map_of (track_to_inode ?t1)) = dom (map_of (track_to_inode t)) - set ids"
    using rm(4) by (auto simp: restrict_map_def split: if_splits)
  have fin: "finite (dom (map_of (track_to_inode t)))" by (rule finite_dom_map_of)
  have "card (set ids) + card (dom (map_of (track_to_inode ?t1))) = track_count t"
    unfolding dom1 track_count_def using sub fin
    by (metis card_Diff_subset card_mono finite_set le_add_diff_inverse)
  hence count: "track_count ?t1 + length (sort ids) = track_count t"
    using ids(2) by (simp add: track_count_def distinct_card)
  have inp: "set ids \<subseteq> dom (map_of paths)" using p(2) sub by (fastforce simp: settled_def)
  have "\<exists>t' a'. insert_rendered_ids lower paths ?t1 a (sort ids) = Some (Inr t', a') \<and> wf_tree lower t' a' \<and>
    settled lower t' paths \<and> tree_le ?t1 t' \<and> alloc_le a a' \<and>
    dom (map_of (track_to_inode t')) = set (sort ids) \<union> dom (map_of (track_to_inode ?t1))"
    by (rule insert_ids_ok)
       (use rm ok p ids dom1 inp count room settled_removed [OF p(2) rm(3,1,4)] tree_le_alloc_ok [OF ok(2) rm(3)]
        in \<open>auto simp: wf_tree_def\<close>)
  thus ?thesis using ids(1) dom1 sub by (auto simp: rebuild_subtree_def)
qed

lemma rebuild_dirty_ok:
  assumes "wf_tree lower t a" "paths_ok paths" "settled lower t paths" "track_count t + 4 < 2 ^ 32"
  shows "\<exists>t' n a'. rebuild_dirty lower paths t a ds n0 dirs = Some (Inr (t', n), a') \<and> wf_tree lower t' a' \<and>
    settled lower t' paths \<and> alloc_le a a' \<and> dom (map_of (track_to_inode t')) = dom (map_of (track_to_inode t))"
  using assms
proof (induction dirs arbitrary: t a ds n0)
  case Nil
  thus ?case by simp
next
  case (Cons d dirs)
  show ?case
  proof (cases "node t d")
    case None
    thus ?thesis using Cons by simp
  next
    case (Some nd)
    then obtain ns where "chain t d ns" using Cons.prems(1) tree_ok_chain [of lower t d] by (auto simp: wf_tree_def)
    then obtain b where b: "ancestor_in t d ds = Some b" using ancestor_in_total by blast
    show ?thesis
    proof (cases b)
      case True
      thus ?thesis using Cons Some b by simp
    next
      case False
      obtain t1 a1 where t1: "rebuild_subtree lower t d paths a = Some (Inr t1, a1)" "wf_tree lower t1 a1"
        "settled lower t1 paths" "alloc_le a a1" "dom (map_of (track_to_inode t1)) = dom (map_of (track_to_inode t))"
        using rebuild_subtree_ok [OF Cons.prems(1-3) _ Cons.prems(4), of d] Some by auto
      have "track_count t1 + 4 < 2 ^ 32" using Cons.prems(4) t1(5) by (simp add: track_count_def)
      from Cons.IH [OF t1(2) Cons.prems(2) t1(3) this, of "d # ds" "n0 + 1"]
      obtain t' n a' where r: "rebuild_dirty lower paths t1 a1 (d # ds) (n0 + 1) dirs = Some (Inr (t', n), a')"
        "wf_tree lower t' a'" "settled lower t' paths" "alloc_le a1 a'"
        "dom (map_of (track_to_inode t')) = dom (map_of (track_to_inode t1))" by blast
      have "rebuild_dirty lower paths t a ds n0 (d # dirs) = Some (Inr (t', n), a')"
        using Some b False t1(1) r(1) by simp
      thus ?thesis using r(2,3,5) t1(5) alloc_le_trans [OF t1(4) r(4)] by auto
    qed
  qed
qed

end

subsection \<open>The passes of apply_changes\<close>

definition moved :: "vtree \<Rightarrow> render_states \<Rightarrow> int \<Rightarrow> bool" where
  "moved t paths i \<longleftrightarrow> (case inode_of_track t i of
     None \<Rightarrow> True | Some ino \<Rightarrow> path_of t ino \<noteq> Some (rs_path (the (map_of paths i))))"

lemma track_chain:
  assumes ok: "tree_ok lower t" and i: "map_of (track_to_inode t) tid = Some i"
  shows "\<exists>nds. chain t i nds \<and> nds \<noteq> [] \<and> n_kind (last nds) = File tid"
proof -
  obtain nd where nd: "node t i = Some nd" "n_kind nd = File tid" using tree_ok_track [OF ok] i by blast
  then obtain nds where c: "chain t i nds" using tree_ok_chain [OF ok] by blast
  show ?thesis
  proof (cases nds rule: rev_cases)
    case Nil
    hence "i = root_ino" using c by (auto elim: chain_NilE)
    thus ?thesis using nd ok by (auto simp: tree_ok_def root_ok_def)
  next
    case (snoc ys y)
    hence "node t i = Some y" using c by (auto elim: chain_snocE)
    thus ?thesis using snoc c nd by auto
  qed
qed

lemma split_moved_eq:
  assumes "tree_ok lower t" "set ids \<subseteq> dom (map_of paths)"
  shows "split_moved t paths out inn ids =
    Some (Inr (out @ filter (\<lambda>i. inode_of_track t i \<noteq> None \<and> moved t paths i) ids, inn @ filter (moved t paths) ids))"
  using assms
proof (induction ids arbitrary: out inn)
  case (Cons i ids)
  obtain s where s: "map_of paths i = Some s" using Cons.prems(2) by auto
  show ?case
  proof (cases "inode_of_track t i")
    case None
    thus ?thesis using Cons s by (simp add: moved_def)
  next
    case (Some ino)
    then obtain nds where "chain t ino nds" using track_chain [OF Cons.prems(1)] by (auto simp: inode_of_track_def)
    thus ?thesis using Cons s Some path_of_chain by (simp add: moved_def)
  qed
qed simp

lemma dirty_out_total:
  assumes ok: "tree_ok lower t" "full_dirs t {}" "track_count t + 4 < 2 ^ 32"
  shows "\<exists>ds. dirty_out t dirty ids = Some ds"
proof (induction ids arbitrary: dirty)
  case (Cons i ids)
  show ?case
  proof (cases "inode_of_track t i")
    case None
    thus ?thesis using Cons by simp
  next
    case (Some lf)
    then obtain nds where "chain t lf nds" using track_chain [OF ok(1)] by (auto simp: inode_of_track_def)
    then obtain ds where "dirty_removed_ancestors t lf i dirty = Some ds" using dirty_walks_total [OF _ ok] by blast
    thus ?thesis using Some Cons by simp
  qed
qed simp

lemma descend_existing_chain:
  assumes ok: "tree_ok lower t"
  shows "chain t dir nds \<Longrightarrow> descend_existing lower t dir n cs = (d, m) \<Longrightarrow> \<exists>nds. chain t d nds"
proof (induction cs arbitrary: dir n nds)
  case (Cons c cs)
  show ?case
  proof (cases "dir_child_named lower t dir (truncate_component c False)")
    case None
    thus ?thesis using Cons.prems by auto
  next
    case (Some x)
    then obtain nd where "child_of t dir x nd" using dir_child_named_Some [OF ok] by blast
    hence "chain t x (nds @ [nd])" using Cons.prems(1) by (auto simp: child_of_def intro: chain.step)
    thus ?thesis using Cons.IH Cons.prems(2) Some by simp
  qed
qed auto

lemma dirty_in_total:
  assumes ok: "tree_ok lower t" "full_dirs t {}" "track_count t + 4 < 2 ^ 32"
  shows "set ids \<subseteq> dom (map_of paths) \<Longrightarrow> \<exists>ds. dirty_in lower t paths dirty ids = Some (Inr ds)"
proof (induction ids arbitrary: dirty)
  case (Cons i ids)
  obtain s where s: "map_of paths i = Some s" using Cons.prems by auto
  obtain d m where d: "deepest_existing_ancestor lower t (rs_path s) = (d, m)" by fastforce
  obtain nds where "chain t d nds"
    using descend_existing_chain [OF ok(1) chain.root] d unfolding deepest_existing_ancestor_def by blast
  then obtain ds where "dirty_min_flip_ancestors t d i
      (if first_new_taken lower t (path_components (rs_path s)) d m then List.insert d dirty else dirty) = Some ds"
    using dirty_walks_total [OF _ ok] by blast
  thus ?case using s d Cons by simp
qed simp

lemma remove_track_count:
  assumes "tree_ok lower t" "full_dirs t {}" "remove_track lower t i = (r, t')"
  shows "track_count t' \<le> track_count t"
  using remove_track_ok [OF assms] finite_dom_map_of [of "track_to_inode t"]
  by (auto simp: track_count_def intro!: card_mono)

lemma mutate_out_eq:
  assumes "tree_ok lower t" "full_dirs t {}" "track_count t + 4 < 2 ^ 32"
  shows "\<exists>ds. mutate_out lower t dirty ids = Some (remove_tracks lower t ids, ds)"
  using assms
proof (induction ids arbitrary: t dirty)
  case (Cons i ids)
  obtain r t1 where r: "remove_track lower t i = (r, t1)" by fastforce
  have t1: "tree_ok lower t1" "full_dirs t1 {}" "track_count t1 + 4 < 2 ^ 32"
    using remove_track_ok [OF Cons.prems(1,2) r] remove_track_count [OF Cons.prems(1,2) r] Cons.prems(3) by auto
  have gate: "\<exists>b. collision_gate t1 surv name rn = Some b" for surv name rn by (rule gate_total [OF t1])
  note ih = Cons.IH [OF t1]
  show ?case
  proof (cases r)
    case None
    thus ?thesis using r ih by simp
  next
    case (Some x)
    obtain surv pr where x: "x = (surv, pr)" by fastforce
    show ?thesis
    proof (cases pr)
      case None
      thus ?thesis using r Some x ih by simp
    next
      case (Some nm)
      obtain name rn where nm: "nm = (name, rn)" by fastforce
      obtain b where b: "collision_gate t1 surv name rn = Some b" using gate by blast
      have "mutate_out lower t dirty (i # ids) = mutate_out lower t1 (if b then List.insert surv dirty else dirty) ids"
        using r \<open>r = Some x\<close> x Some nm b by simp
      thus ?thesis using ih r by simp
    qed
  qed
qed simp

text \<open>The directories the update marks as dirty, by its passes over the old tree and over the removals.\<close>

definition dirty_dirs ::
  "folding \<Rightarrow> vtree \<Rightarrow> render_states \<Rightarrow> int list \<Rightarrow> int list \<Rightarrow> int list \<Rightarrow> nat list option" where
  "dirty_dirs lower t paths changed added removed =
     Option.bind (split_moved t paths [] [] changed) (\<lambda>r. case r of Inl e \<Rightarrow> None | Inr (moved_out, moved_in) \<Rightarrow>
     Option.bind (dirty_out t [] (removed @ moved_out)) (\<lambda>dirty.
     Option.bind (dirty_in lower t paths dirty (added @ moved_in)) (\<lambda>r. case r of Inl e \<Rightarrow> None | Inr dirty \<Rightarrow>
     map_option snd (mutate_out lower t dirty (removed @ moved_out)))))"

definition by_depth :: "vtree \<Rightarrow> nat list \<Rightarrow> nat list" where
  "by_depth t ds = sort_key (\<lambda>d. length (path_components (the (path_of t d)))) (filter (\<lambda>d. node t d \<noteq> None) ds)"

context case_folding
begin

lemma apply_changes_inserted:
  assumes wf: "wf_tree lower t a" and p: "paths_ok paths"
    and old: "\<And>tid i. map_of (track_to_inode t) tid = Some i \<Longrightarrow> tid \<notin> set removed \<Longrightarrow> tid \<notin> set changed \<Longrightarrow>
        \<exists>s. map_of paths tid = Some s \<and> located lower t tid (rs_path s) i"
    and ids: "set changed \<union> set added \<subseteq> dom (map_of paths)" "distinct (changed @ added)"
      "set added \<inter> dom (map_of (track_to_inode t)) = {}" "set removed \<inter> (set changed \<union> set added) = {}"
    and room: "track_count t + length changed + length added + 4 < 2 ^ 32"
  shows "\<exists>t2 a2 ds. dirty_dirs lower t paths changed added removed = Some ds \<and>
    apply_changes lower hash_order t paths changed added removed a =
      rebuild_dirty lower paths t2 a2 [] 0 (by_depth t2 (hash_order ds)) \<and>
    wf_tree lower t2 a2 \<and> settled lower t2 paths \<and> alloc_le a a2 \<and> case_insensitive t2 = case_insensitive t \<and>
    track_count t2 + 4 < 2 ^ 32 \<and>
    dom (map_of (track_to_inode t2)) = (dom (map_of (track_to_inode t)) - set removed) \<union> set changed \<union> set added"
proof -
  have ok: "tree_ok lower t" "alloc_ok lower t a" "full_dirs t {}" using wf by (auto simp: wf_tree_def)
  have room0: "track_count t + 4 < 2 ^ 32" using room by linarith
  let ?out = "filter (\<lambda>i. inode_of_track t i \<noteq> None \<and> moved t paths i) changed" and ?in = "filter (moved t paths) changed"
  have split: "split_moved t paths [] [] changed = Some (Inr (?out, ?in))"
    using split_moved_eq [OF ok(1), of changed paths "[]" "[]"] ids(1) by simp
  obtain ds1 where ds1: "dirty_out t [] (removed @ ?out) = Some ds1" using dirty_out_total [OF ok(1,3) room0] by blast
  have sub_in: "set (added @ ?in) \<subseteq> dom (map_of paths)" using ids(1) by auto
  obtain ds2 where ds2: "dirty_in lower t paths ds1 (added @ ?in) = Some (Inr ds2)"
    using dirty_in_total [OF ok(1,3) room0 sub_in] by blast
  let ?t1 = "remove_tracks lower t (removed @ ?out)"
  obtain ds3 where ds3: "mutate_out lower t ds2 (removed @ ?out) = Some (?t1, ds3)"
    using mutate_out_eq [OF ok(1,3) room0] by blast
  have rm: "tree_ok lower ?t1" "full_dirs ?t1 {}" "tree_le ?t1 t"
    "map_of (track_to_inode ?t1) = map_of (track_to_inode t) |` (- set (removed @ ?out))"
    using remove_tracks_ok [OF ok(1,3), of "removed @ ?out"] by auto
  have wf1: "wf_tree lower ?t1 a" using rm tree_le_alloc_ok [OF ok(2) rm(3)] by (simp add: wf_tree_def)
  have dom1: "dom (map_of (track_to_inode ?t1)) = dom (map_of (track_to_inode t)) - set (removed @ ?out)"
    using rm(4) by (auto simp: restrict_map_def split: if_splits)
  have count1: "track_count ?t1 \<le> track_count t"
    unfolding track_count_def dom1 by (rule card_mono) (auto intro: finite_dom_map_of)
  have set1: "settled lower ?t1 paths"
    unfolding settled_def
  proof (intro allI impI)
    fix tid i assume m: "map_of (track_to_inode ?t1) tid = Some i"
    hence i: "map_of (track_to_inode t) tid = Some i" "tid \<notin> set removed" "tid \<notin> set ?out"
      using rm(4) by (auto simp: restrict_map_def split: if_splits)
    have "\<exists>s. map_of paths tid = Some s \<and> located lower t tid (rs_path s) i"
    proof (cases "tid \<in> set changed")
      case False
      thus ?thesis using old i by blast
    next
      case True
      then obtain s where s: "map_of paths tid = Some s" using ids(1) by auto
      have "\<not> moved t paths tid" using i(1,3) True by (auto simp: inode_of_track_def)
      hence "path_of t i = Some (rs_path s)" using i(1) s by (simp add: moved_def inode_of_track_def)
      moreover obtain nds where nds: "chain t i nds" "nds \<noteq> []" "n_kind (last nds) = File tid"
        using track_chain [OF ok(1) i(1)] by blast
      ultimately have "chain_path nds = rs_path s" using path_of_chain by simp
      thus ?thesis using s nds by (auto simp: located_def)
    qed
    moreover have "node ?t1 i \<noteq> None" using tree_ok_track [OF rm(1)] m by auto
    ultimately show "\<exists>s. map_of paths tid = Some s \<and> located lower ?t1 tid (rs_path s) i"
      using located_shrink [OF rm(3,1)] by blast
  qed
  let ?ids = "sort (added @ ?in)"
  have in_new: "set ?in \<inter> dom (map_of (track_to_inode ?t1)) = {}"
    unfolding dom1 by (auto simp: inode_of_track_def)
  obtain t2 a2 where t2: "insert_rendered_ids lower paths ?t1 a ?ids = Some (Inr t2, a2)" "wf_tree lower t2 a2"
    "settled lower t2 paths" "tree_le ?t1 t2" "alloc_le a a2"
    "dom (map_of (track_to_inode t2)) = set ?ids \<union> dom (map_of (track_to_inode ?t1))"
  proof -
    have d: "distinct ?ids" using ids(2) by auto
    have "set ?ids \<inter> dom (map_of (track_to_inode ?t1)) = {}" using in_new ids(3) dom1 by auto
    moreover have "set ?ids \<subseteq> dom (map_of paths)" using sub_in by simp
    moreover have "track_count ?t1 + length ?ids + 4 < 2 ^ 32"
    proof -
      have "length ?ids = length added + length ?in" by simp
      thus ?thesis using room count1 length_filter_le [of "moved t paths" changed] by linarith
    qed
    ultimately show thesis using insert_ids_ok [OF wf1 p set1 d] that by blast
  qed
  let ?live = "filter (\<lambda>d. node t2 d \<noteq> None) (hash_order ds3)"
  have ok2: "tree_ok lower t2" using t2(2) by (simp add: wf_tree_def)
  have nonone: "\<not> list_ex (\<lambda>d. path_of t2 d = None) ?live"
    using tree_ok_chain [OF ok2] path_of_chain by (fastforce simp: list_ex_iff)
  have dom2: "dom (map_of (track_to_inode t2)) = (dom (map_of (track_to_inode t)) - set removed) \<union> set changed \<union> set added"
    using t2(6) dom1 ids(4) by (auto simp: moved_def inode_of_track_def split: option.splits)
  have "track_count t2 \<le> track_count t + length changed + length added"
  proof -
    have "track_count t2 \<le> card (dom (map_of (track_to_inode t)) \<union> set (changed @ added))"
      unfolding track_count_def dom2 by (rule card_mono) (auto simp: finite_dom_map_of)
    also have "\<dots> \<le> track_count t + card (set (changed @ added))"
      unfolding track_count_def by (rule card_Un_le)
    also have "card (set (changed @ added)) \<le> length changed + length added"
      using card_length [of "changed @ added"] by simp
    finally show ?thesis by simp
  qed
  hence room2: "track_count t2 + 4 < 2 ^ 32" using room by linarith
  have "apply_changes lower hash_order t paths changed added removed a =
      rebuild_dirty lower paths t2 a2 [] 0 (by_depth t2 (hash_order ds3))"
    using split ds1 ds2 ds3 t2(1) nonone by (simp add: apply_changes_def by_depth_def Let_def)
  moreover have "dirty_dirs lower t paths changed added removed = Some ds3"
    using split ds1 ds2 ds3 by (simp add: dirty_dirs_def)
  moreover have "case_insensitive t2 = case_insensitive t" using t2(4) rm(3) by (simp add: tree_le_def)
  ultimately show ?thesis using t2(2,3,5) dom2 room2 by blast
qed

lemma apply_changes_ok:
  assumes wf: "wf_tree lower t a" and p: "paths_ok paths"
    and old: "\<And>tid i. map_of (track_to_inode t) tid = Some i \<Longrightarrow> tid \<notin> set removed \<Longrightarrow> tid \<notin> set changed \<Longrightarrow>
        \<exists>s. map_of paths tid = Some s \<and> located lower t tid (rs_path s) i"
    and ids: "set changed \<union> set added \<subseteq> dom (map_of paths)" "distinct (changed @ added)"
      "set added \<inter> dom (map_of (track_to_inode t)) = {}" "set removed \<inter> (set changed \<union> set added) = {}"
    and room: "track_count t + length changed + length added + 4 < 2 ^ 32"
  shows "\<exists>t' n a'. apply_changes lower hash_order t paths changed added removed a = Some (Inr (t', n), a') \<and>
    wf_tree lower t' a' \<and> settled lower t' paths \<and> alloc_le a a' \<and>
    dom (map_of (track_to_inode t')) = (dom (map_of (track_to_inode t)) - set removed) \<union> set changed \<union> set added"
proof -
  obtain t2 a2 ds where t2: "apply_changes lower hash_order t paths changed added removed a =
      rebuild_dirty lower paths t2 a2 [] 0 (by_depth t2 (hash_order ds))"
    "wf_tree lower t2 a2" "settled lower t2 paths" "alloc_le a a2" "track_count t2 + 4 < 2 ^ 32"
    "dom (map_of (track_to_inode t2)) = (dom (map_of (track_to_inode t)) - set removed) \<union> set changed \<union> set added"
    using apply_changes_inserted [OF assms, of hash_order] by blast
  obtain t3 n a3 where t3: "rebuild_dirty lower paths t2 a2 [] 0 (by_depth t2 (hash_order ds)) = Some (Inr (t3, n), a3)"
    "wf_tree lower t3 a3" "settled lower t3 paths" "alloc_le a2 a3"
    "dom (map_of (track_to_inode t3)) = dom (map_of (track_to_inode t2))"
    using rebuild_dirty_ok [OF t2(2) p t2(3,5)] by blast
  have "alloc_le a a3" by (rule alloc_le_trans [OF t2(4) t3(4)])
  thus ?thesis unfolding t2(1) using t3(1,2,3,5) t2(6) by blast
qed

end

end
