(* ===== verification/Tree_Reach.thy ===== *)
theory Tree_Reach
  imports Tree_Changes
begin

text \<open>
  What the mount relies on of its tree: the trees a mount goes through, from the first build through
  insertions, removals, full and incremental rebuilds and prunings of the allocator, and the
  properties of every one of them.
\<close>

subsection \<open>Reachable trees\<close>

definition room_for :: "vtree \<Rightarrow> nat \<Rightarrow> bool" where
  "room_for t n \<longleftrightarrow> track_count t + n + 4 < 2 ^ 32"

text \<open>The render states handed to apply_changes agree with the tree outside the change set.\<close>

definition change_ok ::
  "folding \<Rightarrow> vtree \<Rightarrow> render_states \<Rightarrow> int list \<Rightarrow> int list \<Rightarrow> int list \<Rightarrow> bool" where
  "change_ok lower t paths changed added removed \<longleftrightarrow>
     paths_ok paths \<and>
     (\<forall>tid i. map_of (track_to_inode t) tid = Some i \<longrightarrow> tid \<notin> set removed \<longrightarrow> tid \<notin> set changed \<longrightarrow>
        (\<exists>s. map_of paths tid = Some s \<and> located lower t tid (rs_path s) i)) \<and>
     set changed \<union> set added \<subseteq> dom (map_of paths) \<and> distinct (changed @ added) \<and>
     set added \<inter> dom (map_of (track_to_inode t)) = {} \<and> set removed \<inter> (set changed \<union> set added) = {} \<and>
     room_for t (length changed + length added)"

inductive tree_step :: "folding \<Rightarrow> vtree \<times> inode_allocator \<Rightarrow> vtree \<times> inode_allocator \<Rightarrow> bool" for lower where
  Insert: "\<lbrakk>text_ok path; map_of (track_to_inode t) tid = None; room_for t 0;
      insert_file lower t a tid path = Some (t', a')\<rbrakk> \<Longrightarrow> tree_step lower (t, a) (t', a')"
| Remove: "remove_track lower t tid = (r, t') \<Longrightarrow> tree_step lower (t, a) (t', a)"
| Rebuild: "\<lbrakk>list_all (\<lambda>e. text_ok (snd e)) entries; distinct (map fst entries); length entries + 4 < 2 ^ 32;
      build_with_ci lower entries a (case_insensitive t) = Some (t', a')\<rbrakk> \<Longrightarrow> tree_step lower (t, a) (t', a')"
| Changes: "\<lbrakk>change_ok lower t paths changed added removed;
      apply_changes lower hash_order t paths changed added removed a = Some (Inr (t', n), a')\<rbrakk>
      \<Longrightarrow> tree_step lower (t, a) (t', a')"
| Prune: "tree_step lower (t, a) (t, prune_retired a t)"

inductive tree_reach :: "folding \<Rightarrow> bool \<Rightarrow> vtree \<Rightarrow> inode_allocator \<Rightarrow> bool" for lower ci where
  start: "tree_reach lower ci (empty_tree ci) (alloc_new ci)"
| step: "tree_reach lower ci t a \<Longrightarrow> tree_step lower (t, a) (t', a') \<Longrightarrow> tree_reach lower ci t' a'"

inductive_cases tree_stepE: "tree_step lower (t, a) (t', a')"

lemma node_empty_tree: "node (empty_tree ci) i =
    (if i = root_ino then Some \<lparr>n_parent = root_ino, n_name = [], n_rendered = [], n_kind = Dir\<rparr> else None)"
  by (simp add: node_def empty_tree_def)

lemma chain_empty_tree: "chain (empty_tree ci) c nds \<Longrightarrow> c = root_ino \<and> nds = []"
  by (induction rule: chain.induct) (auto simp: node_empty_tree)

lemma wf_empty_tree:
  assumes "alloc_wf a" "a_fold_keys a = ci" "map_of (a_paths a) (a_key lower a []) = Some root_ino"
  shows "wf_tree lower (empty_tree ci) a"
proof -
  have "alloc_ok lower (empty_tree ci) a"
    using assms chain_empty_tree by (fastforce simp: alloc_ok_def chain_path_def empty_tree_def)
  moreover have "full_dirs (empty_tree ci) {}"
    by (simp add: full_dirs_def is_dir_def node_kind_of_def node_empty_tree)
  ultimately show ?thesis by (simp add: wf_tree_def tree_ok_empty)
qed

context case_folding
begin

lemma root_key: "alloc_wf a \<Longrightarrow> map_of (a_paths a) (a_key lower a []) = Some root_ino"
proof -
  assume "alloc_wf a"
  hence "map_of (a_paths a) [] = Some root_ino" unfolding alloc_wf_def by blast
  thus ?thesis using lower_Nil [of "[]"] by (simp add: a_key_def)
qed

lemma insert_entries_ok:
  assumes "wf_tree lower t a" "list_all (\<lambda>e. text_ok (snd e)) entries" "distinct (map fst entries)"
    "fst ` set entries \<inter> dom (map_of (track_to_inode t)) = {}" "track_count t + length entries + 4 < 2 ^ 32"
  shows "\<exists>t' a'. insert_entries lower t a entries = Some (t', a') \<and> wf_tree lower t' a' \<and> tree_le t t' \<and> alloc_le a a' \<and>
    dom (map_of (track_to_inode t')) = fst ` set (filter (\<lambda>e. path_components (snd e) \<noteq> []) entries) \<union> dom (map_of (track_to_inode t)) \<and>
    (\<forall>(tid, path)\<in>set entries. path_components path \<noteq> [] \<longrightarrow>
       (\<exists>i. map_of (track_to_inode t') tid = Some i \<and> placed lower t' tid path i))"
  using assms
proof (induction entries arbitrary: t a)
  case Nil
  thus ?case by simp
next
  case (Cons e es)
  obtain tid path where e: "e = (tid, path)" by fastforce
  have wf: "tree_ok lower t" "alloc_ok lower t a" "full_dirs t {}" using Cons.prems(1) by (auto simp: wf_tree_def)
  have path: "text_ok path" using Cons.prems(2) e by simp
  have new: "map_of (track_to_inode t) tid = None" using Cons.prems(4) e by auto
  obtain t1 a1 where ins: "insert_file lower t a tid path = Some (t1, a1)" and full: "full_dirs t1 {}"
    using insert_file_total [OF wf(1,2) path wf(3) new] Cons.prems(5) by auto
  note st = insert_file_step [OF wf(1,2) path new ins]
  have dom1: "dom (map_of (track_to_inode t1)) = (if path_components path = [] then {} else {tid}) \<union> dom (map_of (track_to_inode t))"
    using st by (auto split: if_splits)
  have "track_count t1 \<le> Suc (track_count t)"
    using finite_dom_map_of [of "track_to_inode t"] by (auto simp: track_count_def dom1 card_insert_if)
  hence room: "track_count t1 + length es + 4 < 2 ^ 32" using Cons.prems(5) by simp
  obtain t' a' where es: "insert_entries lower t1 a1 es = Some (t', a')" "wf_tree lower t' a'" "tree_le t1 t'" "alloc_le a1 a'"
    "dom (map_of (track_to_inode t')) = fst ` set (filter (\<lambda>e. path_components (snd e) \<noteq> []) es) \<union> dom (map_of (track_to_inode t1))"
    "\<forall>(tid, path)\<in>set es. path_components path \<noteq> [] \<longrightarrow>
       (\<exists>i. map_of (track_to_inode t') tid = Some i \<and> placed lower t' tid path i)"
    using Cons.IH [of t1 a1] Cons.prems(2-4) e st full room dom1 by (auto simp: wf_tree_def split: if_splits)
  have here: "\<exists>i. map_of (track_to_inode t') tid = Some i \<and> placed lower t' tid path i" if ne: "path_components path \<noteq> []"
  proof -
    obtain i where i: "map_of (track_to_inode t1) tid = Some i" "placed lower t1 tid path i" using st ne by auto
    obtain nd where nd: "node t1 i = Some nd" "n_kind nd = File tid" using tree_ok_track st i by blast
    have "node t' i = Some nd" using es(3) nd by (simp add: tree_le_def)
    hence "map_of (track_to_inode t') tid = Some i" using tree_ok_track es(2) nd by (auto simp: wf_tree_def)
    moreover have "placed lower t' tid path i"
      using i(2) tree_le_chain [OF es(3)] tree_le_rendered_key [OF es(3), of lower] unfolding placed_def by metis
    ultimately show ?thesis by blast
  qed
  have "insert_entries lower t a (e # es) = Some (t', a')" using ins es(1) e by simp
  moreover have "tree_le t t'" "alloc_le a a'" using st es(3,4) tree_le_trans alloc_le_trans by blast+
  moreover have "dom (map_of (track_to_inode t')) =
      fst ` set (filter (\<lambda>e. path_components (snd e) \<noteq> []) (e # es)) \<union> dom (map_of (track_to_inode t))"
    using es(5) dom1 e by (simp split: if_splits)
  moreover have "\<forall>(tid, path)\<in>set (e # es). path_components path \<noteq> [] \<longrightarrow>
       (\<exists>i. map_of (track_to_inode t') tid = Some i \<and> placed lower t' tid path i)"
    using es(6) here e by simp
  ultimately show ?case using es(2) by blast
qed

lemma retire_ok:
  assumes wf: "wf_tree lower t a"
  shows "wf_tree lower t (prune_retired a t)"
proof (cases "length (a_paths a) \<le> 2 * length (nodes t)")
  case True
  thus ?thesis using wf by (simp add: prune_retired_def)
next
  case False
  let ?a = "prune_retired a t"
  have ok: "tree_ok lower t" "alloc_ok lower t a" using wf by (auto simp: wf_tree_def)
  have aw: "alloc_wf a" using ok(2) by (simp add: alloc_ok_def)
  have d: "distinct (map fst (a_paths a))" using aw by (simp add: alloc_wf_def)
  have m: "map_of (a_paths ?a) k = Some i \<longleftrightarrow> map_of (a_paths a) k = Some i \<and> node t i \<noteq> None" for k i
    using d False by (simp add: prune_retired_def distinct_map_filter)
  have same: "a_next ?a = a_next a" "a_fold_keys ?a = a_fold_keys a" "a_key lower ?a = a_key lower a"
    using False by (simp_all add: prune_retired_def a_key_def fun_eq_iff)
  have "distinct (map fst (a_paths ?a))" using d False by (simp add: prune_retired_def distinct_map_filter)
  moreover have "node t root_ino \<noteq> None" using ok(1) by (simp add: tree_ok_def root_ok_def)
  ultimately have "alloc_wf ?a"
    using aw m same unfolding alloc_wf_def by metis
  moreover have "map_of (a_paths ?a) (a_key lower ?a (chain_path nds)) = Some c" if "chain t c nds" for c nds
    using ok that m same(3) chain_node [of t c nds] by (auto simp: alloc_ok_def tree_ok_def)
  ultimately have "alloc_ok lower t ?a" using ok(2) same by (simp add: alloc_ok_def)
  thus ?thesis using wf by (simp add: wf_tree_def)
qed

lemma build_ok:
  assumes a: "alloc_wf a" "a_fold_keys a = ci"
    and e: "list_all (\<lambda>e. text_ok (snd e)) entries" "distinct (map fst entries)" "length entries + 4 < 2 ^ 32"
  shows "\<exists>t' a'. build_with_ci lower entries a ci = Some (t', a') \<and> wf_tree lower t' a' \<and> case_insensitive t' = ci \<and> alloc_le a a' \<and>
    dom (map_of (track_to_inode t')) = fst ` set (filter (\<lambda>e. path_components (snd e) \<noteq> []) entries) \<and>
    (\<forall>(tid, path)\<in>set entries. path_components path \<noteq> [] \<longrightarrow>
       (\<exists>i. map_of (track_to_inode t') tid = Some i \<and> placed lower t' tid path i))"
proof -
  have wf: "wf_tree lower (empty_tree ci) a" by (rule wf_empty_tree [OF a root_key [OF a(1)]])
  have t: "map_of (track_to_inode (empty_tree ci)) = Map.empty" "case_insensitive (empty_tree ci) = ci"
    by (simp_all add: empty_tree_def)
  have "fst ` set entries \<inter> dom (map_of (track_to_inode (empty_tree ci))) = {}"
    "track_count (empty_tree ci) + length entries + 4 < 2 ^ 32"
    using e(3) by (simp_all add: t track_count_def)
  from insert_entries_ok [OF wf e(1,2) this] show ?thesis
    unfolding build_with_ci_def tree_le_def t by auto
qed

lemma step_ok:
  assumes wf: "wf_tree lower t a" and st: "tree_step lower (t, a) (t', a')"
  shows "wf_tree lower t' a' \<and> case_insensitive t' = case_insensitive t \<and> (alloc_le a a' \<or> a' = prune_retired a t)"
  using st
proof (cases rule: tree_stepE [consumes 1, case_names Insert Remove Rebuild Changes Prune])
  case (Insert path tid)
  have ok: "tree_ok lower t" "alloc_ok lower t a" "full_dirs t {}" using wf by (auto simp: wf_tree_def)
  obtain t1 a1 where "insert_file lower t a tid path = Some (t1, a1)" "full_dirs t1 {}"
    using insert_file_total [OF ok(1,2) Insert(1) ok(3) Insert(2)] Insert(3) by (auto simp: room_for_def)
  thus ?thesis using insert_file_step [OF ok(1,2) Insert(1,2,4)] Insert(4) by (auto simp: wf_tree_def tree_le_def)
next
  case (Remove tid r)
  thus ?thesis using remove_track_ok [of lower t tid r t'] wf tree_le_alloc_ok [of lower t a t']
    by (auto simp: wf_tree_def tree_le_def)
next
  case (Rebuild entries)
  have a: "alloc_wf a" "a_fold_keys a = case_insensitive t" using wf by (auto simp: wf_tree_def alloc_ok_def)
  have n: "length entries + 4 < 2 ^ 32" using Rebuild(3) by simp
  show ?thesis using build_ok [OF a Rebuild(1,2) n] Rebuild(4) by auto
next
  case (Changes paths changed added removed hash_order n)
  have c: "change_ok lower t paths changed added removed" by (rule Changes(1))
  have "\<exists>t'' n a''. apply_changes lower hash_order t paths changed added removed a = Some (Inr (t'', n), a'') \<and>
    wf_tree lower t'' a'' \<and> settled lower t'' paths \<and> alloc_le a a'' \<and>
    dom (map_of (track_to_inode t'')) = (dom (map_of (track_to_inode t)) - set removed) \<union> set changed \<union> set added"
    by (rule apply_changes_ok [OF wf]) (use c in \<open>simp_all add: change_ok_def room_for_def algebra_simps\<close>)
  hence "wf_tree lower t' a'" "alloc_le a a'" using Changes(2) by auto
  moreover have "case_insensitive t' = case_insensitive t"
    using wf calculation by (auto simp: wf_tree_def alloc_ok_def alloc_le_def)
  ultimately show ?thesis by blast
next
  case Prune
  thus ?thesis using retire_ok [OF wf] by simp
qed

lemma reach_ok: "tree_reach lower ci t a \<Longrightarrow> wf_tree lower t a \<and> case_insensitive t = ci"
proof (induction rule: tree_reach.induct)
  case start
  have "alloc_wf (alloc_new ci)" by (simp add: alloc_wf_def alloc_new_def root_ino_def split: if_splits)
  hence "wf_tree lower (empty_tree ci) (alloc_new ci)"
    by (intro wf_empty_tree root_key) (simp_all add: alloc_new_def)
  moreover have "case_insensitive (empty_tree ci) = ci" by (simp add: empty_tree_def)
  ultimately show ?case by blast
next
  case (step t a t' a')
  thus ?case using step_ok by blast
qed

end

end
