(* ===== verification/Tree_Demo.thy ===== *)
theory Tree_Demo
  imports Tree_Reach
begin
text \<open>
  A small mount: two tracks that render to the same path, so the second one is ranked; the first is
  removed and a third is added.
\<close>

text \<open>The partial functions compute by their unfoldings.\<close>

declare path_up.simps [code] min_track.simps [code] collect_tracks.simps [code] ancestor_in.simps [code]
  dirty_removed_ancestors.simps [code] dirty_min_flip_ancestors.simps [code]

definition demo_entries :: "(int \<times> string) list" where
  "demo_entries = [(1, ''A/x.flac''), (2, ''A/x.flac'')]"

definition demo_tree :: vtree where
  "demo_tree = \<lparr>nodes =
      [(1, \<lparr>n_parent = 1, n_name = [], n_rendered = [], n_kind = Dir\<rparr>),
       (2, \<lparr>n_parent = 1, n_name = ''A'', n_rendered = ''A'', n_kind = Dir\<rparr>),
       (3, \<lparr>n_parent = 2, n_name = ''x.flac'', n_rendered = ''x.flac'', n_kind = File 1\<rparr>),
       (4, \<lparr>n_parent = 2, n_name = ''x (2).flac'', n_rendered = ''x.flac'', n_kind = File 2\<rparr>)],
     children = [(1, [(''A'', 2)]), (2, [(''x (2).flac'', 4), (''x.flac'', 3)])],
     rendered_children = [(1, [(''A'', [(''A'', 2)])]), (2, [(''x.flac'', [(''x (2).flac'', 4), (''x.flac'', 3)])])],
     folded_children = [], track_to_inode = [(1, 3), (2, 4)], case_insensitive = False\<rparr>"

definition demo_alloc :: inode_allocator where
  "demo_alloc = \<lparr>a_paths = [([], 1), (''A'', 2), (''A/x.flac'', 3), (''A/x (2).flac'', 4)],
     a_next = 5, a_fold_keys = False\<rparr>"

lemma demo_tree_build: "build_with_ci to_ascii_lowercase demo_entries (alloc_new False) False = Some (demo_tree, demo_alloc)"
  by code_simp

lemma demo_entries_ok:
  "list_all (\<lambda>e. text_ok (snd e)) demo_entries" "distinct (map fst demo_entries)" "length demo_entries + 4 < 2 ^ 32"
  by (simp_all add: demo_entries_def text_ok_def cont_char_def)

lemma demo_reach: "tree_reach to_ascii_lowercase False demo_tree demo_alloc"
proof (rule tree_reach.step [OF tree_reach.start])
  show "tree_step to_ascii_lowercase (empty_tree False, alloc_new False) (demo_tree, demo_alloc)"
    by (rule tree_step.Rebuild [OF demo_entries_ok]) (simp add: demo_tree_build empty_tree_def [of False])
qed

end
