(* ===== verification/Tree_Fresh.thy ===== *)
theory Tree_Fresh
  imports Tree_Demo
begin

text \<open>
  An incremental update that marks the root as dirty ends in the tree of a full build. Insertion reads
  nothing of a well-formed tree but its nodes, and the tree that has lost all its tracks has the nodes
  of the empty one, so the batch reinserted by the rebuild of the root lands where a build puts it.
\<close>

subsection \<open>Trees with the same nodes\<close>

definition same_nodes :: "vtree \<Rightarrow> vtree \<Rightarrow> bool" where
  "same_nodes t u \<longleftrightarrow> node u = node t \<and> case_insensitive u = case_insensitive t"

lemma same_reads:
  assumes "same_nodes t u"
  shows "is_dir u = is_dir t" "child_of u = child_of t" "rendered_key lower u = rendered_key lower t"
    "is_reserved_root_name lower u = is_reserved_root_name lower t" "node u = node t"
    "case_insensitive u = case_insensitive t"
  using assms
  by (auto simp: same_nodes_def is_dir_def node_kind_of_def child_of_def rendered_key_def is_reserved_root_name_def fun_eq_iff)

lemma same_chain:
  assumes "same_nodes t u"
  shows "chain u = chain t"
proof -
  have "chain u c nds \<longleftrightarrow> chain t c nds" for c nds
    using chain_mono [of t c nds u] chain_mono [of u c nds t] same_reads(5) [OF assms] by auto
  thus ?thesis by (simp add: fun_eq_iff)
qed

lemma same_tracks:
  "same_nodes t u \<Longrightarrow> tree_ok lower t \<Longrightarrow> tree_ok lower u \<Longrightarrow> map_of (track_to_inode u) = map_of (track_to_inode t)"
proof
  fix tid assume a: "same_nodes t u" "tree_ok lower t" "tree_ok lower u"
  have "map_of (track_to_inode u) tid = Some c \<longleftrightarrow> map_of (track_to_inode t) tid = Some c" for c
    using tree_ok_track [OF a(2)] tree_ok_track [OF a(3)] same_reads(5) [OF a(1)] by simp
  thus "map_of (track_to_inode u) tid = map_of (track_to_inode t) tid" by (metis option.exhaust)
qed

lemma same_alloc_ok: "same_nodes t u \<Longrightarrow> alloc_ok lower t a \<Longrightarrow> alloc_ok lower u a"
  by (simp add: alloc_ok_def same_chain same_reads)

lemma keys_sorted_eq:
  assumes "keys_sorted xs" "keys_sorted ys" "map_of xs = map_of ys"
  shows "xs = ys"
proof -
  have d: "distinct (map fst xs)" "distinct (map fst ys)" using assms keys_sorted_distinct by blast+
  hence "set xs = set ys" using assms(3) map_of_inject_set by blast
  moreover have "map fst xs = map fst ys"
    using assms(1,2) calculation by (intro strict_sorted_equal) (simp_all add: keys_sorted_def)
  moreover have "zs = map (\<lambda>k. (k, the (map_of zs k))) (map fst zs)" if "distinct (map fst zs)" for zs :: "('a \<times> 'b) list"
  proof -
    have "(fst z, the (map_of zs (fst z))) = z" if "z \<in> set zs" for z
      using map_of_is_SomeI [OF \<open>distinct (map fst zs)\<close>, of "fst z" "snd z"] that by simp
    thus ?thesis by (simp add: map_idI)
  qed
  ultimately show ?thesis using d assms(3) by metis
qed

lemma same_groups:
  assumes "same_nodes t u" "tree_ok lower t" "tree_ok lower u"
  shows "dir_child_named lower u p r = dir_child_named lower t p r"
proof -
  let ?g = "\<lambda>t. or_default (or_default (rendered_children t) p) (rendered_key lower t r)"
  have alt: "dir_child_named lower t p r = find (is_dir t) (map snd (?g t))" for t
    by (auto simp: dir_child_named_def rendered_group_def or_default_def split: option.splits)
  have "rkid u p (rendered_key lower t r) n = Some c \<longleftrightarrow> rkid t p (rendered_key lower t r) n = Some c" for n c
    using tree_ok_rkid [OF assms(2)] tree_ok_rkid [OF assms(3)] same_reads [OF assms(1)] by simp
  hence "rkid u p (rendered_key lower t r) n = rkid t p (rendered_key lower t r) n" for n by (metis option.exhaust)
  hence "map_of (?g u) = map_of (?g t)" by (simp add: rkid_def fun_eq_iff same_reads [OF assms(1)])
  moreover have "keys_sorted (?g u)" "keys_sorted (?g t)" using assms(2,3) by (simp_all add: tree_ok_def ord_ok_def)
  ultimately have "?g u = ?g t" by (intro keys_sorted_eq)
  thus ?thesis by (simp add: alt same_reads [OF assms(1)])
qed

lemma same_taken: "same_nodes t u \<Longrightarrow> tree_ok lower t \<Longrightarrow> tree_ok lower u \<Longrightarrow> taken lower u p n = taken lower t p n"
  by (simp add: taken_iff same_reads)

lemma same_disambiguate:
  assumes "same_nodes t u" "tree_ok lower t" "tree_ok lower u"
  shows "disambiguate lower u p n = disambiguate lower t p n"
proof -
  have "free_rank lower u p n k = free_rank lower t p n k" for k
  proof (induction "2 ^ 32 - k" arbitrary: k rule: less_induct)
    case less
    show ?case
      by (subst (1 2) free_rank.simps) (use less same_taken [OF assms] in auto)
  qed
  thus ?thesis by (simp add: disambiguate_def same_taken [OF assms])
qed

text \<open>A batch of tracks by ascending id, with their rendered paths, as a full build takes it.\<close>

definition rendered_entries :: "render_states \<Rightarrow> int list \<Rightarrow> (int \<times> string) list" where
  "rendered_entries paths ids = map (\<lambda>i. (i, rs_path (the (map_of paths i)))) ids"

subsection \<open>Insertion reads the nodes only\<close>

context case_folding
begin

lemma ensure_dir_same:
  assumes s: "same_nodes t u" and at: "at_dir lower t a p pp nds" and u: "tree_ok lower u"
    and e: "ensure_dir lower t a p pp c = Some (d, dp, t', a')"
  shows "\<exists>u'. ensure_dir lower u a p pp c = Some (d, dp, u', a') \<and> same_nodes t' u'"
proof -
  let ?n = "truncate_component c False"
  have t: "tree_ok lower t" and p: "is_dir t p" using at by (simp_all add: at_dir_def)
  note g = same_groups [OF s t u] same_disambiguate [OF s t u] same_reads [OF s]
  show ?thesis
  proof (cases "dir_child_named lower t p ?n")
    case (Some x)
    thus ?thesis using e s by (auto simp: ensure_dir_def Let_def g)
  next
    case None
    then obtain w i where w: "disambiguate lower t p ?n = Some w" and i: "intern lower a (join_path pp w) = (i, a')"
      using e by (auto simp: ensure_dir_def Let_def intern_names_def split: bind_splits prod.splits)
    let ?new = "\<lambda>t. t\<lparr>nodes := hput i \<lparr>n_parent = p, n_name = w, n_rendered = ?n, n_kind = Dir\<rparr> (nodes t),
        children := hput i [] (children t), rendered_children := hput i [] (rendered_children t)\<rparr>"
    let ?link = "\<lambda>t. insert_folded_child lower (insert_rendered_child lower t p ?n w i) p w i"
    obtain t2 where t2: "add_child (?new t) p w i = Some t2" "t' = ?link t2" "d = i" "dp = join_path pp w"
      using e None w i by (auto simp: ensure_dir_def Let_def intern_names_def)
    have new: "node (?new x) = (node x)(i \<mapsto> \<lparr>n_parent = p, n_name = w, n_rendered = ?n, n_kind = Dir\<rparr>)" for x
      by (simp add: node_def fun_eq_iff)
    have "map_of (children u) p \<noteq> None" using tree_ok_children [OF u] p g by simp
    hence "map_of (children (?new u)) p \<noteq> None" by simp
    then obtain u2 where u2: "add_child (?new u) p w i = Some u2" using add_child_Some by blast
    have "ensure_dir lower u a p pp c = Some (d, dp, ?link u2, a')"
      using None w i u2 t2(3,4) by (simp add: ensure_dir_def Let_def intern_names_def g)
    moreover have "same_nodes t' (?link u2)"
      using s link_fx(1,2) [OF t2(1,2)] link_fx(1,2) [OF u2 refl] by (simp add: same_nodes_def new)
    ultimately show ?thesis by blast
  qed
qed

lemma at_dir_same: "same_nodes t u \<Longrightarrow> tree_ok lower u \<Longrightarrow> at_dir lower t a p pp nds \<Longrightarrow> at_dir lower u a p pp nds"
  by (simp add: at_dir_def same_alloc_ok same_reads same_chain)

lemma ensure_dirs_same:
  assumes "same_nodes t u" "at_dir lower t a p pp nds" "tree_ok lower u" "\<forall>c\<in>set cs. name_ok c \<and> text_ok c"
    "ensure_dirs lower t a p pp cs = Some (d, dp, t', a')"
  shows "\<exists>u'. ensure_dirs lower u a p pp cs = Some (d, dp, u', a') \<and> same_nodes t' u' \<and> tree_ok lower u'"
  using assms
proof (induction cs arbitrary: t u a p pp nds)
  case Nil
  thus ?case by simp
next
  case (Cons c cs)
  obtain p1 pp1 t1 a1 where e: "ensure_dir lower t a p pp c = Some (p1, pp1, t1, a1)"
    and es: "ensure_dirs lower t1 a1 p1 pp1 cs = Some (d, dp, t', a')"
    using Cons.prems(5) by (auto split: bind_splits)
  have c: "name_ok c" "text_ok c" using Cons.prems(4) by auto
  obtain u1 where u1: "ensure_dir lower u a p pp c = Some (p1, pp1, u1, a1)" "same_nodes t1 u1"
    using ensure_dir_same [OF Cons.prems(1-3) e] by blast
  obtain nd where nd: "at_dir lower t1 a1 p1 pp1 (nds @ [nd])" using ensure_dir_step [OF Cons.prems(2) c e] by blast
  have "tree_ok lower u1"
    using ensure_dir_step [OF at_dir_same [OF Cons.prems(1,3,2)] c u1(1)] by (auto simp: at_dir_def)
  from Cons.IH [OF u1(2) nd this _ es] Cons.prems(4) show ?case using u1(1) by auto
qed

lemma insert_file_same:
  assumes s: "same_nodes t u" and t: "tree_ok lower t" "alloc_ok lower t a" and u: "tree_ok lower u"
    and path: "text_ok path" and e: "insert_file lower t a tid path = Some (t', a')"
  shows "\<exists>u'. insert_file lower u a tid path = Some (u', a') \<and> same_nodes t' u'"
proof (cases "path_components path = []")
  case True
  thus ?thesis using e s by (auto simp: insert_file_def)
next
  case False
  let ?cs = "path_components path"
  have cs: "\<forall>c\<in>set ?cs. name_ok c \<and> text_ok c" using path_components_ok path_components_text path by blast
  have at0: "at_dir lower t a root_ino [] []"
    using t tree_ok_root by (auto simp: at_dir_def chain_path_def intro: chain.root)
  obtain d dp t1 a1 where ds: "ensure_dirs lower t a root_ino [] (butlast ?cs) = Some (d, dp, t1, a1)"
    using e False by (auto simp: insert_file_def Let_def split: bind_splits)
  have cs': "\<forall>c\<in>set (butlast ?cs). name_ok c \<and> text_ok c" using cs by (auto dest: in_set_butlastD)
  obtain u1 where u1: "ensure_dirs lower u a root_ino [] (butlast ?cs) = Some (d, dp, u1, a1)" "same_nodes t1 u1" "tree_ok lower u1"
    using ensure_dirs_same [OF s at0 u cs' ds] by blast
  have t1: "tree_ok lower t1" "is_dir t1 d" using ensure_dirs_step [OF at0 cs' ds] by (auto simp: at_dir_def)
  note g = same_disambiguate [OF u1(2) t1(1) u1(3)] same_reads [OF u1(2)]
  let ?n = "truncate_component (last ?cs) True"
  obtain w i a2 where w: "disambiguate lower t1 d ?n = Some w" and i: "intern lower a1 (join_path dp w) = (i, a2)"
    using e False ds by (auto simp: insert_file_def Let_def intern_names_def split: bind_splits prod.splits)
  let ?new = "\<lambda>t. t\<lparr>track_to_inode := hput tid i (track_to_inode t),
      nodes := hput i \<lparr>n_parent = d, n_name = w, n_rendered = ?n, n_kind = File tid\<rparr> (nodes t)\<rparr>"
  let ?link = "\<lambda>t. insert_folded_child lower (insert_rendered_child lower t d ?n w i) d w i"
  obtain t3 where t3: "add_child (?new t1) d w i = Some t3" "t' = ?link t3" "a' = a2"
    using e False ds w i by (auto simp: insert_file_def Let_def intern_names_def)
  have new: "node (?new x) = (node x)(i \<mapsto> \<lparr>n_parent = d, n_name = w, n_rendered = ?n, n_kind = File tid\<rparr>)" for x
    by (simp add: node_def fun_eq_iff)
  have "map_of (children (?new u1)) d \<noteq> None" using tree_ok_children [OF u1(3)] t1(2) g by simp
  then obtain u3 where u3: "add_child (?new u1) d w i = Some u3" using add_child_Some by blast
  have "insert_file lower u a tid path = Some (?link u3, a')"
    using False u1(1) w i u3 t3(3) by (simp add: insert_file_def Let_def intern_names_def g)
  moreover have "same_nodes t' (?link u3)"
    using u1(2) link_fx(1,2) [OF t3(1,2)] link_fx(1,2) [OF u3 refl] by (simp add: same_nodes_def new)
  ultimately show ?thesis by blast
qed

lemma insert_ids_same:
  assumes "same_nodes t u" "tree_ok lower t" "alloc_ok lower t a" "tree_ok lower u" "paths_ok paths" "distinct ids"
    "set ids \<inter> dom (map_of (track_to_inode t)) = {}" "insert_rendered_ids lower paths t a ids = Some (Inr t', a')"
  shows "\<exists>u'. insert_entries lower u a (rendered_entries paths ids) = Some (u', a') \<and> same_nodes t' u'"
  using assms
proof (induction ids arbitrary: t u a)
  case Nil
  thus ?case by (simp add: rendered_entries_def)
next
  case (Cons i ids)
  obtain s t1 a1 where s: "map_of paths i = Some s" and e: "insert_file lower t a i (rs_path s) = Some (t1, a1)"
    and es: "insert_rendered_ids lower paths t1 a1 ids = Some (Inr t', a')"
    using Cons.prems(8) by (auto split: option.splits bind_splits)
  have path: "text_ok (rs_path s)" "path_components (rs_path s) \<noteq> []" using paths_okD [OF Cons.prems(5) s] by auto
  have new: "map_of (track_to_inode t) i = None" using Cons.prems(7) by auto
  have newu: "map_of (track_to_inode u) i = None" using new same_tracks [OF Cons.prems(1,2,4)] by simp
  obtain u1 where u1: "insert_file lower u a i (rs_path s) = Some (u1, a1)" "same_nodes t1 u1"
    using insert_file_same [OF Cons.prems(1-4) path(1) e] by blast
  have t1: "tree_ok lower t1" "alloc_ok lower t1 a1" using insert_file_step [OF Cons.prems(2,3) path(1) new e] by auto
  obtain j where "map_of (track_to_inode t1) = (map_of (track_to_inode t))(i \<mapsto> j)"
    using insert_file_step [OF Cons.prems(2,3) path(1) new e] path(2) by auto
  hence dis: "set ids \<inter> dom (map_of (track_to_inode t1)) = {}" using Cons.prems(6,7) by auto
  have "tree_ok lower u1"
    using insert_file_step [OF Cons.prems(4) same_alloc_ok [OF Cons.prems(1,3)] path(1) newu u1(1)] by auto
  from Cons.IH [OF u1(2) t1 this Cons.prems(5) _ dis es] Cons.prems(6) show ?case
    using u1(1) s by (auto simp: rendered_entries_def)
qed

subsection \<open>A tree without tracks\<close>

lemma bare_tree:
  assumes ok: "tree_ok lower t" "full_dirs t {}" and none: "dom (map_of (track_to_inode t)) = {}"
  shows "same_nodes t (empty_tree (case_insensitive t))"
proof -
  have r: "chain t root_ino []" by (rule chain.root)
  have full: "full_dirs t {root_ino}" using ok(2) by (auto simp: full_dirs_def)
  have no: "\<not> child_of t root_ino c nd" for c nd
    using file_below [OF ok(1) full r, of c nd] none by auto
  have "node t i = None" if "i \<noteq> root_ino" for i
  proof (rule ccontr)
    assume "node t i \<noteq> None"
    then obtain nds where nds: "chain t i nds" using tree_ok_chain [OF ok(1)] by blast
    hence "nds \<noteq> []" using that by (auto elim: chain_NilE)
    then obtain x xs where x: "nds = [x] @ xs" by (cases nds) auto
    then obtain j where "chain t j ([] @ [x])" using nds chain_prefix by fastforce
    then obtain p where "chain t p []" "child_of t p j x" using chain_snocE [of t j "[]" x] by (auto simp: child_of_def)
    thus False using no by (auto elim: chain_NilE)
  qed
  moreover have "node t root_ino = node (empty_tree (case_insensitive t)) root_ino"
    using ok(1) by (simp add: tree_ok_def root_ok_def node_empty_tree)
  moreover have "case_insensitive (empty_tree (case_insensitive t)) = case_insensitive t" by (simp add: empty_tree_def)
  ultimately show ?thesis by (auto simp: same_nodes_def node_empty_tree fun_eq_iff)
qed

subsection \<open>Rebuilding the root\<close>

lemma under_root: "tree_ok lower t \<Longrightarrow> node t i \<noteq> None \<Longrightarrow> i \<in> under t root_ino"
  using tree_ok_chain [of lower t i] chain.root [of t] by (fastforce simp: under_def)

lemma rebuild_root_fresh:
  assumes wf: "wf_tree lower t a" and p: "paths_ok paths"
    and r: "rebuild_subtree lower t root_ino paths a = Some (Inr t', a')"
  shows "\<exists>u. build_with_ci lower (rendered_entries paths (sorted_list_of_set (dom (map_of (track_to_inode t))))) a (case_insensitive t) =
      Some (u, a') \<and> same_nodes t' u"
proof -
  have ok: "tree_ok lower t" "alloc_ok lower t a" "full_dirs t {}" using wf by (auto simp: wf_tree_def)
  have root: "node t root_ino \<noteq> None" using ok(1) by (simp add: tree_ok_def root_ok_def)
  obtain ids where ids: "collect_tracks t [] [root_ino] = Some ids" "distinct ids" "set ids = tracks_in t (under t root_ino)"
    using collect_tracks_total [OF ok(1) root] by blast
  have all: "set ids = dom (map_of (track_to_inode t))"
  proof -
    have "node t c \<noteq> None" if "map_of (track_to_inode t) tid = Some c" for tid c
      using tree_ok_track [OF ok(1), of tid c] that by auto
    thus ?thesis using under_root [OF ok(1)] unfolding ids(3) tracks_in_def by blast
  qed
  let ?t1 = "remove_tracks lower t ids"
  have rm: "tree_ok lower ?t1" "full_dirs ?t1 {}" "tree_le ?t1 t"
    "map_of (track_to_inode ?t1) = map_of (track_to_inode t) |` (- set ids)"
    using remove_tracks_ok [OF ok(1,3), of ids] by auto
  have none: "dom (map_of (track_to_inode ?t1)) = {}" using rm(4) all by (auto simp: restrict_map_def split: if_splits)
  have ci: "case_insensitive ?t1 = case_insensitive t" using rm(3) by (simp add: tree_le_def)
  have sorted: "sort ids = sorted_list_of_set (dom (map_of (track_to_inode t)))"
    using ids(2) all by (metis distinct_remdups_id sorted_list_of_set_sort_remdups)
  have ins: "insert_rendered_ids lower paths ?t1 a (sort ids) = Some (Inr t', a')"
    using r ids(1) by (simp add: rebuild_subtree_def)
  have "same_nodes ?t1 (empty_tree (case_insensitive t))" using bare_tree [OF rm(1,2) none] ci by simp
  from insert_ids_same [OF this rm(1) tree_le_alloc_ok [OF ok(2) rm(3)] tree_ok_empty p _ _ ins] ids(2) none
  show ?thesis by (simp add: build_with_ci_def sorted)
qed

lemma under_done: "chain t c nds \<Longrightarrow> ancestor_in t c [root_ino] = Some True"
proof (induction rule: chain.induct)
  case root
  show ?case by (subst ancestor_in.simps) simp
next
  case (step p nds c nd)
  thus ?case by (subst ancestor_in.simps) auto
qed

lemma rebuild_dirty_covered:
  "tree_ok lower t \<Longrightarrow> rebuild_dirty lower paths t a [root_ino] n ds = Some (Inr (t, n), a)"
proof (induction ds)
  case (Cons d ds)
  show ?case
  proof (cases "node t d")
    case (Some nd)
    then obtain nds where "chain t d nds" using tree_ok_chain [OF Cons.prems, of d] by auto
    thus ?thesis using Cons Some by (simp add: under_done)
  qed (use Cons in simp)
qed simp

lemma split_slash_join: "CHR ''/'' \<notin> set w \<Longrightarrow> split_slash (w @ CHR ''/'' # s) = w # split_slash s"
  by (induction w) auto

lemma split_slash_word: "CHR ''/'' \<notin> set w \<Longrightarrow> split_slash w = [w]"
  by (induction w) auto

lemma path_depth: "names_ok nds \<Longrightarrow> path_components (chain_path nds) = map n_name nds"
proof -
  have "\<forall>w\<in>set ws. name_ok w \<Longrightarrow> path_components (join_slash ws) = ws" for ws
  proof (induction ws rule: join_slash.induct)
    case (3 w v ws)
    thus ?case by (simp add: path_components_def name_ok_def split_slash_join)
  qed (simp_all add: path_components_def name_ok_def split_slash_word)
  thus "names_ok nds \<Longrightarrow> ?thesis" by (simp add: chain_path_def names_ok_def)
qed

lemma root_first:
  assumes ok: "tree_ok lower t" and d: "root_ino \<in> set ds"
  shows "\<exists>rest. by_depth t ds = root_ino # rest"
proof -
  let ?f = "\<lambda>d. length (path_components (the (path_of t d)))"
  let ?xs = "by_depth t ds"
  have root: "node t root_ino \<noteq> None" using ok by (simp add: tree_ok_def root_ok_def)
  have mem: "root_ino \<in> set ?xs" using root d by (simp add: by_depth_def)
  have srt: "sorted (map ?f ?xs)" unfolding by_depth_def by (rule sorted_sort_key)
  obtain x rest where x: "?xs = x # rest" using mem by (cases ?xs) auto
  have "?f root_ino = 0" by (simp add: path_of_def path_components_def)
  hence f: "?f x = 0" using srt x mem by (cases "x = root_ino") (auto simp: sorted_wrt_map)
  have "set ?xs \<subseteq> {d. node t d \<noteq> None}" by (auto simp: by_depth_def)
  hence "node t x \<noteq> None" unfolding x by auto
  then obtain nds where nds: "chain t x nds" using tree_ok_chain [OF ok] by blast
  have "nds = []"
    using f path_of_chain [OF nds] chain_names [OF ok nds] by (simp add: path_depth)
  hence "x = root_ino" using nds by (auto elim: chain_NilE)
  thus ?thesis using x by simp
qed

text \<open>With the root among the dirty directories one rebuild covers them all.\<close>

lemma rebuild_from_root:
  assumes wf: "wf_tree lower t a" and p: "paths_ok paths" "settled lower t paths" and room: "track_count t + 4 < 2 ^ 32"
    and d: "root_ino \<in> set ds" and r: "rebuild_dirty lower paths t a [] 0 (by_depth t ds) = Some (Inr (t', n), a')"
  shows "n = 1 \<and> (\<exists>u. build_with_ci lower (rendered_entries paths (sorted_list_of_set (dom (map_of (track_to_inode t))))) a
      (case_insensitive t) = Some (u, a') \<and> node u = node t')"
proof -
  have ok: "tree_ok lower t" using wf by (simp add: wf_tree_def)
  obtain rest where rest: "by_depth t ds = root_ino # rest" using root_first [OF ok d] by blast
  have root: "node t root_ino \<noteq> None" using ok by (simp add: tree_ok_def root_ok_def)
  have none: "ancestor_in t root_ino [] = Some False" by (subst ancestor_in.simps) simp
  obtain t1 a1 where t1: "rebuild_subtree lower t root_ino paths a = Some (Inr t1, a1)" "wf_tree lower t1 a1"
    using rebuild_subtree_ok [OF wf p root room] by blast
  have "rebuild_dirty lower paths t a [] 0 (by_depth t ds) = rebuild_dirty lower paths t1 a1 [root_ino] 1 rest"
    using none t1(1) by (cases "node t root_ino") (use root in \<open>simp_all add: rest\<close>)
  also have "\<dots> = Some (Inr (t1, 1), a1)" using t1(2) by (intro rebuild_dirty_covered) (simp add: wf_tree_def)
  finally have "t' = t1" "n = 1" "a' = a1" using r by simp_all
  thus ?thesis using rebuild_root_fresh [OF wf p(1) t1(1)] by (auto simp: same_nodes_def)
qed

end

end
