(* ===== verification/Tree_Props.thy ===== *)
theory Tree_Props
  imports Tree_Fresh
begin

text \<open>
  The properties of the virtual tree the filesystem layer rests on, each shown for every tree a mount
  goes through, with instances on a small mount.
\<close>

text \<open>C26: Every tree a mount goes through is well formed: every node hangs off the root by directories,
  the child, rendered and folded indexes and the track map say exactly what the nodes say, sibling
  names are distinct under the comparison of the mount, names are usable path components, no root
  entry takes a name reserved for an injected one, no directory but the root is empty, and the
  allocator maps the path of every node to its inode and no two paths to the same one.
\<close>

theorem tree_reachable_wf:
  assumes "case_folding lower" "tree_reach lower ci t a"
  shows "wf_tree lower t a"
  using case_folding.reach_ok [OF assms] by blast

lemma tree_reachable_wf_witness: "wf_tree to_ascii_lowercase demo_tree demo_alloc"
  by (rule tree_reachable_wf [OF ascii_fold.case_folding_axioms demo_reach])

text \<open>Listing a directory, and looking a name up in it.\<close>

definition readdir :: "vtree \<Rightarrow> nat \<Rightarrow> core_error + (string \<times> nat \<times> bool) list" where
  "readdir t ino =
     (case map_of (children t) ino of
        Some kids \<Rightarrow> Inr (map (\<lambda>(name, child). (name, child, is_dir t child)) kids)
      | None \<Rightarrow> if node t ino \<noteq> None then Inl (NotADir ino) else Inl (NoEntry ino))"

lemma lookup_fkid_kid: "lookup lower t d n = (if case_insensitive t then fkid t d (lower n) else kid t d n)"
  by (auto simp: lookup_def fkid_def kid_def or_default_def split: option.splits bind_splits)

lemma lookup_iff:
  assumes "tree_ok lower t"
  shows "lookup lower t d n = Some c \<longleftrightarrow> (\<exists>nd. child_of t d c nd \<and>
    name_key lower (case_insensitive t) (n_name nd) = name_key lower (case_insensitive t) n)"
  using tree_ok_kid [OF assms] tree_ok_fkid [OF assms] by (auto simp: lookup_fkid_kid name_key_def)

lemma readdir_child:
  assumes "tree_ok lower t" "readdir t d = Inr es" "(n, c, b) \<in> set es"
  shows "\<exists>nd. child_of t d c nd \<and> n_name nd = n \<and> b = is_dir t c"
proof -
  obtain kids where k: "map_of (children t) d = Some kids" "(n, c) \<in> set kids" "b = is_dir t c"
    using assms(2,3) by (auto simp: readdir_def split: option.splits if_splits)
  have "or_default (children t) d = kids" using k(1) by (rule or_default_Some)
  moreover have "keys_sorted (or_default (children t) d)" using assms(1) by (simp add: tree_ok_def ord_ok_def)
  ultimately have "kid t d n = Some c" using k(2) by (simp add: kid_def keys_sorted_distinct)
  thus ?thesis using tree_ok_kid [OF assms(1)] k(3) by blast
qed

text \<open>C27: In every tree of a mount a listed name is a name that resolves: each entry of a directory
  listing is found again by lookup, under its listed inode, with the directory as its parent and the
  listed name appended to the directory's path; it is a usable component, and in the root it is not
  one of the reserved names.
\<close>

theorem readdir_entries_resolve:
  assumes "case_folding lower" "tree_reach lower ci t a" "readdir t d = Inr es" "(n, c, b) \<in> set es"
  shows "lookup lower t d n = Some c \<and> parent_of t c = Some d \<and> name_ok n \<and> b = is_dir t c \<and>
    (d = root_ino \<longrightarrow> \<not> is_reserved_root_name lower t n) \<and>
    (\<exists>p. path_of t d = Some p \<and> path_of t c = Some (join_path p n))"
proof -
  have ok: "tree_ok lower t" using case_folding.reach_ok [OF assms(1,2)] by (simp add: wf_tree_def)
  obtain nd where nd: "child_of t d c nd" "n_name nd = n" "b = is_dir t c"
    using readdir_child [OF ok assms(3,4)] by blast
  have "node t d \<noteq> None" using tree_ok_child [OF ok nd(1)] by (auto simp: is_dir_def node_kind_of_def)
  then obtain ns where ns: "chain t d ns" using tree_ok_chain [OF ok] by blast
  have c: "chain t c (ns @ [nd])" using ns nd(1) by (auto simp: child_of_def intro: chain.step)
  have "path_of t c = Some (join_path (chain_path ns) n)"
    using path_of_chain [OF c] chain_path_snoc [OF chain_names [OF ok c]] nd(2) by simp
  moreover have "lookup lower t d n = Some c" using lookup_iff [OF ok] nd by blast
  moreover have "parent_of t c = Some d" using nd(1) by (auto simp: parent_of_def child_of_def)
  ultimately show ?thesis
    using path_of_chain [OF ns] tree_ok_child [OF ok nd(1)] nd(2,3) by blast
qed

lemma demo_readdir: "readdir demo_tree 2 = Inr [(''x (2).flac'', 4, False), (''x.flac'', 3, False)]"
  by code_simp

lemma readdir_entries_resolve_witness:
  "lookup to_ascii_lowercase demo_tree 2 ''x (2).flac'' = Some 4 \<and> parent_of demo_tree 4 = Some 2"
proof -
  have "(''x (2).flac'', 4, False) \<in> set [(''x (2).flac'', 4, False), (''x.flac'', 3::nat, False)]" by simp
  from readdir_entries_resolve [OF ascii_fold.case_folding_axioms demo_reach demo_readdir this] show ?thesis by blast
qed

text \<open>C28: Applying a change set always succeeds: from a well-formed tree that reflects the render states of
  the untouched tracks it returns, without a panic or an endless loop and for every order in which
  the hash set of dirty directories is listed, a well-formed tree holding exactly the tracks that
  remain and the changed and added ones, each under the names its new render state asks for up to
  rank suffixes and truncation, or literally at that path. When the update marks the root as dirty
  (a removal or an arrival that can shift the ranks of a top-level name) it rebuilds once, and the
  result has exactly the nodes (inodes, parents, ranked names) of a full build, from the empty tree,
  of all the remaining tracks by ascending id with their rendered paths, and the allocator of that
  build. For a dirty directory below the root the ranks are not claimed to be those of a full build.
\<close>

theorem apply_changes_reflects:
  assumes "case_folding lower" "wf_tree lower t a" "change_ok lower t paths changed added removed"
    "\<And>ds. set (hash_order ds) = set ds"
  shows "\<exists>t' n a'. apply_changes lower hash_order t paths changed added removed a = Some (Inr (t', n), a') \<and>
    wf_tree lower t' a' \<and> settled lower t' paths \<and>
    dom (map_of (track_to_inode t')) = (dom (map_of (track_to_inode t)) - set removed) \<union> set changed \<union> set added \<and>
    (\<forall>ds. dirty_dirs lower t paths changed added removed = Some ds \<longrightarrow> root_ino \<in> set ds \<longrightarrow>
       n = 1 \<and>
       (\<exists>a1 u. alloc_le a a1 \<and>
          build_with_ci lower (rendered_entries paths (sorted_list_of_set (dom (map_of (track_to_inode t'))))) a1
            (case_insensitive t) = Some (u, a') \<and>
          node u = node t'))"
proof -
  obtain t2 a2 ds where t2: "dirty_dirs lower t paths changed added removed = Some ds"
    "apply_changes lower hash_order t paths changed added removed a = rebuild_dirty lower paths t2 a2 [] 0 (by_depth t2 (hash_order ds))"
    "wf_tree lower t2 a2" "settled lower t2 paths" "alloc_le a a2" "case_insensitive t2 = case_insensitive t"
    "track_count t2 + 4 < 2 ^ 32"
    "dom (map_of (track_to_inode t2)) = (dom (map_of (track_to_inode t)) - set removed) \<union> set changed \<union> set added"
    using case_folding.apply_changes_inserted [OF assms(1,2), of paths removed changed added hash_order] assms(3)
    unfolding change_ok_def room_for_def by (auto simp: algebra_simps)
  have p: "paths_ok paths" using assms(3) by (simp add: change_ok_def)
  obtain t' n a' where r: "rebuild_dirty lower paths t2 a2 [] 0 (by_depth t2 (hash_order ds)) = Some (Inr (t', n), a')"
    "wf_tree lower t' a'" "settled lower t' paths"
    "dom (map_of (track_to_inode t')) = dom (map_of (track_to_inode t2))"
    using case_folding.rebuild_dirty_ok [OF assms(1) t2(3) p t2(4,7)] by blast
  have "n = 1 \<and> (\<exists>u. build_with_ci lower (rendered_entries paths (sorted_list_of_set (dom (map_of (track_to_inode t'))))) a2
      (case_insensitive t) = Some (u, a') \<and> node u = node t')" if "root_ino \<in> set ds"
    using case_folding.rebuild_from_root [OF assms(1) t2(3) p t2(4,7) _ r(1)] that assms(4) t2(6) r(4) by auto
  thus ?thesis using t2(1,5,8) r unfolding t2(2) by fastforce
qed

text \<open>
  Two tracks that render to one name in the root: the first owns it, the second is ranked. When the
  first goes, the root is dirty and the second one takes the bare name.
\<close>

definition demo_top_entries :: "(int \<times> string) list" where
  "demo_top_entries = [(1, ''x.flac''), (2, ''x.flac'')]"

definition demo_top :: "vtree \<times> inode_allocator" where
  "demo_top = the (build_with_ci to_ascii_lowercase demo_top_entries (alloc_new False) False)"

definition demo_top_paths :: render_states where
  "demo_top_paths = [(2, \<lparr>rs_version = 1, rs_format = Flac, rs_path = ''x.flac''\<rparr>)]"

lemma demo_top_ok:
  "wf_tree to_ascii_lowercase (fst demo_top) (snd demo_top)" "case_insensitive (fst demo_top) = False"
  "map_of (track_to_inode (fst demo_top)) = [1 \<mapsto> 2, 2 \<mapsto> 3]" "placed to_ascii_lowercase (fst demo_top) 2 ''x.flac'' 3"
proof -
  have aw: "alloc_wf (alloc_new False)" "a_fold_keys (alloc_new False) = False"
    by (simp_all add: alloc_wf_def alloc_new_def root_ino_def)
  have e: "list_all (\<lambda>e. text_ok (snd e)) demo_top_entries" "distinct (map fst demo_top_entries)" "length demo_top_entries + 4 < 2 ^ 32"
    by (simp_all add: demo_top_entries_def text_ok_def cont_char_def)
  obtain t a where ta: "build_with_ci to_ascii_lowercase demo_top_entries (alloc_new False) False = Some (t, a)"
    "wf_tree to_ascii_lowercase t a" "case_insensitive t = False"
    "\<forall>(tid, path)\<in>set demo_top_entries. path_components path \<noteq> [] \<longrightarrow>
       (\<exists>i. map_of (track_to_inode t) tid = Some i \<and> placed to_ascii_lowercase t tid path i)"
    using ascii_fold.build_ok [OF aw e] by blast
  have t: "demo_top = (t, a)" using ta(1) by (simp add: demo_top_def)
  have "track_to_inode (fst demo_top) = [(1, 2), (2, 3)]" by code_simp
  hence m: "map_of (track_to_inode (fst demo_top)) = [1 \<mapsto> 2, 2 \<mapsto> 3]" by (auto simp: fun_eq_iff)
  have "(2, ''x.flac'') \<in> set demo_top_entries" "path_components ''x.flac'' \<noteq> []"
    by (simp_all add: demo_top_entries_def path_components_def)
  hence "\<exists>i. map_of (track_to_inode t) 2 = Some i \<and> placed to_ascii_lowercase t 2 ''x.flac'' i" using ta(4) by blast
  thus "placed to_ascii_lowercase (fst demo_top) 2 ''x.flac'' 3" using m unfolding t by auto
  show "wf_tree to_ascii_lowercase (fst demo_top) (snd demo_top)" "case_insensitive (fst demo_top) = False"
    using ta(2,3) unfolding t by simp_all
  show "map_of (track_to_inode (fst demo_top)) = [1 \<mapsto> 2, 2 \<mapsto> 3]" by (rule m)
qed

lemma demo_top_change: "change_ok to_ascii_lowercase (fst demo_top) demo_top_paths [] [] [1]"
proof -
  have "room_for (fst demo_top) 0" by (simp add: room_for_def track_count_def demo_top_ok(3) card_insert_if)
  moreover have "paths_ok demo_top_paths"
    by (simp add: paths_ok_def demo_top_paths_def text_ok_def cont_char_def path_components_def)
  ultimately show ?thesis
    using demo_top_ok(4) by (auto simp: change_ok_def located_def demo_top_paths_def demo_top_ok(3) split: if_splits)
qed

lemma demo_top_dirty: "dirty_dirs to_ascii_lowercase (fst demo_top) demo_top_paths [] [] [1] = Some [1]"
  by code_simp

lemma apply_changes_reflects_witness:
  "\<exists>t' a'. apply_changes to_ascii_lowercase rev (fst demo_top) demo_top_paths [] [] [1] (snd demo_top) = Some (Inr (t', 1), a') \<and>
    dom (map_of (track_to_inode t')) = {2} \<and>
    (\<exists>a1 u. build_with_ci to_ascii_lowercase [(2, ''x.flac'')] a1 False = Some (u, a') \<and> node u = node t')"
proof -
  have "dom (map_of (track_to_inode (fst demo_top))) = {1, 2}" by (auto simp: demo_top_ok(3))
  moreover have "rendered_entries demo_top_paths [2] = [(2, ''x.flac'')]" by (simp add: rendered_entries_def demo_top_paths_def)
  moreover have "root_ino \<in> set [1]" by (simp add: root_ino_def)
  ultimately show ?thesis
    using apply_changes_reflects [OF ascii_fold.case_folding_axioms demo_top_ok(1) demo_top_change, of rev]
      demo_top_dirty demo_top_ok(2) by fastforce
qed

text \<open>C29: A full build succeeds for any set of rendered tracks below the range of the rank counter, and
  materializes every one of them: each track with a non-empty path gets a file whose chain of
  pre-disambiguation names is its rendered path, cut to NAME_MAX.
\<close>

theorem build_places_every_track:
  assumes "case_folding lower" "list_all (\<lambda>e. text_ok (snd e)) entries" "distinct (map fst entries)"
    "length entries + 4 < 2 ^ 32" "(tid, path) \<in> set entries" "path_components path \<noteq> []"
  shows "\<exists>t a i. build_with_ci lower entries (alloc_new ci) ci = Some (t, a) \<and> wf_tree lower t a \<and>
    inode_of_track t tid = Some i \<and> track_id t i = Some tid \<and> placed lower t tid path i"
proof -
  have aw: "alloc_wf (alloc_new ci)" by (simp add: alloc_wf_def alloc_new_def root_ino_def split: if_splits)
  have "a_fold_keys (alloc_new ci) = ci" by (simp add: alloc_new_def)
  from case_folding.build_ok [OF assms(1) aw this assms(2-4)]
  obtain t a where t: "build_with_ci lower entries (alloc_new ci) ci = Some (t, a)" "wf_tree lower t a"
    "\<forall>(tid, path)\<in>set entries. path_components path \<noteq> [] \<longrightarrow>
       (\<exists>i. map_of (track_to_inode t) tid = Some i \<and> placed lower t tid path i)" by blast
  obtain i where i: "map_of (track_to_inode t) tid = Some i" "placed lower t tid path i"
    using t(3) assms(5,6) by fastforce
  have "tree_ok lower t" using t(2) by (simp add: wf_tree_def)
  hence "track_id t i = Some tid" using tree_ok_track i(1) by (fastforce simp: track_id_def node_kind_of_def)
  thus ?thesis using t(1,2) i by (auto simp: inode_of_track_def)
qed

lemma build_places_every_track_witness:
  "\<exists>t a i. build_with_ci to_ascii_lowercase demo_entries (alloc_new False) False = Some (t, a) \<and>
    inode_of_track t 2 = Some i \<and> track_id t i = Some 2 \<and> placed to_ascii_lowercase t 2 ''A/x.flac'' i"
proof -
  have m: "(2, ''A/x.flac'') \<in> set demo_entries" "path_components ''A/x.flac'' \<noteq> []"
    by (simp_all add: demo_entries_def path_components_def)
  show ?thesis
    using build_places_every_track [OF ascii_fold.case_folding_axioms demo_entries_ok m, of False] by blast
qed

text \<open>C30: Inodes are stable and never recycled: across any step of the mount a path that is in both trees
  keeps its inode, and an inode the allocator had handed out before the step and dropped is not given
  to another path by it.
\<close>

theorem inodes_stable:
  assumes "case_folding lower" "tree_reach lower ci t a" "tree_step lower (t, a) (t', a')"
    "node t i \<noteq> None" "node t' j \<noteq> None" "path_of t i = Some p" "path_of t' j = Some p"
  shows "i = j \<and> (\<forall>k x. map_of (a_paths a') k = Some x \<and> x < a_next a \<longrightarrow> map_of (a_paths a) k = Some x)"
proof -
  have wf: "wf_tree lower t a" using case_folding.reach_ok [OF assms(1,2)] by blast
  note st = case_folding.step_ok [OF assms(1) wf assms(3)]
  have ok: "tree_ok lower t" "alloc_ok lower t a" "tree_ok lower t'" "alloc_ok lower t' a'"
    using wf st by (auto simp: wf_tree_def)
  obtain ns ms where c: "chain t i ns" "chain t' j ms"
    using tree_ok_chain [OF ok(1) assms(4)] tree_ok_chain [OF ok(3) assms(5)] by blast
  have p: "chain_path ns = p" "chain_path ms = p" using path_of_chain [OF c(1)] path_of_chain [OF c(2)] assms(6,7) by auto
  have key: "a_key lower a' = a_key lower a" using ok(2,4) st by (simp add: alloc_ok_def a_key_name_key)
  have "map_of (a_paths a) (a_key lower a (chain_path ns)) = Some i" "map_of (a_paths a') (a_key lower a' (chain_path ms)) = Some j"
    using ok(2,4) c unfolding alloc_ok_def by blast+
  hence m: "map_of (a_paths a) (a_key lower a p) = Some i" "map_of (a_paths a') (a_key lower a p) = Some j"
    using p key by auto
  from st have "alloc_le a a' \<or> a' = prune_retired a t" by blast
  thus ?thesis
  proof
    assume "alloc_le a a'"
    hence keep: "map_of (a_paths a) k = Some x \<Longrightarrow> map_of (a_paths a') k = Some x"
      and old: "map_of (a_paths a') k = Some x \<Longrightarrow> map_of (a_paths a) k = Some x \<or> a_next a \<le> x" for k x
      unfolding alloc_le_def by blast+
    show ?thesis using m keep old by fastforce
  next
    assume a': "a' = prune_retired a t"
    have d: "distinct (map fst (a_paths a))" using ok(2) by (simp add: alloc_ok_def alloc_wf_def)
    have "map_of (a_paths a') k = Some x \<Longrightarrow> map_of (a_paths a) k = Some x" for k x
      using a' d by (auto simp: prune_retired_def distinct_map_filter split: if_splits)
    thus ?thesis using m by fastforce
  qed
qed

definition demo_removed :: vtree where "demo_removed = snd (remove_track to_ascii_lowercase demo_tree 1)"

lemma inodes_stable_witness:
  "path_of demo_tree 4 = Some ''A/x (2).flac'' \<and> path_of demo_removed 4 = Some ''A/x (2).flac'' \<and> (4::nat) = 4 \<and>
   node demo_tree 4 \<noteq> None"
proof -
  have st: "tree_step to_ascii_lowercase (demo_tree, demo_alloc) (demo_removed, demo_alloc)"
    unfolding demo_removed_def by (rule tree_step.Remove) (rule surjective_pairing)
  have n: "node demo_tree 4 \<noteq> None" "node demo_removed 4 \<noteq> None" by code_simp+
  have p: "path_of demo_tree 4 = Some ''A/x (2).flac''" "path_of demo_removed 4 = Some ''A/x (2).flac''" by code_simp+
  show ?thesis using inodes_stable [OF ascii_fold.case_folding_axioms demo_reach st n p] p n by simp
qed

end
