(* ===== verification/Store.thy ===== *)
theory Store
  imports Refresh_Diff Tree_Names
begin

text \<open>
  The store as its schema defines it, musefs-db/src/schema.rs: the rows of the tables with their
  CHECK, UNIQUE and foreign-key constraints, and the row-level statements with the triggers they fire.
  Every trigger that records a change funnels into an update of the tracks row, which the changelog
  ring logs; the ring keeps the last 8192 entries. A table is the list of its rows, an integer column
  an unbounded integer, a TEXT column the list of its UTF-8 bytes; the time of a statement and the hash
  of an image are arguments. A statement that violates a constraint answers the error of the engine
  and leaves the store as it was.
\<close>

subsection \<open>Rows\<close>

record track_row =
  tk_id :: int
  tk_path :: string
  tk_format :: string
  tk_offset :: int
  tk_len :: int
  tk_size :: int
  tk_mtime :: int
  tk_ctime :: int
  tk_version :: int
  tk_updated :: int
  tk_fingerprint :: "string option"
  tk_hash :: "string option"

record tag_row =
  tg_rowid :: int
  tg_track :: int
  tg_key :: string
  tg_value :: string
  tg_ordinal :: int
  tg_blob :: "bytes option"

record art_row =
  ar_id :: int
  ar_sha :: string
  ar_mime :: string
  ar_width :: "int option"
  ar_height :: "int option"
  ar_len :: int
  ar_data :: bytes

record link_row =
  ln_track :: int
  ln_art :: int
  ln_type :: int
  ln_desc :: string
  ln_ordinal :: int

record block_row =
  bk_track :: int
  bk_kind :: string
  bk_ordinal :: int
  bk_body :: bytes

record store =
  st_tracks :: "track_row list"
  st_tags :: "tag_row list"
  st_arts :: "art_row list"
  st_links :: "link_row list"
  st_blocks :: "block_row list"
  st_changes :: "(int \<times> int) list"
  st_seq :: int

type_synonym store_result = "db_error + store"

definition empty_store :: store where
  "empty_store = \<lparr>st_tracks = [], st_tags = [], st_arts = [], st_links = [], st_blocks = [], st_changes = [], st_seq = 0\<rparr>"

definition constraint :: "string \<Rightarrow> store_result" where
  "constraint c = Inl (Sqlite c)"

subsection \<open>Column checks\<close>

text \<open>length of a TEXT value: the characters before the first NUL.\<close>

definition sql_length :: "string \<Rightarrow> int" where
  "sql_length s = int (length (filter (\<lambda>c. \<not> cont_char c) (takeWhile (\<lambda>c. c \<noteq> CHR 0x00) s)))"

definition format_names :: "string list" where
  "format_names = [''flac'', ''mp3'', ''m4a'', ''opus'', ''vorbis'', ''oggflac'', ''wav'']"

definition track_check :: "track_row \<Rightarrow> bool" where
  "track_check r \<longleftrightarrow> tk_format r \<in> set format_names \<and> 0 \<le> tk_offset r \<and> 0 \<le> tk_len r \<and> 0 \<le> tk_size r \<and>
     0 \<le> tk_mtime r \<and> 0 \<le> tk_version r \<and> 0 \<le> tk_updated r \<and> 0 \<le> tk_ctime r \<and>
     tk_offset r + tk_len r \<le> tk_size r \<and>
     (case tk_fingerprint r of Some x \<Rightarrow> sql_length x = 64 | None \<Rightarrow> True) \<and>
     (case tk_hash r of Some x \<Rightarrow> sql_length x = 64 | None \<Rightarrow> True)"

definition has_control :: "string \<Rightarrow> bool" where
  "has_control k = list_ex (\<lambda>c. 1 \<le> (of_char c :: nat) \<and> (of_char c :: nat) \<le> 31) (takeWhile (\<lambda>c. c \<noteq> CHR 0x00) k)"

definition tag_check :: "tag_row \<Rightarrow> bool" where
  "tag_check r \<longleftrightarrow> 0 \<le> tg_ordinal r \<and> (tg_blob r = None \<or> tg_value r = []) \<and>
     sql_length (tg_key r) \<le> 256 \<and> 1 \<le> sql_length (tg_key r) \<and> \<not> has_control (tg_key r) \<and>
     length (tg_value r) \<le> 16777215 \<and>
     (case tg_blob r of Some b \<Rightarrow> length b \<le> 16711680 | None \<Rightarrow> True)"

definition art_check :: "art_row \<Rightarrow> bool" where
  "art_check r \<longleftrightarrow> ar_len r = int (length (ar_data r)) \<and> sql_length (ar_sha r) = 64 \<and>
     (case ar_width r of Some w \<Rightarrow> 0 \<le> w | None \<Rightarrow> True) \<and>
     (case ar_height r of Some h \<Rightarrow> 0 \<le> h | None \<Rightarrow> True) \<and>
     sql_length (ar_mime r) \<le> 255 \<and> ar_len r \<le> 16711680"

definition link_check :: "link_row \<Rightarrow> bool" where
  "link_check r \<longleftrightarrow> 0 \<le> ln_type r \<and> ln_type r \<le> 20 \<and> 0 \<le> ln_ordinal r \<and> sql_length (ln_desc r) \<le> 8192"

definition block_check :: "block_row \<Rightarrow> bool" where
  "block_check r \<longleftrightarrow> bk_kind r \<in> {''STREAMINFO'', ''SEEKTABLE''} \<and> 0 \<le> bk_ordinal r \<and>
     length (bk_body r) \<le> 16777215"

subsection \<open>Keys\<close>

definition find_track :: "store \<Rightarrow> int \<Rightarrow> track_row option" where
  "find_track s i = find (\<lambda>r. tk_id r = i) (st_tracks s)"

definition tag_key :: "tag_row \<Rightarrow> int \<times> string \<times> int" where "tag_key r = (tg_track r, tg_key r, tg_ordinal r)"
definition link_key :: "link_row \<Rightarrow> int \<times> int" where "link_key r = (ln_track r, ln_ordinal r)"
definition block_key :: "block_row \<Rightarrow> int \<times> string \<times> int" where "block_key r = (bk_track r, bk_kind r, bk_ordinal r)"

definition has_track :: "store \<Rightarrow> int \<Rightarrow> bool" where "has_track s i \<longleftrightarrow> i \<in> tk_id ` set (st_tracks s)"
definition has_art :: "store \<Rightarrow> int \<Rightarrow> bool" where "has_art s i \<longleftrightarrow> i \<in> ar_id ` set (st_arts s)"

text \<open>The id of a new row of a table whose key is a plain INTEGER PRIMARY KEY.\<close>

definition next_id :: "int list \<Rightarrow> int" where
  "next_id ids = (if ids = [] then 1 else Max (set ids) + 1)"

subsection \<open>The changelog ring\<close>

definition ring_cap :: int where "ring_cap = 8192"

definition prune_changes :: "int \<Rightarrow> (int \<times> int) list \<Rightarrow> (int \<times> int) list" where
  "prune_changes new cs = filter (\<lambda>(q, i). \<not> q \<le> new - ring_cap) cs"

definition log_change :: "int \<Rightarrow> store \<Rightarrow> store" where
  "log_change i s =
     (let n = st_seq s + 1 in s\<lparr>st_seq := n, st_changes := prune_changes n (st_changes s @ [(n, i)])\<rparr>)"

subsection \<open>Statements on tracks\<close>

definition put_track :: "track_row \<Rightarrow> store \<Rightarrow> store" where
  "put_track r s = s\<lparr>st_tracks := map (\<lambda>x. if tk_id x = tk_id r then r else x) (st_tracks s)\<rparr>"

text \<open>The trigger tracks_geometry_au, with the update it nests: that one changes no geometry.\<close>

definition geometry_changed :: "track_row \<Rightarrow> track_row \<Rightarrow> bool" where
  "geometry_changed new old \<longleftrightarrow> tk_format new \<noteq> tk_format old \<or> tk_offset new \<noteq> tk_offset old \<or>
     tk_len new \<noteq> tk_len old \<or> tk_size new \<noteq> tk_size old \<or> tk_mtime new \<noteq> tk_mtime old"

definition after_update :: "track_row \<Rightarrow> track_row \<Rightarrow> store \<Rightarrow> store" where
  "after_update new old s =
     (let s = log_change (tk_id new) s in
      if geometry_changed new old
      then log_change (tk_id new) (put_track (new\<lparr>tk_version := tk_version new + 1\<rparr>) s)
      else s)"

definition path_taken :: "store \<Rightarrow> string \<Rightarrow> int \<Rightarrow> bool" where
  "path_taken s p i \<longleftrightarrow> list_ex (\<lambda>x. tk_path x = p \<and> tk_id x \<noteq> i) (st_tracks s)"

text \<open>UPDATE tracks SET ... WHERE id = i, for columns other than the id.\<close>

definition sql_update_track :: "int \<Rightarrow> (track_row \<Rightarrow> track_row) \<Rightarrow> store \<Rightarrow> store_result" where
  "sql_update_track i f s =
     (case find_track s i of
        None \<Rightarrow> Inr s
      | Some r \<Rightarrow>
          let r' = (f r)\<lparr>tk_id := i\<rparr> in
          if \<not> track_check r' then constraint ''CHECK constraint failed: tracks''
          else if path_taken s (tk_path r') i then constraint ''UNIQUE constraint failed: tracks.backing_path''
          else Inr (after_update r' r (put_track r' s)))"

definition sql_insert_track :: "track_row \<Rightarrow> store \<Rightarrow> store_result" where
  "sql_insert_track r s =
     (if \<not> track_check r then constraint ''CHECK constraint failed: tracks''
      else if has_track s (tk_id r) then constraint ''UNIQUE constraint failed: tracks.id''
      else if path_taken s (tk_path r) (tk_id r) then constraint ''UNIQUE constraint failed: tracks.backing_path''
      else Inr (log_change (tk_id r) (s\<lparr>st_tracks := st_tracks s @ [r]\<rparr>)))"

text \<open>The bumps of the triggers on tags, track_art and art, and of those on structural_blocks.\<close>

definition bump :: "int \<Rightarrow> int \<Rightarrow> store \<Rightarrow> store_result" where
  "bump now i = sql_update_track i (\<lambda>r. r\<lparr>tk_version := tk_version r + 1, tk_updated := now\<rparr>)"

definition bump_version :: "int \<Rightarrow> store \<Rightarrow> store_result" where
  "bump_version i = sql_update_track i (\<lambda>r. r\<lparr>tk_version := tk_version r + 1\<rparr>)"

subsection \<open>Statements on tags\<close>

definition sql_insert_tag :: "int \<Rightarrow> tag_row \<Rightarrow> store \<Rightarrow> store_result" where
  "sql_insert_tag now r s =
     (if \<not> tag_check r then constraint ''CHECK constraint failed: tags''
      else if tag_key r \<in> tag_key ` set (st_tags s) then constraint ''UNIQUE constraint failed: tags''
      else if \<not> has_track s (tg_track r) then constraint ''FOREIGN KEY constraint failed''
      else bump now (tg_track r)
        (s\<lparr>st_tags := st_tags s @ [r\<lparr>tg_rowid := next_id (map tg_rowid (st_tags s))\<rparr>]\<rparr>))"

definition sql_delete_tag :: "int \<Rightarrow> tag_row \<Rightarrow> store \<Rightarrow> store_result" where
  "sql_delete_tag now r s = bump now (tg_track r) (s\<lparr>st_tags := filter (\<lambda>x. x \<noteq> r) (st_tags s)\<rparr>)"

text \<open>UPDATE tags: the trigger bumps the track of the new row only.\<close>

definition sql_update_tag :: "int \<Rightarrow> tag_row \<Rightarrow> tag_row \<Rightarrow> store \<Rightarrow> store_result" where
  "sql_update_tag now old new s =
     (if \<not> tag_check new then constraint ''CHECK constraint failed: tags''
      else if tag_key new \<in> tag_key ` set (filter (\<lambda>x. x \<noteq> old) (st_tags s)) then constraint ''UNIQUE constraint failed: tags''
      else if \<not> has_track s (tg_track new) then constraint ''FOREIGN KEY constraint failed''
      else bump now (tg_track new)
        (s\<lparr>st_tags := map (\<lambda>x. if x = old then new\<lparr>tg_rowid := tg_rowid old\<rparr> else x) (st_tags s)\<rparr>))"

subsection \<open>Statements on pictures\<close>

definition sql_insert_link :: "int \<Rightarrow> link_row \<Rightarrow> store \<Rightarrow> store_result" where
  "sql_insert_link now r s =
     (if \<not> link_check r then constraint ''CHECK constraint failed: track_art''
      else if link_key r \<in> link_key ` set (st_links s) then constraint ''UNIQUE constraint failed: track_art''
      else if \<not> has_track s (ln_track r) \<or> \<not> has_art s (ln_art r) then constraint ''FOREIGN KEY constraint failed''
      else bump now (ln_track r) (s\<lparr>st_links := st_links s @ [r]\<rparr>))"

definition sql_delete_link :: "int \<Rightarrow> link_row \<Rightarrow> store \<Rightarrow> store_result" where
  "sql_delete_link now r s = bump now (ln_track r) (s\<lparr>st_links := filter (\<lambda>x. x \<noteq> r) (st_links s)\<rparr>)"

text \<open>UPDATE track_art: like that of tags, the trigger bumps the track of the new row only.\<close>

definition sql_update_link :: "int \<Rightarrow> link_row \<Rightarrow> link_row \<Rightarrow> store \<Rightarrow> store_result" where
  "sql_update_link now old new s =
     (if \<not> link_check new then constraint ''CHECK constraint failed: track_art''
      else if link_key new \<in> link_key ` set (filter (\<lambda>x. x \<noteq> old) (st_links s)) then constraint ''UNIQUE constraint failed: track_art''
      else if \<not> has_track s (ln_track new) \<or> \<not> has_art s (ln_art new) then constraint ''FOREIGN KEY constraint failed''
      else bump now (ln_track new) (s\<lparr>st_links := map (\<lambda>x. if x = old then new else x) (st_links s)\<rparr>))"

definition sql_insert_art :: "art_row \<Rightarrow> store \<Rightarrow> store_result" where
  "sql_insert_art r s =
     (if \<not> art_check r then constraint ''CHECK constraint failed: art''
      else if has_art s (ar_id r) \<or> ar_sha r \<in> ar_sha ` set (st_arts s) then constraint ''UNIQUE constraint failed: art''
      else Inr (s\<lparr>st_arts := st_arts s @ [r]\<rparr>))"

definition art_content_changed :: "art_row \<Rightarrow> art_row \<Rightarrow> bool" where
  "art_content_changed new old \<longleftrightarrow> ar_data new \<noteq> ar_data old \<or> ar_sha new \<noteq> ar_sha old \<or> ar_mime new \<noteq> ar_mime old \<or>
     ar_len new \<noteq> ar_len old \<or> ar_width new \<noteq> ar_width old \<or> ar_height new \<noteq> ar_height old"

definition sql_update_art :: "art_row \<Rightarrow> art_row \<Rightarrow> store \<Rightarrow> store_result" where
  "sql_update_art old new s =
     (if art_content_changed new old
      then constraint ''art rows are immutable; insert a new content-addressed row and relink via track_art''
      else Inr s)"

fun bump_all :: "int \<Rightarrow> int list \<Rightarrow> store \<Rightarrow> store_result" where
  "bump_all now [] s = Inr s"
| "bump_all now (i # is) s = rbind (bump now i s) (bump_all now is)"

text \<open>
  DELETE FROM art: with foreign keys enforced a referenced row cannot go; without them the trigger
  art_ad bumps every track that still links it.
\<close>

definition art_tracks :: "store \<Rightarrow> int \<Rightarrow> int list" where
  "art_tracks s a = filter (\<lambda>i. \<exists>k\<in>set (st_links s). ln_track k = i \<and> ln_art k = a) (map tk_id (st_tracks s))"

definition sql_delete_art :: "bool \<Rightarrow> int \<Rightarrow> int \<Rightarrow> store \<Rightarrow> store_result" where
  "sql_delete_art enforce now a s =
     (if enforce \<and> a \<in> ln_art ` set (st_links s) then constraint ''FOREIGN KEY constraint failed''
      else bump_all now (art_tracks s a) (s\<lparr>st_arts := filter (\<lambda>x. ar_id x \<noteq> a) (st_arts s)\<rparr>))"

subsection \<open>Statements on structural blocks\<close>

definition sql_insert_block :: "block_row \<Rightarrow> store \<Rightarrow> store_result" where
  "sql_insert_block r s =
     (if \<not> block_check r then constraint ''CHECK constraint failed: structural_blocks''
      else if block_key r \<in> block_key ` set (st_blocks s) then constraint ''UNIQUE constraint failed: structural_blocks''
      else if \<not> has_track s (bk_track r) then constraint ''FOREIGN KEY constraint failed''
      else bump_version (bk_track r) (s\<lparr>st_blocks := st_blocks s @ [r]\<rparr>))"

definition sql_delete_block :: "block_row \<Rightarrow> store \<Rightarrow> store_result" where
  "sql_delete_block r s = bump_version (bk_track r) (s\<lparr>st_blocks := filter (\<lambda>x. x \<noteq> r) (st_blocks s)\<rparr>)"

text \<open>A statement over several rows runs them one by one, each with its triggers.\<close>

fun for_each :: "('r \<Rightarrow> store \<Rightarrow> store_result) \<Rightarrow> 'r list \<Rightarrow> store \<Rightarrow> store_result" where
  "for_each f [] s = Inr s"
| "for_each f (r # rs) s = rbind (f r s) (for_each f rs)"

subsection \<open>Deleting a track\<close>

text \<open>
  DELETE FROM tracks removes the row, then cascades to the rows that reference it (whose triggers find
  no row to bump), and logs the id.
\<close>

definition sql_delete_track :: "int \<Rightarrow> int \<Rightarrow> store \<Rightarrow> store_result" where
  "sql_delete_track now i s =
     (if \<not> has_track s i then Inr s else
      rbind (for_each (sql_delete_tag now) (filter (\<lambda>r. tg_track r = i) (st_tags s))
               (s\<lparr>st_tracks := filter (\<lambda>r. tk_id r \<noteq> i) (st_tracks s)\<rparr>)) (\<lambda>s.
      rbind (for_each (sql_delete_link now) (filter (\<lambda>r. ln_track r = i) (st_links s)) s) (\<lambda>s.
      rbind (for_each sql_delete_block (filter (\<lambda>r. bk_track r = i) (st_blocks s)) s) (\<lambda>s.
      Inr (log_change i s)))))"

end
