(* ===== verification/Store_Ops.thy ===== *)
theory Store_Ops
  imports Store "HOL-Library.List_Lexorder" "HOL-Library.Product_Lexorder"
begin

text \<open>
  The operations of the store, musefs-db/src/{tracks,tags,art,structural,bulk,models,error}.rs: the
  writers, shared by the connection (one transaction each) and the batch writer, and the readers with
  their length and row-count guards. A writer that fails leaves the store of its transaction; the
  readers take the order the query asks for, ORDER BY comparing text by its bytes.
\<close>

subsection \<open>Values\<close>

record new_track =
  nt_path :: string
  nt_format :: audio_format
  nt_offset :: nat
  nt_len :: nat
  nt_size :: nat
  nt_mtime :: int
  nt_ctime :: int

record track =
  tr_id :: int
  tr_path :: string
  tr_format :: audio_format
  tr_offset :: nat
  tr_len :: nat
  tr_size :: nat
  tr_mtime :: int
  tr_ctime :: int
  tr_version :: int
  tr_updated :: int
  tr_fingerprint :: "string option"
  tr_hash :: "string option"

record track_identity =
  tid_version :: int
  tid_path :: string
  tid_size :: nat
  tid_mtime :: int
  tid_ctime :: int

record db_tag =
  dt_key :: string
  dt_value :: string
  dt_ordinal :: nat

record db_binary_tag =
  db_key :: string
  db_payload :: bytes
  db_ordinal :: nat

record binary_tag_row =
  br_rowid :: int
  br_key :: string
  br_len :: nat

record new_art =
  na_mime :: string
  na_width :: "nat option"
  na_height :: "nat option"
  na_data :: bytes

record art_meta =
  am_mime :: string
  am_width :: "nat option"
  am_height :: "nat option"
  am_len :: nat

record track_art =
  ta_art :: int
  ta_type :: nat
  ta_desc :: string
  ta_ordinal :: nat

record structural_block =
  sb_kind :: string
  sb_ordinal :: nat
  sb_body :: bytes

text \<open>An unsigned parameter is bound as a signed column, and read back from one.\<close>

definition to_column :: "nat \<Rightarrow> db_error + int" where
  "to_column n = (if n < 2 ^ 63 then Inr (int n) else Inl (Sqlite ''value out of range''))"

definition from_column :: "int \<Rightarrow> db_error + nat" where
  "from_column v = (if 0 \<le> v then Inr (nat v) else Inl (Sqlite ''value out of range''))"

text \<open>A column read as a u32 or as an optional u32: a value outside its range is an error of the read.\<close>

definition from_column_u32 :: "int \<Rightarrow> db_error + nat" where
  "from_column_u32 v = (if 0 \<le> v \<and> v < 2 ^ 32 then Inr (nat v) else Inl (Sqlite ''value out of range''))"

fun from_nullable_u32 :: "int option \<Rightarrow> db_error + nat option" where
  "from_nullable_u32 None = Inr None"
| "from_nullable_u32 (Some v) = rbind (from_column_u32 v) (\<lambda>n. Inr (Some n))"

definition parse_format :: "string \<Rightarrow> db_error + audio_format" where
  "parse_format s =
     ok_or (find (\<lambda>f. format_str f = s) [Flac, Mp3, M4a, Opus, Vorbis, OggFlac, Wav]) (Sqlite (''unknown format '' @ s))"

definition track_bounds_new :: "nat \<Rightarrow> nat \<Rightarrow> nat \<Rightarrow> db_error + (nat \<times> nat)" where
  "track_bounds_new off len sz =
     (if off + len < 2 ^ 64 \<and> off + len \<le> sz then Inr (off, len) else Inl (AudioBoundsOutOfRange off len sz))"

definition max_tags_per_track :: nat where "max_tags_per_track = 4096"
definition max_art_rows_per_track :: nat where "max_art_rows_per_track = 4096"

definition check_tag_count :: "int \<Rightarrow> nat \<Rightarrow> db_error + unit" where
  "check_tag_count i n = (if n > max_tags_per_track then Inl (TooManyValues i n max_tags_per_track) else Inr ())"

definition check_art_count :: "int \<Rightarrow> nat \<Rightarrow> db_error + unit" where
  "check_art_count i n = (if n > max_art_rows_per_track then Inl (TooManyArtRows i n max_art_rows_per_track) else Inr ())"

subsection \<open>Writing tracks\<close>

definition coalesce :: "'a option \<Rightarrow> 'a option \<Rightarrow> 'a option" where
  "coalesce a b = (case a of Some x \<Rightarrow> Some x | None \<Rightarrow> b)"

definition upsert_track :: "int \<Rightarrow> new_track \<Rightarrow> store \<Rightarrow> db_error + (int \<times> store)" where
  "upsert_track now t s =
     rbind (to_column (nt_offset t)) (\<lambda>off.
     rbind (to_column (nt_len t)) (\<lambda>len.
     rbind (to_column (nt_size t)) (\<lambda>sz.
     case find (\<lambda>r. tk_path r = nt_path t) (st_tracks s) of
       Some r \<Rightarrow>
         rbind (sql_update_track (tk_id r) (\<lambda>r. r\<lparr>tk_format := format_str (nt_format t), tk_offset := off, tk_len := len,
             tk_size := sz, tk_mtime := nt_mtime t, tk_ctime := nt_ctime t, tk_updated := now\<rparr>) s) (\<lambda>s. Inr (tk_id r, s))
     | None \<Rightarrow>
         let i = next_id (map tk_id (st_tracks s)) in
         rbind (sql_insert_track \<lparr>tk_id = i, tk_path = nt_path t, tk_format = format_str (nt_format t), tk_offset = off,
             tk_len = len, tk_size = sz, tk_mtime = nt_mtime t, tk_ctime = nt_ctime t, tk_version = 0, tk_updated = now,
             tk_fingerprint = None, tk_hash = None\<rparr> s) (\<lambda>s. Inr (i, s)))))"

definition delete_track :: "int \<Rightarrow> int \<Rightarrow> store \<Rightarrow> store_result" where
  "delete_track now i s = sql_delete_track now i s"

definition set_track_checksums :: "int \<Rightarrow> string option \<Rightarrow> string option \<Rightarrow> store \<Rightarrow> store_result" where
  "set_track_checksums i fp h s =
     sql_update_track i (\<lambda>r. r\<lparr>tk_fingerprint := coalesce fp (tk_fingerprint r), tk_hash := coalesce h (tk_hash r)\<rparr>) s"

definition retarget_track ::
  "int \<Rightarrow> int \<Rightarrow> string \<Rightarrow> nat \<Rightarrow> int \<Rightarrow> int \<Rightarrow> nat \<Rightarrow> nat \<Rightarrow> string option \<Rightarrow> string option \<Rightarrow> store \<Rightarrow> store_result" where
  "retarget_track now i path bsize mtime ctime off len fp h s =
     rbind (to_column bsize) (\<lambda>sz.
     rbind (to_column off) (\<lambda>o'.
     rbind (to_column len) (\<lambda>l'.
     sql_update_track i (\<lambda>r. r\<lparr>tk_path := path, tk_size := sz, tk_mtime := mtime, tk_ctime := ctime, tk_offset := o',
       tk_len := l', tk_fingerprint := coalesce fp (tk_fingerprint r), tk_hash := coalesce h (tk_hash r),
       tk_updated := now\<rparr>) s)))"

subsection \<open>Writing tags, pictures and blocks\<close>

definition insert_text_tag :: "int \<Rightarrow> int \<Rightarrow> db_tag \<Rightarrow> store \<Rightarrow> store_result" where
  "insert_text_tag now i t s =
     rbind (to_column (dt_ordinal t)) (\<lambda>n.
     sql_insert_tag now \<lparr>tg_rowid = 0, tg_track = i, tg_key = dt_key t, tg_value = dt_value t, tg_ordinal = n, tg_blob = None\<rparr> s)"

definition replace_tags :: "int \<Rightarrow> int \<Rightarrow> db_tag list \<Rightarrow> store \<Rightarrow> store_result" where
  "replace_tags now i tags s =
     rbind (for_each (sql_delete_tag now) (filter (\<lambda>r. tg_track r = i \<and> tg_blob r = None) (st_tags s)) s)
       (for_each (insert_text_tag now i) tags)"

definition insert_binary_tag :: "int \<Rightarrow> int \<Rightarrow> db_binary_tag \<Rightarrow> store \<Rightarrow> store_result" where
  "insert_binary_tag now i t s =
     rbind (to_column (db_ordinal t)) (\<lambda>n.
     sql_insert_tag now \<lparr>tg_rowid = 0, tg_track = i, tg_key = db_key t, tg_value = [], tg_ordinal = n,
       tg_blob = Some (db_payload t)\<rparr> s)"

definition set_binary_tags :: "int \<Rightarrow> int \<Rightarrow> db_binary_tag list \<Rightarrow> store \<Rightarrow> store_result" where
  "set_binary_tags now i tags s =
     rbind (for_each (sql_delete_tag now) (filter (\<lambda>r. tg_track r = i \<and> tg_blob r \<noteq> None) (st_tags s)) s)
       (for_each (insert_binary_tag now i) tags)"

definition insert_track_art :: "int \<Rightarrow> int \<Rightarrow> track_art \<Rightarrow> store \<Rightarrow> store_result" where
  "insert_track_art now i a s =
     rbind (to_column (ta_ordinal a)) (\<lambda>n.
     sql_insert_link now \<lparr>ln_track = i, ln_art = ta_art a, ln_type = int (ta_type a), ln_desc = ta_desc a, ln_ordinal = n\<rparr> s)"

definition set_track_art :: "int \<Rightarrow> int \<Rightarrow> track_art list \<Rightarrow> store \<Rightarrow> store_result" where
  "set_track_art now i items s =
     rbind (for_each (sql_delete_link now) (filter (\<lambda>r. ln_track r = i) (st_links s)) s)
       (for_each (insert_track_art now i) items)"

definition insert_structural :: "int \<Rightarrow> structural_block \<Rightarrow> store \<Rightarrow> store_result" where
  "insert_structural i b s =
     rbind (to_column (sb_ordinal b)) (\<lambda>n.
     sql_insert_block \<lparr>bk_track = i, bk_kind = sb_kind b, bk_ordinal = n, bk_body = sb_body b\<rparr> s)"

definition set_structural_blocks :: "int \<Rightarrow> structural_block list \<Rightarrow> store \<Rightarrow> store_result" where
  "set_structural_blocks i blocks s =
     rbind (for_each sql_delete_block (filter (\<lambda>r. bk_track r = i) (st_blocks s)) s)
       (for_each (insert_structural i) blocks)"

text \<open>INSERT ... ON CONFLICT(sha256) DO NOTHING, then the id of the row with that hash.\<close>

definition upsert_art :: "(bytes \<Rightarrow> string) \<Rightarrow> new_art \<Rightarrow> store \<Rightarrow> db_error + (int \<times> store)" where
  "upsert_art sha a s =
     (let r = \<lparr>ar_id = next_id (map ar_id (st_arts s)), ar_sha = sha (na_data a), ar_mime = na_mime a,
               ar_width = map_option int (na_width a), ar_height = map_option int (na_height a),
               ar_len = int (length (na_data a)), ar_data = na_data a\<rparr> in
      rbind (if art_check r \<and> ar_sha r \<in> ar_sha ` set (st_arts s) then Inr s else sql_insert_art r s) (\<lambda>s.
      case find (\<lambda>x. ar_sha x = ar_sha r) (st_arts s) of
        Some x \<Rightarrow> Inr (ar_id x, s)
      | None \<Rightarrow> Inl (Sqlite ''Query returned no rows'')))"

definition gc_orphan_art :: "int \<Rightarrow> store \<Rightarrow> db_error + (nat \<times> store)" where
  "gc_orphan_art now s =
     (let orphans = filter (\<lambda>x. ar_id x \<notin> ln_art ` set (st_links s)) (st_arts s) in
      rbind (for_each (\<lambda>x. sql_delete_art True now (ar_id x)) orphans s) (\<lambda>s. Inr (length orphans, s)))"

text \<open>
  One item of a batch runs inside a savepoint: an error discards what the item wrote and leaves the
  rest of the batch.
\<close>

definition bulk_item :: "(store \<Rightarrow> 'e + ('a \<times> store)) \<Rightarrow> store \<Rightarrow> ('e + 'a) \<times> store" where
  "bulk_item f s = (case f s of Inr (v, s') \<Rightarrow> (Inr v, s') | Inl e \<Rightarrow> (Inl e, s))"

subsection \<open>Reading tracks\<close>

definition row_to_track :: "track_row \<Rightarrow> db_error + track" where
  "row_to_track r =
     rbind (parse_format (tk_format r)) (\<lambda>f.
     rbind (from_column (tk_offset r)) (\<lambda>off.
     rbind (from_column (tk_len r)) (\<lambda>len.
     rbind (from_column (tk_size r)) (\<lambda>sz.
     rbind (track_bounds_new off len sz) (\<lambda>(off, len).
     Inr \<lparr>tr_id = tk_id r, tr_path = tk_path r, tr_format = f, tr_offset = off, tr_len = len, tr_size = sz,
          tr_mtime = tk_mtime r, tr_ctime = tk_ctime r, tr_version = tk_version r, tr_updated = tk_updated r,
          tr_fingerprint = tk_fingerprint r, tr_hash = tk_hash r\<rparr>)))))"

fun collect_rows :: "('r \<Rightarrow> 'e + 'v) \<Rightarrow> 'r list \<Rightarrow> 'e + 'v list" where
  "collect_rows f [] = Inr []"
| "collect_rows f (r # rs) = rbind (f r) (\<lambda>v. rbind (collect_rows f rs) (\<lambda>vs. Inr (v # vs)))"

definition query_optional :: "('r \<Rightarrow> 'e + 'v) \<Rightarrow> 'r list \<Rightarrow> 'e + 'v option" where
  "query_optional f rows = (case rows of r # _ \<Rightarrow> rbind (f r) (\<lambda>v. Inr (Some v)) | [] \<Rightarrow> Inr None)"

definition get_track :: "store \<Rightarrow> int \<Rightarrow> db_error + track option" where
  "get_track s i = query_optional row_to_track (filter (\<lambda>r. tk_id r = i) (st_tracks s))"

definition get_track_by_path :: "store \<Rightarrow> string \<Rightarrow> db_error + track option" where
  "get_track_by_path s p = query_optional row_to_track (filter (\<lambda>r. tk_path r = p) (st_tracks s))"

definition list_tracks :: "store \<Rightarrow> db_error + track list" where
  "list_tracks s = collect_rows row_to_track (sort_key tk_id (st_tracks s))"

definition list_backing_paths :: "store \<Rightarrow> string list" where
  "list_backing_paths s = map tk_path (st_tracks s)"

definition tracks_by_fingerprint :: "store \<Rightarrow> string \<Rightarrow> db_error + track list" where
  "tracks_by_fingerprint s fp =
     collect_rows row_to_track (sort_key tk_id (filter (\<lambda>r. tk_fingerprint r = Some fp) (st_tracks s)))"

definition track_content_version :: "store \<Rightarrow> int \<Rightarrow> db_error + int" where
  "track_content_version s i = ok_or (map_option tk_version (find_track s i)) (Sqlite ''Query returned no rows'')"

definition read_track_identity :: "store \<Rightarrow> int \<Rightarrow> db_error + track_identity option" where
  "read_track_identity s i =
     query_optional (\<lambda>r. rbind (from_column (tk_size r)) (\<lambda>sz.
       Inr \<lparr>tid_version = tk_version r, tid_path = tk_path r, tid_size = sz, tid_mtime = tk_mtime r, tid_ctime = tk_ctime r\<rparr>))
       (filter (\<lambda>r. tk_id r = i) (st_tracks s))"

definition render_key :: "track_row \<Rightarrow> db_error + (int \<times> int \<times> audio_format)" where
  "render_key r = rbind (parse_format (tk_format r)) (\<lambda>f. Inr (tk_id r, tk_version r, f))"

definition list_render_keys :: "store \<Rightarrow> db_error + render_keys" where
  "list_render_keys s = collect_rows render_key (sort_key tk_id (st_tracks s))"

record changelog_read =
  cr_ids :: "int list"
  cr_min :: int
  cr_max :: int

definition changelog_since :: "store \<Rightarrow> int \<Rightarrow> changelog_read" where
  "changelog_since s last_seq =
     (let seqs = map fst (st_changes s) in
      \<lparr>cr_ids = sort (remdups (map snd (filter (\<lambda>(q, i). q > last_seq) (st_changes s)))),
       cr_min = (if seqs = [] then 0 else Min (set seqs)),
       cr_max = (if seqs = [] then 0 else Max (set seqs))\<rparr>)"

subsection \<open>Queries over many keys, in chunks\<close>

definition chunk_cap :: nat where "chunk_cap = 900"

fun key_chunks :: "nat \<Rightarrow> 'k list \<Rightarrow> 'k list list" where
  "key_chunks n ks = (if n = 0 \<or> ks = [] then [] else take n ks # key_chunks n (drop n ks))"

declare key_chunks.simps [simp del]

fun query_chunks :: "('k list \<Rightarrow> 'a \<Rightarrow> 'e + 'a) \<Rightarrow> 'k list list \<Rightarrow> 'a \<Rightarrow> 'e + 'a" where
  "query_chunks f [] out = Inr out"
| "query_chunks f (c # cs) out = rbind (f c out) (query_chunks f cs)"

definition query_in_chunks :: "('k list \<Rightarrow> 'a \<Rightarrow> 'e + 'a) \<Rightarrow> 'k list \<Rightarrow> 'a \<Rightarrow> 'e + 'a" where
  "query_in_chunks f ks out = query_chunks f (key_chunks chunk_cap ks) out"

definition render_keys_for :: "store \<Rightarrow> int list \<Rightarrow> db_error + render_keys" where
  "render_keys_for s ids =
     query_in_chunks (\<lambda>c out. rbind (collect_rows render_key (sort_key tk_id (filter (\<lambda>r. tk_id r \<in> set c) (st_tracks s))))
       (\<lambda>ks. Inr (out @ ks))) ids []"

subsection \<open>Reading tags\<close>

definition check_tag_lengths :: "int \<Rightarrow> int \<Rightarrow> db_error + unit" where
  "check_tag_lengths key_len value_len =
     rbind (check_field_len ''tags'' ''key'' key_len 256) (\<lambda>_. check_field_len ''tags'' ''value'' value_len 16777215)"

definition read_tag_row :: "tag_row \<Rightarrow> db_error + db_tag" where
  "read_tag_row r =
     rbind (check_tag_lengths (sql_length (tg_key r)) (int (length (tg_value r)))) (\<lambda>_.
     rbind (from_column (tg_ordinal r)) (\<lambda>n.
     Inr \<lparr>dt_key = tg_key r, dt_value = tg_value r, dt_ordinal = n\<rparr>))"

fun collect_tags :: "int \<Rightarrow> (tag_row \<Rightarrow> db_error + 'v) \<Rightarrow> tag_row list \<Rightarrow> 'v list \<Rightarrow> db_error + 'v list" where
  "collect_tags i f [] out = Inr out"
| "collect_tags i f (r # rs) out =
     rbind (f r) (\<lambda>v. rbind (check_tag_count i (length (out @ [v]))) (\<lambda>_. collect_tags i f rs (out @ [v])))"

definition tag_order :: "tag_row \<Rightarrow> string \<times> int" where "tag_order r = (tg_key r, tg_ordinal r)"

definition get_tags :: "store \<Rightarrow> int \<Rightarrow> db_error + db_tag list" where
  "get_tags s i = collect_tags i read_tag_row
     (sort_key tag_order (filter (\<lambda>r. tg_track r = i \<and> tg_blob r = None) (st_tags s))) []"

type_synonym grouped = "int \<Rightarrow> db_tag list option"

fun collect_grouped :: "tag_row list \<Rightarrow> grouped \<Rightarrow> db_error + grouped" where
  "collect_grouped [] out = Inr out"
| "collect_grouped (r # rs) out =
     rbind (read_tag_row r) (\<lambda>t.
       let entry = (case out (tg_track r) of Some ts \<Rightarrow> ts | None \<Rightarrow> []) @ [t] in
       rbind (check_tag_count (tg_track r) (length entry)) (\<lambda>_. collect_grouped rs (out(tg_track r \<mapsto> entry))))"

definition grouped_order :: "tag_row \<Rightarrow> int \<times> string \<times> int" where
  "grouped_order r = (tg_track r, tg_key r, tg_ordinal r)"

definition tags_for_tracks :: "store \<Rightarrow> int list \<Rightarrow> db_error + grouped" where
  "tags_for_tracks s ids =
     query_in_chunks (\<lambda>c. collect_grouped (sort_key grouped_order
       (filter (\<lambda>r. tg_track r \<in> set c \<and> tg_blob r = None) (st_tags s)))) ids Map.empty"

definition tags_grouped :: "store \<Rightarrow> db_error + grouped" where
  "tags_grouped s = collect_grouped (sort_key grouped_order (filter (\<lambda>r. tg_blob r = None) (st_tags s))) Map.empty"

definition tags_grouped_for_keys :: "store \<Rightarrow> string list \<Rightarrow> db_error + grouped" where
  "tags_grouped_for_keys s keys =
     query_in_chunks (\<lambda>c. collect_grouped (sort_key grouped_order
       (filter (\<lambda>r. tg_blob r = None \<and> to_ascii_lowercase (tg_key r) \<in> set c) (st_tags s))))
       (map to_ascii_lowercase keys) Map.empty"

definition read_binary_row :: "tag_row \<Rightarrow> db_error + binary_tag_row" where
  "read_binary_row r =
     rbind (check_field_len ''tags'' ''key'' (sql_length (tg_key r)) 256) (\<lambda>_.
     Inr \<lparr>br_rowid = tg_rowid r, br_key = tg_key r,
          br_len = (case tg_blob r of Some b \<Rightarrow> length b | None \<Rightarrow> 0)\<rparr>)"

definition get_binary_tags :: "store \<Rightarrow> int \<Rightarrow> db_error + binary_tag_row list" where
  "get_binary_tags s i = collect_tags i read_binary_row
     (sort_key tag_order (filter (\<lambda>r. tg_track r = i \<and> tg_blob r \<noteq> None) (st_tags s))) []"

subsection \<open>Reading pictures and blocks\<close>

definition to_art_meta :: "art_row \<Rightarrow> db_error + art_meta" where
  "to_art_meta a =
     rbind (check_field_len ''art'' ''mime'' (sql_length (ar_mime a)) 255) (\<lambda>_.
     rbind (from_nullable_u32 (ar_width a)) (\<lambda>w.
     rbind (from_nullable_u32 (ar_height a)) (\<lambda>h.
     rbind (from_column (ar_len a)) (\<lambda>len.
     Inr \<lparr>am_mime = ar_mime a, am_width = w, am_height = h, am_len = len\<rparr>))))"

definition get_art_meta :: "store \<Rightarrow> int \<Rightarrow> db_error + art_meta option" where
  "get_art_meta s i = query_optional to_art_meta (filter (\<lambda>a. ar_id a = i) (st_arts s))"

definition read_link :: "link_row \<Rightarrow> db_error + track_art" where
  "read_link k =
     rbind (check_field_len ''track_art'' ''description'' (sql_length (ln_desc k)) 8192) (\<lambda>_.
     rbind (from_column_u32 (ln_type k)) (\<lambda>ty.
     rbind (from_column (ln_ordinal k)) (\<lambda>n.
     Inr \<lparr>ta_art = ln_art k, ta_type = ty, ta_desc = ln_desc k, ta_ordinal = n\<rparr>)))"

fun collect_art :: "store \<Rightarrow> int \<Rightarrow> link_row list \<Rightarrow> (track_art \<times> art_meta option) list \<Rightarrow>
    db_error + (track_art \<times> art_meta option) list" where
  "collect_art s i [] out = Inr out"
| "collect_art s i (k # ks) out =
     rbind (read_link k) (\<lambda>ta. rbind (get_art_meta s (ln_art k)) (\<lambda>m.
     rbind (check_art_count i (length (out @ [(ta, m)]))) (\<lambda>_. collect_art s i ks (out @ [(ta, m)]))))"

definition get_track_art_with_meta :: "store \<Rightarrow> int \<Rightarrow> db_error + (track_art \<times> art_meta option) list" where
  "get_track_art_with_meta s i =
     collect_art s i (sort_key ln_ordinal (filter (\<lambda>k. ln_track k = i) (st_links s))) []"

definition read_block :: "int \<Rightarrow> block_row \<Rightarrow> db_error + structural_block" where
  "read_block i r =
     (if bk_kind r \<notin> {''STREAMINFO'', ''SEEKTABLE''} then Inl (InvalidStructuralBlock i ''unknown kind'')
      else if bk_ordinal r < 0 then Inl (InvalidStructuralBlock i ''negative ordinal'')
      else rbind (check_field_len ''structural_blocks'' ''body'' (int (length (bk_body r))) 16777215) (\<lambda>_.
           Inr \<lparr>sb_kind = bk_kind r, sb_ordinal = nat (bk_ordinal r), sb_body = bk_body r\<rparr>))"

definition get_structural_blocks :: "store \<Rightarrow> int \<Rightarrow> db_error + structural_block list" where
  "get_structural_blocks s i = collect_rows (read_block i)
     (sort_key (\<lambda>r. (bk_kind r, bk_ordinal r)) (filter (\<lambda>r. bk_track r = i) (st_blocks s)))"

end
