(* ===== verification/Store_Log.thy ===== *)
theory Store_Log
  imports Store_Ops
begin

text \<open>
  What the statements of the store do to a track and to the changelog: each is the table change it
  names followed by log entries, a track outside the logged ids keeps its row and everything its file
  is served from, and a track that keeps its content_version is served from the same inputs.
\<close>

subsection \<open>The ring\<close>

definition log_all :: "int list \<Rightarrow> store \<Rightarrow> store" where
  "log_all ids s = fold log_change ids s"

lemma log_change_simps [simp]:
  "st_tracks (log_change i s) = st_tracks s" "st_tags (log_change i s) = st_tags s" "st_arts (log_change i s) = st_arts s"
  "st_links (log_change i s) = st_links s" "st_blocks (log_change i s) = st_blocks s" "st_seq (log_change i s) = st_seq s + 1"
  by (simp_all add: log_change_def Let_def)

lemma log_all_simps [simp]:
  "st_tracks (log_all ids s) = st_tracks s" "st_tags (log_all ids s) = st_tags s" "st_arts (log_all ids s) = st_arts s"
  "st_links (log_all ids s) = st_links s" "st_blocks (log_all ids s) = st_blocks s"
  "st_seq (log_all ids s) = st_seq s + int (length ids)"
  by (induction ids arbitrary: s) (simp_all add: log_all_def)

lemma log_all_append: "log_all (is @ js) s = log_all js (log_all is s)"
  by (simp add: log_all_def)

lemma log_change_frame:
  assumes "st_seq s = st_seq t" "st_changes s = st_changes t"
  shows "st_changes (log_change i s) = st_changes (log_change i t)"
  using assms by (simp add: log_change_def Let_def)

definition advances :: "store \<Rightarrow> int list \<Rightarrow> store \<Rightarrow> bool" where
  "advances s ids s' \<longleftrightarrow> st_seq s' = st_seq (log_all ids s) \<and> st_changes s' = st_changes (log_all ids s)"

lemma log_all_frame:
  assumes "st_seq s = st_seq t" "st_changes s = st_changes t"
  shows "st_changes (log_all ids s) = st_changes (log_all ids t)"
  using assms by (induction ids arbitrary: s t) (simp_all add: log_all_def log_change_def Let_def)

lemma advances_refl [intro]: "st_seq s' = st_seq s \<Longrightarrow> st_changes s' = st_changes s \<Longrightarrow> advances s [] s'"
  by (simp add: advances_def log_all_def)

lemma advances_trans: "advances s is t \<Longrightarrow> advances t js u \<Longrightarrow> advances s (is @ js) u"
  unfolding advances_def log_all_append using log_all_frame [of t "log_all is s" js] by simp

definition ring_ok :: "store \<Rightarrow> bool" where
  "ring_ok s \<longleftrightarrow> 0 \<le> st_seq s \<and> map fst (st_changes s) = [max 1 (st_seq s - ring_cap + 1) .. st_seq s]"

lemma map_fst_filter: "map fst (filter (\<lambda>(q, i). P q) xs) = filter P (map fst xs)"
  by (induction xs) auto

lemma filter_upto: "filter (\<lambda>q. \<not> q \<le> k) [i..j] = [max i (k + 1)..j]" for i j k :: int
proof (induction "nat (j - i + 1)" arbitrary: i)
  case 0
  thus ?case by (auto simp: max_def)
next
  case (Suc n)
  hence l: "i \<le> j" by simp
  have "filter (\<lambda>q. \<not> q \<le> k) [i + 1..j] = [max (i + 1) (k + 1)..j]" using Suc(2) by (intro Suc(1)) simp
  moreover have "i = k + 1 \<or> i \<le> k \<or> k + 1 < i" by arith
  ultimately show ?case using l upto_rec1 [of i j] by (auto simp: max_def)
qed

lemma ring_log_change:
  assumes "ring_ok s"
  shows "ring_ok (log_change i s)"
proof -
  have "map fst (st_changes (log_change i s)) = filter (\<lambda>q. \<not> q \<le> st_seq s + 1 - ring_cap) (map fst (st_changes s) @ [st_seq s + 1])"
    by (simp add: log_change_def Let_def prune_changes_def map_fst_filter)
  also have "map fst (st_changes s) @ [st_seq s + 1] = [max 1 (st_seq s - ring_cap + 1) .. st_seq s + 1]"
    using assms upto_rec2 [of "max 1 (st_seq s - ring_cap + 1)" "st_seq s + 1"] by (simp add: ring_ok_def ring_cap_def)
  also have "filter (\<lambda>q. \<not> q \<le> st_seq s + 1 - ring_cap) \<dots> = [max 1 (st_seq s + 1 - ring_cap + 1) .. st_seq s + 1]"
    unfolding filter_upto by (intro arg_cong2 [where f = upto]) (simp_all add: max_def ring_cap_def)
  finally show ?thesis using assms by (simp add: ring_ok_def)
qed

lemma ring_log_all: "ring_ok s \<Longrightarrow> ring_ok (log_all ids s)"
  by (induction ids arbitrary: s) (simp_all add: log_all_def ring_log_change)

lemma ring_advances: "ring_ok s \<Longrightarrow> advances s ids s' \<Longrightarrow> ring_ok s'"
  using ring_log_all [of s ids] by (simp add: ring_ok_def advances_def)

lemma ring_fst: "ring_ok s \<Longrightarrow> (q, i) \<in> set (st_changes s) \<Longrightarrow> q \<le> st_seq s \<and> 1 \<le> q \<and> st_seq s - ring_cap + 1 \<le> q"
proof -
  assume "ring_ok s" "(q, i) \<in> set (st_changes s)"
  hence "q \<in> set (map fst (st_changes s))" by force
  moreover have "set (map fst (st_changes s)) = {max 1 (st_seq s - ring_cap + 1) .. st_seq s}"
    using \<open>ring_ok s\<close> by (simp only: ring_ok_def set_upto)
  ultimately show ?thesis by auto
qed

text \<open>Nothing of a suffix of at most 8192 entries is pruned.\<close>

lemma log_all_since:
  assumes "ring_ok s" "st_seq s + int (length ids) - ring_cap \<le> last_seq" "last_seq \<le> st_seq s"
  shows "snd ` {c \<in> set (st_changes (log_all ids s)). fst c > last_seq} =
     snd ` {c \<in> set (st_changes s). fst c > last_seq} \<union> set ids"
  using assms
proof (induction ids arbitrary: s)
  case Nil
  thus ?case by (simp add: log_all_def)
next
  case (Cons i ids)
  let ?s = "log_change i s"
  have "{c \<in> set (st_changes ?s). fst c > last_seq} = insert (st_seq s + 1, i) {c \<in> set (st_changes s). fst c > last_seq}"
    using Cons.prems by (auto simp: log_change_def Let_def prune_changes_def)
  moreover have "snd ` {c \<in> set (st_changes (log_all ids ?s)). fst c > last_seq} =
     snd ` {c \<in> set (st_changes ?s). fst c > last_seq} \<union> set ids"
    using Cons.prems by (intro Cons.IH ring_log_change) simp_all
  ultimately show ?case by (simp add: log_all_def)
qed

subsection \<open>Reading the ring\<close>

definition changelog_gap :: "changelog_read \<Rightarrow> int \<Rightarrow> bool" where
  "changelog_gap log last_seq \<longleftrightarrow> (if cr_max log = 0 then last_seq > 0 else cr_min log > last_seq + 1)"

lemma changelog_ids: "set (cr_ids (changelog_since s last_seq)) = snd ` {c \<in> set (st_changes s). fst c > last_seq}"
  by (force simp: changelog_since_def Let_def)

lemma Min_upto: "i \<le> j \<Longrightarrow> Min {i..j} = i" for i j :: int by (intro Min_eqI) auto
lemma Max_upto: "i \<le> j \<Longrightarrow> Max {i..j} = j" for i j :: int by (intro Max_eqI) auto

lemma changelog_bounds:
  assumes "ring_ok s"
  shows "cr_max (changelog_since s l) = st_seq s"
    "cr_min (changelog_since s l) = (if st_seq s = 0 then 0 else max 1 (st_seq s - ring_cap + 1))"
proof -
  let ?lo = "max 1 (st_seq s - ring_cap + 1)"
  have m: "map fst (st_changes s) = [?lo..st_seq s]" "0 \<le> st_seq s" using assms by (auto simp: ring_ok_def)
  have "st_seq s = 0 \<or> ?lo \<le> st_seq s" using m(2) by (auto simp: ring_cap_def max_def)
  thus "cr_max (changelog_since s l) = st_seq s"
    "cr_min (changelog_since s l) = (if st_seq s = 0 then 0 else ?lo)"
    unfolding changelog_since_def m(1) Let_def
    by (auto simp: Min_upto Max_upto simp del: max.bounded_iff)
qed

lemma no_gap_iff:
  assumes "ring_ok s" "0 \<le> l"
  shows "\<not> changelog_gap (changelog_since s l) l \<longleftrightarrow> st_seq s - ring_cap \<le> l \<and> (st_seq s = 0 \<longrightarrow> l = 0)"
  unfolding changelog_gap_def changelog_bounds [OF assms(1)] using assms by (auto simp: ring_ok_def ring_cap_def)

end
