(* ===== verification/Store_Steps.thy ===== *)
theory Store_Steps
  imports Store_Log
begin

text \<open>
  The row-level statements as a step relation, the invariant of the store they keep, and what a step
  can do: it logs every track it touches, and it touches what a track is served from only together
  with the track's content_version.
\<close>

subsection \<open>What a track is served from\<close>

definition tags_of :: "store \<Rightarrow> int \<Rightarrow> tag_row list" where "tags_of s i = filter (\<lambda>r. tg_track r = i) (st_tags s)"
definition links_of :: "store \<Rightarrow> int \<Rightarrow> link_row list" where "links_of s i = filter (\<lambda>r. ln_track r = i) (st_links s)"
definition blocks_of :: "store \<Rightarrow> int \<Rightarrow> block_row list" where "blocks_of s i = filter (\<lambda>r. bk_track r = i) (st_blocks s)"

record served_from =
  sv_geometry :: "(string \<times> int \<times> int \<times> int \<times> int) option"
  sv_tags :: "tag_row list"
  sv_pictures :: "(link_row \<times> art_row list) list"
  sv_blocks :: "block_row list"

definition served :: "store \<Rightarrow> int \<Rightarrow> served_from" where
  "served s i =
     \<lparr>sv_geometry = map_option (\<lambda>r. (tk_format r, tk_offset r, tk_len r, tk_size r, tk_mtime r)) (find_track s i),
      sv_tags = tags_of s i,
      sv_pictures = map (\<lambda>k. (k, filter (\<lambda>a. ar_id a = ln_art k) (st_arts s))) (links_of s i),
      sv_blocks = blocks_of s i\<rparr>"

subsection \<open>The invariant of the store\<close>

definition tracks_ok :: "store \<Rightarrow> bool" where
  "tracks_ok s \<longleftrightarrow> distinct (map tk_id (st_tracks s)) \<and> distinct (map tk_path (st_tracks s)) \<and> list_all track_check (st_tracks s)"

definition tags_ok :: "store \<Rightarrow> bool" where
  "tags_ok s \<longleftrightarrow> distinct (map tag_key (st_tags s)) \<and> distinct (map tg_rowid (st_tags s)) \<and> list_all tag_check (st_tags s) \<and>
     list_all (\<lambda>r. has_track s (tg_track r)) (st_tags s)"

definition arts_ok :: "store \<Rightarrow> bool" where
  "arts_ok s \<longleftrightarrow> distinct (map ar_id (st_arts s)) \<and> distinct (map ar_sha (st_arts s)) \<and> list_all art_check (st_arts s)"

definition links_ok :: "store \<Rightarrow> bool" where
  "links_ok s \<longleftrightarrow> distinct (map link_key (st_links s)) \<and> list_all link_check (st_links s) \<and>
     list_all (\<lambda>r. has_track s (ln_track r) \<and> has_art s (ln_art r)) (st_links s)"

definition blocks_ok :: "store \<Rightarrow> bool" where
  "blocks_ok s \<longleftrightarrow> distinct (map block_key (st_blocks s)) \<and> list_all block_check (st_blocks s) \<and>
     list_all (\<lambda>r. has_track s (bk_track r)) (st_blocks s)"

definition store_ok :: "store \<Rightarrow> bool" where
  "store_ok s \<longleftrightarrow> tracks_ok s \<and> tags_ok s \<and> arts_ok s \<and> links_ok s \<and> blocks_ok s \<and> ring_ok s"

lemmas table_ok_defs = tracks_ok_def tags_ok_def arts_ok_def links_ok_def blocks_ok_def

subsection \<open>The statements as steps\<close>

text \<open>
  A statement an outside writer or an operation of the store runs. The columns of tracks are written
  without the id and the content_version, an UPDATE of a tag or of a picture leaves it on its track,
  and foreign keys are enforced.
\<close>

inductive row_step :: "store \<Rightarrow> store \<Rightarrow> bool" where
  InsertTrack: "sql_insert_track r s = Inr s' \<Longrightarrow> row_step s s'"
| UpdateTrack: "\<lbrakk>\<And>r. tk_version (f r) = tk_version r; sql_update_track i f s = Inr s'\<rbrakk> \<Longrightarrow> row_step s s'"
| DeleteTrack: "sql_delete_track now i s = Inr s' \<Longrightarrow> row_step s s'"
| InsertTag: "sql_insert_tag now g s = Inr s' \<Longrightarrow> row_step s s'"
| DeleteTag: "sql_delete_tag now g s = Inr s' \<Longrightarrow> row_step s s'"
| UpdateTag: "\<lbrakk>old \<in> set (st_tags s); tg_track g = tg_track old; sql_update_tag now old g s = Inr s'\<rbrakk> \<Longrightarrow> row_step s s'"
| InsertLink: "sql_insert_link now k s = Inr s' \<Longrightarrow> row_step s s'"
| DeleteLink: "sql_delete_link now k s = Inr s' \<Longrightarrow> row_step s s'"
| UpdateLink: "\<lbrakk>old \<in> set (st_links s); ln_track k = ln_track old; sql_update_link now old k s = Inr s'\<rbrakk> \<Longrightarrow> row_step s s'"
| InsertArt: "sql_insert_art a s = Inr s' \<Longrightarrow> row_step s s'"
| UpdateArt: "sql_update_art a a' s = Inr s' \<Longrightarrow> row_step s s'"
| DeleteArt: "sql_delete_art True now j s = Inr s' \<Longrightarrow> row_step s s'"
| InsertBlock: "sql_insert_block b s = Inr s' \<Longrightarrow> row_step s s'"
| DeleteBlock: "sql_delete_block b s = Inr s' \<Longrightarrow> row_step s s'"

inductive_cases row_stepE: "row_step s s'"

abbreviation row_steps :: "store \<Rightarrow> store \<Rightarrow> bool" where "row_steps \<equiv> row_step\<^sup>*\<^sup>*"

subsection \<open>Updating a row\<close>

lemma constraint_neq [simp]: "constraint c \<noteq> Inr s"
  by (simp add: constraint_def)

lemma find_id: "find_track s i = Some r \<Longrightarrow> tk_id r = i \<and> r \<in> set (st_tracks s)"
  by (auto simp: find_track_def find_Some_iff)

lemma has_track_find: "has_track s i \<longleftrightarrow> find_track s i \<noteq> None"
  by (auto simp: has_track_def find_track_def find_None_iff)

lemma find_in: "tracks_ok s \<Longrightarrow> r \<in> set (st_tracks s) \<Longrightarrow> find_track s (tk_id r) = Some r"
proof -
  have "distinct (map tk_id rs) \<Longrightarrow> r \<in> set rs \<Longrightarrow> find (\<lambda>x. tk_id x = tk_id r) rs = Some r" for rs
    by (induction rs) force+
  thus "tracks_ok s \<Longrightarrow> r \<in> set (st_tracks s) \<Longrightarrow> find_track s (tk_id r) = Some r"
    by (simp add: tracks_ok_def find_track_def)
qed

lemma find_map_id: "\<lbrakk>\<And>x. tk_id (f x) = tk_id x\<rbrakk> \<Longrightarrow> find (\<lambda>r. tk_id r = j) (map f rs) = map_option f (find (\<lambda>r. tk_id r = j) rs)"
  by (induction rs) auto

lemma put_track_simps [simp]:
  "st_tags (put_track r s) = st_tags s" "st_arts (put_track r s) = st_arts s" "st_links (put_track r s) = st_links s"
  "st_blocks (put_track r s) = st_blocks s" "st_seq (put_track r s) = st_seq s" "st_changes (put_track r s) = st_changes s"
  by (simp_all add: put_track_def)

lemma ids_put_track [simp]: "map tk_id (st_tracks (put_track r s)) = map tk_id (st_tracks s)"
  by (simp add: put_track_def)

lemma find_put_track:
  "find_track s i \<noteq> None \<Longrightarrow> tk_id r = i \<Longrightarrow> find_track (put_track r s) j = (if j = i then Some r else find_track s j)"
proof -
  assume a: "find_track s i \<noteq> None" "tk_id r = i"
  have "find_track (put_track r s) j = map_option (\<lambda>x. if tk_id x = tk_id r then r else x) (find_track s j)"
    unfolding find_track_def put_track_def by (simp add: find_map_id)
  thus ?thesis using a find_id [of s j] by (cases "find_track s j") auto
qed

lemma find_frame: "st_tracks s = st_tracks t \<Longrightarrow> find_track s = find_track t"
  by (simp add: find_track_def fun_eq_iff)

lemma has_frame: "map tk_id (st_tracks s) = map tk_id (st_tracks t) \<Longrightarrow> has_track s = has_track t"
  unfolding has_track_def fun_eq_iff by (metis list.set_map)

definition bumped_row :: "int \<Rightarrow> (track_row \<Rightarrow> track_row) \<Rightarrow> track_row \<Rightarrow> track_row" where
  "bumped_row i f r = (f r)\<lparr>tk_id := i, tk_version := tk_version (f r) + (if geometry_changed (f r) r then 1 else 0)\<rparr>"

lemma log_put: "log_change i (put_track r s) = put_track r (log_change i s)"
  by (simp add: log_change_def put_track_def Let_def)

lemma put_put: "tk_id r = tk_id r' \<Longrightarrow> put_track r (put_track r' s) = put_track r s"
  by (auto simp: put_track_def)

lemma update_cases:
  assumes "sql_update_track i f s = Inr s'"
  obtains "find_track s i = None" "s' = s"
  | r ids where "find_track s i = Some r" "set ids = {i}" "s' = log_all ids (put_track (bumped_row i f r) s)"
      "track_check (bumped_row i f r)" "\<not> path_taken s (tk_path (f r)) i"
proof (cases "find_track s i")
  case None
  hence "s = s'" using assms unfolding sql_update_track_def by simp
  thus ?thesis using that(1) None by blast
next
  case (Some r)
  let ?r = "(f r)\<lparr>tk_id := i\<rparr>"
  have c: "track_check ?r" "\<not> path_taken s (tk_path (f r)) i" and s': "s' = after_update ?r r (put_track ?r s)"
    using assms Some by (auto simp: sql_update_track_def Let_def split: if_splits)
  let ?ids = "if geometry_changed (f r) r then [i, i] else [i]"
  have "s' = log_all ?ids (put_track (bumped_row i f r) s)"
    unfolding s' after_update_def by (simp add: Let_def bumped_row_def geometry_changed_def log_all_def log_put put_put)
  moreover have "track_check (bumped_row i f r)" using c(1) by (simp add: track_check_def bumped_row_def)
  moreover have "set ?ids = {i}" by simp
  ultimately show ?thesis using that(2) [OF Some] c(2) by blast
qed

subsection \<open>Effects\<close>

definition effect :: "int list \<Rightarrow> store \<Rightarrow> store \<Rightarrow> bool" where
  "effect ids s s' \<longleftrightarrow> advances s ids s' \<and>
     (\<forall>i. i \<notin> set ids \<longrightarrow> find_track s' i = find_track s i \<and> served s' i = served s i) \<and>
     (\<forall>i r r'. find_track s i = Some r \<longrightarrow> find_track s' i = Some r' \<longrightarrow>
        tk_version r \<le> tk_version r' \<and> (tk_version r = tk_version r' \<longrightarrow> served s' i = served s i))"

lemma served_log [simp]: "served (log_all ids s) = served s" "find_track (log_all ids s) = find_track s"
  by (simp_all add: served_def find_track_def tags_of_def links_of_def blocks_of_def fun_eq_iff)

lemma served_put:
  assumes "find_track s i \<noteq> None" "tk_id r = i"
  shows "served (put_track r s) j = (served s j)\<lparr>sv_geometry := if j = i
     then Some (tk_format r, tk_offset r, tk_len r, tk_size r, tk_mtime r) else sv_geometry (served s j)\<rparr>"
  by (simp add: served_def find_put_track [OF assms] tags_of_def links_of_def blocks_of_def)

lemma bumped_id [simp]: "tk_id (bumped_row i f r) = i"
  by (simp add: bumped_row_def)

lemma advances_log: "st_seq s = st_seq t \<Longrightarrow> st_changes s = st_changes t \<Longrightarrow> advances s ids (log_all ids (put_track r t))"
  unfolding advances_def using log_all_frame [of s "put_track r t" ids] by simp

lemma effect_update:
  assumes "\<And>r. tk_version (f r) = tk_version r" "sql_update_track i f s = Inr s'"
  shows "\<exists>ids. effect ids s s'"
  using assms(2)
proof (cases rule: update_cases)
  case 1
  thus ?thesis by (intro exI [of _ "[]"]) (auto simp: effect_def)
next
  case (2 r ids)
  let ?r = "bumped_row i f r"
  have f: "find_track s i \<noteq> None" using 2 by simp
  have v: "tk_version r \<le> tk_version ?r" "tk_version r = tk_version ?r \<Longrightarrow> \<not> geometry_changed (f r) r"
    using assms(1) [of r] by (auto simp: bumped_row_def)
  have "tk_version r = tk_version ?r \<Longrightarrow> served (put_track ?r s) i = served s i"
    unfolding served_put [OF f bumped_id] using v(2) 2(1) by (simp add: geometry_changed_def bumped_row_def) (simp add: served_def)
  hence "effect ids s s'"
    using 2(1,2) v(1) by (auto simp: effect_def 2(3) advances_log find_put_track [OF f] served_put [OF f])
  thus ?thesis ..
qed

lemma effect_bump:
  assumes base: "find_track t = find_track s" "st_seq t = st_seq s" "st_changes t = st_changes s"
      "\<And>j. j \<noteq> i \<Longrightarrow> served t j = served s j" "find_track s i = None \<Longrightarrow> served t i = served s i"
    and f: "\<And>r. tk_version r < tk_version (f r)" and u: "sql_update_track i f t = Inr s'"
  shows "\<exists>ids. effect ids s s'"
  using u
proof (cases rule: update_cases)
  case 1
  have "served t j = served s j" for j using base(4) [of j] base(5) 1(1) base(1) by (cases "j = i") auto
  thus ?thesis using base(1-3) 1(2) by (intro exI [of _ "[]"]) (auto simp: effect_def)
next
  case (2 r ids)
  have n: "find_track t i \<noteq> None" using 2 by simp
  have "tk_version r < tk_version (bumped_row i f r)" using f [of r] by (simp add: bumped_row_def)
  hence "effect ids s s'"
    using 2(1,2) base(1-4) by (auto simp: effect_def 2(3) advances_log find_put_track [OF n] served_put [OF n])
  thus ?thesis ..
qed

lemma effect_quiet:
  assumes "find_track s' = find_track s" "served s' = served s" "st_seq s' = st_seq s" "st_changes s' = st_changes s"
  shows "\<exists>ids. effect ids s s'"
  using assms by (intro exI [of _ "[]"]) (auto simp: effect_def)

text \<open>The rows of the other tables are read off per track.\<close>

lemma served_tags: "st_tracks t = st_tracks s \<Longrightarrow> st_arts t = st_arts s \<Longrightarrow> st_links t = st_links s \<Longrightarrow> st_blocks t = st_blocks s \<Longrightarrow>
    tags_of t j = tags_of s j \<Longrightarrow> served t j = served s j"
  "st_tracks t = st_tracks s \<Longrightarrow> st_arts t = st_arts s \<Longrightarrow> st_tags t = st_tags s \<Longrightarrow> st_blocks t = st_blocks s \<Longrightarrow>
    links_of t j = links_of s j \<Longrightarrow> served t j = served s j"
  "st_tracks t = st_tracks s \<Longrightarrow> st_arts t = st_arts s \<Longrightarrow> st_tags t = st_tags s \<Longrightarrow> st_links t = st_links s \<Longrightarrow>
    blocks_of t j = blocks_of s j \<Longrightarrow> served t j = served s j"
  by (simp_all add: served_def find_track_def tags_of_def links_of_def blocks_of_def)

lemma served_arts: "st_tracks t = st_tracks s \<Longrightarrow> st_tags t = st_tags s \<Longrightarrow> st_links t = st_links s \<Longrightarrow> st_blocks t = st_blocks s \<Longrightarrow>
    (\<And>k. k \<in> set (st_links s) \<Longrightarrow> filter (\<lambda>a. ar_id a = ln_art k) (st_arts t) = filter (\<lambda>a. ar_id a = ln_art k) (st_arts s)) \<Longrightarrow>
    served t = served s"
  by (auto simp: served_def find_track_def tags_of_def links_of_def blocks_of_def fun_eq_iff)

subsection \<open>Deleting a track, in closed form\<close>

lemma update_missing: "find_track s i = None \<Longrightarrow> sql_update_track i f s = Inr s"
  by (simp add: sql_update_track_def)

lemma cascade_tags:
  "find_track s i = None \<Longrightarrow> \<forall>r\<in>set rs. tg_track r = i \<Longrightarrow>
     for_each (sql_delete_tag now) rs s = Inr (s\<lparr>st_tags := filter (\<lambda>x. x \<notin> set rs) (st_tags s)\<rparr>)"
  by (induction rs arbitrary: s) (simp_all add: sql_delete_tag_def bump_def update_missing find_track_def conj_commute)

lemma cascade_links:
  "find_track s i = None \<Longrightarrow> \<forall>r\<in>set rs. ln_track r = i \<Longrightarrow>
     for_each (sql_delete_link now) rs s = Inr (s\<lparr>st_links := filter (\<lambda>x. x \<notin> set rs) (st_links s)\<rparr>)"
  by (induction rs arbitrary: s) (simp_all add: sql_delete_link_def bump_def update_missing find_track_def conj_commute)

lemma cascade_blocks:
  "find_track s i = None \<Longrightarrow> \<forall>r\<in>set rs. bk_track r = i \<Longrightarrow>
     for_each sql_delete_block rs s = Inr (s\<lparr>st_blocks := filter (\<lambda>x. x \<notin> set rs) (st_blocks s)\<rparr>)"
  by (induction rs arbitrary: s) (simp_all add: sql_delete_block_def bump_version_def update_missing find_track_def conj_commute)

definition without_track :: "int \<Rightarrow> store \<Rightarrow> store" where
  "without_track i s = s\<lparr>st_tracks := filter (\<lambda>r. tk_id r \<noteq> i) (st_tracks s), st_tags := filter (\<lambda>r. tg_track r \<noteq> i) (st_tags s),
     st_links := filter (\<lambda>r. ln_track r \<noteq> i) (st_links s), st_blocks := filter (\<lambda>r. bk_track r \<noteq> i) (st_blocks s)\<rparr>"

lemma filter_not_filter: "filter (\<lambda>x. x \<in> set xs \<longrightarrow> g x \<noteq> i) xs = filter (\<lambda>x. g x \<noteq> i) xs"
  by (rule filter_cong) auto

lemma find_filter_neq: "find (\<lambda>r. tk_id r = j) (filter (\<lambda>r. tk_id r \<noteq> i) rs) = (if j = i then None else find (\<lambda>r. tk_id r = j) rs)"
  by (induction rs) auto

lemma delete_track_eq: "sql_delete_track now i s = Inr (if has_track s i then log_change i (without_track i s) else s)"
proof (cases "has_track s i")
  case True
  let ?s = "s\<lparr>st_tracks := filter (\<lambda>r. tk_id r \<noteq> i) (st_tracks s)\<rparr>"
  have gone: "find_track ?s i = None" "find_track (?s\<lparr>st_tags := g\<rparr>) i = None" "find_track (?s\<lparr>st_tags := g, st_links := l\<rparr>) i = None" for g l
    by (simp_all add: find_track_def find_filter_neq)
  show ?thesis
    using True unfolding sql_delete_track_def without_track_def
    by (simp add: cascade_tags [OF gone(1)] cascade_links [OF gone(2)] cascade_blocks [OF gone(3)] filter_not_filter)
qed (simp add: sql_delete_track_def)

lemma find_without [simp]: "find_track (without_track i s) j = (if j = i then None else find_track s j)"
  by (simp add: find_track_def without_track_def find_filter_neq)

lemma filter_other: "j \<noteq> i \<Longrightarrow> filter (\<lambda>x. g x \<noteq> i \<and> g x = j) xs = filter (\<lambda>x. g x = j) xs"
  by (rule filter_cong) auto

lemma served_without: "j \<noteq> i \<Longrightarrow> served (without_track i s) j = served s j"
  by (simp add: served_def tags_of_def links_of_def blocks_of_def) (simp add: without_track_def filter_other)

lemma delete_art_eq:
  assumes "a \<notin> ln_art ` set (st_links s)"
  shows "sql_delete_art e now a s = Inr (s\<lparr>st_arts := filter (\<lambda>x. ar_id x \<noteq> a) (st_arts s)\<rparr>)"
proof -
  have "art_tracks s a = []" using assms by (force simp: art_tracks_def filter_empty_conv)
  thus ?thesis using assms by (simp add: sql_delete_art_def)
qed

subsection \<open>Every step logs what it touches\<close>

lemma find_insert: "find_track (s\<lparr>st_tracks := st_tracks s @ [r]\<rparr>) j =
    (case find_track s j of Some x \<Rightarrow> Some x | None \<Rightarrow> if tk_id r = j then Some r else None)"
proof -
  have "find P (xs @ [r]) = (case find P xs of Some x \<Rightarrow> Some x | None \<Rightarrow> if P r then Some r else None)" for P xs
    by (induction xs) auto
  thus ?thesis by (simp add: find_track_def)
qed

lemma row_filter_ne: "filter (\<lambda>x. g x = j) (filter (\<lambda>x. x \<noteq> r) xs) = filter (\<lambda>x. g x = j) xs" if "g r \<noteq> j"
  using that by (induction xs) auto

lemma row_map_ne: "g r \<noteq> j \<Longrightarrow> g r' \<noteq> j \<Longrightarrow> filter (\<lambda>x. g x = j) (map (\<lambda>x. if x = r then r' else x) xs) = filter (\<lambda>x. g x = j) xs"
  by (induction xs) auto

lemma filter_absent: "x \<notin> set xs \<Longrightarrow> filter (\<lambda>y. y \<noteq> x) xs = xs"
  by (induction xs) auto

lemma logged_one: "st_seq s = st_seq t \<Longrightarrow> st_changes s = st_changes t \<Longrightarrow> advances s [i] (log_change i t)"
  unfolding advances_def using log_all_frame [of s t "[i]"] by (simp add: log_all_def)

lemma step_effect:
  assumes "row_step s s'" "store_ok s"
  shows "\<exists>ids. effect ids s s'"
  using assms(1)
proof cases
  case (InsertTrack r)
  hence s': "s' = log_change (tk_id r) (s\<lparr>st_tracks := st_tracks s @ [r]\<rparr>)" and n: "find_track s (tk_id r) = None"
    by (auto simp: sql_insert_track_def has_track_find split: if_splits)
  have f: "find_track s' j = (if j = tk_id r then Some r else find_track s j)" for j
    using find_insert [of s r j] n by (auto simp: s' find_track_def split: option.splits)
  have "served s' j = served s j" if "j \<noteq> tk_id r" for j
    using f [of j] that by (simp add: served_def tags_of_def links_of_def blocks_of_def) (simp add: s')
  moreover have "advances s [tk_id r] s'" unfolding s' by (rule logged_one) simp_all
  ultimately have "effect [tk_id r] s s'" using f n by (auto simp: effect_def)
  thus ?thesis ..
next
  case (UpdateTrack f i)
  thus ?thesis by (rule effect_update)
next
  case (DeleteTrack now i)
  hence s': "s' = (if has_track s i then log_change i (without_track i s) else s)" by (simp add: delete_track_eq)
  show ?thesis
  proof (cases "has_track s i")
    case True
    have "advances s [i] s'" using True unfolding s' by (simp add: logged_one without_track_def)
    moreover have "find_track s' = find_track (without_track i s)" "served s' = served (without_track i s)"
      using True by (simp_all add: s' served_def find_track_def tags_of_def links_of_def blocks_of_def fun_eq_iff)
    ultimately have "effect [i] s s'" by (auto simp: effect_def served_without)
    thus ?thesis ..
  qed (auto simp: s' intro: effect_quiet)
next
  case (InsertTag now g)
  thus ?thesis unfolding sql_insert_tag_def bump_def
    by (intro effect_bump [where i = "tg_track g"])
      (auto simp: has_track_find find_track_def tags_of_def split: if_splits intro!: served_tags(1))
next
  case (DeleteTag now g)
  have g: "g \<notin> set (st_tags s)" if "find_track s (tg_track g) = None"
    using assms(2) that by (auto simp: store_ok_def tags_ok_def list_all_iff has_track_find)
  show ?thesis using DeleteTag g unfolding sql_delete_tag_def bump_def
    by (intro effect_bump [where i = "tg_track g"])
      (auto simp: find_track_def tags_of_def row_filter_ne [of tg_track] filter_absent simp del: filter_filter intro!: served_tags(1))
next
  case (UpdateTag old g now)
  show ?thesis using UpdateTag unfolding sql_update_tag_def bump_def
    by (intro effect_bump [where i = "tg_track g"])
      (auto simp: has_track_find find_track_def tags_of_def row_map_ne [of tg_track] split: if_splits intro!: served_tags(1))
next
  case (InsertLink now k)
  thus ?thesis unfolding sql_insert_link_def bump_def
    by (intro effect_bump [where i = "ln_track k"])
      (auto simp: has_track_find find_track_def links_of_def split: if_splits intro!: served_tags(2))
next
  case (DeleteLink now k)
  have g: "k \<notin> set (st_links s)" if "find_track s (ln_track k) = None"
    using assms(2) that by (auto simp: store_ok_def links_ok_def list_all_iff has_track_find)
  show ?thesis using DeleteLink g unfolding sql_delete_link_def bump_def
    by (intro effect_bump [where i = "ln_track k"])
      (auto simp: find_track_def links_of_def row_filter_ne [of ln_track] filter_absent simp del: filter_filter intro!: served_tags(2))
next
  case (UpdateLink old k now)
  show ?thesis using UpdateLink unfolding sql_update_link_def bump_def
    by (intro effect_bump [where i = "ln_track k"])
      (auto simp: has_track_find find_track_def links_of_def row_map_ne [of ln_track] split: if_splits intro!: served_tags(2))
next
  case (InsertArt a)
  hence s': "s' = s\<lparr>st_arts := st_arts s @ [a]\<rparr>" and n: "\<not> has_art s (ar_id a)" by (auto simp: sql_insert_art_def split: if_splits)
  have "has_art s (ln_art k)" if "k \<in> set (st_links s)" for k
    using assms(2) that by (auto simp: store_ok_def links_ok_def list_all_iff)
  hence "served s' = served s" using n by (intro served_arts) (auto simp: s')
  thus ?thesis by (intro effect_quiet) (simp_all add: s' find_track_def fun_eq_iff)
next
  case (UpdateArt a a')
  thus ?thesis by (auto simp: sql_update_art_def split: if_splits intro: effect_quiet)
next
  case (DeleteArt now j)
  have n: "j \<notin> ln_art ` set (st_links s)" using DeleteArt by (auto simp: sql_delete_art_def split: if_splits)
  hence s': "s' = s\<lparr>st_arts := filter (\<lambda>x. ar_id x \<noteq> j) (st_arts s)\<rparr>" using DeleteArt by (simp add: delete_art_eq)
  have "served s' = served s" using n by (intro served_arts) (auto simp: s' intro!: filter_other)
  thus ?thesis by (intro effect_quiet) (simp_all add: s' find_track_def fun_eq_iff)
next
  case (InsertBlock b)
  thus ?thesis unfolding sql_insert_block_def bump_version_def
    by (intro effect_bump [where i = "bk_track b"])
      (auto simp: has_track_find find_track_def blocks_of_def split: if_splits intro!: served_tags(3))
next
  case (DeleteBlock b)
  have g: "b \<notin> set (st_blocks s)" if "find_track s (bk_track b) = None"
    using assms(2) that by (auto simp: store_ok_def blocks_ok_def list_all_iff has_track_find)
  show ?thesis using DeleteBlock g unfolding sql_delete_block_def bump_version_def
    by (intro effect_bump [where i = "bk_track b"])
      (auto simp: find_track_def blocks_of_def row_filter_ne [of bk_track] filter_absent simp del: filter_filter intro!: served_tags(3))
qed

subsection \<open>Every step keeps the invariant\<close>

lemma store_ok_cong:
  assumes "st_tracks t = st_tracks s" "st_tags t = st_tags s" "st_arts t = st_arts s" "st_links t = st_links s"
    "st_blocks t = st_blocks s" "ring_ok t" "store_ok s"
  shows "store_ok t"
  using assms by (simp add: store_ok_def table_ok_defs has_track_def has_art_def)

lemma store_ok_log: "store_ok s \<Longrightarrow> store_ok (log_all ids s)"
  by (rule store_ok_cong [of _ s]) (simp_all add: store_ok_def ring_log_all)

lemma path_distinct_put:
  "\<lbrakk>distinct (map tk_id rs); distinct (map tk_path rs); \<not> list_ex (\<lambda>x. tk_path x = tk_path r \<and> tk_id x \<noteq> tk_id r) rs\<rbrakk> \<Longrightarrow>
     distinct (map tk_path (map (\<lambda>x. if tk_id x = tk_id r then r else x) rs))"
proof (induction rs)
  case (Cons x rs)
  show ?case
  proof (cases "tk_id x = tk_id r")
    case True
    hence n: "tk_id r \<notin> tk_id ` set rs" using Cons.prems(1) by auto
    hence "map (\<lambda>x. if tk_id x = tk_id r then r else x) rs = rs" by (intro map_idI) (metis image_eqI)
    moreover have "tk_path r \<notin> tk_path ` set rs"
    proof
      assume "tk_path r \<in> tk_path ` set rs"
      then obtain y where "y \<in> set rs" "tk_path y = tk_path r" by (metis imageE)
      moreover from this have "tk_id y = tk_id r" using Cons.prems(3) by (auto simp: list_ex_iff)
      ultimately show False using n by (metis image_eqI)
    qed
    ultimately show ?thesis using True Cons.prems(2) by simp
  next
    case False
    thus ?thesis using Cons by (auto simp: list_ex_iff split: if_splits)
  qed
qed simp

lemma store_ok_put:
  assumes "store_ok s" "track_check r" "\<not> path_taken s (tk_path r) (tk_id r)"
  shows "store_ok (put_track r s)"
proof -
  have h: "has_track (put_track r s) = has_track s" by (rule has_frame) simp
  have "distinct (map tk_path (st_tracks (put_track r s)))"
    using path_distinct_put [of "st_tracks s" r] assms by (simp add: store_ok_def tracks_ok_def path_taken_def put_track_def)
  moreover have "list_all track_check (st_tracks (put_track r s))"
    using assms by (auto simp: store_ok_def tracks_ok_def put_track_def list_all_iff)
  ultimately have "tracks_ok (put_track r s)" using assms(1) by (simp add: tracks_ok_def store_ok_def)
  thus ?thesis using assms(1) by (simp add: store_ok_def tags_ok_def arts_ok_def links_ok_def blocks_ok_def ring_ok_def h has_art_def)
qed

lemma store_ok_update:
  assumes "store_ok s" "sql_update_track i f s = Inr s'"
  shows "store_ok s'"
  using assms(2)
proof (cases rule: update_cases)
  case (2 r ids)
  have "tk_path (bumped_row i f r) = tk_path (f r)" by (simp add: bumped_row_def)
  thus ?thesis using 2 assms(1) by (simp add: store_ok_log store_ok_put)
qed (use assms in simp)

lemma next_id_fresh: "next_id ids \<notin> set ids"
  by (auto simp: next_id_def dest: Max_ge [OF finite_set])

lemma store_ok_without: "store_ok s \<Longrightarrow> store_ok (without_track i s)"
proof -
  assume "store_ok s"
  moreover have "has_track (without_track i s) j \<longleftrightarrow> j \<noteq> i \<and> has_track s j" for j by (auto simp: has_track_find)
  moreover have "has_art (without_track i s) = has_art s" by (simp add: has_art_def without_track_def fun_eq_iff)
  ultimately show ?thesis
    unfolding store_ok_def table_ok_defs
    by (auto simp: list_all_iff) (auto simp: without_track_def distinct_map_filter ring_ok_def)
qed

lemma distinct_map_map_replace:
  "\<lbrakk>distinct (map g xs); g y \<notin> g ` set (filter (\<lambda>x. x \<noteq> o') xs)\<rbrakk> \<Longrightarrow> distinct (map g (map (\<lambda>x. if x = o' then y else x) xs))"
proof (induction xs)
  case (Cons x xs)
  show ?case
  proof (cases "x = o'")
    case True
    have "o' \<notin> set xs" using Cons.prems(1) True by auto
    hence "map (\<lambda>x. if x = o' then y else x) xs = xs" by (intro map_idI) auto
    thus ?thesis using True Cons.prems by (auto simp: filter_absent \<open>o' \<notin> set xs\<close>)
  next
    case False
    thus ?thesis using Cons by (auto split: if_splits)
  qed
qed simp

lemma step_store_ok:
  assumes "row_step s s'" "store_ok s"
  shows "store_ok s'"
  using assms(1)
proof cases
  case (InsertTrack r)
  let ?s = "s\<lparr>st_tracks := st_tracks s @ [r]\<rparr>"
  have s': "s' = log_all [tk_id r] ?s" and n: "\<not> has_track s (tk_id r)" "track_check r" "\<not> path_taken s (tk_path r) (tk_id r)"
    using InsertTrack by (auto simp: sql_insert_track_def log_all_def split: if_splits)
  have "tk_path r \<notin> tk_path ` set (st_tracks s)"
    using n(1,3) unfolding has_track_def path_taken_def list_ex_iff by (metis (mono_tags, lifting) imageE imageI)
  hence "tracks_ok ?s" using n assms(2) by (auto simp: store_ok_def tracks_ok_def has_track_def)
  hence "store_ok ?s" using assms(2) by (auto simp: store_ok_def table_ok_defs list_all_iff has_track_def has_art_def ring_ok_def)
  thus ?thesis unfolding s' by (rule store_ok_log)
next
  case (UpdateTrack f i)
  thus ?thesis using assms(2) store_ok_update by blast
next
  case (DeleteTrack now i)
  hence s': "s' = (if has_track s i then log_all [i] (without_track i s) else s)" by (auto simp: delete_track_eq log_all_def split: if_splits)
  show ?thesis unfolding s' using assms(2) store_ok_log [of "without_track i s" "[i]"] store_ok_without by simp
next
  case (InsertTag now g)
  let ?g = "g\<lparr>tg_rowid := next_id (map tg_rowid (st_tags s))\<rparr>"
  have "store_ok (s\<lparr>st_tags := st_tags s @ [?g]\<rparr>)"
    using InsertTag assms(2) next_id_fresh [of "map tg_rowid (st_tags s)"]
    by (auto simp: sql_insert_tag_def store_ok_def table_ok_defs list_all_iff has_track_def has_art_def ring_ok_def tag_key_def tag_check_def split: if_splits)
  thus ?thesis using InsertTag by (auto simp: sql_insert_tag_def bump_def split: if_splits intro: store_ok_update)
next
  case (DeleteTag now g)
  have "store_ok (s\<lparr>st_tags := filter (\<lambda>x. x \<noteq> g) (st_tags s)\<rparr>)"
    using assms(2) by (auto simp: store_ok_def table_ok_defs list_all_iff has_track_def has_art_def ring_ok_def distinct_map_filter)
  thus ?thesis using DeleteTag by (auto simp: sql_delete_tag_def bump_def intro: store_ok_update)
next
  case (UpdateTag old g now)
  let ?g = "g\<lparr>tg_rowid := tg_rowid old\<rparr>"
  have u: "tag_check g" "tag_key g \<notin> tag_key ` set (filter (\<lambda>x. x \<noteq> old) (st_tags s))" "has_track s (tg_track g)"
    using UpdateTag by (auto simp: sql_update_tag_def split: if_splits)
  have g: "tag_key ?g = tag_key g" "tag_check ?g" using u(1) by (simp_all add: tag_key_def tag_check_def)
  have t: "distinct (map tag_key (st_tags s))" "distinct (map tg_rowid (st_tags s))" using assms(2) by (auto simp: store_ok_def tags_ok_def)
  have "tg_rowid old \<notin> tg_rowid ` set (filter (\<lambda>x. x \<noteq> old) (st_tags s))"
    using t(2) UpdateTag(1) by (auto simp: distinct_map dest: inj_onD)
  hence "distinct (map tg_rowid (map (\<lambda>x. if x = old then ?g else x) (st_tags s)))"
    using t(2) by (intro distinct_map_map_replace) auto
  moreover have "distinct (map tag_key (map (\<lambda>x. if x = old then ?g else x) (st_tags s)))"
    using t(1) u(2) by (intro distinct_map_map_replace) (auto simp: g(1))
  ultimately have "store_ok (s\<lparr>st_tags := map (\<lambda>x. if x = old then ?g else x) (st_tags s)\<rparr>)"
    using assms(2) u g(2)
    by (auto simp: store_ok_def table_ok_defs list_all_iff has_track_def has_art_def ring_ok_def simp del: map_map)
  thus ?thesis using UpdateTag by (auto simp: sql_update_tag_def bump_def split: if_splits intro: store_ok_update)
next
  case (InsertLink now k)
  have "store_ok (s\<lparr>st_links := st_links s @ [k]\<rparr>)"
    using InsertLink assms(2)
    by (auto simp: sql_insert_link_def store_ok_def table_ok_defs list_all_iff has_track_def has_art_def ring_ok_def split: if_splits)
  thus ?thesis using InsertLink by (auto simp: sql_insert_link_def bump_def split: if_splits intro: store_ok_update)
next
  case (DeleteLink now k)
  have "store_ok (s\<lparr>st_links := filter (\<lambda>x. x \<noteq> k) (st_links s)\<rparr>)"
    using assms(2) by (auto simp: store_ok_def table_ok_defs list_all_iff has_track_def has_art_def ring_ok_def distinct_map_filter)
  thus ?thesis using DeleteLink by (auto simp: sql_delete_link_def bump_def intro: store_ok_update)
next
  case (UpdateLink old k now)
  have u: "link_check k" "link_key k \<notin> link_key ` set (filter (\<lambda>x. x \<noteq> old) (st_links s))" "has_track s (ln_track k)" "has_art s (ln_art k)"
    using UpdateLink by (auto simp: sql_update_link_def split: if_splits)
  have "distinct (map link_key (map (\<lambda>x. if x = old then k else x) (st_links s)))"
    using assms(2) u(2) by (intro distinct_map_map_replace) (auto simp: store_ok_def links_ok_def)
  hence "store_ok (s\<lparr>st_links := map (\<lambda>x. if x = old then k else x) (st_links s)\<rparr>)"
    using assms(2) u
    by (auto simp: store_ok_def table_ok_defs list_all_iff has_track_def has_art_def ring_ok_def simp del: map_map)
  thus ?thesis using UpdateLink by (auto simp: sql_update_link_def bump_def split: if_splits intro: store_ok_update)
next
  case (InsertArt a)
  thus ?thesis using assms(2)
    by (auto simp: sql_insert_art_def store_ok_def table_ok_defs list_all_iff has_track_def has_art_def ring_ok_def split: if_splits)
next
  case (UpdateArt a a')
  thus ?thesis using assms(2) by (auto simp: sql_update_art_def split: if_splits)
next
  case (DeleteArt now j)
  have n: "j \<notin> ln_art ` set (st_links s)" using DeleteArt by (auto simp: sql_delete_art_def split: if_splits)
  hence s': "s' = s\<lparr>st_arts := filter (\<lambda>x. ar_id x \<noteq> j) (st_arts s)\<rparr>" using DeleteArt by (simp add: delete_art_eq)
  have "has_art s' a \<longleftrightarrow> a \<noteq> j \<and> has_art s a" for a by (auto simp: has_art_def s')
  moreover have "has_track s' = has_track s" by (simp add: has_track_def s' fun_eq_iff)
  moreover have "ln_art k \<noteq> j" if "k \<in> set (st_links s)" for k using n that by auto
  ultimately show ?thesis using assms(2)
    unfolding store_ok_def table_ok_defs by (auto simp: list_all_iff) (auto simp: s' ring_ok_def distinct_map_filter)
next
  case (InsertBlock b)
  have "store_ok (s\<lparr>st_blocks := st_blocks s @ [b]\<rparr>)"
    using InsertBlock assms(2)
    by (auto simp: sql_insert_block_def store_ok_def table_ok_defs list_all_iff has_track_def has_art_def ring_ok_def split: if_splits)
  thus ?thesis using InsertBlock by (auto simp: sql_insert_block_def bump_version_def split: if_splits intro: store_ok_update)
next
  case (DeleteBlock b)
  have "store_ok (s\<lparr>st_blocks := filter (\<lambda>x. x \<noteq> b) (st_blocks s)\<rparr>)"
    using assms(2) by (auto simp: store_ok_def table_ok_defs list_all_iff has_track_def has_art_def ring_ok_def distinct_map_filter)
  thus ?thesis using DeleteBlock by (auto simp: sql_delete_block_def bump_version_def intro: store_ok_update)
qed

end
