(* ===== verification/Store_Runs.thy ===== *)
theory Store_Runs
  imports Store_Steps
begin

text \<open>
  The operations of the store as runs of row-level statements, and what every run keeps: the
  constraints, the ring, the completeness of the changelog for a reader the ring still reaches back
  to, and content_version as a stamp of everything a track is served from.
\<close>

subsection \<open>The operations\<close>

datatype store_write =
    Upsert new_track
  | Delete int
  | Checksums int "string option" "string option"
  | Retarget int string nat int int nat nat "string option" "string option"
  | ReplaceTags int "db_tag list"
  | BinaryTags int "db_binary_tag list"
  | TrackArt int "track_art list"
  | StructuralBlocks int "structural_block list"
  | UpsertArt new_art
  | GcOrphanArt

definition stored :: "db_error + ('a \<times> store) \<Rightarrow> store_result" where
  "stored r = rbind r (\<lambda>(_, s). Inr s)"

fun run_write :: "(bytes \<Rightarrow> string) \<Rightarrow> int \<Rightarrow> store_write \<Rightarrow> store \<Rightarrow> store_result" where
  "run_write sha now (Upsert t) s = stored (upsert_track now t s)"
| "run_write sha now (Delete i) s = delete_track now i s"
| "run_write sha now (Checksums i fp h) s = set_track_checksums i fp h s"
| "run_write sha now (Retarget i p sz mt ct off len fp h) s = retarget_track now i p sz mt ct off len fp h s"
| "run_write sha now (ReplaceTags i tags) s = replace_tags now i tags s"
| "run_write sha now (BinaryTags i tags) s = set_binary_tags now i tags s"
| "run_write sha now (TrackArt i items) s = set_track_art now i items s"
| "run_write sha now (StructuralBlocks i bs) s = set_structural_blocks i bs s"
| "run_write sha now (UpsertArt a) s = stored (upsert_art sha a s)"
| "run_write sha now GcOrphanArt s = stored (gc_orphan_art now s)"

lemma for_each_steps:
  "(\<And>r s s'. r \<in> set rs \<Longrightarrow> f r s = Inr s' \<Longrightarrow> row_step s s') \<Longrightarrow> for_each f rs s = Inr s' \<Longrightarrow> row_steps s s'"
proof (induction rs arbitrary: s)
  case (Cons r rs)
  obtain t where t: "f r s = Inr t" "for_each f rs t = Inr s'" using Cons.prems(2) by (auto simp: rbind_eq_Inr)
  have "row_step s t" using Cons.prems(1) [OF _ t(1)] by simp
  moreover have "row_steps t s'" by (rule Cons.IH [OF _ t(2)]) (rule Cons.prems(1); simp)
  ultimately show ?case by (rule converse_rtranclp_into_rtranclp)
qed simp

lemma two_loops_steps:
  assumes "rbind (for_each f rs s) (for_each g qs) = Inr s'"
    "\<And>r s s'. r \<in> set rs \<Longrightarrow> f r s = Inr s' \<Longrightarrow> row_step s s'" "\<And>r s s'. r \<in> set qs \<Longrightarrow> g r s = Inr s' \<Longrightarrow> row_step s s'"
  shows "row_steps s s'"
proof -
  obtain t where "for_each f rs s = Inr t" "for_each g qs t = Inr s'" using assms(1) by (auto simp: rbind_eq_Inr)
  thus ?thesis using for_each_steps [of rs f s t] for_each_steps [of qs g t s'] assms(2,3) by (metis rtranclp_trans)
qed

lemma upsert_steps: "upsert_track now t s = Inr (i, s') \<Longrightarrow> row_step s s'"
  by (auto simp: upsert_track_def rbind_eq_Inr Let_def split: option.splits
      intro: InsertTrack UpdateTrack [where f = "\<lambda>r. r\<lparr>tk_format := format_str (nt_format t), tk_offset := _, tk_len := _,
             tk_size := _, tk_mtime := nt_mtime t, tk_ctime := nt_ctime t, tk_updated := now\<rparr>"])

lemma write_steps:
  assumes "run_write sha now w s = Inr s'"
  shows "row_steps s s'"
proof (cases w)
  case (Upsert t)
  thus ?thesis using assms by (auto simp: stored_def rbind_eq_Inr dest: upsert_steps)
next
  case (Delete i)
  thus ?thesis using assms by (auto simp: delete_track_def intro: DeleteTrack)
next
  case (Checksums i fp h)
  thus ?thesis using assms by (auto simp: set_track_checksums_def
      intro!: r_into_rtranclp UpdateTrack [where f = "\<lambda>r. r\<lparr>tk_fingerprint := coalesce fp (tk_fingerprint r), tk_hash := coalesce h (tk_hash r)\<rparr>"])
next
  case (Retarget i p sz mt ct off len fp h)
  then obtain z o' l where "sql_update_track i (\<lambda>r. r\<lparr>tk_path := p, tk_size := z, tk_mtime := mt, tk_ctime := ct, tk_offset := o',
       tk_len := l, tk_fingerprint := coalesce fp (tk_fingerprint r), tk_hash := coalesce h (tk_hash r),
       tk_updated := now\<rparr>) s = Inr s'"
    using assms by (auto simp: retarget_track_def rbind_eq_Inr)
  thus ?thesis by (intro r_into_rtranclp) (erule UpdateTrack [rotated], simp)
next
  case (ReplaceTags i tags)
  show ?thesis
    by (rule two_loops_steps [where f = "sql_delete_tag now" and g = "insert_text_tag now i"])
      (use assms ReplaceTags in \<open>auto simp: replace_tags_def insert_text_tag_def rbind_eq_Inr intro: DeleteTag InsertTag\<close>)
next
  case (BinaryTags i tags)
  show ?thesis
    by (rule two_loops_steps [where f = "sql_delete_tag now" and g = "insert_binary_tag now i"])
      (use assms BinaryTags in \<open>auto simp: set_binary_tags_def insert_binary_tag_def rbind_eq_Inr intro: DeleteTag InsertTag\<close>)
next
  case (TrackArt i items)
  show ?thesis
    by (rule two_loops_steps [where f = "sql_delete_link now" and g = "insert_track_art now i"])
      (use assms TrackArt in \<open>auto simp: set_track_art_def insert_track_art_def rbind_eq_Inr intro: DeleteLink InsertLink\<close>)
next
  case (StructuralBlocks i bs)
  show ?thesis
    by (rule two_loops_steps [where f = sql_delete_block and g = "insert_structural i"])
      (use assms StructuralBlocks in \<open>auto simp: set_structural_blocks_def insert_structural_def rbind_eq_Inr intro: DeleteBlock InsertBlock\<close>)
next
  case (UpsertArt a)
  thus ?thesis using assms
    by (auto simp: stored_def upsert_art_def rbind_eq_Inr Let_def split: if_splits option.splits intro: InsertArt)
next
  case GcOrphanArt
  thus ?thesis using assms
    by (auto simp: stored_def gc_orphan_art_def rbind_eq_Inr Let_def intro!: for_each_steps [where f = "\<lambda>x. sql_delete_art True now (ar_id x)"] intro: DeleteArt)
qed

lemma steps_store_ok: "row_steps s s' \<Longrightarrow> store_ok s \<Longrightarrow> store_ok s'"
  by (induction rule: rtranclp_induct) (auto intro: step_store_ok)

lemma steps_log:
  "row_steps s s' \<Longrightarrow> store_ok s \<Longrightarrow> \<exists>ids. advances s ids s' \<and>
     (\<forall>i. i \<notin> set ids \<longrightarrow> find_track s' i = find_track s i \<and> served s' i = served s i)"
proof (induction rule: rtranclp_induct)
  case base
  show ?case by (intro exI [of _ "[]"]) auto
next
  case (step t u)
  obtain js where js: "effect js t u" using step_effect [OF step(2) steps_store_ok [OF step(1,4)]] by blast
  obtain "is" where "advances s is t" "\<forall>i. i \<notin> set is \<longrightarrow> find_track t i = find_track s i \<and> served t i = served s i"
    using step(3,4) by blast
  thus ?case using js advances_trans by (intro exI [of _ "is @ js"]) (auto simp: effect_def)
qed

lemma advances_seq: "advances s ids s' \<Longrightarrow> st_seq s' = st_seq s + int (length ids)"
  by (simp add: advances_def)

lemma logged_since:
  assumes "ring_ok s" "advances s ids s'" "st_seq s' - ring_cap \<le> l" "l \<le> st_seq s"
  shows "set (cr_ids (changelog_since s' l)) = set (cr_ids (changelog_since s l)) \<union> set ids"
proof -
  have "st_changes s' = st_changes (log_all ids s)" using assms(2) by (simp add: advances_def)
  thus ?thesis using log_all_since [OF assms(1), of ids l] assms(3,4) advances_seq [OF assms(2)]
    by (simp add: changelog_ids)
qed

lemma changelog_at_seq: "ring_ok s \<Longrightarrow> cr_ids (changelog_since s (st_seq s)) = []"
proof -
  assume "ring_ok s"
  hence "filter (\<lambda>(q, i). q > st_seq s) (st_changes s) = []" by (auto simp: filter_empty_conv dest: ring_fst)
  thus ?thesis by (simp add: changelog_since_def Let_def)
qed

subsection \<open>Runs that do not reuse an id\<close>

definition ids_of :: "store \<Rightarrow> int set" where "ids_of s = tk_id ` set (st_tracks s)"

text \<open>
  SQLite gives a new track the largest id in use plus one, so deleting the newest track and inserting
  another reuses its id. A fresh run never does: the ids it has seen are its first and third argument.
\<close>

inductive fresh_run :: "int set \<Rightarrow> store \<Rightarrow> int set \<Rightarrow> store \<Rightarrow> bool" where
  start: "fresh_run U s U s"
| more: "fresh_run U s V t \<Longrightarrow> row_step t t' \<Longrightarrow> (ids_of t' - ids_of t) \<inter> V = {} \<Longrightarrow> fresh_run U s (V \<union> ids_of t') t'"

lemma fresh_run_steps: "fresh_run U s V s' \<Longrightarrow> row_steps s s'"
  by (induction rule: fresh_run.induct) auto

lemma fresh_run_seen: "fresh_run U s V s' \<Longrightarrow> U \<subseteq> V \<and> (ids_of s \<subseteq> U \<longrightarrow> ids_of s' \<subseteq> V)"
  by (induction rule: fresh_run.induct) auto

lemma fresh_run_gone: "fresh_run U s V s' \<Longrightarrow> i \<in> U \<Longrightarrow> i \<notin> ids_of s \<Longrightarrow> i \<notin> ids_of s'"
proof (induction rule: fresh_run.induct)
  case (more U s V t t')
  thus ?case using fresh_run_seen [OF more(1)] by blast
qed

lemma fresh_run_trans: "fresh_run V t W u \<Longrightarrow> fresh_run U s V t \<Longrightarrow> fresh_run U s W u"
  by (induction rule: fresh_run.induct) (auto intro: fresh_run.intros)

lemma ids_find: "i \<in> ids_of s \<longleftrightarrow> find_track s i \<noteq> None"
  using has_track_find [of s i] by (simp add: has_track_def ids_of_def)

lemma fresh_run_version:
  "\<lbrakk>fresh_run U s V s'; store_ok s; ids_of s \<subseteq> U; find_track s i = Some r; find_track s' i = Some r'\<rbrakk> \<Longrightarrow>
     tk_version r \<le> tk_version r' \<and> (tk_version r = tk_version r' \<longrightarrow> served s' i = served s i)"
proof (induction arbitrary: r' rule: fresh_run.induct)
  case (more U s V t t')
  have "i \<in> ids_of s" "i \<in> ids_of t'" using more.prems by (simp_all add: ids_find)
  hence "i \<in> V" using fresh_run_seen [OF more(1)] more.prems by blast
  hence "i \<in> ids_of t" using more(3) \<open>i \<in> ids_of t'\<close> by blast
  then obtain x where x: "find_track t i = Some x" by (auto simp: ids_find)
  obtain ids where "effect ids t t'"
    using step_effect [OF more(2)] steps_store_ok [OF fresh_run_steps [OF more(1)]] more.prems(1) by blast
  hence "tk_version x \<le> tk_version r'" "tk_version x = tk_version r' \<longrightarrow> served t' i = served t i"
    using x more.prems(4) unfolding effect_def by blast+
  moreover have "tk_version r \<le> tk_version x" "tk_version r = tk_version x \<longrightarrow> served t i = served s i"
    using more.IH [OF more.prems(1-3) x] by blast+
  ultimately show ?case by simp
qed auto

subsection \<open>The properties\<close>

text \<open>C38: Every operation of the store is a run of row-level statements with their triggers, and keeps the
  store well formed: every row satisfies the CHECKs of its table, keys and backing paths are unique,
  tags, pictures and blocks reference existing tracks and images, and the changelog ring is intact.
\<close>

theorem store_writes_keep_invariant:
  assumes "store_ok s" "run_write sha now w s = Inr s'"
  shows "row_steps s s' \<and> store_ok s'"
  using write_steps [OF assms(2)] steps_store_ok assms(1) by blast

definition demo_sha :: "bytes \<Rightarrow> string" where
  "demo_sha d = replicate 64 (CHR ''0'')"

definition demo_new_track :: new_track where
  "demo_new_track = \<lparr>nt_path = ''/m/a.flac'', nt_format = Flac, nt_offset = 42, nt_len = 100, nt_size = 142,
     nt_mtime = 7, nt_ctime = 7\<rparr>"

definition demo_db :: store where
  "demo_db = \<lparr>st_tracks = [\<lparr>tk_id = 1, tk_path = ''/m/a.flac'', tk_format = ''flac'', tk_offset = 42, tk_len = 100, tk_size = 142,
       tk_mtime = 7, tk_ctime = 7, tk_version = 0, tk_updated = 5, tk_fingerprint = None, tk_hash = None\<rparr>],
     st_tags = [], st_arts = [], st_links = [], st_blocks = [], st_changes = [(1, 1)], st_seq = 1\<rparr>"

definition demo_db_tagged :: store where
  "demo_db_tagged = \<lparr>st_tracks = [\<lparr>tk_id = 1, tk_path = ''/m/a.flac'', tk_format = ''flac'', tk_offset = 42, tk_len = 100, tk_size = 142,
       tk_mtime = 7, tk_ctime = 7, tk_version = 1, tk_updated = 9, tk_fingerprint = None, tk_hash = None\<rparr>],
     st_tags = [\<lparr>tg_rowid = 1, tg_track = 1, tg_key = ''title'', tg_value = ''Halleluwah'', tg_ordinal = 0, tg_blob = None\<rparr>],
     st_arts = [], st_links = [], st_blocks = [], st_changes = [(1, 1), (2, 1)], st_seq = 2\<rparr>"

lemma demo_db_upsert: "run_write demo_sha 5 (Upsert demo_new_track) empty_store = Inr demo_db"
  by code_simp

lemma demo_db_tag: "run_write demo_sha 9 (ReplaceTags 1 [\<lparr>dt_key = ''title'', dt_value = ''Halleluwah'', dt_ordinal = 0\<rparr>]) demo_db = Inr demo_db_tagged"
  by code_simp

lemma store_ok_empty: "store_ok empty_store"
  by (simp add: store_ok_def table_ok_defs empty_store_def ring_ok_def ring_cap_def)

lemma demo_db_ok: "store_ok demo_db"
  using write_steps [OF demo_db_upsert] steps_store_ok store_ok_empty by blast

lemma demo_db_tagged_ok: "store_ok demo_db_tagged"
  using write_steps [OF demo_db_tag] steps_store_ok demo_db_ok by blast

lemma store_writes_keep_invariant_witness: "row_steps demo_db demo_db_tagged \<and> store_ok demo_db_tagged"
  by (rule store_writes_keep_invariant [OF demo_db_ok demo_db_tag])

text \<open>C37: The changelog ring is bounded and its gap test is exact: it holds the last 8192 entries under
  consecutive numbers ending at the counter, however long the store is written, and for a reader at
  any watermark a read reports a gap exactly when more entries than the ring keeps were logged since.
\<close>

theorem changelog_ring_bounds:
  assumes "store_ok s" "row_steps s s'" "0 \<le> l" "l \<le> st_seq s"
  shows "map fst (st_changes s') = [max 1 (st_seq s' - 8191) .. st_seq s'] \<and> int (length (st_changes s')) = min 8192 (st_seq s') \<and>
    (changelog_gap (changelog_since s' l) l \<longleftrightarrow> st_seq s' > l + 8192)"
proof -
  have ok: "ring_ok s'" using steps_store_ok [OF assms(2,1)] by (simp add: store_ok_def)
  hence m: "map fst (st_changes s') = [max 1 (st_seq s' - 8191) .. st_seq s']" and p: "0 \<le> st_seq s'"
    by (simp_all add: ring_ok_def ring_cap_def algebra_simps)
  have "length (st_changes s') = nat (st_seq s' - max 1 (st_seq s' - 8191) + 1)"
    using arg_cong [OF m, of length] by simp
  hence "int (length (st_changes s')) = min 8192 (st_seq s')" using p by (auto simp: max_def min_def)
  moreover have "changelog_gap (changelog_since s' l) l \<longleftrightarrow> st_seq s' > l + 8192"
    using no_gap_iff [OF ok assms(3)] steps_log [OF assms(2,1)] advances_seq assms(3,4) by (force simp: ring_cap_def)
  ultimately show ?thesis using m by blast
qed

lemma changelog_ring_bounds_witness:
  "map fst (st_changes demo_db_tagged) = [1..2] \<and> \<not> changelog_gap (changelog_since demo_db_tagged 1) 1"
  using changelog_ring_bounds [OF demo_db_ok write_steps [OF demo_db_tag], of 1]
  by (simp add: demo_db_def) (simp add: demo_db_tagged_def)


definition demo_db_pair :: store where
  "demo_db_pair = \<lparr>st_tracks = [\<lparr>tk_id = 1, tk_path = ''/m/a.flac'', tk_format = ''flac'', tk_offset = 42, tk_len = 100, tk_size = 142,
       tk_mtime = 7, tk_ctime = 7, tk_version = 1, tk_updated = 9, tk_fingerprint = None, tk_hash = None\<rparr>,
       \<lparr>tk_id = 2, tk_path = ''/m/b.flac'', tk_format = ''flac'', tk_offset = 42, tk_len = 100, tk_size = 142,
       tk_mtime = 7, tk_ctime = 7, tk_version = 0, tk_updated = 9, tk_fingerprint = None, tk_hash = None\<rparr>],
     st_tags = [\<lparr>tg_rowid = 1, tg_track = 1, tg_key = ''title'', tg_value = ''Halleluwah'', tg_ordinal = 0, tg_blob = None\<rparr>],
     st_arts = [], st_links = [], st_blocks = [], st_changes = [(1, 1), (2, 1), (3, 2)], st_seq = 3\<rparr>"

lemma demo_pair_write: "run_write demo_sha 9 (Upsert (demo_new_track\<lparr>nt_path := ''/m/b.flac''\<rparr>)) demo_db_tagged = Inr demo_db_pair"
  by code_simp

definition demo_oh_yeah :: "db_tag list" where
  "demo_oh_yeah = [\<lparr>dt_key = ''title'', dt_value = ''Oh Yeah'', dt_ordinal = 0\<rparr>]"

definition demo_db_retitled :: store where
  "demo_db_retitled = (case run_write demo_sha 10 (ReplaceTags 2 demo_oh_yeah) demo_db_pair of Inr s \<Rightarrow> s | Inl _ \<Rightarrow> demo_db_pair)"

lemma demo_retitled_write: "run_write demo_sha 10 (ReplaceTags 2 demo_oh_yeah) demo_db_pair = Inr demo_db_retitled"
proof -
  have "case run_write demo_sha 10 (ReplaceTags 2 demo_oh_yeah) demo_db_pair of Inr _ \<Rightarrow> True | Inl _ \<Rightarrow> False" by code_simp
  thus ?thesis by (simp add: demo_db_retitled_def split: sum.splits)
qed

lemma demo_db_pair_ok: "store_ok demo_db_pair"
  using write_steps [OF demo_pair_write] steps_store_ok demo_db_tagged_ok by blast


text \<open>C4: content_version stamps everything a track is served from: over any run of the statements above
  (foreign keys enforced, a tag or a picture stays on its track, content_version written by the
  triggers only) that does not reuse the id of a deleted track it never decreases, and a track found again under the same content_version
  has the same format and geometry, tags, pictures with their images, and structural blocks.
\<close>

theorem version_stamps_served_inputs:
  assumes "store_ok s" "fresh_run (ids_of s) s V s'" "find_track s i = Some r" "find_track s' i = Some r'"
  shows "tk_version r \<le> tk_version r' \<and> (tk_version r' = tk_version r \<longrightarrow> served s' i = served s i)"
  using fresh_run_version [OF assms(2,1) _ assms(3,4)] by auto

definition demo_hash :: string where "demo_hash = replicate 64 (CHR ''e'')"

definition demo_db_hashed :: store where
  "demo_db_hashed = \<lparr>st_tracks = [\<lparr>tk_id = 1, tk_path = ''/m/a.flac'', tk_format = ''flac'', tk_offset = 42, tk_len = 100, tk_size = 142,
       tk_mtime = 7, tk_ctime = 7, tk_version = 0, tk_updated = 5, tk_fingerprint = Some demo_hash, tk_hash = None\<rparr>],
     st_tags = [], st_arts = [], st_links = [], st_blocks = [], st_changes = [(1, 1), (2, 1)], st_seq = 2\<rparr>"

lemma demo_hashed_run:
  "fresh_run (ids_of demo_db) demo_db (ids_of demo_db \<union> ids_of demo_db_hashed) demo_db_hashed"
proof -
  have "sql_update_track 1 (\<lambda>r. r\<lparr>tk_fingerprint := Some demo_hash\<rparr>) demo_db = Inr demo_db_hashed" by code_simp
  hence "row_step demo_db demo_db_hashed" by (rule UpdateTrack [rotated]) simp
  moreover have "ids_of demo_db_hashed - ids_of demo_db = {}" by (simp add: ids_of_def demo_db_def demo_db_hashed_def)
  ultimately show ?thesis by (intro more [OF start]) auto
qed

lemma version_stamps_served_inputs_witness: "served demo_db_hashed 1 = served demo_db 1"
proof -
  have "find_track demo_db 1 \<noteq> None" "find_track demo_db_hashed 1 \<noteq> None"
    "map_option tk_version (find_track demo_db_hashed 1) = map_option tk_version (find_track demo_db 1)" by code_simp+
  then obtain r r' where "find_track demo_db 1 = Some r" "find_track demo_db_hashed 1 = Some r'" "tk_version r' = tk_version r" by auto
  thus ?thesis using version_stamps_served_inputs [OF demo_db_ok demo_hashed_run] by blast
qed

subsection \<open>Where the triggers fall short\<close>

text \<open>
  Moving a tag to another track with an UPDATE changes both tracks, but only the one it moves to is
  bumped and logged.
\<close>

lemma moved_tag_leaves_old_track_unlogged:
  "case sql_update_tag 10 (hd (st_tags demo_db_pair)) ((hd (st_tags demo_db_pair))\<lparr>tg_track := 2\<rparr>) demo_db_pair of
     Inr s \<Rightarrow> tags_of s 1 = [] \<and> find_track s 1 = find_track demo_db_pair 1 \<and> cr_ids (changelog_since s 3) = [2]
   | Inl e \<Rightarrow> False"
  by code_simp

text \<open>
  Deleting the newest track and adding another reuses its id; after as many edits the new track has
  the old one's content_version, under different tags.
\<close>

definition demo_reused :: store_result where
  "demo_reused =
     rbind (run_write demo_sha 10 (Delete 1) demo_db_tagged) (\<lambda>s.
     rbind (run_write demo_sha 11 (Upsert (demo_new_track\<lparr>nt_path := ''/m/c.flac''\<rparr>)) s) (\<lambda>s.
     run_write demo_sha 12 (ReplaceTags 1 [\<lparr>dt_key = ''title'', dt_value = ''Oh Yeah'', dt_ordinal = 0\<rparr>]) s))"

lemma reused_id_keeps_version:
  "case demo_reused of
     Inr s \<Rightarrow> map_option tk_version (find_track s 1) = map_option tk_version (find_track demo_db_tagged 1) \<and>
       tags_of s 1 \<noteq> tags_of demo_db_tagged 1
   | Inl e \<Rightarrow> False"
  by code_simp

end
