(* ===== verification/Store_Reads.thy ===== *)
theory Store_Reads
  imports Store_Runs
begin

text \<open>
  What the readers of the store answer: rows read back as typed tracks, the tags of a track as written
  in the order of the query, and the grouped queries of a refresh chunk by chunk; and the inputs a
  synthesis takes from them (musefs-core/src/mapping.rs).
\<close>

subsection \<open>Sorting under a change of key\<close>

lemma map_insort_key:
  "(\<And>x. x \<in> set xs \<Longrightarrow> (f a \<le> f x) = (g (h a) \<le> g (h x))) \<Longrightarrow> map h (insort_key f a xs) = insort_key g (h a) (map h xs)"
  by (induction xs) auto

lemma map_sort_key:
  "(\<And>x y. x \<in> set xs \<Longrightarrow> y \<in> set xs \<Longrightarrow> (f x \<le> f y) = (g (h x) \<le> g (h y))) \<Longrightarrow> map h (sort_key f xs) = sort_key g (map h xs)"
proof (induction xs)
  case (Cons a xs)
  have "map h (sort_key f xs) = sort_key g (map h xs)" using Cons.prems by (intro Cons.IH) simp
  moreover have "map h (insort_key f a (sort_key f xs)) = insort_key g (h a) (map h (sort_key f xs))"
    using Cons.prems by (intro map_insort_key) simp
  ultimately show ?case by (simp add: sort_key_simps)
qed (simp add: sort_key_simps)

lemma sort_key_same_order:
  "(\<And>x y. x \<in> set xs \<Longrightarrow> y \<in> set xs \<Longrightarrow> (f x \<le> f y) = (g x \<le> g y)) \<Longrightarrow> sort_key f xs = sort_key g xs"
  using map_sort_key [of xs f g "\<lambda>x. x"] by simp

subsection \<open>Reading rows\<close>

lemma collect_rows_map: "(\<And>r. r \<in> set rs \<Longrightarrow> f r = Inr (g r)) \<Longrightarrow> collect_rows f rs = Inr (map g rs)"
  by (induction rs) auto

lemma collect_rows_Inr: "collect_rows f rs = Inr vs \<Longrightarrow> length vs = length rs \<and> (\<forall>k<length rs. f (rs ! k) = Inr (vs ! k))"
  by (induction rs arbitrary: vs) (auto simp: rbind_eq_Inr nth_Cons split: nat.splits)

definition format_of :: "track_row \<Rightarrow> audio_format" where
  "format_of r = the (find (\<lambda>f. format_str f = tk_format r) [Flac, Mp3, M4a, Opus, Vorbis, OggFlac, Wav])"

lemma parse_format_eq: "parse_format (tk_format r) = Inr f \<Longrightarrow> format_of r = f"
  by (simp add: parse_format_def format_of_def del: find.simps)

lemma parse_format_checked: "track_check r \<Longrightarrow> parse_format (tk_format r) = Inr (format_of r) \<and> format_str (format_of r) = tk_format r"
  by (auto simp: track_check_def format_names_def parse_format_def format_of_def)

definition track_value :: "track_row \<Rightarrow> track" where
  "track_value r = \<lparr>tr_id = tk_id r, tr_path = tk_path r, tr_format = format_of r, tr_offset = nat (tk_offset r),
     tr_len = nat (tk_len r), tr_size = nat (tk_size r), tr_mtime = tk_mtime r, tr_ctime = tk_ctime r,
     tr_version = tk_version r, tr_updated = tk_updated r, tr_fingerprint = tk_fingerprint r, tr_hash = tk_hash r\<rparr>"

lemma row_to_track_checked:
  assumes "track_check r" "tk_size r < 2 ^ 63"
  shows "row_to_track r = Inr (track_value r)"
proof -
  have c: "0 \<le> tk_offset r" "0 \<le> tk_len r" "0 \<le> tk_size r" "tk_offset r + tk_len r \<le> tk_size r"
    using assms(1) by (simp_all add: track_check_def)
  hence "nat (tk_offset r) + nat (tk_len r) \<le> nat (tk_size r)" by linarith
  moreover have "nat (tk_size r) < 2 ^ 63" using assms(2) by (simp add: nat_less_iff)
  ultimately have "nat (tk_offset r) + nat (tk_len r) \<le> nat (tk_size r)" "nat (tk_offset r) + nat (tk_len r) < 2 ^ 64"
    by simp_all
  thus ?thesis using c parse_format_checked [OF assms(1)]
    by (simp add: row_to_track_def from_column_def track_bounds_new_def track_value_def)
qed

lemma filter_key_singleton: "distinct (map g rs) \<Longrightarrow> r \<in> set rs \<Longrightarrow> filter (\<lambda>x. g x = g r) rs = [r]"
proof (induction rs)
  case (Cons x rs)
  show ?case
  proof (cases "x = r")
    case True
    hence "g r \<notin> g ` set rs" using Cons.prems(1) by simp
    hence "filter (\<lambda>x. g x = g r) rs = []" unfolding filter_empty_conv by (metis image_eqI)
    thus ?thesis using True by simp
  next
    case False
    hence m: "r \<in> set rs" using Cons.prems(2) by simp
    hence "g x \<noteq> g r" using Cons.prems(1) by (metis image_eqI distinct.simps(2) list.simps(9) list.set_map)
    thus ?thesis using Cons m by simp
  qed
qed simp

text \<open>C39: Whatever the schema admits reads back: in a well-formed store (sizes within a signed column)
  listing the tracks succeeds, in id order, every track has a known format and audio bounds inside
  its backing size, reading it by id or by path gives the same track, and so do the render keys.
\<close>

theorem stored_tracks_read_back:
  assumes "store_ok s" "list_all (\<lambda>r. tk_size r < 2 ^ 63) (st_tracks s)"
  shows "\<exists>ts. list_tracks s = Inr ts \<and> map tr_id ts = sort (map tk_id (st_tracks s)) \<and>
    list_render_keys s = Inr (map (\<lambda>t. (tr_id t, tr_version t, tr_format t)) ts) \<and>
    list_all (\<lambda>t. tr_offset t + tr_len t \<le> tr_size t \<and> get_track s (tr_id t) = Inr (Some t) \<and>
       get_track_by_path s (tr_path t) = Inr (Some t)) ts"
proof -
  let ?rs = "sort_key tk_id (st_tracks s)"
  have t: "tracks_ok s" using assms(1) by (simp add: store_ok_def)
  have r: "row_to_track r = Inr (track_value r)" "track_check r" if "r \<in> set (st_tracks s)" for r
    using t assms(2) that row_to_track_checked by (auto simp: tracks_ok_def list_all_iff)
  have "list_tracks s = Inr (map track_value ?rs)" unfolding list_tracks_def using r by (intro collect_rows_map) simp
  moreover have "list_render_keys s = Inr (map (\<lambda>r. (tk_id r, tk_version r, format_of r)) ?rs)"
    unfolding list_render_keys_def using r(2) parse_format_checked by (intro collect_rows_map) (simp add: render_key_def)
  moreover have "map tr_id (map track_value ?rs) = sort (map tk_id (st_tracks s))"
    using map_sort_key [of "st_tracks s" tk_id "\<lambda>x. x" tk_id] by (simp add: comp_def track_value_def)
  moreover have "tr_offset t + tr_len t \<le> tr_size t \<and> get_track s (tr_id t) = Inr (Some t) \<and>
       get_track_by_path s (tr_path t) = Inr (Some t)" if m: "t \<in> set (map track_value ?rs)" for t
  proof -
    obtain r where r': "r \<in> set (st_tracks s)" "t = track_value r" using m by auto
    have "filter (\<lambda>x. tk_path x = tk_path r) (st_tracks s) = [r]" "filter (\<lambda>x. tk_id x = tk_id r) (st_tracks s) = [r]"
      using t r'(1) by (simp_all add: tracks_ok_def filter_key_singleton)
    moreover have "nat (tk_offset r) + nat (tk_len r) \<le> nat (tk_size r)" using r(2) [OF r'(1)] by (simp add: track_check_def) linarith
    ultimately show ?thesis using r(1) [OF r'(1)]
      by (simp add: r'(2) get_track_def get_track_by_path_def query_optional_def) (simp add: track_value_def)
  qed
  ultimately show ?thesis by (intro exI [of _ "map track_value ?rs"]) (simp add: list_all_iff track_value_def)
qed

lemma stored_tracks_read_back_witness:
  "\<exists>ts. list_tracks demo_db_tagged = Inr ts \<and> map tr_id ts = [1]"
  using stored_tracks_read_back [OF demo_db_tagged_ok]
  by (auto simp: demo_db_tagged_def)

subsection \<open>The tags of a track\<close>

definition to_db_tag :: "tag_row \<Rightarrow> db_tag" where
  "to_db_tag r = \<lparr>dt_key = tg_key r, dt_value = tg_value r, dt_ordinal = nat (tg_ordinal r)\<rparr>"

definition text_tags :: "store \<Rightarrow> int \<Rightarrow> db_tag list" where
  "text_tags s i = map to_db_tag (sort_key tag_order (filter (\<lambda>r. tg_track r = i \<and> tg_blob r = None) (st_tags s)))"

lemma text_tags_served: "served s i = served t i \<Longrightarrow> text_tags s i = text_tags t i"
proof -
  assume "served s i = served t i"
  hence "filter (\<lambda>r. tg_blob r = None) (tags_of s i) = filter (\<lambda>r. tg_blob r = None) (tags_of t i)"
    by (simp add: served_def)
  thus ?thesis by (simp add: text_tags_def tags_of_def conj_commute)
qed

lemma read_tag_row_Inr: "read_tag_row r = Inr t \<Longrightarrow> t = to_db_tag r"
  by (auto simp: read_tag_row_def rbind_eq_Inr from_column_def to_db_tag_def split: if_splits)

lemma read_tag_row_checked: "tag_check r \<Longrightarrow> read_tag_row r = Inr (to_db_tag r)"
  by (simp add: read_tag_row_def check_tag_lengths_def check_field_len_def tag_check_def from_column_def to_db_tag_def)

lemma collect_tags_within:
  "(\<And>r. r \<in> set rs \<Longrightarrow> f r = Inr (g r)) \<Longrightarrow> length out + length rs \<le> max_tags_per_track \<Longrightarrow>
     collect_tags i f rs out = Inr (out @ map g rs)"
  by (induction rs arbitrary: out) (auto simp: check_tag_count_def)

lemma collect_tags_Inr: "collect_tags i read_tag_row rs out = Inr ts \<Longrightarrow> ts = out @ map to_db_tag rs"
proof (induction rs arbitrary: out)
  case (Cons r rs)
  obtain t where t: "read_tag_row r = Inr t" "collect_tags i read_tag_row rs (out @ [t]) = Inr ts"
    using Cons.prems by (auto simp: rbind_eq_Inr)
  show ?case using Cons.IH [OF t(2)] read_tag_row_Inr [OF t(1)] by simp
qed simp

lemma get_tags_Inr: "get_tags s i = Inr ts \<Longrightarrow> ts = text_tags s i"
  unfolding get_tags_def text_tags_def by (drule collect_tags_Inr) simp

text \<open>The rows a write leaves.\<close>

lemma update_tables:
  "sql_update_track i f s = Inr t \<Longrightarrow> st_tags t = st_tags s \<and> st_links t = st_links s \<and> st_blocks t = st_blocks s \<and> st_arts t = st_arts s"
  by (erule update_cases) auto

lemma delete_tags_rows: "for_each (sql_delete_tag now) rs s = Inr t \<Longrightarrow> st_tags t = filter (\<lambda>x. x \<notin> set rs) (st_tags s)"
proof (induction rs arbitrary: s)
  case (Cons r rs)
  then obtain u where u: "sql_delete_tag now r s = Inr u" "for_each (sql_delete_tag now) rs u = Inr t" by (auto simp: rbind_eq_Inr)
  have "st_tags u = filter (\<lambda>x. x \<noteq> r) (st_tags s)" using u(1) update_tables by (fastforce simp: sql_delete_tag_def bump_def)
  thus ?case using Cons.IH [OF u(2)] by (simp add: conj_commute)
qed simp

lemma insert_text_row:
  assumes "insert_text_tag now i t s = Inr u"
  shows "\<exists>r. st_tags u = st_tags s @ [r] \<and> tg_track r = i \<and> tg_blob r = None \<and> to_db_tag r = t \<and> 0 \<le> tg_ordinal r \<and> tag_check r"
proof -
  obtain r where r: "sql_insert_tag now r s = Inr u" "tg_track r = i" "tg_blob r = None" "to_db_tag r = t" "0 \<le> tg_ordinal r"
    using assms by (fastforce simp: insert_text_tag_def rbind_eq_Inr to_column_def to_db_tag_def split: if_splits)
  let ?r = "r\<lparr>tg_rowid := next_id (map tg_rowid (st_tags s))\<rparr>"
  have "st_tags u = st_tags s @ [?r]" "tag_check r"
    using r(1) update_tables by (fastforce simp: sql_insert_tag_def bump_def split: if_splits)+
  thus ?thesis using r by (intro exI [of _ ?r]) (simp add: to_db_tag_def tag_check_def)
qed

lemma insert_text_rows:
  "for_each (insert_text_tag now i) ts s = Inr t \<Longrightarrow>
     \<exists>rs. st_tags t = st_tags s @ rs \<and> map to_db_tag rs = ts \<and> (\<forall>r\<in>set rs. tg_track r = i \<and> tg_blob r = None \<and> 0 \<le> tg_ordinal r \<and> tag_check r)"
proof (induction ts arbitrary: s)
  case (Cons x ts)
  then obtain u where u: "insert_text_tag now i x s = Inr u" "for_each (insert_text_tag now i) ts u = Inr t" by (auto simp: rbind_eq_Inr)
  obtain r where "st_tags u = st_tags s @ [r]" "tg_track r = i \<and> tg_blob r = None \<and> to_db_tag r = x \<and> 0 \<le> tg_ordinal r \<and> tag_check r"
    using insert_text_row [OF u(1)] by blast
  moreover obtain rs where "st_tags t = st_tags u @ rs" "map to_db_tag rs = ts"
      "\<forall>r\<in>set rs. tg_track r = i \<and> tg_blob r = None \<and> 0 \<le> tg_ordinal r \<and> tag_check r"
    using Cons.IH [OF u(2)] by blast
  ultimately show ?case by (intro exI [of _ "r # rs"]) auto
qed simp

definition dt_order :: "db_tag \<Rightarrow> string \<times> nat" where "dt_order t = (dt_key t, dt_ordinal t)"

lemma sort_to_db_tag: "\<forall>r\<in>set rs. 0 \<le> tg_ordinal r \<Longrightarrow> map to_db_tag (sort_key tag_order rs) = sort_key dt_order (map to_db_tag rs)"
  by (intro map_sort_key) (auto simp: tag_order_def dt_order_def to_db_tag_def less_eq_prod_def)

text \<open>Writing the text tags of a track and reading them back gives what was written, in the order of
  keys and ordinals; the binary tags of the track and the tags of every other track stay.
\<close>

theorem replace_tags_roundtrip:
  assumes "replace_tags now i tags s = Inr s'" "length tags \<le> 4096"
  shows "get_tags s' i = Inr (sort_key dt_order tags) \<and>
    filter (\<lambda>r. tg_track r \<noteq> i \<or> tg_blob r \<noteq> None) (st_tags s') = filter (\<lambda>r. tg_track r \<noteq> i \<or> tg_blob r \<noteq> None) (st_tags s)"
proof -
  let ?old = "filter (\<lambda>r. tg_track r = i \<and> tg_blob r = None) (st_tags s)"
  obtain u where u: "for_each (sql_delete_tag now) ?old s = Inr u" "for_each (insert_text_tag now i) tags u = Inr s'"
    using assms(1) by (auto simp: replace_tags_def rbind_eq_Inr)
  have "st_tags u = filter (\<lambda>x. x \<notin> set ?old) (st_tags s)" by (rule delete_tags_rows [OF u(1)])
  hence du: "st_tags u = filter (\<lambda>r. tg_track r \<noteq> i \<or> tg_blob r \<noteq> None) (st_tags s)"
    by (simp add: disj_not1 imp_conjL) (rule filter_cong, auto)
  obtain rs where rs: "st_tags s' = st_tags u @ rs" "map to_db_tag rs = tags"
      "\<forall>r\<in>set rs. tg_track r = i \<and> tg_blob r = None \<and> 0 \<le> tg_ordinal r \<and> tag_check r"
    using insert_text_rows [OF u(2)] by blast
  have "filter (\<lambda>r. tg_track r = i \<and> tg_blob r = None) (st_tags u) = []" by (auto simp: du filter_empty_conv)
  moreover have "filter (\<lambda>r. tg_track r = i \<and> tg_blob r = None) rs = rs" using rs(3) by (intro filter_True) blast
  ultimately have "filter (\<lambda>r. tg_track r = i \<and> tg_blob r = None) (st_tags s') = rs" by (simp only: rs(1) filter_append append_Nil)
  hence "get_tags s' i = Inr (map to_db_tag (sort_key tag_order rs))"
    unfolding get_tags_def using rs(2,3) assms(2)
    by (subst collect_tags_within [where g = to_db_tag]) (auto simp: read_tag_row_checked max_tags_per_track_def)
  moreover have "map to_db_tag (sort_key tag_order rs) = sort_key dt_order tags" using rs(2,3) sort_to_db_tag by blast
  moreover have "filter (\<lambda>r. tg_track r \<noteq> i \<or> tg_blob r \<noteq> None) rs = []" using rs(3) by (simp add: filter_empty_conv)
  ultimately show ?thesis by (simp add: rs(1) du)
qed

lemma replace_tags_roundtrip_witness:
  "get_tags demo_db_tagged 1 = Inr [\<lparr>dt_key = ''title'', dt_value = ''Halleluwah'', dt_ordinal = 0\<rparr>]"
  using replace_tags_roundtrip [OF demo_db_tag [unfolded run_write.simps]] by simp

end
