(* ===== verification/Render.thy ===== *)
theory Render
  imports Store_Reads Template
begin

text \<open>
  From the store to the inputs of the mount: the mapping of rows to synthesis inputs and template
  fields (musefs-core/src/mapping.rs), and the rendering of one track, of the whole library and of the
  tracks a changelog names (musefs-core/src/facade/refresh.rs).
\<close>

subsection \<open>Mapping rows\<close>

definition tags_to_inputs :: "db_tag list \<Rightarrow> tag_input list" where
  "tags_to_inputs tags = map (\<lambda>t. \<lparr>ti_key = dt_key t, ti_value = dt_value t\<rparr>) tags"

text \<open>The first value of each lowercased key.\<close>

definition tags_to_fields :: "db_tag list \<Rightarrow> fields" where
  "tags_to_fields tags = map_of (map (\<lambda>t. (to_ascii_lowercase (dt_key t), dt_value t)) tags)"

definition max_art_bytes :: nat where "max_art_bytes = 16 * 1024 * 1024 - 64 * 1024"

fun art_inputs :: "int \<Rightarrow> (track_art \<times> art_meta option) list \<Rightarrow> art_input list cresult" where
  "art_inputs i [] = Inr []"
| "art_inputs i ((ta, None) # rest) = Inl (OrphanedArt i (ta_art ta))"
| "art_inputs i ((ta, Some m) # rest) =
     (case blob_len_new (am_len m) of
        None \<Rightarrow> art_inputs i rest
      | Some len \<Rightarrow>
          if len > max_art_bytes then Inl (ArtTooLarge i (ta_art ta) len max_art_bytes)
          else (case picture_type_new (ta_type ta) of
              None \<Rightarrow> Inl (InvalidPictureType i (ta_art ta) (ta_type ta))
            | Some t \<Rightarrow> rbind (art_inputs i rest) (\<lambda>inputs.
                Inr (\<lparr>ai_art_id = ta_art ta, ai_mime = am_mime m, ai_description = ta_desc ta, ai_picture_type = t,
                      ai_width = (case am_width m of Some w \<Rightarrow> w | None \<Rightarrow> 0),
                      ai_height = (case am_height m of Some h \<Rightarrow> h | None \<Rightarrow> 0), ai_data_len = len\<rparr> # inputs))))"

definition track_art_to_inputs :: "store \<Rightarrow> int \<Rightarrow> art_input list cresult" where
  "track_art_to_inputs s i = rbind (map_err DbErr (get_track_art_with_meta s i)) (art_inputs i)"

definition binary_tags_to_inputs :: "store \<Rightarrow> int \<Rightarrow> binary_tag_input list cresult" where
  "binary_tags_to_inputs s i =
     rbind (map_err DbErr (get_binary_tags s i)) (\<lambda>rows.
     Inr (List.map_filter (\<lambda>r. map_option (\<lambda>n. \<lparr>bt_key = br_key r, bt_payload_id = br_rowid r, bt_len = n\<rparr>)
            (blob_len_new (br_len r))) rows))"

subsection \<open>Rendering\<close>

record mount_config =
  mc_case_insensitive :: bool
  mc_skip_on_missing :: bool
  mc_fallbacks :: fields
  mc_default_fallback :: string

definition render_one :: "part list \<Rightarrow> mount_config \<Rightarrow> audio_format \<Rightarrow> db_tag list \<Rightarrow> string option" where
  "render_one parts cfg fmt tags =
     (let fs = tags_to_fields tags in
      if mc_skip_on_missing cfg then template_render_checked parts fs (mc_fallbacks cfg) (format_str fmt)
      else Some (template_render parts fs (mc_fallbacks cfg) (mc_default_fallback cfg) (format_str fmt)))"

definition entry_of :: "grouped \<Rightarrow> int \<Rightarrow> db_tag list" where
  "entry_of g i = (case g i of Some ts \<Rightarrow> ts | None \<Rightarrow> [])"

fun render_keyed :: "part list \<Rightarrow> mount_config \<Rightarrow> render_keys \<Rightarrow> grouped \<Rightarrow> render_states" where
  "render_keyed parts cfg [] g = []"
| "render_keyed parts cfg ((i, cv, f) # ks) g =
     (case render_one parts cfg f (entry_of g i) of
        None \<Rightarrow> render_keyed parts cfg ks (g(i := None))
      | Some p \<Rightarrow> (i, \<lparr>rs_version = cv, rs_format = f, rs_path = p\<rparr>) # render_keyed parts cfg ks (g(i := None)))"

definition order_entries :: "(int \<times> string) list \<Rightarrow> (int \<times> string) list" where
  "order_entries es = sort_key fst es"

definition referenced_fields :: "part list \<Rightarrow> string list" where
  "referenced_fields parts = sorted_list_of_set (collect_field_names parts)"

text \<open>
  The whole library: the keys are one read of the store, the tags another, possibly of a later state.
\<close>

definition render_entries ::
  "part list \<Rightarrow> mount_config \<Rightarrow> store \<Rightarrow> store \<Rightarrow> ((int \<times> string) list \<times> render_states) cresult" where
  "render_entries parts cfg s t =
     rbind (map_err DbErr (list_render_keys s)) (\<lambda>keys.
     rbind (map_err DbErr (tags_grouped_for_keys t (referenced_fields parts))) (\<lambda>g.
     let snapshot = render_keyed parts cfg keys g in
     Inr (order_entries (map (\<lambda>(i, st). (i, rs_path st)) snapshot), snapshot)))"

text \<open>What a track should render to: its row in one state of the store, its tags in another.\<close>

definition rendered_at :: "part list \<Rightarrow> mount_config \<Rightarrow> store \<Rightarrow> store \<Rightarrow> int \<Rightarrow> track_render_state option" where
  "rendered_at parts cfg s t i =
     (case find_track s i of
        None \<Rightarrow> None
      | Some r \<Rightarrow> map_option (\<lambda>p. \<lparr>rs_version = tk_version r, rs_format = format_of r, rs_path = p\<rparr>)
          (render_one parts cfg (format_of r) (text_tags t i)))"

abbreviation rendered :: "part list \<Rightarrow> mount_config \<Rightarrow> store \<Rightarrow> int \<Rightarrow> track_render_state option" where
  "rendered parts cfg s \<equiv> rendered_at parts cfg s s"

subsection \<open>Grouped queries\<close>

lemma collect_grouped_Inr:
  "collect_grouped rs out = Inr g \<Longrightarrow> entry_of g i = entry_of out i @ map to_db_tag (filter (\<lambda>r. tg_track r = i) rs)"
proof (induction rs arbitrary: out)
  case (Cons r rs)
  obtain t where t: "read_tag_row r = Inr t"
      "collect_grouped rs (out(tg_track r \<mapsto> (case out (tg_track r) of Some ts \<Rightarrow> ts | None \<Rightarrow> []) @ [t])) = Inr g"
    using Cons.prems by (auto simp: rbind_eq_Inr Let_def)
  show ?case using Cons.IH [OF t(2)] read_tag_row_Inr [OF t(1)] by (simp add: entry_of_def)
qed simp

lemma query_chunks_Inr:
  assumes "\<And>c out g. f c out = Inr g \<Longrightarrow> entry_of g i = entry_of out i @ h c"
  shows "query_chunks f cs out = Inr g \<Longrightarrow> entry_of g i = entry_of out i @ concat (map h cs)"
proof (induction cs arbitrary: out)
  case (Cons c cs)
  obtain x where x: "f c out = Inr x" "query_chunks f cs x = Inr g" using Cons.prems by (auto simp: rbind_eq_Inr)
  show ?case using Cons.IH [OF x(2)] assms [OF x(1)] by simp
qed simp

lemma concat_key_chunks: "0 < n \<Longrightarrow> concat (key_chunks n ks) = ks"
proof (induction n ks rule: key_chunks.induct)
  case (1 n ks)
  thus ?case by (subst key_chunks.simps) simp
qed

lemma entry_empty [simp]: "entry_of Map.empty i = []"
  by (simp add: entry_of_def)

lemma group_of_track:
  "map to_db_tag (filter (\<lambda>r. tg_track r = i) (sort_key grouped_order (filter P tags))) =
     map to_db_tag (sort_key tag_order (filter (\<lambda>r. tg_track r = i \<and> P r) tags))"
proof -
  have "sort_key grouped_order rs = sort_key tag_order rs" if "\<forall>r\<in>set rs. tg_track r = i" for rs
    using that by (intro sort_key_same_order) (auto simp: grouped_order_def tag_order_def less_eq_prod_def)
  hence "filter (\<lambda>r. tg_track r = i) (sort_key grouped_order (filter P tags)) =
      sort_key tag_order (filter (\<lambda>r. tg_track r = i) (filter P tags))"
    unfolding filter_sort by simp
  thus ?thesis by (simp add: conj_commute)
qed

lemma tags_for_tracks_Inr:
  assumes "tags_for_tracks s ids = Inr g" "distinct ids"
  shows "entry_of g i = (if i \<in> set ids then text_tags s i else [])"
proof -
  let ?h = "\<lambda>c. if i \<in> set c then text_tags s i else []"
  have "filter (\<lambda>r. tg_track r = i \<and> tg_track r \<in> set c \<and> tg_blob r = None) (st_tags s) =
      (if i \<in> set c then filter (\<lambda>r. tg_track r = i \<and> tg_blob r = None) (st_tags s) else [])" for c
    by (auto simp: filter_empty_conv intro!: filter_cong)
  hence h: "map to_db_tag (filter (\<lambda>r. tg_track r = i) (sort_key grouped_order (filter (\<lambda>r. tg_track r \<in> set c \<and> tg_blob r = None) (st_tags s)))) = ?h c" for c
    unfolding group_of_track by (simp add: text_tags_def)
  have step: "entry_of g' i = entry_of out i @ ?h c"
    if "collect_grouped (sort_key grouped_order (filter (\<lambda>r. tg_track r \<in> set c \<and> tg_blob r = None) (st_tags s))) out = Inr g'" for c out g'
    using collect_grouped_Inr [OF that, of i] unfolding h .
  have "entry_of g i = entry_of Map.empty i @ concat (map ?h (key_chunks chunk_cap ids))"
    using assms(1) unfolding tags_for_tracks_def query_in_chunks_def by (rule query_chunks_Inr [rotated]) (rule step)
  moreover have "distinct (concat cs) \<Longrightarrow> concat (map ?h cs) = (if i \<in> set (concat cs) then text_tags s i else [])" for cs
    by (induction cs) auto
  ultimately show ?thesis using assms(2) by (simp add: concat_key_chunks chunk_cap_def)
qed

lemma tags_grouped_for_keys_Inr:
  assumes "tags_grouped_for_keys s keys = Inr g"
  shows "entry_of g i = concat (map (\<lambda>c. filter (\<lambda>t. to_ascii_lowercase (dt_key t) \<in> set c) (text_tags s i))
     (key_chunks chunk_cap (map to_ascii_lowercase keys)))"
proof -
  let ?h = "\<lambda>c. filter (\<lambda>t. to_ascii_lowercase (dt_key t) \<in> set c) (text_tags s i)"
  have h: "map to_db_tag (filter (\<lambda>r. tg_track r = i) (sort_key grouped_order
      (filter (\<lambda>r. tg_blob r = None \<and> to_ascii_lowercase (tg_key r) \<in> set c) (st_tags s)))) = ?h c" for c
  proof -
    have "?h c = map to_db_tag (filter (\<lambda>r. to_ascii_lowercase (tg_key r) \<in> set c)
        (sort_key tag_order (filter (\<lambda>r. tg_track r = i \<and> tg_blob r = None) (st_tags s))))"
      by (simp add: text_tags_def filter_map comp_def) (simp add: to_db_tag_def)
    thus ?thesis by (subst group_of_track) (simp add: filter_sort conj_ac)
  qed
  have step: "entry_of g' i = entry_of out i @ ?h c"
    if "collect_grouped (sort_key grouped_order
      (filter (\<lambda>r. tg_blob r = None \<and> to_ascii_lowercase (tg_key r) \<in> set c) (st_tags s))) out = Inr g'" for c out g'
    using collect_grouped_Inr [OF that, of i] unfolding h .
  have "entry_of g i = entry_of Map.empty i @ concat (map ?h (key_chunks chunk_cap (map to_ascii_lowercase keys)))"
    using assms unfolding tags_grouped_for_keys_def query_in_chunks_def by (rule query_chunks_Inr [rotated]) (rule step)
  thus ?thesis by simp
qed

subsection \<open>Both ways of rendering agree\<close>

lemma fields_filter: "tags_to_fields (filter (\<lambda>t. to_ascii_lowercase (dt_key t) \<in> S) ts) n = (if n \<in> S then tags_to_fields ts n else None)"
  by (induction ts) (auto simp: tags_to_fields_def)

lemma fields_append: "tags_to_fields (xs @ ys) n = (case tags_to_fields xs n of Some v \<Rightarrow> Some v | None \<Rightarrow> tags_to_fields ys n)"
  by (auto simp: tags_to_fields_def map_add_def split: option.splits)

lemma fields_chunks:
  "tags_to_fields (concat (map (\<lambda>c. filter (\<lambda>t. to_ascii_lowercase (dt_key t) \<in> set c) ts) cs)) n =
     (if n \<in> set (concat cs) then tags_to_fields ts n else None)"
proof (induction cs)
  case Nil
  show ?case by (simp add: tags_to_fields_def)
next
  case (Cons c cs)
  thus ?case by (simp add: fields_append fields_filter split: option.splits)
qed

lemma render_one_agree:
  assumes "\<And>n. n \<in> collect_field_names parts \<Longrightarrow> tags_to_fields ts n = tags_to_fields us n"
  shows "render_one parts cfg f ts = render_one parts cfg f us"
proof -
  have "agree_on (collect_field_names parts) (tags_to_fields ts) (tags_to_fields us)"
    "agree_on (collect_field_names parts) (mc_fallbacks cfg) (mc_fallbacks cfg)"
    using assms by (auto simp: agree_on_def)
  from render_parts_agree(2) [OF this] show ?thesis
    by (simp add: render_one_def template_render_def template_render_checked_def Let_def)
qed

lemma finite_field_names: "finite (collect_part p)" "finite (collect_field_names ps)"
  by (induction p and ps rule: collect_part_collect_field_names.induct) auto

lemma render_referenced:
  assumes "lowercase_names parts" "tags_grouped_for_keys s (referenced_fields parts) = Inr g"
  shows "render_one parts cfg f (entry_of g i) = render_one parts cfg f (text_tags s i)"
proof (rule render_one_agree)
  fix n assume n: "n \<in> collect_field_names parts"
  have "to_ascii_lowercase n = n" using assms(1) n by (simp add: lowercase_names_def)
  hence "n \<in> set (map to_ascii_lowercase (referenced_fields parts))"
    using n finite_field_names(2) [of parts] by (force simp: referenced_fields_def)
  hence "n \<in> set (concat (key_chunks chunk_cap (map to_ascii_lowercase (referenced_fields parts))))"
    by (subst concat_key_chunks) (simp_all add: chunk_cap_def)
  thus "tags_to_fields (entry_of g i) n = tags_to_fields (text_tags s i) n"
    unfolding tags_grouped_for_keys_Inr [OF assms(2)] fields_chunks by simp
qed

text \<open>C40: The two ways a refresh renders a track give the same path: the full build, which reads only the
  tags whose lowercased key the template references, in chunks of the query limit, and the
  incremental refresh, which reads all tags of the tracks the changelog names; whatever else the
  track is tagged with.
\<close>

theorem full_and_incremental_render_agree:
  assumes "template_parse src = Some (Inr parts)" "tags_grouped_for_keys s (referenced_fields parts) = Inr g"
    "tags_for_tracks s ids = Inr h" "distinct ids" "i \<in> set ids"
  shows "render_one parts cfg f (entry_of g i) = render_one parts cfg f (entry_of h i)"
proof -
  have "parsed_ok 0 src (parse_parts (length src + 1) 0 [] [] src)"
    by (rule parse_parts_ok) (simp_all add: max_section_depth_zero)
  hence "lowercase_names parts" using assms(1)
    by (auto simp: template_parse_def parsed_ok_def pbind_def split: option.splits sum.splits prod.splits)
  thus ?thesis using render_referenced [OF _ assms(2)] tags_for_tracks_Inr [OF assms(3,4), of i] assms(5) by simp
qed

definition demo_cfg :: mount_config where
  "demo_cfg = \<lparr>mc_case_insensitive = False, mc_skip_on_missing = False, mc_fallbacks = Map.empty, mc_default_fallback = ''Unknown''\<rparr>"

lemma full_and_incremental_render_agree_witness:
  "render_one [Field [''title''] False] demo_cfg Flac (entry_of (projr (tags_grouped_for_keys demo_db_tagged [''title''])) 1) =
     Some ''Halleluwah.flac''"
proof -
  let ?p = "[Field [''title''] False]"
  have p: "template_parse ''$title'' = Some (Inr ?p)"
    by (simp add: template_parse_def parse_unbraced_name_def is_field_char_def push_literal_def to_ascii_lowercase_def ascii_lower_char_def)
  have r: "referenced_fields ?p = [''title'']" by (simp add: referenced_fields_def)
  have "\<not> isl (tags_grouped_for_keys demo_db_tagged [''title''])" "\<not> isl (tags_for_tracks demo_db_tagged [1])" by code_simp+
  then obtain g h where g: "tags_grouped_for_keys demo_db_tagged (referenced_fields ?p) = Inr g" and h: "tags_for_tracks demo_db_tagged [1] = Inr h"
    unfolding r by (metis sum.collapse(2))
  have "text_tags demo_db_tagged 1 = [\<lparr>dt_key = ''title'', dt_value = ''Halleluwah'', dt_ordinal = 0\<rparr>]" by code_simp
  hence "render_one ?p demo_cfg Flac (entry_of h 1) = Some ''Halleluwah.flac''"
    using tags_for_tracks_Inr [OF h, of 1]
    by (simp add: render_one_def demo_cfg_def template_render_def tags_to_fields_def nonempty_def sanitize_def is_control_def
        to_ascii_lowercase_def ascii_lower_char_def)
  thus ?thesis using full_and_incremental_render_agree [OF p g h, of 1 demo_cfg Flac] g unfolding r by simp
qed

subsection \<open>What the reads of a refresh give\<close>

lemma find_iff: "tracks_ok s \<Longrightarrow> find_track s i = Some r \<longleftrightarrow> r \<in> set (st_tracks s) \<and> tk_id r = i"
  using find_in find_id by blast

lemma render_key_checked: "tracks_ok s \<Longrightarrow> r \<in> set (st_tracks s) \<Longrightarrow> render_key r = Inr (tk_id r, tk_version r, format_of r)"
  using parse_format_checked [of r] by (auto simp: tracks_ok_def list_all_iff render_key_def)

lemma map_of_single: "(\<And>x y. (i, x) \<in> set ks \<Longrightarrow> (i, y) \<in> set ks \<Longrightarrow> x = y) \<Longrightarrow> map_of ks i = Some x \<longleftrightarrow> (i, x) \<in> set ks"
  by (metis map_of_SomeD weak_map_of_SomeI)

lemma keys_find:
  assumes "tracks_ok s" "set ks = (\<lambda>r. (tk_id r, tk_version r, format_of r)) ` {r \<in> set (st_tracks s). P (tk_id r)}"
  shows "map_of ks i = (if P i then map_option (\<lambda>r. (tk_version r, format_of r)) (find_track s i) else None)"
proof -
  have sv: "map_of ks i = Some x \<longleftrightarrow> (i, x) \<in> set ks" for x
  proof (rule map_of_single)
    fix x y assume "(i, x) \<in> set ks" "(i, y) \<in> set ks"
    then obtain r q where "r \<in> set (st_tracks s)" "q \<in> set (st_tracks s)" "tk_id r = i" "tk_id q = i"
        "x = (tk_version r, format_of r)" "y = (tk_version q, format_of q)" unfolding assms(2) by auto
    moreover from this have "find_track s i = Some r" "find_track s i = Some q" by (simp_all add: find_iff [OF assms(1)])
    ultimately show "x = y" by simp
  qed
  have "(i, x) \<in> set ks \<longleftrightarrow> P i \<and> (\<exists>r. find_track s i = Some r \<and> x = (tk_version r, format_of r))" for x
    unfolding assms(2) find_iff [OF assms(1)] by auto
  hence iff: "map_of ks i = Some x \<longleftrightarrow> P i \<and> (\<exists>r. find_track s i = Some r \<and> x = (tk_version r, format_of r))" for x
    unfolding sv .
  show ?thesis
  proof (cases "P i \<and> find_track s i \<noteq> None")
    case True
    then obtain r where "find_track s i = Some r" by auto
    thus ?thesis using True iff [of "(tk_version r, format_of r)"] by simp
  next
    case False
    have "map_of ks i \<noteq> Some x" for x using False iff [of x] by auto
    hence "map_of ks i = None" by (metis not_Some_eq)
    thus ?thesis using False by auto
  qed
qed

lemma list_render_keys_Inr:
  assumes "tracks_ok s" "list_render_keys s = Inr ks"
  shows "distinct (map fst ks) \<and> map_of ks i = map_option (\<lambda>r. (tk_version r, format_of r)) (find_track s i)"
proof -
  have "list_render_keys s = Inr (map (\<lambda>r. (tk_id r, tk_version r, format_of r)) (sort_key tk_id (st_tracks s)))"
    unfolding list_render_keys_def using render_key_checked [OF assms(1)] by (intro collect_rows_map) simp
  hence ks: "ks = map (\<lambda>r. (tk_id r, tk_version r, format_of r)) (sort_key tk_id (st_tracks s))" using assms(2) by simp
  have "distinct (map tk_id (sort_key tk_id (st_tracks s)))" using assms(1) by (simp add: tracks_ok_def distinct_map)
  hence "distinct (map fst ks)" by (simp add: ks comp_def)
  moreover have "map_of ks i = (if True then map_option (\<lambda>r. (tk_version r, format_of r)) (find_track s i) else None)"
    by (rule keys_find [OF assms(1)]) (simp add: ks)
  ultimately show ?thesis by simp
qed

lemma render_keys_for_Inr:
  assumes "tracks_ok s" "render_keys_for s ids = Inr ks"
  shows "live_keys ks i = (if i \<in> set ids then map_option (\<lambda>r. (tk_version r, format_of r)) (find_track s i) else None)"
proof -
  let ?v = "\<lambda>r. (tk_id r, tk_version r, format_of r)"
  let ?f = "\<lambda>c out. rbind (collect_rows render_key (sort_key tk_id (filter (\<lambda>r. tk_id r \<in> set c) (st_tracks s)))) (\<lambda>ks. Inr (out @ ks))"
  have c: "collect_rows render_key (sort_key tk_id (filter (\<lambda>r. tk_id r \<in> set c) (st_tracks s))) =
      Inr (map ?v (sort_key tk_id (filter (\<lambda>r. tk_id r \<in> set c) (st_tracks s))))" for c
    using render_key_checked [OF assms(1)] by (intro collect_rows_map) simp
  have "query_chunks ?f cs out = Inr ks \<Longrightarrow> set ks = set out \<union> ?v ` {r \<in> set (st_tracks s). tk_id r \<in> set (concat cs)}" for cs out
  proof (induction cs arbitrary: out)
    case (Cons c' cs)
    have "query_chunks ?f cs (out @ map ?v (sort_key tk_id (filter (\<lambda>r. tk_id r \<in> set c') (st_tracks s)))) = Inr ks"
      using Cons.prems by (simp add: c)
    from Cons.IH [OF this] show ?case by auto
  qed simp
  from this [of "key_chunks chunk_cap ids" "[]"] assms(2)
  have "set (rev ks) = ?v ` {r \<in> set (st_tracks s). tk_id r \<in> set ids}"
    by (simp add: render_keys_for_def query_in_chunks_def concat_key_chunks chunk_cap_def)
  thus ?thesis unfolding live_keys_def by (rule keys_find [OF assms(1)])
qed

lemma render_keyed_ids: "fst ` set (render_keyed parts cfg ks g) \<subseteq> fst ` set ks"
  by (induction parts cfg ks g rule: render_keyed.induct) (auto simp del: fun_upd_apply split: option.splits)

lemma render_keyed_spec:
  assumes "distinct (map fst ks)"
  shows "distinct (map fst (render_keyed parts cfg ks g)) \<and> map_of (render_keyed parts cfg ks g) i =
    (case map_of ks i of None \<Rightarrow> None
     | Some (cv, f) \<Rightarrow> map_option (\<lambda>p. \<lparr>rs_version = cv, rs_format = f, rs_path = p\<rparr>) (render_one parts cfg f (entry_of g i)))"
  using assms
proof (induction parts cfg ks g rule: render_keyed.induct)
  case (2 parts cfg j cv f ks g)
  have d: "distinct (map fst ks)" "j \<notin> fst ` set ks" using "2.prems" by auto
  have n: "map_of ks j = None" using d(2) by (simp add: map_of_eq_None_iff)
  define h where "h = g(j := None)"
  have e: "k \<noteq> j \<Longrightarrow> entry_of h k = entry_of g k" for k by (simp add: entry_of_def h_def)
  have sub: "j \<notin> fst ` set (render_keyed parts cfg ks h)" using render_keyed_ids d(2) by blast
  hence n': "map_of (render_keyed parts cfg ks h) j = None" by (simp add: map_of_eq_None_iff)
  show ?case
  proof (cases "render_one parts cfg f (entry_of g j)")
    case None
    thus ?thesis using "2.IH"(1) [OF None d(1), folded h_def] n n' e [of i] by (cases "i = j") (auto simp flip: h_def split: option.splits)
  next
    case (Some p)
    thus ?thesis using "2.IH"(2) [OF Some d(1), folded h_def] sub e [of i] by (cases "i = j") (auto simp flip: h_def split: option.splits)
  qed
qed simp

lemma render_entries_Inr:
  assumes "lowercase_names parts" "tracks_ok s" "render_entries parts cfg s t = Inr (es, snap)"
  shows "distinct (map fst snap) \<and> es = order_entries (map (\<lambda>(i, st). (i, rs_path st)) snap) \<and> map_of snap i = rendered_at parts cfg s t i"
proof -
  obtain ks g where ks: "list_render_keys s = Inr ks" and g: "tags_grouped_for_keys t (referenced_fields parts) = Inr g"
      and snap: "snap = render_keyed parts cfg ks g" and es: "es = order_entries (map (\<lambda>(i, st). (i, rs_path st)) snap)"
    using assms(3) by (cases "list_render_keys s"; cases "tags_grouped_for_keys t (referenced_fields parts)")
      (auto simp: render_entries_def Let_def)
  note k = list_render_keys_Inr [OF assms(2) ks, of i]
  have "map_of snap i = rendered_at parts cfg s t i" "distinct (map fst snap)"
    using k render_keyed_spec [of ks parts cfg g i] render_referenced [OF assms(1) g, of cfg _ i]
    by (auto simp: snap rendered_at_def split: option.splits)
  thus ?thesis using es by blast
qed

end
