(* ===== verification/Path_Text.thy ===== *)
theory Path_Text
  imports Render
begin

text \<open>
  Rendered paths are text: rendering keeps the character boundaries of UTF-8 where the template, the
  fallbacks and the tags do, and every rendered path names a file.
\<close>

text \<open>Continuation bytes only follow a lead byte, at most three of them; a text starts at a boundary.\<close>

fun utf8_runs :: "nat \<Rightarrow> string \<Rightarrow> bool" where
  "utf8_runs r [] = True"
| "utf8_runs r (c # cs) =
     (if cont_char c then r > 0 \<and> utf8_runs (r - 1) cs else if (of_char c :: nat) < 0x80 then utf8_runs 0 cs else utf8_runs 3 cs)"

abbreviation whole_text :: "string \<Rightarrow> bool" where "whole_text \<equiv> utf8_runs 0"

lemma utf8_runs_mono: "utf8_runs r s \<Longrightarrow> r \<le> r' \<Longrightarrow> utf8_runs r' s"
proof (induction s arbitrary: r r')
  case (Cons c cs)
  thus ?case by (auto intro: Cons.IH [of "r - 1" "r' - 1"])
qed simp

lemma utf8_runs_append: "utf8_runs r a \<Longrightarrow> whole_text b \<Longrightarrow> utf8_runs r (a @ b)"
  by (induction a arbitrary: r) (auto intro: utf8_runs_mono)

lemma utf8_runs_short: "utf8_runs r s \<Longrightarrow> r \<le> r' \<Longrightarrow> short_runs r' s"
proof (induction s arbitrary: r r')
  case (Cons c cs)
  have "short_runs 3 cs" if "utf8_runs q cs" "q \<le> 3" for q using Cons.IH [OF that] .
  moreover have "short_runs (r' - 1) cs" if "utf8_runs (r - 1) cs" using Cons.IH [OF that, of "r' - 1"] Cons.prems(2) by simp
  ultimately show ?case using Cons.prems by (auto split: if_splits)
qed simp

lemma whole_text_ok: "whole_text s \<Longrightarrow> text_ok s"
  unfolding text_ok_def using utf8_runs_short [of 0 s 3] by simp

lemma utf8_runs_map:
  "(\<And>c. cont_char (f c) = cont_char c \<and> ((of_char (f c) :: nat) < 0x80 \<longleftrightarrow> (of_char c :: nat) < 0x80)) \<Longrightarrow>
     utf8_runs r (map f s) = utf8_runs r s"
  by (induction s arbitrary: r) auto

lemma whole_sanitize: "whole_text (sanitize v) = whole_text v"
  unfolding sanitize_def by (rule utf8_runs_map) (auto simp: cont_char_def is_control_def)

lemma split_on_whole:
  "utf8_runs r s \<Longrightarrow> (case split_on (CHR ''/'') s of [] \<Rightarrow> False | w # ws \<Rightarrow> utf8_runs r w \<and> list_all whole_text ws)"
proof (induction s arbitrary: r)
  case (Cons c cs)
  have slash: "\<not> cont_char (CHR ''/'')" by (simp add: cont_char_def)
  show ?case
  proof (cases "c = CHR ''/''")
    case True
    hence "utf8_runs 0 cs" using Cons.prems slash by simp
    thus ?thesis using Cons.IH [of 0] True by (auto split: list.splits)
  next
    case False
    have "utf8_runs q cs \<Longrightarrow> \<exists>w ws. split_on (CHR ''/'') cs = w # ws \<and> utf8_runs q w \<and> list_all whole_text ws" for q
      using Cons.IH [of q] by (auto split: list.splits)
    thus ?thesis using Cons.prems False by (auto split: if_splits list.splits)
  qed
qed simp

lemma whole_segments: "whole_text out \<Longrightarrow> list_all whole_text ss \<Longrightarrow> whole_text (sanitize_segments out k ss)"
proof (induction out k ss rule: sanitize_segments.induct)
  case (2 out k s ss)
  have s: "whole_text (sanitize s)" using "2.prems" by (simp add: whole_sanitize)
  hence "whole_text (''/'' @ sanitize s)" by (simp add: cont_char_def)
  from utf8_runs_append [OF "2.prems"(1) this]
  have "whole_text ((if out \<noteq> [] then out @ ''/'' else out) @ sanitize s)" using s by simp
  thus ?case using 2 by simp
qed simp

lemma whole_sanitize_path: "whole_text v \<Longrightarrow> whole_text (sanitize_path v)"
  using split_on_whole [of 0 v] unfolding sanitize_path_def
  by (intro whole_segments) (auto split: list.splits)

definition whole_fields :: "fields \<Rightarrow> bool" where
  "whole_fields fs \<longleftrightarrow> (\<forall>n v. fs n = Some v \<longrightarrow> whole_text v)"

lemma whole_resolve_plain:
  "whole_fields fs \<Longrightarrow> whole_fields fb \<Longrightarrow> resolve_plain ns fs fb = Some v \<Longrightarrow> whole_text v"
  by (induction ns) (auto simp: whole_fields_def nonempty_def split: option.splits if_splits)

lemma whole_resolve_path:
  assumes "whole_fields fs" "whole_fields fb"
  shows "resolve_path ns fs fb = Some v \<Longrightarrow> whole_text v"
proof (induction ns)
  case (Cons n ns)
  thus ?case using assms whole_sanitize_path
    by (auto simp: whole_fields_def Let_def split: option.splits if_splits)
qed simp

fun whole_part :: "part \<Rightarrow> bool" and whole_parts :: "part list \<Rightarrow> bool" where
  "whole_part (Literal l) = whole_text l"
| "whole_part (Field ns raw) = True"
| "whole_part (Section inner) = whole_parts inner"
| "whole_parts [] = True"
| "whole_parts (p # ps) = (whole_part p \<and> whole_parts ps)"

lemma whole_render:
  shows "whole_part p \<Longrightarrow> whole_fields fs \<Longrightarrow> whole_fields fb \<Longrightarrow> whole_text d \<Longrightarrow> whole_text (fst (render_part fs fb d sec p))"
    and "whole_parts ps \<Longrightarrow> whole_fields fs \<Longrightarrow> whole_fields fb \<Longrightarrow> whole_text d \<Longrightarrow> whole_text (fst (render_parts fs fb d sec ps))"
proof (induction fs fb d sec p and fs fb d sec ps rule: render_part_render_parts.induct)
  case (2 fs fb d sec ns raw)
  have p: "resolve_path ns fs fb = Some v \<Longrightarrow> whole_text v" for v using whole_resolve_path 2 by blast
  have q: "resolve_plain ns fs fb = Some v \<Longrightarrow> whole_text v" for v using whole_resolve_plain 2 by blast
  show ?case using 2 p q by (auto simp: whole_sanitize split: option.splits)
next
  case (3 fs fb d sec inner)
  thus ?case by (auto split: prod.splits)
next
  case (5 fs fb d sec p ps)
  thus ?case by (auto split: prod.splits intro: utf8_runs_append)
qed simp_all

definition whole_config :: "part list \<Rightarrow> mount_config \<Rightarrow> bool" where
  "whole_config parts cfg \<longleftrightarrow> lowercase_names parts \<and> whole_parts parts \<and> whole_fields (mc_fallbacks cfg) \<and> whole_text (mc_default_fallback cfg)"

definition text_store :: "store \<Rightarrow> bool" where
  "text_store s \<longleftrightarrow> list_all (\<lambda>r. whole_text (tg_value r)) (st_tags s)"

lemma text_store_fields: "text_store s \<Longrightarrow> whole_fields (tags_to_fields (text_tags s i))"
  by (auto simp: whole_fields_def tags_to_fields_def text_tags_def text_store_def list_all_iff to_db_tag_def dest!: map_of_SomeD)

lemma whole_format: "whole_text (''.'' @ format_str f)"
  by (cases f) (simp_all add: cont_char_def)

text \<open>The last component of a rendered path ends in the extension, so it is never dropped.\<close>

lemma split_slash_plain: "CHR ''/'' \<notin> set b \<Longrightarrow> split_slash b = [b]"
  by (induction b) auto

lemma split_slash_last: "CHR ''/'' \<notin> set b \<Longrightarrow> \<exists>w ws. split_slash (a @ b) = ws @ [w @ b]"
proof (induction a)
  case Nil
  thus ?case using split_slash_plain by (intro exI [of _ "[]"]) simp
next
  case (Cons c a)
  then obtain w ws where w: "split_slash (a @ b) = ws @ [w @ b]" by blast
  show ?case
  proof (cases "c = CHR ''/''")
    case True
    thus ?thesis using w by (intro exI [of _ w] exI [of _ "[] # ws"]) simp
  next
    case False
    show ?thesis
    proof (cases ws)
      case Nil
      thus ?thesis using w False by (intro exI [of _ "c # w"] exI [of _ "[]"]) simp
    next
      case (Cons x xs)
      thus ?thesis using w False by (intro exI [of _ w] exI [of _ "(c # x) # xs"]) simp
    qed
  qed
qed

lemma rendered_components: "path_components (a @ ''.'' @ format_str f) \<noteq> []"
proof -
  have "CHR ''/'' \<notin> set (''.'' @ format_str f)" by (cases f) simp_all
  then obtain w ws where w: "split_slash (a @ ''.'' @ format_str f) = ws @ [w @ ''.'' @ format_str f]"
    using split_slash_last by blast
  have "2 < length (w @ ''.'' @ format_str f)" by (cases f) simp_all
  moreover have "x \<noteq> [] \<and> x \<noteq> ''.'' \<and> x \<noteq> ''..''" if "2 < length x" for x :: string using that by auto
  ultimately have "w @ ''.'' @ format_str f \<noteq> [] \<and> w @ ''.'' @ format_str f \<noteq> ''.'' \<and> w @ ''.'' @ format_str f \<noteq> ''..''" by blast
  thus ?thesis unfolding path_components_def w filter_append by simp
qed

lemma render_one_path:
  assumes "whole_config parts cfg" "whole_fields (tags_to_fields tags)" "render_one parts cfg f tags = Some p"
  shows "text_ok p \<and> path_components p \<noteq> []"
proof -
  obtain d where d: "whole_text d" "p = fst (render_parts (tags_to_fields tags) (mc_fallbacks cfg) d False parts) @ ''.'' @ format_str f"
  proof (cases "mc_skip_on_missing cfg")
    case True
    hence "p = fst (render_parts (tags_to_fields tags) (mc_fallbacks cfg) [] False parts) @ ''.'' @ format_str f"
      using assms(3) by (auto simp: render_one_def Let_def template_render_checked_def split: if_splits prod.splits)
    thus ?thesis using that [of "[]"] by simp
  next
    case False
    thus ?thesis using that [of "mc_default_fallback cfg"] assms(1,3)
      by (simp add: render_one_def whole_config_def Let_def template_render_def)
  qed
  have "whole_text (fst (render_parts (tags_to_fields tags) (mc_fallbacks cfg) d False parts))"
    using assms(1,2) d(1) by (intro whole_render(2)) (simp_all add: whole_config_def)
  hence "whole_text p" unfolding d(2) by (rule utf8_runs_append) (rule whole_format)
  thus ?thesis using whole_text_ok rendered_components d(2) by blast
qed

lemma rendered_path:
  assumes "whole_config parts cfg" "text_store t" "rendered_at parts cfg s t i = Some st"
  shows "text_ok (rs_path st) \<and> path_components (rs_path st) \<noteq> []"
  using assms(3) render_one_path [OF assms(1) text_store_fields [OF assms(2)]]
  by (auto simp: rendered_at_def split: option.splits)

end
