(* ===== verification/Change_Feed.thy ===== *)
theory Change_Feed
  imports Path_Text
begin

text \<open>
  The contract between the store and a mount that follows it: a changelog that names every track
  whose row or tags changed since a watermark, or says that it no longer reaches back, and a stamp of
  each row that changes whenever what the row renders to may have. The mount's snapshot is in sync
  with the store when the changelog and the stamps account for every difference; what keeps it so is
  proved once from the contract, and the contract is shown for the store.
\<close>

locale change_feed =
  fixes run :: "int set \<Rightarrow> 's \<Rightarrow> int set \<Rightarrow> 's \<Rightarrow> bool"
    and ok :: "int set \<Rightarrow> 's \<Rightarrow> bool"
    and seq :: "'s \<Rightarrow> int"
    and lost :: "'s \<Rightarrow> int \<Rightarrow> bool"
    and since :: "'s \<Rightarrow> int \<Rightarrow> int set"
    and key :: "'s \<Rightarrow> int \<Rightarrow> 'k option"
    and ver :: "'k \<Rightarrow> int"
    and want :: "'s \<Rightarrow> 's \<Rightarrow> int \<Rightarrow> 'v option"
    and stamp :: "'v \<Rightarrow> 'k"
  assumes run_trans: "run U s V t \<Longrightarrow> run V t W u \<Longrightarrow> run U s W u"
    and run_ok: "run U s V t \<Longrightarrow> ok U s \<Longrightarrow> ok V t \<and> U \<subseteq> V \<and> seq s \<le> seq t"
    and ok_seen: "ok U s \<Longrightarrow> key s i \<noteq> None \<Longrightarrow> i \<in> U"
    and ok_seq: "ok U s \<Longrightarrow> 0 \<le> seq s"
    and caught_up: "ok U s \<Longrightarrow> \<not> lost s (seq s) \<and> since s (seq s) = {}"
    and quiet: "\<lbrakk>run U s V t; ok U s; 0 \<le> l; l \<le> seq s; \<not> lost t l\<rbrakk> \<Longrightarrow>
        \<not> lost s l \<and> (\<forall>i. i \<notin> since t l \<longrightarrow> i \<notin> since s l \<and> key t i = key s i \<and> want t t i = want s s i)"
    and stamps: "\<lbrakk>run U s V t; ok U s; i \<in> U; key t i = Some k'\<rbrakk> \<Longrightarrow>
        \<exists>k. key s i = Some k \<and> ver k \<le> ver k' \<and> (ver k = ver k' \<longrightarrow> k' = k \<and> want t t i = want s s i)"
    and want_key: "key s i = key s' i \<Longrightarrow> want s t i = want s' t i"
    and want_stamp: "want s t i = Some v \<Longrightarrow> key s i = Some (stamp v)"
begin

definition in_sync :: "int set \<Rightarrow> int \<Rightarrow> 's \<Rightarrow> (int \<Rightarrow> 'v option) \<Rightarrow> bool" where
  "in_sync U l s snap \<longleftrightarrow> 0 \<le> l \<and> l \<le> seq s \<and> dom snap \<subseteq> U \<and>
     (lost s l \<or> (\<forall>i. i \<notin> since s l \<longrightarrow> snap i = want s s i)) \<and>
     (\<forall>i v k. snap i = Some v \<longrightarrow> key s i = Some k \<longrightarrow>
        ver (stamp v) \<le> ver k \<and> (k = stamp v \<longrightarrow> want s s i = Some v))"

lemma want_None: "key s i = None \<Longrightarrow> want s t i = None"
  using want_stamp [of s t i] by (cases "want s t i") auto

text \<open>The store moves on.\<close>

lemma sync_drift:
  assumes "in_sync U l s snap" "run U s V t" "ok U s"
  shows "in_sync V l t snap"
proof -
  have l: "0 \<le> l" "l \<le> seq s" "dom snap \<subseteq> U" using assms(1) by (simp_all add: in_sync_def)
  have r: "U \<subseteq> V" "seq s \<le> seq t" using run_ok [OF assms(2,3)] by simp_all
  have "lost t l \<or> (\<forall>i. i \<notin> since t l \<longrightarrow> snap i = want t t i)"
  proof (cases "lost t l")
    case False
    from quiet [OF assms(2,3) l(1,2) this] assms(1) show ?thesis unfolding in_sync_def by metis
  qed simp
  moreover have "ver (stamp v) \<le> ver k' \<and> (k' = stamp v \<longrightarrow> want t t i = Some v)" if sv: "snap i = Some v" and kt: "key t i = Some k'" for i v k'
  proof -
    have "i \<in> U" using sv l(3) by auto
    then obtain k where k: "key s i = Some k" "ver k \<le> ver k'" "ver k = ver k' \<longrightarrow> k' = k \<and> want t t i = want s s i"
      using stamps [OF assms(2,3) _ kt] by blast
    have "ver (stamp v) \<le> ver k" "k = stamp v \<longrightarrow> want s s i = Some v" using assms(1) sv k(1) by (auto simp: in_sync_def)
    thus ?thesis using k(2,3) by fastforce
  qed
  ultimately show ?thesis using l r by (auto simp: in_sync_def)
qed

text \<open>What is read of a later row under the changes of an earlier log.\<close>

lemma later_quiet:
  assumes "run U s V t" "ok U s" "0 \<le> l" "l \<le> seq s" "\<not> lost t l" "i \<notin> since t l"
  shows "key t i = key s i" "want s t i = want t t i"
proof -
  show k: "key t i = key s i" using quiet [OF assms(1-5)] assms(6) by blast
  show "want s t i = want t t i" by (rule want_key) (simp add: k)
qed

lemma later_stamp:
  assumes "run U s V t" "ok U s" "want s t i = Some v" "key t i = Some k"
  shows "ver (stamp v) \<le> ver k \<and> (k = stamp v \<longrightarrow> want t t i = Some v)"
proof -
  have ks: "key s i = Some (stamp v)" by (rule want_stamp [OF assms(3)])
  have "i \<in> U" using ok_seen [OF assms(2)] ks by simp
  hence "ver (stamp v) \<le> ver k" using stamps [OF assms(1,2) _ assms(4)] ks by auto
  moreover have "want t t i = Some v" if "k = stamp v"
    using want_key [of t i s t] assms(3,4) ks that by simp
  ultimately show ?thesis by blast
qed

text \<open>A full build: rows read after the watermark, tags after the rows.\<close>

lemma sync_full:
  assumes runs: "run U s V t" "run V t W u" and s: "ok U s" and snap: "\<And>i. snap i = want t u i"
  shows "in_sync W (seq s) u snap"
proof -
  have t: "ok V t" "seq s \<le> seq t" and u: "seq t \<le> seq u" "V \<subseteq> W"
    using run_ok [OF runs(1) s] run_ok [OF runs(2)] by blast+
  have "dom snap \<subseteq> W" using snap want_stamp ok_seen [OF t(1)] u(2) by fastforce
  moreover have "lost u (seq s) \<or> (\<forall>i. i \<notin> since u (seq s) \<longrightarrow> snap i = want u u i)"
    using later_quiet(2) [OF runs(2) t(1) ok_seq [OF s] t(2)] snap by auto
  ultimately show ?thesis
    using later_stamp [OF runs(2) t(1)] snap t(2) u(1) ok_seq [OF s] by (auto simp: in_sync_def)
qed

text \<open>An incremental refresh of the tracks the log names.\<close>

definition refreshed :: "(int \<Rightarrow> 'v option) \<Rightarrow> int set \<Rightarrow> 's \<Rightarrow> 's \<Rightarrow> int \<Rightarrow> 'v option" where
  "refreshed snap ids t u i =
     (if i \<notin> ids then snap i
      else case key t i of
          None \<Rightarrow> None
        | Some k \<Rightarrow> (case snap i of Some v \<Rightarrow> if stamp v = k then Some v else want t u i | None \<Rightarrow> want t u i))"

lemma refreshed_cases: "refreshed snap ids t u i = snap i \<or> refreshed snap ids t u i = want t u i"
  using want_None [of t i u] by (auto simp: refreshed_def split: option.splits)

lemma sync_incremental:
  assumes runs: "run U s V t" "run V t W u" and s: "ok U s" and sync: "in_sync U l s snap" and nl: "\<not> lost s l"
  shows "in_sync W (seq s) u (refreshed snap (since s l) t u)"
proof -
  let ?snap = "refreshed snap (since s l) t u"
  have t: "ok V t" "seq s \<le> seq t" "U \<subseteq> V" and u: "seq t \<le> seq u" "V \<subseteq> W"
    using run_ok [OF runs(1) s] run_ok [OF runs(2)] by blast+
  have run: "run U s W u" by (rule run_trans [OF runs])
  have drift: "in_sync W l u snap" by (rule sync_drift [OF sync run s])
  have dom: "dom ?snap \<subseteq> W"
  proof
    fix i assume i: "i \<in> dom ?snap"
    show "i \<in> W"
    proof (cases "snap i")
      case (Some v)
      thus ?thesis using drift by (auto simp: in_sync_def)
    next
      case None
      obtain y where "?snap i = Some y" using i by blast
      hence "want t u i = Some y" using refreshed_cases [of snap "since s l" t u i] None by simp
      hence "key t i \<noteq> None" using want_None [of t i u] by auto
      thus ?thesis using ok_seen [OF t(1)] u(2) by blast
    qed
  qed
  have "?snap i = want u u i" if nlu: "\<not> lost u (seq s)" and i: "i \<notin> since u (seq s)" for i
  proof -
    have q: "key t i = key u i" "want t u i = want u u i"
      using later_quiet [OF runs(2) t(1) ok_seq [OF s] t(2) nlu i] by simp_all
    have qs: "key u i = key s i" "want u u i = want s s i"
      using quiet [OF run s ok_seq [OF s] order_refl nlu] i by blast+
    show ?thesis
    proof (cases "i \<in> since s l")
      case False
      hence "snap i = want s s i" using sync nl unfolding in_sync_def by blast
      thus ?thesis using False qs(2) by (simp add: refreshed_def)
    next
      case True
      show ?thesis
      proof (cases "key t i")
        case None
        thus ?thesis using q want_None [of u i u] by (simp add: refreshed_def True)
      next
        case (Some k)
        have "want s s i = Some v" if "snap i = Some v" "stamp v = k" for v
          using sync that Some q qs unfolding in_sync_def by metis
        thus ?thesis using Some True q qs by (auto simp: refreshed_def split: option.splits)
      qed
    qed
  qed
  moreover have "ver (stamp v) \<le> ver k \<and> (k = stamp v \<longrightarrow> want u u i = Some v)" if "?snap i = Some v" "key u i = Some k" for i v k
    using refreshed_cases [of snap "since s l" t u i] that drift later_stamp [OF runs(2) t(1), of i v k]
    unfolding in_sync_def by metis
  ultimately show ?thesis using dom ok_seq [OF s] t(2) u(1) by (auto simp: in_sync_def)
qed

text \<open>Caught up with the store, the snapshot is what the store renders to.\<close>

lemma sync_exact: "in_sync U (seq s) s snap \<Longrightarrow> ok V s \<Longrightarrow> snap i = want s s i"
  using caught_up [of V s] unfolding in_sync_def by blast

end

subsection \<open>The store keeps the contract\<close>

definition feed_ok :: "int set \<Rightarrow> store \<Rightarrow> bool" where
  "feed_ok U s \<longleftrightarrow> store_ok s \<and> ids_of s \<subseteq> U"

definition feed_lost :: "store \<Rightarrow> int \<Rightarrow> bool" where
  "feed_lost s l \<longleftrightarrow> changelog_gap (changelog_since s l) l"

definition feed_since :: "store \<Rightarrow> int \<Rightarrow> int set" where
  "feed_since s l = set (cr_ids (changelog_since s l))"

definition row_key :: "store \<Rightarrow> int \<Rightarrow> (int \<times> audio_format) option" where
  "row_key s i = map_option (\<lambda>r. (tk_version r, format_of r)) (find_track s i)"

definition state_key :: "track_render_state \<Rightarrow> int \<times> audio_format" where
  "state_key st = (rs_version st, rs_format st)"

lemma rendered_at_key:
  "rendered_at parts cfg s t i = (case row_key s i of None \<Rightarrow> None
     | Some (cv, f) \<Rightarrow> map_option (\<lambda>p. \<lparr>rs_version = cv, rs_format = f, rs_path = p\<rparr>) (render_one parts cfg f (text_tags t i)))"
  by (simp add: rendered_at_def row_key_def split: option.splits)

lemma feed_quiet:
  assumes "fresh_run U s V t" "feed_ok U s" "0 \<le> l" "l \<le> st_seq s" "\<not> feed_lost t l"
  shows "\<not> feed_lost s l \<and> (\<forall>i. i \<notin> feed_since t l \<longrightarrow> i \<notin> feed_since s l \<and> row_key t i = row_key s i \<and>
    rendered_at parts cfg t t i = rendered_at parts cfg s s i)"
proof -
  have steps: "row_steps s t" by (rule fresh_run_steps [OF assms(1)])
  have s: "store_ok s" "store_ok t" using assms(2) steps_store_ok [OF steps] by (simp_all add: feed_ok_def)
  hence r: "ring_ok s" "ring_ok t" by (simp_all add: store_ok_def)
  obtain ids where ids: "advances s ids t" "\<forall>i. i \<notin> set ids \<longrightarrow> find_track t i = find_track s i \<and> served t i = served s i"
    using steps_log [OF steps s(1)] by blast
  have g: "st_seq t - ring_cap \<le> l" "st_seq t = 0 \<longrightarrow> l = 0"
    using no_gap_iff [OF r(2) assms(3)] assms(5) by (auto simp: feed_lost_def)
  have "\<not> feed_lost s l"
    using no_gap_iff [OF r(1) assms(3)] g advances_seq [OF ids(1)] assms(3,4) by (auto simp: feed_lost_def)
  moreover have "feed_since t l = feed_since s l \<union> set ids"
    unfolding feed_since_def by (rule logged_since [OF r(1) ids(1) g(1) assms(4)])
  moreover have "row_key t i = row_key s i \<and> rendered_at parts cfg t t i = rendered_at parts cfg s s i" if "i \<notin> set ids" for i
    using ids(2) that text_tags_served [of t i s] by (simp add: row_key_def rendered_at_def split: option.splits)
  ultimately show ?thesis by blast
qed

lemma feed_stamps:
  assumes "fresh_run U s V t" "feed_ok U s" "i \<in> U" "row_key t i = Some k'"
  shows "\<exists>k. row_key s i = Some k \<and> fst k \<le> fst k' \<and>
    (fst k = fst k' \<longrightarrow> k' = k \<and> rendered_at parts cfg t t i = rendered_at parts cfg s s i)"
proof -
  obtain r' where r': "find_track t i = Some r'" "k' = (tk_version r', format_of r')" using assms(4) by (auto simp: row_key_def)
  hence "i \<in> ids_of s" using fresh_run_gone [OF assms(1,3)] ids_find [of i t] by auto
  then obtain r where r: "find_track s i = Some r" by (auto simp: ids_find)
  have v: "tk_version r \<le> tk_version r'" "tk_version r = tk_version r' \<longrightarrow> served t i = served s i"
    using fresh_run_version [OF assms(1) _ _ r r'(1)] assms(2) by (auto simp: feed_ok_def)
  have "format_of r' = format_of r \<and> text_tags t i = text_tags s i" if "served t i = served s i"
    using that r r'(1) text_tags_served [OF that] by (simp add: served_def format_of_def)
  thus ?thesis using r r' v by (auto simp: row_key_def rendered_at_def)
qed

interpretation feed: change_feed fresh_run feed_ok st_seq feed_lost feed_since row_key fst "rendered_at parts cfg" state_key
  for parts cfg
proof unfold_locales
  fix U s V t W u assume "fresh_run U s V t" "fresh_run V t W u"
  thus "fresh_run U s W u" by (blast intro: fresh_run_trans)
next
  fix U s V t assume r: "fresh_run U s V t" "feed_ok U s"
  have "advances s ids t \<Longrightarrow> st_seq s \<le> st_seq t" for ids by (simp add: advances_seq)
  hence "st_seq s \<le> st_seq t" using steps_log [OF fresh_run_steps [OF r(1)]] r(2) by (auto simp: feed_ok_def)
  thus "feed_ok V t \<and> U \<subseteq> V \<and> st_seq s \<le> st_seq t"
    using fresh_run_seen [OF r(1)] steps_store_ok [OF fresh_run_steps [OF r(1)]] r(2) by (auto simp: feed_ok_def)
next
  fix U s i assume "feed_ok U s" "row_key s i \<noteq> None"
  thus "i \<in> U" using ids_find [of i s] by (auto simp: feed_ok_def row_key_def)
next
  fix U s assume "feed_ok U s"
  hence r: "ring_ok s" by (simp add: feed_ok_def store_ok_def)
  thus p: "0 \<le> st_seq s" by (simp add: ring_ok_def)
  show "\<not> feed_lost s (st_seq s) \<and> feed_since s (st_seq s) = {}"
    using no_gap_iff [OF r p] changelog_at_seq [OF r] by (simp add: feed_lost_def feed_since_def ring_cap_def)
next
  fix s s' t i assume "row_key s i = row_key s' i"
  thus "rendered_at parts cfg s t i = rendered_at parts cfg s' t i" by (simp add: rendered_at_key)
next
  fix s t i v assume "rendered_at parts cfg s t i = Some v"
  thus "row_key s i = Some (state_key v)" by (auto simp: rendered_at_def row_key_def state_key_def split: option.splits)
qed (rule feed_quiet feed_stamps; assumption)+

end
