(* ===== verification/Refresh.thy ===== *)
theory Refresh
  imports Change_Feed Tree_Props
begin

text \<open>
  The refresh of a mount, musefs-core/src/facade/refresh.rs with the opening of a mount from
  facade.rs: the debounce and back-off gates, the full and the incremental rebuild, the fallback over a
  changelog gap and the self-heal after a poisoned lock, and the inodes whose kernel caches are
  dropped. Each read of the store is an argument, in the order the code reads: the store may have
  moved on between two reads, and a read may fail; so is each read of the store's data_version. The single-flight flag and the locks are fields the
  steps test; their hooks for tests, warnings and metrics are left out. A panic is None.
\<close>

subsection \<open>State\<close>

record mount_env =
  me_parts :: "part list"
  me_cfg :: mount_config
  me_lower :: folding
  me_hash_order :: "nat list \<Rightarrow> nat list"
  me_poll_interval :: nat
  me_backoff :: nat

record mount_state =
  ms_tree :: vtree
  ms_alloc :: inode_allocator
  ms_snapshot :: render_states
  ms_last_seq :: int
  ms_data_version :: int
  ms_needs_rebuild :: bool
  ms_refreshing :: bool
  ms_generation :: nat
  ms_gap_fallbacks :: nat
  ms_last_poll :: nat
  ms_last_failed :: "nat option"
  ms_cache :: "int list"
  ms_sizes :: "int list"

type_synonym store_reads = "nat \<Rightarrow> store cresult"

record incremental_outcome =
  io_change :: change_set
  io_displaced :: render_states
  io_new :: render_states
  io_any_logged :: bool
  io_new_seq :: int

definition retry_backoff_for :: "nat \<Rightarrow> nat" where
  "retry_backoff_for interval = (if interval = 0 then 0 else max (min interval 1000000000) 100000000)"

subsection \<open>Rebuilding\<close>

definition snapshot_entries :: "render_states \<Rightarrow> (int \<times> string) list" where
  "snapshot_entries snap = order_entries (map (\<lambda>(i, st). (i, rs_path st)) snap)"

text \<open>Reads the rows from the first store and the tags from the second, then builds and publishes.\<close>

definition rebuild_full ::
  "mount_env \<Rightarrow> store cresult \<Rightarrow> store cresult \<Rightarrow> mount_state \<Rightarrow> (render_states cresult \<times> mount_state) option" where
  "rebuild_full env rows tags m =
     (case rbind rows (\<lambda>s. rbind tags (\<lambda>t. render_entries (me_parts env) (me_cfg env) s t)) of
        Inl e \<Rightarrow> Some (Inl e, m)
      | Inr (entries, snapshot) \<Rightarrow>
          map_option (\<lambda>(tree, a). (Inr snapshot, m\<lparr>ms_tree := tree, ms_alloc := prune_retired a tree\<rparr>))
            (build_with_ci (me_lower env) entries (ms_alloc m) (mc_case_insensitive (me_cfg env))))"

definition key_list :: "render_keys \<Rightarrow> int list \<Rightarrow> render_keys" where
  "key_list keys ids = map (\<lambda>i. (i, the (live_keys keys i))) ids"

definition render_changed ::
  "mount_env \<Rightarrow> render_keys \<Rightarrow> int list \<Rightarrow> store cresult \<Rightarrow> render_states cresult" where
  "render_changed env keys to_render tags =
     (if to_render = [] then Inr []
      else rbind tags (\<lambda>t. rbind (map_err DbErr (tags_for_tracks t to_render)) (\<lambda>g.
           Inr (render_keyed (me_parts env) (me_cfg env) (key_list keys to_render) g))))"

definition has_state :: "render_states \<Rightarrow> int \<Rightarrow> bool" where
  "has_state sts i \<longleftrightarrow> i \<in> fst ` set sts"

text \<open>A track the template dropped was either materialized, and is removed, or never was.\<close>

definition reconcile :: "change_set \<Rightarrow> render_states \<Rightarrow> change_set" where
  "reconcile change new =
     \<lparr>cs_changed = filter (has_state new) (cs_changed change),
      cs_added = filter (has_state new) (cs_added change),
      cs_removed = cs_removed change @ filter (\<lambda>i. \<not> has_state new i) (cs_changed change)\<rparr>"

definition updated_snapshot :: "render_states \<Rightarrow> int list \<Rightarrow> render_states \<Rightarrow> render_states" where
  "updated_snapshot snap removed new =
     new @ filter (\<lambda>(i, st). i \<notin> set removed \<and> \<not> has_state new i) snap"

definition displaced_states :: "render_states \<Rightarrow> int list \<Rightarrow> render_states \<Rightarrow> render_states" where
  "displaced_states snap removed new = filter (\<lambda>(i, st). i \<in> set removed \<or> has_state new i) snap"

definition rebuild_incremental ::
  "mount_env \<Rightarrow> store cresult \<Rightarrow> store cresult \<Rightarrow> store cresult \<Rightarrow> mount_state \<Rightarrow>
     (incremental_outcome option cresult \<times> mount_state) option" where
  "rebuild_incremental env log_read key_read tag_read m =
     (let last_seq = ms_last_seq m; snap = ms_snapshot m in
      case rbind log_read (\<lambda>s. Inr (changelog_since s last_seq)) of
        Inl e \<Rightarrow> Some (Inl e, m)
      | Inr log \<Rightarrow>
      case rbind key_read (\<lambda>s. map_err DbErr (render_keys_for s (cr_ids log))) of
        Inl e \<Rightarrow> Some (Inl e, m)
      | Inr keys \<Rightarrow>
      if changelog_gap log last_seq then Some (Inr None, m) else
      let prev = filter (\<lambda>(i, st). i \<in> set (cr_ids log)) snap;
          change = partition_changelog prev (cr_ids log) keys;
          to_render = cs_changed change @ cs_added change in
      if list_ex (\<lambda>i. live_keys keys i = None) to_render then None else
      case render_changed env keys to_render tag_read of
        Inl e \<Rightarrow> Some (Inl e, m)
      | Inr new \<Rightarrow>
      let change = reconcile change new;
          snap' = updated_snapshot snap (cs_removed change) new;
          out = \<lparr>io_change = change, io_displaced = displaced_states snap (cs_removed change) new, io_new = new,
                 io_any_logged = (cr_ids log \<noteq> []), io_new_seq = max (cr_max log) last_seq\<rparr>;
          publish = (\<lambda>(tree, a). (Inr (Some out), m\<lparr>ms_tree := tree, ms_alloc := prune_retired a tree, ms_snapshot := snap'\<rparr>)) in
      case apply_changes (me_lower env) (me_hash_order env) (ms_tree m) snap' (cs_changed change) (cs_added change)
             (cs_removed change) (ms_alloc m) of
        None \<Rightarrow> None
      | Some (Inr (tree, n), a) \<Rightarrow> Some (publish (tree, a))
      | Some (Inl e, a) \<Rightarrow>
          map_option publish (build_with_ci (me_lower env) (snapshot_entries snap') a (mc_case_insensitive (me_cfg env))))"

subsection \<open>Notifications\<close>

definition when_some :: "nat option \<Rightarrow> nat list" where
  "when_some v = (case v of Some i \<Rightarrow> [i] | None \<Rightarrow> [])"

definition notify_changed :: "render_states \<Rightarrow> render_states \<Rightarrow> vtree \<Rightarrow> vtree \<Rightarrow> nat list" where
  "notify_changed old new old_tree new_tree =
     concat (map (\<lambda>(i, ns). case map_of old i of
         Some os \<Rightarrow> if rs_version os \<noteq> rs_version ns \<and> rs_path os = rs_path ns then when_some (inode_of_track new_tree i) else []
       | None \<Rightarrow> []) new) @
     concat (map (\<lambda>(i, os). case map_of new i of
         None \<Rightarrow> when_some (inode_of_track old_tree i)
       | Some ns \<Rightarrow> if rs_path ns \<noteq> rs_path os then when_some (inode_of_track old_tree i) else []) old)"

definition notify_changed_delta ::
  "change_set \<Rightarrow> render_states \<Rightarrow> render_states \<Rightarrow> vtree \<Rightarrow> vtree \<Rightarrow> nat list" where
  "notify_changed_delta change displaced new old_tree new_tree =
     concat (map (\<lambda>i. case (map_of displaced i, map_of new i) of
         (Some os, Some ns) \<Rightarrow>
           (if rs_version os \<noteq> rs_version ns \<and> rs_path os = rs_path ns then when_some (inode_of_track new_tree i) else []) @
           (if rs_path ns \<noteq> rs_path os then when_some (inode_of_track old_tree i) else [])
       | _ \<Rightarrow> []) (cs_changed change)) @
     concat (map (\<lambda>i. if map_of displaced i \<noteq> None then when_some (inode_of_track old_tree i) else []) (cs_removed change))"

subsection \<open>The gates\<close>

definition stamp_successful_poll :: "mount_env \<Rightarrow> nat \<Rightarrow> mount_state \<Rightarrow> mount_state" where
  "stamp_successful_poll env now m =
     m\<lparr>ms_last_poll := (if me_poll_interval env \<noteq> 0 then now else ms_last_poll m), ms_last_failed := None\<rparr>"

definition poll_debounced :: "mount_env \<Rightarrow> nat \<Rightarrow> mount_state \<Rightarrow> bool" where
  "poll_debounced env now m \<longleftrightarrow>
     me_poll_interval env \<noteq> 0 \<and> now - ms_last_poll m < me_poll_interval env \<or>
     (case ms_last_failed m of Some f \<Rightarrow> now - f < me_backoff env | None \<Rightarrow> False)"

definition poll_due :: "mount_env \<Rightarrow> nat \<Rightarrow> mount_state \<Rightarrow> bool" where
  "poll_due env now m \<longleftrightarrow> ms_needs_rebuild m \<or> \<not> poll_debounced env now m"

subsection \<open>Polling\<close>

definition max_seq_of :: "store cresult \<Rightarrow> int cresult" where
  "max_seq_of r = rbind r (\<lambda>s. Inr (cr_max (changelog_since s i64_max)))"

text \<open>What a full rebuild publishes beside the tree.\<close>

definition finish_full ::
  "mount_env \<Rightarrow> nat \<Rightarrow> int \<Rightarrow> int \<Rightarrow> render_states \<Rightarrow> mount_state \<Rightarrow> mount_state" where
  "finish_full env now version new_seq snapshot m =
     (let live = map fst (track_to_inode (ms_tree m)) in
      stamp_successful_poll env now
        (m\<lparr>ms_cache := filter (\<lambda>i. i \<in> set live) (ms_cache m), ms_sizes := filter (\<lambda>i. i \<in> set live) (ms_sizes m),
           ms_snapshot := snapshot, ms_last_seq := new_seq, ms_data_version := version,
           ms_generation := ms_generation m + 1\<rparr>))"

definition force_full_rebuild ::
  "mount_env \<Rightarrow> nat \<Rightarrow> int cresult \<Rightarrow> store_reads \<Rightarrow> mount_state \<Rightarrow> (bool cresult \<times> nat list \<times> mount_state) option" where
  "force_full_rebuild env now version reads m =
     (case rbind version (\<lambda>v. rbind (max_seq_of (reads 0)) (\<lambda>q. Inr (v, q))) of
        Inl e \<Rightarrow> Some (Inl e, [], m)
      | Inr (v, q) \<Rightarrow>
          Option.bind (rebuild_full env (reads 1) (reads 2) (m\<lparr>ms_needs_rebuild := False\<rparr>)) (\<lambda>(r, m').
          case r of
            Inl e \<Rightarrow> Some (Inl e, [], m'\<lparr>ms_needs_rebuild := ms_needs_rebuild m\<rparr>)
          | Inr snapshot \<Rightarrow>
              Some (Inr True, notify_changed (ms_snapshot m) snapshot (ms_tree m) (ms_tree m'),
                    finish_full env now v q snapshot m')))"

definition failed_now :: "nat \<Rightarrow> mount_state \<Rightarrow> mount_state" where
  "failed_now now m = m\<lparr>ms_last_failed := Some now\<rparr>"

definition finish_incremental ::
  "mount_env \<Rightarrow> nat \<Rightarrow> int \<Rightarrow> incremental_outcome \<Rightarrow> mount_state \<Rightarrow> mount_state" where
  "finish_incremental env now version out m =
     (let gone = set (cs_removed (io_change out)) in
      stamp_successful_poll env now
        (m\<lparr>ms_cache := filter (\<lambda>i. i \<notin> gone) (ms_cache m), ms_sizes := filter (\<lambda>i. i \<notin> gone) (ms_sizes m),
           ms_last_seq := io_new_seq out, ms_data_version := version,
           ms_generation := ms_generation m + (if io_any_logged out then 1 else 0)\<rparr>))"

definition gap_rebuild ::
  "mount_env \<Rightarrow> nat \<Rightarrow> int \<Rightarrow> store_reads \<Rightarrow> mount_state \<Rightarrow> (bool cresult \<times> nat list \<times> mount_state) option" where
  "gap_rebuild env now v reads m =
     (let m = m\<lparr>ms_gap_fallbacks := ms_gap_fallbacks m + 1\<rparr> in
      case max_seq_of (reads 2) of
        Inl e \<Rightarrow> Some (Inl e, [], m)
      | Inr q \<Rightarrow>
          Option.bind (rebuild_full env (reads 3) (reads 4) m) (\<lambda>(r, m').
          case r of
            Inl e \<Rightarrow> Some (Inl e, [], failed_now now m')
          | Inr snapshot \<Rightarrow>
              Some (Inr True, notify_changed (ms_snapshot m) snapshot (ms_tree m) (ms_tree m'),
                    finish_full env now v q snapshot m')))"

text \<open>The incremental refresh, and the full rebuild when the ring no longer reaches back.\<close>

definition incremental_pass ::
  "mount_env \<Rightarrow> nat \<Rightarrow> int \<Rightarrow> store_reads \<Rightarrow> mount_state \<Rightarrow> (bool cresult \<times> nat list \<times> mount_state) option" where
  "incremental_pass env now v reads m =
     Option.bind (rebuild_incremental env (reads 0) (reads 1) (reads 2) m) (\<lambda>(r, m').
     case r of
       Inl e \<Rightarrow> Some (Inl e, [], failed_now now m')
     | Inr None \<Rightarrow> gap_rebuild env now v reads m'
     | Inr (Some out) \<Rightarrow>
         Some (Inr True,
           notify_changed_delta (io_change out) (io_displaced out) (io_new out) (ms_tree m) (ms_tree m'),
           finish_incremental env now v out m'))"

definition poll_refresh_notify ::
  "mount_env \<Rightarrow> nat \<Rightarrow> (nat \<Rightarrow> int cresult) \<Rightarrow> store_reads \<Rightarrow> mount_state \<Rightarrow>
     (bool cresult \<times> nat list \<times> mount_state) option" where
  "poll_refresh_notify env now version reads m =
     (if ms_needs_rebuild m then
        (if ms_refreshing m then Some (Inr False, [], m) else force_full_rebuild env now (version 0) reads m)
      else if poll_debounced env now m then Some (Inr False, [], m)
      else case version 0 of
        Inl e \<Rightarrow> Some (Inl e, [], failed_now now m)
      | Inr v \<Rightarrow>
          if v = ms_data_version m then Some (Inr False, [], stamp_successful_poll env now m)
          else if ms_refreshing m then Some (Inr False, [], m)
          else if mc_case_insensitive (me_cfg env) then force_full_rebuild env now (version 1) reads m
          else incremental_pass env now v reads m)"

text \<open>Opening a mount: both stamps are read before the build.\<close>

definition mount_open ::
  "mount_env \<Rightarrow> nat \<Rightarrow> int cresult \<Rightarrow> store_reads \<Rightarrow> mount_state cresult option" where
  "mount_open env now version reads =
     (let ci = mc_case_insensitive (me_cfg env) in
      case rbind version (\<lambda>v. rbind (max_seq_of (reads 0)) (\<lambda>q.
           rbind (reads 1) (\<lambda>s. rbind (reads 2) (\<lambda>t.
           rbind (render_entries (me_parts env) (me_cfg env) s t) (\<lambda>(entries, snapshot).
           Inr (v, q, entries, snapshot)))))) of
        Inl e \<Rightarrow> Some (Inl e)
      | Inr (v, q, entries, snapshot) \<Rightarrow>
          map_option (\<lambda>(tree, a).
            Inr \<lparr>ms_tree = tree, ms_alloc = a, ms_snapshot = snapshot, ms_last_seq = q, ms_data_version = v,
                 ms_needs_rebuild = False, ms_refreshing = False, ms_generation = 0, ms_gap_fallbacks = 0,
                 ms_last_poll = now, ms_last_failed = None, ms_cache = [], ms_sizes = []\<rparr>)
            (build_with_ci (me_lower env) entries (alloc_new ci) ci))"

end
