(* ===== verification/Refresh_Sync.thy ===== *)
theory Refresh_Sync
  imports Refresh
begin

text \<open>
  A mount follows its store: whatever is written between and during the polls, each poll leaves the
  snapshot in sync with the changelog and the tree showing exactly the snapshot.
\<close>

subsection \<open>Tree and snapshot\<close>

definition tree_shows :: "mount_env \<Rightarrow> vtree \<Rightarrow> inode_allocator \<Rightarrow> render_states \<Rightarrow> bool" where
  "tree_shows env t a snap \<longleftrightarrow> wf_tree (me_lower env) t a \<and> case_insensitive t = mc_case_insensitive (me_cfg env) \<and>
     settled (me_lower env) t snap \<and> dom (map_of (track_to_inode t)) = dom (map_of snap) \<and>
     paths_ok snap \<and> distinct (map fst snap)"

abbreviation mount_sync :: "mount_env \<Rightarrow> int set \<Rightarrow> int \<Rightarrow> store \<Rightarrow> render_states \<Rightarrow> bool" where
  "mount_sync env U l s snap \<equiv> feed.in_sync (me_parts env) (me_cfg env) U l s (map_of snap)"

definition mount_ok :: "mount_env \<Rightarrow> int set \<Rightarrow> store \<Rightarrow> mount_state \<Rightarrow> bool" where
  "mount_ok env U s m \<longleftrightarrow> tree_shows env (ms_tree m) (ms_alloc m) (ms_snapshot m) \<and>
     mount_sync env U (ms_last_seq m) s (ms_snapshot m)"

definition env_ok :: "mount_env \<Rightarrow> bool" where
  "env_ok env \<longleftrightarrow> case_folding (me_lower env) \<and> whole_config (me_parts env) (me_cfg env)"

text \<open>The number of tracks ever seen stays far below the range of the rank counter.\<close>

definition few_ids :: "int set \<Rightarrow> bool" where
  "few_ids U \<longleftrightarrow> finite U \<and> 2 * card U + 4 < 2 ^ 32"

lemma alloc_of_tree: "tree_shows env t a snap \<Longrightarrow> alloc_wf a \<and> a_fold_keys a = mc_case_insensitive (me_cfg env)"
  unfolding tree_shows_def wf_tree_def alloc_ok_def by metis

lemma entries_of_snapshot:
  "set (snapshot_entries snap) = (\<lambda>(i, st). (i, rs_path st)) ` set snap" "length (snapshot_entries snap) = length snap"
  "distinct (map fst snap) \<Longrightarrow> distinct (map fst (snapshot_entries snap))"
proof -
  have m: "map fst (map (\<lambda>(i, st). (i, rs_path st)) snap) = map fst snap" by (induction snap) auto
  show "distinct (map fst (snapshot_entries snap))" if "distinct (map fst snap)"
  proof -
    have "distinct (map fst (map (\<lambda>(i, st). (i, rs_path st)) snap))" using that by (simp only: m)
    thus ?thesis unfolding snapshot_entries_def order_entries_def by (simp only: distinct_map distinct_sort set_sort)
  qed
qed (simp_all add: snapshot_entries_def order_entries_def)

lemma length_ids: "distinct (map fst snap) \<Longrightarrow> dom (map_of snap) \<subseteq> U \<Longrightarrow> finite U \<Longrightarrow> length snap \<le> card U"
proof -
  assume a: "distinct (map fst snap)" "dom (map_of snap) \<subseteq> U" "finite U"
  have "length snap = card (fst ` set snap)" using distinct_card [OF a(1)] by simp
  also have "\<dots> \<le> card U" using a by (intro card_mono) (simp_all add: dom_map_of_conv_image_fst)
  finally show ?thesis .
qed

lemma build_shows:
  assumes env: "env_ok env" and a: "alloc_wf a" "a_fold_keys a = mc_case_insensitive (me_cfg env)"
    and snap: "paths_ok snap" "distinct (map fst snap)" "length snap + 4 < 2 ^ 32"
  shows "\<exists>t a'. build_with_ci (me_lower env) (snapshot_entries snap) a (mc_case_insensitive (me_cfg env)) = Some (t, a') \<and>
    tree_shows env t a' snap \<and> tree_shows env t (prune_retired a' t) snap"
proof -
  let ?es = "snapshot_entries snap"
  have cf: "case_folding (me_lower env)" using env by (simp add: env_ok_def)
  have p: "text_ok (rs_path st)" "path_components (rs_path st) \<noteq> []" if "(i, st) \<in> set snap" for i st
    using snap(1) that by (auto simp: paths_ok_def)
  have "list_all (\<lambda>e. text_ok (snd e)) ?es" using p(1) unfolding list_all_iff entries_of_snapshot(1) by fastforce
  hence e: "list_all (\<lambda>e. text_ok (snd e)) ?es" "distinct (map fst ?es)" "length ?es + 4 < 2 ^ 32"
    using snap(2,3) entries_of_snapshot(2,3) [of snap] by simp_all
  obtain t a' where t: "build_with_ci (me_lower env) ?es a (mc_case_insensitive (me_cfg env)) = Some (t, a')"
      "wf_tree (me_lower env) t a'" "case_insensitive t = mc_case_insensitive (me_cfg env)"
      "dom (map_of (track_to_inode t)) = fst ` set (filter (\<lambda>e. path_components (snd e) \<noteq> []) ?es)"
      "\<forall>(tid, path)\<in>set ?es. path_components path \<noteq> [] \<longrightarrow>
         (\<exists>i. map_of (track_to_inode t) tid = Some i \<and> placed (me_lower env) t tid path i)"
    using case_folding.build_ok [OF cf a e] by blast
  have "set (filter (\<lambda>e. path_components (snd e) \<noteq> []) ?es) = (\<lambda>(i, st). (i, rs_path st)) ` set snap"
    using p(2) by (auto simp: entries_of_snapshot)
  hence "fst ` set (filter (\<lambda>e. path_components (snd e) \<noteq> []) ?es) = fst ` (\<lambda>(i, st). (i, rs_path st)) ` set snap"
    by (rule arg_cong)
  also have "\<dots> = fst ` set snap" by (simp add: image_image case_prod_beta)
  finally have dom: "dom (map_of (track_to_inode t)) = dom (map_of snap)" by (metis t(4) dom_map_of_conv_image_fst)
  have "settled (me_lower env) t snap"
    unfolding settled_def
  proof (intro allI impI)
    fix tid i assume i: "map_of (track_to_inode t) tid = Some i"
    then obtain st where st: "map_of snap tid = Some st" using dom by blast
    hence "(tid, st) \<in> set snap" by (rule map_of_SomeD)
    hence "(tid, rs_path st) \<in> set ?es" "path_components (rs_path st) \<noteq> []" using p by (force simp: entries_of_snapshot)+
    hence "placed (me_lower env) t tid (rs_path st) i" using t(5) i by fastforce
    thus "\<exists>s. map_of snap tid = Some s \<and> located (me_lower env) t tid (rs_path s) i" using st by (auto simp: located_def)
  qed
  hence "tree_shows env t a' snap \<and> tree_shows env t (prune_retired a' t) snap"
    using t(2,3) dom snap(1,2) case_folding.retire_ok [OF cf t(2)] by (simp add: tree_shows_def)
  thus ?thesis using t(1) by blast
qed

subsection \<open>A full rebuild\<close>

lemma paths_ok_rendered:
  assumes "env_ok env" "text_store u" "distinct (map fst snap)" "\<And>i. map_of snap i = rendered_at (me_parts env) (me_cfg env) t u i"
  shows "paths_ok snap"
proof -
  have "text_ok (rs_path st) \<and> path_components (rs_path st) \<noteq> []" if "(i, st) \<in> set snap" for i st
    using rendered_path [of "me_parts env" "me_cfg env" u t i st] assms that map_of_is_SomeI [OF assms(3) that]
    by (simp add: env_ok_def)
  thus ?thesis by (auto simp: paths_ok_def)
qed

lemma rendered_full:
  assumes env: "env_ok env" and runs: "fresh_run U s V t" "fresh_run V t W u" and s: "feed_ok U s" and u: "text_store u" "few_ids W"
    and r: "render_entries (me_parts env) (me_cfg env) t u = Inr (es, snap)"
    and a: "alloc_wf a" "a_fold_keys a = mc_case_insensitive (me_cfg env)"
  shows "\<exists>tree a'. build_with_ci (me_lower env) es a (mc_case_insensitive (me_cfg env)) = Some (tree, a') \<and>
    tree_shows env tree a' snap \<and> tree_shows env tree (prune_retired a' tree) snap \<and> mount_sync env W (st_seq s) u snap"
proof -
  have "feed_ok V t" using feed.run_ok [OF runs(1) s] by blast
  hence "tracks_ok t" by (simp add: feed_ok_def store_ok_def)
  moreover have "lowercase_names (me_parts env)" using env by (simp add: env_ok_def whole_config_def)
  ultimately have snap: "distinct (map fst snap)" "es = snapshot_entries snap" "\<And>i. map_of snap i = rendered_at (me_parts env) (me_cfg env) t u i"
    using render_entries_Inr [OF _ _ r] by (auto simp: snapshot_entries_def)
  have sync: "mount_sync env W (st_seq s) u snap" by (rule feed.sync_full [OF runs s snap(3)])
  hence "dom (map_of snap) \<subseteq> W" by (simp add: feed.in_sync_def)
  hence "length snap \<le> card W" using length_ids [OF snap(1)] u(2) by (simp add: few_ids_def)
  hence "length snap + 4 < 2 ^ 32" using u(2) unfolding few_ids_def by linarith
  thus ?thesis using build_shows [OF env a paths_ok_rendered [OF env u(1) snap(1,3)] snap(1)] sync by (simp add: snap(2))
qed

lemma rebuild_full_ok:
  assumes env: "env_ok env" and runs: "fresh_run U s V t" "fresh_run V t W u" and s: "feed_ok U s" and u: "text_store u" "few_ids W"
    and reads: "rows = Inr t \<or> isl rows" "tags = Inr u \<or> isl tags"
    and tree: "tree_shows env (ms_tree m) (ms_alloc m) snap0"
  shows "\<exists>r m'. rebuild_full env rows tags m = Some (r, m') \<and>
    (case r of Inl e \<Rightarrow> m' = m
     | Inr snap \<Rightarrow> tree_shows env (ms_tree m') (ms_alloc m') snap \<and> mount_sync env W (st_seq s) u snap)"
proof (cases "rbind rows (\<lambda>s. rbind tags (\<lambda>t. render_entries (me_parts env) (me_cfg env) s t))")
  case (Inl e)
  thus ?thesis by (simp add: rebuild_full_def)
next
  case (Inr p)
  obtain es snap where p: "p = (es, snap)" by fastforce
  have r: "render_entries (me_parts env) (me_cfg env) t u = Inr (es, snap)"
    using Inr reads by (auto simp: p rbind_eq_Inr isl_def)
  show ?thesis using rendered_full [OF env runs s u r] alloc_of_tree [OF tree] Inr
    by (fastforce simp: rebuild_full_def p)
qed

subsection \<open>An incremental rebuild\<close>

lemma map_of_filter_fst: "map_of (filter (\<lambda>(i, x). P i) xs) i = (if P i then map_of xs i else None)"
  by (induction xs) auto

lemma map_of_key_list: "map_of (key_list keys ids) i = (if i \<in> set ids then Some (the (live_keys keys i)) else None)"
  by (induction ids) (auto simp: key_list_def)

lemma key_list_fst: "map fst (key_list keys ids) = ids"
  by (induction ids) (auto simp: key_list_def)

lemma has_state_map: "has_state sts i \<longleftrightarrow> map_of sts i \<noteq> None"
  by (simp add: has_state_def map_of_eq_None_iff)

lemma render_changed_Inr:
  assumes "render_changed env keys ids tags = Inr new" "tags = Inr u \<or> isl tags" "distinct ids"
    "\<And>i. i \<in> set ids \<Longrightarrow> live_keys keys i = row_key t i \<and> row_key t i \<noteq> None"
  shows "distinct (map fst new) \<and> (\<forall>i. map_of new i = (if i \<in> set ids then rendered_at (me_parts env) (me_cfg env) t u i else None))"
proof (cases "ids = []")
  case True
  thus ?thesis using assms(1) by (simp add: render_changed_def)
next
  case False
  then obtain g where g: "tags_for_tracks u ids = Inr g" "new = render_keyed (me_parts env) (me_cfg env) (key_list keys ids) g"
    using assms(1,2) by (cases "tags_for_tracks u ids") (auto simp: render_changed_def rbind_eq_Inr isl_def)
  have e: "i \<in> set ids \<Longrightarrow> entry_of g i = text_tags u i" for i using tags_for_tracks_Inr [OF g(1) assms(3)] by simp
  have d: "distinct (map fst (key_list keys ids))" using assms(3) by (simp add: key_list_fst)
  have "map_of new i = (if i \<in> set ids then rendered_at (me_parts env) (me_cfg env) t u i else None)" for i
  proof (cases "i \<in> set ids")
    case True
    then obtain cv f where k: "row_key t i = Some (cv, f)" "live_keys keys i = Some (cv, f)" using assms(4) [OF True] by auto
    show ?thesis
      using render_keyed_spec [OF d, of "me_parts env" "me_cfg env" g i] True k e [OF True]
      by (simp add: g(2) map_of_key_list rendered_at_key)
  next
    case False
    thus ?thesis using render_keyed_spec [OF d, of "me_parts env" "me_cfg env" g i] by (simp add: g(2) map_of_key_list)
  qed
  moreover have "distinct (map fst new)" using render_keyed_spec [OF d] by (simp add: g(2))
  ultimately show ?thesis by blast
qed

lemma map_of_updated:
  "map_of (updated_snapshot snap removed new) i =
     (case map_of new i of Some v \<Rightarrow> Some v | None \<Rightarrow> if i \<in> set removed then None else map_of snap i)"
  by (auto simp: updated_snapshot_def map_add_def map_of_filter_fst has_state_map split: option.splits)

lemma distinct_updated:
  "distinct (map fst snap) \<Longrightarrow> distinct (map fst new) \<Longrightarrow> distinct (map fst (updated_snapshot snap removed new))"
  unfolding updated_snapshot_def by (auto simp: distinct_map_filter has_state_def image_iff)

text \<open>The sets a log partitions into, in terms of the rows and the snapshot.\<close>

lemma partition_sets:
  assumes keys: "\<And>i. live_keys keys i = (if i \<in> set ids then row_key t i else None)"
    and c: "c = partition_changelog (filter (\<lambda>(i, st). i \<in> set ids) snap) ids keys"
  shows "i \<in> set (cs_changed c) \<longleftrightarrow> i \<in> set ids \<and> (\<exists>k st. row_key t i = Some k \<and> map_of snap i = Some st \<and> state_key st \<noteq> k)"
    "i \<in> set (cs_added c) \<longleftrightarrow> i \<in> set ids \<and> row_key t i \<noteq> None \<and> map_of snap i = None"
    "i \<in> set (cs_removed c) \<longleftrightarrow> i \<in> set ids \<and> row_key t i = None \<and> map_of snap i \<noteq> None"
  unfolding c partition_changelog_eq by (auto simp: keys map_of_filter_fst state_key_def)

lemma refresh_snapshot:
  assumes keys: "\<And>i. live_keys keys i = (if i \<in> set ids then row_key t i else None)"
    and new: "\<And>i. map_of new i = (if i \<in> set (cs_changed c @ cs_added c) then rendered_at parts cfg t u i else None)"
    and c: "c = partition_changelog (filter (\<lambda>(i, st). i \<in> set ids) snap) ids keys"
  shows "map_of (updated_snapshot snap (cs_removed (reconcile c new)) new) i = feed.refreshed parts cfg (map_of snap) (set ids) t u i"
proof -
  have sets: "i \<in> set (cs_changed c) \<longleftrightarrow> i \<in> set ids \<and> (\<exists>k st. row_key t i = Some k \<and> map_of snap i = Some st \<and> state_key st \<noteq> k)"
    "i \<in> set (cs_added c) \<longleftrightarrow> i \<in> set ids \<and> row_key t i \<noteq> None \<and> map_of snap i = None"
    "i \<in> set (cs_removed c) \<longleftrightarrow> i \<in> set ids \<and> row_key t i = None \<and> map_of snap i \<noteq> None"
    by (rule partition_sets [OF keys c])+
  have rem: "i \<in> set (cs_removed (reconcile c new)) \<longleftrightarrow> i \<in> set (cs_removed c) \<or> i \<in> set (cs_changed c) \<and> map_of new i = None"
    by (auto simp: reconcile_def has_state_map)
  show ?thesis
  proof (cases "i \<in> set ids")
    case False
    thus ?thesis using sets by (simp add: map_of_updated rem new feed.refreshed_def)
  next
    case True
    thus ?thesis using sets
      by (cases "row_key t i"; cases "map_of snap i")
        (auto simp: map_of_updated rem new feed.refreshed_def feed.want_None split: option.splits)
  qed
qed

lemma filter_length_le: "length (filter P xs) \<le> length xs"
  by simp

text \<open>Applying a reconciled change set to a tree that shows the snapshot shows the new one.\<close>

lemma apply_refresh:
  assumes env: "env_ok env" and tree: "tree_shows env t a snap"
    and c: "distinct (cs_changed c @ cs_added c)" "set (cs_changed c) \<subseteq> dom (map_of snap)"
      "set (cs_added c) \<inter> dom (map_of snap) = {}" "set (cs_removed c) \<inter> set (cs_changed c) = {}" "set (cs_removed c) \<subseteq> dom (map_of snap)"
    and new: "dom (map_of new) \<subseteq> set (cs_changed c) \<union> set (cs_added c)" "distinct (map fst new)" "paths_ok new"
    and room: "card (dom (map_of snap)) + length (cs_changed c) + length (cs_added c) + 4 < 2 ^ 32"
    and s': "snap' = updated_snapshot snap (cs_removed (reconcile c new)) new" and r: "r = reconcile c new"
  shows "\<exists>t' n a'. apply_changes (me_lower env) (me_hash_order env) t snap' (cs_changed r) (cs_added r) (cs_removed r) a = Some (Inr (t', n), a') \<and>
    tree_shows env t' (prune_retired a' t') snap'"
proof -
  have cf: "case_folding (me_lower env)" using env by (simp add: env_ok_def)
  have wf: "wf_tree (me_lower env) t a" and st: "settled (me_lower env) t snap" and ts: "dom (map_of (track_to_inode t)) = dom (map_of snap)"
    and sn: "paths_ok snap" "distinct (map fst snap)" and ci: "case_insensitive t = mc_case_insensitive (me_cfg env)"
    using tree by (simp_all add: tree_shows_def)
  have r_sets: "set (cs_changed r) = set (cs_changed c) \<inter> dom (map_of new)" "set (cs_added r) = set (cs_added c) \<inter> dom (map_of new)"
    "set (cs_removed r) = set (cs_removed c) \<union> (set (cs_changed c) - dom (map_of new))"
    by (auto simp: r reconcile_def has_state_map)
  have m': "map_of snap' i = (case map_of new i of Some v \<Rightarrow> Some v | None \<Rightarrow> if i \<in> set (cs_removed r) then None else map_of snap i)" for i
    unfolding s' r by (rule map_of_updated)
  have d': "distinct (map fst snap')" unfolding s' using sn(2) new(2) by (rule distinct_updated)
  have p': "paths_ok snap'" using sn(1) new(3) by (auto simp: s' updated_snapshot_def paths_ok_def)
  have D: "dom (map_of snap') = dom (map_of new) \<union> (dom (map_of snap) - set (cs_removed r))"
    by (auto simp: m' domIff split: option.splits if_splits)
  have ca: "set (cs_changed c) \<inter> set (cs_added c) = {}" using c(1) by simp
  have "distinct (cs_changed r @ cs_added r)" using c(1) by (auto simp: r reconcile_def)
  moreover have "set (cs_changed r) \<union> set (cs_added r) \<subseteq> dom (map_of snap')"
      "set (cs_added r) \<inter> dom (map_of (track_to_inode t)) = {}" "set (cs_removed r) \<inter> (set (cs_changed r) \<union> set (cs_added r)) = {}"
    unfolding D ts r_sets using c(3-5) ca by blast+
  ultimately have ids: "set (cs_changed r) \<union> set (cs_added r) \<subseteq> dom (map_of snap')" "distinct (cs_changed r @ cs_added r)"
      "set (cs_added r) \<inter> dom (map_of (track_to_inode t)) = {}" "set (cs_removed r) \<inter> (set (cs_changed r) \<union> set (cs_added r)) = {}"
    by blast+
  have old: "\<exists>s. map_of snap' tid = Some s \<and> located (me_lower env) t tid (rs_path s) i"
    if i: "map_of (track_to_inode t) tid = Some i" and n: "tid \<notin> set (cs_removed r)" "tid \<notin> set (cs_changed r)" for tid i
  proof -
    have "tid \<in> dom (map_of snap)" using i ts by blast
    hence "map_of new tid = None" using n(2) new(1) c(3) r_sets(1) by blast
    thus ?thesis using st i n(1) by (simp add: m' settled_def)
  qed
  have "length (cs_changed r) \<le> length (cs_changed c)" "length (cs_added r) \<le> length (cs_added c)" by (simp_all add: r reconcile_def)
  hence room': "track_count t + length (cs_changed r) + length (cs_added r) + 4 < 2 ^ 32" using room ts by (simp add: track_count_def)
  obtain t' n a' where t': "apply_changes (me_lower env) (me_hash_order env) t snap' (cs_changed r) (cs_added r) (cs_removed r) a = Some (Inr (t', n), a')"
      "wf_tree (me_lower env) t' a'" "settled (me_lower env) t' snap'" "alloc_le a a'"
      "dom (map_of (track_to_inode t')) = (dom (map_of (track_to_inode t)) - set (cs_removed r)) \<union> set (cs_changed r) \<union> set (cs_added r)"
    using case_folding.apply_changes_ok [OF cf wf p' old ids room'] by blast
  have "case_insensitive t' = case_insensitive t"
    using wf t'(2,4) unfolding wf_tree_def alloc_ok_def alloc_le_def by metis
  moreover have "dom (map_of (track_to_inode t')) = dom (map_of snap')"
    unfolding t'(5) ts D r_sets using new(1) c(2,4) by blast
  ultimately have "tree_shows env t' (prune_retired a' t') snap'"
    using t'(3) ci p' d' case_folding.retire_ok [OF cf t'(2)] by (simp add: tree_shows_def)
  thus ?thesis using t'(1) by blast
qed

lemma changelog_distinct: "distinct (cr_ids (changelog_since s l))"
  by (simp add: changelog_since_def Let_def)

lemma rebuild_incremental_ok:
  assumes env: "env_ok env" and runs: "fresh_run U s V t" "fresh_run V t W u" and s: "feed_ok U s" and u: "text_store u" "few_ids W"
    and reads: "log_read = Inr s \<or> isl log_read" "key_read = Inr t \<or> isl key_read" "tag_read = Inr u \<or> isl tag_read"
    and tree: "tree_shows env (ms_tree m) (ms_alloc m) (ms_snapshot m)" and sync: "mount_sync env U (ms_last_seq m) s (ms_snapshot m)"
  shows "\<exists>r m'. rebuild_incremental env log_read key_read tag_read m = Some (r, m') \<and>
    (case r of
       Inr (Some out) \<Rightarrow> io_new_seq out = st_seq s \<and> tree_shows env (ms_tree m') (ms_alloc m') (ms_snapshot m') \<and>
         mount_sync env W (st_seq s) u (ms_snapshot m')
     | _ \<Rightarrow> m' = m)"
proof (cases "isl log_read \<or> isl (rbind key_read (\<lambda>x. map_err DbErr (render_keys_for x (cr_ids (changelog_since s (ms_last_seq m)))))) \<or>
    changelog_gap (changelog_since s (ms_last_seq m)) (ms_last_seq m)")
  case True
  thus ?thesis using reads(1) by (cases log_read; cases "rbind key_read (\<lambda>x. map_err DbErr (render_keys_for x (cr_ids (changelog_since s (ms_last_seq m)))))")
    (auto simp: rebuild_incremental_def Let_def split: sum.splits)
next
  case False
  let ?snap = "ms_snapshot m" and ?l = "ms_last_seq m"
  let ?log = "changelog_since s ?l"
  let ?ids = "cr_ids ?log"
  have t: "feed_ok V t" using feed.run_ok [OF runs(1) s] by blast
  have lr: "log_read = Inr s" using reads(1) False by blast
  have gap: "\<not> changelog_gap ?log ?l" using False by blast
  obtain keys where kr: "rbind key_read (\<lambda>x. map_err DbErr (render_keys_for x ?ids)) = Inr keys"
    using False by (cases "rbind key_read (\<lambda>x. map_err DbErr (render_keys_for x ?ids))") auto
  have "render_keys_for t ?ids = Inr keys"
    using kr reads(2) by (cases "render_keys_for t ?ids") (auto simp: rbind_eq_Inr isl_def)
  moreover have "tracks_ok t" using t by (simp add: feed_ok_def store_ok_def)
  ultimately have keys: "live_keys keys i = (if i \<in> set ?ids then row_key t i else None)" for i
    using render_keys_for_Inr [of t ?ids keys i] by (simp add: row_key_def)
  define c where "c = partition_changelog (filter (\<lambda>(i, st). i \<in> set ?ids) ?snap) ?ids keys"
  note sets = partition_sets [OF keys c_def]
  let ?to = "cs_changed c @ cs_added c"
  have live: "live_keys keys i = row_key t i \<and> row_key t i \<noteq> None" if "i \<in> set ?to" for i
    using that sets(1,2) [of i] by (auto simp: keys)
  have "distinct (cs_changed c)" "distinct (cs_added c)"
    using changelog_distinct [of s ?l] by (simp_all add: c_def partition_changelog_eq)
  hence dto: "distinct ?to" using sets(1,2) by (auto simp: disjoint_iff)
  have nolive: "\<not> list_ex (\<lambda>i. live_keys keys i = None) ?to" using live by (auto simp: list_ex_iff)
  show ?thesis
  proof (cases "render_changed env keys ?to tag_read")
    case (Inl e)
    thus ?thesis using lr kr gap nolive by (simp add: rebuild_incremental_def Let_def flip: c_def)
  next
    case (Inr new)
    have new: "distinct (map fst new)" "map_of new i = (if i \<in> set ?to then rendered_at (me_parts env) (me_cfg env) t u i else None)" for i
      using render_changed_Inr [OF Inr reads(3) dto live] by blast+
    have "text_ok (rs_path st) \<and> path_components (rs_path st) \<noteq> []" if "(i, st) \<in> set new" for i st
      using rendered_path [of "me_parts env" "me_cfg env" u t i st] map_of_is_SomeI [OF new(1) that] new(2) [of i] env u(1)
      by (auto simp: env_ok_def split: if_splits)
    hence pnew: "paths_ok new" by (auto simp: paths_ok_def)
    define snap' where "snap' = updated_snapshot ?snap (cs_removed (reconcile c new)) new"
    have mapped: "map_of snap' = feed.refreshed (me_parts env) (me_cfg env) (map_of ?snap) (feed_since s ?l) t u"
      unfolding snap'_def feed_since_def by (rule ext, rule refresh_snapshot [OF keys new(2) c_def])
    have sync': "mount_sync env W (st_seq s) u snap'"
      unfolding mapped by (rule feed.sync_incremental [OF runs s sync]) (use gap in \<open>simp add: feed_lost_def\<close>)
    have w: "U \<subseteq> W" "V \<subseteq> W" using feed.run_ok [OF runs(1) s] feed.run_ok [OF runs(2) t] by blast+
    have "set ?to \<subseteq> W" using live feed.ok_seen [OF t] w(2) by blast
    hence "card (set ?to) \<le> card W" using u(2) by (intro card_mono) (simp_all add: few_ids_def)
    moreover have "length ?to = card (set ?to)" using distinct_card [OF dto] by simp
    moreover have "dom (map_of ?snap) \<subseteq> W" using sync w(1) by (auto simp: feed.in_sync_def)
    hence "card (dom (map_of ?snap)) \<le> card W" using u(2) by (intro card_mono) (simp_all add: few_ids_def)
    ultimately have room: "card (dom (map_of ?snap)) + length (cs_changed c) + length (cs_added c) + 4 < 2 ^ 32"
      using u(2) unfolding few_ids_def by simp
    have "dom (map_of new) \<subseteq> set (cs_changed c) \<union> set (cs_added c)" using new(2) by (auto split: if_splits)
    moreover have "set (cs_changed c) \<subseteq> dom (map_of ?snap)" "set (cs_added c) \<inter> dom (map_of ?snap) = {}"
        "set (cs_removed c) \<inter> set (cs_changed c) = {}" "set (cs_removed c) \<subseteq> dom (map_of ?snap)"
      using sets by auto
    ultimately obtain t' n a' where ap: "apply_changes (me_lower env) (me_hash_order env) (ms_tree m) snap' (cs_changed (reconcile c new))
        (cs_added (reconcile c new)) (cs_removed (reconcile c new)) (ms_alloc m) = Some (Inr (t', n), a')" "tree_shows env t' (prune_retired a' t') snap'"
      using apply_refresh [OF env tree dto _ _ _ _ _ new(1) pnew room snap'_def refl] by blast
    have "max (cr_max ?log) ?l = st_seq s"
      using changelog_bounds(1) [of s ?l] s sync by (simp add: feed_ok_def store_ok_def feed.in_sync_def)
    thus ?thesis using lr kr gap nolive Inr ap sync'
      by (simp add: rebuild_incremental_def Let_def flip: c_def snap'_def)
  qed
qed

subsection \<open>Polling\<close>

text \<open>
  The reads of a poll: the k-th sees the store as the run from the read before left it, or fails.
\<close>

fun reads_along :: "store_reads \<Rightarrow> nat \<Rightarrow> int set \<Rightarrow> store \<Rightarrow> int set \<Rightarrow> store \<Rightarrow> bool" where
  "reads_along reads 0 U s V t \<longleftrightarrow> U = V \<and> s = t"
| "reads_along reads (Suc n) U s V t \<longleftrightarrow>
     (\<exists>W u. reads_along reads n U s W u \<and> fresh_run W u V t \<and> text_store t \<and> (reads n = Inr t \<or> isl (reads n)))"

lemma mount_ok_drift: "mount_ok env U s m \<Longrightarrow> fresh_run U s V t \<Longrightarrow> feed_ok U s \<Longrightarrow> mount_ok env V t m"
  unfolding mount_ok_def using feed.sync_drift by blast

lemma mount_ok_cong:
  "\<lbrakk>ms_tree m' = ms_tree m; ms_alloc m' = ms_alloc m; ms_snapshot m' = ms_snapshot m; ms_last_seq m' = ms_last_seq m\<rbrakk> \<Longrightarrow>
     mount_ok env U s m' = mount_ok env U s m"
  by (simp add: mount_ok_def)

lemma few_ids_mono: "few_ids V \<Longrightarrow> U \<subseteq> V \<Longrightarrow> few_ids U"
  using card_mono [of V U] by (fastforce simp: few_ids_def dest: finite_subset)

lemma max_seq_of_Inr: "max_seq_of r = Inr q \<Longrightarrow> r = Inr s \<or> isl r \<Longrightarrow> feed_ok U s \<Longrightarrow> q = st_seq s"
  using changelog_bounds(1) [of s] by (auto simp: max_seq_of_def rbind_eq_Inr isl_def feed_ok_def store_ok_def)

lemma finish_full_simps [simp]:
  "ms_tree (finish_full env now v q snap m) = ms_tree m" "ms_alloc (finish_full env now v q snap m) = ms_alloc m"
  "ms_snapshot (finish_full env now v q snap m) = snap" "ms_last_seq (finish_full env now v q snap m) = q"
  by (simp_all add: finish_full_def stamp_successful_poll_def Let_def)

lemma finish_incremental_simps [simp]:
  "ms_tree (finish_incremental env now v out m) = ms_tree m" "ms_alloc (finish_incremental env now v out m) = ms_alloc m"
  "ms_snapshot (finish_incremental env now v out m) = ms_snapshot m" "ms_last_seq (finish_incremental env now v out m) = io_new_seq out"
  by (simp_all add: finish_incremental_def stamp_successful_poll_def Let_def)

text \<open>A full rebuild with the watermark of an earlier read, as the two full paths use it.\<close>

lemma full_pass_ok:
  assumes env: "env_ok env" and r0: "feed_ok U0 r0" and runs: "fresh_run U0 r0 U1 r1" "fresh_run U1 r1 U2 r2"
    and reads: "rows = Inr r1 \<or> isl rows" "tags = Inr r2 \<or> isl tags" and u: "text_store r2" "few_ids U2"
    and m: "mount_ok env U0 r0 m"
  shows "\<exists>r m'. rebuild_full env rows tags m = Some (r, m') \<and>
    (case r of Inl e \<Rightarrow> m' = m | Inr snap \<Rightarrow> mount_ok env U2 r2 (finish_full env now v (st_seq r0) snap m'))"
proof -
  have "tree_shows env (ms_tree m) (ms_alloc m) (ms_snapshot m)" using m by (simp add: mount_ok_def)
  from rebuild_full_ok [OF env runs r0 u reads this]
  obtain r m' where "rebuild_full env rows tags m = Some (r, m')" "case r of Inl e \<Rightarrow> m' = m
     | Inr snap \<Rightarrow> tree_shows env (ms_tree m') (ms_alloc m') snap \<and> mount_sync env U2 (st_seq r0) r2 snap" by blast
  thus ?thesis by (intro exI [of _ r] exI [of _ m']) (auto simp: mount_ok_def split: sum.splits)
qed

lemma force_full_ok:
  assumes env: "env_ok env" and m: "feed_ok U s" "mount_ok env U s m"
    and runs: "fresh_run U s U0 r0" "fresh_run U0 r0 U1 r1" "fresh_run U1 r1 U2 r2" and u: "text_store r2" "few_ids U2"
    and reads: "reads 0 = Inr r0 \<or> isl (reads 0)" "reads 1 = Inr r1 \<or> isl (reads 1)" "reads 2 = Inr r2 \<or> isl (reads 2)"
  shows "\<exists>r ns m'. force_full_rebuild env now version reads m = Some (r, ns, m') \<and> mount_ok env U2 r2 m' \<and>
    (r = Inr True \<longrightarrow> ms_last_seq m' = st_seq r0)"
proof -
  have ok: "feed_ok U0 r0" using feed.run_ok [OF runs(1) m(1)] by blast
  have m0: "mount_ok env U0 r0 m" by (rule mount_ok_drift [OF m(2) runs(1) m(1)])
  have stay: "mount_ok env U2 r2 m"
    by (rule mount_ok_drift [OF m0 feed.run_trans [OF runs(2,3)] ok])
  show ?thesis
  proof (cases "rbind version (\<lambda>v. rbind (max_seq_of (reads 0)) (\<lambda>q. Inr (v, q)))")
    case (Inl e)
    thus ?thesis using stay by (simp add: force_full_rebuild_def)
  next
    case (Inr p)
    obtain v where p: "p = (v, st_seq r0)" using Inr max_seq_of_Inr [OF _ reads(1) ok] by (auto simp: rbind_eq_Inr)
    let ?m = "m\<lparr>ms_needs_rebuild := False\<rparr>"
    have "mount_ok env U0 r0 ?m" using m0 by (subst mount_ok_cong [of _ m]) simp_all
    from full_pass_ok [OF env ok runs(2,3) reads(2,3) u this, of now v]
    obtain r m' where r: "rebuild_full env (reads 1) (reads 2) ?m = Some (r, m')"
        "case r of Inl e \<Rightarrow> m' = ?m | Inr snap \<Rightarrow> mount_ok env U2 r2 (finish_full env now v (st_seq r0) snap m')" by blast
    have "mount_ok env U2 r2 (?m\<lparr>ms_needs_rebuild := ms_needs_rebuild m\<rparr>)" using stay by (subst mount_ok_cong [of _ m]) simp_all
    thus ?thesis using Inr r by (cases r) (simp_all add: force_full_rebuild_def p)
  qed
qed

lemma gap_rebuild_ok:
  assumes env: "env_ok env" and m: "feed_ok U s" "mount_ok env U s m"
    and runs: "fresh_run U s U2 r2" "fresh_run U2 r2 U3 r3" "fresh_run U3 r3 U4 r4" and u: "text_store r4" "few_ids U4"
    and reads: "reads 2 = Inr r2 \<or> isl (reads 2)" "reads 3 = Inr r3 \<or> isl (reads 3)" "reads 4 = Inr r4 \<or> isl (reads 4)"
  shows "\<exists>r ns m'. gap_rebuild env now v reads m = Some (r, ns, m') \<and> mount_ok env U4 r4 m' \<and>
    (r = Inr True \<longrightarrow> ms_last_seq m' = st_seq r2)"
proof -
  let ?m = "m\<lparr>ms_gap_fallbacks := ms_gap_fallbacks m + 1\<rparr>"
  have ok: "feed_ok U2 r2" using feed.run_ok [OF runs(1) m(1)] by blast
  have m0: "mount_ok env U2 r2 ?m"
    using mount_ok_drift [OF m(2) runs(1) m(1)] by (subst mount_ok_cong [of _ m]) simp_all
  have stay: "mount_ok env U4 r4 ?m" by (rule mount_ok_drift [OF m0 feed.run_trans [OF runs(2,3)] ok])
  show ?thesis
  proof (cases "max_seq_of (reads 2)")
    case (Inl e)
    thus ?thesis using stay by (simp add: gap_rebuild_def)
  next
    case (Inr q)
    have q: "q = st_seq r2" by (rule max_seq_of_Inr [OF Inr reads(1) ok])
    from full_pass_ok [OF env ok runs(2,3) reads(2,3) u m0, of now v]
    obtain r m' where r: "rebuild_full env (reads 3) (reads 4) ?m = Some (r, m')"
        "case r of Inl e \<Rightarrow> m' = ?m | Inr snap \<Rightarrow> mount_ok env U4 r4 (finish_full env now v (st_seq r2) snap m')" by blast
    have "mount_ok env U4 r4 (failed_now now ?m)" using stay by (subst mount_ok_cong [of _ ?m]) (simp_all add: failed_now_def)
    thus ?thesis using Inr r by (cases r) (simp_all add: gap_rebuild_def q)
  qed
qed

end
