(* ===== verification/Refresh_Props.thy ===== *)
theory Refresh_Props
  imports Refresh_Sync
begin

text \<open>
  The states a mount goes through between its opening, the writes to its store and its polls, and
  what holds in each of them.
\<close>

lemma reads_split:
  assumes "reads_along reads 5 U s V t"
  obtains U0 r0 U1 r1 U2 r2 U3 r3 where
    "fresh_run U s U0 r0" "fresh_run U0 r0 U1 r1" "fresh_run U1 r1 U2 r2" "fresh_run U2 r2 U3 r3" "fresh_run U3 r3 V t"
    "text_store r2" "text_store t"
    "reads 0 = Inr r0 \<or> isl (reads 0)" "reads 1 = Inr r1 \<or> isl (reads 1)" "reads 2 = Inr r2 \<or> isl (reads 2)"
    "reads 3 = Inr r3 \<or> isl (reads 3)" "reads 4 = Inr t \<or> isl (reads 4)"
  using assms by (auto simp: eval_nat_numeral)

lemma poll_ok:
  assumes env: "env_ok env" and m: "feed_ok U s" "mount_ok env U s m" and reads: "reads_along reads 5 U s V t" and few: "few_ids V"
  shows "\<exists>r ns m'. poll_refresh_notify env now version reads m = Some (r, ns, m') \<and> mount_ok env V t m' \<and>
    (r = Inr True \<longrightarrow> st_seq s \<le> ms_last_seq m')"
proof -
  obtain U0 r0 U1 r1 U2 r2 U3 r3 where
    run: "fresh_run U s U0 r0" "fresh_run U0 r0 U1 r1" "fresh_run U1 r1 U2 r2" "fresh_run U2 r2 U3 r3" "fresh_run U3 r3 V t"
    and ut: "text_store r2" "text_store t"
    and rd: "reads 0 = Inr r0 \<or> isl (reads 0)" "reads 1 = Inr r1 \<or> isl (reads 1)" "reads 2 = Inr r2 \<or> isl (reads 2)"
    "reads 3 = Inr r3 \<or> isl (reads 3)" "reads 4 = Inr t \<or> isl (reads 4)"
    by (rule reads_split [OF reads])
  have ok0: "feed_ok U0 r0" "st_seq s \<le> st_seq r0" using feed.run_ok [OF run(1) m(1)] by blast+
  have ok2: "feed_ok U2 r2" "st_seq r0 \<le> st_seq r2"
    using feed.run_ok [OF feed.run_trans [OF run(2,3)] ok0(1)] by blast+
  have rest: "fresh_run U2 r2 V t" by (rule feed.run_trans [OF run(4,5)])
  have "U2 \<subseteq> V" using feed.run_ok [OF rest ok2(1)] by blast
  hence few2: "few_ids U2" using few few_ids_mono by blast
  have m0: "mount_ok env U0 r0 m" by (rule mount_ok_drift [OF m(2) run(1) m(1)])
  have m2: "mount_ok env U2 r2 m" by (rule mount_ok_drift [OF m0 feed.run_trans [OF run(2,3)] ok0(1)])
  have late: "mount_ok env U2 r2 x \<Longrightarrow> mount_ok env V t x" for x using mount_ok_drift [OF _ rest ok2(1)] .
  have stay: "mount_ok env V t x" if "ms_tree x = ms_tree m" "ms_alloc x = ms_alloc m" "ms_snapshot x = ms_snapshot m" "ms_last_seq x = ms_last_seq m" for x
    using late [OF m2] mount_ok_cong [OF that] by simp
  have force: "\<exists>r ns m'. force_full_rebuild env now v reads m = Some (r, ns, m') \<and> mount_ok env V t m' \<and>
    (r = Inr True \<longrightarrow> st_seq s \<le> ms_last_seq m')" for v
    using force_full_ok [OF env m run(1-3) ut(1) few2 rd(1-3), of now v] late ok0(2) by auto
  have quiet: "mount_ok env V t m" "mount_ok env V t (stamp_successful_poll env now m)" "mount_ok env V t (failed_now now m)"
    by (rule stay; simp add: stamp_successful_poll_def failed_now_def)+
  have incremental: "\<exists>r ns m'. incremental_pass env now v reads m = Some (r, ns, m') \<and> mount_ok env V t m' \<and>
    (r = Inr True \<longrightarrow> st_seq s \<le> ms_last_seq m')" for v
  proof -
    have "tree_shows env (ms_tree m) (ms_alloc m) (ms_snapshot m)" "mount_sync env U0 (ms_last_seq m) r0 (ms_snapshot m)"
      using m0 by (simp_all add: mount_ok_def)
    from rebuild_incremental_ok [OF env run(2,3) ok0(1) ut(1) few2 rd(1-3) this]
    obtain r m' where r: "rebuild_incremental env (reads 0) (reads 1) (reads 2) m = Some (r, m')"
      "case r of Inr (Some out) \<Rightarrow> io_new_seq out = st_seq r0 \<and> tree_shows env (ms_tree m') (ms_alloc m') (ms_snapshot m') \<and>
         mount_sync env U2 (st_seq r0) r2 (ms_snapshot m') | _ \<Rightarrow> m' = m" by blast
    have gap: "\<exists>r ns m'. gap_rebuild env now v reads m = Some (r, ns, m') \<and> mount_ok env V t m' \<and>
        (r = Inr True \<longrightarrow> st_seq s \<le> ms_last_seq m')"
      using gap_rebuild_ok [OF env m feed.run_trans [OF run(1) feed.run_trans [OF run(2,3)]] run(4,5) ut(2) few rd(3-5), of now v]
        ok0(2) ok2(2) by fastforce
    show ?thesis
    proof (cases r)
      case (Inl e)
      thus ?thesis using r quiet by (simp add: incremental_pass_def)
    next
      case (Inr x)
      show ?thesis
      proof (cases x)
        case None
        thus ?thesis using r Inr gap by (simp add: incremental_pass_def)
      next
        case (Some out)
        hence "mount_ok env U2 r2 (finish_incremental env now v out m')" "ms_last_seq (finish_incremental env now v out m') = st_seq r0"
          using r(2) Inr by (simp_all add: mount_ok_def)
        thus ?thesis using r(1) Inr Some late ok0(2) by (simp add: incremental_pass_def)
      qed
    qed
  qed
  show ?thesis
  proof (cases "ms_needs_rebuild m \<or> poll_debounced env now m")
    case True
    thus ?thesis using force [of "version 0"] quiet(1) by (auto simp: poll_refresh_notify_def)
  next
    case False
    thus ?thesis using force [of "version 1"] incremental quiet
      by (cases "version 0") (simp_all add: poll_refresh_notify_def)
  qed
qed

lemma open_ok:
  assumes env: "env_ok env" and s: "feed_ok U s" and reads: "reads_along reads 3 U s V t" and few: "few_ids V"
    and m: "mount_open env now version reads = Some (Inr m)"
  shows "mount_ok env V t m"
proof -
  obtain U0 r0 U1 r1 where run: "fresh_run U s U0 r0" "fresh_run U0 r0 U1 r1" "fresh_run U1 r1 V t" and ut: "text_store t"
    and rd: "reads 0 = Inr r0 \<or> isl (reads 0)" "reads 1 = Inr r1 \<or> isl (reads 1)" "reads 2 = Inr t \<or> isl (reads 2)"
    using reads by (auto simp: eval_nat_numeral)
  have ok0: "feed_ok U0 r0" using feed.run_ok [OF run(1) s] by blast
  let ?ci = "mc_case_insensitive (me_cfg env)"
  obtain v q es snap where o: "max_seq_of (reads 0) = Inr q" "render_entries (me_parts env) (me_cfg env) r1 t = Inr (es, snap)"
      "map_option (\<lambda>(tree, a). Inr \<lparr>ms_tree = tree, ms_alloc = a, ms_snapshot = snap, ms_last_seq = q, ms_data_version = v,
                 ms_needs_rebuild = False, ms_refreshing = False, ms_generation = 0, ms_gap_fallbacks = 0,
                 ms_last_poll = now, ms_last_failed = None, ms_cache = [], ms_sizes = []\<rparr>)
        (build_with_ci (me_lower env) es (alloc_new ?ci) ?ci) = Some (Inr m)"
    using m rd by (auto simp: mount_open_def Let_def rbind_eq_Inr isl_def split: sum.splits)
  have a: "alloc_wf (alloc_new ?ci)" "a_fold_keys (alloc_new ?ci) = ?ci"
    by (simp_all add: alloc_wf_def alloc_new_def root_ino_def split: if_splits)
  from rendered_full [OF env run(2,3) ok0 ut few o(2) a] o(3)
  obtain tree a' where "tree_shows env tree a' snap" "mount_sync env V (st_seq r0) t snap" "ms_tree m = tree" "ms_alloc m = a'"
      "ms_snapshot m = snap" "ms_last_seq m = q" by auto
  thus ?thesis using max_seq_of_Inr [OF o(1) rd(1) ok0] by (simp add: mount_ok_def)
qed

text \<open>The states of a mount: opened, its store written, polled, and marked by a poisoned lock or a refresh elsewhere.\<close>

inductive mount_reach :: "mount_env \<Rightarrow> int set \<Rightarrow> store \<Rightarrow> mount_state \<Rightarrow> bool" for env where
  opened: "\<lbrakk>feed_ok U s; reads_along reads 3 U s V t; few_ids V; mount_open env now version reads = Some (Inr m)\<rbrakk> \<Longrightarrow> mount_reach env V t m"
| written: "\<lbrakk>mount_reach env U s m; fresh_run U s V t\<rbrakk> \<Longrightarrow> mount_reach env V t m"
| polled: "\<lbrakk>mount_reach env U s m; reads_along reads 5 U s V t; few_ids V;
     poll_refresh_notify env now version reads m = Some (r, ns, m')\<rbrakk> \<Longrightarrow> mount_reach env V t m'"
| marked: "mount_reach env U s m \<Longrightarrow> mount_reach env U s (m\<lparr>ms_needs_rebuild := needs, ms_refreshing := busy\<rparr>)"

lemma reads_run: "reads_along reads n U s V t \<Longrightarrow> fresh_run U s V t"
proof (induction n arbitrary: V t)
  case 0
  thus ?case by (auto intro: fresh_run.start)
next
  case (Suc n)
  then obtain W u where "reads_along reads n U s W u" "fresh_run W u V t" by auto
  thus ?case using Suc.IH feed.run_trans by blast
qed

lemma mount_reach_ok:
  assumes "env_ok env" "mount_reach env U s m"
  shows "feed_ok U s \<and> mount_ok env U s m"
  using assms(2)
proof (induction rule: mount_reach.induct)
  case (opened U s reads V t now version m)
  thus ?case using open_ok [OF assms(1)] feed.run_ok [OF reads_run] by blast
next
  case (written U s m V t)
  thus ?case using mount_ok_drift feed.run_ok by blast
next
  case (polled U s m reads V t now version r ns m')
  thus ?case using poll_ok [OF assms(1) _ _ polled(2,3), of m now version] feed.run_ok [OF reads_run] by fastforce
next
  case (marked U s m needs busy)
  thus ?case by (simp add: mount_ok_def)
qed

subsection \<open>When the reads succeed\<close>

text \<open>No track carries more text tags than the readers' cap.\<close>

definition within_caps :: "store \<Rightarrow> bool" where
  "within_caps s \<longleftrightarrow> (\<forall>i. length (text_tags s i) \<le> max_tags_per_track)"

lemma collect_grouped_succeeds:
  "\<lbrakk>list_all tag_check rs; \<And>i. length (entry_of out i) + length (filter (\<lambda>r. tg_track r = i) rs) \<le> max_tags_per_track\<rbrakk> \<Longrightarrow>
     \<exists>g. collect_grouped rs out = Inr g"
proof (induction rs arbitrary: out)
  case (Cons r rs)
  let ?out = "out(tg_track r \<mapsto> entry_of out (tg_track r) @ [to_db_tag r])"
  have n: "length (entry_of out i) + length (filter (\<lambda>x. tg_track x = i) (r # rs)) \<le> max_tags_per_track" for i
    by (rule Cons.prems(2))
  have "length (entry_of ?out i) + length (filter (\<lambda>x. tg_track x = i) rs) \<le> max_tags_per_track" for i
    using n [of i] by (auto simp: entry_of_def split: if_splits)
  moreover have "list_all tag_check rs" using Cons.prems(1) by simp
  ultimately obtain g where "collect_grouped rs ?out = Inr g" using Cons.IH [of ?out] by blast
  moreover have "read_tag_row r = Inr (to_db_tag r)" using Cons.prems(1) by (simp add: read_tag_row_checked)
  moreover have "check_tag_count (tg_track r) (length (entry_of out (tg_track r) @ [to_db_tag r])) = Inr ()"
    using n [of "tg_track r"] by (simp add: check_tag_count_def)
  ultimately show ?case by (simp add: Let_def entry_of_def)
qed simp

lemma query_chunks_succeeds:
  assumes step: "\<And>c out g i. f c out = Inr g \<Longrightarrow> entry_of g i = entry_of out i @ h c i"
    and ok: "\<And>c out. (\<And>i. length (entry_of out i) + length (h c i) \<le> n) \<Longrightarrow> \<exists>g. f c out = Inr g"
  shows "(\<And>i. length (entry_of out i) + length (concat (map (\<lambda>c. h c i) cs)) \<le> n) \<Longrightarrow> \<exists>g. query_chunks f cs out = Inr g"
proof (induction cs arbitrary: out)
  case (Cons c cs)
  have b: "length (entry_of out i) + (length (h c i) + length (concat (map (\<lambda>c. h c i) cs))) \<le> n" for i
    using Cons.prems [of i] by simp
  have "length (entry_of out i) + length (h c i) \<le> n" for i using b [of i] by linarith
  then obtain x where x: "f c out = Inr x" using ok by blast
  have "length (entry_of x i) + length (concat (map (\<lambda>c. h c i) cs)) \<le> n" for i using b [of i] by (simp add: step [OF x])
  thus ?case using Cons.IH [of x] x by simp
qed simp

definition chunk_tags :: "store \<Rightarrow> (tag_row \<Rightarrow> bool) \<Rightarrow> tag_row list" where
  "chunk_tags s P = sort_key grouped_order (filter P (st_tags s))"

lemma grouped_chunks_succeed:
  assumes s: "store_ok s"
    and n: "\<And>i. length (concat (map (\<lambda>c. filter (\<lambda>r. tg_track r = i) (chunk_tags s (P c))) cs)) \<le> max_tags_per_track"
  shows "\<exists>g. query_chunks (\<lambda>c. collect_grouped (chunk_tags s (P c))) cs Map.empty = Inr g"
proof (rule query_chunks_succeeds [where h = "\<lambda>c i. map to_db_tag (filter (\<lambda>r. tg_track r = i) (chunk_tags s (P c)))" and n = max_tags_per_track])
  fix c out g i assume "collect_grouped (chunk_tags s (P c)) out = Inr g"
  thus "entry_of g i = entry_of out i @ map to_db_tag (filter (\<lambda>r. tg_track r = i) (chunk_tags s (P c)))" by (rule collect_grouped_Inr)
next
  fix c out assume b: "\<And>i. length (entry_of out i) + length (map to_db_tag (filter (\<lambda>r. tg_track r = i) (chunk_tags s (P c)))) \<le> max_tags_per_track"
  have "list_all tag_check (chunk_tags s (P c))" using s by (auto simp: chunk_tags_def store_ok_def tags_ok_def list_all_iff)
  thus "\<exists>g. collect_grouped (chunk_tags s (P c)) out = Inr g" using b by (intro collect_grouped_succeeds) simp_all
next
  fix i
  show "length (entry_of Map.empty i) + length (concat (map (\<lambda>c. map to_db_tag (filter (\<lambda>r. tg_track r = i) (chunk_tags s (P c)))) cs)) \<le> max_tags_per_track"
    using n [of i] by (simp add: length_concat comp_def)
qed

lemma sum_disjoint_filters:
  "distinct (concat cs) \<Longrightarrow> sum_list (map (\<lambda>c. length (filter (\<lambda>x. f x \<in> set c) xs)) cs) \<le> length xs"
proof (induction cs arbitrary: xs)
  case (Cons c cs)
  have "filter (\<lambda>x. f x \<in> set d) (filter (\<lambda>x. f x \<notin> set c) xs) = filter (\<lambda>x. f x \<in> set d) xs" if "d \<in> set cs" for d
    using Cons.prems that by (auto intro!: filter_cong)
  hence "sum_list (map (\<lambda>d. length (filter (\<lambda>x. f x \<in> set d) xs)) cs) =
      sum_list (map (\<lambda>d. length (filter (\<lambda>x. f x \<in> set d) (filter (\<lambda>x. f x \<notin> set c) xs))) cs)"
    by (intro arg_cong [where f = sum_list] map_cong) simp_all
  also have "\<dots> \<le> length (filter (\<lambda>x. f x \<notin> set c) xs)" using Cons.prems by (intro Cons.IH) simp
  finally show ?case using sum_length_filter_compl [of "\<lambda>x. f x \<in> set c" xs] by simp
qed simp

lemma text_rows: "length (text_tags s i) = length (filter (\<lambda>r. tg_track r = i \<and> tg_blob r = None) (st_tags s))"
  by (simp add: text_tags_def)

lemma grouped_reads_succeed:
  assumes s: "store_ok s" "within_caps s" and d: "distinct ks"
    and P: "\<And>c r. P c r \<longleftrightarrow> tg_blob r = None \<and> f r \<in> set c"
  shows "\<exists>g. query_in_chunks (\<lambda>c. collect_grouped (chunk_tags s (P c))) ks Map.empty = Inr g"
  unfolding query_in_chunks_def
proof (rule grouped_chunks_succeed [OF s(1)])
  fix i
  let ?rs = "filter (\<lambda>r. tg_track r = i \<and> tg_blob r = None) (st_tags s)" and ?cs = "key_chunks chunk_cap ks"
  have "length (filter (\<lambda>r. tg_track r = i) (chunk_tags s (P c))) = length (filter (\<lambda>r. f r \<in> set c) ?rs)" for c
    unfolding chunk_tags_def filter_sort by (simp add: P conj_ac)
  moreover have "distinct (concat ?cs)" using d by (simp add: concat_key_chunks chunk_cap_def)
  ultimately have "length (concat (map (\<lambda>c. filter (\<lambda>r. tg_track r = i) (chunk_tags s (P c))) ?cs)) \<le> length ?rs"
    using sum_disjoint_filters [of ?cs f ?rs] by (simp add: length_concat comp_def)
  also have "\<dots> \<le> max_tags_per_track" using s(2) by (simp add: within_caps_def flip: text_rows)
  finally show "length (concat (map (\<lambda>c. filter (\<lambda>r. tg_track r = i) (chunk_tags s (P c))) ?cs)) \<le> max_tags_per_track" .
qed

lemma tags_for_tracks_succeeds: "store_ok s \<Longrightarrow> within_caps s \<Longrightarrow> distinct ids \<Longrightarrow> \<exists>g. tags_for_tracks s ids = Inr g"
  using grouped_reads_succeed [of s ids "\<lambda>c r. tg_track r \<in> set c \<and> tg_blob r = None" tg_track]
  unfolding tags_for_tracks_def chunk_tags_def by blast

lemma render_entries_succeeds:
  assumes "store_ok s" "within_caps s" "lowercase_names parts"
  shows "\<exists>es snap. render_entries parts cfg s s = Inr (es, snap)"
proof -
  have "map to_ascii_lowercase (referenced_fields parts) = referenced_fields parts"
    using assms(3) finite_field_names(2) [of parts] by (intro map_idI) (auto simp: referenced_fields_def lowercase_names_def)
  hence "distinct (map to_ascii_lowercase (referenced_fields parts))" by (simp add: referenced_fields_def)
  from grouped_reads_succeed [OF assms(1,2) this, of "\<lambda>c r. tg_blob r = None \<and> to_ascii_lowercase (tg_key r) \<in> set c" "\<lambda>r. to_ascii_lowercase (tg_key r)"]
  obtain g where "tags_grouped_for_keys s (referenced_fields parts) = Inr g" by (auto simp: tags_grouped_for_keys_def chunk_tags_def)
  moreover have "list_render_keys s = Inr (map (\<lambda>r. (tk_id r, tk_version r, format_of r)) (sort_key tk_id (st_tracks s)))"
    unfolding list_render_keys_def using render_key_checked [of s] assms(1) by (intro collect_rows_map) (simp add: store_ok_def)
  ultimately show ?thesis by (simp add: render_entries_def Let_def)
qed

lemma render_keys_for_succeeds: "store_ok s \<Longrightarrow> \<exists>ks. render_keys_for s ids = Inr ks"
proof -
  assume "store_ok s"
  hence "collect_rows render_key (sort_key tk_id (filter (\<lambda>r. tk_id r \<in> set c) (st_tracks s))) =
      Inr (map (\<lambda>r. (tk_id r, tk_version r, format_of r)) (sort_key tk_id (filter (\<lambda>r. tk_id r \<in> set c) (st_tracks s))))" for c
    using render_key_checked [of s] by (intro collect_rows_map) (simp add: store_ok_def)
  hence "\<exists>ks. query_chunks (\<lambda>c out. rbind (collect_rows render_key (sort_key tk_id (filter (\<lambda>r. tk_id r \<in> set c) (st_tracks s))))
       (\<lambda>ks. Inr (out @ ks))) cs out = Inr ks" for cs out
    by (induction cs arbitrary: out) simp_all
  thus ?thesis by (simp add: render_keys_for_def query_in_chunks_def)
qed

lemma partition_distinct: "distinct ids \<Longrightarrow> distinct (cs_changed (partition_changelog prev ids keys) @ cs_added (partition_changelog prev ids keys))"
  by (auto simp: partition_changelog_eq)

lemma rebuild_full_reads:
  assumes "store_ok s" "within_caps s" "lowercase_names (me_parts env)" "rebuild_full env (Inr s) (Inr s) m = Some (r, m')"
  shows "\<not> isl r"
  using assms(4) render_entries_succeeds [OF assms(1-3), of "me_cfg env"] by (auto simp: rebuild_full_def)

lemma rebuild_incremental_reads:
  assumes s: "store_ok s" "within_caps s" and r: "rebuild_incremental env (Inr s) (Inr s) (Inr s) m = Some (r, m')"
  shows "\<not> isl r"
proof -
  let ?log = "changelog_since s (ms_last_seq m)"
  obtain keys where keys: "render_keys_for s (cr_ids ?log) = Inr keys" using render_keys_for_succeeds [OF s(1)] by blast
  let ?c = "partition_changelog (filter (\<lambda>(i, st). i \<in> set (cr_ids ?log)) (ms_snapshot m)) (cr_ids ?log) keys"
  obtain g where "tags_for_tracks s (cs_changed ?c @ cs_added ?c) = Inr g"
    using tags_for_tracks_succeeds [OF s partition_distinct [OF changelog_distinct]] by blast
  hence "\<exists>new. render_changed env keys (cs_changed ?c @ cs_added ?c) (Inr s) = Inr new" by (simp add: render_changed_def)
  then obtain new where new: "render_changed env keys (cs_changed ?c @ cs_added ?c) (Inr s) = Inr new" ..
  show ?thesis
    using r by (auto simp: rebuild_incremental_def Let_def keys new split: if_splits option.splits prod.splits sum.splits)
qed

lemma idle_reads: "text_store s \<Longrightarrow> reads_along (\<lambda>_. Inr s) n U s U s"
  by (induction n) (auto intro: fresh_run.start)

lemma force_full_cases:
  assumes "force_full_rebuild env now v reads m = Some (r, ns, m')"
  obtains e where "rbind v (\<lambda>v. rbind (max_seq_of (reads 0)) (\<lambda>q. Inr (v, q))) = Inl e" "ns = []" "m' = m"
  | e x where "rebuild_full env (reads 1) (reads 2) (m\<lparr>ms_needs_rebuild := False\<rparr>) = Some (Inl e, x)" "ns = []"
      "m' = x\<lparr>ms_needs_rebuild := ms_needs_rebuild m\<rparr>"
  | "r = Inr True"
proof (cases "rbind v (\<lambda>v. rbind (max_seq_of (reads 0)) (\<lambda>q. Inr (v, q)))")
  case (Inl e)
  thus ?thesis using that(1) assms by (simp add: force_full_rebuild_def)
next
  case (Inr p)
  obtain v q where p: "p = (v, q)" by fastforce
  show ?thesis
  proof (cases "rebuild_full env (reads 1) (reads 2) (m\<lparr>ms_needs_rebuild := False\<rparr>)")
    case None
    thus ?thesis using assms Inr p by (simp add: force_full_rebuild_def)
  next
    case (Some y)
    obtain r0 x where "y = (r0, x)" by fastforce
    thus ?thesis using that(2,3) assms Inr p Some by (cases r0) (simp_all add: force_full_rebuild_def)
  qed
qed

definition counted_gap :: "mount_state \<Rightarrow> mount_state" where
  "counted_gap m = m\<lparr>ms_gap_fallbacks := ms_gap_fallbacks m + 1\<rparr>"

lemma gap_rebuild_counted:
  "gap_rebuild env now v reads m =
     (case max_seq_of (reads 2) of
        Inl e \<Rightarrow> Some (Inl e, [], counted_gap m)
      | Inr q \<Rightarrow>
          Option.bind (rebuild_full env (reads 3) (reads 4) (counted_gap m)) (\<lambda>(r, m').
          case r of
            Inl e \<Rightarrow> Some (Inl e, [], failed_now now m')
          | Inr snapshot \<Rightarrow>
              Some (Inr True, notify_changed (ms_snapshot (counted_gap m)) snapshot (ms_tree (counted_gap m)) (ms_tree m'),
                    finish_full env now v q snapshot m')))"
  unfolding gap_rebuild_def counted_gap_def Let_def by (rule refl)

lemma gap_cases:
  assumes "gap_rebuild env now v reads m = Some (r, ns, m')"
  obtains e where "max_seq_of (reads 2) = Inl e" "ns = []" "m' = counted_gap m"
  | e x where "rebuild_full env (reads 3) (reads 4) (counted_gap m) = Some (Inl e, x)" "ns = []" "m' = failed_now now x"
  | "r = Inr True"
proof (cases "max_seq_of (reads 2)")
  case (Inl e)
  thus ?thesis using that(1) assms by (simp add: gap_rebuild_counted)
next
  case (Inr q)
  show ?thesis
  proof (cases "rebuild_full env (reads 3) (reads 4) (counted_gap m)")
    case None
    thus ?thesis using assms Inr by (simp add: gap_rebuild_counted)
  next
    case (Some y)
    obtain r0 x where "y = (r0, x)" by fastforce
    thus ?thesis using that(2,3) assms Inr Some by (cases r0) (simp_all add: gap_rebuild_counted)
  qed
qed

lemma incremental_cases:
  assumes "incremental_pass env now v reads m = Some (r, ns, m')"
  obtains e x where "rebuild_incremental env (reads 0) (reads 1) (reads 2) m = Some (Inl e, x)" "ns = []" "m' = failed_now now x"
  | x where "rebuild_incremental env (reads 0) (reads 1) (reads 2) m = Some (Inr None, x)" "gap_rebuild env now v reads x = Some (r, ns, m')"
  | "r = Inr True"
proof (cases "rebuild_incremental env (reads 0) (reads 1) (reads 2) m")
  case None
  thus ?thesis using assms by (simp add: incremental_pass_def)
next
  case (Some y)
  obtain r0 x where y: "y = (r0, x)" by fastforce
  show ?thesis
  proof (cases r0)
    case (Inl e)
    thus ?thesis using that(1) assms Some y by (simp add: incremental_pass_def)
  next
    case (Inr out)
    thus ?thesis using that(2,3) assms Some y by (cases out) (simp_all add: incremental_pass_def)
  qed
qed

lemma rebuild_full_fails: "rebuild_full env a b x = Some (Inl e, x') \<Longrightarrow> x' = x"
  by (auto simp: rebuild_full_def split: sum.splits)

lemma rebuild_incremental_fails:
  "rebuild_incremental env a b c x = Some (r, x') \<Longrightarrow> \<forall>out. r \<noteq> Inr (Some out) \<Longrightarrow> x' = x"
  by (auto simp: rebuild_incremental_def Let_def split: sum.splits if_splits option.splits prod.splits)

lemma idle_poll_refreshes:
  assumes s: "store_ok s" "within_caps s" "lowercase_names (me_parts env)"
    and gates: "ms_needs_rebuild m \<or> \<not> poll_debounced env now m" "\<not> ms_refreshing m" "ms_needs_rebuild m \<or> v \<noteq> ms_data_version m"
    and p: "poll_refresh_notify env now (\<lambda>_. Inr v) (\<lambda>_. Inr s) m = Some (r, ns, m')"
  shows "r = Inr True"
proof -
  have force: "r = Inr True" if "force_full_rebuild env now (Inr v) (\<lambda>_. Inr s) m = Some (r, ns, m')"
    using that by (rule force_full_cases) (auto simp: max_seq_of_def dest: rebuild_full_reads [OF s])
  have gap: "r = Inr True" if "gap_rebuild env now v (\<lambda>_. Inr s) x = Some (r, ns, m')" for x
    using that by (rule gap_cases) (auto simp: max_seq_of_def dest: rebuild_full_reads [OF s])
  have inc: "r = Inr True" if "incremental_pass env now v (\<lambda>_. Inr s) m = Some (r, ns, m')"
    using that by (rule incremental_cases) (auto dest: rebuild_incremental_reads [OF s(1,2)] gap)
  show ?thesis using p gates force inc by (auto simp: poll_refresh_notify_def split: if_splits)
qed

subsection \<open>An example mount\<close>

text \<open>A mount opened on one untagged track, its store then tagged.\<close>

definition demo_env :: mount_env where
  "demo_env = \<lparr>me_parts = [Field [''title''] False], me_cfg = demo_cfg, me_lower = to_ascii_lowercase, me_hash_order = id,
     me_poll_interval = 10, me_backoff = 10\<rparr>"

definition demo_mount :: mount_state where
  "demo_mount = projr (the (mount_open demo_env 0 (Inr 1) (\<lambda>_. Inr demo_db)))"

lemma demo_opened:
  "case mount_open demo_env 0 (Inr 1) (\<lambda>_. Inr demo_db) of
     Some (Inr m) \<Rightarrow> ms_data_version m = 1 \<and> ms_last_seq m = 1 \<and> \<not> ms_needs_rebuild m \<and> \<not> ms_refreshing m \<and>
       \<not> poll_debounced demo_env 20 m \<and> ms_snapshot m = [(1, \<lparr>rs_version = 0, rs_format = Flac, rs_path = ''Unknown.flac''\<rparr>)]
   | _ \<Rightarrow> False"
  by code_simp

lemma demo_mount_open: "mount_open demo_env 0 (Inr 1) (\<lambda>_. Inr demo_db) = Some (Inr demo_mount)"
  using demo_opened by (auto simp: demo_mount_def split: option.splits sum.splits)

lemma demo_env_ok: "env_ok demo_env"
  using ascii_fold.case_folding_axioms
  by (simp add: env_ok_def demo_env_def demo_cfg_def whole_config_def whole_fields_def lowercase_names_def cont_char_def
      to_ascii_lowercase_def ascii_lower_char_def)

lemma demo_text: "text_store demo_db" "text_store demo_db_tagged"
  by (simp_all add: text_store_def demo_db_def demo_db_tagged_def cont_char_def)

lemma demo_tag_step: "row_step demo_db demo_db_tagged"
proof (rule InsertTag)
  show "sql_insert_tag 9 \<lparr>tg_rowid = 0, tg_track = 1, tg_key = ''title'', tg_value = ''Halleluwah'', tg_ordinal = 0, tg_blob = None\<rparr> demo_db =
      Inr demo_db_tagged" by code_simp
qed

lemma demo_rendered:
  "rendered (me_parts demo_env) (me_cfg demo_env) demo_db_tagged 1 =
     Some \<lparr>rs_version = 1, rs_format = Flac, rs_path = ''Halleluwah.flac''\<rparr>"
  by code_simp

lemma demo_reached: "mount_reach demo_env {1} demo_db_tagged demo_mount"
proof -
  have f: "feed_ok {1} demo_db" using demo_db_ok by (simp add: feed_ok_def ids_of_def demo_db_def)
  have few: "few_ids {1}" by (simp add: few_ids_def)
  have "mount_reach demo_env {1} demo_db demo_mount"
    by (rule mount_reach.opened [OF f idle_reads [OF demo_text(1)] few demo_mount_open])
  moreover have "ids_of demo_db_tagged = {1}" "ids_of demo_db = {1}" by (simp_all add: ids_of_def demo_db_def demo_db_tagged_def)
  hence "fresh_run {1} demo_db {1} demo_db_tagged"
    using fresh_run.more [OF fresh_run.start demo_tag_step, of "{1}"] by simp
  ultimately show ?thesis by (rule mount_reach.written)
qed

lemma demo_within_caps: "within_caps demo_db_tagged"
  unfolding within_caps_def text_rows by (simp add: demo_db_tagged_def max_tags_per_track_def)

lemma demo_gates: "ms_data_version demo_mount = 1" "\<not> poll_debounced demo_env 20 demo_mount" "\<not> ms_refreshing demo_mount"
  "\<not> ms_needs_rebuild demo_mount" "ms_last_seq demo_mount = 1"
  "ms_snapshot demo_mount = [(1, \<lparr>rs_version = 0, rs_format = Flac, rs_path = ''Unknown.flac''\<rparr>)]"
  using demo_opened unfolding demo_mount_open by simp_all

subsection \<open>The properties\<close>

text \<open>C2: A mount follows its store: in every state it reaches by being opened, having its store written (no
  deleted id reused), polling with the store written between any two reads of the poll, and being
  marked for a rebuild, its tree is well formed and holds exactly the tracks of its snapshot, each at
  the place its rendered path names; every track the changelog does not name after the mount's
  watermark is in the snapshot as the store renders it now, unless the ring no longer reaches back;
  and a snapshot entry whose version and format are still the row's is the track's current rendering.
\<close>

theorem mount_follows_store:
  assumes "env_ok env" "mount_reach env U s m"
  shows "tree_shows env (ms_tree m) (ms_alloc m) (ms_snapshot m) \<and>
    (changelog_gap (changelog_since s (ms_last_seq m)) (ms_last_seq m) \<or>
     (\<forall>i. i \<notin> set (cr_ids (changelog_since s (ms_last_seq m))) \<longrightarrow>
        map_of (ms_snapshot m) i = rendered (me_parts env) (me_cfg env) s i)) \<and>
    (\<forall>i st. map_of (ms_snapshot m) i = Some st \<longrightarrow> row_key s i = Some (state_key st) \<longrightarrow>
        rendered (me_parts env) (me_cfg env) s i = Some st)"
  using mount_reach_ok [OF assms] unfolding mount_ok_def feed.in_sync_def feed_lost_def feed_since_def by blast

lemma mount_follows_store_witness:
  "\<exists>t a. tree_shows demo_env t a [(1, \<lparr>rs_version = 0, rs_format = Flac, rs_path = ''Unknown.flac''\<rparr>)] \<and>
     \<not> changelog_gap (changelog_since demo_db_tagged 1) 1 \<and> 1 \<in> set (cr_ids (changelog_since demo_db_tagged 1)) \<and>
     rendered (me_parts demo_env) (me_cfg demo_env) demo_db_tagged 2 = None"
proof -
  have "\<not> changelog_gap (changelog_since demo_db_tagged 1) 1" "1 \<in> set (cr_ids (changelog_since demo_db_tagged 1))"
    "2 \<notin> set (cr_ids (changelog_since demo_db_tagged 1))" by code_simp+
  moreover from mount_follows_store [OF demo_env_ok demo_reached, unfolded demo_gates] this
  have "rendered (me_parts demo_env) (me_cfg demo_env) demo_db_tagged 2 =
      map_of [(1::int, \<lparr>rs_version = 0, rs_format = Flac, rs_path = ''Unknown.flac''\<rparr>)] 2"
    "\<exists>t a. tree_shows demo_env t a [(1, \<lparr>rs_version = 0, rs_format = Flac, rs_path = ''Unknown.flac''\<rparr>)]" by metis+
  ultimately show ?thesis by simp
qed

text \<open>C1: A poll catches up: in every reachable state, once the store rests (its tags within the readers'
  per-track cap and the ids few enough for the rank counter), a poll that passes the gates returns
  true, without a panic or an error, by whichever of the incremental, full or self-healing path, and
  leaves the snapshot equal to the rendering of every track of the store and the tree showing it.
\<close>

theorem poll_catches_up:
  assumes "env_ok env" "mount_reach env U s m" "few_ids U" "text_store s" "within_caps s"
    "ms_needs_rebuild m \<or> \<not> poll_debounced env now m" "\<not> ms_refreshing m" "ms_needs_rebuild m \<or> v \<noteq> ms_data_version m"
  shows "\<exists>ns m'. poll_refresh_notify env now (\<lambda>_. Inr v) (\<lambda>_. Inr s) m = Some (Inr True, ns, m') \<and>
    (\<forall>i. map_of (ms_snapshot m') i = rendered (me_parts env) (me_cfg env) s i) \<and>
    tree_shows env (ms_tree m') (ms_alloc m') (ms_snapshot m')"
proof -
  have m: "feed_ok U s" "mount_ok env U s m" using mount_reach_ok [OF assms(1,2)] by simp_all
  obtain r ns m' where p: "poll_refresh_notify env now (\<lambda>_. Inr v) (\<lambda>_. Inr s) m = Some (r, ns, m')" "mount_ok env U s m'"
      "r = Inr True \<longrightarrow> st_seq s \<le> ms_last_seq m'"
    using poll_ok [OF assms(1) m idle_reads [OF assms(4)] assms(3)] by blast
  have "store_ok s" "lowercase_names (me_parts env)" using m(1) assms(1) by (simp_all add: feed_ok_def env_ok_def whole_config_def)
  hence r: "r = Inr True" using idle_poll_refreshes [OF _ assms(5) _ assms(6-8) p(1)] by blast
  hence "ms_last_seq m' = st_seq s" using p(2,3) by (simp add: mount_ok_def feed.in_sync_def)
  hence sync: "mount_sync env U (st_seq s) s (ms_snapshot m')" using p(2) by (simp add: mount_ok_def)
  have "map_of (ms_snapshot m') i = rendered (me_parts env) (me_cfg env) s i" for i
    by (rule feed.sync_exact [OF sync m(1)])
  thus ?thesis using p(1,2) r by (auto simp: mount_ok_def)
qed

lemma poll_catches_up_witness:
  "\<exists>ns m'. poll_refresh_notify demo_env 20 (\<lambda>_. Inr 2) (\<lambda>_. Inr demo_db_tagged) demo_mount = Some (Inr True, ns, m') \<and>
     map_of (ms_snapshot m') 1 = Some \<lparr>rs_version = 1, rs_format = Flac, rs_path = ''Halleluwah.flac''\<rparr>"
proof -
  have "few_ids {1}" by (simp add: few_ids_def)
  thus ?thesis
    using poll_catches_up [OF demo_env_ok demo_reached _ demo_text(2) demo_within_caps, of 20 2] demo_gates demo_rendered by auto
qed

text \<open>A failing poll serves on from the old state and asks for the same work again.\<close>

theorem failing_poll_keeps_state:
  assumes "poll_refresh_notify env now version reads m = Some (Inl e, ns, m')"
  shows "ns = [] \<and> ms_tree m' = ms_tree m \<and> ms_alloc m' = ms_alloc m \<and> ms_snapshot m' = ms_snapshot m \<and>
    ms_last_seq m' = ms_last_seq m \<and> ms_data_version m' = ms_data_version m \<and> ms_needs_rebuild m' = ms_needs_rebuild m"
proof -
  have force: ?thesis if "force_full_rebuild env now v reads m = Some (Inl e, ns, m')" for v
    using that by (rule force_full_cases) (auto dest!: rebuild_full_fails)
  have gap: ?thesis if "gap_rebuild env now v reads m = Some (Inl e, ns, m')" for v
    using that by (rule gap_cases) (auto simp: failed_now_def counted_gap_def dest!: rebuild_full_fails)
  have ?thesis if inc: "incremental_pass env now v reads m = Some (Inl e, ns, m')" for v
    using inc
  proof (cases rule: incremental_cases)
    case (2 x)
    hence "x = m" by (auto dest: rebuild_incremental_fails)
    thus ?thesis using 2 gap by blast
  qed (auto simp: failed_now_def dest!: rebuild_incremental_fails)
  thus ?thesis using assms force
    by (auto simp: poll_refresh_notify_def failed_now_def split: if_splits sum.splits)
qed

text \<open>
  Only the incremental path and its fallback arm the back-off: a case-insensitive mount whose rebuild
  fails keeps no record of it, so the next poll rebuilds again at once.
\<close>

lemma folded_mount_retries_at_once:
  assumes "mc_case_insensitive (me_cfg env)" "version 0 = Inr v" "poll_refresh_notify env now version reads m = Some (Inl e, ns, m')"
  shows "m' = m"
proof -
  have "m' = m" if "force_full_rebuild env now v reads m = Some (Inl e, ns, m')" for v
    using that by (rule force_full_cases) (auto dest!: rebuild_full_fails)
  thus ?thesis using assms by (auto simp: poll_refresh_notify_def split: if_splits)
qed

end
