(* ===== verification/Resolve.thy ===== *)
theory Resolve
  imports Reader Render Flac_Synth Wav Mp4_Synth Ogg_Synth
begin

text \<open>
  Resolving a track to its synthesized file, musefs-core/src/reader.rs with the stamp of
  freshness.rs and the art source of mapping.rs: the rows of the track are read, the backing file is
  checked against its stamp, the file is synthesized by the format of the row, and the result is
  cached under the track's id. The reads of a resolve are not one snapshot: each of them, down to the
  windows of images an Ogg synthesis streams, has its own state of the store as an argument. The file
  system is looked at twice, for the stamp and to open the file. The cache is a map; what the library
  evicts is a step of its own, and its hit counters are left out.
\<close>

subsection \<open>The stamp of a row and the blobs of the store\<close>

datatype serve_mode = Synthesis | StructureOnly

definition stamp_from_track :: "track \<Rightarrow> backing_stamp" where
  "stamp_from_track t = \<lparr>bs_size = tr_size t, bs_mtime_ns = tr_mtime t, bs_ctime_ns = tr_ctime t\<rparr>"

definition blobs_of :: "store \<Rightarrow> blob_store" where
  "blobs_of s =
     \<lparr>st_art = (\<lambda>i. map_option ar_data (find (\<lambda>a. ar_id a = i) (st_arts s))),
      st_tag = (\<lambda>i. Option.bind (find (\<lambda>r. tg_rowid r = i) (st_tags s)) tg_blob)\<rparr>"

definition db_art_source :: "(int \<Rightarrow> nat \<Rightarrow> nat \<Rightarrow> store cresult) \<Rightarrow> art_source" where
  "db_art_source windows i off n =
     map_err (\<lambda>_. ArtRead i) (rbind (windows i off n) (\<lambda>s. read_art_chunk (blobs_of s) i off n))"

subsection \<open>Reading the front of the backing file\<close>

type_synonym opened = "io_error + (file_meta \<times> bytes)"

definition max_probe_bytes :: nat where "max_probe_bytes = 67108864"

definition read_front :: "string \<Rightarrow> opened \<Rightarrow> nat \<Rightarrow> bytes cresult" where
  "read_front path file n =
     (if n > max_probe_bytes then Inl (HeaderTooLarge n max_probe_bytes)
      else case file of
        Inl e \<Rightarrow> Inl (BackingIo path e)
      | Inr (m, f) \<Rightarrow> if n \<le> length f then Inr (take n f) else Inl (BackingIo path UnexpectedEof))"

definition region_of :: "bytes \<Rightarrow> io_error region" where
  "region_of f off n = (if off + n \<le> length f then Inr (slice f off n) else Inl UnexpectedEof)"

fun mp4_scan_err :: "string \<Rightarrow> io_error mp4_scan_error \<Rightarrow> core_error" where
  "mp4_scan_err path (Mp4Io e) = BackingIo path e"
| "mp4_scan_err path (Mp4Format e) = FormatErr e"
| "mp4_scan_err path (MetadataTooLarge kind sz cap) = Mp4MetadataTooLarge kind sz cap"

subsection \<open>Building a file\<close>

record build_reads =
  rd_track :: "store cresult"
  rd_tags :: "store cresult"
  rd_art :: "store cresult"
  rd_binary :: "store cresult"
  rd_blocks :: "store cresult"
  rd_windows :: "int \<Rightarrow> nat \<Rightarrow> nat \<Rightarrow> store cresult"

definition structural_of :: "structural_block list \<Rightarrow> metadata_block list" where
  "structural_of rows =
     List.map_filter (\<lambda>b. map_option (\<lambda>ty. \<lparr>mb_type = ty, mb_body = sb_body b\<rparr>) (structural_block_type (sb_kind b))) rows"

text \<open>A FLAC track with no structural rows carries every preserved block of the file itself.\<close>

definition flac_parts ::
  "build_reads \<Rightarrow> track \<Rightarrow> opened \<Rightarrow> binary_tag_input list \<Rightarrow> (metadata_block list \<times> binary_tag_input list) cresult" where
  "flac_parts r t file binary =
     rbind (rbind (rd_blocks r) (\<lambda>s. map_err DbErr (get_structural_blocks s (tr_id t)))) (\<lambda>rows.
     if rows = [] then
       rbind (read_front (tr_path t) file (tr_offset t)) (\<lambda>front.
       rbind (map_err FormatErr (flac_read_metadata front)) (\<lambda>fm. Inr (fm_preserved fm, [])))
     else Inr (structural_of rows, binary))"

definition flac_file ::
  "build_reads \<Rightarrow> track \<Rightarrow> opened \<Rightarrow> tag_input list \<Rightarrow> binary_tag_input list \<Rightarrow> art_input list \<Rightarrow> region_layout cresult" where
  "flac_file r t file inputs binary arts =
     rbind (flac_parts r t file binary) (\<lambda>(structural, binary).
     map_err FormatErr (flac_synthesize_layout structural (tr_offset t) (tr_len t) inputs binary arts))"

definition mp4_file ::
  "track \<Rightarrow> nat \<Rightarrow> opened \<Rightarrow> tag_input list \<Rightarrow> binary_tag_input list \<Rightarrow> art_input list \<Rightarrow> region_layout cresult" where
  "mp4_file t len file inputs binary arts =
     (case file of
        Inl e \<Rightarrow> Inl (BackingIo (tr_path t) e)
      | Inr (m, f) \<Rightarrow>
          rbind (map_err (mp4_scan_err (tr_path t)) (mp4_read_structure_from (region_of f) len)) (\<lambda>scan.
          map_err FormatErr (mp4_synthesize_layout scan inputs binary arts)))"

definition wav_file ::
  "track \<Rightarrow> opened \<Rightarrow> tag_input list \<Rightarrow> binary_tag_input list \<Rightarrow> art_input list \<Rightarrow> region_layout cresult" where
  "wav_file t file inputs binary arts =
     rbind (read_front (tr_path t) file (tr_offset t)) (\<lambda>front.
     rbind (map_err FormatErr (wav_read_structure front)) (\<lambda>scan.
     map_err FormatErr (wav_synthesize_layout scan (tr_offset t) (tr_len t) inputs binary arts)))"

definition ogg_file ::
  "(bytes \<Rightarrow> bytes) \<Rightarrow> art_source \<Rightarrow> track \<Rightarrow> opened \<Rightarrow> tag_input list \<Rightarrow> art_input list \<Rightarrow> region_layout cresult option" where
  "ogg_file enc src t file inputs arts =
     pbind (Some (read_front (tr_path t) file (tr_offset t))) (\<lambda>front.
     pbind (Some (map_err FormatErr (read_header front))) (\<lambda>header.
     map_option (map_err FormatErr) (ogg_synthesize_layout enc src header (tr_offset t) (tr_len t) inputs arts)))"

definition synthesize ::
  "(bytes \<Rightarrow> bytes) \<Rightarrow> build_reads \<Rightarrow> track \<Rightarrow> nat \<Rightarrow> opened \<Rightarrow> tag_input list \<Rightarrow> art_input list \<Rightarrow> binary_tag_input list \<Rightarrow>
   region_layout cresult option" where
  "synthesize enc r t len file inputs arts binary =
     (case tr_format t of
        Refresh_Diff.Flac \<Rightarrow> Some (flac_file r t file inputs binary arts)
      | Refresh_Diff.Mp3 \<Rightarrow> Some (map_err FormatErr (mp3_synthesize_layout (tr_offset t) (tr_len t) inputs binary arts))
      | Refresh_Diff.M4a \<Rightarrow> Some (mp4_file t len file inputs binary arts)
      | Refresh_Diff.Wav \<Rightarrow> Some (wav_file t file inputs binary arts)
      | _ \<Rightarrow> ogg_file enc (db_art_source (rd_windows r)) t file inputs arts)"

definition build_layout ::
  "(bytes \<Rightarrow> bytes) \<Rightarrow> serve_mode \<Rightarrow> build_reads \<Rightarrow> track \<Rightarrow> nat \<Rightarrow> opened \<Rightarrow> region_layout cresult option" where
  "build_layout enc mode r t len file =
     (case mode of
        StructureOnly \<Rightarrow> Some (map_err (FormatErr \<circ> InvalidLayout) (validated [BackingAudio 0 len]))
      | Synthesis \<Rightarrow>
          if sat_add64 (tr_offset t) (tr_len t) > len then Some (Inl (BackingChanged (tr_path t)))
          else pbind (Some (rbind (rd_tags r) (\<lambda>s. map_err DbErr (get_tags s (tr_id t))))) (\<lambda>tags.
               pbind (Some (rbind (rd_art r) (\<lambda>s. track_art_to_inputs s (tr_id t)))) (\<lambda>arts.
               pbind (Some (rbind (rd_binary r) (\<lambda>s. binary_tags_to_inputs s (tr_id t)))) (\<lambda>binary.
               synthesize enc r t len file (tags_to_inputs tags) arts binary))))"

definition inline_bytes :: "segment list \<Rightarrow> nat" where
  "inline_bytes segs = sum_list (map (\<lambda>s. case s of Inline b \<Rightarrow> length b | _ \<Rightarrow> 0) segs)"

definition build_resolved ::
  "(bytes \<Rightarrow> bytes) \<Rightarrow> serve_mode \<Rightarrow> build_reads \<Rightarrow> track \<Rightarrow> nat \<Rightarrow> opened \<Rightarrow> resolved_file cresult option" where
  "build_resolved enc mode r t len file =
     pbind (build_layout enc mode r t len file) (\<lambda>layout.
     pbind (Some (map_err (FormatErr \<circ> InvalidLayout) (validate layout))) (\<lambda>_.
     Some (Inr \<lparr>rf_layout = layout,
                rf_total_len = (case mode of StructureOnly \<Rightarrow> len | Synthesis \<Rightarrow> rl_total_len layout),
                rf_track_id = tr_id t, rf_content_version = tr_version t, rf_backing_path = tr_path t,
                rf_stamp = stamp_from_track t,
                rf_mtime_secs = (case mode of StructureOnly \<Rightarrow> display_secs (stamp_from_track t)
                   | Synthesis \<Rightarrow> max (display_secs (stamp_from_track t)) (tr_updated t)),
                rf_last_page = None, rf_cache_bytes = inline_bytes (rl_segments layout),
                rf_streams_db_rowid = streams_db_rowid layout\<rparr>)))"

subsection \<open>The cache\<close>

type_synonym header_cache = "int \<Rightarrow> resolved_file option"

definition cache_retain :: "int set \<Rightarrow> header_cache \<Rightarrow> header_cache" where
  "cache_retain live h = h |` live"

definition cache_remove :: "int \<Rightarrow> header_cache \<Rightarrow> header_cache" where
  "cache_remove i h = h(i := None)"

definition cache_hit :: "int \<Rightarrow> track \<Rightarrow> header_cache \<Rightarrow> resolved_file option" where
  "cache_hit i t h =
     (case h i of
        None \<Rightarrow> None
      | Some hit \<Rightarrow>
          if rf_content_version hit = tr_version t \<and> rf_stamp hit = stamp_from_track t \<and> rf_backing_path hit = tr_path t
          then Some hit else None)"

definition resolve ::
  "(bytes \<Rightarrow> bytes) \<Rightarrow> serve_mode \<Rightarrow> build_reads \<Rightarrow> file_system \<Rightarrow> file_system \<Rightarrow> int \<Rightarrow> header_cache \<Rightarrow>
   (resolved_file cresult \<times> header_cache) option" where
  "resolve enc mode r stat_fs open_fs i h =
     (case rbind (rd_track r) (\<lambda>s. map_err DbErr (get_track s i)) of
        Inl e \<Rightarrow> Some (Inl e, h)
      | Inr None \<Rightarrow> Some (Inl (TrackNotFound i), h)
      | Inr (Some t) \<Rightarrow>
      case stat_fs (tr_path t) of
        Inl e \<Rightarrow> Some (Inl (BackingIo (tr_path t) e), h)
      | Inr (m, _) \<Rightarrow>
      if stamp_from_metadata m \<noteq> stamp_from_track t then Some (Inl (BackingChanged (tr_path t)), h)
      else case cache_hit i t h of
        Some hit \<Rightarrow> Some (Inr hit, h)
      | None \<Rightarrow>
          map_option (\<lambda>res. case res of Inl e \<Rightarrow> (Inl e, h) | Inr rf \<Rightarrow> (Inr rf, h(i \<mapsto> rf)))
            (build_resolved enc mode r t (fm_len m) (open_fs (tr_path t))))"

end
