(* ===== verification/Resolve_Cache.thy ===== *)
theory Resolve_Cache
  imports Resolve Change_Feed
begin

text \<open>
  A resolved file stays right for as long as the version of its row and the stamp of its backing file
  do: however the store was written between the reads of its resolve, and whichever resolves, evictions
  and refreshes share the cache, the layout is the one a build from the rows of now would give.
\<close>

subsection \<open>Reads depend on what a track is served from\<close>

lemma map_err_Inr: "map_err f r = Inr x \<longleftrightarrow> r = Inr x"
  by (cases r) simp_all

lemma served_parts:
  assumes "served s i = served t i"
  shows "tags_of s i = tags_of t i" "links_of s i = links_of t i" "blocks_of s i = blocks_of t i"
    "k \<in> set (links_of t i) \<Longrightarrow> filter (\<lambda>a. ar_id a = ln_art k) (st_arts s) = filter (\<lambda>a. ar_id a = ln_art k) (st_arts t)"
proof -
  let ?p = "\<lambda>s. map (\<lambda>k. (k, filter (\<lambda>a. ar_id a = ln_art k) (st_arts s))) (links_of s i)"
  have p: "?p s = ?p t" using assms by (simp add: served_def)
  have "map fst (?p s) = map fst (?p t)" by (simp only: p)
  thus l: "links_of s i = links_of t i" by (simp add: comp_def)
  show "tags_of s i = tags_of t i" "blocks_of s i = blocks_of t i" using assms by (simp_all add: served_def)
  assume "k \<in> set (links_of t i)"
  thus "filter (\<lambda>a. ar_id a = ln_art k) (st_arts s) = filter (\<lambda>a. ar_id a = ln_art k) (st_arts t)"
    using p unfolding l map_eq_conv by simp
qed

lemma filter_rows:
  "filter (\<lambda>r. tg_track r = i \<and> P r) (st_tags s) = filter P (tags_of s i)"
  "filter (\<lambda>k. ln_track k = i) (st_links s) = links_of s i" "filter (\<lambda>b. bk_track b = i) (st_blocks s) = blocks_of s i"
  by (simp_all add: tags_of_def links_of_def blocks_of_def conj_commute)

lemma get_tags_served: "served s i = served t i \<Longrightarrow> get_tags s i = get_tags t i"
  by (simp add: get_tags_def filter_rows served_parts(1) [of s i t])

lemma get_binary_served: "served s i = served t i \<Longrightarrow> binary_tags_to_inputs s i = binary_tags_to_inputs t i"
  by (simp add: binary_tags_to_inputs_def get_binary_tags_def filter_rows served_parts(1) [of s i t])

lemma get_blocks_served: "served s i = served t i \<Longrightarrow> get_structural_blocks s i = get_structural_blocks t i"
  by (simp add: get_structural_blocks_def filter_rows served_parts(3) [of s i t])

lemma collect_art_cong:
  "(\<And>k. k \<in> set ks \<Longrightarrow> get_art_meta s (ln_art k) = get_art_meta t (ln_art k)) \<Longrightarrow> collect_art s i ks out = collect_art t i ks out"
  by (induction ks arbitrary: out) simp_all

lemma art_inputs_served: "served s i = served t i \<Longrightarrow> track_art_to_inputs s i = track_art_to_inputs t i"
proof -
  assume a: "served s i = served t i"
  have "get_art_meta s (ln_art k) = get_art_meta t (ln_art k)" if "k \<in> set (links_of t i)" for k
    unfolding get_art_meta_def served_parts(4) [OF a that] ..
  hence "collect_art s i (sort_key ln_ordinal (links_of t i)) [] = collect_art t i (sort_key ln_ordinal (links_of t i)) []"
    by (intro collect_art_cong) simp
  thus ?thesis by (simp add: track_art_to_inputs_def get_track_art_with_meta_def filter_rows served_parts(2) [OF a])
qed

lemma find_filter: "find P xs = (case filter P xs of [] \<Rightarrow> None | x # _ \<Rightarrow> Some x)"
  by (induction xs) auto

lemma blob_served:
  "served s i = served t i \<Longrightarrow> k \<in> set (links_of t i) \<Longrightarrow> st_art (blobs_of s) (ln_art k) = st_art (blobs_of t) (ln_art k)"
  unfolding blobs_of_def blob_store.simps find_filter using served_parts(4) by metis

subsection \<open>The pictures of a track\<close>

lemma collect_art_rows:
  "collect_art s i ks out = Inr rows \<Longrightarrow> (ta, m) \<in> set rows \<Longrightarrow>
     (ta, m) \<in> set out \<or> (\<exists>k\<in>set ks. ta_art ta = ln_art k \<and> get_art_meta s (ln_art k) = Inr m)"
proof (induction ks arbitrary: out)
  case (Cons k ks)
  then obtain ta' m' where "read_link k = Inr ta'" "get_art_meta s (ln_art k) = Inr m'" "collect_art s i ks (out @ [(ta', m')]) = Inr rows"
    by (auto simp: rbind_eq_Inr)
  moreover from this(1) have "ta_art ta' = ln_art k" by (auto simp: read_link_def rbind_eq_Inr)
  ultimately show ?case using Cons.IH [of "out @ [(ta', m')]"] Cons.prems(2) by auto
qed simp

lemma art_inputs_rows:
  "art_inputs i rows = Inr ins \<Longrightarrow> a \<in> set ins \<Longrightarrow>
     \<exists>ta m. (ta, Some m) \<in> set rows \<and> ai_art_id a = ta_art ta \<and> ai_data_len a = am_len m"
proof (induction i rows arbitrary: ins rule: art_inputs.induct)
  case (3 i ta m rest)
  show ?case
  proof (cases "blob_len_new (am_len m)")
    case None
    thus ?thesis using 3 by auto
  next
    case (Some len)
    hence "len = am_len m" by (auto simp: blob_len_new_def split: if_splits)
    thus ?thesis using 3 Some by (fastforce simp: rbind_eq_Inr split: if_splits option.splits)
  qed
qed auto

text \<open>An input is the image of a picture link of the track, with its length.\<close>

lemma track_art_input:
  assumes s: "store_ok s" and r: "track_art_to_inputs s i = Inr ins" "a \<in> set ins"
  shows "(\<exists>k\<in>set (links_of s i). ai_art_id a = ln_art k) \<and>
    (\<exists>b. st_art (blobs_of s) (ai_art_id a) = Some b \<and> length b = ai_data_len a)"
proof -
  obtain rows where "get_track_art_with_meta s i = Inr rows" "art_inputs i rows = Inr ins"
    using r(1) by (auto simp: track_art_to_inputs_def rbind_eq_Inr map_err_Inr)
  moreover obtain ta m where m: "(ta, Some m) \<in> set rows" "ai_art_id a = ta_art ta" "ai_data_len a = am_len m"
    using art_inputs_rows [OF calculation(2) r(2)] by blast
  ultimately obtain k where k: "k \<in> set (links_of s i)" "ta_art ta = ln_art k" "get_art_meta s (ln_art k) = Inr (Some m)"
    using collect_art_rows [of s i "sort_key ln_ordinal (links_of s i)" "[]" rows ta "Some m"]
    by (auto simp: get_track_art_with_meta_def filter_rows)
  obtain x xs where x: "filter (\<lambda>x. ar_id x = ln_art k) (st_arts s) = x # xs" "to_art_meta x = Inr m"
    using k(3) by (auto simp: get_art_meta_def query_optional_def rbind_eq_Inr split: list.splits)
  have "x \<in> set (st_arts s)" using arg_cong [OF x(1), of set] by auto
  hence "art_check x" using s by (simp add: store_ok_def arts_ok_def list_all_iff)
  hence "length (ar_data x) = am_len m" using x(2) by (auto simp: art_check_def to_art_meta_def from_column_def rbind_eq_Inr split: if_splits)
  thus ?thesis using k m x(1) by (auto simp: blobs_of_def find_filter)
qed

subsection \<open>Ogg synthesis asks the art source for pictures of the track only\<close>

definition src_refines :: "art_source \<Rightarrow> art_source \<Rightarrow> int \<Rightarrow> bool" where
  "src_refines src src' i \<longleftrightarrow> (\<forall>off n b. src i off n = Inr b \<longrightarrow> src' i off n = Inr b)"

abbreviation chunks_refine :: "art_source \<Rightarrow> art_source \<Rightarrow> payload_chunk list \<Rightarrow> bool" where
  "chunks_refine src src' cs \<equiv> \<forall>i b n. Art i b n \<in> set cs \<longrightarrow> src_refines src src' i"

lemma crc_feed_art_mono: "crc_feed_art enc src crc i b tot off n = Inr c \<Longrightarrow> src_refines src src' i \<Longrightarrow>
    crc_feed_art enc src' crc i b tot off n = Inr c"
  by (auto simp: crc_feed_art_def src_refines_def Let_def rbind_eq_Inr split: if_splits)

lemma crc_feed_mono:
  "crc_feed_from enc src p0 e crc cs chunks = Inr c \<Longrightarrow> chunks_refine src src' chunks \<Longrightarrow>
     crc_feed_from enc src' p0 e crc cs chunks = Inr c"
proof (induction chunks arbitrary: crc cs)
  case (Cons x chunks)
  let ?st = "\<lambda>src. if max p0 cs < min e (cs + out_len x) then (case x of
      Bytes b \<Rightarrow> Inr (crc32_update crc (slice b (max p0 cs - cs) (min e (cs + out_len x) - max p0 cs)))
    | Art i b n \<Rightarrow> crc_feed_art enc src crc i b n (max p0 cs - cs) (min e (cs + out_len x) - max p0 cs)) else Inr crc"
  have u: "crc_feed_from enc src p0 e crc cs (x # chunks) = rbind (?st src) (\<lambda>c. crc_feed_from enc src p0 e c (cs + out_len x) chunks)" for src
    by (simp only: crc_feed_from.simps Let_def)
  obtain c1 where c1: "?st src = Inr c1" "crc_feed_from enc src p0 e c1 (cs + out_len x) chunks = Inr c"
    using Cons.prems(1) unfolding u rbind_eq_Inr by blast
  have "src_refines src src' i" if "x = Art i b n" for i b n using Cons.prems(2) that by auto
  hence "?st src' = Inr c1" using c1(1) by (cases x) (auto split: if_splits intro: crc_feed_art_mono)
  moreover have "crc_feed_from enc src' p0 e c1 (cs + out_len x) chunks = Inr c"
    by (rule Cons.IH [OF c1(2)]) (use Cons.prems(2) in auto)
  ultimately show ?case unfolding u by simp
qed simp

lemma lace_chunk_mono:
  "lace_chunk_loop enc src serial bos chunks laces segs seq lp pp first = Inr x \<Longrightarrow> chunks_refine src src' chunks \<Longrightarrow>
     lace_chunk_loop enc src' serial bos chunks laces segs seq lp pp first = Inr x"
proof (induction enc src serial bos chunks laces segs seq lp pp first rule: lace_chunk_loop.induct)
  case (1 enc src serial bos chunks laces segs seq lp pp first)
  show ?case
  proof (cases "first \<or> lp < length laces")
    case True
    from 1(2) True obtain c where c: "crc_feed_payload enc src (crc32_update 0 (page_header_bytes (page_flags bos first) 0 serial seq
        (slice laces lp (min (length laces - lp) 255)))) chunks pp (sum_bytes (slice laces lp (min (length laces - lp) 255))) = Inr c"
      by (subst (asm) lace_chunk_loop.simps) (auto simp: Let_def rbind_eq_Inr)
    note c' = crc_feed_mono [OF c [unfolded crc_feed_payload_def] 1(3), folded crc_feed_payload_def]
    show ?thesis using 1(2) 1(1) [OF True refl refl refl refl c _ 1(3)] True
      by (subst lace_chunk_loop.simps, subst (asm) (2) lace_chunk_loop.simps) (simp add: Let_def c c')
  next
    case False
    thus ?thesis using 1(2) by (subst lace_chunk_loop.simps, subst (asm) lace_chunk_loop.simps) simp
  qed
qed

lemma lace_all_mono:
  "lace_all enc src serial first segs seq pcs = Some (Inr x) \<Longrightarrow> \<forall>cs\<in>set pcs. chunks_refine src src' cs \<Longrightarrow>
     lace_all enc src' serial first segs seq pcs = Some (Inr x)"
proof (induction pcs arbitrary: first segs seq)
  case (Cons chunks rest)
  obtain sg used where l: "lace_chunks_to_segments enc src serial seq first chunks = Some (Inr (sg, used))"
      "lace_all enc src serial False (segs @ sg) (seq + used) rest = Some (Inr x)"
    using Cons.prems(1) by (auto simp: pbind_eq_Ok)
  obtain q where q: "lace_chunk_loop enc src serial first chunks (lacing_values (sum_list (map out_len chunks))) [] seq 0 0 True = Inr (sg, q)"
      "chunk_sizes_fit chunks" "used = q - seq"
    using l(1) by (auto simp: lace_chunks_to_segments_def Let_def rbind_eq_Inr split: if_splits)
  have "lace_chunk_loop enc src' serial first chunks (lacing_values (sum_list (map out_len chunks))) [] seq 0 0 True = Inr (sg, q)"
    by (rule lace_chunk_mono [OF q(1)]) (use Cons.prems(2) in auto)
  hence "lace_chunks_to_segments enc src' serial seq first chunks = Some (Inr (sg, used))"
    using q by (simp add: lace_chunks_to_segments_def)
  moreover have "lace_all enc src' serial False (segs @ sg) (seq + used) rest = Some (Inr x)"
    by (rule Cons.IH [OF l(2)]) (use Cons.prems(2) in auto)
  ultimately show ?case by simp
qed simp

lemma build_present:
  assumes b: "build_packets_with_art enc header tags arts = Some (Inr pcs)" and p: "arts_present art arts"
  shows "\<forall>cs\<in>set pcs. \<forall>c\<in>set cs. chunk_present art c"
proof (cases "oh_codec header")
  case OggFlac
  hence o: "oggflac_packets_with_art header tags arts = Inr pcs" using b by (simp add: build_packets_with_art_def)
  from oggflac_packets_cases [OF o] obtain ss c bps m where
    bp: "push_picture_packets (map (\<lambda>s. [Bytes s]) ss @ [[Bytes c]]) arts = Inr bps"
    and pcs: "pcs = [Bytes m] # set_last_flags 0 (length bps) bps" by metis
  obtain qs where qs: "bps = (map (\<lambda>s. [Bytes s]) ss @ [[Bytes c]]) @ qs" "\<forall>cs\<in>set qs. \<forall>c\<in>set cs. chunk_present art c"
    using push_picture_packets_shape [OF bp, of art] p by blast
  hence "\<forall>cs\<in>set bps. \<forall>c\<in>set cs. chunk_present art c" by auto
  thus ?thesis using set_last_flags_present [of bps art 0 "length bps"] by (simp add: pcs)
next
  case Opus
  thus ?thesis using b comment_chunks_present [OF _ p]
    by (fastforce simp: build_packets_with_art_def pbind_eq_Ok packet_bytes_def get_at_def rbind_eq_Inr split: if_splits option.splits)
next
  case OggVorbis
  thus ?thesis using b comment_chunks_present [OF _ p]
    by (fastforce simp: build_packets_with_art_def pbind_eq_Ok packet_bytes_def get_at_def split: if_splits option.splits)
qed

lemma ogg_layout_mono:
  assumes l: "ogg_synthesize_layout enc src header ao al tags arts = Some (Inr layout)"
    and p: "arts_present art arts" and r: "\<And>a. a \<in> set arts \<Longrightarrow> src_refines src src' (ai_art_id a)"
  shows "ogg_synthesize_layout enc src' header ao al tags arts = Some (Inr layout)"
proof -
  obtain pcs x where b: "build_packets_with_art enc header tags arts = Some (Inr pcs)"
      "lace_all enc src (oh_serial header) True [] 0 pcs = Some (Inr x)"
    using l by (auto simp: ogg_synthesize_layout_def pbind_eq_Ok)
  let ?art = "\<lambda>i. if i \<in> ai_art_id ` set arts then art i else None"
  have "arts_present ?art arts" using p by (auto simp: arts_present_def list_all_iff)
  from build_present [OF b(1) this] have "\<forall>cs\<in>set pcs. chunks_refine src src' cs"
    using r by (fastforce split: if_splits)
  thus ?thesis using l lace_all_mono [OF b(2)] by (simp add: ogg_synthesize_layout_def b)
qed

end
