(* ===== verification/Resolve_Props.thy ===== *)
theory Resolve_Props
  imports Resolve_Cache
begin

text \<open>
  The files a mount resolves over a run of its store and its file system, and the cache they share.
\<close>

subsection \<open>A build from one state of the store\<close>

definition steady :: "store \<Rightarrow> build_reads" where
  "steady s = \<lparr>rd_track = Inr s, rd_tags = Inr s, rd_art = Inr s, rd_binary = Inr s, rd_blocks = Inr s, rd_windows = (\<lambda>i off n. Inr s)\<rparr>"

text \<open>Every state the reads after the row saw, windows of images included.\<close>

definition reads_in :: "(store \<Rightarrow> bool) \<Rightarrow> build_reads \<Rightarrow> bool" where
  "reads_in P r \<longleftrightarrow>
     (\<forall>s. rd_tags r = Inr s \<or> rd_art r = Inr s \<or> rd_binary r = Inr s \<or> rd_blocks r = Inr s \<or>
        (\<exists>i off n. rd_windows r i off n = Inr s) \<longrightarrow> P s)"

lemma reads_inD:
  assumes "reads_in P r"
  shows "rd_tags r = Inr s \<Longrightarrow> P s" "rd_art r = Inr s \<Longrightarrow> P s" "rd_binary r = Inr s \<Longrightarrow> P s" "rd_blocks r = Inr s \<Longrightarrow> P s"
    "rd_windows r i off n = Inr s \<Longrightarrow> P s"
  using assms unfolding reads_in_def by blast+

text \<open>What a build takes of a row.\<close>

definition same_source :: "track \<Rightarrow> track \<Rightarrow> bool" where
  "same_source t t' \<longleftrightarrow> tr_id t' = tr_id t \<and> tr_format t' = tr_format t \<and> tr_offset t' = tr_offset t \<and> tr_len t' = tr_len t"

lemma front_again: "read_front p (Inr (m, f)) n = Inr b \<Longrightarrow> read_front p' (Inr (m', f)) n = Inr b"
  by (auto simp: read_front_def split: if_splits)

lemma source_again:
  assumes r: "reads_in (\<lambda>x. store_ok x \<and> served x i = served t i) r" and k: "k \<in> set (links_of t i)"
  shows "src_refines (db_art_source (rd_windows r)) (db_art_source (rd_windows (steady t))) (ln_art k)"
proof -
  have "read_art_chunk (blobs_of x) (ln_art k) off n = read_art_chunk (blobs_of t) (ln_art k) off n"
    if "rd_windows r (ln_art k) off n = Inr x" for x off n
    using blob_served [OF _ k, of x] reads_inD(5) [OF r that] by (simp add: read_art_chunk_def)
  thus ?thesis by (auto simp: src_refines_def db_art_source_def steady_def map_err_Inr rbind_eq_Inr)
qed

lemma flac_parts_again:
  assumes p: "flac_parts r tk (Inr (m, f)) binary = Inr p" and tk: "same_source tk tk'"
    and r: "reads_in (\<lambda>x. store_ok x \<and> served x (tr_id tk) = served t (tr_id tk)) r"
  shows "flac_parts (steady t) tk' (Inr (m', f)) binary = Inr p"
proof -
  obtain s rows where s: "rd_blocks r = Inr s" "get_structural_blocks s (tr_id tk) = Inr rows"
    using p by (auto simp: flac_parts_def rbind_eq_Inr map_err_Inr)
  have now: "rd_blocks (steady t) = Inr t" "get_structural_blocks t (tr_id tk') = Inr rows"
    using s get_blocks_served [of s "tr_id tk" t] reads_inD(4) [OF r s(1)] tk by (simp_all add: steady_def same_source_def)
  have o: "tr_offset tk' = tr_offset tk" using tk by (simp add: same_source_def)
  show ?thesis
  proof (cases "rows = []")
    case True
    then obtain front fm where h: "read_front (tr_path tk) (Inr (m, f)) (tr_offset tk) = Inr front"
        "flac_read_metadata front = Inr fm" "p = (fm_preserved fm, [])"
      using p s by (auto simp: flac_parts_def rbind_eq_Inr map_err_Inr)
    show ?thesis using front_again [OF h(1), of "tr_path tk'" m'] h(2,3) True by (simp add: flac_parts_def now o)
  next
    case False
    thus ?thesis using p by (simp add: flac_parts_def now s)
  qed
qed

lemma flac_again:
  assumes "flac_file r tk (Inr (m, f)) inputs binary arts = Inr layout" "same_source tk tk'"
    "reads_in (\<lambda>x. store_ok x \<and> served x (tr_id tk) = served t (tr_id tk)) r"
  shows "flac_file (steady t) tk' (Inr (m', f)) inputs binary arts = Inr layout"
proof -
  obtain p where p: "flac_parts r tk (Inr (m, f)) binary = Inr p" using assms(1) by (auto simp: flac_file_def rbind_eq_Inr)
  have "flac_parts (steady t) tk' (Inr (m', f)) binary = Inr p" by (rule flac_parts_again [OF p assms(2,3)])
  thus ?thesis using assms(1,2) p by (simp add: flac_file_def same_source_def)
qed

lemma mp4_again: "mp4_file tk len (Inr (m, f)) inputs binary arts = Inr layout \<Longrightarrow> mp4_file tk' len (Inr (m', f)) inputs binary arts = Inr layout"
  by (auto simp: mp4_file_def rbind_eq_Inr map_err_Inr)

lemma wav_again: "wav_file tk (Inr (m, f)) inputs binary arts = Inr layout \<Longrightarrow> same_source tk tk' \<Longrightarrow>
    wav_file tk' (Inr (m', f)) inputs binary arts = Inr layout"
  by (auto simp: wav_file_def rbind_eq_Inr map_err_Inr same_source_def dest: front_again)

lemma ogg_again:
  assumes "ogg_file enc src tk (Inr (m, f)) inputs arts = Some (Inr layout)" "same_source tk tk'"
    "arts_present art arts" "\<And>a. a \<in> set arts \<Longrightarrow> src_refines src src' (ai_art_id a)"
  shows "ogg_file enc src' tk' (Inr (m', f)) inputs arts = Some (Inr layout)"
proof -
  obtain front header where h: "read_front (tr_path tk) (Inr (m, f)) (tr_offset tk) = Inr front" "read_header front = Inr header"
      "ogg_synthesize_layout enc src header (tr_offset tk) (tr_len tk) inputs arts = Some (Inr layout)"
    using assms(1) by (auto simp: ogg_file_def pbind_eq_Ok map_err_Inr)
  note o = ogg_layout_mono [OF h(3) assms(3,4)]
  show ?thesis using front_again [OF h(1), of "tr_path tk'" m'] h(2) o assms(2) by (simp add: ogg_file_def same_source_def)
qed

lemma build_again:
  assumes b: "build_layout enc mode r tk len (Inr (m, f)) = Some (Inr layout)" and tk: "same_source tk tk'"
    and r: "reads_in (\<lambda>x. store_ok x \<and> served x (tr_id tk) = served t (tr_id tk)) r" and t: "store_ok t"
  shows "build_layout enc mode (steady t) tk' len (Inr (m', f)) = Some (Inr layout)"
proof (cases mode)
  case StructureOnly
  thus ?thesis using b by (simp add: build_layout_def)
next
  case Synthesis
  let ?i = "tr_id tk"
  obtain s1 tags s2 arts s3 binary where bounds: "\<not> sat_add64 (tr_offset tk) (tr_len tk) > len"
    and s: "rd_tags r = Inr s1" "get_tags s1 ?i = Inr tags" "rd_art r = Inr s2" "track_art_to_inputs s2 ?i = Inr arts"
      "rd_binary r = Inr s3" "binary_tags_to_inputs s3 ?i = Inr binary"
    and syn: "synthesize enc r tk len (Inr (m, f)) (tags_to_inputs tags) arts binary = Some (Inr layout)"
    using b Synthesis by (auto simp: build_layout_def pbind_eq_Ok rbind_eq_Inr map_err_Inr split: if_splits)
  have now: "get_tags t ?i = Inr tags" "track_art_to_inputs t ?i = Inr arts" "binary_tags_to_inputs t ?i = Inr binary"
    using s get_tags_served [of s1 ?i t] art_inputs_served [of s2 ?i t] get_binary_served [of s3 ?i t]
      reads_inD(1) [OF r s(1)] reads_inD(2) [OF r s(3)] reads_inD(3) [OF r s(5)] by simp_all
  note art = track_art_input [OF t now(2)]
  have present: "arts_present (st_art (blobs_of t)) arts" using art by (auto simp: arts_present_def list_all_iff)
  have src: "src_refines (db_art_source (rd_windows r)) (db_art_source (rd_windows (steady t))) (ai_art_id a)" if "a \<in> set arts" for a
    using art [OF that] source_again [OF r] by auto
  note ogg = ogg_again [OF _ tk present src, of enc m f _ layout m']
  have w: "rd_windows (steady t) = (\<lambda>i off n. Inr t)" by (simp add: steady_def)
  have eqs: "tr_format tk' = tr_format tk" "tr_offset tk' = tr_offset tk" "tr_len tk' = tr_len tk"
    using tk by (simp_all add: same_source_def)
  have "synthesize enc (steady t) tk' len (Inr (m', f)) (tags_to_inputs tags) arts binary = Some (Inr layout)"
    using syn flac_again [OF _ tk r, of m f "tags_to_inputs tags" binary arts layout m'] mp4_again [of tk len m f _ binary arts layout tk' m']
      wav_again [OF _ tk, of m f _ binary arts layout m'] ogg
    by (cases "tr_format tk") (simp_all add: synthesize_def eqs)
  thus ?thesis using tk bounds Synthesis now
    by (simp add: build_layout_def same_source_def steady_def)
qed

subsection \<open>Runs of the store and of the file system\<close>

text \<open>
  The file system over time. A stamp that is the same at two times has not been left in between, and
  stands for the same bytes: every write moves the change time of a file, and it is never set back.
\<close>

type_synonym disk = "nat \<Rightarrow> file_system"

definition stamps_advance :: "disk \<Rightarrow> bool" where
  "stamps_advance disk \<longleftrightarrow>
     (\<forall>p a b c m f m' f'. a \<le> b \<longrightarrow> b \<le> c \<longrightarrow> disk a p = Inr (m, f) \<longrightarrow> disk c p = Inr (m', f') \<longrightarrow>
        stamp_from_metadata m = stamp_from_metadata m' \<longrightarrow> (\<exists>mb. disk b p = Inr (mb, f')))"

text \<open>The reads of a resolve: the row first, the others at any time until it is done.\<close>

definition resolve_reads :: "build_reads \<Rightarrow> int set \<Rightarrow> store \<Rightarrow> int set \<Rightarrow> store \<Rightarrow> bool" where
  "resolve_reads r U s W t \<longleftrightarrow> feed_ok U s \<and> rd_track r = Inr s \<and> fresh_run U s W t \<and>
     reads_in (\<lambda>x. \<exists>V. fresh_run U s V x \<and> fresh_run V x W t) r"

text \<open>
  A file is current as long as its row keeps the version and its backing file the stamp: at every later
  state that passes both checks, its layout is what a build from that state gives.
\<close>

definition stays_current ::
  "(bytes \<Rightarrow> bytes) \<Rightarrow> serve_mode \<Rightarrow> disk \<Rightarrow> int set \<Rightarrow> store \<Rightarrow> nat \<Rightarrow> resolved_file \<Rightarrow> bool" where
  "stays_current enc mode disk U s n rf \<longleftrightarrow>
     (\<forall>V t c r m f. fresh_run U s V t \<longrightarrow> n \<le> c \<longrightarrow> find_track t (rf_track_id rf) = Some r \<longrightarrow>
        tk_version r = rf_content_version rf \<longrightarrow> disk c (rf_backing_path rf) = Inr (m, f) \<longrightarrow>
        stamp_from_metadata m = rf_stamp rf \<longrightarrow>
        build_layout enc mode (steady t) (track_value r) (fm_len m) (Inr (m, f)) = Some (Inr (rf_layout rf)))"

lemma stays_later: "stays_current enc mode disk U s n rf \<Longrightarrow> fresh_run U s V t \<Longrightarrow> n \<le> c \<Longrightarrow> stays_current enc mode disk V t c rf"
  unfolding stays_current_def by (meson feed.run_trans order_trans)

lemma row_read:
  assumes "get_track s i = Inr (Some tk)"
  obtains r where "find_track s i = Some r" "tk = track_value r" "tk_id r = i"
proof -
  obtain r rs where r: "filter (\<lambda>r. tk_id r = i) (st_tracks s) = r # rs" "row_to_track r = Inr tk"
    using assms by (auto simp: get_track_def query_optional_def rbind_eq_Inr split: list.splits)
  have "find_track s i = Some r" using r(1) by (simp add: find_track_def find_filter)
  moreover have "tk = track_value r"
    using r(2) parse_format_eq [of r]
    by (auto simp: row_to_track_def track_value_def rbind_eq_Inr from_column_def track_bounds_new_def split: if_splits)
  moreover have "tk_id r = i" using arg_cong [OF r(1), of set] by auto
  ultimately show ?thesis by (rule that)
qed

lemma same_version_serves:
  assumes ok: "feed_ok U s" and run: "fresh_run U s V x" "fresh_run V x W t"
    and row: "find_track s i = Some r" "find_track t i = Some r'" "tk_version r' = tk_version r"
  shows "served x i = served t i \<and> served s i = served t i"
proof -
  have x: "feed_ok V x" "U \<subseteq> V" using feed.run_ok [OF run(1) ok] by simp_all
  have "i \<in> U" using ok row(1) ids_find [of i s] by (auto simp: feed_ok_def)
  hence "i \<in> ids_of x" using fresh_run_gone [OF run(2), of i] x(2) row(2) ids_find [of i t] by auto
  then obtain rx where rx: "find_track x i = Some rx" by (auto simp: ids_find)
  have a: "tk_version r \<le> tk_version rx \<and> (tk_version r = tk_version rx \<longrightarrow> served x i = served s i)"
    using fresh_run_version [OF run(1) _ _ row(1) rx] ok by (simp add: feed_ok_def)
  have b: "tk_version rx \<le> tk_version r' \<and> (tk_version rx = tk_version r' \<longrightarrow> served t i = served x i)"
    using fresh_run_version [OF run(2) _ _ rx row(2)] x(1) by (simp add: feed_ok_def)
  show ?thesis using a b row(3) by auto
qed

lemma served_source: "served s i = served t i \<Longrightarrow> find_track s i = Some r \<Longrightarrow> find_track t i = Some r' \<Longrightarrow>
    tk_id r = i \<Longrightarrow> tk_id r' = i \<Longrightarrow> same_source (track_value r) (track_value r')"
  by (auto simp: served_def same_source_def track_value_def format_of_def)

lemma find_track_id: "find_track s i = Some r \<Longrightarrow> tk_id r = i"
  by (auto simp: find_track_def find_Some_iff)

lemma built_stays_current:
  assumes disk: "stamps_advance disk" and r: "resolve_reads r U s W t"
    and tk: "get_track s i = Inr (Some tk)" "disk a (tr_path tk) = Inr (m0, f0)" "stamp_from_metadata m0 = stamp_from_track tk"
    and b: "a \<le> b" "build_resolved enc mode r tk (fm_len m0) (disk b (tr_path tk)) = Some (Inr rf)"
  shows "rf_track_id rf = i \<and> stays_current enc mode disk W t b rf"
proof -
  obtain row where row: "find_track s i = Some row" "tk = track_value row" "tk_id row = i" by (rule row_read [OF tk(1)])
  have rf: "build_layout enc mode r tk (fm_len m0) (disk b (tr_path tk)) = Some (Inr (rf_layout rf))"
      "rf_track_id rf = i" "rf_content_version rf = tk_version row" "rf_backing_path rf = tr_path tk" "rf_stamp rf = stamp_from_track tk"
    using b(2) row(2,3) by (auto simp: build_resolved_def pbind_eq_Ok track_value_def)
  have "build_layout enc mode (steady t') (track_value row') (fm_len m) (Inr (m, f)) = Some (Inr (rf_layout rf))"
    if later: "fresh_run W t V t'" "b \<le> c" "find_track t' i = Some row'" "tk_version row' = rf_content_version rf"
      "disk c (tr_path tk) = Inr (m, f)" "stamp_from_metadata m = rf_stamp rf" for V t' c row' m f
  proof -
    have stamps: "stamp_from_metadata m0 = stamp_from_metadata m" using tk(3) later(6) rf(5) by simp
    then obtain mb where mb: "disk b (tr_path tk) = Inr (mb, f)"
      using disk b(1) later(2,5) tk(2) unfolding stamps_advance_def by blast
    have len: "fm_len m0 = fm_len m" using stamps by (simp add: stamp_from_metadata_def)
    have ok: "feed_ok U s" "fresh_run U s W t" using r by (simp_all add: resolve_reads_def)
    note v = later(4) [unfolded rf(3)]
    have t': "store_ok t'" using feed.run_ok [OF feed.run_trans [OF ok(2) later(1)] ok(1)] by (simp add: feed_ok_def)
    have "store_ok x \<and> served x i = served t' i" if "fresh_run U s X x" "fresh_run X x W t" for X x
      using same_version_serves [OF ok(1) that(1) feed.run_trans [OF that(2) later(1)] row(1) later(3) v]
        feed.run_ok [OF that(1) ok(1)] by (simp add: feed_ok_def)
    hence reads: "reads_in (\<lambda>x. store_ok x \<and> served x i = served t' i) r"
      using r unfolding resolve_reads_def reads_in_def by blast
    have "served s i = served t' i"
      using same_version_serves [OF ok(1) ok(2) later(1) row(1) later(3) v] by simp
    hence same: "same_source tk (track_value row')"
      unfolding row(2) by (rule served_source [OF _ row(1) later(3) row(3) find_track_id [OF later(3)]])
    have "tr_id tk = i" by (simp add: row(2,3) track_value_def)
    thus ?thesis using build_again [OF rf(1) [unfolded mb len] same _ t', of m] reads by simp
  qed
  thus ?thesis using rf(2,4) unfolding stays_current_def by auto
qed

subsection \<open>The cache of a mount\<close>

text \<open>
  The states of the cache: empty at first; carried along while the store and the file system move on;
  given the file of a resolve that may have begun at any earlier state; thinned by refreshes and by
  evictions, which are removals at any time; and its page memos rewritten by reads.
\<close>

inductive cache_reach ::
  "(bytes \<Rightarrow> bytes) \<Rightarrow> serve_mode \<Rightarrow> disk \<Rightarrow> int set \<Rightarrow> store \<Rightarrow> nat \<Rightarrow> header_cache \<Rightarrow> bool" for enc mode disk where
  fresh: "cache_reach enc mode disk U s n Map.empty"
| later: "\<lbrakk>cache_reach enc mode disk U s n h; fresh_run U s V t; n \<le> c\<rbrakk> \<Longrightarrow> cache_reach enc mode disk V t c h"
| filled: "\<lbrakk>cache_reach enc mode disk W t c h; resolve_reads r U s W t; get_track s i = Inr (Some tk);
     disk a (tr_path tk) = Inr (m, f); stamp_from_metadata m = stamp_from_track tk; a \<le> b; b \<le> c;
     build_resolved enc mode r tk (fm_len m) (disk b (tr_path tk)) = Some (Inr rf)\<rbrakk> \<Longrightarrow>
     cache_reach enc mode disk W t c (h(i \<mapsto> rf))"
| retained: "cache_reach enc mode disk U s n h \<Longrightarrow> cache_reach enc mode disk U s n (cache_retain live h)"
| removed: "cache_reach enc mode disk U s n h \<Longrightarrow> cache_reach enc mode disk U s n (cache_remove i h)"
| memoized: "\<lbrakk>cache_reach enc mode disk U s n h; h i = Some rf\<rbrakk> \<Longrightarrow>
     cache_reach enc mode disk U s n (h(i \<mapsto> rf\<lparr>rf_last_page := memo\<rparr>))"

lemma stays_memo: "stays_current enc mode disk U s n (rf\<lparr>rf_last_page := memo\<rparr>) = stays_current enc mode disk U s n rf"
  by (simp add: stays_current_def)

lemma cached_stays_current:
  assumes disk: "stamps_advance disk" and h: "cache_reach enc mode disk U s n h"
  shows "h i = Some rf \<Longrightarrow> rf_track_id rf = i \<and> stays_current enc mode disk U s n rf"
  using h
proof (induction arbitrary: i rf rule: cache_reach.induct)
  case (later U s n h V t c)
  thus ?case using stays_later by blast
next
  case (filled W t c h r U s i0 tk a m f b rf0)
  have "rf_track_id rf0 = i0 \<and> stays_current enc mode disk W t b rf0"
    by (rule built_stays_current [OF disk filled.hyps(2-6,8)])
  hence "rf_track_id rf0 = i0 \<and> stays_current enc mode disk W t c rf0"
    using stays_later [OF _ fresh_run.start filled.hyps(7)] by blast
  thus ?case using filled.IH filled.prems by (auto split: if_splits)
next
  case (retained U s n h live)
  thus ?case by (auto simp: cache_retain_def restrict_map_def split: if_splits)
next
  case (removed U s n h i0)
  thus ?case by (auto simp: cache_remove_def split: if_splits)
next
  case (memoized U s n h i0 rf0 memo)
  thus ?case by (auto simp: stays_memo split: if_splits)
qed simp

text \<open>C5: Resolved files stay current: whatever was written between the reads of a resolve, and whether it
  hit the cache that other resolves, evictions and refreshes share or built the file, the file it
  returns carries the version, path and stamp of the row it read; and at every later state where its
  row still has that version and its backing file that stamp, it is the one a build from the rows and
  the file of that state gives.
\<close>

theorem resolve_stays_current:
  assumes "stamps_advance disk" "resolve_reads r U s W t" "a \<le> b"
    "fresh_run U s X x" "fresh_run X x W t" "cache_reach enc mode disk X x n h" "n \<le> b"
    "resolve enc mode r (disk a) (disk b) i h = Some (Inr rf, h')"
    "fresh_run W t V t'" "b \<le> c" "find_track t' i = Some row" "tk_version row = rf_content_version rf"
    "disk c (rf_backing_path rf) = Inr (m, f)" "stamp_from_metadata m = rf_stamp rf"
  shows "build_layout enc mode (steady t') (track_value row) (fm_len m) (Inr (m, f)) = Some (Inr (rf_layout rf)) \<and>
    (\<exists>tk. get_track s i = Inr (Some tk) \<and> rf_content_version rf = tr_version tk \<and> rf_backing_path rf = tr_path tk \<and>
       rf_stamp rf = stamp_from_track tk)"
proof -
  have rd: "rd_track r = Inr s" using assms(2) by (simp add: resolve_reads_def)
  obtain tk m0 f0 where tk: "get_track s i = Inr (Some tk)" "disk a (tr_path tk) = Inr (m0, f0)" "stamp_from_metadata m0 = stamp_from_track tk"
    using assms(8) rd by (auto simp: resolve_def map_err_Inr split: sum.splits option.splits if_splits prod.splits)
  let ?carries = "rf_content_version rf = tr_version tk \<and> rf_backing_path rf = tr_path tk \<and> rf_stamp rf = stamp_from_track tk"
  have "rf_track_id rf = i \<and> stays_current enc mode disk W t b rf \<and> ?carries"
  proof (cases "cache_hit i tk h")
    case (Some hit)
    hence "rf = hit" using assms(8) rd tk by (simp add: resolve_def)
    hence hit: "h i = Some rf" ?carries using Some by (auto simp: cache_hit_def split: option.splits if_splits)
    from cached_stays_current [OF assms(1,6) hit(1)] show ?thesis using stays_later assms(5,7) hit(2) by blast
  next
    case None
    then obtain res where res: "build_resolved enc mode r tk (fm_len m0) (disk b (tr_path tk)) = Some res"
      using assms(8) rd tk by (auto simp: resolve_def)
    hence "res = Inr rf" using assms(8) rd tk None by (cases res) (simp_all add: resolve_def)
    hence "build_resolved enc mode r tk (fm_len m0) (disk b (tr_path tk)) = Some (Inr rf)" using res by simp
    moreover from this have ?carries by (auto simp: build_resolved_def pbind_eq_Ok)
    ultimately show ?thesis using built_stays_current [OF assms(1,2) tk assms(3)] by simp
  qed
  thus ?thesis using assms(9-14) tk(1) unfolding stays_current_def by blast
qed

definition demo_flac_file :: bytes where
  "demo_flac_file = [102, 76, 97, 67, 128, 0, 0, 34] @ replicate 134 0"

definition demo_disk :: disk where
  "demo_disk n p = (if p = ''/m/a.flac''
     then Inr (\<lparr>fm_len = 142, fm_mtime = 0, fm_mtime_nsec = 7, fm_ctime = 0, fm_ctime_nsec = 7\<rparr>, demo_flac_file) else Inl NotFound)"

definition demo_track :: track_row where "demo_track = hd (st_tracks demo_db_hashed)"

lemma demo_stamps: "stamps_advance demo_disk"
  by (simp add: stamps_advance_def demo_disk_def)

lemma demo_steady: "resolve_reads (steady demo_db) (ids_of demo_db) demo_db (ids_of demo_db) demo_db"
  using demo_db_ok fresh_run.start by (auto simp: resolve_reads_def reads_in_def steady_def feed_ok_def)

lemma demo_resolved:
  obtains rf h' where "resolve (\<lambda>b. b) Synthesis (steady demo_db) (demo_disk 0) (demo_disk 0) 1 Map.empty = Some (Inr rf, h')"
    "rf_content_version rf = 0" "rf_backing_path rf = ''/m/a.flac''"
    "rf_stamp rf = \<lparr>bs_size = 142, bs_mtime_ns = 7, bs_ctime_ns = 7\<rparr>" "rl_total_len (rf_layout rf) = 160"
proof -
  have "case resolve (\<lambda>b. b) Synthesis (steady demo_db) (demo_disk 0) (demo_disk 0) 1 Map.empty of
      Some (Inr rf, _) \<Rightarrow> rf_content_version rf = 0 \<and> rf_backing_path rf = ''/m/a.flac'' \<and>
        rf_stamp rf = \<lparr>bs_size = 142, bs_mtime_ns = 7, bs_ctime_ns = 7\<rparr> \<and> rl_total_len (rf_layout rf) = 160
    | _ \<Rightarrow> False" by code_simp
  thus ?thesis by (auto intro: that split: option.splits sum.splits prod.splits)
qed

lemma resolve_stays_current_witness:
  "\<exists>layout. build_layout (\<lambda>b. b) Synthesis (steady demo_db_hashed) (track_value demo_track) 142 (demo_disk 3 ''/m/a.flac'') =
     Some (Inr layout) \<and> rl_total_len layout = 160"
proof (rule demo_resolved)
  fix rf h'
  assume rf: "resolve (\<lambda>b. b) Synthesis (steady demo_db) (demo_disk 0) (demo_disk 0) 1 Map.empty = Some (Inr rf, h')"
    "rf_content_version rf = 0" "rf_backing_path rf = ''/m/a.flac''"
    "rf_stamp rf = \<lparr>bs_size = 142, bs_mtime_ns = 7, bs_ctime_ns = 7\<rparr>" "rl_total_len (rf_layout rf) = 160"
  have row: "find_track demo_db_hashed 1 = Some demo_track" "tk_version demo_track = 0" by code_simp+
  have f: "demo_disk 3 ''/m/a.flac'' = Inr (\<lparr>fm_len = 142, fm_mtime = 0, fm_mtime_nsec = 7, fm_ctime = 0, fm_ctime_nsec = 7\<rparr>, demo_flac_file)"
    by (simp add: demo_disk_def)
  show ?thesis
    using resolve_stays_current [OF demo_stamps demo_steady order_refl start start fresh order_refl rf(1)
        demo_hashed_run _ row(1), of 3] row(2) rf(2-5) f
    by (simp add: stamp_from_metadata_def nanos_per_sec_def sat_i64_def)
qed

end
