(* ===== verification/Spec2Isabelle.thy ===== *)
theory Spec2Isabelle
  imports Flac_Synth Ogg_Roundtrip Wav_Roundtrip Mp4_Roundtrip Reader Handles Template Tree_Props Refresh_Props Resolve_Props
begin

text \<open>
  musefs serves a read-only view of an audio library: the tags and pictures of a file come from a
  SQLite store, its audio from the untouched backing file, and its path from a template over the tags.

  \<^bold>\<open>The parts and how they interact.\<close> The scanner and outside taggers write the store (musefs-db). A mount
  (musefs-core/src/facade.rs) renders every track of the store to a path, builds a tree of inodes from
  the paths, and follows the store by its changelog (facade/refresh.rs). When a file is opened, its rows
  are mapped to synthesis inputs (mapping.rs), a synthesizer of musefs-format writes new metadata and
  describes the served file as a list of segments, a region layout: inline bytes, ranges of the backing
  file, and ranges of stored blobs. A read (reader.rs, ogg_index.rs) cuts its window out of the
  layout, through a per-handle read-ahead (readahead.rs).

  \<^bold>\<open>Theories and sources.\<close>
  \<^item> Prelude, Format_Base, Core_Base, Decimal: results as sums (Inl an error, Inr a value), byte codecs,
    checked sizes, decimal numerals; the errors and inputs of musefs-format (error.rs, bytes.rs,
    size.rs, input.rs, probe.rs), of musefs-core (error.rs) and musefs-db (error.rs).
  \<^item> Layout: layout.rs. A segment stands for bytes (seg_bytes); that is what synthesizers and the
    reader are checked against.
  \<^item> Tagmap, Vorbis, Id3v2: tagmap.rs, vorbiscomment.rs, id3v2.rs.
  \<^item> Flac, Flac_Synth: flac.rs. Wav, Wav_Roundtrip: wav.rs. Mp3, Mp3_Read, Mp3_Roundtrip: mp3.rs.
  \<^item> Mp4, Mp4_Tags, Mp4_Synth: mp4.rs and mp4/synth.rs; Mp4_Boxes, Mp4_Tiles, Mp4_Ilst, Mp4_Items,
    Mp4_Offsets, Mp4_File, Mp4_Reread, Mp4_Seek, Mp4_Roundtrip: what the readers see of written boxes.
  \<^item> Crc, Base64, Page, Lacing, Page_Chunks, Ogg, Ogg_Synth, Ogg_Roundtrip: musefs-format/src/ogg.
    Ogg_Serve: musefs-core/src/ogg_index.rs.
  \<^item> Reader: the reads of reader.rs, with freshness.rs. Readahead: readahead.rs; Handles: the open handles
    and reads in flight around it (the Handle part of facade.rs). Resolve: the rest of reader.rs, resolving a track through the cache of resolved files; Resolve_Cache, Resolve_Props: what
    a build depends on, and that a resolved file stays current.
  \<^item> Template: template.rs. Tree_Names, Tree, Tree_Apply: tree.rs; Tree_Inv, Tree_Insert, Tree_Remove,
    Tree_Total, Tree_Walks, Tree_Changes, Tree_Reach, Tree_Demo, Tree_Fresh, Tree_Props: its invariant
    and properties.
  \<^item> Refresh_Diff: refresh_diff.rs. Store: schema.rs. Store_Ops: tracks.rs, tags.rs, art.rs, structural.rs,
    bulk.rs, models.rs, limits.rs; Store_Log, Store_Steps, Store_Runs, Store_Reads: what the statements log
    and keep. Render, Path_Text: mapping.rs and the rendering half of facade/refresh.rs.
  \<^item> Change_Feed: the contract of the changelog as a locale, and its interpretation on the store.
    Refresh, Refresh_Sync, Refresh_Props: facade/refresh.rs and the opening of a mount.

  \<^bold>\<open>State and operations.\<close> A definition has the name of the function it models, with a prefix where two
  modules share a name (flac_, mp3_, wav_, mp4_, ogg_). Lengths and offsets are natural numbers with the
  checked operations of the code at their bounds, bytes and hash words keep their width, a string is the
  list of its UTF-8 bytes. A fallible function returns a sum; where the code can panic or a loop could run
  on, the outer option is None, and the properties show that it is not. A table of the store is the list
  of its rows; a statement is checked against the constraints and runs its triggers. A hash map whose
  order the code never reads is a list of pairs or a partial map; where an order could show
  (the walk of apply_changes over a set) it is a parameter. What several threads do is a sequence of
  steps: of the streams and jobs of the read-ahead, of writes and polls of a mount. Every read of the
  store in a poll or a resolve is an argument, so that writes may fall between any two of them.

  \<^bold>\<open>What the lemmas show.\<close>
  \<^item> Formats: a synthesized file parses back to what was put in (structure, tags, pictures, opaque
    values, audio range) for FLAC, Ogg, MP3, WAV and MP4; the bounded and the seeking readers agree with
    the whole-buffer ones; chunk offsets are moved and nothing else is; checksums computed by streaming,
    by matrix shifts and by patching are those of the whole page.
  \<^item> Serving: validated layouts are exactly the well-formed ones; a read returns the slice of the
    abstract file, past renumbered Ogg pages and base64 windows too, or an error when file or version changed
    (an Ogg seek succeeds where its search window holds a page start, seekable, and Ogg_Serve shows a
    valid file where it does not); the read-ahead never serves other bytes and its budget is the sum of
    its windows, but a read racing a release can leave bytes charged for good; a cached or built
    file is the one its rows and its backing file describe as long as version and stamp are the same.
  \<^item> Tree: every tree a mount goes through is well formed, listing, lookup and parents agree,
    the incremental update reflects the new render states (each track under the names it asks for up
    to ranks; exactly as a full build when the root is rebuilt), and a path keeps its inode.
  \<^item> Store: every operation, and every outside statement that leaves tags and pictures on their tracks
    and foreign keys on (row_step), keeps the constraints; the ring is bounded and its gap
    test exact; the changelog names every change; content_version stamps what a track is served from.
  \<^item> Refresh: a mount stays in sync with the changelog whatever is written between the reads of its
    polls, and a poll that passes the gates on a resting store catches up with it completely.

  \<^bold>\<open>Bounds and fuel.\<close> Loops without structural recursion are functions with a measure or carry the length of
  their input as fuel, and a lemma shows that it is enough (the template parser, page and box walks, the read loop
  and the Ogg page walk); the walks of the tree are partial functions, shown to return on
  every well-formed tree. The rank counter of the tree has 32 bits: the refresh properties ask for fewer
  than half that many track ids.

  \<^bold>\<open>What is assumed of code outside the repository.\<close> The base64 encoder (padded standard alphabet), the
  parser of the id3 crate, Unicode lowercasing (idempotent, compatible with the separators) and SHA-256 are parameters; locales
  name the laws used, and are interpreted on RFC 4648 and on ASCII folding. The engine of the store is
  modelled by its documented semantics: statements atomic, triggers in order, snapshots consistent. Of
  the file system, a stamp seen twice stands for the same bytes all the while (stamps_advance), and
  of an Ogg file that nothing inside a payload passes the checksum of a page (sealed_pages). The
  cache library keeps, replaces or drops entries.

  \<^bold>\<open>Not modelled.\<close> Directory scanning, attributes and their cache, the kernel protocol, the command
  line, metrics, the connection pool and the warning limiter: input and output, library containers and
  blocking primitives. Schema migrations, blob streams and read transactions of the store. Deleting the
  newest track and adding one reuses its id; the properties of versions and mounts exclude it, and
  Store_Runs shows what happens otherwise, as it does for an outside update that moves a tag (one that moves a picture behaves alike).
\<close>

end
